(* ===== verification/Prelude.thy ===== *)
theory Prelude
  imports Main "HOL-Library.AList" "HOL-Library.Monad_Syntax" "HOL-Library.Sublist"
    "HOL-Library.Code_Target_Nat"
begin

text \<open>
  Shared vocabulary of the development.

  \<^item> \<^emph>\<open>Rust primitives\<close>: saturating arithmetic at a width, \<open>div_ceil\<close>, vector indexing and
    slicing. A function whose Rust original can panic or fail to return has a result of type
    \<open>'a option\<close>: \<open>None\<close> is "no normal return". A Rust \<open>Result\<close> is a sum (\<open>Inl\<close> the error).
  \<^item> \<^emph>\<open>Hash maps\<close> that the code iterates over are association lists without repeated keys;
    \<open>insert\<close> is \<^const>\<open>AList.update\<close>, \<open>get\<close> is \<^const>\<open>map_of\<close>, \<open>retain\<close> is \<^const>\<open>filter\<close>. The list
    order stands for the unspecified iteration order, and no property depends on it.
  \<^item> \<^emph>\<open>Traversals in the option monad\<close> and the list lemmas the components share.
\<close>

named_theorems rust_simps \<open>unfolding rules for the Rust primitives\<close>
named_theorems hmap_simps \<open>lookup rules for association-list hash maps\<close>

subsection \<open>Machine integers\<close>

definition u32_max :: nat where
  "u32_max = 2 ^ 32 - 1"

definition u64_max :: nat where
  "u64_max = 2 ^ 64 - 1"

text \<open>\<open>usize\<close> on the 64-bit targets the program supports.\<close>

definition usize_max :: nat where
  "usize_max = 2 ^ 64 - 1"

definition saturating_add :: "nat \<Rightarrow> nat \<Rightarrow> nat \<Rightarrow> nat" where
  "saturating_add m a b = min m (a + b)"

definition saturating_mul :: "nat \<Rightarrow> nat \<Rightarrow> nat \<Rightarrow> nat" where
  "saturating_mul m a b = min m (a * b)"

definition div_ceil :: "nat \<Rightarrow> nat \<Rightarrow> nat" where
  "div_ceil a b = (if a mod b = 0 then a div b else a div b + 1)"

lemma saturating_add_le [simp]: "saturating_add m a b \<le> m"
  by (simp add: saturating_add_def)

lemma saturating_add_exact: "a + b \<le> m \<Longrightarrow> saturating_add m a b = a + b"
  by (simp add: saturating_add_def)

lemma saturating_add_mono: "b \<le> c \<Longrightarrow> saturating_add m a b \<le> saturating_add m a c"
  by (auto simp: saturating_add_def)

lemma div_ceil_0 [simp]: "div_ceil 0 b = 0"
  by (simp add: div_ceil_def)

lemma div_ceil_mult_le: "0 < b \<Longrightarrow> a \<le> div_ceil a b * b"
proof -
  assume "0 < b"
  then have "a mod b < b" by simp
  moreover have "(a div b + 1) * b = a div b * b + b" by (simp add: algebra_simps)
  moreover note div_mult_mod_eq [of a b]
  ultimately have "a \<le> (a div b + 1) * b" by linarith
  moreover have "a \<le> a div b * b" if "a mod b = 0" using that by auto
  ultimately show ?thesis by (simp add: div_ceil_def)
qed

lemma div_ceil_least: "0 < b \<Longrightarrow> a \<le> k * b \<Longrightarrow> div_ceil a b \<le> k"
proof -
  assume b: "0 < b" and le: "a \<le> k * b"
  show ?thesis
  proof (cases "a mod b = 0")
    case True
    then show ?thesis using b le by (simp add: div_ceil_def) (metis div_le_mono nonzero_mult_div_cancel_right not_gr_zero)
  next
    case False
    then have "a \<noteq> k * b" by auto
    then have "a < k * b" using le by simp
    then have "a div b < k" using b by (simp add: div_less_iff_less_mult)
    with False show ?thesis by (simp add: div_ceil_def)
  qed
qed

lemma div_ceil_le_iff: "0 < b \<Longrightarrow> div_ceil a b \<le> k \<longleftrightarrow> a \<le> k * b"
  by (meson div_ceil_least div_ceil_mult_le le_trans mult_le_mono1)

lemma div_ceil_mono: "0 < b \<Longrightarrow> a \<le> a' \<Longrightarrow> div_ceil a b \<le> div_ceil a' b"
  by (meson div_ceil_least div_ceil_mult_le le_trans)

subsection \<open>Indexing and slicing\<close>

definition get_at :: "'a list \<Rightarrow> nat \<Rightarrow> 'a option" where
  "get_at xs i = (if i < length xs then Some (xs ! i) else None)"

definition slice :: "nat \<Rightarrow> nat \<Rightarrow> 'a list \<Rightarrow> 'a list option" where
  "slice a b xs = (if a \<le> b \<and> b \<le> length xs then Some (take (b - a) (drop a xs)) else None)"

lemma get_at_Some [simp]: "get_at xs i = Some x \<longleftrightarrow> i < length xs \<and> x = xs ! i"
  by (auto simp: get_at_def)

lemma get_at_None [simp]: "get_at xs i = None \<longleftrightarrow> length xs \<le> i"
  by (simp add: get_at_def)

lemma get_at_less [simp]: "i < length xs \<Longrightarrow> get_at xs i = Some (xs ! i)"
  by simp

lemma slice_Some: "a \<le> b \<Longrightarrow> b \<le> length xs \<Longrightarrow> slice a b xs = Some (take (b - a) (drop a xs))"
  by (simp add: slice_def)

lemma take_append_slice: "a \<le> b \<Longrightarrow> take a xs @ take (b - a) (drop a xs) = take b xs"
  by (metis le_add_diff_inverse take_add)

subsection \<open>Association lists as hash maps\<close>

type_synonym ('k, 'v) hmap = "('k \<times> 'v) list"

definition hm_modify :: "'k \<Rightarrow> ('v \<Rightarrow> 'v) \<Rightarrow> ('k, 'v) hmap \<Rightarrow> ('k, 'v) hmap" where
  "hm_modify k f m = map (\<lambda>(k', v). (k', if k' = k then f v else v)) m"

lemma map_of_hm_modify [simp, hmap_simps]:
  "map_of (hm_modify k f m) x = (if x = k then map_option f (map_of m x) else map_of m x)"
  by (induction m) (auto simp: hm_modify_def)

lemma fst_hm_modify [simp, hmap_simps]: "map fst (hm_modify k f m) = map fst m"
  by (induction m) (auto simp: hm_modify_def)

lemma map_of_filter_snd:
  "distinct (map fst m) \<Longrightarrow> map_of (filter (\<lambda>e. P (snd e)) m) k =
     (case map_of m k of None \<Rightarrow> None | Some v \<Rightarrow> if P v then Some v else None)"
proof (induction m)
  case (Cons e m)
  have "map_of m (fst e) = None" using Cons.prems by (simp add: map_of_eq_None_iff)
  with Cons show ?case by (auto split: option.splits)
qed simp

lemma distinct_map_fst_filter [simp]:
  "distinct (map fst m) \<Longrightarrow> distinct (map fst (filter P m))"
  by (induction m) auto

lemma map_of_mem: "distinct (map fst m) \<Longrightarrow> (k, v) \<in> set m \<longleftrightarrow> map_of m k = Some v"
  by (metis map_of_SomeD map_of_is_SomeI)

subsection \<open>Traversals that may not return\<close>

fun any_opt :: "('a \<Rightarrow> bool option) \<Rightarrow> 'a list \<Rightarrow> bool option" where
  "any_opt p [] = Some False"
| "any_opt p (x # xs) = do { b \<leftarrow> p x; if b then Some True else any_opt p xs }"

fun all_opt :: "('a \<Rightarrow> bool option) \<Rightarrow> 'a list \<Rightarrow> bool option" where
  "all_opt p [] = Some True"
| "all_opt p (x # xs) = do { b \<leftarrow> p x; if b then all_opt p xs else Some False }"

lemma any_opt_total:
  "(\<And>x. x \<in> set xs \<Longrightarrow> p x = Some (q x)) \<Longrightarrow> any_opt p xs = Some (\<exists>x\<in>set xs. q x)"
  by (induction xs) auto

lemma all_opt_total:
  "(\<And>x. x \<in> set xs \<Longrightarrow> p x = Some (q x)) \<Longrightarrow> all_opt p xs = Some (\<forall>x\<in>set xs. q x)"
  by (induction xs) auto

end
