(* ===== verification/Rust_Bytes.thy ===== *)
theory Rust_Bytes
  imports "HOL-Library.Word" Prelude
begin

text \<open>
  Bytes as \<open>8 word\<close>, the little-endian encodings of the standard library, and the lower-case
  hexadecimal digits that name block files.
\<close>

type_synonym u8 = "8 word"

fun to_le_bytes :: "nat \<Rightarrow> nat \<Rightarrow> u8 list" where
  "to_le_bytes 0 n = []"
| "to_le_bytes (Suc k) n = word_of_nat (n mod 256) # to_le_bytes k (n div 256)"

fun from_le_bytes :: "u8 list \<Rightarrow> nat" where
  "from_le_bytes [] = 0"
| "from_le_bytes (b # bs) = unat b + 256 * from_le_bytes bs"

lemma length_to_le_bytes [simp]: "length (to_le_bytes k n) = k"
  by (induction k arbitrary: n) auto

lemma from_to_le_bytes [simp]: "from_le_bytes (to_le_bytes k n) = n mod 256 ^ k"
proof (induction k arbitrary: n)
  case (Suc k)
  have "unat (word_of_nat (n mod 256) :: u8) = n mod 256" by (simp add: unat_of_nat)
  then show ?case using Suc by (simp add: mod_mult2_eq mult.commute)
qed simp

subsection \<open>Hexadecimal\<close>

definition hex_digit :: "nat \<Rightarrow> char" where
  "hex_digit n = ''0123456789abcdef'' ! n"

definition hex_byte :: "u8 \<Rightarrow> string" where
  "hex_byte b = [hex_digit (unat (drop_bit 4 b)), hex_digit (unat (and b 15))]"

definition hex_string :: "u8 list \<Rightarrow> string" where
  "hex_string bs = concat (map hex_byte bs)"

definition hex_value :: "char \<Rightarrow> u8 option" where
  "hex_value c = (let n = of_char c :: nat in
     if 48 \<le> n \<and> n \<le> 57 then Some (word_of_nat (n - 48))
     else if 97 \<le> n \<and> n \<le> 102 then Some (word_of_nat (n - 97 + 10))
     else None)"

fun unhex :: "string \<Rightarrow> u8 list option" where
  "unhex [] = Some []"
| "unhex [c] = Some []"
| "unhex (c # d # cs) = do {
     hi \<leftarrow> hex_value c; lo \<leftarrow> hex_value d; rest \<leftarrow> unhex cs;
     Some (or (push_bit 4 hi) lo # rest)
   }"

lemma length_hex_string [simp]: "length (hex_string bs) = 2 * length bs"
  by (induction bs) (auto simp: hex_string_def hex_byte_def)

lemma hex_value_digit: "n < 16 \<Longrightarrow> hex_value (hex_digit n) = Some (word_of_nat n)"
proof -
  assume "n < 16"
  then have "n \<in> set [0..<16]" by simp
  moreover have "\<forall>n\<in>set [0..<16]. hex_value (hex_digit n) = Some (word_of_nat n)" by code_simp
  ultimately show ?thesis by blast
qed

lemma nibbles: "unat (drop_bit 4 (b :: u8)) < 16" "unat (and b (15 :: u8)) < 16"
proof -
  have "unat b < 256" by (rule order_less_le_trans [OF unsigned_less]) simp
  moreover have "unat (drop_bit 4 b) = unat b div 2 ^ 4" unfolding unat_drop_bit_eq by (rule drop_bit_eq_div)
  ultimately show "unat (drop_bit 4 b) < 16" by simp
  have "and b 15 = take_bit 4 b" by (simp add: take_bit_eq_mask mask_eq_exp_minus_1)
  moreover have "unat (take_bit 4 b) = unat b mod 2 ^ 4" unfolding unsigned_take_bit_eq by (rule take_bit_eq_mod)
  ultimately show "unat (and b (15 :: u8)) < 16" by (simp only:) simp
qed

lemma nibbles_join: "or (push_bit 4 (drop_bit 4 b)) (and b (15 :: u8)) = b"
proof -
  have "and b 15 = take_bit 4 b" by (simp add: take_bit_eq_mask mask_eq_exp_minus_1)
  then show ?thesis by (auto intro!: bit_word_eqI simp: bit_simps)
qed

lemma unhex_hex_string [simp]: "unhex (hex_string bs) = Some bs"
  by (induction bs) (simp_all add: hex_string_def hex_byte_def hex_value_digit nibbles nibbles_join)

lemma hex_digit_char: "n < 16 \<Longrightarrow> hex_digit n = char_of (if n < 10 then n + 48 else n + 87)"
proof -
  assume "n < 16"
  then have "n \<in> set [0..<16]" by simp
  moreover have "\<forall>n\<in>set [0..<16]. hex_digit n = char_of (if n < 10 then n + 48 else n + 87)" by code_simp
  ultimately show ?thesis by blast
qed

lemma unat_small: "k < 256 \<Longrightarrow> unat (word_of_nat k :: u8) = k"
  by (simp add: unat_of_nat)

lemma hex_value_unique: "hex_value c = Some v \<Longrightarrow> unat v < 16 \<and> c = hex_digit (unat v)"
proof -
  assume v: "hex_value c = Some v"
  define n where "n = (of_char c :: nat)"
  have c: "c = char_of n" by (simp add: n_def)
  from v have "48 \<le> n \<and> n \<le> 57 \<and> v = word_of_nat (n - 48) \<or> 97 \<le> n \<and> n \<le> 102 \<and> v = word_of_nat (n - 97 + 10)"
    by (auto simp: hex_value_def n_def [symmetric] Let_def split: if_splits)
  then show ?thesis
  proof
    assume h: "48 \<le> n \<and> n \<le> 57 \<and> v = word_of_nat (n - 48)"
    define k where "k = n - 48"
    with h have k: "n = k + 48" "k < 10" by auto
    then have "unat v = k" using h unat_small [of k] by simp
    then show ?thesis using hex_digit_char [of k] c k by simp
  next
    assume h: "97 \<le> n \<and> n \<le> 102 \<and> v = word_of_nat (n - 97 + 10)"
    define k where "k = n - 97"
    with h have k: "n = k + 97" "k < 6" by auto
    then have "unat v = k + 10" using h unat_small [of "k + 10"] by simp
    then show ?thesis using hex_digit_char [of "k + 10"] c k by simp
  qed
qed

lemma take_bit_nibble: "unat (b :: u8) < 16 \<Longrightarrow> take_bit 4 b = b"
proof -
  assume "unat b < 16"
  then have "unat (take_bit 4 b) = unat b" unfolding unsigned_take_bit_eq by (simp add: take_bit_nat_eq_self)
  then show ?thesis by (rule unsigned_word_eqI)
qed

lemma nibble_parts:
  assumes "unat (hi :: u8) < 16" "unat (lo :: u8) < 16"
  shows "drop_bit 4 (or (push_bit 4 hi) lo) = hi" "and (or (push_bit 4 hi) lo) 15 = lo"
proof -
  have h: "take_bit 4 hi = hi" and l: "take_bit 4 lo = lo" using assms by (simp_all add: take_bit_nibble)
  have "drop_bit 4 (or (push_bit 4 (take_bit 4 hi)) (take_bit 4 lo)) = take_bit 4 hi"
    by (rule bit_word_eqI) (auto simp: bit_simps)
  then show "drop_bit 4 (or (push_bit 4 hi) lo) = hi" by (simp only: h l)
  have "take_bit 4 (or (push_bit 4 (take_bit 4 hi)) (take_bit 4 lo)) = take_bit 4 lo"
    by (rule bit_word_eqI) (auto simp: bit_simps)
  moreover have "and b 15 = take_bit 4 b" for b :: u8 by (simp add: take_bit_eq_mask mask_eq_exp_minus_1)
  ultimately show "and (or (push_bit 4 hi) lo) 15 = lo" by (simp only: h l)
qed

end
