(* ===== verification/Kv_Types.thy ===== *)
theory Kv_Types
  imports Rust_Bytes Prelude
begin

text \<open>
  The domain types of \<open>infer/src/types.rs\<close>, \<open>infer/src/kv_tier/tier.rs\<close>, \<open>kv_tier/chunk.rs\<close>
  and \<open>kv_tier/lookup.rs\<close>: block identifiers, content fingerprints, tiers and locations, the
  index and store states of a cached block, and the result types of a prefix lookup.
  Tokens, block ids and counters are natural numbers; saturation at a width is written out at
  the operations that saturate.
\<close>

type_synonym token = nat
type_synonym block_id = nat
type_synonym fingerprint = "u8 list"
type_synonym request_id = nat

datatype inference_mode = Prefill | Decode

datatype request_event_kind =
  Enqueued | Requeued | PrefillStarted | DecodeStep | Evicted | Completed | Cancelled

text \<open>Tiers, ordered by distance from compute.\<close>

datatype tier = TGpu | THostPinned | TDisk | TRemote

fun tier_rank :: "tier \<Rightarrow> nat" where
  "tier_rank TGpu = 0"
| "tier_rank THostPinned = 1"
| "tier_rank TDisk = 2"
| "tier_rank TRemote = 3"

instantiation tier :: linorder
begin

definition less_eq_tier :: "tier \<Rightarrow> tier \<Rightarrow> bool" where
  "less_eq_tier a b \<longleftrightarrow> tier_rank a \<le> tier_rank b"

definition less_tier :: "tier \<Rightarrow> tier \<Rightarrow> bool" where
  "less_tier a b \<longleftrightarrow> tier_rank a < tier_rank b"

instance
proof
  fix x y :: tier
  show "x \<le> y \<Longrightarrow> y \<le> x \<Longrightarrow> x = y"
    by (cases x; cases y) (simp_all add: less_eq_tier_def)
qed (auto simp: less_eq_tier_def less_tier_def)

end

datatype transport_id = Nixl | SharedFilesystem | Mooncake | Reserved

record remote_block_desc =
  transport :: transport_id
  payload :: "u8 list"

datatype block_location =
    Gpu (slot: nat)
  | HostPinned (offset: nat)
  | Disk (disk_fingerprint: fingerprint) (payload_len: nat)
  | Remote (desc: remote_block_desc)

fun tier_of :: "block_location \<Rightarrow> tier" where
  "tier_of (Gpu _) = TGpu"
| "tier_of (HostPinned _) = THostPinned"
| "tier_of (Disk _ _) = TDisk"
| "tier_of (Remote _) = TRemote"

fun is_remote :: "block_location \<Rightarrow> bool" where
  "is_remote (Remote _) = True"
| "is_remote _ = False"

datatype index_entry_state = Ready | Pending | Evicting

datatype store_state = Idle | SPending | Storing | Stored | Failed

datatype hit_kind = ReadyOnGpu | StagingFromHost | StagingFromDisk | Miss

record lookup_block =
  lb_block_id :: "block_id option"
  lb_hit_kind :: hit_kind

record lookup_outcome =
  matched_len :: nat
  lo_blocks :: "lookup_block list"
  recompute_advised :: bool

text \<open>
  The classification every prefix walk repeats: the tier of a block says how it can be reused,
  and an entry that is not \<open>Ready\<close> is a miss whatever its tier.
\<close>

fun hit_of_location :: "block_location option \<Rightarrow> hit_kind" where
  "hit_of_location (Some (HostPinned _)) = StagingFromHost"
| "hit_of_location (Some (Disk _ _)) = StagingFromDisk"
| "hit_of_location (Some (Remote _)) = StagingFromDisk"
| "hit_of_location (Some (Gpu _)) = ReadyOnGpu"
| "hit_of_location None = ReadyOnGpu"

definition classify_hit :: "block_location option \<Rightarrow> index_entry_state \<Rightarrow> hit_kind" where
  "classify_hit loc st = (if st = Ready then hit_of_location loc else Miss)"

lemma hit_of_location_not_Miss [simp]: "hit_of_location loc \<noteq> Miss"
  by (cases loc rule: hit_of_location.cases) auto

lemma classify_hit_Miss [simp]: "classify_hit loc st = Miss \<longleftrightarrow> st \<noteq> Ready"
  by (simp add: classify_hit_def)

end
