(* ===== verification/Float32.thy ===== *)
theory Float32
  imports Complex_Main Prelude
begin

text \<open>
  IEEE 754 binary32, as far as the eviction scores and the recompute heuristic use Rust's
  \<open>f32\<close>: a finite value is a sign and a non-negative rational magnitude, every arithmetic result
  is the exact rational result rounded to the nearest representable value with ties to even
  (subnormals included, overflow to infinity), \<open>as f32\<close> rounds an integer in the same way, and
  \<open>total_cmp\<close> is the IEEE total order. The results the development needs are that rounding is
  monotone and exact on the integers up to \<open>2^24\<close>.
\<close>

datatype f32 = Fin (f32_neg: bool) (f32_mag: rat) | Infinite (f32_neg: bool) | NaN (f32_neg: bool)

definition f32_infinity :: f32 where
  "f32_infinity = Infinite False"

fun is_finite :: "f32 \<Rightarrow> bool" where
  "is_finite (Fin _ _) = True"
| "is_finite _ = False"

fun f32_val :: "f32 \<Rightarrow> rat" where
  "f32_val (Fin n m) = (if n then - m else m)"
| "f32_val _ = 0"

subsection \<open>Rounding\<close>

definition round_half_even :: "rat \<Rightarrow> int" where
  "round_half_even x =
     (let f = \<lfloor>x\<rfloor>; d = x - of_int f
      in if d < 1 / 2 then f else if 1 / 2 < d then f + 1 else if even f then f else f + 1)"

text \<open>The binade of a magnitude: the least exponent whose 24-bit significands reach past it.\<close>

definition f32_exponents :: "int list" where
  "f32_exponents = [-149..104]"

definition ulp_exp :: "rat \<Rightarrow> int option" where
  "ulp_exp x = find (\<lambda>e. x < 2 powi (e + 24)) f32_exponents"

definition round_mag :: "rat \<Rightarrow> rat option" where
  "round_mag x =
     (case ulp_exp x of None \<Rightarrow> None
      | Some e \<Rightarrow> (let r = of_int (round_half_even (x / 2 powi e)) * 2 powi e
                   in if r < 2 powi 128 then Some r else None))"

text \<open>\<open>z\<close> is the sign of an exact zero result.\<close>

definition round32 :: "bool \<Rightarrow> rat \<Rightarrow> f32" where
  "round32 z x =
     (let n = (if x = 0 then z else x < 0)
      in case round_mag \<bar>x\<bar> of None \<Rightarrow> Infinite n | Some r \<Rightarrow> Fin n r)"

definition f32_of_nat :: "nat \<Rightarrow> f32" where
  "f32_of_nat n = round32 False (of_nat n)"

fun f32_add :: "f32 \<Rightarrow> f32 \<Rightarrow> f32" where
  "f32_add (NaN n) _ = NaN n"
| "f32_add _ (NaN n) = NaN n"
| "f32_add (Infinite a) (Infinite b) = (if a = b then Infinite a else NaN False)"
| "f32_add (Infinite a) (Fin _ _) = Infinite a"
| "f32_add (Fin _ _) (Infinite b) = Infinite b"
| "f32_add (Fin a x) (Fin b y) = round32 (a \<and> b) (f32_val (Fin a x) + f32_val (Fin b y))"

fun f32_mul :: "f32 \<Rightarrow> f32 \<Rightarrow> f32" where
  "f32_mul (NaN n) _ = NaN n"
| "f32_mul _ (NaN n) = NaN n"
| "f32_mul (Infinite a) (Infinite b) = Infinite (a \<noteq> b)"
| "f32_mul (Infinite a) (Fin b y) = (if y = 0 then NaN False else Infinite (a \<noteq> b))"
| "f32_mul (Fin a x) (Infinite b) = (if x = 0 then NaN False else Infinite (a \<noteq> b))"
| "f32_mul (Fin a x) (Fin b y) = round32 (a \<noteq> b) (f32_val (Fin a x) * f32_val (Fin b y))"

fun f32_div :: "f32 \<Rightarrow> f32 \<Rightarrow> f32" where
  "f32_div (NaN n) _ = NaN n"
| "f32_div _ (NaN n) = NaN n"
| "f32_div (Infinite a) (Infinite b) = NaN False"
| "f32_div (Infinite a) (Fin b y) = Infinite (a \<noteq> b)"
| "f32_div (Fin a x) (Infinite b) = Fin (a \<noteq> b) 0"
| "f32_div (Fin a x) (Fin b y) =
     (if y = 0 then (if x = 0 then NaN False else Infinite (a \<noteq> b))
      else round32 (a \<noteq> b) (f32_val (Fin a x) / f32_val (Fin b y)))"

text \<open>The ordered comparison \<open><\<close> (false when an operand is NaN), and \<open>total_cmp\<close>.\<close>

fun f32_less :: "f32 \<Rightarrow> f32 \<Rightarrow> bool" where
  "f32_less (NaN _) _ = False"
| "f32_less _ (NaN _) = False"
| "f32_less (Infinite a) (Infinite b) = (a \<and> \<not> b)"
| "f32_less (Infinite a) (Fin _ _) = a"
| "f32_less (Fin _ _) (Infinite b) = (\<not> b)"
| "f32_less (Fin a x) (Fin b y) = (f32_val (Fin a x) < f32_val (Fin b y))"

definition f32_le_zero :: "f32 \<Rightarrow> bool" where
  "f32_le_zero x = (case x of NaN _ \<Rightarrow> False | Infinite n \<Rightarrow> n | Fin n m \<Rightarrow> f32_val (Fin n m) \<le> 0)"

fun total_rank :: "f32 \<Rightarrow> nat" where
  "total_rank (NaN n) = (if n then 0 else 4)"
| "total_rank (Infinite n) = (if n then 1 else 3)"
| "total_rank (Fin _ _) = 2"

definition total_less :: "f32 \<Rightarrow> f32 \<Rightarrow> bool" where
  "total_less a b \<longleftrightarrow> total_rank a < total_rank b \<or>
     (is_finite a \<and> is_finite b \<and>
       (f32_val a < f32_val b \<or> (f32_val a = f32_val b \<and> f32_neg a \<and> \<not> f32_neg b)))"

definition total_eq :: "f32 \<Rightarrow> f32 \<Rightarrow> bool" where
  "total_eq a b \<longleftrightarrow> \<not> total_less a b \<and> \<not> total_less b a"

lemma total_less_irrefl [simp]: "\<not> total_less a a"
  by (simp add: total_less_def)

lemma total_rank_finite: "is_finite a \<longleftrightarrow> total_rank a = 2"
  by (cases a) auto

lemma total_less_trans: "total_less a b \<Longrightarrow> total_less b c \<Longrightarrow> total_less a c"
  unfolding total_less_def total_rank_finite by (elim disjE conjE) auto

lemma total_not_less_trans: "\<not> total_less b a \<Longrightarrow> \<not> total_less c b \<Longrightarrow> \<not> total_less c a"
  unfolding total_less_def total_rank_finite by (auto simp: not_less)

subsection \<open>Rounding is monotone\<close>

lemma round_half_even_bounds: "\<lfloor>x\<rfloor> \<le> round_half_even x \<and> round_half_even x \<le> \<lfloor>x\<rfloor> + 1"
  by (simp add: round_half_even_def Let_def)

lemma round_half_even_int [simp]: "round_half_even (of_int k) = k"
  by (simp add: round_half_even_def)

lemma round_half_even_mono:
  assumes "x \<le> y"
  shows "round_half_even x \<le> round_half_even y"
proof (cases "\<lfloor>x\<rfloor> = \<lfloor>y\<rfloor>")
  case True
  then show ?thesis using assms by (auto simp: round_half_even_def Let_def)
next
  case False
  then have "\<lfloor>x\<rfloor> + 1 \<le> \<lfloor>y\<rfloor>" using assms by (metis add1_zle_eq floor_mono order_less_le)
  then show ?thesis using round_half_even_bounds [of x] round_half_even_bounds [of y] by linarith
qed

lemma nth_f32_exponents: "j < 254 \<Longrightarrow> f32_exponents ! j = -149 + int j"
  unfolding f32_exponents_def by (subst nth_upto) auto

lemma length_f32_exponents: "length f32_exponents = 254"
  unfolding f32_exponents_def by (subst length_upto) simp

lemma set_f32_exponents: "set f32_exponents = {-149..104}"
  unfolding f32_exponents_def by (rule set_upto)

lemma ulp_exp_Some:
  assumes "ulp_exp x = Some e"
  shows "-149 \<le> e \<and> e \<le> 104 \<and> x < 2 powi (e + 24) \<and> (\<forall>e'. -149 \<le> e' \<longrightarrow> e' < e \<longrightarrow> 2 powi (e' + 24) \<le> x)"
proof -
  from assms obtain i where i: "i < length f32_exponents" "x < 2 powi (f32_exponents ! i + 24)"
    "e = f32_exponents ! i" "\<forall>j<i. \<not> x < 2 powi (f32_exponents ! j + 24)"
    by (auto simp: ulp_exp_def find_Some_iff)
  have e: "e = -149 + int i" "i < 254" using i nth_f32_exponents length_f32_exponents by auto
  have "2 powi (e' + 24) \<le> x" if "-149 \<le> e'" "e' < e" for e'
  proof -
    have "nat (e' + 149) < i" using that e by linarith
    moreover have "f32_exponents ! nat (e' + 149) = e'" using that e by (subst nth_f32_exponents) auto
    ultimately show ?thesis using i(4) by (metis not_less)
  qed
  then show ?thesis using i(2,3) e by auto
qed

lemma ulp_exp_None: "ulp_exp x = None \<Longrightarrow> 2 powi 128 \<le> x"
proof -
  assume "ulp_exp x = None"
  then have "\<not> x < 2 powi (104 + 24)"
    unfolding ulp_exp_def find_None_iff using set_f32_exponents by force
  then show ?thesis by simp
qed

lemma ulp_exp_ex: "x < 2 powi 128 \<Longrightarrow> \<exists>e. ulp_exp x = Some e"
  using ulp_exp_None by (metis not_le option.exhaust)

lemma ulp_expI:
  assumes "-149 \<le> e" and "e \<le> 104" and "x < 2 powi (e + 24)" and "2 powi (e + 23) \<le> x"
  shows "ulp_exp x = Some e"
proof -
  have "(2::rat) powi (e + 24) \<le> 2 powi 128" using assms(2) by (intro power_int_increasing) auto
  then obtain d where d: "ulp_exp x = Some d" using ulp_exp_ex [of x] assms(3) by auto
  note s = ulp_exp_Some [OF d]
  have "\<not> d < e"
  proof
    assume "d < e"
    then have "(2::rat) powi (d + 24) \<le> 2 powi (e + 23)" by (intro power_int_increasing) auto
    then show False using s assms(4) by linarith
  qed
  moreover have "\<not> e < d" using s assms(1,3) by auto
  ultimately show ?thesis using d by simp
qed

lemma powi_mono2: "a \<le> b \<Longrightarrow> (2::rat) powi a \<le> 2 powi b"
  by (rule power_int_increasing) auto

lemma powi_pos2 [simp]: "(0::rat) < 2 powi a"
  by simp

definition round_at :: "int \<Rightarrow> rat \<Rightarrow> rat" where
  "round_at e x = of_int (round_half_even (x / 2 powi e)) * 2 powi e"

lemma round_at_mono: "x \<le> y \<Longrightarrow> round_at e x \<le> round_at e y"
  unfolding round_at_def
  by (intro mult_right_mono of_int_le_iff [THEN iffD2] round_half_even_mono divide_right_mono) auto

lemma round_at_power: "e \<le> d \<Longrightarrow> round_at e (2 powi d) = 2 powi d"
proof -
  assume "e \<le> d"
  then have "(2::rat) powi d / 2 powi e = of_int (2 ^ nat (d - e))"
    by (subst power_int_diff [symmetric]) (auto simp: power_int_def)
  then have "round_half_even ((2::rat) powi d / 2 powi e) = 2 ^ nat (d - e)"
    by (simp only: round_half_even_int)
  with \<open>(2::rat) powi d / 2 powi e = of_int (2 ^ nat (d - e))\<close> show ?thesis
    by (simp add: round_at_def) (metis nonzero_eq_divide_eq power_int_not_zero zero_neq_numeral)
qed

lemma round_mag_alt:
  "round_mag x = (case ulp_exp x of None \<Rightarrow> None | Some e \<Rightarrow>
     if round_at e x < 2 powi 128 then Some (round_at e x) else None)"
  by (simp add: round_mag_def round_at_def Let_def split: option.split)

lemma round_mag_mono:
  assumes "x \<le> y" and "round_mag y = Some s"
  shows "\<exists>r. round_mag x = Some r \<and> r \<le> s"
proof -
  obtain d where d: "ulp_exp y = Some d" "s = round_at d y" "s < 2 powi 128"
    using assms(2) by (auto simp: round_mag_alt split: option.splits if_splits)
  note yd = ulp_exp_Some [OF d(1)]
  have "x < 2 powi 128" using assms(1) yd powi_mono2 [of "d + 24" 128] by linarith
  then obtain e where e: "ulp_exp x = Some e" using ulp_exp_ex by blast
  note xe = ulp_exp_Some [OF e]
  have "e \<le> d"
  proof (rule ccontr)
    assume "\<not> e \<le> d"
    then have "2 powi (d + 24) \<le> x" using xe yd by auto
    then show False using yd assms(1) by linarith
  qed
  have "round_at e x \<le> s"
  proof (cases "e = d")
    case True
    then show ?thesis using round_at_mono [OF assms(1), of d] d by simp
  next
    case False
    then have lt: "e < d" using \<open>e \<le> d\<close> by simp
    have yl: "2 powi ((d - 1) + 24) \<le> y"
      using yd [THEN conjunct2, THEN conjunct2, THEN conjunct2, rule_format, of "d - 1"] xe lt by simp
    have "round_at e x \<le> round_at e (2 powi (e + 24))" using xe by (intro round_at_mono) auto
    also have "\<dots> = 2 powi (e + 24)" by (rule round_at_power) simp
    also have "\<dots> \<le> 2 powi ((d - 1) + 24)" using lt by (intro powi_mono2) simp
    also have "\<dots> = round_at d (2 powi ((d - 1) + 24))" by (rule round_at_power [symmetric]) simp
    also have "\<dots> \<le> round_at d y" using yl by (rule round_at_mono)
    finally show ?thesis using d by simp
  qed
  moreover have "round_mag x = Some (round_at e x)" using e \<open>round_at e x \<le> s\<close> d(3) by (simp add: round_mag_alt)
  ultimately show ?thesis by blast
qed

lemma round_mag_exact:
  assumes "n \<le> 2 ^ 24"
  shows "round_mag (of_nat n) = Some (of_nat n)"
proof -
  have n: "(of_nat n :: rat) \<le> 2 powi 24" using assms by (metis of_nat_le_iff of_nat_numeral of_nat_power power_int_numeral)
  have "(of_nat n :: rat) < 2 powi 128" using n powi_mono2 [of 25 128] by (auto simp: power_int_def)
  then obtain e where e: "ulp_exp (of_nat n) = Some e" using ulp_exp_ex by blast
  note xe = ulp_exp_Some [OF e]
  have "e \<le> 1"
  proof (rule ccontr)
    assume "\<not> e \<le> 1"
    then have "2 powi (1 + 24) \<le> (of_nat n :: rat)"
      using xe [THEN conjunct2, THEN conjunct2, THEN conjunct2, rule_format, of 1] by simp
    then have "(2::rat) powi (1 + 24) \<le> 2 powi 24" using n by (rule order_trans)
    then show False by simp
  qed
  have "round_at e (of_nat n) = of_nat n"
  proof (cases "e = 1")
    case True
    then have "2 powi (0 + 24) \<le> (of_nat n :: rat)"
      using xe [THEN conjunct2, THEN conjunct2, THEN conjunct2, rule_format, of 0] by simp
    then have "n = 2 ^ 24" using n assms by (simp add: power_int_def)
    then show ?thesis using True round_at_power [of 1 24] by (simp add: power_int_def)
  next
    case False
    then have "e \<le> 0" using \<open>e \<le> 1\<close> by simp
    then have "(of_nat n :: rat) / 2 powi e = of_int (int n * 2 ^ nat (- e))"
      by (simp add: power_int_def field_simps)
    then have "round_half_even ((of_nat n :: rat) / 2 powi e) = int n * 2 ^ nat (- e)"
      by (simp only: round_half_even_int)
    then show ?thesis using \<open>e \<le> 0\<close> by (simp add: round_at_def power_int_def field_simps)
  qed
  then show ?thesis using e \<open>(of_nat n :: rat) < 2 powi 128\<close> by (simp add: round_mag_alt)
qed

lemma round_mag_nonneg: "0 \<le> x \<Longrightarrow> round_mag x = Some r \<Longrightarrow> 0 \<le> r"
proof -
  assume "0 \<le> x" "round_mag x = Some r"
  then obtain r' where "round_mag 0 = Some r'" "r' \<le> r" using round_mag_mono by blast
  moreover have "round_mag 0 = Some 0" using round_mag_exact [of 0] by simp
  ultimately show ?thesis by simp
qed

text \<open>Integers below \<open>2^128\<close>, so every \<open>u64\<close>, convert to finite values, in order.\<close>

lemma round_mag_u64: "n < 2 ^ 100 \<Longrightarrow> \<exists>r. round_mag (of_nat n) = Some r"
proof -
  assume n: "n < 2 ^ 100"
  have r: "round_at e (2 powi 100) < 2 powi 128" if "e \<le> 100" for e
    using round_at_power [OF that] by (simp add: power_int_strict_increasing)
  have x: "(of_nat n :: rat) < 2 powi 100" using n by (metis of_nat_less_iff of_nat_numeral of_nat_power power_int_numeral)
  then have "(of_nat n :: rat) < 2 powi 128" using powi_mono2 [of 100 128] by linarith
  then obtain e where e: "ulp_exp (of_nat n) = Some e" using ulp_exp_ex by blast
  have "e \<le> 76"
  proof (rule ccontr)
    assume "\<not> e \<le> 76"
    then have "2 powi (76 + 24) \<le> (of_nat n :: rat)"
      using ulp_exp_Some [OF e, THEN conjunct2, THEN conjunct2, THEN conjunct2, rule_format, of 76] by simp
    then show False using x by simp
  qed
  then have "round_at e (of_nat n) < 2 powi 128"
    using r [of e] round_at_mono [of "of_nat n" "2 powi 100" e] x by simp
  then show ?thesis using e by (simp add: round_mag_alt)
qed

lemma f32_of_nat_Some: "round_mag (of_nat n) = Some r \<Longrightarrow> f32_of_nat n = Fin False r"
  by (simp add: f32_of_nat_def round32_def Let_def)

lemma f32_of_nat_finite: "n < 2 ^ 100 \<Longrightarrow> is_finite (f32_of_nat n)"
  using round_mag_u64 [of n] f32_of_nat_Some by auto

lemma f32_of_nat_exact: "n \<le> 2 ^ 24 \<Longrightarrow> f32_of_nat n = Fin False (of_nat n)"
  by (rule f32_of_nat_Some) (rule round_mag_exact)

lemma f32_of_nat_mono:
  assumes "a \<le> b" and "b < 2 ^ 100"
  shows "\<not> total_less (f32_of_nat b) (f32_of_nat a)"
proof -
  obtain s where s: "round_mag (of_nat b) = Some s" using round_mag_u64 [OF assms(2)] by blast
  then obtain r where r: "round_mag (of_nat a) = Some r" "r \<le> s"
    using round_mag_mono [of "of_nat a" "of_nat b" s] assms(1) by auto
  then show ?thesis using f32_of_nat_Some s by (simp add: total_less_def)
qed

lemma f32_of_nat_strict:
  assumes "a < b" and "b \<le> 2 ^ 24"
  shows "total_less (f32_of_nat a) (f32_of_nat b)"
  using assms f32_of_nat_exact [of a] f32_of_nat_exact [of b] by (simp add: total_less_def)

end
