(* ===== verification/Sched_Policy.thy ===== *)
theory Sched_Policy
  imports Kv_Types Float32
begin

text \<open>
  The policies of \<open>infer/src/scheduler/policy.rs\<close>: admission (\<open>QueueBoundAdmission\<close>,
  \<open>PrefixAwareAdmission\<close>), chunking (\<open>DecodeAwareChunking\<close>) and the four eviction scores, computed
  in binary32 as the code does. The trait \<open>EvictionPolicy\<close> is the locale \<open>eviction_policy\<close>, and
  every shipped policy is an interpretation of it.
\<close>

subsection \<open>Signals and admission\<close>

record scheduler_signals =
  queued_requests :: nat
  active_decodes :: nat
  prefix_hit_tokens :: nat
  session_affinity_slot :: "nat option"
  turn_depth :: nat

definition signals_default :: scheduler_signals where
  "signals_default = \<lparr>queued_requests = 0, active_decodes = 0, prefix_hit_tokens = 0,
     session_affinity_slot = None, turn_depth = 0\<rparr>"

definition queue_state :: "nat \<Rightarrow> nat \<Rightarrow> scheduler_signals" where
  "queue_state q d = signals_default\<lparr>queued_requests := q, active_decodes := d\<rparr>"

definition is_cold_request :: "scheduler_signals \<Rightarrow> bool" where
  "is_cold_request s \<longleftrightarrow> prefix_hit_tokens s = 0 \<and> session_affinity_slot s = None \<and> turn_depth s = 0"

record queue_bound_admission =
  max_queued_requests :: nat

definition queue_bound_allow :: "queue_bound_admission \<Rightarrow> scheduler_signals \<Rightarrow> bool" where
  "queue_bound_allow p s \<longleftrightarrow> queued_requests s < max_queued_requests p"

record prefix_aware_admission =
  hard_cap :: nat
  cold_soft_cap :: nat

definition with_cold_headroom :: "nat \<Rightarrow> nat \<Rightarrow> prefix_aware_admission" where
  "with_cold_headroom hc headroom = \<lparr>hard_cap = hc, cold_soft_cap = hc - headroom\<rparr>"

definition prefix_aware_allow :: "prefix_aware_admission \<Rightarrow> scheduler_signals \<Rightarrow> bool" where
  "prefix_aware_allow p s =
     (if hard_cap p \<le> queued_requests s then False
      else let effective_cold_cap = min (cold_soft_cap p) (hard_cap p)
           in if is_cold_request s \<and> effective_cold_cap \<le> queued_requests s then False else True)"

subsection \<open>Chunking\<close>

record decode_aware_chunking =
  decode_active_chunk :: nat
  idle_chunk :: nat

fun next_chunk_size :: "decode_aware_chunking \<Rightarrow> inference_mode \<Rightarrow> scheduler_signals \<Rightarrow> nat" where
  "next_chunk_size p Decode s = decode_active_chunk p"
| "next_chunk_size p Prefill s = (if 0 < active_decodes s then decode_active_chunk p else idle_chunk p)"

subsection \<open>Eviction scores\<close>

record eviction_candidate =
  ec_slot :: nat
  ec_tokens :: nat
  last_access_step :: nat
  ec_hit_count :: nat
  prefix_depth :: nat
  pinned :: bool

definition eviction_candidate_new :: "nat \<Rightarrow> nat \<Rightarrow> eviction_candidate" where
  "eviction_candidate_new sl step = \<lparr>ec_slot = sl, ec_tokens = 0, last_access_step = step,
     ec_hit_count = 0, prefix_depth = 0, pinned = False\<rparr>"

type_synonym score_fn = "eviction_candidate \<Rightarrow> scheduler_signals \<Rightarrow> f32"

definition lru_score :: score_fn where
  "lru_score c s = (if pinned c then f32_infinity else f32_of_nat (last_access_step c))"

record reuse_biased_lru =
  recency_weight :: f32
  hit_weight :: f32

definition reuse_biased_default :: reuse_biased_lru where
  "reuse_biased_default = \<lparr>recency_weight = Fin False 1, hit_weight = Fin False 8\<rparr>"

definition reuse_biased_score :: "reuse_biased_lru \<Rightarrow> score_fn" where
  "reuse_biased_score p c s =
     (if pinned c then f32_infinity
      else let recency = f32_mul (f32_of_nat (last_access_step c)) (recency_weight p);
               reuse = f32_mul (f32_of_nat (ec_hit_count c)) (hit_weight p)
           in f32_add recency reuse)"

definition hit_count_lru_score :: "nat \<Rightarrow> score_fn" where
  "hit_count_lru_score threshold c s =
     (if pinned c then f32_infinity
      else if threshold \<le> ec_hit_count c then f32_infinity
      else f32_of_nat (last_access_step c))"

definition affinity_bonus_default :: f32 where
  "affinity_bonus_default = Fin False 1000000"

definition session_biased_score :: "f32 \<Rightarrow> score_fn" where
  "session_biased_score bonus c s =
     (if pinned c then f32_infinity
      else let score = f32_of_nat (last_access_step c)
           in case session_affinity_slot s of
                Some a \<Rightarrow> if ec_slot c = a then f32_add score bonus else score
              | None \<Rightarrow> score)"

subsection \<open>The policy interface\<close>

text \<open>The contract of the trait: a pinned candidate scores infinity, so no caller selects it.\<close>

locale eviction_policy =
  fixes score :: score_fn
  assumes pinned_infinite: "pinned c \<Longrightarrow> score c s = f32_infinity"
begin

lemma pinned_not_finite: "pinned c \<Longrightarrow> \<not> is_finite (score c s)"
  by (simp add: pinned_infinite f32_infinity_def)

end

text \<open>
  A recency policy orders candidates that differ only in their last access: the older one never
  scores above the newer one. Two candidates that also agree in the step score the same.
\<close>

locale recency_policy = eviction_policy +
  assumes older_first: "\<not> pinned c \<Longrightarrow> a \<le> b \<Longrightarrow> b < 2 ^ 64 \<Longrightarrow>
    is_finite (score (c\<lparr>last_access_step := b\<rparr>) s) \<Longrightarrow>
    is_finite (score (c\<lparr>last_access_step := a\<rparr>) s) \<and>
    \<not> total_less (score (c\<lparr>last_access_step := b\<rparr>) s) (score (c\<lparr>last_access_step := a\<rparr>) s)"
begin

lemma newest_never_strictly_first:
  assumes "\<not> pinned c" and "\<forall>a\<in>A. a \<le> b" and "b < 2 ^ 64"
    and "is_finite (score (c\<lparr>last_access_step := b\<rparr>) s)"
  shows "\<forall>a\<in>A. \<not> total_less (score (c\<lparr>last_access_step := b\<rparr>) s) (score (c\<lparr>last_access_step := a\<rparr>) s)"
  using assms older_first by blast

end

subsection \<open>Rounding facts for scores\<close>

lemma round32_nonneg:
  "0 \<le> x \<Longrightarrow> round32 False x = (case round_mag x of None \<Rightarrow> Infinite False | Some r \<Rightarrow> Fin False r)"
  by (auto simp: round32_def Let_def not_less split: option.split)

lemma round32_nonneg_mono:
  assumes "0 \<le> x" and "x \<le> y" and "is_finite (round32 False y)"
  shows "is_finite (round32 False x) \<and> f32_val (round32 False x) \<le> f32_val (round32 False y) \<and>
    0 \<le> f32_val (round32 False x) \<and> \<not> f32_neg (round32 False x)"
proof -
  have y: "0 \<le> y" using assms by linarith
  obtain s where s: "round_mag y = Some s" using assms(3) round32_nonneg [OF y] by (auto split: option.splits)
  then obtain r where r: "round_mag x = Some r" "r \<le> s" using round_mag_mono assms(2) by blast
  moreover have "0 \<le> r" using round_mag_nonneg [OF assms(1) r(1)] .
  ultimately show ?thesis using s round32_nonneg [OF y] round32_nonneg [OF assms(1)] by simp
qed

lemma is_finiteE: "is_finite x \<Longrightarrow> (\<And>n m. x = Fin n m \<Longrightarrow> P) \<Longrightarrow> P"
  by (cases x) auto

lemma not_total_less_nonneg:
  "is_finite a \<Longrightarrow> is_finite b \<Longrightarrow> \<not> f32_neg a \<Longrightarrow> \<not> f32_neg b \<Longrightarrow> f32_val a \<le> f32_val b \<Longrightarrow> \<not> total_less b a"
  by (auto simp: total_less_def total_rank_finite)

lemma f32_of_nat_nonneg:
  "b < 2 ^ 100 \<Longrightarrow> \<exists>r. f32_of_nat b = Fin False r \<and> 0 \<le> r"
  using round_mag_u64 [of b] f32_of_nat_Some round_mag_nonneg by (metis of_nat_0_le_iff)

lemma f32_of_nat_val_mono:
  assumes "a \<le> b" and "b < 2 ^ 100"
  shows "f32_val (f32_of_nat a) \<le> f32_val (f32_of_nat b)"
proof -
  obtain r s where "f32_of_nat a = Fin False r" "f32_of_nat b = Fin False s"
    using f32_of_nat_nonneg [of a] f32_of_nat_nonneg [of b] assms by (meson le_less_trans)
  with f32_of_nat_mono [OF assms] show ?thesis by (auto simp: total_less_def)
qed

lemma f32_mul_nonneg: "f32_mul (Fin False x) (Fin False y) = round32 False (x * y)"
  by simp

lemma f32_add_nonneg: "f32_add (Fin False x) (Fin False y) = round32 False (x + y)"
  by simp

subsection \<open>Every shipped policy meets the contract\<close>

lemma lru_older_first:
  assumes "\<not> pinned c" and "a \<le> b" and "b < 2 ^ 64"
  shows "is_finite (lru_score (c\<lparr>last_access_step := a\<rparr>) s) \<and>
    \<not> total_less (lru_score (c\<lparr>last_access_step := b\<rparr>) s) (lru_score (c\<lparr>last_access_step := a\<rparr>) s)"
  using assms f32_of_nat_mono [of a b] f32_of_nat_finite [of a] by (simp add: lru_score_def)

interpretation lru: recency_policy lru_score
  by unfold_locales (use lru_older_first in \<open>auto simp: lru_score_def\<close>)

interpretation hit_count_lru: recency_policy "hit_count_lru_score t" for t
  by unfold_locales
    (use lru_older_first in \<open>auto simp: hit_count_lru_score_def lru_score_def f32_infinity_def split: if_splits\<close>)

text \<open>A finite sum of non-negative terms grows with its first term.\<close>

lemma f32_add_mono_left:
  assumes "0 \<le> x" and "x \<le> y" and "0 \<le> z" and "is_finite (f32_add (Fin False y) (Fin False z))"
  shows "is_finite (f32_add (Fin False x) (Fin False z)) \<and>
    \<not> total_less (f32_add (Fin False y) (Fin False z)) (f32_add (Fin False x) (Fin False z))"
proof -
  have "is_finite (round32 False (y + z))" using assms(4) by simp
  then have "is_finite (round32 False (x + z))" "f32_val (round32 False (x + z)) \<le> f32_val (round32 False (y + z))"
    "\<not> f32_neg (round32 False (x + z))" "\<not> f32_neg (round32 False (y + z))"
    using round32_nonneg_mono [of "x + z" "y + z"] round32_nonneg_mono [of "y + z" "y + z"] assms by auto
  then show ?thesis using \<open>is_finite (round32 False (y + z))\<close>
    by (simp add: not_total_less_nonneg)
qed

interpretation session_biased: recency_policy "session_biased_score (Fin False (of_nat w))" for w
proof (unfold_locales, goal_cases)
  case (1 c s)
  then show ?case by (simp add: session_biased_score_def)
next
  case (2 c a b s)
  obtain r where r: "f32_of_nat a = Fin False r" "0 \<le> r" using f32_of_nat_nonneg [of a] 2 by force
  obtain q where q: "f32_of_nat b = Fin False q" "0 \<le> q" using f32_of_nat_nonneg [of b] 2 by force
  have "r \<le> q" using f32_of_nat_val_mono [of a b] 2 r q by force
  have score: "session_biased_score (Fin False (of_nat w)) (c\<lparr>last_access_step := t\<rparr>) s =
      (if session_affinity_slot s = Some (ec_slot c) then f32_add (f32_of_nat t) (Fin False (of_nat w))
       else f32_of_nat t)" for t
    using 2(1) by (auto simp: session_biased_score_def Let_def split: option.split)
  show ?case
  proof (cases "session_affinity_slot s = Some (ec_slot c)")
    case True
    then show ?thesis using 2(4) r q f32_add_mono_left [of r q "of_nat w"] \<open>r \<le> q\<close>
      unfolding score by (simp del: f32_add.simps)
  next
    case False
    then show ?thesis using r q \<open>r \<le> q\<close> unfolding score by (simp add: total_less_def)
  qed
qed

lemma reuse_biased_older_first:
  assumes "\<not> pinned c" and "a \<le> b" and "b < 2 ^ 64"
    and fin: "is_finite (reuse_biased_score reuse_biased_default (c\<lparr>last_access_step := b\<rparr>) s)"
  shows "is_finite (reuse_biased_score reuse_biased_default (c\<lparr>last_access_step := a\<rparr>) s) \<and>
    \<not> total_less (reuse_biased_score reuse_biased_default (c\<lparr>last_access_step := b\<rparr>) s)
        (reuse_biased_score reuse_biased_default (c\<lparr>last_access_step := a\<rparr>) s)"
proof -
  let ?h = "f32_mul (f32_of_nat (ec_hit_count c)) (Fin False 8)"
  obtain r where r: "f32_of_nat a = Fin False r" "0 \<le> r" using f32_of_nat_nonneg [of a] assms by force
  obtain q where q: "f32_of_nat b = Fin False q" "0 \<le> q" using f32_of_nat_nonneg [of b] assms by force
  have "r \<le> q" using f32_of_nat_val_mono [of a b] assms r q by force
  have score: "reuse_biased_score reuse_biased_default (c\<lparr>last_access_step := t\<rparr>) s =
      f32_add (f32_mul (f32_of_nat t) (Fin False 1)) ?h" for t
    using assms(1) by (simp add: reuse_biased_score_def reuse_biased_default_def Let_def)
  have fb: "is_finite (f32_add (round32 False q) ?h)" using fin score q by simp
  then have fq: "is_finite (round32 False q)" by (cases "round32 False q"; cases ?h) (auto split: if_splits)
  have fh: "is_finite ?h" using fb by (cases "round32 False q"; cases ?h) (auto split: if_splits)
  obtain q' where q': "round32 False q = Fin False q'" "0 \<le> q'"
    using fq round32_nonneg_mono [of q q] q by (auto elim!: is_finiteE)
  obtain r' where r': "round32 False r = Fin False r'" "0 \<le> r'" "r' \<le> q'"
    using fq round32_nonneg_mono [of r q] r q' \<open>r \<le> q\<close> by (auto elim!: is_finiteE)
  obtain h where h: "?h = Fin False h" "0 \<le> h"
  proof (cases "f32_of_nat (ec_hit_count c)")
    case (Fin n m)
    then have m: "\<not> n" "0 \<le> m"
      using round_mag_nonneg [of "of_nat (ec_hit_count c)" m]
      by (auto simp: f32_of_nat_def round32_def Let_def split: option.splits if_splits)
    then have "?h = round32 False (m * 8)" using Fin by simp
    then show thesis using that fh round32_nonneg_mono [of "m * 8" "m * 8"] m by (auto elim!: is_finiteE)
  next
    case (Infinite n)
    then show thesis using fh by simp
  next
    case (NaN n)
    then show thesis using fh by simp
  qed
  show ?thesis
    using f32_add_mono_left [of r' q' h] r' q' h fb score r q by simp
qed

interpretation reuse_biased: recency_policy "reuse_biased_score reuse_biased_default"
proof (unfold_locales, goal_cases)
  case (1 c s)
  then show ?case by (simp add: reuse_biased_score_def)
next
  case (2 c a b s)
  then show ?case using reuse_biased_older_first by blast
qed

subsection \<open>Properties\<close>

text \<open>
  Admission under pressure: the prefix-aware policy admits no request that the plain queue
  bound with the same cap rejects, a warm request is admitted exactly while the queue is below
  the hard cap, and a cold one exactly while it also is below the soft cap. With headroom \<open>h\<close>
  a cold request is admitted exactly when it leaves \<open>h\<close> places free below the hard cap.
\<close>

theorem prefix_aware_admission_correct:
  "(prefix_aware_allow p s \<longrightarrow> queue_bound_allow \<lparr>max_queued_requests = hard_cap p\<rparr> s) \<and>
   (\<not> is_cold_request s \<longrightarrow> (prefix_aware_allow p s \<longleftrightarrow> queued_requests s < hard_cap p)) \<and>
   (is_cold_request s \<longrightarrow> (prefix_aware_allow p s \<longleftrightarrow> queued_requests s < min (cold_soft_cap p) (hard_cap p))) \<and>
   (is_cold_request s \<longrightarrow> (prefix_aware_allow (with_cold_headroom hc h) s \<longleftrightarrow> queued_requests s + h < hc))"
  by (auto simp: prefix_aware_allow_def queue_bound_allow_def with_cold_headroom_def Let_def)

theorem prefix_aware_admission_correct_witness:
  "is_cold_request (queue_state 5 0) \<and> prefix_aware_allow (with_cold_headroom 10 4) (queue_state 5 0) \<and>
   \<not> prefix_aware_allow (with_cold_headroom 10 4) (queue_state 6 0)"
proof -
  have cold: "is_cold_request (queue_state q d)" for q d
    by (simp add: is_cold_request_def queue_state_def signals_default_def)
  have q: "queued_requests (queue_state q d) = q" for q d by (simp add: queue_state_def)
  show ?thesis
    using prefix_aware_admission_correct [of "with_cold_headroom 10 4" "queue_state 5 0" 10 4]
      prefix_aware_admission_correct [of "with_cold_headroom 10 4" "queue_state 6 0" 10 4]
    by (auto simp: cold q)
qed

text \<open>
  No shipped eviction policy gives a pinned candidate a finite score, so the selection
  loops, which skip non-finite scores, can never evict it.
\<close>

theorem pinned_never_evictable:
  assumes "pinned c"
  shows "\<not> is_finite (lru_score c s) \<and> \<not> is_finite (hit_count_lru_score t c s) \<and>
    \<not> is_finite (session_biased_score bonus c s) \<and> \<not> is_finite (reuse_biased_score p c s)"
  using assms lru.pinned_not_finite hit_count_lru.pinned_not_finite
  by (simp add: session_biased_score_def reuse_biased_score_def f32_infinity_def)

theorem pinned_never_evictable_witness:
  "\<not> is_finite (lru_score ((eviction_candidate_new 0 7)\<lparr>pinned := True\<rparr>) signals_default)"
  using pinned_never_evictable [of "(eviction_candidate_new 0 7)\<lparr>pinned := True\<rparr>" signals_default] by simp

text \<open>
  Recency order in binary32: for step counters up to \<open>2^24\<close> the least recently used of two
  unpinned candidates scores strictly lower; over the whole range of a 64-bit counter it never
  scores higher.
\<close>

theorem lru_orders_by_recency:
  assumes "\<not> pinned a" and "\<not> pinned b" and "last_access_step a < last_access_step b"
    and "last_access_step b < 2 ^ 64"
  shows "\<not> total_less (lru_score b s) (lru_score a s) \<and>
    (last_access_step b \<le> 2 ^ 24 \<longrightarrow> total_less (lru_score a s) (lru_score b s))"
  using assms f32_of_nat_mono [of "last_access_step a" "last_access_step b"]
    f32_of_nat_strict [of "last_access_step a" "last_access_step b"]
  by (simp add: lru_score_def)

theorem lru_orders_by_recency_witness:
  "total_less (lru_score (eviction_candidate_new 0 10) signals_default)
     (lru_score (eviction_candidate_new 1 30) signals_default)"
  using lru_orders_by_recency [of "eviction_candidate_new 0 10" "eviction_candidate_new 1 30" signals_default]
  by (simp add: eviction_candidate_new_def)

text \<open>
  The order is lost above \<open>2^24\<close>: two candidates one step apart receive the same score, so
  the score no longer tells the older from the newer.
\<close>

theorem lru_score_collision:
  "lru_score (eviction_candidate_new 0 (2 ^ 24)) s = lru_score (eviction_candidate_new 1 (2 ^ 24 + 1)) s \<and>
   total_eq (lru_score (eviction_candidate_new 0 (2 ^ 24)) s) (lru_score (eviction_candidate_new 1 (2 ^ 24 + 1)) s)"
proof -
  have e: "ulp_exp 16777217 = Some 1" by (rule ulp_expI) (auto simp: power_int_def)
  have "round_half_even (16777217 / 2) = 8388608"
    by (simp add: round_half_even_def floor_divide_of_int_eq [where 'a = rat, of 16777217 2, simplified])
  then have "round_mag 16777217 = Some 16777216" using e by (simp add: round_mag_def power_int_def)
  then have "f32_of_nat (2 ^ 24) = f32_of_nat (2 ^ 24 + 1)"
    using f32_of_nat_Some [of "2 ^ 24 + 1" 16777216] f32_of_nat_exact [of "2 ^ 24"] by simp
  then show ?thesis by (simp add: lru_score_def eviction_candidate_new_def total_eq_def)
qed

text \<open>
  Session affinity: with the default bonus, a candidate in the session's slot outranks every
  unpinned candidate of another slot that is at most a million steps more recent (for counters
  that leave the sum exact).
\<close>

theorem session_affinity_protects:
  assumes "\<not> pinned a" and "\<not> pinned b" and "session_affinity_slot s = Some (ec_slot a)" and "ec_slot b \<noteq> ec_slot a"
    and "last_access_step b < last_access_step a + 1000000" and "last_access_step a + 1000000 \<le> 2 ^ 24"
  shows "total_less (session_biased_score affinity_bonus_default b s) (session_biased_score affinity_bonus_default a s)"
proof -
  let ?n = "last_access_step a + 1000000"
  have "f32_add (f32_of_nat (last_access_step a)) affinity_bonus_default = f32_of_nat ?n"
    using assms(6) f32_of_nat_exact [of "last_access_step a"] by (simp add: affinity_bonus_default_def f32_of_nat_def)
  then show ?thesis
    using assms f32_of_nat_strict [of "last_access_step b" ?n] by (simp add: session_biased_score_def)
qed

theorem session_affinity_protects_witness:
  "total_less (session_biased_score affinity_bonus_default (eviction_candidate_new 7 1000) (signals_default\<lparr>session_affinity_slot := Some 3\<rparr>))
     (session_biased_score affinity_bonus_default (eviction_candidate_new 3 100) (signals_default\<lparr>session_affinity_slot := Some 3\<rparr>))"
  using session_affinity_protects [of "eviction_candidate_new 3 100" "eviction_candidate_new 7 1000"
      "signals_default\<lparr>session_affinity_slot := Some 3\<rparr>"]
  by (simp add: eviction_candidate_new_def)

end
