(* ===== verification/Radix_Model.thy ===== *)
theory Radix_Model
  imports Kv_Types Sched_Policy
begin

text \<open>
  The radix-tree prefix cache of \<open>infer/src/prefix_cache.rs\<close>, definitions only. The arena
  \<open>nodes: Vec<Node>\<close> is a list of node records, children are association lists from the first
  edge token to a slot of the arena, freed slots are reused through \<open>free_nodes\<close>, and
  \<open>block_index\<close> is the reverse index from blocks to slots. A slot outside the arena, a bad slice
  and a loop that does not end are all \<open>None\<close>. Recursion over children carries fuel; the fuel
  the code's entry points get is one more than the arena's size, which
  \<open>Radix_Inv\<close> proves to be enough for every well-formed cache. Reference counts and the logical
  clock are unbounded; the saturating counters saturate.
\<close>

subsection \<open>Lookup heuristics\<close>

record lookup_heuristics =
  prefill_tokens_per_sec :: f32
  host_bandwidth_bytes_per_sec :: f32
  disk_bandwidth_bytes_per_sec :: f32

definition lookup_heuristics_default :: lookup_heuristics where
  "lookup_heuristics_default = \<lparr>prefill_tokens_per_sec = Fin False 5000,
     host_bandwidth_bytes_per_sec = Fin False (25 * 1024 * 1024 * 1024),
     disk_bandwidth_bytes_per_sec = Fin False (3 * 1024 * 1024 * 1024)\<rparr>"

definition advise_with :: "lookup_heuristics \<Rightarrow> f32 \<Rightarrow> nat \<Rightarrow> nat \<Rightarrow> bool" where
  "advise_with h bandwidth staging_tokens staging_bytes =
     (if staging_tokens = 0 \<or> staging_bytes = 0 \<or> f32_le_zero (prefill_tokens_per_sec h) \<or> f32_le_zero bandwidth
      then False
      else f32_less (f32_div (f32_of_nat staging_tokens) (prefill_tokens_per_sec h))
             (f32_div (f32_of_nat staging_bytes) bandwidth))"

fun advise_recompute :: "lookup_heuristics \<Rightarrow> hit_kind \<Rightarrow> nat \<Rightarrow> nat \<Rightarrow> bool" where
  "advise_recompute h StagingFromHost t b = advise_with h (host_bandwidth_bytes_per_sec h) t b"
| "advise_recompute h StagingFromDisk t b = advise_with h (disk_bandwidth_bytes_per_sec h) t b"
| "advise_recompute h ReadyOnGpu t b = False"
| "advise_recompute h Miss t b = False"

subsection \<open>Nodes\<close>

type_synonym session = string

record node =
  n_tokens :: "token list"
  n_block_id :: "block_id option"
  n_ref_count :: nat
  n_last_access :: nat
  n_hit_count :: nat
  n_tier_location :: "block_location option"
  n_session_id :: "session option"
  n_host_swap_eligible :: bool
  n_fingerprint :: "fingerprint option"
  n_byte_len :: nat
  n_soft_pin_until :: "nat option"
  n_host_spill_pin_until :: "nat option"
  n_entry_state :: index_entry_state
  n_store_state :: store_state
  n_sparse_dropped :: bool
  n_children :: "(token, nat) hmap"

definition node_new :: "token list \<Rightarrow> block_id option \<Rightarrow> nat \<Rightarrow> node" where
  "node_new ts b now = \<lparr>n_tokens = ts, n_block_id = b, n_ref_count = 0, n_last_access = now,
     n_hit_count = 0, n_tier_location = None, n_session_id = None, n_host_swap_eligible = False,
     n_fingerprint = None, n_byte_len = 0, n_soft_pin_until = None, n_host_spill_pin_until = None,
     n_entry_state = Ready, n_store_state = Idle, n_sparse_dropped = False, n_children = []\<rparr>"

definition is_tombstone :: "node \<Rightarrow> bool" where
  "is_tombstone n \<longleftrightarrow> n_block_id n = None \<and>
     (n_tier_location n \<noteq> None \<or> n_session_id n \<noteq> None \<or> n_fingerprint n \<noteq> None \<or>
      n_byte_len n \<noteq> 0 \<or> n_soft_pin_until n \<noteq> None \<or> n_host_spill_pin_until n \<noteq> None)"

subsection \<open>The cache\<close>

record radix_cache =
  rc_nodes :: "node list"
  rc_free_nodes :: "nat list"
  rc_block_size :: nat
  rc_clock :: nat
  rc_keepalive :: "nat option"
  rc_block_index :: "block_id \<rightharpoonup> nat"
  rc_namespace :: "nat list"

definition radix_new_with :: "nat \<Rightarrow> nat option \<Rightarrow> nat list \<Rightarrow> radix_cache option" where
  "radix_new_with bs ka ns =
     (if bs = 0 then None
      else Some \<lparr>rc_nodes = [node_new [] None 0], rc_free_nodes = [], rc_block_size = bs, rc_clock = 0,
                 rc_keepalive = ka, rc_block_index = Map.empty, rc_namespace = ns\<rparr>)"

definition radix_new :: "nat \<Rightarrow> radix_cache option" where
  "radix_new bs = radix_new_with bs None (replicate 32 0)"

definition with_soft_pin_keepalive :: "nat \<Rightarrow> nat \<Rightarrow> radix_cache option" where
  "with_soft_pin_keepalive bs ticks = radix_new_with bs (Some ticks) (replicate 32 0)"

definition new_with_namespace :: "nat \<Rightarrow> nat list \<Rightarrow> radix_cache option" where
  "new_with_namespace bs ns = radix_new_with bs None ns"

definition with_soft_pin_keepalive_namespaced :: "nat \<Rightarrow> nat \<Rightarrow> nat list \<Rightarrow> radix_cache option" where
  "with_soft_pin_keepalive_namespaced bs ticks ns = radix_new_with bs (Some ticks) ns"

definition mod_node :: "nat \<Rightarrow> (node \<Rightarrow> node) \<Rightarrow> radix_cache \<Rightarrow> radix_cache option" where
  "mod_node i f c =
     (if i < length (rc_nodes c)
      then Some (c\<lparr>rc_nodes := (rc_nodes c)[i := f (rc_nodes c ! i)]\<rparr>) else None)"

definition alloc_node :: "node \<Rightarrow> radix_cache \<Rightarrow> (nat \<times> radix_cache) option" where
  "alloc_node n c =
     (if rc_free_nodes c = [] then Some (length (rc_nodes c), c\<lparr>rc_nodes := rc_nodes c @ [n]\<rparr>)
      else let idx = last (rc_free_nodes c)
           in if idx < length (rc_nodes c)
              then Some (idx, c\<lparr>rc_free_nodes := butlast (rc_free_nodes c), rc_nodes := (rc_nodes c)[idx := n]\<rparr>)
              else None)"

definition maybe_refresh_soft_pin :: "nat \<Rightarrow> nat option \<Rightarrow> node \<Rightarrow> node" where
  "maybe_refresh_soft_pin now ka n =
     (case (n_soft_pin_until n, ka) of
        (Some _, Some ticks) \<Rightarrow> n\<lparr>n_soft_pin_until := Some (saturating_add u64_max now ticks)\<rparr>
      | _ \<Rightarrow> n)"

fun edge_match_len :: "token list \<Rightarrow> token list \<Rightarrow> nat" where
  "edge_match_len (a # as) (b # bs) = (if a = b then Suc (edge_match_len as bs) else 0)"
| "edge_match_len _ _ = 0"

definition child_edge_match :: "radix_cache \<Rightarrow> nat \<Rightarrow> token list \<Rightarrow> (nat \<times> nat) option" where
  "child_edge_match c ci remaining =
     do { n \<leftarrow> get_at (rc_nodes c) ci;
          Some (edge_match_len (n_tokens n) remaining, length (n_tokens n)) }"

definition next_block_boundary :: "radix_cache \<Rightarrow> nat \<Rightarrow> nat" where
  "next_block_boundary c bi = (bi + 1) * rc_block_size c"

definition full_block_end :: "radix_cache \<Rightarrow> nat \<Rightarrow> nat \<Rightarrow> nat option" where
  "full_block_end c bi tot =
     (let boundary = next_block_boundary c bi in if boundary \<le> tot then Some boundary else None)"

definition truncated_block_end :: "radix_cache \<Rightarrow> nat \<Rightarrow> nat \<Rightarrow> nat" where
  "truncated_block_end c bi tot = min (next_block_boundary c bi) tot"

definition rounded_prefix_len :: "radix_cache \<Rightarrow> nat \<Rightarrow> nat \<Rightarrow> nat" where
  "rounded_prefix_len c walked matched =
     (let len = min (matched * rc_block_size c) walked in (len div rc_block_size c) * rc_block_size c)"

fun index_nodes :: "nat \<Rightarrow> node list \<Rightarrow> (block_id \<rightharpoonup> nat) \<Rightarrow> (block_id \<rightharpoonup> nat)" where
  "index_nodes i [] m = m"
| "index_nodes i (n # ns) m =
     index_nodes (i + 1) ns (case n_block_id n of None \<Rightarrow> m | Some b \<Rightarrow> m(b \<mapsto> i))"

definition rebuild_block_index :: "radix_cache \<Rightarrow> radix_cache" where
  "rebuild_block_index c = c\<lparr>rc_block_index := index_nodes 0 (rc_nodes c) Map.empty\<rparr>"

definition fingerprints_for_session :: "session \<Rightarrow> radix_cache \<Rightarrow> fingerprint list" where
  "fingerprints_for_session sid c =
     List.map_filter (\<lambda>n. case (n_session_id n, n_fingerprint n) of
         (Some s, Some fp) \<Rightarrow> if s = sid then Some fp else None | _ \<Rightarrow> None) (rc_nodes c)"

fun find_block_by_fp :: "fingerprint \<Rightarrow> node list \<Rightarrow> block_id option" where
  "find_block_by_fp fp [] = None"
| "find_block_by_fp fp (n # ns) =
     (if n_fingerprint n = Some fp \<and> n_block_id n \<noteq> None then n_block_id n else find_block_by_fp fp ns)"

definition block_id_for_fingerprint :: "fingerprint \<Rightarrow> radix_cache \<Rightarrow> block_id option" where
  "block_id_for_fingerprint fp c = find_block_by_fp fp (rc_nodes c)"

text \<open>\<open>find_block_node_mut\<close> followed by a mutation of the node it finds.\<close>

definition with_block_node :: "block_id \<Rightarrow> (node \<Rightarrow> node) \<Rightarrow> radix_cache \<Rightarrow> bool \<times> radix_cache" where
  "with_block_node b f c =
     (case rc_block_index c b of
        None \<Rightarrow> (False, c)
      | Some i \<Rightarrow> (case mod_node i f c of None \<Rightarrow> (False, c) | Some c' \<Rightarrow> (True, c')))"

definition retag_block :: "block_id \<Rightarrow> block_id \<Rightarrow> radix_cache \<Rightarrow> bool \<times> radix_cache" where
  "retag_block old new c =
     (if old = new then (rc_block_index c old \<noteq> None, c)
      else if rc_block_index c new \<noteq> None then (False, c)
      else (case rc_block_index c old of
              None \<Rightarrow> (False, c)
            | Some idx \<Rightarrow>
              (let c1 = c\<lparr>rc_block_index := (rc_block_index c)(old := None)\<rparr>
               in case get_at (rc_nodes c1) idx of
                    None \<Rightarrow> (False, c1)
                  | Some n \<Rightarrow>
                    if n_block_id n \<noteq> Some old
                    then (False, c1\<lparr>rc_block_index := (rc_block_index c1)(old \<mapsto> idx)\<rparr>)
                    else (True, c1\<lparr>rc_nodes := (rc_nodes c1)[idx := n\<lparr>n_block_id := Some new\<rparr>],
                                   rc_block_index := (rc_block_index c1)(new \<mapsto> idx)\<rparr>))))"

subsection \<open>Reference counts\<close>

definition dec_node :: "block_id list \<Rightarrow> node \<Rightarrow> node" where
  "dec_node bs n =
     (case n_block_id n of
        Some b \<Rightarrow> if b \<in> set bs \<and> 0 < n_ref_count n then n\<lparr>n_ref_count := n_ref_count n - 1\<rparr> else n
      | None \<Rightarrow> n)"

definition dec_refs_by_block_id :: "block_id list \<Rightarrow> radix_cache \<Rightarrow> radix_cache" where
  "dec_refs_by_block_id bs c = c\<lparr>rc_nodes := map (dec_node bs) (rc_nodes c)\<rparr>"

definition radix_release :: "block_id list \<Rightarrow> radix_cache \<Rightarrow> radix_cache" where
  "radix_release bs c = dec_refs_by_block_id bs c"

subsection \<open>Lookup\<close>

definition touch :: "nat \<Rightarrow> node \<Rightarrow> node" where
  "touch now n = n\<lparr>n_last_access := now\<rparr>"

definition hit_node :: "nat \<Rightarrow> nat option \<Rightarrow> node \<Rightarrow> node" where
  "hit_node now ka n =
     maybe_refresh_soft_pin now ka
       (n\<lparr>n_ref_count := n_ref_count n + 1, n_hit_count := saturating_add u32_max (n_hit_count n) 1\<rparr>)"

partial_function (option) lookup_loop ::
    "token list \<Rightarrow> nat \<Rightarrow> radix_cache \<Rightarrow> nat \<Rightarrow> nat \<Rightarrow> block_id list
     \<Rightarrow> (radix_cache \<times> nat \<times> block_id list) option" where
  "lookup_loop toks now c ni pos bs =
     do { c1 \<leftarrow> mod_node ni (touch now) c;
          if length toks \<le> pos then Some (c1, pos, bs)
          else do { nd \<leftarrow> get_at (rc_nodes c1) ni;
            case map_of (n_children nd) (toks ! pos) of
              None \<Rightarrow> Some (c1, pos, bs)
            | Some ci \<Rightarrow>
              do { (ml, el) \<leftarrow> child_edge_match c1 ci (drop pos toks);
                   if ml < el then Some (c1, pos, bs)
                   else do { c2 \<leftarrow> mod_node ci (touch now) c1;
                     ch \<leftarrow> get_at (rc_nodes c2) ci;
                     case n_block_id ch of
                       None \<Rightarrow> lookup_loop toks now c2 ci (pos + ml) bs
                     | Some b \<Rightarrow>
                       do { c3 \<leftarrow> mod_node ci (hit_node now (rc_keepalive c2)) c2;
                            lookup_loop toks now c3 ci (pos + ml) (bs @ [b]) } } } } }"

definition tick :: "radix_cache \<Rightarrow> nat \<times> radix_cache" where
  "tick c = (rc_clock c + 1, c\<lparr>rc_clock := rc_clock c + 1\<rparr>)"

definition radix_lookup ::
    "token list \<Rightarrow> radix_cache \<Rightarrow> ((nat \<times> block_id list) \<times> radix_cache) option" where
  "radix_lookup toks c =
     (let (now, c0) = tick c
      in do { (c1, pos, bs) \<leftarrow> lookup_loop toks now c0 0 0 [];
              let rounded = rounded_prefix_len c1 pos (length bs);
                  block_count = rounded div rc_block_size c1
              in if block_count < length bs
                 then Some ((rounded, take block_count bs), dec_refs_by_block_id (drop block_count bs) c1)
                 else Some ((rounded, bs), c1) })"

record peek_prefix_outcome =
  pk_matched_len :: nat
  pk_blocks :: "(block_id \<times> hit_kind) list"

partial_function (option) peek_loop ::
    "token list \<Rightarrow> radix_cache \<Rightarrow> nat \<Rightarrow> nat \<Rightarrow> (block_id \<times> hit_kind) list
     \<Rightarrow> (nat \<times> (block_id \<times> hit_kind) list) option" where
  "peek_loop toks c ni pos bs =
     (if length toks \<le> pos then Some (pos, bs)
      else do { nd \<leftarrow> get_at (rc_nodes c) ni;
        case map_of (n_children nd) (toks ! pos) of
          None \<Rightarrow> Some (pos, bs)
        | Some ci \<Rightarrow>
          do { (ml, el) \<leftarrow> child_edge_match c ci (drop pos toks);
               if ml < el then Some (pos, bs)
               else do { ch \<leftarrow> get_at (rc_nodes c) ci;
                 case n_block_id ch of
                   Some b \<Rightarrow> peek_loop toks c ci (pos + ml)
                     (bs @ [(b, classify_hit (n_tier_location ch) (n_entry_state ch))])
                 | None \<Rightarrow> if is_tombstone ch then Some (pos + ml, bs)
                           else peek_loop toks c ci (pos + ml) bs } } })"

definition peek_prefix_classify :: "token list \<Rightarrow> radix_cache \<Rightarrow> peek_prefix_outcome option" where
  "peek_prefix_classify toks c =
     do { (pos, bs) \<leftarrow> peek_loop toks c 0 0 []; Some \<lparr>pk_matched_len = pos, pk_blocks = bs\<rparr> }"

text \<open>The part of a hit that classification needs: the hit kind and the recompute advice.\<close>

definition is_staging :: "hit_kind \<Rightarrow> bool" where
  "is_staging k \<longleftrightarrow> k = StagingFromHost \<or> k = StagingFromDisk"

definition node_advice :: "lookup_heuristics \<Rightarrow> nat \<Rightarrow> node \<Rightarrow> bool" where
  "node_advice h bs n =
     (let k = classify_hit (n_tier_location n) (n_entry_state n);
          byte_len = max (n_byte_len n) (bs mod 2 ^ 32)
      in is_staging k \<and> advise_recompute h k bs byte_len)"

definition block_hit :: "block_id \<Rightarrow> node \<Rightarrow> lookup_block" where
  "block_hit b n = \<lparr>lb_block_id = Some b, lb_hit_kind = classify_hit (n_tier_location n) (n_entry_state n)\<rparr>"

definition miss_block :: lookup_block where
  "miss_block = \<lparr>lb_block_id = None, lb_hit_kind = Miss\<rparr>"

partial_function (option) stage_loop ::
    "token list \<Rightarrow> lookup_heuristics \<Rightarrow> nat \<Rightarrow> radix_cache \<Rightarrow> nat \<Rightarrow> nat \<Rightarrow> lookup_block list \<Rightarrow> bool
     \<Rightarrow> (radix_cache \<times> nat \<times> lookup_block list \<times> bool) option" where
  "stage_loop toks h now c ni pos bs adv =
     do { c1 \<leftarrow> mod_node ni (touch now) c;
          if length toks \<le> pos then Some (c1, pos, bs, adv)
          else do { nd \<leftarrow> get_at (rc_nodes c1) ni;
            case map_of (n_children nd) (toks ! pos) of
              None \<Rightarrow> Some (c1, pos, bs, adv)
            | Some ci \<Rightarrow>
              do { (ml, el) \<leftarrow> child_edge_match c1 ci (drop pos toks);
                   if ml < el then Some (c1, pos, bs, adv)
                   else do { c2 \<leftarrow> mod_node ci (touch now) c1;
                     ch \<leftarrow> get_at (rc_nodes c2) ci;
                     case n_block_id ch of
                       Some b \<Rightarrow>
                         do { c3 \<leftarrow> mod_node ci (hit_node now (rc_keepalive c2)) c2;
                              stage_loop toks h now c3 ci (pos + ml) (bs @ [block_hit b ch])
                                (adv \<or> node_advice h (rc_block_size c2) ch) }
                     | None \<Rightarrow>
                         if is_tombstone ch then Some (c2, pos + ml, bs @ [miss_block], adv)
                         else stage_loop toks h now c2 ci (pos + ml) bs adv } } } }"

definition hit_blocks :: "lookup_block list \<Rightarrow> nat" where
  "hit_blocks bs = length (filter (\<lambda>b. lb_hit_kind b \<noteq> Miss) bs)"

definition lookup_or_stage ::
    "token list \<Rightarrow> lookup_heuristics \<Rightarrow> radix_cache \<Rightarrow> (lookup_outcome \<times> radix_cache) option" where
  "lookup_or_stage toks h c =
     (let (now, c0) = tick c
      in do { (c1, pos, bs, adv) \<leftarrow> stage_loop toks h now c0 0 0 [] False;
              Some (\<lparr>matched_len = rounded_prefix_len c1 pos (hit_blocks bs), lo_blocks = bs,
                     recompute_advised = adv\<rparr>, c1) })"

fun batch_lookup_or_stage ::
    "token list list \<Rightarrow> lookup_heuristics \<Rightarrow> radix_cache \<Rightarrow> (lookup_outcome list \<times> radix_cache) option" where
  "batch_lookup_or_stage [] h c = Some ([], c)"
| "batch_lookup_or_stage (p # ps) h c =
     do { (o1, c1) \<leftarrow> lookup_or_stage p h c;
          (os, c2) \<leftarrow> batch_lookup_or_stage ps h c1;
          Some (o1 # os, c2) }"

subsection \<open>Session lookup\<close>

record session_walk =
  sw_nodes :: "(nat \<times> nat) list"
  sw_count :: nat
  sw_pos :: nat

partial_function (option) session_loop ::
    "session \<Rightarrow> token list \<Rightarrow> radix_cache \<Rightarrow> nat \<Rightarrow> nat \<Rightarrow> session_walk \<Rightarrow> session_walk option" where
  "session_loop sid toks c ni pos w =
     (if length toks \<le> pos then Some w
      else do { nd \<leftarrow> get_at (rc_nodes c) ni;
        case map_of (n_children nd) (toks ! pos) of
          None \<Rightarrow> Some w
        | Some ci \<Rightarrow>
          do { (ml, el) \<leftarrow> child_edge_match c ci (drop pos toks);
               if ml < el then Some w
               else do { ch \<leftarrow> get_at (rc_nodes c) ci;
                 if n_block_id ch \<noteq> None
                 then let w1 = w\<lparr>sw_nodes := sw_nodes w @ [(ci, pos + ml)]\<rparr>
                      in session_loop sid toks c ci (pos + ml)
                           (if n_session_id ch = Some sid
                            then w1\<lparr>sw_count := length (sw_nodes w1), sw_pos := pos + ml\<rparr> else w1)
                 else if is_tombstone ch then Some w
                 else session_loop sid toks c ci (pos + ml) w } } })"

fun session_hits ::
    "(nat \<times> nat) list \<Rightarrow> lookup_heuristics \<Rightarrow> nat \<Rightarrow> radix_cache \<Rightarrow> lookup_block list \<Rightarrow> bool
     \<Rightarrow> (radix_cache \<times> lookup_block list \<times> bool) option" where
  "session_hits [] h now c bs adv = Some (c, bs, adv)"
| "session_hits ((i, _) # rest) h now c bs adv =
     do { c1 \<leftarrow> mod_node i (touch now) c;
          ch \<leftarrow> get_at (rc_nodes c1) i;
          case n_block_id ch of
            None \<Rightarrow> Some (c1, bs @ [miss_block], adv)
          | Some b \<Rightarrow>
            do { c2 \<leftarrow> mod_node i (hit_node now (rc_keepalive c1)) c1;
                 session_hits rest h now c2 (bs @ [block_hit b ch]) (adv \<or> node_advice h (rc_block_size c1) ch) } }"

definition empty_outcome :: lookup_outcome where
  "empty_outcome = \<lparr>matched_len = 0, lo_blocks = [], recompute_advised = False\<rparr>"

definition lookup_session_prefix_or_stage ::
    "session \<Rightarrow> token list \<Rightarrow> lookup_heuristics \<Rightarrow> radix_cache \<Rightarrow> (lookup_outcome \<times> radix_cache) option" where
  "lookup_session_prefix_or_stage sid toks h c =
     do { w \<leftarrow> session_loop sid toks c 0 0 \<lparr>sw_nodes = [], sw_count = 0, sw_pos = 0\<rparr>;
          if sw_count w = 0 then Some (empty_outcome, c)
          else let len = rounded_prefix_len c (sw_pos w) (sw_count w);
                   block_count = len div rc_block_size c
               in if block_count = 0 then Some (empty_outcome, c)
                  else let (now, c0) = tick c
                       in do { (c1, bs, adv) \<leftarrow> session_hits (take block_count (sw_nodes w)) h now c0 [] False;
                               Some (\<lparr>matched_len = rounded_prefix_len c1 len (hit_blocks bs), lo_blocks = bs,
                                      recompute_advised = adv\<rparr>, c1) } }"

subsection \<open>Insert\<close>

text \<open>A fully matched child that carries a block: the caller's block replaces it.\<close>

definition insert_set_block :: "nat \<Rightarrow> block_id \<Rightarrow> fingerprint \<Rightarrow> radix_cache \<Rightarrow> radix_cache option" where
  "insert_set_block ci new_bid fp c =
     do { ch \<leftarrow> get_at (rc_nodes c) ci;
          let c1 = (case n_block_id ch of
                      Some old_bid \<Rightarrow>
                        if old_bid \<noteq> new_bid then c\<lparr>rc_block_index := (rc_block_index c)(old_bid := None)\<rparr> else c
                    | None \<Rightarrow> c)
          in do { c2 \<leftarrow> mod_node ci (\<lambda>n. n\<lparr>n_block_id := Some new_bid, n_fingerprint := Some fp\<rparr>) c1;
                  Some (c2\<lparr>rc_block_index := (rc_block_index c2)(new_bid \<mapsto> ci)\<rparr>) } }"

text \<open>
  A partially matched child: a new node takes the shared part of the edge and the old child
  keeps the rest below it.
\<close>

definition split_edge :: "nat \<Rightarrow> token \<Rightarrow> nat \<Rightarrow> nat \<Rightarrow> nat \<Rightarrow> radix_cache \<Rightarrow> (nat \<times> radix_cache) option" where
  "split_edge ni next_token ci split_point now c =
     do { ch \<leftarrow> get_at (rc_nodes c) ci;
          let old_block = n_block_id ch;
              old_children = n_children ch;
              shared_tokens = take split_point (n_tokens ch);
              old_suffix = drop split_point (n_tokens ch);
              shared_node = (node_new shared_tokens None now)\<lparr>n_ref_count := n_ref_count ch\<rparr>
          in do { c1 \<leftarrow> mod_node ci (\<lambda>n. n\<lparr>n_children := [], n_tokens := []\<rparr>) c;
                  (shared_idx, c2) \<leftarrow> alloc_node shared_node c1;
                  c3 \<leftarrow> mod_node ci (\<lambda>n. n\<lparr>n_tokens := old_suffix, n_block_id := old_block, n_children := old_children\<rparr>) c2;
                  ch' \<leftarrow> get_at (rc_nodes c3) ci;
                  first_old \<leftarrow> get_at (n_tokens ch') 0;
                  c4 \<leftarrow> mod_node shared_idx (\<lambda>n. n\<lparr>n_children := AList.update first_old ci (n_children n)\<rparr>) c3;
                  c5 \<leftarrow> mod_node ni (\<lambda>n. n\<lparr>n_children := AList.update next_token shared_idx (n_children n)\<rparr>) c4;
                  Some (shared_idx, c5) } }"

text \<open>A new node below \<open>parent\<close>, with its block (if any) entered in the reverse index.\<close>

definition attach_leaf ::
    "nat \<Rightarrow> token list \<Rightarrow> block_id option \<Rightarrow> fingerprint option \<Rightarrow> nat \<Rightarrow> radix_cache \<Rightarrow> (nat \<times> radix_cache) option" where
  "attach_leaf parent edge b fp now c =
     do { first_tok \<leftarrow> get_at edge 0;
          (new_idx, c1) \<leftarrow> alloc_node ((node_new edge b now)\<lparr>n_fingerprint := fp\<rparr>) c;
          let c2 = (case b of Some bid \<Rightarrow> c1\<lparr>rc_block_index := (rc_block_index c1)(bid \<mapsto> new_idx)\<rparr> | None \<Rightarrow> c1)
          in do { c3 \<leftarrow> mod_node parent (\<lambda>n. n\<lparr>n_children := AList.update first_tok new_idx (n_children n)\<rparr>) c2;
                  Some (new_idx, c3) } }"

text \<open>No child matches: one node per remaining block window, the last one partial without a block.\<close>

partial_function (option) insert_tail ::
    "token list \<Rightarrow> block_id list \<Rightarrow> fingerprint list \<Rightarrow> nat \<Rightarrow> radix_cache \<Rightarrow> nat \<Rightarrow> nat \<Rightarrow> nat
     \<Rightarrow> (radix_cache \<times> nat) option" where
  "insert_tail toks blocks fps now c ni pos bi =
     (if pos < length toks \<and> bi < length blocks
      then let next_boundary = next_block_boundary c bi;
               end = truncated_block_end c bi (length toks)
           in do { edge \<leftarrow> slice pos end toks;
                   if end = next_boundary
                   then do { fp \<leftarrow> get_at fps bi;
                             (new_idx, c1) \<leftarrow> attach_leaf ni edge (Some (blocks ! bi)) (Some fp) now c;
                             insert_tail toks blocks fps now c1 new_idx end (bi + 1) }
                   else do { (new_idx, c1) \<leftarrow> attach_leaf ni edge None None now c; Some (c1, bi) } }
      else Some (c, bi))"

partial_function (option) insert_loop ::
    "token list \<Rightarrow> block_id list \<Rightarrow> fingerprint list \<Rightarrow> nat \<Rightarrow> radix_cache \<Rightarrow> nat \<Rightarrow> nat \<Rightarrow> nat
     \<Rightarrow> (radix_cache \<times> nat) option" where
  "insert_loop toks blocks fps now c ni pos bi =
     (if pos < length toks \<and> bi < length blocks
      then do { nd \<leftarrow> get_at (rc_nodes c) ni;
        case map_of (n_children nd) (toks ! pos) of
          None \<Rightarrow> insert_tail toks blocks fps now c ni pos bi
        | Some ci \<Rightarrow>
          do { (ml, el) \<leftarrow> child_edge_match c ci (drop pos toks);
               if ml = el
               then do { c1 \<leftarrow> mod_node ci (touch now) c;
                         ch \<leftarrow> get_at (rc_nodes c1) ci;
                         if n_block_id ch \<noteq> None
                         then do { fp \<leftarrow> get_at fps bi;
                                   c2 \<leftarrow> insert_set_block ci (blocks ! bi) fp c1;
                                   insert_loop toks blocks fps now c2 ci (pos + el) (bi + 1) }
                         else insert_loop toks blocks fps now c1 ci (pos + el) bi }
               else do { (shared_idx, c1) \<leftarrow> split_edge ni (toks ! pos) ci ml now c;
                         case full_block_end c1 bi (length toks) of
                           None \<Rightarrow> Some (c1, bi)
                         | Some block_end \<Rightarrow>
                           do { edge \<leftarrow> slice (pos + ml) block_end toks;
                                fp \<leftarrow> get_at fps bi;
                                (new_idx, c2) \<leftarrow> attach_leaf shared_idx edge (Some (blocks ! bi)) (Some fp) now c1;
                                insert_loop toks blocks fps now c2 new_idx block_end (bi + 1) } } } }
      else Some (c, bi))"

definition insert_with_fingerprints ::
    "token list \<Rightarrow> block_id list \<Rightarrow> fingerprint list \<Rightarrow> radix_cache \<Rightarrow> (nat \<times> radix_cache) option" where
  "insert_with_fingerprints toks blocks fps c =
     (if length blocks \<noteq> length fps then None
      else if blocks = [] \<or> toks = [] then Some (0, c)
      else let total_tokens = length blocks * rc_block_size c;
               toks' = take (min (length toks) total_tokens) toks;
               (now, c0) = tick c
           in do { (c1, bi) \<leftarrow> insert_loop toks' blocks fps now c0 0 0 0;
                   Some (bi * rc_block_size c1, c1) })"

definition radix_insert :: "token list \<Rightarrow> block_id list \<Rightarrow> radix_cache \<Rightarrow> (nat \<times> radix_cache) option" where
  "radix_insert toks blocks c =
     insert_with_fingerprints toks blocks (replicate (length blocks) (replicate 16 0)) c"

subsection \<open>Reconciliation after a restore\<close>

record reconcile_report =
  remapped :: nat
  tombstoned :: nat
  orphans_cleared :: nat

definition reconcile_node ::
    "(fingerprint \<rightharpoonup> block_id) \<Rightarrow> node \<Rightarrow> reconcile_report \<Rightarrow> node \<times> reconcile_report" where
  "reconcile_node known n r =
     (case n_fingerprint n of
        Some fp \<Rightarrow>
          (case known fp of
             Some b \<Rightarrow> (n\<lparr>n_block_id := Some b\<rparr>, r\<lparr>remapped := remapped r + 1\<rparr>)
           | None \<Rightarrow> (n\<lparr>n_block_id := None\<rparr>, r\<lparr>tombstoned := tombstoned r + 1\<rparr>))
      | None \<Rightarrow> (n\<lparr>n_block_id := None\<rparr>, r\<lparr>orphans_cleared := orphans_cleared r + 1\<rparr>))"

fun reconcile_nodes ::
    "(fingerprint \<rightharpoonup> block_id) \<Rightarrow> node list \<Rightarrow> reconcile_report \<Rightarrow> node list \<times> reconcile_report" where
  "reconcile_nodes known [] r = ([], r)"
| "reconcile_nodes known (n # ns) r =
     (let (n', r1) = reconcile_node known n r; (ns', r2) = reconcile_nodes known ns r1 in (n' # ns', r2))"

definition reconcile :: "(fingerprint \<rightharpoonup> block_id) \<Rightarrow> radix_cache \<Rightarrow> reconcile_report \<times> radix_cache" where
  "reconcile known c =
     (let (ns, r) = reconcile_nodes known (rc_nodes c) \<lparr>remapped = 0, tombstoned = 0, orphans_cleared = 0\<rparr>
      in (r, rebuild_block_index (c\<lparr>rc_nodes := ns\<rparr>)))"

subsection \<open>Victim selection\<close>

datatype selection_intent = Evict | Spill | Drain

definition pin_live :: "nat option \<Rightarrow> nat \<Rightarrow> bool" where
  "pin_live deadline now = (case deadline of Some d \<Rightarrow> now < d | None \<Rightarrow> False)"

fun selection_pin_active :: "node \<Rightarrow> tier option \<Rightarrow> selection_intent \<Rightarrow> nat \<Rightarrow> bool" where
  "selection_pin_active n tf Evict now = pin_live (n_soft_pin_until n) now"
| "selection_pin_active n (Some THostPinned) Spill now = pin_live (n_host_spill_pin_until n) now"
| "selection_pin_active n tf Spill now = pin_live (n_soft_pin_until n) now"
| "selection_pin_active n tf Drain now = False"

definition tier_ok :: "tier option \<Rightarrow> node \<Rightarrow> bool" where
  "tier_ok tf n = (case tf of None \<Rightarrow> True | Some t \<Rightarrow> map_option tier_of (n_tier_location n) = Some t)"

definition node_matches_tier_filter :: "radix_cache \<Rightarrow> nat \<Rightarrow> tier option \<Rightarrow> bool" where
  "node_matches_tier_filter c idx tf =
     (case get_at (rc_nodes c) idx of None \<Rightarrow> False
      | Some n \<Rightarrow> n_block_id n \<noteq> None \<and> tier_ok tf n)"

fun subtree_has_unselected_block_in_tier ::
    "nat \<Rightarrow> radix_cache \<Rightarrow> tier option \<Rightarrow> nat set \<Rightarrow> nat \<Rightarrow> bool option" where
  "subtree_has_unselected_block_in_tier 0 c tf sel idx = None"
| "subtree_has_unselected_block_in_tier (Suc fuel) c tf sel idx =
     (if idx \<in> sel then Some False
      else if node_matches_tier_filter c idx tf then Some True
      else (case get_at (rc_nodes c) idx of None \<Rightarrow> Some False
            | Some n \<Rightarrow> any_opt (subtree_has_unselected_block_in_tier fuel c tf sel) (map snd (n_children n))))"

definition node_is_active_leaf_for_tier :: "radix_cache \<Rightarrow> tier option \<Rightarrow> nat set \<Rightarrow> nat \<Rightarrow> bool option" where
  "node_is_active_leaf_for_tier c tf sel idx =
     (case get_at (rc_nodes c) idx of None \<Rightarrow> Some False
      | Some n \<Rightarrow>
        all_opt (\<lambda>j. map_option Not
            (subtree_has_unselected_block_in_tier (Suc (length (rc_nodes c))) c tf sel j)) (map snd (n_children n)))"

text \<open>
  One pass over the arena that keeps the best candidate: \<open>cand\<close> is the chain of \<open>continue\<close>
  guards (inner \<open>None\<close>: skipped), \<open>keep\<close> says whether the best so far survives a new one.
\<close>

fun scan_best ::
    "(nat \<Rightarrow> node \<Rightarrow> 'k option option) \<Rightarrow> ('k \<times> nat \<Rightarrow> 'k \<times> nat \<Rightarrow> bool) \<Rightarrow> nat \<Rightarrow> node list
     \<Rightarrow> ('k \<times> nat) option \<Rightarrow> ('k \<times> nat) option option" where
  "scan_best cand keep i [] best = Some best"
| "scan_best cand keep i (n # ns) best =
     do { r \<leftarrow> cand i n;
          scan_best cand keep (i + 1) ns
            (case r of None \<Rightarrow> best
             | Some k \<Rightarrow> (case best of None \<Rightarrow> Some (k, i)
                          | Some b \<Rightarrow> if keep b (k, i) then best else Some (k, i))) }"

subsection \<open>Garbage collection of orphaned tombstones\<close>

fun gc_pass :: "node list \<Rightarrow> nat list \<Rightarrow> nat set \<Rightarrow> bool \<Rightarrow> nat set \<times> bool" where
  "gc_pass ns [] r progressed = (r, progressed)"
| "gc_pass ns (idx # rest) r progressed =
     (if idx \<in> r then gc_pass ns rest r progressed
      else if n_block_id (ns ! idx) \<noteq> None \<or> n_ref_count (ns ! idx) \<noteq> 0 then gc_pass ns rest r progressed
      else if list_all (\<lambda>e. snd e \<in> r) (n_children (ns ! idx)) then gc_pass ns rest (insert idx r) True
      else gc_pass ns rest r progressed)"

partial_function (option) gc_loop :: "node list \<Rightarrow> nat set \<Rightarrow> nat set option" where
  "gc_loop ns r =
     (case gc_pass ns [1..<length ns] r False of
        (r', progressed) \<Rightarrow> if progressed then gc_loop ns r' else Some r')"

definition drop_children :: "nat set \<Rightarrow> node \<Rightarrow> node" where
  "drop_children s n = n\<lparr>n_children := filter (\<lambda>e. snd e \<notin> s) (n_children n)\<rparr>"

definition reset_node :: "node \<Rightarrow> node" where
  "reset_node n = n\<lparr>n_tokens := [], n_block_id := None, n_ref_count := 0, n_last_access := 0,
     n_entry_state := Ready, n_store_state := Idle, n_children := []\<rparr>"

definition gc_orphan_tombstones :: "radix_cache \<Rightarrow> radix_cache option" where
  "gc_orphan_tombstones c =
     do { r \<leftarrow> gc_loop (rc_nodes c) {};
          if r = {} then Some c
          else let reclaimed = filter (\<lambda>i. i \<in> r) [0..<length (rc_nodes c)];
                   ns = map (drop_children r) (rc_nodes c)
               in Some (c\<lparr>rc_nodes := map (\<lambda>i. if i \<in> r then reset_node (ns ! i) else ns ! i) [0..<length ns],
                          rc_free_nodes := rc_free_nodes c @ reclaimed\<rparr>) }"

subsection \<open>Eviction\<close>

definition evict_cand :: "radix_cache \<Rightarrow> nat set \<Rightarrow> nat \<Rightarrow> node \<Rightarrow> nat option option" where
  "evict_cand c ev idx n =
     (if idx = 0 \<or> idx \<in> ev then Some None
      else if n_ref_count n \<noteq> 0 \<or> n_block_id n = None then Some None
      else do { leaf \<leftarrow> node_is_active_leaf_for_tier c None ev idx;
                Some (if leaf then Some (n_last_access n) else None) })"

definition lru_keep :: "nat \<times> nat \<Rightarrow> nat \<times> nat \<Rightarrow> bool" where
  "lru_keep best new \<longleftrightarrow> fst best \<le> fst new"

text \<open>
  Taking the victim's block: the index entry goes, the block is freed, and the slot joins the
  evicted set. The loop below is shared by the two eviction entry points, which differ in how
  they \<open>pick\<close> the next victim.
\<close>

partial_function (option) evict_loop ::
    "(radix_cache \<Rightarrow> nat set \<Rightarrow> nat option option) \<Rightarrow> nat \<Rightarrow> radix_cache \<Rightarrow> nat set \<Rightarrow> block_id list
     \<Rightarrow> (radix_cache \<times> nat set \<times> block_id list) option" where
  "evict_loop pick n c ev freed =
     (if length freed < n
      then do { best \<leftarrow> pick c ev;
        case best of
          None \<Rightarrow> Some (c, ev, freed)
        | Some v \<Rightarrow>
          do { nd \<leftarrow> get_at (rc_nodes c) v;
               case n_block_id nd of
                 Some b \<Rightarrow>
                   evict_loop pick n
                     (c\<lparr>rc_nodes := (rc_nodes c)[v := nd\<lparr>n_block_id := None\<rparr>],
                        rc_block_index := (rc_block_index c)(b := None)\<rparr>) (insert v ev) (freed @ [b])
               | None \<Rightarrow> evict_loop pick n c (insert v ev) freed } }
      else Some (c, ev, freed))"

definition finish_evict :: "radix_cache \<Rightarrow> nat set \<Rightarrow> radix_cache option" where
  "finish_evict c ev = gc_orphan_tombstones (c\<lparr>rc_nodes := map (drop_children ev) (rc_nodes c)\<rparr>)"

definition pick_lru :: "radix_cache \<Rightarrow> nat set \<Rightarrow> nat option option" where
  "pick_lru c ev = map_option (map_option snd) (scan_best (evict_cand c ev) lru_keep 0 (rc_nodes c) None)"

definition radix_evict :: "nat \<Rightarrow> radix_cache \<Rightarrow> (block_id list \<times> radix_cache) option" where
  "radix_evict n c =
     (if n = 0 then Some ([], c)
      else do { (c1, ev, freed) \<leftarrow> evict_loop pick_lru n c {} [];
                c2 \<leftarrow> finish_evict c1 ev;
                Some (freed, c2) })"

definition candidate_of :: "radix_cache \<Rightarrow> node \<Rightarrow> eviction_candidate" where
  "candidate_of c n =
     \<lparr>ec_slot = (case n_tier_location n of Some (Gpu s) \<Rightarrow> s | _ \<Rightarrow> 0),
      ec_tokens = rc_block_size c mod 2 ^ 32, last_access_step = n_last_access n,
      ec_hit_count = n_hit_count n, prefix_depth = length (n_tokens n) mod 2 ^ 32, pinned = False\<rparr>"

definition store_ok :: "selection_intent \<Rightarrow> node \<Rightarrow> bool" where
  "store_ok intent n \<longleftrightarrow> intent = Evict \<or> n_store_state n = Idle \<or> n_store_state n = Failed"

definition finite_score :: "f32 \<Rightarrow> f32 option" where
  "finite_score x = (if is_finite x then Some x else None)"

definition policy_cand ::
    "score_fn \<Rightarrow> scheduler_signals \<Rightarrow> tier option \<Rightarrow> selection_intent \<Rightarrow> block_id set \<Rightarrow> radix_cache \<Rightarrow> nat set
     \<Rightarrow> nat \<Rightarrow> node \<Rightarrow> f32 option option" where
  "policy_cand score sig tf intent excluded c ev idx n =
     (if idx = 0 \<or> idx \<in> ev then Some None
      else (case n_block_id n of None \<Rightarrow> Some None
        | Some b \<Rightarrow>
          if b \<in> excluded \<or> n_ref_count n \<noteq> 0 \<or> \<not> tier_ok tf n \<or> selection_pin_active n tf intent (rc_clock c) \<or>
             n_entry_state n \<noteq> Ready \<or> \<not> store_ok intent n
          then Some None
          else do { leaf \<leftarrow> node_is_active_leaf_for_tier c tf ev idx;
                    Some (if leaf then finite_score (score (candidate_of c n) sig) else None) }))"

definition score_keep :: "f32 \<times> nat \<Rightarrow> f32 \<times> nat \<Rightarrow> bool" where
  "score_keep best new \<longleftrightarrow> total_less (fst best) (fst new) \<or> (total_eq (fst best) (fst new) \<and> snd best \<le> snd new)"

definition pick_policy ::
    "score_fn \<Rightarrow> scheduler_signals \<Rightarrow> tier option \<Rightarrow> selection_intent \<Rightarrow> block_id set
     \<Rightarrow> radix_cache \<Rightarrow> nat set \<Rightarrow> nat option option" where
  "pick_policy score sig tf intent excluded c ev =
     map_option (map_option snd)
       (scan_best (policy_cand score sig tf intent excluded c ev) score_keep 0 (rc_nodes c) None)"

definition evict_with_policy_for_intent_excluding ::
    "score_fn \<Rightarrow> scheduler_signals \<Rightarrow> nat \<Rightarrow> tier option \<Rightarrow> selection_intent \<Rightarrow> block_id set
     \<Rightarrow> radix_cache \<Rightarrow> (block_id list \<times> radix_cache) option" where
  "evict_with_policy_for_intent_excluding score sig n tf intent excluded c =
     (if n = 0 then Some ([], c)
      else do { (c1, ev, freed) \<leftarrow> evict_loop (pick_policy score sig tf intent excluded) n c {} [];
                c2 \<leftarrow> finish_evict c1 ev;
                Some (freed, c2) })"

definition evict_with_policy_for_intent ::
    "score_fn \<Rightarrow> scheduler_signals \<Rightarrow> nat \<Rightarrow> tier option \<Rightarrow> selection_intent
     \<Rightarrow> radix_cache \<Rightarrow> (block_id list \<times> radix_cache) option" where
  "evict_with_policy_for_intent score sig n tf intent c =
     evict_with_policy_for_intent_excluding score sig n tf intent {} c"

definition evict_with_policy ::
    "score_fn \<Rightarrow> scheduler_signals \<Rightarrow> nat \<Rightarrow> tier option \<Rightarrow> radix_cache \<Rightarrow> (block_id list \<times> radix_cache) option" where
  "evict_with_policy score sig n tf c = evict_with_policy_for_intent score sig n tf Evict c"

declare lookup_loop.simps [code] peek_loop.simps [code] stage_loop.simps [code] session_loop.simps [code]
  insert_tail.simps [code] insert_loop.simps [code] gc_loop.simps [code] evict_loop.simps [code]

end
