(* ===== verification/Radix_Inv.thy ===== *)
theory Radix_Inv
  imports Radix_Model
begin

text \<open>
  The invariant of the prefix cache and the notions the proofs about it share: the shape of the
  arena (what lookups and metadata updates leave alone), the walk that every lookup performs, and
  the map from block-aligned token prefixes to blocks that the cache stands for.
\<close>

subsection \<open>Shape\<close>

definition shape :: "node \<Rightarrow> token list \<times> block_id option \<times> (token, nat) hmap" where
  "shape n = (n_tokens n, n_block_id n, n_children n)"

definition same_shape :: "radix_cache \<Rightarrow> radix_cache \<Rightarrow> bool" where
  "same_shape c c' \<longleftrightarrow> map shape (rc_nodes c) = map shape (rc_nodes c') \<and>
     rc_free_nodes c = rc_free_nodes c' \<and> rc_block_size c = rc_block_size c' \<and> rc_block_index c = rc_block_index c'"

lemma same_shape_refl [simp]: "same_shape c c"
  by (simp add: same_shape_def)

lemma same_shape_sym: "same_shape c c' \<Longrightarrow> same_shape c' c"
  by (simp add: same_shape_def)

lemma same_shape_trans: "same_shape a b \<Longrightarrow> same_shape b c \<Longrightarrow> same_shape a c"
  by (simp add: same_shape_def)

lemma same_shapeD:
  assumes "same_shape c c'"
  shows "length (rc_nodes c') = length (rc_nodes c)" and "rc_free_nodes c' = rc_free_nodes c"
    and "rc_block_size c' = rc_block_size c" and "rc_block_index c' = rc_block_index c"
    and "i < length (rc_nodes c) \<Longrightarrow> n_tokens (rc_nodes c' ! i) = n_tokens (rc_nodes c ! i)"
    and "i < length (rc_nodes c) \<Longrightarrow> n_block_id (rc_nodes c' ! i) = n_block_id (rc_nodes c ! i)"
    and "i < length (rc_nodes c) \<Longrightarrow> n_children (rc_nodes c' ! i) = n_children (rc_nodes c ! i)"
proof -
  have m: "map shape (rc_nodes c) = map shape (rc_nodes c')" using assms by (simp add: same_shape_def)
  show len: "length (rc_nodes c') = length (rc_nodes c)" using map_eq_imp_length_eq [OF m] by simp
  have "shape (rc_nodes c ! i) = shape (rc_nodes c' ! i)" if "i < length (rc_nodes c)"
    using m that len by (metis nth_map)
  then show "i < length (rc_nodes c) \<Longrightarrow> n_tokens (rc_nodes c' ! i) = n_tokens (rc_nodes c ! i)"
    "i < length (rc_nodes c) \<Longrightarrow> n_block_id (rc_nodes c' ! i) = n_block_id (rc_nodes c ! i)"
    "i < length (rc_nodes c) \<Longrightarrow> n_children (rc_nodes c' ! i) = n_children (rc_nodes c ! i)"
    by (auto simp: shape_def)
qed (use assms in \<open>auto simp: same_shape_def\<close>)

lemma same_shape_update:
  "shape (f (rc_nodes c ! i)) = shape (rc_nodes c ! i) \<Longrightarrow>
     same_shape c (c\<lparr>rc_nodes := (rc_nodes c)[i := f (rc_nodes c ! i)]\<rparr>)"
  by (simp add: same_shape_def map_update) (metis list_update_id map_update)

lemma shape_touch [simp]: "shape (touch now n) = shape n"
  by (simp add: shape_def touch_def)

lemma shape_hit_node [simp]: "shape (hit_node now ka n) = shape n"
  by (simp add: shape_def hit_node_def maybe_refresh_soft_pin_def split: option.split)

subsection \<open>Edges and the tree\<close>

definition edge :: "radix_cache \<Rightarrow> nat \<Rightarrow> token \<Rightarrow> nat \<Rightarrow> bool" where
  "edge c i t j \<longleftrightarrow> i < length (rc_nodes c) \<and> map_of (n_children (rc_nodes c ! i)) t = Some j"

text \<open>
  \<open>pl i\<close> is the number of tokens on the path to slot \<open>i\<close>. Along an edge it grows by the length of
  the edge, an edge never crosses a block boundary, and a node below an edge carries a block
  exactly when its path ends on a boundary. Slots that eviction cut off keep their path length.
\<close>

definition edge_ok :: "radix_cache \<Rightarrow> (nat \<Rightarrow> nat) \<Rightarrow> nat \<Rightarrow> token \<Rightarrow> nat \<Rightarrow> bool" where
  "edge_ok c pl i t j \<longleftrightarrow> j < length (rc_nodes c) \<and> j \<noteq> 0 \<and> n_tokens (rc_nodes c ! j) \<noteq> [] \<and>
     hd (n_tokens (rc_nodes c ! j)) = t \<and> pl j = pl i + length (n_tokens (rc_nodes c ! j)) \<and>
     pl j \<le> (pl i div rc_block_size c + 1) * rc_block_size c \<and>
     (rc_block_size c dvd pl j \<longrightarrow> n_block_id (rc_nodes c ! j) \<noteq> None)"

definition tree_ok :: "radix_cache \<Rightarrow> (nat \<Rightarrow> nat) \<Rightarrow> bool" where
  "tree_ok c pl \<longleftrightarrow> 0 < rc_block_size c \<and> 0 < length (rc_nodes c) \<and> pl 0 = 0 \<and>
     n_block_id (rc_nodes c ! 0) = None \<and> n_tokens (rc_nodes c ! 0) = [] \<and>
     (\<forall>i<length (rc_nodes c). distinct (map fst (n_children (rc_nodes c ! i)))) \<and>
     (\<forall>i t j. edge c i t j \<longrightarrow> edge_ok c pl i t j) \<and>
     (\<forall>i t j i' t'. edge c i t j \<longrightarrow> edge c i' t' j \<longrightarrow> i = i') \<and>
     (\<forall>i<length (rc_nodes c). n_block_id (rc_nodes c ! i) \<noteq> None \<longrightarrow> rc_block_size c dvd pl i)"

definition free_ok :: "radix_cache \<Rightarrow> bool" where
  "free_ok c \<longleftrightarrow> (\<forall>i\<in>set (rc_free_nodes c). 0 < i \<and> i < length (rc_nodes c) \<and>
     n_children (rc_nodes c ! i) = [] \<and> n_block_id (rc_nodes c ! i) = None \<and> (\<forall>k t. \<not> edge c k t i))"

definition index_ok :: "radix_cache \<Rightarrow> bool" where
  "index_ok c \<longleftrightarrow> (\<forall>b i. rc_block_index c b = Some i \<longleftrightarrow>
     i < length (rc_nodes c) \<and> n_block_id (rc_nodes c ! i) = Some b)"

definition radix_wf :: "radix_cache \<Rightarrow> bool" where
  "radix_wf c \<longleftrightarrow> (\<exists>pl. tree_ok c pl) \<and> free_ok c \<and> index_ok c"

lemma edge_same_shape: "same_shape c c' \<Longrightarrow> edge c' i t j \<longleftrightarrow> edge c i t j"
  using same_shapeD by (auto simp: edge_def)

lemma edge_ok_same_shape:
  assumes "same_shape c c'"
  shows "edge_ok c' pl i t j \<longleftrightarrow> edge_ok c pl i t j"
  using same_shapeD [OF assms] by (auto simp: edge_ok_def)

lemma tree_ok_same_shape:
  assumes s: "same_shape c c'" and t: "tree_ok c pl"
  shows "tree_ok c' pl"
proof -
  have "0 < length (rc_nodes c)" using t by (simp add: tree_ok_def)
  then show ?thesis
    using t same_shapeD [OF s] unfolding tree_ok_def edge_same_shape [OF s] edge_ok_same_shape [OF s]
    by (metis (no_types, lifting))
qed

lemma free_ok_same_shape: "same_shape c c' \<Longrightarrow> free_ok c \<Longrightarrow> free_ok c'"
  using same_shapeD [of c c'] by (auto simp: free_ok_def edge_same_shape)

lemma index_ok_same_shape:
  assumes "same_shape c c'" and "index_ok c"
  shows "index_ok c'"
  using assms(2) same_shapeD [OF assms(1)] unfolding index_ok_def by metis

lemma radix_wf_same_shape: "same_shape c c' \<Longrightarrow> radix_wf c \<Longrightarrow> radix_wf c'"
  by (auto simp: radix_wf_def intro: tree_ok_same_shape free_ok_same_shape index_ok_same_shape)

lemma tree_okD:
  assumes "tree_ok c pl"
  shows "0 < rc_block_size c" and "0 < length (rc_nodes c)" and "pl 0 = 0"
    and "edge c i t j \<Longrightarrow> edge_ok c pl i t j"
    and "edge c i t j \<Longrightarrow> edge c i' t' j \<Longrightarrow> i = i'"
    and "i < length (rc_nodes c) \<Longrightarrow> n_block_id (rc_nodes c ! i) \<noteq> None \<Longrightarrow> rc_block_size c dvd pl i"
    and "i < length (rc_nodes c) \<Longrightarrow> distinct (map fst (n_children (rc_nodes c ! i)))"
    and "n_block_id (rc_nodes c ! 0) = None" and "n_tokens (rc_nodes c ! 0) = []"
  using assms by (simp_all add: tree_ok_def) blast+

lemma tree_okI:
  assumes "0 < rc_block_size c" and "0 < length (rc_nodes c)" and "pl 0 = 0"
    and "n_block_id (rc_nodes c ! 0) = None" and "n_tokens (rc_nodes c ! 0) = []"
    and "\<And>i. i < length (rc_nodes c) \<Longrightarrow> distinct (map fst (n_children (rc_nodes c ! i)))"
    and "\<And>i t j. edge c i t j \<Longrightarrow> edge_ok c pl i t j"
    and "\<And>i t j i' t'. edge c i t j \<Longrightarrow> edge c i' t' j \<Longrightarrow> i = i'"
    and "\<And>i. i < length (rc_nodes c) \<Longrightarrow> n_block_id (rc_nodes c ! i) \<noteq> None \<Longrightarrow> rc_block_size c dvd pl i"
  shows "tree_ok c pl"
  using assms unfolding tree_ok_def by blast

lemma free_okD:
  assumes "free_ok c" and "i \<in> set (rc_free_nodes c)"
  shows "0 < i" "i < length (rc_nodes c)" "n_children (rc_nodes c ! i) = []" "n_block_id (rc_nodes c ! i) = None"
    "\<not> edge c k t i"
  using assms by (simp_all add: free_ok_def)

lemma edge_okD:
  assumes "edge_ok c pl i t j"
  shows "j < length (rc_nodes c)" and "j \<noteq> 0" and "n_tokens (rc_nodes c ! j) \<noteq> []"
    and "hd (n_tokens (rc_nodes c ! j)) = t" and "pl j = pl i + length (n_tokens (rc_nodes c ! j))"
    and "pl j \<le> (pl i div rc_block_size c + 1) * rc_block_size c"
    and "rc_block_size c dvd pl j \<Longrightarrow> n_block_id (rc_nodes c ! j) \<noteq> None" and "pl i < pl j"
  using assms by (auto simp: edge_ok_def)

lemma edge_pl_less: "tree_ok c pl \<Longrightarrow> edge c i t j \<Longrightarrow> pl i < pl j"
  using tree_okD(4) edge_okD(8) by blast

subsection \<open>The walk of a lookup\<close>

function walk :: "radix_cache \<Rightarrow> nat \<Rightarrow> token list \<Rightarrow> nat list" where
  "walk c i ts =
     (if ts = [] \<or> length (rc_nodes c) \<le> i then []
      else case map_of (n_children (rc_nodes c ! i)) (hd ts) of
             None \<Rightarrow> []
           | Some j \<Rightarrow>
             if j < length (rc_nodes c) \<and> n_tokens (rc_nodes c ! j) \<noteq> [] \<and> prefix (n_tokens (rc_nodes c ! j)) ts
             then j # walk c j (drop (length (n_tokens (rc_nodes c ! j))) ts) else [])"
  by pat_completeness auto
termination
  by (relation "measure (\<lambda>(c, i, ts). length ts)") auto

declare walk.simps [simp del]

lemma walk_Nil [simp]: "walk c i [] = []"
  by (simp add: walk.simps)

lemma walk_step:
  assumes "edge c i t j" and "j < length (rc_nodes c)" and "n_tokens (rc_nodes c ! j) = t # e"
  shows "walk c i (n_tokens (rc_nodes c ! j) @ ts) = j # walk c j ts"
  using assms by (subst walk.simps) (auto simp: edge_def)

lemma edge_match_len_le: "edge_match_len xs ys \<le> length xs" "edge_match_len xs ys \<le> length ys"
  by (induction xs ys rule: edge_match_len.induct) auto

lemma edge_match_len_take: "take (edge_match_len xs ys) xs = take (edge_match_len xs ys) ys"
  by (induction xs ys rule: edge_match_len.induct) auto

lemma edge_match_len_full: "edge_match_len xs ys = length xs \<longleftrightarrow> prefix xs ys"
  by (induction xs ys rule: edge_match_len.induct) auto

lemma edge_match_len_diff:
  "edge_match_len xs ys < length xs \<Longrightarrow> edge_match_len xs ys < length ys \<Longrightarrow>
     xs ! edge_match_len xs ys \<noteq> ys ! edge_match_len xs ys"
  by (induction xs ys rule: edge_match_len.induct) auto

lemma edge_match_len_pos: "xs \<noteq> [] \<Longrightarrow> ys \<noteq> [] \<Longrightarrow> hd xs = hd ys \<Longrightarrow> 0 < edge_match_len xs ys"
  by (cases xs; cases ys) auto

end
