(* ===== verification/Radix_Lookup.thy ===== *)
theory Radix_Lookup
  imports Radix_Inv
begin

text \<open>
  Lookups. The loops of the four lookup entry points are reduced to the walk of \<open>Radix_Inv\<close>, and
  the walk to the map \<open>cached\<close> from token prefixes to blocks: a lookup returns the blocks of the
  successive block-aligned prefixes of its argument for as long as they are cached.
\<close>

subsection \<open>Paths from the root\<close>

inductive at_path :: "radix_cache \<Rightarrow> token list \<Rightarrow> nat \<Rightarrow> bool" for c where
  root: "at_path c [] 0"
| step: "at_path c p i \<Longrightarrow> edge c i t j \<Longrightarrow> at_path c (p @ n_tokens (rc_nodes c ! j)) j"

lemma at_path_pl:
  assumes "tree_ok c pl" and "at_path c p i"
  shows "pl i = length p \<and> i < length (rc_nodes c)"
  using assms(2)
proof induction
  case root
  then show ?case using tree_okD(2,3) [OF assms(1)] by simp
next
  case (step p i t j)
  then show ?case using edge_okD(1,5) [OF tree_okD(4) [OF assms(1) step.hyps(2)]] by simp
qed

lemma at_path_unique:
  assumes t: "tree_ok c pl" and "at_path c p i" and "at_path c q i"
  shows "p = q"
  using assms(2,3)
proof (induction arbitrary: q)
  case root
  then show ?case using at_path_pl [OF t root] tree_okD(3) [OF t] by simp
next
  case (step p i t' j)
  from step.prems have "j \<noteq> 0 \<longrightarrow> (\<exists>q' i' t''. q = q' @ n_tokens (rc_nodes c ! j) \<and> at_path c q' i' \<and> edge c i' t'' j)"
    by cases auto
  moreover have "j \<noteq> 0" using edge_okD(2) [OF tree_okD(4) [OF t step.hyps(2)]] .
  ultimately obtain q' i' t'' where q: "q = q' @ n_tokens (rc_nodes c ! j)" "at_path c q' i'" "edge c i' t'' j"
    by blast
  then have "i' = i" using tree_okD(5) [OF t step.hyps(2) q(3)] by simp
  with step.IH q show ?case by blast
qed

lemma at_path_Nil: "tree_ok c pl \<Longrightarrow> at_path c [] i \<longleftrightarrow> i = 0"
  using edge_okD(3) [OF tree_okD(4)] by (auto elim: at_path.cases intro: at_path.root)

text \<open>The map the cache stands for: the block stored for exactly this token prefix.\<close>

definition walked :: "radix_cache \<Rightarrow> nat list \<Rightarrow> nat" where
  "walked c js = sum_list (map (\<lambda>j. length (n_tokens (rc_nodes c ! j))) js)"

definition cached :: "radix_cache \<Rightarrow> token list \<Rightarrow> block_id option" where
  "cached c p =
     (let js = walk c 0 p
      in if js \<noteq> [] \<and> walked c js = length p then n_block_id (rc_nodes c ! last js) else None)"

lemma walked_simps [simp]:
  "walked c [] = 0" "walked c (j # js) = length (n_tokens (rc_nodes c ! j)) + walked c js"
  by (simp_all add: walked_def)

lemma walk_Cons:
  assumes "tree_ok c pl" and "walk c i ts = j # js"
  shows "edge c i (hd ts) j" and "ts \<noteq> []" and "prefix (n_tokens (rc_nodes c ! j)) ts"
    and "js = walk c j (drop (length (n_tokens (rc_nodes c ! j))) ts)"
  using assms(2) by (subst (asm) (1) walk.simps; auto simp: edge_def split: if_splits option.splits)+

lemma walk_edge_iff:
  assumes t: "tree_ok c pl" and e: "edge c i (hd ts) j" and ne: "ts \<noteq> []"
  shows "walk c i ts = (if prefix (n_tokens (rc_nodes c ! j)) ts
     then j # walk c j (drop (length (n_tokens (rc_nodes c ! j))) ts) else [])"
  using e ne edge_okD(1,3) [OF tree_okD(4) [OF t e]] by (subst walk.simps) (auto simp: edge_def)

lemma walk_no_edge: "(\<And>j. \<not> edge c i (hd ts) j) \<Longrightarrow> walk c i ts = []"
  by (subst walk.simps) (auto simp: edge_def split: option.splits)

lemma walk_at_path:
  assumes "tree_ok c pl" and "at_path c p i" and "walk c i ts = js" and "js \<noteq> []"
  shows "at_path c (p @ take (walked c js) ts) (last js) \<and> walked c js \<le> length ts"
  using assms(2-)
proof (induction js arbitrary: p i ts)
  case (Cons j js)
  note w = walk_Cons [OF assms(1) Cons.prems(2)]
  let ?e = "n_tokens (rc_nodes c ! j)"
  obtain r where r: "ts = ?e @ r" using w(3) by (auto simp: prefix_def)
  have j: "at_path c (p @ ?e) j" using at_path.step [OF Cons.prems(1) w(1)] .
  show ?case
  proof (cases "js = []")
    case True
    then show ?thesis using j r by simp
  next
    case False
    then show ?thesis using Cons.IH [OF j, of r] w(4) r by simp
  qed
qed simp

lemma at_path_walk:
  assumes "tree_ok c pl" and "at_path c p i"
  shows "\<exists>js. (\<forall>ts. walk c 0 (p @ ts) = js @ walk c i ts) \<and> walked c js = length p \<and>
     (p \<noteq> [] \<longrightarrow> js \<noteq> []) \<and> (js \<noteq> [] \<longrightarrow> last js = i)"
  using assms(2)
proof induction
  case root
  then show ?case by (intro exI [of _ "[]"]) simp
next
  case (step p i t j)
  then obtain js where js: "\<And>ts. walk c 0 (p @ ts) = js @ walk c i ts" "walked c js = length p" by blast
  let ?e = "n_tokens (rc_nodes c ! j)"
  note ok = edge_okD [OF tree_okD(4) [OF assms(1) step.hyps(2)]]
  obtain e' where e': "?e = t # e'" using ok(3,4) by (cases ?e) auto
  have "walk c 0 ((p @ ?e) @ ts) = (js @ [j]) @ walk c j ts" for ts
    using js(1) [of "?e @ ts"] walk_step [OF step.hyps(2) ok(1) e', of ts] by simp
  moreover have "walked c (js @ [j]) = length (p @ ?e)" using js(2) by (simp add: walked_def)
  ultimately show ?case by (intro exI [of _ "js @ [j]"]) simp
qed

lemma at_path_fun:
  assumes t: "tree_ok c pl" and "at_path c p i" and "at_path c p j"
  shows "i = j"
proof (cases "p = []")
  case True
  then show ?thesis using assms at_path_Nil [OF t] by simp
next
  case False
  have "last (walk c 0 p) = i" if "at_path c p i" for i
    using at_path_walk [OF t that] False by (metis append_Nil2 walk_Nil)
  then show ?thesis using assms(2,3) by blast
qed

lemma cached_iff:
  assumes t: "tree_ok c pl"
  shows "cached c p = Some b \<longleftrightarrow> (\<exists>i. at_path c p i \<and> n_block_id (rc_nodes c ! i) = Some b)"
proof
  assume a: "cached c p = Some b"
  let ?js = "walk c 0 p"
  have "?js \<noteq> []" "walked c ?js = length p" "n_block_id (rc_nodes c ! last ?js) = Some b"
    using a by (auto simp: cached_def Let_def split: if_splits)
  then show "\<exists>i. at_path c p i \<and> n_block_id (rc_nodes c ! i) = Some b"
    using walk_at_path [OF t at_path.root refl, of p] by auto
next
  assume "\<exists>i. at_path c p i \<and> n_block_id (rc_nodes c ! i) = Some b"
  then obtain i where i: "at_path c p i" "n_block_id (rc_nodes c ! i) = Some b" by blast
  have "p \<noteq> []"
  proof
    assume "p = []"
    then have "i = 0" using i(1) at_path_Nil [OF t] by simp
    then show False using i(2) tree_okD(8) [OF t] by simp
  qed
  with at_path_walk [OF t i(1)] obtain js where "walk c 0 (p @ []) = js @ walk c i []"
    "walked c js = length p" "js \<noteq> []" "last js = i" by blast
  then show "cached c p = Some b" using i(2) by (simp add: cached_def)
qed

subsection \<open>Blocks along a walk\<close>

lemma div_step:
  assumes "0 < (s::nat)" and "a < b" and "b \<le> (a div s + 1) * s"
  shows "b div s = a div s + (if s dvd b then 1 else 0)"
proof (cases "b = (a div s + 1) * s")
  case True
  then show ?thesis using assms(1) by simp
next
  case False
  then have "b < (a div s + 1) * s" using assms(3) by simp
  then have "b div s \<le> a div s" using assms(1) by (metis add.commute less_Suc_eq_le less_mult_imp_div_less plus_1_eq_Suc)
  moreover have "a div s \<le> b div s" using assms(2) by (simp add: div_le_mono)
  moreover have "\<not> s dvd b"
  proof
    assume "s dvd b"
    then obtain k where "b = k * s" by (auto simp: dvd_def mult.commute)
    moreover have "a div s * s \<le> a" by simp
    moreover have "k \<le> a div s" using \<open>b div s \<le> a div s\<close> assms(1) \<open>b = k * s\<close> by simp
    ultimately show False using assms(2) mult_le_mono1 [of k "a div s" s] by linarith
  qed
  ultimately show ?thesis by simp
qed

lemma edge_blocks:
  assumes t: "tree_ok c pl" and e: "edge c i x j"
  shows "pl j div rc_block_size c = pl i div rc_block_size c + (if n_block_id (rc_nodes c ! j) \<noteq> None then 1 else 0)"
    and "n_block_id (rc_nodes c ! j) \<noteq> None \<longleftrightarrow> rc_block_size c dvd pl j"
proof -
  note ok = edge_okD [OF tree_okD(4) [OF t e]]
  show b: "n_block_id (rc_nodes c ! j) \<noteq> None \<longleftrightarrow> rc_block_size c dvd pl j"
    using ok(7) tree_okD(6) [OF t ok(1)] by blast
  show "pl j div rc_block_size c = pl i div rc_block_size c + (if n_block_id (rc_nodes c ! j) \<noteq> None then 1 else 0)"
    using div_step [OF tree_okD(1) [OF t] ok(8) ok(6)] unfolding b by simp
qed

definition walk_blocks :: "radix_cache \<Rightarrow> nat list \<Rightarrow> block_id list" where
  "walk_blocks c js = List.map_filter (\<lambda>j. n_block_id (rc_nodes c ! j)) js"

lemma walk_blocks_simps [simp]:
  "walk_blocks c [] = []"
  "walk_blocks c (j # js) = (case n_block_id (rc_nodes c ! j) of None \<Rightarrow> [] | Some b \<Rightarrow> [b]) @ walk_blocks c js"
  by (auto simp: walk_blocks_def map_filter_simps split: option.split)

lemma walk_pl:
  assumes "tree_ok c pl" and "walk c i ts = js"
  shows "(pl i + walked c js) div rc_block_size c = pl i div rc_block_size c + length (walk_blocks c js)"
    and "\<forall>j\<in>set js. pl i < pl j \<and> pl j \<le> pl i + walked c js"
    and "distinct js" and "walked c js \<le> length ts"
  using assms(2)
proof (induction js arbitrary: i ts)
  case (Cons j' js)
  case 1
  note w = walk_Cons [OF assms(1) 1]
  from Cons.IH(1) [OF w(4) [symmetric]] edge_blocks(1) [OF assms(1) w(1)] edge_okD(5) [OF tree_okD(4) [OF assms(1) w(1)]]
  show ?case by (auto simp: add.assoc split: option.split if_splits)
next
  case (Cons j' js)
  case 2
  note w = walk_Cons [OF assms(1) 2]
  from Cons.IH(2) [OF w(4) [symmetric]] edge_pl_less [OF assms(1) w(1)] edge_okD(5) [OF tree_okD(4) [OF assms(1) w(1)]]
  show ?case by fastforce
next
  case (Cons j' js)
  case 3
  note w = walk_Cons [OF assms(1) 3]
  from Cons.IH(2) [OF w(4) [symmetric]] Cons.IH(3) [OF w(4) [symmetric]] show ?case by fastforce
next
  case (Cons j' js)
  case 4
  note w = walk_Cons [OF assms(1) 4]
  from Cons.IH(4) [OF w(4) [symmetric]] prefix_length_le [OF w(3)] show ?case by simp
qed simp_all

lemma walk_take:
  assumes "tree_ok c pl"
  shows "walk c i (take m ts) = takeWhile (\<lambda>j. pl j \<le> pl i + m) (walk c i ts)"
proof (induction "length ts" arbitrary: i m ts rule: less_induct)
  case less
  show ?case
  proof (cases "\<exists>j. edge c i (hd ts) j")
    case False
    then show ?thesis using walk_no_edge [of c i ts] walk_no_edge [of c i "take m ts"] by (cases m; cases ts) auto
  next
    case True
    then obtain j where e: "edge c i (hd ts) j" by blast
    note ok = edge_okD [OF tree_okD(4) [OF assms e]]
    let ?e = "n_tokens (rc_nodes c ! j)"
    show ?thesis
    proof (cases "ts \<noteq> [] \<and> m \<noteq> 0")
      case False
      then show ?thesis
        using walk_pl(2) [OF assms refl, of i ts] by (cases "walk c i ts") auto
    next
      case True
      then have ts: "ts \<noteq> []" "take m ts \<noteq> []" "hd (take m ts) = hd ts" by (cases ts; cases m; auto)+
      note w = walk_edge_iff [OF assms e ts(1)] walk_edge_iff [OF assms, of i "take m ts" j, unfolded ts(3), OF e ts(2)]
      show ?thesis
      proof (cases "prefix ?e ts \<and> length ?e \<le> m")
        case True
        then have p: "prefix ?e (take m ts)" "prefix ?e ts" by (auto simp: prefix_def)
        have "length (drop (length ?e) ts) < length ts" using ok(3) ts(1) by (cases ts; cases ?e) auto
        from less [OF this, of j "m - length ?e"] True show ?thesis
          unfolding w using p ok(5) by (simp add: take_drop)
      next
        case False
        then have "\<not> prefix ?e (take m ts)" by (metis length_take min.bounded_iff prefix_length_le prefix_order.trans take_is_prefix)
        moreover have "\<not> pl j \<le> pl i + m" if "prefix ?e ts" using that False ok(5) by simp
        ultimately show ?thesis unfolding w by auto
      qed
    qed
  qed
qed

lemma walk_mem_at_path:
  assumes t: "tree_ok c pl" and "at_path c p i" and "walk c i ts = js" and "j \<in> set js"
  shows "at_path c (p @ take (pl j - pl i) ts) j"
  using assms(2-)
proof (induction js arbitrary: p i ts)
  case (Cons j' js)
  note w = walk_Cons [OF t Cons.prems(2)]
  note ok = edge_okD [OF tree_okD(4) [OF t w(1)]]
  let ?e = "n_tokens (rc_nodes c ! j')"
  obtain r where r: "ts = ?e @ r" using w(3) by (auto simp: prefix_def)
  have j': "at_path c (p @ ?e) j'" using at_path.step [OF Cons.prems(1) w(1)] .
  show ?case
  proof (cases "j = j'")
    case True
    then show ?thesis using j' r ok(5) by simp
  next
    case False
    then have m: "j \<in> set js" using Cons.prems(3) by simp
    have "pl j' < pl j" using walk_pl(2) [OF t w(4) [symmetric]] m by blast
    moreover have "at_path c ((p @ ?e) @ take (pl j - pl j') r) j"
      using Cons.IH [OF j' _ m, of r] w(4) r by simp
    ultimately show ?thesis using r ok(5) by (simp add: take_append)
  qed
qed simp

lemma walk_blocks_nth:
  assumes t: "tree_ok c pl" and "walk c i ts = js" and "k < length (walk_blocks c js)"
  shows "\<exists>j\<in>set js. n_block_id (rc_nodes c ! j) = Some (walk_blocks c js ! k) \<and>
     pl j = (pl i div rc_block_size c + k + 1) * rc_block_size c"
  using assms(2-)
proof (induction js arbitrary: i ts k)
  case (Cons j js)
  note w = walk_Cons [OF t Cons.prems(1)]
  note eb = edge_blocks [OF t w(1)]
  show ?case
  proof (cases "n_block_id (rc_nodes c ! j)")
    case None
    then show ?thesis using Cons.IH [OF w(4) [symmetric], of k] Cons.prems(2) eb(1) by auto
  next
    case (Some b)
    then have d: "pl j = pl j div rc_block_size c * rc_block_size c" using eb(2) by auto
    show ?thesis
    proof (cases k)
      case 0
      then show ?thesis using Some eb(1) d by auto
    next
      case (Suc k')
      then show ?thesis using Cons.IH [OF w(4) [symmetric], of k'] Cons.prems(2) eb(1) Some by auto
    qed
  qed
qed simp

lemma walk_blocks_cached:
  assumes t: "tree_ok c pl" and k: "k < length (walk_blocks c (walk c 0 toks))"
  shows "cached c (take ((k + 1) * rc_block_size c) toks) = Some (walk_blocks c (walk c 0 toks) ! k)"
proof -
  obtain j where j: "j \<in> set (walk c 0 toks)"
    "n_block_id (rc_nodes c ! j) = Some (walk_blocks c (walk c 0 toks) ! k)" "pl j = (k + 1) * rc_block_size c"
    using walk_blocks_nth [OF t refl k] tree_okD(3) [OF t] by auto
  then have "at_path c ([] @ take (pl j - pl 0) toks) j"
    using walk_mem_at_path [OF t at_path.root refl] by blast
  then show ?thesis using j cached_iff [OF t] tree_okD(3) [OF t] by auto
qed

lemma cached_walk_blocks:
  assumes t: "tree_ok c pl" and b: "cached c (take m toks) = Some b" and m: "m \<le> length toks"
  shows "m div rc_block_size c \<le> length (walk_blocks c (walk c 0 toks))"
proof -
  obtain i where i: "at_path c (take m toks) i" using b cached_iff [OF t] by blast
  obtain js where "walk c 0 (take m toks @ drop m toks) = js @ walk c i (drop m toks)" "walked c js = length (take m toks)"
    using at_path_walk [OF t i] by blast
  then have "m \<le> walked c (walk c 0 toks)" using m by (simp add: walked_def)
  moreover have "walked c (walk c 0 toks) div rc_block_size c = length (walk_blocks c (walk c 0 toks))"
    using walk_pl(1) [OF t refl, of 0 toks] tree_okD(3) [OF t] by simp
  ultimately show ?thesis by (metis div_le_mono)
qed

subsection \<open>The abstract lookup\<close>

text \<open>
  A prefix map sends token prefixes to blocks. Looking a token list up in it yields the blocks of
  its prefixes of length \<open>s\<close>, \<open>2 * s\<close>, \<open>3 * s\<close>, ... up to the first one that is missing.
\<close>

type_synonym prefix_map = "token list \<rightharpoonup> block_id"

definition spec_lookup :: "nat \<Rightarrow> prefix_map \<Rightarrow> token list \<Rightarrow> block_id list" where
  "spec_lookup s m toks =
     map the (takeWhile (\<lambda>x. x \<noteq> None) (map (\<lambda>k. m (take ((k + 1) * s) toks)) [0..<length toks div s]))"

lemma takeWhile_map_upt_eq:
  assumes "\<And>k. k < n \<Longrightarrow> f k = Some (xs ! k)" and "n < N \<Longrightarrow> f n = None" and "n \<le> N" and "length xs = n"
  shows "map the (takeWhile (\<lambda>x. x \<noteq> None) (map f [0..<N])) = xs"
proof -
  have "[0..<N] = [0..<n] @ [n..<N]" using assms(3) by (metis le_add_diff_inverse upt_add_eq_append zero_le)
  moreover have "takeWhile (\<lambda>x. x \<noteq> None) (map f [n..<N]) = []"
    using assms(2) by (cases "n < N") (auto simp: upt_conv_Cons)
  moreover have "\<forall>x\<in>set (map f [0..<n]). x \<noteq> None" using assms(1) by auto
  ultimately have "takeWhile (\<lambda>x. x \<noteq> None) (map f [0..<N]) = map f [0..<n]"
    by (simp add: takeWhile_append)
  moreover have "map the (map f [0..<n]) = xs"
    using assms(1,4) by (intro nth_equalityI) auto
  ultimately show ?thesis by simp
qed

lemma walk_blocks_spec:
  assumes t: "tree_ok c pl"
  shows "walk_blocks c (walk c 0 toks) = spec_lookup (rc_block_size c) (cached c) toks"
proof -
  let ?bl = "walk_blocks c (walk c 0 toks)" and ?s = "rc_block_size c"
  have s: "0 < ?s" using tree_okD(1) [OF t] .
  have "walked c (walk c 0 toks) div ?s = length ?bl"
    using walk_pl(1) [OF t refl, of 0 toks] tree_okD(3) [OF t] by simp
  then have le: "length ?bl \<le> length toks div ?s" using walk_pl(4) [OF t refl] by (metis div_le_mono)
  have "cached c (take ((length ?bl + 1) * ?s) toks) = None" if "length ?bl < length toks div ?s"
  proof (rule ccontr)
    assume "\<not> ?thesis"
    then obtain b where "cached c (take ((length ?bl + 1) * ?s) toks) = Some b" by blast
    moreover have "(length ?bl + 1) * ?s \<le> length toks"
      using that by (metis Suc_eq_plus1 Suc_leI le_trans mult.commute mult_le_mono2 times_div_less_eq_dividend)
    ultimately show False using cached_walk_blocks [OF t] s by (metis add_le_same_cancel1 nonzero_mult_div_cancel_right not_gr_zero not_one_le_zero)
  qed
  then show ?thesis unfolding spec_lookup_def
    by (intro takeWhile_map_upt_eq [symmetric]) (use le walk_blocks_cached [OF t] in auto)
qed

subsection \<open>What a lookup does to the nodes on its walk\<close>

definition visit_node :: "nat \<Rightarrow> nat option \<Rightarrow> node \<Rightarrow> node" where
  "visit_node now ka n = (if n_block_id n = None then touch now n else hit_node now ka (touch now n))"

definition upd_at :: "nat \<Rightarrow> (node \<Rightarrow> node) \<Rightarrow> radix_cache \<Rightarrow> radix_cache" where
  "upd_at i f c = c\<lparr>rc_nodes := (rc_nodes c)[i := f (rc_nodes c ! i)]\<rparr>"

definition visit_path :: "nat \<Rightarrow> nat list \<Rightarrow> radix_cache \<Rightarrow> radix_cache" where
  "visit_path now js c = fold (\<lambda>j. upd_at j (visit_node now (rc_keepalive c))) js c"

lemma mod_node_upd_at [simp]: "i < length (rc_nodes c) \<Longrightarrow> mod_node i f c = Some (upd_at i f c)"
  by (simp add: mod_node_def upd_at_def)

lemma upd_at_simps [simp]:
  "length (rc_nodes (upd_at i f c)) = length (rc_nodes c)" "rc_keepalive (upd_at i f c) = rc_keepalive c"
  "rc_block_size (upd_at i f c) = rc_block_size c" "rc_clock (upd_at i f c) = rc_clock c"
  "rc_free_nodes (upd_at i f c) = rc_free_nodes c" "rc_block_index (upd_at i f c) = rc_block_index c"
  "rc_namespace (upd_at i f c) = rc_namespace c"
  "i < length (rc_nodes c) \<Longrightarrow> rc_nodes (upd_at i f c) ! i = f (rc_nodes c ! i)"
  "k \<noteq> i \<Longrightarrow> rc_nodes (upd_at i f c) ! k = rc_nodes c ! k"
  by (simp_all add: upd_at_def)

lemma upd_at_twice: "i < length (rc_nodes c) \<Longrightarrow> upd_at i g (upd_at i f c) = upd_at i (\<lambda>n. g (f n)) c"
  by (simp add: upd_at_def)

lemma upd_at_cong:
  "f (rc_nodes c ! i) = g (rc_nodes c ! i) \<Longrightarrow> upd_at i f c = upd_at i g c"
  by (simp add: upd_at_def)

lemma shape_visit_node [simp]: "shape (visit_node now ka n) = shape n"
  by (simp add: visit_node_def)

lemma same_shape_upd_at: "shape (f (rc_nodes c ! i)) = shape (rc_nodes c ! i) \<Longrightarrow> same_shape c (upd_at i f c)"
  unfolding upd_at_def by (rule same_shape_update)

lemma touch_visit [simp]: "touch now (visit_node now ka n) = visit_node now ka n"
  by (simp add: visit_node_def touch_def hit_node_def maybe_refresh_soft_pin_def split: option.split)

lemma touch_touch [simp]: "touch now (touch now n) = touch now n"
  by (simp add: touch_def)

lemma touch_sel [simp]:
  "n_block_id (touch now n) = n_block_id n" "n_tokens (touch now n) = n_tokens n"
  "n_children (touch now n) = n_children n" "n_entry_state (touch now n) = n_entry_state n"
  "n_tier_location (touch now n) = n_tier_location n" "n_byte_len (touch now n) = n_byte_len n"
  "is_tombstone (touch now n) = is_tombstone n"
  by (simp_all add: touch_def is_tombstone_def)

lemma visit_path_simps [simp]:
  "visit_path now [] c = c"
  "visit_path now (j # js) c = visit_path now js (upd_at j (visit_node now (rc_keepalive c)) c)"
  by (simp_all add: visit_path_def)

lemma same_shape_visit_path: "same_shape c (visit_path now js c)"
proof (induction js arbitrary: c)
  case (Cons j js)
  have "same_shape c (upd_at j (visit_node now (rc_keepalive c)) c)" by (rule same_shape_upd_at) simp
  then show ?case using Cons same_shape_trans by force
qed simp

lemma visit_path_fields [simp]:
  "rc_keepalive (visit_path now js c) = rc_keepalive c" "rc_clock (visit_path now js c) = rc_clock c"
  "rc_namespace (visit_path now js c) = rc_namespace c"
  by (induction js arbitrary: c) auto

lemma visit_path_nth:
  "distinct js \<Longrightarrow> i < length (rc_nodes c) \<Longrightarrow>
     rc_nodes (visit_path now js c) ! i =
       (if i \<in> set js then visit_node now (rc_keepalive c) (rc_nodes c ! i) else rc_nodes c ! i)"
proof (induction js arbitrary: c)
  case (Cons j js)
  then show ?case by (cases "i = j") auto
qed simp

lemma walk_same_shape:
  assumes s: "same_shape c c'" and t: "tree_ok c pl"
  shows "walk c' i ts = walk c i ts"
proof (induction "length ts" arbitrary: i ts rule: less_induct)
  case less
  note t' = tree_ok_same_shape [OF s t]
  show ?case
  proof (cases "ts \<noteq> [] \<and> (\<exists>j. edge c i (hd ts) j)")
    case False
    then show ?thesis using walk_no_edge [of c i ts] walk_no_edge [of c' i ts] edge_same_shape [OF s] by (cases ts) auto
  next
    case True
    then obtain j where e: "edge c i (hd ts) j" and ne: "ts \<noteq> []" by blast
    note ok = edge_okD [OF tree_okD(4) [OF t e]]
    have tk: "n_tokens (rc_nodes c' ! j) = n_tokens (rc_nodes c ! j)" using same_shapeD(5) [OF s ok(1)] .
    have "length (drop (length (n_tokens (rc_nodes c ! j))) ts) < length ts"
      using ok(3) ne by (cases ts; cases "n_tokens (rc_nodes c ! j)") auto
    from less [OF this] show ?thesis
      using walk_edge_iff [OF t e ne] walk_edge_iff [OF t' _ ne] e edge_same_shape [OF s] tk by simp
  qed
qed

lemma walked_same_shape:
  assumes s: "same_shape c c'" and "\<forall>j\<in>set js. j < length (rc_nodes c)"
  shows "walked c' js = walked c js" and "walk_blocks c' js = walk_blocks c js"
  using assms(2) same_shapeD(5,6) [OF s] by (induction js) (auto split: option.split)

lemma walk_in_range:
  assumes t: "tree_ok c pl" and "walk c i ts = js"
  shows "\<forall>j\<in>set js. j < length (rc_nodes c) \<and> j \<noteq> 0"
  using assms(2)
proof (induction js arbitrary: i ts)
  case (Cons j js)
  note w = walk_Cons [OF t Cons.prems]
  show ?case using Cons.IH [OF w(4) [symmetric]] edge_okD(1,2) [OF tree_okD(4) [OF t w(1)]] by simp
qed simp

lemma cached_same_shape:
  assumes s: "same_shape c c'" and t: "tree_ok c pl"
  shows "cached c' = cached c"
proof
  fix p
  have r: "\<forall>j\<in>set (walk c 0 p). j < length (rc_nodes c)" using walk_in_range [OF t refl] by blast
  then have "n_block_id (rc_nodes c' ! last (walk c 0 p)) = n_block_id (rc_nodes c ! last (walk c 0 p))"
    if "walk c 0 p \<noteq> []" using that same_shapeD(6) [OF s] last_in_set by blast
  then show "cached c' p = cached c p"
    using walk_same_shape [OF s t] walked_same_shape(1) [OF s r] by (simp add: cached_def Let_def)
qed

subsection \<open>The lookup loops follow the walk\<close>

lemma child_edge_match_walk:
  assumes t: "tree_ok c pl" and e: "edge c i (toks ! pos) j" and pos: "pos < length toks"
  shows "child_edge_match c j (drop pos toks) =
       Some (edge_match_len (n_tokens (rc_nodes c ! j)) (drop pos toks), length (n_tokens (rc_nodes c ! j)))"
    and "walk c i (drop pos toks) =
       (if edge_match_len (n_tokens (rc_nodes c ! j)) (drop pos toks) < length (n_tokens (rc_nodes c ! j)) then []
        else j # walk c j (drop (pos + length (n_tokens (rc_nodes c ! j))) toks))"
    and "\<not> edge_match_len (n_tokens (rc_nodes c ! j)) (drop pos toks) < length (n_tokens (rc_nodes c ! j)) \<Longrightarrow>
       edge_match_len (n_tokens (rc_nodes c ! j)) (drop pos toks) = length (n_tokens (rc_nodes c ! j)) \<and>
       length toks - (pos + length (n_tokens (rc_nodes c ! j))) < length toks - pos"
proof -
  note ok = edge_okD [OF tree_okD(4) [OF t e]]
  let ?e = "n_tokens (rc_nodes c ! j)"
  show "child_edge_match c j (drop pos toks) = Some (edge_match_len ?e (drop pos toks), length ?e)"
    using ok(1) by (simp add: child_edge_match_def)
  have hd: "hd (drop pos toks) = toks ! pos" "drop pos toks \<noteq> []" using pos by (simp_all add: hd_drop_conv_nth)
  have full: "edge_match_len ?e (drop pos toks) < length ?e \<longleftrightarrow> \<not> prefix ?e (drop pos toks)"
    using edge_match_len_le(1) [of ?e "drop pos toks"] edge_match_len_full [of ?e "drop pos toks"] by linarith
  show "walk c i (drop pos toks) = (if edge_match_len ?e (drop pos toks) < length ?e then []
        else j # walk c j (drop (pos + length ?e) toks))"
    using walk_edge_iff [OF t, of i "drop pos toks" j] hd e full by (simp add: add.commute)
  show "edge_match_len ?e (drop pos toks) = length ?e \<and> length toks - (pos + length ?e) < length toks - pos"
    if "\<not> edge_match_len ?e (drop pos toks) < length ?e"
    using that edge_match_len_le [of ?e "drop pos toks"] ok(3) pos by (cases ?e) auto
qed

lemma lookup_loop_walk:
  assumes "tree_ok c pl" and "i < length (rc_nodes c)" and "walk c i (drop pos toks) = js"
  shows "lookup_loop toks now c i pos bl =
     Some (visit_path now js (upd_at i (touch now) c), pos + walked c js, bl @ walk_blocks c js)"
  using assms
proof (induction "length toks - pos" arbitrary: c i pos bl js rule: less_induct)
  case less
  note t = less.prems(1)
  let ?c1 = "upd_at i (touch now) c"
  have s1: "same_shape c ?c1" by (rule same_shape_upd_at) simp
  note t1 = tree_ok_same_shape [OF s1 t]
  note unf = lookup_loop.simps [of toks now c i pos bl]
  have ch: "n_children (rc_nodes ?c1 ! i) = n_children (rc_nodes c ! i)"
    using less.prems(2) by simp
  show ?case
  proof (cases "length toks \<le> pos \<or> map_of (n_children (rc_nodes c ! i)) (toks ! pos) = None")
    case True
    then have "js = []" using less.prems(3) walk_no_edge [of c i "drop pos toks"]
      by (cases "length toks \<le> pos") (auto simp: edge_def hd_drop_conv_nth)
    then show ?thesis using True less.prems(2) ch by (subst unf) auto
  next
    case False
    then obtain j where e: "edge c i (toks ! pos) j" and pos: "pos < length toks"
      and m: "map_of (n_children (rc_nodes c ! i)) (toks ! pos) = Some j"
      using less.prems(2) by (auto simp: edge_def)
    note ok = edge_okD [OF tree_okD(4) [OF t e]]
    have e1: "edge ?c1 i (toks ! pos) j" using e edge_same_shape [OF s1] by simp
    note cm = child_edge_match_walk [OF t1 e1 pos] and cw = child_edge_match_walk(2) [OF t e pos]
    have tk: "n_tokens (rc_nodes ?c1 ! j) = n_tokens (rc_nodes c ! j)"
      and bk: "n_block_id (rc_nodes ?c1 ! j) = n_block_id (rc_nodes c ! j)"
      using same_shapeD(5,6) [OF s1 ok(1)] by auto
    show ?thesis
    proof (cases "edge_match_len (n_tokens (rc_nodes c ! j)) (drop pos toks) < length (n_tokens (rc_nodes c ! j))")
      case True
      then have "js = []" using cw less.prems(3) by simp
      then show ?thesis using True less.prems(2) ch m pos cm(1) tk by (subst unf) simp
    next
      case False
      let ?n = "length (n_tokens (rc_nodes c ! j))"
      let ?c2 = "upd_at j (visit_node now (rc_keepalive c)) ?c1"
      have s2: "same_shape c ?c2" by (rule same_shape_trans [OF s1]) (rule same_shape_upd_at, simp)
      obtain js' where js: "js = j # js'" "js' = walk c j (drop (pos + ?n) toks)"
        using cw less.prems(3) False by simp
      have r: "\<forall>k\<in>set js'. k < length (rc_nodes c)" using walk_in_range [OF t js(2) [symmetric]] by blast
      have ml: "edge_match_len (n_tokens (rc_nodes c ! j)) (drop pos toks) = ?n" "length toks - (pos + ?n) < length toks - pos"
        using cm(3) False tk by auto
      have jl: "j < length (rc_nodes ?c2)" using ok(1) by simp
      note IH = less.hyps [OF ml(2) tree_ok_same_shape [OF s2 t] jl walk_same_shape [OF s2 t, of j "drop (pos + ?n) toks", folded js(2)]]
      have again: "upd_at j (touch now) ?c2 = ?c2" using ok(1) by (simp add: upd_at_twice)
      have "lookup_loop toks now c i pos bl =
          lookup_loop toks now ?c2 j (pos + ?n) (bl @ (case n_block_id (rc_nodes c ! j) of None \<Rightarrow> [] | Some b \<Rightarrow> [b]))"
        using False less.prems(2) ch m pos cm(1) tk bk ml(1) ok(1)
        by (subst unf) (auto simp: upd_at_twice visit_node_def split: option.split intro!: arg_cong [where f = "\<lambda>x. lookup_loop _ _ x _ _ _"] upd_at_cong)
      then show ?thesis
        using IH [of "bl @ (case n_block_id (rc_nodes c ! j) of None \<Rightarrow> [] | Some b \<Rightarrow> [b])"] again js
          walked_same_shape [OF s2 r] by (simp add: add.assoc)
    qed
  qed
qed

lemma rounded_prefix_len_exact:
  assumes t: "tree_ok c pl" and "walk c 0 toks = js"
  shows "rounded_prefix_len c (walked c js) (length (walk_blocks c js)) = length (walk_blocks c js) * rc_block_size c"
proof -
  have "length (walk_blocks c js) = walked c js div rc_block_size c"
    using walk_pl(1) [OF assms] tree_okD(3) [OF t] by simp
  then show ?thesis using tree_okD(1) [OF t]
    by (simp add: rounded_prefix_len_def Let_def min_absorb1)
qed

definition lookup_effect :: "token list \<Rightarrow> radix_cache \<Rightarrow> radix_cache" where
  "lookup_effect toks c = (let now = rc_clock c + 1; c0 = c\<lparr>rc_clock := now\<rparr>
     in visit_path now (walk c 0 toks) (upd_at 0 (touch now) c0))"

lemma same_shape_clock [simp]: "same_shape c (c\<lparr>rc_clock := x\<rparr>)"
  by (simp add: same_shape_def)

lemma same_shape_lookup_effect: "same_shape c (lookup_effect toks c)"
  unfolding lookup_effect_def Let_def
  by (rule same_shape_trans [OF same_shape_trans [OF same_shape_clock same_shape_upd_at] same_shape_visit_path]) simp

lemma radix_lookup_walk:
  assumes t: "tree_ok c pl"
  shows "radix_lookup toks c =
     Some ((length (walk_blocks c (walk c 0 toks)) * rc_block_size c, walk_blocks c (walk c 0 toks)), lookup_effect toks c)"
proof -
  let ?now = "rc_clock c + 1" and ?js = "walk c 0 toks"
  let ?c0 = "c\<lparr>rc_clock := ?now\<rparr>"
  have t0: "tree_ok ?c0 pl" by (rule tree_ok_same_shape [OF same_shape_clock t])
  have w0: "walk ?c0 0 (drop 0 toks) = ?js" using walk_same_shape [OF same_shape_clock t] by simp
  have r: "\<forall>j\<in>set ?js. j < length (rc_nodes c)" using walk_in_range [OF t refl] by blast
  note ws = walked_same_shape [OF same_shape_clock r]
  have bsz: "rc_block_size (lookup_effect toks c) = rc_block_size c"
    using same_shapeD(3) [OF same_shape_lookup_effect] .
  have l: "lookup_loop toks ?now ?c0 0 0 [] = Some (lookup_effect toks c, walked c ?js, walk_blocks c ?js)"
    using lookup_loop_walk [OF t0 _ w0] tree_okD(2) [OF t] ws by (simp add: lookup_effect_def Let_def)
  have "rounded_prefix_len (lookup_effect toks c) (walked c ?js) (length (walk_blocks c ?js)) =
      length (walk_blocks c ?js) * rc_block_size c"
    using rounded_prefix_len_exact [OF t refl, of toks] bsz by (simp add: rounded_prefix_len_def)
  then show ?thesis using l bsz tree_okD(1) [OF t]
    by (simp add: radix_lookup_def tick_def Let_def)
qed

lemma lookup_effect_nth:
  assumes t: "tree_ok c pl" and i: "i < length (rc_nodes c)"
  shows "rc_nodes (lookup_effect toks c) ! i =
     (if i = 0 then touch (rc_clock c + 1) (rc_nodes c ! 0)
      else if i \<in> set (walk c 0 toks) then visit_node (rc_clock c + 1) (rc_keepalive c) (rc_nodes c ! i)
      else rc_nodes c ! i)"
  using i walk_pl(3) [OF t refl, of 0 toks] walk_in_range [OF t refl, of 0 toks]
  by (auto simp: lookup_effect_def Let_def visit_path_nth)

lemma lookup_effect_fields [simp]:
  "rc_clock (lookup_effect toks c) = rc_clock c + 1" "rc_keepalive (lookup_effect toks c) = rc_keepalive c"
  "rc_namespace (lookup_effect toks c) = rc_namespace c"
  by (simp_all add: lookup_effect_def Let_def)

subsection \<open>Reference counts per block\<close>

definition block_refs :: "radix_cache \<Rightarrow> block_id \<Rightarrow> nat" where
  "block_refs c b = (case rc_block_index c b of None \<Rightarrow> 0 | Some i \<Rightarrow> n_ref_count (rc_nodes c ! i))"

lemma ref_count_visit [simp]:
  "n_ref_count (visit_node now ka n) = n_ref_count n + (if n_block_id n = None then 0 else 1)"
  "n_ref_count (touch now n) = n_ref_count n"
  by (simp_all add: visit_node_def hit_node_def touch_def maybe_refresh_soft_pin_def split: option.split)

lemma walk_blocks_mem: "b \<in> set (walk_blocks c js) \<longleftrightarrow> (\<exists>j\<in>set js. n_block_id (rc_nodes c ! j) = Some b)"
  by (induction js) (auto split: option.split)

lemma index_okD:
  "index_ok c \<Longrightarrow> rc_block_index c b = Some i \<longleftrightarrow> i < length (rc_nodes c) \<and> n_block_id (rc_nodes c ! i) = Some b"
  by (simp add: index_ok_def)

lemma on_walk_iff:
  assumes "index_ok c" and "tree_ok c pl" and "n_block_id (rc_nodes c ! i) = Some b" and "i < length (rc_nodes c)"
  shows "i \<in> set (walk c 0 toks) \<longleftrightarrow> b \<in> set (walk_blocks c (walk c 0 toks))"
proof -
  have "j = i" if "j \<in> set (walk c 0 toks)" "n_block_id (rc_nodes c ! j) = Some b" for j
    using that assms(3,4) index_okD [OF assms(1)] walk_in_range [OF assms(2) refl, of 0 toks] by (metis option.inject)
  then show ?thesis using assms(3) by (auto simp: walk_blocks_mem)
qed

lemma lookup_effect_refs:
  assumes t: "tree_ok c pl" and ix: "index_ok c" and i: "i < length (rc_nodes c)"
  shows "n_ref_count (rc_nodes (lookup_effect toks c) ! i) = n_ref_count (rc_nodes c ! i) +
     (case n_block_id (rc_nodes c ! i) of None \<Rightarrow> 0
      | Some b \<Rightarrow> if b \<in> set (walk_blocks c (walk c 0 toks)) then 1 else 0)"
proof (cases "n_block_id (rc_nodes c ! i)")
  case None
  then show ?thesis using lookup_effect_nth [OF t i] by simp
next
  case (Some b)
  then have "i \<noteq> 0" using tree_okD(8) [OF t] by (cases i) simp_all
  then show ?thesis using Some lookup_effect_nth [OF t i] on_walk_iff [OF ix t Some i] by simp
qed

lemma block_refs_lookup:
  assumes t: "tree_ok c pl" and ix: "index_ok c"
  shows "block_refs (lookup_effect toks c) b =
     block_refs c b + (if b \<in> set (walk_blocks c (walk c 0 toks)) then 1 else 0)"
proof (cases "rc_block_index c b")
  case None
  then have "\<not> (i < length (rc_nodes c) \<and> n_block_id (rc_nodes c ! i) = Some b)" for i
    using index_okD [OF ix, of b i] by simp
  then have "b \<notin> set (walk_blocks c (walk c 0 toks))"
    using walk_in_range [OF t refl, of 0 toks] unfolding walk_blocks_mem by blast
  then show ?thesis using None same_shapeD(4) [OF same_shape_lookup_effect] by (simp add: block_refs_def)
next
  case (Some i)
  then show ?thesis
    using lookup_effect_refs [OF t ix, of i toks] index_okD [OF ix, of b i] same_shapeD(4) [OF same_shape_lookup_effect]
    by (simp add: block_refs_def)
qed

lemma shape_dec_node [simp]: "shape (dec_node bs n) = shape n"
  by (simp add: dec_node_def shape_def split: option.split)

lemma same_shape_release: "same_shape c (radix_release bs c)"
  by (simp add: radix_release_def dec_refs_by_block_id_def same_shape_def o_def)

lemma block_refs_release:
  assumes "index_ok c"
  shows "block_refs (radix_release bs c) b = block_refs c b - (if b \<in> set bs then 1 else 0)"
proof (cases "rc_block_index c b")
  case None
  then show ?thesis by (simp add: block_refs_def radix_release_def dec_refs_by_block_id_def)
next
  case (Some i)
  moreover from this have "i < length (rc_nodes c)" "n_block_id (rc_nodes c ! i) = Some b"
    using index_okD [OF assms, of b i] by simp_all
  ultimately show ?thesis by (simp add: block_refs_def radix_release_def dec_refs_by_block_id_def dec_node_def)
qed

end
