(* ===== verification/Radix_Insert.thy ===== *)
theory Radix_Insert
  imports Radix_Lookup
begin

text \<open>
  Insertion into the prefix cache refines the update of a prefix map. Each structural step of the
  loop (replacing a block, splitting an edge, attaching a leaf) is shown to keep the invariant and
  to change the set of paths in one precise way; the loop is then an induction over those steps.
\<close>

subsection \<open>The invariant for insertion\<close>

text \<open>Insertion needs the free list without repetitions: it hands every free slot out once.\<close>

definition insert_inv :: "radix_cache \<Rightarrow> (nat \<Rightarrow> nat) \<Rightarrow> bool" where
  "insert_inv c pl \<longleftrightarrow> tree_ok c pl \<and> free_ok c \<and> distinct (rc_free_nodes c) \<and> index_ok c"

lemma insert_invD:
  assumes "insert_inv c pl"
  shows "tree_ok c pl" "free_ok c" "distinct (rc_free_nodes c)" "index_ok c"
  using assms by (auto simp: insert_inv_def)

lemma insert_inv_same_shape: "same_shape c c' \<Longrightarrow> insert_inv c pl \<Longrightarrow> insert_inv c' pl"
  using tree_ok_same_shape free_ok_same_shape index_ok_same_shape same_shapeD(2) [of c c'] by (auto simp: insert_inv_def)

lemma at_path_same_shape:
  assumes s: "same_shape c c'" and t: "tree_ok c pl"
  shows "at_path c' p i \<longleftrightarrow> at_path c p i"
proof -
  have "at_path b p i" if "same_shape a b" "tree_ok a pl" "at_path a p i" for a b
    using that(3)
  proof induction
    case root
    then show ?case by (rule at_path.root)
  next
    case (step p i t j)
    have "n_tokens (rc_nodes b ! j) = n_tokens (rc_nodes a ! j)"
      using same_shapeD(5) [OF that(1)] edge_okD(1) [OF tree_okD(4) [OF that(2) step.hyps(2)]] by simp
    then show ?case using at_path.step [OF step.IH, of t j] edge_same_shape [OF that(1)] step.hyps(2) by simp
  qed
  from this [OF s t] this [OF same_shape_sym [OF s] tree_ok_same_shape [OF s t]] show ?thesis by blast
qed

subsection \<open>Replacing the block of a node\<close>

lemma insert_set_block_step:
  fixes fp :: fingerprint
  assumes inv: "insert_inv c pl" and ci: "ci < length (rc_nodes c)" and old: "n_block_id (rc_nodes c ! ci) = Some old"
    and fresh: "rc_block_index c b = None \<or> old = b"
  defines "c' \<equiv> c\<lparr>rc_nodes := (rc_nodes c)[ci := (rc_nodes c ! ci)\<lparr>n_block_id := Some b, n_fingerprint := Some fp\<rparr>],
                  rc_block_index := ((rc_block_index c)(old := None))(b \<mapsto> ci)\<rparr>"
  shows "insert_set_block ci b fp c = Some c'" and "insert_inv c' pl"
    and "at_path c' p i \<longleftrightarrow> at_path c p i"
proof -
  note t = insert_invD(1) [OF inv]
  show "insert_set_block ci b fp c = Some c'"
    using ci old by (auto simp: insert_set_block_def mod_node_def c'_def)
  have nth: "n_tokens (rc_nodes c' ! k) = n_tokens (rc_nodes c ! k)" "n_children (rc_nodes c' ! k) = n_children (rc_nodes c ! k)"
    "n_block_id (rc_nodes c' ! k) = (if k = ci then Some b else n_block_id (rc_nodes c ! k))" for k
    using ci by (auto simp: c'_def nth_list_update)
  have len: "length (rc_nodes c') = length (rc_nodes c)" "rc_block_size c' = rc_block_size c"
    "rc_free_nodes c' = rc_free_nodes c" by (simp_all add: c'_def)
  have e: "edge c' a x y \<longleftrightarrow> edge c a x y" for a x y by (simp add: edge_def nth len)
  show "at_path c' p i \<longleftrightarrow> at_path c p i"
  proof
    show "at_path c' p i \<Longrightarrow> at_path c p i"
      by (induction rule: at_path.induct) (auto simp: e nth intro: at_path.intros)
    show "at_path c p i \<Longrightarrow> at_path c' p i"
    proof (induction rule: at_path.induct)
      case (step p i t j)
      then show ?case using at_path.step [OF step.IH, of t j] by (simp add: e nth)
    qed (rule at_path.root)
  qed
  have ne0: "ci \<noteq> 0" using old tree_okD(8) [OF t] by (metis option.distinct(1))
  have "tree_ok c' pl"
  proof (rule tree_okI, goal_cases)
    case (7 i x j)
    then show ?case using tree_okD(4) [OF t, of i x j] unfolding e edge_ok_def len nth by simp
  next
    case (8 i x j i' x')
    then show ?case using tree_okD(5) [OF t] unfolding e by blast
  next
    case (9 i)
    then show ?case using tree_okD(6) [OF t, of i] old unfolding len nth by (auto split: if_splits)
  qed (use tree_okD [OF t] ne0 in \<open>auto simp: len nth\<close>)
  moreover have "free_ok c'"
    using insert_invD(2) [OF inv] old unfolding free_ok_def e len nth by fastforce
  moreover have "index_ok c'"
    unfolding index_ok_def
  proof (intro allI)
    fix b' i
    note ix = index_okD [OF insert_invD(4) [OF inv]]
    show "rc_block_index c' b' = Some i \<longleftrightarrow> i < length (rc_nodes c') \<and> n_block_id (rc_nodes c' ! i) = Some b'"
      using ix [of b' i] ix [of old ci] ix [of b i] fresh ci old unfolding len nth
      by (auto simp: c'_def)
  qed
  ultimately show "insert_inv c' pl" using insert_invD(3) [OF inv] by (simp add: insert_inv_def len)
qed

subsection \<open>Allocating a slot\<close>

definition alloc_idx :: "radix_cache \<Rightarrow> nat" where
  "alloc_idx c = (if rc_free_nodes c = [] then length (rc_nodes c) else last (rc_free_nodes c))"

definition put :: "nat \<Rightarrow> 'a \<Rightarrow> 'a list \<Rightarrow> 'a list" where
  "put i x xs = (if i < length xs then xs[i := x] else xs @ [x])"

lemma put_simps:
  "i \<le> length xs \<Longrightarrow> length (put i x xs) = max (length xs) (i + 1)"
  "i \<le> length xs \<Longrightarrow> put i x xs ! i = x"
  "k \<noteq> i \<Longrightarrow> k < length xs \<Longrightarrow> put i x xs ! k = xs ! k"
  by (auto simp: put_def nth_append max_def)

lemma alloc_idx_fresh:
  assumes "free_ok c" and "tree_ok c pl"
  shows "alloc_idx c \<le> length (rc_nodes c)" and "alloc_idx c \<noteq> 0" and "\<not> edge c k t (alloc_idx c)"
    and "alloc_idx c < length (rc_nodes c) \<Longrightarrow> n_children (rc_nodes c ! alloc_idx c) = [] \<and> n_block_id (rc_nodes c ! alloc_idx c) = None"
    and "\<not> edge c (alloc_idx c) t k"
proof -
  have l: "last (rc_free_nodes c) \<in> set (rc_free_nodes c)" if "rc_free_nodes c \<noteq> []" using that by simp
  note f = free_okD [OF assms(1) l]
  show "alloc_idx c \<le> length (rc_nodes c)" using f(2) by (auto simp: alloc_idx_def)
  show "alloc_idx c \<noteq> 0" using f(1) tree_okD(2) [OF assms(2)] by (auto simp: alloc_idx_def)
  show b: "alloc_idx c < length (rc_nodes c) \<Longrightarrow> n_children (rc_nodes c ! alloc_idx c) = [] \<and> n_block_id (rc_nodes c ! alloc_idx c) = None"
    using f(3,4) by (auto simp: alloc_idx_def split: if_splits)
  show "\<not> edge c k t (alloc_idx c)"
    using f(5) edge_okD(1) [OF tree_okD(4) [OF assms(2)], of k t "length (rc_nodes c)"] by (auto simp: alloc_idx_def)
  show "\<not> edge c (alloc_idx c) t k" using b by (auto simp: edge_def)
qed

lemma alloc_node_put:
  assumes "free_ok c" and "tree_ok c pl" and "rc_free_nodes c1 = rc_free_nodes c" and "length (rc_nodes c1) = length (rc_nodes c)"
  shows "alloc_node n c1 =
     Some (alloc_idx c, c1\<lparr>rc_free_nodes := butlast (rc_free_nodes c), rc_nodes := put (alloc_idx c) n (rc_nodes c1)\<rparr>)"
proof (cases "rc_free_nodes c = []")
  case True
  moreover have "c1\<lparr>rc_free_nodes := []\<rparr> = c1" if "rc_free_nodes c1 = []" using that by (cases c1) simp
  ultimately show ?thesis using assms(3,4) by (simp add: alloc_node_def alloc_idx_def put_def)
next
  case False
  then have "last (rc_free_nodes c) < length (rc_nodes c)" using assms(1) by (auto simp: free_ok_def)
  then show ?thesis using False assms(3,4) by (simp add: alloc_node_def alloc_idx_def put_def Let_def)
qed

lemma distinct_butlast_set:
  "distinct xs \<Longrightarrow> set (butlast xs) = (if xs = [] then {} else set xs - {last xs})"
  by (cases xs rule: rev_cases) auto

lemma reachable_not_alloc:
  assumes inv: "insert_inv c pl" and "at_path c q i"
  shows "i \<noteq> alloc_idx c" and "i \<notin> set (rc_free_nodes c)"
proof -
  note al = alloc_idx_fresh(2,3) [OF insert_invD(2,1) [OF inv]] and f = free_okD(1,5) [OF insert_invD(2) [OF inv]]
  have "i = 0 \<or> (\<exists>k t. edge c k t i)" using assms(2) by cases auto
  then show "i \<noteq> alloc_idx c" and "i \<notin> set (rc_free_nodes c)" using al f by blast+
qed

lemma free_after_alloc:
  assumes inv: "insert_inv c pl" and fr': "rc_free_nodes c' = butlast (rc_free_nodes c)"
  shows "set (rc_free_nodes c') = set (rc_free_nodes c) - {alloc_idx c}" and "distinct (rc_free_nodes c')"
  using insert_invD(3) [OF inv] distinct_butlast_set [OF insert_invD(3) [OF inv]]
    alloc_idx_fresh(1) [OF insert_invD(2,1) [OF inv]]
  by (auto simp: fr' alloc_idx_def distinct_butlast dest: free_okD(2) [OF insert_invD(2) [OF inv]])

subsection \<open>Attaching a leaf\<close>

definition attached :: "nat \<Rightarrow> token list \<Rightarrow> block_id option \<Rightarrow> fingerprint option \<Rightarrow> nat \<Rightarrow> radix_cache \<Rightarrow> radix_cache" where
  "attached par es b fp now c = c\<lparr>rc_free_nodes := butlast (rc_free_nodes c),
     rc_nodes := (put (alloc_idx c) ((node_new es b now)\<lparr>n_fingerprint := fp\<rparr>) (rc_nodes c))
       [par := (rc_nodes c ! par)\<lparr>n_children := AList.update (hd es) (alloc_idx c) (n_children (rc_nodes c ! par))\<rparr>],
     rc_block_index := (case b of Some bid \<Rightarrow> (rc_block_index c)(bid \<mapsto> alloc_idx c) | None \<Rightarrow> rc_block_index c)\<rparr>"

lemma attach_leaf_attached:
  assumes inv: "insert_inv c pl" and par: "at_path c q par"
  shows "attach_leaf par (t # e) b fp now c = Some (alloc_idx c, attached par (t # e) b fp now c)"
proof -
  note t = insert_invD(1) [OF inv] and f = insert_invD(2) [OF inv]
  note fr = alloc_idx_fresh [OF f t]
  have p: "par < length (rc_nodes c)" using at_path_pl [OF t par] by simp
  let ?n = "(node_new (t # e) b now)\<lparr>n_fingerprint := fp\<rparr>"
  have "put (alloc_idx c) ?n (rc_nodes c) ! par = rc_nodes c ! par" "par < length (put (alloc_idx c) ?n (rc_nodes c))"
    using put_simps(1,2) [OF fr(1)] put_simps(3) [OF reachable_not_alloc(1) [OF inv par] p] p by auto
  then show ?thesis
    by (cases b) (simp_all add: attach_leaf_def alloc_node_put [OF f t refl refl] mod_node_def attached_def Let_def)
qed

lemma attached_nth:
  fixes t :: token and e :: "token list" and b :: "block_id option" and fp :: "fingerprint option" and now :: nat
  assumes inv: "insert_inv c pl" and par: "at_path c q par"
  defines "c' \<equiv> attached par (t # e) b fp now c"
  shows "length (rc_nodes c') = max (length (rc_nodes c)) (alloc_idx c + 1)"
    and "n_tokens (rc_nodes c' ! alloc_idx c) = t # e" and "n_block_id (rc_nodes c' ! alloc_idx c) = b"
    and "n_children (rc_nodes c' ! alloc_idx c) = []"
    and "k < length (rc_nodes c) \<Longrightarrow> k \<noteq> alloc_idx c \<Longrightarrow> n_tokens (rc_nodes c' ! k) = n_tokens (rc_nodes c ! k) \<and>
        n_block_id (rc_nodes c' ! k) = n_block_id (rc_nodes c ! k) \<and> n_ref_count (rc_nodes c' ! k) = n_ref_count (rc_nodes c ! k)"
    and "k < length (rc_nodes c) \<Longrightarrow> k \<noteq> alloc_idx c \<Longrightarrow> n_children (rc_nodes c' ! k) =
        (if k = par then AList.update t (alloc_idx c) (n_children (rc_nodes c ! par)) else n_children (rc_nodes c ! k))"
    and "rc_block_size c' = rc_block_size c" and "rc_free_nodes c' = butlast (rc_free_nodes c)"
proof -
  have p: "par < length (rc_nodes c)" "par \<noteq> alloc_idx c"
    using at_path_pl [OF insert_invD(1) [OF inv] par] reachable_not_alloc(1) [OF inv par] by auto
  note ps = put_simps(1,2) [OF alloc_idx_fresh(1) [OF insert_invD(2,1) [OF inv]]] put_simps(3)
  show "length (rc_nodes c') = max (length (rc_nodes c)) (alloc_idx c + 1)"
    and "n_tokens (rc_nodes c' ! alloc_idx c) = t # e" and "n_block_id (rc_nodes c' ! alloc_idx c) = b"
    and "n_children (rc_nodes c' ! alloc_idx c) = []"
    and "rc_block_size c' = rc_block_size c" and "rc_free_nodes c' = butlast (rc_free_nodes c)"
    using p ps(1,2) by (simp_all add: c'_def attached_def node_new_def)
  show "n_tokens (rc_nodes c' ! k) = n_tokens (rc_nodes c ! k) \<and>
        n_block_id (rc_nodes c' ! k) = n_block_id (rc_nodes c ! k) \<and> n_ref_count (rc_nodes c' ! k) = n_ref_count (rc_nodes c ! k)"
    and "n_children (rc_nodes c' ! k) =
        (if k = par then AList.update t (alloc_idx c) (n_children (rc_nodes c ! par)) else n_children (rc_nodes c ! k))"
    if "k < length (rc_nodes c)" "k \<noteq> alloc_idx c"
    using p ps(1) ps(3) [OF that(2,1)] that by (cases "k = par"; simp add: c'_def attached_def)+
qed

lemma attached_edge:
  assumes inv: "insert_inv c pl" and par: "at_path c q par" and free: "\<And>j. \<not> edge c par t j"
  shows "edge (attached par (t # e) b fp now c) i x j \<longleftrightarrow> edge c i x j \<or> (i = par \<and> x = t \<and> j = alloc_idx c)"
proof -
  note n = attached_nth [OF inv par, where t = t and e = e and b = b and fp = fp and now = now]
  note fr = alloc_idx_fresh [OF insert_invD(2,1) [OF inv]]
  have p: "par < length (rc_nodes c)" "par \<noteq> alloc_idx c"
    using at_path_pl [OF insert_invD(1) [OF inv] par] reachable_not_alloc(1) [OF inv par] by auto
  consider "i = alloc_idx c" | "i < length (rc_nodes c)" "i \<noteq> alloc_idx c" | "length (rc_nodes c) \<le> i" "i \<noteq> alloc_idx c" by linarith
  then show ?thesis
  proof cases
    case 1
    then show ?thesis using n(4) fr(5) p(2) by (auto simp: edge_def)
  next
    case 2
    then show ?thesis using n(1,6) p free [of j] by (auto simp: edge_def update_conv' split: if_splits)
  next
    case 3
    then show ?thesis using n(1) fr(1) p by (auto simp: edge_def)
  qed
qed

lemma attached_path:
  assumes inv: "insert_inv c pl" and par: "at_path c q par" and free: "\<And>j. \<not> edge c par t j"
  shows "at_path (attached par (t # e) b fp now c) p i \<longleftrightarrow> at_path c p i \<or> (i = alloc_idx c \<and> p = q @ t # e)"
proof -
  let ?c' = "attached par (t # e) b fp now c"
  note tr = insert_invD(1) [OF inv]
  note n = attached_nth [OF inv par, where t = t and e = e and b = b and fp = fp and now = now]
  note ed = attached_edge [OF inv par free, where e = e and b = b and fp = fp and now = now]
  note fr = alloc_idx_fresh [OF insert_invD(2,1) [OF inv]]
  have old: "n_tokens (rc_nodes ?c' ! j) = n_tokens (rc_nodes c ! j)" if "edge c k x j" for k x j
    using n(5) edge_okD(1) [OF tree_okD(4) [OF tr that]] fr(3) that by metis
  have fwd: "at_path ?c' p i" if "at_path c p i" for p i
    using that
  proof induction
    case (step p i x j)
    then show ?case using at_path.step [OF step.IH, of x j] ed old [OF step.hyps(2)] by simp
  qed (rule at_path.root)
  have "at_path ?c' p i \<Longrightarrow> at_path c p i \<or> (i = alloc_idx c \<and> p = q @ t # e)"
  proof (induction rule: at_path.induct)
    case (step p i x j)
    from step.hyps(2) consider "edge c i x j" | "i = par" "x = t" "j = alloc_idx c" unfolding ed by blast
    then show ?case
    proof cases
      case 1
      then have "i \<noteq> alloc_idx c" using fr(5) by blast
      then show ?thesis using step.IH at_path.step [OF _ 1] old [OF 1] by simp
    next
      case 2
      then have "at_path c p par" using step.IH reachable_not_alloc(1) [OF inv par] by blast
      then have "p = q" using at_path_unique [OF tr _ par] by simp
      then show ?thesis using 2 n(2) by simp
    qed
  qed (simp add: at_path.root)
  moreover have "at_path ?c' (q @ n_tokens (rc_nodes ?c' ! alloc_idx c)) (alloc_idx c)"
    by (rule at_path.step [OF fwd [OF par], of t]) (simp add: ed)
  ultimately show ?thesis using fwd n(2) by auto
qed

lemma attached_inv:
  assumes inv: "insert_inv c pl" and par: "at_path c q par" and free: "\<And>j. \<not> edge c par t j"
    and blk: "\<And>x. b = Some x \<Longrightarrow> rc_block_index c x = None"
    and bd: "pl par + length (t # e) \<le> (pl par div rc_block_size c + 1) * rc_block_size c"
    and dv: "b \<noteq> None \<longleftrightarrow> rc_block_size c dvd pl par + length (t # e)"
  shows "insert_inv (attached par (t # e) b fp now c) (pl(alloc_idx c := pl par + length (t # e)))"
proof -
  let ?c' = "attached par (t # e) b fp now c" and ?new = "alloc_idx c"
  let ?pl = "pl(?new := pl par + length (t # e))"
  note tr = insert_invD(1) [OF inv] and fo = insert_invD(2) [OF inv]
  note n = attached_nth [OF inv par, where t = t and e = e and b = b and fp = fp and now = now]
  note ed = attached_edge [OF inv par free, where e = e and b = b and fp = fp and now = now]
  note fr = alloc_idx_fresh [OF fo tr]
  have p: "par < length (rc_nodes c)" "par \<noteq> ?new"
    using at_path_pl [OF tr par] reachable_not_alloc(1) [OF inv par] by auto
  have inl: "i < length (rc_nodes ?c') \<longleftrightarrow> i < length (rc_nodes c) \<or> i = ?new" for i using n(1) fr(1) by auto
  have old: "i < length (rc_nodes c) \<Longrightarrow> i \<noteq> ?new \<Longrightarrow> n_tokens (rc_nodes ?c' ! i) = n_tokens (rc_nodes c ! i)"
    "i < length (rc_nodes c) \<Longrightarrow> i \<noteq> ?new \<Longrightarrow> n_block_id (rc_nodes ?c' ! i) = n_block_id (rc_nodes c ! i)" for i
    using n(5) by auto
  have "tree_ok ?c' ?pl"
  proof (rule tree_okI, goal_cases)
    case (6 i)
    then show ?case using n(4,6) tree_okD(7) [OF tr] p inl
      by (cases "i = ?new") (auto simp: distinct_update)
  next
    case (7 i x j)
    then consider "edge c i x j" | "i = par" "x = t" "j = ?new" unfolding ed by blast
    then show ?case
    proof cases
      case 1
      then have ne: "i \<noteq> ?new" "j \<noteq> ?new" using fr(3,5) by blast+
      note ok = edge_okD [OF tree_okD(4) [OF tr 1]]
      show ?thesis using ok ne inl old [OF ok(1) ne(2)] n(7) by (simp add: edge_ok_def)
    next
      case 2
      then show ?thesis using p fr(2) inl n(2,3,7) bd dv by (simp add: edge_ok_def)
    qed
  next
    case (8 i x j i' x')
    then show ?case using tree_okD(5) [OF tr] fr(3) unfolding ed by blast
  next
    case (9 i)
    then show ?case using n(3,7) dv tree_okD(6) [OF tr, of i] old(2) [of i] inl by (cases "i = ?new") auto
  qed (use n(1,7) tree_okD(1,2,3,8,9) [OF tr] fr(2) old [of 0] in auto)
  moreover note frs = free_after_alloc [OF inv n(8)]
  moreover have "free_ok ?c'"
    unfolding free_ok_def
  proof
    fix i assume "i \<in> set (rc_free_nodes ?c')"
    then have i: "i \<in> set (rc_free_nodes c)" "i \<noteq> ?new" "i \<noteq> par" using frs reachable_not_alloc(2) [OF inv par] by auto
    note f = free_okD [OF fo i(1)]
    show "0 < i \<and> i < length (rc_nodes ?c') \<and> n_children (rc_nodes ?c' ! i) = [] \<and> n_block_id (rc_nodes ?c' ! i) = None \<and>
        (\<forall>k t. \<not> edge ?c' k t i)"
      using f i(2,3) n(6) [OF f(2) i(2)] old(2) [OF f(2) i(2)] by (simp add: inl ed)
  qed
  moreover have "index_ok ?c'"
    unfolding index_ok_def
  proof (intro allI)
    fix x i
    have ixc: "rc_block_index ?c' x = (if b = Some x then Some ?new else rc_block_index c x)"
      by (auto simp: attached_def split: option.split)
    note ix = index_okD [OF insert_invD(4) [OF inv]]
    show "rc_block_index ?c' x = Some i \<longleftrightarrow> i < length (rc_nodes ?c') \<and> n_block_id (rc_nodes ?c' ! i) = Some x"
    proof (cases "i = ?new")
      case True
      have "rc_block_index c x \<noteq> Some ?new" using ix [of x ?new] fr(4) by auto
      then show ?thesis using True n(3) by (simp add: ixc inl)
    next
      case False
      then show ?thesis using blk [of x] ix [of x i] old(2) [of i] by (auto simp: ixc inl)
    qed
  qed
  ultimately show ?thesis by (simp add: insert_inv_def)
qed

subsection \<open>Splitting an edge\<close>

definition split_done :: "nat \<Rightarrow> token \<Rightarrow> nat \<Rightarrow> nat \<Rightarrow> nat \<Rightarrow> radix_cache \<Rightarrow> radix_cache" where
  "split_done ni t ci k now c =
     (let ch = rc_nodes c ! ci; sh = alloc_idx c;
          shn = (node_new (take k (n_tokens ch)) None now)\<lparr>n_ref_count := n_ref_count ch,
                  n_children := [(n_tokens ch ! k, ci)]\<rparr>
      in c\<lparr>rc_free_nodes := butlast (rc_free_nodes c),
           rc_nodes := (put sh shn ((rc_nodes c)[ci := ch\<lparr>n_tokens := drop k (n_tokens ch)\<rparr>]))
             [ni := (rc_nodes c ! ni)\<lparr>n_children := AList.update t sh (n_children (rc_nodes c ! ni))\<rparr>]\<rparr>)"

lemma put_update_ne: "i \<le> length xs \<Longrightarrow> k \<noteq> i \<Longrightarrow> k < length xs \<Longrightarrow> (put i x xs)[k := y] = put i x (xs[k := y])"
  by (auto simp: put_def list_update_swap list_update_append)

lemma put_overwrite: "i \<le> length xs \<Longrightarrow> (put i x xs)[i := y] = put i y xs"
  by (auto simp: put_def list_update_append)

lemma split_edge_split_done:
  assumes inv: "insert_inv c pl" and ni: "at_path c q ni" and e: "edge c ni t ci"
    and k: "0 < k" "k < length (n_tokens (rc_nodes c ! ci))"
  shows "split_edge ni t ci k now c = Some (alloc_idx c, split_done ni t ci k now c)"
proof -
  note tr = insert_invD(1) [OF inv] and fo = insert_invD(2) [OF inv]
  note fr = alloc_idx_fresh [OF fo tr] and ok = edge_okD [OF tree_okD(4) [OF tr e]]
  have l: "ni < length (rc_nodes c)" "ni \<noteq> alloc_idx c" "ci \<noteq> alloc_idx c" "ni \<noteq> ci"
    using at_path_pl [OF tr ni] reachable_not_alloc(1) [OF inv ni] fr(3) e ok(8) by blast+
  let ?ch = "rc_nodes c ! ci" and ?sh = "alloc_idx c"
  let ?n1 = "(rc_nodes c)[ci := ?ch\<lparr>n_children := [], n_tokens := []\<rparr>]"
  let ?c1 = "c\<lparr>rc_nodes := ?n1\<rparr>"
  let ?shn = "(node_new (take k (n_tokens ?ch)) None now)\<lparr>n_ref_count := n_ref_count ?ch\<rparr>"
  have al: "alloc_node ?shn ?c1 = Some (?sh, ?c1\<lparr>rc_free_nodes := butlast (rc_free_nodes c), rc_nodes := put ?sh ?shn ?n1\<rparr>)"
    using alloc_node_put [OF fo tr, of ?c1] by simp
  have shl: "?sh \<le> length ?n1" using fr(1) by simp
  note ps = put_simps(1,2) [OF shl] put_simps(3) [of _ ?sh ?n1]
  have n2: "put ?sh ?shn ?n1 ! ci = ?ch\<lparr>n_children := [], n_tokens := []\<rparr>" "ci < length (put ?sh ?shn ?n1)"
    using ps l ok(1) by auto
  have upd: "(put ?sh ?shn ?n1)[ci := ?ch\<lparr>n_children := n_children ?ch, n_tokens := drop k (n_tokens ?ch), n_block_id := n_block_id ?ch\<rparr>] =
      put ?sh ?shn ((rc_nodes c)[ci := ?ch\<lparr>n_tokens := drop k (n_tokens ?ch)\<rparr>])"
    using put_update_ne [OF shl l(3), of ?shn] ok(1) by simp
  let ?n3 = "put ?sh ?shn ((rc_nodes c)[ci := ?ch\<lparr>n_tokens := drop k (n_tokens ?ch)\<rparr>])"
  have sh3: "?sh \<le> length ((rc_nodes c)[ci := ?ch\<lparr>n_tokens := drop k (n_tokens ?ch)\<rparr>])" using fr(1) by simp
  note ps3 = put_simps(1,2) [OF sh3] put_simps(3) [of _ ?sh "(rc_nodes c)[ci := ?ch\<lparr>n_tokens := drop k (n_tokens ?ch)\<rparr>]"]
  have n3: "?n3 ! ci = ?ch\<lparr>n_tokens := drop k (n_tokens ?ch)\<rparr>" "?n3 ! ?sh = ?shn" "?n3 ! ni = rc_nodes c ! ni"
    "ci < length ?n3" "?sh < length ?n3" "ni < length ?n3"
    using ps3 l ok(1) by auto
  let ?c2 = "?c1\<lparr>rc_free_nodes := butlast (rc_free_nodes c), rc_nodes := put ?sh ?shn ?n1\<rparr>"
  let ?c3 = "c\<lparr>rc_free_nodes := butlast (rc_free_nodes c), rc_nodes := ?n3\<rparr>"
  let ?shn' = "?shn\<lparr>n_children := AList.update (n_tokens ?ch ! k) ci (n_children ?shn)\<rparr>"
  let ?c4 = "?c3\<lparr>rc_nodes := ?n3[?sh := ?shn']\<rparr>"
  have s1: "mod_node ci (\<lambda>n. n\<lparr>n_children := [], n_tokens := []\<rparr>) c = Some ?c1"
    using ok(1) by (simp add: mod_node_def)
  have s3: "mod_node ci (\<lambda>n. n\<lparr>n_tokens := drop k (n_tokens ?ch), n_block_id := n_block_id ?ch, n_children := n_children ?ch\<rparr>) ?c2 = Some ?c3"
    using n2 upd by (simp add: mod_node_def)
  have g3: "get_at (rc_nodes ?c3) ci = Some (?ch\<lparr>n_tokens := drop k (n_tokens ?ch)\<rparr>)" using n3 by simp
  have s4: "mod_node ?sh (\<lambda>n. n\<lparr>n_children := AList.update (n_tokens ?ch ! k) ci (n_children n)\<rparr>) ?c3 = Some ?c4"
    using n3 by (simp add: mod_node_def)
  have s5: "mod_node ni (\<lambda>n. n\<lparr>n_children := AList.update t ?sh (n_children n)\<rparr>) ?c4 = Some (split_done ni t ci k now c)"
  proof -
    let ?shn2 = "?shn\<lparr>n_children := [(n_tokens ?ch ! k, ci)]\<rparr>"
    let ?base = "(rc_nodes c)[ci := ?ch\<lparr>n_tokens := drop k (n_tokens ?ch)\<rparr>]"
    have "?shn' = ?shn2" by (simp add: node_new_def)
    then have ow: "?n3[?sh := ?shn'] = put ?sh ?shn2 ?base" using put_overwrite [OF sh3] by metis
    have "put ?sh ?shn2 ?base ! ni = rc_nodes c ! ni" "ni < length (put ?sh ?shn2 ?base)" using ps3 l by auto
    then show ?thesis unfolding ow by (simp add: mod_node_def split_done_def Let_def)
  qed
  have hd: "get_at (n_tokens (?ch\<lparr>n_tokens := drop k (n_tokens ?ch)\<rparr>)) 0 = Some (n_tokens ?ch ! k)" using k by simp
  have g0: "get_at (rc_nodes c) ci = Some ?ch" using ok(1) by simp
  show ?thesis unfolding split_edge_def Let_def g0 Option.bind.simps s1 al prod.case s3 g3 hd s4 s5 ..
qed

lemma split_nth:
  fixes now :: nat
  assumes inv: "insert_inv c pl" and ni: "at_path c q ni" and e: "edge c ni t ci"
    and k: "0 < k" "k < length (n_tokens (rc_nodes c ! ci))"
  defines "c' \<equiv> split_done ni t ci k now c" and "sh \<equiv> alloc_idx c"
  shows "length (rc_nodes c') = max (length (rc_nodes c)) (sh + 1)"
    and "n_tokens (rc_nodes c' ! sh) = take k (n_tokens (rc_nodes c ! ci))" and "n_block_id (rc_nodes c' ! sh) = None"
    and "n_children (rc_nodes c' ! sh) = [(n_tokens (rc_nodes c ! ci) ! k, ci)]"
    and "i < length (rc_nodes c) \<Longrightarrow> i \<noteq> sh \<Longrightarrow> n_tokens (rc_nodes c' ! i) =
        (if i = ci then drop k (n_tokens (rc_nodes c ! ci)) else n_tokens (rc_nodes c ! i))"
    and "i < length (rc_nodes c) \<Longrightarrow> i \<noteq> sh \<Longrightarrow> n_block_id (rc_nodes c' ! i) = n_block_id (rc_nodes c ! i) \<and>
        n_ref_count (rc_nodes c' ! i) = n_ref_count (rc_nodes c ! i)"
    and "i < length (rc_nodes c) \<Longrightarrow> i \<noteq> sh \<Longrightarrow> n_children (rc_nodes c' ! i) =
        (if i = ni then AList.update t sh (n_children (rc_nodes c ! ni)) else n_children (rc_nodes c ! i))"
    and "rc_block_size c' = rc_block_size c" and "rc_free_nodes c' = butlast (rc_free_nodes c)"
    and "rc_block_index c' = rc_block_index c"
proof -
  note tr = insert_invD(1) [OF inv] and fo = insert_invD(2) [OF inv]
  note fr = alloc_idx_fresh [OF fo tr] and ok = edge_okD [OF tree_okD(4) [OF tr e]]
  have l: "ni < length (rc_nodes c)" "ni \<noteq> sh" "ci \<noteq> sh" "ni \<noteq> ci"
    using at_path_pl [OF tr ni] reachable_not_alloc(1) [OF inv ni] fr(3) e ok(8) unfolding sh_def by blast+
  let ?base = "(rc_nodes c)[ci := (rc_nodes c ! ci)\<lparr>n_tokens := drop k (n_tokens (rc_nodes c ! ci))\<rparr>]"
  have sh: "sh \<le> length ?base" using fr(1) by (simp add: sh_def)
  note ps = put_simps(1,2) [OF sh] put_simps(3) [of _ sh ?base]
  show "length (rc_nodes c') = max (length (rc_nodes c)) (sh + 1)"
    and "n_tokens (rc_nodes c' ! sh) = take k (n_tokens (rc_nodes c ! ci))" and "n_block_id (rc_nodes c' ! sh) = None"
    and "n_children (rc_nodes c' ! sh) = [(n_tokens (rc_nodes c ! ci) ! k, ci)]"
    and "rc_block_size c' = rc_block_size c" and "rc_free_nodes c' = butlast (rc_free_nodes c)"
    and "rc_block_index c' = rc_block_index c"
    using l ps(1,2) by (simp_all add: c'_def split_done_def Let_def node_new_def sh_def [symmetric])
  show "n_tokens (rc_nodes c' ! i) =
        (if i = ci then drop k (n_tokens (rc_nodes c ! ci)) else n_tokens (rc_nodes c ! i))"
    and "n_block_id (rc_nodes c' ! i) = n_block_id (rc_nodes c ! i) \<and> n_ref_count (rc_nodes c' ! i) = n_ref_count (rc_nodes c ! i)"
    and "n_children (rc_nodes c' ! i) =
        (if i = ni then AList.update t sh (n_children (rc_nodes c ! ni)) else n_children (rc_nodes c ! i))"
    if "i < length (rc_nodes c)" "i \<noteq> sh"
    using l ok(1) ps(1) ps(3) [OF that(2)] that
    by (cases "i = ni"; simp add: c'_def split_done_def Let_def sh_def [symmetric] nth_list_update)+
qed

lemma split_done_edge:
  assumes inv: "insert_inv c pl" and ni: "at_path c q ni" and e: "edge c ni t ci"
    and k: "0 < k" "k < length (n_tokens (rc_nodes c ! ci))"
  shows "edge (split_done ni t ci k now c) i x j \<longleftrightarrow> (edge c i x j \<and> j \<noteq> ci) \<or> (i = ni \<and> x = t \<and> j = alloc_idx c) \<or>
     (i = alloc_idx c \<and> x = n_tokens (rc_nodes c ! ci) ! k \<and> j = ci)"
proof -
  note tr = insert_invD(1) [OF inv]
  note n = split_nth [OF inv ni e k, where now = now]
  note fr = alloc_idx_fresh [OF insert_invD(2,1) [OF inv]] and ok = edge_okD [OF tree_okD(4) [OF tr e]]
  have l: "ni < length (rc_nodes c)" "ni \<noteq> alloc_idx c" "ci \<noteq> alloc_idx c"
    using at_path_pl [OF tr ni] reachable_not_alloc(1) [OF inv ni] fr(3) e by blast+
  have only: "i = ni \<and> x = t" if "edge c i x ci" for i x
    using tree_okD(5) [OF tr that e] edge_okD(4) [OF tree_okD(4) [OF tr that]] ok(4) by simp
  consider "i = alloc_idx c" | "i < length (rc_nodes c)" "i \<noteq> alloc_idx c" | "length (rc_nodes c) \<le> i" "i \<noteq> alloc_idx c" by linarith
  then show ?thesis
  proof cases
    case 1
    then show ?thesis using n(1,4) fr(5) l by (auto simp: edge_def)
  next
    case 2
    show ?thesis
    proof (cases "i = ni")
      case True
      have "edge c ni x j \<and> j \<noteq> ci \<longleftrightarrow> edge c ni x j \<and> x \<noteq> t"
        using only [of ni x] e by (auto simp: edge_def)
      then show ?thesis using True 2 n(1,7) l by (auto simp: edge_def update_conv' split: if_splits)
    next
      case False
      then have "\<not> edge c i x ci" using only by blast
      then show ?thesis using False 2 n(1,7) l by (auto simp: edge_def)
    qed
  next
    case 3
    then show ?thesis using n(1) fr(1) l by (auto simp: edge_def)
  qed
qed

lemma split_done_path:
  assumes inv: "insert_inv c pl" and ni: "at_path c q ni" and e: "edge c ni t ci"
    and k: "0 < k" "k < length (n_tokens (rc_nodes c ! ci))"
  shows "at_path (split_done ni t ci k now c) p i \<longleftrightarrow>
     at_path c p i \<or> (i = alloc_idx c \<and> p = q @ take k (n_tokens (rc_nodes c ! ci)))"
proof -
  let ?c' = "split_done ni t ci k now c" and ?sh = "alloc_idx c" and ?ts = "n_tokens (rc_nodes c ! ci)"
  note tr = insert_invD(1) [OF inv]
  note n = split_nth [OF inv ni e k, where now = now] and ed = split_done_edge [OF inv ni e k, where now = now]
  note fr = alloc_idx_fresh [OF insert_invD(2,1) [OF inv]] and ok = edge_okD [OF tree_okD(4) [OF tr e]]
  have cs: "ci \<noteq> ?sh" using fr(3) e by blast
  have ci: "n_tokens (rc_nodes ?c' ! ci) = drop k ?ts" using n(5) [OF ok(1) cs] by simp
  have old: "n_tokens (rc_nodes ?c' ! j) = n_tokens (rc_nodes c ! j)" if "edge c a x j" "j \<noteq> ci" for a x j
    using n(5) edge_okD(1) [OF tree_okD(4) [OF tr that(1)]] fr(3) that by metis
  have sh: "at_path ?c' (p @ take k ?ts) ?sh" if "at_path ?c' p ni" for p
    using at_path.step [OF that, of t ?sh] ed n(2) by simp
  have fwd: "at_path ?c' p i" if "at_path c p i" for p i
    using that
  proof induction
    case (step p i x j)
    show ?case
    proof (cases "j = ci")
      case True
      then have "i = ni" using tree_okD(5) [OF tr _ e] step.hyps(2) by blast
      then have "at_path ?c' ((p @ take k ?ts) @ n_tokens (rc_nodes ?c' ! ci)) ci"
        using at_path.step [OF sh, of p "?ts ! k" ci] step.IH ed by simp
      then show ?thesis using True ci by simp
    next
      case False
      then show ?thesis using at_path.step [OF step.IH, of x j] ed old [OF step.hyps(2)] step.hyps(2) by simp
    qed
  qed (rule at_path.root)
  have "at_path ?c' p i \<Longrightarrow> at_path c p i \<or> (i = ?sh \<and> p = q @ take k ?ts)"
  proof (induction rule: at_path.induct)
    case (step p i x j)
    from step.hyps(2) consider "edge c i x j" "j \<noteq> ci" | "i = ni" "x = t" "j = ?sh" | "i = ?sh" "x = ?ts ! k" "j = ci"
      unfolding ed by blast
    then show ?case
    proof cases
      case 1
      then have "i \<noteq> ?sh" using fr(5) by blast
      then show ?thesis using step.IH at_path.step [OF _ 1(1)] old [OF 1] by simp
    next
      case 2
      then have "at_path c p ni" using step.IH reachable_not_alloc(1) [OF inv ni] by blast
      then have "p = q" using at_path_unique [OF tr _ ni] by simp
      then show ?thesis using 2 n(2) by simp
    next
      case 3
      then have "p = q @ take k ?ts" using step.IH reachable_not_alloc(1) [OF inv] by blast
      then show ?thesis using 3 ci at_path.step [OF ni e] by simp
    qed
  qed (simp add: at_path.root)
  then show ?thesis using fwd sh [OF fwd [OF ni]] by blast
qed

lemma inside_block_not_dvd:
  assumes "0 < (s::nat)" and "a < b" and "b < (a div s + 1) * s"
  shows "\<not> s dvd b"
proof
  assume d: "s dvd b"
  then have "b div s = a div s + 1" using div_step [of s a b] assms by simp
  then have "b = (a div s + 1) * s" using d by (metis dvd_div_mult_self)
  then show False using assms(3) by simp
qed

lemma split_done_inv:
  assumes inv: "insert_inv c pl" and ni: "at_path c q ni" and e: "edge c ni t ci"
    and k: "0 < k" "k < length (n_tokens (rc_nodes c ! ci))"
  shows "insert_inv (split_done ni t ci k now c) (pl(alloc_idx c := pl ni + k))"
proof -
  let ?c' = "split_done ni t ci k now c" and ?sh = "alloc_idx c" and ?ts = "n_tokens (rc_nodes c ! ci)"
  let ?s = "rc_block_size c" and ?pl = "pl(alloc_idx c := pl ni + k)"
  note tr = insert_invD(1) [OF inv] and fo = insert_invD(2) [OF inv]
  note n = split_nth [OF inv ni e k, where now = now] and ed = split_done_edge [OF inv ni e k, where now = now]
  note fr = alloc_idx_fresh [OF fo tr] and ok = edge_okD [OF tree_okD(4) [OF tr e]]
  have l: "ni < length (rc_nodes c)" "ni \<noteq> ?sh" "ci \<noteq> ?sh"
    using at_path_pl [OF tr ni] reachable_not_alloc(1) [OF inv ni] fr(3) e by blast+
  have inl: "i < length (rc_nodes ?c') \<longleftrightarrow> i < length (rc_nodes c) \<or> i = ?sh" for i using n(1) fr(1) by auto
  have lt: "pl ni + k < (pl ni div ?s + 1) * ?s" using ok(5,6) k(2) by linarith
  have nd: "\<not> ?s dvd pl ni + k" using inside_block_not_dvd [OF tree_okD(1) [OF tr] _ lt] k(1) by simp
  have hd: "hd (drop k ?ts) = ?ts ! k" "hd (take k ?ts) = t" "take k ?ts \<noteq> []" "drop k ?ts \<noteq> []"
    using k ok(3,4) by (auto simp: hd_drop_conv_nth)
  have "tree_ok ?c' ?pl"
  proof (rule tree_okI, goal_cases)
    case (6 i)
    then show ?case using n(4,7) tree_okD(7) [OF tr] l inl by (cases "i = ?sh") (auto simp: distinct_update)
  next
    case (7 i x j)
    then consider "edge c i x j" "j \<noteq> ci" | "i = ni" "x = t" "j = ?sh" | "i = ?sh" "x = ?ts ! k" "j = ci"
      unfolding ed by blast
    then show ?case
    proof cases
      case 1
      then have ne: "i \<noteq> ?sh" "j \<noteq> ?sh" using fr(3,5) by blast+
      note oj = edge_okD [OF tree_okD(4) [OF tr 1(1)]]
      show ?thesis using oj ne inl n(5,6) [OF oj(1) ne(2)] n(8) 1(2) by (simp add: edge_ok_def)
    next
      case 2
      then show ?thesis using l fr(2) inl n(2,8) hd lt nd k by (simp add: edge_ok_def)
    next
      case 3
      have "pl ci \<le> ((pl ni + k) div ?s + 1) * ?s"
        using ok(6) by (meson add_le_mono1 div_le_mono le_add1 le_trans mult_le_mono1)
      then show ?thesis using 3 l ok inl n(5,6) [OF ok(1) l(3)] n(8) hd k by (simp add: edge_ok_def)
    qed
  next
    case (8 i x j i' x')
    then show ?case using tree_okD(5) [OF tr] fr(3) l(3) unfolding ed by blast
  next
    case (9 i)
    then show ?case using n(3,8) tree_okD(6) [OF tr, of i] n(6) [of i] inl by (cases "i = ?sh") auto
  qed (use n(1,8) n(5,6) [of 0] tree_okD(1,2,3,8,9) [OF tr] fr(2) ok(2) in auto)
  moreover note frs = free_after_alloc [OF inv n(9)]
  moreover have "free_ok ?c'"
    unfolding free_ok_def
  proof
    fix i assume "i \<in> set (rc_free_nodes ?c')"
    then have i: "i \<in> set (rc_free_nodes c)" "i \<noteq> ?sh" "i \<noteq> ni" "i \<noteq> ci"
      using frs reachable_not_alloc(2) [OF inv ni] reachable_not_alloc(2) [OF inv at_path.step [OF ni e]] by auto
    note f = free_okD [OF fo i(1)]
    show "0 < i \<and> i < length (rc_nodes ?c') \<and> n_children (rc_nodes ?c' ! i) = [] \<and> n_block_id (rc_nodes ?c' ! i) = None \<and>
        (\<forall>k t. \<not> edge ?c' k t i)"
      using f i n(6,7) [OF f(2) i(2)] by (simp add: inl ed)
  qed
  moreover have "index_ok ?c'"
    unfolding index_ok_def
  proof (intro allI)
    fix x i
    note ix = index_okD [OF insert_invD(4) [OF inv], of x i]
    show "rc_block_index ?c' x = Some i \<longleftrightarrow> i < length (rc_nodes ?c') \<and> n_block_id (rc_nodes ?c' ! i) = Some x"
    proof (cases "i = ?sh")
      case True
      then have "rc_block_index c x \<noteq> Some i" using ix fr(4) by fastforce
      then show ?thesis using True n(3,10) by simp
    next
      case False
      then show ?thesis using ix n(6) [of i] inl [of i] n(10) by metis
    qed
  qed
  ultimately show ?thesis by (simp add: insert_inv_def)
qed

subsection \<open>The abstract insertion\<close>

text \<open>The first \<open>n\<close> block-aligned prefixes of \<open>toks\<close> are bound to the first \<open>n\<close> blocks.\<close>

fun spec_insert :: "nat \<Rightarrow> token list \<Rightarrow> block_id list \<Rightarrow> nat \<Rightarrow> prefix_map \<Rightarrow> prefix_map" where
  "spec_insert s toks blocks 0 m = m"
| "spec_insert s toks blocks (Suc n) m = (spec_insert s toks blocks n m)(take ((n + 1) * s) toks \<mapsto> blocks ! n)"

lemma cached_eqI:
  assumes "tree_ok c' pl'"
    and "\<And>p b. (\<exists>i. at_path c' p i \<and> n_block_id (rc_nodes c' ! i) = Some b) \<longleftrightarrow> m p = Some b"
  shows "cached c' = m"
proof
  fix p
  have "cached c' p = Some b \<longleftrightarrow> m p = Some b" for b using cached_iff [OF assms(1)] assms(2) by blast
  then show "cached c' p = m p" by (metis not_Some_eq)
qed

lemma no_path_beyond:
  assumes t: "tree_ok c pl" and p: "at_path c (take pos toks) ni" and w: "walk c ni (drop pos toks) = []"
    and m: "pos < m" "m \<le> length toks"
  shows "\<not> at_path c (take m toks) i"
proof
  assume a: "at_path c (take m toks) i"
  obtain js where js: "\<And>ts. walk c 0 (take pos toks @ ts) = js @ walk c ni ts" "walked c js = length (take pos toks)"
    using at_path_walk [OF t p] by blast
  have "walk c ni (take (m - pos) (drop pos toks)) = []" using walk_take [OF t] w by simp
  then have "walk c 0 (take m toks) = js" using js(1) [of "take (m - pos) (drop pos toks)"] take_append_slice [of pos m toks] m(1) by simp
  moreover obtain js' where "\<And>ts. walk c 0 (take m toks @ ts) = js' @ walk c i ts" "walked c js' = length (take m toks)"
    using at_path_walk [OF t a] by blast
  from this(1) [of "[]"] this(2) have "walked c (walk c 0 (take m toks)) = m" using m(2) by simp
  ultimately show False using js(2) m by simp
qed

subsection \<open>The insertion loop\<close>

text \<open>
  The ghost \<open>R\<close> is the reference count per block at the start: as long as no prefix that is
  already cached gets another block, insertion leaves it alone.
\<close>

definition no_replace :: "token list \<Rightarrow> block_id list \<Rightarrow> nat \<Rightarrow> prefix_map \<Rightarrow> bool" where
  "no_replace toks blocks s m \<longleftrightarrow>
     (\<forall>k<length toks div s. case m (take ((k + 1) * s) toks) of None \<Rightarrow> True | Some b \<Rightarrow> b = blocks ! k)"

definition ins_ok ::
    "token list \<Rightarrow> block_id list \<Rightarrow> nat \<Rightarrow> prefix_map \<Rightarrow> (block_id \<Rightarrow> nat) \<Rightarrow> radix_cache \<Rightarrow> (nat \<Rightarrow> nat) \<Rightarrow> nat \<Rightarrow> nat \<Rightarrow> nat \<Rightarrow> bool" where
  "ins_ok toks blocks s m R c pl ni pos bi \<longleftrightarrow> insert_inv c pl \<and> rc_block_size c = s \<and> at_path c (take pos toks) ni \<and>
     pos \<le> length toks \<and> bi = pos div s \<and> cached c = spec_insert s toks blocks bi m \<and>
     (\<forall>k. bi \<le> k \<longrightarrow> k < length toks div s \<longrightarrow>
        rc_block_index c (blocks ! k) = None \<or> cached c (take ((k + 1) * s) toks) = Some (blocks ! k)) \<and>
     (no_replace toks blocks s m \<longrightarrow> block_refs c = R)"

lemma ins_okD:
  assumes "ins_ok toks blocks s m R c pl ni pos bi"
  shows "insert_inv c pl" "rc_block_size c = s" "at_path c (take pos toks) ni" "pos \<le> length toks" "bi = pos div s"
    "cached c = spec_insert s toks blocks bi m" "tree_ok c pl" "0 < s" "pl ni = pos" "ni < length (rc_nodes c)"
    "bi \<le> k \<Longrightarrow> k < length toks div s \<Longrightarrow>
       rc_block_index c (blocks ! k) = None \<or> cached c (take ((k + 1) * s) toks) = Some (blocks ! k)"
    "no_replace toks blocks s m \<Longrightarrow> block_refs c = R"
proof -
  note d = assms [unfolded ins_ok_def]
  show "no_replace toks blocks s m \<Longrightarrow> block_refs c = R" using d by blast
  show "insert_inv c pl" "rc_block_size c = s" "at_path c (take pos toks) ni" "pos \<le> length toks" "bi = pos div s"
    "cached c = spec_insert s toks blocks bi m" using d by auto
  show t: "tree_ok c pl" using d insert_invD(1) by blast
  show "0 < s" using tree_okD(1) [OF t] d by simp
  show "pl ni = pos" "ni < length (rc_nodes c)" using at_path_pl [OF t, of "take pos toks" ni] d by auto
  show "bi \<le> k \<Longrightarrow> k < length toks div s \<Longrightarrow>
       rc_block_index c (blocks ! k) = None \<or> cached c (take ((k + 1) * s) toks) = Some (blocks ! k)" using d by blast
qed

lemma blocks_le: "0 < s \<Longrightarrow> k < length toks div s \<Longrightarrow> (k + 1) * s \<le> length toks"
  by (metis Suc_eq_plus1 Suc_leI div_times_less_eq_dividend le_trans mult_le_mono1)

lemma take_inj: "m \<le> length xs \<Longrightarrow> n \<le> length xs \<Longrightarrow> take m xs = take n xs \<longleftrightarrow> m = n"
  by (metis length_take min.absorb2)

lemma spec_insert_above:
  assumes "0 < s" and "n \<le> k" and "k < length toks div s"
  shows "spec_insert s toks blocks n m (take ((k + 1) * s) toks) = m (take ((k + 1) * s) toks)"
  using assms(2)
proof (induction n)
  case (Suc n)
  have "take ((k + 1) * s) toks \<noteq> take ((n + 1) * s) toks"
    using take_inj [OF blocks_le [OF assms(1,3)] blocks_le [of s n toks]] assms Suc.prems by simp
  then show ?case using Suc by simp
qed simp

text \<open>Binding one more prefix keeps the remaining blocks fresh.\<close>

lemma ins_fresh_step:
  assumes ok: "ins_ok toks blocks s m R c pl ni pos bi" and d: "distinct blocks" "length toks div s \<le> length blocks"
    and bi: "bi < length toks div s"
    and ix: "\<And>x. x \<noteq> blocks ! bi \<Longrightarrow> rc_block_index c x = None \<Longrightarrow> rc_block_index c' x = None"
    and ca: "cached c' = (cached c)(take ((bi + 1) * s) toks \<mapsto> blocks ! bi)"
    and k: "bi + 1 \<le> k" "k < length toks div s"
  shows "rc_block_index c' (blocks ! k) = None \<or> cached c' (take ((k + 1) * s) toks) = Some (blocks ! k)"
proof -
  have "blocks ! k \<noteq> blocks ! bi" using d k bi by (simp add: nth_eq_iff_index_eq)
  moreover have "take ((k + 1) * s) toks \<noteq> take ((bi + 1) * s) toks"
    using blocks_le [OF ins_okD(8) [OF ok]] k bi ins_okD(8) [OF ok] by (subst take_inj) auto
  ultimately show ?thesis using ins_okD(11) [OF ok _ k(2)] k(1) ix ca by auto
qed

lemma ins_ok_same_shape:
  assumes ok: "ins_ok toks blocks s m R c pl ni pos bi" and sh: "same_shape c c'" and refs: "block_refs c' = block_refs c"
  shows "ins_ok toks blocks s m R c' pl ni pos bi"
  using ok same_shapeD(3,4) [OF sh] insert_inv_same_shape [OF sh] at_path_same_shape [OF sh ins_okD(7) [OF ok]]
    cached_same_shape [OF sh ins_okD(7) [OF ok]] refs
  unfolding ins_ok_def by auto

text \<open>The child \<open>j\<close> on the walk and its whole edge matches: how the position advances.\<close>

lemma ins_child:
  assumes ok: "ins_ok toks blocks s m R c pl ni pos bi" and e: "edge c ni (toks ! pos) j"
    and pre: "prefix (n_tokens (rc_nodes c ! j)) (drop pos toks)"
  defines "pos' \<equiv> pos + length (n_tokens (rc_nodes c ! j))"
  shows "at_path c (take pos' toks) j" and "pos' \<le> length toks" and "pl j = pos'" and "pos < pos'" and "j < length (rc_nodes c)"
    and "n_block_id (rc_nodes c ! j) \<noteq> None \<Longrightarrow> pos' = (bi + 1) * s" and "n_block_id (rc_nodes c ! j) = None \<Longrightarrow> pos' div s = bi"
proof -
  note d = ins_okD [OF ok]
  note eok = edge_okD [OF tree_okD(4) [OF d(7) e]] and eb = edge_blocks [OF d(7) e]
  obtain r where r: "drop pos toks = n_tokens (rc_nodes c ! j) @ r" using pre by (auto simp: prefix_def)
  have tk: "take pos' toks = take pos toks @ n_tokens (rc_nodes c ! j)"
    unfolding pos'_def by (simp add: take_add r)
  show "at_path c (take pos' toks) j" unfolding tk by (rule at_path.step [OF d(3) e])
  show "pos' \<le> length toks" using r d(4) unfolding pos'_def
    by (metis add.commute add_le_mono1 diff_add_inverse2 le_add_diff_inverse2 length_append length_drop trans_le_add1 le_add1 le_diff_conv2)
  show p: "pl j = pos'" using eok(5) d(9) by (simp add: pos'_def)
  show "pos < pos'" using eok(3) by (simp add: pos'_def)
  show "j < length (rc_nodes c)" by (rule eok(1))
  show "pos' = (bi + 1) * s" if "n_block_id (rc_nodes c ! j) \<noteq> None"
    using eb that d(2,5,9) p by (metis dvd_div_mult_self)
  show "pos' div s = bi" if "n_block_id (rc_nodes c ! j) = None" using eb(1) that d(2,5,9) p by simp
qed

lemma ins_ok_skip:
  assumes ok: "ins_ok toks blocks s m R c pl ni pos bi" and e: "edge c ni (toks ! pos) j"
    and pre: "prefix (n_tokens (rc_nodes c ! j)) (drop pos toks)" and b: "n_block_id (rc_nodes c ! j) = None"
  shows "ins_ok toks blocks s m R c pl j (pos + length (n_tokens (rc_nodes c ! j))) bi"
proof -
  have "bi = (pos + length (n_tokens (rc_nodes c ! j))) div s" using ins_child(7) [OF ok e pre b] by simp
  then show ?thesis using ok ins_child(1,2) [OF ok e pre] unfolding ins_ok_def by blast
qed

lemma ins_ok_set:
  assumes ok: "ins_ok toks blocks s m R c pl ni pos bi" and e: "edge c ni (toks ! pos) j"
    and pre: "prefix (n_tokens (rc_nodes c ! j)) (drop pos toks)" and b: "n_block_id (rc_nodes c ! j) \<noteq> None"
    and d: "distinct blocks" "length toks div s \<le> length blocks"
  shows "\<exists>c'. insert_set_block j (blocks ! bi) fp c = Some c' \<and>
     ins_ok toks blocks s m R c' pl j (pos + length (n_tokens (rc_nodes c ! j))) (bi + 1)"
proof -
  let ?pos = "pos + length (n_tokens (rc_nodes c ! j))"
  note od = ins_okD [OF ok] and ch = ins_child [OF ok e pre]
  obtain old where old: "n_block_id (rc_nodes c ! j) = Some old" using b by blast
  have p: "?pos = (bi + 1) * s" using ch(6) b by simp
  have bi: "bi < length toks div s" using p ch(2) od(8) by (metis Suc_eq_plus1 Suc_le_eq div_le_mono nonzero_mult_div_cancel_right not_gr_zero)
  have co: "cached c (take ((bi + 1) * s) toks) = Some old" using cached_iff [OF od(7)] ch(1) p old by auto
  have fresh: "rc_block_index c (blocks ! bi) = None \<or> old = blocks ! bi" using od(11) [of bi] bi co by auto
  note st = insert_set_block_step [OF od(1) ch(5) old fresh, of fp]
  let ?c' = "c\<lparr>rc_nodes := (rc_nodes c)[j := (rc_nodes c ! j)\<lparr>n_block_id := Some (blocks ! bi), n_fingerprint := Some fp\<rparr>],
                rc_block_index := ((rc_block_index c)(old := None))(blocks ! bi \<mapsto> j)\<rparr>"
  have blk: "n_block_id (rc_nodes ?c' ! i) = (if i = j then Some (blocks ! bi) else n_block_id (rc_nodes c ! i))" for i
    using ch(5) by (simp add: nth_list_update)
  have ca: "cached ?c' = (cached c)(take ((bi + 1) * s) toks \<mapsto> blocks ! bi)"
  proof (rule cached_eqI [OF insert_invD(1) [OF st(2)]])
    fix q x
    show "(\<exists>i. at_path ?c' q i \<and> n_block_id (rc_nodes ?c' ! i) = Some x) \<longleftrightarrow>
        ((cached c)(take ((bi + 1) * s) toks \<mapsto> blocks ! bi)) q = Some x"
    proof (cases "q = take ((bi + 1) * s) toks")
      case True
      then have "at_path c q i \<longleftrightarrow> i = j" for i using ch(1) [unfolded p] at_path_fun [OF od(7)] by blast
      then show ?thesis unfolding st(3) blk fun_upd_apply using True by auto
    next
      case False
      then have "at_path c q i \<Longrightarrow> i \<noteq> j" for i using ch(1) [unfolded p] at_path_unique [OF od(7)] by blast
      then show ?thesis unfolding st(3) blk fun_upd_apply using False cached_iff [OF od(7), of q x] by auto
    qed
  qed
  have "block_refs ?c' = block_refs c" if nr: "no_replace toks blocks s m"
  proof
    fix x
    have "m (take ((bi + 1) * s) toks) = Some old" using spec_insert_above [OF od(8) order_refl bi] co od(6) by simp
    then have "old = blocks ! bi" using nr bi by (auto simp: no_replace_def)
    moreover have "rc_block_index c old = Some j" using index_okD [OF insert_invD(4) [OF od(1)]] old ch(5) by simp
    moreover have "n_ref_count (rc_nodes ?c' ! i) = n_ref_count (rc_nodes c ! i)" for i using ch(5) by (simp add: nth_list_update)
    ultimately show "block_refs ?c' x = block_refs c x" by (auto simp: block_refs_def split: option.split)
  qed
  then have refs: "no_replace toks blocks s m \<longrightarrow> block_refs ?c' = R" using od(12) by simp
  have "ins_ok toks blocks s m R ?c' pl j ?pos (bi + 1)"
    unfolding ins_ok_def
  proof (intro conjI)
    show "no_replace toks blocks s m \<longrightarrow> block_refs ?c' = R" by (rule refs)
    show "at_path ?c' (take ?pos toks) j" using st(3) ch(1) by simp
    show "cached ?c' = spec_insert s toks blocks (bi + 1) m" using ca od(6) by simp
    show "\<forall>k. bi + 1 \<le> k \<longrightarrow> k < length toks div s \<longrightarrow>
        rc_block_index ?c' (blocks ! k) = None \<or> cached ?c' (take ((k + 1) * s) toks) = Some (blocks ! k)"
      using ins_fresh_step [OF ok d bi _ ca] by simp
  qed (use st(2) od(2) ch(2) p od(8) in simp_all)
  then show ?thesis using st(1) by blast
qed

lemma attached_cached:
  assumes inv: "insert_inv c pl" and par: "at_path c q par" and free: "\<And>j. \<not> edge c par t j"
    and inv': "insert_inv (attached par (t # e) b fp now c) pl'"
  shows "cached (attached par (t # e) b fp now c) = (case b of None \<Rightarrow> cached c | Some x \<Rightarrow> (cached c)(q @ t # e \<mapsto> x))"
proof (rule cached_eqI [OF insert_invD(1) [OF inv']])
  fix p x
  let ?c' = "attached par (t # e) b fp now c"
  note tr = insert_invD(1) [OF inv]
  note n = attached_nth [OF inv par, where t = t and e = e and b = b and fp = fp and now = now]
    and ap = attached_path [OF inv par free, where e = e and b = b and fp = fp and now = now]
  have old: "n_block_id (rc_nodes ?c' ! i) = n_block_id (rc_nodes c ! i)" if "at_path c p i" for i
    using n(5) at_path_pl [OF tr that] reachable_not_alloc(1) [OF inv that] by blast
  have none: "\<not> at_path c (q @ t # e) i" for i
    using at_path_fun [OF insert_invD(1) [OF inv'], of "q @ t # e" i "alloc_idx c"] reachable_not_alloc(1) [OF inv] ap by blast
  show "(\<exists>i. at_path ?c' p i \<and> n_block_id (rc_nodes ?c' ! i) = Some x) \<longleftrightarrow>
      (case b of None \<Rightarrow> cached c | Some x \<Rightarrow> (cached c)(q @ t # e \<mapsto> x)) p = Some x"
  proof (cases "p = q @ t # e")
    case True
    then have "cached c p \<noteq> Some x" using none cached_iff [OF tr] by blast
    moreover have "at_path ?c' p i \<longleftrightarrow> i = alloc_idx c" for i using True none unfolding ap by blast
    ultimately show ?thesis using True n(3) by (auto split: option.split)
  next
    case False
    then have "at_path ?c' p i \<longleftrightarrow> at_path c p i" for i unfolding ap by blast
    then have "(\<exists>i. at_path ?c' p i \<and> n_block_id (rc_nodes ?c' ! i) = Some x) \<longleftrightarrow> cached c p = Some x"
      using old cached_iff [OF tr, of p x] by auto
    then show ?thesis using False by (auto split: option.split)
  qed
qed

text \<open>Below a node with no matching child: the rest of a block window becomes a leaf.\<close>

lemma attached_refs:
  assumes inv: "insert_inv c pl" and par: "at_path c q par" and blk: "\<And>x. b = Some x \<Longrightarrow> rc_block_index c x = None"
  shows "block_refs (attached par (t # e) b fp now c) = block_refs c"
proof
  fix x
  let ?c' = "attached par (t # e) b fp now c"
  note n = attached_nth [OF inv par, where t = t and e = e and b = b and fp = fp and now = now]
  note fr = alloc_idx_fresh [OF insert_invD(2,1) [OF inv]]
  have ixc: "rc_block_index ?c' x = (if b = Some x then Some (alloc_idx c) else rc_block_index c x)"
    by (auto simp: attached_def split: option.split)
  show "block_refs ?c' x = block_refs c x"
  proof (cases "b = Some x")
    case True
    have "par \<noteq> alloc_idx c" using reachable_not_alloc(1) [OF inv par] .
    then have "n_ref_count (rc_nodes ?c' ! alloc_idx c) = 0"
      using put_simps(2) [OF fr(1)] by (simp add: attached_def node_new_def)
    then show ?thesis using blk [OF True] ixc [unfolded if_P [OF True]] by (simp add: block_refs_def)
  next
    case False
    have "i < length (rc_nodes c) \<and> i \<noteq> alloc_idx c" if "rc_block_index c x = Some i" for i
      using index_okD [OF insert_invD(4) [OF inv]] that fr(4) by (metis option.distinct(1))
    then show ?thesis using False n(5) by (auto simp: block_refs_def ixc split: option.split)
  qed
qed

lemma ins_attach:
  assumes ok: "ins_ok toks blocks s m R c pl ni pos bi" and pos: "pos < length toks"
    and free: "\<And>j. \<not> edge c ni (toks ! pos) j" and fin: "pos < fin" "fin \<le> length toks" "fin \<le> (bi + 1) * s"
    and b: "b = (if fin = (bi + 1) * s then Some (blocks ! bi) else None)"
  defines "es \<equiv> take (fin - pos) (drop pos toks)"
  shows "es = toks ! pos # tl es" and "take pos toks @ es = take fin toks" and "slice pos fin toks = Some es"
    and "attach_leaf ni es b fp now c = Some (alloc_idx c, attached ni es b fp now c)"
    and "insert_inv (attached ni es b fp now c) (pl(alloc_idx c := fin))"
    and "cached (attached ni es b fp now c) = (case b of None \<Rightarrow> cached c | Some x \<Rightarrow> (cached c)(take fin toks \<mapsto> x))"
    and "at_path (attached ni es b fp now c) (take fin toks) (alloc_idx c)"
    and "\<not> edge (attached ni es b fp now c) (alloc_idx c) x y"
    and "block_refs (attached ni es b fp now c) = block_refs c"
proof -
  note od = ins_okD [OF ok]
  show es: "es = toks ! pos # tl es"
    using pos fin(1) unfolding es_def by (metis Cons_nth_drop_Suc list.sel(3) take_Suc_Cons Suc_diff_Suc)
  then obtain e where e: "es = toks ! pos # e" by blast
  show tk: "take pos toks @ es = take fin toks" unfolding es_def by (rule take_append_slice) (use fin(1) in simp)
  show "slice pos fin toks = Some es" unfolding es_def using fin by (simp add: slice_def)
  have len: "length es = fin - pos" unfolding es_def using fin by simp
  show "attach_leaf ni es b fp now c = Some (alloc_idx c, attached ni es b fp now c)"
    unfolding e by (rule attach_leaf_attached [OF od(1,3)])
  have w: "walk c ni (drop pos toks) = []" using walk_no_edge [of c ni "drop pos toks"] free pos by (simp add: hd_drop_conv_nth)
  have blk: "rc_block_index c x = None" if "b = Some x" for x
  proof -
    have f: "fin = (bi + 1) * s" "x = blocks ! bi" using that b by (auto split: if_splits)
    have "bi < length toks div s" using f(1) fin(2) od(8) by (metis Suc_eq_plus1 Suc_le_eq div_le_mono nonzero_mult_div_cancel_right not_gr_zero)
    moreover have "cached c (take ((bi + 1) * s) toks) \<noteq> Some x"
      using no_path_beyond [OF od(7,3) w fin(1,2)] cached_iff [OF od(7)] f(1) by blast
    ultimately show ?thesis using od(11) [of bi] f(2) by auto
  qed
  show "block_refs (attached ni es b fp now c) = block_refs c" unfolding e by (rule attached_refs [OF od(1,3) blk])
  have p1: "pl ni + length (toks ! pos # e) = fin" using od(9) len fin(1) e by simp
  have "b \<noteq> None \<longleftrightarrow> s dvd fin"
  proof (cases "fin = (bi + 1) * s")
    case False
    then have "\<not> s dvd fin" using inside_block_not_dvd [OF od(8) fin(1)] fin(3) od(5) by simp
    then show ?thesis using b False by simp
  qed (simp add: b)
  then show inv': "insert_inv (attached ni es b fp now c) (pl(alloc_idx c := fin))"
    using attached_inv [OF od(1,3) free blk, where e = e] p1 fin(3) od(2,5,9) unfolding e by simp
  show "cached (attached ni es b fp now c) = (case b of None \<Rightarrow> cached c | Some x \<Rightarrow> (cached c)(take fin toks \<mapsto> x))"
    using attached_cached [OF od(1,3) free inv' [unfolded e]] tk unfolding e by (simp split: option.split)
  show "at_path (attached ni es b fp now c) (take fin toks) (alloc_idx c)"
    using attached_path [OF od(1,3) free, where e = e] tk unfolding e by simp
  show "\<not> edge (attached ni es b fp now c) (alloc_idx c) x y"
    using attached_edge [OF od(1,3) free, where e = e] alloc_idx_fresh(5) [OF insert_invD(2,1) [OF od(1)]]
      reachable_not_alloc(1) [OF od(1,3)] unfolding e by auto
qed

lemma ins_ok_attach:
  assumes ok: "ins_ok toks blocks s m R c pl ni pos bi" and pos: "pos < length toks"
    and free: "\<And>j. \<not> edge c ni (toks ! pos) j" and fin: "(bi + 1) * s \<le> length toks"
    and d: "distinct blocks" "length toks div s \<le> length blocks"
  defines "fin \<equiv> (bi + 1) * s"
  defines "es \<equiv> take (fin - pos) (drop pos toks)"
  shows "slice pos fin toks = Some es"
    and "\<exists>c' pl' new. attach_leaf ni es (Some (blocks ! bi)) fp now c = Some (new, c') \<and>
       ins_ok toks blocks s m R c' pl' new fin (bi + 1) \<and> (\<forall>x y. \<not> edge c' new x y)"
proof -
  note od = ins_okD [OF ok]
  have lt: "pos < fin" using od(5,8) unfolding fin_def by (metis Suc_eq_plus1 dividend_less_times_div mult.commute mult_Suc_right add.commute plus_1_eq_Suc mult_Suc)
  note at = ins_attach [OF ok pos free lt fin [folded fin_def] _ refl, folded fin_def, simplified]
  have fl: "fin \<le> length toks" using fin by (simp add: fin_def)
  show "slice pos fin toks = Some es" unfolding es_def by (rule at(3))
  let ?c' = "attached ni es (Some (blocks ! bi)) fp now c"
  have bi: "bi < length toks div s" using fin od(8) by (metis Suc_eq_plus1 Suc_le_eq div_le_mono nonzero_mult_div_cancel_right not_gr_zero)
  have ca: "cached ?c' = (cached c)(take ((bi + 1) * s) toks \<mapsto> blocks ! bi)"
    using at(6) [of fp now] unfolding es_def fin_def by simp
  have ix: "rc_block_index ?c' x = None" if "x \<noteq> blocks ! bi" "rc_block_index c x = None" for x
    using that by (simp add: attached_def)
  have "ins_ok toks blocks s m R ?c' (pl(alloc_idx c := fin)) (alloc_idx c) fin (bi + 1)"
    unfolding ins_ok_def
  proof (intro conjI)
    show "insert_inv ?c' (pl(alloc_idx c := fin))" using at(5) unfolding es_def .
    show "no_replace toks blocks s m \<longrightarrow> block_refs ?c' = R" using at(9) [of fp now] od(12) unfolding es_def by simp
    show "rc_block_size ?c' = s" using od(2) by (simp add: attached_def)
    show "at_path ?c' (take fin toks) (alloc_idx c)" using at(7) unfolding es_def .
    show "bi + 1 = fin div s" using od(8) by (simp add: fin_def)
    show "cached ?c' = spec_insert s toks blocks (bi + 1) m" using ca od(6) by simp
    show "\<forall>k. bi + 1 \<le> k \<longrightarrow> k < length toks div s \<longrightarrow>
        rc_block_index ?c' (blocks ! k) = None \<or> cached ?c' (take ((k + 1) * s) toks) = Some (blocks ! k)"
      using ins_fresh_step [OF ok d bi ix ca] by simp
  qed (rule fl)
  moreover have "\<forall>x y. \<not> edge ?c' (alloc_idx c) x y" using at(8) unfolding es_def by blast
  ultimately show "\<exists>c' pl' new. attach_leaf ni es (Some (blocks ! bi)) fp now c = Some (new, c') \<and>
       ins_ok toks blocks s m R c' pl' new fin (bi + 1) \<and> (\<forall>x y. \<not> edge c' new x y)"
    using at(4) unfolding es_def by blast
qed

lemma split_done_cached:
  assumes inv: "insert_inv c pl" and ni: "at_path c q ni" and e: "edge c ni t ci"
    and k: "0 < k" "k < length (n_tokens (rc_nodes c ! ci))"
  shows "cached (split_done ni t ci k now c) = cached c"
proof (rule cached_eqI [OF insert_invD(1) [OF split_done_inv [OF assms]]])
  fix p x
  let ?c' = "split_done ni t ci k now c"
  note tr = insert_invD(1) [OF inv]
  note n = split_nth [OF assms, where now = now] and ap = split_done_path [OF assms, where now = now]
  have "n_block_id (rc_nodes ?c' ! i) = n_block_id (rc_nodes c ! i)" if "at_path c p i" for i
    using n(6) at_path_pl [OF tr that] reachable_not_alloc(1) [OF inv that] by blast
  then show "(\<exists>i. at_path ?c' p i \<and> n_block_id (rc_nodes ?c' ! i) = Some x) \<longleftrightarrow> cached c p = Some x"
    using n(3) cached_iff [OF tr, of p x] unfolding ap by auto
qed

lemma split_done_refs:
  assumes inv: "insert_inv c pl" and ni: "at_path c q ni" and e: "edge c ni t ci"
    and k: "0 < k" "k < length (n_tokens (rc_nodes c ! ci))"
  shows "block_refs (split_done ni t ci k now c) = block_refs c"
proof
  fix x
  note n = split_nth [OF assms, where now = now]
  have "i < length (rc_nodes c) \<and> i \<noteq> alloc_idx c" if "rc_block_index c x = Some i" for i
    using index_okD [OF insert_invD(4) [OF inv]] that alloc_idx_fresh(4) [OF insert_invD(2,1) [OF inv]] by (metis option.distinct(1))
  then show "block_refs (split_done ni t ci k now c) x = block_refs c x"
    using n(6) by (auto simp: block_refs_def n(10) split: option.split)
qed

text \<open>A partially matching child: after the split the walk stands at the shared node.\<close>

lemma ins_split:
  assumes ok: "ins_ok toks blocks s m R c pl ni pos bi" and pos: "pos < length toks" and e: "edge c ni (toks ! pos) ci"
    and k: "k = edge_match_len (n_tokens (rc_nodes c ! ci)) (drop pos toks)" "k < length (n_tokens (rc_nodes c ! ci))"
  shows "split_edge ni (toks ! pos) ci k now c = Some (alloc_idx c, split_done ni (toks ! pos) ci k now c)"
    and "ins_ok toks blocks s m R (split_done ni (toks ! pos) ci k now c) (pl(alloc_idx c := pos + k)) (alloc_idx c) (pos + k) bi"
    and "pos + k < length toks \<Longrightarrow> \<not> edge (split_done ni (toks ! pos) ci k now c) (alloc_idx c) (toks ! (pos + k)) j"
proof -
  let ?ts = "n_tokens (rc_nodes c ! ci)" and ?c' = "split_done ni (toks ! pos) ci k now c"
  note od = ins_okD [OF ok]
  note eok = edge_okD [OF tree_okD(4) [OF od(7) e]]
  have k0: "0 < k" unfolding k(1) using edge_match_len_pos [OF eok(3)] eok(4) pos by (simp add: hd_drop_conv_nth)
  note a = od(1,3) e k0 k(2)
  show "split_edge ni (toks ! pos) ci k now c = Some (alloc_idx c, ?c')" by (rule split_edge_split_done [OF a])
  note n = split_nth [OF a, where now = now]
  have le: "pos + k \<le> length toks" using edge_match_len_le(2) [of ?ts "drop pos toks"] k(1) pos by simp
  have tk: "take pos toks @ take k ?ts = take (pos + k) toks"
    unfolding k(1) edge_match_len_take by (simp add: take_add)
  have path: "at_path ?c' (take (pos + k) toks) (alloc_idx c)" using split_done_path [OF a] tk by simp
  have lt: "pos + k < (bi + 1) * s" using eok(5,6) k(2) od(2,5,9) by simp
  have "(pos + k) div s = bi"
  proof -
    have "\<not> s dvd pos + k" using inside_block_not_dvd [OF od(8), of pos "pos + k"] lt k0 od(5) by simp
    then show ?thesis using div_step [OF od(8), of pos "pos + k"] lt k0 od(5) by simp
  qed
  then have bi: "bi = (pos + k) div s" by simp
  have "insert_inv ?c' (pl(alloc_idx c := pos + k))" using split_done_inv [OF a] od(9) by simp
  then show "ins_ok toks blocks s m R ?c' (pl(alloc_idx c := pos + k)) (alloc_idx c) (pos + k) bi"
    using ok path le bi unfolding ins_ok_def n(8,10) split_done_cached [OF a] split_done_refs [OF a] by blast
  show "\<not> edge ?c' (alloc_idx c) (toks ! (pos + k)) j" if "pos + k < length toks"
  proof -
    have "?ts ! k \<noteq> drop pos toks ! k"
      unfolding k(1) by (rule edge_match_len_diff) (use k that pos in auto)
    then show ?thesis using that n(4) by (auto simp: edge_def add.commute)
  qed
qed

text \<open>The loop over the remaining windows below a node without a matching child.\<close>

definition ins_done where
  "ins_done toks blocks s m R c' bi' \<longleftrightarrow> bi' = length toks div s \<and> rc_block_size c' = s \<and> (\<exists>pl. insert_inv c' pl) \<and>
     cached c' = spec_insert s toks blocks bi' m \<and> (no_replace toks blocks s m \<longrightarrow> block_refs c' = R)"

lemma insert_tail_ok:
  assumes "ins_ok toks blocks s m R c pl ni pos bi" and "pos < length toks \<Longrightarrow> (\<And>j. \<not> edge c ni (toks ! pos) j)"
    and d: "distinct blocks" "length toks \<le> length blocks * s" "length fps = length blocks"
  shows "\<exists>c' bi'. insert_tail toks blocks fps now c ni pos bi = Some (c', bi') \<and> ins_done toks blocks s m R c' bi'"
  using assms(1,2)
proof (induction "length toks - pos" arbitrary: c pl ni pos bi rule: less_induct)
  case less
  note ok = less.prems(1) and od = ins_okD [OF less.prems(1)]
  note unf = insert_tail.simps [of toks blocks fps now c ni pos bi]
  have d2: "length toks div s \<le> length blocks" using d(2) od(8) by (metis div_le_mono nonzero_mult_div_cancel_right not_gr_zero)
  show ?case
  proof (cases "pos < length toks")
    case False
    then have "pos = length toks" using od(4) by simp
    then show ?thesis using False od(1,2,5,6,12) by (subst unf) (auto simp: ins_done_def)
  next
    case pos: True
    have bl: "bi < length blocks" using pos d(2) od(5,8) by (metis less_le_trans less_mult_imp_div_less)
    note free = less.prems(2) [OF pos]
    have lt: "pos < (bi + 1) * s" using od(5,8) by (metis Suc_eq_plus1 dividend_less_div_times mult.commute mult_Suc_right add.commute mult_Suc)
    show ?thesis
    proof (cases "(bi + 1) * s \<le> length toks")
      case True
      note st = ins_ok_attach [OF ok pos free True d(1) d2]
      let ?es = "take ((bi + 1) * s - pos) (drop pos toks)"
      obtain c' pl' new where c': "attach_leaf ni ?es (Some (blocks ! bi)) (Some (fps ! bi)) now c = Some (new, c')"
        "ins_ok toks blocks s m R c' pl' new ((bi + 1) * s) (bi + 1)" "\<And>x y. \<not> edge c' new x y" using st(2) [of "Some (fps ! bi)" now] by blast
      have "length toks - (bi + 1) * s < length toks - pos" using pos lt by simp
      from less.hyps [OF this c'(2) c'(3)] show ?thesis
        using pos bl st(1) c'(1) od(2) d(3) True
        by (subst unf) (simp add: next_block_boundary_def truncated_block_end_def min_absorb1)
    next
      case False
      let ?es = "take (length toks - pos) (drop pos toks)"
      note at = ins_attach [OF ok pos free pos order_refl _ refl]
      have ne: "length toks \<noteq> (bi + 1) * s" "length toks \<le> (bi + 1) * s" using False by auto
      have "length toks div s = bi"
      proof -
        have "length toks div s < bi + 1" using False by (simp add: div_less_iff_less_mult od(8))
        moreover have "bi \<le> length toks div s" using od(4,5) by (simp add: div_le_mono)
        ultimately show ?thesis by simp
      qed
      then have "ins_done toks blocks s m R (attached ni ?es None None now c) bi"
        using at(5,6,9) [OF ne(2), of None now] ne(1) od(2,6,12) by (auto simp: ins_done_def attached_def)
      moreover have "insert_tail toks blocks fps now c ni pos bi = Some (attached ni ?es None None now c, bi)"
        using pos bl at(3) [OF ne(2)] at(4) [OF ne(2), of None now] ne od(2)
        by (subst unf) (simp add: next_block_boundary_def truncated_block_end_def min_absorb2)
      ultimately show ?thesis by blast
    qed
  qed
qed

lemma block_refs_touch: "block_refs (upd_at i (touch now) c) = block_refs c"
proof
  fix b
  have "n_ref_count (rc_nodes (upd_at i (touch now) c) ! j) = n_ref_count (rc_nodes c ! j)" for j
    by (cases "i < length (rc_nodes c)"; cases "j = i") (auto simp: upd_at_def list_update_beyond not_less)
  then show "block_refs (upd_at i (touch now) c) b = block_refs c b" by (simp add: block_refs_def split: option.split)
qed

lemma insert_loop_ok:
  assumes "ins_ok toks blocks s m R c pl ni pos bi"
    and d: "distinct blocks" "length toks \<le> length blocks * s" "length fps = length blocks"
  shows "\<exists>c' bi'. insert_loop toks blocks fps now c ni pos bi = Some (c', bi') \<and> ins_done toks blocks s m R c' bi'"
  using assms(1)
proof (induction "length toks - pos" arbitrary: c pl ni pos bi rule: less_induct)
  case less
  note ok = less.prems(1) and od = ins_okD [OF less.prems(1)]
  note unf = insert_loop.simps [of toks blocks fps now c ni pos bi]
  have d2: "length toks div s \<le> length blocks" using d(2) od(8) by (metis div_le_mono nonzero_mult_div_cancel_right not_gr_zero)
  show ?case
  proof (cases "pos < length toks")
    case False
    then have "pos = length toks" using od(4) by simp
    then show ?thesis using False od(1,2,5,6,12) by (subst unf) (auto simp: ins_done_def)
  next
    case pos: True
    have bl: "bi < length blocks" using pos d(2) od(5,8) by (metis less_le_trans less_mult_imp_div_less)
    show ?thesis
    proof (cases "map_of (n_children (rc_nodes c ! ni)) (toks ! pos)")
      case None
      then have "\<And>j. \<not> edge c ni (toks ! pos) j" by (simp add: edge_def)
      from insert_tail_ok [OF ok this d, of now] show ?thesis using pos bl None od(10) by (subst unf) simp
    next
      case (Some ci)
      then have e: "edge c ni (toks ! pos) ci" using od(10) by (simp add: edge_def)
      note eok = edge_okD [OF tree_okD(4) [OF od(7) e]]
      let ?ts = "n_tokens (rc_nodes c ! ci)" and ?ml = "edge_match_len (n_tokens (rc_nodes c ! ci)) (drop pos toks)"
      have cm: "child_edge_match c ci (drop pos toks) = Some (?ml, length ?ts)" using eok(1) by (simp add: child_edge_match_def)
      show ?thesis
      proof (cases "?ml = length ?ts")
        case True
        then have pre: "prefix ?ts (drop pos toks)" by (simp add: edge_match_len_full)
        let ?c1 = "upd_at ci (touch now) c"
        have s1: "same_shape c ?c1" by (rule same_shape_upd_at) simp
        note ok1 = ins_ok_same_shape [OF ok s1 block_refs_touch]
        have e1: "edge ?c1 ni (toks ! pos) ci" using e edge_same_shape [OF s1] by simp
        have nd: "n_tokens (rc_nodes ?c1 ! ci) = ?ts" "n_block_id (rc_nodes ?c1 ! ci) = n_block_id (rc_nodes c ! ci)"
          using eok(1) by simp_all
        have dec: "length toks - (pos + length ?ts) < length toks - pos" using eok(3) pos by (cases ?ts) auto
        show ?thesis
        proof (cases "n_block_id (rc_nodes c ! ci) = None")
          case b: True
          from ins_ok_skip [OF ok1 e1] pre b nd have "ins_ok toks blocks s m R ?c1 pl ci (pos + length ?ts) bi" by simp
          from less.hyps [OF dec this] show ?thesis using pos bl od(10) Some cm True b nd eok(1) by (subst unf) simp
        next
          case b: False
          from ins_ok_set [OF ok1 e1 _ _ d(1) d2, of "fps ! bi"] pre b nd obtain c' where
            c': "insert_set_block ci (blocks ! bi) (fps ! bi) ?c1 = Some c'" "ins_ok toks blocks s m R c' pl ci (pos + length ?ts) (bi + 1)"
            by auto
          from less.hyps [OF dec c'(2)] show ?thesis using pos bl od(10) Some cm True b nd eok(1) c'(1) d(3)
            by (subst unf) simp
        qed
      next
        case False
        then have lt: "?ml < length ?ts" using edge_match_len_le(1) [of ?ts "drop pos toks"] by simp
        note sp = ins_split [OF ok pos e refl lt]
        let ?c1 = "split_done ni (toks ! pos) ci ?ml now c"
        have bsz: "rc_block_size ?c1 = s" using ins_okD(2) [OF sp(2)] .
        show ?thesis
        proof (cases "(bi + 1) * s \<le> length toks")
          case False
          have "length toks div s < bi + 1" using False by (simp add: div_less_iff_less_mult od(8))
          moreover have "bi \<le> length toks div s" using od(4,5) by (simp add: div_le_mono)
          ultimately have "ins_done toks blocks s m R ?c1 bi"
            using ins_okD(1,2,6,12) [OF sp(2)] by (auto simp: ins_done_def)
          then show ?thesis using False pos bl od(10) Some cm lt sp(1) bsz
            by (subst unf) (simp add: full_block_end_def next_block_boundary_def)
        next
          case True
          have "\<not> length toks \<le> pos + ?ml"
          proof
            assume "length toks \<le> pos + ?ml"
            then have "length toks div s \<le> bi" using ins_okD(4,5) [OF sp(2)] by simp
            moreover have "bi + 1 \<le> length toks div s" using div_le_mono [OF True, of s] od(8) by simp
            ultimately show False by simp
          qed
          then have lt2: "pos + ?ml < length toks" by simp
          note at = ins_ok_attach [OF sp(2) lt2 sp(3) [OF lt2] True d(1) d2]
          obtain c' pl' new where c': "attach_leaf (alloc_idx c) (take ((bi + 1) * s - (pos + ?ml)) (drop (pos + ?ml) toks))
              (Some (blocks ! bi)) (Some (fps ! bi)) now ?c1 = Some (new, c')"
            "ins_ok toks blocks s m R c' pl' new ((bi + 1) * s) (bi + 1)" using at(2) [of "Some (fps ! bi)" now] by blast
          have "pos < (bi + 1) * s" using od(5,8) by (metis Suc_eq_plus1 dividend_less_div_times mult.commute mult_Suc_right add.commute mult_Suc)
          then have "length toks - (bi + 1) * s < length toks - pos" using pos by simp
          from less.hyps [OF this c'(2)] show ?thesis using True pos bl od(10) Some cm lt sp(1) bsz at(1) c'(1) d(3)
            by (subst unf) (simp add: full_block_end_def next_block_boundary_def)
        qed
      qed
    qed
  qed
qed

subsection \<open>Insertion refines the abstract insertion\<close>

definition full_blocks :: "nat \<Rightarrow> token list \<Rightarrow> block_id list \<Rightarrow> nat" where
  "full_blocks s toks blocks = min (length blocks) (length toks div s)"

text \<open>What a caller owes: a block is new to the cache, or it is the one already cached for its prefix.\<close>

definition publishable :: "token list \<Rightarrow> block_id list \<Rightarrow> radix_cache \<Rightarrow> bool" where
  "publishable toks blocks c \<longleftrightarrow> distinct blocks \<and>
     list_all (\<lambda>k. rc_block_index c (blocks ! k) = None \<or>
                   cached c (take ((k + 1) * rc_block_size c) toks) = Some (blocks ! k))
       [0..<full_blocks (rc_block_size c) toks blocks]"

definition keeps_blocks :: "token list \<Rightarrow> block_id list \<Rightarrow> radix_cache \<Rightarrow> bool" where
  "keeps_blocks toks blocks c \<longleftrightarrow>
     list_all (\<lambda>k. case cached c (take ((k + 1) * rc_block_size c) toks) of None \<Rightarrow> True | Some b \<Rightarrow> b = blocks ! k)
       [0..<full_blocks (rc_block_size c) toks blocks]"

definition cache_inv :: "radix_cache \<Rightarrow> bool" where
  "cache_inv c \<longleftrightarrow> radix_wf c \<and> distinct (rc_free_nodes c)"

lemma cache_inv_iff: "cache_inv c \<longleftrightarrow> (\<exists>pl. insert_inv c pl)"
  by (auto simp: cache_inv_def insert_inv_def radix_wf_def)

lemma take_truncated: "0 < s \<Longrightarrow> k < full_blocks s toks blocks \<Longrightarrow>
    take ((k + 1) * s) (take (min (length toks) (length blocks * s)) toks) = take ((k + 1) * s) toks"
  using blocks_le [of s k toks] mult_le_mono1 [of "k + 1" "length blocks" s] by (auto simp: full_blocks_def min_def split: if_splits)

lemma spec_insert_truncated:
  "0 < s \<Longrightarrow> n \<le> full_blocks s toks blocks \<Longrightarrow>
     spec_insert s (take (min (length toks) (length blocks * s)) toks) blocks n m = spec_insert s toks blocks n m"
proof (induction n)
  case (Suc n)
  then show ?case using take_truncated [of s n toks blocks] by (simp del: take_take)
qed simp

lemma truncated_div:
  "0 < s \<Longrightarrow> length (take (min (length toks) (length blocks * s)) toks) div s = full_blocks s toks blocks"
  by (simp add: full_blocks_def min_def) (metis div_le_mono le_antisym nat_le_linear nonzero_mult_div_cancel_right not_gr_zero)

lemma full_blocks_0: "0 < s \<Longrightarrow> blocks = [] \<or> toks = [] \<Longrightarrow> full_blocks s toks blocks = 0"
  by (auto simp: full_blocks_def)

lemma insert_refines:
  assumes inv: "cache_inv c" and len: "length fps = length blocks" and pub: "publishable toks blocks c"
  defines "K \<equiv> full_blocks (rc_block_size c) toks blocks"
  shows "\<exists>c'. insert_with_fingerprints toks blocks fps c = Some (K * rc_block_size c, c') \<and> cache_inv c' \<and>
     rc_block_size c' = rc_block_size c \<and> cached c' = spec_insert (rc_block_size c) toks blocks K (cached c) \<and>
     (keeps_blocks toks blocks c \<longrightarrow> block_refs c' = block_refs c)"
proof -
  let ?s = "rc_block_size c" and ?toks = "take (min (length toks) (length blocks * rc_block_size c)) toks"
  obtain pl where ii: "insert_inv c pl" using inv cache_inv_iff by blast
  note tr = insert_invD(1) [OF ii]
  have s: "0 < ?s" using tree_okD(1) [OF tr] .
  show ?thesis
  proof (cases "blocks = [] \<or> toks = []")
    case True
    then show ?thesis using len inv full_blocks_0 [OF s] by (auto simp: insert_with_fingerprints_def K_def)
  next
    case False
    let ?c0 = "c\<lparr>rc_clock := rc_clock c + 1\<rparr>"
    have ca0: "cached ?c0 = cached c" by (rule cached_same_shape [OF same_shape_clock tr])
    have Kd: "length ?toks div ?s = K" using truncated_div [OF s, of toks blocks] by (simp add: K_def)
    have tk: "take ((k + 1) * ?s) ?toks = take ((k + 1) * ?s) toks" if "k < K" for k
      using take_truncated [OF s] that unfolding K_def by blast
    have "ins_ok ?toks blocks ?s (cached c) (block_refs c) ?c0 pl 0 0 0"
      unfolding ins_ok_def
    proof (intro conjI)
      show "insert_inv ?c0 pl" by (rule insert_inv_same_shape [OF same_shape_clock ii])
      show "at_path ?c0 (take 0 ?toks) 0" by (simp add: at_path.root)
      show "no_replace ?toks blocks ?s (cached c) \<longrightarrow> block_refs ?c0 = block_refs c"
        by (simp add: block_refs_def fun_eq_iff cong: option.case_cong)
      show "\<forall>k. 0 \<le> k \<longrightarrow> k < length ?toks div ?s \<longrightarrow> rc_block_index ?c0 (blocks ! k) = None \<or>
          cached ?c0 (take ((k + 1) * ?s) ?toks) = Some (blocks ! k)"
        unfolding Kd ca0 using pub tk by (auto simp: publishable_def list_all_iff K_def simp del: take_take)
      show "cached ?c0 = spec_insert ?s ?toks blocks 0 (cached c)" unfolding ca0 by simp
    qed simp_all
    from insert_loop_ok [OF this _ _ len, of "rc_clock c + 1"] pub obtain c' bi where
      c': "insert_loop ?toks blocks fps (rc_clock c + 1) ?c0 0 0 0 = Some (c', bi)"
      "ins_done ?toks blocks ?s (cached c) (block_refs c) c' bi" by (auto simp: publishable_def)
    then have bi: "bi = K" "rc_block_size c' = ?s" "cached c' = spec_insert ?s ?toks blocks K (cached c)" "cache_inv c'"
      using Kd by (auto simp: ins_done_def cache_inv_iff)
    have "no_replace ?toks blocks ?s (cached c)" if "keeps_blocks toks blocks c"
      unfolding no_replace_def Kd using that tk by (auto simp: keeps_blocks_def list_all_iff K_def simp del: take_take)
    then have "keeps_blocks toks blocks c \<longrightarrow> block_refs c' = block_refs c" using c'(2) by (auto simp: ins_done_def)
    moreover have "cached c' = spec_insert ?s toks blocks K (cached c)"
      using bi(3) spec_insert_truncated [OF s, of K toks blocks] by (simp add: K_def)
    ultimately show ?thesis using c'(1) bi(1,2,4) False len by (simp add: insert_with_fingerprints_def tick_def)
  qed
qed

lemma lookup_refines:
  fixes toks :: "token list"
  assumes "cache_inv c"
  defines "bl \<equiv> spec_lookup (rc_block_size c) (cached c) toks"
  shows "\<exists>c'. radix_lookup toks c = Some ((length bl * rc_block_size c, bl), c') \<and> cache_inv c' \<and>
     rc_block_size c' = rc_block_size c \<and> cached c' = cached c \<and>
     (\<forall>b. block_refs c' b = block_refs c b + (if b \<in> set bl then 1 else 0))"
proof -
  obtain pl where ii: "insert_inv c pl" using assms(1) cache_inv_iff by blast
  note tr = insert_invD(1) [OF ii] and s = same_shape_lookup_effect [of c toks]
  have bl: "walk_blocks c (walk c 0 toks) = bl" unfolding bl_def by (rule walk_blocks_spec [OF tr])
  show ?thesis
    using radix_lookup_walk [OF tr, of toks] insert_inv_same_shape [OF s ii] same_shapeD(3) [OF s]
      cached_same_shape [OF s tr] block_refs_lookup [OF tr insert_invD(4) [OF ii], of toks]
    unfolding bl cache_inv_iff by blast
qed

end
