(* ===== verification/Radix_Store.thy ===== *)
theory Radix_Store
  imports Radix_Insert
begin

text \<open>
  The contract of a prefix store and its client lemmas, and the radix cache as its instance: the
  scheduler publishes the blocks of a finished prompt and expects every later prompt that starts
  with the same full blocks to find them.
\<close>

subsection \<open>Laws of the prefix map\<close>

lemma spec_insert_at:
  assumes "0 < s" and "k < n" and "n \<le> length toks div s"
  shows "spec_insert s toks blocks n m (take ((k + 1) * s) toks) = Some (blocks ! k)"
  using assms(2,3)
proof (induction n)
  case (Suc n)
  show ?case
  proof (cases "k = n")
    case False
    then have "take ((k + 1) * s) toks \<noteq> take ((n + 1) * s) toks"
      using take_inj [OF blocks_le [OF assms(1), of k toks] blocks_le [OF assms(1), of n toks]] assms(1) Suc.prems by simp
    then show ?thesis using Suc False by simp
  qed simp
qed simp

lemma spec_insert_other:
  "(\<And>k. k < n \<Longrightarrow> p \<noteq> take ((k + 1) * s) toks) \<Longrightarrow> spec_insert s toks blocks n m p = m p"
  by (induction n) auto

lemma spec_lookup_all:
  assumes "\<And>k. k < n \<Longrightarrow> m (take ((k + 1) * s) toks) = Some (bl ! k)" and "n \<le> length toks div s" and "n \<le> length bl"
  shows "n \<le> length (spec_lookup s m toks)" and "take n (spec_lookup s m toks) = take n bl"
proof -
  let ?f = "\<lambda>k. m (take ((k + 1) * s) toks)"
  have split: "[0..<length toks div s] = [0..<n] @ [n..<length toks div s]"
    using assms(2) by (metis le_add_diff_inverse upt_add_eq_append zero_le)
  have "\<forall>x\<in>set (map ?f [0..<n]). x \<noteq> None" using assms(1) by auto
  then have e: "spec_lookup s m toks = map the (map ?f [0..<n]) @ map the (takeWhile (\<lambda>x. x \<noteq> None) (map ?f [n..<length toks div s]))"
    unfolding spec_lookup_def split by (simp add: takeWhile_append)
  then show "n \<le> length (spec_lookup s m toks)" by simp
  have "map the (map ?f [0..<n]) = take n bl" using assms(1,3) by (intro nth_equalityI) auto
  then show "take n (spec_lookup s m toks) = take n bl" unfolding e using assms(3) by simp
qed

lemma spec_lookup_le: "length (spec_lookup s m toks) \<le> length toks div s"
  using length_takeWhile_le [of "\<lambda>x. x \<noteq> None" "map (\<lambda>k. m (take ((k + 1) * s) toks)) [0..<length toks div s]"]
  by (simp add: spec_lookup_def)

lemma spec_lookup_insert:
  fixes m :: prefix_map
  assumes "0 < s" and K: "K \<le> length toks div s" "K \<le> length blocks" and sh: "take (K * s) toks2 = take (K * s) toks"
    and "K * s \<le> length toks2"
  defines "bl \<equiv> spec_lookup s (spec_insert s toks blocks K m) toks2"
  shows "K \<le> length bl" and "take K bl = take K blocks"
proof -
  have "take ((k + 1) * s) toks2 = take ((k + 1) * s) toks" if "k < K" for k
  proof -
    have "(k + 1) * s \<le> K * s" using that mult_le_mono1 [of "k + 1" K s] by simp
    then show ?thesis using sh by (metis min.absorb1 take_take)
  qed
  then have "spec_insert s toks blocks K m (take ((k + 1) * s) toks2) = Some (blocks ! k)" if "k < K" for k
    using spec_insert_at [OF assms(1) that K(1)] that by simp
  moreover have "K \<le> length toks2 div s" using assms(1,5) by (metis div_le_mono nonzero_mult_div_cancel_right not_gr_zero)
  ultimately show "K \<le> length bl" and "take K bl = take K blocks"
    unfolding bl_def using spec_lookup_all [of K "spec_insert s toks blocks K m" s toks2 blocks] K(2) by blast+
qed

subsection \<open>The contract\<close>

locale prefix_store =
  fixes inv :: "'c \<Rightarrow> bool"
    and abs :: "'c \<Rightarrow> prefix_map"
    and bsz :: "'c \<Rightarrow> nat"
    and ready :: "token list \<Rightarrow> block_id list \<Rightarrow> 'c \<Rightarrow> bool"
    and look :: "token list \<Rightarrow> 'c \<Rightarrow> ((nat \<times> block_id list) \<times> 'c) option"
    and ins :: "token list \<Rightarrow> block_id list \<Rightarrow> 'c \<Rightarrow> (nat \<times> 'c) option"
  assumes bsz_pos: "inv c \<Longrightarrow> 0 < bsz c"
    and look_law: "inv c \<Longrightarrow> \<exists>c'. look toks c = Some ((length (spec_lookup (bsz c) (abs c) toks) * bsz c,
          spec_lookup (bsz c) (abs c) toks), c') \<and> inv c' \<and> bsz c' = bsz c \<and> abs c' = abs c"
    and ins_law: "inv c \<Longrightarrow> ready toks blocks c \<Longrightarrow> \<exists>c'. ins toks blocks c = Some (full_blocks (bsz c) toks blocks * bsz c, c') \<and>
          inv c' \<and> bsz c' = bsz c \<and> abs c' = spec_insert (bsz c) toks blocks (full_blocks (bsz c) toks blocks) (abs c)"
begin

lemma store_shared_prefix:
  assumes "inv c" and "ready toks blocks c" and K: "K = full_blocks (bsz c) toks blocks"
    and "take (K * bsz c) toks2 = take (K * bsz c) toks" and "K * bsz c \<le> length toks2"
  shows "\<exists>c1 c2 n bl. ins toks blocks c = Some (K * bsz c, c1) \<and> look toks2 c1 = Some ((n, bl), c2) \<and>
     K * bsz c \<le> n \<and> take K bl = take K blocks"
proof -
  obtain c1 where c1: "ins toks blocks c = Some (K * bsz c, c1)" "inv c1" "bsz c1 = bsz c"
    "abs c1 = spec_insert (bsz c) toks blocks K (abs c)" using ins_law [OF assms(1,2)] K by auto
  obtain c2 where c2: "look toks2 c1 = Some ((length (spec_lookup (bsz c) (abs c1) toks2) * bsz c, spec_lookup (bsz c) (abs c1) toks2), c2)"
    using look_law [OF c1(2), of toks2] c1(3) by auto
  have "K \<le> length toks div bsz c" "K \<le> length blocks" using K by (simp_all add: full_blocks_def)
  from spec_lookup_insert [OF bsz_pos [OF assms(1)] this assms(4,5), of "abs c"]
  show ?thesis using c1 c2 by (auto intro!: exI)
qed

lemma store_insert_keeps_others:
  assumes "inv c" and "ready toks blocks c" and "\<And>k. p \<noteq> take ((k + 1) * bsz c) toks"
  shows "\<exists>n c'. ins toks blocks c = Some (n, c') \<and> abs c' p = abs c p"
  using ins_law [OF assms(1,2)] spec_insert_other [of _ p "bsz c" toks] assms(3) by fastforce

lemma store_lookup_stable:
  assumes "inv c"
  shows "\<exists>r c1 c2. look toks c = Some (r, c1) \<and> look toks c1 = Some (r, c2) \<and> inv c2"
  using look_law [OF assms, of toks] look_law by (metis (no_types))

end

interpretation radix_store: prefix_store cache_inv cached rc_block_size publishable radix_lookup radix_insert
proof (unfold_locales, goal_cases)
  case (1 c)
  then show ?case by (auto simp: cache_inv_def radix_wf_def dest: tree_okD(1))
next
  case (2 c toks)
  then show ?case using lookup_refines [of c toks] by blast
next
  case (3 c toks blocks)
  then show ?case using insert_refines [of c "replicate (length blocks) (replicate 16 0)" blocks toks]
    unfolding radix_insert_def by force
qed

subsection \<open>The empty cache\<close>

lemma radix_new_with_inv:
  assumes "radix_new_with bs ka ns = Some c"
  shows "cache_inv c" and "cached c p = None" and "rc_block_size c = bs"
proof -
  have bs: "0 < bs" and c: "c = \<lparr>rc_nodes = [node_new [] None 0], rc_free_nodes = [], rc_block_size = bs, rc_clock = 0,
                 rc_keepalive = ka, rc_block_index = Map.empty, rc_namespace = ns\<rparr>"
    using assms by (auto simp: radix_new_with_def split: if_splits)
  have ne: "\<not> edge c i t j" for i t j by (auto simp: c edge_def node_new_def)
  have "tree_ok c (\<lambda>_. 0)" by (rule tree_okI) (use ne bs in \<open>auto simp: c node_new_def\<close>)
  then show "cache_inv c"
    by (auto simp: cache_inv_def radix_wf_def free_ok_def index_ok_def c node_new_def)
  show "cached c p = None" using walk_no_edge [of c 0 p] ne by (simp add: cached_def)
  show "rc_block_size c = bs" by (simp add: c)
qed

text \<open>Concrete caches for the examples below: empty, and with one prompt of two blocks.\<close>

definition ex_empty :: radix_cache where
  "ex_empty = the (radix_new 2)"

definition ex_two :: radix_cache where
  "ex_two = snd (the (radix_insert [1, 2, 3, 4] [10, 11] ex_empty))"

lemma ex_empty_inv: "cache_inv ex_empty"
  using radix_new_with_inv(1) [of 2 None "replicate 32 0"]
  by (simp add: ex_empty_def radix_new_def) (simp add: radix_new_with_def)

lemma ex_empty_ready: "publishable [1, 2, 3, 4] [10, 11] ex_empty" "length (replicate 2 (replicate 16 0)) = length [10, 11::nat]"
  by code_simp simp

lemma ex_two_inv: "cache_inv ex_two"
  using radix_store.ins_law [OF ex_empty_inv ex_empty_ready(1)] by (auto simp: ex_two_def)

subsection \<open>Properties\<close>

text \<open>
  (C1) Insertion refines the update of a prefix map. On a cache that satisfies the invariant and
  blocks that are new (or already stand for their prefix), \<open>insert_with_fingerprints\<close> returns,
  reports the number of tokens its full blocks cover, binds exactly those block-aligned prefixes
  and no others, and keeps the invariant. When no cached prefix changes its block, no block's
  reference count changes either.
\<close>

theorem insert_refines_prefix_map:
  assumes "cache_inv c" and "length fps = length blocks" and "publishable toks blocks c"
  shows "\<exists>c'. insert_with_fingerprints toks blocks fps c =
       Some (full_blocks (rc_block_size c) toks blocks * rc_block_size c, c') \<and> cache_inv c' \<and>
     cached c' = spec_insert (rc_block_size c) toks blocks (full_blocks (rc_block_size c) toks blocks) (cached c) \<and>
     (keeps_blocks toks blocks c \<longrightarrow> block_refs c' = block_refs c)"
  using insert_refines [OF assms] by blast

theorem insert_refines_prefix_map_witness:
  "\<exists>c'. insert_with_fingerprints [1, 2, 3, 4] [10, 11] (replicate 2 (replicate 16 0)) ex_empty = Some (4, c') \<and>
     cache_inv c' \<and> cached c' [1, 2, 3, 4] = Some 11"
proof -
  have "full_blocks (rc_block_size ex_empty) [1, 2, 3, 4] [10, 11] = 2" "rc_block_size ex_empty = 2" by code_simp+
  then show ?thesis using insert_refines_prefix_map [OF ex_empty_inv ex_empty_ready(2,1)]
    by (auto simp: numeral_2_eq_2)
qed

text \<open>
  (C7) Lookup refines the lookup in the prefix map: on every cache that satisfies the invariant it
  returns, its blocks are those of the successive block-aligned prefixes that are cached, its
  length is the block size times their number (so nothing is trimmed), the map stays the same, and
  exactly the returned blocks gain one reference.
\<close>

theorem lookup_refines_prefix_map:
  assumes "cache_inv c" and "bl = spec_lookup (rc_block_size c) (cached c) toks"
  shows "\<exists>c'. radix_lookup toks c = Some ((length bl * rc_block_size c, bl), c') \<and> cache_inv c' \<and> cached c' = cached c \<and>
     (\<forall>b. block_refs c' b = block_refs c b + (if b \<in> set bl then 1 else 0))"
  using lookup_refines [OF assms(1), of toks] assms(2) by blast

theorem lookup_refines_prefix_map_witness:
  "\<exists>c'. radix_lookup [1, 2, 3, 4, 5] ex_two = Some ((4, [10, 11]), c') \<and> cache_inv c' \<and> block_refs c' 11 = 1"
proof -
  have "[10, 11] = spec_lookup (rc_block_size ex_two) (cached ex_two) [1, 2, 3, 4, 5]"
    and s: "rc_block_size ex_two = 2" and r: "block_refs ex_two 11 = 0" by code_simp+
  from lookup_refines_prefix_map [OF ex_two_inv this(1)] s r show ?thesis by auto
qed



text \<open>
  References balance: releasing the blocks a lookup returned puts the reference count of
  every cached block back to what it was, and the prefix map is the one before the lookup.
\<close>

theorem lookup_release_balanced:
  assumes "cache_inv c"
  shows "\<exists>n bl c'. radix_lookup toks c = Some ((n, bl), c') \<and> block_refs (radix_release bl c') = block_refs c \<and>
     cached (radix_release bl c') = cached c \<and> cache_inv (radix_release bl c')"
proof -
  obtain c' bl n where l: "radix_lookup toks c = Some ((n, bl), c')" "cache_inv c'" "cached c' = cached c"
    "\<forall>b. block_refs c' b = block_refs c b + (if b \<in> set bl then 1 else 0)" using lookup_refines [OF assms, of toks] by blast
  obtain pl where ii: "insert_inv c' pl" using l(2) cache_inv_iff by blast
  note s = same_shape_release [of c' bl]
  have "block_refs (radix_release bl c') = block_refs c"
    using l(4) block_refs_release [OF insert_invD(4) [OF ii]] by (simp add: fun_eq_iff)
  then show ?thesis
    using l cached_same_shape [OF s insert_invD(1) [OF ii]] insert_inv_same_shape [OF s ii] unfolding cache_inv_iff by metis
qed

theorem lookup_release_balanced_witness:
  "\<exists>n bl c'. radix_lookup [1, 2, 3] ex_two = Some ((n, bl), c') \<and> block_refs (radix_release bl c') = block_refs ex_two"
  using lookup_release_balanced [OF ex_two_inv, of "[1, 2, 3]"] by blast

end
