(* ===== verification/Radix_Stage.thy ===== *)
theory Radix_Stage
  imports Radix_Store
begin

text \<open>
  The classifying lookups of the prefix cache: \<open>lookup_or_stage\<close>, its read-only twin
  \<open>peek_prefix_classify\<close> and the session lookup. They follow the walk of a plain lookup but stop
  at the first tombstone (a blockless node that still carries metadata).
\<close>

subsection \<open>What classification reads of a node\<close>

definition view where
  "view n = (shape n, n_tier_location n, n_entry_state n, n_byte_len n, is_tombstone n, n_session_id n)"

definition same_view :: "radix_cache \<Rightarrow> radix_cache \<Rightarrow> bool" where
  "same_view c c' \<longleftrightarrow> same_shape c c' \<and> map view (rc_nodes c) = map view (rc_nodes c')"

lemma same_view_trans: "same_view a b \<Longrightarrow> same_view b c \<Longrightarrow> same_view a c"
  by (auto simp: same_view_def intro: same_shape_trans)

lemma same_view_shape: "same_view c c' \<Longrightarrow> same_shape c c'"
  by (simp add: same_view_def)

lemma same_view_nth:
  assumes "same_view c c'" and "i < length (rc_nodes c)"
  shows "view (rc_nodes c' ! i) = view (rc_nodes c ! i)"
  using assms same_shapeD(1) [OF same_view_shape [OF assms(1)]] by (metis nth_map same_view_def)

lemma view_eqD:
  assumes "view n = view m"
  shows "n_block_id n = n_block_id m" "n_tier_location n = n_tier_location m" "n_entry_state n = n_entry_state m"
    "n_byte_len n = n_byte_len m" "is_tombstone n = is_tombstone m" "n_tokens n = n_tokens m"
    "n_session_id n = n_session_id m"
  using assms by (simp_all add: view_def shape_def)

lemma is_tombstone_block: "is_tombstone n \<Longrightarrow> n_block_id n = None"
  by (simp add: is_tombstone_def)

lemma view_touch [simp]: "view (touch now n) = view n"
  by (simp add: view_def shape_def touch_def is_tombstone_def)

lemma view_visit [simp]: "view (visit_node now ka n) = view n"
  by (simp add: view_def visit_node_def shape_def touch_def hit_node_def maybe_refresh_soft_pin_def is_tombstone_def
      split: option.split)

lemma same_view_upd_at: "view (f (rc_nodes c ! i)) = view (rc_nodes c ! i) \<Longrightarrow> same_view c (upd_at i f c)"
  unfolding same_view_def
  by (rule conjI, rule same_shape_upd_at, simp add: view_def)
    (simp add: upd_at_def map_update, metis list_update_id map_update)

lemma same_view_visit_path: "same_view c (visit_path now js c)"
proof (induction js arbitrary: c)
  case Nil
  then show ?case by (simp add: same_view_def)
next
  case (Cons j js)
  have "same_view c (upd_at j (visit_node now (rc_keepalive c)) c)" by (rule same_view_upd_at) simp
  then show ?case using Cons same_view_trans by force
qed

subsection \<open>The part of a walk before a tombstone\<close>

fun stage_cut :: "radix_cache \<Rightarrow> nat list \<Rightarrow> nat list \<times> nat option" where
  "stage_cut c [] = ([], None)"
| "stage_cut c (j # js) = (if is_tombstone (rc_nodes c ! j) then ([], Some j)
     else (let (pre, s) = stage_cut c js in (j # pre, s)))"

definition stage_nodes :: "radix_cache \<Rightarrow> nat list \<Rightarrow> nat list" where
  "stage_nodes c js = fst (stage_cut c js)"

definition stage_walked :: "radix_cache \<Rightarrow> nat list \<Rightarrow> nat" where
  "stage_walked c js = (case stage_cut c js of (pre, s) \<Rightarrow> walked c pre + (case s of None \<Rightarrow> 0 | Some j \<Rightarrow> walked c [j]))"

definition hits_of :: "radix_cache \<Rightarrow> nat list \<Rightarrow> (block_id \<times> hit_kind) list" where
  "hits_of c js = List.map_filter (\<lambda>j. case n_block_id (rc_nodes c ! j) of None \<Rightarrow> None
     | Some b \<Rightarrow> Some (b, classify_hit (n_tier_location (rc_nodes c ! j)) (n_entry_state (rc_nodes c ! j)))) js"

definition to_lookup_block :: "block_id \<times> hit_kind \<Rightarrow> lookup_block" where
  "to_lookup_block h = \<lparr>lb_block_id = Some (fst h), lb_hit_kind = snd h\<rparr>"

definition stage_blocks :: "radix_cache \<Rightarrow> nat list \<Rightarrow> lookup_block list" where
  "stage_blocks c js = map to_lookup_block (hits_of c (stage_nodes c js)) @
     (case snd (stage_cut c js) of None \<Rightarrow> [] | Some _ \<Rightarrow> [miss_block])"

definition stage_advice :: "lookup_heuristics \<Rightarrow> radix_cache \<Rightarrow> nat list \<Rightarrow> bool" where
  "stage_advice h c js = list_ex (\<lambda>j. n_block_id (rc_nodes c ! j) \<noteq> None \<and>
     node_advice h (rc_block_size c) (rc_nodes c ! j)) (stage_nodes c js)"

definition stage_visit :: "nat \<Rightarrow> nat list \<Rightarrow> radix_cache \<Rightarrow> radix_cache" where
  "stage_visit now js c = (let c1 = visit_path now (stage_nodes c js) c
     in case snd (stage_cut c js) of None \<Rightarrow> c1 | Some j \<Rightarrow> upd_at j (touch now) c1)"

lemma hits_of_simps [simp]:
  "hits_of c [] = []"
  "hits_of c (j # js) = (case n_block_id (rc_nodes c ! j) of None \<Rightarrow> []
     | Some b \<Rightarrow> [(b, classify_hit (n_tier_location (rc_nodes c ! j)) (n_entry_state (rc_nodes c ! j)))]) @ hits_of c js"
  by (auto simp: hits_of_def map_filter_simps split: option.split)

lemma stage_simps:
  "stage_walked c [] = 0" "stage_blocks c [] = []" "stage_advice h c [] = False" "stage_visit now [] c = c"
  "is_tombstone (rc_nodes c ! j) \<Longrightarrow> stage_walked c (j # js) = length (n_tokens (rc_nodes c ! j))"
  "is_tombstone (rc_nodes c ! j) \<Longrightarrow> stage_blocks c (j # js) = [miss_block]"
  "is_tombstone (rc_nodes c ! j) \<Longrightarrow> stage_advice h c (j # js) = False"
  "is_tombstone (rc_nodes c ! j) \<Longrightarrow> stage_visit now (j # js) c = upd_at j (touch now) c"
  "\<not> is_tombstone (rc_nodes c ! j) \<Longrightarrow>
     stage_walked c (j # js) = length (n_tokens (rc_nodes c ! j)) + stage_walked c js"
  "\<not> is_tombstone (rc_nodes c ! j) \<Longrightarrow> stage_blocks c (j # js) =
     (case n_block_id (rc_nodes c ! j) of None \<Rightarrow> [] | Some b \<Rightarrow> [block_hit b (rc_nodes c ! j)]) @ stage_blocks c js"
  "\<not> is_tombstone (rc_nodes c ! j) \<Longrightarrow> stage_advice h c (j # js) \<longleftrightarrow>
     (n_block_id (rc_nodes c ! j) \<noteq> None \<and> node_advice h (rc_block_size c) (rc_nodes c ! j)) \<or> stage_advice h c js"
  by (auto simp: stage_walked_def stage_blocks_def stage_advice_def stage_visit_def stage_nodes_def Let_def
      to_lookup_block_def block_hit_def split: prod.split option.split)

lemma stage_cut_same_view:
  assumes v: "same_view c c'" and "\<forall>j\<in>set js. j < length (rc_nodes c)"
  shows "stage_cut c' js = stage_cut c js"
  using assms(2)
proof (induction js)
  case (Cons j js)
  then show ?case using view_eqD(5) [OF same_view_nth [OF v, of j]] by simp
qed simp

lemma stage_cut_subset: "set (fst (stage_cut c js)) \<subseteq> set js" "snd (stage_cut c js) = Some j \<Longrightarrow> j \<in> set js"
  by (induction js) (auto split: if_splits prod.splits)

lemma hits_of_same_view:
  assumes v: "same_view c c'" and "\<forall>j\<in>set js. j < length (rc_nodes c)"
  shows "hits_of c' js = hits_of c js"
  using assms(2)
proof (induction js)
  case (Cons j js)
  then show ?case using view_eqD(1-3) [OF same_view_nth [OF v, of j]] by (simp split: option.split)
qed simp

lemma stage_same_view:
  assumes v: "same_view c c'" and r: "\<forall>j\<in>set js. j < length (rc_nodes c)"
  shows "stage_walked c' js = stage_walked c js" and "stage_blocks c' js = stage_blocks c js"
    and "stage_advice h c' js = stage_advice h c js"
proof -
  note s = same_view_shape [OF v]
  have r': "\<forall>j\<in>set (stage_nodes c js). j < length (rc_nodes c)"
    using r stage_cut_subset(1) [of c js] by (auto simp: stage_nodes_def)
  have n: "stage_nodes c' js = stage_nodes c js" by (simp add: stage_nodes_def stage_cut_same_view [OF v r])
  show "stage_walked c' js = stage_walked c js"
    using walked_same_shape(1) [OF s r'] same_shapeD(5) [OF s] stage_cut_subset(2) [of c js] r
    by (auto simp: stage_walked_def stage_nodes_def stage_cut_same_view [OF v r] split: prod.split option.split)
  show "stage_blocks c' js = stage_blocks c js"
    by (simp add: stage_blocks_def n stage_cut_same_view [OF v r] hits_of_same_view [OF v r'])
  have "node_advice h (rc_block_size c') (rc_nodes c' ! j) = node_advice h (rc_block_size c) (rc_nodes c ! j) \<and>
      n_block_id (rc_nodes c' ! j) = n_block_id (rc_nodes c ! j)"
    if "j \<in> set (stage_nodes c js)" for j
    using view_eqD [OF same_view_nth [OF v, of j]] r' that same_shapeD(3) [OF s] by (simp add: node_advice_def)
  then show "stage_advice h c' js = stage_advice h c js"
    unfolding stage_advice_def n list_ex_iff by auto
qed

lemma stage_visit_step:
  assumes t: "\<not> is_tombstone (rc_nodes c ! j)" and r: "\<forall>k\<in>set js. k < length (rc_nodes c)"
  shows "stage_visit now (j # js) c = stage_visit now js (upd_at j (visit_node now (rc_keepalive c)) c)"
proof -
  have "same_view c (upd_at j (visit_node now (rc_keepalive c)) c)" by (rule same_view_upd_at) simp
  from stage_cut_same_view [OF this r] show ?thesis
    using t by (cases "stage_cut c js") (simp add: stage_visit_def stage_nodes_def Let_def)
qed

subsection \<open>The classifying loops\<close>

lemma stage_loop_walk:
  assumes "tree_ok c pl" and "i < length (rc_nodes c)" and "walk c i (drop pos toks) = js"
  shows "stage_loop toks h now c i pos bl adv =
     Some (stage_visit now js (upd_at i (touch now) c), pos + stage_walked c js, bl @ stage_blocks c js,
           adv \<or> stage_advice h c js)"
  using assms
proof (induction "length toks - pos" arbitrary: c i pos bl adv js rule: less_induct)
  case less
  note t = less.prems(1)
  let ?c1 = "upd_at i (touch now) c"
  have v1: "same_view c ?c1" by (rule same_view_upd_at) simp
  note s1 = same_view_shape [OF v1]
  note t1 = tree_ok_same_shape [OF s1 t]
  note unf = stage_loop.simps [of toks h now c i pos bl adv]
  have ch: "n_children (rc_nodes ?c1 ! i) = n_children (rc_nodes c ! i)" using less.prems(2) by simp
  show ?case
  proof (cases "length toks \<le> pos \<or> map_of (n_children (rc_nodes c ! i)) (toks ! pos) = None")
    case True
    then have "js = []" using less.prems(3) walk_no_edge [of c i "drop pos toks"]
      by (cases "length toks \<le> pos") (auto simp: edge_def hd_drop_conv_nth)
    then show ?thesis using True less.prems(2) ch by (subst unf) (auto simp: stage_simps)
  next
    case False
    then obtain j where e: "edge c i (toks ! pos) j" and pos: "pos < length toks"
      and m: "map_of (n_children (rc_nodes c ! i)) (toks ! pos) = Some j"
      using less.prems(2) by (auto simp: edge_def)
    note ok = edge_okD [OF tree_okD(4) [OF t e]]
    have e1: "edge ?c1 i (toks ! pos) j" using e edge_same_shape [OF s1] by simp
    note cm = child_edge_match_walk [OF t1 e1 pos] and cw = child_edge_match_walk(2) [OF t e pos]
    note vj = view_eqD [OF same_view_nth [OF v1 ok(1)]]
    show ?thesis
    proof (cases "edge_match_len (n_tokens (rc_nodes c ! j)) (drop pos toks) < length (n_tokens (rc_nodes c ! j))")
      case True
      then have "js = []" using cw less.prems(3) by simp
      then show ?thesis using True less.prems(2) ch m pos cm(1) vj by (subst unf) (simp add: stage_simps)
    next
      case False
      let ?n = "length (n_tokens (rc_nodes c ! j))"
      let ?c2 = "upd_at j (visit_node now (rc_keepalive c)) ?c1"
      have v2: "same_view c ?c2" by (rule same_view_trans [OF v1]) (rule same_view_upd_at, simp)
      note s2 = same_view_shape [OF v2]
      obtain js' where js: "js = j # js'" "js' = walk c j (drop (pos + ?n) toks)"
        using cw less.prems(3) False by simp
      have r: "\<forall>k\<in>set js'. k < length (rc_nodes c)" using walk_in_range [OF t js(2) [symmetric]] by blast
      have ml: "edge_match_len (n_tokens (rc_nodes c ! j)) (drop pos toks) = ?n" "length toks - (pos + ?n) < length toks - pos"
        using cm(3) False vj(6) by auto
      have jl: "j < length (rc_nodes ?c2)" using ok(1) by simp
      show ?thesis
      proof (cases "is_tombstone (rc_nodes c ! j)")
        case True
        then show ?thesis
          using False less.prems(2) ch m pos cm(1) vj ml(1) ok(1) js is_tombstone_block [OF True]
          by (subst unf) (simp add: stage_simps)
      next
        case nt: False
        note IH = less.hyps [OF ml(2) tree_ok_same_shape [OF s2 t] jl walk_same_shape [OF s2 t, of j "drop (pos + ?n) toks", folded js(2)]]
        have again: "upd_at j (touch now) ?c2 = ?c2" using ok(1) by (simp add: upd_at_twice)
        let ?bl = "bl @ (case n_block_id (rc_nodes c ! j) of None \<Rightarrow> [] | Some b \<Rightarrow> [block_hit b (rc_nodes c ! j)])"
        let ?adv = "adv \<or> (n_block_id (rc_nodes c ! j) \<noteq> None \<and> node_advice h (rc_block_size c) (rc_nodes c ! j))"
        have "stage_loop toks h now c i pos bl adv = stage_loop toks h now ?c2 j (pos + ?n) ?bl ?adv"
          using False less.prems(2) ch m pos cm(1) vj ml(1) ok(1) nt
          by (subst unf) (auto simp: upd_at_twice visit_node_def block_hit_def node_advice_def
              split: option.split intro!: arg_cong [where f = "\<lambda>x. stage_loop _ _ _ x _ _ _ _"] upd_at_cong)
        then show ?thesis
          using IH [of ?bl ?adv] again js stage_same_view [OF v2 r] nt
            stage_visit_step [of ?c1 j js' now] r vj(5) by (simp add: stage_simps add.assoc disj_assoc)
      qed
    qed
  qed
qed

lemma peek_loop_walk:
  assumes t: "tree_ok c pl" and "i < length (rc_nodes c)" and "walk c i (drop pos toks) = js"
  shows "peek_loop toks c i pos bl = Some (pos + stage_walked c js, bl @ hits_of c (stage_nodes c js))"
  using assms(2-)
proof (induction "length toks - pos" arbitrary: i pos bl js rule: less_induct)
  case less
  note unf = peek_loop.simps [of toks c i pos bl]
  show ?case
  proof (cases "length toks \<le> pos \<or> map_of (n_children (rc_nodes c ! i)) (toks ! pos) = None")
    case True
    then have "js = []" using less.prems(2) walk_no_edge [of c i "drop pos toks"]
      by (cases "length toks \<le> pos") (auto simp: edge_def hd_drop_conv_nth)
    then show ?thesis using True less.prems(1) by (subst unf) (auto simp: stage_simps stage_nodes_def)
  next
    case False
    then obtain j where e: "edge c i (toks ! pos) j" and pos: "pos < length toks"
      and m: "map_of (n_children (rc_nodes c ! i)) (toks ! pos) = Some j"
      using less.prems(1) by (auto simp: edge_def)
    note ok = edge_okD [OF tree_okD(4) [OF t e]] and cm = child_edge_match_walk [OF t e pos]
    show ?thesis
    proof (cases "edge_match_len (n_tokens (rc_nodes c ! j)) (drop pos toks) < length (n_tokens (rc_nodes c ! j))")
      case True
      then have "js = []" using cm(2) less.prems(2) by simp
      then show ?thesis using True less.prems(1) m pos cm(1) by (subst unf) (simp add: stage_simps stage_nodes_def)
    next
      case False
      let ?n = "length (n_tokens (rc_nodes c ! j))"
      obtain js' where js: "js = j # js'" "js' = walk c j (drop (pos + ?n) toks)"
        using cm(2) less.prems(2) False by simp
      have ml: "edge_match_len (n_tokens (rc_nodes c ! j)) (drop pos toks) = ?n" "length toks - (pos + ?n) < length toks - pos"
        using cm(3) False by auto
      note IH = less.hyps [OF ml(2) ok(1) js(2) [symmetric]]
      show ?thesis
        using False less.prems(1) m pos cm(1) ml(1) ok(1) js(1) is_tombstone_block [of "rc_nodes c ! j"]
        by (subst unf) (auto simp: IH stage_simps stage_nodes_def split: option.split prod.split)
    qed
  qed
qed

definition stage_effect :: "token list \<Rightarrow> radix_cache \<Rightarrow> radix_cache" where
  "stage_effect toks c = (let now = rc_clock c + 1
     in stage_visit now (walk c 0 toks) (upd_at 0 (touch now) (c\<lparr>rc_clock := now\<rparr>)))"

lemma same_view_clock [simp]: "same_view c (c\<lparr>rc_clock := x\<rparr>)"
  by (simp add: same_view_def)

lemma same_view_stage_visit: "same_view c (stage_visit now js c)"
  unfolding stage_visit_def Let_def
  by (auto split: option.split intro: same_view_visit_path same_view_trans [OF same_view_visit_path same_view_upd_at])

lemma same_view_stage_effect: "same_view c (stage_effect toks c)"
  unfolding stage_effect_def Let_def
  by (rule same_view_trans [OF same_view_trans [OF same_view_clock same_view_upd_at] same_view_stage_visit]) simp

lemma lookup_or_stage_walk:
  assumes t: "tree_ok c pl" and js: "walk c 0 toks = js"
  shows "lookup_or_stage toks h c =
     Some (\<lparr>matched_len = rounded_prefix_len c (stage_walked c js) (hit_blocks (stage_blocks c js)),
            lo_blocks = stage_blocks c js, recompute_advised = stage_advice h c js\<rparr>, stage_effect toks c)"
proof -
  let ?c0 = "c\<lparr>rc_clock := rc_clock c + 1\<rparr>"
  have w0: "walk ?c0 0 (drop 0 toks) = js" using walk_same_shape [OF same_shape_clock t] js by simp
  have r: "\<forall>j\<in>set js. j < length (rc_nodes c)" using walk_in_range [OF t js] by blast
  have "rc_block_size (stage_effect toks c) = rc_block_size c"
    using same_shapeD(3) [OF same_view_shape [OF same_view_stage_effect]] .
  then have "rounded_prefix_len (stage_effect toks c) a b = rounded_prefix_len c a b" for a b
    by (simp add: rounded_prefix_len_def)
  then show ?thesis
    using stage_loop_walk [OF tree_ok_same_shape [OF same_shape_clock t] _ w0] tree_okD(2) [OF t] js
      stage_same_view [OF same_view_clock r]
    by (simp add: lookup_or_stage_def tick_def Let_def stage_effect_def)
qed

lemma peek_prefix_classify_walk:
  assumes t: "tree_ok c pl" and js: "walk c 0 toks = js"
  shows "peek_prefix_classify toks c =
     Some \<lparr>pk_matched_len = stage_walked c js, pk_blocks = hits_of c (stage_nodes c js)\<rparr>"
  using peek_loop_walk [OF t, of 0 0 toks js "[]"] js tree_okD(2) [OF t] by (simp add: peek_prefix_classify_def)

subsection \<open>The session lookup\<close>

text \<open>Blocks on the walk up to a node, and how far the last block of a session reaches.\<close>

definition block_nodes :: "radix_cache \<Rightarrow> nat list \<Rightarrow> nat list" where
  "block_nodes c js = filter (\<lambda>j. n_block_id (rc_nodes c ! j) \<noteq> None) js"

definition session_reach :: "radix_cache \<Rightarrow> session \<Rightarrow> nat list \<Rightarrow> nat" where
  "session_reach c sid js = length (dropWhile (\<lambda>j. n_session_id (rc_nodes c ! j) \<noteq> Some sid) (rev js))"

lemma session_reach_snoc [simp]:
  "session_reach c sid [] = 0"
  "session_reach c sid (js @ [j]) =
     (if n_session_id (rc_nodes c ! j) = Some sid then length js + 1 else session_reach c sid js)"
  by (simp_all add: session_reach_def)

lemma session_reach_le: "session_reach c sid js \<le> length js"
  unfolding session_reach_def by (metis length_dropWhile_le length_rev)

lemma session_reach_last:
  "0 < session_reach c sid js \<Longrightarrow> n_session_id (rc_nodes c ! (js ! (session_reach c sid js - 1))) = Some sid"
proof (induction js rule: rev_induct)
  case (snoc j js)
  then show ?case using session_reach_le [of c sid js] by (auto simp: nth_append split: if_splits)
qed simp

lemma session_reach_after:
  "session_reach c sid js \<le> k \<Longrightarrow> k < length js \<Longrightarrow> n_session_id (rc_nodes c ! (js ! k)) \<noteq> Some sid"
  by (induction js rule: rev_induct) (auto simp: nth_append less_Suc_eq split: if_splits)

definition session_walk_ok :: "radix_cache \<Rightarrow> (nat \<Rightarrow> nat) \<Rightarrow> session \<Rightarrow> nat list \<Rightarrow> session_walk \<Rightarrow> bool" where
  "session_walk_ok c pl sid ns w \<longleftrightarrow> map fst (sw_nodes w) = ns \<and> sw_count w = session_reach c sid ns \<and>
     (0 < sw_count w \<longrightarrow> sw_pos w = pl (ns ! (sw_count w - 1)))"

lemma session_walk_ok_snoc:
  assumes "session_walk_ok c pl sid ns w"
  shows "session_walk_ok c pl sid (ns @ [j])
     (let w1 = w\<lparr>sw_nodes := sw_nodes w @ [(j, pl j)]\<rparr>
      in if n_session_id (rc_nodes c ! j) = Some sid
         then w1\<lparr>sw_count := length (sw_nodes w1), sw_pos := pl j\<rparr> else w1)"
proof -
  have "length (sw_nodes w) = length ns" using assms by (auto simp: session_walk_ok_def)
  then show ?thesis using assms session_reach_le [of c sid ns]
    by (auto simp: session_walk_ok_def Let_def nth_append)
qed

lemma session_loop_walk:
  assumes t: "tree_ok c pl" and "i < length (rc_nodes c)" and "pl i = pos" and "walk c i (drop pos toks) = js"
    and "session_walk_ok c pl sid ns w"
  shows "\<exists>w'. session_loop sid toks c i pos w = Some w' \<and>
     session_walk_ok c pl sid (ns @ block_nodes c (stage_nodes c js)) w'"
  using assms(2-)
proof (induction "length toks - pos" arbitrary: i pos js ns w rule: less_induct)
  case less
  note unf = session_loop.simps [of sid toks c i pos w]
  show ?case
  proof (cases "length toks \<le> pos \<or> map_of (n_children (rc_nodes c ! i)) (toks ! pos) = None")
    case True
    then have "js = []" using less.prems(3) walk_no_edge [of c i "drop pos toks"]
      by (cases "length toks \<le> pos") (auto simp: edge_def hd_drop_conv_nth)
    then show ?thesis using True less.prems(1,4) by (subst unf) (auto simp: stage_nodes_def block_nodes_def)
  next
    case False
    then obtain j where e: "edge c i (toks ! pos) j" and pos: "pos < length toks"
      and m: "map_of (n_children (rc_nodes c ! i)) (toks ! pos) = Some j"
      using less.prems(1) by (auto simp: edge_def)
    note ok = edge_okD [OF tree_okD(4) [OF t e]] and cm = child_edge_match_walk [OF t e pos]
    show ?thesis
    proof (cases "edge_match_len (n_tokens (rc_nodes c ! j)) (drop pos toks) < length (n_tokens (rc_nodes c ! j))")
      case True
      then have "js = []" using cm(2) less.prems(3) by simp
      then show ?thesis using True less.prems(1,4) m pos cm(1)
        by (subst unf) (simp add: stage_nodes_def block_nodes_def)
    next
      case False
      let ?n = "length (n_tokens (rc_nodes c ! j))"
      obtain js' where js: "js = j # js'" "js' = walk c j (drop (pos + ?n) toks)"
        using cm(2) less.prems(3) False by simp
      have ml: "edge_match_len (n_tokens (rc_nodes c ! j)) (drop pos toks) = ?n" "length toks - (pos + ?n) < length toks - pos"
        using cm(3) False by auto
      have plj: "pl j = pos + ?n" using ok(5) less.prems(2) by simp
      note IH = less.hyps [OF ml(2) ok(1) plj js(2) [symmetric]]
      note basic = False less.prems(1) m pos cm(1) ml(1) ok(1)
      show ?thesis
      proof (cases "n_block_id (rc_nodes c ! j)")
        case None
        show ?thesis
        proof (cases "is_tombstone (rc_nodes c ! j)")
          case True
          then show ?thesis using basic None less.prems(4) js(1)
            by (subst unf) (simp add: stage_nodes_def block_nodes_def)
        next
          case nt: False
          then have "block_nodes c (stage_nodes c js) = block_nodes c (stage_nodes c js')"
            using js(1) None by (simp add: stage_nodes_def block_nodes_def split: prod.split)
          then show ?thesis using basic None nt IH [OF less.prems(4)] by (subst unf) simp
        qed
      next
        case (Some b)
        then have nt: "\<not> is_tombstone (rc_nodes c ! j)" using is_tombstone_block by fastforce
        have bn: "block_nodes c (stage_nodes c js) = j # block_nodes c (stage_nodes c js')"
          using js(1) Some nt by (simp add: stage_nodes_def block_nodes_def split: prod.split)
        show ?thesis
          using basic Some IH [OF session_walk_ok_snoc [OF less.prems(4), of j]] bn plj
          by (subst unf; cases "n_session_id (rc_nodes c ! j) = Some sid") (simp_all add: Let_def)
      qed
    qed
  qed
qed

lemma session_hits_visit:
  assumes "distinct (map fst ns)" and "\<forall>i\<in>set (map fst ns). i < length (rc_nodes c) \<and> n_block_id (rc_nodes c ! i) \<noteq> None"
  shows "\<exists>adv'. session_hits ns h now c bl adv =
     Some (visit_path now (map fst ns) c, bl @ map to_lookup_block (hits_of c (map fst ns)), adv')"
  using assms
proof (induction ns arbitrary: c bl adv)
  case (Cons e ns)
  obtain i x where [simp]: "e = (i, x)" by (cases e)
  let ?c' = "upd_at i (visit_node now (rc_keepalive c)) c"
  have il: "i < length (rc_nodes c)" and nb: "n_block_id (rc_nodes c ! i) \<noteq> None" using Cons.prems(2) by auto
  then obtain b where b: "n_block_id (rc_nodes c ! i) = Some b" by blast
  have v: "same_view c ?c'" by (rule same_view_upd_at) simp
  have r: "\<forall>j\<in>set (map fst ns). j < length (rc_nodes c)" using Cons.prems(2) by auto
  have "\<forall>j\<in>set (map fst ns). j < length (rc_nodes ?c') \<and> n_block_id (rc_nodes ?c' ! j) \<noteq> None"
    using Cons.prems same_shapeD(6) [OF same_view_shape [OF v]] by auto
  note IH = Cons.IH [OF _ this]
  have "\<exists>adv1. session_hits (e # ns) h now c bl adv = session_hits ns h now ?c' (bl @ [block_hit b (rc_nodes c ! i)]) adv1"
    using il b by (auto simp: upd_at_twice visit_node_def block_hit_def intro!: exI upd_at_cong arg_cong [where f = "\<lambda>x. session_hits _ _ _ x _ _"])
  then show ?case
    using IH [of "bl @ [block_hit b (rc_nodes c ! i)]"] Cons.prems(1) b hits_of_same_view [OF v r]
    by (auto simp: to_lookup_block_def block_hit_def)
qed simp

lemma block_nodes_pl:
  assumes t: "tree_ok c pl" and "walk c i ts = js" and "k < length (block_nodes c (stage_nodes c js))"
  shows "pl (block_nodes c (stage_nodes c js) ! k) = (pl i div rc_block_size c + k + 1) * rc_block_size c"
  using assms(2-)
proof (induction js arbitrary: i ts k)
  case (Cons j js)
  note w = walk_Cons [OF t Cons.prems(1)]
  note eb = edge_blocks [OF t w(1)]
  show ?case
  proof (cases "is_tombstone (rc_nodes c ! j)")
    case True
    then show ?thesis using Cons.prems(2) by (simp add: stage_nodes_def block_nodes_def)
  next
    case nt: False
    then have n: "stage_nodes c (j # js) = j # stage_nodes c js" by (simp add: stage_nodes_def split: prod.split)
    note IH = Cons.IH [OF w(4) [symmetric]]
    show ?thesis
    proof (cases "n_block_id (rc_nodes c ! j)")
      case None
      then have "block_nodes c (stage_nodes c (j # js)) = block_nodes c (stage_nodes c js)"
        by (simp add: n block_nodes_def)
      then show ?thesis using IH [of k] Cons.prems(2) eb(1) None by simp
    next
      case (Some b)
      then have bn: "block_nodes c (stage_nodes c (j # js)) = j # block_nodes c (stage_nodes c js)"
        by (simp add: n block_nodes_def)
      have d: "pl j = pl j div rc_block_size c * rc_block_size c" using eb(2) Some by auto
      show ?thesis
      proof (cases k)
        case 0
        then show ?thesis using bn eb(1) d Some by simp
      next
        case (Suc k')
        then show ?thesis using IH [of k'] Cons.prems(2) eb(1) Some bn by simp
      qed
    qed
  qed
qed (simp add: stage_nodes_def block_nodes_def)

definition hit_at :: "radix_cache \<Rightarrow> nat \<Rightarrow> block_id \<times> hit_kind" where
  "hit_at c j = (the (n_block_id (rc_nodes c ! j)), classify_hit (n_tier_location (rc_nodes c ! j)) (n_entry_state (rc_nodes c ! j)))"

lemma hits_of_map: "hits_of c js = map (hit_at c) (block_nodes c js)"
  by (induction js) (auto simp: block_nodes_def hit_at_def split: option.split)

lemma block_nodes_idem [simp]: "block_nodes c (block_nodes c js) = block_nodes c js"
  by (simp add: block_nodes_def)

lemma block_nodes_take: "block_nodes c (take k (block_nodes c js)) = take k (block_nodes c js)"
  unfolding block_nodes_def by (rule filter_True) (auto dest: in_set_takeD)

lemma hits_of_block_nodes: "hits_of c (take k (block_nodes c js)) = take k (hits_of c js)"
  by (simp add: hits_of_map block_nodes_take take_map)

lemma hit_blocks_le: "hit_blocks bs \<le> length bs"
  by (simp add: hit_blocks_def)

lemma rounded_prefix_len_small:
  "0 < rc_block_size c \<Longrightarrow> k * rc_block_size c \<le> walked_len \<Longrightarrow> rounded_prefix_len c walked_len k = k * rc_block_size c"
  by (simp add: rounded_prefix_len_def Let_def min_absorb1)

text \<open>The session a cached block is tagged with.\<close>

definition block_session :: "radix_cache \<Rightarrow> block_id \<Rightarrow> session option" where
  "block_session c b = (case rc_block_index c b of None \<Rightarrow> None | Some i \<Rightarrow> n_session_id (rc_nodes c ! i))"

lemma block_session_hit:
  assumes "index_ok c" and "j < length (rc_nodes c)" and "n_block_id (rc_nodes c ! j) \<noteq> None"
  shows "block_session c (fst (hit_at c j)) = n_session_id (rc_nodes c ! j)"
proof -
  obtain b where "n_block_id (rc_nodes c ! j) = Some b" using assms(3) by blast
  then show ?thesis using index_okD [OF assms(1), of b j] assms(2) by (simp add: block_session_def hit_at_def)
qed

lemma session_lookup_walk:
  assumes t: "tree_ok c pl" and ns: "block_nodes c (stage_nodes c (walk c 0 toks)) = ns"
    and K: "session_reach c sid ns = K"
  shows "\<exists>adv c'. lookup_session_prefix_or_stage sid toks h c =
     Some (\<lparr>matched_len = hit_blocks (map to_lookup_block (take K (map (hit_at c) ns))) * rc_block_size c,
            lo_blocks = map to_lookup_block (take K (map (hit_at c) ns)), recompute_advised = adv\<rparr>, c') \<and>
     same_view c c' \<and> (K = 0 \<longrightarrow> c' = c)"
proof -
  let ?s = "rc_block_size c" and ?js = "walk c 0 toks"
  have s: "0 < ?s" using tree_okD(1) [OF t] .
  have "session_walk_ok c pl sid [] \<lparr>sw_nodes = [], sw_count = 0, sw_pos = 0\<rparr>" by (simp add: session_walk_ok_def)
  from session_loop_walk [OF t tree_okD(2) [OF t] tree_okD(3) [OF t] _ this, of toks ?js] obtain w where
    w: "session_loop sid toks c 0 0 \<lparr>sw_nodes = [], sw_count = 0, sw_pos = 0\<rparr> = Some w" "session_walk_ok c pl sid ns w"
    using ns by auto
  then have wn: "map fst (sw_nodes w) = ns" "sw_count w = K" "0 < K \<longrightarrow> sw_pos w = pl (ns ! (K - 1))"
    using K by (auto simp: session_walk_ok_def)
  show ?thesis
  proof (cases "K = 0")
    case True
    then show ?thesis using w wn
      by (simp add: lookup_session_prefix_or_stage_def empty_outcome_def hit_blocks_def same_view_def) blast
  next
    case False
    then have Kl: "K - 1 < length ns" using session_reach_le [of c sid ns] K by linarith
    have "sw_pos w = K * ?s"
      using wn(3) False block_nodes_pl [OF t refl, of "K - 1" 0 toks] Kl ns tree_okD(3) [OF t] by simp
    then have len: "rounded_prefix_len c (sw_pos w) K = K * ?s" using rounded_prefix_len_small [OF s, of K] by simp
    let ?c0 = "c\<lparr>rc_clock := rc_clock c + 1\<rparr>" and ?ns = "take K (sw_nodes w)"
    have tk: "map fst ?ns = take K ns" using wn(1) by (metis take_map)
    have sub: "set ns \<subseteq> set ?js" and nb: "\<forall>i\<in>set ns. n_block_id (rc_nodes c ! i) \<noteq> None"
      using ns stage_cut_subset(1) [of c ?js] by (auto simp: block_nodes_def stage_nodes_def)
    have "distinct ns"
    proof -
      have "strict_mono_on {0..<length ns} (\<lambda>k. pl (ns ! k))"
        using block_nodes_pl [OF t refl, of _ 0 toks] ns s by (auto simp: strict_mono_on_def)
      then show ?thesis by (metis (no_types, lifting) atLeastLessThan_iff distinct_conv_nth nat_neq_iff strict_mono_onD zero_le)
    qed
    then have d: "distinct (map fst ?ns)" unfolding tk by simp
    have "\<forall>i\<in>set (map fst ?ns). i < length (rc_nodes ?c0) \<and> n_block_id (rc_nodes ?c0 ! i) \<noteq> None"
      unfolding tk using walk_in_range [OF t refl, of 0 toks] sub nb by (auto dest!: in_set_takeD)
    from session_hits_visit [OF d this, of h "rc_clock c + 1" "[]" False] obtain adv where
      hits: "session_hits ?ns h (rc_clock c + 1) ?c0 [] False =
        Some (visit_path (rc_clock c + 1) (map fst ?ns) ?c0, map to_lookup_block (hits_of ?c0 (map fst ?ns)), adv)" by auto
    have h2: "hits_of ?c0 (map fst ?ns) = take K (map (hit_at c) ns)"
    proof -
      have "hits_of ?c0 (take K ns) = hits_of c (take K ns)" by (simp add: hits_of_def cong: option.case_cong)
      then show ?thesis unfolding tk ns [symmetric] by (simp add: hits_of_map block_nodes_take take_map)
    qed
    have v: "same_view c (visit_path (rc_clock c + 1) (map fst ?ns) ?c0)"
      by (rule same_view_trans [OF same_view_clock same_view_visit_path])
    let ?c' = "visit_path (rc_clock c + 1) (map fst ?ns) ?c0"
    let ?bl = "map to_lookup_block (take K (map (hit_at c) ns))"
    have "hit_blocks ?bl \<le> K" using hit_blocks_le [of ?bl] by simp
    then have "rounded_prefix_len ?c' (K * ?s) (hit_blocks ?bl) = hit_blocks ?bl * ?s"
      using rounded_prefix_len_small [of ?c'] same_shapeD(3) [OF same_view_shape [OF v]] s by simp
    then show ?thesis using w(1) wn(2) False len hits h2 v s
      by (simp add: lookup_session_prefix_or_stage_def tick_def Let_def)
  qed
qed

subsection \<open>Properties\<close>

lemma hits_of_fst: "map fst (hits_of c js) = walk_blocks c js"
  by (induction js) (auto split: option.split)

lemma stage_cut_no_tombstone:
  "\<forall>j\<in>set js. \<not> is_tombstone (rc_nodes c ! j) \<Longrightarrow> stage_cut c js = (js, None)"
  by (induction js) auto

lemma ex_two_wf: "radix_wf ex_two"
  using ex_two_inv by (simp add: cache_inv_def)

lemma filter_Some_blocks:
  "map (\<lambda>l. (the (lb_block_id l), lb_hit_kind l)) (filter (\<lambda>l. lb_block_id l \<noteq> None) (stage_blocks c js)) =
     hits_of c (stage_nodes c js)"
  by (auto simp: stage_blocks_def to_lookup_block_def miss_block_def filter_map o_def split: option.split)

text \<open>
  Both classifying lookups return on every well-formed cache, and the read-only one reports
  exactly the blocks and hit kinds that the mutating one reports, in the same order; the mutating
  one leaves the map from prefixes to blocks and the invariant alone.
\<close>

theorem peek_agrees_with_stage:
  assumes "radix_wf c"
  shows "\<exists>out c' pk. lookup_or_stage toks h c = Some (out, c') \<and> peek_prefix_classify toks c = Some pk \<and>
     pk_blocks pk = map (\<lambda>l. (the (lb_block_id l), lb_hit_kind l)) (filter (\<lambda>l. lb_block_id l \<noteq> None) (lo_blocks out)) \<and>
     matched_len out \<le> pk_matched_len pk \<and> cached c' = cached c \<and> radix_wf c'"
proof -
  obtain pl where t: "tree_ok c pl" using assms by (auto simp: radix_wf_def)
  note v = same_view_shape [OF same_view_stage_effect [of c toks]]
  have "rounded_prefix_len c a b \<le> a" for a b
    by (simp add: rounded_prefix_len_def Let_def) (meson div_times_less_eq_dividend le_trans min.cobounded2)
  then show ?thesis
    using lookup_or_stage_walk [OF t refl] peek_prefix_classify_walk [OF t refl] filter_Some_blocks
      cached_same_shape [OF v t] radix_wf_same_shape [OF v assms] by simp
qed

theorem peek_agrees_with_stage_witness:
  "\<exists>out c' pk. lookup_or_stage [1, 2, 3, 4] lookup_heuristics_default ex_two = Some (out, c') \<and>
     peek_prefix_classify [1, 2, 3, 4] ex_two = Some pk \<and> matched_len out \<le> pk_matched_len pk \<and> radix_wf c'"
  using peek_agrees_with_stage [OF ex_two_wf, of "[1, 2, 3, 4]" lookup_heuristics_default] by blast

text \<open>
  On a cache without tombstones \<open>lookup_or_stage\<close> finds the same blocks as the abstract
  lookup: those of the successive block-aligned prefixes that are cached. Its matched length is
  the block size times the number of those blocks that are ready or staged.
\<close>

theorem lookup_or_stage_finds_cached_prefixes:
  assumes "radix_wf c" and "list_all (\<lambda>n. \<not> is_tombstone n) (rc_nodes c)"
  shows "\<exists>out c'. lookup_or_stage toks h c = Some (out, c') \<and>
     map lb_block_id (lo_blocks out) = map Some (spec_lookup (rc_block_size c) (cached c) toks) \<and>
     matched_len out = length (filter (\<lambda>l. lb_hit_kind l \<noteq> Miss) (lo_blocks out)) * rc_block_size c"
proof -
  obtain pl where t: "tree_ok c pl" using assms by (auto simp: radix_wf_def)
  let ?js = "walk c 0 toks"
  have "\<forall>j\<in>set ?js. \<not> is_tombstone (rc_nodes c ! j)"
    using walk_in_range [OF t refl, of 0 toks] assms(2) by (auto simp: list_all_length)
  note cut = stage_cut_no_tombstone [OF this]
  have b: "stage_blocks c ?js = map to_lookup_block (hits_of c ?js)" by (simp add: stage_blocks_def stage_nodes_def cut)
  have ids: "map lb_block_id (stage_blocks c ?js) = map Some (walk_blocks c ?js)"
    unfolding b hits_of_fst [symmetric] by (simp add: to_lookup_block_def o_def)
  have "hit_blocks (stage_blocks c ?js) \<le> length (walk_blocks c ?js)"
    using hit_blocks_le [of "stage_blocks c ?js"] ids by (metis length_map)
  moreover have "length (walk_blocks c ?js) * rc_block_size c \<le> walked c ?js"
    using walk_pl(1) [OF t refl, of 0 toks] tree_okD(3) [OF t] by (metis add_0 div_0 div_times_less_eq_dividend)
  ultimately have "hit_blocks (stage_blocks c ?js) * rc_block_size c \<le> stage_walked c ?js"
    by (simp add: stage_walked_def cut) (meson le_trans mult_le_mono1)
  from rounded_prefix_len_small [OF tree_okD(1) [OF t] this] show ?thesis
    using lookup_or_stage_walk [OF t refl, of toks] ids walk_blocks_spec [OF t] by (simp add: hit_blocks_def)
qed

theorem lookup_or_stage_finds_cached_prefixes_witness:
  "\<exists>out c'. lookup_or_stage [1, 2, 3, 4] lookup_heuristics_default ex_two = Some (out, c') \<and> map lb_block_id (lo_blocks out) = [Some 10, Some 11]"
proof -
  have "list_all (\<lambda>n. \<not> is_tombstone n) (rc_nodes ex_two) = True" by code_simp
  then have "list_all (\<lambda>n. \<not> is_tombstone n) (rc_nodes ex_two)" by (rule iffD2 [OF _ TrueI])
  moreover have "map Some (spec_lookup (rc_block_size ex_two) (cached ex_two) [1, 2, 3, 4]) = [Some 10, Some 11]" by code_simp
  ultimately show ?thesis using lookup_or_stage_finds_cached_prefixes [OF ex_two_wf, of "[1, 2, 3, 4]" lookup_heuristics_default] by metis
qed

text \<open>
  The session lookup returns a prefix of the blocks the read-only walk sees. The last
  returned block is tagged with the session, no later block on the walk is, and nothing changes
  when no block of the walk belongs to the session.
\<close>

theorem session_lookup_correct:
  assumes "radix_wf c"
  shows "\<exists>out c' pk K. lookup_session_prefix_or_stage sid toks h c = Some (out, c') \<and>
     peek_prefix_classify toks c = Some pk \<and> K \<le> length (pk_blocks pk) \<and>
     lo_blocks out = map to_lookup_block (take K (pk_blocks pk)) \<and>
     (K \<noteq> 0 \<longrightarrow> block_session c (fst (pk_blocks pk ! (K - 1))) = Some sid) \<and>
     (\<forall>k. K \<le> k \<longrightarrow> k < length (pk_blocks pk) \<longrightarrow> block_session c (fst (pk_blocks pk ! k)) \<noteq> Some sid) \<and>
     cached c' = cached c \<and> radix_wf c' \<and> (K = 0 \<longrightarrow> c' = c)"
proof -
  obtain pl where t: "tree_ok c pl" and ix: "index_ok c" using assms by (auto simp: radix_wf_def)
  let ?js = "walk c 0 toks"
  let ?ns = "block_nodes c (stage_nodes c ?js)"
  let ?K = "session_reach c sid ?ns"
  obtain adv c' where l: "lookup_session_prefix_or_stage sid toks h c =
     Some (\<lparr>matched_len = hit_blocks (map to_lookup_block (take ?K (map (hit_at c) ?ns))) * rc_block_size c,
            lo_blocks = map to_lookup_block (take ?K (map (hit_at c) ?ns)), recompute_advised = adv\<rparr>, c')"
    and v: "same_view c c'" and z: "?K = 0 \<longrightarrow> c' = c" using session_lookup_walk [OF t refl refl] by metis
  have pk: "peek_prefix_classify toks c = Some \<lparr>pk_matched_len = stage_walked c ?js, pk_blocks = map (hit_at c) ?ns\<rparr>"
    using peek_prefix_classify_walk [OF t refl] by (simp add: hits_of_map)
  have "set ?ns \<subseteq> set ?js" using stage_cut_subset(1) [of c ?js] by (auto simp: block_nodes_def stage_nodes_def)
  then have in_range: "j < length (rc_nodes c)" "n_block_id (rc_nodes c ! j) \<noteq> None" if "j \<in> set ?ns" for j
    using that walk_in_range [OF t refl, of 0 toks] by (auto simp: block_nodes_def)
  have sess: "block_session c (fst (map (hit_at c) ?ns ! k)) = n_session_id (rc_nodes c ! (?ns ! k))" if "k < length ?ns" for k
    using that block_session_hit [OF ix in_range] nth_mem [OF that] by simp
  have "?K - 1 < length ?ns" if "?K \<noteq> 0" using that session_reach_le [of c sid ?ns] by linarith
  then have last: "?K \<noteq> 0 \<longrightarrow> block_session c (fst (map (hit_at c) ?ns ! (?K - 1))) = Some sid"
    using sess session_reach_last [of c sid ?ns] by simp
  have after: "\<forall>k. ?K \<le> k \<longrightarrow> k < length (map (hit_at c) ?ns) \<longrightarrow> block_session c (fst (map (hit_at c) ?ns ! k)) \<noteq> Some sid"
    using sess session_reach_after [of c sid ?ns] by simp
  have "lo_blocks \<lparr>matched_len = m, lo_blocks = map to_lookup_block (take ?K (map (hit_at c) ?ns)), recompute_advised = adv\<rparr> =
      map to_lookup_block (take ?K (pk_blocks \<lparr>pk_matched_len = n, pk_blocks = map (hit_at c) ?ns\<rparr>))" for m n by simp
  then show ?thesis
    using l pk z last after session_reach_le [of c sid ?ns] cached_same_shape [OF same_view_shape [OF v] t]
      radix_wf_same_shape [OF same_view_shape [OF v] assms]
    by (metis (no_types, lifting) length_map peek_prefix_outcome.select_convs(2))
qed

theorem session_lookup_correct_witness:
  "\<exists>out c' pk K. lookup_session_prefix_or_stage ''s'' [1, 2, 3, 4] lookup_heuristics_default ex_two = Some (out, c') \<and>
     peek_prefix_classify [1, 2, 3, 4] ex_two = Some pk \<and> K \<le> length (pk_blocks pk) \<and>
     lo_blocks out = map to_lookup_block (take K (pk_blocks pk)) \<and> radix_wf c'"
  using session_lookup_correct [OF ex_two_wf, of "''s''" "[1, 2, 3, 4]" lookup_heuristics_default] by blast

end
