(* ===== verification/Radix_Evict.thy ===== *)
theory Radix_Evict
  imports Radix_Store
begin

text \<open>
  Eviction. Both entry points run the same loop with different ways of picking the next victim;
  a locale states what a picker owes (it returns, it picks an unreferenced active leaf if there
  is one) and carries the proofs about the loop, the detaching of victims and the garbage
  collection of blockless nodes. The LRU scan and the policy scan are its instances.
\<close>

subsection \<open>Children and ranks\<close>

definition kid :: "radix_cache \<Rightarrow> nat \<Rightarrow> nat \<Rightarrow> bool" where
  "kid c i j \<longleftrightarrow> i < length (rc_nodes c) \<and> j \<in> snd ` set (n_children (rc_nodes c ! i))"

definition ranked :: "radix_cache \<Rightarrow> (nat \<Rightarrow> nat) \<Rightarrow> bool" where
  "ranked c pl \<longleftrightarrow> (\<forall>i j. kid c i j \<longrightarrow> j < length (rc_nodes c) \<and> pl i < pl j)"

lemma kid_iff_edge:
  assumes "tree_ok c pl"
  shows "kid c i j \<longleftrightarrow> (\<exists>t. edge c i t j)"
proof -
  have "edge c i t j \<longleftrightarrow> i < length (rc_nodes c) \<and> (t, j) \<in> set (n_children (rc_nodes c ! i))" for t
    using map_of_mem [OF tree_okD(7) [OF assms]] by (auto simp: edge_def)
  then show ?thesis by (force simp: kid_def)
qed

lemma tree_ok_ranked: "tree_ok c pl \<Longrightarrow> ranked c pl"
  using edge_okD(1,8) [OF tree_okD(4)] by (fastforce simp: ranked_def kid_iff_edge)

text \<open>A slot is exposed when an unselected block lies at or below it, reached past unselected slots.\<close>

inductive exposed :: "radix_cache \<Rightarrow> tier option \<Rightarrow> nat set \<Rightarrow> nat \<Rightarrow> bool" for c tf sel where
  hit: "i \<notin> sel \<Longrightarrow> node_matches_tier_filter c i tf \<Longrightarrow> exposed c tf sel i"
| down: "i \<notin> sel \<Longrightarrow> kid c i j \<Longrightarrow> exposed c tf sel j \<Longrightarrow> exposed c tf sel i"

inductive_simps exposed_simps: "exposed c tf sel i"

lemma subtree_exposed:
  assumes r: "ranked c pl" and "i < length (rc_nodes c)" and "card {k. k < length (rc_nodes c) \<and> pl i \<le> pl k} < fuel"
  shows "subtree_has_unselected_block_in_tier fuel c tf sel i = Some (exposed c tf sel i)"
  using assms(2,3)
proof (induction fuel arbitrary: i)
  case (Suc fuel)
  have kids: "subtree_has_unselected_block_in_tier fuel c tf sel j = Some (exposed c tf sel j)" if "kid c i j" for j
  proof (rule Suc.IH)
    have j: "j < length (rc_nodes c)" "pl i < pl j" using r that by (auto simp: ranked_def)
    have "i \<in> {k. k < length (rc_nodes c) \<and> pl i \<le> pl k}" "i \<notin> {k. k < length (rc_nodes c) \<and> pl j \<le> pl k}"
      using Suc.prems(1) j(2) by simp_all
    moreover have "{k. k < length (rc_nodes c) \<and> pl j \<le> pl k} \<subseteq> {k. k < length (rc_nodes c) \<and> pl i \<le> pl k}"
      using j(2) by auto
    ultimately have "{k. k < length (rc_nodes c) \<and> pl j \<le> pl k} \<subset> {k. k < length (rc_nodes c) \<and> pl i \<le> pl k}" by blast
    then have "card {k. k < length (rc_nodes c) \<and> pl j \<le> pl k} < card {k. k < length (rc_nodes c) \<and> pl i \<le> pl k}"
      by (intro psubset_card_mono) auto
    then show "card {k. k < length (rc_nodes c) \<and> pl j \<le> pl k} < fuel" using Suc.prems(2) by simp
    show "j < length (rc_nodes c)" by (rule j(1))
  qed
  have "any_opt (subtree_has_unselected_block_in_tier fuel c tf sel) (map snd (n_children (rc_nodes c ! i))) =
      Some (\<exists>j\<in>set (map snd (n_children (rc_nodes c ! i))). exposed c tf sel j)"
    by (rule any_opt_total, rule kids) (use Suc.prems(1) in \<open>auto simp: kid_def\<close>)
  moreover have "(\<exists>j\<in>set (map snd (n_children (rc_nodes c ! i))). exposed c tf sel j) \<longleftrightarrow> (\<exists>j. kid c i j \<and> exposed c tf sel j)"
    using Suc.prems(1) by (auto simp: kid_def)
  moreover have "exposed c tf sel i \<longleftrightarrow> i \<notin> sel \<and> (node_matches_tier_filter c i tf \<or> (\<exists>j. kid c i j \<and> exposed c tf sel j))"
    using exposed_simps [of c tf sel i] by blast
  ultimately show ?case using Suc.prems(1) by simp
qed simp

lemma active_leaf_exposed:
  assumes r: "ranked c pl" and i: "i < length (rc_nodes c)"
  shows "node_is_active_leaf_for_tier c tf sel i = Some (\<forall>j. kid c i j \<longrightarrow> \<not> exposed c tf sel j)"
proof -
  have "subtree_has_unselected_block_in_tier (Suc (length (rc_nodes c))) c tf sel j = Some (exposed c tf sel j)"
    if "kid c i j" for j
  proof (rule subtree_exposed [OF r])
    show "j < length (rc_nodes c)" using r that by (auto simp: ranked_def)
    have "card {k. k < length (rc_nodes c) \<and> pl j \<le> pl k} \<le> card {..<length (rc_nodes c)}" by (rule card_mono) auto
    then show "card {k. k < length (rc_nodes c) \<and> pl j \<le> pl k} < Suc (length (rc_nodes c))" by simp
  qed
  then have "all_opt (\<lambda>j. map_option Not (subtree_has_unselected_block_in_tier (Suc (length (rc_nodes c))) c tf sel j))
      (map snd (n_children (rc_nodes c ! i))) = Some (\<forall>j\<in>set (map snd (n_children (rc_nodes c ! i))). \<not> exposed c tf sel j)"
    by (intro all_opt_total) (use i in \<open>auto simp: kid_def simp del: subtree_has_unselected_block_in_tier.simps\<close>)
  then show ?thesis using i
    by (simp add: node_is_active_leaf_for_tier_def kid_def del: subtree_has_unselected_block_in_tier.simps) blast
qed

subsection \<open>Scanning for the best candidate\<close>

lemma scan_best_ok:
  assumes "\<And>k. k < length ns \<Longrightarrow> cand (i + k) (ns ! k) = Some (g (i + k))"
    and keep: "\<And>a b. keep a b \<or> keep b a" "\<And>a b d. keep a b \<Longrightarrow> keep b d \<Longrightarrow> keep a d"
  shows "\<exists>r. scan_best cand keep i ns best = Some r \<and>
     (r = None \<longleftrightarrow> best = None \<and> (\<forall>k<length ns. g (i + k) = None)) \<and>
     (\<forall>x. r = Some x \<longrightarrow> (best = Some x \<or> (\<exists>k<length ns. snd x = i + k \<and> g (i + k) = Some (fst x))) \<and>
        (\<forall>b. best = Some b \<longrightarrow> keep x b) \<and> (\<forall>k<length ns. \<forall>y. g (i + k) = Some y \<longrightarrow> keep x (y, i + k)))"
  using assms(1)
proof (induction ns arbitrary: i best)
  case Nil
  then show ?case using keep(1) by auto
next
  case (Cons n ns)
  let ?b = "case g i of None \<Rightarrow> best | Some k \<Rightarrow> (case best of None \<Rightarrow> Some (k, i) | Some b \<Rightarrow> if keep b (k, i) then best else Some (k, i))"
  have "\<And>k. k < length ns \<Longrightarrow> cand ((i + 1) + k) (ns ! k) = Some (g ((i + 1) + k))" using Cons.prems [of "Suc _"] by simp
  from Cons.IH [OF this, of ?b] obtain r where
    r: "scan_best cand keep (i + 1) ns ?b = Some r"
    "r = None \<longleftrightarrow> ?b = None \<and> (\<forall>k<length ns. g ((i + 1) + k) = None)"
    "\<And>x. r = Some x \<Longrightarrow> (?b = Some x \<or> (\<exists>k<length ns. snd x = (i + 1) + k \<and> g ((i + 1) + k) = Some (fst x))) \<and>
        (\<forall>b. ?b = Some b \<longrightarrow> keep x b) \<and> (\<forall>k<length ns. \<forall>y. g ((i + 1) + k) = Some y \<longrightarrow> keep x (y, (i + 1) + k))" by blast
  have all: "(\<forall>k<length (n # ns). P (i + k)) \<longleftrightarrow> P i \<and> (\<forall>k<length ns. P ((i + 1) + k))" for P
    using All_less_Suc2 [of "length ns" "\<lambda>k. P (i + k)"] by simp
  have ex: "(\<exists>k<length (n # ns). P (i + k)) \<longleftrightarrow> P i \<or> (\<exists>k<length ns. P ((i + 1) + k))" for P
    using all [of "\<lambda>k. \<not> P k"] by blast
  have bs: "?b = None \<longleftrightarrow> best = None \<and> g i = None" by (auto split: option.split)
  have bx: "?b = Some x \<Longrightarrow> best = Some x \<or> (snd x = i \<and> g i = Some (fst x))" for x
    by (auto split: option.splits if_splits)
  have bk: "\<exists>b. ?b = Some b \<and> (\<forall>b'. best = Some b' \<longrightarrow> keep b b') \<and> (\<forall>y. g i = Some y \<longrightarrow> keep b (y, i))"
    if "?b \<noteq> None"
  proof -
    have kr: "keep a a" for a using keep(1) [of a a] by blast
    show ?thesis
    proof (cases "g i")
      case None
      then show ?thesis using that kr by auto
    next
      case (Some k)
      show ?thesis
      proof (cases best)
        case None
        then show ?thesis using Some kr by simp
      next
        case (Some b)
        then show ?thesis using \<open>g i = Some k\<close> kr keep(1) [of b "(k, i)"] by (cases "keep b (k, i)") simp_all
      qed
    qed
  qed
  have "scan_best cand keep i (n # ns) best = Some r" using Cons.prems [of 0] r(1) by simp
  moreover have "r = None \<longleftrightarrow> best = None \<and> (\<forall>k<length (n # ns). g (i + k) = None)"
    unfolding all [of "\<lambda>k. g k = None"] r(2) bs by simp
  moreover have "(best = Some x \<or> (\<exists>k<length (n # ns). snd x = i + k \<and> g (i + k) = Some (fst x))) \<and>
        (\<forall>b. best = Some b \<longrightarrow> keep x b) \<and> (\<forall>k<length (n # ns). \<forall>y. g (i + k) = Some y \<longrightarrow> keep x (y, i + k))"
    if x: "r = Some x" for x
  proof (intro conjI)
    show "best = Some x \<or> (\<exists>k<length (n # ns). snd x = i + k \<and> g (i + k) = Some (fst x))"
      unfolding ex [of "\<lambda>k. snd x = k \<and> g k = Some (fst x)"] using r(3) [OF x] bx [of x] by argo
    have *: "(\<forall>b. best = Some b \<longrightarrow> keep x b) \<and> (\<forall>y. g i = Some y \<longrightarrow> keep x (y, i))"
    proof (cases "?b = None")
      case True
      then show ?thesis using bs by simp
    next
      case False
      then show ?thesis using bk r(3) [OF x] keep(2) by blast
    qed
    then show "\<forall>b. best = Some b \<longrightarrow> keep x b" by blast
    show "\<forall>k<length (n # ns). \<forall>y. g (i + k) = Some y \<longrightarrow> keep x (y, i + k)"
      unfolding all [of "\<lambda>k. \<forall>y. g k = Some y \<longrightarrow> keep x (y, k)"] using * r(3) [OF x] by argo
  qed
  ultimately show ?case by blast
qed

subsection \<open>The state during the loop\<close>

definition block_at :: "radix_cache \<Rightarrow> nat \<Rightarrow> block_id option" where
  "block_at c i = (if i < length (rc_nodes c) then n_block_id (rc_nodes c ! i) else None)"

definition cleared :: "radix_cache \<Rightarrow> nat set \<Rightarrow> radix_cache" where
  "cleared c ev = c\<lparr>rc_nodes := map (\<lambda>i. if i \<in> ev then (rc_nodes c ! i)\<lparr>n_block_id := None\<rparr> else rc_nodes c ! i) [0..<length (rc_nodes c)],
     rc_block_index := (\<lambda>b. if \<exists>i\<in>ev. block_at c i = Some b then None else rc_block_index c b)\<rparr>"

lemma cleared_empty [simp]: "cleared c {} = c"
  by (simp add: cleared_def map_nth)

lemma cleared_simps [simp]:
  "length (rc_nodes (cleared c ev)) = length (rc_nodes c)" "rc_free_nodes (cleared c ev) = rc_free_nodes c"
  "rc_block_size (cleared c ev) = rc_block_size c" "rc_clock (cleared c ev) = rc_clock c"
  "i < length (rc_nodes c) \<Longrightarrow> rc_nodes (cleared c ev) ! i =
     (if i \<in> ev then (rc_nodes c ! i)\<lparr>n_block_id := None\<rparr> else rc_nodes c ! i)"
  by (simp_all add: cleared_def)

lemma kid_cleared [simp]: "kid (cleared c ev) i j \<longleftrightarrow> kid c i j"
  by (cases "i < length (rc_nodes c)"; cases "i \<in> ev") (simp_all add: kid_def)

lemma ranked_cleared [simp]: "ranked (cleared c ev) pl \<longleftrightarrow> ranked c pl"
  by (simp add: ranked_def)

lemma kids_cleared [simp]: "(kid (cleared c ev))\<^sup>*\<^sup>* = (kid c)\<^sup>*\<^sup>*"
  by (rule arg_cong [of _ _ rtranclp]) (simp add: fun_eq_iff)

lemma matches_cleared:
  "node_matches_tier_filter (cleared c ev) i tf \<longleftrightarrow> i \<notin> ev \<and> node_matches_tier_filter c i tf"
  by (auto simp: node_matches_tier_filter_def get_at_def)

lemma cleared_step:
  assumes v: "v < length (rc_nodes c)" "v \<notin> ev" and b: "n_block_id (rc_nodes c ! v) = Some b"
  shows "(cleared c ev)\<lparr>rc_nodes := (rc_nodes (cleared c ev))[v := (rc_nodes (cleared c ev) ! v)\<lparr>n_block_id := None\<rparr>],
     rc_block_index := (rc_block_index (cleared c ev))(b := None)\<rparr> = cleared c (insert v ev)"
proof -
  have ns: "(rc_nodes (cleared c ev))[v := (rc_nodes (cleared c ev) ! v)\<lparr>n_block_id := None\<rparr>] = rc_nodes (cleared c (insert v ev))"
    by (rule nth_equalityI) (auto simp: nth_list_update v)
  have ix: "(rc_block_index (cleared c ev))(b := None) = rc_block_index (cleared c (insert v ev))"
    using v b by (intro ext) (auto simp: cleared_def block_at_def)
  show ?thesis unfolding ns ix by (simp add: cleared_def)
qed

text \<open>No block in the filtered tier lies at or below a selected slot.\<close>

definition below_clear :: "radix_cache \<Rightarrow> tier option \<Rightarrow> nat set \<Rightarrow> bool" where
  "below_clear c tf ev \<longleftrightarrow> (\<forall>a\<in>ev. \<forall>x. (kid c)\<^sup>*\<^sup>* a x \<longrightarrow> node_matches_tier_filter c x tf \<longrightarrow> x \<in> ev)"

lemma exposedI:
  assumes "(kid c)\<^sup>*\<^sup>* j x" and x: "node_matches_tier_filter c x tf" "x \<notin> ev" and bc: "below_clear c tf ev"
  shows "exposed (cleared c ev) tf ev j"
  using assms(1)
proof (induction rule: converse_rtranclp_induct)
  case base
  then show ?case using x by (auto intro: exposed.hit simp: matches_cleared)
next
  case (step j k)
  have "j \<notin> ev" using step.hyps bc x by (meson below_clear_def converse_rtranclp_into_rtranclp)
  then show ?case using step by (auto intro: exposed.down)
qed

lemma exposedD: "exposed c tf ev j \<Longrightarrow> \<exists>x. (kid c)\<^sup>*\<^sup>* j x \<and> x \<notin> ev \<and> node_matches_tier_filter c x tf"
  by (induction rule: exposed.induct) (auto intro: converse_rtranclp_into_rtranclp)

lemma below_clear_insert:
  assumes bc: "below_clear c tf ev" and leaf: "\<And>j. kid c v j \<Longrightarrow> \<not> exposed (cleared c ev) tf ev j"
  shows "below_clear c tf (insert v ev)"
  unfolding below_clear_def
proof (intro ballI allI impI)
  fix a x assume a: "a \<in> insert v ev" and r: "(kid c)\<^sup>*\<^sup>* a x" and m: "node_matches_tier_filter c x tf"
  show "x \<in> insert v ev"
  proof (cases "a \<in> ev")
    case True
    then show ?thesis using bc r m by (auto simp: below_clear_def)
  next
    case False
    then have "a = v" using a by simp
    show ?thesis
    proof (rule ccontr)
      assume n: "x \<notin> insert v ev"
      then obtain j where "kid c v j" "(kid c)\<^sup>*\<^sup>* j x" using r \<open>a = v\<close> by (metis converse_rtranclpE insertI1)
      then show False using exposedI [OF _ m _ bc] leaf n by blast
    qed
  qed
qed

subsection \<open>What a victim picker owes\<close>

locale victim_picker =
  fixes pick :: "radix_cache \<Rightarrow> nat set \<Rightarrow> nat option option"
    and tf :: "tier option"
    and cand :: "radix_cache \<Rightarrow> nat set \<Rightarrow> nat \<Rightarrow> bool"
  assumes pick_total: "ranked c pl \<Longrightarrow> pick c ev \<noteq> None"
    and pick_Some: "ranked c pl \<Longrightarrow> pick c ev = Some (Some v) \<Longrightarrow> cand c ev v"
    and pick_None: "ranked c pl \<Longrightarrow> pick c ev = Some None \<Longrightarrow> \<not> cand c ev v"
    and cand_slot: "cand c ev v \<Longrightarrow> 0 < v \<and> v < length (rc_nodes c) \<and> v \<notin> ev"
    and cand_block: "cand c ev v \<Longrightarrow> n_block_id (rc_nodes c ! v) \<noteq> None \<and> n_ref_count (rc_nodes c ! v) = 0"
    and cand_leaf: "cand c ev v \<Longrightarrow> kid c v j \<Longrightarrow> \<not> exposed c tf ev j"
begin

definition sel_ok :: "nat \<Rightarrow> radix_cache \<Rightarrow> nat set \<Rightarrow> block_id list \<Rightarrow> bool" where
  "sel_ok n c ev freed \<longleftrightarrow> ev \<subseteq> {1..<length (rc_nodes c)} \<and> below_clear c tf ev \<and> length freed \<le> n \<and>
     length freed = card ev \<and> set freed = {b. \<exists>i\<in>ev. block_at c i = Some b} \<and>
     (\<forall>i\<in>ev. n_block_id (rc_nodes c ! i) \<noteq> None \<and> (\<exists>ev'. cand (cleared c ev') ev' i))"

lemma sel_ok_step:
  assumes sel: "sel_ok n c ev freed" and cd: "cand (cleared c ev) ev v" and lt: "length freed < n"
  shows "\<exists>b. n_block_id (rc_nodes c ! v) = Some b \<and> sel_ok n c (insert v ev) (freed @ [b])"
proof -
  have v: "0 < v" "v < length (rc_nodes c)" "v \<notin> ev" using cand_slot [OF cd] by auto
  then obtain b where b: "n_block_id (rc_nodes c ! v) = Some b" using cand_block [OF cd] by auto
  have fin: "finite ev" using sel by (auto simp: sel_ok_def intro: finite_subset)
  have "below_clear c tf (insert v ev)"
    by (rule below_clear_insert) (use sel cand_leaf [OF cd] in \<open>auto simp: sel_ok_def\<close>)
  then show ?thesis using sel v b fin lt cd by (auto simp: sel_ok_def block_at_def)
qed

lemma evict_loop_ok:
  assumes r: "ranked c pl" and "sel_ok n c ev freed"
  shows "\<exists>ev' freed'. evict_loop pick n (cleared c ev) ev freed = Some (cleared c ev', ev', freed') \<and> sel_ok n c ev' freed' \<and>
     (length freed' < n \<longrightarrow> (\<forall>v. \<not> cand (cleared c ev') ev' v))"
  using assms(2)
proof (induction "n - length freed" arbitrary: ev freed rule: less_induct)
  case less
  note unf = evict_loop.simps [of pick n "cleared c ev" ev freed]
  have r': "ranked (cleared c ev) pl" using r by simp
  show ?case
  proof (cases "length freed < n")
    case False
    then show ?thesis using less.prems by (subst unf) auto
  next
    case lt: True
    obtain best where best: "pick (cleared c ev) ev = Some best" using pick_total [OF r', of ev] by blast
    show ?thesis
    proof (cases best)
      case None
      then show ?thesis using less.prems lt best pick_None [OF r', of ev] by (subst unf) auto
    next
      case (Some v)
      then have cd: "cand (cleared c ev) ev v" using pick_Some [OF r'] best by simp
      obtain b where b: "n_block_id (rc_nodes c ! v) = Some b" "sel_ok n c (insert v ev) (freed @ [b])"
        using sel_ok_step [OF less.prems cd lt] by blast
      have v: "v < length (rc_nodes c)" "v \<notin> ev" using cand_slot [OF cd] by auto
      have "evict_loop pick n (cleared c ev) ev freed = evict_loop pick n (cleared c (insert v ev)) (insert v ev) (freed @ [b])"
        using lt best Some v b(1) cleared_step [OF v b(1)] by (subst unf) simp
      then show ?thesis using less.hyps [OF _ b(2)] lt by simp
    qed
  qed
qed

end

subsection \<open>Garbage collection\<close>

definition gc_closed :: "node list \<Rightarrow> nat set \<Rightarrow> bool" where
  "gc_closed ns r \<longleftrightarrow> r \<subseteq> {1..<length ns} \<and>
     (\<forall>i\<in>r. n_block_id (ns ! i) = None \<and> n_ref_count (ns ! i) = 0 \<and> snd ` set (n_children (ns ! i)) \<subseteq> r)"

lemma gc_pass_progress: "snd (gc_pass ns is r True)"
  by (induction "is" arbitrary: r) auto

lemma gc_pass_ok:
  assumes "set is \<subseteq> {1..<length ns}" and "gc_closed ns r"
  shows "\<exists>r' p'. gc_pass ns is r p = (r', p') \<and> gc_closed ns r' \<and> r \<subseteq> r' \<and> (p' \<longrightarrow> p \<or> r \<subset> r') \<and> (\<not> p' \<longrightarrow> r' = r)"
  using assms
proof (induction "is" arbitrary: r p)
  case (Cons i "is")
  show ?case
  proof (cases "i \<in> r \<or> n_block_id (ns ! i) \<noteq> None \<or> n_ref_count (ns ! i) \<noteq> 0 \<or>
      \<not> list_all (\<lambda>e. snd e \<in> r) (n_children (ns ! i))")
    case True
    then have "gc_pass ns (i # is) r p = gc_pass ns is r p" by auto
    then show ?thesis using Cons.IH [of r p] Cons.prems by simp
  next
    case False
    then have "gc_pass ns (i # is) r p = gc_pass ns is (insert i r) True" by auto
    moreover have "gc_closed ns (insert i r)" using False Cons.prems by (auto simp: gc_closed_def list_all_iff)
    moreover from this obtain r' p' where r': "gc_pass ns is (insert i r) True = (r', p')" "gc_closed ns r'" "insert i r \<subseteq> r'"
      using Cons.IH [of "insert i r" True] Cons.prems(1) by auto
    moreover have "p'" using gc_pass_progress [of ns "is" "insert i r"] r'(1) by simp
    moreover have "i \<notin> r" using False by simp
    ultimately show ?thesis by (metis insert_subset psubsetI)
  qed
qed simp

lemma gc_loop_ok:
  assumes "gc_closed ns r"
  shows "\<exists>r'. gc_loop ns r = Some r' \<and> gc_closed ns r'"
  using assms
proof (induction "card ({1..<length ns} - r)" arbitrary: r rule: less_induct)
  case less
  obtain r' p where r': "gc_pass ns [1..<length ns] r False = (r', p)" "gc_closed ns r'" "r \<subseteq> r'" "p \<longrightarrow> r \<subset> r'"
    using gc_pass_ok [of "[1..<length ns]" ns r False] less.prems by auto
  show ?case
  proof (cases p)
    case False
    then show ?thesis using r' by (subst gc_loop.simps) simp
  next
    case True
    then have "{1..<length ns} - r' \<subset> {1..<length ns} - r" using r' by (auto simp: gc_closed_def)
    then have "card ({1..<length ns} - r') < card ({1..<length ns} - r)" by (intro psubset_card_mono) auto
    then show ?thesis using less.hyps [OF _ r'(2)] r'(1) True by (subst gc_loop.simps) simp
  qed
qed

lemma gc_closed_empty: "gc_closed ns {}"
  by (simp add: gc_closed_def)

subsection \<open>After eviction\<close>

text \<open>The cache after the victims \<open>ev\<close> are detached and the slots \<open>r\<close> are reclaimed.\<close>

definition evicted :: "radix_cache \<Rightarrow> nat set \<Rightarrow> nat set \<Rightarrow> radix_cache" where
  "evicted c ev r = (cleared c ev)\<lparr>
     rc_nodes := map (\<lambda>i. let n = drop_children r (drop_children ev (rc_nodes (cleared c ev) ! i))
                          in if i \<in> r then reset_node n else n) [0..<length (rc_nodes c)],
     rc_free_nodes := rc_free_nodes c @ filter (\<lambda>i. i \<in> r) [0..<length (rc_nodes c)]\<rparr>"

lemma finish_evict_ok:
  assumes "ev \<subseteq> {1..<length (rc_nodes c)}"
  shows "\<exists>r. finish_evict (cleared c ev) ev = Some (evicted c ev r) \<and> gc_closed (map (drop_children ev) (rc_nodes (cleared c ev))) r"
proof -
  let ?c1 = "cleared c ev"
  let ?ns = "map (drop_children ev) (rc_nodes ?c1)"
  obtain r where r: "gc_loop ?ns {} = Some r" "gc_closed ?ns r" using gc_loop_ok [OF gc_closed_empty] by blast
  have "finish_evict ?c1 ev = Some (evicted c ev r)"
  proof (cases "r = {}")
    case True
    have "drop_children {} n = n" for n by (simp add: drop_children_def)
    moreover have "?ns = map (\<lambda>i. drop_children ev (rc_nodes ?c1 ! i)) [0..<length (rc_nodes c)]"
      by (rule nth_equalityI) simp_all
    ultimately have e: "evicted c ev {} = ?c1\<lparr>rc_nodes := ?ns\<rparr>"
      by (simp add: evicted_def Let_def)
    show ?thesis using True r(1) by (simp add: finish_evict_def gc_orphan_tombstones_def e)
  next
    case False
    then show ?thesis using r(1)
      by (auto simp: finish_evict_def gc_orphan_tombstones_def evicted_def Let_def cong: map_cong if_cong)
  qed
  then show ?thesis using r(2) by blast
qed

lemma evicted_nth:
  assumes "i < length (rc_nodes c)"
  shows "n_tokens (rc_nodes (evicted c ev r) ! i) = (if i \<in> r then [] else n_tokens (rc_nodes c ! i))"
    and "n_block_id (rc_nodes (evicted c ev r) ! i) = (if i \<in> ev \<union> r then None else n_block_id (rc_nodes c ! i))"
    and "n_ref_count (rc_nodes (evicted c ev r) ! i) = (if i \<in> r then 0 else n_ref_count (rc_nodes c ! i))"
    and "n_children (rc_nodes (evicted c ev r) ! i) =
       (if i \<in> r then [] else filter (\<lambda>e. snd e \<notin> ev \<union> r) (n_children (rc_nodes c ! i)))"
  using assms by (simp_all add: evicted_def Let_def drop_children_def reset_node_def conj_commute)

lemma evicted_simps [simp]:
  "length (rc_nodes (evicted c ev r)) = length (rc_nodes c)" "rc_block_size (evicted c ev r) = rc_block_size c"
  "rc_block_index (evicted c ev r) = rc_block_index (cleared c ev)"
  "rc_free_nodes (evicted c ev r) = rc_free_nodes c @ filter (\<lambda>i. i \<in> r) [0..<length (rc_nodes c)]"
  by (simp_all add: evicted_def)

lemma gc_closed_cleared:
  assumes "gc_closed (map (drop_children ev) (rc_nodes (cleared c ev))) r" and "i \<in> r"
  shows "0 < i" and "i < length (rc_nodes c)" and "i \<in> ev \<or> n_block_id (rc_nodes c ! i) = None"
    and "kid c i j \<Longrightarrow> j \<in> ev \<union> r" and "n_ref_count (rc_nodes c ! i) = 0"
proof -
  note g = assms(1) [unfolded gc_closed_def]
  show i: "0 < i" "i < length (rc_nodes c)" using g assms(2) by auto
  have n: "n_block_id (map (drop_children ev) (rc_nodes (cleared c ev)) ! i) = None"
    "n_ref_count (map (drop_children ev) (rc_nodes (cleared c ev)) ! i) = 0"
    "snd ` set (n_children (map (drop_children ev) (rc_nodes (cleared c ev)) ! i)) \<subseteq> r" using g assms(2) by auto
  show "i \<in> ev \<or> n_block_id (rc_nodes c ! i) = None" using n(1) i(2) by (auto simp: drop_children_def split: if_splits)
  show "n_ref_count (rc_nodes c ! i) = 0" using n(2) i(2) by (auto simp: drop_children_def split: if_splits)
  have "snd ` {e \<in> set (n_children (rc_nodes c ! i)). snd e \<notin> ev} \<subseteq> r" using n(3) i(2) by (auto simp: drop_children_def split: if_splits)
  then show "kid c i j \<Longrightarrow> j \<in> ev \<union> r" by (auto simp: kid_def)
qed

lemma evicted_edge:
  assumes t: "tree_ok c pl" and g: "gc_closed (map (drop_children ev) (rc_nodes (cleared c ev))) r"
  shows "edge (evicted c ev r) i x j \<longleftrightarrow> edge c i x j \<and> j \<notin> ev \<union> r"
proof (cases "i < length (rc_nodes c)")
  case True
  have d: "distinct (map fst (n_children (rc_nodes c ! i)))" using tree_okD(7) [OF t True] .
  have "map_of (filter (\<lambda>e. snd e \<notin> ev \<union> r) (n_children (rc_nodes c ! i))) x = Some j \<longleftrightarrow>
      map_of (n_children (rc_nodes c ! i)) x = Some j \<and> j \<notin> ev \<union> r"
    unfolding map_of_filter_snd [OF d, of "\<lambda>v. v \<notin> ev \<union> r"] by (auto split: option.splits if_splits)
  moreover have "j \<in> ev \<union> r" if "i \<in> r" "edge c i x j"
    using gc_closed_cleared(4) [OF g that(1)] kid_iff_edge [OF t] that(2) by blast
  ultimately show ?thesis using True evicted_nth(4) [OF True, of ev r] by (auto simp: edge_def)
qed (simp add: edge_def)

lemma evicted_wf:
  assumes wf: "radix_wf c" and g: "gc_closed (map (drop_children ev) (rc_nodes (cleared c ev))) r"
    and ev: "ev \<subseteq> {1..<length (rc_nodes c)}"
  shows "radix_wf (evicted c ev r)" and "tree_ok c pl \<Longrightarrow> tree_ok (evicted c ev r) pl"
proof -
  let ?c = "evicted c ev r"
  have ix: "index_ok c" and fo: "free_ok c" using wf by (auto simp: radix_wf_def)
  note gc = gc_closed_cleared [OF g]
  have zero: "0 \<notin> ev \<union> r" using ev gc(1) [of 0] by auto
  show tr: "tree_ok ?c pl" if t: "tree_ok c pl" for pl
  proof -
    note ed = evicted_edge [OF t g]
    show ?thesis
    proof (rule tree_okI, goal_cases)
      case (6 i)
      then show ?case using tree_okD(7) [OF t, of i] evicted_nth(4) [of i c ev r] by (auto split: if_splits)
    next
      case (7 i x j)
      then have e: "edge c i x j" "j \<notin> ev \<union> r" unfolding ed by auto
      note ok = edge_okD [OF tree_okD(4) [OF t e(1)]]
      show ?case using ok e(2) evicted_nth(1,2) [OF ok(1), of ev r] by (simp add: edge_ok_def)
    next
      case (8 i x j i' x')
      then show ?case using tree_okD(5) [OF t] unfolding ed by blast
    next
      case (9 i)
      then show ?case using tree_okD(6) [OF t, of i] evicted_nth(2) [of i c ev r] by (auto split: if_splits)
    qed (use tree_okD(1,2,3,8,9) [OF t] zero evicted_nth(1,2) [of 0 c ev r] in auto)
  qed
  obtain pl where t: "tree_ok c pl" using wf by (auto simp: radix_wf_def)
  note ed = evicted_edge [OF t g]
  have "free_ok ?c"
    unfolding free_ok_def
  proof
    fix i assume "i \<in> set (rc_free_nodes ?c)"
    then consider "i \<in> set (rc_free_nodes c)" | "i \<in> r" "i < length (rc_nodes c)" by auto
    then show "0 < i \<and> i < length (rc_nodes ?c) \<and> n_children (rc_nodes ?c ! i) = [] \<and> n_block_id (rc_nodes ?c ! i) = None \<and>
        (\<forall>k t. \<not> edge ?c k t i)"
    proof cases
      case 1
      note f = free_okD [OF fo 1]
      show ?thesis using f evicted_nth(2,4) [OF f(2), of ev r] by (simp add: ed)
    next
      case 2
      then show ?thesis using gc(1) [OF 2(1)] evicted_nth(2,4) [OF 2(2), of ev r] by (simp add: ed)
    qed
  qed
  moreover have "index_ok ?c"
    unfolding index_ok_def
  proof (intro allI)
    fix b i
    have same: "i = j" if "j \<in> ev" "block_at c j = Some b" "rc_block_index c b = Some i" for j
      using that index_okD [OF ix, of b j] by (auto simp: block_at_def split: if_splits)
    have "rc_block_index ?c b = Some i \<longleftrightarrow> rc_block_index c b = Some i \<and> i \<notin> ev"
      using same index_okD [OF ix, of b i] by (auto simp: cleared_def block_at_def)
    also have "\<dots> \<longleftrightarrow> i < length (rc_nodes c) \<and> n_block_id (rc_nodes c ! i) = Some b \<and> i \<notin> ev \<union> r"
      using index_okD [OF ix, of b i] gc(3) [of i] by auto
    finally show "rc_block_index ?c b = Some i \<longleftrightarrow> i < length (rc_nodes ?c) \<and> n_block_id (rc_nodes ?c ! i) = Some b"
      using evicted_nth(2) [of i c ev r] by (cases "i \<in> ev \<union> r"; cases "i < length (rc_nodes c)") simp_all
  qed
  ultimately show "radix_wf ?c" using tr [OF t] by (auto simp: radix_wf_def)
qed

text \<open>Below a slot that left the tree there is no block of the filtered tier any more.\<close>

lemma removed_below:
  assumes bc: "below_clear c tf ev" and g: "gc_closed (map (drop_children ev) (rc_nodes (cleared c ev))) r"
    and "(kid c)\<^sup>*\<^sup>* a x" and "a \<in> ev \<union> r" and m: "node_matches_tier_filter c x tf"
  shows "x \<in> ev"
  using assms(3,4)
proof (induction rule: converse_rtranclp_induct)
  case base
  then show ?case using gc_closed_cleared(2,3) [OF g, of x] m by (auto simp: node_matches_tier_filter_def)
next
  case (step y z)
  show ?case
  proof (cases "y \<in> ev")
    case True
    then show ?thesis using bc m step.hyps by (meson below_clear_def converse_rtranclp_into_rtranclp)
  next
    case False
    then show ?thesis using step gc_closed_cleared(4) [OF g] by blast
  qed
qed

lemma at_path_kids: "(kid c)\<^sup>*\<^sup>* i x \<Longrightarrow> at_path c p i \<Longrightarrow> tree_ok c pl \<Longrightarrow> \<exists>r. at_path c (p @ r) x"
proof (induction arbitrary: p rule: converse_rtranclp_induct)
  case base
  then show ?case by (metis append_Nil2)
next
  case (step y z)
  then obtain t where "edge c y t z" using kid_iff_edge by blast
  then show ?case using step.IH [OF at_path.step [OF step.prems(1)] step.prems(2)] by fastforce
qed

lemma evicted_path:
  assumes t: "tree_ok c pl" and g: "gc_closed (map (drop_children ev) (rc_nodes (cleared c ev))) r"
    and bc: "below_clear c tf ev" and ev: "ev \<subseteq> {1..<length (rc_nodes c)}"
  shows "at_path (evicted c ev r) p i \<Longrightarrow> at_path c p i \<and> i \<notin> ev \<union> r"
    and "at_path c p i \<Longrightarrow> (kid c)\<^sup>*\<^sup>* i x \<Longrightarrow> node_matches_tier_filter c x tf \<Longrightarrow> x \<notin> ev \<Longrightarrow> at_path (evicted c ev r) p i"
proof -
  let ?c = "evicted c ev r"
  note ed = evicted_edge [OF t g]
  have zero: "0 \<notin> ev \<union> r" using ev gc_closed_cleared(1) [OF g, of 0] by auto
  have tk: "n_tokens (rc_nodes ?c ! j) = n_tokens (rc_nodes c ! j)" if "edge c k y j" "j \<notin> ev \<union> r" for k y j
    using evicted_nth(1) [OF edge_okD(1) [OF tree_okD(4) [OF t that(1)]]] that(2) by simp
  show "at_path ?c p i \<Longrightarrow> at_path c p i \<and> i \<notin> ev \<union> r"
  proof (induction rule: at_path.induct)
    case (step p i y j)
    then show ?case using at_path.step [of c p i y j] tk unfolding ed by auto
  qed (use zero in \<open>simp add: at_path.root\<close>)
  show "at_path c p i \<Longrightarrow> (kid c)\<^sup>*\<^sup>* i x \<Longrightarrow> node_matches_tier_filter c x tf \<Longrightarrow> x \<notin> ev \<Longrightarrow> at_path ?c p i"
  proof (induction rule: at_path.induct)
    case (step p i y j)
    have "j \<notin> ev \<union> r" using removed_below [OF bc g step.prems(1) _ step.prems(2)] step.prems(3) by blast
    moreover have "(kid c)\<^sup>*\<^sup>* i x" using step.prems(1) step.hyps(2) kid_iff_edge [OF t] by (meson converse_rtranclp_into_rtranclp)
    ultimately show ?case using at_path.step [OF step.IH, of y j] ed step tk by simp
  qed (rule at_path.root)
qed

subsection \<open>What an eviction does\<close>

definition evict_run ::
    "(radix_cache \<Rightarrow> nat set \<Rightarrow> nat option option) \<Rightarrow> nat \<Rightarrow> radix_cache \<Rightarrow> (block_id list \<times> radix_cache) option" where
  "evict_run pick n c = do { (c1, ev, freed) \<leftarrow> evict_loop pick n c {} []; c2 \<leftarrow> finish_evict c1 ev; Some (freed, c2) }"

text \<open>The prefix map without the freed blocks.\<close>

definition forget :: "block_id list \<Rightarrow> prefix_map \<Rightarrow> prefix_map" where
  "forget freed m p = (case m p of None \<Rightarrow> None | Some b \<Rightarrow> if b \<in> set freed then None else Some b)"

lemma freed_index:
  assumes ix: "index_ok c" and "ev \<subseteq> {1..<length (rc_nodes c)}" and "\<forall>i\<in>ev. n_block_id (rc_nodes c ! i) \<noteq> None"
    and fr: "set freed = {b. \<exists>i\<in>ev. block_at c i = Some b}" and len: "length freed = card ev"
  shows "distinct freed" and "b \<in> set freed \<longleftrightarrow> (\<exists>i\<in>ev. rc_block_index c b = Some i)"
    and "rc_block_index (cleared c ev) b = (if b \<in> set freed then None else rc_block_index c b)"
proof -
  have at: "block_at c i = Some b \<longleftrightarrow> rc_block_index c b = Some i" for i b
    using index_okD [OF ix, of b i] by (simp add: block_at_def)
  have "inj_on (\<lambda>i. the (block_at c i)) ev"
  proof (rule inj_onI)
    fix i j assume "i \<in> ev" "j \<in> ev" "the (block_at c i) = the (block_at c j)"
    moreover from this assms(2,3) obtain b b' where "block_at c i = Some b" "block_at c j = Some b'"
      by (fastforce simp: block_at_def)
    ultimately show "i = j" using at [of i b] at [of j b] by simp
  qed
  moreover have "set freed = (\<lambda>i. the (block_at c i)) ` ev"
  proof -
    have "block_at c i = Some (the (block_at c i))" if "i \<in> ev" for i using assms(2,3) that by (force simp: block_at_def)
    then have "block_at c i = Some b \<longleftrightarrow> b = the (block_at c i)" if "i \<in> ev" for i b using that by (metis option.sel)
    then show ?thesis unfolding fr image_def by blast
  qed
  ultimately show "distinct freed" by (metis card_distinct card_image len)
  show m: "b \<in> set freed \<longleftrightarrow> (\<exists>i\<in>ev. rc_block_index c b = Some i)" for b unfolding fr using at by simp
  show "rc_block_index (cleared c ev) b = (if b \<in> set freed then None else rc_block_index c b)"
    unfolding fr by (simp add: cleared_def)
qed

lemma block_refs_evicted:
  assumes ix: "index_ok c" and g: "gc_closed (map (drop_children ev) (rc_nodes (cleared c ev))) r"
    and "rc_block_index c b = Some i" and "i \<notin> ev"
  shows "n_ref_count (rc_nodes (evicted c ev r) ! i) = n_ref_count (rc_nodes c ! i)"
  using evicted_nth(3) [of i c ev r] gc_closed_cleared(5) [OF g, of i] index_okD [OF ix, of b i] assms(3) by auto

context victim_picker
begin

lemma picker_run:
  assumes wf: "radix_wf c"
  shows "\<exists>freed ev r. evict_run pick n c = Some (freed, evicted c ev r) \<and> sel_ok n c ev freed \<and>
     gc_closed (map (drop_children ev) (rc_nodes (cleared c ev))) r \<and>
     (length freed < n \<longrightarrow> (\<forall>v. \<not> cand (cleared c ev) ev v))"
proof -
  obtain pl where t: "tree_ok c pl" using wf by (auto simp: radix_wf_def)
  have "sel_ok n c {} []" by (simp add: sel_ok_def below_clear_def)
  from evict_loop_ok [OF tree_ok_ranked [OF t] this] obtain ev freed where
    l: "evict_loop pick n c {} [] = Some (cleared c ev, ev, freed)" "sel_ok n c ev freed"
    "length freed < n \<longrightarrow> (\<forall>v. \<not> cand (cleared c ev) ev v)" by auto
  then have ev: "ev \<subseteq> {1..<length (rc_nodes c)}" by (simp add: sel_ok_def)
  from finish_evict_ok [OF this] obtain r where r: "finish_evict (cleared c ev) ev = Some (evicted c ev r)"
    "gc_closed (map (drop_children ev) (rc_nodes (cleared c ev))) r" by blast
  then have "evict_run pick n c = Some (freed, evicted c ev r)" using l(1) by (simp add: evict_run_def)
  then show ?thesis using l(2,3) r(2) by blast
qed

lemma picker_evicts:
  assumes wf: "radix_wf c"
  shows "\<exists>freed c'. evict_run pick n c = Some (freed, c') \<and> radix_wf c' \<and> length freed \<le> n \<and> distinct freed \<and>
     (\<forall>b\<in>set freed. \<exists>i ev. rc_block_index c b = Some i \<and> cand (cleared c ev) ev i) \<and>
     (\<forall>b. rc_block_index c' b = (if b \<in> set freed then None else rc_block_index c b)) \<and>
     (\<forall>b. block_refs c' b = (if b \<in> set freed then 0 else block_refs c b)) \<and>
     (tf = None \<longrightarrow> cached c' = forget freed (cached c))"
proof -
  obtain pl where t: "tree_ok c pl" and ix: "index_ok c" using wf by (auto simp: radix_wf_def)
  obtain freed ev r where run: "evict_run pick n c = Some (freed, evicted c ev r)" and sel: "sel_ok n c ev freed"
    and g: "gc_closed (map (drop_children ev) (rc_nodes (cleared c ev))) r" using picker_run [OF wf] by blast
  note s = sel [unfolded sel_ok_def]
  then have ev: "ev \<subseteq> {1..<length (rc_nodes c)}" and bc: "below_clear c tf ev" by auto
  have fi: "distinct freed" "\<And>b. b \<in> set freed \<longleftrightarrow> (\<exists>i\<in>ev. rc_block_index c b = Some i)"
    "\<And>b. rc_block_index (cleared c ev) b = (if b \<in> set freed then None else rc_block_index c b)"
    using freed_index [OF ix ev, of freed] s by auto
  have refs: "block_refs (evicted c ev r) b = (if b \<in> set freed then 0 else block_refs c b)" for b
    using block_refs_evicted [OF ix g, of b] fi(2) [of b] by (auto simp: block_refs_def fi(3) split: option.split)
  have "cached (evicted c ev r) = forget freed (cached c)" if tf: "tf = None"
  proof (rule cached_eqI [OF evicted_wf(2) [OF wf g ev t]])
    fix p b
    let ?c = "evicted c ev r"
    have "(\<exists>i. at_path ?c p i \<and> n_block_id (rc_nodes ?c ! i) = Some b) \<longleftrightarrow>
        (\<exists>i. at_path c p i \<and> n_block_id (rc_nodes c ! i) = Some b \<and> i \<notin> ev)"
    proof (intro iffI; elim exE conjE)
      fix i assume a: "at_path ?c p i" "n_block_id (rc_nodes ?c ! i) = Some b"
      note pi = evicted_path(1) [OF t g bc ev a(1)]
      then have "i < length (rc_nodes c)" using at_path_pl [OF t] by blast
      with a(2) pi show "\<exists>i. at_path c p i \<and> n_block_id (rc_nodes c ! i) = Some b \<and> i \<notin> ev"
        using evicted_nth(2) [of i c ev r] by auto
    next
      fix i assume a: "at_path c p i" "n_block_id (rc_nodes c ! i) = Some b" "i \<notin> ev"
      have il: "i < length (rc_nodes c)" using at_path_pl [OF t a(1)] by simp
      then have "node_matches_tier_filter c i tf" using a(2) tf by (simp add: node_matches_tier_filter_def tier_ok_def)
      then have "at_path ?c p i" using evicted_path(2) [OF t g bc ev a(1) rtranclp.rtrancl_refl] a(3) by blast
      moreover have "n_block_id (rc_nodes ?c ! i) = Some b"
        using evicted_nth(2) [OF il, of ev r] a gc_closed_cleared(3) [OF g, of i] by auto
      ultimately show "\<exists>i. at_path ?c p i \<and> n_block_id (rc_nodes ?c ! i) = Some b" by blast
    qed
    also have "\<dots> \<longleftrightarrow> cached c p = Some b \<and> b \<notin> set freed"
      using cached_iff [OF t, of p b] fi(2) [of b] index_okD [OF ix, of b] at_path_pl [OF t] by (metis option.inject)
    also have "\<dots> \<longleftrightarrow> forget freed (cached c) p = Some b" by (auto simp: forget_def split: option.split)
    finally show "(\<exists>i. at_path ?c p i \<and> n_block_id (rc_nodes ?c ! i) = Some b) \<longleftrightarrow> forget freed (cached c) p = Some b" .
  qed
  moreover have "\<exists>i ev. rc_block_index c b = Some i \<and> cand (cleared c ev) ev i" if "b \<in> set freed" for b
    using that fi(2) s by blast
  ultimately show ?thesis using run evicted_wf(1) [OF wf g ev] s fi refs unfolding evicted_simps(3) [symmetric, of c ev r] by blast
qed

end

subsection \<open>The two pickers\<close>

definition lru_cand :: "radix_cache \<Rightarrow> nat set \<Rightarrow> nat \<Rightarrow> bool" where
  "lru_cand c ev v \<longleftrightarrow> 0 < v \<and> v < length (rc_nodes c) \<and> v \<notin> ev \<and> n_block_id (rc_nodes c ! v) \<noteq> None \<and>
     n_ref_count (rc_nodes c ! v) = 0 \<and> (\<forall>j. kid c v j \<longrightarrow> \<not> exposed c None ev j)"

definition policy_eligible ::
    "tier option \<Rightarrow> selection_intent \<Rightarrow> block_id set \<Rightarrow> nat \<Rightarrow> node \<Rightarrow> bool" where
  "policy_eligible tf intent excluded now n \<longleftrightarrow> (\<exists>b. n_block_id n = Some b \<and> b \<notin> excluded) \<and> n_ref_count n = 0 \<and>
     tier_ok tf n \<and> \<not> selection_pin_active n tf intent now \<and> n_entry_state n = Ready \<and> store_ok intent n"

definition policy_ok ::
    "score_fn \<Rightarrow> scheduler_signals \<Rightarrow> tier option \<Rightarrow> selection_intent \<Rightarrow> block_id set \<Rightarrow> radix_cache \<Rightarrow> nat set \<Rightarrow> nat \<Rightarrow> bool" where
  "policy_ok score sig tf intent excluded c ev v \<longleftrightarrow> 0 < v \<and> v < length (rc_nodes c) \<and> v \<notin> ev \<and>
     policy_eligible tf intent excluded (rc_clock c) (rc_nodes c ! v) \<and>
     is_finite (score (candidate_of c (rc_nodes c ! v)) sig) \<and> (\<forall>j. kid c v j \<longrightarrow> \<not> exposed c tf ev j)"

lemma scan_pick:
  assumes "\<And>k. k < length ns \<Longrightarrow> cand k (ns ! k) = Some (g k)"
    and keep: "\<And>a b. keep a b \<or> keep b a" "\<And>a b d. keep a b \<Longrightarrow> keep b d \<Longrightarrow> keep a d"
  shows "\<exists>r. map_option (map_option snd) (scan_best cand keep 0 ns None) = Some r \<and>
     (r = None \<longleftrightarrow> (\<forall>k<length ns. g k = None)) \<and>
     (\<forall>v. r = Some v \<longrightarrow> v < length ns \<and> (\<exists>y. g v = Some y \<and> (\<forall>k<length ns. \<forall>z. g k = Some z \<longrightarrow> keep (y, v) (z, k))))"
proof -
  have "\<exists>r. scan_best cand keep 0 ns None = Some r \<and>
     (r = None \<longleftrightarrow> None = (None :: ('a \<times> nat) option) \<and> (\<forall>k<length ns. g (0 + k) = None)) \<and>
     (\<forall>x. r = Some x \<longrightarrow> (None = Some x \<or> (\<exists>k<length ns. snd x = 0 + k \<and> g (0 + k) = Some (fst x))) \<and>
        (\<forall>b. None = Some b \<longrightarrow> keep x b) \<and> (\<forall>k<length ns. \<forall>y. g (0 + k) = Some y \<longrightarrow> keep x (y, 0 + k)))"
    by (rule scan_best_ok) (use assms in \<open>simp, blast, blast\<close>)
  then obtain r where r: "scan_best cand keep 0 ns None = Some r" "r = None \<longleftrightarrow> (\<forall>k<length ns. g k = None)"
    "\<forall>x. r = Some x \<longrightarrow> (\<exists>k<length ns. snd x = k \<and> g k = Some (fst x)) \<and> (\<forall>k<length ns. \<forall>y. g k = Some y \<longrightarrow> keep x (y, k))"
    by auto
  show ?thesis using r by (intro exI [of _ "map_option snd r"]) auto
qed

lemma lru_keep_order: "lru_keep a b \<or> lru_keep b a" "lru_keep a b \<Longrightarrow> lru_keep b d \<Longrightarrow> lru_keep a d"
  by (auto simp: lru_keep_def)

lemma score_keep_order: "score_keep a b \<or> score_keep b a" "score_keep a b \<Longrightarrow> score_keep b d \<Longrightarrow> score_keep a d"
proof -
  show "score_keep a b \<or> score_keep b a" unfolding score_keep_def total_eq_def by linarith
  show "score_keep a d" if "score_keep a b" "score_keep b d"
    using that total_less_trans [of "fst a" "fst b" "fst d"] total_not_less_trans [of "fst b" "fst a" "fst d"]
      total_not_less_trans [of "fst d" "fst b" "fst a"] total_not_less_trans [of "fst a" "fst b" "fst d"]
    unfolding score_keep_def total_eq_def by (meson le_trans total_less_trans total_not_less_trans)
qed

lemma evict_cand_eq:
  assumes "ranked c pl" and "v < length (rc_nodes c)"
  shows "evict_cand c ev v (rc_nodes c ! v) = Some (if lru_cand c ev v then Some (n_last_access (rc_nodes c ! v)) else None)"
  using active_leaf_exposed [OF assms, of None ev] assms(2) by (auto simp: evict_cand_def lru_cand_def)

lemma policy_cand_eq:
  assumes "ranked c pl" and "v < length (rc_nodes c)"
  shows "policy_cand score sig tf intent excluded c ev v (rc_nodes c ! v) =
     Some (if policy_ok score sig tf intent excluded c ev v then Some (score (candidate_of c (rc_nodes c ! v)) sig) else None)"
  using active_leaf_exposed [OF assms, of tf ev] assms(2)
  by (auto simp: policy_cand_def policy_ok_def policy_eligible_def finite_score_def split: option.split)

lemma pick_lru_ok:
  assumes "ranked c pl"
  shows "\<exists>r. pick_lru c ev = Some r \<and> (r = None \<longleftrightarrow> (\<forall>v. \<not> lru_cand c ev v)) \<and>
     (\<forall>v. r = Some v \<longrightarrow> lru_cand c ev v \<and>
        (\<forall>u. lru_cand c ev u \<longrightarrow> n_last_access (rc_nodes c ! v) \<le> n_last_access (rc_nodes c ! u)))"
proof -
  let ?g = "\<lambda>v. if lru_cand c ev v then Some (n_last_access (rc_nodes c ! v)) else None"
  have l: "lru_cand c ev v \<Longrightarrow> v < length (rc_nodes c)" for v by (simp add: lru_cand_def)
  obtain r where r: "pick_lru c ev = Some r" "r = None \<longleftrightarrow> (\<forall>k<length (rc_nodes c). ?g k = None)"
    "\<forall>v. r = Some v \<longrightarrow> v < length (rc_nodes c) \<and> (\<exists>y. ?g v = Some y \<and>
        (\<forall>k<length (rc_nodes c). \<forall>z. ?g k = Some z \<longrightarrow> lru_keep (y, v) (z, k)))"
  proof -
    have "\<exists>r. pick_lru c ev = Some r \<and> (r = None \<longleftrightarrow> (\<forall>k<length (rc_nodes c). ?g k = None)) \<and>
        (\<forall>v. r = Some v \<longrightarrow> v < length (rc_nodes c) \<and> (\<exists>y. ?g v = Some y \<and>
          (\<forall>k<length (rc_nodes c). \<forall>z. ?g k = Some z \<longrightarrow> lru_keep (y, v) (z, k))))"
      unfolding pick_lru_def
      by (rule scan_pick) (use evict_cand_eq [OF assms] lru_keep_order in \<open>blast, blast, blast\<close>)
    then show thesis using that by blast
  qed
  show ?thesis
  proof (intro exI conjI allI impI)
    show "pick_lru c ev = Some r" by (rule r(1))
    show "r = None \<longleftrightarrow> (\<forall>v. \<not> lru_cand c ev v)" unfolding r(2) using l by auto
    fix v assume "r = Some v"
    with r(3) show "lru_cand c ev v" by (auto split: if_splits)
    fix u assume "lru_cand c ev u"
    with \<open>r = Some v\<close> r(3) l [of u] show "n_last_access (rc_nodes c ! v) \<le> n_last_access (rc_nodes c ! u)"
      by (auto simp: lru_keep_def split: if_splits)
  qed
qed

lemma pick_policy_ok:
  assumes "ranked c pl"
  shows "\<exists>r. pick_policy score sig tf intent excluded c ev = Some r \<and>
     (r = None \<longleftrightarrow> (\<forall>v. \<not> policy_ok score sig tf intent excluded c ev v)) \<and>
     (\<forall>v. r = Some v \<longrightarrow> policy_ok score sig tf intent excluded c ev v \<and>
        (\<forall>u. policy_ok score sig tf intent excluded c ev u \<longrightarrow>
           \<not> total_less (score (candidate_of c (rc_nodes c ! u)) sig) (score (candidate_of c (rc_nodes c ! v)) sig)))"
proof -
  let ?ok = "policy_ok score sig tf intent excluded c ev" and ?sc = "\<lambda>v. score (candidate_of c (rc_nodes c ! v)) sig"
  let ?g = "\<lambda>v. if ?ok v then Some (?sc v) else None"
  have l: "?ok v \<Longrightarrow> v < length (rc_nodes c)" for v by (simp add: policy_ok_def)
  obtain r where r: "pick_policy score sig tf intent excluded c ev = Some r" "r = None \<longleftrightarrow> (\<forall>k<length (rc_nodes c). ?g k = None)"
    "\<forall>v. r = Some v \<longrightarrow> v < length (rc_nodes c) \<and> (\<exists>y. ?g v = Some y \<and>
        (\<forall>k<length (rc_nodes c). \<forall>z. ?g k = Some z \<longrightarrow> score_keep (y, v) (z, k)))"
  proof -
    have "\<exists>r. pick_policy score sig tf intent excluded c ev = Some r \<and> (r = None \<longleftrightarrow> (\<forall>k<length (rc_nodes c). ?g k = None)) \<and>
        (\<forall>v. r = Some v \<longrightarrow> v < length (rc_nodes c) \<and> (\<exists>y. ?g v = Some y \<and>
          (\<forall>k<length (rc_nodes c). \<forall>z. ?g k = Some z \<longrightarrow> score_keep (y, v) (z, k))))"
      unfolding pick_policy_def
      by (rule scan_pick) (use policy_cand_eq [OF assms] score_keep_order in \<open>blast, blast, blast\<close>)
    then show thesis using that by blast
  qed
  show ?thesis
  proof (intro exI conjI allI impI)
    show "pick_policy score sig tf intent excluded c ev = Some r" by (rule r(1))
    show "r = None \<longleftrightarrow> (\<forall>v. \<not> ?ok v)" unfolding r(2) using l by auto
    fix v assume "r = Some v"
    with r(3) show "?ok v" by (auto split: if_splits)
    fix u assume "?ok u"
    then have "score_keep (?sc v, v) (?sc u, u)" using \<open>r = Some v\<close> r(3) l [of u] by (auto split: if_splits)
    then show "\<not> total_less (?sc u) (?sc v)"
      using total_less_trans [of "?sc u" "?sc v" "?sc u"] by (auto simp: score_keep_def total_eq_def)
  qed
qed

interpretation lru_picker: victim_picker pick_lru None lru_cand
proof (unfold_locales, goal_cases)
  case (1 c pl ev)
  then show ?case using pick_lru_ok [OF 1, of ev] by auto
next
  case (2 c pl ev v)
  then show ?case using pick_lru_ok [OF 2(1), of ev] by auto
next
  case (3 c pl ev v)
  then show ?case using pick_lru_ok [OF 3(1), of ev] by auto
qed (auto simp: lru_cand_def)

interpretation policy_picker: victim_picker "pick_policy score sig tf intent excluded" tf "policy_ok score sig tf intent excluded"
  for score sig tf intent excluded
proof (unfold_locales, goal_cases)
  case (1 c pl ev)
  then show ?case using pick_policy_ok [OF 1, of score sig tf intent excluded ev] by auto
next
  case (2 c pl ev v)
  then show ?case using pick_policy_ok [OF 2(1), of score sig tf intent excluded ev] by auto
next
  case (3 c pl ev v)
  then show ?case using pick_policy_ok [OF 3(1), of score sig tf intent excluded ev] by auto
qed (auto simp: policy_ok_def policy_eligible_def)

lemma radix_evict_run: "radix_evict n c = (if n = 0 then Some ([], c) else evict_run pick_lru n c)"
  by (simp add: radix_evict_def evict_run_def)

lemma policy_evict_run: "evict_with_policy_for_intent_excluding score sig n tf intent excluded c =
    (if n = 0 then Some ([], c) else evict_run (pick_policy score sig tf intent excluded) n c)"
  by (simp add: evict_with_policy_for_intent_excluding_def evict_run_def)

lemma forget_Nil [simp]: "forget [] m = m"
  by (rule ext) (simp add: forget_def split: option.split)

lemma cleared_slot:
  assumes "index_ok c" and "rc_block_index c b = Some i" and "i \<notin> ev"
  shows "i < length (rc_nodes c)" "n_block_id (rc_nodes c ! i) = Some b" "rc_nodes (cleared c ev) ! i = rc_nodes c ! i"
  using index_okD [OF assms(1), of b i] assms(2,3) by auto

subsection \<open>Properties\<close>

text \<open>
  (C5) LRU eviction returns on every well-formed cache and frees at most \<open>n\<close> blocks, all
  different, all cached and unreferenced before. It keeps the invariant; every freed block leaves
  the reverse index, and the prefix map afterwards is the old one without the freed blocks: no
  other prefix becomes unreachable, and no reference count of a kept block changes.
\<close>

theorem evict_forgets_exactly_freed:
  assumes "radix_wf c"
  shows "\<exists>freed c'. radix_evict n c = Some (freed, c') \<and> radix_wf c' \<and> length freed \<le> n \<and> distinct freed \<and>
     (\<forall>b\<in>set freed. rc_block_index c b \<noteq> None \<and> block_refs c b = 0) \<and>
     cached c' = forget freed (cached c) \<and>
     (\<forall>b. rc_block_index c' b = (if b \<in> set freed then None else rc_block_index c b)) \<and>
     (\<forall>b. block_refs c' b = (if b \<in> set freed then 0 else block_refs c b))"
proof (cases "n = 0")
  case True
  then show ?thesis using assms by (simp add: radix_evict_run)
next
  case False
  obtain freed c' where r: "evict_run pick_lru n c = Some (freed, c')" "radix_wf c'" "length freed \<le> n" "distinct freed"
    "\<forall>b\<in>set freed. \<exists>i ev. rc_block_index c b = Some i \<and> lru_cand (cleared c ev) ev i"
    "\<forall>b. rc_block_index c' b = (if b \<in> set freed then None else rc_block_index c b)"
    "\<forall>b. block_refs c' b = (if b \<in> set freed then 0 else block_refs c b)" "cached c' = forget freed (cached c)"
    using lru_picker.picker_evicts [OF assms, of n] by auto
  have "rc_block_index c b \<noteq> None \<and> block_refs c b = 0" if "b \<in> set freed" for b
    using r(5) that cleared_slot(3) [of c b] assms by (auto simp: lru_cand_def block_refs_def radix_wf_def)
  then show ?thesis using r False by (simp add: radix_evict_run)
qed

theorem evict_forgets_exactly_freed_witness:
  "\<exists>freed c'. radix_evict 1 ex_two = Some (freed, c') \<and> cached c' = forget freed (cached ex_two) \<and> radix_wf c'"
  using evict_forgets_exactly_freed [of ex_two 1] ex_two_inv unfolding cache_inv_def by blast

text \<open>
  Policy eviction returns, keeps the invariant, and every block it frees was cached and
  eligible: not excluded, unreferenced, in the requested tier, not pinned for this intent, in
  state \<open>Ready\<close>, not being stored when the intent is to spill or drain, and with a finite score.
\<close>

theorem policy_evict_frees_only_eligible:
  assumes "radix_wf c"
  shows "\<exists>freed c'. evict_with_policy_for_intent_excluding score sig n tf intent excluded c = Some (freed, c') \<and>
     radix_wf c' \<and> length freed \<le> n \<and> distinct freed \<and>
     (\<forall>b\<in>set freed. \<exists>i. rc_block_index c b = Some i \<and> b \<notin> excluded \<and>
        policy_eligible tf intent excluded (rc_clock c) (rc_nodes c ! i) \<and>
        is_finite (score (candidate_of c (rc_nodes c ! i)) sig)) \<and>
     (tf = None \<longrightarrow> cached c' = forget freed (cached c))"
proof (cases "n = 0")
  case True
  then show ?thesis using assms by (simp add: policy_evict_run)
next
  case False
  let ?ok = "policy_ok score sig tf intent excluded"
  obtain freed c' where r: "evict_run (pick_policy score sig tf intent excluded) n c = Some (freed, c')" "radix_wf c'"
    "length freed \<le> n" "distinct freed"
    "\<forall>b\<in>set freed. \<exists>i ev. rc_block_index c b = Some i \<and> ?ok (cleared c ev) ev i"
    "tf = None \<longrightarrow> cached c' = forget freed (cached c)"
    using policy_picker.picker_evicts [OF assms, where n = n and score = score and sig = sig and tf = tf and intent = intent and excluded = excluded] by metis
  have "\<exists>i. rc_block_index c b = Some i \<and> b \<notin> excluded \<and> policy_eligible tf intent excluded (rc_clock c) (rc_nodes c ! i) \<and>
        is_finite (score (candidate_of c (rc_nodes c ! i)) sig)" if b: "b \<in> set freed" for b
  proof -
    obtain i ev where i: "rc_block_index c b = Some i" "?ok (cleared c ev) ev i" using r(5) b by blast
    have ix: "index_ok c" using assms by (simp add: radix_wf_def)
    have "i \<notin> ev" using i(2) by (simp add: policy_ok_def)
    note sl = cleared_slot [OF ix i(1) this]
    have "candidate_of (cleared c ev) n = candidate_of c n" for n by (simp add: candidate_of_def)
    then show ?thesis using i sl by (auto simp: policy_ok_def policy_eligible_def)
  qed
  then show ?thesis using r False by (simp add: policy_evict_run)
qed

theorem policy_evict_frees_only_eligible_witness:
  "\<exists>freed c'. evict_with_policy_for_intent_excluding (session_biased_score affinity_bonus_default) signals_default 1 None Evict {10} ex_two = Some (freed, c') \<and>
     10 \<notin> set freed \<and> radix_wf c'"
  using policy_evict_frees_only_eligible [of ex_two "session_biased_score affinity_bonus_default" signals_default 1 None Evict "{10}"] ex_two_inv
  unfolding cache_inv_def by blast

lemma lru_stuck_below:
  assumes wf: "radix_wf c" and t: "tree_ok c pl" and none: "\<forall>v. \<not> lru_cand (cleared c ev) ev v"
    and bc: "below_clear c None ev" and x0: "x0 < length (rc_nodes c)" "x0 \<notin> ev" "n_block_id (rc_nodes c ! x0) \<noteq> None"
  shows "\<exists>x b. (kid c)\<^sup>*\<^sup>* x0 x \<and> x \<notin> ev \<and> rc_block_index c b = Some x \<and> n_ref_count (rc_nodes c ! x) \<noteq> 0"
  using x0
proof (induction "card {k. k < length (rc_nodes c) \<and> pl x0 \<le> pl k}" arbitrary: x0 rule: less_induct)
  case less
  have ix: "index_ok c" using wf by (simp add: radix_wf_def)
  show ?case
  proof (cases "n_ref_count (rc_nodes c ! x0) = 0")
    case False
    then show ?thesis using less.prems index_okD [OF ix, of _ x0] by blast
  next
    case True
    have "x0 \<noteq> 0" using less.prems(3) tree_okD(8) [OF t] by metis
    then obtain j where j: "kid c x0 j" "exposed (cleared c ev) None ev j"
      using none less.prems True by (fastforce simp: lru_cand_def)
    then obtain y where y: "(kid c)\<^sup>*\<^sup>* j y" "y \<notin> ev" "node_matches_tier_filter c y None"
      using exposedD [OF j(2)] by (auto simp: matches_cleared)
    have rk: "kid c a b \<Longrightarrow> b < length (rc_nodes c) \<and> pl a < pl b" for a b using tree_ok_ranked [OF t] by (simp add: ranked_def)
    have "pl j \<le> pl y" using y(1) by induction (use rk in fastforce)+
    then have lt: "pl x0 < pl y" using rk [OF j(1)] by simp
    have yl: "y < length (rc_nodes c)" "n_block_id (rc_nodes c ! y) \<noteq> None"
      using y(3) by (auto simp: node_matches_tier_filter_def split: option.splits)
    have "x0 \<in> {k. k < length (rc_nodes c) \<and> pl x0 \<le> pl k}" "x0 \<notin> {k. k < length (rc_nodes c) \<and> pl y \<le> pl k}"
      "{k. k < length (rc_nodes c) \<and> pl y \<le> pl k} \<subseteq> {k. k < length (rc_nodes c) \<and> pl x0 \<le> pl k}" using lt less.prems(1) by auto
    then have "card {k. k < length (rc_nodes c) \<and> pl y \<le> pl k} < card {k. k < length (rc_nodes c) \<and> pl x0 \<le> pl k}"
      by (intro psubset_card_mono) auto
    from less.hyps [OF this yl(1) y(2) yl(2)] show ?thesis
      using converse_rtranclp_into_rtranclp [of "kid c", OF j(1) y(1)] by (meson rtranclp_trans)
  qed
qed

text \<open>
  LRU eviction stops short only for a reason: when it frees fewer than \<open>n\<close> blocks, every
  prefix that stays cached is referenced itself or has an extension that is cached and referenced.
\<close>

theorem evict_stops_only_at_referenced:
  assumes "radix_wf c" and "radix_evict n c = Some (freed, c')" and "length freed < n" and "cached c' p = Some b"
  shows "\<exists>q b'. cached c' (p @ q) = Some b' \<and> 0 < block_refs c' b'"
proof -
  obtain pl where t: "tree_ok c pl" and ix: "index_ok c" using assms(1) by (auto simp: radix_wf_def)
  have run': "evict_run pick_lru n c = Some (freed, c')" using assms(2,3) by (auto simp: radix_evict_run split: if_splits)
  obtain ev r where run: "c' = evicted c ev r" and sel: "lru_picker.sel_ok n c ev freed"
    and g: "gc_closed (map (drop_children ev) (rc_nodes (cleared c ev))) r" and none: "\<forall>v. \<not> lru_cand (cleared c ev) ev v"
    using lru_picker.picker_run [OF assms(1), of n] run' assms(3) by auto
  have ev: "ev \<subseteq> {1..<length (rc_nodes c)}" and bc: "below_clear c None ev"
    using sel by (auto simp: lru_picker.sel_ok_def)
  have t': "tree_ok c' pl" unfolding run by (rule evicted_wf(2) [OF assms(1) g ev t])
  obtain i where i: "at_path c' p i" "n_block_id (rc_nodes c' ! i) = Some b" using assms(4) cached_iff [OF t'] by blast
  then have pi: "at_path c p i" "i \<notin> ev \<union> r" "i < length (rc_nodes c)"
    using evicted_path(1) [OF t g bc ev] at_path_pl [OF t] unfolding run by blast+
  then have "n_block_id (rc_nodes c ! i) \<noteq> None" using i(2) evicted_nth(2) [OF pi(3), of ev r] run by simp
  from lru_stuck_below [OF assms(1) t none bc pi(3) _ this] pi(2) obtain x b' where
    x: "(kid c)\<^sup>*\<^sup>* i x" "x \<notin> ev" "rc_block_index c b' = Some x" "n_ref_count (rc_nodes c ! x) \<noteq> 0" by blast
  have xl: "x < length (rc_nodes c)" "n_block_id (rc_nodes c ! x) = Some b'" using index_okD [OF ix, of b' x] x(3) by auto
  obtain q where q: "at_path c (p @ q) x" using at_path_kids [OF x(1) pi(1) t] by blast
  have "node_matches_tier_filter c x None" using xl by (simp add: node_matches_tier_filter_def tier_ok_def)
  then have q': "at_path c' (p @ q) x" unfolding run using evicted_path(2) [OF t g bc ev q rtranclp.rtrancl_refl] x(2) by blast
  have blk: "n_block_id (rc_nodes c' ! x) = Some b'"
    using evicted_path(1) [OF t g bc ev] q' evicted_nth(2) [OF xl(1), of ev r] xl(2) unfolding run by auto
  have ix': "index_ok c'" using evicted_wf(1) [OF assms(1) g ev] by (simp add: radix_wf_def run)
  have "rc_block_index c' b' = Some x" using index_okD [OF ix', of b' x] blk xl(1) run by simp
  then have "0 < block_refs c' b'"
    using block_refs_evicted [OF ix g x(3,2)] run x(4) by (simp add: block_refs_def)
  moreover have "cached c' (p @ q) = Some b'" using q' blk cached_iff [OF t'] by blast
  ultimately show ?thesis by blast
qed

theorem evict_stops_only_at_referenced_witness:
  "\<exists>q b'. cached (snd (the (radix_evict 3 (snd (the (radix_lookup [1, 2] ex_two)))))) ([1, 2] @ q) = Some b' \<and>
     0 < block_refs (snd (the (radix_evict 3 (snd (the (radix_lookup [1, 2] ex_two)))))) b'"
proof -
  let ?c = "snd (the (radix_lookup [1, 2] ex_two))"
  have "radix_wf ?c" using lookup_refines [OF ex_two_inv, of "[1, 2]"] by (auto simp: cache_inv_def)
  moreover have "map_option fst (radix_evict 3 ?c) = Some [11]" by code_simp
  then have "radix_evict 3 ?c = Some ([11], snd (the (radix_evict 3 ?c)))" by (cases "radix_evict 3 ?c") auto
  moreover have "cached (snd (the (radix_evict 3 ?c))) [1, 2] = Some 10" by code_simp
  ultimately show ?thesis by (intro evict_stops_only_at_referenced [of ?c 3 "[11]"]) simp_all
qed

text \<open>
  The LRU scan picks a victim exactly when there is one, and the slot it picks is an
  unreferenced active leaf whose last access is the oldest among all such slots.
\<close>

theorem lru_victim_is_least_recent:
  assumes "radix_wf c"
  shows "\<exists>r. pick_lru c {} = Some r \<and> (r = None \<longleftrightarrow> (\<forall>v. \<not> lru_cand c {} v)) \<and>
     (\<forall>v. r = Some v \<longrightarrow> lru_cand c {} v \<and>
        (\<forall>u. lru_cand c {} u \<longrightarrow> n_last_access (rc_nodes c ! v) \<le> n_last_access (rc_nodes c ! u)))"
  using assms pick_lru_ok [OF tree_ok_ranked] by (auto simp: radix_wf_def)

theorem lru_victim_is_least_recent_witness:
  "\<exists>r. pick_lru ex_two {} = Some r \<and> (r = None \<longleftrightarrow> (\<forall>v. \<not> lru_cand ex_two {} v))"
  using lru_victim_is_least_recent [of ex_two] ex_two_inv unfolding cache_inv_def by blast

text \<open>
  A second eviction enters slots that are already free in the free list again. After two
  evictions the list reads \<open>1, 2, 1, 2\<close>, a later insertion of four blocks writes two nodes over
  each other while reporting success, and a lookup of the inserted prompt finds nothing.
\<close>

theorem second_evict_duplicates_free_slots:
  "do { (m, c1) \<leftarrow> radix_insert [1, 2, 3, 4] [10, 11] ex_empty;
        (f1, c2) \<leftarrow> radix_evict 2 c1;
        (f2, c3) \<leftarrow> radix_evict 1 c2;
        (n, c4) \<leftarrow> radix_insert [5, 6, 7, 8, 9, 9, 9, 9] [20, 21, 22, 23] c3;
        (r, c5) \<leftarrow> radix_lookup [5, 6, 7, 8, 9, 9, 9, 9] c4;
        Some (f1, f2, rc_free_nodes c3, n, r) } = Some ([11, 10], [], [1, 2, 1, 2], 8, (0, []))"
  by code_simp

end
