(* ===== verification/Radix_Ops.thy ===== *)
theory Radix_Ops
  imports Radix_Stage Radix_Evict "HOL-Library.Product_Lexorder"
begin

text \<open>
  The rest of \<open>infer/src/prefix_cache.rs\<close>, definitions only: selection of blocks to demote, sparse
  draft views, eviction accounting, the metadata setters and the snapshot format. Recursion over
  children carries fuel as in \<open>Radix_Model\<close>.
\<close>

subsection \<open>Selecting blocks without removing them\<close>

definition select_cand ::
    "score_fn \<Rightarrow> scheduler_signals \<Rightarrow> tier option \<Rightarrow> selection_intent \<Rightarrow> bool \<Rightarrow> radix_cache \<Rightarrow> nat set
     \<Rightarrow> nat \<Rightarrow> node \<Rightarrow> (f32 \<times> block_id) option option" where
  "select_cand score sig tf intent need_swap c sel idx n =
     (if idx = 0 \<or> idx \<in> sel then Some None
      else (case n_block_id n of None \<Rightarrow> Some None
        | Some b \<Rightarrow>
          if n_ref_count n \<noteq> 0 \<or> (need_swap \<and> \<not> n_host_swap_eligible n) \<or>
             selection_pin_active n tf intent (rc_clock c) \<or> n_entry_state n \<noteq> Ready \<or> \<not> store_ok intent n \<or> \<not> tier_ok tf n
          then Some None
          else do { leaf \<leftarrow> node_is_active_leaf_for_tier c tf sel idx;
                    Some (if leaf then map_option (\<lambda>x. (x, b)) (finite_score (score (candidate_of c n) sig)) else None) }))"

definition select_keep :: "(f32 \<times> block_id) \<times> nat \<Rightarrow> (f32 \<times> block_id) \<times> nat \<Rightarrow> bool" where
  "select_keep best new \<longleftrightarrow> total_less (fst (fst best)) (fst (fst new)) \<or>
     (total_eq (fst (fst best)) (fst (fst new)) \<and> (snd (fst best), snd best) \<le> (snd (fst new), snd new))"

partial_function (option) select_loop ::
    "score_fn \<Rightarrow> scheduler_signals \<Rightarrow> tier option \<Rightarrow> selection_intent \<Rightarrow> bool \<Rightarrow> nat \<Rightarrow> radix_cache \<Rightarrow> nat set
     \<Rightarrow> block_id list \<Rightarrow> block_id list option" where
  "select_loop score sig tf intent need_swap n c sel selected =
     (if length selected < n
      then do { best \<leftarrow> scan_best (select_cand score sig tf intent need_swap c sel) select_keep 0 (rc_nodes c) None;
                case best of None \<Rightarrow> Some selected
                | Some ((s, b), idx) \<Rightarrow>
                    select_loop score sig tf intent need_swap n c (insert idx sel) (selected @ [b]) }
      else Some selected)"

definition select_blocks_with_policy ::
    "score_fn \<Rightarrow> scheduler_signals \<Rightarrow> nat \<Rightarrow> tier option \<Rightarrow> selection_intent \<Rightarrow> bool \<Rightarrow> radix_cache
     \<Rightarrow> block_id list option" where
  "select_blocks_with_policy score sig n tf intent need_swap c =
     (if n = 0 then Some [] else select_loop score sig tf intent need_swap n c {} [])"

subsection \<open>Sparse draft views\<close>

record sparse_candidate =
  sd_block :: block_id
  sd_path_len :: nat
  sd_last_access :: nat

definition slot_candidate :: "nat \<Rightarrow> block_id list \<Rightarrow> node \<Rightarrow> nat \<Rightarrow> sparse_candidate list" where
  "slot_candidate slot_idx att n path_len =
     (case (n_block_id n, n_tier_location n) of
        (Some b, Some (Gpu s)) \<Rightarrow>
          if s = slot_idx \<or> b \<in> set att
          then [\<lparr>sd_block = b, sd_path_len = path_len, sd_last_access = n_last_access n\<rparr>] else []
      | _ \<Rightarrow> [])"

fun concat_opt :: "('a \<Rightarrow> 'b list option) \<Rightarrow> 'a list \<Rightarrow> 'b list option" where
  "concat_opt f [] = Some []"
| "concat_opt f (x # xs) = do { ys \<leftarrow> f x; zs \<leftarrow> concat_opt f xs; Some (ys @ zs) }"

fun collect_slot :: "nat \<Rightarrow> radix_cache \<Rightarrow> nat \<Rightarrow> nat \<Rightarrow> nat \<Rightarrow> sparse_candidate list option" where
  "collect_slot 0 c slot_idx parent_len idx = None"
| "collect_slot (Suc fuel) c slot_idx parent_len idx =
     do { n \<leftarrow> get_at (rc_nodes c) idx;
          let path_len = parent_len + length (n_tokens n)
          in do { below \<leftarrow> concat_opt (collect_slot fuel c slot_idx path_len) (map snd (n_children n));
                  Some (slot_candidate slot_idx [] n path_len @ below) } }"

definition by_recency :: "sparse_candidate list \<Rightarrow> sparse_candidate list" where
  "by_recency = sort_key (\<lambda>k. (- int (sd_last_access k), sd_block k))"

definition by_depth :: "sparse_candidate list \<Rightarrow> sparse_candidate list" where
  "by_depth = sort_key (\<lambda>k. (- int (sd_path_len k), sd_block k))"

fun push_new :: "sparse_candidate list \<Rightarrow> block_id list \<Rightarrow> block_id list" where
  "push_new [] selected = selected"
| "push_new (k # ks) selected =
     push_new ks (if sd_block k \<in> set selected then selected else selected @ [sd_block k])"

definition select_sparse_pages_from_candidates ::
    "radix_cache \<Rightarrow> sparse_candidate list \<Rightarrow> nat \<Rightarrow> nat \<Rightarrow> block_id list" where
  "select_sparse_pages_from_candidates c ks recent_tokens top_k =
     (if ks = [] \<or> (recent_tokens = 0 \<and> top_k = 0) then []
      else let ks1 = by_recency ks;
               selected = push_new (take top_k ks1) [];
               recent_blocks = min (div_ceil recent_tokens (rc_block_size c)) (length ks1)
           in push_new (take recent_blocks (by_depth ks1)) selected)"

definition select_sparse_pages_for_draft :: "radix_cache \<Rightarrow> nat \<Rightarrow> nat \<Rightarrow> nat \<Rightarrow> block_id list option" where
  "select_sparse_pages_for_draft c slot_idx recent_tokens top_k =
     (if u32_max < slot_idx then Some []
      else do { ks \<leftarrow> collect_slot (Suc (length (rc_nodes c))) c slot_idx 0 0;
                Some (select_sparse_pages_from_candidates c ks recent_tokens top_k) })"

partial_function (option) sparse_loop ::
    "token list \<Rightarrow> nat \<Rightarrow> block_id list \<Rightarrow> radix_cache \<Rightarrow> nat \<Rightarrow> nat \<Rightarrow> sparse_candidate list
     \<Rightarrow> sparse_candidate list option" where
  "sparse_loop toks slot_idx att c ni pos ks =
     (if length toks \<le> pos then Some ks
      else do { nd \<leftarrow> get_at (rc_nodes c) ni;
        case map_of (n_children nd) (toks ! pos) of
          None \<Rightarrow> Some ks
        | Some ci \<Rightarrow>
          do { (ml, el) \<leftarrow> child_edge_match c ci (drop pos toks);
               if ml < el then Some ks
               else do { ch \<leftarrow> get_at (rc_nodes c) ci;
                         sparse_loop toks slot_idx att c ci (pos + ml) (ks @ slot_candidate slot_idx att ch (pos + ml)) } } })"

definition select_sparse_pages_for_draft_tokens_with_attached ::
    "radix_cache \<Rightarrow> nat \<Rightarrow> token list \<Rightarrow> nat \<Rightarrow> nat \<Rightarrow> block_id list \<Rightarrow> block_id list option" where
  "select_sparse_pages_for_draft_tokens_with_attached c slot_idx toks recent_tokens top_k att =
     (if u32_max < slot_idx then Some []
      else if toks = [] then select_sparse_pages_for_draft c slot_idx recent_tokens top_k
      else do { ks \<leftarrow> sparse_loop toks slot_idx att c 0 0 [];
                Some (select_sparse_pages_from_candidates c ks recent_tokens top_k) })"

definition select_sparse_pages_for_draft_tokens ::
    "radix_cache \<Rightarrow> nat \<Rightarrow> token list \<Rightarrow> nat \<Rightarrow> nat \<Rightarrow> block_id list option" where
  "select_sparse_pages_for_draft_tokens c slot_idx toks recent_tokens top_k =
     select_sparse_pages_for_draft_tokens_with_attached c slot_idx toks recent_tokens top_k []"

definition soft_pin_expired :: "nat \<Rightarrow> node \<Rightarrow> bool" where
  "soft_pin_expired now n = (case n_soft_pin_until n of None \<Rightarrow> True | Some d \<Rightarrow> d \<le> now)"

text \<open>One node of \<open>drop_pages_for_sparse_view\<close>: the node afterwards and the block it drops, if any.\<close>

definition drop_page :: "nat \<Rightarrow> block_id list \<Rightarrow> block_id list \<Rightarrow> nat \<Rightarrow> node \<Rightarrow> node \<times> block_id option" where
  "drop_page slot_idx keep att now n =
     (case n_block_id n of None \<Rightarrow> (n, None)
      | Some b \<Rightarrow>
        if b \<in> set keep then (n\<lparr>n_sparse_dropped := False\<rparr>, None)
        else if n_tier_location n \<noteq> Some (Gpu slot_idx) \<and> b \<notin> set att then (n, None)
        else if (n_ref_count n = 0 \<or> b \<in> set att) \<and> n_entry_state n = Ready \<and> soft_pin_expired now n
        then (n\<lparr>n_sparse_dropped := True\<rparr>, Some b)
        else (n\<lparr>n_sparse_dropped := False\<rparr>, None))"

definition drop_pages_for_sparse_view ::
    "nat \<Rightarrow> block_id list \<Rightarrow> block_id list \<Rightarrow> radix_cache \<Rightarrow> block_id list \<times> radix_cache" where
  "drop_pages_for_sparse_view slot_idx keep att c =
     (if u32_max < slot_idx then ([], c)
      else let rs = map (drop_page slot_idx keep att (rc_clock c)) (rc_nodes c)
           in (sort (List.map_filter snd rs), c\<lparr>rc_nodes := map fst rs\<rparr>))"

subsection \<open>Statistics and eviction accounting\<close>

definition node_count :: "radix_cache \<Rightarrow> nat" where
  "node_count c = length (rc_nodes c)"

definition free_node_count :: "radix_cache \<Rightarrow> nat" where
  "free_node_count c = length (rc_free_nodes c)"

definition cached_block_count :: "radix_cache \<Rightarrow> nat" where
  "cached_block_count c = length (filter (\<lambda>n. n_block_id n \<noteq> None) (rc_nodes c))"

definition node_is_reclaimable_now :: "radix_cache \<Rightarrow> node \<Rightarrow> tier option \<Rightarrow> bool" where
  "node_is_reclaimable_now c n tf \<longleftrightarrow> n_block_id n \<noteq> None \<and> n_ref_count n = 0 \<and> n_entry_state n = Ready \<and>
     soft_pin_expired (rc_clock c) n \<and> tier_ok tf n"

definition node_counts_as_sparse_dropped :: "radix_cache \<Rightarrow> node \<Rightarrow> tier option \<Rightarrow> bool" where
  "node_counts_as_sparse_dropped c n tf \<longleftrightarrow> n_sparse_dropped n \<and> node_is_reclaimable_now c n tf"

fun node_is_cascade_evictable_now :: "nat \<Rightarrow> radix_cache \<Rightarrow> tier option \<Rightarrow> nat \<Rightarrow> bool option" where
  "node_is_cascade_evictable_now 0 c tf idx = None"
| "node_is_cascade_evictable_now (Suc fuel) c tf idx =
     (case get_at (rc_nodes c) idx of None \<Rightarrow> Some False
      | Some n \<Rightarrow> if node_counts_as_sparse_dropped c n tf \<or> node_is_reclaimable_now c n tf
                  then all_opt (node_is_cascade_evictable_now fuel c tf) (map snd (n_children n)) else Some False)"

fun collect_kids :: "('a \<Rightarrow> 'b list \<Rightarrow> (bool \<times> 'b list) option) \<Rightarrow> 'a list \<Rightarrow> bool \<Rightarrow> 'b list \<Rightarrow> (bool \<times> 'b list) option" where
  "collect_kids f [] ok out = Some (ok, out)"
| "collect_kids f (x # xs) ok out = do { (b, out1) \<leftarrow> f x out; collect_kids f xs (ok \<and> b) out1 }"

fun collect_cascade_evictable_blocks ::
    "nat \<Rightarrow> radix_cache \<Rightarrow> tier option \<Rightarrow> nat \<Rightarrow> block_id list \<Rightarrow> (bool \<times> block_id list) option" where
  "collect_cascade_evictable_blocks 0 c tf idx out = None"
| "collect_cascade_evictable_blocks (Suc fuel) c tf idx out =
     (case get_at (rc_nodes c) idx of None \<Rightarrow> Some (False, out)
      | Some n \<Rightarrow>
        do { (kids_ok, out1) \<leftarrow> collect_kids (collect_cascade_evictable_blocks fuel c tf) (map snd (n_children n)) True out;
             let evictable = (node_counts_as_sparse_dropped c n tf \<or> node_is_reclaimable_now c n tf) \<and> kids_ok
             in Some (evictable, if evictable then (case n_block_id n of Some b \<Rightarrow> out1 @ [b] | None \<Rightarrow> out1) else out1) })"

definition cascade_evictable_blocks :: "radix_cache \<Rightarrow> tier option \<Rightarrow> block_id list option" where
  "cascade_evictable_blocks c tf =
     do { root \<leftarrow> get_at (rc_nodes c) 0;
          (ok, out) \<leftarrow> collect_kids (collect_cascade_evictable_blocks (Suc (length (rc_nodes c))) c tf) (map snd (n_children root)) True [];
          Some out }"

definition is_block_evictable :: "radix_cache \<Rightarrow> block_id \<Rightarrow> tier option \<Rightarrow> bool option" where
  "is_block_evictable c b tf =
     (case rc_block_index c b of None \<Rightarrow> Some False
      | Some i \<Rightarrow> node_is_cascade_evictable_now (Suc (length (rc_nodes c))) c tf i)"

definition evictable_tokens :: "radix_cache \<Rightarrow> nat option" where
  "evictable_tokens c = map_option (\<lambda>bs. saturating_mul usize_max (length bs) (rc_block_size c)) (cascade_evictable_blocks c None)"

definition evictable_pages :: "radix_cache \<Rightarrow> nat \<Rightarrow> nat option" where
  "evictable_pages c page_size = map_option (\<lambda>t. div_ceil t (max page_size 1)) (evictable_tokens c)"

subsection \<open>Metadata\<close>

record metadata_update =
  mu_location :: "block_location option"
  mu_byte_len :: "nat option"
  mu_session_id :: "session option option"
  mu_host_swap_eligible :: "bool option"
  mu_soft_pin_until :: "nat option option"
  mu_host_spill_pin_until :: "nat option option"
  mu_entry_state :: "index_entry_state option"

definition metadata_update_default :: metadata_update where
  "metadata_update_default = \<lparr>mu_location = None, mu_byte_len = None, mu_session_id = None, mu_host_swap_eligible = None,
     mu_soft_pin_until = None, mu_host_spill_pin_until = None, mu_entry_state = None\<rparr>"

record metadata =
  md_location :: "block_location option"
  md_byte_len :: nat
  md_session_id :: "session option"
  md_host_swap_eligible :: bool
  md_fingerprint :: "fingerprint option"
  md_soft_pin_until :: "nat option"
  md_host_spill_pin_until :: "nat option"
  md_entry_state :: index_entry_state
  md_store_state :: store_state
  md_hit_count :: nat
  md_ref_count :: nat

definition block_metadata :: "block_id \<Rightarrow> radix_cache \<Rightarrow> metadata option" where
  "block_metadata b c =
     do { idx \<leftarrow> rc_block_index c b;
          n \<leftarrow> get_at (rc_nodes c) idx;
          Some \<lparr>md_location = n_tier_location n, md_byte_len = n_byte_len n, md_session_id = n_session_id n,
                md_host_swap_eligible = n_host_swap_eligible n, md_fingerprint = n_fingerprint n,
                md_soft_pin_until = n_soft_pin_until n, md_host_spill_pin_until = n_host_spill_pin_until n,
                md_entry_state = n_entry_state n, md_store_state = n_store_state n,
                md_hit_count = n_hit_count n, md_ref_count = n_ref_count n\<rparr> }"

definition set_location :: "block_location \<Rightarrow> node \<Rightarrow> node" where
  "set_location loc n =
     (let n1 = n\<lparr>n_tier_location := Some loc\<rparr>
      in if tier_of loc = THostPinned then n1 else n1\<lparr>n_host_spill_pin_until := None\<rparr>)"

definition set_block_location :: "block_id \<Rightarrow> block_location \<Rightarrow> radix_cache \<Rightarrow> bool \<times> radix_cache" where
  "set_block_location b loc = with_block_node b (set_location loc)"

definition set_block_byte_len :: "block_id \<Rightarrow> nat \<Rightarrow> radix_cache \<Rightarrow> bool \<times> radix_cache" where
  "set_block_byte_len b len = with_block_node b (\<lambda>n. n\<lparr>n_byte_len := len\<rparr>)"

definition set_block_session_id :: "block_id \<Rightarrow> session option \<Rightarrow> radix_cache \<Rightarrow> bool \<times> radix_cache" where
  "set_block_session_id b sid = with_block_node b (\<lambda>n. n\<lparr>n_session_id := sid\<rparr>)"

definition set_block_soft_pin_until :: "block_id \<Rightarrow> nat option \<Rightarrow> radix_cache \<Rightarrow> bool \<times> radix_cache" where
  "set_block_soft_pin_until b d = with_block_node b (\<lambda>n. n\<lparr>n_soft_pin_until := d\<rparr>)"

definition set_block_host_spill_pin_until :: "block_id \<Rightarrow> nat option \<Rightarrow> radix_cache \<Rightarrow> bool \<times> radix_cache" where
  "set_block_host_spill_pin_until b d = with_block_node b (\<lambda>n. n\<lparr>n_host_spill_pin_until := d\<rparr>)"

definition apply_update :: "metadata_update \<Rightarrow> node \<Rightarrow> node" where
  "apply_update u n =
     (let n1 = (case mu_location u of Some loc \<Rightarrow> set_location loc n | None \<Rightarrow> n);
          n2 = (case mu_byte_len u of Some x \<Rightarrow> n1\<lparr>n_byte_len := x\<rparr> | None \<Rightarrow> n1);
          n3 = (case mu_session_id u of Some x \<Rightarrow> n2\<lparr>n_session_id := x\<rparr> | None \<Rightarrow> n2);
          n4 = (case mu_host_swap_eligible u of Some x \<Rightarrow> n3\<lparr>n_host_swap_eligible := x\<rparr> | None \<Rightarrow> n3);
          n5 = (case mu_soft_pin_until u of Some x \<Rightarrow> n4\<lparr>n_soft_pin_until := x\<rparr> | None \<Rightarrow> n4);
          n6 = (case mu_host_spill_pin_until u of Some x \<Rightarrow> n5\<lparr>n_host_spill_pin_until := x\<rparr> | None \<Rightarrow> n5)
      in (case mu_entry_state u of Some x \<Rightarrow> n6\<lparr>n_entry_state := x\<rparr> | None \<Rightarrow> n6))"

definition update_block_metadata :: "block_id \<Rightarrow> metadata_update \<Rightarrow> radix_cache \<Rightarrow> bool \<times> radix_cache" where
  "update_block_metadata b u = with_block_node b (apply_update u)"

definition set_block_index_state :: "block_id \<Rightarrow> index_entry_state \<Rightarrow> radix_cache \<Rightarrow> bool \<times> radix_cache" where
  "set_block_index_state b st = with_block_node b (\<lambda>n. n\<lparr>n_entry_state := st\<rparr>)"

definition set_block_store_state :: "block_id \<Rightarrow> store_state \<Rightarrow> radix_cache \<Rightarrow> bool \<times> radix_cache" where
  "set_block_store_state b st = with_block_node b (\<lambda>n. n\<lparr>n_store_state := st\<rparr>)"

definition insert_pending :: "block_id \<Rightarrow> radix_cache \<Rightarrow> bool \<times> radix_cache" where
  "insert_pending b = set_block_index_state b Pending"

definition mark_block_evicting :: "block_id \<Rightarrow> radix_cache \<Rightarrow> bool \<times> radix_cache" where
  "mark_block_evicting b = set_block_index_state b Evicting"

definition commit_ready :: "block_id \<Rightarrow> block_location option \<Rightarrow> radix_cache \<Rightarrow> bool \<times> radix_cache" where
  "commit_ready b loc = update_block_metadata b (metadata_update_default\<lparr>mu_location := loc, mu_entry_state := Some Ready\<rparr>)"

definition mark_block_store_pending :: "block_id \<Rightarrow> radix_cache \<Rightarrow> bool \<times> radix_cache" where
  "mark_block_store_pending b = set_block_store_state b SPending"

definition mark_block_storing :: "block_id \<Rightarrow> radix_cache \<Rightarrow> bool \<times> radix_cache" where
  "mark_block_storing b = set_block_store_state b Storing"

definition mark_block_stored :: "block_id \<Rightarrow> block_location option \<Rightarrow> radix_cache \<Rightarrow> bool \<times> radix_cache" where
  "mark_block_stored b loc c =
     (let (updated, c1) = (case loc of Some l \<Rightarrow> set_block_location b l c | None \<Rightarrow> (rc_block_index c b \<noteq> None, c))
      in if updated then set_block_store_state b Stored c1 else (False, c1))"

definition mark_block_store_failed :: "block_id \<Rightarrow> radix_cache \<Rightarrow> bool \<times> radix_cache" where
  "mark_block_store_failed b = set_block_store_state b Failed"

definition bump_soft_pin :: "block_id \<Rightarrow> nat \<Rightarrow> radix_cache \<Rightarrow> bool \<times> radix_cache" where
  "bump_soft_pin b ticks_ahead c =
     (let deadline = saturating_add u64_max (rc_clock c) ticks_ahead
      in case do { i \<leftarrow> rc_block_index c b; n \<leftarrow> get_at (rc_nodes c) i; n_soft_pin_until n } of
           Some _ \<Rightarrow> with_block_node b (\<lambda>n. n\<lparr>n_soft_pin_until := Some deadline\<rparr>) c
         | None \<Rightarrow> (False, c))"

subsection \<open>Snapshots\<close>

text \<open>
  What a snapshot holds. The runtime-only fields of a node are not written and come back as their
  defaults. The JSON encoder and decoder are parameters.
\<close>

record snapshot =
  sn_nodes :: "node list"
  sn_free_nodes :: "nat list"
  sn_block_size :: nat
  sn_keepalive :: "nat option"
  sn_namespace :: "nat list"

definition persisted_node :: "node \<Rightarrow> node" where
  "persisted_node n = n\<lparr>n_ref_count := 0, n_last_access := 0, n_host_swap_eligible := False,
     n_soft_pin_until := None, n_host_spill_pin_until := None, n_sparse_dropped := False\<rparr>"

definition snapshot_of :: "radix_cache \<Rightarrow> snapshot" where
  "snapshot_of c = \<lparr>sn_nodes = map persisted_node (rc_nodes c), sn_free_nodes = rc_free_nodes c,
     sn_block_size = rc_block_size c, sn_keepalive = rc_keepalive c, sn_namespace = rc_namespace c\<rparr>"

datatype snapshot_error = SerializeError | DeserializeError | NamespaceMismatch "nat list" "nat list"

definition save_snapshot :: "(snapshot \<Rightarrow> 'j option) \<Rightarrow> radix_cache \<Rightarrow> snapshot_error + 'j" where
  "save_snapshot encode c = (case encode (snapshot_of c) of None \<Rightarrow> Inl SerializeError | Some j \<Rightarrow> Inr j)"

definition load_snapshot :: "('j \<Rightarrow> snapshot option) \<Rightarrow> 'j \<Rightarrow> nat list \<Rightarrow> snapshot_error + radix_cache" where
  "load_snapshot decode j expected =
     (case decode j of None \<Rightarrow> Inl DeserializeError
      | Some s \<Rightarrow>
        if sn_namespace s \<noteq> expected then Inl (NamespaceMismatch expected (sn_namespace s))
        else Inr \<lparr>rc_nodes = sn_nodes s, rc_free_nodes = sn_free_nodes s, rc_block_size = sn_block_size s, rc_clock = 0,
                   rc_keepalive = sn_keepalive s, rc_block_index = Map.empty, rc_namespace = sn_namespace s\<rparr>)"

declare select_loop.simps [code] sparse_loop.simps [code]

end
