(* ===== verification/Radix_Account.thy ===== *)
theory Radix_Account
  imports Radix_Ops
begin

text \<open>
  Eviction accounting and selection: what the cache promises can be evicted is what an eviction
  frees, and the blocks selected for demotion are eligible and closed downwards in their tier.
\<close>

subsection \<open>Cascade eviction\<close>

definition all_reclaimable :: "radix_cache \<Rightarrow> tier option \<Rightarrow> nat \<Rightarrow> bool" where
  "all_reclaimable c tf i \<longleftrightarrow> (\<forall>x. (kid c)\<^sup>*\<^sup>* i x \<longrightarrow> node_is_reclaimable_now c (rc_nodes c ! x) tf)"

lemma all_reclaimable_step:
  "all_reclaimable c tf i \<longleftrightarrow> node_is_reclaimable_now c (rc_nodes c ! i) tf \<and> (\<forall>j. kid c i j \<longrightarrow> all_reclaimable c tf j)"
  unfolding all_reclaimable_def by (metis converse_rtranclp_into_rtranclp converse_rtranclpE rtranclp.rtrancl_refl)

lemma all_reclaimable_mono: "all_reclaimable c tf i \<Longrightarrow> (kid c)\<^sup>*\<^sup>* i x \<Longrightarrow> all_reclaimable c tf x"
  unfolding all_reclaimable_def by (meson rtranclp_trans)

lemma sparse_or_reclaimable [simp]:
  "(node_counts_as_sparse_dropped c n tf \<or> node_is_reclaimable_now c n tf) \<longleftrightarrow> node_is_reclaimable_now c n tf"
  by (auto simp: node_counts_as_sparse_dropped_def)

text \<open>The rank of a slot: enough fuel for the subtree below it.\<close>

definition room :: "radix_cache \<Rightarrow> (nat \<Rightarrow> nat) \<Rightarrow> nat \<Rightarrow> nat" where
  "room c pl i = card {k. k < length (rc_nodes c) \<and> pl i \<le> pl k}"

lemma room_kid:
  assumes "ranked c pl" and "kid c i j"
  shows "j < length (rc_nodes c)" and "room c pl j < room c pl i"
proof -
  have j: "j < length (rc_nodes c)" "pl i < pl j" "i < length (rc_nodes c)" using assms by (auto simp: ranked_def kid_def)
  show "j < length (rc_nodes c)" by (rule j(1))
  have "i \<in> {k. k < length (rc_nodes c) \<and> pl i \<le> pl k}" "i \<notin> {k. k < length (rc_nodes c) \<and> pl j \<le> pl k}"
    "{k. k < length (rc_nodes c) \<and> pl j \<le> pl k} \<subseteq> {k. k < length (rc_nodes c) \<and> pl i \<le> pl k}" using j by auto
  then show "room c pl j < room c pl i" unfolding room_def by (intro psubset_card_mono) auto
qed

lemma room_le: "room c pl i \<le> length (rc_nodes c)"
proof -
  have "room c pl i \<le> card {..<length (rc_nodes c)}" unfolding room_def by (rule card_mono) auto
  then show ?thesis by simp
qed

lemma kid_mem: "i < length (rc_nodes c) \<Longrightarrow> kid c i j \<longleftrightarrow> j \<in> set (map snd (n_children (rc_nodes c ! i)))"
  by (simp add: kid_def)

lemma cascade_evictable_iff:
  assumes r: "ranked c pl" and "i < length (rc_nodes c)" and "room c pl i < fuel"
  shows "node_is_cascade_evictable_now fuel c tf i = Some (all_reclaimable c tf i)"
  using assms(2,3)
proof (induction fuel arbitrary: i)
  case (Suc fuel)
  have "node_is_cascade_evictable_now fuel c tf j = Some (all_reclaimable c tf j)" if "kid c i j" for j
    by (rule Suc.IH) (use room_kid [OF r that] Suc.prems(2) in auto)
  then have "all_opt (node_is_cascade_evictable_now fuel c tf) (map snd (n_children (rc_nodes c ! i))) =
      Some (\<forall>j\<in>set (map snd (n_children (rc_nodes c ! i))). all_reclaimable c tf j)"
    by (intro all_opt_total) (use kid_mem [OF Suc.prems(1)] in blast)
  then show ?case using Suc.prems(1) all_reclaimable_step [of c tf i] kid_mem [OF Suc.prems(1)] by auto
qed simp

lemma collect_kids_ok:
  assumes "\<And>x out. x \<in> set xs \<Longrightarrow> \<exists>bs. f x out = Some (q x, out @ bs) \<and> set bs = B x"
  shows "\<exists>bs. collect_kids f xs ok out = Some (ok \<and> (\<forall>x\<in>set xs. q x), out @ bs) \<and> set bs = (\<Union>x\<in>set xs. B x)"
  using assms
proof (induction xs arbitrary: ok out)
  case (Cons x xs)
  obtain bs where bs: "f x out = Some (q x, out @ bs)" "set bs = B x" using Cons.prems by force
  obtain cs where "collect_kids f xs (ok \<and> q x) (out @ bs) = Some ((ok \<and> q x) \<and> (\<forall>x\<in>set xs. q x), (out @ bs) @ cs)"
    "set cs = (\<Union>x\<in>set xs. B x)" using Cons.IH [of "ok \<and> q x" "out @ bs"] Cons.prems by force
  then show ?case using bs by (intro exI [of _ "bs @ cs"]) auto
qed simp

definition reclaimable_blocks :: "radix_cache \<Rightarrow> tier option \<Rightarrow> nat \<Rightarrow> block_id set" where
  "reclaimable_blocks c tf i = {b. \<exists>x. (kid c)\<^sup>*\<^sup>* i x \<and> n_block_id (rc_nodes c ! x) = Some b \<and> all_reclaimable c tf x}"

lemma reclaimable_blocks_step:
  "reclaimable_blocks c tf i = (\<Union>j\<in>{j. kid c i j}. reclaimable_blocks c tf j) \<union>
     (if all_reclaimable c tf i then set_option (n_block_id (rc_nodes c ! i)) else {})"
proof (rule set_eqI, rule iffI)
  fix b assume "b \<in> reclaimable_blocks c tf i"
  then obtain x where x: "(kid c)\<^sup>*\<^sup>* i x" "n_block_id (rc_nodes c ! x) = Some b" "all_reclaimable c tf x"
    by (auto simp: reclaimable_blocks_def)
  from x(1) show "b \<in> (\<Union>j\<in>{j. kid c i j}. reclaimable_blocks c tf j) \<union>
     (if all_reclaimable c tf i then set_option (n_block_id (rc_nodes c ! i)) else {})"
    by (cases rule: converse_rtranclpE) (use x in \<open>auto simp: reclaimable_blocks_def\<close>)
next
  fix b assume "b \<in> (\<Union>j\<in>{j. kid c i j}. reclaimable_blocks c tf j) \<union>
     (if all_reclaimable c tf i then set_option (n_block_id (rc_nodes c ! i)) else {})"
  then show "b \<in> reclaimable_blocks c tf i"
    by (auto simp: reclaimable_blocks_def split: if_splits intro: converse_rtranclp_into_rtranclp)
qed

lemma collect_cascade_ok:
  assumes r: "ranked c pl" and "i < length (rc_nodes c)" and "room c pl i < fuel"
  shows "\<exists>bs. collect_cascade_evictable_blocks fuel c tf i out = Some (all_reclaimable c tf i, out @ bs) \<and>
     set bs = reclaimable_blocks c tf i"
  using assms(2,3)
proof (induction fuel arbitrary: i out)
  case (Suc fuel)
  let ?ks = "map snd (n_children (rc_nodes c ! i))"
  have "\<exists>bs. collect_cascade_evictable_blocks fuel c tf j out = Some (all_reclaimable c tf j, out @ bs) \<and>
      set bs = reclaimable_blocks c tf j" if "j \<in> set ?ks" for j out
    by (rule Suc.IH) (use room_kid [OF r, of i j] that kid_mem [OF Suc.prems(1)] Suc.prems(2) in auto)
  then have "\<exists>bs. collect_kids (collect_cascade_evictable_blocks fuel c tf) ?ks True out =
      Some (True \<and> (\<forall>x\<in>set ?ks. all_reclaimable c tf x), out @ bs) \<and> set bs = (\<Union>x\<in>set ?ks. reclaimable_blocks c tf x)"
    by (rule collect_kids_ok)
  then obtain bs where
    bs: "collect_kids (collect_cascade_evictable_blocks fuel c tf) ?ks True out =
      Some (True \<and> (\<forall>x\<in>set ?ks. all_reclaimable c tf x), out @ bs)"
    "set bs = (\<Union>x\<in>set ?ks. reclaimable_blocks c tf x)" by blast
  have st: "all_reclaimable c tf i \<longleftrightarrow> node_is_reclaimable_now c (rc_nodes c ! i) tf \<and> (\<forall>x\<in>set ?ks. all_reclaimable c tf x)"
    using all_reclaimable_step [of c tf i] kid_mem [OF Suc.prems(1)] by blast
  have "{j. kid c i j} = set ?ks" using kid_mem [OF Suc.prems(1)] by blast
  with reclaimable_blocks_step [of c tf i] bs(2) have rb: "reclaimable_blocks c tf i = set bs \<union>
     (if all_reclaimable c tf i then set_option (n_block_id (rc_nodes c ! i)) else {})" by simp
  have blk: "all_reclaimable c tf i \<Longrightarrow> n_block_id (rc_nodes c ! i) \<noteq> None"
    unfolding st by (simp add: node_is_reclaimable_now_def)
  show ?case
  proof (cases "all_reclaimable c tf i")
    case True
    then obtain b where "n_block_id (rc_nodes c ! i) = Some b" using blk by blast
    then show ?thesis using True Suc.prems(1) bs(1) st rb by (intro exI [of _ "bs @ [b]"]) simp
  next
    case False
    then have st': "(node_is_reclaimable_now c (rc_nodes c ! i) tf \<and> (\<forall>x\<in>set ?ks. all_reclaimable c tf x)) = False"
      using st by blast
    have "collect_cascade_evictable_blocks (Suc fuel) c tf i out = Some (False, out @ bs)"
      using Suc.prems(1) bs(1) st' by (simp only: collect_cascade_evictable_blocks.simps get_at_less option.case bind.bind_lunit
         prod.case sparse_or_reclaimable simp_thms Let_def if_False)
    then show ?thesis using False rb by (intro exI [of _ bs]) simp
  qed
qed simp

lemma cascade_blocks_ok:
  assumes t: "tree_ok c pl"
  shows "\<exists>bs. cascade_evictable_blocks c tf = Some bs \<and> set bs = (\<Union>j\<in>{j. kid c 0 j}. reclaimable_blocks c tf j)"
proof -
  note r = tree_ok_ranked [OF t] and l = tree_okD(2) [OF t]
  let ?ks = "map snd (n_children (rc_nodes c ! 0))"
  have "\<exists>bs. collect_cascade_evictable_blocks (Suc (length (rc_nodes c))) c tf j out = Some (all_reclaimable c tf j, out @ bs) \<and>
      set bs = reclaimable_blocks c tf j" if "j \<in> set ?ks" for j out
    by (rule collect_cascade_ok [OF r])
      (use room_kid(1) [OF r, of 0 j] room_le [of c pl j] that kid_mem [OF l] in \<open>auto simp: less_Suc_eq_le\<close>)
  then have "\<exists>bs. collect_kids (collect_cascade_evictable_blocks (Suc (length (rc_nodes c))) c tf) ?ks True [] =
      Some (True \<and> (\<forall>x\<in>set ?ks. all_reclaimable c tf x), [] @ bs) \<and> set bs = (\<Union>x\<in>set ?ks. reclaimable_blocks c tf x)"
    by (rule collect_kids_ok)
  then obtain bs where
    bs: "collect_kids (collect_cascade_evictable_blocks (Suc (length (rc_nodes c))) c tf) ?ks True [] =
      Some (True \<and> (\<forall>x\<in>set ?ks. all_reclaimable c tf x), [] @ bs)"
    "set bs = (\<Union>x\<in>set ?ks. reclaimable_blocks c tf x)" by blast
  have "{j. kid c 0 j} = set ?ks" using kid_mem [OF l] by blast
  then show ?thesis using bs l
    by (simp add: cascade_evictable_blocks_def del: collect_cascade_evictable_blocks.simps)
qed

lemma is_block_evictable_iff:
  assumes t: "tree_ok c pl" and ix: "index_ok c"
  shows "is_block_evictable c b tf =
     Some (case rc_block_index c b of None \<Rightarrow> False | Some i \<Rightarrow> all_reclaimable c tf i)"
proof (cases "rc_block_index c b")
  case (Some i)
  then have "i < length (rc_nodes c)" using index_okD [OF ix] by blast
  from cascade_evictable_iff [OF tree_ok_ranked [OF t] this, of "Suc (length (rc_nodes c))"] room_le [of c pl i] Some
  show ?thesis by (simp add: is_block_evictable_def less_Suc_eq_le del: node_is_cascade_evictable_now.simps)
qed (simp add: is_block_evictable_def)

subsection \<open>Selection\<close>

lemma exposed_cleared [simp]: "exposed (cleared c ev) tf ev j \<longleftrightarrow> exposed c tf ev j"
proof
  show "exposed (cleared c ev) tf ev j \<Longrightarrow> exposed c tf ev j"
    by (induction rule: exposed.induct) (auto simp: matches_cleared intro: exposed.intros)
  show "exposed c tf ev j \<Longrightarrow> exposed (cleared c ev) tf ev j"
    by (induction rule: exposed.induct) (auto simp: matches_cleared intro: exposed.intros)
qed

lemma select_keep_order: "select_keep a b \<or> select_keep b a" "select_keep a b \<Longrightarrow> select_keep b d \<Longrightarrow> select_keep a d"
proof -
  show "select_keep a b \<or> select_keep b a" unfolding select_keep_def total_eq_def by (meson linear)
  show "select_keep a d" if "select_keep a b" "select_keep b d"
    using that unfolding select_keep_def total_eq_def by (meson order_trans total_less_trans total_not_less_trans)
qed

definition select_ok ::
    "score_fn \<Rightarrow> scheduler_signals \<Rightarrow> tier option \<Rightarrow> selection_intent \<Rightarrow> bool \<Rightarrow> radix_cache \<Rightarrow> nat \<Rightarrow> bool" where
  "select_ok score sig tf intent need_swap c v \<longleftrightarrow> v \<noteq> 0 \<and> v < length (rc_nodes c) \<and>
     policy_eligible tf intent {} (rc_clock c) (rc_nodes c ! v) \<and> (need_swap \<longrightarrow> n_host_swap_eligible (rc_nodes c ! v)) \<and>
     is_finite (score (candidate_of c (rc_nodes c ! v)) sig)"

lemma select_cand_eq:
  assumes "ranked c pl" and "v < length (rc_nodes c)"
  shows "select_cand score sig tf intent need_swap c sel v (rc_nodes c ! v) =
     Some (if select_ok score sig tf intent need_swap c v \<and> v \<notin> sel \<and> (\<forall>j. kid c v j \<longrightarrow> \<not> exposed c tf sel j)
           then Some (score (candidate_of c (rc_nodes c ! v)) sig, the (n_block_id (rc_nodes c ! v))) else None)"
  using active_leaf_exposed [OF assms, of tf sel] assms(2)
  by (auto simp: select_cand_def select_ok_def policy_eligible_def finite_score_def split: option.split)

lemma scan_hit:
  assumes "\<And>k. k < length ns \<Longrightarrow> cand k (ns ! k) = Some (g k)"
    and keep: "\<And>a b. keep a b \<or> keep b a" "\<And>a b d. keep a b \<Longrightarrow> keep b d \<Longrightarrow> keep a d"
  shows "\<exists>r. scan_best cand keep 0 ns None = Some r \<and> (\<forall>x. r = Some x \<longrightarrow> snd x < length ns \<and> g (snd x) = Some (fst x))"
proof -
  have "\<exists>r. scan_best cand keep 0 ns None = Some r \<and>
     (r = None \<longleftrightarrow> None = (None :: ('a \<times> nat) option) \<and> (\<forall>k<length ns. g (0 + k) = None)) \<and>
     (\<forall>x. r = Some x \<longrightarrow> (None = Some x \<or> (\<exists>k<length ns. snd x = 0 + k \<and> g (0 + k) = Some (fst x))) \<and>
        (\<forall>b. None = Some b \<longrightarrow> keep x b) \<and> (\<forall>k<length ns. \<forall>y. g (0 + k) = Some y \<longrightarrow> keep x (y, 0 + k)))"
    by (rule scan_best_ok) (use assms in \<open>simp, blast, blast\<close>)
  then show ?thesis by auto
qed

definition sel_inv where
  "sel_inv score sig tf intent need_swap n c sel selected \<longleftrightarrow> finite sel \<and> below_clear c tf sel \<and> length selected \<le> n \<and>
     distinct selected \<and> set selected = {b. \<exists>i\<in>sel. n_block_id (rc_nodes c ! i) = Some b} \<and>
     (\<forall>i\<in>sel. select_ok score sig tf intent need_swap c i)"

lemma select_loop_ok:
  assumes r: "ranked c pl" and ix: "index_ok c" and "sel_inv score sig tf intent need_swap n c sel selected"
  shows "\<exists>selected' sel'. select_loop score sig tf intent need_swap n c sel selected = Some selected' \<and>
     sel_inv score sig tf intent need_swap n c sel' selected'"
  using assms(3)
proof (induction "n - length selected" arbitrary: sel selected rule: less_induct)
  case less
  note unf = select_loop.simps [of score sig tf intent need_swap n c sel selected]
  let ?cd = "\<lambda>v. select_ok score sig tf intent need_swap c v \<and> v \<notin> sel \<and> (\<forall>j. kid c v j \<longrightarrow> \<not> exposed c tf sel j)"
  let ?g = "\<lambda>v. if ?cd v then Some (score (candidate_of c (rc_nodes c ! v)) sig, the (n_block_id (rc_nodes c ! v))) else None"
  show ?case
  proof (cases "length selected < n")
    case False
    then show ?thesis using less.prems by (subst unf) auto
  next
    case lt: True
    obtain best where best: "scan_best (select_cand score sig tf intent need_swap c sel) select_keep 0 (rc_nodes c) None = Some best"
      "\<forall>x. best = Some x \<longrightarrow> snd x < length (rc_nodes c) \<and> ?g (snd x) = Some (fst x)"
    proof -
      have "\<exists>r. scan_best (select_cand score sig tf intent need_swap c sel) select_keep 0 (rc_nodes c) None = Some r \<and>
         (\<forall>x. r = Some x \<longrightarrow> snd x < length (rc_nodes c) \<and> ?g (snd x) = Some (fst x))"
        by (rule scan_hit) (use select_cand_eq [OF r] select_keep_order in \<open>blast, blast, blast\<close>)
      then show thesis using that by blast
    qed
    show ?thesis
    proof (cases best)
      case None
      then show ?thesis using less.prems lt best(1) by (subst unf) auto
    next
      case (Some x)
      obtain sc b v where x: "x = ((sc, b), v)" by (cases x) auto
      have v: "v < length (rc_nodes c)" "?g v = Some (sc, b)"
        using best(2) [rule_format, OF Some [unfolded x]] unfolding fst_conv snd_conv by blast+
      have cd: "?cd v" using v(2) by (metis option.distinct(1))
      with v(2) have bv: "b = the (n_block_id (rc_nodes c ! v))" by simp
      from cd bv have nb: "n_block_id (rc_nodes c ! v) = Some b" by (auto simp: select_ok_def policy_eligible_def)
      note inv = less.prems [unfolded sel_inv_def]
      have "i = v" if "i \<in> sel" "n_block_id (rc_nodes c ! i) = Some b" for i
        using that inv v(1) nb index_okD [OF ix] by (metis option.inject select_ok_def)
      then have "b \<notin> set selected" using inv cd by blast
      moreover have "below_clear c tf (insert v sel)" by (rule below_clear_insert) (use inv cd in auto)
      moreover have "set (selected @ [b]) = {b'. \<exists>i\<in>insert v sel. n_block_id (rc_nodes c ! i) = Some b'}"
        using inv nb by auto
      ultimately have "sel_inv score sig tf intent need_swap n c (insert v sel) (selected @ [b])"
        using inv lt cd unfolding sel_inv_def by simp
      from less.hyps [OF _ this] show ?thesis using lt best(1) Some x by (subst unf) auto
    qed
  qed
qed

subsection \<open>Properties\<close>

text \<open>
  The two eviction accounts agree: for a cached prefix, \<open>is_block_evictable\<close> says yes exactly
  when its block is in the list \<open>cascade_evictable_blocks\<close> collects, for every tier filter.
\<close>

theorem evictable_accounts_agree:
  assumes "radix_wf c" and "cached c p = Some b"
  shows "\<exists>bs. cascade_evictable_blocks c tf = Some bs \<and> is_block_evictable c b tf = Some (b \<in> set bs)"
proof -
  obtain pl where t: "tree_ok c pl" and ix: "index_ok c" using assms(1) by (auto simp: radix_wf_def)
  obtain bs where bs: "cascade_evictable_blocks c tf = Some bs" "set bs = (\<Union>j\<in>{j. kid c 0 j}. reclaimable_blocks c tf j)"
    using cascade_blocks_ok [OF t] by blast
  obtain i where i: "at_path c p i" "n_block_id (rc_nodes c ! i) = Some b" using assms(2) cached_iff [OF t] by blast
  have il: "i < length (rc_nodes c)" using at_path_pl [OF t i(1)] by simp
  then have bi: "rc_block_index c b = Some i" using index_okD [OF ix] i(2) by simp
  have reach: "(kid c)\<^sup>*\<^sup>* 0 k" if "at_path c q k" for q k
    using that by induction (use kid_iff_edge [OF t] in \<open>auto intro: rtranclp.rtrancl_into_rtrancl\<close>)
  have "i \<noteq> 0" using i(2) tree_okD(8) [OF t] by (cases i) simp_all
  then obtain j where j: "kid c 0 j" "(kid c)\<^sup>*\<^sup>* j i" using reach [OF i(1)] by (metis converse_rtranclpE)
  have "x = i" if "(kid c)\<^sup>*\<^sup>* k x" "kid c 0 k" "n_block_id (rc_nodes c ! x) = Some b" for k x
  proof -
    have "x = 0 \<or> (\<exists>y. kid c y x)" using that(1,2) by (metis rtranclp.cases)
    then have "x < length (rc_nodes c)" using tree_ok_ranked [OF t] tree_okD(2) [OF t] by (auto simp: ranked_def)
    then show ?thesis using index_okD [OF ix, of b x] that(3) bi by simp
  qed
  then have "b \<in> set bs \<longleftrightarrow> all_reclaimable c tf i"
    unfolding bs(2) reclaimable_blocks_def using j i(2) by blast
  then show ?thesis using is_block_evictable_iff [OF t ix, of b tf] bi bs(1) by simp
qed

theorem evictable_accounts_agree_witness:
  "\<exists>bs. cascade_evictable_blocks ex_two None = Some bs \<and> is_block_evictable ex_two 10 None = Some (10 \<in> set bs)"
proof -
  have "cached ex_two [1, 2] = Some 10" by code_simp
  with evictable_accounts_agree [of ex_two "[1, 2]" 10 None] ex_two_inv show ?thesis by (simp add: cache_inv_def)
qed

text \<open>
  The eviction headroom is honest: a block that counts as evictable is freed by every LRU
  eviction that frees fewer blocks than it was asked for.
\<close>

theorem evictable_block_is_freed:
  assumes "radix_wf c" and "is_block_evictable c b None = Some True"
    and "radix_evict n c = Some (freed, c')" and "length freed < n"
  shows "b \<in> set freed"
proof (rule ccontr)
  assume nf: "b \<notin> set freed"
  obtain pl where t: "tree_ok c pl" and ix: "index_ok c" using assms(1) by (auto simp: radix_wf_def)
  obtain i where i: "rc_block_index c b = Some i" "all_reclaimable c None i"
    using assms(2) is_block_evictable_iff [OF t ix, of b None] by (auto split: option.splits)
  note b = index_okD [OF ix, of b i] i(1)
  have run': "evict_run pick_lru n c = Some (freed, c')" using assms(3,4) by (auto simp: radix_evict_run split: if_splits)
  obtain ev r where sel: "lru_picker.sel_ok n c ev freed" and none: "\<forall>v. \<not> lru_cand (cleared c ev) ev v"
    using lru_picker.picker_run [OF assms(1), of n] run' assms(4) by auto
  have bc: "below_clear c None ev" and fr: "set freed = {b. \<exists>i\<in>ev. block_at c i = Some b}"
    using sel by (auto simp: lru_picker.sel_ok_def)
  have il: "i < length (rc_nodes c)" "n_block_id (rc_nodes c ! i) = Some b" using b by auto
  then have "i \<notin> ev" using nf unfolding fr by (auto simp: block_at_def)
  from lru_stuck_below [OF assms(1) t none bc il(1) this] il(2) obtain x where
    "(kid c)\<^sup>*\<^sup>* i x" "n_ref_count (rc_nodes c ! x) \<noteq> 0" by auto
  then show False using i(2) by (auto simp: all_reclaimable_def node_is_reclaimable_now_def)
qed

theorem evictable_block_is_freed_witness:
  "11 \<in> set (fst (the (radix_evict 3 ex_two)))"
proof -
  have "is_block_evictable ex_two 11 None = Some True" by code_simp
  moreover have f: "map_option fst (radix_evict 3 ex_two) = Some [11, 10]" by code_simp
  then have "radix_evict 3 ex_two = Some ([11, 10], snd (the (radix_evict 3 ex_two)))" by (cases "radix_evict 3 ex_two") auto
  ultimately have "11 \<in> set [11, 10::nat]"
    using evictable_block_is_freed [of ex_two 11 3 "[11, 10]"] ex_two_inv by (simp add: cache_inv_def)
  then show ?thesis using f by (cases "radix_evict 3 ex_two") auto
qed

text \<open>
  Selection for demotion returns at most \<open>n\<close> different blocks without touching the cache. Each
  is eligible for the intent, swappable when asked, has a finite score, and every block of the
  requested tier below it is selected too, so no selected parent leaves a child behind.
\<close>

theorem select_blocks_closed_and_eligible:
  assumes "radix_wf c"
  shows "\<exists>bs. select_blocks_with_policy score sig n tf intent need_swap c = Some bs \<and> length bs \<le> n \<and> distinct bs \<and>
     (\<forall>b\<in>set bs. \<exists>i. rc_block_index c b = Some i \<and> select_ok score sig tf intent need_swap c i \<and>
        (\<forall>x b'. (kid c)\<^sup>*\<^sup>* i x \<longrightarrow> rc_block_index c b' = Some x \<longrightarrow> tier_ok tf (rc_nodes c ! x) \<longrightarrow> b' \<in> set bs))"
proof (cases "n = 0")
  case True
  then show ?thesis by (simp add: select_blocks_with_policy_def)
next
  case False
  obtain pl where t: "tree_ok c pl" and ix: "index_ok c" using assms by (auto simp: radix_wf_def)
  have "sel_inv score sig tf intent need_swap n c {} []" by (simp add: sel_inv_def below_clear_def)
  from select_loop_ok [OF tree_ok_ranked [OF t] ix this] obtain bs sel where
    l: "select_loop score sig tf intent need_swap n c {} [] = Some bs" and inv: "sel_inv score sig tf intent need_swap n c sel bs" by blast
  note s = inv [unfolded sel_inv_def]
  have "\<exists>i. rc_block_index c b = Some i \<and> select_ok score sig tf intent need_swap c i \<and>
        (\<forall>x b'. (kid c)\<^sup>*\<^sup>* i x \<longrightarrow> rc_block_index c b' = Some x \<longrightarrow> tier_ok tf (rc_nodes c ! x) \<longrightarrow> b' \<in> set bs)"
    if b: "b \<in> set bs" for b
  proof -
    obtain i where i: "i \<in> sel" "n_block_id (rc_nodes c ! i) = Some b" using b s by blast
    have ok: "select_ok score sig tf intent need_swap c i" using s i(1) by blast
    then have bi: "rc_block_index c b = Some i" using index_okD [OF ix] i(2) by (simp add: select_ok_def)
    have "b' \<in> set bs" if "(kid c)\<^sup>*\<^sup>* i x" "rc_block_index c b' = Some x" "tier_ok tf (rc_nodes c ! x)" for x b'
    proof -
      have x: "x < length (rc_nodes c)" "n_block_id (rc_nodes c ! x) = Some b'" using index_okD [OF ix, of b' x] that(2) by auto
      then have "node_matches_tier_filter c x tf" using that(3) by (simp add: node_matches_tier_filter_def)
      then have "x \<in> sel" using s i(1) that(1) by (auto simp: below_clear_def)
      then show ?thesis using s x(2) by blast
    qed
    then show ?thesis using bi ok by blast
  qed
  then show ?thesis using l s False by (simp add: select_blocks_with_policy_def)
qed

theorem select_blocks_closed_and_eligible_witness:
  "\<exists>bs. select_blocks_with_policy lru_score signals_default 1 None Evict False ex_two = Some bs \<and> length bs \<le> 1 \<and> distinct bs"
  using select_blocks_closed_and_eligible [of ex_two lru_score signals_default 1 None Evict False] ex_two_inv
  unfolding cache_inv_def by blast

end
