(* ===== verification/Radix_Meta.thy ===== *)
theory Radix_Meta
  imports Radix_Ops "HOL-Library.Multiset"
begin

text \<open>
  Metadata updates and snapshots leave the tree alone, sparse draft views are bounded and spare what
  they must keep, and the leases that lookups hand out are what the reference counts count.
\<close>

subsection \<open>Metadata updates\<close>

lemma with_block_node_Some:
  assumes "index_ok c" and "rc_block_index c b = Some i"
  shows "with_block_node b f c = (True, upd_at i f c)"
  using assms index_okD [OF assms(1), of b i] by (simp add: with_block_node_def upd_at_def)

lemma shape_set_location [simp]: "shape (set_location loc n) = shape n"
  by (simp add: set_location_def shape_def Let_def)

lemma shape_apply_update [simp]: "shape (apply_update u n) = shape n"
proof -
  have s: "shape (n\<lparr>n_byte_len := x\<rparr>) = shape n" "shape (n\<lparr>n_session_id := y\<rparr>) = shape n"
    "shape (n\<lparr>n_host_swap_eligible := z\<rparr>) = shape n" "shape (n\<lparr>n_soft_pin_until := p\<rparr>) = shape n"
    "shape (n\<lparr>n_host_spill_pin_until := p\<rparr>) = shape n" "shape (n\<lparr>n_entry_state := e\<rparr>) = shape n" for n x y z p e
    by (simp_all add: shape_def)
  show ?thesis unfolding apply_update_def Let_def
    by (cases "mu_location u"; cases "mu_byte_len u"; cases "mu_session_id u"; cases "mu_host_swap_eligible u";
        cases "mu_soft_pin_until u"; cases "mu_host_spill_pin_until u"; cases "mu_entry_state u") (simp_all add: s)
qed

text \<open>What a metadata record reads after an update.\<close>

definition updated :: "metadata_update \<Rightarrow> metadata \<Rightarrow> metadata" where
  "updated u d = d\<lparr>
     md_location := (case mu_location u of None \<Rightarrow> md_location d | Some l \<Rightarrow> Some l),
     md_byte_len := (case mu_byte_len u of None \<Rightarrow> md_byte_len d | Some x \<Rightarrow> x),
     md_session_id := (case mu_session_id u of None \<Rightarrow> md_session_id d | Some x \<Rightarrow> x),
     md_host_swap_eligible := (case mu_host_swap_eligible u of None \<Rightarrow> md_host_swap_eligible d | Some x \<Rightarrow> x),
     md_soft_pin_until := (case mu_soft_pin_until u of None \<Rightarrow> md_soft_pin_until d | Some x \<Rightarrow> x),
     md_host_spill_pin_until := (case mu_host_spill_pin_until u of Some x \<Rightarrow> x
        | None \<Rightarrow> (case mu_location u of Some l \<Rightarrow> if tier_of l = THostPinned then md_host_spill_pin_until d else None
                    | None \<Rightarrow> md_host_spill_pin_until d)),
     md_entry_state := (case mu_entry_state u of None \<Rightarrow> md_entry_state d | Some x \<Rightarrow> x)\<rparr>"

lemma block_metadata_upd_at:
  assumes "index_ok c" and "rc_block_index c b = Some i"
  shows "block_metadata b' (upd_at i f c) =
     (case rc_block_index c b' of None \<Rightarrow> None
      | Some j \<Rightarrow> let n = (if j = i then f (rc_nodes c ! i) else rc_nodes c ! j)
        in Some \<lparr>md_location = n_tier_location n, md_byte_len = n_byte_len n, md_session_id = n_session_id n,
                md_host_swap_eligible = n_host_swap_eligible n, md_fingerprint = n_fingerprint n,
                md_soft_pin_until = n_soft_pin_until n, md_host_spill_pin_until = n_host_spill_pin_until n,
                md_entry_state = n_entry_state n, md_store_state = n_store_state n,
                md_hit_count = n_hit_count n, md_ref_count = n_ref_count n\<rparr>)"
proof (cases "rc_block_index c b'")
  case (Some j)
  then have "j < length (rc_nodes c)" using index_okD [OF assms(1), of b' j] by simp
  then show ?thesis using Some by (auto simp: block_metadata_def upd_at_def Let_def nth_list_update)
qed (simp add: block_metadata_def upd_at_def)

lemma index_inj: "index_ok c \<Longrightarrow> rc_block_index c b = Some i \<Longrightarrow> rc_block_index c b' = Some i \<Longrightarrow> b = b'"
  by (metis index_okD option.inject)

subsection \<open>Snapshots\<close>

lemma index_nodes_none:
  "(\<And>j. j < length ns \<Longrightarrow> n_block_id (ns ! j) \<noteq> Some b) \<Longrightarrow> index_nodes i ns m b = m b"
proof (induction ns arbitrary: i m)
  case (Cons x xs)
  have "n_block_id x \<noteq> Some b" using Cons.prems [of 0] by simp
  moreover have "\<And>j. j < length xs \<Longrightarrow> n_block_id (xs ! j) \<noteq> Some b" using Cons.prems [of "Suc _"] by simp
  ultimately show ?case using Cons.IH by (auto split: option.split)
qed simp

lemma index_nodes_unique:
  assumes "k < length ns" and "n_block_id (ns ! k) = Some b"
    and "\<And>j. j < length ns \<Longrightarrow> n_block_id (ns ! j) = Some b \<Longrightarrow> j = k"
  shows "index_nodes i ns m b = Some (i + k)"
  using assms
proof (induction ns arbitrary: i k m)
  case (Cons n ns)
  have other: "j = k - 1 \<and> 0 < k" if "j < length ns" "n_block_id (ns ! j) = Some b" for j
    using Cons.prems(3) [of "Suc j"] that by auto
  show ?case
  proof (cases k)
    case 0
    have none: "index_nodes i' ns m' b = m' b" for i' m'
      by (rule index_nodes_none) (use other 0 in blast)
    then show ?thesis using 0 Cons.prems(2) by simp
  next
    case (Suc k')
    have "index_nodes (i + 1) ns m' b = Some (i + 1 + k')" for m'
    proof (rule Cons.IH)
      show "k' < length ns" "n_block_id (ns ! k') = Some b" using Cons.prems(1,2) Suc by simp_all
      fix j assume "j < length ns" "n_block_id (ns ! j) = Some b"
      from other [OF this] show "j = k'" using Suc by simp
    qed
    then show ?thesis using Suc by simp
  qed
qed simp

lemma rebuild_index:
  assumes "index_ok c" and "map n_block_id (rc_nodes c') = map n_block_id (rc_nodes c)"
  shows "rc_block_index (rebuild_block_index c') = rc_block_index c"
proof
  fix b
  have len: "length (rc_nodes c') = length (rc_nodes c)" using map_eq_imp_length_eq [OF assms(2)] .
  have nth: "n_block_id (rc_nodes c' ! j) = n_block_id (rc_nodes c ! j)" if "j < length (rc_nodes c)" for j
    using that assms(2) len by (metis nth_map)
  show "rc_block_index (rebuild_block_index c') b = rc_block_index c b"
  proof (cases "rc_block_index c b")
    case None
    then have "index_nodes 0 (rc_nodes c') Map.empty b = Map.empty b"
      by (intro index_nodes_none) (use index_okD [OF assms(1), of b] nth len in auto)
    then show ?thesis using None by (simp add: rebuild_block_index_def)
  next
    case (Some i)
    have i: "i < length (rc_nodes c)" "n_block_id (rc_nodes c ! i) = Some b" using index_okD [OF assms(1), of b i] Some by auto
    have "index_nodes 0 (rc_nodes c') Map.empty b = Some (0 + i)"
    proof (rule index_nodes_unique)
      fix j assume "j < length (rc_nodes c')" "n_block_id (rc_nodes c' ! j) = Some b"
      then have "rc_block_index c b = Some j" using index_okD [OF assms(1), of b j] nth len by simp
      then show "j = i" using Some by simp
    qed (use i nth len in auto)
    then show ?thesis using Some by (simp add: rebuild_block_index_def)
  qed
qed

lemma shape_persisted [simp]: "shape (persisted_node n) = shape n" "n_block_id (persisted_node n) = n_block_id n"
  by (simp_all add: persisted_node_def shape_def)

lemma snapshot_load:
  assumes "decode j = Some (snapshot_of c)" and ix: "index_ok c"
  shows "\<exists>c'. load_snapshot decode j (rc_namespace c) = Inr c' \<and> same_shape c (rebuild_block_index c') \<and> rc_clock c' = 0 \<and>
     rc_keepalive c' = rc_keepalive c \<and> rc_block_index c' = Map.empty \<and>
     (\<forall>b. block_refs (rebuild_block_index c') b = 0)"
proof -
  define c' where "c' = \<lparr>rc_nodes = map persisted_node (rc_nodes c), rc_free_nodes = rc_free_nodes c, rc_block_size = rc_block_size c,
     rc_clock = 0, rc_keepalive = rc_keepalive c, rc_block_index = Map.empty, rc_namespace = rc_namespace c\<rparr>"
  have l: "load_snapshot decode j (rc_namespace c) = Inr c'" using assms(1) by (simp add: load_snapshot_def snapshot_of_def c'_def)
  have ri: "rc_block_index (rebuild_block_index c') = rc_block_index c"
    by (rule rebuild_index [OF ix]) (simp add: c'_def)
  then have "same_shape c (rebuild_block_index c')"
    by (simp add: same_shape_def rebuild_block_index_def c'_def)
  moreover have "block_refs (rebuild_block_index c') b = 0" for b
  proof (cases "rc_block_index c b")
    case (Some i)
    then have "i < length (rc_nodes c)" using index_okD [OF ix, of b i] by simp
    then show ?thesis using ri Some by (simp add: block_refs_def rebuild_block_index_def c'_def persisted_node_def)
  qed (simp add: block_refs_def ri)
  ultimately show ?thesis using l by (intro exI [of _ c']) (simp add: c'_def)
qed

subsection \<open>Sparse views\<close>

lemma push_new_spec:
  "distinct sel \<Longrightarrow> distinct (push_new ks sel) \<and> set (push_new ks sel) = set sel \<union> sd_block ` set ks \<and>
     length (push_new ks sel) \<le> length sel + length ks \<and> (\<exists>t. push_new ks sel = sel @ t)"
proof (induction ks arbitrary: sel)
  case (Cons k ks)
  show ?case
  proof (cases "sd_block k \<in> set sel")
    case True
    then show ?thesis using Cons.IH [OF Cons.prems] by auto
  next
    case False
    then have "distinct (sel @ [sd_block k])" using Cons.prems by simp
    from Cons.IH [OF this] False show ?thesis by auto
  qed
qed simp

lemma set_by_order [simp]: "set (by_recency ks) = set ks" "set (by_depth ks) = set ks" "length (by_recency ks) = length ks" "length (by_depth ks) = length ks"
  by (simp_all add: by_recency_def by_depth_def)


definition sparse_blocks_bound :: "nat \<Rightarrow> nat \<Rightarrow> nat \<Rightarrow> nat" where
  "sparse_blocks_bound bs recent_tokens top_k = top_k + div_ceil recent_tokens bs"

lemma select_from_candidates_ok:
  "distinct (select_sparse_pages_from_candidates c ks recent_tokens top_k) \<and>
   set (select_sparse_pages_from_candidates c ks recent_tokens top_k) \<subseteq> sd_block ` set ks \<and>
   length (select_sparse_pages_from_candidates c ks recent_tokens top_k) \<le> sparse_blocks_bound (rc_block_size c) recent_tokens top_k"
proof (cases "ks = [] \<or> (recent_tokens = 0 \<and> top_k = 0)")
  case True
  then show ?thesis by (auto simp: select_sparse_pages_from_candidates_def)
next
  case False
  let ?s = "push_new (take top_k (by_recency ks)) []"
  let ?r = "take (min (div_ceil recent_tokens (rc_block_size c)) (length (by_recency ks))) (by_depth (by_recency ks))"
  have e: "select_sparse_pages_from_candidates c ks recent_tokens top_k = push_new ?r ?s"
    using False by (simp only: select_sparse_pages_from_candidates_def Let_def if_False)
  note a = push_new_spec [of "[]" "take top_k (by_recency ks)"]
  then have "distinct ?s" by simp
  note b = push_new_spec [OF this, of ?r]
  have sub: "set (take top_k (by_recency ks)) \<subseteq> set ks" "set ?r \<subseteq> set ks"
    using set_take_subset [of top_k "by_recency ks"] set_take_subset [of _ "by_depth (by_recency ks)"] by simp_all
  have "set (push_new ?r ?s) \<subseteq> sd_block ` set ks" using a b sub by auto
  moreover have "length ?s \<le> top_k" using a by (auto intro: order_trans)
  moreover have "length (push_new ?r ?s) \<le> length ?s + div_ceil recent_tokens (rc_block_size c)" using b by (auto intro: order_trans)
  ultimately show ?thesis using b unfolding e sparse_blocks_bound_def by linarith
qed

lemma drop_page_props:
  "snd (drop_page slot_idx keep att now n) = Some b \<Longrightarrow>
     n_block_id n = Some b \<and> b \<notin> set keep \<and> (n_tier_location n = Some (Gpu slot_idx) \<or> b \<in> set att) \<and>
     (n_ref_count n = 0 \<or> b \<in> set att) \<and> n_entry_state n = Ready \<and> soft_pin_expired now n \<and>
     n_sparse_dropped (fst (drop_page slot_idx keep att now n))"
  "shape (fst (drop_page slot_idx keep att now n)) = shape n"
  "n_ref_count (fst (drop_page slot_idx keep att now n)) = n_ref_count n"
  by (auto simp: drop_page_def shape_def split: option.splits if_splits)

subsection \<open>Leases\<close>

text \<open>
  Requests hold the block lists their lookups returned, until they release them. Lookups, releases of
  outstanding leases, evictions of any kind and insertions come in any order. The third component says
  whether every insertion so far was safe to make. An insertion is safe when the free list has no
  slot twice (\<open>second_evict_duplicates_free_slots\<close> in \<open>Radix_Evict\<close> shows that a second eviction ends
  this), when its blocks are new or are the ones cached for their prefixes, and when no cached
  prefix changes its block. The code checks none of this.
\<close>

definition publish_safe :: "token list \<Rightarrow> block_id list \<Rightarrow> fingerprint list \<Rightarrow> radix_cache \<Rightarrow> bool" where
  "publish_safe toks blocks fps c \<longleftrightarrow> distinct (rc_free_nodes c) \<and> length fps = length blocks
     \<and> publishable toks blocks c \<and> keeps_blocks toks blocks c"

inductive lease_step ::
    "radix_cache \<times> block_id list multiset \<times> bool \<Rightarrow> radix_cache \<times> block_id list multiset \<times> bool \<Rightarrow> bool" where
  take: "radix_lookup toks c = Some ((n, bl), c') \<Longrightarrow> lease_step (c, L, ok) (c', add_mset bl L, ok)"
| give: "bl \<in># L \<Longrightarrow> lease_step (c, L, ok) (radix_release bl c, L - {#bl#}, ok)"
| publish: "insert_with_fingerprints toks blocks fps c = Some (n, c') \<Longrightarrow>
    lease_step (c, L, ok) (c', L, ok \<and> publish_safe toks blocks fps c)"
| evict: "radix_evict n c = Some (freed, c') \<Longrightarrow> lease_step (c, L, ok) (c', L, ok)"
| evict_policy: "evict_with_policy_for_intent_excluding score sig n tf intent excluded c = Some (freed, c') \<Longrightarrow>
    lease_step (c, L, ok) (c', L, ok)"

inductive lease_reachable :: "radix_cache \<times> block_id list multiset \<times> bool \<Rightarrow> bool" where
  start: "radix_new_with bs ka ns = Some c \<Longrightarrow> lease_reachable (c, {#}, True)"
| step: "lease_reachable s \<Longrightarrow> lease_step s s' \<Longrightarrow> lease_reachable s'"

definition leases_on :: "block_id \<Rightarrow> block_id list multiset \<Rightarrow> nat" where
  "leases_on b L = size (filter_mset (\<lambda>bl. b \<in> set bl) L)"

definition lease_inv :: "radix_cache \<times> block_id list multiset \<times> bool \<Rightarrow> bool" where
  "lease_inv s \<longleftrightarrow> (case s of (c, L, ok) \<Rightarrow> ok \<longrightarrow> radix_wf c \<and> (\<forall>b. block_refs c b = leases_on b L))"

lemma leases_on_simps [simp]:
  "leases_on b {#} = 0" "leases_on b (add_mset bl L) = leases_on b L + (if b \<in> set bl then 1 else 0)"
  by (simp_all add: leases_on_def)

lemma leases_on_remove:
  assumes "bl \<in># L"
  shows "leases_on b (L - {#bl#}) = leases_on b L - (if b \<in> set bl then 1 else 0)"
proof -
  have "L = add_mset bl (L - {#bl#})" using assms by simp
  then have "leases_on b L = leases_on b (L - {#bl#}) + (if b \<in> set bl then 1 else 0)" by (metis leases_on_simps(2))
  then show ?thesis by simp
qed

lemma lookup_wf:
  assumes "radix_wf c" and "radix_lookup toks c = Some ((n, bl), c')"
  shows "radix_wf c'" and "block_refs c' b = block_refs c b + (if b \<in> set bl then 1 else 0)"
proof -
  obtain pl where t: "tree_ok c pl" and ix: "index_ok c" using assms(1) by (auto simp: radix_wf_def)
  have e: "c' = lookup_effect toks c" "bl = walk_blocks c (walk c 0 toks)" using radix_lookup_walk [OF t, of toks] assms(2) by simp_all
  show "radix_wf c'" unfolding e by (rule radix_wf_same_shape [OF same_shape_lookup_effect assms(1)])
  show "block_refs c' b = block_refs c b + (if b \<in> set bl then 1 else 0)" unfolding e by (rule block_refs_lookup [OF t ix])
qed

lemma evict_refs:
  assumes "radix_wf c" and "radix_evict n c = Some (freed, c')"
  shows "radix_wf c'" and "block_refs c' = block_refs c" and "b \<in> set freed \<Longrightarrow> block_refs c b = 0"
proof -
  have "radix_wf c' \<and> (\<forall>b. block_refs c' b = (if b \<in> set freed then 0 else block_refs c b)) \<and> (\<forall>b\<in>set freed. block_refs c b = 0)"
  proof (cases "n = 0")
    case True
    then show ?thesis using assms by (simp add: radix_evict_run)
  next
    case False
    obtain f c1 where r: "evict_run pick_lru n c = Some (f, c1)" "radix_wf c1"
      "\<forall>b\<in>set f. \<exists>i ev. rc_block_index c b = Some i \<and> lru_cand (cleared c ev) ev i"
      "\<forall>b. block_refs c1 b = (if b \<in> set f then 0 else block_refs c b)"
      using lru_picker.picker_evicts [OF assms(1), of n] by auto
    have "block_refs c b = 0" if b: "b \<in> set f" for b
      using r(3) b cleared_slot(3) [of c b] assms(1) by (auto simp: lru_cand_def block_refs_def radix_wf_def)
    then show ?thesis using r False assms(2) by (simp add: radix_evict_run)
  qed
  then show "radix_wf c'" "block_refs c' = block_refs c" "b \<in> set freed \<Longrightarrow> block_refs c b = 0" by (auto simp: fun_eq_iff)
qed

lemma policy_evict_refs:
  assumes "radix_wf c" and "evict_with_policy_for_intent_excluding score sig n tf intent excluded c = Some (freed, c')"
  shows "radix_wf c'" and "block_refs c' = block_refs c"
    and "b \<in> set freed \<Longrightarrow> block_refs c b = 0"
proof -
  have "radix_wf c' \<and> (\<forall>b. block_refs c' b = (if b \<in> set freed then 0 else block_refs c b)) \<and> (\<forall>b\<in>set freed. block_refs c b = 0)"
  proof (cases "n = 0")
    case True
    then show ?thesis using assms by (simp add: policy_evict_run)
  next
    case False
    let ?ok = "policy_ok score sig tf intent excluded"
    obtain f c1 where r: "evict_run (pick_policy score sig tf intent excluded) n c = Some (f, c1)" "radix_wf c1"
      "\<forall>b\<in>set f. \<exists>i ev. rc_block_index c b = Some i \<and> ?ok (cleared c ev) ev i"
      "\<forall>b. block_refs c1 b = (if b \<in> set f then 0 else block_refs c b)"
      using policy_picker.picker_evicts [OF assms(1), where n = n and score = score and sig = sig and tf = tf and intent = intent and excluded = excluded] by metis
    have "block_refs c b = 0" if b: "b \<in> set f" for b
    proof -
      obtain i ev where i: "rc_block_index c b = Some i" "?ok (cleared c ev) ev i" using r(3) b by blast
      have ix: "index_ok c" using assms(1) by (simp add: radix_wf_def)
      have "i \<notin> ev" using i(2) by (simp add: policy_ok_def)
      note sl = cleared_slot [OF ix i(1) this]
      then show ?thesis using i by (auto simp: policy_ok_def policy_eligible_def block_refs_def)
    qed
    then show ?thesis using r False assms(2) by (simp add: policy_evict_run)
  qed
  then show "radix_wf c'" "block_refs c' = block_refs c" "b \<in> set freed \<Longrightarrow> block_refs c b = 0" by (auto simp: fun_eq_iff)
qed

lemma lease_step_inv: "lease_step s s' \<Longrightarrow> lease_inv s \<Longrightarrow> lease_inv s'"
proof (induction rule: lease_step.induct)
  case (take toks c n bl c' L ok)
  then show ?case using lookup_wf [of c toks n bl c'] by (simp add: lease_inv_def)
next
  case (give bl L c ok)
  have "block_refs (radix_release bl c) b = leases_on b (L - {#bl#}) \<and> radix_wf (radix_release bl c)"
    if "radix_wf c" "\<forall>b. block_refs c b = leases_on b L" for b
  proof -
    have "index_ok c" using that(1) by (simp add: radix_wf_def)
    then show ?thesis using that radix_wf_same_shape [OF same_shape_release] block_refs_release leases_on_remove [OF give(1)]
      by simp
  qed
  then show ?case using give(2) by (simp add: lease_inv_def)
next
  case (publish toks blocks fps c n c' L ok)
  have "radix_wf c' \<and> block_refs c' = block_refs c" if "radix_wf c" "publish_safe toks blocks fps c"
    using insert_refines [of c fps blocks toks] that publish(1) by (auto simp: publish_safe_def cache_inv_def)
  then show ?case using publish(2) by (simp add: lease_inv_def)
next
  case (evict n c freed c' L ok)
  then show ?case using evict_refs [of c n freed c'] by (simp add: lease_inv_def)
next
  case (evict_policy score sig n tf intent excluded c freed c' L ok)
  then show ?case using policy_evict_refs(1,2) [of c score sig n tf intent excluded freed c'] by (simp add: lease_inv_def)
qed

lemma lease_reachable_inv: "lease_reachable s \<Longrightarrow> lease_inv s"
proof (induction rule: lease_reachable.induct)
  case (start bs ka ns c)
  note i = radix_new_with_inv [OF start]
  have "rc_block_index c b = None" for b using start by (auto simp: radix_new_with_def split: if_splits)
  then show ?case using i(1) by (simp add: lease_inv_def cache_inv_def block_refs_def)
next
  case (step s s')
  then show ?case using lease_step_inv by blast
qed


fun walk_candidates :: "radix_cache \<Rightarrow> nat \<Rightarrow> block_id list \<Rightarrow> nat \<Rightarrow> nat list \<Rightarrow> sparse_candidate list" where
  "walk_candidates c slot_idx att pos [] = []"
| "walk_candidates c slot_idx att pos (j # js) =
     slot_candidate slot_idx att (rc_nodes c ! j) (pos + length (n_tokens (rc_nodes c ! j))) @
     walk_candidates c slot_idx att (pos + length (n_tokens (rc_nodes c ! j))) js"

lemma sparse_loop_walk:
  assumes t: "tree_ok c pl" and "i < length (rc_nodes c)" and "walk c i (drop pos toks) = js"
  shows "sparse_loop toks slot_idx att c i pos ks = Some (ks @ walk_candidates c slot_idx att pos js)"
  using assms(2-)
proof (induction "length toks - pos" arbitrary: i pos ks js rule: less_induct)
  case less
  note unf = sparse_loop.simps [of toks slot_idx att c i pos ks]
  show ?case
  proof (cases "length toks \<le> pos \<or> map_of (n_children (rc_nodes c ! i)) (toks ! pos) = None")
    case True
    then have "js = []" using less.prems(2) walk_no_edge [of c i "drop pos toks"]
      by (cases "length toks \<le> pos") (auto simp: edge_def hd_drop_conv_nth)
    then show ?thesis using True less.prems(1) by (subst unf) auto
  next
    case False
    then obtain j where e: "edge c i (toks ! pos) j" and pos: "pos < length toks"
      and m: "map_of (n_children (rc_nodes c ! i)) (toks ! pos) = Some j"
      using less.prems(1) by (auto simp: edge_def)
    note ok = edge_okD [OF tree_okD(4) [OF t e]] and cm = child_edge_match_walk [OF t e pos]
    show ?thesis
    proof (cases "edge_match_len (n_tokens (rc_nodes c ! j)) (drop pos toks) < length (n_tokens (rc_nodes c ! j))")
      case True
      then have "js = []" using cm(2) less.prems(2) by simp
      then show ?thesis using True less.prems(1) m pos cm(1) by (subst unf) simp
    next
      case False
      let ?n = "length (n_tokens (rc_nodes c ! j))"
      obtain js' where js: "js = j # js'" "js' = walk c j (drop (pos + ?n) toks)"
        using cm(2) less.prems(2) False by simp
      have ml: "edge_match_len (n_tokens (rc_nodes c ! j)) (drop pos toks) = ?n" "length toks - (pos + ?n) < length toks - pos"
        using cm(3) False by auto
      note IH = less.hyps [OF ml(2) ok(1) js(2) [symmetric]]
      show ?thesis
        using False less.prems(1) m pos cm(1) ml(1) ok(1) js(1)
        by (subst unf) (auto simp: IH split: prod.split)
    qed
  qed
qed

lemma slot_candidate_mem:
  assumes "k \<in> set (slot_candidate slot_idx att n path_len)"
  shows "n_block_id n = Some (sd_block k) \<and> (\<exists>s. n_tier_location n = Some (Gpu s) \<and> (s = slot_idx \<or> sd_block k \<in> set att))"
proof (cases "n_block_id n")
  case (Some b)
  show ?thesis
  proof (cases "n_tier_location n")
    case (Some loc)
    then show ?thesis using assms \<open>n_block_id n = Some b\<close>
      by (cases loc) (auto simp: slot_candidate_def split: if_splits)
  qed (use assms Some in \<open>simp add: slot_candidate_def\<close>)
qed (use assms in \<open>simp add: slot_candidate_def\<close>)

lemma walk_candidates_mem:
  "k \<in> set (walk_candidates c slot_idx att pos js) \<Longrightarrow>
     \<exists>j\<in>set js. n_block_id (rc_nodes c ! j) = Some (sd_block k) \<and>
       (\<exists>s. n_tier_location (rc_nodes c ! j) = Some (Gpu s) \<and> (s = slot_idx \<or> sd_block k \<in> set att))"
proof (induction js arbitrary: pos)
  case (Cons j js)
  let ?n = "pos + length (n_tokens (rc_nodes c ! j))"
  from Cons.prems consider "k \<in> set (slot_candidate slot_idx att (rc_nodes c ! j) ?n)"
    | "k \<in> set (walk_candidates c slot_idx att ?n js)" by auto
  then show ?case
  proof cases
    case 1
    from slot_candidate_mem [OF this] show ?thesis by (intro bexI [of _ j]) simp_all
  next
    case 2
    from Cons.IH [OF this] show ?thesis by (elim bexE) (rule bexI, assumption, simp)
  qed
qed simp

subsection \<open>Properties\<close>

text \<open>
  (C23) Snapshots round-trip. For any encoder and decoder that agree on the snapshot of a cache,
  loading it under the cache's namespace and rebuilding the index gives a cache that satisfies the
  invariant, with the same prefix map and the same block index, nothing referenced, and the
  clock at 0. Under any other namespace the load is an error.
\<close>

theorem snapshot_roundtrip:
  assumes "cache_inv c" and "encode (snapshot_of c) = Some j" and "decode j = Some (snapshot_of c)"
  shows "save_snapshot encode c = Inr j \<and>
     (\<exists>c'. load_snapshot decode j (rc_namespace c) = Inr c' \<and> rc_clock c' = 0 \<and>
        cache_inv (rebuild_block_index c') \<and> cached (rebuild_block_index c') = cached c \<and>
        rc_block_index (rebuild_block_index c') = rc_block_index c \<and> (\<forall>b. block_refs (rebuild_block_index c') b = 0)) \<and>
     (\<forall>ns. load_snapshot decode j ns = (if ns = rc_namespace c then load_snapshot decode j (rc_namespace c)
        else Inl (NamespaceMismatch ns (rc_namespace c))))"
proof (intro conjI allI)
  obtain pl where t: "tree_ok c pl" and ix: "index_ok c" using assms(1) by (auto simp: cache_inv_def radix_wf_def)
  show "save_snapshot encode c = Inr j" using assms(2) by (simp add: save_snapshot_def)
  obtain c' where c': "load_snapshot decode j (rc_namespace c) = Inr c'" "same_shape c (rebuild_block_index c')" "rc_clock c' = 0"
    "\<forall>b. block_refs (rebuild_block_index c') b = 0" using snapshot_load [of decode j c, OF assms(3) ix] by blast
  have "cache_inv (rebuild_block_index c')"
    using assms(1) radix_wf_same_shape [OF c'(2)] same_shapeD(2) [OF c'(2)] by (simp add: cache_inv_def)
  then show "\<exists>c'. load_snapshot decode j (rc_namespace c) = Inr c' \<and> rc_clock c' = 0 \<and>
        cache_inv (rebuild_block_index c') \<and> cached (rebuild_block_index c') = cached c \<and>
        rc_block_index (rebuild_block_index c') = rc_block_index c \<and> (\<forall>b. block_refs (rebuild_block_index c') b = 0)"
    using c' cached_same_shape [OF c'(2) t] same_shapeD(4) [OF c'(2)] by blast
  fix ns
  show "load_snapshot decode j ns = (if ns = rc_namespace c then load_snapshot decode j (rc_namespace c)
        else Inl (NamespaceMismatch ns (rc_namespace c)))"
    using assms(3) by (simp add: load_snapshot_def snapshot_of_def)
qed

theorem snapshot_roundtrip_witness:
  "\<exists>c'. load_snapshot Some (snapshot_of ex_two) (rc_namespace ex_two) = Inr c' \<and> cached (rebuild_block_index c') = cached ex_two"
  using snapshot_roundtrip [OF ex_two_inv, of Some "snapshot_of ex_two" Some] by blast

text \<open>
  A metadata update of a cached block succeeds, reads back field by field (a move off the
  pinned-host tier clears the spill pin unless the update sets one), changes no other block's
  metadata, and leaves the prefix map and the invariant alone.
\<close>

theorem metadata_update_reads_back:
  assumes "radix_wf c" and "block_metadata b c = Some d"
  shows "\<exists>c'. update_block_metadata b u c = (True, c') \<and> radix_wf c' \<and> cached c' = cached c \<and>
     block_metadata b c' = Some (updated u d) \<and> (\<forall>b'. b' \<noteq> b \<longrightarrow> block_metadata b' c' = block_metadata b' c)"
proof -
  obtain pl where t: "tree_ok c pl" and ix: "index_ok c" using assms(1) by (auto simp: radix_wf_def)
  obtain i where i: "rc_block_index c b = Some i" using assms(2) by (auto simp: block_metadata_def split: Option.bind_splits)
  then have il: "i < length (rc_nodes c)" using index_okD [OF ix, of b i] by simp
  let ?c = "upd_at i (apply_update u) c"
  have s: "same_shape c ?c" by (rule same_shape_upd_at) simp
  have f: "n_fingerprint (apply_update u n) = n_fingerprint n" "n_store_state (apply_update u n) = n_store_state n"
    "n_hit_count (apply_update u n) = n_hit_count n" "n_ref_count (apply_update u n) = n_ref_count n" for n
    by (simp_all add: apply_update_def set_location_def Let_def split: option.splits)
  have g: "n_tier_location (apply_update u n) = (case mu_location u of None \<Rightarrow> n_tier_location n | Some l \<Rightarrow> Some l)"
    "n_byte_len (apply_update u n) = (case mu_byte_len u of None \<Rightarrow> n_byte_len n | Some x \<Rightarrow> x)"
    "n_session_id (apply_update u n) = (case mu_session_id u of None \<Rightarrow> n_session_id n | Some x \<Rightarrow> x)"
    "n_host_swap_eligible (apply_update u n) = (case mu_host_swap_eligible u of None \<Rightarrow> n_host_swap_eligible n | Some x \<Rightarrow> x)"
    "n_soft_pin_until (apply_update u n) = (case mu_soft_pin_until u of None \<Rightarrow> n_soft_pin_until n | Some x \<Rightarrow> x)"
    "n_host_spill_pin_until (apply_update u n) = (case mu_host_spill_pin_until u of Some x \<Rightarrow> x
        | None \<Rightarrow> (case mu_location u of Some l \<Rightarrow> if tier_of l = THostPinned then n_host_spill_pin_until n else None
                    | None \<Rightarrow> n_host_spill_pin_until n))"
    "n_entry_state (apply_update u n) = (case mu_entry_state u of None \<Rightarrow> n_entry_state n | Some x \<Rightarrow> x)" for n
    by (simp_all add: apply_update_def set_location_def Let_def split: option.splits)
  have "block_metadata b ?c = Some (updated u d)"
    using assms(2) il i unfolding block_metadata_upd_at [OF ix i]
    by (auto simp: block_metadata_def updated_def f g cong: option.case_cong if_cong)
  moreover have "block_metadata b' ?c = block_metadata b' c" if "b' \<noteq> b" for b'
  proof (cases "rc_block_index c b'")
    case (Some j)
    then have "j \<noteq> i" using that i index_inj [OF ix] by blast
    moreover have "j < length (rc_nodes c)" using Some index_okD [OF ix, of b' j] by simp
    ultimately show ?thesis using Some unfolding block_metadata_upd_at [OF ix i] by (simp add: block_metadata_def Let_def)
  next
    case None
    then show ?thesis unfolding block_metadata_upd_at [OF ix i] by (simp add: block_metadata_def)
  qed
  ultimately show ?thesis
    using with_block_node_Some [OF ix i] radix_wf_same_shape [OF s assms(1)] cached_same_shape [OF s t]
    by (simp add: update_block_metadata_def)
qed

theorem metadata_update_reads_back_witness:
  "\<exists>c'. commit_ready 10 (Some (HostPinned 3)) ex_two = (True, c') \<and> map_option md_location (block_metadata 10 c') = Some (Some (HostPinned 3))"
proof -
  have "block_metadata 10 ex_two \<noteq> None" by code_simp
  then obtain d where d: "block_metadata 10 ex_two = Some d" by blast
  have "radix_wf ex_two" using ex_two_inv by (simp add: cache_inv_def)
  from metadata_update_reads_back [OF this d, of "metadata_update_default\<lparr>mu_location := Some (HostPinned 3), mu_entry_state := Some Ready\<rparr>"]
  show ?thesis by (auto simp: commit_ready_def metadata_update_default_def updated_def)
qed

text \<open>
  (C2) Leases are exact as long as every insertion was safe to make (\<open>publish_safe\<close>: no slot twice
  in the free list, which a second eviction ends; new blocks for new prefixes; no cached prefix gets
  another block). Over lookups, releases, evictions and such insertions in any order, the
  reference count of a block is the number of outstanding leases that contain it, so a leased
  block stays indexed and no eviction, of any policy, tier or intent, frees it.
\<close>

theorem leased_blocks_are_safe:
  assumes "lease_reachable (c, L, every_insertion_safe)" "every_insertion_safe"
  shows "radix_wf c \<and> (\<forall>b. block_refs c b = leases_on b L) \<and>
     (\<forall>b. 0 < leases_on b L \<longrightarrow> rc_block_index c b \<noteq> None \<and>
        (\<forall>n. \<exists>freed c'. radix_evict n c = Some (freed, c') \<and> b \<notin> set freed) \<and>
        (\<forall>score sig n tf intent excluded. \<exists>freed c'.
           evict_with_policy_for_intent_excluding score sig n tf intent excluded c = Some (freed, c') \<and> b \<notin> set freed))"
proof (intro conjI allI impI)
  have i: "radix_wf c" "\<And>b. block_refs c b = leases_on b L" using lease_reachable_inv [OF assms(1)] assms(2) by (auto simp: lease_inv_def)
  show "radix_wf c" by (rule i(1))
  show "block_refs c b = leases_on b L" for b by (rule i(2))
  fix b assume b: "0 < leases_on b L"
  then have pos: "0 < block_refs c b" using i(2) by simp
  then show "rc_block_index c b \<noteq> None" by (cases "rc_block_index c b") (auto simp: block_refs_def)
  show "\<exists>freed c'. radix_evict n c = Some (freed, c') \<and> b \<notin> set freed" for n
  proof (cases "n = 0")
    case False
    then obtain freed c' where "radix_evict n c = Some (freed, c')"
      using lru_picker.picker_evicts [OF i(1), of n] by (auto simp: radix_evict_run)
    then show ?thesis using evict_refs(3) [OF i(1), of n freed c' b] pos by auto
  qed (simp add: radix_evict_run)
  show "\<exists>freed c'. evict_with_policy_for_intent_excluding score sig n tf intent excluded c = Some (freed, c') \<and> b \<notin> set freed"
    for score sig n tf intent excluded
  proof (cases "n = 0")
    case False
    then obtain freed c' where "evict_with_policy_for_intent_excluding score sig n tf intent excluded c = Some (freed, c')"
      using policy_picker.picker_evicts [OF i(1), where n = n and score = score and sig = sig and tf = tf and intent = intent and excluded = excluded]
      by (auto simp: policy_evict_run)
    then show ?thesis using policy_evict_refs(3) [OF i(1), of score sig n tf intent excluded freed c' b] pos by auto
  qed (simp add: policy_evict_run)
qed

lemma lease_demo:
  "lease_reachable (snd (the (radix_lookup [1, 2] ex_two)), {#[10]#}, True)"
proof -
  have e: "radix_new 2 = Some ex_empty" by (simp add: ex_empty_def radix_new_def radix_new_with_def)
  then have s0: "lease_reachable (ex_empty, {#}, True)" unfolding radix_new_def by (rule lease_reachable.start)
  have "insert_with_fingerprints [1, 2, 3, 4] [10, 11] (replicate 2 (replicate 16 0)) ex_empty \<noteq> None"
    using insert_refines [OF ex_empty_inv ex_empty_ready(2,1)] by auto
  moreover have "ex_two = snd (the (insert_with_fingerprints [1, 2, 3, 4] [10, 11] (replicate 2 (replicate 16 0)) ex_empty))"
    by (simp add: ex_two_def radix_insert_def numeral_2_eq_2)
  ultimately obtain n where i: "insert_with_fingerprints [1, 2, 3, 4] [10, 11] (replicate 2 (replicate 16 0)) ex_empty = Some (n, ex_two)"
    by (metis option.exhaust_sel prod.collapse)
  have "keeps_blocks [1, 2, 3, 4] [10, 11] ex_empty" by code_simp
  then have "publish_safe [1, 2, 3, 4] [10, 11] (replicate 2 (replicate 16 0)) ex_empty"
    using ex_empty_inv ex_empty_ready(1,2) by (simp add: publish_safe_def cache_inv_def)
  then have "lease_step (ex_empty, {#}, True) (ex_two, {#}, True)"
    using lease_step.publish [OF i, of "{#}" True] by simp
  with s0 have s1: "lease_reachable (ex_two, {#}, True)" by (rule lease_reachable.step)
  have "map_option fst (radix_lookup [1, 2] ex_two) = Some (2, [10])" by code_simp
  then have "radix_lookup [1, 2] ex_two = Some ((2, [10]), snd (the (radix_lookup [1, 2] ex_two)))" by (cases "radix_lookup [1, 2] ex_two") auto
  then have "lease_step (ex_two, {#}, True) (snd (the (radix_lookup [1, 2] ex_two)), add_mset [10] {#}, True)" by (rule lease_step.take)
  with s1 show ?thesis by (rule lease_reachable.step)
qed

theorem leased_blocks_are_safe_witness:
  "\<exists>freed c'. radix_evict 5 (snd (the (radix_lookup [1, 2] ex_two))) = Some (freed, c') \<and> 10 \<notin> set freed"
proof -
  have "0 < leases_on 10 {#[10]#}" by simp
  then show ?thesis using leased_blocks_are_safe [OF lease_demo TrueI] by blast
qed


text \<open>
  A sparse draft view stays on the request's own path: along the tokens of a request the selection
  returns different blocks only, at most \<open>top_k\<close> and the recent window together, each of them a block of
  a cached prefix of these tokens that lies on the GPU in the request's slot or is attached to it.
\<close>

theorem sparse_view_on_request_path:
  assumes "radix_wf c" and "toks \<noteq> []" and "slot_idx \<le> u32_max"
  shows "\<exists>bs. select_sparse_pages_for_draft_tokens_with_attached c slot_idx toks recent_tokens top_k att = Some bs \<and>
     distinct bs \<and> length bs \<le> top_k + div_ceil recent_tokens (rc_block_size c) \<and>
     (\<forall>b\<in>set bs. b \<in> set (spec_lookup (rc_block_size c) (cached c) toks) \<and>
        (\<exists>i s. rc_block_index c b = Some i \<and> n_tier_location (rc_nodes c ! i) = Some (Gpu s) \<and> (s = slot_idx \<or> b \<in> set att)))"
proof -
  obtain pl where t: "tree_ok c pl" and ix: "index_ok c" using assms(1) by (auto simp: radix_wf_def)
  let ?js = "walk c 0 toks"
  let ?ks = "walk_candidates c slot_idx att 0 ?js"
  let ?bs = "select_sparse_pages_from_candidates c ?ks recent_tokens top_k"
  have "sparse_loop toks slot_idx att c 0 0 [] = Some ([] @ ?ks)"
    by (rule sparse_loop_walk [OF t tree_okD(2) [OF t]]) simp
  then have e: "select_sparse_pages_for_draft_tokens_with_attached c slot_idx toks recent_tokens top_k att = Some ?bs"
    using assms(2,3) by (simp add: select_sparse_pages_for_draft_tokens_with_attached_def)
  note s = select_from_candidates_ok [of c ?ks recent_tokens top_k, unfolded sparse_blocks_bound_def]
  have "b \<in> set (spec_lookup (rc_block_size c) (cached c) toks) \<and>
        (\<exists>i s. rc_block_index c b = Some i \<and> n_tier_location (rc_nodes c ! i) = Some (Gpu s) \<and> (s = slot_idx \<or> b \<in> set att))"
    if b: "b \<in> set ?bs" for b
  proof -
    obtain k where k: "k \<in> set ?ks" "b = sd_block k" using b s by blast
    obtain j s where j: "j \<in> set ?js" "n_block_id (rc_nodes c ! j) = Some b"
      "n_tier_location (rc_nodes c ! j) = Some (Gpu s)" "s = slot_idx \<or> b \<in> set att" using walk_candidates_mem [OF k(1)] k(2) by blast
    have "b \<in> set (walk_blocks c ?js)" using j(1,2) walk_blocks_mem by blast
    moreover have "rc_block_index c b = Some j" using j(2) walk_in_range [OF t refl, of 0 toks] j(1) index_okD [OF ix, of b j] by blast
    ultimately show ?thesis using j(3,4) walk_blocks_spec [OF t, of toks] by auto
  qed
  then show ?thesis using e s by blast
qed

theorem sparse_view_on_request_path_witness:
  "\<exists>bs. select_sparse_pages_for_draft_tokens_with_attached ex_two 0 [1, 2, 3] 4 1 [] = Some bs \<and> length bs \<le> 1 + div_ceil 4 (rc_block_size ex_two)"
proof -
  have w: "radix_wf ex_two" using ex_two_inv by (simp add: cache_inv_def)
  show ?thesis using sparse_view_on_request_path [OF w, of "[1, 2, 3]" 0 4 1 "[]"] by (auto simp: u32_max_def)
qed

text \<open>
  A classification that counts too much: with the first block pending, \<open>lookup_or_stage\<close> reports a
  miss followed by a ready block, and a matched length of one block although no usable prefix matches.
\<close>

theorem stage_counts_hits_past_miss:
  "do { (o1, c1) \<leftarrow> lookup_or_stage [1, 2, 3, 4] lookup_heuristics_default (snd (insert_pending 10 ex_two));
        Some (matched_len o1, map lb_hit_kind (lo_blocks o1)) } = Some (2, [Miss, ReadyOnGpu])"
  by code_simp

text \<open>
  Reconciliation resurrects free slots: after an insertion under known fingerprints and an eviction
  of everything, both slots are on the free list, and reconciling one of the fingerprints gives the free
  slot a block, counts it as reattached, and leaves it on the free list.
\<close>

theorem reconcile_revives_free_slot:
  "do { (m, c1) \<leftarrow> insert_with_fingerprints [1, 2, 3, 4] [10, 11] [[1], [2]] ex_empty;
        (freed, c2) \<leftarrow> radix_evict 2 c1;
        let (report, c3) = reconcile (map_of [([1], 20)]) c2
        in Some (freed, remapped report, rc_block_index c3 20, rc_free_nodes c3) } = Some ([11, 10], 1, Some 1, [1, 2])"
  by code_simp

end
