(* ===== verification/Block_Manager.thy ===== *)
theory Block_Manager
  imports Kv_Types
begin

text \<open>
  The paged KV block accounting of \<open>infer/src/block_manager.rs\<close>: the state of
  \<open>BlockManager\<close> as a record, one definition per method, the invariant that ties the two free
  lists to the reference counts, and its preservation. A missing block makes the code panic
  (\<open>expect\<close>), which is \<open>None\<close> here.
\<close>

subsection \<open>State\<close>

datatype bm_location = LGpu | LCpu

record block =
  blk_id :: block_id
  blk_location :: bm_location
  blk_ref_count :: nat

record swap_plan =
  gpu_to_cpu :: "(block_id \<times> block_id) list"
  cpu_to_gpu :: "(block_id \<times> block_id) list"

datatype allocation_error =
    InsufficientGpuBlocks (requested: nat) (available: nat)
  | InsufficientCpuBlocks (requested: nat) (available: nat)

record block_manager =
  bm_blocks :: "(block_id, block) hmap"
  bm_free_gpu :: "block_id list"
  bm_free_cpu :: "block_id list"
  bm_block_size :: nat
  bm_next_id :: nat

subsection \<open>Operations\<close>

fun bm_fill :: "nat \<Rightarrow> bm_location \<Rightarrow> nat \<Rightarrow> (block_id, block) hmap \<Rightarrow> block_id list
    \<Rightarrow> (block_id, block) hmap \<times> block_id list \<times> nat" where
  "bm_fill 0 loc nxt bl fr = (bl, fr, nxt)"
| "bm_fill (Suc n) loc nxt bl fr =
     bm_fill n loc (nxt + 1)
       (AList.update nxt \<lparr>blk_id = nxt, blk_location = loc, blk_ref_count = 0\<rparr> bl) (fr @ [nxt])"

definition bm_new :: "nat \<Rightarrow> nat \<Rightarrow> nat \<Rightarrow> block_manager option" where
  "bm_new num_gpu num_cpu bs =
     (if bs = 0 then None
      else (let (bl, fg, nxt) = bm_fill num_gpu LGpu 0 [] [];
                (bl', fc, nxt') = bm_fill num_cpu LCpu nxt bl []
            in Some \<lparr>bm_blocks = bl', bm_free_gpu = fg, bm_free_cpu = fc,
                     bm_block_size = bs, bm_next_id = nxt'\<rparr>))"

definition free_gpu_blocks :: "block_manager \<Rightarrow> nat" where
  "free_gpu_blocks m = length (bm_free_gpu m)"

definition free_cpu_blocks :: "block_manager \<Rightarrow> nat" where
  "free_cpu_blocks m = length (bm_free_cpu m)"

definition total_gpu_blocks :: "block_manager \<Rightarrow> nat" where
  "total_gpu_blocks m = length (filter (\<lambda>e. blk_location (snd e) = LGpu) (bm_blocks m))"

definition total_cpu_blocks :: "block_manager \<Rightarrow> nat" where
  "total_cpu_blocks m = length (filter (\<lambda>e. blk_location (snd e) = LCpu) (bm_blocks m))"

text \<open>
  The shared body of the two allocation loops: pop the front of the free list, set the
  reference count to 1, collect the id.
\<close>

fun alloc_loop :: "nat \<Rightarrow> block_id list \<Rightarrow> (block_id, block) hmap \<Rightarrow> block_id list
    \<Rightarrow> (block_id list \<times> (block_id, block) hmap \<times> block_id list) option" where
  "alloc_loop 0 fr bl acc = Some (fr, bl, acc)"
| "alloc_loop (Suc n) fr bl acc =
     (case fr of [] \<Rightarrow> None
      | b # fr' \<Rightarrow>
        (case map_of bl b of None \<Rightarrow> None
         | Some _ \<Rightarrow> alloc_loop n fr' (hm_modify b (\<lambda>k. k\<lparr>blk_ref_count := 1\<rparr>) bl) (acc @ [b])))"

definition allocate_gpu ::
    "nat \<Rightarrow> block_manager \<Rightarrow> ((allocation_error + block_id list) \<times> block_manager) option" where
  "allocate_gpu n m =
     (if length (bm_free_gpu m) < n
      then Some (Inl (InsufficientGpuBlocks n (length (bm_free_gpu m))), m)
      else do { (fr, bl, ids) \<leftarrow> alloc_loop n (bm_free_gpu m) (bm_blocks m) [];
                Some (Inr ids, m\<lparr>bm_free_gpu := fr, bm_blocks := bl\<rparr>) })"

definition allocate_cpu ::
    "nat \<Rightarrow> block_manager \<Rightarrow> ((allocation_error + block_id list) \<times> block_manager) option" where
  "allocate_cpu n m =
     (if length (bm_free_cpu m) < n
      then Some (Inl (InsufficientCpuBlocks n (length (bm_free_cpu m))), m)
      else do { (fr, bl, ids) \<leftarrow> alloc_loop n (bm_free_cpu m) (bm_blocks m) [];
                Some (Inr ids, m\<lparr>bm_free_cpu := fr, bm_blocks := bl\<rparr>) })"

definition free_one :: "block_id \<Rightarrow> block_manager \<Rightarrow> block_manager option" where
  "free_one b m =
     (case map_of (bm_blocks m) b of None \<Rightarrow> None
      | Some k \<Rightarrow>
        (let rc = (if blk_ref_count k > 0 then blk_ref_count k - 1 else blk_ref_count k);
             m' = m\<lparr>bm_blocks := hm_modify b (\<lambda>k. k\<lparr>blk_ref_count := rc\<rparr>) (bm_blocks m)\<rparr>
         in Some (if rc = 0
                  then (case blk_location k of
                          LGpu \<Rightarrow> m'\<lparr>bm_free_gpu := bm_free_gpu m' @ [b]\<rparr>
                        | LCpu \<Rightarrow> m'\<lparr>bm_free_cpu := bm_free_cpu m' @ [b]\<rparr>)
                  else m')))"

fun bm_free :: "block_id list \<Rightarrow> block_manager \<Rightarrow> block_manager option" where
  "bm_free [] m = Some m"
| "bm_free (b # bs) m = do { m' \<leftarrow> free_one b m; bm_free bs m' }"

fun pin :: "block_id list \<Rightarrow> block_manager \<Rightarrow> block_manager option" where
  "pin [] m = Some m"
| "pin (b # bs) m =
     (case map_of (bm_blocks m) b of None \<Rightarrow> None
      | Some _ \<Rightarrow> pin bs (m\<lparr>bm_blocks :=
          hm_modify b (\<lambda>k. k\<lparr>blk_ref_count := blk_ref_count k + 1\<rparr>) (bm_blocks m)\<rparr>))"

definition ref_count :: "block_manager \<Rightarrow> block_id \<Rightarrow> nat" where
  "ref_count m b = (case map_of (bm_blocks m) b of None \<Rightarrow> 0 | Some k \<Rightarrow> blk_ref_count k)"

definition plan_swap_out ::
    "block_id list \<Rightarrow> block_manager \<Rightarrow> ((allocation_error + swap_plan) \<times> block_manager) option" where
  "plan_swap_out gpu m =
     do { (r, m') \<leftarrow> allocate_cpu (length gpu) m;
          Some (case r of Inl e \<Rightarrow> (Inl e, m')
                | Inr cpu \<Rightarrow> (Inr \<lparr>gpu_to_cpu = zip gpu cpu, cpu_to_gpu = []\<rparr>, m')) }"

fun release_gpu :: "(block_id \<times> block_id) list \<Rightarrow> block_manager \<Rightarrow> block_manager option" where
  "release_gpu [] m = Some m"
| "release_gpu ((g, c) # ps) m =
     (case map_of (bm_blocks m) g of None \<Rightarrow> None
      | Some _ \<Rightarrow> release_gpu ps
          (m\<lparr>bm_blocks := hm_modify g (\<lambda>k. k\<lparr>blk_ref_count := 0\<rparr>) (bm_blocks m),
             bm_free_gpu := bm_free_gpu m @ [g]\<rparr>))"

definition commit_swap_out :: "swap_plan \<Rightarrow> block_manager \<Rightarrow> block_manager option" where
  "commit_swap_out p m = release_gpu (gpu_to_cpu p) m"

definition plan_swap_in ::
    "block_id list \<Rightarrow> block_manager \<Rightarrow> ((allocation_error + swap_plan) \<times> block_manager) option" where
  "plan_swap_in cpu m =
     do { (r, m') \<leftarrow> allocate_gpu (length cpu) m;
          Some (case r of Inl e \<Rightarrow> (Inl e, m')
                | Inr gpu \<Rightarrow> (Inr \<lparr>gpu_to_cpu = [], cpu_to_gpu = zip cpu gpu\<rparr>, m')) }"

fun release_cpu :: "(block_id \<times> block_id) list \<Rightarrow> block_manager \<Rightarrow> block_manager option" where
  "release_cpu [] m = Some m"
| "release_cpu ((c, g) # ps) m =
     (case map_of (bm_blocks m) c of None \<Rightarrow> None
      | Some _ \<Rightarrow> release_cpu ps
          (m\<lparr>bm_blocks := hm_modify c (\<lambda>k. k\<lparr>blk_ref_count := 0\<rparr>) (bm_blocks m),
             bm_free_cpu := bm_free_cpu m @ [c]\<rparr>))"

definition commit_swap_in :: "swap_plan \<Rightarrow> block_manager \<Rightarrow> block_manager option" where
  "commit_swap_in p m = release_cpu (cpu_to_gpu p) m"

definition blocks_for_tokens :: "block_manager \<Rightarrow> nat \<Rightarrow> nat" where
  "blocks_for_tokens m n = div_ceil n (bm_block_size m)"

subsection \<open>The invariant\<close>

text \<open>
  Every managed block is filed under its own id, and each free list holds, once each, exactly
  the blocks of its side whose reference count is zero.
\<close>

definition idle_ids :: "bm_location \<Rightarrow> (block_id, block) hmap \<Rightarrow> block_id list" where
  "idle_ids loc bl = map fst (filter (\<lambda>e. blk_location (snd e) = loc \<and> blk_ref_count (snd e) = 0) bl)"

definition bm_wf :: "block_manager \<Rightarrow> bool" where
  "bm_wf m \<longleftrightarrow> 0 < bm_block_size m \<and> distinct (map fst (bm_blocks m)) \<and>
     list_all (\<lambda>e. blk_id (snd e) = fst e \<and> fst e < bm_next_id m) (bm_blocks m) \<and>
     distinct (bm_free_gpu m) \<and> distinct (bm_free_cpu m) \<and>
     set (bm_free_gpu m) = set (idle_ids LGpu (bm_blocks m)) \<and>
     set (bm_free_cpu m) = set (idle_ids LCpu (bm_blocks m))"

definition managed :: "block_manager \<Rightarrow> block_id \<Rightarrow> bool" where
  "managed m b \<longleftrightarrow> map_of (bm_blocks m) b \<noteq> None"

definition side_of :: "block_manager \<Rightarrow> block_id \<Rightarrow> bm_location option" where
  "side_of m b = map_option blk_location (map_of (bm_blocks m) b)"

lemma idle_ids_iff:
  "distinct (map fst bl) \<Longrightarrow> b \<in> set (idle_ids loc bl) \<longleftrightarrow>
     (\<exists>k. map_of bl b = Some k \<and> blk_location k = loc \<and> blk_ref_count k = 0)"
  by (force simp: idle_ids_def image_iff dest: map_of_SomeD map_of_is_SomeI)

lemma entries_iff:
  "distinct (map fst bl) \<Longrightarrow>
     list_all (\<lambda>e. P (fst e) (snd e)) bl \<longleftrightarrow> (\<forall>b k. map_of bl b = Some k \<longrightarrow> P b k)"
  by (auto simp: list_all_iff dest: map_of_SomeD map_of_is_SomeI)

text \<open>The same invariant over the lookup function of the block table, which the proofs use.\<close>

definition bm_view :: "(block_id \<rightharpoonup> block) \<Rightarrow> block_id list \<Rightarrow> block_id list \<Rightarrow> nat \<Rightarrow> bool" where
  "bm_view f fg fc nxt \<longleftrightarrow> (\<forall>b k. f b = Some k \<longrightarrow> blk_id k = b \<and> b < nxt) \<and> distinct fg \<and> distinct fc \<and>
     (\<forall>b. b \<in> set fg \<longleftrightarrow> (\<exists>k. f b = Some k \<and> blk_location k = LGpu \<and> blk_ref_count k = 0)) \<and>
     (\<forall>b. b \<in> set fc \<longleftrightarrow> (\<exists>k. f b = Some k \<and> blk_location k = LCpu \<and> blk_ref_count k = 0))"

lemma bm_wf_alt:
  "bm_wf m \<longleftrightarrow> 0 < bm_block_size m \<and> distinct (map fst (bm_blocks m)) \<and>
     bm_view (map_of (bm_blocks m)) (bm_free_gpu m) (bm_free_cpu m) (bm_next_id m)"
proof (cases "distinct (map fst (bm_blocks m))")
  case True
  show ?thesis
    unfolding bm_wf_def bm_view_def
    using True entries_iff [OF True, of "\<lambda>b k. blk_id k = b \<and> b < bm_next_id m"]
    by (simp add: set_eq_iff idle_ids_iff del: map_of_eq_Some_iff)
qed (simp add: bm_wf_def)

lemma bm_wf_free_managed:
  assumes "bm_wf m"
  shows "set (bm_free_gpu m) \<subseteq> dom (map_of (bm_blocks m))"
    and "set (bm_free_cpu m) \<subseteq> dom (map_of (bm_blocks m))"
  using assms by (auto simp: bm_wf_alt bm_view_def)

lemma ref_count_pos_managed: "0 < ref_count m b \<Longrightarrow> managed m b"
  by (auto simp: ref_count_def managed_def split: option.splits)

subsection \<open>Construction\<close>

lemma bm_fill_spec:
  assumes "bm_fill n loc nxt bl fr = (bl', fr', nxt')"
    and "\<forall>b k. map_of bl b = Some k \<longrightarrow> b < nxt"
  shows "nxt' = nxt + n \<and> fr' = fr @ [nxt..<nxt + n] \<and>
    map_of bl' = (\<lambda>b. if nxt \<le> b \<and> b < nxt + n
      then Some \<lparr>blk_id = b, blk_location = loc, blk_ref_count = 0\<rparr> else map_of bl b) \<and>
    (distinct (map fst bl) \<longrightarrow> distinct (map fst bl')) \<and> length bl' = length bl + n"
  using assms
proof (induction n loc nxt bl fr arbitrary: bl' fr' nxt' rule: bm_fill.induct)
  case (2 n loc nxt bl fr)
  let ?bl = "AList.update nxt \<lparr>blk_id = nxt, blk_location = loc, blk_ref_count = 0\<rparr> bl"
  have new: "nxt \<notin> fst ` set bl" using "2.prems"(2) by (force dest: weak_map_of_SomeI)
  then have bl: "?bl = bl @ [(nxt, \<lparr>blk_id = nxt, blk_location = loc, blk_ref_count = 0\<rparr>)]"
    by (induction bl) auto
  have "\<forall>b k. map_of ?bl b = Some k \<longrightarrow> b < nxt + 1"
    using "2.prems"(2) by (auto simp: update_conv' less_Suc_eq)
  with "2.IH" "2.prems"(1) have
    IH: "nxt' = nxt + 1 + n" "fr' = (fr @ [nxt]) @ [nxt + 1..<nxt + 1 + n]"
      "map_of bl' = (\<lambda>b. if nxt + 1 \<le> b \<and> b < nxt + 1 + n
        then Some \<lparr>blk_id = b, blk_location = loc, blk_ref_count = 0\<rparr> else map_of ?bl b)"
      "distinct (map fst ?bl) \<longrightarrow> distinct (map fst bl')" "length bl' = length ?bl + n"
    by auto
  have upt: "[nxt..<nxt + Suc n] = nxt # [nxt + 1..<nxt + 1 + n]" by (simp add: upt_conv_Cons)
  have upd: "map_of ?bl = (map_of bl)(nxt \<mapsto> \<lparr>blk_id = nxt, blk_location = loc, blk_ref_count = 0\<rparr>)"
    by (rule update_conv')
  show ?case
  proof (intro conjI)
    show "nxt' = nxt + Suc n" using IH(1) by simp
    show "fr' = fr @ [nxt..<nxt + Suc n]" unfolding upt using IH(2) by simp
    show "map_of bl' = (\<lambda>b. if nxt \<le> b \<and> b < nxt + Suc n
        then Some \<lparr>blk_id = b, blk_location = loc, blk_ref_count = 0\<rparr> else map_of bl b)"
      unfolding IH(3) upd by (rule ext) auto
    show "distinct (map fst bl) \<longrightarrow> distinct (map fst bl')" using IH(4) by (simp add: distinct_update)
    show "length bl' = length bl + Suc n" using IH(5) unfolding bl by simp
  qed
qed (auto simp: fun_eq_iff)

lemma bm_new_wf:
  assumes "bm_new g c bs = Some m"
  shows "bm_wf m \<and> bm_free_gpu m = [0..<g] \<and> bm_free_cpu m = [g..<g + c] \<and>
    bm_block_size m = bs \<and> (\<forall>b. ref_count m b = 0) \<and> (\<forall>b. managed m b \<longleftrightarrow> b < g + c)"
proof -
  obtain bl fg nxt where f1: "bm_fill g LGpu 0 [] [] = (bl, fg, nxt)" by (metis prod_cases3)
  obtain bl' fc nxt' where f2: "bm_fill c LCpu nxt bl [] = (bl', fc, nxt')" by (metis prod_cases3)
  note s1 = bm_fill_spec [OF f1, simplified]
  have "\<forall>b k. map_of bl b = Some k \<longrightarrow> b < nxt" using s1 by (auto split: if_splits)
  note s2 = bm_fill_spec [OF f2 this]
  have m: "m = \<lparr>bm_blocks = bl', bm_free_gpu = fg, bm_free_cpu = fc, bm_block_size = bs, bm_next_id = nxt'\<rparr>"
    and bs: "0 < bs"
    using assms f1 f2 by (auto simp: bm_new_def split: if_splits)
  have "map_of bl' = (\<lambda>b. if b < g then Some \<lparr>blk_id = b, blk_location = LGpu, blk_ref_count = 0\<rparr>
      else if b < g + c then Some \<lparr>blk_id = b, blk_location = LCpu, blk_ref_count = 0\<rparr> else None)"
    using s1 s2 by (auto simp: fun_eq_iff)
  with s1 s2 bs show ?thesis
    unfolding m by (auto simp: bm_wf_alt bm_view_def ref_count_def managed_def split: if_splits)
qed

subsection \<open>Allocation\<close>

definition mark_all :: "nat \<Rightarrow> block_id list \<Rightarrow> (block_id, block) hmap \<Rightarrow> (block_id, block) hmap" where
  "mark_all v ids bl = fold (\<lambda>b. hm_modify b (\<lambda>k. k\<lparr>blk_ref_count := v\<rparr>)) ids bl"

lemma map_of_mark_all [simp]:
  "map_of (mark_all v ids bl) x =
     (if x \<in> set ids then map_option (\<lambda>k. k\<lparr>blk_ref_count := v\<rparr>) (map_of bl x) else map_of bl x)"
proof (induction ids arbitrary: bl)
  case (Cons a ids)
  have "mark_all v (a # ids) bl = mark_all v ids (hm_modify a (\<lambda>k. k\<lparr>blk_ref_count := v\<rparr>) bl)"
    by (simp add: mark_all_def)
  then show ?case using Cons.IH by (auto simp: option.map_comp comp_def)
qed (simp add: mark_all_def)

lemma fst_mark_all [simp]: "map fst (mark_all v ids bl) = map fst bl"
  by (induction ids arbitrary: bl) (simp_all add: mark_all_def)

lemma alloc_loop_eq:
  "n \<le> length fr \<Longrightarrow> set fr \<subseteq> dom (map_of bl) \<Longrightarrow>
     alloc_loop n fr bl acc = Some (drop n fr, mark_all 1 (take n fr) bl, acc @ take n fr)"
proof (induction n fr bl acc rule: alloc_loop.induct)
  case (2 n fr bl acc)
  then obtain b fr' where fr: "fr = b # fr'" by (cases fr) auto
  then obtain k where k: "map_of bl b = Some k" using "2.prems" by auto
  have d: "set fr' \<subseteq> dom (map_of (hm_modify b (\<lambda>k. k\<lparr>blk_ref_count := 1\<rparr>) bl))"
    using "2.prems" fr by (auto simp: dom_def)
  have "alloc_loop n fr' (hm_modify b (\<lambda>k. k\<lparr>blk_ref_count := 1\<rparr>) bl) (acc @ [b]) =
    Some (drop n fr', mark_all 1 (take n fr') (hm_modify b (\<lambda>k. k\<lparr>blk_ref_count := 1\<rparr>) bl), (acc @ [b]) @ take n fr')"
    by (rule "2.IH" [OF fr k _ d]) (use "2.prems" fr in simp)
  then show ?case using fr k by (simp add: mark_all_def)
qed (simp add: mark_all_def)

lemma allocate_gpu_eq:
  assumes "bm_wf m" and "n \<le> free_gpu_blocks m"
  shows "allocate_gpu n m = Some (Inr (take n (bm_free_gpu m)),
    m\<lparr>bm_free_gpu := drop n (bm_free_gpu m), bm_blocks := mark_all 1 (take n (bm_free_gpu m)) (bm_blocks m)\<rparr>)"
  using assms alloc_loop_eq [OF _ bm_wf_free_managed(1)]
  by (simp add: allocate_gpu_def free_gpu_blocks_def)

lemma allocate_cpu_eq:
  assumes "bm_wf m" and "n \<le> free_cpu_blocks m"
  shows "allocate_cpu n m = Some (Inr (take n (bm_free_cpu m)),
    m\<lparr>bm_free_cpu := drop n (bm_free_cpu m), bm_blocks := mark_all 1 (take n (bm_free_cpu m)) (bm_blocks m)\<rparr>)"
  using assms alloc_loop_eq [OF _ bm_wf_free_managed(2)]
  by (simp add: allocate_cpu_def free_cpu_blocks_def)

lemma set_take_drop_distinct:
  "distinct xs \<Longrightarrow> x \<in> set (drop n xs) \<longleftrightarrow> x \<in> set xs \<and> x \<notin> set (take n xs)"
  by (metis Un_iff append_take_drop_id disjoint_iff set_append set_take_disj_set_drop_if_distinct order_refl)

lemma bm_view_take_gpu:
  assumes v: "bm_view f fg fc nxt" and r: "0 < r"
  shows "bm_view (\<lambda>x. if x \<in> set (take n fg) then map_option (\<lambda>k. k\<lparr>blk_ref_count := r\<rparr>) (f x) else f x)
    (drop n fg) fc nxt"
proof -
  have d: "distinct fg" using v by (simp add: bm_view_def)
  have t: "x \<in> set (take n fg) \<Longrightarrow> x \<in> set fg" for x by (rule in_set_takeD)
  show ?thesis using v r unfolding bm_view_def by (auto simp: set_take_drop_distinct [OF d] dest!: t)
qed

lemma bm_view_take_cpu:
  assumes v: "bm_view f fg fc nxt" and r: "0 < r"
  shows "bm_view (\<lambda>x. if x \<in> set (take n fc) then map_option (\<lambda>k. k\<lparr>blk_ref_count := r\<rparr>) (f x) else f x)
    fg (drop n fc) nxt"
proof -
  have d: "distinct fc" using v by (simp add: bm_view_def)
  have t: "x \<in> set (take n fc) \<Longrightarrow> x \<in> set fc" for x by (rule in_set_takeD)
  show ?thesis using v r unfolding bm_view_def by (auto simp: set_take_drop_distinct [OF d] dest!: t)
qed

lemma map_of_mark_all_fun:
  "map_of (mark_all v ids bl) =
     (\<lambda>x. if x \<in> set ids then map_option (\<lambda>k. k\<lparr>blk_ref_count := v\<rparr>) (map_of bl x) else map_of bl x)"
  by (rule ext) simp

lemma allocate_gpu_wf:
  assumes "bm_wf m" and "allocate_gpu n m = Some (r, m')"
  shows "bm_wf m'"
proof (cases "n \<le> free_gpu_blocks m")
  case True
  show ?thesis
    using assms(2) allocate_gpu_eq [OF assms(1) True] assms(1) bm_view_take_gpu
    by (auto simp: bm_wf_alt map_of_mark_all_fun)
next
  case False
  with assms show ?thesis by (auto simp: allocate_gpu_def free_gpu_blocks_def)
qed

lemma allocate_cpu_wf:
  assumes "bm_wf m" and "allocate_cpu n m = Some (r, m')"
  shows "bm_wf m'"
proof (cases "n \<le> free_cpu_blocks m")
  case True
  show ?thesis
    using assms(2) allocate_cpu_eq [OF assms(1) True] assms(1) bm_view_take_cpu
    by (auto simp: bm_wf_alt map_of_mark_all_fun)
next
  case False
  with assms show ?thesis by (auto simp: allocate_cpu_def free_cpu_blocks_def)
qed

lemma ref_count_mark_all:
  "ref_count (m\<lparr>bm_free_gpu := x, bm_blocks := mark_all v ids (bm_blocks m)\<rparr>) b =
     (if b \<in> set ids \<and> managed m b then v else ref_count m b)"
  "ref_count (m\<lparr>bm_free_cpu := x, bm_blocks := mark_all v ids (bm_blocks m)\<rparr>) b =
     (if b \<in> set ids \<and> managed m b then v else ref_count m b)"
  by (auto simp: ref_count_def managed_def split: option.splits)

lemma side_of_mark_all [simp]:
  "side_of (m\<lparr>bm_free_gpu := x, bm_blocks := mark_all v ids (bm_blocks m)\<rparr>) b = side_of m b"
  "side_of (m\<lparr>bm_free_cpu := x, bm_blocks := mark_all v ids (bm_blocks m)\<rparr>) b = side_of m b"
  by (auto simp: side_of_def option.map_comp comp_def)

subsection \<open>Release and pinning\<close>

text \<open>
  One \<open>free\<close> of a block that somebody holds: the count drops by one, and the block is appended
  to the free list of its side exactly when the count reaches zero.
\<close>

lemma free_one_held:
  assumes wf: "bm_wf m" and held: "0 < ref_count m b"
  obtains m' where "free_one b m = Some m'" "bm_wf m'"
    "ref_count m' = (ref_count m)(b := ref_count m b - 1)"
    "side_of m' = side_of m" "bm_block_size m' = bm_block_size m" "bm_next_id m' = bm_next_id m"
    "bm_free_gpu m' = (if ref_count m b = 1 \<and> side_of m b = Some LGpu then bm_free_gpu m @ [b] else bm_free_gpu m)"
    "bm_free_cpu m' = (if ref_count m b = 1 \<and> side_of m b = Some LCpu then bm_free_cpu m @ [b] else bm_free_cpu m)"
proof -
  obtain k where k: "map_of (bm_blocks m) b = Some k" and rc: "ref_count m b = blk_ref_count k"
    and pos: "0 < blk_ref_count k"
    using held by (auto simp: ref_count_def split: option.splits)
  define f where "f = map_of (bm_blocks m)"
  define f' where "f' = (\<lambda>x. if x = b then map_option (\<lambda>k'. k'\<lparr>blk_ref_count := blk_ref_count k - 1\<rparr>) (f x) else f x)"
  define fg where "fg = (if blk_ref_count k = 1 \<and> blk_location k = LGpu then bm_free_gpu m @ [b] else bm_free_gpu m)"
  define fc where "fc = (if blk_ref_count k = 1 \<and> blk_location k = LCpu then bm_free_cpu m @ [b] else bm_free_cpu m)"
  define m' where "m' = m\<lparr>bm_blocks := hm_modify b (\<lambda>k'. k'\<lparr>blk_ref_count := blk_ref_count k - 1\<rparr>) (bm_blocks m),
    bm_free_gpu := fg, bm_free_cpu := fc\<rparr>"
  have view: "bm_view f (bm_free_gpu m) (bm_free_cpu m) (bm_next_id m)" using wf by (simp add: bm_wf_alt f_def)
  have fb: "f b = Some k" using k by (simp add: f_def)
  have "bm_view f' fg fc (bm_next_id m)"
    using view pos fb unfolding bm_view_def f'_def fg_def fc_def by auto
  moreover have "map_of (bm_blocks m') = f'" by (rule ext) (simp add: m'_def f'_def f_def)
  ultimately have wf': "bm_wf m'" using wf by (simp add: bm_wf_alt m'_def)
  show thesis
  proof (rule that)
    show "free_one b m = Some m'"
      using k pos by (cases "blk_location k") (auto simp: free_one_def m'_def fg_def fc_def Let_def)
    show "bm_wf m'" by (rule wf')
  qed (use k rc in \<open>auto simp: m'_def ref_count_def side_of_def fg_def fc_def fun_eq_iff split: option.splits\<close>)
qed

lemma bm_free_held:
  assumes "bm_wf m" and "\<forall>b. count_list bs b \<le> ref_count m b"
  shows "\<exists>m'. bm_free bs m = Some m' \<and> bm_wf m' \<and> (\<forall>b. ref_count m' b = ref_count m b - count_list bs b) \<and>
    side_of m' = side_of m \<and> bm_block_size m' = bm_block_size m"
  using assms
proof (induction bs arbitrary: m)
  case (Cons b bs)
  have "1 \<le> count_list (b # bs) b" by simp
  then have "0 < ref_count m b" using Cons.prems(2) by (metis less_le_trans less_one)
  then obtain m1 where m1: "free_one b m = Some m1" "bm_wf m1"
    "ref_count m1 = (ref_count m)(b := ref_count m b - 1)" "side_of m1 = side_of m"
    "bm_block_size m1 = bm_block_size m"
    by (rule free_one_held [OF Cons.prems(1)])
  have "count_list bs x \<le> ref_count m1 x" for x
    using Cons.prems(2) [rule_format, of x] by (auto simp: m1(3) split: if_splits)
  then obtain m' where "bm_free bs m1 = Some m'" "bm_wf m'"
    "\<forall>x. ref_count m' x = ref_count m1 x - count_list bs x" "side_of m' = side_of m1"
    "bm_block_size m' = bm_block_size m1"
    using Cons.IH [OF m1(2)] by blast
  with m1 show ?case by auto
qed simp

text \<open>Releasing blocks with a single holder appends them, in order, to the free list.\<close>

lemma bm_free_last_holder:
  assumes "bm_wf m" and "distinct bs" and "\<forall>b\<in>set bs. side_of m b = Some l \<and> ref_count m b = 1"
  shows "\<exists>m'. bm_free bs m = Some m' \<and> bm_wf m' \<and> side_of m' = side_of m \<and>
    (\<forall>b. ref_count m' b = (if b \<in> set bs then 0 else ref_count m b)) \<and>
    bm_free_gpu m' = bm_free_gpu m @ (if l = LGpu then bs else []) \<and>
    bm_free_cpu m' = bm_free_cpu m @ (if l = LCpu then bs else [])"
  using assms
proof (induction bs arbitrary: m)
  case (Cons b bs)
  have "0 < ref_count m b" using Cons.prems(3) by simp
  then obtain m1 where m1: "free_one b m = Some m1" "bm_wf m1"
    "ref_count m1 = (ref_count m)(b := ref_count m b - 1)" "side_of m1 = side_of m"
    "bm_free_gpu m1 = (if ref_count m b = 1 \<and> side_of m b = Some LGpu then bm_free_gpu m @ [b] else bm_free_gpu m)"
    "bm_free_cpu m1 = (if ref_count m b = 1 \<and> side_of m b = Some LCpu then bm_free_cpu m @ [b] else bm_free_cpu m)"
    by (rule free_one_held [OF Cons.prems(1)])
  have "\<forall>x\<in>set bs. side_of m1 x = Some l \<and> ref_count m1 x = 1" using Cons.prems m1(3,4) by auto
  then obtain m' where "bm_free bs m1 = Some m'" "bm_wf m'" "side_of m' = side_of m1"
    "\<forall>x. ref_count m' x = (if x \<in> set bs then 0 else ref_count m1 x)"
    "bm_free_gpu m' = bm_free_gpu m1 @ (if l = LGpu then bs else [])"
    "bm_free_cpu m' = bm_free_cpu m1 @ (if l = LCpu then bs else [])"
    using Cons.IH [OF m1(2)] Cons.prems(2) by auto
  with m1 Cons.prems show ?case by (cases l) auto
qed auto

lemma pin_held:
  assumes "bm_wf m" and "\<forall>b\<in>set bs. 0 < ref_count m b"
  shows "\<exists>m'. pin bs m = Some m' \<and> bm_wf m' \<and> side_of m' = side_of m \<and>
    (\<forall>b. ref_count m' b = ref_count m b + count_list bs b) \<and>
    bm_free_gpu m' = bm_free_gpu m \<and> bm_free_cpu m' = bm_free_cpu m"
  using assms
proof (induction bs arbitrary: m)
  case (Cons b bs)
  define m1 where "m1 = m\<lparr>bm_blocks := hm_modify b (\<lambda>k. k\<lparr>blk_ref_count := blk_ref_count k + 1\<rparr>) (bm_blocks m)\<rparr>"
  obtain k where k: "map_of (bm_blocks m) b = Some k" "0 < blk_ref_count k"
    using Cons.prems(2) by (auto simp: ref_count_def split: option.splits)
  have "bm_view (map_of (bm_blocks m)) (bm_free_gpu m) (bm_free_cpu m) (bm_next_id m)"
    using Cons.prems(1) by (simp add: bm_wf_alt)
  then have "bm_view (map_of (bm_blocks m1)) (bm_free_gpu m) (bm_free_cpu m) (bm_next_id m)"
    using k(2) k(1) unfolding bm_view_def m1_def by (auto split: if_splits)
  then have wf1: "bm_wf m1" using Cons.prems(1) by (simp add: bm_wf_alt m1_def)
  have rc1: "ref_count m1 = (ref_count m)(b := ref_count m b + 1)" and s1: "side_of m1 = side_of m"
    using k(1) by (auto simp: m1_def ref_count_def side_of_def fun_eq_iff split: option.splits)
  have "\<forall>x\<in>set bs. 0 < ref_count m1 x" using Cons.prems(2) rc1 by auto
  then obtain m' where "pin bs m1 = Some m'" "bm_wf m'" "side_of m' = side_of m1"
    "\<forall>x. ref_count m' x = ref_count m1 x + count_list bs x"
    "bm_free_gpu m' = bm_free_gpu m1" "bm_free_cpu m' = bm_free_cpu m1"
    using Cons.IH [OF wf1] by blast
  then show ?case using k rc1 s1 by (auto simp: m1_def)
qed auto

subsection \<open>Swap commits\<close>

lemma release_gpu_held:
  assumes "bm_wf m" and "distinct (map fst ps)"
    and "\<forall>b\<in>set (map fst ps). side_of m b = Some LGpu \<and> 0 < ref_count m b"
  shows "\<exists>m'. release_gpu ps m = Some m' \<and> bm_wf m' \<and> side_of m' = side_of m \<and>
    (\<forall>b. ref_count m' b = (if b \<in> set (map fst ps) then 0 else ref_count m b)) \<and>
    bm_free_gpu m' = bm_free_gpu m @ map fst ps \<and> bm_free_cpu m' = bm_free_cpu m"
  using assms
proof (induction ps m rule: release_gpu.induct)
  case (2 g c ps m)
  define m1 where "m1 = m\<lparr>bm_blocks := hm_modify g (\<lambda>k. k\<lparr>blk_ref_count := 0\<rparr>) (bm_blocks m), bm_free_gpu := bm_free_gpu m @ [g]\<rparr>"
  obtain k where k: "map_of (bm_blocks m) g = Some k" "0 < blk_ref_count k" "blk_location k = LGpu"
    using "2.prems"(3) by (auto simp: ref_count_def side_of_def split: option.splits)
  have "bm_view (map_of (bm_blocks m)) (bm_free_gpu m) (bm_free_cpu m) (bm_next_id m)"
    using "2.prems"(1) by (simp add: bm_wf_alt)
  then have "bm_view (map_of (bm_blocks m1)) (bm_free_gpu m @ [g]) (bm_free_cpu m) (bm_next_id m)"
    using k unfolding bm_view_def m1_def by (auto split: if_splits)
  then have wf1: "bm_wf m1" using "2.prems"(1) by (simp add: bm_wf_alt m1_def)
  have rc1: "ref_count m1 = (ref_count m)(g := 0)" and s1: "side_of m1 = side_of m"
    using k(1) by (auto simp: m1_def ref_count_def side_of_def fun_eq_iff split: option.splits)
  have d: "distinct (map fst ps)" and h: "\<forall>b\<in>set (map fst ps). side_of m1 b = Some LGpu \<and> 0 < ref_count m1 b"
    using "2.prems"(2,3) rc1 s1 by auto
  have "\<exists>m'. release_gpu ps m1 = Some m' \<and> bm_wf m' \<and> side_of m' = side_of m1 \<and>
    (\<forall>b. ref_count m' b = (if b \<in> set (map fst ps) then 0 else ref_count m1 b)) \<and>
    bm_free_gpu m' = bm_free_gpu m1 @ map fst ps \<and> bm_free_cpu m' = bm_free_cpu m1"
    using "2.IH" [OF k(1), folded m1_def, OF wf1 d h] .
  then show ?case using k rc1 s1 by (auto simp: m1_def)
qed auto

lemma release_cpu_held:
  assumes "bm_wf m" and "distinct (map fst ps)"
    and "\<forall>b\<in>set (map fst ps). side_of m b = Some LCpu \<and> 0 < ref_count m b"
  shows "\<exists>m'. release_cpu ps m = Some m' \<and> bm_wf m' \<and> side_of m' = side_of m \<and>
    (\<forall>b. ref_count m' b = (if b \<in> set (map fst ps) then 0 else ref_count m b)) \<and>
    bm_free_cpu m' = bm_free_cpu m @ map fst ps \<and> bm_free_gpu m' = bm_free_gpu m"
  using assms
proof (induction ps m rule: release_cpu.induct)
  case (2 c g ps m)
  define m1 where "m1 = m\<lparr>bm_blocks := hm_modify c (\<lambda>k. k\<lparr>blk_ref_count := 0\<rparr>) (bm_blocks m), bm_free_cpu := bm_free_cpu m @ [c]\<rparr>"
  obtain k where k: "map_of (bm_blocks m) c = Some k" "0 < blk_ref_count k" "blk_location k = LCpu"
    using "2.prems"(3) by (auto simp: ref_count_def side_of_def split: option.splits)
  have "bm_view (map_of (bm_blocks m)) (bm_free_gpu m) (bm_free_cpu m) (bm_next_id m)"
    using "2.prems"(1) by (simp add: bm_wf_alt)
  then have "bm_view (map_of (bm_blocks m1)) (bm_free_gpu m) (bm_free_cpu m @ [c]) (bm_next_id m)"
    using k unfolding bm_view_def m1_def by (auto split: if_splits)
  then have wf1: "bm_wf m1" using "2.prems"(1) by (simp add: bm_wf_alt m1_def)
  have rc1: "ref_count m1 = (ref_count m)(c := 0)" and s1: "side_of m1 = side_of m"
    using k(1) by (auto simp: m1_def ref_count_def side_of_def fun_eq_iff split: option.splits)
  have d: "distinct (map fst ps)" and h: "\<forall>b\<in>set (map fst ps). side_of m1 b = Some LCpu \<and> 0 < ref_count m1 b"
    using "2.prems"(2,3) rc1 s1 by auto
  have "\<exists>m'. release_cpu ps m1 = Some m' \<and> bm_wf m' \<and> side_of m' = side_of m1 \<and>
    (\<forall>b. ref_count m' b = (if b \<in> set (map fst ps) then 0 else ref_count m1 b)) \<and>
    bm_free_cpu m' = bm_free_cpu m1 @ map fst ps \<and> bm_free_gpu m' = bm_free_gpu m1"
    using "2.IH" [OF k(1), folded m1_def, OF wf1 d h] .
  then show ?case using k rc1 s1 by (auto simp: m1_def)
qed auto

subsection \<open>The pool interface\<close>

text \<open>
  What a client of one side of the manager relies on: an allocation either hands out that many
  fresh blocks or fails and changes nothing, and releasing blocks with a single holder gives
  them back. The batch scheduler uses the manager through this contract.
\<close>

locale refcounted_pool =
  fixes inv :: "'s \<Rightarrow> bool"
    and avail :: "'s \<Rightarrow> nat"
    and refs :: "'s \<Rightarrow> 'b \<Rightarrow> nat"
    and mine :: "'s \<Rightarrow> 'b \<Rightarrow> bool"
    and alloc :: "nat \<Rightarrow> 's \<Rightarrow> (('e + 'b list) \<times> 's) option"
    and release :: "'b list \<Rightarrow> 's \<Rightarrow> 's option"
  assumes alloc_ok: "inv s \<Longrightarrow> n \<le> avail s \<Longrightarrow>
      \<exists>ids s'. alloc n s = Some (Inr ids, s') \<and> inv s' \<and> length ids = n \<and> distinct ids \<and>
        (\<forall>b\<in>set ids. mine s b \<and> refs s b = 0) \<and> avail s' = avail s - n \<and>
        (\<forall>b. refs s' b = (if b \<in> set ids then 1 else refs s b)) \<and> mine s' = mine s"
    and alloc_err: "inv s \<Longrightarrow> avail s < n \<Longrightarrow> \<exists>e. alloc n s = Some (Inl e, s)"
    and release_ok: "inv s \<Longrightarrow> distinct ids \<Longrightarrow> \<forall>b\<in>set ids. mine s b \<and> refs s b = 1 \<Longrightarrow>
      \<exists>s'. release ids s = Some s' \<and> inv s' \<and> avail s' = avail s + length ids \<and>
        (\<forall>b. refs s' b = (if b \<in> set ids then 0 else refs s b)) \<and> mine s' = mine s"
begin

lemma alloc_cases:
  assumes "inv s" and "alloc n s = Some (r, s')"
  obtains (ok) ids where "r = Inr ids" "n \<le> avail s" "inv s'" "length ids = n" "distinct ids"
      "\<forall>b\<in>set ids. mine s b \<and> refs s b = 0" "avail s' = avail s - n"
      "\<forall>b. refs s' b = (if b \<in> set ids then 1 else refs s b)" "mine s' = mine s"
    | (err) e where "r = Inl e" "avail s < n" "s' = s"
proof (cases "n \<le> avail s")
  case True
  with alloc_ok [OF assms(1) True] assms(2) show ?thesis by (auto intro: ok)
next
  case False
  with alloc_err [OF assms(1), of n] assms(2) show ?thesis by (auto intro: err)
qed

lemma alloc_total:
  assumes "inv s"
  shows "\<exists>r s'. alloc n s = Some (r, s') \<and> inv s'"
  using alloc_ok [OF assms, of n] alloc_err [OF assms, of n] assms
  by (cases "n \<le> avail s") (auto simp: not_le)

lemma successive_allocs_disjoint:
  assumes "inv s" and "alloc n s = Some (Inr xs, s1)" and "alloc k s1 = Some (Inr ys, s2)"
  shows "set xs \<inter> set ys = {}"
proof -
  from assms(1,2) have s1: "inv s1" "\<forall>b. refs s1 b = (if b \<in> set xs then 1 else refs s b)"
    by (auto elim: alloc_cases)
  from s1(1) assms(3) have "\<forall>b\<in>set ys. refs s1 b = 0" by (auto elim: alloc_cases)
  with s1(2) show ?thesis by auto
qed

lemma alloc_release:
  assumes "inv s" and "alloc n s = Some (Inr ids, s1)"
  shows "\<exists>s2. release ids s1 = Some s2 \<and> inv s2 \<and> avail s2 = avail s \<and> refs s2 = refs s"
proof -
  from assms have a: "inv s1" "distinct ids" "n \<le> avail s" "length ids = n" "avail s1 = avail s - n"
    "\<forall>b\<in>set ids. mine s b \<and> refs s b = 0" "mine s1 = mine s"
    "\<forall>b. refs s1 b = (if b \<in> set ids then 1 else refs s b)"
    by (auto elim: alloc_cases)
  then obtain s2 where "release ids s1 = Some s2" "inv s2" "avail s2 = avail s1 + length ids"
    "\<forall>b. refs s2 b = (if b \<in> set ids then 0 else refs s1 b)"
    using release_ok [of s1 ids] by auto
  with a show ?thesis by (auto simp: fun_eq_iff)
qed

end

lemma gpu_alloc_ok:
  assumes "bm_wf m" and "n \<le> free_gpu_blocks m"
  shows "\<exists>ids m'. allocate_gpu n m = Some (Inr ids, m') \<and> bm_wf m' \<and> length ids = n \<and> distinct ids \<and>
    (\<forall>b\<in>set ids. side_of m b = Some LGpu \<and> ref_count m b = 0) \<and> free_gpu_blocks m' = free_gpu_blocks m - n \<and>
    (\<forall>b. ref_count m' b = (if b \<in> set ids then 1 else ref_count m b)) \<and> side_of m' = side_of m"
proof -
  let ?ids = "take n (bm_free_gpu m)"
  have "\<forall>b\<in>set ?ids. side_of m b = Some LGpu \<and> ref_count m b = 0 \<and> managed m b" and d: "distinct ?ids"
    using assms(1) by (auto simp: bm_wf_alt bm_view_def side_of_def ref_count_def managed_def dest!: in_set_takeD)
  then show ?thesis
    using allocate_gpu_eq [OF assms] allocate_gpu_wf [OF assms(1)] assms(2)
    by (auto simp: free_gpu_blocks_def ref_count_mark_all fun_eq_iff)
qed

lemma cpu_alloc_ok:
  assumes "bm_wf m" and "n \<le> free_cpu_blocks m"
  shows "\<exists>ids m'. allocate_cpu n m = Some (Inr ids, m') \<and> bm_wf m' \<and> length ids = n \<and> distinct ids \<and>
    (\<forall>b\<in>set ids. side_of m b = Some LCpu \<and> ref_count m b = 0) \<and> free_cpu_blocks m' = free_cpu_blocks m - n \<and>
    (\<forall>b. ref_count m' b = (if b \<in> set ids then 1 else ref_count m b)) \<and> side_of m' = side_of m"
proof -
  let ?ids = "take n (bm_free_cpu m)"
  have "\<forall>b\<in>set ?ids. side_of m b = Some LCpu \<and> ref_count m b = 0 \<and> managed m b" and d: "distinct ?ids"
    using assms(1) by (auto simp: bm_wf_alt bm_view_def side_of_def ref_count_def managed_def dest!: in_set_takeD)
  then show ?thesis
    using allocate_cpu_eq [OF assms] allocate_cpu_wf [OF assms(1)] assms(2)
    by (auto simp: free_cpu_blocks_def ref_count_mark_all fun_eq_iff)
qed

lemma allocate_gpu_err: "free_gpu_blocks m < n \<Longrightarrow>
    allocate_gpu n m = Some (Inl (InsufficientGpuBlocks n (free_gpu_blocks m)), m)"
  by (simp add: allocate_gpu_def free_gpu_blocks_def)

lemma allocate_cpu_err: "free_cpu_blocks m < n \<Longrightarrow>
    allocate_cpu n m = Some (Inl (InsufficientCpuBlocks n (free_cpu_blocks m)), m)"
  by (simp add: allocate_cpu_def free_cpu_blocks_def)

interpretation gpu_pool: refcounted_pool bm_wf free_gpu_blocks ref_count
  "\<lambda>m b. side_of m b = Some LGpu" allocate_gpu bm_free
proof (unfold_locales, goal_cases)
  case (1 s n)
  then show ?case using gpu_alloc_ok [of s n] by auto
next
  case (2 s n)
  then show ?case by (simp add: allocate_gpu_err)
next
  case (3 s ids)
  then show ?case using bm_free_last_holder [of s ids LGpu] by (auto simp: free_gpu_blocks_def)
qed

interpretation cpu_pool: refcounted_pool bm_wf free_cpu_blocks ref_count
  "\<lambda>m b. side_of m b = Some LCpu" allocate_cpu bm_free
proof (unfold_locales, goal_cases)
  case (1 s n)
  then show ?case using cpu_alloc_ok [of s n] by auto
next
  case (2 s n)
  then show ?case by (simp add: allocate_cpu_err)
next
  case (3 s ids)
  then show ?case using bm_free_last_holder [of s ids LCpu] by (auto simp: free_cpu_blocks_def)
qed

subsection \<open>The manager as a state machine\<close>

text \<open>
  Clients that follow the ownership discipline: a block is released only as often as it is held,
  pinned only while somebody holds it, and swapped only while held. Every failing allocation is
  a step too.
\<close>

inductive bm_step :: "block_manager \<Rightarrow> block_manager \<Rightarrow> bool" where
  alloc_gpu: "allocate_gpu n m = Some (r, m') \<Longrightarrow> bm_step m m'"
| alloc_cpu: "allocate_cpu n m = Some (r, m') \<Longrightarrow> bm_step m m'"
| release: "\<forall>b. count_list bs b \<le> ref_count m b \<Longrightarrow> bm_free bs m = Some m' \<Longrightarrow> bm_step m m'"
| share: "\<forall>b\<in>set bs. 0 < ref_count m b \<Longrightarrow> pin bs m = Some m' \<Longrightarrow> bm_step m m'"
| swap_out: "distinct (map fst (gpu_to_cpu p)) \<Longrightarrow>
    \<forall>b\<in>set (map fst (gpu_to_cpu p)). side_of m b = Some LGpu \<and> 0 < ref_count m b \<Longrightarrow>
    commit_swap_out p m = Some m' \<Longrightarrow> bm_step m m'"
| swap_in: "distinct (map fst (cpu_to_gpu p)) \<Longrightarrow>
    \<forall>b\<in>set (map fst (cpu_to_gpu p)). side_of m b = Some LCpu \<and> 0 < ref_count m b \<Longrightarrow>
    commit_swap_in p m = Some m' \<Longrightarrow> bm_step m m'"

inductive bm_reachable :: "nat \<Rightarrow> nat \<Rightarrow> nat \<Rightarrow> block_manager \<Rightarrow> bool" for g c bs where
  start: "bm_new g c bs = Some m \<Longrightarrow> bm_reachable g c bs m"
| step: "bm_reachable g c bs m \<Longrightarrow> bm_step m m' \<Longrightarrow> bm_reachable g c bs m'"

lemma bm_step_wf: "bm_step m m' \<Longrightarrow> bm_wf m \<Longrightarrow> bm_wf m' \<and> side_of m' = side_of m"
proof (induction rule: bm_step.induct)
  case (alloc_gpu n m r m')
  then show ?case using gpu_alloc_ok [of m n] allocate_gpu_err [of m n]
    by (cases "n \<le> free_gpu_blocks m") auto
next
  case (alloc_cpu n m r m')
  then show ?case using cpu_alloc_ok [of m n] allocate_cpu_err [of m n]
    by (cases "n \<le> free_cpu_blocks m") auto
next
  case (release bs m m')
  then show ?case using bm_free_held [of m bs] by auto
next
  case (share bs m m')
  then show ?case using pin_held [of m bs] by auto
next
  case (swap_out p m m')
  then show ?case using release_gpu_held [of m "gpu_to_cpu p"] by (auto simp: commit_swap_out_def)
next
  case (swap_in p m m')
  then show ?case using release_cpu_held [of m "cpu_to_gpu p"] by (auto simp: commit_swap_in_def)
qed

lemma bm_reachable_wf: "bm_reachable g c bs m \<Longrightarrow> bm_wf m"
  by (induction rule: bm_reachable.induct) (auto dest: bm_new_wf bm_step_wf)

text \<open>The population of a side, counted over the block table.\<close>

lemma total_as_card:
  assumes "bm_wf m"
  shows "total_gpu_blocks m = card {b. side_of m b = Some LGpu}"
    and "total_cpu_blocks m = card {b. side_of m b = Some LCpu}"
proof -
  have d: "distinct (map fst (bm_blocks m))" using assms by (simp add: bm_wf_alt)
  have "length (filter (\<lambda>e. blk_location (snd e) = l) (bm_blocks m)) = card {b. side_of m b = Some l}" for l
  proof -
    let ?xs = "filter (\<lambda>e. blk_location (snd e) = l) (bm_blocks m)"
    have "set (map fst ?xs) = {b. side_of m b = Some l}"
      using d by (force simp: side_of_def image_iff dest: map_of_SomeD)
    moreover have "distinct (map fst ?xs)" using d by simp
    ultimately show ?thesis using distinct_card by (metis length_map)
  qed
  then show "total_gpu_blocks m = card {b. side_of m b = Some LGpu}"
    "total_cpu_blocks m = card {b. side_of m b = Some LCpu}"
    by (auto simp: total_gpu_blocks_def total_cpu_blocks_def)
qed

lemma free_as_card:
  assumes "bm_wf m"
  shows "free_gpu_blocks m = card {b. side_of m b = Some LGpu \<and> ref_count m b = 0}"
    and "free_cpu_blocks m = card {b. side_of m b = Some LCpu \<and> ref_count m b = 0}"
proof -
  have "set (bm_free_gpu m) = {b. side_of m b = Some LGpu \<and> ref_count m b = 0}"
    "set (bm_free_cpu m) = {b. side_of m b = Some LCpu \<and> ref_count m b = 0}"
    "distinct (bm_free_gpu m)" "distinct (bm_free_cpu m)"
    using assms by (auto simp: bm_wf_alt bm_view_def side_of_def ref_count_def)
  then show "free_gpu_blocks m = card {b. side_of m b = Some LGpu \<and> ref_count m b = 0}"
    "free_cpu_blocks m = card {b. side_of m b = Some LCpu \<and> ref_count m b = 0}"
    by (metis free_gpu_blocks_def distinct_card, metis free_cpu_blocks_def distinct_card)
qed

lemma finite_side: "finite {b. side_of m b = Some l \<and> P b}"
proof (rule finite_subset)
  show "{b. side_of m b = Some l \<and> P b} \<subseteq> fst ` set (bm_blocks m)"
    by (force simp: side_of_def dest: map_of_SomeD)
qed simp

lemma total_split:
  assumes "bm_wf m"
  shows "total_gpu_blocks m = free_gpu_blocks m + card {b. side_of m b = Some LGpu \<and> 0 < ref_count m b}"
proof -
  let ?A = "{b. side_of m b = Some LGpu \<and> ref_count m b = 0}"
  let ?B = "{b. side_of m b = Some LGpu \<and> 0 < ref_count m b}"
  have "{b. side_of m b = Some LGpu} = ?A \<union> ?B" by auto
  moreover have "card (?A \<union> ?B) = card ?A + card ?B"
    by (rule card_Un_disjoint) (auto intro: finite_side)
  ultimately show ?thesis
    by (simp only: total_as_card(1) [OF assms] free_as_card(1) [OF assms])
qed

lemma bm_reachable_total:
  assumes "bm_reachable g c bs m"
  shows "total_gpu_blocks m = g"
  using assms
proof (induction rule: bm_reachable.induct)
  case (start m)
  have "bm_wf m" and f: "bm_free_gpu m = [0..<g]" "\<forall>b. ref_count m b = 0" using bm_new_wf [OF start] by auto
  then show ?case by (simp add: total_split free_gpu_blocks_def)
next
  case (step m m')
  then show ?case using bm_step_wf [OF step.hyps(2)] bm_reachable_wf [OF step.hyps(1)]
    by (simp add: total_as_card)
qed

subsection \<open>Properties\<close>

text \<open>
  (C26) Conservation: however clients that follow the ownership discipline interleave
  allocations (failing ones included), releases, pins and swaps on a manager built with
  \<open>g\<close> GPU and \<open>c\<close> CPU blocks, the GPU free list never holds a block twice, it holds exactly
  the GPU blocks nobody references, and free plus held blocks add up to \<open>g\<close>.
\<close>

theorem bm_conservation:
  assumes "bm_reachable g c bs m"
  shows "distinct (bm_free_gpu m) \<and>
    set (bm_free_gpu m) = {b. side_of m b = Some LGpu \<and> ref_count m b = 0} \<and>
    free_gpu_blocks m + card {b. side_of m b = Some LGpu \<and> 0 < ref_count m b} = g"
proof -
  have wf: "bm_wf m" using assms by (rule bm_reachable_wf)
  then show ?thesis
    using total_split [OF wf] bm_reachable_total [OF assms]
    by (auto simp: bm_wf_alt bm_view_def side_of_def ref_count_def)
qed

definition bm_demo :: block_manager where
  "bm_demo = the (bm_new 2 1 16)"

lemma bm_demo_new: "bm_new 2 1 16 = Some bm_demo"
  by (simp add: bm_demo_def) code_simp

lemma bm_demo_alloc: "\<exists>m'. allocate_gpu 1 bm_demo = Some (Inr [0], m') \<and> ref_count m' 0 = 1 \<and>
    side_of m' 0 = Some LGpu \<and> bm_free_gpu m' = [1]"
proof -
  have "do { (r, m') \<leftarrow> allocate_gpu 1 bm_demo; Some (r, ref_count m' 0, side_of m' 0, bm_free_gpu m') } =
      Some (Inr [0], 1, Some LGpu, [1])"
    by code_simp
  then show ?thesis by (auto split: Option.bind_splits)
qed

theorem bm_conservation_witness:
  "\<exists>m. bm_reachable 2 1 16 m \<and> bm_free_gpu m = [1] \<and>
     free_gpu_blocks m + card {b. side_of m b = Some LGpu \<and> 0 < ref_count m b} = 2"
proof -
  obtain m' where m': "allocate_gpu 1 bm_demo = Some (Inr [0], m')" "bm_free_gpu m' = [1]"
    using bm_demo_alloc by auto
  have "bm_reachable 2 1 16 bm_demo" using bm_demo_new by (rule bm_reachable.start)
  then have r: "bm_reachable 2 1 16 m'" by (rule bm_reachable.step) (rule bm_step.alloc_gpu [OF m'(1)])
  from bm_conservation [OF r] r m'(2) show ?thesis by blast
qed

text \<open>
  Allocation and release round trip: a successful \<open>allocate_gpu\<close> followed by \<open>free\<close> of the
  blocks it returned restores every reference count and the number of free blocks, and an
  allocation that asks for more than is free reports the two numbers and changes nothing.
\<close>

theorem allocate_free_roundtrip:
  assumes "bm_wf m"
  shows "(if free_gpu_blocks m < n
          then allocate_gpu n m = Some (Inl (InsufficientGpuBlocks n (free_gpu_blocks m)), m)
          else \<exists>ids m1 m2. allocate_gpu n m = Some (Inr ids, m1) \<and> length ids = n \<and> distinct ids \<and>
            (\<forall>b. ref_count m1 b = (if b \<in> set ids then 1 else ref_count m b)) \<and>
            bm_free ids m1 = Some m2 \<and> bm_wf m2 \<and>
            free_gpu_blocks m2 = free_gpu_blocks m \<and> ref_count m2 = ref_count m)"
proof (cases "free_gpu_blocks m < n")
  case False
  then obtain ids m1 where a: "allocate_gpu n m = Some (Inr ids, m1)" "length ids = n" "distinct ids"
    "\<forall>b. ref_count m1 b = (if b \<in> set ids then 1 else ref_count m b)"
    using gpu_alloc_ok [OF assms, of n] by auto
  with False gpu_pool.alloc_release [OF assms a(1)] show ?thesis by auto
qed (simp add: allocate_gpu_err)

theorem allocate_free_roundtrip_witness:
  "bm_wf bm_demo \<and> \<not> free_gpu_blocks bm_demo < 2 \<and>
   (\<exists>ids m1 m2. allocate_gpu 2 bm_demo = Some (Inr ids, m1) \<and> length ids = 2 \<and>
      bm_free ids m1 = Some m2 \<and> ref_count m2 = ref_count bm_demo)"
proof -
  have wf: "bm_wf bm_demo" and fr: "free_gpu_blocks bm_demo = 2"
    using bm_new_wf [OF bm_demo_new] by (auto simp: free_gpu_blocks_def)
  have "\<not> free_gpu_blocks bm_demo < 2" using fr by simp
  with allocate_free_roundtrip [OF wf, of 2] wf show ?thesis by auto
qed

text \<open>
  Swap-out: planning and committing a swap of blocks that are held on the GPU returns all
  of them to the GPU free list, keeps the invariant, and pairs each with its own CPU block that
  is now held once; the reverse \<open>plan_swap_in\<close> of those CPU blocks then succeeds.
\<close>

theorem swap_out_commit:
  assumes wf: "bm_wf m" and gpu: "distinct gpu" "\<forall>b\<in>set gpu. side_of m b = Some LGpu \<and> 0 < ref_count m b"
    and room: "length gpu \<le> free_cpu_blocks m"
  shows "\<exists>p m1 m2 q m3. plan_swap_out gpu m = Some (Inr p, m1) \<and> commit_swap_out p m1 = Some m2 \<and> bm_wf m2 \<and>
    map fst (gpu_to_cpu p) = gpu \<and> distinct (map snd (gpu_to_cpu p)) \<and>
    (\<forall>c\<in>set (map snd (gpu_to_cpu p)). side_of m c = Some LCpu \<and> ref_count m c = 0 \<and> ref_count m2 c = 1) \<and>
    bm_free_gpu m2 = bm_free_gpu m @ gpu \<and>
    plan_swap_in (map snd (gpu_to_cpu p)) m2 = Some (Inr q, m3) \<and> bm_wf m3"
proof -
  obtain cpu m1 where a: "allocate_cpu (length gpu) m = Some (Inr cpu, m1)" "bm_wf m1" "length cpu = length gpu"
    "distinct cpu" "\<forall>b\<in>set cpu. side_of m b = Some LCpu \<and> ref_count m b = 0"
    "\<forall>b. ref_count m1 b = (if b \<in> set cpu then 1 else ref_count m b)" "side_of m1 = side_of m"
    using cpu_alloc_ok [OF wf room] by auto
  have fg: "bm_free_gpu m1 = bm_free_gpu m" using a(1) allocate_cpu_eq [OF wf room] by auto
  let ?ps = "zip gpu cpu"
  have ps: "map fst ?ps = gpu" "map snd ?ps = cpu" using a(3) by auto
  have "\<forall>b\<in>set (map fst ?ps). side_of m1 b = Some LGpu \<and> 0 < ref_count m1 b" using gpu(2) a ps by auto
  then obtain m2 where c: "release_gpu ?ps m1 = Some m2" "bm_wf m2" "side_of m2 = side_of m1"
    "\<forall>b. ref_count m2 b = (if b \<in> set gpu then 0 else ref_count m1 b)" "bm_free_gpu m2 = bm_free_gpu m1 @ gpu"
    using release_gpu_held [of m1 ?ps] a(2) gpu(1) ps by auto
  have disj: "\<forall>b\<in>set cpu. b \<notin> set gpu \<and> side_of m b = Some LCpu \<and> ref_count m b = 0" using a(5) gpu(2) by auto
  obtain q m3 where "plan_swap_in cpu m2 = Some (Inr q, m3)" "bm_wf m3"
  proof -
    have "length cpu \<le> free_gpu_blocks m2" using c(5) fg a(3) by (simp add: free_gpu_blocks_def)
    then show thesis using gpu_alloc_ok [OF c(2), of "length cpu"] that by (auto simp: plan_swap_in_def)
  qed
  moreover have "plan_swap_out gpu m = Some (Inr \<lparr>gpu_to_cpu = ?ps, cpu_to_gpu = []\<rparr>, m1)"
    using a(1) by (simp add: plan_swap_out_def)
  moreover have "\<forall>b\<in>set cpu. ref_count m2 b = 1" using c(4) a(6) disj by simp
  ultimately show ?thesis
    using a(4) c ps fg disj
    by (intro exI [of _ "\<lparr>gpu_to_cpu = ?ps, cpu_to_gpu = []\<rparr>"] exI [of _ m1] exI [of _ m2] exI [of _ q] exI [of _ m3])
      (simp add: commit_swap_out_def del: set_map)
qed

theorem swap_out_commit_witness:
  "\<exists>m p m1 m2. bm_wf m \<and> side_of m 0 = Some LGpu \<and> 0 < ref_count m 0 \<and>
     plan_swap_out [0] m = Some (Inr p, m1) \<and> commit_swap_out p m1 = Some m2 \<and> bm_free_gpu m2 = [1, 0]"
proof -
  obtain m' where m': "allocate_gpu 1 bm_demo = Some (Inr [0], m')" "ref_count m' 0 = 1"
    "side_of m' 0 = Some LGpu" "bm_free_gpu m' = [1]"
    using bm_demo_alloc by auto
  have wf0: "bm_wf bm_demo" and c0: "free_cpu_blocks bm_demo = 1"
    using bm_new_wf [OF bm_demo_new] by (auto simp: free_cpu_blocks_def)
  have wf: "bm_wf m'" using allocate_gpu_wf [OF wf0 m'(1)] .
  have "1 \<le> free_gpu_blocks bm_demo" using bm_new_wf [OF bm_demo_new] by (simp add: free_gpu_blocks_def)
  then have "length [0::nat] \<le> free_cpu_blocks m'"
    using allocate_gpu_eq [OF wf0, of 1] m'(1) c0 by (auto simp: free_cpu_blocks_def)
  with swap_out_commit [OF wf, of "[0]"] m' wf show ?thesis by fastforce
qed

text \<open>
  The double release: \<open>free\<close> appends a block whose count is already zero a second time
  (the guard on the decrement does not guard the push), so one block released twice makes two
  later allocations hand out the same block twice.
\<close>

theorem double_free_duplicates:
  "do { (r, m1) \<leftarrow> allocate_gpu 1 bm_demo;
        m2 \<leftarrow> bm_free [0] m1;
        m3 \<leftarrow> bm_free [0] m2;
        (r', m4) \<leftarrow> allocate_gpu 3 m3;
        Some (r, bm_free_gpu m2, bm_free_gpu m3, r') } =
   Some (Inr [0], [1, 0], [1, 0, 0], Inr [1, 0, 0])"
  by code_simp

text \<open>
  A swap-out ignores sharing: when a held GPU block has further holders, committing the
  swap still sets its count to zero and puts it on the free list, and the CPU block is held
  once; it does not inherit the count the comment in the code promises.
\<close>

theorem swap_out_drops_sharers:
  assumes wf: "bm_wf m" and gpu: "side_of m g = Some LGpu" "1 < ref_count m g" and room: "0 < free_cpu_blocks m"
  shows "\<exists>c p m1 m2. plan_swap_out [g] m = Some (Inr p, m1) \<and> gpu_to_cpu p = [(g, c)] \<and>
    commit_swap_out p m1 = Some m2 \<and> ref_count m2 g = 0 \<and> g \<in> set (bm_free_gpu m2) \<and>
    ref_count m2 c = 1 \<and> ref_count m2 c \<noteq> ref_count m g"
proof -
  have "length [g] \<le> free_cpu_blocks m" using room by simp
  then obtain cpu m1 where a: "allocate_cpu 1 m = Some (Inr cpu, m1)" "bm_wf m1" "length cpu = 1"
    "\<forall>b\<in>set cpu. side_of m b = Some LCpu \<and> ref_count m b = 0"
    "\<forall>b. ref_count m1 b = (if b \<in> set cpu then 1 else ref_count m b)" "side_of m1 = side_of m"
    using cpu_alloc_ok [OF wf, of 1] by auto
  then obtain c where c: "cpu = [c]" by (metis One_nat_def length_0_conv length_Suc_conv)
  have "g \<noteq> c" using a(4) c gpu by auto
  then have "\<forall>b\<in>set (map fst [(g, c)]). side_of m1 b = Some LGpu \<and> 0 < ref_count m1 b" using a c gpu by auto
  then obtain m2 where "release_gpu [(g, c)] m1 = Some m2"
    "\<forall>b. ref_count m2 b = (if b = g then 0 else ref_count m1 b)" "bm_free_gpu m2 = bm_free_gpu m1 @ [g]"
    using release_gpu_held [of m1 "[(g, c)]"] a(2) by auto
  with a c gpu \<open>g \<noteq> c\<close> show ?thesis
    by (auto simp: plan_swap_out_def commit_swap_out_def simp del: release_gpu.simps)
qed

theorem swap_out_drops_sharers_witness:
  "\<exists>m c p m1 m2. bm_wf m \<and> ref_count m 0 = 2 \<and> plan_swap_out [0] m = Some (Inr p, m1) \<and>
     gpu_to_cpu p = [(0, c)] \<and> commit_swap_out p m1 = Some m2 \<and> ref_count m2 0 = 0 \<and> 0 \<in> set (bm_free_gpu m2)"
proof -
  have "do { (r, m1) \<leftarrow> allocate_gpu 1 bm_demo; m \<leftarrow> pin [0] m1;
        Some (ref_count m 0, side_of m 0, free_cpu_blocks m, bm_wf m) } = Some (2, Some LGpu, 1, True)"
    by code_simp
  then obtain m where "bm_wf m" "ref_count m 0 = 2" "side_of m 0 = Some LGpu" "free_cpu_blocks m = 1"
    by (auto split: Option.bind_splits)
  with swap_out_drops_sharers [of m 0] show ?thesis by fastforce
qed

text \<open>\<open>blocks_for_tokens\<close> is the least number of blocks that hold the given tokens.\<close>

theorem blocks_for_tokens_least:
  assumes "bm_wf m"
  shows "n \<le> blocks_for_tokens m n * bm_block_size m \<and>
    (\<forall>k. n \<le> k * bm_block_size m \<longrightarrow> blocks_for_tokens m n \<le> k)"
  using assms by (simp add: bm_wf_alt blocks_for_tokens_def div_ceil_le_iff div_ceil_mult_le)

theorem blocks_for_tokens_least_witness:
  "bm_wf bm_demo \<and> 17 \<le> blocks_for_tokens bm_demo 17 * bm_block_size bm_demo"
  using blocks_for_tokens_least [of bm_demo 17] bm_new_wf [OF bm_demo_new] by blast

end
