(* ===== verification/Serve_Plan.thy ===== *)
theory Serve_Plan
  imports Kv_Types
begin

text \<open>
  The logical serving plan of \<open>infer/src/scheduler/plan.rs\<close>: what one scheduler tick hands to a
  backend. The types are the ones the batch scheduler fills in.
\<close>

subsection \<open>Rows\<close>

record decode_row =
  dr_row_index :: nat
  dr_req_id :: request_id
  dr_input_token :: token
  dr_logical_kv_offset :: nat

definition decode_row_new :: "nat \<Rightarrow> request_id \<Rightarrow> token \<Rightarrow> nat \<Rightarrow> decode_row" where
  "decode_row_new i r t k = \<lparr>dr_row_index = i, dr_req_id = r, dr_input_token = t, dr_logical_kv_offset = k\<rparr>"

record prefill_row =
  pr_row_index :: nat
  pr_req_id :: request_id
  pr_input_tokens :: "token list"
  pr_prompt_start :: nat
  pr_prompt_end :: nat
  pr_prompt_len :: nat
  pr_logical_kv_start :: nat
  pr_logical_kv_end :: nat

definition with_logical_kv_span ::
    "nat \<Rightarrow> request_id \<Rightarrow> token list \<Rightarrow> nat \<Rightarrow> nat \<Rightarrow> nat \<Rightarrow> nat \<Rightarrow> nat \<Rightarrow> prefill_row" where
  "with_logical_kv_span i r toks ps pe pl ks ke =
     \<lparr>pr_row_index = i, pr_req_id = r, pr_input_tokens = toks, pr_prompt_start = ps, pr_prompt_end = pe,
      pr_prompt_len = pl, pr_logical_kv_start = ks, pr_logical_kv_end = ke\<rparr>"

definition prefill_row_new :: "nat \<Rightarrow> request_id \<Rightarrow> token list \<Rightarrow> nat \<Rightarrow> nat \<Rightarrow> nat \<Rightarrow> prefill_row" where
  "prefill_row_new i r toks ps pe pl = with_logical_kv_span i r toks ps pe pl ps pe"

definition token_count :: "prefill_row \<Rightarrow> nat" where
  "token_count p = length (pr_input_tokens p)"

datatype draft_mode = DraftNone | SelfSpec | External "nat list"

record spec_decode_row =
  sp_decode_row_index :: nat
  sp_draft_tokens :: "token list"
  sp_draft_mode :: draft_mode

record sparse_draft_view =
  sv_decode_row_index :: nat
  sv_allowed_block_ids :: "block_id list"
  sv_recent_window_tokens :: nat

definition spec_decode_row_new :: "nat \<Rightarrow> token list \<Rightarrow> draft_mode \<Rightarrow> spec_decode_row" where
  "spec_decode_row_new i toks md = \<lparr>sp_decode_row_index = i, sp_draft_tokens = toks, sp_draft_mode = md\<rparr>"

definition sparse_draft_view_new :: "nat \<Rightarrow> block_id list \<Rightarrow> nat \<Rightarrow> sparse_draft_view" where
  "sparse_draft_view_new i bs recent = \<lparr>sv_decode_row_index = i, sv_allowed_block_ids = bs, sv_recent_window_tokens = recent\<rparr>"

subsection \<open>Shape and plan\<close>

record batch_shape =
  sh_decode_rows :: nat
  sh_prefill_rows :: nat
  sh_total_rows :: nat
  sh_decode_tokens :: nat
  sh_prefill_tokens :: nat
  sh_scheduled_tokens :: nat

definition shape_default :: batch_shape where
  "shape_default = \<lparr>sh_decode_rows = 0, sh_prefill_rows = 0, sh_total_rows = 0, sh_decode_tokens = 0,
     sh_prefill_tokens = 0, sh_scheduled_tokens = 0\<rparr>"

definition from_rows :: "decode_row list \<Rightarrow> prefill_row list \<Rightarrow> batch_shape" where
  "from_rows ds ps =
     (let decode_tokens = length ds; prefill_tokens = sum_list (map token_count ps)
      in \<lparr>sh_decode_rows = length ds, sh_prefill_rows = length ps, sh_total_rows = length ds + length ps,
          sh_decode_tokens = decode_tokens, sh_prefill_tokens = prefill_tokens,
          sh_scheduled_tokens = decode_tokens + prefill_tokens\<rparr>)"

record serve_plan =
  sv_decode_rows :: "decode_row list"
  sv_prefill_rows :: "prefill_row list"
  sv_batch_shape :: batch_shape
  sv_spec_rows :: "spec_decode_row list"
  sv_sparse_views :: "sparse_draft_view list"

definition plan_new :: "decode_row list \<Rightarrow> prefill_row list \<Rightarrow> serve_plan" where
  "plan_new ds ps = \<lparr>sv_decode_rows = ds, sv_prefill_rows = ps, sv_batch_shape = from_rows ds ps,
     sv_spec_rows = [], sv_sparse_views = []\<rparr>"

definition with_spec_rows :: "serve_plan \<Rightarrow> spec_decode_row list \<Rightarrow> serve_plan" where
  "with_spec_rows p rows = p\<lparr>sv_spec_rows := rows\<rparr>"

definition with_sparse_views :: "serve_plan \<Rightarrow> sparse_draft_view list \<Rightarrow> serve_plan" where
  "with_sparse_views p views = p\<lparr>sv_sparse_views := views\<rparr>"

definition plan_idle :: serve_plan where
  "plan_idle = \<lparr>sv_decode_rows = [], sv_prefill_rows = [], sv_batch_shape = shape_default,
     sv_spec_rows = [], sv_sparse_views = []\<rparr>"

definition is_idle :: "serve_plan \<Rightarrow> bool" where
  "is_idle p \<longleftrightarrow> sv_decode_rows p = [] \<and> sv_prefill_rows p = [] \<and> sv_spec_rows p = [] \<and> sv_sparse_views p = []"

lemma token_count_new [simp]: "token_count (prefill_row_new i r toks ps pe pl) = length toks"
  by (simp add: token_count_def prefill_row_new_def with_logical_kv_span_def)

lemma plan_new_simps [simp]:
  "sv_decode_rows (plan_new ds ps) = ds" "sv_prefill_rows (plan_new ds ps) = ps"
  "sh_scheduled_tokens (sv_batch_shape (plan_new ds ps)) = length ds + sum_list (map token_count ps)"
  "sv_spec_rows (plan_new ds ps) = []" "sv_sparse_views (plan_new ds ps) = []"
  by (simp_all add: plan_new_def from_rows_def Let_def)

lemma plan_idle_simps [simp]:
  "sv_decode_rows plan_idle = []" "sv_prefill_rows plan_idle = []" "is_idle plan_idle"
  "sh_scheduled_tokens (sv_batch_shape plan_idle) = 0"
  by (simp_all add: plan_idle_def is_idle_def shape_default_def)

end
