(* ===== verification/Batch_Scheduler.thy ===== *)
theory Batch_Scheduler
  imports Block_Manager Sched_Policy Serve_Plan
begin

text \<open>
  The continuous batching scheduler of \<open>infer/src/scheduler/batch.rs\<close>, over the block pool of
  \<open>Block_Manager\<close> and the chunking policy of \<open>Sched_Policy\<close>. \<open>None\<close> is a panic. The event sink is
  the log of the events it received. The two counters that only grow (\<open>next_req_id\<close> and the tokens
  of a request) are unbounded here: they are 64-bit in the code.
\<close>

subsection \<open>State\<close>

datatype request_priority = Low | Normal | High

record pending_request =
  pq_req_id :: request_id
  pq_prompt_tokens :: "token list"
  pq_max_tokens :: nat
  pq_priority :: request_priority
  pq_prefill_progress :: nat
  pq_allocated_blocks :: "block_id list"

record running_request =
  rr_req_id :: request_id
  rr_prompt_tokens :: "token list"
  rr_generated_tokens :: nat
  rr_max_tokens :: nat
  rr_blocks :: "block_id list"
  rr_kv_tokens :: nat

record batch_config =
  max_tokens_per_step :: nat
  prefill_chunk_size :: nat
  chunking_policy :: decode_aware_chunking

definition batch_config_default :: batch_config where
  "batch_config_default = \<lparr>max_tokens_per_step = 2048, prefill_chunk_size = 512,
     chunking_policy = \<lparr>decode_active_chunk = 64, idle_chunk = 512\<rparr>\<rparr>"

record engine_event =
  ev_request_id :: request_id
  ev_kind :: request_event_kind
  ev_mode :: "inference_mode option"

record batch_scheduler =
  bs_config :: batch_config
  bs_waiting :: "pending_request list"
  bs_running :: "(request_id, running_request) hmap"
  bs_pool :: block_manager
  bs_next_req_id :: nat
  bs_events :: "engine_event list"

subsection \<open>Operations\<close>

definition batch_new :: "batch_config \<Rightarrow> block_manager \<Rightarrow> batch_scheduler" where
  "batch_new cfg m = \<lparr>bs_config = cfg, bs_waiting = [], bs_running = [], bs_pool = m,
     bs_next_req_id = 0, bs_events = []\<rparr>"

definition emit_event ::
    "request_id \<Rightarrow> request_event_kind \<Rightarrow> inference_mode option \<Rightarrow> batch_scheduler \<Rightarrow> batch_scheduler" where
  "emit_event r k md s = s\<lparr>bs_events := bs_events s @ [\<lparr>ev_request_id = r, ev_kind = k, ev_mode = md\<rparr>]\<rparr>"

definition add_request ::
    "token list \<Rightarrow> nat \<Rightarrow> request_priority \<Rightarrow> batch_scheduler \<Rightarrow> request_id \<times> batch_scheduler" where
  "add_request prompt mx prio s =
     (let r = bs_next_req_id s;
          s1 = s\<lparr>bs_next_req_id := bs_next_req_id s + 1,
                 bs_waiting := bs_waiting s @
                   [\<lparr>pq_req_id = r, pq_prompt_tokens = prompt, pq_max_tokens = mx, pq_priority = prio,
                     pq_prefill_progress = 0, pq_allocated_blocks = []\<rparr>]\<rparr>
      in (r, emit_event r Enqueued None s1))"

definition advance_decode :: "request_id \<Rightarrow> batch_scheduler \<Rightarrow> (bool \<times> batch_scheduler) option" where
  "advance_decode r s =
     (case map_of (bs_running s) r of
        None \<Rightarrow> Some (False, s)
      | Some q0 \<Rightarrow>
        let q = q0\<lparr>rr_generated_tokens := rr_generated_tokens q0 + 1, rr_kv_tokens := rr_kv_tokens q0 + 1\<rparr>;
            s1 = s\<lparr>bs_running := hm_modify r (\<lambda>_. q) (bs_running s)\<rparr>;
            blocks_needed = blocks_for_tokens (bs_pool s) (rr_kv_tokens q)
        in if length (rr_blocks q) < blocks_needed
           then do { (res, m) \<leftarrow> allocate_gpu (blocks_needed - length (rr_blocks q)) (bs_pool s);
                     Some (case res of
                         Inl _ \<Rightarrow> (False, s1\<lparr>bs_pool := m\<rparr>)
                       | Inr new_blocks \<Rightarrow>
                         (True, emit_event r DecodeStep (Some Decode)
                            (s1\<lparr>bs_pool := m,
                                bs_running := hm_modify r (\<lambda>q. q\<lparr>rr_blocks := rr_blocks q @ new_blocks\<rparr>) (bs_running s1)\<rparr>))) }
           else Some (True, emit_event r DecodeStep (Some Decode) s1))"

definition finish_request :: "request_id \<Rightarrow> batch_scheduler \<Rightarrow> batch_scheduler option" where
  "finish_request r s =
     do { s1 \<leftarrow> (case map_of (bs_running s) r of
                  None \<Rightarrow> Some s
                | Some q \<Rightarrow> do { m \<leftarrow> bm_free (rr_blocks q) (bs_pool s);
                                 Some (emit_event r Completed (Some Decode)
                                   (s\<lparr>bs_running := AList.delete r (bs_running s), bs_pool := m\<rparr>)) });
          Some (s1\<lparr>bs_waiting := filter (\<lambda>p. pq_req_id p \<noteq> r) (bs_waiting s1)\<rparr>) }"

definition waiting_len :: "batch_scheduler \<Rightarrow> nat" where
  "waiting_len s = length (bs_waiting s)"

definition running_len :: "batch_scheduler \<Rightarrow> nat" where
  "running_len s = length (bs_running s)"

definition is_running :: "batch_scheduler \<Rightarrow> request_id \<Rightarrow> bool" where
  "is_running s r \<longleftrightarrow> map_of (bs_running s) r \<noteq> None"

definition is_waiting :: "batch_scheduler \<Rightarrow> request_id \<Rightarrow> bool" where
  "is_waiting s r \<longleftrightarrow> list_ex (\<lambda>p. pq_req_id p = r) (bs_waiting s)"

definition blocks_to_advance :: "block_manager \<Rightarrow> running_request \<Rightarrow> nat" where
  "blocks_to_advance m q = blocks_for_tokens m (rr_kv_tokens q + 1) - length (rr_blocks q)"

definition new_blocks_needed :: "batch_scheduler \<Rightarrow> nat" where
  "new_blocks_needed s = sum_list (map (\<lambda>e. blocks_to_advance (bs_pool s) (snd e)) (bs_running s))"

definition max_key :: "(request_id, 'v) hmap \<Rightarrow> request_id option" where
  "max_key m = (if m = [] then None else Some (fold max (map fst m) 0))"

definition requeued :: "request_id \<Rightarrow> running_request \<Rightarrow> pending_request" where
  "requeued r q = \<lparr>pq_req_id = r, pq_prompt_tokens = rr_prompt_tokens q, pq_max_tokens = rr_max_tokens q,
     pq_priority = Normal, pq_prefill_progress = 0, pq_allocated_blocks = []\<rparr>"

text \<open>One round of the preemption loop, after the pool has taken the blocks back.\<close>

definition preempt :: "request_id \<Rightarrow> running_request \<Rightarrow> block_manager \<Rightarrow> batch_scheduler \<Rightarrow> batch_scheduler" where
  "preempt r q m s =
     (let s1 = emit_event r Evicted (Some Decode) (s\<lparr>bs_running := AList.delete r (bs_running s), bs_pool := m\<rparr>)
      in emit_event r Requeued None (s1\<lparr>bs_waiting := requeued r q # bs_waiting s1\<rparr>))"

lemma fold_max_ge: "(a :: nat) \<le> fold max xs a \<and> (\<forall>x\<in>set xs. x \<le> fold max xs a)"
proof (induction xs arbitrary: a)
  case (Cons x xs)
  from Cons.IH [of "max x a"] show ?case by auto
qed simp

lemma fold_max_mem: "fold max xs a = (a :: nat) \<or> fold max xs a \<in> set xs"
proof (induction xs arbitrary: a)
  case (Cons x xs)
  from Cons.IH [of "max x a"] show ?case by (auto simp: max_def split: if_splits)
qed simp

lemma max_key_Some:
  assumes "max_key m = Some r"
  shows "r \<in> set (map fst m)" and "\<forall>k\<in>set (map fst m). k \<le> r"
proof -
  have m: "m \<noteq> []" and r: "r = fold max (map fst m) 0" using assms by (auto simp: max_key_def split: if_splits)
  show le: "\<forall>k\<in>set (map fst m). k \<le> r" unfolding r using fold_max_ge [of 0 "map fst m"] by blast
  obtain e where e: "e \<in> set m" using m by (cases m) auto
  then have "fst e \<le> r" using le by simp
  then show "r \<in> set (map fst m)" using fold_max_mem [of "map fst m" 0] e unfolding r by force
qed

lemma length_delete_less: "k \<in> set (map fst m) \<Longrightarrow> length (AList.delete k m) < length m"
  unfolding AList.delete_eq by (auto intro: length_filter_less)

function ensure_loop :: "bool \<Rightarrow> batch_scheduler \<Rightarrow> (bool \<times> batch_scheduler) option" where
  "ensure_loop preempted s =
     (if new_blocks_needed s \<le> free_gpu_blocks (bs_pool s) then Some (preempted, s)
      else case max_key (bs_running s) of
          None \<Rightarrow> Some (preempted, s)
        | Some r \<Rightarrow>
          (case map_of (bs_running s) r of
             None \<Rightarrow> None
           | Some q \<Rightarrow>
             (case bm_free (rr_blocks q) (bs_pool s) of
                None \<Rightarrow> None
              | Some m \<Rightarrow> ensure_loop True (preempt r q m s))))"
  by pat_completeness auto

termination
  by (relation "measure (\<lambda>(p, s). length (bs_running s))")
    (auto simp: preempt_def emit_event_def Let_def intro!: length_delete_less dest: max_key_Some(1))

declare ensure_loop.simps [simp del]

definition ensure_decode_memory :: "batch_scheduler \<Rightarrow> (bool \<times> batch_scheduler) option" where
  "ensure_decode_memory s = ensure_loop False s"

fun decode_rows_from :: "(request_id, running_request) hmap \<Rightarrow> nat \<Rightarrow> request_id list \<Rightarrow> decode_row list option" where
  "decode_rows_from m i [] = Some []"
| "decode_rows_from m i (r # rs) =
     do { q \<leftarrow> map_of m r;
          rows \<leftarrow> decode_rows_from m (i + 1) rs;
          Some (decode_row_new i (rr_req_id q) 0 (length (rr_prompt_tokens q) + (rr_generated_tokens q - 1)) # rows) }"

definition build_decode_rows :: "batch_scheduler \<Rightarrow> decode_row list option" where
  "build_decode_rows s = decode_rows_from (bs_running s) 0 (sort (map fst (bs_running s)))"

definition prefill_chunk_budget :: "batch_scheduler \<Rightarrow> nat" where
  "prefill_chunk_budget s =
     min (max (next_chunk_size (chunking_policy (bs_config s)) Prefill
                (queue_state (length (bs_waiting s)) (length (bs_running s)))) 1)
         (prefill_chunk_size (bs_config s))"

text \<open>The chunk that is admitted once its blocks are there: \<open>got\<close> are the new blocks.\<close>

definition admit_chunk ::
    "nat \<Rightarrow> pending_request \<Rightarrow> pending_request list \<Rightarrow> nat \<Rightarrow> block_id list \<Rightarrow> batch_scheduler
     \<Rightarrow> (prefill_row \<times> batch_scheduler) option" where
  "admit_chunk row_index p rest chunk_tokens got s =
     (let total_tokens = length (pq_prompt_tokens p);
          prompt_start = pq_prefill_progress p;
          prompt_end = prompt_start + chunk_tokens;
          p1 = p\<lparr>pq_allocated_blocks := pq_allocated_blocks p @ got\<rparr>;
          r = pq_req_id p
      in do { chunk \<leftarrow> slice prompt_start prompt_end (pq_prompt_tokens p);
              let is_last_chunk = total_tokens \<le> prompt_end;
                  s1 = (if is_last_chunk then s\<lparr>bs_waiting := p1 # rest\<rparr>
                        else s\<lparr>bs_waiting := p1\<lparr>pq_prefill_progress := prompt_end\<rparr> # rest\<rparr>);
                  s2 = (if prompt_start = 0 then emit_event r PrefillStarted (Some Prefill) s1 else s1);
                  s3 = (if is_last_chunk
                        then s2\<lparr>bs_waiting := rest,
                                bs_running := AList.update r
                                  \<lparr>rr_req_id = r, rr_prompt_tokens = pq_prompt_tokens p1, rr_generated_tokens = 0,
                                   rr_max_tokens = pq_max_tokens p1, rr_blocks = pq_allocated_blocks p1,
                                   rr_kv_tokens = total_tokens\<rparr> (bs_running s2)\<rparr>
                        else s2)
              in Some (prefill_row_new row_index r chunk prompt_start prompt_end total_tokens, s3) })"

definition try_admit_prefill_chunk ::
    "nat \<Rightarrow> nat \<Rightarrow> batch_scheduler \<Rightarrow> (prefill_row option \<times> batch_scheduler) option" where
  "try_admit_prefill_chunk token_budget row_index s =
     (case bs_waiting s of
        [] \<Rightarrow> Some (None, s)
      | p # rest \<Rightarrow>
        if length (pq_prompt_tokens p) \<le> pq_prefill_progress p then Some (None, s\<lparr>bs_waiting := rest\<rparr>)
        else
          let remaining = length (pq_prompt_tokens p) - pq_prefill_progress p;
              chunk_tokens = min (min remaining (prefill_chunk_budget s)) token_budget
          in if chunk_tokens = 0 then Some (None, s)
             else
               let extra_needed = blocks_for_tokens (bs_pool s) (pq_prefill_progress p + chunk_tokens) -
                                  length (pq_allocated_blocks p)
               in if 0 < extra_needed
                  then do { (res, m) \<leftarrow> allocate_gpu extra_needed (bs_pool s);
                            (case res of
                               Inl _ \<Rightarrow> Some (None, s\<lparr>bs_pool := m\<rparr>)
                             | Inr got \<Rightarrow>
                               do { (row, s1) \<leftarrow> admit_chunk row_index p rest chunk_tokens got (s\<lparr>bs_pool := m\<rparr>);
                                    Some (Some row, s1) }) }
                  else do { (row, s1) \<leftarrow> admit_chunk row_index p rest chunk_tokens [] s;
                            Some (Some row, s1) })"

definition schedule_step :: "batch_scheduler \<Rightarrow> (serve_plan \<times> batch_scheduler) option" where
  "schedule_step s =
     do { (preempted, s1) \<leftarrow> ensure_decode_memory s;
          let has_decode = bs_running s1 \<noteq> []; has_waiting = bs_waiting s1 \<noteq> []
          in if \<not> has_decode \<and> \<not> has_waiting then Some (plan_idle, s1)
             else do { decode_rows \<leftarrow> (if has_decode then build_decode_rows s1 else Some []);
                       let decode_tokens = length (bs_running s1);
                           budget = max_tokens_per_step (bs_config s1) - decode_tokens
                       in if \<not> preempted \<and> has_waiting \<and> 0 < budget
                          then do { (row, s2) \<leftarrow> try_admit_prefill_chunk budget (length decode_rows) s1;
                                    Some (plan_new decode_rows (case row of None \<Rightarrow> [] | Some r \<Rightarrow> [r]), s2) }
                          else Some (plan_new decode_rows [], s1) } }"

end
