(* ===== verification/Batch_Safety.thy ===== *)
theory Batch_Safety
  imports Batch_Scheduler "HOL-Library.Multiset"
begin

text \<open>
  Block ownership in the batch scheduler: which requests hold which blocks, and that every
  operation keeps each block with at most one request. The client side of the pool contract
  \<open>refcounted_pool\<close> is proved once in the locale and used on the pool of the code.
\<close>

subsection \<open>Sums over a hash map\<close>

lemma sum_delete:
  fixes f :: "'v \<Rightarrow> 'a :: comm_monoid_add"
  assumes "distinct (map fst m)" and "map_of m r = Some q"
  shows "sum_list (map (\<lambda>e. f (snd e)) m) = f q + sum_list (map (\<lambda>e. f (snd e)) (AList.delete r m))"
  using assms
proof (induction m)
  case (Cons e m)
  show ?case
  proof (cases "fst e = r")
    case True
    then have "r \<notin> fst ` set m" using Cons.prems(1) by auto
    then have "AList.delete r m = m" by (force simp: AList.delete_eq filter_id_conv)
    then show ?thesis using True Cons.prems(2) by (cases e) auto
  next
    case False
    then show ?thesis using Cons by (cases e) (simp add: add.left_commute)
  qed
qed simp

lemma delete_hm_modify [simp]: "AList.delete r (hm_modify r f m) = AList.delete r m"
  by (induction m) (auto simp: hm_modify_def)

lemma sum_modify:
  fixes f :: "'v \<Rightarrow> 'a :: comm_monoid_add"
  assumes "distinct (map fst m)" and "map_of m r = Some q"
  shows "sum_list (map (\<lambda>e. f (snd e)) (hm_modify r g m)) = f (g q) + sum_list (map (\<lambda>e. f (snd e)) (AList.delete r m))"
  using sum_delete [of "hm_modify r g m" r "g q" f] assms by simp

lemma update_fresh: "r \<notin> set (map fst m) \<Longrightarrow> AList.update r q m = m @ [(r, q)]"
  by (induction m) auto

lemma set_fst_delete [simp]: "set (map fst (AList.delete r m)) = set (map fst m) - {r}"
  by (auto simp: AList.delete_eq image_iff)

lemma distinct_delete' [simp]: "distinct (map fst m) \<Longrightarrow> distinct (map fst (AList.delete r m))"
  by (rule distinct_delete)

subsection \<open>Ownership\<close>

text \<open>
  \<open>H\<close> collects the blocks that requests hold. \<open>owns\<close>: each of them is held once, by the only
  reference. \<open>exact\<close>: moreover every reference belongs to a holder, so no block is lost.
\<close>

definition owns :: "('b \<Rightarrow> bool) \<Rightarrow> ('b \<Rightarrow> nat) \<Rightarrow> 'b multiset \<Rightarrow> bool" where
  "owns g rc H \<longleftrightarrow> (\<forall>b. count H b \<le> (if g b \<and> rc b = 1 then 1 else 0))"

definition exact :: "('b \<Rightarrow> bool) \<Rightarrow> ('b \<Rightarrow> nat) \<Rightarrow> 'b multiset \<Rightarrow> bool" where
  "exact g rc H \<longleftrightarrow> (\<forall>b. g b \<longrightarrow> rc b = count H b)"

lemma le_indicator: "(c :: nat) \<le> (if P then 1 else 0) \<Longrightarrow> 0 < c \<Longrightarrow> P \<and> c = 1"
  by (cases P) auto

lemma owns_mem: "owns g rc H \<Longrightarrow> b \<in># H \<Longrightarrow> g b \<and> rc b = 1 \<and> count H b = 1"
proof -
  assume "owns g rc H" and "b \<in># H"
  then have "count H b \<le> (if g b \<and> rc b = 1 then 1 else 0)" "0 < count H b" unfolding owns_def by simp_all
  from le_indicator [OF this] show ?thesis by blast
qed

lemma owns_subset: "owns g rc H \<Longrightarrow> H' \<subseteq># H \<Longrightarrow> owns g rc H'"
  unfolding owns_def by (meson le_trans mset_subset_eq_count)

lemma owns_distinct: "owns g rc (mset bs) \<Longrightarrow> distinct bs"
  by (metis count_mset_0_iff distinct_count_atmost_1 owns_mem set_mset_mset)

context refcounted_pool
begin

lemma owns_alloc:
  assumes "inv s" and "owns (mine s) (refs s) H" and "alloc n s = Some (Inr ids, s')"
  shows "inv s'" and "owns (mine s') (refs s') (mset ids + H)" and "exact (mine s) (refs s) H \<Longrightarrow> exact (mine s') (refs s') (mset ids + H)"
proof -
  from assms(1,3) have a: "inv s'" "distinct ids" "\<forall>b\<in>set ids. mine s b \<and> refs s b = 0"
    "\<forall>b. refs s' b = (if b \<in> set ids then 1 else refs s b)" "mine s' = mine s" by (auto elim: alloc_cases)
  show "inv s'" by (rule a(1))
  have c: "count (mset ids) b = (if b \<in> set ids then 1 else 0)" for b
    by (rule spec [OF a(2) [unfolded distinct_count_atmost_1]])
  have z: "count H b = 0" if "b \<in> set ids" for b
    using a(3) that owns_mem [OF assms(2), of b] by (cases "b \<in># H") (auto simp: not_in_iff)
  have H: "count H b \<le> (if mine s b \<and> refs s b = 1 then 1 else 0)" for b using assms(2) unfolding owns_def by blast
  show "owns (mine s') (refs s') (mset ids + H)"
    unfolding owns_def a(5)
  proof
    fix b
    show "count (mset ids + H) b \<le> (if mine s b \<and> refs s' b = 1 then 1 else 0)"
      using H [of b] z [of b] a(3) a(4) [rule_format, of b] by (cases "b \<in> set ids") (simp_all add: c)
  qed
  show "exact (mine s') (refs s') (mset ids + H)" if "exact (mine s) (refs s) H"
    unfolding exact_def a(5)
  proof (intro allI impI)
    fix b assume "mine s b"
    then show "refs s' b = count (mset ids + H) b"
      using that [unfolded exact_def, rule_format, of b] z [of b] a(4) [rule_format, of b]
      by (cases "b \<in> set ids") (simp_all add: c)
  qed
qed

lemma owns_release:
  assumes "inv s" and "owns (mine s) (refs s) (mset bs + H)"
  shows "\<exists>s'. release bs s = Some s' \<and> inv s' \<and> avail s' = avail s + length bs \<and> mine s' = mine s \<and> owns (mine s') (refs s') H \<and>
    (exact (mine s) (refs s) (mset bs + H) \<longrightarrow> exact (mine s') (refs s') H)"
proof -
  have d: "distinct bs" by (rule owns_distinct) (rule owns_subset [OF assms(2)], simp)
  have m: "\<forall>b\<in>set bs. mine s b \<and> refs s b = 1 \<and> count H b = 0"
  proof
    fix b assume "b \<in> set bs"
    then have "b \<in># mset bs + H" "0 < count (mset bs) b" by (auto simp: count_mset_gt_0)
    moreover have "count (mset bs + H) b = count (mset bs) b + count H b" by simp
    moreover note owns_mem [OF assms(2) calculation(1)]
    ultimately show "mine s b \<and> refs s b = 1 \<and> count H b = 0" by linarith
  qed
  obtain s' where s': "release bs s = Some s'" "inv s'" "avail s' = avail s + length bs"
    "\<forall>b. refs s' b = (if b \<in> set bs then 0 else refs s b)" "mine s' = mine s"
    using release_ok [OF assms(1) d] m by blast
  have H: "count (mset bs + H) b \<le> (if mine s b \<and> refs s b = 1 then 1 else 0)" for b using assms(2) unfolding owns_def by blast
  have "owns (mine s') (refs s') H"
    unfolding owns_def s'(5)
  proof
    fix b
    show "count H b \<le> (if mine s b \<and> refs s' b = 1 then 1 else 0)"
      using H [of b] m s'(4) [rule_format, of b] by (cases "b \<in> set bs") (simp_all add: count_mset_0_iff)
  qed
  moreover have "exact (mine s') (refs s') H" if "exact (mine s) (refs s) (mset bs + H)"
    unfolding exact_def s'(5)
  proof (intro allI impI)
    fix b assume "mine s b"
    then show "refs s' b = count H b"
      using that [unfolded exact_def, rule_format, of b] m s'(4) [rule_format, of b]
      by (cases "b \<in> set bs") (simp_all add: count_mset_0_iff)
  qed
  ultimately show ?thesis using s' by blast
qed

end

text \<open>The GPU side of the pool at a fixed block size.\<close>

lemma allocate_gpu_block_size: "allocate_gpu n m = Some (r, m') \<Longrightarrow> bm_block_size m' = bm_block_size m"
  by (auto simp: allocate_gpu_def split: if_splits Option.bind_splits)

lemma free_one_block_size: "free_one b m = Some m' \<Longrightarrow> bm_block_size m' = bm_block_size m"
  by (auto simp: free_one_def Let_def split: option.splits if_splits bm_location.splits)

lemma bm_free_block_size: "bm_free bs m = Some m' \<Longrightarrow> bm_block_size m' = bm_block_size m"
  by (induction bs arbitrary: m) (auto split: Option.bind_splits dest!: free_one_block_size)

interpretation sized_pool: refcounted_pool "\<lambda>m. bm_wf m \<and> bm_block_size m = k" free_gpu_blocks ref_count
    "\<lambda>m b. side_of m b = Some LGpu" allocate_gpu bm_free for k
proof
  fix m n assume i: "bm_wf m \<and> bm_block_size m = k"
  show "\<exists>ids m'. allocate_gpu n m = Some (Inr ids, m') \<and> (bm_wf m' \<and> bm_block_size m' = k) \<and> length ids = n \<and> distinct ids \<and>
        (\<forall>b\<in>set ids. side_of m b = Some LGpu \<and> ref_count m b = 0) \<and> free_gpu_blocks m' = free_gpu_blocks m - n \<and>
        (\<forall>b. ref_count m' b = (if b \<in> set ids then 1 else ref_count m b)) \<and> (\<lambda>b. side_of m' b = Some LGpu) = (\<lambda>b. side_of m b = Some LGpu)"
    if "n \<le> free_gpu_blocks m"
    using gpu_pool.alloc_ok [OF conjunct1 [OF i] that] i by (metis allocate_gpu_block_size)
  show "\<exists>e. allocate_gpu n m = Some (Inl e, m)" if "free_gpu_blocks m < n"
    using gpu_pool.alloc_err [OF conjunct1 [OF i] that] .
  fix ids
  show "\<exists>m'. bm_free ids m = Some m' \<and> (bm_wf m' \<and> bm_block_size m' = k) \<and> free_gpu_blocks m' = free_gpu_blocks m + length ids \<and>
        (\<forall>b. ref_count m' b = (if b \<in> set ids then 0 else ref_count m b)) \<and> (\<lambda>b. side_of m' b = Some LGpu) = (\<lambda>b. side_of m b = Some LGpu)"
    if "distinct ids" "\<forall>b\<in>set ids. side_of m b = Some LGpu \<and> ref_count m b = 1"
    using gpu_pool.release_ok [OF conjunct1 [OF i] that] i by (metis bm_free_block_size)
qed


text \<open>The books of the pool: \<open>G\<close> are its GPU blocks, \<open>H\<close> is held, and with \<open>ex\<close> nothing else is referenced.\<close>

definition book :: "bool \<Rightarrow> block_id set \<Rightarrow> block_manager \<Rightarrow> block_id multiset \<Rightarrow> bool" where
  "book ex G m H \<longleftrightarrow> bm_wf m \<and> {b. side_of m b = Some LGpu} = G \<and> owns (\<lambda>b. side_of m b = Some LGpu) (ref_count m) H \<and>
     (ex \<longrightarrow> exact (\<lambda>b. side_of m b = Some LGpu) (ref_count m) H)"

lemma book_wf: "book ex G m H \<Longrightarrow> bm_wf m"
  by (simp add: book_def)

lemma book_alloc:
  assumes "book ex G m H" and "allocate_gpu n m = Some (Inr ids, m')"
  shows "book ex G m' (mset ids + H)" and "length ids = n" and "bm_block_size m' = bm_block_size m"
    and "free_gpu_blocks m' = free_gpu_blocks m - n" and "n \<le> free_gpu_blocks m"
proof -
  note b = assms(1) [unfolded book_def]
  have i: "bm_wf m \<and> bm_block_size m = bm_block_size m" using b by simp
  have o: "owns (\<lambda>b. side_of m b = Some LGpu) (ref_count m) H" using b by blast
  note a = sized_pool.owns_alloc [OF i o assms(2)]
  have "(\<lambda>b. side_of m' b = Some LGpu) = (\<lambda>b. side_of m b = Some LGpu)"
    using conjunct1 [OF i] assms(2) by (auto elim: gpu_pool.alloc_cases)
  then have "{b. side_of m' b = Some LGpu} = {b. side_of m b = Some LGpu}" by (rule arg_cong)
  then show "book ex G m' (mset ids + H)" using a b unfolding book_def by blast
  show "bm_block_size m' = bm_block_size m" using a by blast
  show "length ids = n" "free_gpu_blocks m' = free_gpu_blocks m - n" "n \<le> free_gpu_blocks m"
    using conjunct1 [OF i] assms(2) by (auto elim: gpu_pool.alloc_cases)
qed

lemma book_alloc_total:
  assumes "book ex G m H"
  obtains ids m' where "allocate_gpu n m = Some (Inr ids, m')" "n \<le> free_gpu_blocks m"
    | e where "allocate_gpu n m = Some (Inl e, m)" "free_gpu_blocks m < n"
  using gpu_pool.alloc_ok [OF book_wf [OF assms], of n] gpu_pool.alloc_err [OF book_wf [OF assms], of n]
  by (meson not_le)

lemma book_free:
  assumes "book ex G m (mset bs + H)"
  obtains m' where "bm_free bs m = Some m'" "book ex G m' H" "bm_block_size m' = bm_block_size m"
    "free_gpu_blocks m' = free_gpu_blocks m + length bs"
proof -
  note b = assms [unfolded book_def]
  have i: "bm_wf m \<and> bm_block_size m = bm_block_size m" using b by simp
  have o: "owns (\<lambda>b. side_of m b = Some LGpu) (ref_count m) (mset bs + H)" using b by blast
  from sized_pool.owns_release [OF i o] b show thesis unfolding book_def by (metis that [unfolded book_def])
qed

lemma book_drop: "book ex G m (A + H) \<Longrightarrow> book (ex \<and> A = {#}) G m H"
  unfolding book_def using owns_subset [of _ _ "A + H" H] by auto

subsection \<open>The scheduler invariant\<close>

definition held :: "batch_scheduler \<Rightarrow> block_id multiset" where
  "held s = sum_list (map (\<lambda>p. mset (pq_allocated_blocks p)) (bs_waiting s)) +
     sum_list (map (\<lambda>e. mset (rr_blocks (snd e))) (bs_running s))"

definition pending_ok :: "nat \<Rightarrow> pending_request \<Rightarrow> bool" where
  "pending_ok k p \<longleftrightarrow> length (pq_allocated_blocks p) = div_ceil (pq_prefill_progress p) k \<and>
     (pq_prefill_progress p = 0 \<or> pq_prefill_progress p < length (pq_prompt_tokens p))"

definition running_ok :: "nat \<Rightarrow> request_id \<times> running_request \<Rightarrow> bool" where
  "running_ok k e \<longleftrightarrow> rr_req_id (snd e) = fst e \<and>
     rr_kv_tokens (snd e) = length (rr_prompt_tokens (snd e)) + rr_generated_tokens (snd e) \<and>
     length (rr_blocks (snd e)) \<le> div_ceil (rr_kv_tokens (snd e)) k"

definition bs_inv :: "bool \<Rightarrow> block_id set \<Rightarrow> batch_scheduler \<Rightarrow> bool" where
  "bs_inv ex G s \<longleftrightarrow> book ex G (bs_pool s) (held s) \<and> distinct (map pq_req_id (bs_waiting s) @ map fst (bs_running s)) \<and>
     (\<forall>r\<in>set (map pq_req_id (bs_waiting s) @ map fst (bs_running s)). r < bs_next_req_id s) \<and>
     (\<forall>p\<in>set (bs_waiting s). pending_ok (bm_block_size (bs_pool s)) p) \<and>
     (\<forall>e\<in>set (bs_running s). running_ok (bm_block_size (bs_pool s)) e)"

lemma emit_event_simps [simp]:
  "bs_waiting (emit_event r k md s) = bs_waiting s" "bs_running (emit_event r k md s) = bs_running s"
  "bs_pool (emit_event r k md s) = bs_pool s" "bs_next_req_id (emit_event r k md s) = bs_next_req_id s"
  "bs_config (emit_event r k md s) = bs_config s" "held (emit_event r k md s) = held s"
  by (simp_all add: emit_event_def held_def)

lemma bs_inv_emit [simp]: "bs_inv ex G (emit_event r k md s) = bs_inv ex G s"
  by (simp add: bs_inv_def)

lemma bs_invD:
  assumes "bs_inv ex G s"
  shows "book ex G (bs_pool s) (held s)" "distinct (map pq_req_id (bs_waiting s))" "distinct (map fst (bs_running s))"
    "set (map pq_req_id (bs_waiting s)) \<inter> set (map fst (bs_running s)) = {}"
    "\<And>r. r \<in> set (map pq_req_id (bs_waiting s)) \<or> r \<in> set (map fst (bs_running s)) \<Longrightarrow> r < bs_next_req_id s"
    "\<And>p. p \<in> set (bs_waiting s) \<Longrightarrow> pending_ok (bm_block_size (bs_pool s)) p"
    "\<And>e. e \<in> set (bs_running s) \<Longrightarrow> running_ok (bm_block_size (bs_pool s)) e"
  using assms unfolding bs_inv_def by auto

lemma bs_invI:
  assumes "book ex G (bs_pool s) (held s)" "distinct (map pq_req_id (bs_waiting s))" "distinct (map fst (bs_running s))"
    "set (map pq_req_id (bs_waiting s)) \<inter> set (map fst (bs_running s)) = {}"
    "\<And>r. r \<in> set (map pq_req_id (bs_waiting s)) \<or> r \<in> set (map fst (bs_running s)) \<Longrightarrow> r < bs_next_req_id s"
    "\<And>p. p \<in> set (bs_waiting s) \<Longrightarrow> pending_ok (bm_block_size (bs_pool s)) p"
    "\<And>e. e \<in> set (bs_running s) \<Longrightarrow> running_ok (bm_block_size (bs_pool s)) e"
  shows "bs_inv ex G s"
  using assms unfolding bs_inv_def distinct_append set_append by blast

lemma held_running:
  assumes "distinct (map fst (bs_running s))" and "map_of (bs_running s) r = Some q"
  shows "held s = mset (rr_blocks q) + held (s\<lparr>bs_running := AList.delete r (bs_running s)\<rparr>)"
  using sum_delete [OF assms, of "\<lambda>q. mset (rr_blocks q)"] by (simp add: held_def add.left_commute)

lemma held_modify:
  assumes "distinct (map fst (bs_running s))" and "map_of (bs_running s) r = Some q"
  shows "held (s\<lparr>bs_running := hm_modify r g (bs_running s)\<rparr>) =
     mset (rr_blocks (g q)) + held (s\<lparr>bs_running := AList.delete r (bs_running s)\<rparr>)"
  using sum_modify [OF assms, of "\<lambda>q. mset (rr_blocks q)" g] by (simp add: held_def add.left_commute)

lemma hm_modify_mem:
  "distinct (map fst m) \<Longrightarrow> map_of m r = Some q \<Longrightarrow> e \<in> set (hm_modify r g m) \<Longrightarrow> e \<in> set m \<or> e = (r, g q)"
proof -
  assume d: "distinct (map fst m)" "map_of m r = Some q" and "e \<in> set (hm_modify r g m)"
  from this(3) obtain k v where v: "(k, v) \<in> set m" "e = (k, if k = r then g v else v)" by (auto simp: hm_modify_def)
  then have "v = q" if "k = r" using that d map_of_is_SomeI [OF d(1), of k v] by simp
  then show "e \<in> set m \<or> e = (r, g q)" using v by (cases "k = r") auto
qed

lemma blocks_for_tokens_size: "bm_block_size m' = bm_block_size m \<Longrightarrow> blocks_for_tokens m' = blocks_for_tokens m"
  by (simp add: blocks_for_tokens_def fun_eq_iff)

subsection \<open>Operations keep the invariant\<close>

lemma batch_new_inv:
  assumes "bm_wf m" and "\<forall>b. ref_count m b = 0"
  shows "bs_inv True {b. side_of m b = Some LGpu} (batch_new cfg m)"
  using assms by (simp add: bs_inv_def batch_new_def held_def book_def owns_def exact_def)

lemma add_request_inv:
  assumes "bs_inv ex G s"
  shows "bs_inv ex G (snd (add_request prompt mx prio s))" and "bs_pool (snd (add_request prompt mx prio s)) = bs_pool s"
proof -
  note d = bs_invD [OF assms]
  define p where "p = \<lparr>pq_req_id = bs_next_req_id s, pq_prompt_tokens = prompt, pq_max_tokens = mx, pq_priority = prio,
     pq_prefill_progress = 0, pq_allocated_blocks = []\<rparr>"
  define s1 where "s1 = s\<lparr>bs_next_req_id := bs_next_req_id s + 1, bs_waiting := bs_waiting s @ [p]\<rparr>"
  have fresh: "bs_next_req_id s \<notin> set (map pq_req_id (bs_waiting s))" "bs_next_req_id s \<notin> set (map fst (bs_running s))"
    using d(5) [of "bs_next_req_id s"] by blast+
  have pid: "pq_req_id p = bs_next_req_id s" "pq_allocated_blocks p = []" "pending_ok (bm_block_size (bs_pool s)) p"
    by (simp_all add: p_def pending_ok_def)
  have "bs_inv ex G s1"
  proof (rule bs_invI)
    show "book ex G (bs_pool s1) (held s1)" using d(1) pid by (simp add: s1_def held_def)
    show "distinct (map pq_req_id (bs_waiting s1))" using d(2) fresh(1) pid by (simp add: s1_def)
    show "set (map pq_req_id (bs_waiting s1)) \<inter> set (map fst (bs_running s1)) = {}"
      using d(4) fresh(2) pid by (simp add: s1_def)
    fix r assume "r \<in> set (map pq_req_id (bs_waiting s1)) \<or> r \<in> set (map fst (bs_running s1))"
    then have "r < bs_next_req_id s \<or> r = bs_next_req_id s" using d(5) [of r] pid by (auto simp: s1_def)
    then show "r < bs_next_req_id s1" by (auto simp: s1_def)
  qed (use d pid in \<open>auto simp: s1_def\<close>)
  then show "bs_inv ex G (snd (add_request prompt mx prio s))" by (simp add: add_request_def Let_def s1_def p_def)
  show "bs_pool (snd (add_request prompt mx prio s)) = bs_pool s" by (simp add: add_request_def Let_def)
qed

lemma advance_modify_inv:
  assumes i: "bs_inv ex G s" and q: "map_of (bs_running s) r = Some q" and g: "rr_req_id (g q) = r"
    "rr_kv_tokens (g q) = length (rr_prompt_tokens (g q)) + rr_generated_tokens (g q)"
    "length (rr_blocks (g q)) \<le> div_ceil (rr_kv_tokens (g q)) (bm_block_size (bs_pool s))"
    and m: "bm_block_size m = bm_block_size (bs_pool s)"
    and b: "book ex G m (mset (rr_blocks (g q)) + held (s\<lparr>bs_running := AList.delete r (bs_running s)\<rparr>))"
  shows "bs_inv ex G (s\<lparr>bs_running := hm_modify r g (bs_running s), bs_pool := m\<rparr>)"
proof -
  note d = bs_invD [OF i]
  let ?s = "s\<lparr>bs_running := hm_modify r g (bs_running s)\<rparr>"
  have "bs_inv ex G (?s\<lparr>bs_pool := m\<rparr>)"
  proof (rule bs_invI)
    have "held (?s\<lparr>bs_pool := m\<rparr>) = held ?s" by (simp add: held_def)
    then show "book ex G (bs_pool (?s\<lparr>bs_pool := m\<rparr>)) (held (?s\<lparr>bs_pool := m\<rparr>))"
      using b held_modify [OF d(3) q, of g] by simp
    fix e assume "e \<in> set (bs_running (?s\<lparr>bs_pool := m\<rparr>))"
    then have "e \<in> set (bs_running s) \<or> e = (r, g q)" using hm_modify_mem [OF d(3) q, of e g] by simp
    then show "running_ok (bm_block_size (bs_pool (?s\<lparr>bs_pool := m\<rparr>))) e" using d(7) [of e] g m by (auto simp: running_ok_def)
  qed (use d m in \<open>simp_all\<close>)
  then show ?thesis by simp
qed


lemma pool_running_swap: "s\<lparr>bs_pool := m, bs_running := x\<rparr> = s\<lparr>bs_running := x, bs_pool := m\<rparr>"
  by (cases s) simp

lemma advance_decode_inv:
  assumes i: "bs_inv ex G s"
  obtains ok s' where "advance_decode r s = Some (ok, s')" "bs_inv ex G s'" "bm_block_size (bs_pool s') = bm_block_size (bs_pool s)"
proof (cases "map_of (bs_running s) r")
  case None
  then show thesis using i by (intro that [of False s]) (simp_all add: advance_decode_def)
next
  case (Some q0)
  note d = bs_invD [OF i]
  define q where "q = q0\<lparr>rr_generated_tokens := rr_generated_tokens q0 + 1, rr_kv_tokens := rr_kv_tokens q0 + 1\<rparr>"
  let ?k = "bm_block_size (bs_pool s)" and ?rest = "held (s\<lparr>bs_running := AList.delete r (bs_running s)\<rparr>)"
  have k0: "0 < ?k" using book_wf [OF d(1)] by (simp add: bm_wf_alt)
  have ok0: "running_ok ?k (r, q0)" using d(7) Some by (auto dest: map_of_SomeD)
  have q: "rr_req_id q = r" "rr_kv_tokens q = length (rr_prompt_tokens q) + rr_generated_tokens q"
    "rr_blocks q = rr_blocks q0" "length (rr_blocks q) \<le> div_ceil (rr_kv_tokens q) ?k"
    using ok0 div_ceil_mono [OF k0, of "rr_kv_tokens q0" "rr_kv_tokens q0 + 1"] by (auto simp: q_def running_ok_def)
  have b: "book ex G (bs_pool s) (mset (rr_blocks q) + ?rest)" using d(1) held_running [OF d(3) Some] q(3) by simp
  have I0: "bs_inv ex G (s\<lparr>bs_running := hm_modify r (\<lambda>_. q) (bs_running s), bs_pool := bs_pool s\<rparr>)"
    by (rule advance_modify_inv [OF i Some]) (use q b in simp_all)
  let ?need = "blocks_for_tokens (bs_pool s) (rr_kv_tokens q)"
  let ?s1 = "s\<lparr>bs_running := hm_modify r (\<lambda>_. q) (bs_running s)\<rparr>"
  have unf: "advance_decode r s = (if length (rr_blocks q) < ?need
     then do { (res, m) \<leftarrow> allocate_gpu (?need - length (rr_blocks q)) (bs_pool s);
               Some (case res of Inl _ \<Rightarrow> (False, ?s1\<lparr>bs_pool := m\<rparr>)
                 | Inr new_blocks \<Rightarrow> (True, emit_event r DecodeStep (Some Decode) (?s1\<lparr>bs_pool := m,
                     bs_running := hm_modify r (\<lambda>q. q\<lparr>rr_blocks := rr_blocks q @ new_blocks\<rparr>) (bs_running ?s1)\<rparr>))) }
     else Some (True, emit_event r DecodeStep (Some Decode) ?s1))"
    unfolding advance_decode_def Some option.case Let_def q_def [symmetric] by (rule refl)
  show thesis
  proof (cases "length (rr_blocks q) < ?need")
    case False
    then show thesis using I0 by (intro that [of True "emit_event r DecodeStep (Some Decode)
      (s\<lparr>bs_running := hm_modify r (\<lambda>_. q) (bs_running s)\<rparr>)"]) (simp_all add: unf)
  next
    case True
    from d(1) show thesis
    proof (cases rule: book_alloc_total [of ex G _ _ "?need - length (rr_blocks q)"])
      case (2 e)
      then show thesis using True I0
        by (intro that [of False "s\<lparr>bs_running := hm_modify r (\<lambda>_. q) (bs_running s), bs_pool := bs_pool s\<rparr>"]) (simp_all add: unf)
    next
      case (1 ids m')
      note a = book_alloc [OF b 1(1)]
      have "hm_modify r (\<lambda>q. q\<lparr>rr_blocks := rr_blocks q @ ids\<rparr>) (hm_modify r (\<lambda>_. q) (bs_running s)) =
          hm_modify r (\<lambda>_. q\<lparr>rr_blocks := rr_blocks q @ ids\<rparr>) (bs_running s)"
        by (auto simp: hm_modify_def)
      moreover have "bs_inv ex G (s\<lparr>bs_running := hm_modify r (\<lambda>_. q\<lparr>rr_blocks := rr_blocks q @ ids\<rparr>) (bs_running s), bs_pool := m'\<rparr>)"
        by (rule advance_modify_inv [OF i Some])
          (use q a True in \<open>simp_all add: blocks_for_tokens_def ac_simps\<close>)
      ultimately show thesis using True 1 a(3)
        by (intro that [of True "emit_event r DecodeStep (Some Decode) (s\<lparr>bs_running := hm_modify r (\<lambda>_. q\<lparr>rr_blocks := rr_blocks q @ ids\<rparr>) (bs_running s),
            bs_pool := m'\<rparr>)"]) (simp_all add: unf pool_running_swap)
    qed
  qed
qed

text \<open>Blocks that a finished or cancelled request still held while it waited are forgotten.\<close>

definition holds_while_waiting :: "request_id \<Rightarrow> batch_scheduler \<Rightarrow> bool" where
  "holds_while_waiting r s \<longleftrightarrow> (\<exists>p\<in>set (bs_waiting s). pq_req_id p = r \<and> pq_allocated_blocks p \<noteq> [])"

lemma sum_list_filter_split:
  fixes f :: "'a \<Rightarrow> 'b :: comm_monoid_add"
  shows "sum_list (map f xs) = sum_list (map f (filter (\<lambda>x. \<not> P x) xs)) + sum_list (map f (filter P xs))"
  by (induction xs) (simp_all add: ac_simps)

lemma remove_running_inv:
  assumes i: "bs_inv ex G s" and q: "map_of (bs_running s) r = Some q"
  obtains m where "bm_free (rr_blocks q) (bs_pool s) = Some m" "bm_block_size m = bm_block_size (bs_pool s)"
    "free_gpu_blocks m = free_gpu_blocks (bs_pool s) + length (rr_blocks q)"
    "bs_inv ex G (s\<lparr>bs_running := AList.delete r (bs_running s), bs_pool := m\<rparr>)"
proof -
  note d = bs_invD [OF i]
  have "book ex G (bs_pool s) (mset (rr_blocks q) + held (s\<lparr>bs_running := AList.delete r (bs_running s)\<rparr>))"
    using d(1) held_running [OF d(3) q] by simp
  then obtain m where m: "bm_free (rr_blocks q) (bs_pool s) = Some m"
    "book ex G m (held (s\<lparr>bs_running := AList.delete r (bs_running s)\<rparr>))" "bm_block_size m = bm_block_size (bs_pool s)"
    "free_gpu_blocks m = free_gpu_blocks (bs_pool s) + length (rr_blocks q)"
    by (rule book_free)
  define s1 where "s1 = s\<lparr>bs_running := AList.delete r (bs_running s), bs_pool := m\<rparr>"
  have sub: "set (map fst (bs_running s1)) \<subseteq> set (map fst (bs_running s))" "set (bs_running s1) \<subseteq> set (bs_running s)"
    by (auto simp: s1_def AList.delete_eq)
  have "bs_inv ex G s1"
  proof (rule bs_invI)
    show "book ex G (bs_pool s1) (held s1)" using m(2) by (simp add: s1_def held_def)
    show "distinct (map fst (bs_running s1))" using d(3) by (simp add: s1_def)
    show "set (map pq_req_id (bs_waiting s1)) \<inter> set (map fst (bs_running s1)) = {}"
    proof -
      have "bs_waiting s1 = bs_waiting s" by (simp add: s1_def)
      then show ?thesis using d(4) sub(1) by (metis Int_mono order_refl subset_empty)
    qed
    show "r' < bs_next_req_id s1" if "r' \<in> set (map pq_req_id (bs_waiting s1)) \<or> r' \<in> set (map fst (bs_running s1))" for r'
      using that d(5) [of r'] sub(1) by (auto simp: s1_def)
    show "running_ok (bm_block_size (bs_pool s1)) e" if "e \<in> set (bs_running s1)" for e
      using d(7) [of e] sub(2) that m(3) by (auto simp: s1_def)
  qed (use d m in \<open>simp_all add: s1_def\<close>)
  then show thesis using m that by (simp add: s1_def)
qed


lemma drop_waiting_inv:
  assumes i: "bs_inv ex G s"
  shows "bs_inv (ex \<and> \<not> holds_while_waiting r s) G (s\<lparr>bs_waiting := filter (\<lambda>p. pq_req_id p \<noteq> r) (bs_waiting s)\<rparr>)"
proof -
  note d = bs_invD [OF i]
  define s1 where "s1 = s\<lparr>bs_waiting := filter (\<lambda>p. pq_req_id p \<noteq> r) (bs_waiting s)\<rparr>"
  let ?A = "sum_list (map (\<lambda>p. mset (pq_allocated_blocks p)) (filter (\<lambda>p. pq_req_id p = r) (bs_waiting s)))"
  have "held s = ?A + held s1"
    using sum_list_filter_split [of "\<lambda>p. mset (pq_allocated_blocks p)" "bs_waiting s" "\<lambda>p. pq_req_id p = r"]
    by (simp add: held_def s1_def ac_simps)
  then have "book (ex \<and> ?A = {#}) G (bs_pool s) (held s1)" using book_drop [of ex G "bs_pool s" ?A "held s1"] d(1) by simp
  moreover have "?A = {#}" if "\<not> holds_while_waiting r s"
  proof -
    have "\<forall>x\<in>set (map (\<lambda>p. mset (pq_allocated_blocks p)) (filter (\<lambda>p. pq_req_id p = r) (bs_waiting s))). x = {#}"
      using that by (auto simp: holds_while_waiting_def)
    moreover have "sum_list xs = {#}" if "\<forall>x\<in>set xs. x = {#}" for xs :: "nat multiset list" using that by (induction xs) auto
    ultimately show ?thesis by blast
  qed
  ultimately have b: "book (ex \<and> \<not> holds_while_waiting r s) G (bs_pool s) (held s1)" unfolding book_def by blast
  have "bs_inv (ex \<and> \<not> holds_while_waiting r s) G s1"
  proof (rule bs_invI)
    show "distinct (map pq_req_id (bs_waiting s1))" using d(2) by (simp add: s1_def distinct_map_filter)
    have "set (bs_waiting s1) \<subseteq> set (bs_waiting s)" by (simp add: s1_def filter_is_subset)
    then show "set (map pq_req_id (bs_waiting s1)) \<inter> set (map fst (bs_running s1)) = {}" using d(4) by (auto simp: s1_def)
    show "r' < bs_next_req_id s1" if "r' \<in> set (map pq_req_id (bs_waiting s1)) \<or> r' \<in> set (map fst (bs_running s1))" for r'
      using that d(5) [of r'] by (auto simp: s1_def)
  qed (use d b in \<open>auto simp: s1_def\<close>)
  then show ?thesis by (simp add: s1_def)
qed

lemma finish_request_inv:
  assumes i: "bs_inv ex G s"
  obtains s' where "finish_request r s = Some s'" "bs_inv (ex \<and> \<not> holds_while_waiting r s) G s'"
    "bm_block_size (bs_pool s') = bm_block_size (bs_pool s)"
proof (cases "map_of (bs_running s) r")
  case None
  then show thesis using drop_waiting_inv [OF i, of r]
    by (intro that [of "s\<lparr>bs_waiting := filter (\<lambda>p. pq_req_id p \<noteq> r) (bs_waiting s)\<rparr>"]) (simp_all add: finish_request_def)
next
  case (Some q)
  obtain m where m: "bm_free (rr_blocks q) (bs_pool s) = Some m" "bm_block_size m = bm_block_size (bs_pool s)"
    "bs_inv ex G (s\<lparr>bs_running := AList.delete r (bs_running s), bs_pool := m\<rparr>)"
    by (rule remove_running_inv [OF i Some])
  let ?s = "emit_event r Completed (Some Decode) (s\<lparr>bs_running := AList.delete r (bs_running s), bs_pool := m\<rparr>)"
  have "holds_while_waiting r ?s \<longleftrightarrow> holds_while_waiting r s" by (simp add: holds_while_waiting_def)
  then show thesis using drop_waiting_inv [of ex G ?s r] m Some
    by (intro that [of "?s\<lparr>bs_waiting := filter (\<lambda>p. pq_req_id p \<noteq> r) (bs_waiting ?s)\<rparr>"])
      (simp_all add: finish_request_def)
qed

subsection \<open>Preemption\<close>

lemma preempt_inv:
  assumes i: "bs_inv ex G s" and q: "map_of (bs_running s) r = Some q"
  obtains m where "bm_free (rr_blocks q) (bs_pool s) = Some m" "bm_block_size m = bm_block_size (bs_pool s)"
    "free_gpu_blocks m = free_gpu_blocks (bs_pool s) + length (rr_blocks q)" "bs_inv ex G (preempt r q m s)"
proof (rule remove_running_inv [OF i q])
  fix m assume m: "bm_free (rr_blocks q) (bs_pool s) = Some m" "bm_block_size m = bm_block_size (bs_pool s)"
    "free_gpu_blocks m = free_gpu_blocks (bs_pool s) + length (rr_blocks q)"
    "bs_inv ex G (s\<lparr>bs_running := AList.delete r (bs_running s), bs_pool := m\<rparr>)"
  let ?s = "s\<lparr>bs_running := AList.delete r (bs_running s), bs_pool := m\<rparr>"
  note d = bs_invD [OF m(4)] and d0 = bs_invD [OF i]
  have r: "r \<in> set (map fst (bs_running s))" using map_of_SomeD [OF q] by force
  then have rw: "r \<notin> set (map pq_req_id (bs_waiting s))" using d0(4) by blast
  have rlt: "r < bs_next_req_id s" by (rule d0(5)) (use r in blast)
  define s1 where "s1 = ?s\<lparr>bs_waiting := requeued r q # bs_waiting s\<rparr>"
  have "bs_inv ex G s1"
  proof (rule bs_invI)
    show "book ex G (bs_pool s1) (held s1)" using d(1) by (simp add: s1_def held_def requeued_def)
    show "distinct (map pq_req_id (bs_waiting s1))" using d0(2) rw by (simp add: s1_def requeued_def)
    show "distinct (map fst (bs_running s1))" using d0(3) by (simp add: s1_def)
    have "r \<notin> set (map fst (AList.delete r (bs_running s)))" by (simp only: set_fst_delete) simp
    then show "set (map pq_req_id (bs_waiting s1)) \<inter> set (map fst (bs_running s1)) = {}"
      using d(4) by (simp add: s1_def requeued_def)
    show "r' < bs_next_req_id s1" if "r' \<in> set (map pq_req_id (bs_waiting s1)) \<or> r' \<in> set (map fst (bs_running s1))" for r'
      using that d(5) [of r'] rlt by (auto simp: s1_def requeued_def)
  qed (use d in \<open>auto simp: s1_def requeued_def pending_ok_def\<close>)
  then show thesis using that [OF m(1,2,3)] by (simp add: preempt_def Let_def s1_def emit_event_def bs_inv_def held_def)
qed


definition victims_ok :: "batch_scheduler \<Rightarrow> request_id list \<Rightarrow> batch_scheduler \<Rightarrow> bool" where
  "victims_ok s vs s' \<longleftrightarrow> sorted_wrt (>) vs \<and> set vs \<subseteq> set (map fst (bs_running s)) \<and>
     bs_running s' = filter (\<lambda>e. fst e \<notin> set vs) (bs_running s) \<and>
     (\<forall>v\<in>set vs. \<forall>k\<in>set (map fst (bs_running s')). k < v) \<and>
     bs_waiting s' = map (\<lambda>v. requeued v (the (map_of (bs_running s) v))) (rev vs) @ bs_waiting s \<and>
     new_blocks_needed s' \<le> free_gpu_blocks (bs_pool s') \<and>
     (vs \<noteq> [] \<longrightarrow> free_gpu_blocks (bs_pool s') - length (rr_blocks (the (map_of (bs_running s) (last vs)))) <
        new_blocks_needed s' + blocks_to_advance (bs_pool s') (the (map_of (bs_running s) (last vs))))"

lemma delete_filter: "AList.delete r m = filter (\<lambda>e. fst e \<noteq> r) m"
  by (induction m) auto

lemma needed_preempt:
  assumes "distinct (map fst (bs_running s))" and "map_of (bs_running s) r = Some q"
    and "bm_block_size m = bm_block_size (bs_pool s)"
  shows "new_blocks_needed s = blocks_to_advance (bs_pool s) q + new_blocks_needed (preempt r q m s)"
  using sum_delete [OF assms(1,2), of "blocks_to_advance (bs_pool s)"] blocks_for_tokens_size [OF assms(3)]
  by (simp add: new_blocks_needed_def preempt_def Let_def blocks_to_advance_def)

lemma preempt_simps [simp]:
  "bs_running (preempt r q m s) = AList.delete r (bs_running s)" "bs_pool (preempt r q m s) = m"
  "bs_waiting (preempt r q m s) = requeued r q # bs_waiting s" "bs_config (preempt r q m s) = bs_config s"
  "bs_next_req_id (preempt r q m s) = bs_next_req_id s"
  by (simp_all add: preempt_def Let_def)

lemma victims_ok_Cons:
  assumes d: "distinct (map fst (bs_running s))" and q: "map_of (bs_running s) r = Some q"
    and r: "\<forall>k\<in>set (map fst (bs_running s)). k \<le> r"
    and m: "bm_block_size m = bm_block_size (bs_pool s)"
      "free_gpu_blocks m = free_gpu_blocks (bs_pool s) + length (rr_blocks q)"
    and need: "\<not> new_blocks_needed s \<le> free_gpu_blocks (bs_pool s)"
    and v: "victims_ok (preempt r q m s) vs s'"
    and same: "bm_block_size (bs_pool s') = bm_block_size m" "vs = [] \<Longrightarrow> s' = preempt r q m s"
  shows "victims_ok s (r # vs) s'"
proof -
  note v' = v [unfolded victims_ok_def preempt_simps]
  have sub: "set vs \<subseteq> set (map fst (bs_running s)) - {r}" using v' set_fst_delete by metis
  have mo: "map_of (AList.delete r (bs_running s)) k = map_of (bs_running s) k" if "k \<noteq> r" for k
    using that by (simp add: delete_conv')
  have rq: "map (\<lambda>v. requeued v (the (map_of (AList.delete r (bs_running s)) v))) (rev vs) =
      map (\<lambda>v. requeued v (the (map_of (bs_running s) v))) (rev vs)"
  proof (rule map_cong [OF refl])
    fix x assume "x \<in> set (rev vs)"
    then have "x \<noteq> r" using sub by auto
    then show "requeued x (the (map_of (AList.delete r (bs_running s)) x)) = requeued x (the (map_of (bs_running s) x))"
      by (simp only: mo [OF \<open>x \<noteq> r\<close>])
  qed
  show ?thesis
    unfolding victims_ok_def
  proof (intro conjI impI)
    show "sorted_wrt (>) (r # vs)" using v' sub r by (force simp: order.strict_iff_order)
    show "set (r # vs) \<subseteq> set (map fst (bs_running s))" using sub map_of_SomeD [OF q] by force
    show run: "bs_running s' = filter (\<lambda>e. fst e \<notin> set (r # vs)) (bs_running s)"
      using v' unfolding delete_filter by (auto intro: filter_cong)
    have "set (map fst (bs_running s')) \<subseteq> set (map fst (bs_running s)) - {r}" unfolding run by auto
    then have "\<forall>k\<in>set (map fst (bs_running s')). k < r" using r by (metis DiffE insertCI order.strict_iff_order subsetD)
    moreover have "\<forall>v\<in>set vs. \<forall>k\<in>set (map fst (bs_running s')). k < v" using v' by (elim conjE)
    ultimately show "\<forall>v\<in>set (r # vs). \<forall>k\<in>set (map fst (bs_running s')). k < v" unfolding list.set by blast
    show "bs_waiting s' = map (\<lambda>v. requeued v (the (map_of (bs_running s) v))) (rev (r # vs)) @ bs_waiting s"
      using v' rq q by simp
    show "new_blocks_needed s' \<le> free_gpu_blocks (bs_pool s')" using v' by blast
    show "free_gpu_blocks (bs_pool s') - length (rr_blocks (the (map_of (bs_running s) (last (r # vs))))) <
        new_blocks_needed s' + blocks_to_advance (bs_pool s') (the (map_of (bs_running s) (last (r # vs))))"
    proof (cases "vs = []")
      case True
      then show ?thesis using same(2) needed_preempt [OF d q m(1)] need m q blocks_for_tokens_size [OF m(1)]
        by (simp add: blocks_to_advance_def)
    next
      case False
      then have "last vs \<noteq> r" using sub last_in_set [OF False] by blast
      then show ?thesis using v' mo False by simp
    qed
  qed
qed

lemma ensure_loop_ok:
  assumes "bs_inv ex G s"
  shows "\<exists>s' vs. ensure_loop p s = Some (p \<or> vs \<noteq> [], s') \<and> bs_inv ex G s' \<and> victims_ok s vs s' \<and> (vs = [] \<longrightarrow> s' = s) \<and>
    bm_block_size (bs_pool s') = bm_block_size (bs_pool s) \<and> bs_config s' = bs_config s"
  using assms
proof (induction p s rule: ensure_loop.induct)
  case (1 p s)
  note unf = ensure_loop.simps [of p s]
  show ?case
  proof (cases "new_blocks_needed s \<le> free_gpu_blocks (bs_pool s)")
    case True
    then show ?thesis using 1(2) by (intro exI [of _ s] exI [of _ "[]"]) (simp add: unf victims_ok_def)
  next
    case need: False
    then have "bs_running s \<noteq> []" by (auto simp: new_blocks_needed_def)
    then obtain r where r: "max_key (bs_running s) = Some r" by (auto simp: max_key_def)
    obtain q where q: "map_of (bs_running s) r = Some q"
      using max_key_Some(1) [OF r] by (metis map_of_eq_None_iff not_None_eq set_map)
    obtain m where m: "bm_free (rr_blocks q) (bs_pool s) = Some m" "bm_block_size m = bm_block_size (bs_pool s)"
      "free_gpu_blocks m = free_gpu_blocks (bs_pool s) + length (rr_blocks q)" "bs_inv ex G (preempt r q m s)"
      by (rule preempt_inv [OF 1(2) q])
    from 1(1) [OF need r q m(1,4)] obtain s' vs where
      s': "ensure_loop True (preempt r q m s) = Some (True \<or> vs \<noteq> [], s')" "bs_inv ex G s'" "victims_ok (preempt r q m s) vs s'"
      "vs = [] \<longrightarrow> s' = preempt r q m s" "bm_block_size (bs_pool s') = bm_block_size m" "bs_config s' = bs_config s" by auto
    have "victims_ok s (r # vs) s'"
      by (rule victims_ok_Cons [OF bs_invD(3) [OF 1(2)] q max_key_Some(2) [OF r] m(2,3) need s'(3,5)]) (use s'(4) in blast)
    then show ?thesis using s' m r q need
      by (intro exI [of _ s'] exI [of _ "r # vs"]) (simp add: unf)
  qed
qed


subsection \<open>Admission of a prefill chunk\<close>

definition started :: "pending_request \<Rightarrow> block_id list \<Rightarrow> running_request" where
  "started p got = \<lparr>rr_req_id = pq_req_id p, rr_prompt_tokens = pq_prompt_tokens p, rr_generated_tokens = 0,
     rr_max_tokens = pq_max_tokens p, rr_blocks = pq_allocated_blocks p @ got, rr_kv_tokens = length (pq_prompt_tokens p)\<rparr>"

definition admitted ::
    "batch_scheduler \<Rightarrow> pending_request \<Rightarrow> pending_request list \<Rightarrow> nat \<Rightarrow> block_id list \<Rightarrow> batch_scheduler \<Rightarrow> bool" where
  "admitted s p rest c got s' \<longleftrightarrow>
     (if length (pq_prompt_tokens p) = pq_prefill_progress p + c
      then bs_waiting s' = rest \<and> bs_running s' = bs_running s @ [(pq_req_id p, started p got)]
      else bs_waiting s' = p\<lparr>pq_allocated_blocks := pq_allocated_blocks p @ got, pq_prefill_progress := pq_prefill_progress p + c\<rparr> # rest \<and>
           bs_running s' = bs_running s) \<and>
     bs_config s' = bs_config s \<and> bs_next_req_id s' = bs_next_req_id s \<and>
     bs_events s' = bs_events s @ (if pq_prefill_progress p = 0
       then [\<lparr>ev_request_id = pq_req_id p, ev_kind = PrefillStarted, ev_mode = Some Prefill\<rparr>] else [])"

definition chunk_row :: "nat \<Rightarrow> pending_request \<Rightarrow> nat \<Rightarrow> prefill_row" where
  "chunk_row row_index p c = prefill_row_new row_index (pq_req_id p) (take c (drop (pq_prefill_progress p) (pq_prompt_tokens p)))
     (pq_prefill_progress p) (pq_prefill_progress p + c) (length (pq_prompt_tokens p))"

lemma admit_chunk_eq:
  assumes "c \<le> length (pq_prompt_tokens p) - pq_prefill_progress p" and "pq_prefill_progress p < length (pq_prompt_tokens p)"
    and fresh: "pq_req_id p \<notin> set (map fst (bs_running s))"
  shows "\<exists>s'. admit_chunk row_index p rest c got s = Some (chunk_row row_index p c, s') \<and> admitted s p rest c got s' \<and> bs_pool s' = bs_pool s"
proof -
  have sl: "slice (pq_prefill_progress p) (pq_prefill_progress p + c) (pq_prompt_tokens p) =
      Some (take c (drop (pq_prefill_progress p) (pq_prompt_tokens p)))"
    using assms(1,2) by (simp add: slice_def)
  have last: "length (pq_prompt_tokens p) \<le> pq_prefill_progress p + c \<longleftrightarrow> length (pq_prompt_tokens p) = pq_prefill_progress p + c"
    using assms(1,2) by auto
  show ?thesis
    unfolding admit_chunk_def Let_def sl bind.bind_lunit last
    using update_fresh [OF fresh]
    by (auto simp: admitted_def chunk_row_def started_def emit_event_def)
qed

lemma admitted_inv:
  assumes i: "bs_inv ex G s" and w: "bs_waiting s = p # rest" and c: "0 < c" "c \<le> length (pq_prompt_tokens p) - pq_prefill_progress p"
    and a: "admitted s p rest c got s'"
    and b: "book ex G (bs_pool s') (mset got + held s)" "bm_block_size (bs_pool s') = bm_block_size (bs_pool s)"
    and l: "length (pq_allocated_blocks p) + length got = div_ceil (pq_prefill_progress p + c) (bm_block_size (bs_pool s))"
  shows "bs_inv ex G s'"
proof (cases "length (pq_prompt_tokens p) = pq_prefill_progress p + c")
  case True
  note d = bs_invD [OF i] and a' = a [unfolded admitted_def, simplified True, simplified]
  have id: "pq_req_id p \<in> set (map pq_req_id (bs_waiting s))" using w by simp
  have "pq_req_id p \<notin> set (map fst (bs_running s))" using id d(4) by blast
  moreover have "pq_req_id p \<notin> set (map pq_req_id rest)" using d(2) w by simp
  moreover have "pq_req_id p < bs_next_req_id s" using d(5) id by blast
  ultimately show ?thesis
  proof (intro bs_invI)
    have "held s' = mset got + held s" using a' w by (simp add: held_def started_def ac_simps)
    then show "book ex G (bs_pool s') (held s')" using b(1) by simp
    show "r < bs_next_req_id s'" if "r \<in> set (map pq_req_id (bs_waiting s')) \<or> r \<in> set (map fst (bs_running s'))" for r
      using that a' w d(5) [of r] id by auto
    show "running_ok (bm_block_size (bs_pool s')) e" if "e \<in> set (bs_running s')" for e
      using that a' d(7) [of e] b(2) l True by (auto simp: running_ok_def started_def)
  qed (use a' w d b(2) in auto)
next
  case False
  note d = bs_invD [OF i] and a' = a [unfolded admitted_def if_not_P [OF False]]
  show ?thesis
  proof (rule bs_invI)
    have "held s' = mset got + held s" using a' w by (simp add: held_def ac_simps)
    then show "book ex G (bs_pool s') (held s')" using b(1) by simp
    show "r < bs_next_req_id s'" if "r \<in> set (map pq_req_id (bs_waiting s')) \<or> r \<in> set (map fst (bs_running s'))" for r
      using that a' w d(5) [of r] by auto
    show "pending_ok (bm_block_size (bs_pool s')) q" if "q \<in> set (bs_waiting s')" for q
      using that a' d(6) [of q] b(2) l w False c by (auto simp: pending_ok_def)
  qed (use a' w d b(2) in auto)
qed

text \<open>The tokens a chunk may take.\<close>

definition chunk_size :: "nat \<Rightarrow> batch_scheduler \<Rightarrow> pending_request \<Rightarrow> nat" where
  "chunk_size budget s p = min (min (length (pq_prompt_tokens p) - pq_prefill_progress p) (prefill_chunk_budget s)) budget"

definition chunk_blocks :: "nat \<Rightarrow> batch_scheduler \<Rightarrow> pending_request \<Rightarrow> nat" where
  "chunk_blocks budget s p =
     div_ceil (pq_prefill_progress p + chunk_size budget s p) (bm_block_size (bs_pool s)) - length (pq_allocated_blocks p)"

lemma try_admit_ok:
  assumes i: "bs_inv ex G s"
  shows "\<exists>row s'. try_admit_prefill_chunk budget row_index s = Some (row, s') \<and> bs_inv ex G s' \<and>
    bm_block_size (bs_pool s') = bm_block_size (bs_pool s) \<and> bs_config s' = bs_config s \<and>
    (case bs_waiting s of [] \<Rightarrow> row = None \<and> s' = s
     | p # rest \<Rightarrow>
       if length (pq_prompt_tokens p) \<le> pq_prefill_progress p then row = None \<and> s' = s\<lparr>bs_waiting := rest\<rparr>
       else if chunk_size budget s p = 0 \<or> free_gpu_blocks (bs_pool s) < chunk_blocks budget s p then row = None \<and> s' = s
       else row = Some (chunk_row row_index p (chunk_size budget s p)) \<and>
         (\<exists>got. admitted s p rest (chunk_size budget s p) got s' \<and> length got = chunk_blocks budget s p \<and>
            free_gpu_blocks (bs_pool s') = free_gpu_blocks (bs_pool s) - chunk_blocks budget s p))"
proof (cases "bs_waiting s")
  case Nil
  then show ?thesis using i by (simp add: try_admit_prefill_chunk_def)
next
  case w: (Cons p rest)
  note d = bs_invD [OF i]
  show ?thesis
  proof (cases "length (pq_prompt_tokens p) \<le> pq_prefill_progress p")
    case True
    have p: "pending_ok (bm_block_size (bs_pool s)) p" using d(6) w by simp
    then have "pq_allocated_blocks p = []" using True by (auto simp: pending_ok_def)
    then have "bs_inv ex G (s\<lparr>bs_waiting := rest\<rparr>)"
      using d w by (intro bs_invI) (auto simp: held_def)
    then show ?thesis using w True by (simp add: try_admit_prefill_chunk_def)
  next
    case False
    let ?c = "chunk_size budget s p" and ?n = "chunk_blocks budget s p"
    have p: "pending_ok (bm_block_size (bs_pool s)) p" using d(6) w by simp
    have unf: "try_admit_prefill_chunk budget row_index s =
       (if ?c = 0 then Some (None, s)
        else if 0 < ?n
          then do { (res, m) \<leftarrow> allocate_gpu ?n (bs_pool s);
                    (case res of Inl _ \<Rightarrow> Some (None, s\<lparr>bs_pool := m\<rparr>)
                     | Inr got \<Rightarrow> do { (row, s1) \<leftarrow> admit_chunk row_index p rest ?c got (s\<lparr>bs_pool := m\<rparr>); Some (Some row, s1) }) }
          else do { (row, s1) \<leftarrow> admit_chunk row_index p rest ?c [] s; Some (Some row, s1) })"
      unfolding try_admit_prefill_chunk_def w list.case if_not_P [OF False] Let_def chunk_size_def chunk_blocks_def
        blocks_for_tokens_def by (rule refl)
    show ?thesis
    proof (cases "?c = 0")
      case True
      then show ?thesis using w False i unf by simp
    next
      case c0: False
      have c: "0 < ?c" "?c \<le> length (pq_prompt_tokens p) - pq_prefill_progress p" using c0 by (auto simp: chunk_size_def)
      have fresh: "pq_req_id p \<notin> set (map fst (bs_running s))" using d(4) w by auto
      have k0: "0 < bm_block_size (bs_pool s)" using book_wf [OF d(1)] by (simp add: bm_wf_alt)
      have le: "length (pq_allocated_blocks p) \<le> div_ceil (pq_prefill_progress p + ?c) (bm_block_size (bs_pool s))"
        using p div_ceil_mono [OF k0, of "pq_prefill_progress p" "pq_prefill_progress p + ?c"] by (simp add: pending_ok_def)
      then have len: "length (pq_allocated_blocks p) + ?n = div_ceil (pq_prefill_progress p + ?c) (bm_block_size (bs_pool s))"
        by (simp add: chunk_blocks_def)
      show ?thesis
      proof (cases "?n = 0")
        case True
        obtain s' where s': "admit_chunk row_index p rest ?c [] s = Some (chunk_row row_index p ?c, s')"
          "admitted s p rest ?c [] s'" "bs_pool s' = bs_pool s"
          using admit_chunk_eq [OF c(2) _ fresh, of row_index rest "[]"] False by auto
        have "bs_inv ex G s'"
          by (rule admitted_inv [OF i w c s'(2)]) (use d(1) s'(3) len True in simp_all)
        moreover have "bs_config s' = bs_config s" using s'(2) by (simp add: admitted_def)
        ultimately show ?thesis using w False c0 True s' unf by auto
      next
        case n0: False
        show ?thesis
          using d(1)
        proof (cases rule: book_alloc_total [of ex G _ _ ?n])
          case (2 e)
          have "s\<lparr>bs_pool := bs_pool s\<rparr> = s" by simp
          then show ?thesis using w False c0 n0 2 i unf by simp
        next
          case (1 got m)
          note al = book_alloc [OF d(1) 1(1)]
          obtain s' where s': "admit_chunk row_index p rest ?c got (s\<lparr>bs_pool := m\<rparr>) = Some (chunk_row row_index p ?c, s')"
            "admitted (s\<lparr>bs_pool := m\<rparr>) p rest ?c got s'" "bs_pool s' = m"
            using admit_chunk_eq [OF c(2), of "s\<lparr>bs_pool := m\<rparr>" row_index rest got] False fresh by auto
          have ad: "admitted s p rest ?c got s'" using s'(2) by (simp add: admitted_def)
          have "bs_inv ex G s'"
            by (rule admitted_inv [OF i w c ad]) (use al s'(3) len in simp_all)
          moreover have "bs_config s' = bs_config s" using ad by (simp add: admitted_def)
          ultimately show ?thesis using w False c0 n0 s' al 1 unf ad by auto
        qed
      qed
    qed
  qed
qed


end
