(* ===== verification/Batch_Props.thy ===== *)
theory Batch_Props
  imports Batch_Safety
begin

text \<open>
  The batch scheduler as a state machine: one step of it never panics and keeps the invariant, and
  the properties of block ownership, preemption, decode memory and chunked prefill.
\<close>

subsection \<open>One step of the schedule\<close>

lemma decode_rows_from_ok:
  assumes "set rs \<subseteq> set (map fst m)"
  shows "\<exists>rows. decode_rows_from m i rs = Some rows \<and> length rows = length rs \<and>
     (\<forall>j<length rs. rows ! j = decode_row_new (i + j) (rr_req_id (the (map_of m (rs ! j)))) 0
        (length (rr_prompt_tokens (the (map_of m (rs ! j)))) + (rr_generated_tokens (the (map_of m (rs ! j))) - 1)))"
  using assms
proof (induction rs arbitrary: i)
  case (Cons r rs)
  have sub: "set rs \<subseteq> set (map fst m)" using Cons.prems by simp
  from Cons.IH [OF sub, of "i + 1"] obtain rows where rows: "decode_rows_from m (i + 1) rs = Some rows" "length rows = length rs"
    "\<forall>j<length rs. rows ! j = decode_row_new (i + 1 + j) (rr_req_id (the (map_of m (rs ! j)))) 0
        (length (rr_prompt_tokens (the (map_of m (rs ! j)))) + (rr_generated_tokens (the (map_of m (rs ! j))) - 1))"
    by blast
  obtain q where "map_of m r = Some q" using Cons.prems by (metis insert_subset list.set(2) map_of_eq_None_iff not_None_eq set_map)
  then have eq: "decode_rows_from m i (r # rs) = Some (decode_row_new i (rr_req_id q) 0
      (length (rr_prompt_tokens q) + (rr_generated_tokens q - 1)) # rows)" using rows(1) by simp
  show ?case
  proof (intro exI conjI allI impI)
    show "decode_rows_from m i (r # rs) = Some (decode_row_new i (rr_req_id q) 0
      (length (rr_prompt_tokens q) + (rr_generated_tokens q - 1)) # rows)" by (rule eq)
    fix j assume j: "j < length (r # rs)"
    show "(decode_row_new i (rr_req_id q) 0 (length (rr_prompt_tokens q) + (rr_generated_tokens q - 1)) # rows) ! j =
       decode_row_new (i + j) (rr_req_id (the (map_of m ((r # rs) ! j)))) 0
         (length (rr_prompt_tokens (the (map_of m ((r # rs) ! j)))) + (rr_generated_tokens (the (map_of m ((r # rs) ! j))) - 1))"
      using j rows(3) \<open>map_of m r = Some q\<close> by (cases j) simp_all
  qed (use rows(2) in simp)
qed simp

definition decode_rows_ok :: "(request_id, running_request) hmap \<Rightarrow> decode_row list \<Rightarrow> bool" where
  "decode_rows_ok m rows \<longleftrightarrow> map dr_req_id rows = sort (map fst m) \<and> map dr_row_index rows = [0..<length m] \<and>
     (\<forall>d\<in>set rows. \<exists>q. map_of m (dr_req_id d) = Some q \<and>
        dr_logical_kv_offset d = length (rr_prompt_tokens q) + (rr_generated_tokens q - 1))"

lemma build_decode_rows_ok:
  assumes "bs_inv ex G s"
  shows "\<exists>rows. build_decode_rows s = Some rows \<and> decode_rows_ok (bs_running s) rows"
proof -
  let ?m = "bs_running s" and ?rs = "sort (map fst (bs_running s))"
  note d = bs_invD [OF assms]
  have id: "rr_req_id (the (map_of ?m r)) = r \<and> map_of ?m r \<noteq> None" if r: "r \<in> set ?rs" for r
  proof -
    obtain q where q: "(r, q) \<in> set ?m" using r by auto
    then show ?thesis using d(7) [OF q] d(3) by (simp add: running_ok_def)
  qed
  obtain rows where rows: "decode_rows_from ?m 0 ?rs = Some rows" "length rows = length ?rs"
    "\<forall>j<length ?rs. rows ! j = decode_row_new (0 + j) (rr_req_id (the (map_of ?m (?rs ! j)))) 0
        (length (rr_prompt_tokens (the (map_of ?m (?rs ! j)))) + (rr_generated_tokens (the (map_of ?m (?rs ! j))) - 1))"
    using decode_rows_from_ok [of ?rs ?m 0] by auto
  have n: "rows ! j = decode_row_new j (?rs ! j) 0
      (length (rr_prompt_tokens (the (map_of ?m (?rs ! j)))) + (rr_generated_tokens (the (map_of ?m (?rs ! j))) - 1))" if "j < length ?rs" for j
    using rows(3) that id [of "?rs ! j"] nth_mem [OF that] by simp
  have "decode_rows_ok ?m rows"
    unfolding decode_rows_ok_def
  proof (intro conjI ballI)
    show "map dr_req_id rows = ?rs" by (rule nth_equalityI) (use rows(2) n in \<open>simp_all add: decode_row_new_def\<close>)
    show "map dr_row_index rows = [0..<length ?m]" by (rule nth_equalityI) (use rows(2) n in \<open>simp_all add: decode_row_new_def\<close>)
    fix x assume "x \<in> set rows"
    then obtain j where j: "j < length ?rs" "x = rows ! j" using rows(2) by (metis in_set_conv_nth)
    then show "\<exists>q. map_of ?m (dr_req_id x) = Some q \<and> dr_logical_kv_offset x = length (rr_prompt_tokens q) + (rr_generated_tokens q - 1)"
      using n [OF j(1)] id [OF nth_mem [OF j(1)]] by (auto simp: decode_row_new_def)
  qed
  then show ?thesis using rows(1) by (simp add: build_decode_rows_def)
qed

text \<open>
  What a step does: preempt, list every running request for decoding, and, when nothing was
  preempted and the token budget is not used up, offer the rest of the budget to one prefill chunk.
\<close>

definition step_ok :: "batch_scheduler \<Rightarrow> request_id list \<Rightarrow> batch_scheduler \<Rightarrow> serve_plan \<Rightarrow> batch_scheduler \<Rightarrow> bool" where
  "step_ok s vs s1 plan s' \<longleftrightarrow> ensure_decode_memory s = Some (vs \<noteq> [], s1) \<and> victims_ok s vs s1 \<and> decode_rows_ok (bs_running s1) (sv_decode_rows plan) \<and>
     sv_batch_shape plan = from_rows (sv_decode_rows plan) (sv_prefill_rows plan) \<and>
     (if vs = [] \<and> length (bs_running s1) < max_tokens_per_step (bs_config s)
      then \<exists>row. try_admit_prefill_chunk (max_tokens_per_step (bs_config s) - length (bs_running s1)) (length (bs_running s1)) s1 = Some (row, s') \<and>
             sv_prefill_rows plan = (case row of None \<Rightarrow> [] | Some r \<Rightarrow> [r])
      else sv_prefill_rows plan = [] \<and> s' = s1)"

lemma schedule_step_ok:
  assumes i: "bs_inv ex G s"
  shows "\<exists>plan s' s1 vs. schedule_step s = Some (plan, s') \<and> bs_inv ex G s' \<and> bs_inv ex G s1 \<and> step_ok s vs s1 plan s' \<and>
    (vs = [] \<longrightarrow> s1 = s) \<and> bm_block_size (bs_pool s1) = bm_block_size (bs_pool s) \<and>
    bm_block_size (bs_pool s') = bm_block_size (bs_pool s) \<and> bs_config s' = bs_config s \<and> bs_config s1 = bs_config s"
proof -
  obtain s1 vs where e: "ensure_loop False s = Some (False \<or> vs \<noteq> [], s1)" "bs_inv ex G s1" "victims_ok s vs s1"
    "vs = [] \<longrightarrow> s1 = s" "bm_block_size (bs_pool s1) = bm_block_size (bs_pool s)" "bs_config s1 = bs_config s"
    using ensure_loop_ok [OF i, of False] by blast
  have e0: "ensure_decode_memory s = Some (vs \<noteq> [], s1)" using e(1) by (simp add: ensure_decode_memory_def)
  obtain rows where rows: "build_decode_rows s1 = Some rows" "decode_rows_ok (bs_running s1) rows"
    using build_decode_rows_ok [OF e(2)] by blast
  have len: "length rows = length (bs_running s1)"
    using rows(2) unfolding decode_rows_ok_def by (metis length_map length_sort)
  have rows': "(if bs_running s1 \<noteq> [] then build_decode_rows s1 else Some []) = Some rows" using rows(1) len by auto
  let ?b = "max_tokens_per_step (bs_config s1) - length (bs_running s1)"
  have shape: "sv_batch_shape plan_idle = from_rows [] []" "sv_batch_shape (plan_new ds ps) = from_rows ds ps" for ds ps
    by (simp_all add: plan_idle_def plan_new_def shape_default_def from_rows_def)
  have unf: "schedule_step s =
     (if bs_running s1 = [] \<and> bs_waiting s1 = [] then Some (plan_idle, s1)
      else if vs = [] \<and> bs_waiting s1 \<noteq> [] \<and> 0 < ?b
      then do { (row, s2) \<leftarrow> try_admit_prefill_chunk ?b (length rows) s1;
                Some (plan_new rows (case row of None \<Rightarrow> [] | Some r \<Rightarrow> [r]), s2) }
      else Some (plan_new rows [], s1))"
    using e(1) by (simp add: schedule_step_def ensure_decode_memory_def Let_def rows' del: not_None_eq cong: if_cong)
  obtain row s2 where t: "try_admit_prefill_chunk ?b (length rows) s1 = Some (row, s2)" "bs_inv ex G s2"
    "bm_block_size (bs_pool s2) = bm_block_size (bs_pool s1)" "bs_config s2 = bs_config s1"
    using try_admit_ok [OF e(2), of ?b "length rows"] by blast
  have nil: "row = None \<and> s2 = s1" if "bs_waiting s1 = []" using t(1) that by (simp add: try_admit_prefill_chunk_def)
  show ?thesis
  proof (cases "vs = [] \<and> 0 < ?b")
    case True
    have "schedule_step s = Some (plan_new rows (case row of None \<Rightarrow> [] | Some r \<Rightarrow> [r]), s2)" if "bs_running s1 \<noteq> [] \<or> bs_waiting s1 \<noteq> []"
      using that True t nil unf by (cases "bs_waiting s1 = []") simp_all
    moreover have "schedule_step s = Some (plan_idle, s2)" if "bs_running s1 = []" "bs_waiting s1 = []"
      using that nil unf by simp
    moreover have "step_ok s vs s1 (plan_new rows (case row of None \<Rightarrow> [] | Some r \<Rightarrow> [r])) s2"
      using True e0 e rows t len by (auto simp: step_ok_def shape)
    moreover have "step_ok s vs s1 plan_idle s2" if "bs_running s1 = []" "bs_waiting s1 = []"
      using that True e0 e rows t nil len by (auto simp: step_ok_def decode_rows_ok_def shape)
    ultimately show ?thesis using e t by metis
  next
    case False
    then have "schedule_step s = Some (if bs_running s1 = [] \<and> bs_waiting s1 = [] then plan_idle else plan_new rows [], s1)"
      using unf by auto
    moreover have "step_ok s vs s1 (if bs_running s1 = [] \<and> bs_waiting s1 = [] then plan_idle else plan_new rows []) s1"
      using False e0 e rows len by (auto simp: step_ok_def shape)
    ultimately show ?thesis using e by metis
  qed
qed

subsection \<open>Reachable states\<close>

text \<open>
  Every interleaving of the public operations. With \<open>clean\<close>, nobody finishes a request that is
  waiting with blocks of earlier chunks.
\<close>

inductive bs_step :: "bool \<Rightarrow> batch_scheduler \<Rightarrow> batch_scheduler \<Rightarrow> bool" for clean where
  submit: "bs_step clean s (snd (add_request prompt mx prio s))"
| advance: "advance_decode r s = Some (ok, s') \<Longrightarrow> bs_step clean s s'"
| finish: "(clean \<Longrightarrow> \<not> holds_while_waiting r s) \<Longrightarrow> finish_request r s = Some s' \<Longrightarrow> bs_step clean s s'"
| schedule: "schedule_step s = Some (plan, s') \<Longrightarrow> bs_step clean s s'"

inductive bs_reachable :: "bool \<Rightarrow> nat \<Rightarrow> nat \<Rightarrow> nat \<Rightarrow> batch_config \<Rightarrow> batch_scheduler \<Rightarrow> bool" for clean g c k cfg where
  start: "bm_new g c k = Some m \<Longrightarrow> bs_reachable clean g c k cfg (batch_new cfg m)"
| step: "bs_reachable clean g c k cfg s \<Longrightarrow> bs_step clean s s' \<Longrightarrow> bs_reachable clean g c k cfg s'"

lemma bs_inv_weaken: "bs_inv ex G s \<Longrightarrow> (ex' \<Longrightarrow> ex) \<Longrightarrow> bs_inv ex' G s"
  by (simp add: bs_inv_def book_def)

lemma add_request_config [simp]: "bs_config (snd (add_request prompt mx prio s)) = bs_config s"
  by (simp add: add_request_def Let_def)

lemma advance_decode_config: "advance_decode r s = Some (ok, s') \<Longrightarrow> bs_config s' = bs_config s"
  by (auto simp: advance_decode_def Let_def split: option.splits if_splits Option.bind_splits sum.splits)

lemma finish_request_config: "finish_request r s = Some s' \<Longrightarrow> bs_config s' = bs_config s"
  by (auto simp: finish_request_def split: option.splits Option.bind_splits)

lemma bs_step_inv:
  assumes "bs_step clean s s'" and "bs_inv clean G s"
  shows "bs_inv clean G s' \<and> bm_block_size (bs_pool s') = bm_block_size (bs_pool s) \<and> bs_config s' = bs_config s"
  using assms
proof (cases rule: bs_step.cases)
  case (submit prompt mx prio)
  then show ?thesis using add_request_inv [OF assms(2), of prompt mx prio] by simp
next
  case (advance r ok)
  then show ?thesis using advance_decode_inv [OF assms(2), of r] advance_decode_config by (metis option.inject prod.inject)
next
  case (finish r)
  obtain s1 where "finish_request r s = Some s1" "bs_inv (clean \<and> \<not> holds_while_waiting r s) G s1"
    "bm_block_size (bs_pool s1) = bm_block_size (bs_pool s)" by (rule finish_request_inv [OF assms(2)])
  then show ?thesis using finish finish_request_config bs_inv_weaken [of "clean \<and> \<not> holds_while_waiting r s" G s1 clean] by auto
next
  case (schedule plan)
  then show ?thesis using schedule_step_ok [OF assms(2)] by auto
qed

lemma bs_reachable_inv:
  assumes "bs_reachable clean g c k cfg s"
  shows "\<exists>G. card G = g \<and> bs_inv clean G s \<and> bm_block_size (bs_pool s) = k \<and> bs_config s = cfg \<and> 0 < k"
  using assms
proof (induction rule: bs_reachable.induct)
  case (start m)
  note m = bm_new_wf [OF start]
  have "bm_reachable g c k m" using start by (rule bm_reachable.start)
  then have "card {b. side_of m b = Some LGpu} = g" using bm_reachable_total total_as_card(1) m by metis
  moreover have "0 < k" using start by (auto simp: bm_new_def split: if_splits)
  ultimately show ?case using batch_new_inv [of m cfg] m bs_inv_weaken [of True "{b. side_of m b = Some LGpu}" "batch_new cfg m" clean]
    by (intro exI [of _ "{b. side_of m b = Some LGpu}"]) (simp add: batch_new_def)
next
  case (step s s')
  then obtain G where G: "card G = g" "bs_inv clean G s" "bm_block_size (bs_pool s) = k" "bs_config s = cfg" "0 < k" by blast
  with bs_step_inv [OF step.hyps(2) G(2)] show ?case by auto
qed

lemma only_count: "(c :: nat) \<le> (if P \<and> r = 1 then 1 else 0) \<Longrightarrow> (P \<Longrightarrow> r = c) \<Longrightarrow> d = (if P \<and> 0 < r then 1 else 0) \<Longrightarrow> c = d"
  by (cases P; cases "r = 1") auto

lemma held_size:
  assumes "book True G m H"
  shows "free_gpu_blocks m + size H = card G"
proof -
  note b = assms [unfolded book_def]
  have "H = mset_set {b. side_of m b = Some LGpu \<and> 0 < ref_count m b}"
  proof (rule multiset_eqI)
    fix x
    have "count H x \<le> (if side_of m x = Some LGpu \<and> ref_count m x = 1 then 1 else 0)" using b by (simp add: owns_def)
    moreover have "side_of m x = Some LGpu \<Longrightarrow> ref_count m x = count H x" using b by (simp add: exact_def)
    moreover have "count (mset_set {b. side_of m b = Some LGpu \<and> 0 < ref_count m b}) x =
        (if side_of m x = Some LGpu \<and> 0 < ref_count m x then 1 else 0)"
      by (simp add: count_mset_set' finite_side)
    ultimately show "count H x = count (mset_set {b. side_of m b = Some LGpu \<and> 0 < ref_count m b}) x"
      by (rule only_count)
  qed
  then have "size H = card {b. side_of m b = Some LGpu \<and> 0 < ref_count m b}" by simp
  then show ?thesis using total_split [of m] total_as_card(1) [of m] b by simp
qed

subsection \<open>Reserved decode memory\<close>

fun advance_all :: "request_id list \<Rightarrow> batch_scheduler \<Rightarrow> (bool list \<times> batch_scheduler) option" where
  "advance_all [] s = Some ([], s)"
| "advance_all (r # rs) s =
     do { (ok, s1) \<leftarrow> advance_decode r s; (oks, s2) \<leftarrow> advance_all rs s1; Some (ok # oks, s2) }"

lemma advance_decode_enough:
  assumes i: "bs_inv ex G s" and q: "map_of (bs_running s) r = Some q" and le: "blocks_to_advance (bs_pool s) q \<le> free_gpu_blocks (bs_pool s)"
  shows "\<exists>s'. advance_decode r s = Some (True, s') \<and>
    free_gpu_blocks (bs_pool s') = free_gpu_blocks (bs_pool s) - blocks_to_advance (bs_pool s) q \<and>
    (\<forall>k. k \<noteq> r \<longrightarrow> map_of (bs_running s') k = map_of (bs_running s) k)"
proof (cases "blocks_to_advance (bs_pool s) q = 0")
  case True
  then show ?thesis using q by (simp add: advance_decode_def Let_def blocks_to_advance_def)
next
  case False
  note b = bs_invD(1) [OF i]
  from b show ?thesis
  proof (cases rule: book_alloc_total [of ex G _ _ "blocks_to_advance (bs_pool s) q"])
    case (1 ids m')
    then show ?thesis using False q book_alloc(4) [OF b 1(1)]
      by (auto simp: advance_decode_def Let_def blocks_to_advance_def)
  next
    case (2 e)
    then show ?thesis using le by simp
  qed
qed

lemma advance_all_ok:
  assumes "bs_inv ex G s" and "distinct rs" and "set rs \<subseteq> set (map fst (bs_running s))"
    and "sum_list (map (\<lambda>r. blocks_to_advance (bs_pool s) (the (map_of (bs_running s) r))) rs) \<le> free_gpu_blocks (bs_pool s)"
  shows "\<exists>s'. advance_all rs s = Some (replicate (length rs) True, s') \<and> bs_inv ex G s'"
  using assms
proof (induction rs arbitrary: s)
  case (Cons r rs)
  obtain q where q: "map_of (bs_running s) r = Some q"
    using Cons.prems(3) by (metis insert_subset list.set(2) map_of_eq_None_iff not_None_eq set_map)
  obtain s1 where s1: "advance_decode r s = Some (True, s1)"
    "free_gpu_blocks (bs_pool s1) = free_gpu_blocks (bs_pool s) - blocks_to_advance (bs_pool s) q"
    "\<forall>k. k \<noteq> r \<longrightarrow> map_of (bs_running s1) k = map_of (bs_running s) k"
    using advance_decode_enough [OF Cons.prems(1) q] Cons.prems(4) q by auto
  have i1: "bs_inv ex G s1" and k1: "bm_block_size (bs_pool s1) = bm_block_size (bs_pool s)"
    using advance_decode_inv [OF Cons.prems(1), of r] s1(1) by (metis option.inject prod.inject)+
  have ne: "x \<noteq> r" if "x \<in> set rs" for x using that Cons.prems(2) by auto
  have "map (\<lambda>r. blocks_to_advance (bs_pool s1) (the (map_of (bs_running s1) r))) rs =
      map (\<lambda>r. blocks_to_advance (bs_pool s) (the (map_of (bs_running s) r))) rs"
    using s1(3) ne blocks_for_tokens_size [OF k1] by (auto simp: blocks_to_advance_def)
  then have "sum_list (map (\<lambda>r. blocks_to_advance (bs_pool s1) (the (map_of (bs_running s1) r))) rs) \<le> free_gpu_blocks (bs_pool s1)"
    using Cons.prems(4) q s1(2) by (simp only: list.map sum_list.Cons option.sel)
  moreover have "set rs \<subseteq> set (map fst (bs_running s1))"
  proof
    fix x assume x: "x \<in> set rs"
    then have "map_of (bs_running s) x \<noteq> None" using Cons.prems(3) by (auto simp: map_of_eq_None_iff)
    then have "map_of (bs_running s1) x \<noteq> None" using s1(3) ne [OF x] by simp
    then show "x \<in> set (map fst (bs_running s1))" by (simp add: map_of_eq_None_iff)
  qed
  ultimately obtain s' where "advance_all rs s1 = Some (replicate (length rs) True, s')" "bs_inv ex G s'"
    using Cons.IH [OF i1] Cons.prems(2) by auto
  then show ?case using s1(1) by simp
qed simp


subsection \<open>A small instance\<close>

definition demo_cfg :: batch_config where
  "demo_cfg = \<lparr>max_tokens_per_step = 8, prefill_chunk_size = 4, chunking_policy = \<lparr>decode_active_chunk = 4, idle_chunk = 4\<rparr>\<rparr>"

text \<open>Two blocks of four tokens; request 0 (four tokens) is prefilled, request 1 (eight tokens) waits.\<close>

definition demo_start :: batch_scheduler where
  "demo_start = batch_new demo_cfg (the (bm_new 2 0 4))"

definition demo_running :: batch_scheduler where
  "demo_running = snd (the (schedule_step (snd (add_request [1, 2, 3, 4] 8 Normal demo_start))))"

definition demo_two :: batch_scheduler where
  "demo_two = snd (add_request [5, 6, 7, 8, 9, 10, 11, 12] 8 Normal demo_running)"

definition demo_half :: batch_scheduler where
  "demo_half = snd (the (schedule_step (snd (add_request [5, 6, 7, 8, 9, 10, 11, 12] 8 Normal demo_start))))"

lemma demo_sched_some:
  "schedule_step (snd (add_request [1, 2, 3, 4] 8 Normal demo_start)) \<noteq> None"
  "schedule_step (snd (add_request [5, 6, 7, 8, 9, 10, 11, 12] 8 Normal demo_start)) \<noteq> None"
  by code_simp+

lemma demo_reachable: "bs_reachable clean 2 0 4 demo_cfg demo_start"
  "bs_reachable clean 2 0 4 demo_cfg demo_running" "bs_reachable clean 2 0 4 demo_cfg demo_two"
  "bs_reachable clean 2 0 4 demo_cfg demo_half"
proof -
  have "bm_new 2 0 4 = Some (the (bm_new 2 0 4))" by code_simp
  then show d0: "bs_reachable clean 2 0 4 demo_cfg demo_start" unfolding demo_start_def by (rule bs_reachable.start)
  have sub: "bs_reachable clean 2 0 4 demo_cfg s \<Longrightarrow> bs_reachable clean 2 0 4 demo_cfg (snd (add_request p mx pr s))" for s p mx pr
    by (rule bs_reachable.step) (auto intro: bs_step.submit)
  have sch: "bs_reachable clean 2 0 4 demo_cfg s \<Longrightarrow> schedule_step s \<noteq> None \<Longrightarrow> bs_reachable clean 2 0 4 demo_cfg (snd (the (schedule_step s)))" for s
    by (rule bs_reachable.step) (auto intro: bs_step.schedule [of s "fst (the (schedule_step s))"])
  show d1: "bs_reachable clean 2 0 4 demo_cfg demo_running" unfolding demo_running_def by (intro sch sub d0 demo_sched_some)
  show "bs_reachable clean 2 0 4 demo_cfg demo_two" unfolding demo_two_def by (intro sub d1)
  show "bs_reachable clean 2 0 4 demo_cfg demo_half" unfolding demo_half_def by (intro sch sub d0 demo_sched_some)
qed

lemma demo_facts:
  "map_option (\<lambda>r. (fst r, map fst (bs_running (snd r)))) (ensure_decode_memory demo_two) = Some (False, [0])"
  "map_option (\<lambda>r. map token_count (sv_prefill_rows (fst r))) (schedule_step demo_two) = Some [4]"
  "free_gpu_blocks (bs_pool demo_half) = 1" "holds_while_waiting 0 demo_half"
  by code_simp+

subsection \<open>Properties\<close>


text \<open>
  (C4) One owner per block: in every reachable state no block is held twice, by waiting or running
  requests, and a held block is a GPU block with one reference that is not on the free list.
\<close>

theorem batch_blocks_have_one_owner:
  assumes "bs_reachable clean g c k cfg s"
  shows "\<forall>b. count (held s) b \<le> 1 \<and> (b \<in># held s \<longrightarrow>
     side_of (bs_pool s) b = Some LGpu \<and> ref_count (bs_pool s) b = 1 \<and> b \<notin> set (bm_free_gpu (bs_pool s)))"
proof -
  obtain G where "bs_inv clean G s" using bs_reachable_inv [OF assms] by blast
  note b = bs_invD(1) [OF this, unfolded book_def]
  show ?thesis
  proof (intro allI conjI impI)
    fix x
    show "count (held s) x \<le> 1"
    proof (cases "x \<in># held s")
      case True
      then show ?thesis using owns_mem [of _ _ "held s" x] b by fastforce
    qed (simp add: not_in_iff)
    assume x: "x \<in># held s"
    then show r: "side_of (bs_pool s) x = Some LGpu" "ref_count (bs_pool s) x = 1" using owns_mem [of _ _ "held s" x] b by blast+
    show "x \<notin> set (bm_free_gpu (bs_pool s))"
    proof
      assume "x \<in> set (bm_free_gpu (bs_pool s))"
      then have "ref_count (bs_pool s) x = 0" using b by (auto simp: bm_wf_alt bm_view_def ref_count_def)
      with r(2) show False by simp
    qed
  qed
qed

theorem batch_blocks_have_one_owner_witness:
  "count (held demo_two) 0 \<le> 1"
  using batch_blocks_have_one_owner [OF demo_reachable(3) [of True]] by blast

text \<open>
  (C36) No block is lost as long as nobody finishes a request that waits between two prefill chunks:
  free blocks and held blocks add up to the size of the pool.
\<close>

theorem batch_conserves_blocks:
  assumes "bs_reachable True g c k cfg s"
  shows "free_gpu_blocks (bs_pool s) + size (held s) = g"
  using bs_reachable_inv [OF assms] held_size bs_invD(1) by metis

theorem batch_conserves_blocks_witness:
  "free_gpu_blocks (bs_pool demo_half) + size (held demo_half) = 2"
  using batch_conserves_blocks [OF demo_reachable(4)] .

text \<open>
  A leak: finishing (cancelling) a request that waits between two prefill chunks removes it
  without returning its blocks. The pool of two blocks keeps one for ever, and nobody holds it.
\<close>

theorem finish_request_leaks_blocks:
  "bs_reachable False 2 0 4 demo_cfg demo_half \<and> is_waiting demo_half 0 \<and>
   (case finish_request 0 demo_half of None \<Rightarrow> False
    | Some s \<Rightarrow> bs_waiting s = [] \<and> bs_running s = [] \<and> free_gpu_blocks (bs_pool s) = 1)"
proof -
  have "is_waiting demo_half 0 \<and>
   (case finish_request 0 demo_half of None \<Rightarrow> False
    | Some s \<Rightarrow> bs_waiting s = [] \<and> bs_running s = [] \<and> free_gpu_blocks (bs_pool s) = 1)" by code_simp
  then show ?thesis using demo_reachable(4) by blast
qed

text \<open>
  (C37) Preemption: the loop ends with enough free blocks for every remaining request to decode one
  more token. It preempts the newest requests only, in descending order, each goes back to the
  front of the queue with no progress and no blocks, and the last one was needed.
\<close>

theorem preemption_is_newest_first_and_minimal:
  assumes "bs_reachable clean g c k cfg s"
  shows "\<exists>vs s'. ensure_decode_memory s = Some (vs \<noteq> [], s') \<and>
     new_blocks_needed s' \<le> free_gpu_blocks (bs_pool s') \<and> sorted_wrt (>) vs \<and>
     set vs \<subseteq> set (map fst (bs_running s)) \<and> bs_running s' = filter (\<lambda>e. fst e \<notin> set vs) (bs_running s) \<and>
     (\<forall>v\<in>set vs. \<forall>r\<in>set (map fst (bs_running s')). r < v) \<and>
     bs_waiting s' = map (\<lambda>v. requeued v (the (map_of (bs_running s) v))) (rev vs) @ bs_waiting s \<and>
     (vs \<noteq> [] \<longrightarrow> free_gpu_blocks (bs_pool s') - length (rr_blocks (the (map_of (bs_running s) (last vs)))) <
        new_blocks_needed s' + blocks_to_advance (bs_pool s') (the (map_of (bs_running s) (last vs))))"
proof -
  obtain G where "bs_inv clean G s" using bs_reachable_inv [OF assms] by blast
  from ensure_loop_ok [OF this, of False] obtain s' vs where
    "ensure_loop False s = Some (vs \<noteq> [], s')" "victims_ok s vs s'" by auto
  then show ?thesis unfolding ensure_decode_memory_def victims_ok_def by blast
qed

theorem preemption_is_newest_first_and_minimal_witness:
  "\<exists>(vs :: request_id list) s'. ensure_decode_memory demo_two = Some (vs \<noteq> [], s') \<and> new_blocks_needed s' \<le> free_gpu_blocks (bs_pool s')"
  using preemption_is_newest_first_and_minimal [OF demo_reachable(3) [of True]]
proof (elim exE conjE, goal_cases)
  case (1 vs s')
  from 1(1,2) show ?case by blast
qed

text \<open>
  (C15) Decode memory is reserved: right after the preemption loop every running request can take
  its next token, in any order, and no allocation fails.
\<close>

theorem decode_memory_is_reserved:
  assumes "bs_reachable clean g c k cfg s" and "ensure_decode_memory s = Some (p, s1)"
    and "mset rs = mset (map fst (bs_running s1))"
  shows "\<exists>s2. advance_all rs s1 = Some (replicate (length rs) True, s2)"
proof -
  obtain G where i: "bs_inv clean G s" using bs_reachable_inv [OF assms(1)] by blast
  obtain vs where i1: "bs_inv clean G s1" and v: "victims_ok s vs s1"
    using ensure_loop_ok [OF i, of False] assms(2) unfolding ensure_decode_memory_def by auto
  have d: "distinct rs" using bs_invD(3) [OF i1] assms(3) mset_eq_imp_distinct_iff by blast
  have set: "set rs = set (map fst (bs_running s1))" using assms(3) by (rule mset_eq_setD)
  let ?f = "\<lambda>r. blocks_to_advance (bs_pool s1) (the (map_of (bs_running s1) r))"
  have "sum_list (map ?f rs) = sum_list (map ?f (map fst (bs_running s1)))"
    by (simp only: sum_mset_sum_list [symmetric] mset_map [of ?f] assms(3))
  also have "\<dots> = new_blocks_needed s1"
    using bs_invD(3) [OF i1] by (auto simp: new_blocks_needed_def intro!: arg_cong [of _ _ sum_list])
  also have "\<dots> \<le> free_gpu_blocks (bs_pool s1)" using v by (simp add: victims_ok_def)
  finally show ?thesis using advance_all_ok [OF i1 d] set by auto
qed

theorem decode_memory_is_reserved_witness:
  "\<exists>s2. advance_all [0] (snd (the (ensure_decode_memory demo_two))) = Some ([True], s2)"
proof -
  obtain p s1 where e: "ensure_decode_memory demo_two = Some (p, s1)" "map fst (bs_running s1) = [0]" using demo_facts(1) by auto
  have "mset [0] = mset (map fst (bs_running s1))" using e(2) by simp
  from decode_memory_is_reserved [OF demo_reachable(3) [of True] e(1) this] e(1) show ?thesis by auto
qed

text \<open>
  The reservation does not survive the step that makes it: after preemption found enough memory
  for request 0, the same \<open>schedule_step\<close> gives its block to a prefill chunk of request 1. Request 0 is
  in the plan, but \<open>advance_decode\<close> fails for it, with its token counters already incremented.
\<close>

theorem prefill_takes_reserved_blocks:
  "bs_reachable True 2 0 4 demo_cfg demo_two \<and>
   (case ensure_decode_memory demo_two of None \<Rightarrow> False
    | Some (p, s) \<Rightarrow> new_blocks_needed s = 1 \<and> free_gpu_blocks (bs_pool s) = 1) \<and>
   (case schedule_step demo_two of None \<Rightarrow> False
    | Some (plan, s) \<Rightarrow> map dr_req_id (sv_decode_rows plan) = [0] \<and> map pr_req_id (sv_prefill_rows plan) = [1] \<and>
       (case advance_decode 0 s of None \<Rightarrow> False
        | Some (ok, s') \<Rightarrow> \<not> ok \<and> map (\<lambda>e. (rr_kv_tokens (snd e), length (rr_blocks (snd e)))) (bs_running s') = [(5, 1)]))"
proof -
  have "(case ensure_decode_memory demo_two of None \<Rightarrow> False
    | Some (p, s) \<Rightarrow> new_blocks_needed s = 1 \<and> free_gpu_blocks (bs_pool s) = 1)" by code_simp
  moreover have "(case schedule_step demo_two of None \<Rightarrow> False
    | Some (plan, s) \<Rightarrow> map dr_req_id (sv_decode_rows plan) = [0] \<and> map pr_req_id (sv_prefill_rows plan) = [1] \<and>
       (case advance_decode 0 s of None \<Rightarrow> False
        | Some (ok, s') \<Rightarrow> \<not> ok \<and> map (\<lambda>e. (rr_kv_tokens (snd e), length (rr_blocks (snd e)))) (bs_running s') = [(5, 1)]))"
    by code_simp
  ultimately show ?thesis using demo_reachable(3) by blast
qed


lemma chunk_size_bounds:
  "chunk_size budget s p \<le> budget" "chunk_size budget s p \<le> prefill_chunk_size (bs_config s)"
  "pq_prefill_progress p \<le> length (pq_prompt_tokens p) \<Longrightarrow> pq_prefill_progress p + chunk_size budget s p \<le> length (pq_prompt_tokens p)"
  by (auto simp: chunk_size_def prefill_chunk_budget_def)

lemma chunk_row_simps [simp]:
  "pr_req_id (chunk_row i p c) = pq_req_id p" "pr_row_index (chunk_row i p c) = i"
  "pr_prompt_start (chunk_row i p c) = pq_prefill_progress p" "pr_prompt_end (chunk_row i p c) = pq_prefill_progress p + c"
  "pr_input_tokens (chunk_row i p c) = take c (drop (pq_prefill_progress p) (pq_prompt_tokens p))"
  "pr_prompt_len (chunk_row i p c) = length (pq_prompt_tokens p)"
  by (simp_all add: chunk_row_def prefill_row_new_def with_logical_kv_span_def)

text \<open>A row in the plan comes from the head of the queue of a step that preempted nobody.\<close>

lemma prefill_row_of_step:
  assumes i: "bs_inv ex G s" and st: "step_ok s vs s1 plan s'" "vs = [] \<longrightarrow> s1 = s" and row: "row \<in> set (sv_prefill_rows plan)"
  obtains p rest c got where "vs = []" "s1 = s" "sv_prefill_rows plan = [row]" "bs_waiting s = p # rest" "row = chunk_row (length (bs_running s)) p c"
    "0 < c" "length (bs_running s) + c \<le> max_tokens_per_step (bs_config s)" "c \<le> prefill_chunk_size (bs_config s)"
    "pq_prefill_progress p + c \<le> length (pq_prompt_tokens p)" "admitted s p rest c got s'"
    "length (pq_allocated_blocks p) + length got = div_ceil (pq_prefill_progress p + c) (bm_block_size (bs_pool s))"
proof -
  have c1: "vs = [] \<and> length (bs_running s1) < max_tokens_per_step (bs_config s)"
    using st(1) row unfolding step_ok_def by (metis empty_iff list.set(1))
  then have s1: "vs = []" "s1 = s" and lt: "length (bs_running s) < max_tokens_per_step (bs_config s)" using st(2) by auto
  let ?b = "max_tokens_per_step (bs_config s) - length (bs_running s)"
  obtain r where t: "try_admit_prefill_chunk ?b (length (bs_running s)) s = Some (r, s')"
    "sv_prefill_rows plan = (case r of None \<Rightarrow> [] | Some r \<Rightarrow> [r])"
    using st(1) lt unfolding step_ok_def s1 by auto
  then have r: "r = Some row" using row by (cases r) auto
  note ta = try_admit_ok [OF i, of ?b "length (bs_running s)", unfolded t(1)]
  have "bs_waiting s \<noteq> []" using ta r by auto
  then obtain p rest where w: "bs_waiting s = p # rest" by (cases "bs_waiting s") auto
  let ?c = "chunk_size ?b s p"
  have ta': "\<not> length (pq_prompt_tokens p) \<le> pq_prefill_progress p \<and> 0 < ?c \<and> row = chunk_row (length (bs_running s)) p ?c \<and>
     (\<exists>got. admitted s p rest ?c got s' \<and> length got = chunk_blocks ?b s p)"
    using ta r w by (auto split: if_splits)
  then obtain got where got: "admitted s p rest ?c got s'" "length got = chunk_blocks ?b s p" by blast
  have ok: "pending_ok (bm_block_size (bs_pool s)) p" using bs_invD(6) [OF i] w by simp
  have k0: "0 < bm_block_size (bs_pool s)" using book_wf [OF bs_invD(1) [OF i]] by (simp add: bm_wf_alt)
  have len: "length (pq_allocated_blocks p) + length got = div_ceil (pq_prefill_progress p + ?c) (bm_block_size (bs_pool s))"
    using ok div_ceil_mono [OF k0, of "pq_prefill_progress p" "pq_prefill_progress p + ?c"] got(2)
    by (simp add: pending_ok_def chunk_blocks_def)
  show thesis
    by (rule that [OF s1 _ w _ _ _ _ _ got(1) len])
      (use t(2) r ta' chunk_size_bounds(1,2) [of ?b s p] chunk_size_bounds(3) [of p ?b s] lt in auto)
qed

text \<open>
  (C29) A step of the schedule never panics and stays in its budget: one decode row per running
  request, in id order and numbered from 0, at most one prefill row after them with at most
  \<open>prefill_chunk_size\<close> tokens, and together no more tokens than \<open>max_tokens_per_step\<close> unless the decode
  rows alone exceed it. A step that preempts prefills nothing.
\<close>

theorem schedule_step_within_budget:
  assumes "bs_reachable clean g c k cfg s"
  shows "\<exists>plan s' s1 p. schedule_step s = Some (plan, s') \<and> ensure_decode_memory s = Some (p, s1) \<and>
     map dr_req_id (sv_decode_rows plan) = sort (map fst (bs_running s1)) \<and>
     map dr_row_index (sv_decode_rows plan) = [0..<length (bs_running s1)] \<and>
     length (sv_prefill_rows plan) \<le> (if p then 0 else 1) \<and>
     (\<forall>row\<in>set (sv_prefill_rows plan). pr_row_index row = length (bs_running s1) \<and> 0 < token_count row \<and>
        token_count row \<le> prefill_chunk_size cfg) \<and>
     sh_scheduled_tokens (sv_batch_shape plan) \<le> max (max_tokens_per_step cfg) (length (sv_decode_rows plan))"
proof -
  obtain G where i: "bs_inv clean G s" and cfg: "bs_config s = cfg" using bs_reachable_inv [OF assms] by blast
  obtain plan s' s1 vs where sch: "schedule_step s = Some (plan, s')" and st: "step_ok s vs s1 plan s'" "vs = [] \<longrightarrow> s1 = s"
    using schedule_step_ok [OF i] by blast
  have e: "ensure_decode_memory s = Some (vs \<noteq> [], s1)" and d: "decode_rows_ok (bs_running s1) (sv_decode_rows plan)"
    and sh: "sv_batch_shape plan = from_rows (sv_decode_rows plan) (sv_prefill_rows plan)" using st(1) unfolding step_ok_def by blast+
  have n: "length (sv_decode_rows plan) = length (bs_running s1)"
    using d unfolding decode_rows_ok_def by (metis length_map length_sort)
  note tokens = sh [unfolded from_rows_def Let_def]
  show ?thesis
  proof (cases "sv_prefill_rows plan")
    case Nil
    then show ?thesis using sch e d tokens unfolding decode_rows_ok_def by auto
  next
    case (Cons row rows)
    then have "row \<in> set (sv_prefill_rows plan)" by simp
    then show ?thesis
    proof (rule prefill_row_of_step [OF i st])
      fix p rest c got
      assume a: "vs = []" "s1 = s" "sv_prefill_rows plan = [row]" "row = chunk_row (length (bs_running s)) p c" "0 < c"
        "length (bs_running s) + c \<le> max_tokens_per_step (bs_config s)" "c \<le> prefill_chunk_size (bs_config s)"
        "pq_prefill_progress p + c \<le> length (pq_prompt_tokens p)"
      have "token_count row = c" using a(4,8) by (simp add: token_count_def)
      then show ?thesis using sch e d n tokens a cfg unfolding decode_rows_ok_def by auto
    qed
  qed
qed

theorem schedule_step_within_budget_witness:
  "\<exists>plan s'. schedule_step demo_two = Some (plan, s') \<and> sh_scheduled_tokens (sv_batch_shape plan) \<le> max 8 (length (sv_decode_rows plan))"
  using schedule_step_within_budget [OF demo_reachable(3) [of True]]
proof (elim exE conjE, goal_cases)
  case (1 plan s' s1 p)
  from 1(1,7) show ?case by (auto simp: demo_cfg_def)
qed

text \<open>
  Chunked prefill: a prefill row of a step continues the head of the queue exactly where its
  last chunk ended. Afterwards the request waits with that progress, or, after its last token, runs
  with all its tokens committed; in both cases it holds the blocks its tokens fill, no more.
\<close>

theorem prefill_row_continues_prompt:
  assumes "bs_reachable clean g c k cfg s" and "schedule_step s = Some (plan, s')" and "row \<in> set (sv_prefill_rows plan)"
  shows "\<exists>p rest n. bs_waiting s = p # rest \<and> 0 < n \<and> pq_prefill_progress p + n \<le> length (pq_prompt_tokens p) \<and>
     pr_req_id row = pq_req_id p \<and> pr_prompt_start row = pq_prefill_progress p \<and> pr_prompt_end row = pq_prefill_progress p + n \<and>
     pr_input_tokens row = take n (drop (pq_prefill_progress p) (pq_prompt_tokens p)) \<and>
     (if pr_prompt_end row = length (pq_prompt_tokens p)
      then bs_waiting s' = rest \<and> (\<exists>q. bs_running s' = bs_running s @ [(pq_req_id p, q)] \<and> rr_prompt_tokens q = pq_prompt_tokens p \<and>
             rr_kv_tokens q = length (pq_prompt_tokens p) \<and> rr_generated_tokens q = 0 \<and>
             length (rr_blocks q) = div_ceil (length (pq_prompt_tokens p)) k)
      else bs_running s' = bs_running s \<and> (\<exists>p'. bs_waiting s' = p' # rest \<and> pq_req_id p' = pq_req_id p \<and>
             pq_prompt_tokens p' = pq_prompt_tokens p \<and> pq_prefill_progress p' = pr_prompt_end row \<and>
             length (pq_allocated_blocks p') = div_ceil (pr_prompt_end row) k))"
proof -
  obtain G where i: "bs_inv clean G s" and k: "bm_block_size (bs_pool s) = k" using bs_reachable_inv [OF assms(1)] by blast
  obtain s1 vs where st: "step_ok s vs s1 plan s'" "vs = [] \<longrightarrow> s1 = s"
    using schedule_step_ok [OF i] assms(2) by auto
  show ?thesis
  proof (rule prefill_row_of_step [OF i st assms(3)], goal_cases)
    case (1 p rest n got)
    show ?case
      by (rule exI [of _ p], rule exI [of _ rest], rule exI [of _ n])
        (use 1 k in \<open>auto simp: admitted_def started_def\<close>)
  qed
qed

theorem prefill_row_continues_prompt_witness:
  "\<exists>row. sv_prefill_rows (fst (the (schedule_step demo_two))) = [row] \<and> pr_req_id row = 1 \<and> pr_prompt_start row = 0"
proof -
  have w: "map (\<lambda>p. (pq_req_id p, pq_prefill_progress p)) (bs_waiting demo_two) = [(1, 0)]" by code_simp
  obtain plan s' where e: "schedule_step demo_two = Some (plan, s')" and n: "map token_count (sv_prefill_rows plan) = [4]"
    using demo_facts(2) by auto
  then obtain row where row: "sv_prefill_rows plan = [row]" by auto
  then have "row \<in> set (sv_prefill_rows plan)" by simp
  from prefill_row_continues_prompt [OF demo_reachable(3) [of True] e this] w
  have "pr_req_id row = 1 \<and> pr_prompt_start row = 0" by auto
  then show ?thesis using e row by simp
qed

text \<open>The tokens that \<open>n\<close> steps prefill, in order.\<close>

fun prefill_run :: "nat \<Rightarrow> batch_scheduler \<Rightarrow> (token list \<times> batch_scheduler) option" where
  "prefill_run 0 s = Some ([], s)"
| "prefill_run (Suc n) s =
     do { (plan, s1) \<leftarrow> schedule_step s;
          (toks, s2) \<leftarrow> prefill_run n s1;
          Some (concat (map pr_input_tokens (sv_prefill_rows plan)) @ toks, s2) }"

lemma chunk_size_pos:
  "0 < budget \<Longrightarrow> 0 < prefill_chunk_size (bs_config s) \<Longrightarrow> pq_prefill_progress p < length (pq_prompt_tokens p) \<Longrightarrow>
     0 < chunk_size budget s p"
  by (simp add: chunk_size_def prefill_chunk_budget_def)

lemma lone_prefill_step:
  assumes i: "bs_inv ex G s" and r: "bs_running s = []" and w: "bs_waiting s = [p]"
    and pr: "pq_prefill_progress p < length (pq_prompt_tokens p)"
    and cfg: "0 < max_tokens_per_step (bs_config s)" "0 < prefill_chunk_size (bs_config s)"
    and mem: "div_ceil (length (pq_prompt_tokens p)) (bm_block_size (bs_pool s)) \<le> length (pq_allocated_blocks p) + free_gpu_blocks (bs_pool s)"
  obtains c got plan s' where "schedule_step s = Some (plan, s')" "bs_inv ex G s'" "0 < c"
    "concat (map pr_input_tokens (sv_prefill_rows plan)) = take c (drop (pq_prefill_progress p) (pq_prompt_tokens p))"
    "pq_prefill_progress p + c \<le> length (pq_prompt_tokens p)" "admitted s p [] c got s'"
    "length (pq_allocated_blocks p) + length got = div_ceil (pq_prefill_progress p + c) (bm_block_size (bs_pool s))"
    "free_gpu_blocks (bs_pool s') = free_gpu_blocks (bs_pool s) - length got" "length got \<le> free_gpu_blocks (bs_pool s)"
    "bm_block_size (bs_pool s') = bm_block_size (bs_pool s)" "bs_config s' = bs_config s"
proof -
  obtain plan s' s1 vs where sch: "schedule_step s = Some (plan, s')" "bs_inv ex G s'" "step_ok s vs s1 plan s'" "vs = [] \<longrightarrow> s1 = s"
    "bm_block_size (bs_pool s') = bm_block_size (bs_pool s)" "bs_config s' = bs_config s"
    using schedule_step_ok [OF i] by blast
  have "vs = []" using sch(3) r unfolding step_ok_def victims_ok_def by simp
  then have s1: "vs = []" "s1 = s" using sch(4) by simp_all
  let ?b = "max_tokens_per_step (bs_config s) - 0"
  let ?c = "chunk_size ?b s p" and ?k = "bm_block_size (bs_pool s)"
  obtain row where t: "try_admit_prefill_chunk ?b 0 s = Some (row, s')" "sv_prefill_rows plan = (case row of None \<Rightarrow> [] | Some r \<Rightarrow> [r])"
    using sch(3) cfg(1) r unfolding step_ok_def s1 by auto
  have c: "0 < ?c" using chunk_size_pos [of ?b s p] cfg pr by simp
  have k0: "0 < ?k" using book_wf [OF bs_invD(1) [OF i]] by (simp add: bm_wf_alt)
  have le: "pq_prefill_progress p + ?c \<le> length (pq_prompt_tokens p)" using pr by (intro chunk_size_bounds(3)) simp
  have ok: "pending_ok ?k p" using bs_invD(6) [OF i] w by simp
  have n: "chunk_blocks ?b s p \<le> free_gpu_blocks (bs_pool s)" using div_ceil_mono [OF k0 le] mem by (simp add: chunk_blocks_def)
  have no: "\<not> length (pq_prompt_tokens p) \<le> pq_prefill_progress p" "\<not> (?c = 0 \<or> free_gpu_blocks (bs_pool s) < chunk_blocks ?b s p)"
    using pr c n by simp_all
  from try_admit_ok [OF i, of ?b 0, unfolded t(1) w list.case if_not_P [OF no(1)] if_not_P [OF no(2)]] obtain got where
    g: "row = Some (chunk_row 0 p ?c)" "admitted s p [] ?c got s'" "length got = chunk_blocks ?b s p"
    "free_gpu_blocks (bs_pool s') = free_gpu_blocks (bs_pool s) - chunk_blocks ?b s p"
    by blast
  have "length (pq_allocated_blocks p) + length got = div_ceil (pq_prefill_progress p + ?c) ?k"
    using ok div_ceil_mono [OF k0, of "pq_prefill_progress p" "pq_prefill_progress p + ?c"] g(3)
    by (simp add: pending_ok_def chunk_blocks_def)
  then show thesis
    using that [OF sch(1,2) c _ le g(2) _ _ _ sch(5,6)] g t(2) n by simp
qed

text \<open>
  (C19) Liveness of chunked prefill: a request that waits alone, with room in the pool for its whole
  prompt, is prefilled after at most as many steps as it has tokens left. The chunks of those steps
  are exactly the rest of its prompt, and then it runs, with the blocks its prompt needs.
\<close>

theorem lone_prefill_completes:
  assumes "bs_reachable clean g c k cfg s" and "bs_running s = []" and "bs_waiting s = [p]"
    and "pq_prefill_progress p < length (pq_prompt_tokens p)"
    and "0 < max_tokens_per_step cfg" and "0 < prefill_chunk_size cfg"
    and "div_ceil (length (pq_prompt_tokens p)) k \<le> length (pq_allocated_blocks p) + free_gpu_blocks (bs_pool s)"
  shows "\<exists>n s' q. n \<le> length (pq_prompt_tokens p) - pq_prefill_progress p \<and>
     prefill_run n s = Some (drop (pq_prefill_progress p) (pq_prompt_tokens p), s') \<and>
     bs_waiting s' = [] \<and> bs_running s' = [(pq_req_id p, q)] \<and> rr_prompt_tokens q = pq_prompt_tokens p \<and>
     rr_kv_tokens q = length (pq_prompt_tokens p) \<and> length (rr_blocks q) = div_ceil (length (pq_prompt_tokens p)) k"
proof -
  obtain G where "bs_inv clean G s" "bm_block_size (bs_pool s) = k" "bs_config s = cfg" using bs_reachable_inv [OF assms(1)] by blast
  then show ?thesis
    using assms(2-)
  proof (induction "length (pq_prompt_tokens p) - pq_prefill_progress p" arbitrary: s p rule: less_induct)
    case less
    note a = less.prems
    obtain c got plan s' where st: "schedule_step s = Some (plan, s')" "bs_inv clean G s'" "0 < c"
      "concat (map pr_input_tokens (sv_prefill_rows plan)) = take c (drop (pq_prefill_progress p) (pq_prompt_tokens p))"
      "pq_prefill_progress p + c \<le> length (pq_prompt_tokens p)" "admitted s p [] c got s'"
      "length (pq_allocated_blocks p) + length got = div_ceil (pq_prefill_progress p + c) (bm_block_size (bs_pool s))"
      "free_gpu_blocks (bs_pool s') = free_gpu_blocks (bs_pool s) - length got" "length got \<le> free_gpu_blocks (bs_pool s)"
      "bm_block_size (bs_pool s') = bm_block_size (bs_pool s)" "bs_config s' = bs_config s"
      by (rule lone_prefill_step [OF a(1,4,5,6)]) (use a in simp_all)
    show ?case
    proof (cases "length (pq_prompt_tokens p) = pq_prefill_progress p + c")
      case True
      have "prefill_run 1 s = Some (drop (pq_prefill_progress p) (pq_prompt_tokens p), s')" using st(1,4) True by simp
      moreover have "1 \<le> length (pq_prompt_tokens p) - pq_prefill_progress p" using a(6) by simp
      moreover note st(6) [unfolded admitted_def if_P [OF True]]
      ultimately show ?thesis using a(2,4) st(7) True
        by (intro exI [of _ 1] exI [of _ s'] exI [of _ "started p got"]) (simp add: started_def)
    next
      case False
      note ad = st(6) [unfolded admitted_def if_not_P [OF False]]
      define p' where "p' = p\<lparr>pq_allocated_blocks := pq_allocated_blocks p @ got, pq_prefill_progress := pq_prefill_progress p + c\<rparr>"
      have p': "pq_prompt_tokens p' = pq_prompt_tokens p" "pq_prefill_progress p' = pq_prefill_progress p + c" "pq_req_id p' = pq_req_id p"
        "length (pq_allocated_blocks p') = length (pq_allocated_blocks p) + length got" by (simp_all add: p'_def)
      have "\<exists>n s'' q. n \<le> length (pq_prompt_tokens p') - pq_prefill_progress p' \<and>
         prefill_run n s' = Some (drop (pq_prefill_progress p') (pq_prompt_tokens p'), s'') \<and>
         bs_waiting s'' = [] \<and> bs_running s'' = [(pq_req_id p', q)] \<and> rr_prompt_tokens q = pq_prompt_tokens p' \<and>
         rr_kv_tokens q = length (pq_prompt_tokens p') \<and> length (rr_blocks q) = div_ceil (length (pq_prompt_tokens p')) k"
      proof (rule less.hyps [OF _ st(2)])
        show "length (pq_prompt_tokens p') - pq_prefill_progress p' < length (pq_prompt_tokens p) - pq_prefill_progress p"
          using p' st(3) a(6) by simp
      qed (use ad a st p' False p'_def in simp_all)
      then obtain n s'' q where n: "n \<le> length (pq_prompt_tokens p') - pq_prefill_progress p'"
        "prefill_run n s' = Some (drop (pq_prefill_progress p') (pq_prompt_tokens p'), s'')"
        and q: "bs_waiting s'' = []" "bs_running s'' = [(pq_req_id p', q)]" "rr_prompt_tokens q = pq_prompt_tokens p'"
         "rr_kv_tokens q = length (pq_prompt_tokens p')" "length (rr_blocks q) = div_ceil (length (pq_prompt_tokens p')) k" by blast
      have "prefill_run (Suc n) s = Some (take c (drop (pq_prefill_progress p) (pq_prompt_tokens p)) @
          drop (pq_prefill_progress p + c) (pq_prompt_tokens p), s'')" using st(1,4) n(2) p' by simp
      also have "take c (drop (pq_prefill_progress p) (pq_prompt_tokens p)) @ drop (pq_prefill_progress p + c) (pq_prompt_tokens p) =
          drop (pq_prefill_progress p) (pq_prompt_tokens p)" by (metis add.commute append_take_drop_id drop_drop)
      finally have run: "prefill_run (Suc n) s = Some (drop (pq_prefill_progress p) (pq_prompt_tokens p), s'')" .
      have "Suc n \<le> length (pq_prompt_tokens p) - pq_prefill_progress p" using n(1) p' st(3,5) False by simp
      then show ?thesis using run q p' by (intro exI [of _ "Suc n"] exI [of _ s''] exI [of _ q]) simp
    qed
  qed
qed

theorem lone_prefill_completes_witness:
  "\<exists>n s'. n \<le> 4 \<and> prefill_run n demo_half = Some ([9, 10, 11, 12], s')"
proof -
  obtain p where w: "bs_waiting demo_half = [p]" "pq_prefill_progress p = 4" "pq_prompt_tokens p = [5, 6, 7, 8, 9, 10, 11, 12]"
    "length (pq_allocated_blocks p) = 1"
  proof -
    have "map (\<lambda>p. (pq_prefill_progress p, pq_prompt_tokens p, length (pq_allocated_blocks p))) (bs_waiting demo_half) =
      [(4, [5, 6, 7, 8, 9, 10, 11, 12], 1)]" by code_simp
    then show thesis using that by auto
  qed
  have r: "bs_running demo_half = []" by code_simp
  have "\<exists>n s' q. n \<le> length (pq_prompt_tokens p) - pq_prefill_progress p \<and>
     prefill_run n demo_half = Some (drop (pq_prefill_progress p) (pq_prompt_tokens p), s') \<and>
     bs_waiting s' = [] \<and> bs_running s' = [(pq_req_id p, q)] \<and> rr_prompt_tokens q = pq_prompt_tokens p \<and>
     rr_kv_tokens q = length (pq_prompt_tokens p) \<and> length (rr_blocks q) = div_ceil (length (pq_prompt_tokens p)) 4"
    by (rule lone_prefill_completes [OF demo_reachable(4) [of True] r w(1)])
      (use w demo_facts(3) in \<open>simp_all add: demo_cfg_def div_ceil_def\<close>)
  then obtain n s' where "n \<le> length (pq_prompt_tokens p) - pq_prefill_progress p"
    "prefill_run n demo_half = Some (drop (pq_prefill_progress p) (pq_prompt_tokens p), s')" by blast
  then show ?thesis using w(2,3) by (intro exI [of _ n] exI [of _ s']) simp
qed


end
