(* ===== verification/Rust_Ordering.thy ===== *)
theory Rust_Ordering
  imports Prelude "HOL-Library.Multiset"
begin

text \<open>
  Comparator functions: \<open>std::cmp::Ordering\<close>, \<open>Ordering::reverse\<close>, the \<open>cmp\<close> of integers,
  \<open>Iterator::min_by\<close> (the first of several least elements) and the stable \<open>slice::sort_by\<close>.
  The locale \<open>comparison\<close> is what a caller of the last two relies on.
\<close>

datatype ordering = Less | Equal | Greater

fun ord_reverse :: "ordering \<Rightarrow> ordering" where
  "ord_reverse Less = Greater"
| "ord_reverse Equal = Equal"
| "ord_reverse Greater = Less"

fun ord_then :: "ordering \<Rightarrow> ordering \<Rightarrow> ordering" where
  "ord_then Equal other = other"
| "ord_then o1 _ = o1"

definition ord_cmp :: "'a::linorder \<Rightarrow> 'a \<Rightarrow> ordering" where
  "ord_cmp a b = (if a < b then Less else if a = b then Equal else Greater)"

fun min_by_from :: "('a \<Rightarrow> 'a \<Rightarrow> ordering) \<Rightarrow> 'a \<Rightarrow> 'a list \<Rightarrow> 'a" where
  "min_by_from cmp m [] = m"
| "min_by_from cmp m (x # xs) = min_by_from cmp (if cmp m x = Greater then x else m) xs"

fun min_by :: "('a \<Rightarrow> 'a \<Rightarrow> ordering) \<Rightarrow> 'a list \<Rightarrow> 'a option" where
  "min_by cmp [] = None"
| "min_by cmp (x # xs) = Some (min_by_from cmp x xs)"

fun insert_by :: "('a \<Rightarrow> 'a \<Rightarrow> ordering) \<Rightarrow> 'a \<Rightarrow> 'a list \<Rightarrow> 'a list" where
  "insert_by cmp x [] = [x]"
| "insert_by cmp x (y # ys) = (if cmp x y = Greater then y # insert_by cmp x ys else x # y # ys)"

fun sort_by :: "('a \<Rightarrow> 'a \<Rightarrow> ordering) \<Rightarrow> 'a list \<Rightarrow> 'a list" where
  "sort_by cmp [] = []"
| "sort_by cmp (x # xs) = insert_by cmp x (sort_by cmp xs)"

lemma mset_insert_by [simp]: "mset (insert_by cmp x xs) = add_mset x (mset xs)"
  by (induction xs) auto

lemma mset_sort_by [simp]: "mset (sort_by cmp xs) = mset xs"
  by (induction xs) auto

lemma set_sort_by [simp]: "set (sort_by cmp xs) = set xs"
  by (metis mset_sort_by set_mset_mset)

lemma length_sort_by [simp]: "length (sort_by cmp xs) = length xs"
  by (metis mset_sort_by size_mset)

lemma min_by_None [simp]: "min_by cmp xs = None \<longleftrightarrow> xs = []"
  by (cases xs) auto

lemma min_by_from_in: "min_by_from cmp m xs = m \<or> min_by_from cmp m xs \<in> set xs"
proof (induction xs arbitrary: m)
  case (Cons x xs)
  then show ?case by (cases "cmp m x = Greater") auto
qed simp

lemma min_by_in: "min_by cmp xs = Some m \<Longrightarrow> m \<in> set xs"
proof (cases xs)
  case (Cons y ys)
  then show "min_by cmp xs = Some m \<Longrightarrow> m \<in> set xs"
    using min_by_from_in [of cmp y ys] by auto
qed simp

locale comparison =
  fixes cmp :: "'a \<Rightarrow> 'a \<Rightarrow> ordering"
  assumes swap: "cmp b a = ord_reverse (cmp a b)"
    and trans: "cmp a b \<noteq> Greater \<Longrightarrow> cmp b c \<noteq> Greater \<Longrightarrow> cmp a c \<noteq> Greater"
begin

lemma cmp_refl [simp]: "cmp a a = Equal"
  using swap [of a a] by (cases "cmp a a") auto

lemma cmp_flip: "cmp a b = Greater \<Longrightarrow> cmp b a \<noteq> Greater"
  using swap [of a b] by (cases "cmp a b") auto

lemma min_by_from_le:
  "cmp (min_by_from cmp m xs) m \<noteq> Greater \<and> (\<forall>x\<in>set xs. cmp (min_by_from cmp m xs) x \<noteq> Greater)"
proof (induction xs arbitrary: m)
  case (Cons x xs)
  define k where "k = (if cmp m x = Greater then x else m)"
  have k: "cmp k m \<noteq> Greater" "cmp k x \<noteq> Greater"
    using cmp_flip [of m x] by (cases "cmp m x = Greater"; simp add: k_def)+
  note IH = Cons [of k]
  have "cmp (min_by_from cmp k xs) m \<noteq> Greater" by (rule trans [of _ k]) (use IH k in simp_all)
  moreover have "cmp (min_by_from cmp k xs) x \<noteq> Greater" by (rule trans [of _ k]) (use IH k in simp_all)
  ultimately show ?case using IH by (simp add: k_def)
qed simp

lemma min_by_least: "min_by cmp xs = Some m \<Longrightarrow> x \<in> set xs \<Longrightarrow> cmp m x \<noteq> Greater"
  using min_by_from_le by (cases xs) auto

lemma sorted_insert_by:
  "sorted_wrt (\<lambda>a b. cmp a b \<noteq> Greater) xs \<Longrightarrow> sorted_wrt (\<lambda>a b. cmp a b \<noteq> Greater) (insert_by cmp x xs)"
proof (induction xs)
  case (Cons y ys)
  have "set (insert_by cmp x ys) = insert x (set ys)"
    by (metis mset_insert_by set_mset_add_mset_insert set_mset_mset)
  moreover have "cmp x z \<noteq> Greater" if "cmp x y \<noteq> Greater" "z \<in> set ys" for z
    by (rule trans [of _ y]) (use that Cons.prems in simp_all)
  moreover have "cmp x y = Greater \<Longrightarrow> cmp y x \<noteq> Greater" by (rule cmp_flip)
  ultimately show ?case using Cons by auto
qed simp

lemma sorted_sort_by: "sorted_wrt (\<lambda>a b. cmp a b \<noteq> Greater) (sort_by cmp xs)"
  by (induction xs) (simp_all add: sorted_insert_by)

end

text \<open>The lexicographic comparators of the schedulers are comparisons.\<close>

lemma ord_cmp_simps [simp]:
  "ord_cmp a b = Greater \<longleftrightarrow> b < a" "ord_cmp a b = Less \<longleftrightarrow> a < b" "ord_cmp a b = Equal \<longleftrightarrow> a = b"
  by (auto simp: ord_cmp_def)

lemma ord_cmp_swap: "ord_cmp b a = ord_reverse (ord_cmp a b)"
  by (auto simp: ord_cmp_def)

lemma ord_reverse_simps [simp]:
  "ord_reverse a = Greater \<longleftrightarrow> a = Less" "ord_reverse a = Less \<longleftrightarrow> a = Greater"
  "ord_reverse a = Equal \<longleftrightarrow> a = Equal" "ord_reverse (ord_reverse a) = a"
  by (cases a; simp)+

lemma ord_then_Greater [simp]: "ord_then a b = Greater \<longleftrightarrow> a = Greater \<or> a = Equal \<and> b = Greater"
  by (cases a) auto

lemma ord_reverse_then [simp]: "ord_reverse (ord_then a b) = ord_then (ord_reverse a) (ord_reverse b)"
  by (cases a) auto

interpretation cmp_order: comparison ord_cmp
  by unfold_locales (rule ord_cmp_swap, auto)

lemma comparison_key: "comparison (\<lambda>a b. ord_cmp (f a) (f b))"
  by unfold_locales (rule ord_cmp_swap, auto)

lemma comparison_on:
  assumes "comparison c"
  shows "comparison (\<lambda>x y. c (f x) (f y))"
  by unfold_locales (rule comparison.swap [OF assms], rule comparison.trans [OF assms])

lemma comparison_reverse:
  assumes "comparison c"
  shows "comparison (\<lambda>a b. ord_reverse (c a b))"
proof
  fix a b d
  show "ord_reverse (c b a) = ord_reverse (ord_reverse (c a b))"
    using comparison.swap [OF assms, of b a] by simp
  assume "ord_reverse (c a b) \<noteq> Greater" "ord_reverse (c b d) \<noteq> Greater"
  then have "c b a \<noteq> Greater" "c d b \<noteq> Greater"
    using comparison.swap [OF assms, of a b] comparison.swap [OF assms, of b d] by simp_all
  then have "c d a \<noteq> Greater" by (rule comparison.trans [OF assms, rotated])
  then show "ord_reverse (c a d) \<noteq> Greater"
    using comparison.swap [OF assms, of a d] by simp
qed

lemma comparison_then:
  assumes c1: "comparison c1" and c2: "comparison c2"
  shows "comparison (\<lambda>a b. ord_then (c1 a b) (c2 a b))"
proof
  fix a b d
  show "ord_then (c1 b a) (c2 b a) = ord_reverse (ord_then (c1 a b) (c2 a b))"
    using comparison.swap [OF c1, of b a] comparison.swap [OF c2, of b a] by simp
  assume "ord_then (c1 a b) (c2 a b) \<noteq> Greater" "ord_then (c1 b d) (c2 b d) \<noteq> Greater"
  then have ab: "c1 a b \<noteq> Greater" "c1 a b = Equal \<longrightarrow> c2 a b \<noteq> Greater"
    and bd: "c1 b d \<noteq> Greater" "c1 b d = Equal \<longrightarrow> c2 b d \<noteq> Greater" by auto
  have ad: "c1 a d \<noteq> Greater" using comparison.trans [OF c1 ab(1) bd(1)] .
  moreover have "c2 a d \<noteq> Greater" if e: "c1 a d = Equal"
  proof -
    have "c1 d a = Equal" using comparison.swap [OF c1, of d a] e by simp
    then have "c1 b a \<noteq> Greater" "c1 d b \<noteq> Greater"
      using comparison.trans [OF c1 bd(1), of a] comparison.trans [OF c1 _ ab(1), of d] by simp_all
    then have "c1 a b \<noteq> Less" "c1 b d \<noteq> Less"
      by (simp_all add: comparison.swap [OF c1, of b a] comparison.swap [OF c1, of d b])
    then have "c1 a b = Equal" "c1 b d = Equal"
      using ab(1) bd(1) by (metis ordering.exhaust)+
    then show ?thesis using ab bd comparison.trans [OF c2] by blast
  qed
  ultimately show "ord_then (c1 a d) (c2 a d) \<noteq> Greater" by auto
qed

end
