(* ===== verification/Metal_Scheduler.thy ===== *)
theory Metal_Scheduler
  imports Rust_Ordering Serve_Plan Batch_Scheduler
begin

text \<open>
  The Metal scheduler of \<open>infer/src/backend/metal/scheduler.rs\<close>. The runtime owns the progress of
  every admitted request and hands it in as snapshots; the scheduler owns the queue and admits.
  A result \<open>None\<close> is a panic: a missing snapshot, a decoding snapshot without its last token, or
  an overflow of \<open>usize\<close> in the end of a chunk. The hash map of requests is an association list.
\<close>

subsection \<open>Configuration, snapshots and requests\<close>

datatype metal_request_priority = MLow | MNormal | MHigh

fun metal_priority_rank :: "metal_request_priority \<Rightarrow> nat" where
  "metal_priority_rank MLow = 0"
| "metal_priority_rank MNormal = 1"
| "metal_priority_rank MHigh = 2"

instantiation metal_request_priority :: linorder
begin

definition less_eq_metal_request_priority :: "metal_request_priority \<Rightarrow> metal_request_priority \<Rightarrow> bool" where
  "less_eq_metal_request_priority a b \<longleftrightarrow> metal_priority_rank a \<le> metal_priority_rank b"

definition less_metal_request_priority :: "metal_request_priority \<Rightarrow> metal_request_priority \<Rightarrow> bool" where
  "less_metal_request_priority a b \<longleftrightarrow> metal_priority_rank a < metal_priority_rank b"

instance
proof
  fix x y :: metal_request_priority
  show "x \<le> y \<Longrightarrow> y \<le> x \<Longrightarrow> x = y"
    by (cases x; cases y) (simp_all add: less_eq_metal_request_priority_def)
qed (auto simp: less_eq_metal_request_priority_def less_metal_request_priority_def)

end

record metal_scheduler_config =
  max_running_requests :: nat
  max_batch_tokens :: nat

definition metal_config_default :: metal_scheduler_config where
  "metal_config_default = \<lparr>max_running_requests = 4, max_batch_tokens = 512\<rparr>"

datatype metal_scheduler_error = InvalidConfig string | EmptyPrompt | UnknownRequest request_id

definition metal_validate :: "metal_scheduler_config \<Rightarrow> metal_scheduler_error + unit" where
  "metal_validate c =
     (if max_running_requests c = 0 then Inl (InvalidConfig ''max_running_requests must be >= 1'')
      else if max_batch_tokens c = 0 then Inl (InvalidConfig ''max_batch_tokens must be >= 1'')
      else Inr ())"

datatype metal_request_phase = PhWaiting | PhPrefilling | PhDecoding

record metal_runtime_request_state =
  rt_req_id :: request_id
  rt_phase :: metal_request_phase
  rt_prompt_progress :: nat
  rt_generated_tokens :: nat
  rt_last_token :: "token option"

record metal_request_state =
  ms_req_id :: request_id
  ms_prompt_tokens :: "token list"
  ms_priority :: metal_request_priority
  ms_arrival_order :: nat
  ms_admitted :: bool

definition prompt_len :: "metal_request_state \<Rightarrow> nat" where
  "prompt_len r = length (ms_prompt_tokens r)"

subsection \<open>What a step emits\<close>

record metal_decode_batch =
  db_req_ids :: "request_id list"
  db_input_tokens :: "token list"

record metal_prefill_chunk =
  pc_req_id :: request_id
  pc_input_tokens :: "token list"
  pc_prompt_start :: nat
  pc_prompt_end :: nat
  pc_prompt_len :: nat

record metal_schedule_step =
  st_decode :: "metal_decode_batch option"
  st_prefill :: "metal_prefill_chunk list"
  st_plan :: serve_plan

definition metal_step_is_idle :: "metal_schedule_step \<Rightarrow> bool" where
  "metal_step_is_idle st = is_idle (st_plan st)"

definition chunk_of_row :: "prefill_row \<Rightarrow> metal_prefill_chunk" where
  "chunk_of_row row = \<lparr>pc_req_id = pr_req_id row, pc_input_tokens = pr_input_tokens row,
     pc_prompt_start = pr_prompt_start row, pc_prompt_end = pr_prompt_end row,
     pc_prompt_len = pr_prompt_len row\<rparr>"

definition step_of_plan :: "serve_plan \<Rightarrow> metal_schedule_step" where
  "step_of_plan p = \<lparr>
     st_decode = (if sv_decode_rows p \<noteq> []
        then Some \<lparr>db_req_ids = map dr_req_id (sv_decode_rows p),
                   db_input_tokens = map dr_input_token (sv_decode_rows p)\<rparr>
        else None),
     st_prefill = map chunk_of_row (sv_prefill_rows p),
     st_plan = p\<rparr>"

subsection \<open>The scheduler\<close>

record metal_scheduler =
  mt_config :: metal_scheduler_config
  mt_next_req_id :: nat
  mt_next_arrival_order :: nat
  mt_waiting :: "request_id list"
  mt_requests :: "(request_id, metal_request_state) hmap"
  mt_events :: "engine_event list"

definition metal_emit_event ::
    "request_id \<Rightarrow> request_event_kind \<Rightarrow> inference_mode option \<Rightarrow> metal_scheduler \<Rightarrow> metal_scheduler" where
  "metal_emit_event r k md s = s\<lparr>mt_events := mt_events s @ [\<lparr>ev_request_id = r, ev_kind = k, ev_mode = md\<rparr>]\<rparr>"

definition metal_prefill_chunk_budget :: "metal_scheduler \<Rightarrow> nat \<Rightarrow> nat" where
  "metal_prefill_chunk_budget s decode_count = max_batch_tokens (mt_config s) - decode_count"

definition metal_new :: "metal_scheduler_config \<Rightarrow> metal_scheduler_error + metal_scheduler" where
  "metal_new cfg = (case metal_validate cfg of
     Inl e \<Rightarrow> Inl e
   | Inr _ \<Rightarrow> Inr \<lparr>mt_config = cfg, mt_next_req_id = 0, mt_next_arrival_order = 0, mt_waiting = [],
                  mt_requests = [], mt_events = []\<rparr>)"

definition metal_submit ::
    "token list \<Rightarrow> nat \<Rightarrow> metal_request_priority \<Rightarrow> metal_scheduler
       \<Rightarrow> (metal_scheduler_error + request_id) \<times> metal_scheduler" where
  "metal_submit prompt max_tokens prio s =
     (if prompt = [] then (Inl EmptyPrompt, s)
      else if max_tokens = 0 then (Inl (InvalidConfig ''max_tokens must be >= 1''), s)
      else let r = mt_next_req_id s;
               arrival = mt_next_arrival_order s;
               s1 = s\<lparr>mt_next_req_id := r + 1, mt_next_arrival_order := arrival + 1,
                      mt_requests := AList.update r \<lparr>ms_req_id = r, ms_prompt_tokens = prompt,
                        ms_priority = prio, ms_arrival_order = arrival, ms_admitted = False\<rparr> (mt_requests s),
                      mt_waiting := mt_waiting s @ [r]\<rparr>
           in (Inr r, metal_emit_event r Enqueued None s1))"

definition metal_is_waiting :: "metal_scheduler \<Rightarrow> request_id \<Rightarrow> bool" where
  "metal_is_waiting s r = (case map_of (mt_requests s) r of None \<Rightarrow> False | Some st \<Rightarrow> \<not> ms_admitted st)"

definition metal_waiting_len :: "metal_scheduler \<Rightarrow> nat" where
  "metal_waiting_len s = length (mt_waiting s)"

definition metal_running_len :: "metal_scheduler \<Rightarrow> nat" where
  "metal_running_len s = length (filter ms_admitted (map snd (mt_requests s)))"

definition rewrite_waiting_prompt ::
    "request_id \<Rightarrow> token list \<Rightarrow> metal_scheduler \<Rightarrow> (metal_scheduler_error + unit) \<times> metal_scheduler" where
  "rewrite_waiting_prompt r prompt s =
     (if prompt = [] then (Inl EmptyPrompt, s)
      else case map_of (mt_requests s) r of
        None \<Rightarrow> (Inl (UnknownRequest r), s)
      | Some _ \<Rightarrow> (Inr (), s\<lparr>mt_requests := hm_modify r (\<lambda>st. st\<lparr>ms_prompt_tokens := prompt\<rparr>) (mt_requests s)\<rparr>))"

subsection \<open>Orders\<close>

definition compare_priority_waiting :: "metal_request_state \<Rightarrow> metal_request_state \<Rightarrow> ordering" where
  "compare_priority_waiting a b =
     ord_then (ord_reverse (ord_cmp (ms_priority a) (ms_priority b)))
       (ord_cmp (ms_arrival_order a) (ms_arrival_order b))"

definition compare_prefill_order :: "metal_request_state \<Rightarrow> metal_request_state \<Rightarrow> ordering" where
  "compare_prefill_order a b =
     ord_then (ord_cmp (ms_arrival_order a) (ms_arrival_order b)) (ord_cmp (ms_req_id a) (ms_req_id b))"

definition compare_decode_order :: "metal_request_state \<Rightarrow> metal_request_state \<Rightarrow> ordering" where
  "compare_decode_order a b =
     ord_then (ord_reverse (ord_cmp (ms_priority a) (ms_priority b)))
       (ord_then (ord_cmp (ms_arrival_order a) (ms_arrival_order b)) (ord_cmp (ms_req_id a) (ms_req_id b)))"

subsection \<open>A step\<close>

definition runtime_state ::
    "metal_runtime_request_state list \<Rightarrow> request_id \<Rightarrow> metal_runtime_request_state option" where
  "runtime_state rts r = find (\<lambda>rt. rt_req_id rt = r) rts"

fun validate_states :: "metal_runtime_request_state list \<Rightarrow> metal_request_state list \<Rightarrow> unit option" where
  "validate_states rts [] = Some ()"
| "validate_states rts (st # sts) =
     (if \<not> ms_admitted st then validate_states rts sts
      else do {
        rt \<leftarrow> runtime_state rts (ms_req_id st);
        (if rt_phase rt = PhDecoding \<and> rt_last_token rt = None then None else validate_states rts sts)
      })"

definition validate_runtime_snapshots ::
    "metal_scheduler \<Rightarrow> metal_runtime_request_state list \<Rightarrow> unit option" where
  "validate_runtime_snapshots s rts = validate_states rts (map snd (mt_requests s))"

definition logical_offset :: "metal_runtime_request_state \<Rightarrow> nat" where
  "logical_offset rt = saturating_add usize_max (rt_prompt_progress rt) (rt_generated_tokens rt - 1)"

fun decode_states ::
    "metal_runtime_request_state list \<Rightarrow> metal_request_state list
       \<Rightarrow> (metal_request_state \<times> token \<times> nat) list option" where
  "decode_states rts [] = Some []"
| "decode_states rts (st # sts) =
     (if \<not> ms_admitted st then decode_states rts sts
      else do {
        rt \<leftarrow> runtime_state rts (ms_req_id st);
        (if rt_phase rt \<noteq> PhDecoding then decode_states rts sts
         else do {
           last_token \<leftarrow> rt_last_token rt;
           rest \<leftarrow> decode_states rts sts;
           Some ((st, last_token, logical_offset rt) # rest)
         })
      })"

definition metal_build_decode_rows ::
    "metal_scheduler \<Rightarrow> metal_runtime_request_state list \<Rightarrow> decode_row list option" where
  "metal_build_decode_rows s rts = do {
     states \<leftarrow> decode_states rts (map snd (mt_requests s));
     let sorted = sort_by (\<lambda>(a, _, _) (b, _, _). compare_decode_order a b) states;
     Some (map (\<lambda>(i, st, tok, off). decode_row_new i (ms_req_id st) tok off)
             (zip [0..<length sorted] sorted))
   }"

definition count_decode_runtime :: "metal_runtime_request_state list \<Rightarrow> nat" where
  "count_decode_runtime rts = length (filter (\<lambda>rt. rt_phase rt = PhDecoding) rts)"

definition find_prefilling_request ::
    "metal_scheduler \<Rightarrow> metal_runtime_request_state list \<Rightarrow> request_id option" where
  "find_prefilling_request s rts =
     map_option ms_req_id (min_by compare_prefill_order
       (filter (\<lambda>st. ms_admitted st \<and> (case runtime_state rts (ms_req_id st) of
                 None \<Rightarrow> False | Some rt \<Rightarrow> rt_phase rt = PhPrefilling))
          (map snd (mt_requests s))))"

definition admit_next_waiting_request :: "metal_scheduler \<Rightarrow> request_id option \<times> metal_scheduler" where
  "admit_next_waiting_request s =
     (case min_by (\<lambda>(_, a) (_, b). compare_priority_waiting a b)
             (List.map_filter (\<lambda>(idx, r). map_option (\<lambda>st. (idx, st)) (map_of (mt_requests s) r))
               (zip [0..<length (mt_waiting s)] (mt_waiting s))) of
        None \<Rightarrow> (None, s)
      | Some (best_idx, _) \<Rightarrow>
        let r = mt_waiting s ! best_idx;
            s1 = s\<lparr>mt_waiting := take best_idx (mt_waiting s) @ drop (best_idx + 1) (mt_waiting s)\<rparr>
        in case map_of (mt_requests s1) r of
             None \<Rightarrow> (None, s1)
           | Some _ \<Rightarrow> (Some r, s1\<lparr>mt_requests := hm_modify r (\<lambda>st. st\<lparr>ms_admitted := True\<rparr>) (mt_requests s1)\<rparr>))"

text \<open>The row of the chosen request: its bounds and the emitted event.\<close>

definition prefill_row_for ::
    "metal_runtime_request_state list \<Rightarrow> nat \<Rightarrow> nat \<Rightarrow> request_id \<Rightarrow> bool \<Rightarrow> metal_scheduler
       \<Rightarrow> (prefill_row list \<times> metal_scheduler) option" where
  "prefill_row_for rts row_index chunk_cap r newly_admitted s =
     (case map_of (mt_requests s) r of
        None \<Rightarrow> Some ([], s)
      | Some st \<Rightarrow> do {
          prompt_start \<leftarrow> (if newly_admitted then Some 0
             else map_option (\<lambda>rt. min (rt_prompt_progress rt) (prompt_len st)) (runtime_state rts r));
          (if prompt_start + chunk_cap > usize_max then None
           else do {
             let prompt_end = min (prompt_start + chunk_cap) (prompt_len st);
             input_tokens \<leftarrow> Prelude.slice prompt_start prompt_end (ms_prompt_tokens st);
             let s1 = (if prompt_start = 0 then metal_emit_event r PrefillStarted (Some Prefill) s else s);
             Some ([prefill_row_new row_index r input_tokens prompt_start prompt_end (prompt_len st)], s1)
           })
        })"

definition metal_build_prefill_rows ::
    "metal_runtime_request_state list \<Rightarrow> nat \<Rightarrow> metal_scheduler
       \<Rightarrow> (prefill_row list \<times> metal_scheduler) option" where
  "metal_build_prefill_rows rts row_index s =
     (let decode_count = count_decode_runtime rts;
          chunk_cap = metal_prefill_chunk_budget s decode_count
      in if chunk_cap = 0 then Some ([], s)
         else case find_prefilling_request s rts of
           Some r \<Rightarrow> prefill_row_for rts row_index chunk_cap r False s
         | None \<Rightarrow>
           if metal_running_len s < max_running_requests (mt_config s) then
             (case admit_next_waiting_request s of
                (None, s1) \<Rightarrow> Some ([], s1)
              | (Some r, s1) \<Rightarrow> prefill_row_for rts row_index chunk_cap r True s1)
           else Some ([], s))"

definition build_logical_plan ::
    "metal_runtime_request_state list \<Rightarrow> metal_scheduler \<Rightarrow> (serve_plan \<times> metal_scheduler) option" where
  "build_logical_plan rts s = do {
     decode_rows \<leftarrow> metal_build_decode_rows s rts;
     (prefill_rows, s1) \<leftarrow> metal_build_prefill_rows rts (length decode_rows) s;
     Some (plan_new decode_rows prefill_rows, s1)
   }"

definition metal_step ::
    "metal_runtime_request_state list \<Rightarrow> metal_scheduler \<Rightarrow> (metal_schedule_step \<times> metal_scheduler) option" where
  "metal_step rts s = do {
     validate_runtime_snapshots s rts;
     (p, s1) \<leftarrow> build_logical_plan rts s;
     Some (step_of_plan p, s1)
   }"

subsection \<open>Removal\<close>

definition metal_remove_request :: "request_id \<Rightarrow> metal_scheduler \<Rightarrow> metal_request_state option \<times> metal_scheduler" where
  "metal_remove_request r s =
     (case map_of (mt_requests s) r of
        None \<Rightarrow> (None, s)
      | Some st \<Rightarrow> (Some st, s\<lparr>mt_requests := AList.delete r (mt_requests s),
                              mt_waiting := remove1 r (mt_waiting s)\<rparr>))"

definition metal_finish_request ::
    "request_id \<Rightarrow> inference_mode option \<Rightarrow> metal_scheduler \<Rightarrow> bool \<times> metal_scheduler" where
  "metal_finish_request r md s =
     (case metal_remove_request r s of
        (None, s1) \<Rightarrow> (False, s1)
      | (Some _, s1) \<Rightarrow> (True, metal_emit_event r Completed md s1))"

end
