(* ===== verification/Metal_Inv.thy ===== *)
theory Metal_Inv
  imports Metal_Scheduler
begin

text \<open>
  The invariant of the Metal scheduler and its preservation: the queue holds exactly the requests
  that are not admitted, in order of arrival; identifiers and arrival numbers are given out
  together, in increasing order; the running set stays within its bound.
\<close>

subsection \<open>Hash map lemmas\<close>

lemma map_of_Cons_snd: "distinct (map fst m) \<Longrightarrow> map_of m k = Some v \<Longrightarrow> v \<in> set (map snd m)"
  by (metis list.set_map map_of_SomeD image_eqI snd_conv)

lemma aupdate_fresh: "k \<notin> set (map fst m) \<Longrightarrow> AList.update k v m = m @ [(k, v)]"
  by (induction m) auto

lemma filter_hm_modify_gain:
  "distinct (map fst m) \<Longrightarrow> map_of m k = Some v \<Longrightarrow> \<not> P v \<Longrightarrow> P (f v) \<Longrightarrow>
     length (filter P (map snd (hm_modify k f m))) = length (filter P (map snd m)) + 1"
proof (induction m)
  case (Cons e m)
  obtain k' v' where e: "e = (k', v')" by (cases e)
  show ?case
  proof (cases "k' = k")
    case True
    with Cons.prems e have "hm_modify k f m = m"
      unfolding hm_modify_def by (intro map_idI) force
    with True Cons.prems e show ?thesis by (simp add: hm_modify_def)
  next
    case False
    with Cons e show ?thesis by (simp add: hm_modify_def)
  qed
qed simp

lemma filter_hm_modify_same:
  assumes "\<And>v. P (f v) = P v"
  shows "length (filter P (map snd (hm_modify k f m))) = length (filter P (map snd m))"
  by (induction m) (simp_all add: hm_modify_def assms split: prod.split)

lemma filter_delete_le: "length (filter P (map snd (AList.delete k m))) \<le> length (filter P (map snd m))"
  by (induction m) (auto simp: AList.delete_eq intro: le_SucI)

subsection \<open>The orders\<close>

interpretation waiting_order: comparison compare_priority_waiting
  unfolding compare_priority_waiting_def
  by (intro comparison_then comparison_reverse comparison_key)

interpretation prefill_order: comparison compare_prefill_order
  unfolding compare_prefill_order_def by (intro comparison_then comparison_key)

interpretation decode_order: comparison compare_decode_order
  unfolding compare_decode_order_def
  by (intro comparison_then comparison_reverse comparison_key)

subsection \<open>The invariant\<close>

definition request_ok :: "metal_scheduler \<Rightarrow> request_id \<times> metal_request_state \<Rightarrow> bool" where
  "request_ok s e \<longleftrightarrow> ms_req_id (snd e) = fst e \<and> fst e < mt_next_req_id s \<and>
     ms_arrival_order (snd e) < mt_next_arrival_order s \<and> ms_prompt_tokens (snd e) \<noteq> []"

definition arrival_mono :: "(request_id, metal_request_state) hmap \<Rightarrow> bool" where
  "arrival_mono m \<longleftrightarrow> (\<forall>k k' a b. map_of m k = Some a \<longrightarrow> map_of m k' = Some b \<longrightarrow> k < k' \<longrightarrow>
     ms_arrival_order a < ms_arrival_order b)"

definition metal_inv :: "metal_scheduler \<Rightarrow> bool" where
  "metal_inv s \<longleftrightarrow> distinct (map fst (mt_requests s)) \<and> (\<forall>e\<in>set (mt_requests s). request_ok s e) \<and>
     arrival_mono (mt_requests s) \<and> distinct (mt_waiting s) \<and> sorted (mt_waiting s) \<and>
     (\<forall>r. r \<in> set (mt_waiting s) \<longleftrightarrow> metal_is_waiting s r) \<and>
     metal_running_len s \<le> max_running_requests (mt_config s) \<and>
     metal_validate (mt_config s) = Inr ()"

lemmas metal_state_simps = metal_is_waiting_def metal_running_len_def request_ok_def

lemma metal_invD:
  assumes "metal_inv s"
  shows "distinct (map fst (mt_requests s))" "arrival_mono (mt_requests s)" "distinct (mt_waiting s)"
    "sorted (mt_waiting s)" "r \<in> set (mt_waiting s) \<longleftrightarrow> metal_is_waiting s r"
    "metal_running_len s \<le> max_running_requests (mt_config s)" "metal_validate (mt_config s) = Inr ()"
    "e \<in> set (mt_requests s) \<Longrightarrow> request_ok s e"
  using assms by (auto simp: metal_inv_def)

lemma metal_emit_simps [simp]:
  "mt_config (metal_emit_event r k md s) = mt_config s"
  "mt_next_req_id (metal_emit_event r k md s) = mt_next_req_id s"
  "mt_next_arrival_order (metal_emit_event r k md s) = mt_next_arrival_order s"
  "mt_waiting (metal_emit_event r k md s) = mt_waiting s"
  "mt_requests (metal_emit_event r k md s) = mt_requests s"
  by (simp_all add: metal_emit_event_def)

lemma metal_emit_inv [simp]: "metal_inv (metal_emit_event r k md s) = metal_inv s"
  by (simp add: metal_inv_def metal_state_simps)

lemma metal_requestD:
  "metal_inv s \<Longrightarrow> map_of (mt_requests s) r = Some st \<Longrightarrow>
     ms_req_id st = r \<and> r < mt_next_req_id s \<and> ms_arrival_order st < mt_next_arrival_order s \<and> ms_prompt_tokens st \<noteq> []"
  by (drule map_of_SomeD) (use metal_invD(8) in \<open>force simp: request_ok_def\<close>)

lemma metal_new_inv: "metal_new cfg = Inr s \<Longrightarrow> metal_inv s"
  by (auto simp: metal_new_def metal_inv_def metal_state_simps arrival_mono_def split: sum.splits)

lemma metal_submit_inv:
  assumes inv: "metal_inv s"
  shows "metal_inv (snd (metal_submit prompt mx prio s))"
proof (cases "prompt = [] \<or> mx = 0")
  case False
  let ?r = "mt_next_req_id s"
  let ?st = "\<lparr>ms_req_id = ?r, ms_prompt_tokens = prompt, ms_priority = prio,
     ms_arrival_order = mt_next_arrival_order s, ms_admitted = False\<rparr>"
  have fresh: "?r \<notin> set (map fst (mt_requests s))"
    using metal_invD(8) [OF inv] by (force simp: request_ok_def)
  then have none: "map_of (mt_requests s) ?r = None" by (simp add: map_of_eq_None_iff)
  have ids: "w < ?r" if "w \<in> set (mt_waiting s)" for w
    using that metal_invD(5) [OF inv] metal_requestD [OF inv]
    by (auto simp: metal_is_waiting_def split: option.splits)
  define s1 where "s1 = snd (metal_submit prompt mx prio s)"
  have s1: "mt_requests s1 = mt_requests s @ [(?r, ?st)]" "mt_waiting s1 = mt_waiting s @ [?r]"
    "mt_config s1 = mt_config s" "mt_next_req_id s1 = ?r + 1"
    "mt_next_arrival_order s1 = mt_next_arrival_order s + 1"
    using False fresh by (auto simp: s1_def metal_submit_def Let_def aupdate_fresh)
  have look: "map_of (mt_requests s1) k = (if k = ?r then Some ?st else map_of (mt_requests s) k)" for k
    using none by (auto simp: s1 map_add_def split: option.splits)
  have "arrival_mono (mt_requests s1)"
    using metal_invD(2) [OF inv] metal_requestD [OF inv] unfolding arrival_mono_def look
    by (auto split: if_splits) fastforce+
  moreover have "metal_is_waiting s1 r \<longleftrightarrow> r \<in> set (mt_waiting s1)" for r
    using metal_invD(5) [OF inv, of r] none unfolding metal_is_waiting_def look by (auto simp: s1(2))
  moreover have "request_ok s1 e" if "e \<in> set (mt_requests s1)" for e
    using that metal_invD(8) [OF inv, of e] False by (auto simp: s1 request_ok_def)
  moreover have "sorted (mt_waiting s1)" "distinct (mt_waiting s1)"
    using metal_invD(3,4) [OF inv] ids by (force simp: s1 sorted_append)+
  ultimately show ?thesis
    using metal_invD(1,6,7) [OF inv] fresh unfolding metal_inv_def s1_def [symmetric]
    by (auto simp: metal_running_len_def s1)
qed (use inv in \<open>auto simp: metal_submit_def\<close>)

lemma metal_rewrite_inv:
  assumes inv: "metal_inv s"
  shows "metal_inv (snd (rewrite_waiting_prompt r prompt s))"
proof (cases "prompt = [] \<or> map_of (mt_requests s) r = None")
  case False
  define s1 where "s1 = snd (rewrite_waiting_prompt r prompt s)"
  define f where "f = (\<lambda>st :: metal_request_state. st\<lparr>ms_prompt_tokens := prompt\<rparr>)"
  have s1: "mt_requests s1 = hm_modify r f (mt_requests s)" "mt_waiting s1 = mt_waiting s"
    "mt_config s1 = mt_config s" "mt_next_req_id s1 = mt_next_req_id s"
    "mt_next_arrival_order s1 = mt_next_arrival_order s"
    using False by (auto simp: s1_def f_def rewrite_waiting_prompt_def)
  have adm: "ms_admitted (f st) = ms_admitted st" "ms_arrival_order (f st) = ms_arrival_order st"
    "ms_req_id (f st) = ms_req_id st" "ms_prompt_tokens (f st) = prompt" for st
    by (simp_all add: f_def)
  have "arrival_mono (mt_requests s1)"
    using metal_invD(2) [OF inv] unfolding arrival_mono_def s1
    by (auto simp: adm split: if_splits)
  moreover have "metal_is_waiting s1 k \<longleftrightarrow> k \<in> set (mt_waiting s1)" for k
    using metal_invD(5) [OF inv, of k] by (auto simp: metal_is_waiting_def adm s1 split: option.splits)
  moreover have "request_ok s1 e" if "e \<in> set (mt_requests s1)" for e
    using that metal_invD(8) [OF inv] False by (fastforce simp: s1 request_ok_def hm_modify_def adm split: if_splits)
  moreover have "metal_running_len s1 = metal_running_len s"
    unfolding metal_running_len_def s1 by (rule filter_hm_modify_same) (rule adm)
  ultimately show ?thesis
    using metal_invD(1,3,4,6,7) [OF inv] unfolding metal_inv_def s1_def [symmetric]
    by (auto simp: s1)
qed (use inv in \<open>auto simp: rewrite_waiting_prompt_def split: option.splits\<close>)

lemma metal_finish_inv:
  assumes inv: "metal_inv s"
  shows "metal_inv (snd (metal_finish_request r md s))"
proof (cases "map_of (mt_requests s) r")
  case (Some st)
  define s1 where "s1 = s\<lparr>mt_requests := AList.delete r (mt_requests s), mt_waiting := remove1 r (mt_waiting s)\<rparr>"
  have look: "map_of (mt_requests s1) k = (if k = r then None else map_of (mt_requests s) k)" for k
    by (simp add: s1_def AList.delete_conv')
  have "arrival_mono (mt_requests s1)"
    using metal_invD(2) [OF inv] unfolding arrival_mono_def look by (auto split: if_splits)
  moreover have "metal_is_waiting s1 k \<longleftrightarrow> k \<in> set (mt_waiting s1)" for k
    using metal_invD(3) [OF inv] metal_invD(5) [OF inv, of k] unfolding metal_is_waiting_def look
    by (auto simp: s1_def)
  moreover have "request_ok s1 e" if "e \<in> set (mt_requests s1)" for e
    using that metal_invD(8) [OF inv, of e] by (auto simp: s1_def request_ok_def AList.delete_eq)
  moreover have "metal_running_len s1 \<le> metal_running_len s"
    unfolding metal_running_len_def s1_def
    using filter_delete_le [of ms_admitted r "mt_requests s"] by simp
  moreover have "distinct (map fst (mt_requests s1))"
    using metal_invD(1) [OF inv] by (simp add: s1_def AList.delete_keys distinct_removeAll)
  ultimately have "metal_inv s1"
    using metal_invD(3,4,6,7) [OF inv] unfolding metal_inv_def
    by (auto simp: s1_def sorted_remove1)
  then show ?thesis
    using Some by (simp add: metal_finish_request_def metal_remove_request_def s1_def)
qed (use inv in \<open>auto simp: metal_finish_request_def metal_remove_request_def\<close>)

subsection \<open>Admission\<close>

lemma take_drop_remove1:
  "distinct xs \<Longrightarrow> i < length xs \<Longrightarrow> take i xs @ drop (i + 1) xs = remove1 (xs ! i) xs"
proof (induction xs arbitrary: i)
  case (Cons x xs)
  then show ?case by (cases i) auto
qed simp

lemma waiting_candidates:
  assumes inv: "metal_inv s"
  shows "(i, a) \<in> set (List.map_filter (\<lambda>(idx, r). map_option (\<lambda>st. (idx, st)) (map_of (mt_requests s) r))
             (zip [0..<length (mt_waiting s)] (mt_waiting s))) \<longleftrightarrow>
         i < length (mt_waiting s) \<and> map_of (mt_requests s) (mt_waiting s ! i) = Some a"
  by (auto simp: List.map_filter_def set_zip image_iff split: option.splits) force+

lemma waiting_mem:
  "metal_inv s \<Longrightarrow> w \<in> set (mt_waiting s) \<Longrightarrow> \<exists>a. map_of (mt_requests s) w = Some a \<and> \<not> ms_admitted a"
  using metal_invD(5) by (auto simp: metal_is_waiting_def split: option.splits)

definition admit_of :: "request_id \<Rightarrow> metal_scheduler \<Rightarrow> metal_scheduler" where
  "admit_of r s = s\<lparr>mt_waiting := remove1 r (mt_waiting s),
     mt_requests := hm_modify r (\<lambda>st. st\<lparr>ms_admitted := True\<rparr>) (mt_requests s)\<rparr>"

lemma admit_spec:
  assumes inv: "metal_inv s"
  shows "(mt_waiting s = [] \<and> admit_next_waiting_request s = (None, s)) \<or>
    (\<exists>r a. r \<in> set (mt_waiting s) \<and> map_of (mt_requests s) r = Some a \<and>
       (\<forall>w b. w \<in> set (mt_waiting s) \<longrightarrow> map_of (mt_requests s) w = Some b \<longrightarrow>
          compare_priority_waiting a b \<noteq> Greater) \<and>
       admit_next_waiting_request s = (Some r, admit_of r s))"
proof -
  define cs where "cs = List.map_filter (\<lambda>(idx, r). map_option (\<lambda>st. (idx, st)) (map_of (mt_requests s) r))
     (zip [0..<length (mt_waiting s)] (mt_waiting s))"
  define le where "le = (\<lambda>(_::nat, a) (_::nat, b). compare_priority_waiting a b)"
  have mem: "(i, a) \<in> set cs \<longleftrightarrow> i < length (mt_waiting s) \<and> map_of (mt_requests s) (mt_waiting s ! i) = Some a" for i a
    unfolding cs_def by (rule waiting_candidates [OF inv])
  have def: "admit_next_waiting_request s = (case min_by le cs of
        None \<Rightarrow> (None, s)
      | Some (best_idx, _) \<Rightarrow>
        let r = mt_waiting s ! best_idx;
            s1 = s\<lparr>mt_waiting := take best_idx (mt_waiting s) @ drop (best_idx + 1) (mt_waiting s)\<rparr>
        in case map_of (mt_requests s1) r of
             None \<Rightarrow> (None, s1)
           | Some _ \<Rightarrow> (Some r, s1\<lparr>mt_requests := hm_modify r (\<lambda>st. st\<lparr>ms_admitted := True\<rparr>) (mt_requests s1)\<rparr>))"
    by (simp add: admit_next_waiting_request_def le_def cs_def)
  have le: "comparison le"
    using comparison_on [OF waiting_order.comparison_axioms, of snd] by (simp add: le_def case_prod_beta')
  show ?thesis
  proof (cases "min_by le cs")
    case None
    have "mt_waiting s = []"
    proof (rule ccontr)
      assume "mt_waiting s \<noteq> []"
      then have "mt_waiting s ! 0 \<in> set (mt_waiting s)" by simp
      with waiting_mem [OF inv] obtain a where "map_of (mt_requests s) (mt_waiting s ! 0) = Some a" by blast
      with mem [of 0 a] None \<open>mt_waiting s \<noteq> []\<close> show False by simp
    qed
    with None show ?thesis by (simp add: def)
  next
    case (Some p)
    obtain i a where p: "p = (i, a)" by (cases p)
    have i: "i < length (mt_waiting s)" and a: "map_of (mt_requests s) (mt_waiting s ! i) = Some a"
      using min_by_in [OF Some] by (auto simp: p mem)
    define r where "r = mt_waiting s ! i"
    have least: "compare_priority_waiting a b \<noteq> Greater"
      if w: "w \<in> set (mt_waiting s)" and b: "map_of (mt_requests s) w = Some b" for w b
    proof -
      obtain j where "j < length (mt_waiting s)" "w = mt_waiting s ! j" using w by (auto simp: in_set_conv_nth)
      then have "(j, b) \<in> set cs" using b by (simp add: mem)
      from comparison.min_by_least [OF le Some this] show ?thesis by (simp add: le_def p)
    qed
    have "admit_next_waiting_request s = (Some r, admit_of r s)"
      using a i take_drop_remove1 [OF metal_invD(3) [OF inv] i]
      by (simp add: def Some p Let_def r_def admit_of_def)
    moreover have "r \<in> set (mt_waiting s)" using i by (simp add: r_def)
    ultimately show ?thesis using a least by (auto simp: r_def)
  qed
qed

lemma admit_of_simps [simp]:
  "mt_config (admit_of r s) = mt_config s" "mt_next_req_id (admit_of r s) = mt_next_req_id s"
  "mt_next_arrival_order (admit_of r s) = mt_next_arrival_order s"
  "mt_waiting (admit_of r s) = remove1 r (mt_waiting s)"
  "map_of (mt_requests (admit_of r s)) k = (if k = r
     then map_option (\<lambda>st. st\<lparr>ms_admitted := True\<rparr>) (map_of (mt_requests s) k) else map_of (mt_requests s) k)"
  "map fst (mt_requests (admit_of r s)) = map fst (mt_requests s)"
  by (simp_all add: admit_of_def)

lemma admit_inv:
  assumes inv: "metal_inv s" and r: "r \<in> set (mt_waiting s)"
    and room: "metal_running_len s < max_running_requests (mt_config s)"
  shows "metal_inv (admit_of r s)" "metal_running_len (admit_of r s) = metal_running_len s + 1"
proof -
  obtain a where a: "map_of (mt_requests s) r = Some a" "\<not> ms_admitted a" using waiting_mem [OF inv r] by blast
  show len: "metal_running_len (admit_of r s) = metal_running_len s + 1"
    using filter_hm_modify_gain [where P = ms_admitted and f = "\<lambda>st. st\<lparr>ms_admitted := True\<rparr>",
        OF metal_invD(1) [OF inv] a]
    by (simp add: metal_running_len_def admit_of_def)
  have "arrival_mono (mt_requests (admit_of r s))"
    using metal_invD(2) [OF inv] unfolding arrival_mono_def admit_of_simps by (auto split: if_splits)
  moreover have "metal_is_waiting (admit_of r s) k \<longleftrightarrow> k \<in> set (mt_waiting (admit_of r s))" for k
    using metal_invD(3) [OF inv] metal_invD(5) [OF inv, of k] a by (auto simp: metal_is_waiting_def)
  moreover have "request_ok (admit_of r s) e" if "e \<in> set (mt_requests (admit_of r s))" for e
    using that metal_invD(8) [OF inv]
    by (fastforce simp: request_ok_def admit_of_def hm_modify_def split: if_splits)
  ultimately show "metal_inv (admit_of r s)"
    using metal_invD(1,3,4,7) [OF inv] room len unfolding metal_inv_def
    by (simp add: sorted_remove1)
qed

subsection \<open>Steps\<close>

definition snapshot_ok :: "metal_runtime_request_state list \<Rightarrow> metal_request_state \<Rightarrow> bool" where
  "snapshot_ok rts st \<longleftrightarrow> (\<exists>rt. runtime_state rts (ms_req_id st) = Some rt \<and>
     (rt_phase rt = PhDecoding \<longrightarrow> rt_last_token rt \<noteq> None))"

definition decoding :: "metal_runtime_request_state list \<Rightarrow> metal_request_state \<Rightarrow> bool" where
  "decoding rts st \<longleftrightarrow> ms_admitted st \<and>
     (\<exists>rt. runtime_state rts (ms_req_id st) = Some rt \<and> rt_phase rt = PhDecoding)"

lemma validate_states_iff:
  "validate_states rts sts = Some () \<longleftrightarrow> (\<forall>st\<in>set sts. ms_admitted st \<longrightarrow> snapshot_ok rts st)"
  by (induction sts) (auto simp: snapshot_ok_def split: Option.bind_splits if_splits)

text \<open>The decode states in closed form: the admitted requests whose snapshot decodes.\<close>

definition decode_state_of :: "metal_runtime_request_state list \<Rightarrow> metal_request_state \<Rightarrow> metal_request_state \<times> token \<times> nat" where
  "decode_state_of rts st = (let rt = the (runtime_state rts (ms_req_id st))
     in (st, the (rt_last_token rt), logical_offset rt))"

lemma decode_states_closed:
  assumes "\<forall>st\<in>set sts. ms_admitted st \<longrightarrow> snapshot_ok rts st"
  shows "decode_states rts sts = Some (map (decode_state_of rts) (filter (decoding rts) sts))"
  using assms
  by (induction sts) (auto simp: snapshot_ok_def decoding_def decode_state_of_def)

lemma runtime_state_mem: "runtime_state rts r = Some rt \<Longrightarrow> rt \<in> set rts \<and> rt_req_id rt = r"
  by (auto simp: runtime_state_def find_Some_iff)

lemma prefill_row_for_state:
  "prefill_row_for rts i cap r new s = Some (ps, s') \<Longrightarrow>
     mt_requests s' = mt_requests s \<and> mt_waiting s' = mt_waiting s \<and> mt_config s' = mt_config s \<and>
     mt_next_req_id s' = mt_next_req_id s \<and> mt_next_arrival_order s' = mt_next_arrival_order s"
  by (auto simp: prefill_row_for_def Let_def split: option.splits if_splits Option.bind_splits)

lemma prefill_row_for_inv:
  "prefill_row_for rts i cap r new s = Some (ps, s') \<Longrightarrow> metal_inv s' = metal_inv s"
  by (drule prefill_row_for_state) (simp add: metal_inv_def metal_state_simps)

lemma prefill_row_for_row:
  assumes b: "prefill_row_for rts i cap r new s = Some (ps, s')" and st: "map_of (mt_requests s) r = Some st"
  defines "start \<equiv> if new then 0 else min (rt_prompt_progress (the (runtime_state rts r))) (prompt_len st)"
  shows "start \<le> prompt_len st"
    "ps = [prefill_row_new i r (take (min (start + cap) (prompt_len st) - start) (drop start (ms_prompt_tokens st)))
             start (min (start + cap) (prompt_len st)) (prompt_len st)]"
proof -
  show "start \<le> prompt_len st" by (simp add: start_def)
  obtain k where k: "(if new then Some 0
      else map_option (\<lambda>rt. min (rt_prompt_progress rt) (prompt_len st)) (runtime_state rts r)) = Some k"
    using b st by (auto simp: prefill_row_for_def split: Option.bind_splits)
  then have "k = start" by (auto simp: start_def split: if_splits)
  with b st k show "ps = [prefill_row_new i r
      (take (min (start + cap) (prompt_len st) - start) (drop start (ms_prompt_tokens st)))
      start (min (start + cap) (prompt_len st)) (prompt_len st)]"
    by (auto simp: prefill_row_for_def Let_def Prelude.slice_def split: if_splits Option.bind_splits)
qed

lemma build_prefill_cases:
  assumes inv: "metal_inv s" and b: "metal_build_prefill_rows rts i s = Some (ps, s')"
  defines "cap \<equiv> max_batch_tokens (mt_config s) - count_decode_runtime rts"
  obtains
    (idle) "ps = []" "s' = s"
  | (continues) r where "0 < cap" "find_prefilling_request s rts = Some r" "prefill_row_for rts i cap r False s = Some (ps, s')"
  | (admits) r a where "0 < cap" "find_prefilling_request s rts = None"
      "metal_running_len s < max_running_requests (mt_config s)"
      "r \<in> set (mt_waiting s)" "map_of (mt_requests s) r = Some a"
      "\<And>w b. w \<in> set (mt_waiting s) \<Longrightarrow> map_of (mt_requests s) w = Some b \<Longrightarrow> compare_priority_waiting a b \<noteq> Greater"
      "prefill_row_for rts i cap r True (admit_of r s) = Some (ps, s')"
proof (cases "0 < cap")
  case False
  with b idle show thesis by (auto simp: metal_build_prefill_rows_def metal_prefill_chunk_budget_def cap_def)
next
  case cap: True
  show thesis
  proof (cases "find_prefilling_request s rts")
    case (Some r)
    with b cap continues show thesis
      by (auto simp: metal_build_prefill_rows_def metal_prefill_chunk_budget_def cap_def)
  next
    case None
    show thesis
    proof (cases "metal_running_len s < max_running_requests (mt_config s)")
      case False
      with b cap None idle show thesis
        by (auto simp: metal_build_prefill_rows_def metal_prefill_chunk_budget_def cap_def)
    next
      case room: True
      from admit_spec [OF inv] show thesis
      proof (elim disjE exE conjE)
        assume "admit_next_waiting_request s = (None, s)"
        with b cap None room idle show thesis
          by (auto simp: metal_build_prefill_rows_def metal_prefill_chunk_budget_def cap_def)
      next
        fix r a
        assume r: "r \<in> set (mt_waiting s)" "map_of (mt_requests s) r = Some a"
          and least: "\<forall>w b. w \<in> set (mt_waiting s) \<longrightarrow> map_of (mt_requests s) w = Some b \<longrightarrow>
             compare_priority_waiting a b \<noteq> Greater"
          and adm: "admit_next_waiting_request s = (Some r, admit_of r s)"
        have "prefill_row_for rts i cap r True (admit_of r s) = Some (ps, s')"
          using b cap None room adm
          by (simp add: metal_build_prefill_rows_def metal_prefill_chunk_budget_def cap_def)
        then show thesis using admits [OF cap None room r] least by blast
      qed
    qed
  qed
qed

lemma build_prefill_inv:
  assumes inv: "metal_inv s" and b: "metal_build_prefill_rows rts i s = Some (ps, s')"
  shows "metal_inv s'"
  using inv b
proof (cases rule: build_prefill_cases)
  case (continues r)
  then show ?thesis using inv prefill_row_for_inv by blast
next
  case (admits r a)
  then show ?thesis using prefill_row_for_inv admit_inv(1) [OF inv] by blast
qed (use inv in simp)

lemma metal_step_cases:
  assumes "metal_step rts s = Some (st, s')"
  obtains ds ps where "validate_runtime_snapshots s rts = Some ()"
    "metal_build_decode_rows s rts = Some ds"
    "metal_build_prefill_rows rts (length ds) s = Some (ps, s')" "st = step_of_plan (plan_new ds ps)"
  using assms by (auto simp: metal_step_def build_logical_plan_def split: Option.bind_splits)

lemma metal_step_inv: "metal_inv s \<Longrightarrow> metal_step rts s = Some (st, s') \<Longrightarrow> metal_inv s'"
  by (elim metal_step_cases) (rule build_prefill_inv)

end
