(* ===== verification/Metal_Props.thy ===== *)
theory Metal_Props
  imports Metal_Inv
begin

text \<open>
  What the Metal scheduler promises: its invariant in every reachable state, when a step returns,
  which rows it emits and whom it admits.
\<close>

inductive metal_reachable :: "metal_scheduler_config \<Rightarrow> metal_scheduler \<Rightarrow> bool" for cfg where
  new: "metal_new cfg = Inr s \<Longrightarrow> metal_reachable cfg s"
| submit: "metal_reachable cfg s \<Longrightarrow> metal_reachable cfg (snd (metal_submit prompt mx prio s))"
| step: "metal_reachable cfg s \<Longrightarrow> metal_step rts s = Some (st, s') \<Longrightarrow> metal_reachable cfg s'"
| rewrite: "metal_reachable cfg s \<Longrightarrow> metal_reachable cfg (snd (rewrite_waiting_prompt r prompt s))"
| finish: "metal_reachable cfg s \<Longrightarrow> metal_reachable cfg (snd (metal_finish_request r md s))"

lemma build_prefill_config:
  assumes "metal_inv s" "metal_build_prefill_rows rts i s = Some (ps, s')"
  shows "mt_config s' = mt_config s"
  using assms
  by (cases rule: build_prefill_cases) (auto dest: prefill_row_for_state)

lemma metal_reachable_inv: "metal_reachable cfg s \<Longrightarrow> metal_inv s \<and> mt_config s = cfg"
proof (induction rule: metal_reachable.induct)
  case (new s)
  then show ?case by (auto intro: metal_new_inv) (auto simp: metal_new_def split: sum.splits)
next
  case (submit s prompt mx prio)
  then show ?case by (simp add: metal_submit_inv) (simp add: metal_submit_def Let_def)
next
  case (step s rts st s')
  then show ?case
    by (elim metal_step_cases) (use build_prefill_config step metal_step_inv in blast)
next
  case (rewrite s r prompt)
  then show ?case by (simp add: metal_rewrite_inv) (simp add: rewrite_waiting_prompt_def split: option.splits)
next
  case (finish s r md)
  then show ?case
    by (simp add: metal_finish_inv)
       (auto simp: metal_finish_request_def metal_remove_request_def split: option.splits)
qed

lemmas metal_reach = metal_reachable_inv [THEN conjunct1] metal_reachable_inv [THEN conjunct2]

subsection \<open>A run used by the witnesses\<close>

definition demo_cfg :: metal_scheduler_config where
  "demo_cfg = \<lparr>max_running_requests = 2, max_batch_tokens = 4\<rparr>"

definition demo_rt :: "request_id \<Rightarrow> metal_request_phase \<Rightarrow> nat \<Rightarrow> token option \<Rightarrow> metal_runtime_request_state" where
  "demo_rt r ph n tok = \<lparr>rt_req_id = r, rt_phase = ph, rt_prompt_progress = n,
     rt_generated_tokens = (if tok = None then 0 else 1), rt_last_token = tok\<rparr>"

definition demo_sched0 :: metal_scheduler where
  "demo_sched0 = (case metal_new demo_cfg of Inr s \<Rightarrow> s | Inl _ \<Rightarrow> undefined)"

definition demo_sched1 :: metal_scheduler where
  "demo_sched1 = snd (metal_submit [9, 9, 9] 4 MNormal (snd (metal_submit [7, 8] 4 MHigh
     (snd (metal_submit [1, 2, 3, 4, 5, 6] 8 MNormal demo_sched0)))))"

definition demo_sched2 :: metal_scheduler where
  "demo_sched2 = (case metal_step [] demo_sched1 of Some (_, s) \<Rightarrow> s | None \<Rightarrow> undefined)"

definition demo_rts2 :: "metal_runtime_request_state list" where
  "demo_rts2 = [demo_rt 1 PhDecoding 2 (Some 42)]"

lemma demo_sched2_reachable: "metal_reachable demo_cfg demo_sched2"
proof -
  have "metal_new demo_cfg = Inr demo_sched0" by code_simp
  then have "metal_reachable demo_cfg demo_sched1"
    unfolding demo_sched1_def by (intro metal_reachable.submit metal_reachable.new)
  moreover have "metal_step [] demo_sched1 \<noteq> None" by code_simp
  ultimately show ?thesis
    unfolding demo_sched2_def by (auto intro: metal_reachable.step)
qed

subsection \<open>The queue and the running set\<close>

lemma waiting_length:
  assumes inv: "metal_inv s"
  shows "length (mt_waiting s) = length (filter (\<lambda>st. \<not> ms_admitted st) (map snd (mt_requests s)))"
proof -
  let ?w = "map fst (filter (\<lambda>e. \<not> ms_admitted (snd e)) (mt_requests s))"
  have "r \<in> set ?w \<longleftrightarrow> metal_is_waiting s r" for r
    using map_of_mem [OF metal_invD(1) [OF inv]]
    by (force simp: metal_is_waiting_def image_iff split: option.splits)
  then have "set ?w = set (mt_waiting s)" using metal_invD(5) [OF inv] by blast
  moreover have "distinct ?w" using metal_invD(1) [OF inv] by simp
  ultimately have "length ?w = length (mt_waiting s)"
    using metal_invD(3) [OF inv] by (metis distinct_card)
  then show ?thesis by (simp add: filter_map comp_def)
qed

text \<open>
  (C17) In every state reachable by submissions, steps, prompt rewrites and removals, whatever the
  runtime reports: at most \<open>max_running_requests\<close> requests are admitted; the queue holds exactly
  the requests that are not admitted, each once and in order of arrival; and queue and running set
  together are all the requests.
\<close>
theorem metal_queue_and_running_set:
  assumes "metal_reachable cfg s"
  shows "metal_running_len s \<le> max_running_requests cfg
    \<and> metal_waiting_len s + metal_running_len s = length (mt_requests s)
    \<and> (r \<in> set (mt_waiting s) \<longleftrightarrow> metal_is_waiting s r)
    \<and> sorted (mt_waiting s) \<and> distinct (mt_waiting s)"
proof -
  note inv = metal_reach(1) [OF assms] and cfg = metal_reach(2) [OF assms]
  have "metal_waiting_len s + metal_running_len s = length (mt_requests s)"
    using waiting_length [OF inv] sum_length_filter_compl [of ms_admitted "map snd (mt_requests s)"]
    by (simp add: metal_waiting_len_def metal_running_len_def)
  then show ?thesis using metal_invD(3-6) [OF inv] cfg by auto
qed

theorem metal_queue_and_running_set_witness:
  "metal_running_len demo_sched2 = 1 \<and> mt_waiting demo_sched2 = [0, 2]
    \<and> metal_waiting_len demo_sched2 + metal_running_len demo_sched2 = length (mt_requests demo_sched2)"
proof -
  have "metal_running_len demo_sched2 = 1" "mt_waiting demo_sched2 = [0, 2]" by code_simp+
  with metal_queue_and_running_set [OF demo_sched2_reachable] show ?thesis by blast
qed

subsection \<open>When a step returns\<close>

lemma build_decode_rows_closed:
  assumes "\<forall>st\<in>set (map snd (mt_requests s)). ms_admitted st \<longrightarrow> snapshot_ok rts st"
  shows "metal_build_decode_rows s rts =
    (let sorted = sort_by (\<lambda>a b. compare_decode_order (fst a) (fst b))
        (map (decode_state_of rts) (filter (decoding rts) (map snd (mt_requests s))))
     in Some (map (\<lambda>(i, st, tok, off). decode_row_new i (ms_req_id st) tok off) (zip [0..<length sorted] sorted)))"
  using decode_states_closed [OF assms]
  by (simp add: metal_build_decode_rows_def Let_def case_prod_beta')

lemma find_prefilling_SomeD:
  assumes inv: "metal_inv s" and f: "find_prefilling_request s rts = Some r"
  obtains st rt where "map_of (mt_requests s) r = Some st" "ms_admitted st" "ms_req_id st = r"
    "runtime_state rts r = Some rt" "rt_phase rt = PhPrefilling"
proof -
  from f obtain st where "st \<in> set (map snd (mt_requests s))" "ms_admitted st" "r = ms_req_id st"
    "\<exists>rt. runtime_state rts (ms_req_id st) = Some rt \<and> rt_phase rt = PhPrefilling"
    by (fastforce simp: find_prefilling_request_def dest!: min_by_in split: option.splits)
  moreover have "map_of (mt_requests s) (ms_req_id st) = Some st"
    using calculation(1) metal_invD(8) [OF inv] map_of_mem [OF metal_invD(1) [OF inv]]
    by (auto simp: request_ok_def)
  ultimately show thesis using that by blast
qed

lemma prefill_row_for_total:
  assumes "\<And>st. map_of (mt_requests s) r = Some st \<Longrightarrow> prompt_len st + cap \<le> usize_max"
    "new \<or> runtime_state rts r \<noteq> None"
  shows "prefill_row_for rts i cap r new s \<noteq> None"
  using assms
  by (fastforce simp: prefill_row_for_def Let_def Prelude.slice_def prompt_len_def split: option.splits)

lemma build_prefill_total:
  assumes inv: "metal_inv s"
    and small: "\<And>r st. map_of (mt_requests s) r = Some st \<Longrightarrow> prompt_len st + max_batch_tokens (mt_config s) \<le> usize_max"
  shows "metal_build_prefill_rows rts i s \<noteq> None"
proof -
  let ?cap = "max_batch_tokens (mt_config s) - count_decode_runtime rts"
  have le: "prompt_len st + ?cap \<le> usize_max" if "map_of (mt_requests s) r = Some st" for r st
    using small [OF that] by simp
  have cont: "prefill_row_for rts i ?cap r False s \<noteq> None" if "find_prefilling_request s rts = Some r" for r
    by (rule prefill_row_for_total) (use find_prefilling_SomeD [OF inv that] le in \<open>auto\<close>)
  have admit: "prefill_row_for rts i ?cap r True (admit_of r s) \<noteq> None" for r
    by (rule prefill_row_for_total) (use le in \<open>auto simp: prompt_len_def split: if_splits\<close>)
  from admit_spec [OF inv] show ?thesis
    using cont admit
    by (auto simp: metal_build_prefill_rows_def metal_prefill_chunk_budget_def Let_def split: option.split)
qed

text \<open>
  (C38) A step of a reachable scheduler returns exactly when the runtime reports every admitted
  request, and a last token for every admitted request that decodes; every other report is a
  panic. The hypothesis rules out the overflow of the end of a chunk.
\<close>
theorem metal_step_returns_iff:
  assumes "metal_reachable cfg s"
    and "\<And>r st. map_of (mt_requests s) r = Some st \<Longrightarrow> prompt_len st + max_batch_tokens cfg \<le> usize_max"
  shows "(\<exists>out. metal_step rts s = Some out) \<longleftrightarrow>
    (\<forall>r st. map_of (mt_requests s) r = Some st \<longrightarrow> ms_admitted st \<longrightarrow>
       (\<exists>rt. runtime_state rts r = Some rt \<and> (rt_phase rt = PhDecoding \<longrightarrow> rt_last_token rt \<noteq> None)))"
    (is "?L \<longleftrightarrow> ?R")
proof -
  note inv = metal_reach(1) [OF assms(1)] and cfg = metal_reach(2) [OF assms(1)]
  have "?R \<longleftrightarrow> (\<forall>st\<in>set (map snd (mt_requests s)). ms_admitted st \<longrightarrow> snapshot_ok rts st)" (is "_ \<longleftrightarrow> ?V")
    using metal_requestD [OF inv] map_of_mem [OF metal_invD(1) [OF inv]] by (fastforce simp: snapshot_ok_def)
  moreover have "?L \<longrightarrow> ?V"
    unfolding validate_states_iff [symmetric] validate_runtime_snapshots_def [symmetric]
    by (auto elim: metal_step_cases)
  moreover have ?L if v: ?V
  proof -
    obtain ds where ds: "metal_build_decode_rows s rts = Some ds"
      using build_decode_rows_closed [OF v] by (simp add: Let_def)
    have "metal_build_prefill_rows rts (length ds) s \<noteq> None"
      by (rule build_prefill_total [OF inv]) (use assms(2) cfg in blast)
    moreover have "validate_runtime_snapshots s rts = Some ()"
      using v by (simp only: validate_runtime_snapshots_def validate_states_iff)
    ultimately show ?thesis using ds by (auto simp: metal_step_def build_logical_plan_def)
  qed
  ultimately show ?thesis by blast
qed

theorem metal_step_returns_iff_witness:
  "(\<exists>out. metal_step demo_rts2 demo_sched2 = Some out) \<and> \<not> (\<exists>out. metal_step [] demo_sched2 = Some out)"
proof -
  have *: "prompt_len st + max_batch_tokens demo_cfg \<le> usize_max"
    if "map_of (mt_requests demo_sched2) r = Some st" for r st
  proof -
    have "\<forall>st\<in>set (map snd (mt_requests demo_sched2)). prompt_len st \<le> 6" by code_simp
    then have "prompt_len st \<le> 6" using map_of_SomeD [OF that] by force
    then show ?thesis by (simp add: demo_cfg_def usize_max_def)
  qed
  have "\<forall>e\<in>set (mt_requests demo_sched2). ms_admitted (snd e) \<longrightarrow> fst e = 1" by code_simp
  then have adm: "r = 1" if "map_of (mt_requests demo_sched2) r = Some st" "ms_admitted st" for r st
    using map_of_SomeD [OF that(1)] that(2) by force
  have ex: "map_of (mt_requests demo_sched2) 1 \<noteq> None" "ms_admitted (the (map_of (mt_requests demo_sched2) 1))"
    by code_simp+
  have iff: "(\<exists>out. metal_step rts demo_sched2 = Some out) \<longleftrightarrow>
    (\<forall>r st. map_of (mt_requests demo_sched2) r = Some st \<longrightarrow> ms_admitted st \<longrightarrow>
       (\<exists>rt. runtime_state rts r = Some rt \<and> (rt_phase rt = PhDecoding \<longrightarrow> rt_last_token rt \<noteq> None)))" for rts
    by (rule metal_step_returns_iff [OF demo_sched2_reachable]) (rule *)
  have "\<exists>out. metal_step demo_rts2 demo_sched2 = Some out"
    unfolding iff using adm by (auto simp: demo_rts2_def runtime_state_def demo_rt_def)
  moreover have "\<not> (\<exists>out. metal_step [] demo_sched2 = Some out)"
    unfolding iff using ex by (auto simp: runtime_state_def intro!: exI [of _ 1])
  ultimately show ?thesis by blast
qed

subsection \<open>The rows of a step\<close>

text \<open>The decode rows of a returning step, in terms of the sorted list of decoding requests.\<close>

definition decode_order_list :: "metal_runtime_request_state list \<Rightarrow> metal_scheduler \<Rightarrow> (metal_request_state \<times> token \<times> nat) list" where
  "decode_order_list rts s = sort_by (\<lambda>a b. compare_decode_order (fst a) (fst b))
     (map (decode_state_of rts) (filter (decoding rts) (map snd (mt_requests s))))"

definition row_of :: "(metal_request_state \<times> token \<times> nat) list \<Rightarrow> nat \<Rightarrow> decode_row" where
  "row_of xs i = decode_row_new i (ms_req_id (fst (xs ! i))) (fst (snd (xs ! i))) (snd (snd (xs ! i)))"

lemma zip_upt_map: "map f (zip [0..<length xs] xs) = map (\<lambda>i. f (i, xs ! i)) [0..<length xs]"
  by (rule nth_equalityI) auto

lemma step_decode_rows:
  assumes "metal_step rts s = Some (st, s')"
  shows "sv_decode_rows (st_plan st) = map (row_of (decode_order_list rts s)) [0..<length (decode_order_list rts s)]"
    "\<forall>q\<in>set (map snd (mt_requests s)). ms_admitted q \<longrightarrow> snapshot_ok rts q"
proof -
  from assms obtain ds ps where v: "validate_runtime_snapshots s rts = Some ()"
    and ds: "metal_build_decode_rows s rts = Some ds" and st: "st = step_of_plan (plan_new ds ps)"
    by (rule metal_step_cases)
  show ok: "\<forall>q\<in>set (map snd (mt_requests s)). ms_admitted q \<longrightarrow> snapshot_ok rts q"
    using v by (simp only: validate_runtime_snapshots_def validate_states_iff)
  show "sv_decode_rows (st_plan st) = map (row_of (decode_order_list rts s)) [0..<length (decode_order_list rts s)]"
    using build_decode_rows_closed [OF ok] ds
    by (simp add: st step_of_plan_def Let_def decode_order_list_def [symmetric] zip_upt_map row_of_def
        case_prod_beta')
qed

lemma decode_order_mem:
  assumes inv: "metal_inv s"
  shows "x \<in> set (decode_order_list rts s) \<longleftrightarrow>
    (\<exists>r q. map_of (mt_requests s) r = Some q \<and> decoding rts q \<and> x = decode_state_of rts q)"
  using map_of_mem [OF metal_invD(1) [OF inv]]
  by (force simp: decode_order_list_def)

lemma decode_order_ids:
  assumes inv: "metal_inv s"
  shows "distinct (map (ms_req_id \<circ> fst) (decode_order_list rts s))"
    "set (map (ms_req_id \<circ> fst) (decode_order_list rts s)) =
       {r. \<exists>q. map_of (mt_requests s) r = Some q \<and> decoding rts q}"
    "length (decode_order_list rts s) \<le> metal_running_len s"
proof -
  let ?ids = "map fst (filter (decoding rts \<circ> snd) (mt_requests s))"
  have eq: "map ms_req_id (filter (decoding rts) (map snd (mt_requests s))) = ?ids"
    using metal_invD(8) [OF inv] by (auto simp: filter_map request_ok_def)
  have "mset (map (ms_req_id \<circ> fst) (decode_order_list rts s)) = mset (map (ms_req_id \<circ> fst)
      (map (decode_state_of rts) (filter (decoding rts) (map snd (mt_requests s)))))"
    by (simp only: decode_order_list_def mset_map mset_sort_by)
  also have "\<dots> = mset ?ids"
    unfolding eq [symmetric] by (simp add: comp_def decode_state_of_def Let_def)
  finally have m: "mset (map (ms_req_id \<circ> fst) (decode_order_list rts s)) = mset ?ids" .
  show "distinct (map (ms_req_id \<circ> fst) (decode_order_list rts s))"
    using metal_invD(1) [OF inv] mset_eq_imp_distinct_iff [OF m] by simp
  show "set (map (ms_req_id \<circ> fst) (decode_order_list rts s)) =
      {r. \<exists>q. map_of (mt_requests s) r = Some q \<and> decoding rts q}"
    unfolding mset_eq_setD [OF m] map_of_mem [OF metal_invD(1) [OF inv], symmetric]
    by (auto simp: image_iff)
  have "length (filter (decoding rts) xs) \<le> length (filter ms_admitted xs)" for xs
    by (induction xs) (auto simp: decoding_def)
  from this [of "map snd (mt_requests s)"] show "length (decode_order_list rts s) \<le> metal_running_len s"
    by (simp add: decode_order_list_def metal_running_len_def)
qed

lemma decode_row_ids:
  assumes inv: "metal_inv s" and step: "metal_step rts s = Some (st, s')"
  shows "map dr_req_id (sv_decode_rows (st_plan st)) = map (ms_req_id \<circ> fst) (decode_order_list rts s)"
    "set (map dr_req_id (sv_decode_rows (st_plan st))) =
       {r. \<exists>q. map_of (mt_requests s) r = Some q \<and> decoding rts q}"
proof -
  show eq: "map dr_req_id (sv_decode_rows (st_plan st)) = map (ms_req_id \<circ> fst) (decode_order_list rts s)"
    by (rule nth_equalityI) (simp_all add: step_decode_rows(1) [OF step] row_of_def decode_row_new_def)
  show "set (map dr_req_id (sv_decode_rows (st_plan st))) =
      {r. \<exists>q. map_of (mt_requests s) r = Some q \<and> decoding rts q}"
    unfolding eq by (rule decode_order_ids(2) [OF inv])
qed

text \<open>
  The decode rows of a step are numbered from 0 and are exactly the admitted requests that
  the runtime reports as decoding, once each, highest priority first and in order of arrival
  within a priority; each row feeds the last token of its request at the position after its
  prompt and its earlier tokens.
\<close>
theorem metal_decode_rows_exact:
  assumes "metal_reachable cfg s" and "metal_step rts s = Some (st, s')"
  defines "ds \<equiv> sv_decode_rows (st_plan st)"
  shows "map dr_row_index ds = [0..<length ds] \<and> distinct (map dr_req_id ds)
    \<and> set (map dr_req_id ds) = {r. \<exists>q. map_of (mt_requests s) r = Some q \<and> decoding rts q}
    \<and> (\<forall>d\<in>set ds. \<exists>rt. runtime_state rts (dr_req_id d) = Some rt \<and> rt_last_token rt = Some (dr_input_token d) \<and>
         dr_logical_kv_offset d = saturating_add usize_max (rt_prompt_progress rt) (rt_generated_tokens rt - 1))
    \<and> sorted_wrt (\<lambda>d d'. compare_decode_order (the (map_of (mt_requests s) (dr_req_id d)))
                           (the (map_of (mt_requests s) (dr_req_id d'))) \<noteq> Greater) ds"
proof -
  note inv = metal_reach(1) [OF assms(1)]
  let ?xs = "decode_order_list rts s"
  note rows = step_decode_rows [OF assms(2)]
  have ds: "ds = map (row_of ?xs) [0..<length ?xs]" by (simp add: ds_def rows)
  have ids: "map dr_req_id ds = map (ms_req_id \<circ> fst) ?xs"
    by (rule nth_equalityI) (simp_all add: ds row_of_def decode_row_new_def)
  have elem: "\<exists>q rt tok. ?xs ! i = (q, tok, logical_offset rt) \<and> map_of (mt_requests s) (ms_req_id q) = Some q \<and>
      runtime_state rts (ms_req_id q) = Some rt \<and> rt_last_token rt = Some tok" if i: "i < length ?xs" for i
  proof -
    obtain r q where q: "map_of (mt_requests s) r = Some q" "decoding rts q" "?xs ! i = decode_state_of rts q"
      using i decode_order_mem [OF inv, of "?xs ! i" rts] by auto
    then have "snapshot_ok rts q" using rows(2) map_of_Cons_snd [OF metal_invD(1) [OF inv] q(1)]
      by (auto simp: decoding_def)
    then show ?thesis using q metal_requestD [OF inv q(1)]
      by (auto simp: decoding_def snapshot_ok_def decode_state_of_def Let_def)
  qed
  have "sorted_wrt (\<lambda>a b. compare_decode_order (fst a) (fst b) \<noteq> Greater) ?xs"
    unfolding decode_order_list_def
    by (rule comparison.sorted_sort_by [OF comparison_on [OF decode_order.comparison_axioms]])
  then have "sorted_wrt (\<lambda>d d'. compare_decode_order (the (map_of (mt_requests s) (dr_req_id d)))
      (the (map_of (mt_requests s) (dr_req_id d'))) \<noteq> Greater) ds"
    unfolding sorted_wrt_iff_nth_less
  proof (intro allI impI)
    fix i j assume s: "\<forall>i j. i < j \<longrightarrow> j < length ?xs \<longrightarrow> compare_decode_order (fst (?xs ! i)) (fst (?xs ! j)) \<noteq> Greater"
      and ij: "i < j" and j: "j < length ds"
    have req: "the (map_of (mt_requests s) (dr_req_id (row_of ?xs k))) = fst (?xs ! k)" if "k < length ?xs" for k
      using elem [OF that] that by (auto simp: ds row_of_def decode_row_new_def)
    show "compare_decode_order (the (map_of (mt_requests s) (dr_req_id (ds ! i))))
        (the (map_of (mt_requests s) (dr_req_id (ds ! j)))) \<noteq> Greater"
      using s ij j by (simp add: req ds)
  qed
  moreover have "\<forall>d\<in>set ds. \<exists>rt. runtime_state rts (dr_req_id d) = Some rt \<and> rt_last_token rt = Some (dr_input_token d) \<and>
      dr_logical_kv_offset d = saturating_add usize_max (rt_prompt_progress rt) (rt_generated_tokens rt - 1)"
  proof
    fix d assume "d \<in> set ds"
    then obtain i where "i < length ?xs" "d = row_of ?xs i" by (auto simp: ds)
    with elem show "\<exists>rt. runtime_state rts (dr_req_id d) = Some rt \<and> rt_last_token rt = Some (dr_input_token d) \<and>
      dr_logical_kv_offset d = saturating_add usize_max (rt_prompt_progress rt) (rt_generated_tokens rt - 1)"
      by (fastforce simp: row_of_def decode_row_new_def logical_offset_def)
  qed
  moreover have "map dr_row_index ds = [0..<length ds]"
    by (rule nth_equalityI) (simp_all add: ds row_of_def decode_row_new_def)
  ultimately show ?thesis using decode_order_ids(1,2) [OF inv, of rts] ids by simp
qed

definition demo_out2 :: "metal_schedule_step \<times> metal_scheduler" where
  "demo_out2 = the (metal_step demo_rts2 demo_sched2)"

lemma demo_step2: "metal_step demo_rts2 demo_sched2 = Some (fst demo_out2, snd demo_out2)"
proof -
  have "metal_step demo_rts2 demo_sched2 \<noteq> None" by code_simp
  then show ?thesis by (auto simp: demo_out2_def)
qed

theorem metal_decode_rows_exact_witness:
  "map dr_req_id (sv_decode_rows (st_plan (fst demo_out2))) = [1]
    \<and> map dr_row_index (sv_decode_rows (st_plan (fst demo_out2))) = [0]"
proof -
  have "length (sv_decode_rows (st_plan (fst demo_out2))) = 1"
    "map dr_req_id (sv_decode_rows (st_plan (fst demo_out2))) = [1]" by code_simp+
  with metal_decode_rows_exact [OF demo_sched2_reachable demo_step2] show ?thesis by simp
qed

text \<open>The prefill rows: at most one, of a request that is admitted after the step.\<close>

lemma step_prefill_rows:
  assumes inv: "metal_inv s" and step: "metal_step rts s = Some (st, s')"
  defines "cap \<equiv> max_batch_tokens (mt_config s) - count_decode_runtime rts"
    and "ps \<equiv> sv_prefill_rows (st_plan st)"
  obtains
    (idle) "ps = []" "s' = s"
  | (row) r new q start where "0 < cap" "map_of (mt_requests s') r = Some q" "ms_admitted q"
      "start = (if new then 0 else min (rt_prompt_progress (the (runtime_state rts r))) (prompt_len q))"
      "start \<le> prompt_len q"
      "ps = [prefill_row_new (length (sv_decode_rows (st_plan st))) r
               (take (min (start + cap) (prompt_len q) - start) (drop start (ms_prompt_tokens q)))
               start (min (start + cap) (prompt_len q)) (prompt_len q)]"
      "\<not> (\<exists>q'. map_of (mt_requests s) r = Some q' \<and> decoding rts q')"
      "new \<longleftrightarrow> r \<in> set (mt_waiting s)"
proof -
  from step obtain ds ps' where b: "metal_build_prefill_rows rts (length ds) s = Some (ps', s')"
    and st: "st = step_of_plan (plan_new ds ps')"
    by (rule metal_step_cases)
  have ps: "ps = ps'" "length (sv_decode_rows (st_plan st)) = length ds"
    by (simp_all add: ps_def st step_of_plan_def)
  from inv b show thesis
  proof (cases rule: build_prefill_cases)
    case idle
    with that(1) show ?thesis by (simp add: ps)
  next
    case (continues r)
    from find_prefilling_SomeD [OF inv continues(2)] obtain q rt where q: "map_of (mt_requests s) r = Some q"
      "ms_admitted q" "ms_req_id q = r" "runtime_state rts r = Some rt" "rt_phase rt = PhPrefilling" by blast
    note row = prefill_row_for_row [OF continues(3) q(1)] and state = prefill_row_for_state [OF continues(3)]
    show ?thesis
    proof (rule that(2) [of r q _ False])
      show "\<not> (\<exists>q'. map_of (mt_requests s) r = Some q' \<and> decoding rts q')"
        using q by (auto simp: decoding_def)
      show "False \<longleftrightarrow> r \<in> set (mt_waiting s)" using q metal_invD(5) [OF inv, of r] by (simp add: metal_is_waiting_def)
    qed (use row q state continues(1) ps in \<open>simp_all add: cap_def\<close>)
  next
    case (admits r a)
    then have a: "\<not> ms_admitted a" using waiting_mem [OF inv admits(4)] by auto
    define q where "q = a\<lparr>ms_admitted := True\<rparr>"
    have q: "map_of (mt_requests (admit_of r s)) r = Some q" using admits(5) by (simp add: q_def)
    note row = prefill_row_for_row [OF admits(7) q] and state = prefill_row_for_state [OF admits(7)]
    show ?thesis
    proof (rule that(2) [of r q _ True])
      show "\<not> (\<exists>q'. map_of (mt_requests s) r = Some q' \<and> decoding rts q')"
        using admits(5) a by (auto simp: decoding_def)
    qed (use row q state admits(1,4) ps in \<open>simp_all add: cap_def, simp_all add: q_def\<close>)
  qed
qed

lemma decode_rows_counted:
  assumes inv: "metal_inv s" and step: "metal_step rts s = Some (st, s')"
  shows "length (sv_decode_rows (st_plan st)) \<le> count_decode_runtime rts"
proof -
  let ?ids = "map (ms_req_id \<circ> fst) (decode_order_list rts s)"
  let ?rs = "filter (\<lambda>rt. rt_phase rt = PhDecoding) rts"
  have "set ?ids \<subseteq> set (map rt_req_id ?rs)"
    unfolding decode_order_ids(2) [OF inv]
    using metal_requestD [OF inv] by (fastforce simp: decoding_def dest!: runtime_state_mem)
  then have "card (set ?ids) \<le> length (map rt_req_id ?rs)"
    by (meson List.finite_set card_length card_mono le_trans)
  then have "length ?ids \<le> length ?rs"
    using distinct_card [OF decode_order_ids(1) [OF inv, of rts]] by simp
  then show ?thesis using step_decode_rows(1) [OF step] by (simp add: count_decode_runtime_def)
qed

text \<open>
  A step decodes at most \<open>max_running_requests\<close> requests and prefills at most one, which is
  not one of them; and a step that prefills at all stays within \<open>max_batch_tokens\<close>, decode
  tokens included.
\<close>
theorem metal_step_within_budget:
  assumes "metal_reachable cfg s" and "metal_step rts s = Some (st, s')"
  defines "p \<equiv> st_plan st"
  shows "length (sv_decode_rows p) \<le> max_running_requests cfg \<and> length (sv_prefill_rows p) \<le> 1
    \<and> set (map pr_req_id (sv_prefill_rows p)) \<inter> set (map dr_req_id (sv_decode_rows p)) = {}
    \<and> (sv_prefill_rows p \<noteq> [] \<longrightarrow> sh_scheduled_tokens (sv_batch_shape p) \<le> max_batch_tokens cfg)
    \<and> (sv_prefill_rows p = [] \<longrightarrow> sh_scheduled_tokens (sv_batch_shape p) \<le> max_running_requests cfg)"
proof -
  note inv = metal_reach(1) [OF assms(1)] and cfg = metal_reach(2) [OF assms(1)]
  note rows = step_decode_rows(1) [OF assms(2), folded p_def]
  have len: "length (sv_decode_rows p) \<le> max_running_requests cfg"
    using decode_order_ids(3) [OF inv, of rts] metal_invD(6) [OF inv] cfg by (simp add: rows)
  have ids: "set (map dr_req_id (sv_decode_rows p)) = {r. \<exists>q. map_of (mt_requests s) r = Some q \<and> decoding rts q}"
    using decode_row_ids(2) [OF inv assms(2)] by (simp add: p_def)
  have shape: "sh_scheduled_tokens (sv_batch_shape p) =
      length (sv_decode_rows p) + sum_list (map token_count (sv_prefill_rows p))"
    using assms(2) by (elim metal_step_cases) (simp add: p_def step_of_plan_def)
  from inv assms(2) show ?thesis
  proof (cases rule: step_prefill_rows)
    case idle
    then show ?thesis using len shape by (simp add: p_def)
  next
    case (row r new q start)
    define chunk where "chunk = token_count (prefill_row_new (length (sv_decode_rows p)) r
       (take (min (start + (max_batch_tokens cfg - count_decode_runtime rts)) (prompt_len q) - start)
          (drop start (ms_prompt_tokens q))) start
       (min (start + (max_batch_tokens cfg - count_decode_runtime rts)) (prompt_len q)) (prompt_len q))"
    have "chunk \<le> max_batch_tokens cfg - count_decode_runtime rts" by (simp add: chunk_def prompt_len_def)
    moreover have "length (sv_decode_rows p) \<le> count_decode_runtime rts"
      unfolding p_def by (rule decode_rows_counted [OF inv assms(2)])
    ultimately have "length (sv_decode_rows p) + chunk \<le> max_batch_tokens cfg" using row(1) cfg by simp
    then show ?thesis using row(6,7) len ids shape
      by (simp add: p_def [symmetric] cfg chunk_def prefill_row_new_def with_logical_kv_span_def)
  qed
qed

theorem metal_step_within_budget_witness:
  "sv_prefill_rows (st_plan (fst demo_out2)) \<noteq> []
    \<and> sh_scheduled_tokens (sv_batch_shape (st_plan (fst demo_out2))) \<le> max_batch_tokens demo_cfg
    \<and> sh_scheduled_tokens (sv_batch_shape (st_plan (fst demo_out2))) = 4"
proof -
  have "sv_prefill_rows (st_plan (fst demo_out2)) \<noteq> []"
    "sh_scheduled_tokens (sv_batch_shape (st_plan (fst demo_out2))) = 4" by code_simp+
  with metal_step_within_budget [OF demo_sched2_reachable demo_step2] show ?thesis by simp
qed

text \<open>
  The prefill row of a step belongs to a request that is admitted afterwards; it starts where
  the runtime left the prompt (at 0 for a request admitted by this step), its tokens are the
  tokens of the prompt from there to its end mark, and it ends with the prompt or fills the budget
  that decoding left. A prompt that is not finished gets at least one token.
\<close>
theorem metal_prefill_row_continues_prompt:
  assumes "metal_reachable cfg s" and "metal_step rts s = Some (st, s')"
    and "row \<in> set (sv_prefill_rows (st_plan st))"
  shows "\<exists>q start. map_of (mt_requests s') (pr_req_id row) = Some q \<and> ms_admitted q
    \<and> start = (if pr_req_id row \<in> set (mt_waiting s) then 0
         else min (rt_prompt_progress (the (runtime_state rts (pr_req_id row)))) (prompt_len q))
    \<and> pr_prompt_start row = start
    \<and> take start (ms_prompt_tokens q) @ pr_input_tokens row = take (pr_prompt_end row) (ms_prompt_tokens q)
    \<and> pr_prompt_end row = min (start + (max_batch_tokens cfg - count_decode_runtime rts)) (prompt_len q)
    \<and> (start < prompt_len q \<longrightarrow> pr_input_tokens row \<noteq> [])"
proof -
  note inv = metal_reach(1) [OF assms(1)] and cfg = metal_reach(2) [OF assms(1)]
  from inv assms(2) show ?thesis
  proof (cases rule: step_prefill_rows)
    case idle
    with assms(3) show ?thesis by simp
  next
    case (row r new q start)
    let ?e = "min (start + (max_batch_tokens (mt_config s) - count_decode_runtime rts)) (prompt_len q)"
    have "row = prefill_row_new (length (sv_decode_rows (st_plan st))) r
       (take (?e - start) (drop start (ms_prompt_tokens q))) start ?e (prompt_len q)"
      using assms(3) row(6) by simp
    then have f: "pr_req_id row = r" "pr_input_tokens row = take (?e - start) (drop start (ms_prompt_tokens q))"
      "pr_prompt_start row = start" "pr_prompt_end row = ?e"
      by (simp_all add: prefill_row_new_def with_logical_kv_span_def)
    have "take start (ms_prompt_tokens q) @ pr_input_tokens row = take ?e (ms_prompt_tokens q)"
      unfolding f(2) using row(5) by (intro take_append_slice) simp
    moreover have "start < prompt_len q \<longrightarrow> pr_input_tokens row \<noteq> []"
      unfolding f(2) using row(1) by (auto simp: prompt_len_def)
    ultimately show ?thesis
      by (intro exI [of _ q] exI [of _ start] conjI) (use row(2-4,8) f cfg in \<open>simp_all only:\<close>)
  qed
qed

theorem metal_prefill_row_continues_prompt_witness:
  "map_option ms_prompt_tokens (map_of (mt_requests (snd demo_out2)) 0) = Some [1, 2, 3, 4, 5, 6]
    \<and> pr_input_tokens (hd (sv_prefill_rows (st_plan (fst demo_out2)))) = [1, 2, 3]"
proof -
  let ?row = "hd (sv_prefill_rows (st_plan (fst demo_out2)))"
  have "sv_prefill_rows (st_plan (fst demo_out2)) \<noteq> []" by code_simp
  then have "?row \<in> set (sv_prefill_rows (st_plan (fst demo_out2)))" by simp
  note c = metal_prefill_row_continues_prompt [OF demo_sched2_reachable demo_step2 this]
  have "pr_req_id ?row = 0" "0 \<in> set (mt_waiting demo_sched2)" "pr_prompt_end ?row = 3"
    "map_option ms_prompt_tokens (map_of (mt_requests (snd demo_out2)) 0) = Some [1, 2, 3, 4, 5, 6]"
    by code_simp+
  with c show ?thesis by auto
qed

subsection \<open>Admission\<close>

text \<open>
  Admission is first come, first served within a priority. When a step takes a request off
  the queue there was room for it and no admitted request was still prefilling; it is the only one
  taken, it is admitted, and every request left in the queue has a lower priority, or the same
  priority and a later arrival.
\<close>
theorem metal_admission_order:
  assumes "metal_reachable cfg s" and "metal_step rts s = Some (st, s')"
    and "r \<in> set (mt_waiting s)" and "r \<notin> set (mt_waiting s')"
  shows "metal_running_len s < max_running_requests cfg \<and> metal_running_len s' = metal_running_len s + 1
    \<and> find_prefilling_request s rts = None \<and> mt_waiting s' = remove1 r (mt_waiting s)
    \<and> (\<forall>w\<in>set (mt_waiting s'). \<exists>a b. map_of (mt_requests s) r = Some a \<and> map_of (mt_requests s) w = Some b \<and>
         (ms_priority b < ms_priority a \<or> ms_priority b = ms_priority a \<and> ms_arrival_order a < ms_arrival_order b))"
proof -
  note inv = metal_reach(1) [OF assms(1)] and cfg = metal_reach(2) [OF assms(1)]
  from assms(2) obtain i ps where "metal_build_prefill_rows rts i s = Some (ps, s')"
    by (rule metal_step_cases)
  with inv show ?thesis
  proof (cases rule: build_prefill_cases)
    case idle
    with assms(3,4) show ?thesis by simp
  next
    case (continues k)
    with assms(3,4) show ?thesis by (auto dest: prefill_row_for_state)
  next
    case (admits k a)
    note state = prefill_row_for_state [OF admits(7)]
    have k: "k = r" using assms(3,4) state metal_invD(3) [OF inv] by auto
    have len: "metal_running_len s' = metal_running_len s + 1"
      using admit_inv(2) [OF inv admits(4,3)] state by (simp add: metal_running_len_def)
    have order: "ms_priority b < ms_priority a \<or> ms_priority b = ms_priority a \<and> ms_arrival_order a < ms_arrival_order b"
      if w: "w \<in> set (mt_waiting s')" and b: "map_of (mt_requests s) w = Some b" for w b
    proof -
      have w': "w \<in> set (mt_waiting s)" "w \<noteq> r"
        using w state k metal_invD(3) [OF inv] by (auto simp: notin_set_remove1)
      have "ms_arrival_order a \<noteq> ms_arrival_order b"
        using metal_invD(2) [OF inv] admits(5) b w'(2) k unfolding arrival_mono_def by (metis less_irrefl linorder_neqE_nat)
      then show ?thesis using admits(6) [OF w'(1) b]
        by (auto simp: compare_priority_waiting_def)
    qed
    have "\<exists>b. map_of (mt_requests s) w = Some b" if "w \<in> set (mt_waiting s')" for w
      using that state waiting_mem [OF inv] by (auto dest: notin_set_remove1)
    then have "\<forall>w\<in>set (mt_waiting s'). \<exists>a b. map_of (mt_requests s) r = Some a \<and> map_of (mt_requests s) w = Some b \<and>
         (ms_priority b < ms_priority a \<or> ms_priority b = ms_priority a \<and> ms_arrival_order a < ms_arrival_order b)"
      using admits(5) order unfolding k by blast
    then show ?thesis using admits(2,3) len state k cfg by simp
  qed
qed

theorem metal_admission_order_witness:
  "0 \<in> set (mt_waiting demo_sched2) \<and> 2 \<in> set (mt_waiting (snd demo_out2))
    \<and> metal_running_len (snd demo_out2) = metal_running_len demo_sched2 + 1
    \<and> mt_waiting (snd demo_out2) = remove1 0 (mt_waiting demo_sched2)"
proof -
  have "0 \<in> set (mt_waiting demo_sched2)" "0 \<notin> set (mt_waiting (snd demo_out2))"
    "2 \<in> set (mt_waiting (snd demo_out2))" by code_simp+
  with metal_admission_order [OF demo_sched2_reachable demo_step2, of 0] show ?thesis by blast
qed

end
