(* ===== verification/Slot_Ledger.thy ===== *)
theory Slot_Ledger
  imports Prelude "HOL-Library.Multiset"
begin

text \<open>
  The token-slot ledger of the Metal KV pool, \<open>infer/src/backend/metal/kv_pool.rs\<close>: a LIFO free
  list, a reference count and an access stamp per slot, and the slots of each request. Operations
  return a sum and the state they leave, also when they fail. Slots and counts are \<open>u32\<close>, stamps
  \<open>u64\<close>; where the code saturates the model does. The debug assertion of \<open>release_slot\<close> is off,
  as in a release build.
\<close>

datatype ledger_error =
    OutOfTokenSlots (requested: nat) (available: nat)
  | SlotOutOfRange (bad_slot: nat) (limit: nat)
  | SlotMissing nat
  | UnknownSourceRequest nat
  | SourceTooShort nat nat

record slot_ledger =
  sl_max_total_tokens :: nat
  sl_free_slots :: "nat list"
  sl_slot_refcounts :: "nat list"
  sl_slot_last_access :: "nat list"
  sl_request_slots :: "(nat, nat list) hmap"
  sl_next_access_tick :: nat

type_synonym 'a ledger_result = "(ledger_error + 'a) \<times> slot_ledger"

definition ledger_new :: "nat \<Rightarrow> slot_ledger" where
  "ledger_new n = \<lparr>sl_max_total_tokens = n, sl_free_slots = rev [0..<n mod 2 ^ 32],
     sl_slot_refcounts = replicate n 0, sl_slot_last_access = replicate n 0,
     sl_request_slots = [], sl_next_access_tick = 1\<rparr>"

definition available_tokens :: "slot_ledger \<Rightarrow> nat" where
  "available_tokens s = length (sl_free_slots s)"

definition total_tokens_used :: "slot_ledger \<Rightarrow> nat" where
  "total_tokens_used s = sl_max_total_tokens s - length (sl_free_slots s)"

definition token_indices :: "slot_ledger \<Rightarrow> nat \<Rightarrow> nat list option" where
  "token_indices s r = map_of (sl_request_slots s) r"

definition slot_index :: "slot_ledger \<Rightarrow> nat \<Rightarrow> ledger_error + nat" where
  "slot_index s x = (if x \<ge> sl_max_total_tokens s then Inl (SlotOutOfRange x (sl_max_total_tokens s)) else Inr x)"

definition slot_refcount :: "slot_ledger \<Rightarrow> nat \<Rightarrow> (ledger_error + nat) option" where
  "slot_refcount s x = (case slot_index s x of
     Inl e \<Rightarrow> Some (Inl e) | Inr i \<Rightarrow> map_option Inr (get_at (sl_slot_refcounts s) i))"

definition bump_access_tick :: "slot_ledger \<Rightarrow> nat \<times> slot_ledger" where
  "bump_access_tick s = (sl_next_access_tick s,
     s\<lparr>sl_next_access_tick := max (saturating_add u64_max (sl_next_access_tick s) 1) 1\<rparr>)"

definition mark_access_at :: "nat \<Rightarrow> nat \<Rightarrow> slot_ledger \<Rightarrow> unit ledger_result" where
  "mark_access_at x tick s = (case slot_index s x of
     Inl e \<Rightarrow> (Inl e, s)
   | Inr i \<Rightarrow> (Inr (), s\<lparr>sl_slot_last_access := (sl_slot_last_access s)[i := tick]\<rparr>))"

definition bump_refcount :: "nat \<Rightarrow> slot_ledger \<Rightarrow> unit ledger_result" where
  "bump_refcount x s = (case slot_index s x of
     Inl e \<Rightarrow> (Inl e, s)
   | Inr i \<Rightarrow> (case get_at (sl_slot_refcounts s) i of
        None \<Rightarrow> (Inl (SlotMissing x), s)
      | Some c \<Rightarrow> (Inr (), s\<lparr>sl_slot_refcounts := (sl_slot_refcounts s)[i := saturating_add u32_max c 1]\<rparr>)))"

text \<open>Reference and stamp one slot, as the allocation and sharing loops do.\<close>

definition hold_slot :: "nat \<Rightarrow> nat \<Rightarrow> slot_ledger \<Rightarrow> unit ledger_result" where
  "hold_slot x tick s = (case bump_refcount x s of
     (Inl e, s1) \<Rightarrow> (Inl e, s1)
   | (Inr _, s1) \<Rightarrow> mark_access_at x tick s1)"

fun alloc_slots :: "nat \<Rightarrow> nat \<Rightarrow> slot_ledger \<Rightarrow> nat list ledger_result" where
  "alloc_slots 0 tick s = (Inr [], s)"
| "alloc_slots (Suc n) tick s =
     (let x = last (sl_free_slots s);
          s1 = s\<lparr>sl_free_slots := butlast (sl_free_slots s)\<rparr>
      in case hold_slot x tick s1 of
           (Inl e, s2) \<Rightarrow> (Inl e, s2)
         | (Inr _, s2) \<Rightarrow> (case alloc_slots n tick s2 of
               (Inl e, s3) \<Rightarrow> (Inl e, s3)
             | (Inr xs, s3) \<Rightarrow> (Inr (x # xs), s3)))"

definition alloc_detached_slots :: "nat \<Rightarrow> slot_ledger \<Rightarrow> nat list ledger_result" where
  "alloc_detached_slots n s =
     (if n = 0 then (Inr [], s)
      else if n > length (sl_free_slots s) then (Inl (OutOfTokenSlots n (length (sl_free_slots s))), s)
      else case bump_access_tick s of (tick, s1) \<Rightarrow> alloc_slots n tick s1)"

definition extend_request :: "nat \<Rightarrow> nat list \<Rightarrow> slot_ledger \<Rightarrow> slot_ledger" where
  "extend_request r xs s = s\<lparr>sl_request_slots := AList.update r
     ((case map_of (sl_request_slots s) r of None \<Rightarrow> [] | Some ys \<Rightarrow> ys) @ xs) (sl_request_slots s)\<rparr>"

definition alloc_tokens :: "nat \<Rightarrow> nat \<Rightarrow> slot_ledger \<Rightarrow> nat list ledger_result" where
  "alloc_tokens r n s = (case alloc_detached_slots n s of
     (Inl e, s1) \<Rightarrow> (Inl e, s1)
   | (Inr xs, s1) \<Rightarrow> (Inr xs, extend_request r xs s1))"

fun check_slots :: "slot_ledger \<Rightarrow> nat list \<Rightarrow> ledger_error + unit" where
  "check_slots s [] = Inr ()"
| "check_slots s (x # xs) = (case slot_index s x of Inl e \<Rightarrow> Inl e | Inr _ \<Rightarrow> check_slots s xs)"

fun hold_slots :: "nat \<Rightarrow> nat list \<Rightarrow> slot_ledger \<Rightarrow> unit ledger_result" where
  "hold_slots tick [] s = (Inr (), s)"
| "hold_slots tick (x # xs) s = (case hold_slot x tick s of
     (Inl e, s1) \<Rightarrow> (Inl e, s1) | (Inr _, s1) \<Rightarrow> hold_slots tick xs s1)"

definition share_slots :: "nat \<Rightarrow> nat list \<Rightarrow> slot_ledger \<Rightarrow> nat list ledger_result" where
  "share_slots r xs s =
     (if xs = [] then (Inr [], s)
      else case check_slots s xs of
        Inl e \<Rightarrow> (Inl e, s)
      | Inr _ \<Rightarrow> (case bump_access_tick s of (tick, s1) \<Rightarrow>
          (case hold_slots tick xs s1 of
             (Inl e, s2) \<Rightarrow> (Inl e, s2)
           | (Inr _, s2) \<Rightarrow> (Inr xs, extend_request r xs s2))))"

definition share_prefix_from :: "nat \<Rightarrow> nat \<Rightarrow> nat \<Rightarrow> slot_ledger \<Rightarrow> nat list ledger_result" where
  "share_prefix_from r source n s =
     (if n = 0 then (Inr [], s)
      else case map_of (sl_request_slots s) source of
        None \<Rightarrow> (Inl (UnknownSourceRequest source), s)
      | Some xs \<Rightarrow> (case slice 0 n xs of
          None \<Rightarrow> (Inl (SourceTooShort source (length xs)), s)
        | Some pre \<Rightarrow> share_slots r pre s))"

definition release_slot :: "nat \<Rightarrow> slot_ledger \<Rightarrow> slot_ledger" where
  "release_slot x s = (case slot_index s x of
     Inl _ \<Rightarrow> s
   | Inr i \<Rightarrow> (case get_at (sl_slot_refcounts s) i of
        None \<Rightarrow> s
      | Some c \<Rightarrow>
          if c = 0 then s
          else let s1 = s\<lparr>sl_slot_refcounts := (sl_slot_refcounts s)[i := c - 1]\<rparr>
               in if c - 1 = 0
                  then s1\<lparr>sl_slot_last_access := (sl_slot_last_access s1)[i := 0],
                          sl_free_slots := sl_free_slots s1 @ [x]\<rparr>
                  else s1))"

definition free_request :: "nat \<Rightarrow> slot_ledger \<Rightarrow> slot_ledger" where
  "free_request r s = (case map_of (sl_request_slots s) r of
     None \<Rightarrow> s
   | Some xs \<Rightarrow> fold release_slot xs (s\<lparr>sl_request_slots := AList.delete r (sl_request_slots s)\<rparr>))"

definition release_slots :: "nat list \<Rightarrow> slot_ledger \<Rightarrow> unit ledger_result" where
  "release_slots xs s = (case check_slots s xs of
     Inl e \<Rightarrow> (Inl e, s) | Inr _ \<Rightarrow> (Inr (), fold release_slot xs s))"

fun mark_slots :: "nat \<Rightarrow> nat list \<Rightarrow> slot_ledger \<Rightarrow> unit ledger_result" where
  "mark_slots tick [] s = (Inr (), s)"
| "mark_slots tick (x # xs) s = (case mark_access_at x tick s of
     (Inl e, s1) \<Rightarrow> (Inl e, s1) | (Inr _, s1) \<Rightarrow> mark_slots tick xs s1)"

definition register_access :: "nat list \<Rightarrow> slot_ledger \<Rightarrow> unit ledger_result" where
  "register_access xs s =
     (if xs = [] then (Inr (), s)
      else case check_slots s xs of
        Inl e \<Rightarrow> (Inl e, s)
      | Inr _ \<Rightarrow> (case bump_access_tick s of (tick, s1) \<Rightarrow> mark_slots tick xs s1))"

subsection \<open>Choosing what to evict\<close>

definition active_slot_bitmap :: "slot_ledger \<Rightarrow> bool list" where
  "active_slot_bitmap s = fold (\<lambda>x act. case slot_index s x of Inl _ \<Rightarrow> act | Inr i \<Rightarrow> act[i := True])
     (concat (map snd (sl_request_slots s))) (replicate (sl_max_total_tokens s) False)"

fun scan_block :: "slot_ledger \<Rightarrow> bool list \<Rightarrow> nat \<Rightarrow> nat list \<Rightarrow> ledger_error + nat option" where
  "scan_block s act newest [] = Inr (Some newest)"
| "scan_block s act newest (x # xs) = (case slot_index s x of
     Inl e \<Rightarrow> Inl e
   | Inr i \<Rightarrow> if act ! i \<or> sl_slot_refcounts s ! i = 0 then Inr None
              else scan_block s act (max newest (sl_slot_last_access s ! i)) xs)"

fun eviction_blocks :: "slot_ledger \<Rightarrow> bool list \<Rightarrow> nat list list \<Rightarrow> ledger_error + (nat \<times> nat list) list" where
  "eviction_blocks s act [] = Inr []"
| "eviction_blocks s act (b # bs) =
     (if b = [] then eviction_blocks s act bs
      else case scan_block s act 0 b of
        Inl e \<Rightarrow> Inl e
      | Inr newest \<Rightarrow> (case eviction_blocks s act bs of
           Inl e \<Rightarrow> Inl e
         | Inr rest \<Rightarrow> Inr (case newest of None \<Rightarrow> rest | Some t \<Rightarrow> (t, b) # rest)))"

fun take_until :: "nat \<Rightarrow> nat \<Rightarrow> (nat \<times> nat list) list \<Rightarrow> nat list list" where
  "take_until target n [] = []"
| "take_until target n ((t, b) # rest) =
     (let n1 = saturating_add usize_max n (length b)
      in b # (if n1 \<ge> target then [] else take_until target n1 rest))"

definition select_eviction_candidates :: "nat list list \<Rightarrow> nat \<Rightarrow> slot_ledger \<Rightarrow> ledger_error + nat list list" where
  "select_eviction_candidates bs target s =
     (if target = 0 \<or> bs = [] then Inr []
      else case eviction_blocks s (active_slot_bitmap s) bs of
        Inl e \<Rightarrow> Inl e
      | Inr cs \<Rightarrow> Inr (take_until target 0 (sort_key fst cs)))"

end
