(* ===== verification/Slot_Inv.thy ===== *)
theory Slot_Inv
  imports Slot_Ledger
begin

text \<open>
  Reference counts of the slot ledger count holders. A holder is a request that lists the slot, or
  a detached hold (a block of the prefix cache); \<open>ledger_wf s H\<close> says that the counts are those of
  the multiset \<open>H\<close> of all holds and that the free list is what nobody holds.
\<close>

definition ledger_wf :: "slot_ledger \<Rightarrow> nat multiset \<Rightarrow> bool" where
  "ledger_wf s H \<longleftrightarrow> length (sl_slot_refcounts s) = sl_max_total_tokens s \<and>
     length (sl_slot_last_access s) = sl_max_total_tokens s \<and> distinct (sl_free_slots s) \<and>
     (\<forall>x\<in>set (sl_free_slots s). x < sl_max_total_tokens s) \<and> (\<forall>x. x \<in># H \<longrightarrow> x < sl_max_total_tokens s) \<and>
     (\<forall>x < sl_max_total_tokens s. sl_slot_refcounts s ! x = count H x) \<and>
     (\<forall>x < sl_max_total_tokens s. x \<in> set (sl_free_slots s) \<longleftrightarrow> count H x = 0)"

definition ledger_same :: "slot_ledger \<Rightarrow> slot_ledger \<Rightarrow> bool" where
  "ledger_same s s' \<longleftrightarrow> sl_max_total_tokens s' = sl_max_total_tokens s \<and> sl_request_slots s' = sl_request_slots s"

lemma ledger_same_refl [simp]: "ledger_same s s"
  by (simp add: ledger_same_def)

lemma ledger_same_trans [trans]: "ledger_same a b \<Longrightarrow> ledger_same b c \<Longrightarrow> ledger_same a c"
  by (simp add: ledger_same_def)

lemma ledger_sameD: "ledger_same s s' \<Longrightarrow> sl_max_total_tokens s' = sl_max_total_tokens s"
  "ledger_same s s' \<Longrightarrow> sl_request_slots s' = sl_request_slots s"
  by (simp_all add: ledger_same_def)

lemma ledger_wfD:
  assumes "ledger_wf s H"
  shows "length (sl_slot_refcounts s) = sl_max_total_tokens s"
    "length (sl_slot_last_access s) = sl_max_total_tokens s" "distinct (sl_free_slots s)"
    "x \<in> set (sl_free_slots s) \<Longrightarrow> x < sl_max_total_tokens s" "x \<in># H \<Longrightarrow> x < sl_max_total_tokens s"
    "x < sl_max_total_tokens s \<Longrightarrow> sl_slot_refcounts s ! x = count H x"
    "x < sl_max_total_tokens s \<Longrightarrow> x \<in> set (sl_free_slots s) \<longleftrightarrow> count H x = 0"
  using assms by (auto simp: ledger_wf_def)

lemma ledger_wf_new: "n < 2 ^ 32 \<Longrightarrow> ledger_wf (ledger_new n) {#}"
  by (auto simp: ledger_wf_def ledger_new_def)

lemma ledger_wf_tick [simp]:
  "ledger_wf (s\<lparr>sl_next_access_tick := t\<rparr>) H = ledger_wf s H"
  "ledger_wf (s\<lparr>sl_request_slots := m\<rparr>) H = ledger_wf s H"
  "ledger_wf (extend_request r xs s) H = ledger_wf s H"
  by (simp_all add: ledger_wf_def extend_request_def)

subsection \<open>One slot\<close>

text \<open>The state after \<open>hold_slot\<close> for a slot in range.\<close>

lemma hold_slot_eq:
  assumes "x < sl_max_total_tokens s" "length (sl_slot_refcounts s) = sl_max_total_tokens s"
  shows "hold_slot x t s = (Inr (), s\<lparr>
    sl_slot_refcounts := (sl_slot_refcounts s)[x := saturating_add u32_max (sl_slot_refcounts s ! x) 1],
    sl_slot_last_access := (sl_slot_last_access s)[x := t]\<rparr>)"
  using assms by (simp add: hold_slot_def bump_refcount_def mark_access_at_def slot_index_def)

lemma hold_shared:
  assumes wf: "ledger_wf s H" and x: "x \<in># H" and room: "count H x < u32_max"
  shows "\<exists>s'. hold_slot x t s = (Inr (), s') \<and> ledger_wf s' (add_mset x H) \<and> ledger_same s s'
    \<and> sl_free_slots s' = sl_free_slots s"
proof -
  have lt: "x < sl_max_total_tokens s" using ledger_wfD(5) [OF wf x] .
  have "saturating_add u32_max (sl_slot_refcounts s ! x) 1 = count H x + 1"
    using ledger_wfD(6) [OF wf lt] room by (simp add: saturating_add_exact)
  with wf lt x show ?thesis
    unfolding hold_slot_eq [OF lt ledger_wfD(1) [OF wf]]
    by (auto simp: ledger_wf_def ledger_same_def nth_list_update)
qed

lemma hold_free:
  assumes wf: "ledger_wf s H" and x: "sl_free_slots s = xs @ [x]"
  shows "\<exists>s'. hold_slot x t (s\<lparr>sl_free_slots := xs\<rparr>) = (Inr (), s') \<and> ledger_wf s' (add_mset x H) \<and> ledger_same s s'
    \<and> sl_free_slots s' = xs \<and> x \<notin># H"
proof -
  have lt: "x < sl_max_total_tokens s" using ledger_wfD(4) [OF wf, of x] x by simp
  have z: "count H x = 0" using ledger_wfD(7) [OF wf lt] x by simp
  have "saturating_add u32_max (sl_slot_refcounts s ! x) 1 = 1"
    using ledger_wfD(6) [OF wf lt] z by (simp add: saturating_add_def u32_max_def)
  moreover have "hold_slot x t (s\<lparr>sl_free_slots := xs\<rparr>) = (Inr (), s\<lparr>sl_free_slots := xs,
    sl_slot_refcounts := (sl_slot_refcounts s)[x := saturating_add u32_max (sl_slot_refcounts s ! x) 1],
    sl_slot_last_access := (sl_slot_last_access s)[x := t]\<rparr>)"
    using hold_slot_eq [of x "s\<lparr>sl_free_slots := xs\<rparr>" t] lt ledger_wfD(1) [OF wf] by simp
  moreover have "x \<notin> set xs" using ledger_wfD(3) [OF wf] x by simp
  ultimately show ?thesis
    using wf lt x z by (auto simp: ledger_wf_def ledger_same_def nth_list_update not_in_iff)
qed

lemma release_wf:
  assumes wf: "ledger_wf s (add_mset x H)"
  shows "ledger_wf (release_slot x s) H \<and> ledger_same s (release_slot x s)"
proof -
  have lt: "x < sl_max_total_tokens s" using ledger_wfD(5) [OF wf, of x] by simp
  have c: "sl_slot_refcounts s ! x = count H x + 1" using ledger_wfD(6) [OF wf lt] by simp
  have f: "x \<notin> set (sl_free_slots s)" using ledger_wfD(7) [OF wf lt] by simp
  have eq: "release_slot x s =
     (if k = 0 then s\<lparr>sl_slot_refcounts := (sl_slot_refcounts s)[x := 0],
          sl_slot_last_access := (sl_slot_last_access s)[x := 0], sl_free_slots := sl_free_slots s @ [x]\<rparr>
      else s\<lparr>sl_slot_refcounts := (sl_slot_refcounts s)[x := k]\<rparr>)" if "sl_slot_refcounts s ! x = k + 1" for k
    using lt that ledger_wfD(1) [OF wf] by (simp add: release_slot_def slot_index_def Let_def)
  show ?thesis
    unfolding eq [OF c] using wf lt f
    by (auto simp: ledger_wf_def ledger_same_def nth_list_update split: if_splits)
qed

subsection \<open>Runs of slots\<close>

lemma alloc_slots_ok:
  "ledger_wf s H \<Longrightarrow> n \<le> length (sl_free_slots s) \<Longrightarrow>
    \<exists>s'. alloc_slots n t s = (Inr (take n (rev (sl_free_slots s))), s') \<and> ledger_wf s' (mset (take n (rev (sl_free_slots s))) + H)
      \<and> ledger_same s s' \<and> sl_free_slots s' = take (length (sl_free_slots s) - n) (sl_free_slots s)"
proof (induction n arbitrary: s H)
  case (Suc n)
  then obtain xs x where f: "sl_free_slots s = xs @ [x]"
    by (metis append_butlast_last_id list.size(3) not_less_eq_eq zero_le)
  from hold_free [OF Suc.prems(1) f, of t] obtain s1 where
    s1: "hold_slot x t (s\<lparr>sl_free_slots := xs\<rparr>) = (Inr (), s1)" "ledger_wf s1 (add_mset x H)"
      "ledger_same s s1" "sl_free_slots s1 = xs" by blast
  have "n \<le> length (sl_free_slots s1)" using Suc.prems(2) f s1(4) by simp
  from Suc.IH [OF s1(2) this] obtain s2 where
    s2: "alloc_slots n t s1 = (Inr (take n (rev xs)), s2)" "ledger_wf s2 (mset (take n (rev xs)) + add_mset x H)"
      "ledger_same s1 s2" "sl_free_slots s2 = take (length xs - n) xs" unfolding s1(4) by blast
  have "ledger_same s s2" using s1(3) s2(3) by (rule ledger_same_trans)
  with s1(1) s2 f show ?case by (simp add: Let_def)
qed simp

lemma hold_slots_ok:
  "ledger_wf s H \<Longrightarrow> set xs \<subseteq> set_mset H \<Longrightarrow> size H + length xs \<le> u32_max \<Longrightarrow>
    \<exists>s'. hold_slots t xs s = (Inr (), s') \<and> ledger_wf s' (mset xs + H) \<and> ledger_same s s'
      \<and> sl_free_slots s' = sl_free_slots s"
proof (induction xs arbitrary: s H)
  case (Cons x xs)
  have "count H x < u32_max" using Cons.prems(3) count_le_size [of H x] by simp
  with hold_shared [OF Cons.prems(1), of x t] Cons.prems(2) obtain s1 where
    s1: "hold_slot x t s = (Inr (), s1)" "ledger_wf s1 (add_mset x H)" "ledger_same s s1"
      "sl_free_slots s1 = sl_free_slots s" by auto
  from Cons.IH [OF s1(2)] Cons.prems obtain s2 where
    s2: "hold_slots t xs s1 = (Inr (), s2)" "ledger_wf s2 (mset xs + add_mset x H)" "ledger_same s1 s2"
      "sl_free_slots s2 = sl_free_slots s1" by auto
  have "ledger_same s s2" using s1(3) s2(3) by (rule ledger_same_trans)
  with s1 s2 show ?case by simp
qed simp

lemma release_fold_ok:
  "ledger_wf s (mset xs + H) \<Longrightarrow> ledger_wf (fold release_slot xs s) H \<and> ledger_same s (fold release_slot xs s)"
proof (induction xs arbitrary: s)
  case (Cons x xs)
  then have "ledger_wf s (add_mset x (mset xs + H))" by simp
  note r = release_wf [OF this]
  from Cons.IH [OF r [THEN conjunct1]] r ledger_same_trans show ?case by auto
qed simp

lemma check_slots_iff: "check_slots s xs = Inr () \<longleftrightarrow> (\<forall>x\<in>set xs. x < sl_max_total_tokens s)"
  by (induction xs) (auto simp: slot_index_def)

lemma check_slots_cases: "check_slots s xs = Inr () \<or> (\<exists>e. check_slots s xs = Inl e)"
  by (cases "check_slots s xs") auto

lemma mark_slots_ok:
  "ledger_wf s H \<Longrightarrow> \<forall>x\<in>set xs. x < sl_max_total_tokens s \<Longrightarrow>
    \<exists>s'. mark_slots t xs s = (Inr (), s') \<and> ledger_wf s' H \<and> ledger_same s s'"
proof (induction xs arbitrary: s)
  case (Cons x xs)
  define s1 where "s1 = s\<lparr>sl_slot_last_access := (sl_slot_last_access s)[x := t]\<rparr>"
  have s1: "mark_access_at x t s = (Inr (), s1)" "ledger_wf s1 H" "ledger_same s s1"
    using Cons.prems by (auto simp: mark_access_at_def slot_index_def s1_def ledger_wf_def ledger_same_def)
  from Cons.IH [OF s1(2)] Cons.prems(2) ledger_sameD(1) [OF s1(3)] obtain s2 where
    "mark_slots t xs s1 = (Inr (), s2)" "ledger_wf s2 H" "ledger_same s1 s2" by auto
  with s1 ledger_same_trans show ?case by auto
qed simp

subsection \<open>Requests\<close>

definition request_holds :: "slot_ledger \<Rightarrow> nat multiset" where
  "request_holds s = mset (concat (map snd (sl_request_slots s)))"

lemma holds_update:
  "distinct (map fst m) \<Longrightarrow>
     mset (concat (map snd (AList.update r ((case map_of m r of None \<Rightarrow> [] | Some ys \<Rightarrow> ys) @ xs) m))) =
     mset (concat (map snd m)) + mset xs"
proof (induction m)
  case (Cons e m)
  then show ?case
    by (cases e) (auto simp: image_iff map_of_eq_None_iff [symmetric] ac_simps split: option.splits)
qed simp

lemma holds_delete:
  "distinct (map fst m) \<Longrightarrow> map_of m r = Some xs \<Longrightarrow>
     mset (concat (map snd m)) = mset xs + mset (concat (map snd (AList.delete r m)))"
proof (induction m)
  case (Cons e m)
  show ?case
  proof (cases "fst e = r")
    case True
    with Cons.prems have "AList.delete r m = m" by (intro AList.delete_id) auto
    with True Cons.prems show ?thesis by (cases e) simp
  next
    case False
    with Cons show ?thesis by (cases e) (simp add: ac_simps)
  qed
qed simp

lemma request_holds_extend:
  "distinct (map fst (sl_request_slots s)) \<Longrightarrow> request_holds (extend_request r xs s) = request_holds s + mset xs"
  by (simp add: request_holds_def extend_request_def holds_update)

end
