(* ===== verification/Slot_Props.thy ===== *)
theory Slot_Props
  imports Slot_Inv
begin

text \<open>
  What the slot ledger promises to requests and to the prefix cache, over every sequence of calls
  in which slots are shared or released only by somebody who holds them.
\<close>

definition all_holds :: "slot_ledger \<Rightarrow> nat multiset \<Rightarrow> nat multiset" where
  "all_holds s D = request_holds s + D"

definition new_detached :: "ledger_error + nat list \<Rightarrow> nat multiset" where
  "new_detached res = (case res of Inl _ \<Rightarrow> {#} | Inr xs \<Rightarrow> mset xs)"

inductive ledger_reachable :: "nat \<Rightarrow> slot_ledger \<Rightarrow> nat multiset \<Rightarrow> bool" for n where
  new: "n < 2 ^ 32 \<Longrightarrow> ledger_reachable n (ledger_new n) {#}"
| alloc: "ledger_reachable n s D \<Longrightarrow> ledger_reachable n (snd (alloc_tokens r k s)) D"
| alloc_detached: "ledger_reachable n s D \<Longrightarrow>
    ledger_reachable n (snd (alloc_detached_slots k s)) (D + new_detached (fst (alloc_detached_slots k s)))"
| share: "ledger_reachable n s D \<Longrightarrow> set xs \<subseteq> set_mset (all_holds s D) \<Longrightarrow>
    size (all_holds s D) + length xs \<le> u32_max \<Longrightarrow> ledger_reachable n (snd (share_slots r xs s)) D"
| share_prefix: "ledger_reachable n s D \<Longrightarrow> size (all_holds s D) + k \<le> u32_max \<Longrightarrow>
    ledger_reachable n (snd (share_prefix_from r source k s)) D"
| free: "ledger_reachable n s D \<Longrightarrow> ledger_reachable n (free_request r s) D"
| release: "ledger_reachable n s (mset xs + D) \<Longrightarrow> ledger_reachable n (snd (release_slots xs s)) D"
| access: "ledger_reachable n s D \<Longrightarrow> ledger_reachable n (snd (register_access xs s)) D"

definition ledger_inv :: "nat \<Rightarrow> slot_ledger \<Rightarrow> nat multiset \<Rightarrow> bool" where
  "ledger_inv n s D \<longleftrightarrow> ledger_wf s (all_holds s D) \<and> distinct (map fst (sl_request_slots s)) \<and>
     sl_max_total_tokens s = n"

lemma ledger_invD:
  assumes "ledger_inv n s D"
  shows "ledger_wf s (all_holds s D)" "distinct (map fst (sl_request_slots s))" "sl_max_total_tokens s = n"
  using assms by (auto simp: ledger_inv_def)

lemma ledger_inv_same:
  "ledger_inv n s D \<Longrightarrow> ledger_same s s' \<Longrightarrow> ledger_wf s' (H + all_holds s D) \<Longrightarrow> ledger_inv n s' (D + H)"
  by (auto simp: ledger_inv_def ledger_same_def all_holds_def request_holds_def ac_simps)

lemma ledger_inv_extend:
  assumes "ledger_inv n s (D + mset xs)"
  shows "ledger_inv n (extend_request r xs s) D"
  using assms request_holds_extend [of s r xs]
  by (simp add: ledger_inv_def all_holds_def ac_simps)
     (simp add: extend_request_def distinct_update)

subsection \<open>The operations\<close>

lemma alloc_detached_ok:
  assumes inv: "ledger_inv n s D" and k: "k \<le> available_tokens s"
  defines "xs \<equiv> take k (rev (sl_free_slots s))"
  shows "\<exists>s'. alloc_detached_slots k s = (Inr xs, s') \<and> ledger_inv n s' (D + mset xs) \<and> ledger_same s s'
    \<and> sl_free_slots s' = take (available_tokens s - k) (sl_free_slots s)"
proof (cases "k = 0")
  case True
  with inv show ?thesis by (simp add: alloc_detached_slots_def xs_def available_tokens_def)
next
  case False
  define s1 where "s1 = snd (bump_access_tick s)"
  define t where "t = fst (bump_access_tick s)"
  have s1: "ledger_wf s1 (all_holds s D)" "ledger_same s s1" "sl_free_slots s1 = sl_free_slots s"
    using ledger_invD(1) [OF inv] by (simp_all add: s1_def bump_access_tick_def ledger_same_def)
  from alloc_slots_ok [OF s1(1), of k t] k obtain s' where
    s': "alloc_slots k t s1 = (Inr xs, s')" "ledger_wf s' (mset xs + all_holds s D)" "ledger_same s1 s'"
      "sl_free_slots s' = take (available_tokens s - k) (sl_free_slots s)"
    by (auto simp: s1(3) xs_def available_tokens_def)
  have same: "ledger_same s s'" using s1(2) s'(3) by (rule ledger_same_trans)
  moreover have "alloc_detached_slots k s = (Inr xs, s')"
    using False k s'(1) by (simp add: alloc_detached_slots_def available_tokens_def s1_def t_def case_prod_beta)
  ultimately show ?thesis using s' ledger_inv_same [OF inv same s'(2)] by auto
qed

lemma alloc_detached_fail:
  "available_tokens s < k \<Longrightarrow> alloc_detached_slots k s = (Inl (OutOfTokenSlots k (available_tokens s)), s)"
  by (auto simp: alloc_detached_slots_def available_tokens_def)

lemma share_ok:
  assumes inv: "ledger_inv n s D" and xs: "set xs \<subseteq> set_mset (all_holds s D)"
    and room: "size (all_holds s D) + length xs \<le> u32_max"
  shows "\<exists>s'. share_slots r xs s = (Inr xs, s') \<and> ledger_inv n s' D"
proof (cases "xs = []")
  case True
  with inv show ?thesis by (simp add: share_slots_def)
next
  case False
  define s1 where "s1 = snd (bump_access_tick s)"
  define t where "t = fst (bump_access_tick s)"
  have s1: "ledger_wf s1 (all_holds s D)" "ledger_same s s1"
    using ledger_invD(1) [OF inv] by (simp_all add: s1_def bump_access_tick_def ledger_same_def)
  from hold_slots_ok [OF s1(1) xs room, of t] obtain s2 where
    s2: "hold_slots t xs s1 = (Inr (), s2)" "ledger_wf s2 (mset xs + all_holds s D)" "ledger_same s1 s2" by blast
  have "ledger_same s s2" using s1(2) s2(3) by (rule ledger_same_trans)
  from ledger_inv_extend [OF ledger_inv_same [OF inv this s2(2)]] have "ledger_inv n (extend_request r xs s2) D" .
  moreover have "check_slots s xs = Inr ()"
    unfolding check_slots_iff using ledger_wfD(5) [OF ledger_invD(1) [OF inv]] xs by blast
  then have "share_slots r xs s = (Inr xs, extend_request r xs s2)"
    using False s2(1) by (simp add: share_slots_def s1_def t_def case_prod_beta)
  ultimately show ?thesis by blast
qed

lemma free_request_ok:
  assumes inv: "ledger_inv n s D"
  shows "ledger_inv n (free_request r s) D"
proof (cases "map_of (sl_request_slots s) r")
  case (Some xs)
  define s1 where "s1 = s\<lparr>sl_request_slots := AList.delete r (sl_request_slots s)\<rparr>"
  have "all_holds s D = mset xs + all_holds s1 D"
    using holds_delete [OF ledger_invD(2) [OF inv] Some]
    by (simp add: all_holds_def request_holds_def s1_def ac_simps)
  then have "ledger_wf s1 (mset xs + all_holds s1 D)"
    using ledger_invD(1) [OF inv] by (simp add: s1_def)
  from release_fold_ok [OF this] have
    "ledger_wf (fold release_slot xs s1) (all_holds s1 D)" "ledger_same s1 (fold release_slot xs s1)" by auto
  moreover have "distinct (map fst (sl_request_slots s1))" "sl_max_total_tokens s1 = n"
    using inv by (simp_all add: ledger_inv_def s1_def AList.delete_keys distinct_removeAll)
  ultimately show ?thesis
    using Some by (simp add: free_request_def s1_def [symmetric] ledger_inv_def ledger_same_def all_holds_def request_holds_def)
qed (use inv in \<open>simp add: free_request_def\<close>)

lemma release_ok:
  assumes inv: "ledger_inv n s (mset xs + D)"
  shows "ledger_inv n (snd (release_slots xs s)) D"
proof -
  have wf: "ledger_wf s (mset xs + all_holds s D)"
    using ledger_invD(1) [OF inv] by (simp add: all_holds_def ac_simps)
  have "check_slots s xs = Inr ()"
    unfolding check_slots_iff using ledger_wfD(5) [OF wf] by auto
  with release_fold_ok [OF wf] inv show ?thesis
    by (auto simp: release_slots_def ledger_inv_def ledger_same_def all_holds_def request_holds_def)
qed

lemma access_ok:
  assumes inv: "ledger_inv n s D"
  shows "ledger_inv n (snd (register_access xs s)) D"
proof (cases "xs = [] \<or> check_slots s xs \<noteq> Inr ()")
  case True
  then show ?thesis using inv check_slots_cases [of s xs] by (auto simp: register_access_def)
next
  case False
  define s1 where "s1 = snd (bump_access_tick s)"
  have s1: "ledger_wf s1 (all_holds s D)" "ledger_same s s1" "\<forall>x\<in>set xs. x < sl_max_total_tokens s1"
    using ledger_invD(1) [OF inv] False
    by (simp_all add: s1_def bump_access_tick_def ledger_same_def check_slots_iff)
  from mark_slots_ok [OF s1(1,3), of "fst (bump_access_tick s)"] obtain s' where
    s': "mark_slots (fst (bump_access_tick s)) xs s1 = (Inr (), s')" "ledger_wf s' (all_holds s D)" "ledger_same s1 s'"
    by blast
  have "ledger_same s s'" using s1(2) s'(3) by (rule ledger_same_trans)
  with ledger_inv_same [OF inv this, of "{#}"] s' False show ?thesis
    by (simp add: register_access_def s1_def case_prod_beta)
qed

lemma ledger_reachable_inv: "ledger_reachable n s D \<Longrightarrow> ledger_inv n s D"
proof (induction rule: ledger_reachable.induct)
  case new
  then show ?case using ledger_wf_new
    by (simp add: ledger_inv_def all_holds_def request_holds_def ledger_new_def)
next
  case (alloc s D r k)
  then show ?case
  proof (cases "k \<le> available_tokens s")
    case True
    from alloc_detached_ok [OF alloc.IH this] obtain s' where
      "alloc_detached_slots k s = (Inr (take k (rev (sl_free_slots s))), s')"
      "ledger_inv n s' (D + mset (take k (rev (sl_free_slots s))))" by blast
    then show ?thesis by (simp add: alloc_tokens_def ledger_inv_extend)
  next
    case False
    then show ?thesis using alloc.IH by (simp add: alloc_tokens_def alloc_detached_fail)
  qed
next
  case (alloc_detached s D k)
  then show ?case
  proof (cases "k \<le> available_tokens s")
    case True
    with alloc_detached_ok [OF alloc_detached.IH this] show ?thesis by (auto simp: new_detached_def)
  next
    case False
    then show ?thesis using alloc_detached.IH by (simp add: alloc_detached_fail new_detached_def)
  qed
next
  case (share s D xs r)
  with share_ok [OF share.IH share.hyps(2,3), of r] show ?case by auto
next
  case (share_prefix s D k r source)
  note inv = share_prefix.IH
  show ?case
  proof (cases "k = 0 \<or> map_of (sl_request_slots s) source = None")
    case True
    then show ?thesis using inv by (auto simp: share_prefix_from_def)
  next
    case False
    then obtain ys where ys: "map_of (sl_request_slots s) source = Some ys" by auto
    then have "set ys \<subseteq> set_mset (all_holds s D)"
      using map_of_SomeD [OF ys] by (force simp: all_holds_def request_holds_def)
    then have sub: "set (take k ys) \<subseteq> set_mset (all_holds s D)" using set_take_subset by fastforce
    have "size (all_holds s D) + length (take k ys) \<le> u32_max" using share_prefix.hyps(2) by simp
    from share_ok [OF inv sub this, of r] False ys inv show ?thesis
      by (auto simp: share_prefix_from_def slice_def)
  qed
qed (simp_all add: free_request_ok release_ok access_ok)

subsection \<open>Properties\<close>

definition demo_ledger :: slot_ledger where
  "demo_ledger = snd (share_prefix_from 8 7 1 (snd (alloc_detached_slots 2 (snd (alloc_tokens 7 3 (ledger_new 8))))))"

lemma demo_ledger_reachable: "ledger_reachable 8 demo_ledger {#3, 4#}"
proof -
  have 1: "ledger_reachable 8 (snd (alloc_tokens 7 3 (ledger_new 8))) {#}"
    by (intro ledger_reachable.alloc ledger_reachable.new) simp
  have "fst (alloc_detached_slots 2 (snd (alloc_tokens 7 3 (ledger_new 8)))) = Inr [3, 4]" by code_simp
  then have 2: "ledger_reachable 8 (snd (alloc_detached_slots 2 (snd (alloc_tokens 7 3 (ledger_new 8))))) {#3, 4#}"
    using ledger_reachable.alloc_detached [OF 1, of 2] by (simp add: new_detached_def)
  have "size (all_holds (snd (alloc_detached_slots 2 (snd (alloc_tokens 7 3 (ledger_new 8))))) {#3, 4#}) = 5"
    unfolding all_holds_def request_holds_def size_union size_mset by (simp, code_simp)
  then show ?thesis unfolding demo_ledger_def
    by (intro ledger_reachable.share_prefix [OF 2]) (simp add: u32_max_def)
qed



text \<open>
  Allocation succeeds exactly when enough slots are free, and then hands out distinct slots
  that nobody held, appended to the slots of the request; otherwise it reports what was asked and
  what was free and changes nothing.
\<close>
theorem alloc_tokens_fresh:
  assumes "ledger_reachable n s D" and "alloc_tokens r k s = (res, s')"
  shows "(k \<le> available_tokens s \<and> (\<exists>xs. res = Inr xs \<and> length xs = k \<and> distinct xs
            \<and> set xs \<inter> set_mset (request_holds s + D) = {} \<and> available_tokens s' + k = available_tokens s
            \<and> token_indices s' r = Some ((case token_indices s r of None \<Rightarrow> [] | Some ys \<Rightarrow> ys) @ xs)))
       \<or> (available_tokens s < k \<and> res = Inl (OutOfTokenSlots k (available_tokens s)) \<and> s' = s)"
proof (cases "k \<le> available_tokens s")
  case True
  note inv = ledger_reachable_inv [OF assms(1)]
  note wf = ledger_invD(1) [OF inv, unfolded all_holds_def]
  define xs where "xs = take k (rev (sl_free_slots s))"
  from alloc_detached_ok [OF inv True, folded xs_def] obtain s1 where
    s1: "alloc_detached_slots k s = (Inr xs, s1)" "ledger_same s s1"
      "sl_free_slots s1 = take (available_tokens s - k) (sl_free_slots s)" by blast
  then have out: "res = Inr xs" "s' = extend_request r xs s1" using assms(2) by (simp_all add: alloc_tokens_def)
  have "length xs = k" using True by (simp add: xs_def available_tokens_def)
  moreover have "distinct xs" using ledger_wfD(3) [OF wf] by (simp add: xs_def)
  moreover have "x \<notin># request_holds s + D" if "x \<in> set xs" for x
  proof -
    have "x \<in> set (sl_free_slots s)" using that set_take_subset by (fastforce simp: xs_def)
    then show ?thesis using ledger_wfD(4,7) [OF wf] by (auto simp: not_in_iff)
  qed
  moreover have "available_tokens s' + k = available_tokens s"
    using True s1(3) by (simp add: out extend_request_def available_tokens_def)
  moreover have "token_indices s' r = Some ((case token_indices s r of None \<Rightarrow> [] | Some ys \<Rightarrow> ys) @ xs)"
    using ledger_sameD(2) [OF s1(2)] by (simp add: out token_indices_def extend_request_def update_conv')
  ultimately show ?thesis using True out(1) by blast
next
  case False
  then have "alloc_tokens r k s = (Inl (OutOfTokenSlots k (available_tokens s)), s)"
    by (simp add: alloc_tokens_def alloc_detached_fail)
  then have "res = Inl (OutOfTokenSlots k (available_tokens s))" "s' = s" using assms(2) by simp_all
  then show ?thesis using False by simp
qed

theorem alloc_tokens_fresh_witness:
  "fst (alloc_tokens 9 3 demo_ledger) = Inr [5, 6, 7] \<and> fst (alloc_tokens 9 4 demo_ledger) = Inl (OutOfTokenSlots 4 3)
    \<and> available_tokens (snd (alloc_tokens 9 3 demo_ledger)) + 3 = available_tokens demo_ledger"
proof -
  have av: "available_tokens demo_ledger = 3" and res: "fst (alloc_tokens 9 3 demo_ledger) = Inr [5, 6, 7]"
    "fst (alloc_tokens 9 4 demo_ledger) = Inl (OutOfTokenSlots 4 3)" by code_simp+
  from alloc_tokens_fresh [OF demo_ledger_reachable prod.collapse [symmetric], of 3 9] res av show ?thesis by auto
qed

lemma ledger_wf_unique:
  assumes wf: "ledger_wf s H" "ledger_wf s' H" and m: "sl_max_total_tokens s = sl_max_total_tokens s'"
  shows "sl_slot_refcounts s = sl_slot_refcounts s' \<and> set (sl_free_slots s) = set (sl_free_slots s')"
proof
  show "sl_slot_refcounts s = sl_slot_refcounts s'"
  proof (rule nth_equalityI)
    show "length (sl_slot_refcounts s) = length (sl_slot_refcounts s')"
      using ledger_wfD(1) [OF wf(1)] ledger_wfD(1) [OF wf(2)] m by simp
    fix i assume "i < length (sl_slot_refcounts s)"
    then have "i < sl_max_total_tokens s" using ledger_wfD(1) [OF wf(1)] by simp
    then show "sl_slot_refcounts s ! i = sl_slot_refcounts s' ! i"
      using ledger_wfD(6) [OF wf(1)] ledger_wfD(6) [OF wf(2)] m by metis
  qed
  show "set (sl_free_slots s) = set (sl_free_slots s')"
  proof (rule set_eqI)
    fix x
    show "x \<in> set (sl_free_slots s) \<longleftrightarrow> x \<in> set (sl_free_slots s')"
      using ledger_wfD(4) [OF wf(1), of x] ledger_wfD(4) [OF wf(2), of x]
        ledger_wfD(7) [OF wf(1), of x] ledger_wfD(7) [OF wf(2), of x] m by argo
  qed
qed

lemma release_requests: "sl_request_slots (fold release_slot xs s) = sl_request_slots s"
proof (induction xs arbitrary: s)
  case (Cons x xs)
  have "sl_request_slots (release_slot x s) = sl_request_slots s"
    by (simp add: release_slot_def Let_def split: sum.split option.split)
  with Cons show ?case by simp
qed simp

text \<open>
  Freeing a request undoes its allocation: a request that allocates and is then freed leaves
  every reference count, the set of free slots and the slots of the other requests as they were.
\<close>
theorem alloc_then_free_restores:
  assumes "ledger_reachable n s D" and "token_indices s r = None"
    and s'_def: "s' = free_request r (snd (alloc_tokens r k s))"
  shows "sl_slot_refcounts s' = sl_slot_refcounts s \<and> set (sl_free_slots s') = set (sl_free_slots s)
    \<and> sl_request_slots s' = sl_request_slots s"
proof -
  have reach: "ledger_reachable n s' D"
    unfolding s'_def by (intro ledger_reachable.free ledger_reachable.alloc assms(1))
  have req: "sl_request_slots s' = sl_request_slots s"
  proof (cases "k \<le> available_tokens s")
    case True
    from alloc_detached_ok [OF ledger_reachable_inv [OF assms(1)] True] obtain xs s1 where
      s1: "alloc_detached_slots k s = (Inr xs, s1)" "ledger_same s s1" by blast
    have "r \<notin> fst ` set (sl_request_slots s)"
      using assms(2) by (simp add: token_indices_def map_of_eq_None_iff)
    then have upd: "AList.delete r (AList.update r xs (sl_request_slots s)) = sl_request_slots s"
      by (simp add: AList.delete_update_same AList.delete_id)
    have "s' = free_request r (extend_request r xs s1)" by (simp add: s'_def alloc_tokens_def s1(1))
    moreover have "sl_request_slots (extend_request r xs s1) = AList.update r xs (sl_request_slots s)"
      using assms(2) ledger_sameD(2) [OF s1(2)] by (simp add: extend_request_def token_indices_def)
    moreover have "map_of (AList.update r xs (sl_request_slots s)) r = Some xs" by (simp add: update_conv')
    ultimately show ?thesis using upd unfolding free_request_def
      by (simp add: release_requests)
  next
    case False
    then show ?thesis using assms(2)
      by (simp add: s'_def alloc_tokens_def alloc_detached_fail free_request_def token_indices_def)
  qed
  note inv = ledger_reachable_inv [OF assms(1)] and inv' = ledger_reachable_inv [OF reach]
  have holds: "all_holds s' D = all_holds s D" by (simp add: all_holds_def request_holds_def req)
  note wf = ledger_invD(1,3) [OF inv] and wf' = ledger_invD(1,3) [OF inv', unfolded holds]
  from ledger_wf_unique [OF wf'(1) wf(1)] wf(2) wf'(2) req show ?thesis by simp
qed

theorem alloc_then_free_restores_witness:
  "sl_slot_refcounts (free_request 9 (snd (alloc_tokens 9 3 demo_ledger))) = sl_slot_refcounts demo_ledger
    \<and> sl_slot_refcounts (snd (alloc_tokens 9 3 demo_ledger)) \<noteq> sl_slot_refcounts demo_ledger"
proof -
  have "token_indices demo_ledger 9 = None"
    "sl_slot_refcounts (snd (alloc_tokens 9 3 demo_ledger)) \<noteq> sl_slot_refcounts demo_ledger" by code_simp+
  with alloc_then_free_restores [OF demo_ledger_reachable, of 9 _ 3] show ?thesis by simp
qed

subsection \<open>Eviction candidates\<close>

definition newest_access :: "slot_ledger \<Rightarrow> nat list \<Rightarrow> nat" where
  "newest_access s b = fold (\<lambda>x m. max m (sl_slot_last_access s ! x)) b 0"

text \<open>A block is evictable when only the cache holds its slots.\<close>

definition cache_only :: "slot_ledger \<Rightarrow> nat multiset \<Rightarrow> nat list \<Rightarrow> bool" where
  "cache_only s D b \<longleftrightarrow> (\<forall>x\<in>set b. x \<in># D \<and> x \<notin># request_holds s)"

lemma bitmap_fold:
  fixes s defines "mark \<equiv> \<lambda>x act. case slot_index s x of Inl _ \<Rightarrow> act | Inr i \<Rightarrow> act[i := True]"
  shows "length (fold mark xs act) = length act \<and> (length act = sl_max_total_tokens s \<longrightarrow> i < sl_max_total_tokens s \<longrightarrow>
    (fold mark xs act ! i \<longleftrightarrow> act ! i \<or> i \<in> set xs))"
proof (induction xs arbitrary: act)
  case (Cons x xs)
  have "length (mark x act) = length act" by (simp add: mark_def split: sum.split)
  moreover have "mark x act ! i \<longleftrightarrow> act ! i \<or> i = x" if "length act = sl_max_total_tokens s" "i < sl_max_total_tokens s"
    using that by (auto simp: mark_def slot_index_def nth_list_update)
  ultimately show ?case using Cons [of "mark x act"] by auto
qed simp

lemma active_bitmap:
  "i < sl_max_total_tokens s \<Longrightarrow> active_slot_bitmap s ! i \<longleftrightarrow> i \<in># request_holds s"
  using bitmap_fold [of s "concat (map snd (sl_request_slots s))" "replicate (sl_max_total_tokens s) False" i]
  by (simp add: active_slot_bitmap_def request_holds_def)

lemma scan_block_Inr:
  assumes wf: "ledger_wf s (request_holds s + D)"
  shows "scan_block s (active_slot_bitmap s) n b = Inr res \<Longrightarrow>
    res = (if cache_only s D b then Some (fold (\<lambda>x m. max m (sl_slot_last_access s ! x)) b n) else None)"
proof (induction b arbitrary: n)
  case (Cons x b)
  then have x: "x < sl_max_total_tokens s" by (auto simp: slot_index_def split: if_splits)
  have "(active_slot_bitmap s ! x \<or> sl_slot_refcounts s ! x = 0) \<longleftrightarrow> \<not> (x \<in># D \<and> x \<notin># request_holds s)"
    using active_bitmap [OF x] ledger_wfD(6) [OF wf x] by (auto simp: not_in_iff)
  then have step: "scan_block s (active_slot_bitmap s) n (x # b) =
      (if x \<in># D \<and> x \<notin># request_holds s
       then scan_block s (active_slot_bitmap s) (max n (sl_slot_last_access s ! x)) b else Inr None)"
    using x by (auto simp: slot_index_def)
  have split: "cache_only s D (x # b) \<longleftrightarrow> (x \<in># D \<and> x \<notin># request_holds s) \<and> cache_only s D b"
    by (auto simp: cache_only_def)
  show ?case
  proof (cases "x \<in># D \<and> x \<notin># request_holds s")
    case True
    then have "scan_block s (active_slot_bitmap s) (max n (sl_slot_last_access s ! x)) b = Inr res"
      using Cons.prems step by simp
    from Cons.IH [OF this] True split show ?thesis by simp
  qed (use Cons.prems step split in auto)
qed (simp add: cache_only_def)

lemma eviction_blocks_Inr:
  assumes wf: "ledger_wf s (request_holds s + D)"
  shows "eviction_blocks s (active_slot_bitmap s) bs = Inr cs \<Longrightarrow>
    cs = map (\<lambda>b. (newest_access s b, b)) (filter (\<lambda>b. b \<noteq> [] \<and> cache_only s D b) bs)"
proof (induction bs arbitrary: cs)
  case (Cons b bs)
  show ?case
  proof (cases "b = []")
    case False
    with Cons.prems obtain res rest where
      "scan_block s (active_slot_bitmap s) 0 b = Inr res" "eviction_blocks s (active_slot_bitmap s) bs = Inr rest"
      "cs = (case res of None \<Rightarrow> rest | Some t \<Rightarrow> (t, b) # rest)"
      by (auto split: sum.splits)
    with scan_block_Inr [OF wf this(1)] Cons.IH False show ?thesis by (simp add: newest_access_def)
  qed (use Cons in simp)
qed simp

lemma take_until_prefix:
  "n + sum_list (map (length \<circ> snd) cs) \<le> usize_max \<Longrightarrow> n < target \<Longrightarrow>
    \<exists>k. take_until target n cs = take k (map snd cs) \<and>
      (length cs \<le> k \<or> target \<le> n + sum_list (map length (take k (map snd cs)))) \<and>
      (take_until target n cs \<noteq> [] \<longrightarrow> n + sum_list (map length (butlast (take_until target n cs))) < target)"
proof (induction cs arbitrary: n)
  case (Cons c cs)
  obtain t b where c: "c = (t, b)" by (cases c)
  have add: "saturating_add usize_max n (length b) = n + length b"
    using Cons.prems(1) c by (intro saturating_add_exact) simp
  show ?case
  proof (cases "n + length b \<ge> target")
    case True
    with add Cons.prems c show ?thesis by (intro exI [of _ 1]) simp
  next
    case False
    have pre: "n + length b + sum_list (map (length \<circ> snd) cs) \<le> usize_max" "n + length b < target"
      using Cons.prems(1) c False by (simp_all add: comp_def)
    from Cons.IH [OF pre] obtain k where
      k: "take_until target (n + length b) cs = take k (map snd cs)"
      "length cs \<le> k \<or> target \<le> n + length b + sum_list (map length (take k (map snd cs)))"
      "take_until target (n + length b) cs \<noteq> [] \<longrightarrow>
         n + length b + sum_list (map length (butlast (take_until target (n + length b) cs))) < target"
      by (elim exE conjE)
    have "take_until target n (c # cs) = b # take_until target (n + length b) cs"
      using False add c by (simp add: Let_def)
    with k Cons.prems(2) c show ?thesis by (intro exI [of _ "Suc k"]) (auto simp: add.assoc)
  qed
qed auto

lemma sorted_take_split:
  assumes s: "sorted (map f xs)" and x: "x \<in> set (take k xs)" and y: "y \<in> set xs" "y \<notin> set (take k xs)"
  shows "f x \<le> f y"
proof -
  have "sorted (map f (take k xs) @ map f (drop k xs))" using s by (simp flip: map_append)
  moreover have "y \<in> set (drop k xs)"
    using y by (metis Un_iff append_take_drop_id set_append)
  ultimately show ?thesis using x by (simp add: sorted_append)
qed

text \<open>
  Every block chosen for eviction was offered, is not empty and is held by the cache alone:
  no slot of it is free or in use by a request. Blocks go least recently used first, before every
  evictable block that stays; and no more go than the target asks for: either the target is met,
  and was not met without the last block, or every evictable block is chosen.
\<close>
theorem eviction_candidates_safe_lru:
  assumes "ledger_reachable n s D" and "select_eviction_candidates bs target s = Inr sel"
    and "sum_list (map length bs) \<le> usize_max"
  shows "(\<forall>b\<in>set sel. b \<in> set bs \<and> b \<noteq> [] \<and> cache_only s D b)
    \<and> sorted (map (newest_access s) sel)
    \<and> (\<forall>b\<in>set sel. \<forall>c\<in>set bs. c \<noteq> [] \<longrightarrow> cache_only s D c \<longrightarrow> c \<notin> set sel \<longrightarrow> newest_access s b \<le> newest_access s c)
    \<and> (target \<le> sum_list (map length sel) \<or> (\<forall>c\<in>set bs. c \<noteq> [] \<longrightarrow> cache_only s D c \<longrightarrow> c \<in> set sel))
    \<and> (sel \<noteq> [] \<longrightarrow> sum_list (map length (butlast sel)) < target)"
proof (cases "target = 0 \<or> bs = []")
  case True
  with assms(2) have "sel = []" by (auto simp: select_eviction_candidates_def)
  with True show ?thesis by auto
next
  case False
  note wf = ledger_invD(1) [OF ledger_reachable_inv [OF assms(1)], unfolded all_holds_def]
  from False assms(2) obtain cs0 where c0: "eviction_blocks s (active_slot_bitmap s) bs = Inr cs0"
    and sel: "sel = take_until target 0 (sort_key fst cs0)"
    by (auto simp: select_eviction_candidates_def split: sum.splits)
  define ok where "ok = filter (\<lambda>b. b \<noteq> [] \<and> cache_only s D b) bs"
  define cs where "cs = sort_key fst cs0"
  have cs0: "cs0 = map (\<lambda>b. (newest_access s b, b)) ok"
    using eviction_blocks_Inr [OF wf c0] by (simp add: ok_def)
  define bl where "bl = map snd cs"
  have mem: "set bl = set ok" by (force simp: bl_def cs_def cs0)
  have cs: "cs = map (\<lambda>b. (newest_access s b, b)) bl"
    unfolding bl_def map_map by (rule sym, rule map_idI) (auto simp: cs_def cs0)
  have "sorted (map fst cs)" by (simp add: cs_def)
  then have srt: "sorted (map (newest_access s) bl)" by (simp add: cs comp_def)
  have "sum_list (map (length \<circ> snd) cs) = sum_list (map length ok)"
    unfolding sum_mset_sum_list [symmetric] by (simp add: cs_def cs0 multiset.map_comp comp_def)
  also have "\<dots> \<le> sum_list (map length bs)" unfolding ok_def by (induction bs) auto
  finally have "0 + sum_list (map (length \<circ> snd) cs) \<le> usize_max" using assms(3) by simp
  from take_until_prefix [OF this, of target] False obtain k where
    "take_until target 0 cs = take k (map snd cs)"
    "length cs \<le> k \<or> target \<le> 0 + sum_list (map length (take k (map snd cs)))"
    "take_until target 0 cs \<noteq> [] \<longrightarrow> 0 + sum_list (map length (butlast (take_until target 0 cs))) < target"
    by blast
  then have k: "sel = take k bl" "length bl \<le> k \<or> target \<le> sum_list (map length sel)"
    and last: "sel \<noteq> [] \<longrightarrow> sum_list (map length (butlast sel)) < target"
    by (simp_all add: sel cs_def [symmetric] bl_def)
  have okset: "c \<in> set ok \<longleftrightarrow> c \<in> set bs \<and> c \<noteq> [] \<and> cache_only s D c" for c by (auto simp: ok_def)
  have "b \<in> set ok" if "b \<in> set sel" for b using that k(1) mem in_set_takeD by metis
  then have 1: "\<forall>b\<in>set sel. b \<in> set bs \<and> b \<noteq> [] \<and> cache_only s D b" using okset by blast
  have 2: "sorted (map (newest_access s) sel)" using sorted_wrt_take [OF srt, of k] k(1) by (simp add: take_map)
  have 3: "newest_access s b \<le> newest_access s c"
    if "b \<in> set sel" "c \<in> set bs" "c \<noteq> []" "cache_only s D c" "c \<notin> set sel" for b c
    by (rule sorted_take_split [OF srt]) (use that k(1) okset mem in auto)
  have 4: "target \<le> sum_list (map length sel) \<or> (\<forall>c\<in>set bs. c \<noteq> [] \<longrightarrow> cache_only s D c \<longrightarrow> c \<in> set sel)"
    using k okset mem by auto
  show ?thesis using 1 2 3 4 last by blast
qed

theorem eviction_candidates_safe_lru_witness:
  "select_eviction_candidates [[0, 3], [3, 4], [5]] 1 demo_ledger = Inr [[3, 4]]
    \<and> cache_only demo_ledger {#3, 4#} [3, 4]"
proof -
  have "select_eviction_candidates [[0, 3], [3, 4], [5]] 1 demo_ledger = Inr [[3, 4]]" by code_simp
  with eviction_candidates_safe_lru [OF demo_ledger_reachable this] show ?thesis by (simp add: usize_max_def)
qed

subsection \<open>Sharing a free slot\<close>

text \<open>
  Sharing does not check that a slot is held: a request can share a slot that is still on
  the free list, and the next allocation hands the same slot to another request.
\<close>
theorem share_free_slot_is_handed_out_again:
  "let s1 = snd (share_slots 1 [0] (ledger_new 2));
       s2 = snd (alloc_tokens 2 1 s1)
   in token_indices s2 1 = Some [0] \<and> token_indices s2 2 = Some [0] \<and> fst (alloc_tokens 2 1 s1) = Inr [0]"
  by code_simp

end
