(* ===== verification/Page_Budget.thy ===== *)
theory Page_Budget
  imports Prelude
begin

text \<open>
  The page and token budgets of \<open>infer/src/scheduler/cuda/budget.rs\<close>: how many KV pages a plan may
  still take in one tick, and how many prefill tokens. Lengths are \<open>usize\<close> and saturate as in the
  code; \<open>None\<close> is the panic of an index out of range. The pool that the budget is read from is
  device state: the initial values are arguments.
\<close>

subsection \<open>Page arithmetic\<close>

definition clipped_max_new_tokens_estimate :: "nat \<Rightarrow> nat" where
  "clipped_max_new_tokens_estimate max_tokens = min max_tokens 4096"

definition normalized_page_size :: "nat \<Rightarrow> nat" where
  "normalized_page_size page_size = max page_size 1"

definition page_count :: "nat \<Rightarrow> nat \<Rightarrow> nat" where
  "page_count tokens page_size = div_ceil tokens (normalized_page_size page_size)"

definition estimated_request_target_tokens :: "nat \<Rightarrow> nat \<Rightarrow> nat" where
  "estimated_request_target_tokens prompt_tokens max_tokens = saturating_add usize_max prompt_tokens 1"

definition estimated_request_pages :: "nat \<Rightarrow> nat \<Rightarrow> nat \<Rightarrow> nat" where
  "estimated_request_pages prompt_tokens max_tokens page_size =
     page_count (estimated_request_target_tokens prompt_tokens max_tokens) page_size"

definition additional_pages_needed :: "nat \<Rightarrow> nat \<Rightarrow> nat \<Rightarrow> nat" where
  "additional_pages_needed seq_len additional page_size0 =
     (if additional = 0 then 0
      else let page_size = normalized_page_size page_size0;
               current_pages = div_ceil seq_len page_size;
               future_pages = div_ceil (saturating_add usize_max seq_len additional) page_size
           in future_pages - current_pages)"

definition partial_tail_capacity :: "nat list \<Rightarrow> nat \<Rightarrow> nat" where
  "partial_tail_capacity seq_lens page_size0 =
     (let page_size = normalized_page_size page_size0
      in sum_list (map (\<lambda>seq_len. let used = seq_len mod page_size in if used = 0 then 0 else page_size - used) seq_lens))"

subsection \<open>The page budget\<close>

record page_growth =
  pg_slot_idx :: nat
  pg_tokens :: nat

record page_target =
  pt_slot_idx :: nat
  pt_seq_floor :: nat
  pt_target_seq :: nat

definition estimated_request_target :: "nat \<Rightarrow> nat \<Rightarrow> nat \<Rightarrow> nat \<Rightarrow> page_target" where
  "estimated_request_target slot_idx prompt_tokens max_tokens reserved_prefix_tokens =
     \<lparr>pt_slot_idx = slot_idx, pt_seq_floor = reserved_prefix_tokens,
      pt_target_seq = estimated_request_target_tokens prompt_tokens max_tokens\<rparr>"

record page_budget =
  pb_remaining_free_pages :: nat
  pb_planned_seq_lens :: "nat list"
  pb_append_cow_pages :: "nat list"
  pb_page_size :: nat
  pb_active :: bool

definition page_budget_new :: "nat \<Rightarrow> nat list \<Rightarrow> nat \<Rightarrow> bool \<Rightarrow> page_budget" where
  "page_budget_new free seqs page_size active = \<lparr>pb_remaining_free_pages = free, pb_planned_seq_lens = seqs,
     pb_append_cow_pages = [], pb_page_size = normalized_page_size page_size, pb_active = active\<rparr>"

definition cow_pages :: "page_budget \<Rightarrow> nat \<Rightarrow> nat" where
  "cow_pages b i = (case get_at (pb_append_cow_pages b) i of None \<Rightarrow> 0 | Some c \<Rightarrow> c)"

definition effective_seq_len :: "page_budget \<Rightarrow> nat \<Rightarrow> nat \<Rightarrow> nat option" where
  "effective_seq_len b slot_idx seq_floor = map_option (\<lambda>n. max n seq_floor) (get_at (pb_planned_seq_lens b) slot_idx)"

definition additional_pages_for_growth :: "page_budget \<Rightarrow> page_growth \<Rightarrow> nat option" where
  "additional_pages_for_growth b g = map_option (\<lambda>n. additional_pages_needed n (pg_tokens g) (pb_page_size b)
       + (if pg_tokens g > 0 then cow_pages b (pg_slot_idx g) else 0))
     (get_at (pb_planned_seq_lens b) (pg_slot_idx g))"

definition additional_pages_for_target :: "page_budget \<Rightarrow> page_target \<Rightarrow> nat option" where
  "additional_pages_for_target b t = map_option (\<lambda>current_seq.
       let target_seq = max (pt_target_seq t) (pt_seq_floor t)
       in additional_pages_needed current_seq (target_seq - current_seq) (pb_page_size b)
          + (if target_seq > current_seq then cow_pages b (pt_slot_idx t) else 0))
     (effective_seq_len b (pt_slot_idx t) (pt_seq_floor t))"

definition can_fit_growth :: "page_budget \<Rightarrow> page_growth \<Rightarrow> bool option" where
  "can_fit_growth b g = (if \<not> pb_active b then Some True
     else map_option (\<lambda>n. n \<le> pb_remaining_free_pages b) (additional_pages_for_growth b g))"

definition reserve_growth :: "page_growth \<Rightarrow> page_budget \<Rightarrow> page_budget option" where
  "reserve_growth g b = (if \<not> pb_active b then Some b
     else do {
       new_pages \<leftarrow> additional_pages_for_growth b g;
       n \<leftarrow> get_at (pb_planned_seq_lens b) (pg_slot_idx g);
       Some (b\<lparr>pb_remaining_free_pages := pb_remaining_free_pages b - new_pages,
               pb_planned_seq_lens := (pb_planned_seq_lens b)[pg_slot_idx g := saturating_add usize_max n (pg_tokens g)],
               pb_append_cow_pages := (if pg_tokens g > 0 then (pb_append_cow_pages b)[pg_slot_idx g := 0]
                                       else pb_append_cow_pages b)\<rparr>)
     })"

definition can_fit_target :: "page_budget \<Rightarrow> page_target \<Rightarrow> bool option" where
  "can_fit_target b t = (if \<not> pb_active b then Some True
     else map_option (\<lambda>n. n \<le> pb_remaining_free_pages b) (additional_pages_for_target b t))"

definition reserve_target :: "page_target \<Rightarrow> page_budget \<Rightarrow> page_budget option" where
  "reserve_target t b = (if \<not> pb_active b then Some b
     else do {
       current_seq \<leftarrow> effective_seq_len b (pt_slot_idx t) (pt_seq_floor t);
       let target_seq = max (pt_target_seq t) (pt_seq_floor t);
       new_pages \<leftarrow> additional_pages_for_target b t;
       Some (b\<lparr>pb_remaining_free_pages := pb_remaining_free_pages b - new_pages,
               pb_planned_seq_lens := (pb_planned_seq_lens b)[pt_slot_idx t := target_seq],
               pb_append_cow_pages := (if target_seq > current_seq then (pb_append_cow_pages b)[pt_slot_idx t := 0]
                                       else pb_append_cow_pages b)\<rparr>)
     })"

subsection \<open>The token budget of a step\<close>

record step_token_budget =
  tb_remaining_tokens :: nat
  tb_remaining_requests :: nat

definition token_budget_new :: "nat \<Rightarrow> nat \<Rightarrow> step_token_budget" where
  "token_budget_new tokens requests = \<lparr>tb_remaining_tokens = tokens, tb_remaining_requests = requests\<rparr>"

definition for_prefill :: "nat \<Rightarrow> nat \<Rightarrow> nat \<Rightarrow> nat \<Rightarrow> step_token_budget" where
  "for_prefill max_num_batched_tokens max_prefill_tokens running_decode_tokens remaining_requests =
     token_budget_new (min (max_num_batched_tokens - running_decode_tokens) max_prefill_tokens) remaining_requests"

definition token_can_fit :: "step_token_budget \<Rightarrow> nat \<Rightarrow> bool" where
  "token_can_fit b tokens \<longleftrightarrow> tokens > 0 \<and> tokens \<le> tb_remaining_tokens b \<and> tb_remaining_requests b > 0"

definition token_reserve :: "nat \<Rightarrow> step_token_budget \<Rightarrow> step_token_budget" where
  "token_reserve tokens b = \<lparr>tb_remaining_tokens = tb_remaining_tokens b - tokens,
     tb_remaining_requests = tb_remaining_requests b - 1\<rparr>"

subsection \<open>Reclaim goals\<close>

fun shortage_loop :: "nat \<Rightarrow> nat \<Rightarrow> (nat option \<times> nat) list \<Rightarrow> nat \<Rightarrow> nat \<Rightarrow> nat" where
  "shortage_loop page_size window [] requested considered = requested"
| "shortage_loop page_size window ((prompt, max_tokens) # rest) requested considered =
     (case prompt of
        None \<Rightarrow> shortage_loop page_size window rest requested considered
      | Some prompt_tokens \<Rightarrow>
          (let requested1 = saturating_add usize_max requested (estimated_request_pages prompt_tokens max_tokens page_size);
               considered1 = considered + 1
           in if considered1 \<ge> window then requested1
              else shortage_loop page_size window rest requested1 considered1))"

definition waiting_admission_shortage_pages :: "nat \<Rightarrow> nat \<Rightarrow> nat \<Rightarrow> nat \<Rightarrow> (nat option \<times> nat) list \<Rightarrow> nat" where
  "waiting_admission_shortage_pages free_pages page_size free_slots waiting_requests waiting =
     (if free_slots = 0 \<and> waiting_requests = 0 then 0
      else shortage_loop page_size (max free_slots waiting_requests) waiting 0 0 - free_pages)"

definition prefix_cache_reclaim_goal_pages :: "nat \<Rightarrow> nat \<Rightarrow> nat \<Rightarrow> nat \<Rightarrow> nat" where
  "prefix_cache_reclaim_goal_pages retained high_water low_water waiting_shortage =
     (let watermark_goal = (if retained > high_water then retained - low_water else 0)
      in min (max watermark_goal waiting_shortage) retained)"

definition coordinator_submit_headroom :: "nat \<Rightarrow> nat \<Rightarrow> nat" where
  "coordinator_submit_headroom capacity active = capacity - saturating_add usize_max active 1"

subsection \<open>Pages\<close>

lemma normalized_pos [simp]: "0 < normalized_page_size p"
  by (simp add: normalized_page_size_def)

lemma page_count_mono: "a \<le> b \<Longrightarrow> page_count a p \<le> page_count b p"
  by (simp add: page_count_def div_ceil_mono)

lemma additional_pages_diff:
  "seq \<le> usize_max \<Longrightarrow>
     page_count seq p + additional_pages_needed seq t p = page_count (saturating_add usize_max seq t) p"
proof -
  assume "seq \<le> usize_max"
  then have le: "seq \<le> saturating_add usize_max seq t" and z: "saturating_add usize_max seq 0 = seq"
    by (simp_all add: saturating_add_def)
  show ?thesis
    using page_count_mono [OF le, of p] z
    by (simp add: additional_pages_needed_def page_count_def Let_def)
qed

text \<open>What a growth or a target costs, in terms of the lengths before and after.\<close>

definition lens_bounded :: "page_budget \<Rightarrow> bool" where
  "lens_bounded b \<longleftrightarrow> (\<forall>n\<in>set (pb_planned_seq_lens b). n \<le> usize_max)"

definition planned_pages :: "page_budget \<Rightarrow> nat" where
  "planned_pages b = sum_list (map (\<lambda>n. page_count n (pb_page_size b)) (pb_planned_seq_lens b))"

lemma sum_list_update_nat:
  "i < length xs \<Longrightarrow> sum_list (map f (xs[i := y])) + f (xs ! i) = sum_list (map f xs) + (f y :: nat)"
proof (induction xs arbitrary: i)
  case (Cons x xs)
  then show ?case by (cases i) (auto simp: algebra_simps)
qed simp

lemma cow_update: "sum_list (pb_append_cow_pages b) = sum_list ((pb_append_cow_pages b)[i := 0]) + cow_pages b i"
  using sum_list_update_nat [of i "pb_append_cow_pages b" "\<lambda>x. x" 0]
  by (cases "i < length (pb_append_cow_pages b)") (auto simp: cow_pages_def get_at_def not_less list_update_beyond)

lemma lens_bounded_nth: "lens_bounded b \<Longrightarrow> i < length (pb_planned_seq_lens b) \<Longrightarrow> pb_planned_seq_lens b ! i \<le> usize_max"
  by (simp add: lens_bounded_def)

lemma growth_account:
  assumes act: "pb_active b" and bd: "lens_bounded b" and fit: "can_fit_growth b g = Some True"
    and res: "reserve_growth g b = Some b'"
  shows "pb_remaining_free_pages b' + planned_pages b' + sum_list (pb_append_cow_pages b) =
           pb_remaining_free_pages b + planned_pages b + sum_list (pb_append_cow_pages b')"
    "lens_bounded b'" "pb_active b'" "pb_page_size b' = pb_page_size b"
proof -
  let ?i = "pg_slot_idx g"
  let ?n = "pb_planned_seq_lens b ! ?i"
  let ?n' = "saturating_add usize_max ?n (pg_tokens g)"
  let ?cow = "if pg_tokens g > 0 then cow_pages b ?i else 0"
  define k where "k = additional_pages_needed ?n (pg_tokens g) (pb_page_size b)"
  from res act have i: "?i < length (pb_planned_seq_lens b)"
    by (auto simp: reserve_growth_def split: Option.bind_splits)
  have b': "b' = b\<lparr>pb_remaining_free_pages := pb_remaining_free_pages b - (k + ?cow),
      pb_planned_seq_lens := (pb_planned_seq_lens b)[?i := ?n'],
      pb_append_cow_pages := (if pg_tokens g > 0 then (pb_append_cow_pages b)[?i := 0] else pb_append_cow_pages b)\<rparr>"
    using res act i by (simp add: reserve_growth_def additional_pages_for_growth_def k_def)
  have fits: "k + ?cow \<le> pb_remaining_free_pages b"
    using fit act i by (simp add: can_fit_growth_def additional_pages_for_growth_def k_def)
  have pages: "planned_pages b' = planned_pages b + k"
    using sum_list_update_nat [OF i, of "\<lambda>n. page_count n (pb_page_size b)" ?n']
      additional_pages_diff [OF lens_bounded_nth [OF bd i], of "pb_page_size b" "pg_tokens g"]
    by (simp add: b' planned_pages_def k_def)
  have cow: "sum_list (pb_append_cow_pages b) = sum_list (pb_append_cow_pages b') + ?cow"
    using cow_update [of b ?i] by (simp add: b')
  show "pb_remaining_free_pages b' + planned_pages b' + sum_list (pb_append_cow_pages b) =
           pb_remaining_free_pages b + planned_pages b + sum_list (pb_append_cow_pages b')"
    unfolding pages cow using fits by (simp add: b')
  show "lens_bounded b'" "pb_active b'" "pb_page_size b' = pb_page_size b"
    using bd act set_update_subset_insert [of "pb_planned_seq_lens b" ?i ?n'] by (auto simp: b' lens_bounded_def)
qed

text \<open>The pages a target gets for free: those below its floor, which the prefix cache attaches.\<close>

definition attached_pages :: "page_budget \<Rightarrow> page_target \<Rightarrow> nat" where
  "attached_pages b t = page_count (max (pb_planned_seq_lens b ! pt_slot_idx t) (pt_seq_floor t)) (pb_page_size b)
     - page_count (pb_planned_seq_lens b ! pt_slot_idx t) (pb_page_size b)"

lemma target_account:
  assumes act: "pb_active b" and bd: "lens_bounded b" and fit: "can_fit_target b t = Some True"
    and res: "reserve_target t b = Some b'" and tb: "pt_target_seq t \<le> usize_max" "pt_seq_floor t \<le> usize_max"
  shows "pb_remaining_free_pages b' + planned_pages b' + sum_list (pb_append_cow_pages b) \<le>
           pb_remaining_free_pages b + planned_pages b + sum_list (pb_append_cow_pages b') + attached_pages b t"
    "lens_bounded b'" "pb_active b'" "pb_page_size b' = pb_page_size b"
proof -
  let ?i = "pt_slot_idx t"
  let ?c = "max (pb_planned_seq_lens b ! ?i) (pt_seq_floor t)"
  let ?n' = "max (pt_target_seq t) (pt_seq_floor t)"
  let ?cow = "if ?n' > ?c then cow_pages b ?i else 0"
  define k where "k = additional_pages_needed ?c (?n' - ?c) (pb_page_size b)"
  from res act have i: "?i < length (pb_planned_seq_lens b)"
    by (auto simp: reserve_target_def effective_seq_len_def split: Option.bind_splits)
  have b': "b' = b\<lparr>pb_remaining_free_pages := pb_remaining_free_pages b - (k + ?cow),
      pb_planned_seq_lens := (pb_planned_seq_lens b)[?i := ?n'],
      pb_append_cow_pages := (if ?n' > ?c then (pb_append_cow_pages b)[?i := 0] else pb_append_cow_pages b)\<rparr>"
    using res act i
    by (simp add: reserve_target_def additional_pages_for_target_def effective_seq_len_def k_def Let_def)
  have fits: "k + ?cow \<le> pb_remaining_free_pages b"
    using fit act i by (simp add: can_fit_target_def additional_pages_for_target_def effective_seq_len_def k_def Let_def)
  have "?c \<le> usize_max" using lens_bounded_nth [OF bd i] tb by simp
  from additional_pages_diff [OF this, of "pb_page_size b" "?n' - ?c"]
  have "page_count ?c (pb_page_size b) + k = page_count (max ?c ?n') (pb_page_size b)"
    using tb lens_bounded_nth [OF bd i] unfolding k_def by (simp add: saturating_add_def max_def min_def split: if_splits)
  moreover have "page_count ?n' (pb_page_size b) \<le> page_count (max ?c ?n') (pb_page_size b)"
    by (rule page_count_mono) simp
  moreover have "planned_pages b' + page_count (pb_planned_seq_lens b ! ?i) (pb_page_size b) =
      planned_pages b + page_count ?n' (pb_page_size b)"
    using sum_list_update_nat [OF i, of "\<lambda>n. page_count n (pb_page_size b)" ?n'] by (simp add: b' planned_pages_def)
  moreover have "page_count (pb_planned_seq_lens b ! ?i) (pb_page_size b) \<le> page_count ?c (pb_page_size b)"
    by (rule page_count_mono) simp
  ultimately have pages: "planned_pages b' \<le> planned_pages b + k + attached_pages b t"
    unfolding attached_pages_def by linarith
  have cow: "sum_list (pb_append_cow_pages b) = sum_list (pb_append_cow_pages b') + ?cow"
    using cow_update [of b ?i] by (simp add: b')
  have "pb_remaining_free_pages b' + (k + ?cow) = pb_remaining_free_pages b" using fits by (simp add: b')
  then show "pb_remaining_free_pages b' + planned_pages b' + sum_list (pb_append_cow_pages b) \<le>
           pb_remaining_free_pages b + planned_pages b + sum_list (pb_append_cow_pages b') + attached_pages b t"
    unfolding cow using pages by linarith
  show "lens_bounded b'" "pb_active b'" "pb_page_size b' = pb_page_size b"
    using bd act tb set_update_subset_insert [of "pb_planned_seq_lens b" ?i ?n'] by (auto simp: b' lens_bounded_def)
qed

subsection \<open>Properties\<close>

text \<open>Guarded reservations, as the planners make them: reserve only what fits.\<close>

inductive reserved :: "page_budget \<Rightarrow> nat \<Rightarrow> page_budget \<Rightarrow> bool" for b where
  start: "reserved b 0 b"
| growth: "reserved b a b1 \<Longrightarrow> can_fit_growth b1 g = Some True \<Longrightarrow> reserve_growth g b1 = Some b2 \<Longrightarrow> reserved b a b2"
| target: "reserved b a b1 \<Longrightarrow> can_fit_target b1 t = Some True \<Longrightarrow> reserve_target t b1 = Some b2 \<Longrightarrow>
    pt_target_seq t \<le> usize_max \<Longrightarrow> pt_seq_floor t \<le> usize_max \<Longrightarrow> reserved b (a + attached_pages b1 t) b2"

text \<open>
  (C28) A plan never promises pages that are not there: over any sequence of guarded reservations,
  the pages the planned lengths need beyond the present ones, plus the shared tail pages that must
  be copied, come out of the free pages of the budget and of the pages the prefix cache attaches.
\<close>
theorem page_budget_never_overcommits:
  assumes "reserved b a b'" and "pb_active b" and "lens_bounded b"
  shows "pb_remaining_free_pages b' + planned_pages b' + sum_list (pb_append_cow_pages b) \<le>
    pb_remaining_free_pages b + planned_pages b + sum_list (pb_append_cow_pages b') + a"
proof -
  from assms(1) have "pb_active b' \<and> lens_bounded b' \<and>
    pb_remaining_free_pages b' + planned_pages b' + sum_list (pb_append_cow_pages b) \<le>
    pb_remaining_free_pages b + planned_pages b + sum_list (pb_append_cow_pages b') + a"
  proof induction
    case start
    then show ?case using assms by simp
  next
    case (growth a b1 g b2)
    from growth.IH have "pb_active b1" "lens_bounded b1" by auto
    from growth_account [OF this growth.hyps(2,3)] growth.IH show ?case by auto
  next
    case (target a b1 t b2)
    from target.IH have "pb_active b1" "lens_bounded b1" by auto
    from target_account [OF this target.hyps(2,3,4,5)] target.IH show ?case by auto
  qed
  then show ?thesis by blast
qed

definition demo_budget :: page_budget where
  "demo_budget = (page_budget_new 5 [6, 0] 4 True)\<lparr>pb_append_cow_pages := [1, 0]\<rparr>"

theorem page_budget_never_overcommits_witness:
  "\<exists>a b'. reserved demo_budget a b' \<and> pb_planned_seq_lens b' = [9, 9]
    \<and> pb_remaining_free_pages b' + planned_pages b' + sum_list (pb_append_cow_pages demo_budget) \<le>
      pb_remaining_free_pages demo_budget + planned_pages demo_budget + sum_list (pb_append_cow_pages b') + a"
proof -
  define g where "g = \<lparr>pg_slot_idx = 0, pg_tokens = 3\<rparr>"
  define t where "t = estimated_request_target 1 8 100 4"
  define b1 where "b1 = the (reserve_growth g demo_budget)"
  define b2 where "b2 = the (reserve_target t b1)"
  have g: "can_fit_growth demo_budget g = Some True" "reserve_growth g demo_budget = Some b1"
    unfolding b1_def g_def by code_simp+
  have t: "can_fit_target b1 t = Some True" "reserve_target t b1 = Some b2" "pt_target_seq t \<le> usize_max"
    "pt_seq_floor t \<le> usize_max" "pb_planned_seq_lens b2 = [9, 9]"
    unfolding b2_def b1_def t_def g_def by code_simp+
  have r: "reserved demo_budget (0 + attached_pages b1 t) b2"
    by (rule reserved.target [OF reserved.growth [OF reserved.start g] t(1-4)])
  have "pb_active demo_budget" "lens_bounded demo_budget"
    by (simp_all add: demo_budget_def page_budget_new_def lens_bounded_def usize_max_def)
  from r t(5) page_budget_never_overcommits [OF r this] show ?thesis by blast
qed

text \<open>
  Growing a slot in two chunks reserves what growing it at once does, copied pages included:
  the budget does not depend on how a prompt is cut.
\<close>
theorem growth_in_chunks_is_growth:
  assumes "lens_bounded b" and "reserve_growth \<lparr>pg_slot_idx = i, pg_tokens = m\<rparr> b = Some b1"
  shows "reserve_growth \<lparr>pg_slot_idx = i, pg_tokens = n\<rparr> b1 = reserve_growth \<lparr>pg_slot_idx = i, pg_tokens = m + n\<rparr> b"
proof (cases "pb_active b")
  case True
  let ?s = "pb_planned_seq_lens b ! i"
  have i: "i < length (pb_planned_seq_lens b)"
    using assms(2) True by (auto simp: reserve_growth_def split: Option.bind_splits)
  have sat: "saturating_add usize_max (saturating_add usize_max ?s m) n = saturating_add usize_max ?s (m + n)"
    by (simp add: saturating_add_def)
  note s = lens_bounded_nth [OF assms(1) i]
  have sat0: "saturating_add usize_max ?s 0 = ?s"
    "saturating_add usize_max (saturating_add usize_max k j) 0 = saturating_add usize_max k j" for k j
    using s by (simp_all add: saturating_add_def)
  have none: "additional_pages_needed k 0 p = 0" for k p by (simp add: additional_pages_needed_def)
  have le: "saturating_add usize_max ?s m \<le> usize_max" by simp
  have add: "additional_pages_needed ?s (m + n) p =
      additional_pages_needed ?s m p + additional_pages_needed (saturating_add usize_max ?s m) n p" for p
    using additional_pages_diff [OF s, of p m] additional_pages_diff [OF s, of p "m + n"]
      additional_pages_diff [OF le, of p n] unfolding sat by linarith
  have b1: "b1 = b\<lparr>pb_remaining_free_pages := pb_remaining_free_pages b -
        (additional_pages_needed ?s m (pb_page_size b) + (if m > 0 then cow_pages b i else 0)),
      pb_planned_seq_lens := (pb_planned_seq_lens b)[i := saturating_add usize_max ?s m],
      pb_append_cow_pages := (if m > 0 then (pb_append_cow_pages b)[i := 0] else pb_append_cow_pages b)\<rparr>"
    using assms(2) True i by (auto simp: reserve_growth_def additional_pages_for_growth_def)
  show ?thesis
    using True i by (cases "m = 0"; cases "n = 0"; cases "i < length (pb_append_cow_pages b)")
      (simp_all add: reserve_growth_def additional_pages_for_growth_def b1 add sat sat0 none cow_pages_def
         get_at_def list_update_beyond)
qed (use assms(2) in \<open>auto simp: reserve_growth_def\<close>)

theorem growth_in_chunks_is_growth_witness:
  "reserve_growth \<lparr>pg_slot_idx = 0, pg_tokens = 4\<rparr> (the (reserve_growth \<lparr>pg_slot_idx = 0, pg_tokens = 3\<rparr> demo_budget)) =
     reserve_growth \<lparr>pg_slot_idx = 0, pg_tokens = 7\<rparr> demo_budget"
proof -
  have b: "lens_bounded demo_budget"
    by (simp add: demo_budget_def page_budget_new_def lens_bounded_def usize_max_def)
  have "reserve_growth \<lparr>pg_slot_idx = 0, pg_tokens = 3\<rparr> demo_budget \<noteq> None" by code_simp
  then have "reserve_growth \<lparr>pg_slot_idx = 0, pg_tokens = 3\<rparr> demo_budget =
      Some (the (reserve_growth \<lparr>pg_slot_idx = 0, pg_tokens = 3\<rparr> demo_budget))" by auto
  from growth_in_chunks_is_growth [OF b this, of 4] show ?thesis by simp
qed

subsection \<open>Reclaiming for the waiting queue\<close>

definition known_prompts :: "(nat option \<times> nat) list \<Rightarrow> (nat \<times> nat) list" where
  "known_prompts waiting = List.map_filter (\<lambda>(p, m). map_option (\<lambda>p. (p, m)) p) waiting"

definition prompts_pages :: "nat \<Rightarrow> (nat \<times> nat) list \<Rightarrow> nat" where
  "prompts_pages ps cs = sum_list (map (\<lambda>(p, m). estimated_request_pages p m ps) cs)"

lemma known_prompts_simps [simp]:
  "known_prompts [] = []" "known_prompts ((None, m) # w) = known_prompts w"
  "known_prompts ((Some p, m) # w) = (p, m) # known_prompts w"
  by (simp_all add: known_prompts_def List.map_filter_def)

lemma shortage_loop_eq:
  "considered < window \<Longrightarrow> requested + prompts_pages ps (take (window - considered) (known_prompts w)) \<le> usize_max \<Longrightarrow>
     shortage_loop ps window w requested considered =
       requested + prompts_pages ps (take (window - considered) (known_prompts w))"
proof (induction ps window w requested considered rule: shortage_loop.induct)
  case (2 ps window prompt m rest requested considered)
  show ?case
  proof (cases prompt)
    case None
    with 2 show ?thesis by simp
  next
    case (Some p)
    obtain k where k: "window - considered = Suc k" using 2(3) by (metis Suc_diff_Suc)
    then have k': "window - (considered + 1) = k" by simp
    have sat: "saturating_add usize_max requested (estimated_request_pages p m ps) = requested + estimated_request_pages p m ps"
      using 2(4) by (intro saturating_add_exact) (simp add: Some k prompts_pages_def)
    show ?thesis
    proof (cases "window \<le> considered + 1")
      case True
      with k' Some sat k show ?thesis by (simp add: prompts_pages_def)
    next
      case False
      with 2(2) [OF Some refl refl] 2(4) sat Some k k' show ?thesis
        by (simp add: prompts_pages_def add.assoc)
    qed
  qed
qed (simp add: prompts_pages_def)

text \<open>Admission of one waiting request after the other, each into an empty slot.\<close>

fun admit_prompts :: "nat \<Rightarrow> (nat \<times> nat) list \<Rightarrow> page_budget \<Rightarrow> page_budget option" where
  "admit_prompts i [] b = Some b"
| "admit_prompts i ((p, m) # cs) b = do {
     fits \<leftarrow> can_fit_target b (estimated_request_target i p m 0);
     if fits then do { b1 \<leftarrow> reserve_target (estimated_request_target i p m 0) b; admit_prompts (i + 1) cs b1 }
     else None
   }"

lemma admit_prompts_ok:
  assumes "pb_active b" "pb_append_cow_pages b = []" "i + length cs \<le> length (pb_planned_seq_lens b)"
    "\<forall>j. i \<le> j \<longrightarrow> j < i + length cs \<longrightarrow> pb_planned_seq_lens b ! j = 0" "pb_page_size b = normalized_page_size ps"
    "prompts_pages ps cs \<le> pb_remaining_free_pages b"
  shows "admit_prompts i cs b \<noteq> None"
  using assms
proof (induction cs arbitrary: i b)
  case (Cons c cs)
  obtain p m where c: "c = (p, m)" by (cases c)
  let ?t = "estimated_request_target i p m 0"
  have i: "i < length (pb_planned_seq_lens b)" "pb_planned_seq_lens b ! i = 0" using Cons.prems(3,4) by simp_all
  have cow: "cow_pages b j = 0" for j using Cons.prems(2) by (simp add: cow_pages_def get_at_def)
  have norm: "normalized_page_size (normalized_page_size ps) = normalized_page_size ps"
    by (simp add: normalized_page_size_def)
  have sat0: "saturating_add usize_max 0 (saturating_add usize_max p 1) = saturating_add usize_max p 1"
    by (simp add: saturating_add_def)
  have cost: "additional_pages_for_target b ?t = Some (estimated_request_pages p m ps)"
    using i cow Cons.prems(5) sat0
    by (auto simp: additional_pages_for_target_def effective_seq_len_def estimated_request_target_def Let_def
        additional_pages_needed_def estimated_request_pages_def page_count_def estimated_request_target_tokens_def norm)
  have le: "estimated_request_pages p m ps \<le> pb_remaining_free_pages b" "prompts_pages ps cs \<le> pb_remaining_free_pages b - estimated_request_pages p m ps"
    using Cons.prems(6) c by (simp_all add: prompts_pages_def)
  have fit: "can_fit_target b ?t = Some True" using Cons.prems(1) cost le by (simp add: can_fit_target_def)
  define b1 where "b1 = b\<lparr>pb_remaining_free_pages := pb_remaining_free_pages b - estimated_request_pages p m ps,
    pb_planned_seq_lens := (pb_planned_seq_lens b)[i := estimated_request_target_tokens p m]\<rparr>"
  have b1: "reserve_target ?t b = Some b1"
    using Cons.prems(1,2) i cost
    by (simp add: reserve_target_def effective_seq_len_def Let_def estimated_request_target_def b1_def)
  have b1': "pb_active b1" "pb_append_cow_pages b1 = []"
    "pb_planned_seq_lens b1 = (pb_planned_seq_lens b)[i := estimated_request_target_tokens p m]" "pb_page_size b1 = pb_page_size b"
    "pb_remaining_free_pages b1 = pb_remaining_free_pages b - estimated_request_pages p m ps"
    using Cons.prems(1,2) by (simp_all add: b1_def)
  have "admit_prompts (i + 1) cs b1 \<noteq> None"
    by (rule Cons.IH) (use Cons.prems b1' le in \<open>auto simp: nth_list_update\<close>)
  then show ?case using fit b1 c by simp
qed simp

text \<open>
  Reclaiming the goal is enough. When the prefix cache retains at least the shortage, and
  gives back the pages of the reclaim goal, then every request in the admission window fits the
  page budget, one after the other.
\<close>
theorem reclaim_goal_admits_window:
  assumes "waiting_admission_shortage_pages free ps slots waiting_requests w \<le> retained"
    and "goal = prefix_cache_reclaim_goal_pages retained high low
                  (waiting_admission_shortage_pages free ps slots waiting_requests w)"
    and "cs = take (max slots waiting_requests) (known_prompts w)"
    and "prompts_pages ps cs \<le> usize_max"
  shows "goal \<le> retained \<and> admit_prompts 0 cs (page_budget_new (free + goal) (replicate (length cs) 0) ps True) \<noteq> None"
proof (cases "slots = 0 \<and> waiting_requests = 0")
  case True
  then show ?thesis using assms by (simp add: prefix_cache_reclaim_goal_pages_def Let_def)
next
  case False
  then have "0 < max slots waiting_requests" by (auto simp: max_def)
  then have "waiting_admission_shortage_pages free ps slots waiting_requests w = prompts_pages ps cs - free"
    using assms(3,4) shortage_loop_eq [of 0 "max slots waiting_requests" 0 ps w]
    by (auto simp: waiting_admission_shortage_pages_def)
  then have goal: "prompts_pages ps cs \<le> free + goal" "goal \<le> retained"
    using assms(1,2) by (auto simp: prefix_cache_reclaim_goal_pages_def Let_def)
  have "admit_prompts 0 cs (page_budget_new (free + goal) (replicate (length cs) 0) ps True) \<noteq> None"
    by (rule admit_prompts_ok [where ps = ps]) (use goal in \<open>simp_all add: page_budget_new_def\<close>)
  with goal show ?thesis by simp
qed

theorem reclaim_goal_admits_window_witness:
  "waiting_admission_shortage_pages 1 4 2 0 [(Some 7, 3), (None, 5), (Some 4, 9)] = 3
    \<and> prefix_cache_reclaim_goal_pages 6 8 4 3 = 3
    \<and> admit_prompts 0 [(7, 3), (4, 9)] (page_budget_new (1 + 3) [0, 0] 4 True) \<noteq> None"
proof -
  have *: "waiting_admission_shortage_pages 1 4 2 0 [(Some 7, 3), (None, 5), (Some 4, 9)] = 3"
    "prefix_cache_reclaim_goal_pages 6 8 4 3 = 3"
    "known_prompts [(Some 7, 3), (None, 5), (Some 4, 9)] = [(7, 3), (4, 9)]"
    "prompts_pages 4 [(7, 3), (4, 9)] \<le> usize_max" by code_simp+
  with reclaim_goal_admits_window [of 1 4 2 0 "[(Some 7, 3), (None, 5), (Some 4, 9)]" 6 3 8 4 "[(7, 3), (4, 9)]"]
  show ?thesis by simp
qed

end
