(* ===== verification/Host_Arena.thy ===== *)
theory Host_Arena
  imports Rust_Bytes Prelude
begin

text \<open>
  The host arena of \<open>crates/kv-native-sys/src/lib.rs\<close> (a bump pointer and a free list over one
  mapping) and the host pinned pool of \<open>infer/src/kv_tier/host_pool.rs\<close> on top of it, which keeps
  the set of live regions. The mapping is a list of bytes; a null handle and the page mapping
  itself are not modelled. Offsets and lengths are \<open>usize\<close> with the checks of the code.
\<close>

subsection \<open>The arena\<close>

record region =
  r_offset :: nat
  r_len :: nat

record host_arena =
  ha_capacity_bytes :: nat
  ha_next_offset :: nat
  ha_reserved_bytes :: nat
  ha_free_list :: "region list"

datatype arena_error = CapacityZero | RegionOverflow | OutOfBoundsOrEmpty | ReservedUnderflow | ReservedOverflow

definition checked_add :: "nat \<Rightarrow> nat \<Rightarrow> nat option" where
  "checked_add a b = (if a + b \<le> usize_max then Some (a + b) else None)"

definition checked_sub :: "nat \<Rightarrow> nat \<Rightarrow> nat option" where
  "checked_sub a b = (if b \<le> a then Some (a - b) else None)"

definition swap_remove :: "nat \<Rightarrow> 'a list \<Rightarrow> 'a list" where
  "swap_remove i xs = butlast (xs[i := last xs])"

definition region_end :: "region \<Rightarrow> nat option" where
  "region_end r = checked_add (r_offset r) (r_len r)"

fun find_ending :: "nat \<Rightarrow> nat \<Rightarrow> region list \<Rightarrow> nat option" where
  "find_ending target i [] = None"
| "find_ending target i (f # fs) = (if region_end f = Some target then Some i else find_ending target (i + 1) fs)"

lemma find_ending_Some:
  "find_ending t i fs = Some k \<Longrightarrow> i \<le> k \<and> k - i < length fs \<and> region_end (fs ! (k - i)) = Some t"
proof (induction fs arbitrary: i)
  case (Cons f fs)
  show ?case
  proof (cases "region_end f = Some t")
    case False
    with Cons have "find_ending t (i + 1) fs = Some k" by simp
    from Cons.IH [OF this] show ?thesis by (auto simp: Suc_diff_le nth_Cons' less_Suc_eq_le Suc_le_eq)
  qed (use Cons.prems in auto)
qed simp

lemma find_ending_None: "find_ending t i fs = None \<longleftrightarrow> (\<forall>f\<in>set fs. region_end f \<noteq> Some t)"
  by (induction fs arbitrary: i) auto

lemma length_swap_remove [simp]: "length (swap_remove i xs) = length xs - 1"
  by (simp add: swap_remove_def)

function rewind :: "nat \<Rightarrow> region list \<Rightarrow> nat \<times> region list" where
  "rewind next fs = (case find_ending next 0 fs of
     None \<Rightarrow> (next, fs)
   | Some i \<Rightarrow> rewind (r_offset (fs ! i)) (swap_remove i fs))"
  by pat_completeness auto

termination
  by (relation "measure (\<lambda>(_, fs). length fs)") (auto dest!: find_ending_Some)

declare rewind.simps [simp del]

definition host_arena_rewind_tail :: "host_arena \<Rightarrow> host_arena" where
  "host_arena_rewind_tail a = (case rewind (ha_next_offset a) (ha_free_list a) of
     (next, fs) \<Rightarrow> a\<lparr>ha_next_offset := next, ha_free_list := fs\<rparr>)"

definition host_arena_create :: "nat \<Rightarrow> arena_error + host_arena" where
  "host_arena_create capacity = (if capacity = 0 then Inl CapacityZero
     else Inr \<lparr>ha_capacity_bytes = capacity, ha_next_offset = 0, ha_reserved_bytes = 0, ha_free_list = []\<rparr>)"

fun first_fit :: "nat \<Rightarrow> nat \<Rightarrow> region list \<Rightarrow> nat option" where
  "first_fit len i [] = None"
| "first_fit len i (f # fs) = (if r_len f < len then first_fit len (i + 1) fs else Some i)"

definition add_reserved :: "nat \<Rightarrow> host_arena \<Rightarrow> (arena_error + unit) \<times> host_arena" where
  "add_reserved len a = (case checked_add (ha_reserved_bytes a) len of
     None \<Rightarrow> (Inl ReservedOverflow, a)
   | Some n \<Rightarrow> (Inr (), a\<lparr>ha_reserved_bytes := n\<rparr>))"

definition host_arena_reserve :: "nat \<Rightarrow> host_arena \<Rightarrow> (arena_error + region option) \<times> host_arena" where
  "host_arena_reserve len a =
     (if len = 0 then (Inr None, a)
      else case first_fit len 0 (ha_free_list a) of
        Some i \<Rightarrow>
          (let free = ha_free_list a ! i;
               fs = swap_remove i (ha_free_list a);
               fs1 = (if r_len free > len
                      then fs @ [\<lparr>r_offset = r_offset free + len, r_len = r_len free - len\<rparr>] else fs);
               region = \<lparr>r_offset = r_offset free, r_len = len\<rparr>
           in case add_reserved len (a\<lparr>ha_free_list := fs1\<rparr>) of
                (Inl e, a1) \<Rightarrow> (Inl e, a1) | (Inr _, a1) \<Rightarrow> (Inr (Some region), a1))
      | None \<Rightarrow> (case checked_add (ha_next_offset a) len of
          None \<Rightarrow> (Inr None, a)
        | Some end_ \<Rightarrow>
            if end_ > ha_capacity_bytes a then (Inr None, a)
            else case add_reserved len (a\<lparr>ha_next_offset := end_\<rparr>) of
                (Inl e, a1) \<Rightarrow> (Inl e, a1)
              | (Inr _, a1) \<Rightarrow> (Inr (Some \<lparr>r_offset = ha_next_offset a, r_len = len\<rparr>), a1)))"

definition host_arena_release :: "region \<Rightarrow> host_arena \<Rightarrow> (arena_error + unit) \<times> host_arena" where
  "host_arena_release r a =
     (case region_end r of
        None \<Rightarrow> (Inl RegionOverflow, a)
      | Some end_ \<Rightarrow>
          if r_len r = 0 \<or> end_ > ha_capacity_bytes a then (Inl OutOfBoundsOrEmpty, a)
          else case checked_sub (ha_reserved_bytes a) (r_len r) of
            None \<Rightarrow> (Inl ReservedUnderflow, a)
          | Some n \<Rightarrow>
              (let a1 = a\<lparr>ha_reserved_bytes := n\<rparr>
               in if end_ = ha_next_offset a1
                  then (Inr (), host_arena_rewind_tail (a1\<lparr>ha_next_offset := r_offset r\<rparr>))
                  else (Inr (), a1\<lparr>ha_free_list := ha_free_list a1 @ [r]\<rparr>)))"

definition host_arena_reset :: "host_arena \<Rightarrow> host_arena" where
  "host_arena_reset a = a\<lparr>ha_next_offset := 0, ha_reserved_bytes := 0, ha_free_list := []\<rparr>"

subsection \<open>The pinned pool\<close>

record host_pool =
  hp_capacity_bytes :: nat
  hp_arena :: host_arena
  hp_bytes :: "u8 list"
  hp_live_regions :: "region list"

datatype pool_error = PoolCapacityZero | Arena arena_error | PoolRegionOverflow | PoolOutOfBounds | NotLive | LengthMismatch

definition host_pool_new :: "nat \<Rightarrow> pool_error + host_pool" where
  "host_pool_new capacity = (if capacity = 0 then Inl PoolCapacityZero
     else case host_arena_create capacity of
       Inl e \<Rightarrow> Inl (Arena e)
     | Inr a \<Rightarrow> Inr \<lparr>hp_capacity_bytes = capacity, hp_arena = a, hp_bytes = replicate capacity 0, hp_live_regions = []\<rparr>)"

definition remaining_bytes :: "host_pool \<Rightarrow> nat" where
  "remaining_bytes p = hp_capacity_bytes p - ha_reserved_bytes (hp_arena p)"

text \<open>\<open>None\<close> is the failed assertion of \<open>reserve\<close>: the region is live already.\<close>

definition pool_reserve :: "nat \<Rightarrow> host_pool \<Rightarrow> ((pool_error + region option) \<times> host_pool) option" where
  "pool_reserve len p = (case host_arena_reserve len (hp_arena p) of
     (Inl e, a) \<Rightarrow> Some (Inl (Arena e), p\<lparr>hp_arena := a\<rparr>)
   | (Inr None, a) \<Rightarrow> Some (Inr None, p\<lparr>hp_arena := a\<rparr>)
   | (Inr (Some r), a) \<Rightarrow>
       if r \<in> set (hp_live_regions p) then None
       else Some (Inr (Some r), p\<lparr>hp_arena := a, hp_live_regions := r # hp_live_regions p\<rparr>))"

definition validate_live_region :: "region \<Rightarrow> host_pool \<Rightarrow> pool_error + nat" where
  "validate_live_region r p = (case checked_add (r_offset r) (r_len r) of
     None \<Rightarrow> Inl PoolRegionOverflow
   | Some end_ \<Rightarrow>
       if end_ > hp_capacity_bytes p then Inl PoolOutOfBounds
       else if r \<notin> set (hp_live_regions p) then Inl NotLive
       else Inr (r_offset r))"

definition pool_release :: "region \<Rightarrow> host_pool \<Rightarrow> (pool_error + unit) \<times> host_pool" where
  "pool_release r p = (case validate_live_region r p of
     Inl e \<Rightarrow> (Inl e, p)
   | Inr _ \<Rightarrow> (case host_arena_release r (hp_arena p) of
        (Inl e, a) \<Rightarrow> (Inl (Arena e), p\<lparr>hp_arena := a\<rparr>)
      | (Inr _, a) \<Rightarrow> (Inr (), p\<lparr>hp_arena := a, hp_live_regions := removeAll r (hp_live_regions p)\<rparr>)))"

definition pool_reset :: "host_pool \<Rightarrow> host_pool" where
  "pool_reset p = p\<lparr>hp_arena := host_arena_reset (hp_arena p), hp_live_regions := []\<rparr>"

definition read_region :: "region \<Rightarrow> host_pool \<Rightarrow> pool_error + u8 list" where
  "read_region r p = (case validate_live_region r p of
     Inl e \<Rightarrow> Inl e | Inr offset \<Rightarrow> Inr (take (r_len r) (drop offset (hp_bytes p))))"

definition write_region :: "region \<Rightarrow> u8 list \<Rightarrow> host_pool \<Rightarrow> (pool_error + unit) \<times> host_pool" where
  "write_region r bs p =
     (if length bs \<noteq> r_len r then (Inl LengthMismatch, p)
      else case validate_live_region r p of
        Inl e \<Rightarrow> (Inl e, p)
      | Inr offset \<Rightarrow> (Inr (), p\<lparr>hp_bytes := take offset (hp_bytes p) @ bs @ drop (offset + length bs) (hp_bytes p)\<rparr>))"

end
