(* ===== verification/Host_Props.thy ===== *)
theory Host_Props
  imports Host_Arena "HOL-Library.Multiset"
begin

text \<open>
  The arena invariant and what the pinned pool promises. The bytes below the bump pointer are
  partitioned into free and live regions: every byte is covered exactly once. Counting covers
  instead of stating disjointness makes the invariant independent of the order of the lists.
\<close>

subsection \<open>Covers\<close>

definition bytes_of :: "region \<Rightarrow> nat set" where
  "bytes_of r = {r_offset r ..< r_offset r + r_len r}"

definition cov :: "region list \<Rightarrow> nat \<Rightarrow> nat" where
  "cov rs x = length (filter (\<lambda>r. x \<in> bytes_of r) rs)"

lemma cov_simps [simp]:
  "cov [] x = 0" "cov (r # rs) x = (if x \<in> bytes_of r then 1 else 0) + cov rs x"
  "cov (rs @ qs) x = cov rs x + cov qs x"
  by (simp_all add: cov_def)

lemma cov_mset: "mset rs = mset qs \<Longrightarrow> cov rs x = cov qs x"
  unfolding cov_def by (metis mset_filter size_mset)

lemma cov_mem: "r \<in> set rs \<Longrightarrow> x \<in> bytes_of r \<Longrightarrow> 0 < cov rs x"
  by (auto simp: cov_def filter_empty_conv)

lemma mset_swap_remove:
  assumes "i < length xs"
  shows "add_mset (xs ! i) (mset (swap_remove i xs)) = mset xs"
proof -
  let ?ys = "xs[i := last xs]"
  have ne: "?ys \<noteq> []" using assms by (metis length_0_conv length_list_update less_nat_zero_code)
  have "xs \<noteq> []" using assms by auto
  with ne assms have "last ?ys = last xs" by (simp add: last_conv_nth nth_list_update)
  moreover have "mset ?ys = add_mset (last ?ys) (mset (butlast ?ys))"
    using ne by (metis append_butlast_last_id mset_append mset.simps(1) mset.simps(2) add_mset_add_single)
  moreover have "mset ?ys = add_mset (last xs) (mset xs - {#xs ! i#})" using assms by (rule mset_update)
  ultimately have "mset (swap_remove i xs) = mset xs - {#xs ! i#}" by (simp add: swap_remove_def)
  then show ?thesis using assms by simp
qed

lemma cov_swap_remove:
  "i < length xs \<Longrightarrow> cov xs x = (if x \<in> bytes_of (xs ! i) then 1 else 0) + cov (swap_remove i xs) x"
  using cov_mset [of xs "xs ! i # swap_remove i xs" x] mset_swap_remove [of i xs] by simp

lemma set_swap_remove: "i < length xs \<Longrightarrow> set (swap_remove i xs) \<subseteq> set xs"
  by (metis mset_swap_remove set_mset_add_mset_insert set_mset_mset subset_insertI)

lemma cov_remove1: "r \<in> set rs \<Longrightarrow> cov rs x = (if x \<in> bytes_of r then 1 else 0) + cov (remove1 r rs) x"
  using cov_mset [of rs "r # remove1 r rs" x] by simp

lemma cov_end:
  assumes "\<And>x. cov rs x \<le> (if x < n then 1 else 0)" "r \<in> set rs" "0 < r_len r"
  shows "r_offset r + r_len r \<le> n"
proof -
  have "r_offset r + r_len r - 1 \<in> bytes_of r" using assms(3) by (auto simp: bytes_of_def)
  from cov_mem [OF assms(2) this] assms(1) [of "r_offset r + r_len r - 1"] show ?thesis
    by (simp split: if_splits)
qed

lemma sum_cov:
  "(\<And>r. r \<in> set rs \<Longrightarrow> r_offset r + r_len r \<le> n) \<Longrightarrow> (\<Sum>x<n. cov rs x) = sum_list (map r_len rs)"
proof (induction rs)
  case (Cons r rs)
  have "{x. x < n \<and> x \<in> bytes_of r} = bytes_of r" using Cons.prems [of r] by (auto simp: bytes_of_def)
  then have "(\<Sum>x<n. if x \<in> bytes_of r then 1 else 0 :: nat) = r_len r"
    by (simp add: sum.If_cases Int_def bytes_of_def)
  then show ?case using Cons by (simp add: sum.distrib)
qed simp

lemma sum_lens_le:
  assumes "\<And>x. cov rs x \<le> (if x < n then 1 else 0)" "\<And>r. r \<in> set rs \<Longrightarrow> 0 < r_len r"
  shows "sum_list (map r_len rs) \<le> n"
proof -
  have "sum_list (map r_len rs) = (\<Sum>x<n. cov rs x)"
    by (rule sum_cov [symmetric]) (rule cov_end [OF assms(1)], auto intro: assms(2))
  also have "\<dots> \<le> (\<Sum>x<n. 1)" by (rule sum_mono) (use assms(1) in \<open>metis lessThan_iff\<close>)
  finally show ?thesis by simp
qed

subsection \<open>The invariant of the arena\<close>

definition partition_of :: "nat \<Rightarrow> region list \<Rightarrow> region list \<Rightarrow> bool" where
  "partition_of n fs ls \<longleftrightarrow> (\<forall>x. cov fs x + cov ls x = (if x < n then 1 else 0)) \<and>
     (\<forall>r\<in>set fs \<union> set ls. 0 < r_len r)"

definition arena_inv :: "host_arena \<Rightarrow> region list \<Rightarrow> bool" where
  "arena_inv a ls \<longleftrightarrow> ha_next_offset a \<le> ha_capacity_bytes a \<and> ha_capacity_bytes a \<le> usize_max \<and>
     partition_of (ha_next_offset a) (ha_free_list a) ls \<and>
     ha_reserved_bytes a = sum_list (map r_len ls) \<and>
     (\<forall>f\<in>set (ha_free_list a). r_offset f + r_len f \<noteq> ha_next_offset a)"

lemma partition_cov: "partition_of n fs ls \<Longrightarrow> cov fs x + cov ls x = (if x < n then 1 else 0)"
  by (simp add: partition_of_def)

lemma partition_end:
  assumes "partition_of n fs ls" "r \<in> set fs \<union> set ls"
  shows "r_offset r + r_len r \<le> n" "0 < r_len r"
proof -
  show "0 < r_len r" using assms by (simp add: partition_of_def)
  then show "r_offset r + r_len r \<le> n"
    using cov_end [of "fs @ ls" n r] assms by (simp add: partition_of_def)
qed

lemma partition_disjoint:
  assumes p: "partition_of n fs ls" and r: "r \<in> set ls" and q: "q \<in> set fs \<or> q \<in> set (remove1 r ls)"
  shows "bytes_of r \<inter> bytes_of q = {}"
proof (rule ccontr)
  assume "bytes_of r \<inter> bytes_of q \<noteq> {}"
  then obtain x where x: "x \<in> bytes_of r" "x \<in> bytes_of q" by blast
  have "cov fs x + cov ls x \<le> 1" using p by (simp add: partition_of_def)
  then have "cov fs x = 0" "cov (remove1 r ls) x = 0" using cov_remove1 [OF r, of x] x by simp_all
  with q x(2) cov_mem show False by fastforce
qed

lemma rewind_ok:
  assumes "partition_of n fs ls" "n \<le> usize_max"
  shows "case rewind n fs of (m, gs) \<Rightarrow> partition_of m gs ls \<and> m \<le> n \<and>
    (\<forall>g\<in>set gs. r_offset g + r_len g \<noteq> m)"
  using assms
proof (induction n fs rule: rewind.induct)
  case (1 n fs)
  have end_: "region_end f = Some (r_offset f + r_len f)" if "f \<in> set fs" for f
    using partition_end(1) [OF 1(2), of f] that 1(3) by (simp add: region_end_def checked_add_def)
  show ?case
  proof (cases "find_ending n 0 fs")
    case None
    then have "\<forall>f\<in>set fs. r_offset f + r_len f \<noteq> n" using end_ by (auto simp: find_ending_None)
    with None 1(2) show ?thesis by (simp add: rewind.simps [of n fs])
  next
    case (Some i)
    let ?f = "fs ! i"
    have i: "i < length fs" "region_end ?f = Some n" using find_ending_Some [OF Some] by simp_all
    then have n: "r_offset ?f + r_len ?f = n" using end_ by simp
    have p: "cov fs x + cov ls x = (if x < n then 1 else 0)" for x using 1(2) by (simp add: partition_of_def)
    have "cov (swap_remove i fs) x + cov ls x = (if x < r_offset ?f then 1 else 0)" for x
      using p [of x] cov_swap_remove [OF i(1), of x] n by (auto simp: bytes_of_def split: if_splits)
    moreover have "\<forall>r\<in>set (swap_remove i fs) \<union> set ls. 0 < r_len r"
      using set_swap_remove [OF i(1)] 1(2) unfolding partition_of_def by blast
    ultimately have "partition_of (r_offset ?f) (swap_remove i fs) ls" by (simp add: partition_of_def)
    from 1(1) [OF Some this] 1(3) n show ?thesis
      using Some by (auto simp: rewind.simps [of n fs])
  qed
qed

lemma first_fit_Some: "first_fit len i fs = Some k \<Longrightarrow> i \<le> k \<and> k - i < length fs \<and> len \<le> r_len (fs ! (k - i))"
proof (induction fs arbitrary: i)
  case (Cons f fs)
  show ?case
  proof (cases "r_len f < len")
    case True
    with Cons have "first_fit len (i + 1) fs = Some k" by simp
    from Cons.IH [OF this] show ?thesis by (auto simp: Suc_diff_le nth_Cons' less_Suc_eq_le Suc_le_eq)
  qed (use Cons.prems in auto)
qed simp

lemma first_fit_None: "first_fit len i fs = None \<longleftrightarrow> (\<forall>f\<in>set fs. r_len f < len)"
  by (induction fs arbitrary: i) auto

lemma arena_reserved_le:
  assumes "arena_inv a ls"
  shows "ha_reserved_bytes a \<le> ha_next_offset a"
proof -
  have p: "partition_of (ha_next_offset a) (ha_free_list a) ls" using assms by (simp add: arena_inv_def)
  have "sum_list (map r_len ls) \<le> ha_next_offset a"
  proof (rule sum_lens_le)
    fix x show "cov ls x \<le> (if x < ha_next_offset a then 1 else 0)"
      using p unfolding partition_of_def by (metis le_add2)
  qed (use p in \<open>simp add: partition_of_def\<close>)
  with assms show ?thesis by (simp add: arena_inv_def)
qed

subsection \<open>Reserve and release\<close>

definition hole :: "nat \<Rightarrow> host_arena \<Rightarrow> bool" where
  "hole len a \<longleftrightarrow> (\<exists>f\<in>set (ha_free_list a). len \<le> r_len f) \<or> ha_next_offset a + len \<le> ha_capacity_bytes a"

lemma reserve_hole:
  assumes inv: "arena_inv a ls" and len: "0 < len" and fit: "hole len a"
  shows "\<exists>r a'. host_arena_reserve len a = (Inr (Some r), a') \<and> r_len r = len \<and> arena_inv a' (r # ls)
    \<and> ha_capacity_bytes a' = ha_capacity_bytes a"
proof -
  let ?n = "ha_next_offset a"
  have p: "partition_of ?n (ha_free_list a) ls" and cap: "?n \<le> ha_capacity_bytes a" "ha_capacity_bytes a \<le> usize_max"
    and tail: "\<forall>f\<in>set (ha_free_list a). r_offset f + r_len f \<noteq> ?n"
    using inv by (simp_all add: arena_inv_def)
  have add: "add_reserved len a' = (Inr (), a'\<lparr>ha_reserved_bytes := ha_reserved_bytes a + len\<rparr>)"
    if i: "arena_inv (a'\<lparr>ha_reserved_bytes := ha_reserved_bytes a + len\<rparr>) qs"
      and e: "ha_reserved_bytes a' = ha_reserved_bytes a" for a' qs
    using arena_reserved_le [OF i] i e by (simp add: add_reserved_def checked_add_def arena_inv_def)
  show ?thesis
  proof (cases "first_fit len 0 (ha_free_list a)")
    case (Some i)
    let ?f = "ha_free_list a ! i"
    let ?r = "\<lparr>r_offset = r_offset ?f, r_len = len\<rparr>"
    let ?rest = "if r_len ?f > len then [\<lparr>r_offset = r_offset ?f + len, r_len = r_len ?f - len\<rparr>] else []"
    have i: "i < length (ha_free_list a)" "len \<le> r_len ?f" using first_fit_Some [OF Some] by simp_all
    define a1 where "a1 = a\<lparr>ha_free_list := swap_remove i (ha_free_list a) @ ?rest\<rparr>"
    have f: "?f \<in> set (ha_free_list a)" using i(1) by simp
    have split: "(if x \<in> bytes_of ?f then 1 else 0) = (if x \<in> bytes_of ?r then 1 else 0) + cov ?rest x" for x
      using i(2) by (auto simp: bytes_of_def)
    have c: "cov (ha_free_list a1) x + cov (?r # ls) x = (if x < ?n then 1 else 0)" for x
    proof -
      have "cov (ha_free_list a1) x = cov (swap_remove i (ha_free_list a)) x + cov ?rest x"
        "cov (?r # ls) x = (if x \<in> bytes_of ?r then 1 else 0) + cov ls x" by (simp_all add: a1_def)
      with partition_cov [OF p, of x] cov_swap_remove [OF i(1), of x] split [of x] show ?thesis by linarith
    qed
    have pos: "\<forall>r\<in>set (ha_free_list a1) \<union> set (?r # ls). 0 < r_len r"
      using p set_swap_remove [OF i(1)] len by (auto simp: a1_def partition_of_def)
    have tl: "\<forall>f\<in>set (ha_free_list a1). r_offset f + r_len f \<noteq> ?n"
      using tail set_swap_remove [OF i(1)] f i(2) by (auto simp: a1_def)
    have inv1: "arena_inv (a1\<lparr>ha_reserved_bytes := ha_reserved_bytes a + len\<rparr>) (?r # ls)"
      using c pos tl cap inv by (simp add: arena_inv_def partition_of_def a1_def)
    have "host_arena_reserve len a = (Inr (Some ?r), a1\<lparr>ha_reserved_bytes := ha_reserved_bytes a + len\<rparr>)"
      using Some len add [OF inv1] by (simp add: host_arena_reserve_def Let_def a1_def split: if_splits)
    with inv1 show ?thesis by (auto simp: a1_def)
  next
    case None
    then have end_: "?n + len \<le> ha_capacity_bytes a" using fit by (auto simp: hole_def first_fit_None not_le)
    let ?r = "\<lparr>r_offset = ?n, r_len = len\<rparr>"
    define a1 where "a1 = a\<lparr>ha_next_offset := ?n + len\<rparr>"
    have b: "r_offset f + r_len f \<le> ?n" if "f \<in> set (ha_free_list a)" for f using partition_end(1) [OF p] that by blast
    have c: "cov (ha_free_list a) x + cov (?r # ls) x = (if x < ?n + len then 1 else 0)" for x
      using p by (auto simp: partition_of_def bytes_of_def)
    have inv1: "arena_inv (a1\<lparr>ha_reserved_bytes := ha_reserved_bytes a + len\<rparr>) (?r # ls)"
      using c p b len end_ cap inv by (fastforce simp: arena_inv_def partition_of_def a1_def)
    have "host_arena_reserve len a = (Inr (Some ?r), a1\<lparr>ha_reserved_bytes := ha_reserved_bytes a + len\<rparr>)"
      using None len end_ cap add [OF inv1] by (simp add: host_arena_reserve_def Let_def a1_def checked_add_def)
    with inv1 show ?thesis by (auto simp: a1_def)
  qed
qed

lemma reserve_no_hole:
  assumes inv: "arena_inv a ls" and no: "len = 0 \<or> \<not> hole len a"
  shows "host_arena_reserve len a = (Inr None, a)"
proof (cases "len = 0")
  case False
  with no have "first_fit len 0 (ha_free_list a) = None" "ha_capacity_bytes a < ha_next_offset a + len"
    by (auto simp: hole_def first_fit_None not_le)
  then show ?thesis using False by (simp add: host_arena_reserve_def checked_add_def)
qed (simp add: host_arena_reserve_def)

lemma sum_remove1: "r \<in> set ls \<Longrightarrow> sum_list (map r_len ls) = r_len r + sum_list (map r_len (remove1 r ls))"
  by (induction ls) auto

lemma release_live:
  assumes inv: "arena_inv a ls" and r: "r \<in> set ls"
  shows "\<exists>a'. host_arena_release r a = (Inr (), a') \<and> arena_inv a' (remove1 r ls)
    \<and> ha_capacity_bytes a' = ha_capacity_bytes a"
proof -
  let ?n = "ha_next_offset a"
  have p: "partition_of ?n (ha_free_list a) ls" and cap: "?n \<le> ha_capacity_bytes a" "ha_capacity_bytes a \<le> usize_max"
    and tail: "\<forall>f\<in>set (ha_free_list a). r_offset f + r_len f \<noteq> ?n"
    and res: "ha_reserved_bytes a = sum_list (map r_len ls)"
    using inv by (simp_all add: arena_inv_def)
  have e: "r_offset r + r_len r \<le> ?n" "0 < r_len r" using partition_end [OF p] r by blast+
  define a1 where "a1 = a\<lparr>ha_reserved_bytes := sum_list (map r_len (remove1 r ls))\<rparr>"
  have step: "host_arena_release r a =
      (if r_offset r + r_len r = ?n
       then (Inr (), host_arena_rewind_tail (a1\<lparr>ha_next_offset := r_offset r\<rparr>))
       else (Inr (), a1\<lparr>ha_free_list := ha_free_list a @ [r]\<rparr>))"
    using e cap res sum_remove1 [OF r]
    by (simp add: host_arena_release_def region_end_def checked_add_def checked_sub_def Let_def a1_def)
  have c: "cov (ha_free_list a) x + cov (remove1 r ls) x + (if x \<in> bytes_of r then 1 else 0) = (if x < ?n then 1 else 0)" for x
    using partition_cov [OF p, of x] cov_remove1 [OF r, of x] by linarith
  have pos: "\<forall>q\<in>set (ha_free_list a) \<union> set (remove1 r ls). 0 < r_len q"
    using p set_remove1_subset [of r ls] unfolding partition_of_def by blast
  show ?thesis
  proof (cases "r_offset r + r_len r = ?n")
    case True
    have "cov (ha_free_list a) x + cov (remove1 r ls) x = (if x < r_offset r then 1 else 0)" for x
      using c [of x] True by (auto simp: bytes_of_def split: if_splits)
    then have "partition_of (r_offset r) (ha_free_list a) (remove1 r ls)" using pos by (simp add: partition_of_def)
    from rewind_ok [OF this] True cap obtain m gs where
      w: "rewind (r_offset r) (ha_free_list a) = (m, gs)" "partition_of m gs (remove1 r ls)" "m \<le> r_offset r"
        "\<forall>g\<in>set gs. r_offset g + r_len g \<noteq> m"
      by (cases "rewind (r_offset r) (ha_free_list a)") auto
    then show ?thesis using step True cap
      by (auto simp: host_arena_rewind_tail_def arena_inv_def a1_def)
  next
    case False
    have "partition_of ?n (ha_free_list a @ [r]) (remove1 r ls)"
      using c pos e(2) by (auto simp: partition_of_def add.assoc add.commute add.left_commute)
    then show ?thesis using step False tail cap by (auto simp: arena_inv_def a1_def)
  qed
qed

lemma no_live_fresh:
  assumes inv: "arena_inv a []"
  shows "ha_next_offset a = 0 \<and> ha_free_list a = [] \<and> ha_reserved_bytes a = 0"
proof -
  let ?n = "ha_next_offset a"
  have p: "partition_of ?n (ha_free_list a) []" and tail: "\<forall>f\<in>set (ha_free_list a). r_offset f + r_len f \<noteq> ?n"
    and res: "ha_reserved_bytes a = 0" using inv by (simp_all add: arena_inv_def)
  have "?n = 0"
  proof (rule ccontr)
    assume n: "?n \<noteq> 0"
    then have "cov (ha_free_list a) (?n - 1) = 1" using p by (simp add: partition_of_def)
    then obtain f where f: "f \<in> set (ha_free_list a)" "?n - 1 \<in> bytes_of f"
      unfolding cov_def by (metis (no_types, lifting) filter_empty_conv list.size(3) zero_neq_one)
    then have "r_offset f + r_len f = ?n" using partition_end(1) [OF p, of f] n by (auto simp: bytes_of_def)
    with f tail show False by blast
  qed
  moreover have "ha_free_list a = []"
  proof (rule ccontr)
    assume "ha_free_list a \<noteq> []"
    then obtain f where "f \<in> set (ha_free_list a)" by (cases "ha_free_list a") auto
    with partition_end [OF p, of f] \<open>?n = 0\<close> show False by simp
  qed
  ultimately show ?thesis using res by simp
qed

subsection \<open>The pool\<close>

definition pool_inv :: "host_pool \<Rightarrow> bool" where
  "pool_inv p \<longleftrightarrow> arena_inv (hp_arena p) (hp_live_regions p) \<and> hp_capacity_bytes p = ha_capacity_bytes (hp_arena p) \<and>
     length (hp_bytes p) = hp_capacity_bytes p \<and> distinct (hp_live_regions p)"

inductive pool_reachable :: "nat \<Rightarrow> host_pool \<Rightarrow> bool" for cap where
  new: "host_pool_new cap = Inr p \<Longrightarrow> cap \<le> usize_max \<Longrightarrow> pool_reachable cap p"
| reserve: "pool_reachable cap p \<Longrightarrow> pool_reserve len p = Some (res, p') \<Longrightarrow> pool_reachable cap p'"
| release: "pool_reachable cap p \<Longrightarrow> pool_reachable cap (snd (pool_release r p))"
| store: "pool_reachable cap p \<Longrightarrow> pool_reachable cap (snd (write_region r bs p))"
| reset: "pool_reachable cap p \<Longrightarrow> pool_reachable cap (pool_reset p)"

lemma pool_invD:
  assumes "pool_inv p"
  shows "arena_inv (hp_arena p) (hp_live_regions p)" "hp_capacity_bytes p = ha_capacity_bytes (hp_arena p)"
    "length (hp_bytes p) = hp_capacity_bytes p" "distinct (hp_live_regions p)"
    "partition_of (ha_next_offset (hp_arena p)) (ha_free_list (hp_arena p)) (hp_live_regions p)"
    "ha_next_offset (hp_arena p) \<le> hp_capacity_bytes p" "hp_capacity_bytes p \<le> usize_max"
  using assms by (simp_all add: pool_inv_def arena_inv_def)

lemma pool_live_bounds:
  assumes inv: "pool_inv p" and r: "r \<in> set (hp_live_regions p)"
  shows "r_offset r + r_len r \<le> hp_capacity_bytes p" "0 < r_len r"
  using partition_end [OF pool_invD(5) [OF inv], of r] pool_invD(6) [OF inv] r by auto

lemma pool_live_disjoint:
  assumes inv: "pool_inv p" and r: "r \<in> set (hp_live_regions p)" and q: "q \<in> set (hp_live_regions p)" and ne: "r \<noteq> q"
  shows "bytes_of r \<inter> bytes_of q = {}"
  by (rule partition_disjoint [OF pool_invD(5) [OF inv] r]) (use q ne in auto)

lemma validate_live:
  assumes inv: "pool_inv p"
  shows "(\<exists>n. validate_live_region r p = Inr n) \<longleftrightarrow> r \<in> set (hp_live_regions p)"
    "r \<in> set (hp_live_regions p) \<Longrightarrow> validate_live_region r p = Inr (r_offset r)"
  using pool_live_bounds [OF inv, of r] pool_invD(7) [OF inv]
  by (auto simp: validate_live_region_def checked_add_def split: option.splits)

lemma cons_disjoint_fresh:
  assumes "partition_of n fs (r # ls)"
  shows "r \<notin> set ls" "q \<in> set ls \<Longrightarrow> bytes_of r \<inter> bytes_of q = {}"
proof -
  show d: "bytes_of r \<inter> bytes_of q = {}" if "q \<in> set ls" for q
    using partition_disjoint [OF assms, of r q] that by simp
  have "bytes_of r \<noteq> {}" using assms by (simp add: partition_of_def bytes_of_def)
  then show "r \<notin> set ls" using d [of r] by auto
qed

lemma pool_reserve_ok:
  assumes inv: "pool_inv p" and len: "0 < len" and fit: "hole len (hp_arena p)"
  shows "\<exists>r p'. pool_reserve len p = Some (Inr (Some r), p') \<and> pool_inv p' \<and> r_len r = len
    \<and> hp_live_regions p' = r # hp_live_regions p \<and> hp_bytes p' = hp_bytes p \<and> hp_capacity_bytes p' = hp_capacity_bytes p"
proof -
  from reserve_hole [OF pool_invD(1) [OF inv] len fit] obtain r a' where
    a: "host_arena_reserve len (hp_arena p) = (Inr (Some r), a')" "r_len r = len"
      "arena_inv a' (r # hp_live_regions p)" "ha_capacity_bytes a' = ha_capacity_bytes (hp_arena p)" by blast
  have "r \<notin> set (hp_live_regions p)"
    by (rule cons_disjoint_fresh(1) [of "ha_next_offset a'" "ha_free_list a'"])
      (use a(3) in \<open>simp add: arena_inv_def\<close>)
  with a inv show ?thesis by (simp add: pool_reserve_def pool_inv_def)
qed

lemma pool_reserve_none:
  assumes inv: "pool_inv p" and no: "len = 0 \<or> \<not> hole len (hp_arena p)"
  shows "pool_reserve len p = Some (Inr None, p)"
  using reserve_no_hole [OF pool_invD(1) [OF inv] no] by (cases p) (simp add: pool_reserve_def)

lemma pool_release_ok:
  assumes inv: "pool_inv p" and r: "r \<in> set (hp_live_regions p)"
  shows "\<exists>p'. pool_release r p = (Inr (), p') \<and> pool_inv p' \<and> hp_live_regions p' = removeAll r (hp_live_regions p)
    \<and> hp_bytes p' = hp_bytes p \<and> hp_capacity_bytes p' = hp_capacity_bytes p"
proof -
  from release_live [OF pool_invD(1) [OF inv] r] obtain a' where
    a: "host_arena_release r (hp_arena p) = (Inr (), a')" "arena_inv a' (remove1 r (hp_live_regions p))"
      "ha_capacity_bytes a' = ha_capacity_bytes (hp_arena p)" by blast
  have "remove1 r (hp_live_regions p) = removeAll r (hp_live_regions p)"
    using pool_invD(4) [OF inv] by (simp add: distinct_remove1_removeAll)
  with a inv validate_live(2) [OF inv r] show ?thesis
    by (simp add: pool_release_def pool_inv_def distinct_removeAll)
qed

lemma pool_release_not_live:
  assumes inv: "pool_inv p" and r: "r \<notin> set (hp_live_regions p)"
  shows "\<exists>e. pool_release r p = (Inl e, p)"
  using validate_live(1) [OF inv, of r] r
  by (cases "validate_live_region r p") (auto simp: pool_release_def)

lemma write_region_inv: "pool_inv p \<Longrightarrow> pool_inv (snd (write_region r bs p))"
proof (cases "length bs = r_len r \<and> r \<in> set (hp_live_regions p)")
  case True
  assume inv: "pool_inv p"
  then show ?thesis
    using True validate_live(2) [OF inv, of r] pool_live_bounds [OF inv, of r]
    by (auto simp: write_region_def pool_inv_def)
next
  case False
  assume inv: "pool_inv p"
  then show ?thesis
    using False validate_live(1) [OF inv, of r]
    by (cases "validate_live_region r p") (auto simp: write_region_def)
qed

lemma pool_reachable_inv: "pool_reachable cap p \<Longrightarrow> pool_inv p \<and> hp_capacity_bytes p = cap"
proof (induction rule: pool_reachable.induct)
  case (new p)
  then show ?case
    by (auto simp: host_pool_new_def host_arena_create_def pool_inv_def arena_inv_def partition_of_def split: if_splits)
next
  case (reserve p len res p')
  then have inv: "pool_inv p" and cap: "hp_capacity_bytes p = cap" by auto
  show ?case
  proof (cases "len = 0 \<or> \<not> hole len (hp_arena p)")
    case True
    with pool_reserve_none [OF inv] reserve.hyps(2) inv cap show ?thesis by simp
  next
    case False
    with pool_reserve_ok [OF inv, of len] reserve.hyps(2) inv cap show ?thesis by auto
  qed
next
  case (release p r)
  then show ?case
    using pool_release_ok [of p r] pool_release_not_live [of p r]
    by (cases "r \<in> set (hp_live_regions p)") auto
next
  case (store p r bs)
  then show ?case
    using write_region_inv by (auto simp: write_region_def split: sum.split)
next
  case (reset p)
  then show ?case
    by (auto simp: pool_reset_def pool_inv_def host_arena_reset_def arena_inv_def partition_of_def)
qed

lemmas pool_reach = pool_reachable_inv [THEN conjunct1] pool_reachable_inv [THEN conjunct2]

subsection \<open>Properties\<close>

definition demo_pool :: host_pool where
  "demo_pool = (case host_pool_new 64 of Inr p0 \<Rightarrow>
     let p1 = snd (the (pool_reserve 16 p0)); p2 = snd (the (pool_reserve 8 p1));
         p3 = snd (the (pool_reserve 8 p2)); p4 = snd (pool_release \<lparr>r_offset = 0, r_len = 16\<rparr> p3)
     in snd (the (pool_reserve 10 p4)))"

lemma demo_pool_reachable: "pool_reachable 64 demo_pool"
proof -
  have step: "pool_reachable 64 p \<Longrightarrow> pool_reserve n p \<noteq> None \<Longrightarrow> pool_reachable 64 (snd (the (pool_reserve n p)))" for p n
    by (auto intro: pool_reachable.reserve)
  obtain p0 where p0: "host_pool_new 64 = Inr p0" by (simp add: host_pool_new_def host_arena_create_def)
  have reach0: "pool_reachable 64 p0" using p0 by (rule pool_reachable.new) (simp add: usize_max_def)
  have total: "pool_reserve n p \<noteq> None" if "pool_reachable 64 p" for n p
    using pool_reserve_none [OF pool_reach(1) [OF that], of n] pool_reserve_ok [OF pool_reach(1) [OF that], of n] by fastforce
  show ?thesis
    unfolding demo_pool_def p0 sum.case Let_def
    by (intro step total pool_reachable.release reach0)
qed

text \<open>
  (C11) Live regions never overlap: in every reachable state of the pool two different live regions
  share no byte, each lies within the mapping, no free hole overlaps a live region, and the
  reserved bytes are the sum of the live lengths, so that reserved and remaining bytes add up.
\<close>
theorem pool_regions_disjoint:
  assumes "pool_reachable cap p" and "r \<in> set (hp_live_regions p)"
  shows "0 < r_len r \<and> r_offset r + r_len r \<le> cap
    \<and> (\<forall>q\<in>set (hp_live_regions p). q \<noteq> r \<longrightarrow> bytes_of r \<inter> bytes_of q = {})
    \<and> (\<forall>f\<in>set (ha_free_list (hp_arena p)). bytes_of r \<inter> bytes_of f = {})
    \<and> ha_reserved_bytes (hp_arena p) = sum_list (map r_len (hp_live_regions p))
    \<and> remaining_bytes p + ha_reserved_bytes (hp_arena p) = cap"
proof -
  note inv = pool_reach(1) [OF assms(1)] and cap = pool_reach(2) [OF assms(1)]
  have "ha_reserved_bytes (hp_arena p) \<le> hp_capacity_bytes p"
    using arena_reserved_le [OF pool_invD(1) [OF inv]] pool_invD(6) [OF inv] by simp
  moreover have "ha_reserved_bytes (hp_arena p) = sum_list (map r_len (hp_live_regions p))"
    using pool_invD(1) [OF inv] by (simp add: arena_inv_def)
  moreover have "\<forall>f\<in>set (ha_free_list (hp_arena p)). bytes_of r \<inter> bytes_of f = {}"
    using partition_disjoint [OF pool_invD(5) [OF inv] assms(2)] by blast
  moreover have "\<forall>q\<in>set (hp_live_regions p). q \<noteq> r \<longrightarrow> bytes_of r \<inter> bytes_of q = {}"
    using pool_live_disjoint [OF inv assms(2)] by blast
  ultimately show ?thesis
    using pool_live_bounds [OF inv assms(2)] cap by (simp add: remaining_bytes_def)
qed

theorem pool_regions_disjoint_witness:
  "hp_live_regions demo_pool = [\<lparr>r_offset = 0, r_len = 10\<rparr>, \<lparr>r_offset = 24, r_len = 8\<rparr>, \<lparr>r_offset = 16, r_len = 8\<rparr>]
    \<and> ha_reserved_bytes (hp_arena demo_pool) = 26 \<and> remaining_bytes demo_pool + 26 = 64"
proof -
  have l: "hp_live_regions demo_pool = [\<lparr>r_offset = 0, r_len = 10\<rparr>, \<lparr>r_offset = 24, r_len = 8\<rparr>, \<lparr>r_offset = 16, r_len = 8\<rparr>]"
    by code_simp
  from pool_regions_disjoint [OF demo_pool_reachable, of "\<lparr>r_offset = 0, r_len = 10\<rparr>"] l show ?thesis by simp
qed

text \<open>
  A reservation never panics and never fails with an error. It succeeds exactly when some
  free hole is long enough or the bytes above the bump pointer are, and the region it returns has
  the length asked for and overlaps no region that was live.
\<close>
theorem pool_reserve_total:
  assumes "pool_reachable cap p"
  shows "\<exists>res p'. pool_reserve len p = Some (Inr res, p') \<and>
    ((\<exists>r. res = Some r \<and> 0 < len \<and> hole len (hp_arena p) \<and> r_len r = len
        \<and> (\<forall>q\<in>set (hp_live_regions p). bytes_of r \<inter> bytes_of q = {}) \<and> hp_live_regions p' = r # hp_live_regions p)
     \<or> (res = None \<and> (len = 0 \<or> \<not> hole len (hp_arena p)) \<and> p' = p))"
proof (cases "len = 0 \<or> \<not> hole len (hp_arena p)")
  case True
  with pool_reserve_none [OF pool_reach(1) [OF assms]] show ?thesis by blast
next
  case False
  then have "0 < len" "hole len (hp_arena p)" by auto
  from pool_reserve_ok [OF pool_reach(1) [OF assms] this] obtain r p' where
    r: "pool_reserve len p = Some (Inr (Some r), p')" "pool_inv p'" "r_len r = len"
      "hp_live_regions p' = r # hp_live_regions p" by blast
  have "bytes_of r \<inter> bytes_of q = {}" if "q \<in> set (hp_live_regions p)" for q
    using pool_invD(5) [OF r(2)] that unfolding r(4) by (rule cons_disjoint_fresh(2))
  with r False show ?thesis by (intro exI [of _ "Some r"] exI [of _ p']) simp
qed

theorem pool_reserve_total_witness:
  "\<exists>r p'. pool_reserve 6 demo_pool = Some (Inr (Some r), p') \<and> hp_live_regions p' = r # hp_live_regions demo_pool"
proof -
  have "fst (the (pool_reserve 6 demo_pool)) = Inr (Some \<lparr>r_offset = 10, r_len = 6\<rparr>)" by code_simp
  with pool_reserve_total [OF demo_pool_reachable, of 6] show ?thesis by auto
qed

text \<open>
  (C39) Nothing leaks: once every live region is released the arena is as it was when it was
  created, with the bump pointer at 0 and no free holes, in whatever order regions were reserved
  and released before.
\<close>
theorem pool_released_is_fresh:
  assumes "pool_reachable cap p" and "hp_live_regions p = []"
  shows "host_arena_create cap = Inr (hp_arena p)"
proof -
  note inv = pool_reach(1) [OF assms(1)]
  have a: "arena_inv (hp_arena p) []" using pool_invD(1) [OF inv] assms(2) by simp
  from assms(1) have "cap \<noteq> 0"
    by (induction rule: pool_reachable.induct) (auto simp: host_pool_new_def split: if_splits)
  with no_live_fresh [OF a] pool_reach(2) [OF assms(1)] pool_invD(2) [OF inv] show ?thesis
    by (cases "hp_arena p") (simp add: host_arena_create_def)
qed

theorem pool_released_is_fresh_witness:
  "host_arena_create 64 = Inr (hp_arena (snd (pool_release \<lparr>r_offset = 16, r_len = 8\<rparr>
     (snd (pool_release \<lparr>r_offset = 24, r_len = 8\<rparr> (snd (pool_release \<lparr>r_offset = 0, r_len = 10\<rparr> demo_pool)))))))"
  by (rule pool_released_is_fresh, intro pool_reachable.release demo_pool_reachable) code_simp

lemma splice_frame:
  assumes "k + length bs \<le> length xs" "a + n \<le> length xs" "a + n \<le> k \<or> k + length bs \<le> a"
  shows "take n (drop a (take k xs @ bs @ drop (k + length bs) xs)) = take n (drop a xs)"
proof (rule nth_equalityI)
  show "length (take n (drop a (take k xs @ bs @ drop (k + length bs) xs))) = length (take n (drop a xs))"
  proof -
    have "length (take k xs @ bs @ drop (k + length bs) xs) = length xs" using assms(1) by simp
    then show ?thesis by (simp only: length_take length_drop)
  qed
  fix i assume "i < length (take n (drop a (take k xs @ bs @ drop (k + length bs) xs)))"
  then have i: "i < n" by (simp only: length_take min_less_iff_conj)
  show "take n (drop a (take k xs @ bs @ drop (k + length bs) xs)) ! i = take n (drop a xs) ! i"
    using i assms by (auto simp: nth_append)
qed

lemma write_read:
  assumes inv: "pool_inv p" and "length bs = r_len r"
  shows "if r \<in> set (hp_live_regions p)
    then fst (write_region r bs p) = Inr () \<and> read_region r (snd (write_region r bs p)) = Inr bs
      \<and> (\<forall>q\<in>set (hp_live_regions p). q \<noteq> r \<longrightarrow> read_region q (snd (write_region r bs p)) = read_region q p)
    else (\<exists>e. write_region r bs p = (Inl e, p) \<and> read_region r p = Inl e)"
proof -
  show ?thesis
  proof (cases "r \<in> set (hp_live_regions p)")
    case False
    with validate_live(1) [OF inv, of r] assms(2) show ?thesis
      by (cases "validate_live_region r p") (auto simp: write_region_def read_region_def)
  next
    case True
    define p' where "p' = snd (write_region r bs p)"
    have w: "write_region r bs p = (Inr (), p\<lparr>hp_bytes := take (r_offset r) (hp_bytes p) @ bs @ drop (r_offset r + r_len r) (hp_bytes p)\<rparr>)"
      using assms(2) validate_live(2) [OF inv True] by (simp add: write_region_def)
    have inv': "pool_inv p'" unfolding p'_def by (rule write_region_inv [OF inv])
    have live: "hp_live_regions p' = hp_live_regions p" "hp_bytes p' = take (r_offset r) (hp_bytes p) @ bs @ drop (r_offset r + r_len r) (hp_bytes p)"
      by (simp_all add: p'_def w)
    note b = pool_live_bounds [OF inv True] pool_invD(3) [OF inv]
    have "read_region r p' = Inr bs"
      using validate_live(2) [OF inv', of r] True live b assms(2) by (simp add: read_region_def)
    moreover have "read_region q p' = read_region q p" if q: "q \<in> set (hp_live_regions p)" "q \<noteq> r" for q
    proof -
      have d: "bytes_of r \<inter> bytes_of q = {}" using pool_live_disjoint [OF inv True q(1)] q(2) by blast
      note bq = pool_live_bounds [OF inv q(1)]
      have "r_offset q + r_len q \<le> r_offset r \<or> r_offset r + r_len r \<le> r_offset q"
      proof (rule ccontr)
        assume "\<not> ?thesis"
        then have "max (r_offset q) (r_offset r) \<in> bytes_of r \<inter> bytes_of q" using bq(2) b(2) by (auto simp: bytes_of_def)
        with d show False by blast
      qed
      then have "take (r_len q) (drop (r_offset q) (hp_bytes p')) = take (r_len q) (drop (r_offset q) (hp_bytes p))"
        unfolding live(2) assms(2) [symmetric] by (rule splice_frame [rotated 2]) (use b bq assms(2) in simp_all)
      then show ?thesis using validate_live(2) [OF inv'] validate_live(2) [OF inv] q live(1) by (simp add: read_region_def)
    qed
    ultimately show ?thesis using True w by (simp add: p'_def)
  qed
qed

text \<open>
  A region reads back what was last written to it, and writing to one live region does not
  change the bytes of another; a region that is not live can be neither read nor written.
\<close>
theorem region_reads_back:
  assumes "pool_reachable cap p" and "length bs = r_len r"
  shows "if r \<in> set (hp_live_regions p)
    then fst (write_region r bs p) = Inr () \<and> read_region r (snd (write_region r bs p)) = Inr bs
      \<and> (\<forall>q\<in>set (hp_live_regions p). q \<noteq> r \<longrightarrow> read_region q (snd (write_region r bs p)) = read_region q p)
    else (\<exists>e. write_region r bs p = (Inl e, p) \<and> read_region r p = Inl e)"
  by (rule write_read [OF pool_reach(1) [OF assms(1)] assms(2)])

theorem region_reads_back_witness:
  "read_region \<lparr>r_offset = 16, r_len = 8\<rparr> (snd (write_region \<lparr>r_offset = 16, r_len = 8\<rparr> [1, 2, 3, 4, 5, 6, 7, 8] demo_pool))
     = Inr [1, 2, 3, 4, 5, 6, 7, 8]"
proof -
  have "\<lparr>r_offset = 16, r_len = 8\<rparr> \<in> set (hp_live_regions demo_pool)" by code_simp
  with region_reads_back [OF demo_pool_reachable, of "[1, 2, 3, 4, 5, 6, 7, 8]" "\<lparr>r_offset = 16, r_len = 8\<rparr>"]
  show ?thesis by simp
qed

end
