(* ===== verification/Kv_Wal.thy ===== *)
theory Kv_Wal
  imports Rust_Bytes
begin

text \<open>
  The write-ahead log of \<open>crates/kv-native-sys/src/lib.rs\<close>. The file is its content, \<open>None\<close> while
  it does not exist; a device error of the operating system is not modelled, a write that stops
  half way is a prefix of the content.
\<close>

datatype wal_error = WalInvalidInput | InvalidMagic | TruncatedHeader | TruncatedPayload

record wal_record =
  wr_kind :: u8
  wr_key :: "u8 list"
  wr_value :: "u8 list"

definition wal_magic :: "u8 list" where
  "wal_magic = [75, 86, 87, 65, 76, 48, 48, 49]"

definition wal_append :: "u8 \<Rightarrow> u8 list \<Rightarrow> u8 list \<Rightarrow> u8 list option \<Rightarrow> (wal_error + unit) \<times> u8 list option" where
  "wal_append kind key val file =
     (if length key > u32_max \<or> length val > u32_max then (Inl WalInvalidInput, file)
      else let content = (case file of None \<Rightarrow> [] | Some bs \<Rightarrow> bs);
               content1 = (if content = [] then wal_magic else content);
               header = [kind] @ to_le_bytes 4 (length key) @ to_le_bytes 4 (length val)
           in (Inr (), Some (content1 @ header @ key @ val)))"

text \<open>The loop of \<open>decode_wal_records\<close>; the cursor is the remaining input.\<close>

function decode_records :: "u8 list \<Rightarrow> wal_error + wal_record list" where
  "decode_records bs =
     (if bs = [] then Inr []
      else if 9 > length bs then Inl TruncatedHeader
      else let kind = hd bs;
               key_len = from_le_bytes (take 4 (drop 1 bs));
               value_len = from_le_bytes (take 4 (drop 5 bs));
               rest = drop 9 bs
           in if key_len + value_len > length rest then Inl TruncatedPayload
              else case decode_records (drop (key_len + value_len) rest) of
                Inl e \<Rightarrow> Inl e
              | Inr rs \<Rightarrow> Inr (\<lparr>wr_kind = kind, wr_key = take key_len rest,
                                 wr_value = take value_len (drop key_len rest)\<rparr> # rs))"
  by pat_completeness auto

termination
  by (relation "measure length") auto

declare decode_records.simps [simp del]

definition decode_wal_records :: "u8 list \<Rightarrow> wal_error + wal_record list" where
  "decode_wal_records bs =
     (if bs = [] then Inr []
      else if length bs < length wal_magic \<or> take (length wal_magic) bs \<noteq> wal_magic then Inl InvalidMagic
      else decode_records (drop (length wal_magic) bs))"

definition wal_replay :: "u8 list option \<Rightarrow> wal_error + wal_record list" where
  "wal_replay file = (case file of None \<Rightarrow> Inr [] | Some bs \<Rightarrow>
     if bs = [] then Inr [] else decode_wal_records bs)"

subsection \<open>Encoding\<close>

definition wal_encode :: "wal_record \<Rightarrow> u8 list" where
  "wal_encode r = [wr_kind r] @ to_le_bytes 4 (length (wr_key r)) @ to_le_bytes 4 (length (wr_value r))
     @ wr_key r @ wr_value r"

definition fits_u32 :: "wal_record \<Rightarrow> bool" where
  "fits_u32 r \<longleftrightarrow> length (wr_key r) \<le> u32_max \<and> length (wr_value r) \<le> u32_max"

definition wal_bytes :: "wal_record list \<Rightarrow> u8 list" where
  "wal_bytes rs = wal_magic @ concat (map wal_encode rs)"

definition append_all :: "wal_record list \<Rightarrow> u8 list option \<Rightarrow> u8 list option" where
  "append_all rs file = fold (\<lambda>r f. snd (wal_append (wr_kind r) (wr_key r) (wr_value r) f)) rs file"

lemma length_wal_encode: "length (wal_encode r) = 9 + length (wr_key r) + length (wr_value r)"
  by (simp add: wal_encode_def)

lemma length_wal_magic [simp]: "length wal_magic = 8" "wal_magic \<noteq> []"
  by (simp_all add: wal_magic_def)

lemma encode_fields:
  assumes "fits_u32 r" and "9 \<le> k" and bs_def: "bs = take k (wal_encode r) @ suf"
  shows "hd bs = wr_kind r" "from_le_bytes (take 4 (drop 1 bs)) = length (wr_key r)"
    "from_le_bytes (take 4 (drop 5 bs)) = length (wr_value r)"
    "drop 9 bs = take (k - 9) (wr_key r @ wr_value r) @ suf" "9 \<le> length bs"
proof -
  let ?h = "[wr_kind r] @ to_le_bytes 4 (length (wr_key r)) @ to_le_bytes 4 (length (wr_value r))"
  have bs: "bs = ?h @ take (k - 9) (wr_key r @ wr_value r) @ suf"
    using assms(2) by (simp add: bs_def wal_encode_def take_Cons')
  show "hd bs = wr_kind r" "drop 9 bs = take (k - 9) (wr_key r @ wr_value r) @ suf" "9 \<le> length bs"
    by (simp_all add: bs)
  have "length (wr_key r) mod 256 ^ 4 = length (wr_key r)" "length (wr_value r) mod 256 ^ 4 = length (wr_value r)"
    using assms(1) by (simp_all add: fits_u32_def u32_max_def)
  then show "from_le_bytes (take 4 (drop 1 bs)) = length (wr_key r)"
    "from_le_bytes (take 4 (drop 5 bs)) = length (wr_value r)"
    by (simp_all add: bs del: to_le_bytes.simps)
qed

lemma decode_encode:
  assumes "fits_u32 r"
  shows "decode_records (wal_encode r @ bs) = (case decode_records bs of Inl e \<Rightarrow> Inl e | Inr rs \<Rightarrow> Inr (r # rs))"
proof -
  have full: "take (length (wal_encode r)) (wal_encode r) @ bs = wal_encode r @ bs" by simp
  have "9 \<le> length (wal_encode r)" by (simp add: length_wal_encode)
  note f = encode_fields [OF assms this full [symmetric]]
  have ne: "wal_encode r @ bs \<noteq> []" "\<not> 9 > length (wal_encode r @ bs)" by (simp_all add: wal_encode_def)
  have "drop 9 (wal_encode r @ bs) = wr_key r @ wr_value r @ bs"
    using f(4) by (simp add: length_wal_encode)
  then show ?thesis
    by (subst decode_records.simps) (use f(1-3) ne in \<open>simp add: length_wal_encode Let_def split: sum.splits\<close>)
qed

lemma decode_torn:
  assumes "fits_u32 r" and "0 < k" and "k < length (wal_encode r)"
  shows "\<exists>e. decode_records (take k (wal_encode r)) = Inl e"
proof (cases "k < 9")
  case True
  then have "length (take k (wal_encode r)) = k" using assms(3) by simp
  then show ?thesis using True assms(2) by (subst decode_records.simps) auto
next
  case False
  then have k: "9 \<le> k" by simp
  note f = encode_fields [OF assms(1) k, of "take k (wal_encode r)" "[]", simplified]
  have "length (drop 9 (take k (wal_encode r))) < length (wr_key r) + length (wr_value r)"
    using assms(3) k by (simp add: length_wal_encode)
  then show ?thesis using f(5) by (subst decode_records.simps) (auto simp: Let_def f(2,3))
qed

lemma decode_all: "\<forall>r\<in>set rs. fits_u32 r \<Longrightarrow> decode_records (concat (map wal_encode rs)) = Inr rs"
  by (induction rs) (simp_all add: decode_records.simps [of "[]"] decode_encode)

lemma append_all_bytes:
  "\<forall>r\<in>set rs. fits_u32 r \<Longrightarrow> append_all rs (Some (wal_bytes qs)) = Some (wal_bytes (qs @ rs))"
proof (induction rs arbitrary: qs)
  case (Cons r rs)
  have "snd (wal_append (wr_kind r) (wr_key r) (wr_value r) (Some (wal_bytes qs))) = Some (wal_bytes (qs @ [r]))"
    using Cons.prems by (auto simp: wal_append_def wal_bytes_def fits_u32_def wal_encode_def Let_def)
  with Cons show ?case by (simp add: append_all_def)
qed (simp add: append_all_def)

lemma append_all_fresh:
  assumes "\<forall>r\<in>set rs. fits_u32 r" and "rs \<noteq> []"
  shows "append_all rs None = Some (wal_bytes rs)"
proof -
  from assms(2) obtain r qs where rs: "rs = r # qs" by (cases rs) auto
  have "snd (wal_append (wr_kind r) (wr_key r) (wr_value r) None) = Some (wal_bytes [r])"
    using assms(1) by (auto simp: rs wal_append_def wal_bytes_def fits_u32_def wal_encode_def Let_def)
  with append_all_bytes [of qs "[r]"] assms(1) show ?thesis by (simp add: rs append_all_def)
qed

text \<open>The first \<open>k\<close> bytes of a run of records: whole records, or an error.\<close>

lemma decode_take:
  "\<forall>r\<in>set rs. fits_u32 r \<Longrightarrow>
     (\<exists>j\<le>length rs. take k (concat (map wal_encode rs)) = concat (map wal_encode (take j rs))
        \<and> decode_records (take k (concat (map wal_encode rs))) = Inr (take j rs))
     \<or> (\<exists>e. decode_records (take k (concat (map wal_encode rs))) = Inl e)"
proof (induction rs arbitrary: k)
  case (Cons r rs)
  let ?n = "length (wal_encode r)"
  have r: "fits_u32 r" and rs: "\<forall>r\<in>set rs. fits_u32 r" using Cons.prems by auto
  show ?case
  proof (cases "k = 0")
    case True
    then show ?thesis by (intro disjI1 exI [of _ 0]) (simp add: decode_records.simps [of "[]"])
  next
    case pos: False
    show ?thesis
    proof (cases "k < ?n")
      case True
      then have cut: "take k (concat (map wal_encode (r # rs))) = take k (wal_encode r)" by simp
      obtain e where "decode_records (take k (wal_encode r)) = Inl e" using decode_torn [OF r _ True] pos by auto
      then show ?thesis by (intro disjI2 exI [of _ e]) (simp only: cut)
    next
      case False
      then have split: "take k (concat (map wal_encode (r # rs))) =
          wal_encode r @ take (k - ?n) (concat (map wal_encode rs))" by simp
      from Cons.IH [OF rs, of "k - ?n"] show ?thesis
      proof (elim disjE exE conjE)
        fix j assume "j \<le> length rs"
          and "take (k - ?n) (concat (map wal_encode rs)) = concat (map wal_encode (take j rs))"
          and "decode_records (take (k - ?n) (concat (map wal_encode rs))) = Inr (take j rs)"
        then show ?thesis
          by (intro disjI1 exI [of _ "Suc j"]) (use False in \<open>simp add: split decode_encode [OF r]\<close>)
      next
        fix e assume "decode_records (take (k - ?n) (concat (map wal_encode rs))) = Inl e"
        then show ?thesis by (intro disjI2 exI [of _ e]) (simp only: split decode_encode [OF r] sum.case)
      qed
    qed
  qed
qed (auto simp: decode_records.simps [of "[]"])

subsection \<open>Properties\<close>

text \<open>
  (C40) Replay returns what was appended: after appending records whose keys and values have a
  32-bit length to a log that does not exist yet, replay returns exactly these records in order.
\<close>
theorem wal_replay_returns_appended:
  assumes "\<forall>r\<in>set rs. fits_u32 r"
  shows "wal_replay (append_all rs None) = Inr rs"
proof (cases "rs = []")
  case True
  then show ?thesis by (simp add: append_all_def wal_replay_def)
next
  case False
  have "wal_bytes rs \<noteq> []" "take 8 (wal_bytes rs) = wal_magic" "drop 8 (wal_bytes rs) = concat (map wal_encode rs)"
    "8 \<le> length (wal_bytes rs)"
    by (simp_all add: wal_bytes_def)
  then show ?thesis
    using append_all_fresh [OF assms False] decode_all [OF assms]
    by (simp add: wal_replay_def decode_wal_records_def)
qed

definition demo_log :: "wal_record list" where
  "demo_log = [\<lparr>wr_kind = 1, wr_key = [97, 98], wr_value = [1, 2, 3]\<rparr>, \<lparr>wr_kind = 2, wr_key = [], wr_value = [7]\<rparr>]"

theorem wal_replay_returns_appended_witness: "wal_replay (append_all demo_log None) = Inr demo_log"
  by (rule wal_replay_returns_appended) (simp add: demo_log_def fits_u32_def u32_max_def)

text \<open>
  A torn log is never misread. Cut the log of some records after any number of bytes, as a
  crash during an append can: replay either returns a prefix of the records, and then the cut fell
  exactly on a record boundary, or it reports an error; it never returns a record that was not
  written.
\<close>
theorem wal_torn_tail_is_rejected:
  assumes "\<forall>r\<in>set rs. fits_u32 r" and "wal_replay (Some (take k (wal_bytes rs))) = Inr qs"
  shows "\<exists>j\<le>length rs. qs = take j rs \<and> (k = 0 \<or> take k (wal_bytes rs) = wal_bytes (take j rs))"
proof (cases "k = 0")
  case True
  with assms(2) show ?thesis by (intro exI [of _ 0]) (simp add: wal_replay_def)
next
  case pos: False
  let ?b = "take k (wal_bytes rs)"
  have ne: "?b \<noteq> []" using pos by (simp add: wal_bytes_def)
  with assms(2) have dec: "decode_wal_records ?b = Inr qs" by (simp add: wal_replay_def)
  have k: "8 \<le> k"
  proof (rule ccontr)
    assume "\<not> 8 \<le> k"
    then have "length ?b < 8" by simp
    with dec ne show False by (simp add: decode_wal_records_def)
  qed
  have b: "?b = wal_magic @ take (k - 8) (concat (map wal_encode rs))" using k by (simp add: wal_bytes_def)
  then have d: "decode_records (take (k - 8) (concat (map wal_encode rs))) = Inr qs"
    using dec ne by (simp add: decode_wal_records_def split: if_splits)
  from decode_take [OF assms(1), of "k - 8"] d b show ?thesis by (auto simp: wal_bytes_def)
qed

theorem wal_torn_tail_is_rejected_witness:
  "wal_replay (Some (take 22 (wal_bytes demo_log))) = Inr (take 1 demo_log)
    \<and> take 22 (wal_bytes demo_log) = wal_bytes (take 1 demo_log)
    \<and> wal_replay (Some (take 27 (wal_bytes demo_log))) = Inl TruncatedHeader"
proof -
  have r: "wal_replay (Some (take 22 (wal_bytes demo_log))) = Inr (take 1 demo_log)"
    "wal_replay (Some (take 27 (wal_bytes demo_log))) = Inl TruncatedHeader"
    by code_simp+
  have f: "\<forall>r\<in>set demo_log. fits_u32 r" by (simp add: demo_log_def fits_u32_def u32_max_def)
  from wal_torn_tail_is_rejected [OF f r(1)] obtain j where
    "j \<le> length demo_log" "take 1 demo_log = take j demo_log" "take 22 (wal_bytes demo_log) = wal_bytes (take j demo_log)"
    by auto
  with r show ?thesis by simp
qed

end
