(* ===== verification/Disk_Store.thy ===== *)
theory Disk_Store
  imports Rust_Bytes
begin

text \<open>
  The file layer of \<open>crates/kv-native-sys/src/lib.rs\<close> and the disk tier on top of it,
  \<open>infer/src/kv_tier/transport/disk.rs\<close>. The operating system is modelled by the two things the
  code asks of it: a map from paths to contents, and the directories that exist; symbolic links and
  device errors are not. Paths are lists of components. The encoding of the block header is done by
  the \<open>postcard\<close> library, which is not part of the repository: it is the pair of arguments \<open>enc\<close>
  and \<open>dec\<close>.
\<close>

subsection \<open>Files\<close>

datatype component = Normal string | ParentDir | CurDir | RootDir

type_synonym path = "component list"

record file_system =
  fs_files :: "(path, u8 list) hmap"
  fs_dirs :: "path list"

datatype io_error = InvalidInput | NotFound | InvalidData

definition dir_exists :: "file_system \<Rightarrow> path \<Rightarrow> bool" where
  "dir_exists fs d \<longleftrightarrow> d = [] \<or> d \<in> set (fs_dirs fs)"

definition create_dir_all :: "path \<Rightarrow> file_system \<Rightarrow> file_system" where
  "create_dir_all d fs = fs\<lparr>fs_dirs := fold List.insert (map (\<lambda>k. take k d) [1..<Suc (length d)]) (fs_dirs fs)\<rparr>"

definition fs_put :: "path \<Rightarrow> u8 list \<Rightarrow> file_system \<Rightarrow> file_system" where
  "fs_put p bs fs = fs\<lparr>fs_files := AList.update p bs (fs_files fs)\<rparr>"

definition fs_delete :: "path \<Rightarrow> file_system \<Rightarrow> file_system" where
  "fs_delete p fs = fs\<lparr>fs_files := AList.delete p (fs_files fs)\<rparr>"

definition write_file :: "path \<Rightarrow> u8 list \<Rightarrow> file_system \<Rightarrow> (io_error + unit) \<times> file_system" where
  "write_file p bs fs = (if p = [] then (Inl InvalidInput, fs)
     else if \<not> dir_exists fs (butlast p) then (Inl NotFound, fs)
     else (Inr (), fs_put p bs fs))"

fun name_with :: "string \<Rightarrow> component \<Rightarrow> component" where
  "name_with sfx (Normal n) = Normal (n @ sfx)"
| "name_with sfx ParentDir = Normal (''..'' @ sfx)"
| "name_with sfx CurDir = Normal (''.'' @ sfx)"
| "name_with sfx RootDir = RootDir"

definition tmp_path :: "path \<Rightarrow> path" where
  "tmp_path p = butlast p @ [name_with ''.tmp'' (last p)]"

definition rename_file :: "path \<Rightarrow> path \<Rightarrow> file_system \<Rightarrow> file_system" where
  "rename_file p q fs = (case map_of (fs_files fs) p of
     None \<Rightarrow> fs | Some bs \<Rightarrow> fs_delete p (fs_put q bs fs))"

text \<open>
  A replacement of a file through a temporary one is a sequence of system calls. It stops at the first
  call that fails, and then removes the temporary file, whose own failure is ignored.
\<close>

datatype sys_call = SysCreate path | SysAppend path "u8 list" | SysSyncData path | SysRename path path
  | SysSyncDir path | SysUnlink path

fun exec_call :: "sys_call \<Rightarrow> file_system \<Rightarrow> io_error + file_system" where
  "exec_call (SysCreate p) fs = (if dir_exists fs (butlast p) then Inr (fs_put p [] fs) else Inl NotFound)"
| "exec_call (SysAppend p bs) fs = (case map_of (fs_files fs) p of
     None \<Rightarrow> Inl NotFound | Some old \<Rightarrow> Inr (fs_put p (old @ bs) fs))"
| "exec_call (SysSyncData p) fs = Inr fs"
| "exec_call (SysRename p q) fs = (if map_of (fs_files fs) p = None then Inl NotFound else Inr (rename_file p q fs))"
| "exec_call (SysSyncDir d) fs = (if dir_exists fs d then Inr fs else Inl NotFound)"
| "exec_call (SysUnlink p) fs = (if dir_exists fs (butlast p) \<and> map_of (fs_files fs) p \<noteq> None then Inr (fs_delete p fs) else Inl NotFound)"

fun run_calls :: "sys_call list \<Rightarrow> file_system \<Rightarrow> (io_error + unit) \<times> file_system" where
  "run_calls [] fs = (Inr (), fs)"
| "run_calls (c # cs) fs = (case exec_call c fs of Inl e \<Rightarrow> (Inl e, fs) | Inr fs1 \<Rightarrow> run_calls cs fs1)"

definition unlink_quietly :: "path \<Rightarrow> file_system \<Rightarrow> file_system" where
  "unlink_quietly p fs = (case exec_call (SysUnlink p) fs of Inl _ \<Rightarrow> fs | Inr fs1 \<Rightarrow> fs1)"

definition run_staged :: "path \<Rightarrow> sys_call list \<Rightarrow> file_system \<Rightarrow> (io_error + unit) \<times> file_system" where
  "run_staged tmp calls fs = (case run_calls calls fs of
     (Inl e, fs1) \<Rightarrow> (Inl e, unlink_quietly tmp fs1) | (Inr _, fs1) \<Rightarrow> (Inr (), fs1))"

definition write_file_atomic_calls :: "path \<Rightarrow> u8 list \<Rightarrow> sys_call list" where
  "write_file_atomic_calls p bs = [SysCreate (tmp_path p), SysAppend (tmp_path p) bs, SysSyncData (tmp_path p),
     SysRename (tmp_path p) p, SysSyncDir (butlast p)]"

definition write_file_atomic :: "path \<Rightarrow> u8 list \<Rightarrow> file_system \<Rightarrow> (io_error + unit) \<times> file_system" where
  "write_file_atomic p bs fs = (if p = [] then (Inl InvalidInput, fs)
     else run_staged (tmp_path p) (write_file_atomic_calls p bs) fs)"

definition read_file :: "path \<Rightarrow> file_system \<Rightarrow> io_error + u8 list" where
  "read_file p fs = (if p = [] then Inl InvalidInput
     else case map_of (fs_files fs) p of None \<Rightarrow> Inl NotFound | Some bs \<Rightarrow> Inr bs)"

definition remove_file :: "path \<Rightarrow> bool \<Rightarrow> file_system \<Rightarrow> (io_error + unit) \<times> file_system" where
  "remove_file p ignore_not_found fs = (if p = [] then (Inl InvalidInput, fs)
     else case map_of (fs_files fs) p of
       None \<Rightarrow> (if ignore_not_found then Inr () else Inl NotFound, fs)
     | Some _ \<Rightarrow> (Inr (), fs_delete p fs))"

definition block_path :: "path \<Rightarrow> u8 list \<Rightarrow> path" where
  "block_path root fp = root @ [Normal (hex_string fp @ ''.kv'')]"

definition write_block_atomic :: "path \<Rightarrow> u8 list \<Rightarrow> u8 list \<Rightarrow> file_system \<Rightarrow> (io_error + unit) \<times> file_system" where
  "write_block_atomic root fp bs fs = write_file_atomic (block_path root fp) bs fs"

definition read_block :: "path \<Rightarrow> u8 list \<Rightarrow> file_system \<Rightarrow> io_error + u8 list" where
  "read_block root fp fs = read_file (block_path root fp) fs"

definition remove_block :: "path \<Rightarrow> u8 list \<Rightarrow> bool \<Rightarrow> file_system \<Rightarrow> (io_error + unit) \<times> file_system" where
  "remove_block root fp ignore_not_found fs = remove_file (block_path root fp) ignore_not_found fs"

subsection \<open>Block headers\<close>

definition disk_block_magic :: "u8 list" where
  "disk_block_magic = [80, 69, 71, 65, 75, 86, 48, 49]"

definition disk_block_version :: nat where
  "disk_block_version = 1"

record disk_block_location =
  dl_path :: path
  dl_payload_len :: nat
  dl_fingerprint :: "u8 list"

record disk_block_header =
  dh_magic :: "u8 list"
  dh_version :: nat
  dh_fingerprint :: "u8 list"
  dh_kv_format_tag :: u8
  dh_payload_len :: nat

definition header_new :: "u8 list \<Rightarrow> u8 \<Rightarrow> nat \<Rightarrow> disk_block_header" where
  "header_new fp tag n = \<lparr>dh_magic = disk_block_magic, dh_version = disk_block_version, dh_fingerprint = fp,
     dh_kv_format_tag = tag, dh_payload_len = n\<rparr>"

type_synonym header_decoder = "u8 list \<Rightarrow> (disk_block_header \<times> u8 list) option"
type_synonym header_encoder = "disk_block_header \<Rightarrow> u8 list option"

definition decode_prefix :: "header_decoder \<Rightarrow> u8 list \<Rightarrow> io_error + disk_block_header \<times> u8 list" where
  "decode_prefix dec bs = (case dec bs of
     None \<Rightarrow> Inl InvalidData
   | Some (header, payload) \<Rightarrow>
       if dh_magic header \<noteq> disk_block_magic then Inl InvalidData
       else if dh_version header \<noteq> disk_block_version then Inl InvalidData
       else Inr (header, payload))"

definition header_decode :: "header_decoder \<Rightarrow> u8 list \<Rightarrow> io_error + disk_block_header \<times> u8 list" where
  "header_decode dec bs = (case decode_prefix dec bs of
     Inl e \<Rightarrow> Inl e
   | Inr (header, payload) \<Rightarrow>
       if length payload \<noteq> dh_payload_len header then Inl InvalidData else Inr (header, payload))"

definition block_fingerprint_from_filename :: "string \<Rightarrow> u8 list option" where
  "block_fingerprint_from_filename name =
     (if length name < 3 \<or> drop (length name - 3) name \<noteq> ''.kv'' then None
      else let stem = take (length name - 3) name
           in if length stem \<noteq> 32 then None else unhex stem)"

subsection \<open>The store\<close>

record disk_store =
  ds_root :: path
  ds_root_created :: bool

definition disk_store_new :: "path \<Rightarrow> disk_store" where
  "disk_store_new root = \<lparr>ds_root = root, ds_root_created = False\<rparr>"

definition path_for :: "disk_store \<Rightarrow> path \<Rightarrow> io_error + path" where
  "path_for st key = (case key of
     RootDir # _ \<Rightarrow> Inl InvalidInput
   | _ \<Rightarrow> if ParentDir \<in> set key then Inl InvalidInput else Inr (ds_root st @ key))"

definition create_root :: "disk_store \<Rightarrow> file_system \<Rightarrow> disk_store \<times> file_system" where
  "create_root st fs = (st\<lparr>ds_root_created := True\<rparr>, create_dir_all (ds_root st) fs)"

definition ensure_root_created :: "disk_store \<Rightarrow> file_system \<Rightarrow> disk_store \<times> file_system" where
  "ensure_root_created st fs = (if ds_root_created st then (st, fs) else create_root st fs)"

definition ds_write :: "disk_store \<Rightarrow> path \<Rightarrow> u8 list \<Rightarrow> file_system \<Rightarrow> (io_error + unit) \<times> file_system" where
  "ds_write st key bs fs = (case path_for st key of
     Inl e \<Rightarrow> (Inl e, fs) | Inr p \<Rightarrow> write_file p bs (create_dir_all (butlast p) fs))"

definition ds_read :: "disk_store \<Rightarrow> path \<Rightarrow> file_system \<Rightarrow> io_error + u8 list" where
  "ds_read st key fs = (case path_for st key of Inl e \<Rightarrow> Inl e | Inr p \<Rightarrow> read_file p fs)"

definition ds_remove :: "disk_store \<Rightarrow> path \<Rightarrow> file_system \<Rightarrow> (io_error + unit) \<times> file_system" where
  "ds_remove st key fs = (case path_for st key of Inl e \<Rightarrow> (Inl e, fs) | Inr p \<Rightarrow> remove_file p True fs)"

definition block_path_for :: "disk_store \<Rightarrow> u8 list \<Rightarrow> path" where
  "block_path_for st fp = ds_root st @ [Normal (concat (map (\<lambda>b. [hex_digit (unat (drop_bit 4 b)), hex_digit (unat (and b 15))]) fp) @ ''.kv'')]"

definition contains_block :: "disk_store \<Rightarrow> u8 list \<Rightarrow> file_system \<Rightarrow> bool" where
  "contains_block st fp fs \<longleftrightarrow> map_of (fs_files fs) (block_path_for st fp) \<noteq> None"

text \<open>The files of the root directory with their names.\<close>

definition root_entries :: "disk_store \<Rightarrow> file_system \<Rightarrow> (path \<times> string) list" where
  "root_entries st fs = List.map_filter (\<lambda>(p, _).
     if p \<noteq> [] \<and> butlast p = ds_root st then (case last p of Normal n \<Rightarrow> Some (p, n) | _ \<Rightarrow> None) else None) (fs_files fs)"

fun visit_loop :: "header_decoder \<Rightarrow> disk_store \<Rightarrow> file_system \<Rightarrow> (path \<times> string) list
    \<Rightarrow> io_error + (disk_block_location \<times> u8 list) list" where
  "visit_loop dec st fs [] = Inr []"
| "visit_loop dec st fs ((p, name) # es) =
     (case block_fingerprint_from_filename name of
        None \<Rightarrow> visit_loop dec st fs es
      | Some fp \<Rightarrow>
          let canonical = block_path_for st fp in
          if p \<noteq> canonical then Inl InvalidData
          else case read_block (ds_root st) fp fs of
            Inl _ \<Rightarrow> visit_loop dec st fs es
          | Inr bs \<Rightarrow> (case header_decode dec bs of
              Inl _ \<Rightarrow> visit_loop dec st fs es
            | Inr (header, payload) \<Rightarrow>
                if dh_fingerprint header \<noteq> fp then visit_loop dec st fs es
                else (case visit_loop dec st fs es of
                   Inl e \<Rightarrow> Inl e
                 | Inr vs \<Rightarrow> Inr ((\<lparr>dl_path = canonical, dl_payload_len = dh_payload_len header, dl_fingerprint = fp\<rparr>, payload) # vs))))"

definition visit_blocks :: "header_decoder \<Rightarrow> disk_store \<Rightarrow> file_system \<Rightarrow> io_error + (disk_block_location \<times> u8 list) list" where
  "visit_blocks dec st fs = (if \<not> dir_exists fs (ds_root st) then Inr [] else visit_loop dec st fs (root_entries st fs))"

fun visit_prefix_loop :: "nat \<Rightarrow> header_decoder \<Rightarrow> disk_store \<Rightarrow> file_system \<Rightarrow> (path \<times> string) list
    \<Rightarrow> io_error + (disk_block_location \<times> u8 list) list" where
  "visit_prefix_loop mx dec st fs [] = Inr []"
| "visit_prefix_loop mx dec st fs ((p, name) # es) =
     (case block_fingerprint_from_filename name of
        None \<Rightarrow> visit_prefix_loop mx dec st fs es
      | Some fp \<Rightarrow>
          let canonical = block_path_for st fp in
          if p \<noteq> canonical then Inl InvalidData
          else case map_of (fs_files fs) canonical of
            None \<Rightarrow> visit_prefix_loop mx dec st fs es
          | Some content \<Rightarrow>
             let bs = take (saturating_add usize_max mx 512) content in
             (case decode_prefix dec bs of
              Inl _ \<Rightarrow> visit_prefix_loop mx dec st fs es
            | Inr (header, payload_prefix) \<Rightarrow>
                let header_len = length bs - length payload_prefix in
                if dh_fingerprint header \<noteq> fp then visit_prefix_loop mx dec st fs es
                else if header_len + dh_payload_len header > u64_max then visit_prefix_loop mx dec st fs es
                else if length content \<noteq> header_len + dh_payload_len header then visit_prefix_loop mx dec st fs es
                else let prefix_len = min (min (length payload_prefix) mx) (dh_payload_len header) in
                  (case visit_prefix_loop mx dec st fs es of
                   Inl e \<Rightarrow> Inl e
                 | Inr vs \<Rightarrow> Inr ((\<lparr>dl_path = canonical, dl_payload_len = dh_payload_len header, dl_fingerprint = fp\<rparr>,
                                  take prefix_len payload_prefix) # vs))))"

definition visit_block_payload_prefixes ::
    "nat \<Rightarrow> header_decoder \<Rightarrow> disk_store \<Rightarrow> file_system \<Rightarrow> io_error + (disk_block_location \<times> u8 list) list" where
  "visit_block_payload_prefixes mx dec st fs =
     (if \<not> dir_exists fs (ds_root st) then Inr [] else visit_prefix_loop mx dec st fs (root_entries st fs))"

definition write_unsynced_calls :: "path \<Rightarrow> u8 list \<Rightarrow> sys_call list" where
  "write_unsynced_calls p bs = [SysCreate (tmp_path p), SysAppend (tmp_path p) bs, SysRename (tmp_path p) p]"

definition block_write :: "disk_store \<Rightarrow> u8 list \<Rightarrow> u8 list \<Rightarrow> bool \<Rightarrow> file_system \<Rightarrow> (io_error + unit) \<times> file_system" where
  "block_write st fp file_bytes fsync fs =
     (if fsync then write_block_atomic (ds_root st) fp file_bytes fs
      else let p = block_path_for st fp in run_staged (tmp_path p) (write_unsynced_calls p file_bytes) fs)"

definition put_block_with_fsync ::
    "header_encoder \<Rightarrow> u8 list \<Rightarrow> u8 \<Rightarrow> u8 list \<Rightarrow> bool \<Rightarrow> disk_store \<Rightarrow> file_system
       \<Rightarrow> (io_error + disk_block_location) \<times> disk_store \<times> file_system" where
  "put_block_with_fsync enc fp tag payload fsync st0 fs0 =
     (case ensure_root_created st0 fs0 of (st, fs) \<Rightarrow>
        case enc (header_new fp tag (length payload)) of
          None \<Rightarrow> (Inl InvalidData, st, fs)
        | Some header_bytes \<Rightarrow>
            let loc = \<lparr>dl_path = block_path_for st fp, dl_payload_len = length payload, dl_fingerprint = fp\<rparr> in
            (case block_write st fp (header_bytes @ payload) fsync fs of
               (Inr _, fs1) \<Rightarrow> (Inr loc, st, fs1)
             | (Inl NotFound, fs1) \<Rightarrow>
                 (case create_root st fs1 of (st2, fs2) \<Rightarrow>
                    case block_write st2 fp (header_bytes @ payload) fsync fs2 of
                      (Inl e, fs3) \<Rightarrow> (Inl e, st2, fs3)
                    | (Inr _, fs3) \<Rightarrow> (Inr loc, st2, fs3))
             | (Inl e, fs1) \<Rightarrow> (Inl e, st, fs1)))"

definition put_block ::
    "header_encoder \<Rightarrow> u8 list \<Rightarrow> u8 \<Rightarrow> u8 list \<Rightarrow> disk_store \<Rightarrow> file_system
       \<Rightarrow> (io_error + disk_block_location) \<times> disk_store \<times> file_system" where
  "put_block enc fp tag payload st fs = put_block_with_fsync enc fp tag payload True st fs"

definition get_block :: "header_decoder \<Rightarrow> disk_store \<Rightarrow> disk_block_location \<Rightarrow> u8 list option \<Rightarrow> file_system \<Rightarrow> io_error + u8 list" where
  "get_block dec st loc expected fs =
     (if expected \<noteq> None \<and> dl_fingerprint loc \<noteq> the expected then Inl InvalidData
      else if dl_path loc \<noteq> block_path_for st (dl_fingerprint loc) then Inl InvalidData
      else case read_block (ds_root st) (dl_fingerprint loc) fs of
        Inl e \<Rightarrow> Inl e
      | Inr bs \<Rightarrow> (case header_decode dec bs of
          Inl e \<Rightarrow> Inl e
        | Inr (header, payload) \<Rightarrow>
            if dh_fingerprint header \<noteq> dl_fingerprint loc then Inl InvalidData else Inr payload))"

definition delete_block :: "disk_store \<Rightarrow> disk_block_location \<Rightarrow> file_system \<Rightarrow> (io_error + unit) \<times> file_system" where
  "delete_block st loc fs =
     (if dl_path loc \<noteq> block_path_for st (dl_fingerprint loc) then (Inl InvalidData, fs)
      else remove_block (ds_root st) (dl_fingerprint loc) True fs)"

end
