(* ===== verification/Disk_Props.thy ===== *)
theory Disk_Props
  imports Disk_Store
begin

text \<open>
  The disk tier refines a map from fingerprints to payloads: what a put, a get, a delete and a scan
  of the directory do to that map, also when a write stops half way.
\<close>

subsection \<open>File names\<close>

lemma block_path_for_eq: "block_path_for st fp = block_path (ds_root st) fp"
  by (simp add: block_path_for_def block_path_def hex_string_def hex_byte_def [abs_def])

lemma hex_string_inj [simp]: "hex_string a = hex_string b \<longleftrightarrow> a = b"
  by (metis option.inject unhex_hex_string)

lemma block_path_inj [simp]: "block_path root a = block_path root b \<longleftrightarrow> a = b"
  by (simp add: block_path_def)

lemma hex_byte_join:
  assumes "unat hi < 16" "unat lo < 16"
  shows "hex_byte (or (push_bit 4 hi) lo) = [hex_digit (unat hi), hex_digit (unat lo)]"
  unfolding hex_byte_def nibble_parts [OF assms] ..

lemma unhex_Some: "unhex s = Some fp \<Longrightarrow> even (length s) \<Longrightarrow> s = hex_string fp"
proof (induction s arbitrary: fp rule: unhex.induct)
  case (3 c d cs)
  then obtain hi lo rest where v: "hex_value c = Some hi" "hex_value d = Some lo" "unhex cs = Some rest"
    "fp = or (push_bit 4 hi) lo # rest" by (auto split: Option.bind_splits)
  have "hex_byte (or (push_bit 4 hi) lo) = [c, d]"
    using hex_value_unique [OF v(1)] hex_value_unique [OF v(2)] by (simp add: hex_byte_join)
  moreover have "cs = hex_string rest" using "3.IH" [OF v(1) v(2) v(3)] "3.prems"(2) by simp
  ultimately show ?case by (simp add: v(4) hex_string_def)
qed (auto simp: hex_string_def)

lemma from_filename_block: "length fp = 16 \<Longrightarrow> block_fingerprint_from_filename (hex_string fp @ ''.kv'') = Some fp"
  by (simp add: block_fingerprint_from_filename_def Let_def)

lemma from_filename_Some:
  assumes "block_fingerprint_from_filename n = Some fp"
  shows "length fp = 16 \<and> n = hex_string fp @ ''.kv''"
proof -
  have n: "length n = 35" "drop 32 n = ''.kv''" "unhex (take 32 n) = Some fp"
    using assms by (auto simp: block_fingerprint_from_filename_def Let_def split: if_splits)
  then have t: "take 32 n = hex_string fp" using unhex_Some by simp
  then have "2 * length fp = 32" using n(1) by (metis length_hex_string length_take min.absorb2 numeral_le_iff semiring_norm)
  moreover have "n = hex_string fp @ ''.kv''" using n(2) t by (metis append_take_drop_id)
  ultimately show ?thesis by simp
qed

lemma tmp_block_path: "tmp_path (block_path root fp) = root @ [Normal (hex_string fp @ ''.kv.tmp'')]"
  by (simp add: tmp_path_def block_path_def)

lemma tmp_not_block [simp]: "tmp_path (block_path root fp) \<noteq> block_path root fq"
proof
  assume "tmp_path (block_path root fp) = block_path root fq"
  then have "hex_string fp @ ''.kv.tmp'' = hex_string fq @ ''.kv''"
    unfolding tmp_block_path by (simp add: block_path_def)
  then have "last (hex_string fp @ ''.kv.tmp'') = last (hex_string fq @ ''.kv'')" by simp
  then show False by simp
qed

subsection \<open>The codec\<close>

text \<open>
  What the code relies on in \<open>postcard\<close>: a header that fits its fields is encoded in a bounded
  number of bytes, decoding gives it back with the bytes after it, and decoding looks at no byte
  after the header.
\<close>

definition header_fits :: "disk_block_header \<Rightarrow> bool" where
  "header_fits h \<longleftrightarrow> length (dh_magic h) = 8 \<and> dh_version h < 2 ^ 16 \<and> length (dh_fingerprint h) = 16 \<and> dh_payload_len h \<le> u64_max"

definition codec_ok :: "header_encoder \<Rightarrow> header_decoder \<Rightarrow> bool" where
  "codec_ok enc dec \<longleftrightarrow> (\<forall>h rest. header_fits h \<longrightarrow> (\<exists>bs. enc h = Some bs \<and> dec (bs @ rest) = Some (h, rest)))"

definition decoder_local :: "header_decoder \<Rightarrow> bool" where
  "decoder_local dec \<longleftrightarrow> (\<forall>bs h rest. dec bs = Some (h, rest) \<longrightarrow>
     (\<exists>pre. bs = pre @ rest \<and> length pre \<le> 512 \<and> (\<forall>r. dec (pre @ r) = Some (h, r))))"

subsection \<open>The abstract map\<close>

definition block_map :: "header_decoder \<Rightarrow> disk_store \<Rightarrow> file_system \<Rightarrow> u8 list \<Rightarrow> u8 list option" where
  "block_map dec st fs fp = (if length fp \<noteq> 16 then None
     else case map_of (fs_files fs) (block_path (ds_root st) fp) of
       None \<Rightarrow> None
     | Some bs \<Rightarrow> (case header_decode dec bs of
         Inl _ \<Rightarrow> None | Inr (h, p) \<Rightarrow> if dh_fingerprint h = fp then Some p else None))"

lemma block_map_cong:
  "(\<And>fq. map_of (fs_files fs) (block_path (ds_root st) fq) = map_of (fs_files fs') (block_path (ds_root st) fq)) \<Longrightarrow>
     ds_root st' = ds_root st \<Longrightarrow> block_map dec st fs = block_map dec st' fs'"
  by (rule ext) (simp add: block_map_def)

lemma block_path_not_Nil [simp]: "block_path root fp \<noteq> []" "butlast (block_path root fp) = root"
  by (simp_all add: block_path_def)

lemma get_block_map:
  "length (dl_fingerprint loc) = 16 \<Longrightarrow>
   get_block dec st loc expected fs = Inr p \<longleftrightarrow>
     (expected = None \<or> expected = Some (dl_fingerprint loc)) \<and> dl_path loc = block_path (ds_root st) (dl_fingerprint loc) \<and>
     block_map dec st fs (dl_fingerprint loc) = Some p"
proof -
  assume len: "length (dl_fingerprint loc) = 16"
  let ?fp = "dl_fingerprint loc"
  have "get_block dec st loc expected fs = Inr p \<longleftrightarrow>
      (expected = None \<or> expected = Some ?fp) \<and> dl_path loc = block_path (ds_root st) ?fp \<and>
      (case read_block (ds_root st) ?fp fs of Inl e \<Rightarrow> Inl e
       | Inr bs \<Rightarrow> (case header_decode dec bs of Inl e \<Rightarrow> Inl e
          | Inr (header, payload) \<Rightarrow> if dh_fingerprint header \<noteq> ?fp then Inl InvalidData else Inr payload)) = Inr p"
    by (cases expected) (auto simp: get_block_def block_path_for_eq)
  moreover have "(case read_block (ds_root st) ?fp fs of Inl e \<Rightarrow> Inl e
       | Inr bs \<Rightarrow> (case header_decode dec bs of Inl e \<Rightarrow> Inl e
          | Inr (header, payload) \<Rightarrow> if dh_fingerprint header \<noteq> ?fp then Inl InvalidData else Inr payload)) = Inr p
      \<longleftrightarrow> block_map dec st fs ?fp = Some p"
    using len by (cases "map_of (fs_files fs) (block_path (ds_root st) ?fp)")
      (auto simp: block_map_def read_block_def read_file_def split: sum.split)
  ultimately show ?thesis by simp
qed

subsection \<open>Writing a block\<close>

definition replace_via_tmp :: "path \<Rightarrow> u8 list \<Rightarrow> file_system \<Rightarrow> file_system" where
  "replace_via_tmp p bs fs = rename_file (tmp_path p) p (fs_put (tmp_path p) bs fs)"

lemma replace_via_tmp_files:
  "tmp_path p \<noteq> p \<Longrightarrow> map_of (fs_files (replace_via_tmp p bs fs)) q =
     (if q = p then Some bs else if q = tmp_path p then None else map_of (fs_files fs) q)"
  by (simp add: replace_via_tmp_def rename_file_def fs_put_def fs_delete_def AList.update_conv' AList.delete_conv')

lemma replace_dirs [simp]: "fs_dirs (replace_via_tmp p bs fs) = fs_dirs fs"
  by (simp add: replace_via_tmp_def rename_file_def fs_put_def fs_delete_def split: option.split)

lemma block_write_eq:
  "block_write st fp bs fsync fs = (if dir_exists fs (ds_root st)
     then (Inr (), replace_via_tmp (block_path (ds_root st) fp) bs fs) else (Inl NotFound, fs))"
proof -
  let ?p = "block_path (ds_root st) fp"
  have b: "butlast ?p = ds_root st" "?p \<noteq> []" "butlast (tmp_path ?p) = ds_root st"
    by (simp_all add: block_path_def tmp_path_def)
  have put: "fs_put q bs (fs_put q [] fs) = fs_put q bs fs" "dir_exists (fs_put q cs f) d = dir_exists f d"
    "map_of (fs_files (fs_put q cs f)) q = Some cs" for q d f cs
    by (simp_all add: fs_put_def dir_exists_def AList.update_conv')
  have "dir_exists (rename_file q q' f) d = dir_exists f d" for q q' f d
    by (simp add: rename_file_def fs_put_def fs_delete_def dir_exists_def split: option.split)
  then show ?thesis
    by (simp add: block_write_def write_block_atomic_def write_file_atomic_def block_path_for_eq Let_def replace_via_tmp_def
        run_staged_def write_file_atomic_calls_def write_unsynced_calls_def unlink_quietly_def b put)
qed

lemma create_dir_exists: "dir_exists (create_dir_all d fs) d"
proof (cases "d = []")
  case False
  have ins: "set (fold List.insert xs ys) = set xs \<union> set ys" for xs ys :: "path list"
    by (induction xs arbitrary: ys) auto
  have "length d \<in> set [1..<Suc (length d)]" using False by (cases d) auto
  then have "take (length d) d \<in> set (map (\<lambda>k. take k d) [1..<Suc (length d)])" unfolding set_map by (rule imageI)
  then show ?thesis by (simp add: dir_exists_def create_dir_all_def ins)
qed (simp add: dir_exists_def)

lemma create_dir_files [simp]: "fs_files (create_dir_all d fs) = fs_files fs"
  by (simp add: create_dir_all_def)

lemma ensure_root:
  assumes "ensure_root_created st fs = (st', fs')"
  shows "ds_root st' = ds_root st" "fs_files fs' = fs_files fs"
  using assms by (auto simp: ensure_root_created_def create_root_def split: if_splits)

text \<open>A put always succeeds, also when the root directory is gone, and replaces exactly its file.\<close>

lemma put_block_ok:
  assumes "codec_ok enc dec" "length fp = 16" "length payload \<le> u64_max"
  shows "\<exists>hb st' fs0. enc (header_new fp tag (length payload)) = Some hb
    \<and> dec (hb @ payload) = Some (header_new fp tag (length payload), payload)
    \<and> put_block_with_fsync enc fp tag payload fsync st fs =
        (Inr \<lparr>dl_path = block_path (ds_root st) fp, dl_payload_len = length payload, dl_fingerprint = fp\<rparr>,
         st', replace_via_tmp (block_path (ds_root st) fp) (hb @ payload) fs0)
    \<and> ds_root st' = ds_root st \<and> fs_files fs0 = fs_files fs \<and> dir_exists fs0 (ds_root st)"
proof -
  have "header_fits (header_new fp tag (length payload))"
    using assms(2,3) by (simp add: header_fits_def header_new_def disk_block_magic_def disk_block_version_def)
  then obtain hb where hb: "enc (header_new fp tag (length payload)) = Some hb"
    "dec (hb @ payload) = Some (header_new fp tag (length payload), payload)"
    using assms(1) unfolding codec_ok_def by blast
  obtain st1 fs1 where e: "ensure_root_created st fs = (st1, fs1)" by fastforce
  note r = ensure_root [OF e]
  show ?thesis
  proof (cases "dir_exists fs1 (ds_root st)")
    case True
    then show ?thesis using hb e r
      by (intro exI [of _ hb] exI [of _ st1] exI [of _ fs1])
        (simp add: put_block_with_fsync_def block_write_eq block_path_for_eq)
  next
    case False
    define fs2 where "fs2 = create_dir_all (ds_root st) fs1"
    have "dir_exists fs2 (ds_root st)" "fs_files fs2 = fs_files fs" using r by (simp_all add: fs2_def create_dir_exists)
    then show ?thesis using hb e r False
      by (intro exI [of _ hb] exI [of _ "st1\<lparr>ds_root_created := True\<rparr>"] exI [of _ fs2])
        (simp add: put_block_with_fsync_def block_write_eq block_path_for_eq create_root_def fs2_def)
  qed
qed

lemma block_map_replace:
  assumes "length fp = 16" and dec: "header_decode dec bs = Inr (h, p)" "dh_fingerprint h = fp"
    and files: "fs_files fs0 = fs_files fs"
  shows "block_map dec st (replace_via_tmp (block_path (ds_root st) fp) bs fs0) = (block_map dec st fs)(fp \<mapsto> p)"
  using assms(1) dec by (auto simp: block_map_def replace_via_tmp_files files fun_eq_iff tmp_not_block [symmetric])

lemma header_decode_new:
  "dec bs = Some (header_new fp tag (length p), p) \<Longrightarrow> header_decode dec bs = Inr (header_new fp tag (length p), p)"
  by (simp add: header_decode_def decode_prefix_def header_new_def)

subsection \<open>The properties\<close>

definition read_outcome :: "io_error + u8 list \<Rightarrow> u8 list option" where
  "read_outcome r = (case r of Inl _ \<Rightarrow> None | Inr p \<Rightarrow> Some p)"

lemma fs_delete_files [simp]: "map_of (fs_files (fs_delete p fs)) = (map_of (fs_files fs))(p := None)"
  by (simp add: fs_delete_def AList.delete_conv')

lemma delete_block_map:
  assumes "length fp = 16" "dl_path loc = block_path (ds_root st) fp" "dl_fingerprint loc = fp"
  shows "\<exists>fs'. delete_block st loc fs = (Inr (), fs') \<and> block_map dec st fs' = (block_map dec st fs)(fp := None)"
proof (cases "map_of (fs_files fs) (block_path (ds_root st) fp)")
  case None
  then have "block_map dec st fs fp = None" by (simp add: block_map_def)
  then have "block_map dec st fs = (block_map dec st fs)(fp := None)" by (simp add: fun_eq_iff)
  then show ?thesis using None assms
    by (intro exI [of _ fs]) (simp add: delete_block_def remove_block_def remove_file_def block_path_for_eq)
next
  case (Some bs)
  let ?fs = "fs_delete (block_path (ds_root st) fp) fs"
  have "block_map dec st ?fs = (block_map dec st fs)(fp := None)"
    by (auto simp: fun_eq_iff block_map_def)
  then show ?thesis using Some assms
    by (intro exI [of _ ?fs]) (simp add: delete_block_def remove_block_def remove_file_def block_path_for_eq)
qed

text \<open>
  (C6) The disk tier is a map from fingerprints to payloads: writing a block (with or without fsync,
  with the root directory there or deleted behind the store's back) succeeds and returns a location
  under which reading gives the payload back; it changes the map at this fingerprint only; and
  deleting that location succeeds and removes just this entry.
\<close>

theorem disk_store_refines_map:
  assumes "codec_ok enc dec" "length fp = 16" "length payload \<le> u64_max"
  shows "\<exists>loc st' fs' fs''. put_block_with_fsync enc fp tag payload fsync st fs = (Inr loc, st', fs')
    \<and> block_map dec st' fs' = (block_map dec st fs)(fp \<mapsto> payload)
    \<and> get_block dec st' loc (Some fp) fs' = Inr payload
    \<and> delete_block st' loc fs' = (Inr (), fs'')
    \<and> block_map dec st' fs'' = (block_map dec st fs)(fp := None)"
proof -
  obtain hb st' fs0 where h: "dec (hb @ payload) = Some (header_new fp tag (length payload), payload)"
    and put: "put_block_with_fsync enc fp tag payload fsync st fs =
        (Inr \<lparr>dl_path = block_path (ds_root st) fp, dl_payload_len = length payload, dl_fingerprint = fp\<rparr>,
         st', replace_via_tmp (block_path (ds_root st) fp) (hb @ payload) fs0)"
    and st': "ds_root st' = ds_root st" and fs0: "fs_files fs0 = fs_files fs"
    using put_block_ok [OF assms] by blast
  let ?loc = "\<lparr>dl_path = block_path (ds_root st) fp, dl_payload_len = length payload, dl_fingerprint = fp\<rparr>"
  let ?fs = "replace_via_tmp (block_path (ds_root st) fp) (hb @ payload) fs0"
  have hdr: "header_decode dec (hb @ payload) = Inr (header_new fp tag (length payload), payload)"
    by (rule header_decode_new) (rule h)
  have bm: "block_map dec st ?fs = (block_map dec st fs)(fp \<mapsto> payload)"
    by (rule block_map_replace [OF assms(2) hdr _ fs0]) (simp add: header_new_def)
  have bm': "block_map dec st' ?fs = (block_map dec st fs)(fp \<mapsto> payload)"
    using bm block_map_cong [OF refl st', where fs = ?fs and dec = dec] by simp
  have get: "get_block dec st' ?loc (Some fp) ?fs = Inr payload"
    using assms(2) by (simp add: get_block_map st' bm')
  obtain fs'' where del: "delete_block st' ?loc ?fs = (Inr (), fs'')"
    "block_map dec st' fs'' = (block_map dec st' ?fs)(fp := None)"
    using delete_block_map [of fp ?loc st' ?fs dec] assms(2) st' by auto
  show ?thesis using put bm' get del by auto
qed

text \<open>
  A read returns a payload exactly when the location names the block's own file under the
  root, agrees with the fingerprint the caller expects, and the map holds that payload: a tampered
  path, another block's file, a truncated file or a foreign header is an error.
\<close>

theorem get_block_serves_only_canonical:
  assumes "length (dl_fingerprint loc) = 16"
  shows "get_block dec st loc expected fs = Inr p \<longleftrightarrow>
    expected \<in> {None, Some (dl_fingerprint loc)}
    \<and> dl_path loc = ds_root st @ [Normal (hex_string (dl_fingerprint loc) @ ''.kv'')]
    \<and> block_map dec st fs (dl_fingerprint loc) = Some p"
  using get_block_map [OF assms] by (simp add: block_path_def)

text \<open>
  The states in which a process that dies while it makes a sequence of system calls can leave the files: between
  two calls, or within a write, of which a prefix has been done. A write of a block that is interrupted
  leaves one of these states; if it is a call that fails, for whatever reason, the temporary file
  is removed as well.
\<close>

fun within_call :: "sys_call \<Rightarrow> file_system \<Rightarrow> file_system list" where
  "within_call (SysAppend p bs) fs = (case map_of (fs_files fs) p of None \<Rightarrow> []
     | Some old \<Rightarrow> map (\<lambda>k. fs_put p (old @ take k bs) fs) [0..<length bs])"
| "within_call _ fs = []"

fun crash_states :: "sys_call list \<Rightarrow> file_system \<Rightarrow> file_system list" where
  "crash_states [] fs = [fs]"
| "crash_states (c # cs) fs = fs # within_call c fs @ (case exec_call c fs of Inl _ \<Rightarrow> [] | Inr fs1 \<Rightarrow> crash_states cs fs1)"

definition block_write_calls :: "disk_store \<Rightarrow> u8 list \<Rightarrow> u8 list \<Rightarrow> bool \<Rightarrow> sys_call list" where
  "block_write_calls st fp bs fsync = (if fsync then write_file_atomic_calls (block_path (ds_root st) fp) bs
     else write_unsynced_calls (block_path_for st fp) bs)"

definition interrupted_write :: "disk_store \<Rightarrow> u8 list \<Rightarrow> u8 list \<Rightarrow> bool \<Rightarrow> file_system \<Rightarrow> file_system list" where
  "interrupted_write st fp bs fsync fs =
     (let states = crash_states (block_write_calls st fp bs fsync) fs
      in states @ map (unlink_quietly (tmp_path (block_path_for st fp))) states)"

lemma fs_put_files [simp]: "map_of (fs_files (fs_put p bs fs)) = (map_of (fs_files fs))(p \<mapsto> bs)"
  by (simp add: fs_put_def AList.update_conv')

lemma fs_put_again [simp]: "fs_put p bs (fs_put p cs fs) = fs_put p bs fs"
  by (simp add: fs_put_def)

lemma run_calls_crash: "snd (run_calls cs fs) \<in> set (crash_states cs fs)"
  by (induction cs fs rule: run_calls.induct) (auto split: sum.split)

lemma block_write_runs: "snd (block_write st fp bs fsync fs) \<in> set (interrupted_write st fp bs fsync fs)"
proof -
  let ?cs = "block_write_calls st fp bs fsync" and ?tmp = "tmp_path (block_path_for st fp)"
  have "block_write st fp bs fsync fs = run_staged ?tmp ?cs fs"
    by (simp add: block_write_def block_write_calls_def write_block_atomic_def write_file_atomic_def block_path_for_eq block_path_def Let_def)
  then show ?thesis using run_calls_crash [of ?cs fs]
    by (auto simp: run_staged_def interrupted_write_def Let_def split: prod.split sum.split)
qed

text \<open>All the states: nothing done, a prefix in the temporary file, or the file replaced.\<close>

lemma crash_staged:
  assumes "fs' \<in> set (crash_states (block_write_calls st fp bs fsync) fs)"
  defines "p \<equiv> block_path (ds_root st) fp"
  shows "fs' = fs \<or> (\<exists>part. fs' = fs_put (tmp_path p) part fs) \<or> fs' = replace_via_tmp p bs fs"
  using assms(1) by (cases fsync)
    (auto simp: block_write_calls_def write_file_atomic_calls_def write_unsynced_calls_def block_path_for_eq
      replace_via_tmp_def p_def split: if_splits)

text \<open>
  (C33) A write of a block that stops half way: in every state in which the death of the process can
  leave the files (between two of its system calls or within the write of the bytes), and in every
  state after a call that failed for any reason, each block of the store is either the old or the new one,
  with and without fsync, and no reader ever sees a partial block. What a loss of power does to calls
  that were made is not modelled.
\<close>

theorem torn_write_keeps_old_or_new:
  assumes "codec_ok enc dec" "length fp = 16" "length payload \<le> u64_max"
    "enc (header_new fp tag (length payload)) = Some hb"
    "fs' \<in> set (interrupted_write st fp (hb @ payload) fsync fs)"
  shows "block_map dec st fs' \<in> {block_map dec st fs, (block_map dec st fs)(fp \<mapsto> payload)}"
proof -
  have "header_fits (header_new fp tag (length payload))"
    using assms(2,3) by (simp add: header_fits_def header_new_def disk_block_magic_def disk_block_version_def)
  then have d: "dec (hb @ payload) = Some (header_new fp tag (length payload), payload)"
    using assms(1,4) unfolding codec_ok_def by fastforce
  let ?p = "block_path (ds_root st) fp"
  have hdr: "header_decode dec (hb @ payload) = Inr (header_new fp tag (length payload), payload)"
    by (rule header_decode_new) (rule d)
  have new: "block_map dec st (replace_via_tmp ?p (hb @ payload) fs) = (block_map dec st fs)(fp \<mapsto> payload)"
    by (rule block_map_replace [OF assms(2) hdr _ refl]) (simp add: header_new_def)
  have torn: "block_map dec st (fs_put (tmp_path ?p) bs fs) = block_map dec st fs" for bs
    by (rule block_map_cong) (simp_all add: tmp_not_block [symmetric])
  have cleaned: "block_map dec st (unlink_quietly (tmp_path ?p) f) = block_map dec st f" for f
    by (rule block_map_cong) (simp_all add: unlink_quietly_def tmp_not_block [symmetric])
  obtain f where f: "f \<in> set (crash_states (block_write_calls st fp (hb @ payload) fsync) fs)"
    "fs' = f \<or> fs' = unlink_quietly (tmp_path ?p) f"
    using assms(5) by (auto simp: interrupted_write_def Let_def block_path_for_eq)
  have "block_map dec st f \<in> {block_map dec st fs, (block_map dec st fs)(fp \<mapsto> payload)}"
    using crash_staged [OF f(1)] new torn by auto
  then show ?thesis using f(2) cleaned by auto
qed


subsection \<open>Scanning the directory\<close>

definition valid_block :: "header_decoder \<Rightarrow> disk_store \<Rightarrow> file_system \<Rightarrow> path \<times> string \<Rightarrow> (disk_block_location \<times> u8 list) option" where
  "valid_block dec st fs e = (case block_fingerprint_from_filename (snd e) of
     None \<Rightarrow> None
   | Some fp \<Rightarrow> map_option (\<lambda>p. (\<lparr>dl_path = block_path (ds_root st) fp, dl_payload_len = length p, dl_fingerprint = fp\<rparr>, p))
       (block_map dec st fs fp))"

lemma root_entry:
  "(p, n) \<in> set (root_entries st fs) \<longleftrightarrow> p = ds_root st @ [Normal n] \<and> map_of (fs_files fs) p \<noteq> None"
proof -
  have "p \<noteq> [] \<and> butlast p = ds_root st \<and> last p = Normal n \<longleftrightarrow> p = ds_root st @ [Normal n]"
    by (metis append_butlast_last_id butlast_snoc last_snoc snoc_eq_iff_butlast)
  moreover have "(p, n) \<in> set (root_entries st fs) \<longleftrightarrow>
      p \<in> fst ` set (fs_files fs) \<and> p \<noteq> [] \<and> butlast p = ds_root st \<and> last p = Normal n"
    by (force simp: root_entries_def map_filter_def split: if_splits component.splits)
  ultimately show ?thesis by (auto simp: map_of_eq_None_iff)
qed

lemma header_decode_len: "header_decode dec bs = Inr (h, p) \<Longrightarrow> dh_payload_len h = length p"
  by (auto simp: header_decode_def split: sum.splits prod.splits if_splits)

lemma visit_loop_eq:
  "set es \<subseteq> set (root_entries st fs) \<Longrightarrow> visit_loop dec st fs es = Inr (List.map_filter (valid_block dec st fs) es)"
proof (induction es)
  case (Cons e es)
  obtain p n where e: "e = (p, n)" by fastforce
  have IH: "visit_loop dec st fs es = Inr (List.map_filter (valid_block dec st fs) es)" using Cons by simp
  have en: "p = ds_root st @ [Normal n]" "map_of (fs_files fs) p \<noteq> None" 

  proof -
    have "(p, n) \<in> set (root_entries st fs)" using Cons.prems e by simp
    then show "p = ds_root st @ [Normal n]" "map_of (fs_files fs) p \<noteq> None" unfolding root_entry by blast+
  qed
  show ?case
  proof (cases "block_fingerprint_from_filename n")
    case None
    then have "valid_block dec st fs (p, n) = None" by (simp add: valid_block_def)
    then show ?thesis using IH None by (simp add: e map_filter_simps)
  next
    case (Some fp)
    note fn = from_filename_Some [OF Some]
    have p: "p = block_path (ds_root st) fp" using en fn by (simp add: block_path_def)
    obtain bs where bs: "map_of (fs_files fs) p = Some bs" using en by auto
    show ?thesis
    proof (cases "header_decode dec bs")
      case (Inl err)
      then have "valid_block dec st fs (p, n) = None" using Some p bs by (simp add: valid_block_def block_map_def)
      then show ?thesis using IH Some p bs Inl
        by (simp add: e map_filter_simps read_block_def read_file_def block_path_for_eq)
    next
      case (Inr hp)
      obtain h pl where hp: "hp = (h, pl)" by fastforce
      have "valid_block dec st fs (p, n) = (if dh_fingerprint h = fp
          then Some (\<lparr>dl_path = p, dl_payload_len = dh_payload_len h, dl_fingerprint = fp\<rparr>, pl) else None)"
        using Some p bs Inr hp fn header_decode_len [OF Inr [unfolded hp]] by (simp add: valid_block_def block_map_def)
      then show ?thesis using IH Some p bs Inr hp
        by (simp add: e map_filter_simps read_block_def read_file_def block_path_for_eq)
    qed
  qed
qed (simp add: map_filter_simps)

lemma valid_block_Some:
  "e \<in> set (root_entries st fs) \<Longrightarrow> valid_block dec st fs e = Some (loc, p) \<longleftrightarrow>
     fst e = dl_path loc \<and> dl_path loc = block_path (ds_root st) (dl_fingerprint loc) \<and> dl_payload_len loc = length p
     \<and> block_map dec st fs (dl_fingerprint loc) = Some p"
proof -
  assume en: "e \<in> set (root_entries st fs)"
  obtain q n where e: "e = (q, n)" by fastforce
  have q: "q = ds_root st @ [Normal n]" using en e root_entry by simp
  show ?thesis
  proof (cases "block_fingerprint_from_filename n")
    case None
    have "\<not> (q = block_path (ds_root st) (dl_fingerprint loc) \<and> length (dl_fingerprint loc) = 16)"
      using None q from_filename_block by (auto simp: block_path_def)
    then show ?thesis using None by (auto simp: e valid_block_def block_map_def)
  next
    case (Some fp)
    have "q = block_path (ds_root st) fp" using from_filename_Some [OF Some] q by (simp add: block_path_def)
    then show ?thesis using Some by (cases loc) (auto simp: e valid_block_def)
  qed
qed

text \<open>
  Scanning an existing root directory succeeds whatever other files lie in it and visits
  exactly the entries of the map, each under its canonical location with the true length.
\<close>

theorem visit_blocks_lists_map:
  assumes "dir_exists fs (ds_root st)"
  shows "\<exists>vs. visit_blocks dec st fs = Inr vs \<and> set vs =
    {(\<lparr>dl_path = block_path_for st fp, dl_payload_len = length p, dl_fingerprint = fp\<rparr>, p) | fp p. block_map dec st fs fp = Some p}"
proof -
  let ?vs = "List.map_filter (valid_block dec st fs) (root_entries st fs)"
  let ?loc = "\<lambda>fp p. \<lparr>dl_path = block_path (ds_root st) fp, dl_payload_len = length p, dl_fingerprint = fp\<rparr> :: disk_block_location"
  have sub: "x \<in> {(?loc fp p, p) | fp p. block_map dec st fs fp = Some p}" if x: "x \<in> set ?vs" for x
  proof -
    obtain loc p where [simp]: "x = (loc, p)" by fastforce
    obtain e where "e \<in> set (root_entries st fs)" "valid_block dec st fs e = Some (loc, p)"
      using x by (force simp: map_filter_def)
    then show ?thesis using valid_block_Some by (cases loc) fastforce
  qed
  have sup: "(?loc fp p, p) \<in> set ?vs" if bm: "block_map dec st fs fp = Some p" for fp p
  proof -
    let ?e = "(block_path (ds_root st) fp, hex_string fp @ ''.kv'')"
    have "?e \<in> set (root_entries st fs)"
      using bm by (auto simp: root_entry block_map_def block_path_def split: if_splits option.splits)
    moreover from this have "valid_block dec st fs ?e = Some (?loc fp p, p)" using bm by (simp add: valid_block_Some)
    ultimately show ?thesis by (force simp: map_filter_def)
  qed
  show ?thesis unfolding visit_blocks_def block_path_for_eq
    using assms visit_loop_eq [OF subset_refl, of dec st fs] sub sup by (intro exI [of _ ?vs]) auto
qed

subsection \<open>Concrete instances\<close>

text \<open>A fixed-width codec, to show that the assumptions on the codec can hold.\<close>

definition demo_enc :: header_encoder where
  "demo_enc h = (if header_fits h then Some (dh_magic h @ to_le_bytes 2 (dh_version h) @ dh_fingerprint h @ [dh_kv_format_tag h]
     @ to_le_bytes 8 (dh_payload_len h)) else None)"

definition demo_dec :: header_decoder where
  "demo_dec bs = (if length bs < 35 then None
     else Some (\<lparr>dh_magic = take 8 bs, dh_version = from_le_bytes (take 2 (drop 8 bs)), dh_fingerprint = take 16 (drop 10 bs),
       dh_kv_format_tag = bs ! 26, dh_payload_len = from_le_bytes (take 8 (drop 27 bs))\<rparr>, drop 35 bs))"

lemma demo_codec_ok: "codec_ok demo_enc demo_dec"
  unfolding codec_ok_def
proof (intro allI impI)
  fix h rest assume fits: "header_fits h"
  have l: "length (dh_magic h) = 8" "length (dh_fingerprint h) = 16" "dh_version h < 256 ^ 2" "dh_payload_len h < 256 ^ 8"
    using fits by (simp_all add: header_fits_def u64_max_def)
  let ?bs = "dh_magic h @ to_le_bytes 2 (dh_version h) @ dh_fingerprint h @ [dh_kv_format_tag h] @ to_le_bytes 8 (dh_payload_len h)"
  have "demo_dec (?bs @ rest) = Some (h, rest)"
    using l by (cases h) (simp add: demo_dec_def nth_append)
  then show "\<exists>bs. demo_enc h = Some bs \<and> demo_dec (bs @ rest) = Some (h, rest)" using fits by (simp add: demo_enc_def)
qed

definition demo_fp :: "u8 list" where "demo_fp = replicate 16 171"
definition demo_store :: disk_store where "demo_store = disk_store_new [Normal ''kv'']"
definition demo_fs :: file_system where "demo_fs = \<lparr>fs_files = [], fs_dirs = [[Normal ''kv'']]\<rparr>"

theorem disk_store_refines_map_witness:
  "\<exists>loc st' fs' fs''. put_block_with_fsync demo_enc demo_fp 2 [1, 2, 3] False demo_store demo_fs = (Inr loc, st', fs')
    \<and> block_map demo_dec st' fs' = (block_map demo_dec demo_store demo_fs)(demo_fp \<mapsto> [1, 2, 3])
    \<and> get_block demo_dec st' loc (Some demo_fp) fs' = Inr [1, 2, 3]
    \<and> delete_block st' loc fs' = (Inr (), fs'')
    \<and> block_map demo_dec st' fs'' = (block_map demo_dec demo_store demo_fs)(demo_fp := None)"
  by (rule disk_store_refines_map [OF demo_codec_ok]) (simp_all add: demo_fp_def u64_max_def)

theorem get_block_serves_only_canonical_witness:
  "get_block demo_dec demo_store \<lparr>dl_path = [Normal ''etc'', Normal ''passwd''], dl_payload_len = 3, dl_fingerprint = demo_fp\<rparr>
     None demo_fs \<noteq> Inr [1]"
  by (subst get_block_serves_only_canonical) (simp_all add: demo_fp_def demo_store_def disk_store_new_def)

theorem torn_write_keeps_old_or_new_witness:
  "block_map demo_dec demo_store (fs_put [Normal ''kv'', Normal (hex_string demo_fp @ ''.kv.tmp'')] (take 36 (the (demo_enc (header_new demo_fp 2 3)) @ [1, 2, 3])) demo_fs)
     \<in> {block_map demo_dec demo_store demo_fs, (block_map demo_dec demo_store demo_fs)(demo_fp \<mapsto> [1, 2, 3])}"
proof (rule torn_write_keeps_old_or_new [OF demo_codec_ok])
  have fits: "header_fits (header_new demo_fp 2 3)"
    by (simp add: header_fits_def header_new_def disk_block_magic_def disk_block_version_def demo_fp_def u64_max_def)
  then show "demo_enc (header_new demo_fp 2 (length [1 :: u8, 2, 3])) = Some (the (demo_enc (header_new demo_fp 2 3)))"
  proof -
    have three: "length [1 :: u8, 2, 3] = 3" by simp
    show ?thesis unfolding three using fits by (simp add: demo_enc_def)
  qed
  show "fs_put [Normal ''kv'', Normal (hex_string demo_fp @ ''.kv.tmp'')] (take 36 (the (demo_enc (header_new demo_fp 2 3)) @ [1, 2, 3])) demo_fs
     \<in> set (interrupted_write demo_store demo_fp (the (demo_enc (header_new demo_fp 2 3)) @ [1, 2, 3]) True demo_fs)"
  proof -
    let ?bs = "the (demo_enc (header_new demo_fp 2 3)) @ [1 :: u8, 2, 3]"
    have "36 \<in> set [0..<length ?bs]" using fits by (simp add: demo_enc_def header_fits_def)
    then have "fs_put q (take 36 ?bs) demo_fs \<in> (\<lambda>k. fs_put q (take k ?bs) demo_fs) ` set [0..<length ?bs]" for q by (rule rev_image_eqI) simp
    moreover have "block_path (ds_root demo_store) demo_fp = [Normal ''kv'', Normal (hex_string demo_fp @ ''.kv'')]"
      "tmp_path [Normal ''kv'', Normal (hex_string demo_fp @ ''.kv'')] = [Normal ''kv'', Normal (hex_string demo_fp @ ''.kv.tmp'')]"
      "dir_exists demo_fs [Normal ''kv'']"
      by (simp_all add: block_path_def tmp_path_def demo_store_def disk_store_new_def demo_fs_def dir_exists_def)
    ultimately show ?thesis
      by (simp only: interrupted_write_def Let_def block_write_calls_def write_file_atomic_calls_def if_True set_append)
        (simp del: set_upt upt.simps)
  qed
qed (simp_all add: demo_fp_def u64_max_def)

theorem visit_blocks_lists_map_witness:
  "\<exists>vs. visit_blocks demo_dec demo_store demo_fs = Inr vs \<and> set vs =
    {(\<lparr>dl_path = block_path_for demo_store fp, dl_payload_len = length p, dl_fingerprint = fp\<rparr>, p) | fp p.
       block_map demo_dec demo_store demo_fs fp = Some p}"
  by (rule visit_blocks_lists_map) (simp add: dir_exists_def demo_fs_def demo_store_def disk_store_new_def)

end
