(* ===== verification/Kv_Backend.thy ===== *)
theory Kv_Backend
  imports Kv_Types Disk_Store
begin

text \<open>
  The control-plane objects of \<open>kv_tier/chunk.rs\<close>, the data-plane objects of \<open>kv_tier/io.rs\<close>, and
  the two object backends behind the interface \<open>KVBackend\<close> of \<open>kv_tier/backend.rs\<close>: the disk
  store (\<open>kv_tier/transport/disk.rs\<close>) and the store on a shared file system
  (\<open>kv_tier/transport/shared_fs.rs\<close>), which keeps the same files and hands out remote descriptors.
  The descriptors are encoded by the \<open>postcard\<close> library: the arguments \<open>denc\<close> and \<open>ddec\<close>. Messages
  of errors are left out, debug assertions too, apart from the one of the store of the shared file system.
\<close>

subsection \<open>Control-plane objects\<close>

datatype request_chunk_state = ChunkNew | ChunkPlanned | ChunkFetching | ChunkReady | ChunkConsumed

record half_open_range =
  hr_start :: nat
  hr_end :: nat

text \<open>\<open>LayerRange::new\<close> and \<open>TokenRange::new\<close>; \<open>None\<close> is the failed assertion.\<close>

definition range_new :: "nat \<Rightarrow> nat \<Rightarrow> half_open_range option" where
  "range_new s e = (if s \<le> e then Some \<lparr>hr_start = s, hr_end = e\<rparr> else None)"

record kv_block =
  kb_block_id :: block_id
  kb_layer_range :: half_open_range
  kb_token_range :: half_open_range
  kb_byte_len :: nat
  kb_fingerprint :: "fingerprint option"

definition kv_block_new :: "block_id \<Rightarrow> half_open_range \<Rightarrow> half_open_range \<Rightarrow> nat \<Rightarrow> kv_block" where
  "kv_block_new b layers toks n = \<lparr>kb_block_id = b, kb_layer_range = layers, kb_token_range = toks, kb_byte_len = n,
     kb_fingerprint = None\<rparr>"

definition with_fingerprint :: "fingerprint \<Rightarrow> kv_block \<Rightarrow> kv_block" where
  "with_fingerprint fp b = b\<lparr>kb_fingerprint := Some fp\<rparr>"

record kv_handle =
  kh_span_id :: "nat option"
  kh_block_id :: block_id
  kh_location :: block_location
  kh_epoch :: nat
  kh_byte_len :: nat

definition kv_handle_new :: "nat option \<Rightarrow> block_id \<Rightarrow> block_location \<Rightarrow> nat \<Rightarrow> nat \<Rightarrow> kv_handle" where
  "kv_handle_new sp b loc ep n = \<lparr>kh_span_id = sp, kh_block_id = b, kh_location = loc, kh_epoch = ep, kh_byte_len = n\<rparr>"

definition with_location :: "block_location \<Rightarrow> kv_handle \<Rightarrow> kv_handle" where
  "with_location loc h = \<lparr>kh_span_id = kh_span_id h, kh_block_id = kh_block_id h, kh_location = loc, kh_epoch = kh_epoch h,
     kh_byte_len = kh_byte_len h\<rparr>"

subsection \<open>Data-plane objects\<close>

record kv_byte_range =
  br_offset :: nat
  br_len :: nat

record kv_payload_ref =
  pr_location :: block_location
  pr_range :: kv_byte_range

definition payload_ref_whole :: "block_location \<Rightarrow> nat \<Rightarrow> kv_payload_ref" where
  "payload_ref_whole loc n = \<lparr>pr_location = loc, pr_range = \<lparr>br_offset = 0, br_len = n\<rparr>\<rparr>"

record kv_payload =
  kp_bytes :: "u8 list"
  kp_reference :: "kv_payload_ref option"

definition payload_from_vec :: "u8 list \<Rightarrow> kv_payload" where
  "payload_from_vec bs = \<lparr>kp_bytes = bs, kp_reference = None\<rparr>"

definition payload_with_reference :: "u8 list \<Rightarrow> kv_payload_ref \<Rightarrow> kv_payload" where
  "payload_with_reference bs r = \<lparr>kp_bytes = bs, kp_reference = Some r\<rparr>"

record kv_backend_store =
  ks_handle :: kv_handle
  ks_block :: kv_block
  ks_kv_format_tag :: u8
  ks_payload :: kv_payload

datatype kv_backend_completion = CStored kv_handle | CLoaded kv_handle kv_payload | CDeleted kv_handle

datatype transport_error = Registration | Transfer io_error | Aborted | OtherError

text \<open>The operation both backends return: finished when it is submitted, and polled at most once.\<close>

datatype backend_op_state = OpReady "transport_error + kv_backend_completion" | OpExhausted

type_synonym 's submitted = "(transport_error + backend_op_state) \<times> 's"
type_synonym disk_state = "disk_store \<times> file_system"

subsection \<open>The disk backend\<close>

definition location_from_handle :: "disk_store \<Rightarrow> kv_handle \<Rightarrow> transport_error + disk_block_location" where
  "location_from_handle st h = (case kh_location h of
     Disk fp n \<Rightarrow> Inr \<lparr>dl_path = block_path_for st fp, dl_payload_len = n, dl_fingerprint = fp\<rparr>
   | _ \<Rightarrow> Inl OtherError)"

definition disk_backend_store :: "header_encoder \<Rightarrow> kv_backend_store \<Rightarrow> disk_state \<Rightarrow> disk_state submitted" where
  "disk_backend_store enc req s = (case kb_fingerprint (ks_block req) of
     None \<Rightarrow> (Inl OtherError, s)
   | Some fp \<Rightarrow> (case put_block enc fp (ks_kv_format_tag req) (kp_bytes (ks_payload req)) (fst s) (snd s) of
        (Inl e, st, fs) \<Rightarrow> (Inl (Transfer e), st, fs)
      | (Inr _, st, fs) \<Rightarrow>
          (Inr (OpReady (Inr (CStored (with_location (Disk fp (length (kp_bytes (ks_payload req)))) (ks_handle req))))), st, fs)))"

definition disk_backend_fetch :: "header_decoder \<Rightarrow> kv_handle \<Rightarrow> disk_state \<Rightarrow> transport_error + backend_op_state" where
  "disk_backend_fetch dec h s = (case location_from_handle (fst s) h of
     Inl e \<Rightarrow> Inl e
   | Inr loc \<Rightarrow> (case get_block dec (fst s) loc (Some (dl_fingerprint loc)) (snd s) of
        Inl e \<Rightarrow> Inl (Transfer e)
      | Inr bs \<Rightarrow> Inr (OpReady (Inr (CLoaded h
          (payload_with_reference bs (payload_ref_whole (kh_location h) (length bs))))))))"

definition disk_backend_delete :: "kv_handle \<Rightarrow> disk_state \<Rightarrow> disk_state submitted" where
  "disk_backend_delete h s = (case location_from_handle (fst s) h of
     Inl e \<Rightarrow> (Inl e, s)
   | Inr loc \<Rightarrow> (case delete_block (fst s) loc (snd s) of
        (Inl e, fs) \<Rightarrow> (Inl (Transfer e), fst s, fs)
      | (Inr _, fs) \<Rightarrow> (Inr (OpReady (Inr (CDeleted h))), fst s, fs)))"

definition disk_backend_exists :: "kv_handle \<Rightarrow> disk_state \<Rightarrow> transport_error + bool" where
  "disk_backend_exists h s = (case kh_location h of
     Disk fp _ \<Rightarrow> Inr (contains_block (fst s) fp (snd s)) | _ \<Rightarrow> Inl OtherError)"

definition disk_op_poll :: "backend_op_state \<Rightarrow> (transport_error + kv_backend_completion) \<times> backend_op_state" where
  "disk_op_poll op = (case op of OpReady r \<Rightarrow> (r, OpExhausted) | OpExhausted \<Rightarrow> (Inl OtherError, OpExhausted))"

definition disk_op_abort :: "backend_op_state \<Rightarrow> backend_op_state" where
  "disk_op_abort op = OpReady (Inl Aborted)"

subsection \<open>The shared file system\<close>

type_synonym desc_encoder = "fingerprint \<times> nat \<Rightarrow> u8 list option"
type_synonym desc_decoder = "u8 list \<Rightarrow> (fingerprint \<times> nat) option"

record shared_fs_location =
  sl_fingerprint :: fingerprint
  sl_payload_len :: nat

definition into_remote_desc :: "desc_encoder \<Rightarrow> shared_fs_location \<Rightarrow> transport_error + remote_block_desc" where
  "into_remote_desc denc l = (case denc (sl_fingerprint l, sl_payload_len l) of
     None \<Rightarrow> Inl OtherError | Some bs \<Rightarrow> Inr \<lparr>transport = SharedFilesystem, payload = bs\<rparr>)"

definition into_block_location :: "desc_encoder \<Rightarrow> shared_fs_location \<Rightarrow> transport_error + block_location" where
  "into_block_location denc l = (case into_remote_desc denc l of Inl e \<Rightarrow> Inl e | Inr d \<Rightarrow> Inr (Remote d))"

definition from_remote_desc :: "desc_decoder \<Rightarrow> remote_block_desc \<Rightarrow> transport_error + shared_fs_location" where
  "from_remote_desc ddec d = (if transport d \<noteq> SharedFilesystem then Inl OtherError
     else case ddec (payload d) of
       None \<Rightarrow> Inl OtherError
     | Some (fp, n) \<Rightarrow> Inr \<lparr>sl_fingerprint = fp, sl_payload_len = n\<rparr>)"

definition from_block_location :: "desc_decoder \<Rightarrow> block_location \<Rightarrow> transport_error + shared_fs_location" where
  "from_block_location ddec loc = (case loc of Remote d \<Rightarrow> from_remote_desc ddec d | _ \<Rightarrow> Inl OtherError)"

definition shared_disk_location :: "disk_store \<Rightarrow> shared_fs_location \<Rightarrow> disk_block_location" where
  "shared_disk_location st l = \<lparr>dl_path = block_path_for st (sl_fingerprint l), dl_payload_len = sl_payload_len l,
     dl_fingerprint = sl_fingerprint l\<rparr>"

definition shared_put_block ::
    "header_encoder \<Rightarrow> fingerprint \<Rightarrow> u8 \<Rightarrow> u8 list \<Rightarrow> disk_state \<Rightarrow> (io_error + shared_fs_location) \<times> disk_state" where
  "shared_put_block enc fp tag bs s = (case put_block enc fp tag bs (fst s) (snd s) of
     (Inl e, s1) \<Rightarrow> (Inl e, s1)
   | (Inr loc, s1) \<Rightarrow> (Inr \<lparr>sl_fingerprint = dl_fingerprint loc, sl_payload_len = dl_payload_len loc\<rparr>, s1))"

definition shared_get_block :: "header_decoder \<Rightarrow> shared_fs_location \<Rightarrow> fingerprint option \<Rightarrow> disk_state \<Rightarrow> io_error + u8 list" where
  "shared_get_block dec l expected s = get_block dec (fst s) (shared_disk_location (fst s) l) expected (snd s)"

definition shared_delete_block :: "shared_fs_location \<Rightarrow> disk_state \<Rightarrow> (io_error + unit) \<times> disk_state" where
  "shared_delete_block l s = (case delete_block (fst s) (shared_disk_location (fst s) l) (snd s) of (r, fs) \<Rightarrow> (r, fst s, fs))"

definition shared_backend_store ::
    "header_encoder \<Rightarrow> desc_encoder \<Rightarrow> kv_backend_store \<Rightarrow> disk_state \<Rightarrow> disk_state submitted" where
  "shared_backend_store enc denc req s = (case kb_fingerprint (ks_block req) of
     None \<Rightarrow> (Inl OtherError, s)
   | Some fp \<Rightarrow> (case shared_put_block enc fp (ks_kv_format_tag req) (kp_bytes (ks_payload req)) s of
        (Inl e, s1) \<Rightarrow> (Inl (Transfer e), s1)
      | (Inr l, s1) \<Rightarrow> (case into_block_location denc l of
           Inl e \<Rightarrow> (Inl e, s1)
         | Inr loc \<Rightarrow> (Inr (OpReady (Inr (CStored (with_location loc (ks_handle req))))), s1))))"

text \<open>
  In a debug build the store asserts at its end, when the block is written, that the handle of the request
  gives the length of the payload: \<open>None\<close> is the panic.
\<close>

definition shared_backend_store_debug ::
    "header_encoder \<Rightarrow> desc_encoder \<Rightarrow> kv_backend_store \<Rightarrow> disk_state \<Rightarrow> disk_state submitted option" where
  "shared_backend_store_debug enc denc req s = (case shared_backend_store enc denc req s of
     (Inl e, s1) \<Rightarrow> Some (Inl e, s1)
   | (Inr op, s1) \<Rightarrow> if kh_byte_len (ks_handle req) = length (kp_bytes (ks_payload req)) then Some (Inr op, s1) else None)"

definition shared_backend_fetch ::
    "header_decoder \<Rightarrow> desc_decoder \<Rightarrow> kv_handle \<Rightarrow> disk_state \<Rightarrow> transport_error + backend_op_state" where
  "shared_backend_fetch dec ddec h s = (case from_block_location ddec (kh_location h) of
     Inl e \<Rightarrow> Inl e
   | Inr l \<Rightarrow> (case shared_get_block dec l (Some (sl_fingerprint l)) s of
        Inl e \<Rightarrow> Inl (Transfer e)
      | Inr bs \<Rightarrow> Inr (OpReady (Inr (CLoaded h
          (payload_with_reference bs (payload_ref_whole (kh_location h) (length bs))))))))"

definition shared_backend_delete :: "desc_decoder \<Rightarrow> kv_handle \<Rightarrow> disk_state \<Rightarrow> disk_state submitted" where
  "shared_backend_delete ddec h s = (case from_block_location ddec (kh_location h) of
     Inl e \<Rightarrow> (Inl e, s)
   | Inr l \<Rightarrow> (case shared_delete_block l s of
        (Inl e, s1) \<Rightarrow> (Inl (Transfer e), s1)
      | (Inr _, s1) \<Rightarrow> (Inr (OpReady (Inr (CDeleted h))), s1)))"

definition shared_backend_exists :: "desc_decoder \<Rightarrow> kv_handle \<Rightarrow> disk_state \<Rightarrow> transport_error + bool" where
  "shared_backend_exists ddec h s = (case from_block_location ddec (kh_location h) of
     Inl e \<Rightarrow> Inl e | Inr l \<Rightarrow> Inr (contains_block (fst s) (sl_fingerprint l) (snd s)))"

definition shared_op_poll :: "backend_op_state \<Rightarrow> (transport_error + kv_backend_completion) \<times> backend_op_state" where
  "shared_op_poll op = (case op of OpReady r \<Rightarrow> (r, OpExhausted) | OpExhausted \<Rightarrow> (Inl OtherError, OpExhausted))"

definition shared_op_abort :: "backend_op_state \<Rightarrow> backend_op_state" where
  "shared_op_abort op = OpReady (Inl Aborted)"

text \<open>\<open>ClusterSharedBackend::remote_location_for\<close> of the shared file system.\<close>

definition remote_location_for :: "desc_encoder \<Rightarrow> fingerprint \<Rightarrow> nat \<Rightarrow> transport_error + block_location" where
  "remote_location_for denc fp n = into_block_location denc \<lparr>sl_fingerprint = fp, sl_payload_len = n\<rparr>"

end
