(* ===== verification/Coord_Control.thy ===== *)
theory Coord_Control
  imports Rust_Bytes
begin

text \<open>
  The bookkeeping of the tier coordinator: tickets and queue statistics
  (\<open>kv_tier/coordinator/types.rs\<close>), the counters and ticket sets (\<open>kv_tier/coordinator/control.rs\<close>).
  The counters are 64-bit words, since \<open>fetch_add\<close> and \<open>fetch_sub\<close> wrap around. The methods of the
  control are given as functions and as sequences of atomic actions; submissions, cancellations and the
  worker interleave action by action. A poisoned mutex is recovered by the code and not modelled.
\<close>

datatype queue_kind = KPlan | KFetch | KStore

datatype queue_ticket = TPlan nat | TFetch nat | TStore nat

fun kind_of :: "queue_ticket \<Rightarrow> queue_kind" where
  "kind_of (TPlan _) = KPlan"
| "kind_of (TFetch _) = KFetch"
| "kind_of (TStore _) = KStore"

datatype queue_backpressure = BpNormal | BpElevated | BpSaturated

definition pressure_from_load :: "nat \<Rightarrow> nat \<Rightarrow> queue_backpressure" where
  "pressure_from_load active capacity = (if active \<ge> capacity then BpSaturated
     else if saturating_mul usize_max active 4 \<ge> saturating_mul usize_max capacity 3 then BpElevated else BpNormal)"

datatype queue_outcome = OCompleted | OFailed | OCancelled

datatype failure_class = FcCancelled | FcFailed

fun into_outcome :: "failure_class \<Rightarrow> queue_outcome" where
  "into_outcome FcCancelled = OCancelled"
| "into_outcome FcFailed = OFailed"

record queue_control_stats =
  qs_capacity :: nat
  qs_queued :: nat
  qs_in_flight :: nat
  qs_submitted :: nat
  qs_completed :: nat
  qs_failed :: nat
  qs_cancelled :: nat
  qs_rejected :: nat

definition qs_active :: "queue_control_stats \<Rightarrow> nat" where
  "qs_active s = saturating_add usize_max (qs_queued s) (qs_in_flight s)"

definition qs_backpressure :: "queue_control_stats \<Rightarrow> queue_backpressure" where
  "qs_backpressure s = pressure_from_load (qs_active s) (qs_capacity s)"

record coordinator_queue_stats =
  cs_capacity :: nat
  cs_total_queued :: nat
  cs_total_in_flight :: nat
  cs_plan :: queue_control_stats
  cs_fetch :: queue_control_stats
  cs_store :: queue_control_stats
  cs_fetch_waiters :: nat

definition cs_active :: "coordinator_queue_stats \<Rightarrow> nat" where
  "cs_active s = saturating_add usize_max (cs_total_queued s) (cs_total_in_flight s)"

definition with_fetch_waiters :: "nat \<Rightarrow> coordinator_queue_stats \<Rightarrow> coordinator_queue_stats" where
  "with_fetch_waiters n s = s\<lparr>cs_fetch_waiters := n\<rparr>"

definition fetch_queue_depth :: "coordinator_queue_stats \<Rightarrow> nat" where
  "fetch_queue_depth s = qs_active (cs_fetch s)"

definition store_queue_depth :: "coordinator_queue_stats \<Rightarrow> nat" where
  "store_queue_depth s = qs_active (cs_store s)"

definition fetch_backpressured :: "coordinator_queue_stats \<Rightarrow> bool" where
  "fetch_backpressured s \<longleftrightarrow> qs_backpressure (cs_fetch s) \<noteq> BpNormal"

definition store_backpressured :: "coordinator_queue_stats \<Rightarrow> bool" where
  "store_backpressured s \<longleftrightarrow> qs_backpressure (cs_store s) \<noteq> BpNormal"

definition cs_backpressure :: "coordinator_queue_stats \<Rightarrow> queue_backpressure" where
  "cs_backpressure s = pressure_from_load (cs_active s) (cs_capacity s)"

subsection \<open>Counters and ticket sets\<close>

type_synonym w64 = "64 word"

record queue_counters =
  qc_queued :: w64
  qc_in_flight :: w64
  qc_submitted :: w64
  qc_completed :: w64
  qc_failed :: w64
  qc_cancelled :: w64
  qc_rejected :: w64

definition counters_new :: queue_counters where
  "counters_new = \<lparr>qc_queued = 0, qc_in_flight = 0, qc_submitted = 0, qc_completed = 0, qc_failed = 0, qc_cancelled = 0,
     qc_rejected = 0\<rparr>"

definition counters_snapshot :: "nat \<Rightarrow> queue_counters \<Rightarrow> queue_control_stats" where
  "counters_snapshot capacity q = \<lparr>qs_capacity = capacity, qs_queued = unat (qc_queued q), qs_in_flight = unat (qc_in_flight q),
     qs_submitted = unat (qc_submitted q), qs_completed = unat (qc_completed q), qs_failed = unat (qc_failed q),
     qs_cancelled = unat (qc_cancelled q), qs_rejected = unat (qc_rejected q)\<rparr>"

record coordinator_control =
  cc_capacity :: nat
  cc_plan :: queue_counters
  cc_fetch :: queue_counters
  cc_store :: queue_counters
  cc_live :: "queue_ticket list"
  cc_cancelled :: "queue_ticket list"

definition control_new :: "nat \<Rightarrow> coordinator_control" where
  "control_new capacity = \<lparr>cc_capacity = max capacity 1, cc_plan = counters_new, cc_fetch = counters_new,
     cc_store = counters_new, cc_live = [], cc_cancelled = []\<rparr>"

fun cc_queue :: "queue_kind \<Rightarrow> coordinator_control \<Rightarrow> queue_counters" where
  "cc_queue KPlan c = cc_plan c"
| "cc_queue KFetch c = cc_fetch c"
| "cc_queue KStore c = cc_store c"

fun cc_modify :: "queue_kind \<Rightarrow> (queue_counters \<Rightarrow> queue_counters) \<Rightarrow> coordinator_control \<Rightarrow> coordinator_control" where
  "cc_modify KPlan f c = c\<lparr>cc_plan := f (cc_plan c)\<rparr>"
| "cc_modify KFetch f c = c\<lparr>cc_fetch := f (cc_fetch c)\<rparr>"
| "cc_modify KStore f c = c\<lparr>cc_store := f (cc_store c)\<rparr>"

definition on_submit :: "queue_ticket \<Rightarrow> coordinator_control \<Rightarrow> coordinator_control" where
  "on_submit t c = (let c1 = cc_modify (kind_of t) (\<lambda>q. q\<lparr>qc_submitted := qc_submitted q + 1, qc_queued := qc_queued q + 1\<rparr>) c
     in c1\<lparr>cc_live := List.insert t (cc_live c1)\<rparr>)"

definition on_reject :: "queue_kind \<Rightarrow> coordinator_control \<Rightarrow> coordinator_control" where
  "on_reject k c = cc_modify k (\<lambda>q. q\<lparr>qc_rejected := qc_rejected q + 1\<rparr>) c"

definition on_start :: "queue_ticket \<Rightarrow> coordinator_control \<Rightarrow> coordinator_control" where
  "on_start t c = cc_modify (kind_of t) (\<lambda>q. q\<lparr>qc_queued := qc_queued q - 1, qc_in_flight := qc_in_flight q + 1\<rparr>) c"

fun count_outcome :: "queue_outcome \<Rightarrow> queue_counters \<Rightarrow> queue_counters" where
  "count_outcome OCompleted q = q\<lparr>qc_completed := qc_completed q + 1\<rparr>"
| "count_outcome OFailed q = q\<lparr>qc_failed := qc_failed q + 1\<rparr>"
| "count_outcome OCancelled q = q\<lparr>qc_cancelled := qc_cancelled q + 1\<rparr>"

definition on_finish :: "queue_ticket \<Rightarrow> queue_outcome \<Rightarrow> coordinator_control \<Rightarrow> coordinator_control" where
  "on_finish t out c = (let c1 = cc_modify (kind_of t) (\<lambda>q. count_outcome out (q\<lparr>qc_in_flight := qc_in_flight q - 1\<rparr>)) c
     in c1\<lparr>cc_live := removeAll t (cc_live c1), cc_cancelled := removeAll t (cc_cancelled c1)\<rparr>)"

definition cancel :: "queue_ticket \<Rightarrow> coordinator_control \<Rightarrow> bool \<times> coordinator_control" where
  "cancel t c = (if t \<notin> set (cc_live c) then (False, c)
     else (t \<notin> set (cc_cancelled c), c\<lparr>cc_cancelled := List.insert t (cc_cancelled c)\<rparr>))"

definition is_cancelled :: "queue_ticket \<Rightarrow> coordinator_control \<Rightarrow> bool" where
  "is_cancelled t c \<longleftrightarrow> t \<in> set (cc_cancelled c)"

definition control_stats :: "coordinator_control \<Rightarrow> coordinator_queue_stats" where
  "control_stats c =
     (let plan = counters_snapshot (cc_capacity c) (cc_plan c);
          fetch = counters_snapshot (cc_capacity c) (cc_fetch c);
          store = counters_snapshot (cc_capacity c) (cc_store c)
      in \<lparr>cs_capacity = cc_capacity c,
          cs_total_queued = saturating_add usize_max (saturating_add usize_max (qs_queued plan) (qs_queued fetch)) (qs_queued store),
          cs_total_in_flight = saturating_add usize_max (saturating_add usize_max (qs_in_flight plan) (qs_in_flight fetch)) (qs_in_flight store),
          cs_plan = plan, cs_fetch = fetch, cs_store = store, cs_fetch_waiters = 0\<rparr>)"

definition queue_stats :: "queue_kind \<Rightarrow> coordinator_control \<Rightarrow> queue_control_stats" where
  "queue_stats k c = counters_snapshot (cc_capacity c) (cc_queue k c)"

subsection \<open>Atomic actions\<close>

text \<open>
  The methods of the control are not atomic: each is a sequence of atomic increments and decrements
  and of updates of a set under its mutex, and other threads act in between. \<open>exec_atomic\<close> is one such
  action; the lists below are the actions of a method in the order of its code, and the lemmas
  say that a method is the run of its actions.
\<close>

datatype atomic_op = IncSubmitted queue_kind | IncQueued queue_kind | DecQueued queue_kind | IncInFlight queue_kind
  | DecInFlight queue_kind | IncOutcome queue_kind queue_outcome | IncRejected queue_kind
  | AddLive queue_ticket | DelLive queue_ticket | DelCancelled queue_ticket

fun exec_atomic :: "atomic_op \<Rightarrow> coordinator_control \<Rightarrow> coordinator_control" where
  "exec_atomic (IncSubmitted k) c = cc_modify k (\<lambda>q. q\<lparr>qc_submitted := qc_submitted q + 1\<rparr>) c"
| "exec_atomic (IncQueued k) c = cc_modify k (\<lambda>q. q\<lparr>qc_queued := qc_queued q + 1\<rparr>) c"
| "exec_atomic (DecQueued k) c = cc_modify k (\<lambda>q. q\<lparr>qc_queued := qc_queued q - 1\<rparr>) c"
| "exec_atomic (IncInFlight k) c = cc_modify k (\<lambda>q. q\<lparr>qc_in_flight := qc_in_flight q + 1\<rparr>) c"
| "exec_atomic (DecInFlight k) c = cc_modify k (\<lambda>q. q\<lparr>qc_in_flight := qc_in_flight q - 1\<rparr>) c"
| "exec_atomic (IncOutcome k out) c = cc_modify k (count_outcome out) c"
| "exec_atomic (IncRejected k) c = cc_modify k (\<lambda>q. q\<lparr>qc_rejected := qc_rejected q + 1\<rparr>) c"
| "exec_atomic (AddLive t) c = c\<lparr>cc_live := List.insert t (cc_live c)\<rparr>"
| "exec_atomic (DelLive t) c = c\<lparr>cc_live := removeAll t (cc_live c)\<rparr>"
| "exec_atomic (DelCancelled t) c = c\<lparr>cc_cancelled := removeAll t (cc_cancelled c)\<rparr>"

definition submit_ops :: "queue_ticket \<Rightarrow> atomic_op list" where
  "submit_ops t = [IncSubmitted (kind_of t), IncQueued (kind_of t), AddLive t]"

definition reject_ops :: "queue_ticket \<Rightarrow> atomic_op list" where
  "reject_ops t = [IncRejected (kind_of t)]"

definition start_ops :: "queue_ticket \<Rightarrow> atomic_op list" where
  "start_ops t = [DecQueued (kind_of t), IncInFlight (kind_of t)]"

definition finish_ops :: "queue_ticket \<Rightarrow> queue_outcome \<Rightarrow> atomic_op list" where
  "finish_ops t out = [DecInFlight (kind_of t), IncOutcome (kind_of t) out, DelLive t, DelCancelled t]"

lemma control_methods_run:
  "fold exec_atomic (submit_ops t) c = on_submit t c" "fold exec_atomic (reject_ops t) c = on_reject (kind_of t) c"
  "fold exec_atomic (start_ops t) c = on_start t c" "fold exec_atomic (finish_ops t out) c = on_finish t out c"
  by (cases t; simp add: submit_ops_def reject_ops_def start_ops_def finish_ops_def on_submit_def on_reject_def
      on_start_def on_finish_def Let_def)+

subsection \<open>Submissions and the worker, interleaved\<close>

text \<open>
  A submission (\<open>submit_fetch\<close>, \<open>submit_store\<close>, \<open>submit_prefetch_plan\<close> and \<open>try_send_ticket\<close> of
  \<open>kv_tier/coordinator/builder.rs\<close>) takes a ticket, tries to send the command on the bounded channel,
  and then runs the actions of \<open>on_submit\<close> or of \<open>on_reject\<close>. Clients run on any number of threads:
  \<open>sy_minted\<close> are the tickets between the first and the second step, \<open>sy_clients\<close> the actions that each
  submitting thread has still to run. \<open>send\<close> puts a command on the channel and tells the control
  nothing; \<open>sy_raw\<close> remembers the tickets sent that way. The worker (\<open>run_once\<close> in the loop of \<open>spawn\<close>)
  takes a command off the channel, runs the actions of \<open>on_start\<close>, its handler, and the actions of
  \<open>on_finish\<close>; a shutdown, a handler that fails to send an event, and a channel without senders stop it.
  A command is a ticket or \<open>None\<close>, the shutdown; \<open>sy_channel\<close> are the commands sent and not taken.
  \<open>cancel\<close> releases the lock of the live set before it takes the one of the cancelled set:
  \<open>sy_cancelling\<close> are the tickets in between. Steps interleave in any way; effects of the memory model
  beyond interleaving are not represented.
\<close>

datatype worker_state = WIdle | WStarting queue_ticket "atomic_op list" | WFinishing queue_ticket "atomic_op list"
  | WStopped "queue_ticket option"

record coord_sys =
  sy_next :: w64
  sy_minted :: "queue_ticket list"
  sy_clients :: "atomic_op list list"
  sy_raw :: "queue_ticket list"
  sy_channel :: "queue_ticket option list"
  sy_worker :: worker_state
  sy_cancelling :: "queue_ticket list"
  sy_control :: coordinator_control

definition sys_new :: "nat \<Rightarrow> coord_sys" where
  "sys_new capacity = \<lparr>sy_next = 1, sy_minted = [], sy_clients = [], sy_raw = [], sy_channel = [], sy_worker = WIdle,
     sy_cancelling = [], sy_control = control_new capacity\<rparr>"

fun ticket_of :: "queue_kind \<Rightarrow> nat \<Rightarrow> queue_ticket" where
  "ticket_of KPlan n = TPlan n"
| "ticket_of KFetch n = TFetch n"
| "ticket_of KStore n = TStore n"

definition sys_connected :: "coord_sys \<Rightarrow> bool" where
  "sys_connected s \<longleftrightarrow> (case sy_worker s of WStopped _ \<Rightarrow> False | _ \<Rightarrow> True)"

definition sys_full :: "coord_sys \<Rightarrow> bool" where
  "sys_full s \<longleftrightarrow> cc_capacity (sy_control s) \<le> length (sy_channel s)"

definition sys_mint :: "queue_kind \<Rightarrow> coord_sys \<Rightarrow> coord_sys" where
  "sys_mint k s = s\<lparr>sy_next := sy_next s + 1, sy_minted := ticket_of k (unat (sy_next s)) # sy_minted s\<rparr>"

definition sys_try_send :: "queue_ticket \<Rightarrow> coord_sys \<Rightarrow> coord_sys" where
  "sys_try_send t s = (let s1 = s\<lparr>sy_minted := remove1 t (sy_minted s)\<rparr> in
     if \<not> sys_connected s then s1
     else if sys_full s then s1\<lparr>sy_clients := reject_ops t # sy_clients s\<rparr>
     else s1\<lparr>sy_channel := sy_channel s @ [Some t], sy_clients := submit_ops t # sy_clients s\<rparr>)"

definition sys_client_op :: "nat \<Rightarrow> coord_sys \<Rightarrow> coord_sys" where
  "sys_client_op i s = (case sy_clients s ! i of [] \<Rightarrow> s
     | op # ops \<Rightarrow> s\<lparr>sy_clients := (sy_clients s)[i := ops], sy_control := exec_atomic op (sy_control s)\<rparr>)"

text \<open>\<open>send\<close> waits for room, \<open>try_send_shutdown\<close> does not.\<close>

definition sys_send :: "queue_ticket option \<Rightarrow> coord_sys \<Rightarrow> coord_sys" where
  "sys_send cmd s = (if sys_full s \<or> \<not> sys_connected s then s
     else s\<lparr>sy_channel := sy_channel s @ [cmd],
       sy_raw := (case cmd of None \<Rightarrow> sy_raw s | Some t \<Rightarrow> t # sy_raw s)\<rparr>)"

definition sys_try_send_shutdown :: "coord_sys \<Rightarrow> coord_sys" where
  "sys_try_send_shutdown s = (if sys_full s \<or> \<not> sys_connected s then s else s\<lparr>sy_channel := sy_channel s @ [None]\<rparr>)"

definition sys_recv :: "coord_sys \<Rightarrow> coord_sys" where
  "sys_recv s = (case sy_channel s of
       [] \<Rightarrow> s\<lparr>sy_worker := WStopped None\<rparr>
     | None # cmds \<Rightarrow> s\<lparr>sy_channel := cmds, sy_worker := WStopped None\<rparr>
     | Some t # cmds \<Rightarrow> s\<lparr>sy_channel := cmds, sy_worker := WStarting t (start_ops t)\<rparr>)"

definition sys_worker_op :: "coord_sys \<Rightarrow> coord_sys" where
  "sys_worker_op s = (case sy_worker s of
       WStarting t (op # ops) \<Rightarrow> s\<lparr>sy_worker := WStarting t ops, sy_control := exec_atomic op (sy_control s)\<rparr>
     | WFinishing t (op # ops) \<Rightarrow> s\<lparr>sy_worker := WFinishing t ops, sy_control := exec_atomic op (sy_control s)\<rparr>
     | WFinishing t [] \<Rightarrow> s\<lparr>sy_worker := WIdle\<rparr>
     | _ \<Rightarrow> s)"

text \<open>The handler returns an outcome, or an error, which ends the thread before \<open>on_finish\<close>.\<close>

definition sys_handled :: "queue_outcome option \<Rightarrow> coord_sys \<Rightarrow> coord_sys" where
  "sys_handled result s = (case sy_worker s of
       WStarting t [] \<Rightarrow> s\<lparr>sy_worker := (case result of None \<Rightarrow> WStopped (Some t) | Some out \<Rightarrow> WFinishing t (finish_ops t out))\<rparr>
     | _ \<Rightarrow> s)"

definition sys_cancel_check :: "queue_ticket \<Rightarrow> coord_sys \<Rightarrow> coord_sys" where
  "sys_cancel_check t s = (if t \<notin> set (cc_live (sy_control s)) then s else s\<lparr>sy_cancelling := t # sy_cancelling s\<rparr>)"

definition sys_cancel_mark :: "queue_ticket \<Rightarrow> coord_sys \<Rightarrow> coord_sys" where
  "sys_cancel_mark t s = s\<lparr>sy_cancelling := remove1 t (sy_cancelling s),
     sy_control := (sy_control s)\<lparr>cc_cancelled := List.insert t (cc_cancelled (sy_control s))\<rparr>\<rparr>"

lemma cancel_steps:
  "t \<in> set (cc_live (sy_control s)) \<Longrightarrow> sy_control (sys_cancel_mark t (sys_cancel_check t s)) = snd (cancel t (sy_control s))
     \<and> is_cancelled t (sy_control (sys_cancel_mark t (sys_cancel_check t s)))"
  "t \<notin> set (cc_live (sy_control s)) \<Longrightarrow> sys_cancel_check t s = s \<and> cancel t (sy_control s) = (False, sy_control s)"
  by (auto simp: sys_cancel_mark_def sys_cancel_check_def cancel_def is_cancelled_def)

inductive coord_step :: "coord_sys \<Rightarrow> coord_sys \<Rightarrow> bool" where
  mint: "coord_step s (sys_mint k s)"
| try_send: "t \<in> set (sy_minted s) \<Longrightarrow> coord_step s (sys_try_send t s)"
| client_op: "i < length (sy_clients s) \<Longrightarrow> coord_step s (sys_client_op i s)"
| send: "coord_step s (sys_send cmd s)"
| try_send_shutdown: "coord_step s (sys_try_send_shutdown s)"
| recv: "sy_worker s = WIdle \<Longrightarrow> coord_step s (sys_recv s)"
| worker_op: "coord_step s (sys_worker_op s)"
| handled: "coord_step s (sys_handled result s)"
| cancel_check: "coord_step s (sys_cancel_check t s)"
| cancel_mark: "t \<in> set (sy_cancelling s) \<Longrightarrow> coord_step s (sys_cancel_mark t s)"

abbreviation coord_reachable :: "nat \<Rightarrow> coord_sys \<Rightarrow> bool" where
  "coord_reachable capacity \<equiv> coord_step\<^sup>*\<^sup>* (sys_new capacity)"

end
