(* ===== verification/Coordinator.thy ===== *)
theory Coordinator
  imports Kv_Backend Host_Arena Coord_Control
begin

text \<open>
  The worker of the tier coordinator (\<open>kv_tier/coordinator.rs\<close>, with the commands and events of
  \<open>kv_tier/coordinator/events.rs\<close>, the region guard of \<open>kv_tier/coordinator/builder.rs\<close> and the
  readmission plans of \<open>kv_tier/readmission.rs\<close>). It moves blocks between the host pool, the disk
  store and the shared file system. Pools are shared by identity, so a request names its pool by a
  number and the pools are a map from numbers.

  Two things the scheduler thread does while a handler runs are visible to it: cancelling the ticket
  and draining the event channel. A handler takes them from an environment: what the k-th look at
  the cancelled set finds, and whether the k-th event sent without blocking finds room. The theorems
  hold for every environment. A blocking send waits until there is room; it fails only when the
  receiver is gone. \<open>None\<close> is a panic.
\<close>

subsection \<open>Requests, commands, events\<close>

datatype store_target = ToDisk | ToRemote

record store_request =
  sr_block_id :: block_id
  sr_fingerprint :: fingerprint
  sr_kv_format_tag :: u8
  sr_host_pool :: nat
  sr_host_region :: region
  sr_target :: store_target

record prefetch_plan_request =
  pp_block_id :: block_id
  pp_source :: "block_location option"

datatype prefetch_action = ActReadyOnGpu | PromoteFromHost | FetchFromDisk | FetchFromRemote | Recompute

record prefetch_plan =
  pf_block_id :: block_id
  pf_action :: prefetch_action

record fetch_request =
  fr_block_id :: block_id
  fr_source :: block_location
  fr_byte_len :: nat
  fr_host_pool :: nat

record fetched_block =
  fb_block_id :: block_id
  fb_host_region :: region
  fb_byte_len :: nat
  fb_release_after_promote :: bool

datatype coordinator_command =
    CmdPlan nat "prefetch_plan_request list"
  | CmdStore nat "store_request list"
  | CmdFetch nat "fetch_request list"
  | CmdShutdown

datatype fail_reason = ByRequest | PoolFailed pool_error | IoFailed io_error | BackendFailed transport_error
  | NotConfigured | PoolExhausted | GpuSource | UnexpectedCompletion

datatype coordinator_event =
    StoreQueued nat nat
  | StoreCompleted nat "(block_id \<times> block_location) list"
  | StoreFailed nat block_id failure_class fail_reason
  | FetchQueued nat nat
  | FetchCompleted nat "fetched_block list"
  | FetchFailed nat block_id failure_class fail_reason
  | PlanQueued nat nat
  | PlanCompleted nat "prefetch_plan list"
  | PlanFailed nat block_id failure_class fail_reason

subsection \<open>The worker\<close>

record coordinator =
  co_disk_store :: "disk_store option"
  co_shared_backend :: "disk_store option"
  co_fs :: file_system
  co_pools :: "nat \<Rightarrow> host_pool"
  co_events :: "coordinator_event list"
  co_receiver :: bool

record environment =
  env_cancelled :: "nat \<Rightarrow> bool"
  env_room :: "nat \<Rightarrow> bool"

datatype coord_error = EventSendFailed

record codecs =
  cd_enc :: header_encoder
  cd_dec :: header_decoder
  cd_denc :: desc_encoder
  cd_ddec :: desc_decoder

definition emit_required :: "coordinator_event \<Rightarrow> coordinator \<Rightarrow> (coord_error + unit) \<times> coordinator" where
  "emit_required e c = (if co_receiver c then (Inr (), c\<lparr>co_events := co_events c @ [e]\<rparr>) else (Inl EventSendFailed, c))"

definition emit_observability :: "environment \<Rightarrow> nat \<Rightarrow> coordinator_event \<Rightarrow> coordinator \<Rightarrow> coordinator" where
  "emit_observability env k e c = (if co_receiver c \<and> env_room env k then c\<lparr>co_events := co_events c @ [e]\<rparr> else c)"

definition then_emit ::
    "coordinator_event \<Rightarrow> queue_outcome \<Rightarrow> coordinator \<Rightarrow> (coord_error + queue_outcome) \<times> coordinator" where
  "then_emit e out c = (case emit_required e c of (Inl err, c1) \<Rightarrow> (Inl err, c1) | (Inr _, c1) \<Rightarrow> (Inr out, c1))"

definition report_failure ::
    "environment \<Rightarrow> queue_ticket \<Rightarrow> block_id \<Rightarrow> failure_class \<Rightarrow> fail_reason \<Rightarrow> coordinator
       \<Rightarrow> (coord_error + queue_outcome) \<times> coordinator" where
  "report_failure env t b class reason c = (case t of
     TPlan n \<Rightarrow> (Inr (into_outcome class), emit_observability env 1 (PlanFailed n b class reason) c)
   | TStore n \<Rightarrow> then_emit (StoreFailed n b class reason) (into_outcome class) c
   | TFetch n \<Rightarrow> then_emit (FetchFailed n b class reason) (into_outcome class) c)"

definition plan_action :: "block_location option \<Rightarrow> prefetch_action" where
  "plan_action src = (case src of
     Some (Gpu _) \<Rightarrow> ActReadyOnGpu
   | Some (HostPinned _) \<Rightarrow> PromoteFromHost
   | Some (Disk _ _) \<Rightarrow> FetchFromDisk
   | Some (Remote _) \<Rightarrow> FetchFromRemote
   | None \<Rightarrow> Recompute)"

definition handle_plan ::
    "environment \<Rightarrow> nat \<Rightarrow> prefetch_plan_request list \<Rightarrow> coordinator \<Rightarrow> (coord_error + queue_outcome) \<times> coordinator" where
  "handle_plan env n blocks c =
     (let c1 = emit_observability env 0 (PlanQueued n (length blocks)) c in
      if env_cancelled env 0
      then report_failure env (TPlan n) (case blocks of [] \<Rightarrow> 0 | b # _ \<Rightarrow> pp_block_id b) FcCancelled ByRequest c1
      else (Inr OCompleted, emit_observability env 1 (PlanCompleted n
             (map (\<lambda>b. \<lparr>pf_block_id = pp_block_id b, pf_action = plan_action (pp_source b)\<rparr>) blocks)) c1))"

subsection \<open>Storing\<close>

type_synonym 'a block_result = "(block_id \<times> failure_class \<times> fail_reason) + 'a"

definition store_on_disk :: "codecs \<Rightarrow> store_request \<Rightarrow> u8 list \<Rightarrow> coordinator \<Rightarrow> (fail_reason + block_location) \<times> coordinator" where
  "store_on_disk cd r bs c = (case co_disk_store c of
     None \<Rightarrow> (Inl NotConfigured, c)
   | Some st \<Rightarrow> (case put_block_with_fsync (cd_enc cd) (sr_fingerprint r) (sr_kv_format_tag r) bs False st (co_fs c) of
        (Inl e, st1, fs1) \<Rightarrow> (Inl (IoFailed e), c\<lparr>co_disk_store := Some st1, co_fs := fs1\<rparr>)
      | (Inr loc, st1, fs1) \<Rightarrow>
          (Inr (Disk (dl_fingerprint loc) (dl_payload_len loc)), c\<lparr>co_disk_store := Some st1, co_fs := fs1\<rparr>)))"

definition store_on_shared :: "codecs \<Rightarrow> store_request \<Rightarrow> u8 list \<Rightarrow> coordinator \<Rightarrow> (fail_reason + block_location) \<times> coordinator" where
  "store_on_shared cd r bs c = (case co_shared_backend c of
     None \<Rightarrow> (Inl NotConfigured, c)
   | Some st \<Rightarrow> (case remote_location_for (cd_denc cd) (sr_fingerprint r) (length bs) of
       Inl e \<Rightarrow> (Inl (BackendFailed e), c)
     | Inr loc \<Rightarrow>
         (let handle = kv_handle_new None (sr_block_id r) loc 0 (length bs) in
          case shared_backend_exists (cd_ddec cd) handle (st, co_fs c) of
            Inl e \<Rightarrow> (Inl (BackendFailed e), c)
          | Inr True \<Rightarrow> (Inr loc, c)
          | Inr False \<Rightarrow>
              (case shared_backend_store (cd_enc cd) (cd_denc cd)
                 \<lparr>ks_handle = handle,
                  ks_block = with_fingerprint (sr_fingerprint r)
                    (kv_block_new (sr_block_id r) \<lparr>hr_start = 0, hr_end = 0\<rparr> \<lparr>hr_start = 0, hr_end = 0\<rparr> (length bs)),
                  ks_kv_format_tag = sr_kv_format_tag r, ks_payload = payload_from_vec bs\<rparr> (st, co_fs c) of
                 (Inl e, st1, fs1) \<Rightarrow> (Inl (BackendFailed e), c\<lparr>co_shared_backend := Some st1, co_fs := fs1\<rparr>)
               | (Inr op, st1, fs1) \<Rightarrow>
                   (let c1 = c\<lparr>co_shared_backend := Some st1, co_fs := fs1\<rparr> in
                    case fst (shared_op_poll op) of
                      Inl e \<Rightarrow> (Inl (BackendFailed e), c1)
                    | Inr (CStored h) \<Rightarrow> (Inr (kh_location h), c1)
                    | Inr _ \<Rightarrow> (Inl UnexpectedCompletion, c1))))))"

definition store_one :: "codecs \<Rightarrow> store_request \<Rightarrow> coordinator \<Rightarrow> (fail_reason + block_location) \<times> coordinator" where
  "store_one cd r c = (case read_region (sr_host_region r) (co_pools c (sr_host_pool r)) of
     Inl e \<Rightarrow> (Inl (PoolFailed e), c)
   | Inr bs \<Rightarrow> (case sr_target r of ToDisk \<Rightarrow> store_on_disk cd r bs c | ToRemote \<Rightarrow> store_on_shared cd r bs c))"

fun store_loop ::
    "codecs \<Rightarrow> environment \<Rightarrow> nat \<Rightarrow> store_request list \<Rightarrow> (block_id \<times> block_location) list \<Rightarrow> coordinator
       \<Rightarrow> (block_id \<times> block_location) list block_result \<times> coordinator" where
  "store_loop cd env k [] locs c = (Inr locs, c)"
| "store_loop cd env k (b # bs) locs c =
     (if env_cancelled env k then (Inl (sr_block_id b, FcCancelled, ByRequest), c)
      else case store_one cd b c of
        (Inl reason, c1) \<Rightarrow> (Inl (sr_block_id b, FcFailed, reason), c1)
      | (Inr loc, c1) \<Rightarrow> store_loop cd env (k + 1) bs (locs @ [(sr_block_id b, loc)]) c1)"

definition handle_store ::
    "codecs \<Rightarrow> environment \<Rightarrow> nat \<Rightarrow> store_request list \<Rightarrow> coordinator \<Rightarrow> (coord_error + queue_outcome) \<times> coordinator" where
  "handle_store cd env n blocks c = (case emit_required (StoreQueued n (length blocks)) c of
     (Inl e, c1) \<Rightarrow> (Inl e, c1)
   | (Inr _, c1) \<Rightarrow>
       if env_cancelled env 0
       then report_failure env (TStore n) (case blocks of [] \<Rightarrow> 0 | b # _ \<Rightarrow> sr_block_id b) FcCancelled ByRequest c1
       else (case store_loop cd env 1 blocks [] c1 of
          (Inl (b, class, reason), c2) \<Rightarrow> report_failure env (TStore n) b class reason c2
        | (Inr locs, c2) \<Rightarrow> then_emit (StoreCompleted n locs) OCompleted c2))"

subsection \<open>Fetching\<close>

definition fetch_disk_payload :: "codecs \<Rightarrow> fingerprint \<Rightarrow> nat \<Rightarrow> coordinator \<Rightarrow> fail_reason + u8 list" where
  "fetch_disk_payload cd fp n c = (case co_disk_store c of
     None \<Rightarrow> Inl NotConfigured
   | Some st \<Rightarrow> (case get_block (cd_dec cd) st \<lparr>dl_path = block_path_for st fp, dl_payload_len = n, dl_fingerprint = fp\<rparr>
         (Some fp) (co_fs c) of
        Inl e \<Rightarrow> Inl (IoFailed e) | Inr bs \<Rightarrow> Inr bs))"

definition fetch_remote_payload :: "codecs \<Rightarrow> fetch_request \<Rightarrow> coordinator \<Rightarrow> fail_reason + kv_payload" where
  "fetch_remote_payload cd r c = (case co_shared_backend c of
     None \<Rightarrow> Inl NotConfigured
   | Some st \<Rightarrow> (case shared_backend_fetch (cd_dec cd) (cd_ddec cd)
         (kv_handle_new None (fr_block_id r) (fr_source r) 0 (fr_byte_len r)) (st, co_fs c) of
        Inl e \<Rightarrow> Inl (BackendFailed e)
      | Inr op \<Rightarrow> (case fst (shared_op_poll op) of
           Inl e \<Rightarrow> Inl (BackendFailed e)
         | Inr (CLoaded _ pl) \<Rightarrow> Inr pl
         | Inr _ \<Rightarrow> Inl UnexpectedCompletion)))"

definition stage_into_host_pool :: "nat \<Rightarrow> u8 list \<Rightarrow> coordinator \<Rightarrow> ((fail_reason + region) \<times> coordinator) option" where
  "stage_into_host_pool pid bs c = (case pool_reserve (length bs) (co_pools c pid) of
     None \<Rightarrow> None
   | Some (Inl e, p) \<Rightarrow> Some (Inl (PoolFailed e), c\<lparr>co_pools := (co_pools c)(pid := p)\<rparr>)
   | Some (Inr None, p) \<Rightarrow> Some (Inl PoolExhausted, c\<lparr>co_pools := (co_pools c)(pid := p)\<rparr>)
   | Some (Inr (Some r), p) \<Rightarrow> (case write_region r bs p of
        (Inl _, _) \<Rightarrow> None
      | (Inr _, p1) \<Rightarrow> Some (Inr r, c\<lparr>co_pools := (co_pools c)(pid := p1)\<rparr>)))"

text \<open>\<open>AllocatedRegions::release_now\<close>: an error of a single release is only logged.\<close>

definition release_region :: "nat \<times> region \<Rightarrow> coordinator \<Rightarrow> coordinator" where
  "release_region pr c = c\<lparr>co_pools := (co_pools c)(fst pr := snd (pool_release (snd pr) (co_pools c (fst pr))))\<rparr>"

definition release_now :: "(nat \<times> region) list \<Rightarrow> coordinator \<Rightarrow> coordinator" where
  "release_now regions c = fold release_region regions c"

definition staged :: "fetch_request \<Rightarrow> u8 list \<Rightarrow> coordinator
    \<Rightarrow> ((fail_reason + fetched_block \<times> region option) \<times> coordinator) option" where
  "staged r bs c = (case stage_into_host_pool (fr_host_pool r) bs c of
     None \<Rightarrow> None
   | Some (Inl e, c1) \<Rightarrow> Some (Inl e, c1)
   | Some (Inr rg, c1) \<Rightarrow> Some (Inr (\<lparr>fb_block_id = fr_block_id r, fb_host_region = rg, fb_byte_len = length bs,
       fb_release_after_promote = True\<rparr>, Some rg), c1))"

definition fetch_one :: "codecs \<Rightarrow> fetch_request \<Rightarrow> coordinator
    \<Rightarrow> ((fail_reason + fetched_block \<times> region option) \<times> coordinator) option" where
  "fetch_one cd r c = (case fr_source r of
     HostPinned off \<Rightarrow> Some (Inr (\<lparr>fb_block_id = fr_block_id r, fb_host_region = \<lparr>r_offset = off, r_len = fr_byte_len r\<rparr>,
       fb_byte_len = fr_byte_len r, fb_release_after_promote = False\<rparr>, None), c)
   | Disk fp n \<Rightarrow> (case fetch_disk_payload cd fp n c of Inl e \<Rightarrow> Some (Inl e, c) | Inr bs \<Rightarrow> staged r bs c)
   | Remote d \<Rightarrow> (case fetch_remote_payload cd r c of Inl e \<Rightarrow> Some (Inl e, c) | Inr pl \<Rightarrow> staged r (kp_bytes pl) c)
   | Gpu sl \<Rightarrow> Some (Inl GpuSource, c))"

fun fetch_loop ::
    "codecs \<Rightarrow> environment \<Rightarrow> nat \<Rightarrow> fetch_request list \<Rightarrow> fetched_block list \<Rightarrow> (nat \<times> region) list \<Rightarrow> coordinator
       \<Rightarrow> (fetched_block list block_result \<times> coordinator) option" where
  "fetch_loop cd env k [] fetched regions c = Some (Inr fetched, c)"
| "fetch_loop cd env k (b # bs) fetched regions c =
     (if env_cancelled env k then Some (Inl (fr_block_id b, FcCancelled, ByRequest), release_now regions c)
      else case fetch_one cd b c of
        None \<Rightarrow> None
      | Some (Inl reason, c1) \<Rightarrow> Some (Inl (fr_block_id b, FcFailed, reason), release_now regions c1)
      | Some (Inr (fb, rg), c1) \<Rightarrow>
          fetch_loop cd env (k + 1) bs (fetched @ [fb])
            (case rg of None \<Rightarrow> regions | Some r \<Rightarrow> regions @ [(fr_host_pool b, r)]) c1)"

definition handle_fetch ::
    "codecs \<Rightarrow> environment \<Rightarrow> nat \<Rightarrow> fetch_request list \<Rightarrow> coordinator
       \<Rightarrow> ((coord_error + queue_outcome) \<times> coordinator) option" where
  "handle_fetch cd env n blocks c = (case emit_required (FetchQueued n (length blocks)) c of
     (Inl e, c1) \<Rightarrow> Some (Inl e, c1)
   | (Inr _, c1) \<Rightarrow>
       if env_cancelled env 0
       then Some (report_failure env (TFetch n) (case blocks of [] \<Rightarrow> 0 | b # _ \<Rightarrow> fr_block_id b) FcCancelled ByRequest c1)
       else (case fetch_loop cd env 1 blocks [] [] c1 of
          None \<Rightarrow> None
        | Some (Inl (b, class, reason), c2) \<Rightarrow> Some (report_failure env (TFetch n) b class reason c2)
        | Some (Inr fetched, c2) \<Rightarrow> Some (then_emit (FetchCompleted n fetched) OCompleted c2)))"

subsection \<open>One turn of the worker\<close>

text \<open>The command channel and its control; \<open>rt_senders\<close> says whether a handle is left.\<close>

record runtime =
  rt_coordinator :: coordinator
  rt_control :: coordinator_control
  rt_commands :: "coordinator_command list"
  rt_senders :: bool

definition settle ::
    "queue_ticket \<Rightarrow> ((coord_error + queue_outcome) \<times> coordinator) option \<Rightarrow> runtime \<Rightarrow> ((coord_error + bool) \<times> runtime) option" where
  "settle t res rt = (case res of
     None \<Rightarrow> None
   | Some (Inl e, c) \<Rightarrow> Some (Inl e, rt\<lparr>rt_coordinator := c\<rparr>)
   | Some (Inr out, c) \<Rightarrow> Some (Inr True, rt\<lparr>rt_coordinator := c, rt_control := on_finish t out (rt_control rt)\<rparr>))"

definition started :: "queue_ticket \<Rightarrow> coordinator_command list \<Rightarrow> runtime \<Rightarrow> runtime" where
  "started t cmds rt = rt\<lparr>rt_commands := cmds, rt_control := on_start t (rt_control rt)\<rparr>"

definition run_once :: "codecs \<Rightarrow> environment \<Rightarrow> runtime \<Rightarrow> ((coord_error + bool) \<times> runtime) option" where
  "run_once cd env rt = (case rt_commands rt of
     [] \<Rightarrow> Some (Inr (rt_senders rt), rt)
   | CmdPlan n blocks # cmds \<Rightarrow>
       settle (TPlan n) (Some (handle_plan env n blocks (rt_coordinator rt))) (started (TPlan n) cmds rt)
   | CmdStore n blocks # cmds \<Rightarrow>
       settle (TStore n) (Some (handle_store cd env n blocks (rt_coordinator rt))) (started (TStore n) cmds rt)
   | CmdFetch n blocks # cmds \<Rightarrow>
       settle (TFetch n) (handle_fetch cd env n blocks (rt_coordinator rt)) (started (TFetch n) cmds rt)
   | CmdShutdown # cmds \<Rightarrow> Some (Inr False, rt\<lparr>rt_commands := cmds\<rparr>))"

subsection \<open>Readmission plans\<close>

datatype readmission_source =
    FromHost region
  | FromDisk fingerprint nat
  | FromRemote remote_block_desc nat

record readmission_block =
  rb_block_id :: block_id
  rb_fingerprint :: fingerprint
  rb_source :: "readmission_source option"

record readmission_plan =
  rp_matched_len :: nat
  rp_blocks :: "readmission_block list"
  rp_state :: request_chunk_state

definition readmission_plan_new :: "nat \<Rightarrow> readmission_block list \<Rightarrow> readmission_plan" where
  "readmission_plan_new n bs = \<lparr>rp_matched_len = n, rp_blocks = bs, rp_state = ChunkPlanned\<rparr>"

definition source_fetch_request :: "block_id \<Rightarrow> nat \<Rightarrow> readmission_source \<Rightarrow> fetch_request option" where
  "source_fetch_request b pool src = (case src of
     FromHost r \<Rightarrow> Some \<lparr>fr_block_id = b, fr_source = HostPinned (r_offset r), fr_byte_len = r_len r, fr_host_pool = pool\<rparr>
   | FromDisk fp n \<Rightarrow> (if n > usize_max then None
       else Some \<lparr>fr_block_id = b, fr_source = Disk fp n, fr_byte_len = n, fr_host_pool = pool\<rparr>)
   | FromRemote d n \<Rightarrow> (if n > usize_max then None
       else Some \<lparr>fr_block_id = b, fr_source = Remote d, fr_byte_len = n, fr_host_pool = pool\<rparr>))"

definition plan_block_ids :: "readmission_plan \<Rightarrow> block_id list" where
  "plan_block_ids p = map rb_block_id (rp_blocks p)"

definition fetch_key :: "readmission_plan \<Rightarrow> fingerprint list option" where
  "fetch_key p = (let fps = map rb_fingerprint (filter (\<lambda>b. rb_source b \<noteq> None) (rp_blocks p))
     in if fps = [] then None else Some fps)"

definition fetch_requests :: "nat \<Rightarrow> readmission_plan \<Rightarrow> fetch_request list option" where
  "fetch_requests pool p =
     (let requests = List.map_filter (\<lambda>b. Option.bind (rb_source b) (source_fetch_request (rb_block_id b) pool)) (rp_blocks p)
      in if length requests = length (filter (\<lambda>b. rb_source b \<noteq> None) (rp_blocks p)) then Some requests else None)"

definition mark_fetching :: "readmission_plan \<Rightarrow> readmission_plan" where
  "mark_fetching p = p\<lparr>rp_state := ChunkFetching\<rparr>"

definition mark_ready :: "readmission_plan \<Rightarrow> readmission_plan" where
  "mark_ready p = p\<lparr>rp_state := ChunkReady\<rparr>"

definition mark_consumed :: "readmission_plan \<Rightarrow> readmission_plan" where
  "mark_consumed p = p\<lparr>rp_state := ChunkConsumed\<rparr>"

fun source_counts :: "readmission_block list \<Rightarrow> nat \<times> nat \<times> nat" where
  "source_counts [] = (0, 0, 0)"
| "source_counts (b # bs) = (case source_counts bs of (h, d, r) \<Rightarrow>
     (case rb_source b of
        Some (FromHost _) \<Rightarrow> (h + 1, d, r)
      | Some (FromDisk _ _) \<Rightarrow> (h, d + 1, r)
      | Some (FromRemote _ _) \<Rightarrow> (h, d, r + 1)
      | None \<Rightarrow> (h, d, r)))"

end
