(* ===== verification/Backend_Props.thy ===== *)
theory Backend_Props
  imports Kv_Backend Disk_Props
begin

text \<open>
  The contract of \<open>KVBackend\<close> as a locale: a map from fingerprints to payloads, and what storing,
  fetching, deleting and polling do with it. Both backends meet it for every header codec and every
  descriptor codec that meet theirs; what clients rely on is proved once from the contract.
\<close>

subsection \<open>The contract\<close>

locale kv_backend =
  fixes store :: "kv_backend_store \<Rightarrow> 's \<Rightarrow> 's submitted"
    and fetch :: "kv_handle \<Rightarrow> 's \<Rightarrow> transport_error + backend_op_state"
    and delete :: "kv_handle \<Rightarrow> 's \<Rightarrow> 's submitted"
    and has :: "kv_handle \<Rightarrow> 's \<Rightarrow> transport_error + bool"
    and poll :: "backend_op_state \<Rightarrow> (transport_error + kv_backend_completion) \<times> backend_op_state"
    and abort :: "backend_op_state \<Rightarrow> backend_op_state"
    and blocks :: "'s \<Rightarrow> fingerprint \<Rightarrow> u8 list option"
    and names :: "block_location \<Rightarrow> fingerprint option"
  assumes store_law: "kb_fingerprint (ks_block r) = Some fp \<Longrightarrow> length fp = 16 \<Longrightarrow> length (kp_bytes (ks_payload r)) \<le> u64_max \<Longrightarrow>
      \<exists>loc s'. store r s = (Inr (OpReady (Inr (CStored (with_location loc (ks_handle r))))), s') \<and> names loc = Some fp
        \<and> blocks s' = (blocks s)(fp \<mapsto> kp_bytes (ks_payload r))"
    and store_anonymous: "kb_fingerprint (ks_block r) = None \<Longrightarrow> \<exists>e. store r s = (Inl e, s)"
    and fetch_law: "names (kh_location h) = Some fp \<Longrightarrow> length fp = 16 \<Longrightarrow>
      fetch h s = Inr op \<longleftrightarrow> (\<exists>bs. blocks s fp = Some bs \<and>
        op = OpReady (Inr (CLoaded h (payload_with_reference bs (payload_ref_whole (kh_location h) (length bs))))))"
    and delete_law: "names (kh_location h) = Some fp \<Longrightarrow> length fp = 16 \<Longrightarrow>
      \<exists>s'. delete h s = (Inr (OpReady (Inr (CDeleted h))), s') \<and> blocks s' = (blocks s)(fp := None)"
    and has_law: "names (kh_location h) = Some fp \<Longrightarrow> length fp = 16 \<Longrightarrow> blocks s fp \<noteq> None \<Longrightarrow> has h s = Inr True"
    and foreign_law: "names (kh_location h) = None \<Longrightarrow>
      (\<exists>e. fetch h s = Inl e) \<and> (\<exists>e. delete h s = (Inl e, s)) \<and> (\<exists>e. has h s = Inl e)"
    and poll_ready: "poll (OpReady res) = (res, OpExhausted)"
    and poll_exhausted: "\<exists>e. poll OpExhausted = (Inl e, OpExhausted)"
    and abort_law: "abort op = OpReady (Inl Aborted)"
begin

lemma location_of_stored [simp]: "kh_location (with_location loc h) = loc"
  by (simp add: with_location_def)

text \<open>What one client sees: store, poll, fetch, poll, delete, poll, and then nothing is left.\<close>

lemma session:
  assumes "kb_fingerprint (ks_block r) = Some fp" "length fp = 16" "length (kp_bytes (ks_payload r)) \<le> u64_max"
  shows "\<exists>op h s1 fop pl dop s2. store r s = (Inr op, s1) \<and> fst (poll op) = Inr (CStored h)
    \<and> blocks s1 = (blocks s)(fp \<mapsto> kp_bytes (ks_payload r)) \<and> has h s1 = Inr True
    \<and> fetch h s1 = Inr fop \<and> fst (poll fop) = Inr (CLoaded h pl) \<and> kp_bytes pl = kp_bytes (ks_payload r)
    \<and> delete h s1 = (Inr dop, s2) \<and> fst (poll dop) = Inr (CDeleted h)
    \<and> blocks s2 = (blocks s)(fp := None) \<and> (\<exists>e. fetch h s2 = Inl e)"
proof -
  obtain loc s1 where st: "store r s = (Inr (OpReady (Inr (CStored (with_location loc (ks_handle r))))), s1)"
    "names loc = Some fp" "blocks s1 = (blocks s)(fp \<mapsto> kp_bytes (ks_payload r))"
    using store_law [OF assms] by blast
  define h where "h = with_location loc (ks_handle r)"
  have nm: "names (kh_location h) = Some fp" using st(2) by (simp add: h_def)
  obtain s2 where del: "delete h s1 = (Inr (OpReady (Inr (CDeleted h))), s2)" "blocks s2 = (blocks s1)(fp := None)"
    using delete_law [OF nm assms(2)] by blast
  have gone: "\<exists>e. fetch h s2 = Inl e"
    using fetch_law [OF nm assms(2), of s2] del(2) by (cases "fetch h s2") auto
  let ?bs = "kp_bytes (ks_payload r)"
  let ?pl = "payload_with_reference ?bs (payload_ref_whole (kh_location h) (length ?bs))"
  have f: "fetch h s1 = Inr (OpReady (Inr (CLoaded h ?pl)))" using fetch_law [OF nm assms(2)] st(3) by simp
  have hs: "has h s1 = Inr True" using has_law [OF nm assms(2)] st(3) by simp
  show ?thesis
    using st(1,3) f hs del gone
    by (intro exI [of _ "OpReady (Inr (CStored h))"] exI [of _ h] exI [of _ s1] exI [of _ "OpReady (Inr (CLoaded h ?pl))"]
        exI [of _ ?pl] exI [of _ "OpReady (Inr (CDeleted h))"] exI [of _ s2])
      (simp add: h_def poll_ready payload_with_reference_def)
qed

text \<open>Storing one block does not change what is fetched for another.\<close>

lemma fetch_frame:
  assumes "kb_fingerprint (ks_block r) = Some fp" "length fp = 16" "length (kp_bytes (ks_payload r)) \<le> u64_max"
    "names (kh_location h) = Some fq" "length fq = 16" "fq \<noteq> fp"
  shows "fetch h (snd (store r s)) = Inr op \<longleftrightarrow> fetch h s = Inr op"
  using store_law [OF assms(1-3), of s] fetch_law [OF assms(4,5)] assms(6) by auto

text \<open>A completion is delivered once, and an aborted operation delivers the abort.\<close>

lemma polled_once: "\<exists>e. fst (poll (snd (poll op))) = Inl e"
  using poll_ready poll_exhausted by (cases op) (metis fst_conv snd_conv)+

lemma aborted: "poll (abort op) = (Inl Aborted, OpExhausted)"
  by (simp add: abort_law poll_ready)

end

subsection \<open>The codecs\<close>

definition desc_codec_ok :: "desc_encoder \<Rightarrow> desc_decoder \<Rightarrow> bool" where
  "desc_codec_ok denc ddec \<longleftrightarrow> (\<forall>fp n. length fp = 16 \<and> n \<le> u64_max \<longrightarrow> (\<exists>bs. denc (fp, n) = Some bs \<and> ddec bs = Some (fp, n)))"

locale postcard =
  fixes enc :: header_encoder and dec :: header_decoder and denc :: desc_encoder and ddec :: desc_decoder
  assumes codec: "codec_ok enc dec" and desc_codec: "desc_codec_ok denc ddec"

subsection \<open>The disk backend meets the contract\<close>

definition disk_names :: "block_location \<Rightarrow> fingerprint option" where
  "disk_names loc = (case loc of Disk fp _ \<Rightarrow> Some fp | _ \<Rightarrow> None)"

definition disk_blocks :: "header_decoder \<Rightarrow> disk_state \<Rightarrow> fingerprint \<Rightarrow> u8 list option" where
  "disk_blocks dec s = block_map dec (fst s) (snd s)"

lemma put_block_blocks:
  assumes "codec_ok enc dec" "length fp = 16" "length bs \<le> u64_max"
  shows "\<exists>loc s'. put_block_with_fsync enc fp tag bs fsync (fst s) (snd s) = (Inr loc, s') \<and> dl_fingerprint loc = fp
    \<and> dl_payload_len loc = length bs \<and> disk_blocks dec s' = (disk_blocks dec s)(fp \<mapsto> bs) \<and> ds_root (fst s') = ds_root (fst s)"
proof -
  obtain hb st' fs0 where h: "dec (hb @ bs) = Some (header_new fp tag (length bs), bs)"
    and put: "put_block_with_fsync enc fp tag bs fsync (fst s) (snd s) =
        (Inr \<lparr>dl_path = block_path (ds_root (fst s)) fp, dl_payload_len = length bs, dl_fingerprint = fp\<rparr>,
         st', replace_via_tmp (block_path (ds_root (fst s)) fp) (hb @ bs) fs0)"
    and st': "ds_root st' = ds_root (fst s)" and fs0: "fs_files fs0 = fs_files (snd s)"
    using put_block_ok [OF assms] by blast
  have hdr: "header_decode dec (hb @ bs) = Inr (header_new fp tag (length bs), bs)"
    by (rule header_decode_new) (rule h)
  have "block_map dec (fst s) (replace_via_tmp (block_path (ds_root (fst s)) fp) (hb @ bs) fs0) =
      (block_map dec (fst s) (snd s))(fp \<mapsto> bs)"
    by (rule block_map_replace [OF assms(2) hdr _ fs0]) (simp add: header_new_def)
  then show ?thesis
    using put st' block_map_cong [OF refl st', where dec = dec] by (simp add: disk_blocks_def)
qed

lemma canonical_get:
  assumes "length fp = 16"
  shows "get_block dec (fst s) \<lparr>dl_path = block_path_for (fst s) fp, dl_payload_len = n, dl_fingerprint = fp\<rparr> (Some fp) (snd s) = Inr p
    \<longleftrightarrow> disk_blocks dec s fp = Some p"
  using assms by (simp add: get_block_map disk_blocks_def block_path_for_eq)

lemma canonical_delete:
  assumes "length fp = 16"
  shows "\<exists>fs'. delete_block (fst s) \<lparr>dl_path = block_path_for (fst s) fp, dl_payload_len = n, dl_fingerprint = fp\<rparr> (snd s) = (Inr (), fs')
    \<and> disk_blocks dec (fst s, fs') = (disk_blocks dec s)(fp := None)"
  using delete_block_map [of fp "\<lparr>dl_path = block_path_for (fst s) fp, dl_payload_len = n, dl_fingerprint = fp\<rparr>" "fst s" "snd s" dec] assms
  by (simp add: disk_blocks_def block_path_for_eq)

lemma contains_cached: "disk_blocks dec s fp \<noteq> None \<Longrightarrow> contains_block (fst s) fp (snd s)"
  by (auto simp: disk_blocks_def block_map_def contains_block_def block_path_for_eq split: if_splits option.splits)

lemma loaded_iff:
  assumes "\<And>p. g = Inr p \<longleftrightarrow> m = Some p"
  shows "(case g of Inl e \<Rightarrow> Inl (k e) | Inr bs \<Rightarrow> Inr (f bs)) = Inr op \<longleftrightarrow> (\<exists>bs. m = Some bs \<and> op = f bs)"
proof (cases g)
  case (Inl e)
  then show ?thesis using assms by (cases m) auto
next
  case (Inr bs)
  then have "m = Some bs" using assms [of bs] by simp
  then show ?thesis unfolding Inr by auto
qed

sublocale postcard \<subseteq> disk: kv_backend "disk_backend_store enc" "disk_backend_fetch dec" disk_backend_delete disk_backend_exists
    disk_op_poll disk_op_abort "disk_blocks dec" disk_names
proof unfold_locales
  fix r :: kv_backend_store and fp and s :: disk_state
  assume a: "kb_fingerprint (ks_block r) = Some fp" "length fp = 16" "length (kp_bytes (ks_payload r)) \<le> u64_max"
  let ?bs = "kp_bytes (ks_payload r)"
  obtain loc s' where p: "put_block_with_fsync enc fp (ks_kv_format_tag r) ?bs True (fst s) (snd s) = (Inr loc, s')"
    "disk_blocks dec s' = (disk_blocks dec s)(fp \<mapsto> ?bs)"
    using put_block_blocks [OF codec a(2,3)] by blast
  then show "\<exists>loc s'. disk_backend_store enc r s = (Inr (OpReady (Inr (CStored (with_location loc (ks_handle r))))), s')
      \<and> disk_names loc = Some fp \<and> disk_blocks dec s' = (disk_blocks dec s)(fp \<mapsto> ?bs)"
    using a(1) by (intro exI [of _ "Disk fp (length ?bs)"] exI [of _ s'])
      (cases s', simp add: disk_backend_store_def put_block_def disk_names_def)
next
  fix r :: kv_backend_store and s :: disk_state
  assume "kb_fingerprint (ks_block r) = None"
  then show "\<exists>e. disk_backend_store enc r s = (Inl e, s)" by (simp add: disk_backend_store_def)
next
  fix h :: kv_handle and fp and s :: disk_state and op
  assume a: "disk_names (kh_location h) = Some fp" "length fp = 16"
  then obtain n where l: "kh_location h = Disk fp n" by (auto simp: disk_names_def split: block_location.splits)
  show "disk_backend_fetch dec h s = Inr op \<longleftrightarrow> (\<exists>bs. disk_blocks dec s fp = Some bs \<and>
        op = OpReady (Inr (CLoaded h (payload_with_reference bs (payload_ref_whole (kh_location h) (length bs))))))"
    unfolding disk_backend_fetch_def location_from_handle_def l block_location.case sum.case disk_block_location.simps
    by (rule loaded_iff) (rule canonical_get [OF a(2)])
  show "\<exists>s'. disk_backend_delete h s = (Inr (OpReady (Inr (CDeleted h))), s') \<and> disk_blocks dec s' = (disk_blocks dec s)(fp := None)"
    using canonical_delete [OF a(2), of s n dec] by (auto simp: disk_backend_delete_def location_from_handle_def l)
  show "disk_backend_exists h s = Inr True" if "disk_blocks dec s fp \<noteq> None"
    using contains_cached [OF that] by (simp add: disk_backend_exists_def l)
next
  fix h :: kv_handle and s :: disk_state
  assume "disk_names (kh_location h) = None"
  then show "(\<exists>e. disk_backend_fetch dec h s = Inl e) \<and> (\<exists>e. disk_backend_delete h s = (Inl e, s)) \<and> (\<exists>e. disk_backend_exists h s = Inl e)"
    by (cases "kh_location h")
      (simp_all add: disk_backend_fetch_def disk_backend_delete_def disk_backend_exists_def location_from_handle_def disk_names_def)
qed (simp_all add: disk_op_poll_def disk_op_abort_def)

subsection \<open>The shared file system meets it too\<close>

definition remote_names :: "desc_decoder \<Rightarrow> block_location \<Rightarrow> fingerprint option" where
  "remote_names ddec loc = (case from_block_location ddec loc of Inl _ \<Rightarrow> None | Inr l \<Rightarrow> Some (sl_fingerprint l))"

lemma remote_location_ok:
  assumes "desc_codec_ok denc ddec" "length fp = 16" "n \<le> u64_max"
  shows "\<exists>loc. remote_location_for denc fp n = Inr loc \<and> from_block_location ddec loc = Inr \<lparr>sl_fingerprint = fp, sl_payload_len = n\<rparr>"
proof -
  obtain bs where "denc (fp, n) = Some bs" "ddec bs = Some (fp, n)" using assms unfolding desc_codec_ok_def by blast
  then show ?thesis
    by (simp add: remote_location_for_def into_block_location_def into_remote_desc_def from_block_location_def from_remote_desc_def)
qed

sublocale postcard \<subseteq> shared: kv_backend "shared_backend_store enc denc" "shared_backend_fetch dec ddec" "shared_backend_delete ddec"
    "shared_backend_exists ddec" shared_op_poll shared_op_abort "disk_blocks dec" "remote_names ddec"
proof unfold_locales
  fix r :: kv_backend_store and fp and s :: disk_state
  assume a: "kb_fingerprint (ks_block r) = Some fp" "length fp = 16" "length (kp_bytes (ks_payload r)) \<le> u64_max"
  let ?bs = "kp_bytes (ks_payload r)"
  obtain loc s' where p: "put_block_with_fsync enc fp (ks_kv_format_tag r) ?bs True (fst s) (snd s) = (Inr loc, s')"
    "dl_fingerprint loc = fp" "dl_payload_len loc = length ?bs" "disk_blocks dec s' = (disk_blocks dec s)(fp \<mapsto> ?bs)"
    using put_block_blocks [OF codec a(2,3)] by blast
  obtain rl where rl: "into_block_location denc \<lparr>sl_fingerprint = fp, sl_payload_len = length ?bs\<rparr> = Inr rl"
    "from_block_location ddec rl = Inr \<lparr>sl_fingerprint = fp, sl_payload_len = length ?bs\<rparr>"
    using remote_location_ok [OF desc_codec a(2,3)] by (auto simp: remote_location_for_def)
  show "\<exists>loc s'. shared_backend_store enc denc r s = (Inr (OpReady (Inr (CStored (with_location loc (ks_handle r))))), s')
      \<and> remote_names ddec loc = Some fp \<and> disk_blocks dec s' = (disk_blocks dec s)(fp \<mapsto> ?bs)"
    using a(1) p rl by (intro exI [of _ rl] exI [of _ s'])
      (simp add: shared_backend_store_def shared_put_block_def put_block_def remote_names_def)
next
  fix r :: kv_backend_store and s :: disk_state
  assume "kb_fingerprint (ks_block r) = None"
  then show "\<exists>e. shared_backend_store enc denc r s = (Inl e, s)" by (simp add: shared_backend_store_def)
next
  fix h :: kv_handle and fp and s :: disk_state and op
  assume a: "remote_names ddec (kh_location h) = Some fp" "length fp = 16"
  then obtain n where l: "from_block_location ddec (kh_location h) = Inr \<lparr>sl_fingerprint = fp, sl_payload_len = n\<rparr>"
    by (auto simp: remote_names_def split: sum.splits) (metis shared_fs_location.surjective old.unit.exhaust)
  show "shared_backend_fetch dec ddec h s = Inr op \<longleftrightarrow> (\<exists>bs. disk_blocks dec s fp = Some bs \<and>
        op = OpReady (Inr (CLoaded h (payload_with_reference bs (payload_ref_whole (kh_location h) (length bs))))))"
    unfolding shared_backend_fetch_def shared_get_block_def shared_disk_location_def l sum.case shared_fs_location.simps
    by (rule loaded_iff) (rule canonical_get [OF a(2)])
  show "\<exists>s'. shared_backend_delete ddec h s = (Inr (OpReady (Inr (CDeleted h))), s') \<and> disk_blocks dec s' = (disk_blocks dec s)(fp := None)"
    using canonical_delete [OF a(2), of s n dec]
    by (auto simp: shared_backend_delete_def shared_delete_block_def shared_disk_location_def l)
  show "shared_backend_exists ddec h s = Inr True" if "disk_blocks dec s fp \<noteq> None"
    using contains_cached [OF that] by (simp add: shared_backend_exists_def l)
next
  fix h :: kv_handle and s :: disk_state
  assume "remote_names ddec (kh_location h) = None"
  then show "(\<exists>e. shared_backend_fetch dec ddec h s = Inl e) \<and> (\<exists>e. shared_backend_delete ddec h s = (Inl e, s))
      \<and> (\<exists>e. shared_backend_exists ddec h s = Inl e)"
    by (auto simp: remote_names_def shared_backend_fetch_def shared_backend_delete_def shared_backend_exists_def split: sum.splits)
qed (simp_all add: shared_op_poll_def shared_op_abort_def)

context postcard
begin

lemma shared_poll_session:
  assumes "kb_fingerprint (ks_block r) = Some fp" "length fp = 16" "length (kp_bytes (ks_payload r)) \<le> u64_max"
  shows "\<exists>op h s1 fop pl dop s2. shared_backend_store enc denc r s = (Inr op, s1) \<and> fst (shared_op_poll op) = Inr (CStored h)
    \<and> disk_blocks dec s1 = (disk_blocks dec s)(fp \<mapsto> kp_bytes (ks_payload r)) \<and> shared_backend_exists ddec h s1 = Inr True
    \<and> shared_backend_fetch dec ddec h s1 = Inr fop \<and> fst (shared_op_poll fop) = Inr (CLoaded h pl)
    \<and> kp_bytes pl = kp_bytes (ks_payload r)
    \<and> shared_backend_delete ddec h s1 = (Inr dop, s2) \<and> fst (shared_op_poll dop) = Inr (CDeleted h)
    \<and> disk_blocks dec s2 = (disk_blocks dec s)(fp := None) \<and> (\<exists>e. shared_backend_fetch dec ddec h s2 = Inl e)"
  by (rule shared.session [OF assms])

lemma disk_fetch_stored:
  assumes "kb_fingerprint (ks_block r) = Some fp" "length fp = 16" "length (kp_bytes (ks_payload r)) \<le> u64_max"
    "disk_names (kh_location h) = Some fq" "length fq = 16" "fq \<noteq> fp"
  shows "disk_backend_fetch dec h (snd (disk_backend_store enc r s)) = Inr op \<longleftrightarrow> disk_backend_fetch dec h s = Inr op"
  by (rule disk.fetch_frame [OF assms])

end

text \<open>A fixed-width descriptor codec; with the header codec of \<open>Disk_Props\<close> it meets the assumptions.\<close>

definition demo_denc :: desc_encoder where
  "demo_denc d = (if length (fst d) = 16 \<and> snd d \<le> u64_max then Some (fst d @ to_le_bytes 8 (snd d)) else None)"

definition demo_ddec :: desc_decoder where
  "demo_ddec bs = (if length bs = 24 then Some (take 16 bs, from_le_bytes (drop 16 bs)) else None)"

lemma demo_desc_codec_ok: "desc_codec_ok demo_denc demo_ddec"
  by (auto simp: desc_codec_ok_def demo_denc_def demo_ddec_def u64_max_def)

interpretation demo: postcard demo_enc demo_dec demo_denc demo_ddec
  by unfold_locales (rule demo_codec_ok, rule demo_desc_codec_ok)

lemma postcardI: "codec_ok enc dec \<Longrightarrow> desc_codec_ok denc ddec \<Longrightarrow> postcard enc dec denc ddec"
  by unfold_locales

subsection \<open>Properties\<close>

lemma shared_deleted_gone:
  assumes "shared_backend_delete ddec h s = (Inr op, s')"
  shows "shared_backend_exists ddec h s' = Inr False"
proof -
  obtain l where l: "from_block_location ddec (kh_location h) = Inr l"
    using assms by (cases "from_block_location ddec (kh_location h)") (simp_all add: shared_backend_delete_def)
  have "block_path root fp \<noteq> []" for root fp by (simp add: block_path_def)
  then have "\<not> contains_block (fst s') (sl_fingerprint l) (snd s')" using assms
    by (auto simp: shared_backend_delete_def l shared_delete_block_def shared_disk_location_def delete_block_def remove_block_def
        remove_file_def contains_block_def block_path_for_eq split: option.splits sum.splits prod.splits if_splits)
  then show ?thesis by (simp add: shared_backend_exists_def l)
qed

text \<open>
  (C34) A session with the shared file system: storing a block that has a fingerprint succeeds and,
  polled, names a handle; a debug build returns the same result where the request's handle gives the length
  of the payload, and panics otherwise. The handle then exists and fetches exactly the bytes stored;
  deleting it succeeds, removes this block from the map and nothing else, and then the handle does not exist and
  its fetch fails. (That \<open>exists\<close> in general only says that the file is there is
  \<open>corrupt_block_exists\<close> below.)
\<close>

theorem shared_fs_session:
  assumes "codec_ok enc dec" "desc_codec_ok denc ddec"
    and "kb_fingerprint (ks_block r) = Some fp" "length fp = 16" "length (kp_bytes (ks_payload r)) \<le> u64_max"
  shows "\<exists>op h s1 fop pl dop s2. shared_backend_store enc denc r s = (Inr op, s1) \<and> fst (shared_op_poll op) = Inr (CStored h)
    \<and> shared_backend_store_debug enc denc r s =
        (if kh_byte_len (ks_handle r) = length (kp_bytes (ks_payload r)) then Some (Inr op, s1) else None)
    \<and> disk_blocks dec s1 = (disk_blocks dec s)(fp \<mapsto> kp_bytes (ks_payload r)) \<and> shared_backend_exists ddec h s1 = Inr True
    \<and> shared_backend_fetch dec ddec h s1 = Inr fop \<and> fst (shared_op_poll fop) = Inr (CLoaded h pl)
    \<and> kp_bytes pl = kp_bytes (ks_payload r)
    \<and> shared_backend_delete ddec h s1 = (Inr dop, s2) \<and> fst (shared_op_poll dop) = Inr (CDeleted h)
    \<and> disk_blocks dec s2 = (disk_blocks dec s)(fp := None) \<and> shared_backend_exists ddec h s2 = Inr False
    \<and> (\<exists>e. shared_backend_fetch dec ddec h s2 = Inl e)"
proof -
  from postcard.shared_poll_session [OF postcardI [OF assms(1,2)] assms(3-5), of s]
  obtain op h s1 fop pl dop s2 where st: "shared_backend_store enc denc r s = (Inr op, s1)"
    and de: "shared_backend_delete ddec h s1 = (Inr dop, s2)"
    and rest: "fst (shared_op_poll op) = Inr (CStored h)" "disk_blocks dec s1 = (disk_blocks dec s)(fp \<mapsto> kp_bytes (ks_payload r))"
      "shared_backend_exists ddec h s1 = Inr True" "shared_backend_fetch dec ddec h s1 = Inr fop"
      "fst (shared_op_poll fop) = Inr (CLoaded h pl)" "kp_bytes pl = kp_bytes (ks_payload r)"
      "fst (shared_op_poll dop) = Inr (CDeleted h)" "disk_blocks dec s2 = (disk_blocks dec s)(fp := None)"
      "\<exists>e. shared_backend_fetch dec ddec h s2 = Inl e"
    by blast
  have "shared_backend_store_debug enc denc r s =
      (if kh_byte_len (ks_handle r) = length (kp_bytes (ks_payload r)) then Some (Inr op, s1) else None)"
    by (simp add: shared_backend_store_debug_def st)
  then show ?thesis using st de rest shared_deleted_gone [OF de] by blast
qed

theorem shared_fs_session_witness:
  "\<exists>op h s1 fop pl dop s2. shared_backend_store demo_enc demo_denc
      \<lparr>ks_handle = kv_handle_new (Some 3) 17 (HostPinned 0) 1 2, ks_block = with_fingerprint demo_fp (kv_block_new 17 \<lparr>hr_start = 0, hr_end = 2\<rparr> \<lparr>hr_start = 0, hr_end = 16\<rparr> 2),
       ks_kv_format_tag = 5, ks_payload = payload_from_vec [7, 9]\<rparr> (demo_store, demo_fs) = (Inr op, s1) \<and> fst (shared_op_poll op) = Inr (CStored h)
    \<and> disk_blocks demo_dec s1 = (disk_blocks demo_dec (demo_store, demo_fs))(demo_fp \<mapsto> [7, 9]) \<and> shared_backend_exists demo_ddec h s1 = Inr True
    \<and> shared_backend_fetch demo_dec demo_ddec h s1 = Inr fop \<and> fst (shared_op_poll fop) = Inr (CLoaded h pl) \<and> kp_bytes pl = [7, 9]
    \<and> shared_backend_delete demo_ddec h s1 = (Inr dop, s2) \<and> fst (shared_op_poll dop) = Inr (CDeleted h)
    \<and> disk_blocks demo_dec s2 = (disk_blocks demo_dec (demo_store, demo_fs))(demo_fp := None)
    \<and> shared_backend_exists demo_ddec h s2 = Inr False \<and> (\<exists>e. shared_backend_fetch demo_dec demo_ddec h s2 = Inl e)"
proof -
  let ?r = "\<lparr>ks_handle = kv_handle_new (Some 3) 17 (HostPinned 0) 1 2, ks_block = with_fingerprint demo_fp (kv_block_new 17 \<lparr>hr_start = 0, hr_end = 2\<rparr> \<lparr>hr_start = 0, hr_end = 16\<rparr> 2),
       ks_kv_format_tag = 5, ks_payload = payload_from_vec [7, 9]\<rparr>"
  have pre: "kb_fingerprint (ks_block ?r) = Some demo_fp" "length demo_fp = 16" "length (kp_bytes (ks_payload ?r)) \<le> u64_max"
    by (simp_all add: with_fingerprint_def payload_from_vec_def demo_fp_def u64_max_def)
  have pay: "kp_bytes (ks_payload ?r) = [7, 9]" by (simp add: payload_from_vec_def)
  show ?thesis using shared_fs_session [OF demo_codec_ok demo_desc_codec_ok pre, of "(demo_store, demo_fs)"] unfolding pay by blast
qed

text \<open>
  The location's payload length is not validated on load: a disk location that claims any other
  length reads the same bytes.
\<close>

theorem payload_len_not_validated:
  "get_block dec st (loc\<lparr>dl_payload_len := n\<rparr>) expected fs = get_block dec st loc expected fs"
proof -
  have "dl_path (loc\<lparr>dl_payload_len := n\<rparr>) = dl_path loc" "dl_fingerprint (loc\<lparr>dl_payload_len := n\<rparr>) = dl_fingerprint loc" by simp_all
  then show ?thesis unfolding get_block_def by (simp only:)
qed

text \<open>
  Existence on the shared file system only means that the file is there: for a file whose
  contents do not decode, \<open>exists\<close> says yes and every fetch of the handle fails.
\<close>

theorem corrupt_block_exists:
  assumes "from_block_location ddec (kh_location h) = Inr l"
    and "map_of (fs_files (snd s)) (block_path_for (fst s) (sl_fingerprint l)) = Some bs" and "dec bs = None"
  shows "shared_backend_exists ddec h s = Inr True \<and> shared_backend_fetch dec ddec h s = Inl (Transfer InvalidData)"
proof -
  have "bs \<noteq> x" if "header_decode dec x = Inr y" for x y
    using assms(3) that by (auto simp: header_decode_def decode_prefix_def)
  then show ?thesis using assms
    by (simp add: shared_backend_exists_def shared_backend_fetch_def shared_get_block_def shared_disk_location_def get_block_def
        contains_block_def read_block_def read_file_def block_path_for_eq header_decode_def decode_prefix_def)
qed

end
