(* ===== verification/Coord_Props.thy ===== *)
theory Coord_Props
  imports Coord_Control "HOL-Library.Sublist"
begin

text \<open>
  What the counters of the coordinator are worth over every interleaving of the atomic actions of
  submissions, cancellations and the worker, and what they are not.
\<close>

subsection \<open>What an action adds to a counter\<close>

definition cnt :: "queue_kind \<Rightarrow> queue_ticket list \<Rightarrow> nat" where
  "cnt k ts = length (filter (\<lambda>t. kind_of t = k) ts)"

lemma cnt_simps [simp]:
  "cnt k [] = 0" "cnt k (t # ts) = (if kind_of t = k then 1 else 0) + cnt k ts"
  "cnt k (xs @ ys) = cnt k xs + cnt k ys"
  by (simp_all add: cnt_def)



fun worker_ops :: "worker_state \<Rightarrow> atomic_op list" where
  "worker_ops (WStarting t ops) = ops"
| "worker_ops (WFinishing t ops) = ops"
| "worker_ops _ = []"

text \<open>The actions that submitting threads and the worker have begun a method with and not run yet.\<close>

definition pending_ops :: "coord_sys \<Rightarrow> atomic_op list" where
  "pending_ops s = concat (sy_clients s) @ worker_ops (sy_worker s)"








definition finished :: "queue_counters \<Rightarrow> w64" where
  "finished q = qc_completed q + qc_failed q + qc_cancelled q"

lemma cc_queue_modify [simp]: "cc_queue k (cc_modify j f c) = (if k = j then f (cc_queue k c) else cc_queue k c)"
  by (cases k; cases j) simp_all

lemma cc_modify_capacity [simp]: "cc_capacity (cc_modify j f c) = cc_capacity c"
  by (cases j; simp)

lemma cc_queue_sets [simp]:
  "cc_queue k (c\<lparr>cc_live := l\<rparr>) = cc_queue k c" "cc_queue k (c\<lparr>cc_cancelled := x\<rparr>) = cc_queue k c"
  by (cases k; simp)+

lemma count_outcome_simps [simp]:
  "qc_queued (count_outcome out q) = qc_queued q" "qc_in_flight (count_outcome out q) = qc_in_flight q"
  "qc_submitted (count_outcome out q) = qc_submitted q" "finished (count_outcome out q) = finished q + 1"
  by (cases out; simp add: finished_def)+

lemma finished_update [simp]:
  "finished (q\<lparr>qc_queued := x\<rparr>) = finished q" "finished (q\<lparr>qc_in_flight := x\<rparr>) = finished q"
  "finished (q\<lparr>qc_submitted := x\<rparr>) = finished q" "finished (q\<lparr>qc_rejected := x\<rparr>) = finished q"
  by (simp_all add: finished_def)









subsection \<open>The invariant of the counters\<close>





subsection \<open>Channel and worker\<close>













subsection \<open>Properties\<close>


text \<open>Runs of the interleaving, one step at a time, for the examples.\<close>

definition race_start :: coord_sys where
  "race_start = sys_recv (sys_try_send (TFetch 1) (sys_mint KFetch (sys_new 16)))"

text \<open>The worker has run both actions of \<open>on_start\<close>, its handler and all of \<open>on_finish\<close>; the client none of \<open>on_submit\<close>.\<close>

definition race_mid :: coord_sys where
  "race_mid = (sys_worker_op ^^ 5) (sys_handled (Some OCompleted) (sys_worker_op (sys_worker_op race_start)))"

definition race_end :: coord_sys where
  "race_end = (sys_client_op 0 ^^ 3) race_mid"

lemmas race_defs = race_start_def sys_new_def sys_mint_def sys_try_send_def control_new_def sys_recv_def sys_handled_def
  sys_worker_op_def sys_client_op_def sys_connected_def sys_full_def counters_new_def submit_ops_def start_ops_def finish_ops_def Let_def

lemma race_start_state:
  "sy_worker race_start = WStarting (TFetch 1) (start_ops (TFetch 1))" "sy_clients race_start = [submit_ops (TFetch 1)]"
  "sy_channel race_start = []"
  by (simp_all add: race_defs)

lemma race_start_reachable: "coord_reachable 16 race_start"
proof -
  have "coord_step (sys_new 16) (sys_mint KFetch (sys_new 16))" by (rule mint)
  moreover have "coord_step (sys_mint KFetch (sys_new 16)) (sys_try_send (TFetch 1) (sys_mint KFetch (sys_new 16)))"
    by (rule try_send) (simp add: sys_new_def sys_mint_def)
  moreover have "coord_step (sys_try_send (TFetch 1) (sys_mint KFetch (sys_new 16))) race_start"
    unfolding race_start_def by (rule recv) (simp add: race_defs)
  ultimately show ?thesis by (meson rtranclp.rtrancl_refl rtranclp.rtrancl_into_rtrancl)
qed

lemma worker_ops_reachable: "coord_step\<^sup>*\<^sup>* s ((sys_worker_op ^^ n) s)"
  by (induction n) (auto intro: rtranclp.rtrancl_into_rtrancl worker_op)

lemma race_mid_reachable: "coord_reachable 16 race_mid"
proof -
  have "coord_reachable 16 (sys_worker_op (sys_worker_op race_start))"
    using race_start_reachable by (meson rtranclp.rtrancl_into_rtrancl worker_op)
  then have "coord_reachable 16 (sys_handled (Some OCompleted) (sys_worker_op (sys_worker_op race_start)))"
    by (rule rtranclp.rtrancl_into_rtrancl) (rule handled)
  then show ?thesis unfolding race_mid_def by (rule rtranclp_trans) (rule worker_ops_reachable)
qed

lemma client_ops_reachable: "sy_clients s \<noteq> [] \<Longrightarrow> coord_step\<^sup>*\<^sup>* s ((sys_client_op 0 ^^ n) s)"
proof (induction n)
  case (Suc n)
  have "length (sy_clients ((sys_client_op 0 ^^ m) s)) = length (sy_clients s)" for m
    by (induction m) (simp_all add: sys_client_op_def split: list.split)
  then have "0 < length (sy_clients ((sys_client_op 0 ^^ n) s))" using Suc.prems by simp
  then show ?case using Suc by (auto intro: rtranclp.rtrancl_into_rtrancl client_op)
qed simp

text \<open>
  A submission that tells the control only after it has sent the command can be overtaken by
  the worker. In the state after that the channel is empty and the worker idle, yet the queued counter
  has wrapped to \<open>2 ^ 64 - 1\<close> and the queue reports saturation; once the submission catches up, everything
  is at rest and its ticket is registered as live although the task is over.
\<close>

theorem late_submit_leaks_ticket:
  "coord_reachable 16 race_mid \<and> coord_step\<^sup>*\<^sup>* race_mid race_end
    \<and> sy_channel race_mid = [] \<and> sy_worker race_mid = WIdle
    \<and> qs_queued (queue_stats KFetch (sy_control race_mid)) = 2 ^ 64 - 1
    \<and> cs_backpressure (control_stats (sy_control race_mid)) = BpSaturated
    \<and> sy_channel race_end = [] \<and> sy_worker race_end = WIdle \<and> sy_minted race_end = [] \<and> pending_ops race_end = []
    \<and> cc_live (sy_control race_end) = [TFetch 1]"
proof -
  have mid: "sy_channel race_mid = []" "sy_worker race_mid = WIdle" "qc_queued (cc_fetch (sy_control race_mid)) = - 1"
    "qc_queued (cc_plan (sy_control race_mid)) = 0" "qc_queued (cc_store (sy_control race_mid)) = 0"
    "sy_clients race_mid = [submit_ops (TFetch 1)]" "cc_capacity (sy_control race_mid) = 16"
    by (simp_all add: race_mid_def race_defs eval_nat_numeral)
  have fin: "sy_channel race_end = []" "sy_worker race_end = WIdle" "sy_minted race_end = []" "sy_clients race_end = [[]]"
    "cc_live (sy_control race_end) = [TFetch 1]"
    by (simp_all add: race_end_def race_mid_def race_defs eval_nat_numeral)
  have neg: "unat (- 1 :: 64 word) = 2 ^ 64 - 1" by (simp add: unsigned_minus_1_eq_mask mask_eq_exp_minus_1)
  have "qs_queued (queue_stats KFetch (sy_control race_mid)) = 2 ^ 64 - 1" "cs_backpressure (control_stats (sy_control race_mid)) = BpSaturated"
    by (simp_all add: mid queue_stats_def control_stats_def counters_snapshot_def cs_backpressure_def cs_active_def pressure_from_load_def
        saturating_add_def usize_max_def neg Let_def)
  moreover have "coord_step\<^sup>*\<^sup>* race_mid race_end" unfolding race_end_def by (rule client_ops_reachable) (simp add: mid)
  ultimately show ?thesis using race_mid_reachable mid fin by (simp add: pending_ops_def)
qed


end
