(* ===== verification/Coordinator_Props.thy ===== *)
theory Coordinator_Props
  imports Coordinator Host_Props Backend_Props Coord_Props
begin

text \<open>
  What the worker of the coordinator promises the scheduler: every command ends with one event, a
  fetch delivers the bytes of its sources or releases everything it took, and what a store wrote is
  what a later fetch brings back.
\<close>

subsection \<open>Staging into the host pool\<close>

lemma read_after_reserve:
  assumes "pool_inv p" "pool_inv p'" "hp_bytes p' = hp_bytes p"
    "q \<in> set (hp_live_regions p)" "q \<in> set (hp_live_regions p')"
  shows "read_region q p' = read_region q p"
  using validate_live(2) [OF assms(1,4)] validate_live(2) [OF assms(2,5)] assms(3) by (simp add: read_region_def)

lemma write_region_live:
  assumes "pool_inv p" "r \<in> set (hp_live_regions p)" "length bs = r_len r"
  shows "\<exists>p'. write_region r bs p = (Inr (), p') \<and> pool_inv p' \<and> hp_live_regions p' = hp_live_regions p
    \<and> read_region r p' = Inr bs \<and> (\<forall>q\<in>set (hp_live_regions p). q \<noteq> r \<longrightarrow> read_region q p' = read_region q p)"
proof -
  obtain p' where w: "write_region r bs p = (Inr (), p')"
    using validate_live(2) [OF assms(1,2)] assms(3) by (simp add: write_region_def)
  have "hp_live_regions p' = hp_live_regions p"
    using w validate_live(2) [OF assms(1,2)] assms(3) by (auto simp: write_region_def)
  then show ?thesis using w write_region_inv [OF assms(1), of r bs] write_read [OF assms(1,3)] assms(2) by simp
qed

lemma stage_spec:
  assumes inv: "pool_inv (co_pools c pid)"
  shows "stage_into_host_pool pid bs c = Some (Inl PoolExhausted, c) \<or>
    (\<exists>r p. stage_into_host_pool pid bs c = Some (Inr r, c\<lparr>co_pools := (co_pools c)(pid := p)\<rparr>) \<and> pool_inv p
      \<and> r \<notin> set (hp_live_regions (co_pools c pid)) \<and> hp_live_regions p = r # hp_live_regions (co_pools c pid)
      \<and> read_region r p = Inr bs
      \<and> (\<forall>q\<in>set (hp_live_regions (co_pools c pid)). read_region q p = read_region q (co_pools c pid)))"
proof (cases "length bs = 0 \<or> \<not> hole (length bs) (hp_arena (co_pools c pid))")
  case True
  from pool_reserve_none [OF inv this] show ?thesis by (cases c) (simp add: stage_into_host_pool_def)
next
  case False
  then obtain r p where r: "pool_reserve (length bs) (co_pools c pid) = Some (Inr (Some r), p)" "pool_inv p" "r_len r = length bs"
    "hp_live_regions p = r # hp_live_regions (co_pools c pid)" "hp_bytes p = hp_bytes (co_pools c pid)"
    using pool_reserve_ok [OF inv, of "length bs"] by blast
  have fresh: "r \<notin> set (hp_live_regions (co_pools c pid))" using pool_invD(4) [OF r(2)] r(4) by simp
  obtain p1 where w: "write_region r bs p = (Inr (), p1)" "pool_inv p1" "hp_live_regions p1 = hp_live_regions p"
    "read_region r p1 = Inr bs" "\<forall>q\<in>set (hp_live_regions p). q \<noteq> r \<longrightarrow> read_region q p1 = read_region q p"
    using write_region_live [OF r(2) _ r(3) [symmetric]] r(4) by auto
  have "read_region q p1 = read_region q (co_pools c pid)" if q: "q \<in> set (hp_live_regions (co_pools c pid))" for q
  proof -
    have "read_region q p1 = read_region q p" using w(5) q fresh r(4) by auto
    then show ?thesis using read_after_reserve [OF inv r(2,5) q] q r(4) by simp
  qed
  then show ?thesis using r w(1-4) fresh
    by (intro disjI2 exI [of _ r] exI [of _ p1]) (simp add: stage_into_host_pool_def)
qed

subsection \<open>What the pools hold\<close>

abbreviation live :: "coordinator \<Rightarrow> nat \<Rightarrow> region set" where
  "live c pid \<equiv> set (hp_live_regions (co_pools c pid))"

abbreviation bytes_at :: "coordinator \<Rightarrow> nat \<Rightarrow> region \<Rightarrow> pool_error + u8 list" where
  "bytes_at c pid r \<equiv> read_region r (co_pools c pid)"

definition pools_ok :: "coordinator \<Rightarrow> bool" where
  "pools_ok c \<longleftrightarrow> (\<forall>pid. pool_inv (co_pools c pid))"

definition only_pools :: "coordinator \<Rightarrow> coordinator \<Rightarrow> bool" where
  "only_pools c c' \<longleftrightarrow> c' = c\<lparr>co_pools := co_pools c'\<rparr>"

lemma only_pools_update: "only_pools c0 c \<Longrightarrow> only_pools c0 (c\<lparr>co_pools := f\<rparr>)"
  by (cases c0; cases c) (simp add: only_pools_def)

lemma only_poolsD:
  assumes "only_pools c c'"
  shows "co_fs c' = co_fs c" "co_disk_store c' = co_disk_store c" "co_shared_backend c' = co_shared_backend c"
    "co_events c' = co_events c" "co_receiver c' = co_receiver c"
  using assms unfolding only_pools_def by (metis coordinator.select_convs coordinator.update_convs(4) coordinator.surjective)+

text \<open>\<open>holds c0 regions c\<close>: the pools have the regions of \<open>c0\<close>, unchanged, and the newly taken ones.\<close>

definition holds :: "coordinator \<Rightarrow> (nat \<times> region) list \<Rightarrow> coordinator \<Rightarrow> bool" where
  "holds c0 regions c \<longleftrightarrow> only_pools c0 c \<and> pools_ok c \<and> distinct regions
     \<and> (\<forall>pid. live c pid = live c0 pid \<union> {r. (pid, r) \<in> set regions})
     \<and> (\<forall>pid r. (pid, r) \<in> set regions \<longrightarrow> r \<notin> live c0 pid)
     \<and> (\<forall>pid. \<forall>r\<in>live c0 pid. bytes_at c pid r = bytes_at c0 pid r)"

lemma holdsD:
  assumes "holds c0 regions c"
  shows "only_pools c0 c" "pool_inv (co_pools c pid)" "distinct regions"
    "live c pid = live c0 pid \<union> {r. (pid, r) \<in> set regions}"
    "(pid, r) \<in> set regions \<Longrightarrow> r \<notin> live c0 pid" "r \<in> live c0 pid \<Longrightarrow> bytes_at c pid r = bytes_at c0 pid r"
  using assms unfolding holds_def pools_ok_def by blast+

lemma holds_refl: "pools_ok c \<Longrightarrow> holds c [] c"
  by (cases c) (simp add: holds_def only_pools_def)

lemma release_region_spec:
  assumes "holds c0 ((pid, r) # regions) c"
  shows "holds c0 regions (release_region (pid, r) c)"
proof -
  note h = holdsD [OF assms]
  have r: "r \<in> live c pid" using h(4) by simp
  obtain p where p: "pool_release r (co_pools c pid) = (Inr (), p)" "pool_inv p"
    "hp_live_regions p = removeAll r (hp_live_regions (co_pools c pid))" "hp_bytes p = hp_bytes (co_pools c pid)"
    using pool_release_ok [OF h(2) r] by blast
  let ?c = "release_region (pid, r) c"
  have pools: "co_pools ?c = (co_pools c)(pid := p)" by (simp add: release_region_def p(1))
  have only: "only_pools c0 ?c" using only_pools_update [OF h(1)] by (simp add: release_region_def)
  have ok: "pools_ok ?c" using h(2) p(2) by (simp add: pools_ok_def pools)
  have lv: "live ?c q = live c0 q \<union> {s. (q, s) \<in> set regions}" for q
    using h(4) [of q] h(3) h(5) [of pid r] by (auto simp: pools p(3))
  have fresh: "\<forall>q s. (q, s) \<in> set regions \<longrightarrow> s \<notin> live c0 q" using h(5) by simp
  have rd: "bytes_at ?c q s = bytes_at c0 q s" if s: "s \<in> live c0 q" for q s
  proof (cases "q = pid")
    case True
    have "s \<in> live c pid" using h(4) [of pid] s True by simp
    moreover have "s \<in> live ?c pid" using lv [of pid] s True by simp
    ultimately have "bytes_at ?c pid s = bytes_at c pid s"
      using read_after_reserve [OF h(2) p(2,4), of s] by (simp add: pools)
    then show ?thesis using h(6) s True by simp
  next
    case False
    then show ?thesis using h(6) s by (simp add: pools)
  qed
  show ?thesis unfolding holds_def using only ok lv fresh rd h(3) by simp
qed

lemma release_now_spec: "holds c0 regions c \<Longrightarrow> holds c0 [] (release_now regions c)"
proof (induction regions arbitrary: c)
  case (Cons pr regions)
  obtain pid r where "pr = (pid, r)" by fastforce
  then show ?case using Cons.IH [of "release_region pr c"] release_region_spec Cons.prems by (simp add: release_now_def)
qed (simp add: release_now_def)

lemma holds_stage:
  assumes h: "holds c0 regions c" and p: "pool_inv p" "r \<notin> live c pid" "hp_live_regions p = r # hp_live_regions (co_pools c pid)"
    "\<forall>q\<in>live c pid. read_region q p = bytes_at c pid q"
  shows "holds c0 (regions @ [(pid, r)]) (c\<lparr>co_pools := (co_pools c)(pid := p)\<rparr>)"
proof -
  note hd = holdsD [OF h]
  let ?c = "c\<lparr>co_pools := (co_pools c)(pid := p)\<rparr>"
  have "only_pools c0 ?c" by (rule only_pools_update [OF hd(1)])
  moreover have "pools_ok ?c" using hd(2) p(1) by (simp add: pools_ok_def)
  moreover have "distinct (regions @ [(pid, r)])" using hd(3) hd(4) [of pid] p(2) by auto
  moreover have "live ?c q = live c0 q \<union> {s. (q, s) \<in> set (regions @ [(pid, r)])}" for q
    using hd(4) [of q] p(3) by auto
  moreover have "s \<notin> live c0 q" if "(q, s) \<in> set (regions @ [(pid, r)])" for q s
    using that hd(5) hd(4) [of pid] p(2) by auto
  moreover have "bytes_at ?c q s = bytes_at c0 q s" if "s \<in> live c0 q" for q s
    using that hd(6) hd(4) [of q] p(4) by (cases "q = pid") auto
  ultimately show ?thesis unfolding holds_def by blast
qed

subsection \<open>The fetch loop\<close>

text \<open>What a source holds, by the maps the stores stand for.\<close>

definition source_bytes :: "codecs \<Rightarrow> coordinator \<Rightarrow> block_location \<Rightarrow> u8 list option" where
  "source_bytes cd c loc = (case loc of
     Disk fp _ \<Rightarrow> (case co_disk_store c of None \<Rightarrow> None | Some st \<Rightarrow> disk_blocks (cd_dec cd) (st, co_fs c) fp)
   | Remote _ \<Rightarrow> (case co_shared_backend c of None \<Rightarrow> None | Some st \<Rightarrow>
        (case remote_names (cd_ddec cd) loc of None \<Rightarrow> None | Some fp \<Rightarrow> disk_blocks (cd_dec cd) (st, co_fs c) fp))
   | _ \<Rightarrow> None)"

text \<open>Fingerprints have 16 bytes, which the type of the code says and a list does not.\<close>

definition source_typed :: "codecs \<Rightarrow> block_location \<Rightarrow> bool" where
  "source_typed cd loc \<longleftrightarrow> (case loc of Disk fp _ \<Rightarrow> length fp = 16
     | Remote _ \<Rightarrow> (case remote_names (cd_ddec cd) loc of None \<Rightarrow> True | Some fp \<Rightarrow> length fp = 16) | _ \<Rightarrow> True)"

lemma source_bytes_only_pools:
  assumes "only_pools c c'"
  shows "source_bytes cd c' loc = source_bytes cd c loc"
  unfolding source_bytes_def only_poolsD [OF assms] ..

lemma fetch_disk_payload_bytes:
  "length fp = 16 \<Longrightarrow> fetch_disk_payload cd fp n c = Inr bs \<longleftrightarrow> source_bytes cd c (Disk fp n) = Some bs"
  using canonical_get [of fp "cd_dec cd" "(the (co_disk_store c), co_fs c)" n bs]
  by (auto simp: fetch_disk_payload_def source_bytes_def split: option.splits sum.splits)

lemma shared_fetch_bytes:
  assumes "case remote_names ddec (kh_location h) of None \<Rightarrow> True | Some fp \<Rightarrow> length fp = 16"
  shows "(\<exists>pl. shared_backend_fetch dec ddec h s = Inr (OpReady (Inr (CLoaded h pl))) \<and> kp_bytes pl = bs)
    \<longleftrightarrow> (\<exists>fp. remote_names ddec (kh_location h) = Some fp \<and> disk_blocks dec s fp = Some bs)"
    "shared_backend_fetch dec ddec h s = Inr op \<Longrightarrow> \<exists>pl. op = OpReady (Inr (CLoaded h pl))"
proof -
  let ?get = "\<lambda>l. shared_get_block dec l (Some (sl_fingerprint l)) s"
  have eq: "shared_backend_fetch dec ddec h s = (case from_block_location ddec (kh_location h) of Inl e \<Rightarrow> Inl e
    | Inr l \<Rightarrow> (case ?get l of Inl e \<Rightarrow> Inl (Transfer e)
       | Inr bs \<Rightarrow> Inr (OpReady (Inr (CLoaded h (payload_with_reference bs (payload_ref_whole (kh_location h) (length bs))))))))"
    by (simp add: shared_backend_fetch_def)
  show "shared_backend_fetch dec ddec h s = Inr op \<Longrightarrow> \<exists>pl. op = OpReady (Inr (CLoaded h pl))"
    unfolding eq by (auto split: sum.splits)
  show "(\<exists>pl. shared_backend_fetch dec ddec h s = Inr (OpReady (Inr (CLoaded h pl))) \<and> kp_bytes pl = bs)
    \<longleftrightarrow> (\<exists>fp. remote_names ddec (kh_location h) = Some fp \<and> disk_blocks dec s fp = Some bs)"
  proof (cases "from_block_location ddec (kh_location h)")
    case (Inl e)
    then show ?thesis unfolding eq by (simp add: remote_names_def)
  next
    case (Inr l)
    then have nm: "remote_names ddec (kh_location h) = Some (sl_fingerprint l)" by (simp add: remote_names_def)
    have get: "?get l = Inr p \<longleftrightarrow> disk_blocks dec s (sl_fingerprint l) = Some p" for p
      unfolding shared_get_block_def shared_disk_location_def using assms nm by (simp add: canonical_get)
    show ?thesis
    proof (cases "?get l")
      case (Inl e)
      then have "disk_blocks dec s (sl_fingerprint l) \<noteq> Some bs" using get [of bs] by simp
      then show ?thesis unfolding eq Inr nm using Inl by simp
    next
      case (Inr p)
      then have "disk_blocks dec s (sl_fingerprint l) = Some p" using get by simp
      then show ?thesis unfolding eq \<open>from_block_location ddec (kh_location h) = Inr l\<close> nm using Inr
        by (auto simp: payload_with_reference_def)
    qed
  qed
qed

lemma handle_location [simp]: "kh_location (kv_handle_new sp b loc ep n) = loc"
  by (simp add: kv_handle_new_def)

lemma fetch_remote_payload_bytes:
  assumes "source_typed cd (fr_source r)" "fr_source r = Remote d"
  shows "(\<exists>pl. fetch_remote_payload cd r c = Inr pl \<and> kp_bytes pl = bs) \<longleftrightarrow> source_bytes cd c (fr_source r) = Some bs"
proof (cases "co_shared_backend c")
  case None
  then show ?thesis using assms(2) by (simp add: fetch_remote_payload_def source_bytes_def)
next
  case (Some st)
  let ?h = "kv_handle_new None (fr_block_id r) (fr_source r) 0 (fr_byte_len r)"
  let ?f = "shared_backend_fetch (cd_dec cd) (cd_ddec cd) ?h (st, co_fs c)"
  have ty: "case remote_names (cd_ddec cd) (kh_location ?h) of None \<Rightarrow> True | Some fp \<Rightarrow> length fp = 16"
    using assms by (simp add: source_typed_def)
  note sf = shared_fetch_bytes [OF ty, where dec = "cd_dec cd" and s = "(st, co_fs c)"]
  have src: "source_bytes cd c (fr_source r) = Some bs \<longleftrightarrow>
      (\<exists>fp. remote_names (cd_ddec cd) (kh_location ?h) = Some fp \<and> disk_blocks (cd_dec cd) (st, co_fs c) fp = Some bs)"
    using Some assms(2) by (simp add: source_bytes_def split: option.split)
  have "(\<exists>pl. fetch_remote_payload cd r c = Inr pl \<and> kp_bytes pl = bs) \<longleftrightarrow>
      (\<exists>pl. ?f = Inr (OpReady (Inr (CLoaded ?h pl))) \<and> kp_bytes pl = bs)"
  proof (cases ?f)
    case (Inl e)
    then show ?thesis using Some by (simp add: fetch_remote_payload_def)
  next
    case (Inr op)
    obtain pl where "op = OpReady (Inr (CLoaded ?h pl))" using sf(2) [OF Inr] by blast
    then show ?thesis using Inr Some by (simp add: fetch_remote_payload_def shared_op_poll_def)
  qed
  then show ?thesis unfolding src sf(1) .
qed

definition pools_mono :: "coordinator \<Rightarrow> coordinator \<Rightarrow> bool" where
  "pools_mono c c' \<longleftrightarrow> (\<forall>pid. \<forall>r\<in>live c pid. r \<in> live c' pid \<and> bytes_at c' pid r = bytes_at c pid r)"

lemma pools_mono_refl [simp]: "pools_mono c c"
  by (simp add: pools_mono_def)

lemma pools_mono_trans: "pools_mono a b \<Longrightarrow> pools_mono b c \<Longrightarrow> pools_mono a c"
  by (simp add: pools_mono_def)

text \<open>
  What a completed fetch says about a request: a host-pinned source is reported as it is, any other
  source was copied to a new region that holds its bytes.
\<close>

definition delivered :: "codecs \<Rightarrow> coordinator \<Rightarrow> coordinator \<Rightarrow> fetch_request \<Rightarrow> fetched_block \<Rightarrow> bool" where
  "delivered cd c0 c r fb \<longleftrightarrow> fb_block_id fb = fr_block_id r \<and> (case fr_source r of
     HostPinned off \<Rightarrow> fb = \<lparr>fb_block_id = fr_block_id r, fb_host_region = \<lparr>r_offset = off, r_len = fr_byte_len r\<rparr>,
       fb_byte_len = fr_byte_len r, fb_release_after_promote = False\<rparr>
   | _ \<Rightarrow> \<exists>bs. source_bytes cd c0 (fr_source r) = Some bs \<and> fb_byte_len fb = length bs \<and> fb_release_after_promote fb
       \<and> fb_host_region fb \<in> live c (fr_host_pool r) \<and> fb_host_region fb \<notin> live c0 (fr_host_pool r)
       \<and> bytes_at c (fr_host_pool r) (fb_host_region fb) = Inr bs)"

lemma delivered_mono: "delivered cd c0 c r fb \<Longrightarrow> pools_mono c c' \<Longrightarrow> delivered cd c0 c' r fb"
  by (auto simp: delivered_def pools_mono_def split: block_location.splits)

definition taken :: "fetch_request \<Rightarrow> region option \<Rightarrow> (nat \<times> region) list" where
  "taken r rg = (case rg of None \<Rightarrow> [] | Some x \<Rightarrow> [(fr_host_pool r, x)])"

definition fetched_ok :: "codecs \<Rightarrow> coordinator \<Rightarrow> (nat \<times> region) list \<Rightarrow> fetch_request \<Rightarrow> coordinator
    \<Rightarrow> (fetched_block \<times> region option) \<times> coordinator \<Rightarrow> bool" where
  "fetched_ok cd c0 regions r c res \<longleftrightarrow> (case res of ((fb, rg), c1) \<Rightarrow>
     holds c0 (regions @ taken r rg) c1 \<and> delivered cd c0 c1 r fb \<and> pools_mono c c1)"

lemma staged_spec:
  assumes h: "holds c0 regions c" and src: "source_bytes cd c0 (fr_source r) = Some bs" and nh: "tier_of (fr_source r) \<noteq> THostPinned"
  shows "staged r bs c = Some (Inl PoolExhausted, c) \<or>
    (\<exists>fb rg c1. staged r bs c = Some (Inr (fb, rg), c1) \<and> fetched_ok cd c0 regions r c ((fb, rg), c1))"
  using stage_spec [OF holdsD(2) [OF h, of "fr_host_pool r"], of bs]
proof
  let ?pid = "fr_host_pool r"
  assume "\<exists>rg p. stage_into_host_pool ?pid bs c = Some (Inr rg, c\<lparr>co_pools := (co_pools c)(?pid := p)\<rparr>) \<and> pool_inv p
      \<and> rg \<notin> live c ?pid \<and> hp_live_regions p = rg # hp_live_regions (co_pools c ?pid)
      \<and> read_region rg p = Inr bs \<and> (\<forall>q\<in>live c ?pid. read_region q p = bytes_at c ?pid q)"
  then obtain rg p where st: "stage_into_host_pool ?pid bs c = Some (Inr rg, c\<lparr>co_pools := (co_pools c)(?pid := p)\<rparr>)"
    and p: "pool_inv p" "rg \<notin> live c ?pid" "hp_live_regions p = rg # hp_live_regions (co_pools c ?pid)"
      "read_region rg p = Inr bs" "\<forall>q\<in>live c ?pid. read_region q p = bytes_at c ?pid q" by blast
  let ?c = "c\<lparr>co_pools := (co_pools c)(?pid := p)\<rparr>"
  let ?fb = "\<lparr>fb_block_id = fr_block_id r, fb_host_region = rg, fb_byte_len = length bs, fb_release_after_promote = True\<rparr>"
  have "holds c0 (regions @ taken r (Some rg)) ?c" using holds_stage [OF h p(1,2,3,5)] by (simp add: taken_def)
  moreover have "delivered cd c0 ?c r ?fb"
  proof -
    have "rg \<notin> live c0 ?pid" using holdsD(4) [OF h, of ?pid] p(2) by blast
    then show ?thesis using src nh p(3,4) by (cases "fr_source r") (simp_all add: delivered_def)
  qed
  moreover have "pools_mono c ?c" using p(3,5) by (simp add: pools_mono_def)
  ultimately show ?thesis using st by (auto simp: staged_def fetched_ok_def)
qed (simp add: staged_def)

lemma fetch_one_spec:
  assumes h: "holds c0 regions c" and ty: "source_typed cd (fr_source r)"
  shows "(\<exists>reason. fetch_one cd r c = Some (Inl reason, c) \<and>
      (reason = PoolExhausted \<or> source_bytes cd c0 (fr_source r) = None \<and> tier_of (fr_source r) \<noteq> THostPinned))
    \<or> (\<exists>fb rg c1. fetch_one cd r c = Some (Inr (fb, rg), c1) \<and> fetched_ok cd c0 regions r c ((fb, rg), c1))"
proof (cases "fr_source r")
  case (Gpu sl)
  then show ?thesis by (simp add: fetch_one_def source_bytes_def)
next
  case (HostPinned off)
  then show ?thesis using h by (simp add: fetch_one_def fetched_ok_def taken_def delivered_def)
next
  case (Disk fp n)
  have pay: "fetch_disk_payload cd fp n c = Inr bs \<longleftrightarrow> source_bytes cd c0 (fr_source r) = Some bs" for bs
    using fetch_disk_payload_bytes [of fp cd n c bs] ty Disk source_bytes_only_pools [OF holdsD(1) [OF h]]
    by (simp add: source_typed_def)
  show ?thesis
  proof (cases "fetch_disk_payload cd fp n c")
    case (Inl e)
    then have "source_bytes cd c0 (fr_source r) = None" using pay by (cases "source_bytes cd c0 (fr_source r)") auto
    then show ?thesis using Inl Disk by (simp add: fetch_one_def)
  next
    case (Inr bs)
    then have one: "fetch_one cd r c = staged r bs c" using Disk by (simp add: fetch_one_def)
    have "source_bytes cd c0 (fr_source r) = Some bs" using pay [of bs] Inr by simp
    then show ?thesis using staged_spec [OF h, of cd r bs] Disk unfolding one by force
  qed
next
  case (Remote d)
  have pay: "(\<exists>pl. fetch_remote_payload cd r c = Inr pl \<and> kp_bytes pl = bs) \<longleftrightarrow> source_bytes cd c0 (fr_source r) = Some bs" for bs
    using fetch_remote_payload_bytes [OF ty Remote, of c bs] source_bytes_only_pools [OF holdsD(1) [OF h]] by simp
  show ?thesis
  proof (cases "fetch_remote_payload cd r c")
    case (Inl e)
    then have "source_bytes cd c0 (fr_source r) = None" using pay by (cases "source_bytes cd c0 (fr_source r)") auto
    then show ?thesis using Inl Remote by (simp add: fetch_one_def)
  next
    case (Inr pl)
    then have one: "fetch_one cd r c = staged r (kp_bytes pl) c" using Remote by (simp add: fetch_one_def)
    have "source_bytes cd c0 (fr_source r) = Some (kp_bytes pl)" using pay [of "kp_bytes pl"] Inr by simp
    then show ?thesis using staged_spec [OF h, of cd r "kp_bytes pl"] Remote unfolding one by force
  qed
qed

definition fetch_failure :: "codecs \<Rightarrow> coordinator \<Rightarrow> environment \<Rightarrow> fetch_request list \<Rightarrow> block_id \<times> failure_class \<times> fail_reason \<Rightarrow> bool" where
  "fetch_failure cd c0 env blocks f \<longleftrightarrow> (case f of (b, class, reason) \<Rightarrow> \<exists>r\<in>set blocks. fr_block_id r = b \<and>
     (class = FcCancelled \<and> reason = ByRequest \<and> (\<exists>k. env_cancelled env k)
      \<or> class = FcFailed \<and> (reason = PoolExhausted \<or> source_bytes cd c0 (fr_source r) = None \<and> tier_of (fr_source r) \<noteq> THostPinned)))"

lemma fetch_failure_Cons: "fetch_failure cd c0 env bs f \<Longrightarrow> fetch_failure cd c0 env (b # bs) f"
  unfolding fetch_failure_def by (auto split: prod.splits)

lemma fetch_loop_spec:
  assumes "holds c0 regions c" "\<forall>r\<in>set bs. source_typed cd (fr_source r)"
  shows "(\<exists>f c'. fetch_loop cd env k bs fetched regions c = Some (Inl f, c') \<and> holds c0 [] c' \<and> fetch_failure cd c0 env bs f)
    \<or> (\<exists>fbs regs c'. fetch_loop cd env k bs fetched regions c = Some (Inr (fetched @ fbs), c') \<and> list_all2 (delivered cd c0 c') bs fbs
        \<and> holds c0 (regions @ regs) c' \<and> pools_mono c c')"
  using assms
proof (induction bs arbitrary: k fetched regions c)
  case Nil
  then show ?case by (auto intro: exI [of _ "[]"])
next
  case (Cons b bs)
  show ?case
  proof (cases "env_cancelled env k")
    case True
    then show ?thesis using release_now_spec [OF Cons.prems(1)] by (auto simp: fetch_failure_def)
  next
    case False
    consider (bad) reason where "fetch_one cd b c = Some (Inl reason, c)"
        "reason = PoolExhausted \<or> source_bytes cd c0 (fr_source b) = None \<and> tier_of (fr_source b) \<noteq> THostPinned"
      | (good) fb rg c1 where "fetch_one cd b c = Some (Inr (fb, rg), c1)" "fetched_ok cd c0 regions b c ((fb, rg), c1)"
      using fetch_one_spec [OF Cons.prems(1), of cd b] Cons.prems(2) by auto
    then show ?thesis
    proof cases
      case bad
      then show ?thesis using False release_now_spec [OF Cons.prems(1)] by (auto simp: fetch_failure_def)
    next
      case good
      then have ok: "holds c0 (regions @ taken b rg) c1" "delivered cd c0 c1 b fb" "pools_mono c c1" by (simp_all add: fetched_ok_def)
      have step: "fetch_loop cd env k (b # bs) fetched regions c = fetch_loop cd env (k + 1) bs (fetched @ [fb]) (regions @ taken b rg) c1"
        using False good(1) by (simp add: taken_def split: option.split)
      have ty: "\<forall>r\<in>set bs. source_typed cd (fr_source r)" using Cons.prems(2) by simp
      from Cons.IH [OF ok(1) ty, of "k + 1" "fetched @ [fb]"] show ?thesis
      proof (elim disjE exE conjE)
        fix f c' assume "fetch_loop cd env (k + 1) bs (fetched @ [fb]) (regions @ taken b rg) c1 = Some (Inl f, c')"
          "holds c0 [] c'" "fetch_failure cd c0 env bs f"
        then show ?thesis using step fetch_failure_Cons by auto
      next
        fix fbs regs c' assume l: "fetch_loop cd env (k + 1) bs (fetched @ [fb]) (regions @ taken b rg) c1 = Some (Inr ((fetched @ [fb]) @ fbs), c')"
          "list_all2 (delivered cd c0 c') bs fbs" "holds c0 ((regions @ taken b rg) @ regs) c'" "pools_mono c1 c'"
        then have "list_all2 (delivered cd c0 c') (b # bs) (fb # fbs)" using delivered_mono ok(2) by simp
        then show ?thesis using step l pools_mono_trans [OF ok(3) l(4)]
          by (intro disjI2 exI [of _ "fb # fbs"] exI [of _ "taken b rg @ regs"] exI [of _ c']) simp
      qed
    qed
  qed
qed

subsection \<open>A whole fetch\<close>

lemma source_bytes_events [simp]: "source_bytes cd (c\<lparr>co_events := es\<rparr>) loc = source_bytes cd c loc"
  by (simp add: source_bytes_def split: block_location.split option.split)

lemma delivered_events [simp]:
  "delivered cd (c0\<lparr>co_events := es\<rparr>) c = delivered cd c0 c" "delivered cd c0 (c\<lparr>co_events := es\<rparr>) = delivered cd c0 c"
  by (intro ext, simp add: delivered_def split: block_location.split)+

lemma fetch_failure_events [simp]: "fetch_failure cd (c0\<lparr>co_events := es\<rparr>) env bs f = fetch_failure cd c0 env bs f"
  by (simp add: fetch_failure_def)

lemma pools_mono_events [simp]:
  "pools_mono (c0\<lparr>co_events := es\<rparr>) c = pools_mono c0 c" "pools_mono c0 (c\<lparr>co_events := es\<rparr>) = pools_mono c0 c"
  by (simp_all add: pools_mono_def)

lemma then_emit_connected: "co_receiver c \<Longrightarrow> then_emit e out c = (Inr out, c\<lparr>co_events := co_events c @ [e]\<rparr>)"
  by (simp add: then_emit_def emit_required_def)

definition same_pools :: "coordinator \<Rightarrow> coordinator \<Rightarrow> bool" where
  "same_pools c c' \<longleftrightarrow> (\<forall>pid. live c' pid = live c pid \<and> (\<forall>r\<in>live c pid. bytes_at c' pid r = bytes_at c pid r))"

lemma holds_same_pools: "holds c [] c' \<Longrightarrow> same_pools c c'"
  using holdsD(4,6) [of c "[]" c'] by (auto simp: same_pools_def)

text \<open>The result of a fetch: completed with everything delivered, or failed with nothing kept.\<close>

definition fetch_completed :: "codecs \<Rightarrow> nat \<Rightarrow> fetch_request list \<Rightarrow> coordinator \<Rightarrow> queue_outcome \<Rightarrow> coordinator \<Rightarrow> bool" where
  "fetch_completed cd n blocks c out c' \<longleftrightarrow> out = OCompleted \<and> pools_mono c c' \<and>
     (\<exists>fbs. co_events c' = co_events c @ [FetchQueued n (length blocks), FetchCompleted n fbs]
        \<and> list_all2 (delivered cd c c') blocks fbs)"

definition fetch_failed :: "codecs \<Rightarrow> environment \<Rightarrow> nat \<Rightarrow> fetch_request list \<Rightarrow> coordinator \<Rightarrow> queue_outcome \<Rightarrow> coordinator \<Rightarrow> bool" where
  "fetch_failed cd env n blocks c out c' \<longleftrightarrow> same_pools c c' \<and>
     (\<exists>b class reason. out = into_outcome class
        \<and> co_events c' = co_events c @ [FetchQueued n (length blocks), FetchFailed n b class reason]
        \<and> (class = FcCancelled \<and> (\<exists>k. env_cancelled env k) \<or> fetch_failure cd c env blocks (b, class, reason)))"

lemma handle_fetch_spec:
  assumes "pools_ok c" "co_receiver c" "\<forall>r\<in>set blocks. source_typed cd (fr_source r)"
  shows "\<exists>out c'. handle_fetch cd env n blocks c = Some (Inr out, c') \<and> pools_ok c' \<and> co_fs c' = co_fs c
    \<and> (fetch_completed cd n blocks c out c' \<or> fetch_failed cd env n blocks c out c')"
proof -
  let ?c = "c\<lparr>co_events := co_events c @ [FetchQueued n (length blocks)]\<rparr>"
  have em: "emit_required (FetchQueued n (length blocks)) c = (Inr (), ?c)" using assms(2) by (simp add: emit_required_def)
  have h0: "holds ?c [] ?c" using assms(1) by (intro holds_refl) (simp add: pools_ok_def)
  show ?thesis
  proof (cases "env_cancelled env 0")
    case True
    then show ?thesis using assms(1,2) em
      by (simp add: handle_fetch_def report_failure_def then_emit_connected fetch_failed_def same_pools_def pools_ok_def) blast
  next
    case False
    from fetch_loop_spec [OF h0 assms(3), of env 1 "[]"] show ?thesis
    proof (elim disjE exE conjE)
      fix f c2 assume l: "fetch_loop cd env 1 blocks [] [] ?c = Some (Inl f, c2)" "holds ?c [] c2" "fetch_failure cd ?c env blocks f"
      obtain b cl reason where f: "f = (b, cl, reason)" by (cases f) auto
      note o = only_poolsD [OF holdsD(1) [OF l(2)]]
      let ?c3 = "c2\<lparr>co_events := co_events c2 @ [FetchFailed n b cl reason]\<rparr>"
      have r: "handle_fetch cd env n blocks c = Some (Inr (into_outcome cl), ?c3)"
        using False em l(1) f o(5) assms(2) by (simp add: handle_fetch_def report_failure_def then_emit_connected)
      have ok: "pools_ok ?c3" using holdsD(2) [OF l(2)] by (simp add: pools_ok_def)
      have same: "same_pools c ?c3" using holds_same_pools [OF l(2)] by (simp add: same_pools_def)
      have "fetch_failed cd env n blocks c (into_outcome cl) ?c3"
        using same l(3) o(4) f unfolding fetch_failed_def
        by (intro conjI exI [of _ b] exI [of _ cl] exI [of _ reason]) simp_all
      then show ?thesis using r ok o(1) by (intro exI [of _ "into_outcome cl"] exI [of _ ?c3]) simp
    next
      fix fbs regs c2 assume l: "fetch_loop cd env 1 blocks [] [] ?c = Some (Inr ([] @ fbs), c2)"
        "list_all2 (delivered cd ?c c2) blocks fbs" "holds ?c ([] @ regs) c2" "pools_mono ?c c2"
      note o = only_poolsD [OF holdsD(1) [OF l(3)]]
      let ?c3 = "c2\<lparr>co_events := co_events c2 @ [FetchCompleted n fbs]\<rparr>"
      have r: "handle_fetch cd env n blocks c = Some (Inr OCompleted, ?c3)"
        using False em l(1) o(5) assms(2) by (simp add: handle_fetch_def then_emit_connected)
      have ok: "pools_ok ?c3" using holdsD(2) [OF l(3)] by (simp add: pools_ok_def)
      have "fetch_completed cd n blocks c OCompleted ?c3"
        using l(2,4) o(4) by (simp add: fetch_completed_def)
      then show ?thesis using r ok o(1) by (intro exI [of _ OCompleted] exI [of _ ?c3]) simp
    qed
  qed
qed


subsection \<open>Storing\<close>

text \<open>
  What a write of one block does to the files, seen from any store on the same file system: stores
  with the same root see the block, all others see nothing.
\<close>

lemma tmp_not_any_block: "tmp_path (block_path root fp) \<noteq> block_path root' fq"
proof
  assume "tmp_path (block_path root fp) = block_path root' fq"
  then have "hex_string fp @ ''.kv.tmp'' = hex_string fq @ ''.kv''"
    unfolding tmp_block_path by (simp add: block_path_def)
  then have "last (hex_string fp @ ''.kv.tmp'') = last (hex_string fq @ ''.kv'')" by simp
  then show False by simp
qed

lemma block_path_eq_iff: "block_path root fp = block_path root' fq \<longleftrightarrow> root = root' \<and> fp = fq"
  by (auto simp: block_path_def)

lemma put_block_files:
  assumes "codec_ok enc dec" "length fp = 16" "length bs \<le> u64_max"
  shows "\<exists>file st' fs'. put_block_with_fsync enc fp tag bs fsync st fs =
      (Inr \<lparr>dl_path = block_path (ds_root st) fp, dl_payload_len = length bs, dl_fingerprint = fp\<rparr>, st', fs')
    \<and> ds_root st' = ds_root st \<and> header_decode dec file = Inr (header_new fp tag (length bs), bs)
    \<and> (\<forall>root fq. map_of (fs_files fs') (block_path root fq) =
          (if root = ds_root st \<and> fq = fp then Some file else map_of (fs_files fs) (block_path root fq)))"
proof -
  obtain hb st' fs0 where h: "dec (hb @ bs) = Some (header_new fp tag (length bs), bs)"
    and put: "put_block_with_fsync enc fp tag bs fsync st fs =
        (Inr \<lparr>dl_path = block_path (ds_root st) fp, dl_payload_len = length bs, dl_fingerprint = fp\<rparr>,
         st', replace_via_tmp (block_path (ds_root st) fp) (hb @ bs) fs0)"
    and st': "ds_root st' = ds_root st" and fs0: "fs_files fs0 = fs_files fs"
    using put_block_ok [OF assms] by blast
  have hdr: "header_decode dec (hb @ bs) = Inr (header_new fp tag (length bs), bs)" by (rule header_decode_new) (rule h)
  have "map_of (fs_files (replace_via_tmp (block_path (ds_root st) fp) (hb @ bs) fs0)) (block_path root fq) =
      (if root = ds_root st \<and> fq = fp then Some (hb @ bs) else map_of (fs_files fs) (block_path root fq))" for root fq
    using tmp_not_any_block [of "ds_root st" fp root fq] block_path_eq_iff [of root fq "ds_root st" fp]
    by (auto simp: replace_via_tmp_files fs0)
  then show ?thesis using put st' hdr by blast
qed

text \<open>The store behind a target, and what it holds for a fingerprint.\<close>

definition store_of :: "store_target \<Rightarrow> coordinator \<Rightarrow> disk_store option" where
  "store_of tg c = (case tg of ToDisk \<Rightarrow> co_disk_store c | ToRemote \<Rightarrow> co_shared_backend c)"

definition block_in :: "codecs \<Rightarrow> coordinator \<Rightarrow> store_target \<Rightarrow> fingerprint \<Rightarrow> u8 list option" where
  "block_in cd c tg fp = (case store_of tg c of None \<Rightarrow> None | Some st \<Rightarrow> disk_blocks (cd_dec cd) (st, co_fs c) fp)"

definition file_in :: "coordinator \<Rightarrow> store_target \<Rightarrow> fingerprint \<Rightarrow> bool" where
  "file_in c tg fp \<longleftrightarrow> (case store_of tg c of None \<Rightarrow> False | Some st \<Rightarrow> contains_block st fp (co_fs c))"

text \<open>Only the files of the fingerprints \<open>F\<close> may have changed, and where one did it now holds its content.\<close>

definition wrote :: "codecs \<Rightarrow> (fingerprint \<Rightarrow> u8 list) \<Rightarrow> fingerprint set \<Rightarrow> coordinator \<Rightarrow> coordinator \<Rightarrow> bool" where
  "wrote cd content F c c' \<longleftrightarrow> co_pools c' = co_pools c \<and> co_events c' = co_events c \<and> co_receiver c' = co_receiver c
     \<and> (\<forall>tg. (store_of tg c' = None) = (store_of tg c = None))
     \<and> (\<forall>tg fq. block_in cd c' tg fq = block_in cd c tg fq \<and> file_in c' tg fq = file_in c tg fq
          \<or> fq \<in> F \<and> block_in cd c' tg fq = Some (content fq))"

lemma wrote_refl: "wrote cd content F c c"
  by (simp add: wrote_def)

lemma wrote_trans:
  assumes ab: "wrote cd content F a b" and bc: "wrote cd content G b c"
  shows "wrote cd content (F \<union> G) a c"
proof -
  have "block_in cd c tg fq = block_in cd a tg fq \<and> file_in c tg fq = file_in a tg fq
      \<or> fq \<in> F \<union> G \<and> block_in cd c tg fq = Some (content fq)" for tg fq
    using ab bc unfolding wrote_def by (metis Un_iff)
  moreover have "co_pools c = co_pools a \<and> co_events c = co_events a \<and> co_receiver c = co_receiver a"
    "(store_of tg c = None) = (store_of tg a = None)" for tg
    using ab bc unfolding wrote_def by simp_all
  ultimately show ?thesis unfolding wrote_def by blast
qed

lemma wroteD:
  assumes "wrote cd content F c c'"
  shows "co_pools c' = co_pools c" "co_events c' = co_events c" "co_receiver c' = co_receiver c"
    "(store_of tg c' = None) = (store_of tg c = None)"
    "block_in cd c tg fq = Some (content fq) \<Longrightarrow> block_in cd c' tg fq = Some (content fq)"
    "fq \<notin> F \<Longrightarrow> block_in cd c' tg fq = block_in cd c tg fq"
  using assms unfolding wrote_def by metis+

lemma map_option_root: "map_option ds_root a = map_option ds_root b \<Longrightarrow> (a = None) = (b = None)"
  by (cases a; cases b) simp_all

lemma wrote_put:
  assumes "length fp = 16" and content: "content fp = bs" and hd: "header_decode (cd_dec cd) fl = Inr (header_new fp tag n, bs)"
    and files: "\<forall>root fq. map_of (fs_files (co_fs c')) (block_path root fq) =
          (if root = ds_root st \<and> fq = fp then Some fl else map_of (fs_files (co_fs c)) (block_path root fq))"
    and same: "co_pools c' = co_pools c" "co_events c' = co_events c" "co_receiver c' = co_receiver c"
    and stores: "\<And>tg. map_option ds_root (store_of tg c') = map_option ds_root (store_of tg c)"
    and st: "store_of tg0 c' = Some st'" "ds_root st' = ds_root st"
  shows "wrote cd content {fp} c c' \<and> block_in cd c' tg0 fp = Some bs"
proof
  have new: "block_in cd c' tg fp = Some bs" if "store_of tg c' = Some s" "ds_root s = ds_root st" for tg s
    using that assms(1) hd files by (simp add: block_in_def disk_blocks_def block_map_def header_new_def)
  show "block_in cd c' tg0 fp = Some bs" by (rule new [OF st])
  have old: "block_in cd c' tg fq = block_in cd c tg fq \<and> file_in c' tg fq = file_in c tg fq \<or> fq = fp \<and> block_in cd c' tg fq = Some bs" for tg fq
  proof (cases "store_of tg c")
    case None
    then have "store_of tg c' = None" using map_option_root [OF stores [of tg]] by simp
    then show ?thesis using None by (simp add: block_in_def file_in_def)
  next
    case (Some s0)
    then obtain s1 where s1: "store_of tg c' = Some s1" "ds_root s1 = ds_root s0" using stores [of tg] by (cases "store_of tg c'") auto
    show ?thesis
    proof (cases "ds_root s1 = ds_root st \<and> fq = fp")
      case True
      then show ?thesis using new s1 by blast
    next
      case False
      then have eq: "map_of (fs_files (co_fs c')) (block_path (ds_root s1) fq) = map_of (fs_files (co_fs c)) (block_path (ds_root s1) fq)"
        using files by auto
      then have "block_map (cd_dec cd) s1 (co_fs c') fq = block_map (cd_dec cd) s0 (co_fs c) fq"
        using s1(2) by (simp add: block_map_def)
      then show ?thesis using Some s1 eq
        by (simp add: block_in_def file_in_def disk_blocks_def contains_block_def block_path_for_eq)
    qed
  qed
  show "wrote cd content {fp} c c'" unfolding wrote_def using same old map_option_root [OF stores] content by blast
qed

definition codecs_ok :: "codecs \<Rightarrow> bool" where
  "codecs_ok cd \<longleftrightarrow> codec_ok (cd_enc cd) (cd_dec cd) \<and> desc_codec_ok (cd_denc cd) (cd_ddec cd)"

text \<open>
  A request that can be stored: its region is live and holds the content its fingerprint stands for
  (blocks are named by their content), its target is configured, and if the shared file system
  already has a file of that name then with this content.
\<close>

definition store_ready :: "codecs \<Rightarrow> (fingerprint \<Rightarrow> u8 list) \<Rightarrow> coordinator \<Rightarrow> store_request \<Rightarrow> bool" where
  "store_ready cd content c r \<longleftrightarrow> length (sr_fingerprint r) = 16 \<and> length (content (sr_fingerprint r)) \<le> u64_max
     \<and> read_region (sr_host_region r) (co_pools c (sr_host_pool r)) = Inr (content (sr_fingerprint r))
     \<and> store_of (sr_target r) c \<noteq> None
     \<and> (sr_target r = ToRemote \<and> file_in c ToRemote (sr_fingerprint r) \<longrightarrow>
          block_in cd c ToRemote (sr_fingerprint r) = Some (content (sr_fingerprint r)))"

lemma store_ready_mono: "wrote cd content F c c' \<Longrightarrow> store_ready cd content c r \<Longrightarrow> store_ready cd content c' r"
  unfolding store_ready_def wrote_def by metis

definition loc_target :: "codecs \<Rightarrow> block_location \<Rightarrow> (store_target \<times> fingerprint) option" where
  "loc_target cd loc = (case loc of
     Disk fp _ \<Rightarrow> Some (ToDisk, fp) | Remote _ \<Rightarrow> map_option (Pair ToRemote) (remote_names (cd_ddec cd) loc) | _ \<Rightarrow> None)"

lemma source_bytes_target:
  "source_bytes cd c loc = (case loc_target cd loc of None \<Rightarrow> None | Some (tg, fp) \<Rightarrow> block_in cd c tg fp)"
  by (cases loc) (auto simp: source_bytes_def loc_target_def block_in_def store_of_def split: option.split)

definition stored_at :: "codecs \<Rightarrow> (fingerprint \<Rightarrow> u8 list) \<Rightarrow> coordinator \<Rightarrow> store_request \<Rightarrow> block_id \<times> block_location \<Rightarrow> bool" where
  "stored_at cd content c r bl \<longleftrightarrow> fst bl = sr_block_id r \<and> loc_target cd (snd bl) = Some (sr_target r, sr_fingerprint r)
     \<and> source_bytes cd c (snd bl) = Some (content (sr_fingerprint r))"

lemma stored_at_mono: "wrote cd content F c c' \<Longrightarrow> stored_at cd content c r bl \<Longrightarrow> stored_at cd content c' r bl"
  using wroteD(5) by (auto simp: stored_at_def source_bytes_target)

lemma store_on_disk_spec:
  assumes cd: "codecs_ok cd" and r: "store_ready cd content c r" "sr_target r = ToDisk"
  shows "\<exists>loc c'. store_on_disk cd r (content (sr_fingerprint r)) c = (Inr loc, c')
    \<and> wrote cd content {sr_fingerprint r} c c' \<and> stored_at cd content c' r (sr_block_id r, loc)"
proof -
  let ?fp = "sr_fingerprint r" let ?bs = "content ?fp"
  obtain st where st: "co_disk_store c = Some st" using r by (auto simp: store_ready_def store_of_def)
  have len: "length ?fp = 16" "length ?bs \<le> u64_max" using r(1) by (simp_all add: store_ready_def)
  obtain fl st' fs' where p: "put_block_with_fsync (cd_enc cd) ?fp (sr_kv_format_tag r) ?bs False st (co_fs c) =
      (Inr \<lparr>dl_path = block_path (ds_root st) ?fp, dl_payload_len = length ?bs, dl_fingerprint = ?fp\<rparr>, st', fs')"
    "ds_root st' = ds_root st" "header_decode (cd_dec cd) fl = Inr (header_new ?fp (sr_kv_format_tag r) (length ?bs), ?bs)"
    "\<forall>root fq. map_of (fs_files fs') (block_path root fq) =
          (if root = ds_root st \<and> fq = ?fp then Some fl else map_of (fs_files (co_fs c)) (block_path root fq))"
    using put_block_files cd len unfolding codecs_ok_def by meson
  let ?c = "c\<lparr>co_disk_store := Some st', co_fs := fs'\<rparr>"
  have w: "wrote cd content {?fp} c ?c \<and> block_in cd ?c ToDisk ?fp = Some ?bs"
  proof (rule wrote_put [where content = content and fp = ?fp and bs = ?bs and fl = fl and st = st and st' = st', OF len(1) refl p(3)])
    show "map_option ds_root (store_of tg ?c) = map_option ds_root (store_of tg c)" for tg
      using p(2) st by (cases tg) (simp_all add: store_of_def)
  qed (use p(2,4) in \<open>simp_all add: store_of_def\<close>)
  show ?thesis using w st p(1) r(2)
    by (intro exI [of _ "Disk ?fp (length ?bs)"] exI [of _ ?c])
      (simp add: store_on_disk_def stored_at_def source_bytes_target loc_target_def)
qed

lemma store_on_shared_spec:
  assumes cd: "codecs_ok cd" and r: "store_ready cd content c r" "sr_target r = ToRemote"
  shows "\<exists>loc c'. store_on_shared cd r (content (sr_fingerprint r)) c = (Inr loc, c')
    \<and> wrote cd content {sr_fingerprint r} c c' \<and> stored_at cd content c' r (sr_block_id r, loc)"
proof -
  let ?fp = "sr_fingerprint r" let ?bs = "content ?fp"
  obtain st where st: "co_shared_backend c = Some st" using r by (auto simp: store_ready_def store_of_def)
  have len: "length ?fp = 16" "length ?bs \<le> u64_max" using r(1) by (simp_all add: store_ready_def)
  obtain loc where loc: "remote_location_for (cd_denc cd) ?fp (length ?bs) = Inr loc"
    "from_block_location (cd_ddec cd) loc = Inr \<lparr>sl_fingerprint = ?fp, sl_payload_len = length ?bs\<rparr>"
    using remote_location_ok len cd unfolding codecs_ok_def by blast
  have tgt: "loc_target cd loc = Some (ToRemote, ?fp)"
    using loc(2) by (cases loc) (simp_all add: loc_target_def remote_names_def from_block_location_def)
  let ?h = "kv_handle_new None (sr_block_id r) loc 0 (length ?bs)"
  have ex: "shared_backend_exists (cd_ddec cd) ?h (st, co_fs c) = Inr (contains_block st ?fp (co_fs c))"
    using loc(2) by (simp add: shared_backend_exists_def)
  show ?thesis
  proof (cases "contains_block st ?fp (co_fs c)")
    case True
    then have "file_in c ToRemote ?fp" using st by (simp add: file_in_def store_of_def)
    then have "block_in cd c ToRemote ?fp = Some ?bs" using r by (simp add: store_ready_def)
    then show ?thesis using True st loc(1) ex tgt r(2) wrote_refl
      by (intro exI [of _ loc] exI [of _ c]) (simp add: store_on_shared_def stored_at_def source_bytes_target)
  next
    case False
    obtain fl st' fs' where p: "put_block_with_fsync (cd_enc cd) ?fp (sr_kv_format_tag r) ?bs True st (co_fs c) =
        (Inr \<lparr>dl_path = block_path (ds_root st) ?fp, dl_payload_len = length ?bs, dl_fingerprint = ?fp\<rparr>, st', fs')"
      "ds_root st' = ds_root st" "header_decode (cd_dec cd) fl = Inr (header_new ?fp (sr_kv_format_tag r) (length ?bs), ?bs)"
      "\<forall>root fq. map_of (fs_files fs') (block_path root fq) =
            (if root = ds_root st \<and> fq = ?fp then Some fl else map_of (fs_files (co_fs c)) (block_path root fq))"
      using put_block_files cd len unfolding codecs_ok_def by meson
    let ?c = "c\<lparr>co_shared_backend := Some st', co_fs := fs'\<rparr>"
    have w: "wrote cd content {?fp} c ?c \<and> block_in cd ?c ToRemote ?fp = Some ?bs"
    proof (rule wrote_put [where content = content and fp = ?fp and bs = ?bs and fl = fl and st = st and st' = st', OF len(1) refl p(3)])
      show "map_option ds_root (store_of tg ?c) = map_option ds_root (store_of tg c)" for tg
        using p(2) st by (cases tg) (simp_all add: store_of_def)
    qed (use p(2,4) in \<open>simp_all add: store_of_def\<close>)
    have "store_on_shared cd r ?bs c = (Inr loc, ?c)"
      using False st loc(1) ex p(1)
      by (simp add: store_on_shared_def shared_backend_store_def shared_put_block_def put_block_def with_fingerprint_def
          payload_from_vec_def remote_location_for_def [symmetric] shared_op_poll_def Let_def with_location_def)
    then show ?thesis using w tgt r(2)
      by (intro exI [of _ loc] exI [of _ ?c]) (simp add: stored_at_def source_bytes_target)
  qed
qed

lemma store_one_spec:
  assumes "codecs_ok cd" "store_ready cd content c r"
  shows "\<exists>loc c'. store_one cd r c = (Inr loc, c') \<and> wrote cd content {sr_fingerprint r} c c' \<and> stored_at cd content c' r (sr_block_id r, loc)"
  using store_on_disk_spec [OF assms] store_on_shared_spec [OF assms] assms(2)
  by (cases "sr_target r") (simp_all add: store_one_def store_ready_def)

text \<open>
  A request whose block is named by its content: its region is live and holds the content that its
  fingerprint stands for. Nothing is asked of the stores.
\<close>

definition named_by_content :: "(fingerprint \<Rightarrow> u8 list) \<Rightarrow> coordinator \<Rightarrow> store_request \<Rightarrow> bool" where
  "named_by_content content c r \<longleftrightarrow> length (sr_fingerprint r) = 16 \<and> length (content (sr_fingerprint r)) \<le> u64_max
     \<and> read_region (sr_host_region r) (co_pools c (sr_host_pool r)) = Inr (content (sr_fingerprint r))"

lemma named_mono: "wrote cd content F c c' \<Longrightarrow> named_by_content content c r \<Longrightarrow> named_by_content content c' r"
  by (simp add: named_by_content_def wrote_def)

text \<open>
  A location reported for a request reads the content; or the shared file system had a file of that
  name before, and the location still reads what that file held, which may be nothing.
\<close>

definition stored_or_kept ::
    "codecs \<Rightarrow> (fingerprint \<Rightarrow> u8 list) \<Rightarrow> coordinator \<Rightarrow> coordinator \<Rightarrow> store_request \<Rightarrow> block_id \<times> block_location \<Rightarrow> bool" where
  "stored_or_kept cd content c0 c r bl \<longleftrightarrow> fst bl = sr_block_id r \<and> loc_target cd (snd bl) = Some (sr_target r, sr_fingerprint r)
     \<and> (source_bytes cd c (snd bl) = Some (content (sr_fingerprint r))
        \<or> sr_target r = ToRemote \<and> file_in c0 ToRemote (sr_fingerprint r)
          \<and> source_bytes cd c (snd bl) = block_in cd c0 ToRemote (sr_fingerprint r))"

lemma kept_mono: "wrote cd content F c c' \<Longrightarrow> stored_or_kept cd content c0 c r bl \<Longrightarrow> stored_or_kept cd content c0 c' r bl"
  unfolding stored_or_kept_def wrote_def by (auto simp: source_bytes_target) metis+

lemma kept_from: "wrote cd content F c0 c1 \<Longrightarrow> stored_or_kept cd content c1 c r bl \<Longrightarrow> stored_or_kept cd content c0 c r bl"
  unfolding stored_or_kept_def wrote_def by (auto simp: source_bytes_target) metis+

lemma store_one_any:
  assumes "codecs_ok cd" "named_by_content content c r"
  shows "store_of (sr_target r) c = None \<and> store_one cd r c = (Inl NotConfigured, c)
    \<or> (\<exists>loc c'. store_one cd r c = (Inr loc, c') \<and> wrote cd content {sr_fingerprint r} c c'
        \<and> stored_or_kept cd content c c' r (sr_block_id r, loc))"
proof -
  let ?fp = "sr_fingerprint r" let ?bs = "content ?fp"
  have rd: "read_region (sr_host_region r) (co_pools c (sr_host_pool r)) = Inr ?bs" and len: "length ?fp = 16" "length ?bs \<le> u64_max"
    using assms(2) by (simp_all add: named_by_content_def)
  consider (none) "store_of (sr_target r) c = None" | (ready) "store_ready cd content c r"
    | (kept) st where "sr_target r = ToRemote" "co_shared_backend c = Some st" "file_in c ToRemote ?fp"
    using assms(2) by (fastforce simp: store_ready_def named_by_content_def store_of_def)
  then show ?thesis
  proof cases
    case none
    then show ?thesis using rd by (cases "sr_target r") (simp_all add: store_one_def store_on_disk_def store_on_shared_def store_of_def)
  next
    case ready
    then show ?thesis using store_one_spec [OF assms(1) ready] by (auto simp: stored_or_kept_def stored_at_def)
  next
    case kept
    obtain loc where loc: "remote_location_for (cd_denc cd) ?fp (length ?bs) = Inr loc"
      "from_block_location (cd_ddec cd) loc = Inr \<lparr>sl_fingerprint = ?fp, sl_payload_len = length ?bs\<rparr>"
      using remote_location_ok len assms(1) unfolding codecs_ok_def by blast
    have tgt: "loc_target cd loc = Some (ToRemote, ?fp)"
      using loc(2) by (cases loc) (simp_all add: loc_target_def remote_names_def from_block_location_def)
    have "shared_backend_exists (cd_ddec cd) (kv_handle_new None (sr_block_id r) loc 0 (length ?bs)) (st, co_fs c) = Inr True"
      using loc(2) kept(2,3) by (simp add: shared_backend_exists_def file_in_def store_of_def)
    then have "store_one cd r c = (Inr loc, c)"
      using kept(1,2) rd loc(1) by (simp add: store_one_def store_on_shared_def)
    moreover have "stored_or_kept cd content c c r (sr_block_id r, loc)"
      using tgt kept(1,3) by (simp add: stored_or_kept_def source_bytes_target)
    ultimately show ?thesis using wrote_refl by blast
  qed
qed

lemma store_loop_any:
  assumes "codecs_ok cd" "\<forall>r\<in>set bs. named_by_content content c r"
  shows "(\<exists>b c' k'. store_loop cd env k bs locs c = (Inl (b, FcCancelled, ByRequest), c') \<and> env_cancelled env k'
        \<and> wrote cd content (sr_fingerprint ` set bs) c c')
    \<or> (\<exists>r\<in>set bs. \<exists>c'. store_loop cd env k bs locs c = (Inl (sr_block_id r, FcFailed, NotConfigured), c')
        \<and> store_of (sr_target r) c = None \<and> wrote cd content (sr_fingerprint ` set bs) c c')
    \<or> (\<exists>ls c'. store_loop cd env k bs locs c = (Inr (locs @ ls), c') \<and> list_all2 (stored_or_kept cd content c c') bs ls
        \<and> wrote cd content (sr_fingerprint ` set bs) c c')"
  using assms(2)
proof (induction bs arbitrary: k locs c)
  case Nil
  then show ?case by (simp add: wrote_refl)
next
  case (Cons b bs)
  show ?case
  proof (cases "env_cancelled env k")
    case True
    then show ?thesis using wrote_refl by auto
  next
    case False
    have "named_by_content content c b" using Cons.prems by simp
    from store_one_any [OF assms(1) this] show ?thesis
    proof (elim disjE exE conjE)
      assume "store_of (sr_target b) c = None" "store_one cd b c = (Inl NotConfigured, c)"
      then show ?thesis using False wrote_refl by auto
    next
      fix loc c1 assume one: "store_one cd b c = (Inr loc, c1)" "wrote cd content {sr_fingerprint b} c c1"
        "stored_or_kept cd content c c1 b (sr_block_id b, loc)"
      have named: "\<forall>r\<in>set bs. named_by_content content c1 r" using Cons.prems named_mono [OF one(2)] by simp
      have step: "store_loop cd env k (b # bs) locs c = store_loop cd env (k + 1) bs (locs @ [(sr_block_id b, loc)]) c1"
        using False one(1) by simp
      have tr: "wrote cd content (sr_fingerprint ` set (b # bs)) c c'" if "wrote cd content (sr_fingerprint ` set bs) c1 c'" for c'
        using wrote_trans [OF one(2) that] by simp
      from Cons.IH [OF named, of "k + 1" "locs @ [(sr_block_id b, loc)]"] show ?thesis
      proof (elim disjE exE conjE bexE)
        fix b' c' k' assume "store_loop cd env (k + 1) bs (locs @ [(sr_block_id b, loc)]) c1 = (Inl (b', FcCancelled, ByRequest), c')"
          "env_cancelled env k'" "wrote cd content (sr_fingerprint ` set bs) c1 c'"
        then show ?thesis using tr step by auto
      next
        fix r c' assume "store_loop cd env (k + 1) bs (locs @ [(sr_block_id b, loc)]) c1 = (Inl (sr_block_id r, FcFailed, NotConfigured), c')"
          "store_of (sr_target r) c1 = None" "wrote cd content (sr_fingerprint ` set bs) c1 c'" "r \<in> set bs"
        then show ?thesis using tr step wroteD(4) [OF one(2), of "sr_target r"] by auto
      next
        fix ls c' assume l: "store_loop cd env (k + 1) bs (locs @ [(sr_block_id b, loc)]) c1 = (Inr ((locs @ [(sr_block_id b, loc)]) @ ls), c')"
          "list_all2 (stored_or_kept cd content c1 c') bs ls" "wrote cd content (sr_fingerprint ` set bs) c1 c'"
        have "list_all2 (stored_or_kept cd content c c') bs ls" using l(2) by (rule list_all2_mono) (rule kept_from [OF one(2)])
        then have "list_all2 (stored_or_kept cd content c c') (b # bs) ((sr_block_id b, loc) # ls)" using kept_mono [OF l(3) one(3)] by simp
        then show ?thesis using l(1) tr [OF l(3)] step
          by (intro disjI2 exI [of _ "(sr_block_id b, loc) # ls"] exI [of _ c']) simp
      qed
    qed
  qed
qed

lemma block_in_events [simp]: "block_in cd (c\<lparr>co_events := es\<rparr>) tg fp = block_in cd c tg fp"
  by (simp add: block_in_def store_of_def split: option.split store_target.split)

lemma store_ready_events [simp]: "store_ready cd content (c\<lparr>co_events := es\<rparr>) r = store_ready cd content c r"
  by (simp add: store_ready_def store_of_def file_in_def split: option.split store_target.split)

lemma stored_at_events [simp]: "stored_at cd content (c\<lparr>co_events := es\<rparr>) = stored_at cd content c"
  by (intro ext) (simp add: stored_at_def)

lemma named_events [simp]: "named_by_content content (c\<lparr>co_events := es\<rparr>) r = named_by_content content c r"
  by (simp add: named_by_content_def)

lemma file_in_events [simp]: "file_in (c\<lparr>co_events := es\<rparr>) tg fp = file_in c tg fp"
  by (simp add: file_in_def store_of_def split: option.split store_target.split)

lemma kept_events [simp]:
  "stored_or_kept cd content (c0\<lparr>co_events := es\<rparr>) c = stored_or_kept cd content c0 c"
  "stored_or_kept cd content c0 (c\<lparr>co_events := es\<rparr>) = stored_or_kept cd content c0 c"
  by (intro ext, simp add: stored_or_kept_def)+

lemma store_of_events [simp]: "store_of tg (c\<lparr>co_events := es\<rparr>) = store_of tg c"
  by (simp add: store_of_def split: store_target.split)

definition store_events :: "nat \<Rightarrow> store_request list \<Rightarrow> coordinator \<Rightarrow> coordinator_event \<Rightarrow> coordinator \<Rightarrow> bool" where
  "store_events n blocks c ev c' \<longleftrightarrow> co_events c' = co_events c @ [StoreQueued n (length blocks), ev]"

lemma handle_store_any:
  assumes "codecs_ok cd" "co_receiver c" "\<forall>r\<in>set blocks. named_by_content content c r"
  shows "\<exists>out c'. handle_store cd env n blocks c = (Inr out, c') \<and> co_pools c' = co_pools c \<and> co_receiver c'
    \<and> (\<forall>tg fp. fp \<notin> sr_fingerprint ` set blocks \<longrightarrow> block_in cd c' tg fp = block_in cd c tg fp)
    \<and> (out = OCancelled \<and> (\<exists>k. env_cancelled env k) \<and> (\<exists>b. store_events n blocks c (StoreFailed n b FcCancelled ByRequest) c')
     \<or> out = OFailed \<and> (\<exists>r\<in>set blocks. store_of (sr_target r) c = None
           \<and> store_events n blocks c (StoreFailed n (sr_block_id r) FcFailed NotConfigured) c')
     \<or> out = OCompleted \<and> (\<exists>locs. store_events n blocks c (StoreCompleted n locs) c'
           \<and> list_all2 (stored_or_kept cd content c c') blocks locs))"
proof -
  let ?c = "c\<lparr>co_events := co_events c @ [StoreQueued n (length blocks)]\<rparr>"
  have em: "emit_required (StoreQueued n (length blocks)) c = (Inr (), ?c)" using assms(2) by (simp add: emit_required_def)
  have nm: "\<forall>r\<in>set blocks. named_by_content content ?c r" using assms(3) by simp
  show ?thesis
  proof (cases "env_cancelled env 0")
    case True
    then show ?thesis using assms(2) em
      by (auto simp: handle_store_def report_failure_def then_emit_connected store_events_def)
  next
    case False
    from store_loop_any [OF assms(1) nm, of env 1 "[]"] show ?thesis
    proof (elim disjE exE conjE bexE)
      fix b c2 k' assume l: "store_loop cd env 1 blocks [] ?c = (Inl (b, FcCancelled, ByRequest), c2)" "env_cancelled env k'"
        "wrote cd content (sr_fingerprint ` set blocks) ?c c2"
      note w = wroteD [OF l(3)]
      have "handle_store cd env n blocks c = (Inr OCancelled, c2\<lparr>co_events := co_events c2 @ [StoreFailed n b FcCancelled ByRequest]\<rparr>)"
        using False em l(1) w(3) assms(2) by (simp add: handle_store_def report_failure_def then_emit_connected)
      then show ?thesis using w(1-3,6) l(2) assms(2) by (auto simp: store_events_def)
    next
      fix r c2 assume l: "store_loop cd env 1 blocks [] ?c = (Inl (sr_block_id r, FcFailed, NotConfigured), c2)"
        "store_of (sr_target r) ?c = None" "wrote cd content (sr_fingerprint ` set blocks) ?c c2" "r \<in> set blocks"
      note w = wroteD [OF l(3)]
      have "handle_store cd env n blocks c = (Inr OFailed, c2\<lparr>co_events := co_events c2 @ [StoreFailed n (sr_block_id r) FcFailed NotConfigured]\<rparr>)"
        using False em l(1) w(3) assms(2) by (simp add: handle_store_def report_failure_def then_emit_connected)
      then show ?thesis using w(1-3,6) l(2,4) assms(2) by (auto simp: store_events_def)
    next
      fix ls c2 assume l: "store_loop cd env 1 blocks [] ?c = (Inr ([] @ ls), c2)" "list_all2 (stored_or_kept cd content ?c c2) blocks ls"
        "wrote cd content (sr_fingerprint ` set blocks) ?c c2"
      note w = wroteD [OF l(3)]
      have "handle_store cd env n blocks c = (Inr OCompleted, c2\<lparr>co_events := co_events c2 @ [StoreCompleted n ls]\<rparr>)"
        using False em l(1) w(3) assms(2) by (simp add: handle_store_def then_emit_connected)
      then show ?thesis using w(1-3,6) l(2) assms(2) by (auto simp: store_events_def)
    qed
  qed
qed

lemma store_ready_named: "store_ready cd content c r \<Longrightarrow> named_by_content content c r"
  by (simp add: store_ready_def named_by_content_def)



text \<open>
  (C21) A store of blocks that are named by their content, while the receiver of the events is alive, ends in
  one of three ways, and never touches the pools nor any other block of either store. It is
  cancelled; or it fails at a request for a store that is not configured; or it completes, and the
  event names, in order, a location for every block. That location reads the content of the block,
  except where the shared file system already had a file of that name: the code does not look into
  it, and the location reads what the file held, if anything (\<open>stored_or_kept\<close>).
\<close>

theorem store_persists_unless_cancelled:
  assumes "codecs_ok cd" "co_receiver c" "\<forall>r\<in>set blocks. named_by_content content c r"
  shows "\<exists>out c'. handle_store cd env n blocks c = (Inr out, c') \<and> co_pools c' = co_pools c
    \<and> (\<forall>tg fp. fp \<notin> sr_fingerprint ` set blocks \<longrightarrow> block_in cd c' tg fp = block_in cd c tg fp)
    \<and> (out = OCancelled \<and> (\<exists>k. env_cancelled env k) \<and> (\<exists>b. store_events n blocks c (StoreFailed n b FcCancelled ByRequest) c')
     \<or> out = OFailed \<and> (\<exists>r\<in>set blocks. store_of (sr_target r) c = None
           \<and> store_events n blocks c (StoreFailed n (sr_block_id r) FcFailed NotConfigured) c')
     \<or> out = OCompleted \<and> (\<exists>locs. store_events n blocks c (StoreCompleted n locs) c'
           \<and> list_all2 (stored_or_kept cd content c c') blocks locs))"
  using handle_store_any [OF assms, of env n] by blast


subsection \<open>Every command settles\<close>

lemma store_one_keeps:
  assumes "store_one cd r c = (res, c')"
  shows "co_pools c' = co_pools c" "co_events c' = co_events c" "co_receiver c' = co_receiver c"
  using assms
  by (auto simp: store_one_def store_on_disk_def store_on_shared_def Let_def
      split: sum.splits store_target.splits option.splits prod.splits bool.splits kv_backend_completion.splits)

lemma store_loop_keeps:
  "store_loop cd env k bs locs c = (res, c') \<Longrightarrow>
     co_pools c' = co_pools c \<and> co_events c' = co_events c \<and> co_receiver c' = co_receiver c"
proof (induction bs arbitrary: k locs c)
  case (Cons b bs)
  then show ?case using store_one_keeps [of cd b c] by (fastforce split: if_splits prod.splits sum.splits)
qed simp

definition ends_with :: "queue_ticket \<Rightarrow> queue_outcome \<Rightarrow> coordinator_event \<Rightarrow> bool" where
  "ends_with t out ev \<longleftrightarrow> (case t of
     TPlan n \<Rightarrow> (\<exists>plans. out = OCompleted \<and> ev = PlanCompleted n plans) \<or> (\<exists>b cl rs. out = into_outcome cl \<and> ev = PlanFailed n b cl rs)
   | TStore n \<Rightarrow> (\<exists>locs. out = OCompleted \<and> ev = StoreCompleted n locs) \<or> (\<exists>b cl rs. out = into_outcome cl \<and> ev = StoreFailed n b cl rs)
   | TFetch n \<Rightarrow> (\<exists>fbs. out = OCompleted \<and> ev = FetchCompleted n fbs) \<or> (\<exists>b cl rs. out = into_outcome cl \<and> ev = FetchFailed n b cl rs))"

lemma handle_store_ends:
  assumes "co_receiver c"
  shows "\<exists>out c' ev. handle_store cd env n blocks c = (Inr out, c') \<and> co_pools c' = co_pools c \<and> co_receiver c'
    \<and> co_events c' = co_events c @ [StoreQueued n (length blocks), ev] \<and> ends_with (TStore n) out ev"
proof -
  let ?c = "c\<lparr>co_events := co_events c @ [StoreQueued n (length blocks)]\<rparr>"
  have em: "emit_required (StoreQueued n (length blocks)) c = (Inr (), ?c)" using assms by (simp add: emit_required_def)
  show ?thesis
  proof (cases "env_cancelled env 0")
    case True
    then show ?thesis using assms em by (simp add: handle_store_def report_failure_def then_emit_connected ends_with_def)
  next
    case False
    obtain res c2 where l: "store_loop cd env 1 blocks [] ?c = (res, c2)" by fastforce
    note keeps = store_loop_keeps [OF l]
    show ?thesis
    proof (cases res)
      case (Inl f)
      obtain b cl rs where "f = (b, cl, rs)" by (cases f) auto
      then show ?thesis using False em l Inl keeps assms
        by (simp add: handle_store_def report_failure_def then_emit_connected ends_with_def)
    next
      case (Inr locs)
      then show ?thesis using False em l keeps assms by (simp add: handle_store_def then_emit_connected ends_with_def)
    qed
  qed
qed

fun begins_with :: "queue_ticket \<Rightarrow> coordinator_event \<Rightarrow> bool" where
  "begins_with (TPlan n) ev \<longleftrightarrow> (\<exists>k. ev = PlanQueued n k)"
| "begins_with (TStore n) ev \<longleftrightarrow> (\<exists>k. ev = StoreQueued n k)"
| "begins_with (TFetch n) ev \<longleftrightarrow> (\<exists>k. ev = FetchQueued n k)"

text \<open>The events that reach the channel: those of a plan are dropped while it is full, the others wait for room.\<close>

fun events_sent :: "environment \<Rightarrow> queue_ticket \<Rightarrow> coordinator_event \<Rightarrow> coordinator_event \<Rightarrow> coordinator_event list" where
  "events_sent env (TPlan n) queued ev = (if env_room env 0 then [queued] else []) @ (if env_room env 1 then [ev] else [])"
| "events_sent env (TStore n) queued ev = [queued, ev]"
| "events_sent env (TFetch n) queued ev = [queued, ev]"

lemma handle_plan_ends:
  assumes "co_receiver c"
  shows "\<exists>out c' ev. handle_plan env n blocks c = (Inr out, c') \<and> co_pools c' = co_pools c
    \<and> co_events c' = co_events c @ events_sent env (TPlan n) (PlanQueued n (length blocks)) ev \<and> ends_with (TPlan n) out ev"
proof -
  define ev out where "ev = (if env_cancelled env 0
      then PlanFailed n (case blocks of [] \<Rightarrow> 0 | b # _ \<Rightarrow> pp_block_id b) FcCancelled ByRequest
      else PlanCompleted n (map (\<lambda>b. \<lparr>pf_block_id = pp_block_id b, pf_action = plan_action (pp_source b)\<rparr>) blocks))"
    and "out = (if env_cancelled env 0 then OCancelled else OCompleted)"
  have "ends_with (TPlan n) out ev"
    by (auto simp: ends_with_def ev_def out_def intro: exI [of _ FcCancelled])
  moreover have "handle_plan env n blocks c = (Inr out,
      emit_observability env 1 ev (emit_observability env 0 (PlanQueued n (length blocks)) c))"
    by (simp add: handle_plan_def Let_def report_failure_def ev_def out_def)
  ultimately show ?thesis using assms by (auto simp: emit_observability_def)
qed

lemma handle_fetch_ends:
  assumes "pools_ok c" "co_receiver c" "\<forall>r\<in>set blocks. source_typed cd (fr_source r)"
  shows "\<exists>out c' ev. handle_fetch cd env n blocks c = Some (Inr out, c') \<and> pools_ok c'
    \<and> co_events c' = co_events c @ [FetchQueued n (length blocks), ev] \<and> ends_with (TFetch n) out ev"
  using handle_fetch_spec [OF assms, of env n] by (auto simp: fetch_completed_def fetch_failed_def ends_with_def)

definition command_typed :: "codecs \<Rightarrow> coordinator_command \<Rightarrow> bool" where
  "command_typed cd cmd \<longleftrightarrow> (case cmd of CmdFetch _ blocks \<Rightarrow> \<forall>r\<in>set blocks. source_typed cd (fr_source r) | _ \<Rightarrow> True)"

fun command_ticket :: "coordinator_command \<Rightarrow> queue_ticket option" where
  "command_ticket (CmdPlan n _) = Some (TPlan n)"
| "command_ticket (CmdStore n _) = Some (TStore n)"
| "command_ticket (CmdFetch n _) = Some (TFetch n)"
| "command_ticket CmdShutdown = None"

text \<open>
  (C22) While the receiver of the events is alive, every turn of the worker takes the oldest command, ends it with
  one outcome, which it records in the control, and goes on. A store or a fetch sends exactly two events,
  that it was taken up and one final event with that outcome; a plan makes the same two, but each of them
  is dropped if the channel is full at that moment. The pools stay sound, so that the next command can rely
  on the same.
\<close>

theorem every_command_settles:
  assumes "pools_ok (rt_coordinator rt)" "co_receiver (rt_coordinator rt)"
    and "rt_commands rt = cmd # cmds" "command_typed cd cmd" "command_ticket cmd = Some t"
  shows "\<exists>out rt' queued ev. run_once cd env rt = Some (Inr True, rt') \<and> rt_commands rt' = cmds
    \<and> rt_control rt' = on_finish t out (on_start t (rt_control rt)) \<and> pools_ok (rt_coordinator rt')
    \<and> co_events (rt_coordinator rt') = co_events (rt_coordinator rt) @ events_sent env t queued ev
    \<and> begins_with t queued \<and> ends_with t out ev"
proof (cases cmd)
  case (CmdPlan n blocks)
  obtain out c' ev where h: "handle_plan env n blocks (rt_coordinator rt) = (Inr out, c')"
    "co_pools c' = co_pools (rt_coordinator rt)"
    "co_events c' = co_events (rt_coordinator rt) @ events_sent env (TPlan n) (PlanQueued n (length blocks)) ev"
    "ends_with (TPlan n) out ev"
    using handle_plan_ends [OF assms(2), of env n blocks] by blast
  have "run_once cd env rt = Some (Inr True, (started (TPlan n) cmds rt)\<lparr>rt_coordinator := c',
      rt_control := on_finish (TPlan n) out (on_start (TPlan n) (rt_control rt))\<rparr>)"
    using h(1) assms(3) CmdPlan by (simp add: run_once_def settle_def started_def)
  moreover have "pools_ok c'" using assms(1) h(2) by (simp add: pools_ok_def)
  ultimately show ?thesis using h(3,4) assms(5) CmdPlan
    by (intro exI [of _ out] exI [of _ "PlanQueued n (length blocks)"] exI [of _ ev] exI) (auto simp: started_def)
next
  case (CmdStore n blocks)
  obtain out c' ev where h: "handle_store cd env n blocks (rt_coordinator rt) = (Inr out, c')"
    "co_pools c' = co_pools (rt_coordinator rt)" "co_events c' = co_events (rt_coordinator rt) @ [StoreQueued n (length blocks), ev]"
    "ends_with (TStore n) out ev"
    using handle_store_ends [OF assms(2), of cd env n blocks] by blast
  then show ?thesis using assms(1,3,5) CmdStore by (fastforce simp: run_once_def settle_def started_def pools_ok_def)
next
  case (CmdFetch n blocks)
  obtain out c' ev where h: "handle_fetch cd env n blocks (rt_coordinator rt) = Some (Inr out, c')" "pools_ok c'"
    "co_events c' = co_events (rt_coordinator rt) @ [FetchQueued n (length blocks), ev]" "ends_with (TFetch n) out ev"
    using handle_fetch_ends [OF assms(1,2), of blocks cd env n] assms(4) CmdFetch by (auto simp: command_typed_def)
  then show ?thesis using assms(3,5) CmdFetch by (fastforce simp: run_once_def settle_def started_def)
qed (use assms(5) in simp)

subsection \<open>Concrete instances\<close>

definition demo_cd :: codecs where
  "demo_cd = \<lparr>cd_enc = demo_enc, cd_dec = demo_dec, cd_denc = demo_denc, cd_ddec = demo_ddec\<rparr>"

definition demo_co :: coordinator where
  "demo_co = \<lparr>co_disk_store = Some demo_store, co_shared_backend = Some (disk_store_new [Normal ''nfs'']), co_fs = demo_fs,
     co_pools = (\<lambda>_. demo_pool), co_events = [], co_receiver = True\<rparr>"

definition demo_env :: environment where
  "demo_env = \<lparr>env_cancelled = (\<lambda>_. False), env_room = (\<lambda>_. True)\<rparr>"

definition demo_store_requests :: "store_request list" where
  "demo_store_requests = [\<lparr>sr_block_id = 4, sr_fingerprint = demo_fp, sr_kv_format_tag = 1, sr_host_pool = 0,
     sr_host_region = \<lparr>r_offset = 16, r_len = 8\<rparr>, sr_target = ToDisk\<rparr>,
     \<lparr>sr_block_id = 5, sr_fingerprint = demo_fp, sr_kv_format_tag = 1, sr_host_pool = 0,
     sr_host_region = \<lparr>r_offset = 16, r_len = 8\<rparr>, sr_target = ToRemote\<rparr>]"

lemma demo_ok: "codecs_ok demo_cd" "pools_ok demo_co" "co_receiver demo_co"
  using demo_codec_ok demo_desc_codec_ok pool_reach(1) [OF demo_pool_reachable]
  by (simp_all add: codecs_ok_def demo_cd_def pools_ok_def demo_co_def)

lemma demo_read: "read_region \<lparr>r_offset = 16, r_len = 8\<rparr> demo_pool = Inr [0, 0, 0, 0, 0, 0, 0, 0]"
  by code_simp

lemma demo_ready: "\<forall>r\<in>set demo_store_requests. store_ready demo_cd (\<lambda>_. [0, 0, 0, 0, 0, 0, 0, 0]) demo_co r"
  by (simp add: demo_store_requests_def store_ready_def demo_read demo_co_def store_of_def file_in_def contains_block_def
      demo_fs_def demo_fp_def u64_max_def)

theorem store_persists_unless_cancelled_witness:
  "\<exists>c1 locs. handle_store demo_cd demo_env 9 demo_store_requests demo_co = (Inr OCompleted, c1)
     \<and> store_events 9 demo_store_requests demo_co (StoreCompleted 9 locs) c1
     \<and> list_all2 (stored_or_kept demo_cd (\<lambda>_. [0, 0, 0, 0, 0, 0, 0, 0]) demo_co c1) demo_store_requests locs"
proof -
  have named: "\<forall>r\<in>set demo_store_requests. named_by_content (\<lambda>_. [0, 0, 0, 0, 0, 0, 0, 0]) demo_co r"
    using demo_ready store_ready_named by blast
  have conf: "\<not> (\<exists>r\<in>set demo_store_requests. store_of (sr_target r) demo_co = None \<and> P r)" for P
    using demo_ready by (auto simp: store_ready_def)
  have "\<not> (\<exists>k. env_cancelled demo_env k)" by (simp add: demo_env_def)
  then show ?thesis using store_persists_unless_cancelled [OF demo_ok(1,3) named, of demo_env 9] conf by blast
qed



theorem every_command_settles_witness:
  "\<exists>out rt'. run_once demo_cd demo_env \<lparr>rt_coordinator = demo_co, rt_control = on_submit (TFetch 7) (control_new 4),
        rt_commands = [CmdFetch 7 [\<lparr>fr_block_id = 3, fr_source = Disk demo_fp 8, fr_byte_len = 8, fr_host_pool = 0\<rparr>], CmdShutdown],
        rt_senders = True\<rparr> = Some (Inr True, rt') \<and> rt_commands rt' = [CmdShutdown]
      \<and> rt_control rt' = on_finish (TFetch 7) out (on_start (TFetch 7) (on_submit (TFetch 7) (control_new 4)))"
proof -
  have "command_typed demo_cd (CmdFetch 7 [\<lparr>fr_block_id = 3, fr_source = Disk demo_fp 8, fr_byte_len = 8, fr_host_pool = 0\<rparr>])"
    by (simp add: command_typed_def source_typed_def demo_fp_def)
  from every_command_settles [of "\<lparr>rt_coordinator = demo_co, rt_control = on_submit (TFetch 7) (control_new 4),
        rt_commands = [CmdFetch 7 [\<lparr>fr_block_id = 3, fr_source = Disk demo_fp 8, fr_byte_len = 8, fr_host_pool = 0\<rparr>], CmdShutdown],
        rt_senders = True\<rparr>" _ "[CmdShutdown]" demo_cd "TFetch 7" demo_env, OF _ _ _ this] demo_ok(2,3)
  show ?thesis by auto
qed

subsection \<open>Readmission plans\<close>

lemma source_counts_staged:
  "source_counts bs = (h, d, r) \<Longrightarrow> h + d + r = length (filter (\<lambda>b. rb_source b \<noteq> None) bs)"
  by (induction bs arbitrary: h d r) (auto split: prod.splits option.splits readmission_source.splits)

text \<open>
  A plan is turned into requests as a whole or not at all: one request per staged block, in the
  order of the key that identifies the fetch.
\<close>

lemma fetch_requests_cover_staged:
  assumes "fetch_requests pool p = Some rs"
  shows "length rs = length (filter (\<lambda>b. rb_source b \<noteq> None) (rp_blocks p)) \<and> set rs \<subseteq> {r. fr_host_pool r = pool}
    \<and> (fetch_key p = None \<longleftrightarrow> rs = [])"
proof -
  let ?f = "\<lambda>b. Option.bind (rb_source b) (source_fetch_request (rb_block_id b) pool)"
  have rs: "rs = List.map_filter ?f (rp_blocks p)" and len: "length rs = length (filter (\<lambda>b. rb_source b \<noteq> None) (rp_blocks p))"
    using assms by (auto simp: fetch_requests_def Let_def split: if_splits)
  have "set rs \<subseteq> {r. fr_host_pool r = pool}"
    unfolding rs
    by (auto simp: map_filter_def source_fetch_request_def split: option.splits readmission_source.splits if_splits bind_splits)
  moreover have "fetch_key p = None \<longleftrightarrow> rs = []"
    using len by (simp add: fetch_key_def Let_def) (metis length_0_conv)
  ultimately show ?thesis using len by blast
qed


end
