(* ===== verification/Parallel_Layout.thy ===== *)
theory Parallel_Layout
  imports Prelude
begin

text \<open>
  How ranks, tensors and experts are laid out over devices: tensor-parallel shards and the rank
  groups of the parallel axes (\<open>tensor_parallel.rs\<close>), the named groups of one rank
  (\<open>distributed/parallel_state.rs\<close>), pipeline stages (\<open>distributed/pipeline_state.rs\<close>) and the
  placement of experts (\<open>distributed/expert_state.rs\<close>). Sizes are naturals: the products of axis
  sizes are taken without overflow. The group builders divide by sizes that validation has
  checked to be positive; they are only called on validated configurations, and no theorem speaks
  about them elsewhere. Error messages are left out, so all errors are one value.
\<close>

datatype layout_error = LayoutError

text \<open>The operator \<open>?\<close> on results.\<close>

definition try_then :: "'e + 'a \<Rightarrow> ('a \<Rightarrow> 'e + 'b) \<Rightarrow> 'e + 'b" where
  "try_then r k = (case r of Inl e \<Rightarrow> Inl e | Inr x \<Rightarrow> k x)"

lemma try_then_simps [simp]: "try_then (Inl e) k = Inl e" "try_then (Inr x) k = k x"
  by (simp_all add: try_then_def)

lemma try_then_Inr: "try_then r k = Inr y \<longleftrightarrow> (\<exists>x. r = Inr x \<and> k x = Inr y)"
  by (cases r) auto

subsection \<open>Tensor-parallel shards\<close>

record tp_config =
  tpc_world_size :: nat
  tpc_rank :: nat

definition tp_single :: tp_config where
  "tp_single = \<lparr>tpc_world_size = 1, tpc_rank = 0\<rparr>"

definition tp_new :: "nat \<Rightarrow> nat \<Rightarrow> layout_error + tp_config" where
  "tp_new world_size rank = (if world_size = 0 then Inl LayoutError
     else if rank \<ge> world_size then Inl LayoutError
     else Inr \<lparr>tpc_world_size = world_size, tpc_rank = rank\<rparr>)"

definition tp_is_single :: "tp_config \<Rightarrow> bool" where
  "tp_is_single tp \<longleftrightarrow> tpc_world_size tp = 1"

definition tp_validate :: "tp_config \<Rightarrow> layout_error + unit" where
  "tp_validate tp = (if tpc_world_size tp = 0 then Inl LayoutError
     else if tpc_rank tp \<ge> tpc_world_size tp then Inl LayoutError else Inr ())"

record sharding_spec =
  sh_offset :: nat
  sh_size :: nat
  sh_total :: nat

definition shard_end :: "sharding_spec \<Rightarrow> nat" where
  "shard_end s = sh_offset s + sh_size s"

definition shard_range :: "sharding_spec \<Rightarrow> nat list" where
  "shard_range s = [sh_offset s..<shard_end s]"

definition shard_is_full :: "sharding_spec \<Rightarrow> bool" where
  "shard_is_full s \<longleftrightarrow> sh_offset s = 0 \<and> sh_size s = sh_total s"

text \<open>\<open>None\<close> is the failed assertion, or the division by a world size of zero.\<close>

definition column_shard :: "nat \<Rightarrow> tp_config \<Rightarrow> sharding_spec option" where
  "column_shard dim tp = (if dim < tpc_world_size tp \<or> tpc_world_size tp = 0 then None
     else let base = dim div tpc_world_size tp;
              remainder = dim mod tpc_world_size tp;
              offset = tpc_rank tp * base;
              size = (if tpc_rank tp = tpc_world_size tp - 1 then base + remainder else base)
          in Some \<lparr>sh_offset = offset, sh_size = size, sh_total = dim\<rparr>)"

definition row_shard :: "nat \<Rightarrow> tp_config \<Rightarrow> sharding_spec option" where
  "row_shard dim tp = column_shard dim tp"

definition head_shard :: "nat \<Rightarrow> nat \<Rightarrow> tp_config \<Rightarrow> (layout_error + nat \<times> nat) option" where
  "head_shard num_q_heads num_kv_heads tp =
     (if \<not> tpc_world_size tp dvd num_q_heads then Some (Inl LayoutError)
      else if \<not> tpc_world_size tp dvd num_kv_heads then Some (Inl LayoutError)
      else if tpc_world_size tp = 0 then None
      else Some (Inr (num_q_heads div tpc_world_size tp, num_kv_heads div tpc_world_size tp)))"

datatype parallel_linear_kind = LinColumn | LinRow

record tp_linear_config =
  lin_kind :: parallel_linear_kind
  lin_shard :: sharding_spec
  lin_needs_all_reduce :: bool

definition linear_column :: "nat \<Rightarrow> tp_config \<Rightarrow> tp_linear_config option" where
  "linear_column out_features tp = map_option (\<lambda>s. \<lparr>lin_kind = LinColumn, lin_shard = s, lin_needs_all_reduce = True\<rparr>)
     (column_shard out_features tp)"

definition linear_row :: "nat \<Rightarrow> tp_config \<Rightarrow> tp_linear_config option" where
  "linear_row in_features tp = map_option (\<lambda>s. \<lparr>lin_kind = LinRow, lin_shard = s, lin_needs_all_reduce = True\<rparr>)
     (row_shard in_features tp)"

subsection \<open>The parallel axes and the coordinates of a rank\<close>

record multi_axis_config =
  tp_size :: nat
  pp_size :: nat
  ep_size :: nat
  attn_dp_size :: nat
  attn_cp_size :: nat
  moe_dp_size :: nat

definition axes_single :: multi_axis_config where
  "axes_single = \<lparr>tp_size = 1, pp_size = 1, ep_size = 1, attn_dp_size = 1, attn_cp_size = 1, moe_dp_size = 1\<rparr>"

definition axes_validate :: "multi_axis_config \<Rightarrow> layout_error + unit" where
  "axes_validate cfg =
     (if tp_size cfg = 0 \<or> pp_size cfg = 0 \<or> ep_size cfg = 0 \<or> attn_dp_size cfg = 0 \<or> attn_cp_size cfg = 0
         \<or> moe_dp_size cfg = 0 then Inl LayoutError
      else let attn_div = attn_dp_size cfg * attn_cp_size cfg in
        if \<not> attn_div dvd tp_size cfg then Inl LayoutError
        else let moe_div = ep_size cfg * moe_dp_size cfg in
          if \<not> moe_div dvd tp_size cfg then Inl LayoutError else Inr ())"

definition world_size :: "multi_axis_config \<Rightarrow> nat" where
  "world_size cfg = tp_size cfg * pp_size cfg"

definition attn_tp_size :: "multi_axis_config \<Rightarrow> nat" where
  "attn_tp_size cfg = tp_size cfg div attn_dp_size cfg div attn_cp_size cfg"

definition moe_tp_size :: "multi_axis_config \<Rightarrow> nat" where
  "moe_tp_size cfg = tp_size cfg div ep_size cfg div moe_dp_size cfg"

record rank_coord =
  rk_world_rank :: nat
  rk_tp_rank :: nat
  rk_pp_rank :: nat
  rk_attn_tp_rank :: nat
  rk_attn_dp_rank :: nat
  rk_attn_cp_rank :: nat
  rk_moe_tp_rank :: nat
  rk_moe_ep_rank :: nat
  rk_moe_dp_rank :: nat

definition from_world_rank :: "multi_axis_config \<Rightarrow> nat \<Rightarrow> layout_error + rank_coord" where
  "from_world_rank cfg world_rank = try_then (axes_validate cfg) (\<lambda>_.
     if world_rank \<ge> world_size cfg then Inl LayoutError
     else let tp_rank = world_rank mod tp_size cfg;
              pp_rank = world_rank div tp_size cfg;
              attn_tp = attn_tp_size cfg;
              attn_tp_rank = tp_rank mod attn_tp;
              attn_cp_rank = (tp_rank div attn_tp) mod attn_cp_size cfg;
              attn_dp_rank = tp_rank div (attn_tp * attn_cp_size cfg);
              moe_tp = moe_tp_size cfg;
              moe_tp_rank = tp_rank mod moe_tp;
              moe_ep_rank = (tp_rank div moe_tp) mod ep_size cfg;
              moe_dp_rank = tp_rank div (moe_tp * ep_size cfg)
          in Inr \<lparr>rk_world_rank = world_rank, rk_tp_rank = tp_rank, rk_pp_rank = pp_rank,
                 rk_attn_tp_rank = attn_tp_rank, rk_attn_dp_rank = attn_dp_rank, rk_attn_cp_rank = attn_cp_rank,
                 rk_moe_tp_rank = moe_tp_rank, rk_moe_ep_rank = moe_ep_rank, rk_moe_dp_rank = moe_dp_rank\<rparr>)"

subsection \<open>The groups of every axis\<close>

text \<open>The iterator \<open>(st..en).step_by(k)\<close> for a positive step.\<close>

function step_by :: "nat \<Rightarrow> nat \<Rightarrow> nat \<Rightarrow> nat list" where
  "step_by st en k = (if st < en \<and> 0 < k then st # step_by (st + k) en k else [])"
  by pat_completeness auto
termination by (relation "measure (\<lambda>(st, en, k). en - st)") auto

declare step_by.simps [simp del]

definition build_tp_groups :: "multi_axis_config \<Rightarrow> nat list list" where
  "build_tp_groups cfg = (let num_tp_groups = world_size cfg div tp_size cfg in
     map (\<lambda>tp_group_idx. [tp_group_idx * tp_size cfg..<(tp_group_idx + 1) * tp_size cfg]) [0..<num_tp_groups])"

definition build_pp_groups :: "multi_axis_config \<Rightarrow> nat list list" where
  "build_pp_groups cfg = (let num_pp_groups = world_size cfg div pp_size cfg in
     map (\<lambda>pp_group_idx. step_by pp_group_idx (world_size cfg) num_pp_groups) [0..<num_pp_groups])"

definition build_attn_cp_groups :: "multi_axis_config \<Rightarrow> nat list list" where
  "build_attn_cp_groups cfg = (if attn_cp_size cfg = tp_size cfg then build_tp_groups cfg
     else let num_tp_groups = world_size cfg div tp_size cfg; attn_tp = attn_tp_size cfg in
       concat (map (\<lambda>tp_group_idx. concat (map (\<lambda>dp_idx. map (\<lambda>attn_tp_idx.
         step_by (tp_group_idx * tp_size cfg + dp_idx * attn_tp * attn_cp_size cfg + attn_tp_idx)
                 (tp_group_idx * tp_size cfg + (dp_idx + 1) * attn_tp * attn_cp_size cfg + attn_tp_idx) attn_tp)
         [0..<attn_tp]) [0..<attn_dp_size cfg])) [0..<num_tp_groups]))"

definition build_attn_tp_groups :: "multi_axis_config \<Rightarrow> nat list list" where
  "build_attn_tp_groups cfg = (let attn_tp = attn_tp_size cfg in
     if attn_tp = tp_size cfg then build_tp_groups cfg
     else let num_tp_groups = world_size cfg div tp_size cfg in
       concat (map (\<lambda>tp_group_idx. map (\<lambda>cp_dp_combined_idx.
         [tp_group_idx * tp_size cfg + cp_dp_combined_idx * attn_tp
           ..<tp_group_idx * tp_size cfg + (cp_dp_combined_idx + 1) * attn_tp])
         [0..<attn_cp_size cfg * attn_dp_size cfg]) [0..<num_tp_groups]))"

definition build_attn_dp_groups :: "multi_axis_config \<Rightarrow> nat list list" where
  "build_attn_dp_groups cfg = (if attn_dp_size cfg = 1 then map (\<lambda>r. [r]) [0..<world_size cfg]
     else let num_tp_groups = world_size cfg div tp_size cfg; attn_tp = attn_tp_size cfg; stride = attn_tp * attn_cp_size cfg in
       concat (map (\<lambda>tp_group_idx. concat (map (\<lambda>cp_idx. map (\<lambda>attn_tp_idx.
         step_by (tp_group_idx * tp_size cfg + cp_idx * attn_tp + attn_tp_idx)
                 (tp_group_idx * tp_size cfg + tp_size cfg) stride)
         [0..<attn_tp]) [0..<attn_cp_size cfg])) [0..<num_tp_groups]))"

definition build_moe_dp_groups :: "multi_axis_config \<Rightarrow> nat list list" where
  "build_moe_dp_groups cfg = (if attn_cp_size cfg > moe_dp_size cfg then build_attn_cp_groups cfg
     else if moe_dp_size cfg = tp_size cfg then build_tp_groups cfg
     else let num_tp_groups = world_size cfg div tp_size cfg; moe_tp = moe_tp_size cfg; stride = moe_tp * ep_size cfg in
       concat (map (\<lambda>tp_group_idx. map (\<lambda>tp_ep_combined_idx.
         step_by (tp_group_idx * tp_size cfg + tp_ep_combined_idx)
                 ((tp_group_idx + 1) * tp_size cfg + tp_ep_combined_idx) stride)
         [0..<moe_tp * ep_size cfg]) [0..<num_tp_groups]))"

definition build_moe_ep_groups :: "multi_axis_config \<Rightarrow> nat list list" where
  "build_moe_ep_groups cfg = (if ep_size cfg = tp_size cfg then build_tp_groups cfg
     else let num_tp_groups = world_size cfg div tp_size cfg; moe_tp = moe_tp_size cfg in
       concat (map (\<lambda>tp_group_idx. concat (map (\<lambda>moe_dp_idx. map (\<lambda>moe_tp_idx.
         let st = tp_group_idx * tp_size cfg + moe_dp_idx * ep_size cfg * moe_tp + moe_tp_idx
         in step_by st (st + ep_size cfg * moe_tp) moe_tp)
         [0..<moe_tp]) [0..<moe_dp_size cfg])) [0..<num_tp_groups]))"

definition build_moe_tp_groups :: "multi_axis_config \<Rightarrow> nat list list" where
  "build_moe_tp_groups cfg = (let moe_tp = moe_tp_size cfg in
     if moe_tp = tp_size cfg then build_tp_groups cfg
     else let num_tp_groups = world_size cfg div tp_size cfg in
       concat (map (\<lambda>tp_group_idx. map (\<lambda>ep_dp_combined_idx.
         [tp_group_idx * tp_size cfg + ep_dp_combined_idx * moe_tp
           ..<tp_group_idx * tp_size cfg + (ep_dp_combined_idx + 1) * moe_tp])
         [0..<ep_size cfg * moe_dp_size cfg]) [0..<num_tp_groups]))"

subsection \<open>The named groups of one rank\<close>

datatype parallel_group_kind = GWorld | GTensor | GPipeline | GExpert | GAttentionTensor | GAttentionData
  | GAttentionContext | GMoeTensor | GMoeExpert | GMoeData

record rank_group =
  rg_kind :: parallel_group_kind
  rg_ranks :: "nat list"
  rg_rank :: nat
  rg_rank_in_group :: nat

fun position :: "'a \<Rightarrow> 'a list \<Rightarrow> nat option" where
  "position x [] = None"
| "position x (y # ys) = (if y = x then Some 0 else map_option Suc (position x ys))"

definition rank_group_new :: "parallel_group_kind \<Rightarrow> nat list \<Rightarrow> nat \<Rightarrow> layout_error + rank_group" where
  "rank_group_new kind ranks rank = (case position rank ranks of
     None \<Rightarrow> Inl LayoutError
   | Some i \<Rightarrow> Inr \<lparr>rg_kind = kind, rg_ranks = ranks, rg_rank = rank, rg_rank_in_group = i\<rparr>)"

definition group_world_size :: "rank_group \<Rightarrow> nat" where
  "group_world_size g = length (rg_ranks g)"

definition first_rank :: "rank_group \<Rightarrow> nat option" where
  "first_rank g = get_at (rg_ranks g) 0"

definition last_rank :: "rank_group \<Rightarrow> nat option" where
  "last_rank g = (if rg_ranks g = [] then None else get_at (rg_ranks g) (length (rg_ranks g) - 1))"

definition is_first_rank :: "rank_group \<Rightarrow> bool option" where
  "is_first_rank g = map_option (\<lambda>r. rg_rank g = r) (first_rank g)"

definition is_last_rank :: "rank_group \<Rightarrow> bool option" where
  "is_last_rank g = map_option (\<lambda>r. rg_rank g = r) (last_rank g)"

definition group_containing :: "parallel_group_kind \<Rightarrow> nat list list \<Rightarrow> nat \<Rightarrow> layout_error + rank_group" where
  "group_containing kind groups rank = (case List.find (\<lambda>g. rank \<in> set g) groups of
     None \<Rightarrow> Inl LayoutError | Some ranks \<Rightarrow> rank_group_new kind ranks rank)"

record parallel_state =
  ps_config :: multi_axis_config
  ps_coord :: rank_coord
  ps_world_group :: rank_group
  ps_tp_group :: rank_group
  ps_pp_group :: rank_group
  ps_ep_group :: rank_group
  ps_attn_tp_group :: rank_group
  ps_attn_dp_group :: rank_group
  ps_attn_cp_group :: rank_group
  ps_moe_tp_group :: rank_group
  ps_moe_ep_group :: rank_group
  ps_moe_dp_group :: rank_group

definition parallel_state_new :: "multi_axis_config \<Rightarrow> nat \<Rightarrow> layout_error + parallel_state" where
  "parallel_state_new cfg r =
     try_then (axes_validate cfg) (\<lambda>_.
     try_then (from_world_rank cfg r) (\<lambda>coord.
     try_then (rank_group_new GWorld [0..<world_size cfg] r) (\<lambda>world.
     try_then (group_containing GTensor (build_tp_groups cfg) r) (\<lambda>tp.
     try_then (group_containing GPipeline (build_pp_groups cfg) r) (\<lambda>pp.
     try_then (group_containing GExpert (build_moe_ep_groups cfg) r) (\<lambda>ep.
     try_then (group_containing GAttentionTensor (build_attn_tp_groups cfg) r) (\<lambda>attn_tp.
     try_then (group_containing GAttentionData (build_attn_dp_groups cfg) r) (\<lambda>attn_dp.
     try_then (group_containing GAttentionContext (build_attn_cp_groups cfg) r) (\<lambda>attn_cp.
     try_then (group_containing GMoeTensor (build_moe_tp_groups cfg) r) (\<lambda>moe_tp.
     try_then (group_containing GMoeExpert (build_moe_ep_groups cfg) r) (\<lambda>moe_ep.
     try_then (group_containing GMoeData (build_moe_dp_groups cfg) r) (\<lambda>moe_dp.
       Inr \<lparr>ps_config = cfg, ps_coord = coord, ps_world_group = world, ps_tp_group = tp, ps_pp_group = pp,
            ps_ep_group = ep, ps_attn_tp_group = attn_tp, ps_attn_dp_group = attn_dp, ps_attn_cp_group = attn_cp,
            ps_moe_tp_group = moe_tp, ps_moe_ep_group = moe_ep, ps_moe_dp_group = moe_dp\<rparr>))))))))))))"

text \<open>The thread-local slot of the state.\<close>

definition initialize_model_parallel ::
    "multi_axis_config \<Rightarrow> nat \<Rightarrow> parallel_state option \<Rightarrow> (layout_error + unit) \<times> parallel_state option" where
  "initialize_model_parallel cfg r slot = (case parallel_state_new cfg r of
     Inl e \<Rightarrow> (Inl e, slot) | Inr ps \<Rightarrow> (Inr (), Some ps))"

definition destroy_model_parallel :: "parallel_state option \<Rightarrow> parallel_state option" where
  "destroy_model_parallel slot = None"

definition with_parallel_state :: "(parallel_state \<Rightarrow> 'a) \<Rightarrow> parallel_state option \<Rightarrow> layout_error + 'a" where
  "with_parallel_state f slot = (case slot of None \<Rightarrow> Inl LayoutError | Some ps \<Rightarrow> Inr (f ps))"

subsection \<open>Pipeline stages\<close>

record pipeline_group =
  pg_rank :: nat
  pg_world_size :: nat
  pg_stage_count :: nat
  pg_current_stage :: nat

definition pipeline_group_new :: "nat \<Rightarrow> nat \<Rightarrow> nat \<Rightarrow> nat \<Rightarrow> layout_error + pipeline_group" where
  "pipeline_group_new rank world stage_count current_stage =
     (if world = 0 then Inl LayoutError
      else if stage_count = 0 then Inl LayoutError
      else if rank \<ge> world then Inl LayoutError
      else if current_stage \<ge> stage_count then Inl LayoutError
      else if stage_count > world then Inl LayoutError
      else if \<not> stage_count dvd world then Inl LayoutError
      else Inr \<lparr>pg_rank = rank, pg_world_size = world, pg_stage_count = stage_count, pg_current_stage = current_stage\<rparr>)"

definition is_first_stage :: "pipeline_group \<Rightarrow> bool" where
  "is_first_stage g \<longleftrightarrow> pg_current_stage g = 0"

definition is_last_stage :: "pipeline_group \<Rightarrow> bool" where
  "is_last_stage g \<longleftrightarrow> pg_current_stage g + 1 = pg_stage_count g"

definition previous_stage :: "pipeline_group \<Rightarrow> nat option" where
  "previous_stage g = (if pg_current_stage g = 0 then None else Some (pg_current_stage g - 1))"

definition next_stage :: "pipeline_group \<Rightarrow> nat option" where
  "next_stage g = (if is_last_stage g then None else Some (pg_current_stage g + 1))"

text \<open>The tensors that travel between stages, with their source and target.\<close>

record 't intermediate_tensors =
  it_source_pp_rank :: nat
  it_target_pp_rank :: nat
  it_payload :: 't

definition inter_stage_send :: "pipeline_group \<Rightarrow> 't intermediate_tensors \<Rightarrow> layout_error + 't intermediate_tensors" where
  "inter_stage_send g t = (case next_stage g of
     None \<Rightarrow> Inl LayoutError
   | Some n \<Rightarrow> if it_source_pp_rank t \<noteq> pg_current_stage g \<or> it_target_pp_rank t \<noteq> n then Inl LayoutError else Inr t)"

definition inter_stage_recv :: "pipeline_group \<Rightarrow> 't intermediate_tensors \<Rightarrow> layout_error + 't intermediate_tensors" where
  "inter_stage_recv g t = (case previous_stage g of
     None \<Rightarrow> Inl LayoutError
   | Some p \<Rightarrow> if it_source_pp_rank t \<noteq> p \<or> it_target_pp_rank t \<noteq> pg_current_stage g then Inl LayoutError else Inr t)"

subsection \<open>Experts\<close>

record expert_group =
  eg_rank :: nat
  eg_world_size :: nat
  eg_num_experts :: nat
  eg_experts_per_rank :: nat
  eg_expert_to_rank :: "nat list"

definition expert_group_new :: "nat \<Rightarrow> nat \<Rightarrow> nat \<Rightarrow> layout_error + expert_group" where
  "expert_group_new rank world num_experts =
     (if world = 0 then Inl LayoutError
      else if rank \<ge> world then Inl LayoutError
      else if num_experts = 0 then Inl LayoutError
      else if \<not> world dvd num_experts then Inl LayoutError
      else let experts_per_rank = num_experts div world in
        Inr \<lparr>eg_rank = rank, eg_world_size = world, eg_num_experts = num_experts, eg_experts_per_rank = experts_per_rank,
             eg_expert_to_rank = map (\<lambda>e. e div experts_per_rank) [0..<num_experts]\<rparr>)"

definition rank_for_expert :: "expert_group \<Rightarrow> nat \<Rightarrow> nat option" where
  "rank_for_expert g e = get_at (eg_expert_to_rank g) e"

definition owns_expert :: "expert_group \<Rightarrow> nat \<Rightarrow> bool" where
  "owns_expert g e \<longleftrightarrow> rank_for_expert g e = Some (eg_rank g)"

definition local_expert_range :: "expert_group \<Rightarrow> nat \<times> nat" where
  "local_expert_range g = (let start = eg_rank g * eg_experts_per_rank g in (start, start + eg_experts_per_rank g))"

definition local_expert_idx :: "expert_group \<Rightarrow> nat \<Rightarrow> nat option" where
  "local_expert_idx g e = (if \<not> owns_expert g e then None else Some (e - fst (local_expert_range g)))"

definition global_expert_idx :: "expert_group \<Rightarrow> nat \<Rightarrow> nat option" where
  "global_expert_idx g l = (if l \<ge> eg_experts_per_rank g then None else Some (fst (local_expert_range g) + l))"

fun traverse :: "('a \<Rightarrow> 'e + 'b) \<Rightarrow> 'a list \<Rightarrow> 'e + 'b list" where
  "traverse f [] = Inr []"
| "traverse f (x # xs) = try_then (f x) (\<lambda>y. try_then (traverse f xs) (\<lambda>ys. Inr (y # ys)))"

definition mask_index :: "expert_group \<Rightarrow> int \<Rightarrow> layout_error + int" where
  "mask_index g i = (if i < 0 then Inr (-1)
     else if nat i \<ge> eg_num_experts g then Inl LayoutError
     else Inr (case local_expert_idx g (nat i) of None \<Rightarrow> -1 | Some l \<Rightarrow> int l))"

definition mask_indices_to_local :: "expert_group \<Rightarrow> int list \<Rightarrow> layout_error + int list" where
  "mask_indices_to_local g indices = traverse (mask_index g) indices"

record 'w expert_route =
  er_token_idx :: nat
  er_expert_idx :: nat
  er_weight :: 'w

record 'w expert_routing_weights =
  rw_num_experts :: nat
  rw_routes :: "'w expert_route list"

record 'w local_expert_route =
  lr_token_idx :: nat
  lr_global_expert_idx :: nat
  lr_local_expert_idx :: nat
  lr_weight :: 'w

record 'w local_expert_routing =
  lx_num_global_experts :: nat
  lx_experts_per_rank :: nat
  lx_routes :: "'w local_expert_route list"

fun localize_loop :: "expert_group \<Rightarrow> 'w expert_route list \<Rightarrow> 'w local_expert_route list \<Rightarrow> layout_error + 'w local_expert_route list" where
  "localize_loop g [] acc = Inr acc"
| "localize_loop g (r # rs) acc =
     (if er_expert_idx r \<ge> eg_num_experts g then Inl LayoutError
      else case local_expert_idx g (er_expert_idx r) of
        None \<Rightarrow> localize_loop g rs acc
      | Some l \<Rightarrow> localize_loop g rs (acc @ [\<lparr>lr_token_idx = er_token_idx r, lr_global_expert_idx = er_expert_idx r,
          lr_local_expert_idx = l, lr_weight = er_weight r\<rparr>]))"

definition localize_routing :: "expert_group \<Rightarrow> 'w expert_routing_weights \<Rightarrow> layout_error + 'w local_expert_routing" where
  "localize_routing g w = (if rw_num_experts w \<noteq> eg_num_experts g then Inl LayoutError
     else try_then (localize_loop g (rw_routes w) []) (\<lambda>routes.
       Inr \<lparr>lx_num_global_experts = eg_num_experts g, lx_experts_per_rank = eg_experts_per_rank g, lx_routes = routes\<rparr>))"

definition tilekernels_mask_index :: "nat \<Rightarrow> nat \<Rightarrow> nat \<Rightarrow> nat \<Rightarrow> int \<Rightarrow> layout_error + int" where
  "tilekernels_mask_index num_experts per_gpu tp_rank num_tp_ranks i =
     (let per_dp = num_tp_ranks * per_gpu in
      if i < 0 then Inr (-1)
      else let e = nat i in
        if e \<ge> num_experts then Inl LayoutError
        else if (e div per_gpu) mod num_tp_ranks \<noteq> tp_rank then Inr (-1)
        else let v = e - tp_rank * per_gpu;
                 dp_rank = v div per_dp;
                 l = v - dp_rank * (per_dp - per_gpu)
             in Inr (int l))"

definition tilekernels_mask_indices_by_tp_layout ::
    "int list \<Rightarrow> nat \<Rightarrow> nat \<Rightarrow> nat \<Rightarrow> nat \<Rightarrow> layout_error + int list" where
  "tilekernels_mask_indices_by_tp_layout indices num_experts num_ep_ranks tp_rank num_tp_ranks =
     (if num_experts = 0 then Inl LayoutError
      else if num_ep_ranks = 0 then Inl LayoutError
      else if num_tp_ranks = 0 then Inl LayoutError
      else if tp_rank \<ge> num_tp_ranks then Inl LayoutError
      else if \<not> num_ep_ranks dvd num_experts then Inl LayoutError
      else let per_gpu = num_experts div num_ep_ranks in
        traverse (tilekernels_mask_index num_experts per_gpu tp_rank num_tp_ranks) indices)"

end
