(* ===== verification/Parallel_Props.thy ===== *)
theory Parallel_Props
  imports Parallel_Layout "HOL-Library.Multiset"
begin

text \<open>
  The layout of ranks and experts is sound: every builder of rank groups is one of three nested
  loops over a number written in mixed radix, so its groups are the classes of ranks that agree in
  all other coordinates, and every rank finds itself at the position its coordinate says. Shards
  cut a dimension into consecutive pieces, and expert routing sends every route to one owner.
\<close>

subsection \<open>Stepping and nested loops\<close>

lemma step_by_eq:
  assumes "0 < k" and "en \<le> st + n * k" and "n = 0 \<or> st + (n - 1) * k < en"
  shows "step_by st en k = map (\<lambda>i. st + i * k) [0..<n]"
  using assms
proof (induction n arbitrary: st)
  case 0
  then show ?case by (simp add: step_by.simps [of st])
next
  case (Suc n)
  have "st \<le> st + n * k" by simp
  then have lt: "st < en" using Suc.prems by simp
  have "n = 0 \<or> st + k + (n - 1) * k < en"
  proof (cases n)
    case (Suc m)
    then show ?thesis using Suc.prems(3) by (simp add: algebra_simps)
  qed simp
  then have "step_by (st + k) en k = map (\<lambda>i. st + k + i * k) [0..<n]"
    using Suc.prems by (intro Suc.IH) (simp_all add: algebra_simps)
  then have "step_by st en k = st # map (\<lambda>i. st + k + i * k) [0..<n]"
    using lt Suc.prems(1) by (simp add: step_by.simps [of st])
  also have "\<dots> = map (\<lambda>i. st + i * k) (0 # map Suc [0..<n])" by (simp add: algebra_simps)
  also have "0 # map Suc [0..<n] = [0..<Suc n]" by (simp add: map_Suc_upt upt_conv_Cons del: upt_Suc)
  finally show ?case .
qed

lemma concat_blocks: "concat (map (\<lambda>i. map (\<lambda>j. f (i * n + j)) [0..<n]) [0..<m]) = map f [0..<m * n]"
proof (induction m)
  case (Suc m)
  have "[0..<Suc m * n] = [0..<m * n] @ map (\<lambda>j. m * n + j) [0..<n]"
    by (intro nth_equalityI) (auto simp: nth_append)
  with Suc show ?case by simp
qed simp

lemma concat_concat_blocks:
  "concat (map (\<lambda>i. concat (map (\<lambda>j. f (i * n + j)) [0..<n])) [0..<m]) = concat (map f [0..<m * n])"
proof -
  have "concat (map (\<lambda>i. concat (map (\<lambda>j. f (i * n + j)) [0..<n])) ks) = concat (concat (map (\<lambda>i. map (\<lambda>j. f (i * n + j)) [0..<n]) ks))"
    for ks by (induction ks) auto
  then show ?thesis by (simp only: concat_blocks)
qed

subsection \<open>Ranks in mixed radix\<close>

text \<open>
  The reference: a rank is \<open>a * (B * C) + b * C + c\<close> with \<open>b < B\<close> and \<open>c < C\<close>, and a group holds the
  ranks that differ in \<open>b\<close> only.
\<close>

definition strided :: "nat \<Rightarrow> nat \<Rightarrow> nat \<Rightarrow> nat list list" where
  "strided A B C = concat (map (\<lambda>a. map (\<lambda>c. map (\<lambda>b. a * (B * C) + b * C + c) [0..<B]) [0..<C]) [0..<A])"

lemma mixed_radix:
  fixes B C :: nat
  assumes "b < B" "c < C"
  shows "(a * (B * C) + b * C + c) div (B * C) = a" "(a * (B * C) + b * C + c) div C mod B = b"
    "(a * (B * C) + b * C + c) mod C = c"
proof -
  have "b * C + c < Suc b * C" using assms(2) by simp
  also have "\<dots> \<le> B * C" using assms(1) by (intro mult_le_mono1) simp
  finally have lt: "b * C + c < B * C" .
  then show "(a * (B * C) + b * C + c) div (B * C) = a"
    by (metis add.assoc add.right_neutral div_less div_mult_self3 not_less_zero)
  show "(a * (B * C) + b * C + c) mod C = c"
    using assms(2) by (metis add.assoc mod_less mod_mult_self3 mult.assoc distrib_right)
  have "(a * (B * C) + b * C + c) div C = a * B + b"
    using assms(2) by (metis add_mult_distrib div_mult_self3 div_less add.right_neutral mult.assoc not_less_zero)
  then show "(a * (B * C) + b * C + c) div C mod B = b" using assms(1) by simp
qed

lemma mixed_radix_of: "r = (r div (B * C)) * (B * C) + (r div C mod B) * C + r mod C" for r :: nat
proof -
  have "r div (B * C) = r div C div B" by (metis div_mult2_eq mult.commute)
  moreover have "r = (r div C) * C + r mod C" by simp
  moreover have "r div C = r div C div B * B + r div C mod B" by simp
  ultimately show ?thesis by (metis add_mult_distrib mult.assoc)
qed

definition rank_class :: "nat \<Rightarrow> nat \<Rightarrow> nat \<Rightarrow> nat \<Rightarrow> nat \<Rightarrow> nat list" where
  "rank_class A B C a c = filter (\<lambda>s. s div (B * C) = a \<and> s mod C = c) [0..<A * (B * C)]"

lemma strided_class:
  assumes "a < A" "c < C"
  shows "map (\<lambda>b. a * (B * C) + b * C + c) [0..<B] = rank_class A B C a c"
proof (rule sorted_distinct_set_unique)
  have "0 < C" using assms(2) by simp
  have mono: "strict_mono (\<lambda>b. a * (B * C) + b * C + c)" using \<open>0 < C\<close> by (simp add: strict_mono_def)
  then show "sorted (map (\<lambda>b. a * (B * C) + b * C + c) [0..<B])"
    by (simp add: sorted_map sorted_wrt_upt strict_mono_less_eq sorted_wrt_iff_nth_less)
  show "distinct (map (\<lambda>b. a * (B * C) + b * C + c) [0..<B])"
    using mono by (simp add: distinct_map strict_mono_on_imp_inj_on strict_mono_imp_inj_on inj_on_subset)
  show "sorted (rank_class A B C a c)" "distinct (rank_class A B C a c)"
    by (simp_all add: rank_class_def sorted_wrt_filter)
  show "set (map (\<lambda>b. a * (B * C) + b * C + c) [0..<B]) = set (rank_class A B C a c)"
  proof (intro equalityI subsetI)
    fix s assume "s \<in> set (map (\<lambda>b. a * (B * C) + b * C + c) [0..<B])"
    then obtain b where b: "b < B" "s = a * (B * C) + b * C + c" by auto
    have "s div (B * C) = a" "s mod C = c" using mixed_radix [OF b(1) assms(2), of a] b(2) by simp_all
    moreover have "0 < B * C" using b(1) assms(2) by auto
    ultimately show "s \<in> set (rank_class A B C a c)"
      using assms(1) by (auto simp: rank_class_def div_less_iff_less_mult [symmetric])
  next
    fix s assume "s \<in> set (rank_class A B C a c)"
    then have s: "s div (B * C) = a" "s mod C = c" "s < A * (B * C)" by (simp_all add: rank_class_def)
    then have "0 < B" by (cases B) simp_all
    then have "s div C mod B < B" by simp
    moreover have "s = a * (B * C) + (s div C mod B) * C + c" using mixed_radix_of [of s B C] s by simp
    ultimately show "s \<in> set (map (\<lambda>b. a * (B * C) + b * C + c) [0..<B])" by auto
  qed
qed

lemma set_strided: "set (strided A B C) = {rank_class A B C a c |a c. a < A \<and> c < C}"
proof -
  have "map (\<lambda>a. map (\<lambda>c. map (\<lambda>b. a * (B * C) + b * C + c) [0..<B]) [0..<C]) [0..<A]
      = map (\<lambda>a. map (\<lambda>c. rank_class A B C a c) [0..<C]) [0..<A]"
    using strided_class [of _ A _ C B] by simp
  then show ?thesis unfolding strided_def by (simp only: set_concat set_map set_upt UN_simps) (auto, blast)
qed

lemma position_nth: "distinct xs \<Longrightarrow> i < length xs \<Longrightarrow> position (xs ! i) xs = Some i"
  by (induction xs arbitrary: i) (auto simp: nth_Cons split: nat.splits)

lemma find_unique:
  assumes "x \<in> set xs" "P x" "\<And>y. y \<in> set xs \<Longrightarrow> P y \<Longrightarrow> y = x"
  shows "List.find P xs = Some x"
proof -
  have "(\<exists>y\<in>set xs. P y) \<Longrightarrow> \<exists>y. List.find P xs = Some y" by (induction xs) auto
  then obtain y where y: "List.find P xs = Some y" using assms(1,2) by blast
  then have "y \<in> set xs" "P y" by (auto simp: find_Some_iff)
  with assms(3) y show ?thesis by blast
qed

lemma group_containing_strided:
  assumes "r < A * (B * C)"
  shows "group_containing kind (strided A B C) r = Inr \<lparr>rg_kind = kind,
    rg_ranks = filter (\<lambda>s. s div (B * C) = r div (B * C) \<and> s mod C = r mod C) [0..<A * (B * C)],
    rg_rank = r, rg_rank_in_group = r div C mod B\<rparr>"
proof -
  let ?a = "r div (B * C)" and ?b = "r div C mod B" and ?c = "r mod C"
  let ?g = "rank_class A B C ?a ?c"
  have pos: "0 < B * C" using assms by (cases "B * C") simp_all
  then have ac: "?a < A" "?c < C" "?b < B" using assms by (simp_all add: div_less_iff_less_mult)
  have "List.find (\<lambda>g. r \<in> set g) (strided A B C) = Some ?g"
  proof (rule find_unique)
    show "?g \<in> set (strided A B C)" using ac by (auto simp: set_strided)
    show "r \<in> set ?g" using assms by (simp add: rank_class_def)
  next
    fix g assume "g \<in> set (strided A B C)" "r \<in> set g"
    then show "g = ?g" by (auto simp: set_strided rank_class_def)
  qed
  moreover have "position r ?g = Some ?b"
  proof -
    let ?f = "\<lambda>b. ?a * (B * C) + b * C + ?c"
    have g: "?g = map ?f [0..<B]" using strided_class [OF ac(1,2)] by simp
    have "distinct ?g" by (simp add: rank_class_def)
    moreover have "?b < length ?g" "?g ! ?b = r" using ac(3) mixed_radix_of [of r B C] by (simp_all add: g)
    ultimately show ?thesis using position_nth by metis
  qed
  ultimately show ?thesis by (simp add: group_containing_def rank_group_new_def rank_class_def)
qed

subsection \<open>Validated configurations\<close>

lemma axes_valid:
  assumes "axes_validate cfg = Inr ()"
  shows "0 < tp_size cfg" "0 < pp_size cfg" "0 < ep_size cfg" "0 < attn_dp_size cfg" "0 < attn_cp_size cfg"
    "0 < moe_dp_size cfg" "tp_size cfg = attn_dp_size cfg * (attn_cp_size cfg * attn_tp_size cfg)"
    "tp_size cfg = moe_dp_size cfg * (ep_size cfg * moe_tp_size cfg)" "0 < attn_tp_size cfg" "0 < moe_tp_size cfg"
    "world_size cfg div tp_size cfg = pp_size cfg" "world_size cfg div pp_size cfg = tp_size cfg"
proof -
  show pos: "0 < tp_size cfg" "0 < pp_size cfg" "0 < ep_size cfg" "0 < attn_dp_size cfg" "0 < attn_cp_size cfg"
    "0 < moe_dp_size cfg" using assms by (simp_all add: axes_validate_def Let_def split: if_splits)
  have d: "attn_dp_size cfg * attn_cp_size cfg dvd tp_size cfg" "ep_size cfg * moe_dp_size cfg dvd tp_size cfg"
    using assms by (simp_all add: axes_validate_def Let_def split: if_splits)
  from d(1) show a: "tp_size cfg = attn_dp_size cfg * (attn_cp_size cfg * attn_tp_size cfg)"
    unfolding attn_tp_size_def by (metis div_mult2_eq dvd_mult_div_cancel mult.assoc)
  from d(2) show m: "tp_size cfg = moe_dp_size cfg * (ep_size cfg * moe_tp_size cfg)"
    unfolding moe_tp_size_def by (metis div_mult2_eq dvd_mult_div_cancel mult.assoc mult.left_commute)
  show "0 < attn_tp_size cfg" "0 < moe_tp_size cfg" using a m pos(1) by (metis gr0I mult_is_0)+
  show "world_size cfg div tp_size cfg = pp_size cfg" "world_size cfg div pp_size cfg = tp_size cfg"
    using pos by (simp_all add: world_size_def)
qed

text \<open>Each builder is the reference with its own radices.\<close>

lemma strided_one: "strided A B (Suc 0) = map (\<lambda>i. [i * B..<(i + 1) * B]) [0..<A]"
proof -
  have "concat (map (\<lambda>a. [f a]) ks) = map f ks" for f :: "nat \<Rightarrow> nat list" and ks by (induction ks) auto
  moreover have "map (\<lambda>b. s + b) [0..<n] = [s..<n + s]" for s n :: nat by (induction n) (auto simp: add.commute)
  ultimately show ?thesis by (simp add: strided_def)
qed

lemma strided_steps:
  assumes "0 < B" "\<And>a c. a < A \<Longrightarrow> c < C \<Longrightarrow> en a c \<le> a * (B * C) + B * C + c \<and> a * (B * C) + B * C + c < en a c + C"
  shows "strided A B C = concat (map (\<lambda>a. map (\<lambda>c. step_by (a * (B * C) + c) (en a c) C) [0..<C]) [0..<A])"
proof -
  have "step_by (a * (B * C) + c) (en a c) C = map (\<lambda>b. a * (B * C) + b * C + c) [0..<B]" if "a < A" "c < C" for a c
  proof -
    have "(B - 1) * C + C = B * C" using assms(1) by (cases B) simp_all
    then have "step_by (a * (B * C) + c) (en a c) C = map (\<lambda>b. a * (B * C) + c + b * C) [0..<B]"
      using assms(2) [OF that] that(2) by (intro step_by_eq) simp_all
    then show ?thesis by (simp add: ac_simps)
  qed
  then show ?thesis unfolding strided_def by (intro arg_cong [where f = concat] map_cong) simp_all
qed

lemma concat_pairs:
  "concat (map (\<lambda>i. concat (map (\<lambda>j. g i j) [0..<n])) [0..<m]) = concat (map (\<lambda>k. g (k div n) (k mod n)) [0..<m * n])"
proof -
  have "map (\<lambda>j. g i j) [0..<n] = map (\<lambda>j. g ((i * n + j) div n) ((i * n + j) mod n)) [0..<n]" for i
    by (intro map_cong) auto
  then have "concat (map (\<lambda>j. g i j) [0..<n]) = concat (map (\<lambda>j. g ((i * n + j) div n) ((i * n + j) mod n)) [0..<n])" for i
    by (rule arg_cong)
  then show ?thesis using concat_concat_blocks [of "\<lambda>k. g (k div n) (k mod n)" n m] by (simp only:)
qed

lemma map_pairs:
  "concat (map (\<lambda>i. map (\<lambda>j. g i j) [0..<n]) [0..<m]) = map (\<lambda>k. g (k div n) (k mod n)) [0..<m * n]"
proof -
  have "map (\<lambda>j. g i j) [0..<n] = map (\<lambda>j. g ((i * n + j) div n) ((i * n + j) mod n)) [0..<n]" for i
    by (intro map_cong) auto
  then show ?thesis using concat_blocks [of "\<lambda>k. g (k div n) (k mod n)" n m] by (simp only:)
qed

lemma tp_groups:
  assumes "axes_validate cfg = Inr ()"
  shows "build_tp_groups cfg = strided (pp_size cfg) (tp_size cfg) (Suc 0)"
  using axes_valid(11) [OF assms] by (simp add: build_tp_groups_def Let_def strided_one)

lemma pp_groups:
  assumes "axes_validate cfg = Inr ()"
  shows "build_pp_groups cfg = strided 1 (pp_size cfg) (tp_size cfg)"
proof -
  have "strided 1 (pp_size cfg) (tp_size cfg) = concat (map (\<lambda>a. map (\<lambda>c. step_by (a * (pp_size cfg * tp_size cfg) + c)
      (pp_size cfg * tp_size cfg) (tp_size cfg)) [0..<tp_size cfg]) [0..<1])"
    using axes_valid(2) [OF assms] by (intro strided_steps) auto
  then show ?thesis using axes_valid(12) [OF assms] by (simp add: build_pp_groups_def Let_def world_size_def mult.commute)
qed

lemma radix_merge: "(k div n) * (n * X) + (k mod n) * X = k * X" for X :: nat
  by (metis add_mult_distrib div_mult_mod_eq mult.assoc)

lemma attn_cp_groups:
  assumes "axes_validate cfg = Inr ()"
  shows "build_attn_cp_groups cfg = strided (pp_size cfg * attn_dp_size cfg) (attn_cp_size cfg) (attn_tp_size cfg)"
proof (cases "attn_cp_size cfg = tp_size cfg")
  case True
  have "attn_cp_size cfg * (attn_dp_size cfg * attn_tp_size cfg) = attn_cp_size cfg * 1"
    using axes_valid(7) [OF assms] True by (simp add: ac_simps)
  then have "attn_dp_size cfg = 1" "attn_tp_size cfg = 1" using axes_valid(5) [OF assms] by simp_all
  then show ?thesis using True by (simp add: build_attn_cp_groups_def tp_groups [OF assms])
next
  case False
  let ?dp = "attn_dp_size cfg" and ?cp = "attn_cp_size cfg" and ?atp = "attn_tp_size cfg"
  have tp: "tp_size cfg = ?dp * (?cp * ?atp)" by (rule axes_valid(7) [OF assms])
  have "strided (pp_size cfg * ?dp) ?cp ?atp = concat (map (\<lambda>k. map (\<lambda>c. step_by (k * (?cp * ?atp) + c)
      ((k + 1) * (?cp * ?atp) + c) ?atp) [0..<?atp]) [0..<pp_size cfg * ?dp])"
    using axes_valid(5,9) [OF assms] by (intro strided_steps) auto
  also have "\<dots> = concat (map (\<lambda>k. map (\<lambda>c. step_by ((k div ?dp) * tp_size cfg + (k mod ?dp) * ?atp * ?cp + c)
      ((k div ?dp) * tp_size cfg + (k mod ?dp + 1) * ?atp * ?cp + c) ?atp) [0..<?atp]) [0..<pp_size cfg * ?dp])"
  proof -
    have "k div ?dp * tp_size cfg + k mod ?dp * ?atp * ?cp = k * (?cp * ?atp)"
      "k div ?dp * tp_size cfg + (k mod ?dp + 1) * ?atp * ?cp = (k + 1) * (?cp * ?atp)" for k
      using radix_merge [of k ?dp "?cp * ?atp"] unfolding tp by (simp_all add: algebra_simps)
    then show ?thesis by (simp only:)
  qed
  finally show ?thesis using False axes_valid(11) [OF assms]
    by (simp add: build_attn_cp_groups_def Let_def concat_pairs)
qed

lemma attn_tp_groups:
  assumes "axes_validate cfg = Inr ()"
  shows "build_attn_tp_groups cfg = strided (pp_size cfg * (attn_cp_size cfg * attn_dp_size cfg)) (attn_tp_size cfg) (Suc 0)"
proof (cases "attn_tp_size cfg = tp_size cfg")
  case True
  have "attn_tp_size cfg * (attn_cp_size cfg * attn_dp_size cfg) = attn_tp_size cfg * 1"
    using axes_valid(7) [OF assms] True by (simp add: ac_simps)
  then have "attn_cp_size cfg * attn_dp_size cfg = 1" using axes_valid(9) [OF assms] by (metis mult_cancel1 not_gr_zero)
  then show ?thesis using True by (simp add: build_attn_tp_groups_def tp_groups [OF assms])
next
  case False
  let ?n = "attn_cp_size cfg * attn_dp_size cfg" and ?atp = "attn_tp_size cfg"
  have tp: "tp_size cfg = ?n * ?atp" using axes_valid(7) [OF assms] by (simp add: ac_simps)
  have "k div ?n * tp_size cfg + k mod ?n * ?atp = k * ?atp"
    "k div ?n * tp_size cfg + (k mod ?n + 1) * ?atp = (k + 1) * ?atp" for k
    using radix_merge [of k ?n ?atp] unfolding tp by (simp_all add: algebra_simps)
  then show ?thesis using False axes_valid(11) [OF assms]
    by (simp only: build_attn_tp_groups_def Let_def map_pairs strided_one if_False)
qed

lemma attn_dp_groups:
  assumes "axes_validate cfg = Inr ()"
  shows "build_attn_dp_groups cfg = strided (pp_size cfg) (attn_dp_size cfg) (attn_cp_size cfg * attn_tp_size cfg)"
proof (cases "attn_dp_size cfg = 1")
  case True
  let ?K = "attn_cp_size cfg * attn_tp_size cfg"
  have "tp_size cfg = ?K" using axes_valid(7) [OF assms] True by simp
  then have "map (\<lambda>r. [r]) [0..<world_size cfg] = map (\<lambda>r. [r]) [0..<pp_size cfg * ?K]"
    by (simp add: world_size_def mult.commute)
  also have "\<dots> = strided (pp_size cfg) 1 ?K" using concat_blocks [of "\<lambda>r. [r]" ?K "pp_size cfg"] by (simp add: strided_def)
  finally show ?thesis using True by (simp add: build_attn_dp_groups_def)
next
  case False
  let ?dp = "attn_dp_size cfg" and ?cp = "attn_cp_size cfg" and ?atp = "attn_tp_size cfg"
  have tp: "tp_size cfg = ?dp * (?cp * ?atp)" by (rule axes_valid(7) [OF assms])
  have "strided (pp_size cfg) ?dp (?cp * ?atp) = concat (map (\<lambda>a. map (\<lambda>c. step_by (a * (?dp * (?cp * ?atp)) + c)
      (a * (?dp * (?cp * ?atp)) + ?dp * (?cp * ?atp)) (?cp * ?atp)) [0..<?cp * ?atp]) [0..<pp_size cfg])"
    using axes_valid(4) [OF assms] by (intro strided_steps) auto
  also have "\<dots> = concat (map (\<lambda>a. map (\<lambda>k. step_by (a * tp_size cfg + (k div ?atp) * ?atp + k mod ?atp)
      (a * tp_size cfg + tp_size cfg) (?atp * ?cp)) [0..<?cp * ?atp]) [0..<pp_size cfg])"
  proof -
    have "a * tp_size cfg + (k div ?atp) * ?atp + k mod ?atp = a * tp_size cfg + k" for a k by (simp add: add.assoc)
    then show ?thesis unfolding tp [symmetric] by (simp only: mult.commute [of ?atp ?cp])
  qed
  finally show ?thesis using False axes_valid(11) [OF assms]
    by (simp only: build_attn_dp_groups_def Let_def map_pairs if_False)
qed

lemma moe_dp_groups:
  assumes "axes_validate cfg = Inr ()" "attn_cp_size cfg \<le> moe_dp_size cfg"
  shows "build_moe_dp_groups cfg = strided (pp_size cfg) (moe_dp_size cfg) (ep_size cfg * moe_tp_size cfg)"
proof (cases "moe_dp_size cfg = tp_size cfg")
  case True
  have "moe_dp_size cfg * (ep_size cfg * moe_tp_size cfg) = moe_dp_size cfg * 1"
    using axes_valid(8) [OF assms(1)] True by simp
  then have "ep_size cfg * moe_tp_size cfg = Suc 0" using axes_valid(6) [OF assms(1)] by (metis One_nat_def mult_cancel1 not_gr_zero)
  then show ?thesis using True assms(2) by (simp add: build_moe_dp_groups_def tp_groups [OF assms(1)] not_less)
next
  case False
  let ?n = "moe_dp_size cfg" and ?K = "ep_size cfg * moe_tp_size cfg"
  have tp: "tp_size cfg = ?n * ?K" by (rule axes_valid(8) [OF assms(1)])
  have "strided (pp_size cfg) ?n ?K = concat (map (\<lambda>a. map (\<lambda>c. step_by (a * (?n * ?K) + c)
      ((a + 1) * (?n * ?K) + c) ?K) [0..<?K]) [0..<pp_size cfg])"
    using axes_valid(3,6,10) [OF assms(1)] by (intro strided_steps) auto
  then show ?thesis using False assms(2) axes_valid(11) [OF assms(1)] unfolding tp [symmetric]
    by (simp add: build_moe_dp_groups_def Let_def mult.commute [of "moe_tp_size cfg"])
qed

lemma moe_ep_groups:
  assumes "axes_validate cfg = Inr ()"
  shows "build_moe_ep_groups cfg = strided (pp_size cfg * moe_dp_size cfg) (ep_size cfg) (moe_tp_size cfg)"
proof (cases "ep_size cfg = tp_size cfg")
  case True
  have "ep_size cfg * (moe_dp_size cfg * moe_tp_size cfg) = ep_size cfg * 1"
    using axes_valid(8) [OF assms] True by (simp add: ac_simps)
  then have "moe_dp_size cfg = 1" "moe_tp_size cfg = 1" using axes_valid(3) [OF assms] by simp_all
  then show ?thesis using True by (simp add: build_moe_ep_groups_def tp_groups [OF assms])
next
  case False
  let ?dp = "moe_dp_size cfg" and ?ep = "ep_size cfg" and ?mtp = "moe_tp_size cfg"
  have tp: "tp_size cfg = ?dp * (?ep * ?mtp)" by (rule axes_valid(8) [OF assms])
  have "strided (pp_size cfg * ?dp) ?ep ?mtp = concat (map (\<lambda>k. map (\<lambda>c. step_by (k * (?ep * ?mtp) + c)
      (k * (?ep * ?mtp) + c + ?ep * ?mtp) ?mtp) [0..<?mtp]) [0..<pp_size cfg * ?dp])"
    using axes_valid(3,10) [OF assms] by (intro strided_steps) auto
  also have "\<dots> = concat (map (\<lambda>k. map (\<lambda>c. step_by ((k div ?dp) * tp_size cfg + (k mod ?dp) * ?ep * ?mtp + c)
      ((k div ?dp) * tp_size cfg + (k mod ?dp) * ?ep * ?mtp + c + ?ep * ?mtp) ?mtp) [0..<?mtp]) [0..<pp_size cfg * ?dp])"
  proof -
    have "k div ?dp * tp_size cfg + k mod ?dp * ?ep * ?mtp = k * (?ep * ?mtp)" for k
      using radix_merge [of k ?dp "?ep * ?mtp"] unfolding tp by (simp add: mult.assoc)
    then show ?thesis by (simp only:)
  qed
  finally show ?thesis using False axes_valid(11) [OF assms]
    by (simp add: build_moe_ep_groups_def Let_def concat_pairs)
qed

lemma moe_tp_groups:
  assumes "axes_validate cfg = Inr ()"
  shows "build_moe_tp_groups cfg = strided (pp_size cfg * (ep_size cfg * moe_dp_size cfg)) (moe_tp_size cfg) (Suc 0)"
proof (cases "moe_tp_size cfg = tp_size cfg")
  case True
  have "moe_tp_size cfg * (ep_size cfg * moe_dp_size cfg) = moe_tp_size cfg * 1"
    using axes_valid(8) [OF assms] True by (simp add: ac_simps)
  then have "ep_size cfg * moe_dp_size cfg = 1" using axes_valid(10) [OF assms] by (metis mult_cancel1 not_gr_zero)
  then show ?thesis using True by (simp add: build_moe_tp_groups_def tp_groups [OF assms])
next
  case False
  let ?n = "ep_size cfg * moe_dp_size cfg" and ?mtp = "moe_tp_size cfg"
  have tp: "tp_size cfg = ?n * ?mtp" using axes_valid(8) [OF assms] by (simp add: ac_simps)
  have "k div ?n * tp_size cfg + k mod ?n * ?mtp = k * ?mtp"
    "k div ?n * tp_size cfg + (k mod ?n + 1) * ?mtp = (k + 1) * ?mtp" for k
    using radix_merge [of k ?n ?mtp] unfolding tp by (simp_all add: algebra_simps)
  then show ?thesis using False axes_valid(11) [OF assms]
    by (simp only: build_moe_tp_groups_def Let_def map_pairs strided_one if_False)
qed

subsection \<open>Groups and coordinates\<close>

text \<open>
  The rank inside a tensor-parallel set of size \<open>N * (M * K)\<close> has the three digits below; they
  decide the group of each axis and the position in it.
\<close>

lemma div_split:
  fixes T :: nat
  assumes "T = n * C"
  shows "s div C = t div C \<longleftrightarrow> s div T = t div T \<and> (s mod T) div C = (t mod T) div C"
proof (cases "C = 0")
  case False
  have eq: "u div C = u div T * n + (u mod T) div C" for u
  proof -
    have "u = u div T * T + u mod T" by simp
    then have "u = u mod T + (u div T * n) * C" unfolding assms by (metis add.commute mult.assoc)
    then have "u div C = (u mod T + (u div T * n) * C) div C" by (rule arg_cong)
    then show ?thesis using False by simp
  qed
  have "u div T = u div C div n" for u by (simp add: assms div_mult2_eq mult.commute [of n])
  then show ?thesis using eq [of s] eq [of t] by (metis add_left_cancel)
qed (use assms in auto)

lemma mod_digit: "0 < K \<Longrightarrow> u mod (M * K) div K = u div K mod M" for K :: nat
  by (simp add: mult.commute [of M] mod_mult2_eq)

lemma eq_div_mod: "x = y \<longleftrightarrow> x div M = y div M \<and> x mod M = y mod M" for x :: nat
  by (metis div_mult_mod_eq)

lemma digits:
  fixes T :: nat
  assumes "T = N * (M * K)" "0 < K" "0 < M"
  shows "s div (M * K) = t div (M * K) \<longleftrightarrow> s div T = t div T \<and> (s mod T) div (K * M) = (t mod T) div (K * M)"
    and "s mod K = s mod T mod K" and "s div K mod M = (s mod T) div K mod M"
    and "s div (M * K) mod N = (s mod T) div (K * M)"
    and "s mod (M * K) = t mod (M * K) \<longleftrightarrow> s mod T mod K = t mod T mod K \<and> (s mod T) div K mod M = (t mod T) div K mod M"
    and "s div K = t div K \<longleftrightarrow> s div T = t div T \<and> (s mod T) div (K * M) = (t mod T) div (K * M)
      \<and> (s mod T) div K mod M = (t mod T) div K mod M"
proof -
  show "s div (M * K) = t div (M * K) \<longleftrightarrow> s div T = t div T \<and> (s mod T) div (K * M) = (t mod T) div (K * M)"
    using div_split [OF assms(1), of s t] by (simp only: mult.commute [of K M])
  have "K dvd T" "M * K dvd T" using assms(1) by simp_all
  then have k: "u mod T mod K = u mod K" and mk: "u mod T mod (M * K) = u mod (M * K)" for u
    by (simp_all add: mod_mod_cancel)
  have m: "(u mod T) div K mod M = u div K mod M" for u
    using mod_digit [OF assms(2), of "u mod T" M] mod_digit [OF assms(2), of u M] mk [of u] by simp
  show "s mod K = s mod T mod K" "s div K mod M = (s mod T) div K mod M" by (simp_all add: k m)
  have "0 < M * K" using assms(2,3) by simp
  then show "s div (M * K) mod N = (s mod T) div (K * M)"
    using mod_digit [of "M * K" s N] by (simp add: assms(1) mult.commute)
  have "u mod (M * K) mod K = u mod K" "u mod (M * K) div K = u div K mod M" for u
    using mod_digit [OF assms(2)] by (simp_all add: mod_mod_cancel)
  then show "s mod (M * K) = t mod (M * K) \<longleftrightarrow> s mod T mod K = t mod T mod K \<and> (s mod T) div K mod M = (t mod T) div K mod M"
    using eq_div_mod [of "s mod (M * K)" "t mod (M * K)" K] by (auto simp: k m)
  have "s div K = t div K \<longleftrightarrow> s div T = t div T \<and> s mod T div K = t mod T div K"
    using div_split [of T "N * M" K s t] assms(1) by (simp add: mult.assoc)
  also have "s mod T div K = t mod T div K \<longleftrightarrow> (s mod T) div (K * M) = (t mod T) div (K * M)
      \<and> (s mod T) div K mod M = (t mod T) div K mod M"
    using eq_div_mod [of "s mod T div K" "t mod T div K" M] by (simp add: div_mult2_eq)
  finally show "s div K = t div K \<longleftrightarrow> s div T = t div T \<and> (s mod T) div (K * M) = (t mod T) div (K * M)
      \<and> (s mod T) div K mod M = (t mod T) div K mod M" .
qed

definition coord_of :: "multi_axis_config \<Rightarrow> nat \<Rightarrow> rank_coord" where
  "coord_of cfg s = projr (from_world_rank cfg s)"

definition axis_group ::
    "multi_axis_config \<Rightarrow> nat \<Rightarrow> (rank_coord \<Rightarrow> nat) \<Rightarrow> (rank_coord \<Rightarrow> nat list) \<Rightarrow> rank_group \<Rightarrow> bool" where
  "axis_group cfg r pos others g \<longleftrightarrow> rg_rank g = r
     \<and> rg_ranks g = filter (\<lambda>s. others (coord_of cfg s) = others (coord_of cfg r)) [0..<world_size cfg]
     \<and> rg_rank_in_group g = pos (coord_of cfg r)"

lemma coord_of_simps:
  assumes "axes_validate cfg = Inr ()" "s < world_size cfg"
  shows "from_world_rank cfg s = Inr (coord_of cfg s)"
    "rk_world_rank (coord_of cfg s) = s" "rk_pp_rank (coord_of cfg s) = s div tp_size cfg" "rk_tp_rank (coord_of cfg s) = s mod tp_size cfg"
    "rk_attn_tp_rank (coord_of cfg s) = s mod tp_size cfg mod attn_tp_size cfg"
    "rk_attn_cp_rank (coord_of cfg s) = s mod tp_size cfg div attn_tp_size cfg mod attn_cp_size cfg"
    "rk_attn_dp_rank (coord_of cfg s) = s mod tp_size cfg div (attn_tp_size cfg * attn_cp_size cfg)"
    "rk_moe_tp_rank (coord_of cfg s) = s mod tp_size cfg mod moe_tp_size cfg"
    "rk_moe_ep_rank (coord_of cfg s) = s mod tp_size cfg div moe_tp_size cfg mod ep_size cfg"
    "rk_moe_dp_rank (coord_of cfg s) = s mod tp_size cfg div (moe_tp_size cfg * ep_size cfg)"
  using assms by (simp_all add: coord_of_def from_world_rank_def Let_def)

lemma axis_groupI:
  assumes "gs = strided A B C" "r < world_size cfg" "A * (B * C) = world_size cfg"
    and "\<And>s. s < world_size cfg \<Longrightarrow> s div (B * C) = r div (B * C) \<and> s mod C = r mod C
      \<longleftrightarrow> others (coord_of cfg s) = others (coord_of cfg r)"
    and "r div C mod B = pos (coord_of cfg r)"
  shows "\<exists>g. group_containing kind gs r = Inr g \<and> rg_kind g = kind \<and> axis_group cfg r pos others g"
proof -
  have "filter (\<lambda>s. s div (B * C) = r div (B * C) \<and> s mod C = r mod C) [0..<world_size cfg]
      = filter (\<lambda>s. others (coord_of cfg s) = others (coord_of cfg r)) [0..<world_size cfg]"
    using assms(4) by (intro filter_cong) simp_all
  then show ?thesis using group_containing_strided [of r A B C kind] assms(1,2,3,5) by (simp add: axis_group_def)
qed

lemma axis_groups:
  assumes v: "axes_validate cfg = Inr ()" and r: "r < world_size cfg"
  shows "\<exists>g. group_containing GTensor (build_tp_groups cfg) r = Inr g \<and> rg_kind g = GTensor
      \<and> axis_group cfg r rk_tp_rank (\<lambda>c. [rk_pp_rank c]) g"
    and "\<exists>g. group_containing GPipeline (build_pp_groups cfg) r = Inr g \<and> rg_kind g = GPipeline
      \<and> axis_group cfg r rk_pp_rank (\<lambda>c. [rk_tp_rank c]) g"
    and "\<exists>g. group_containing GAttentionTensor (build_attn_tp_groups cfg) r = Inr g \<and> rg_kind g = GAttentionTensor
      \<and> axis_group cfg r rk_attn_tp_rank (\<lambda>c. [rk_pp_rank c, rk_attn_dp_rank c, rk_attn_cp_rank c]) g"
    and "\<exists>g. group_containing GAttentionData (build_attn_dp_groups cfg) r = Inr g \<and> rg_kind g = GAttentionData
      \<and> axis_group cfg r rk_attn_dp_rank (\<lambda>c. [rk_pp_rank c, rk_attn_tp_rank c, rk_attn_cp_rank c]) g"
    and "\<exists>g. group_containing GAttentionContext (build_attn_cp_groups cfg) r = Inr g \<and> rg_kind g = GAttentionContext
      \<and> axis_group cfg r rk_attn_cp_rank (\<lambda>c. [rk_pp_rank c, rk_attn_dp_rank c, rk_attn_tp_rank c]) g"
    and "\<exists>g. group_containing GMoeTensor (build_moe_tp_groups cfg) r = Inr g \<and> rg_kind g = GMoeTensor
      \<and> axis_group cfg r rk_moe_tp_rank (\<lambda>c. [rk_pp_rank c, rk_moe_dp_rank c, rk_moe_ep_rank c]) g"
    and "\<exists>g. group_containing ep_kind (build_moe_ep_groups cfg) r = Inr g \<and> rg_kind g = ep_kind
      \<and> axis_group cfg r rk_moe_ep_rank (\<lambda>c. [rk_pp_rank c, rk_moe_dp_rank c, rk_moe_tp_rank c]) g"
    and "attn_cp_size cfg \<le> moe_dp_size cfg \<Longrightarrow> \<exists>g. group_containing GMoeData (build_moe_dp_groups cfg) r = Inr g
      \<and> rg_kind g = GMoeData \<and> axis_group cfg r rk_moe_dp_rank (\<lambda>c. [rk_pp_rank c, rk_moe_tp_rank c, rk_moe_ep_rank c]) g"
proof -
  note va = axes_valid [OF v]
  note co = coord_of_simps [OF v] coord_of_simps [OF v r]
  note da = digits [OF va(7) va(9) va(5)] and dm = digits [OF va(8) va(10) va(3)]
  have w: "world_size cfg = pp_size cfg * tp_size cfg" by (simp add: world_size_def mult.commute)
  have w1: "pp_size cfg * attn_dp_size cfg * (attn_cp_size cfg * attn_tp_size cfg) = world_size cfg"
    "pp_size cfg * moe_dp_size cfg * (ep_size cfg * moe_tp_size cfg) = world_size cfg"
    using va(7,8) by (simp_all add: w mult.assoc)
  then have w2: "pp_size cfg * (attn_cp_size cfg * attn_dp_size cfg) * attn_tp_size cfg = world_size cfg"
    "pp_size cfg * (ep_size cfg * moe_dp_size cfg) * moe_tp_size cfg = world_size cfg"
    by (simp_all add: ac_simps)
  have one_digit: "n * Suc 0 = n" "n mod Suc 0 = 0" "n div Suc 0 = n" for n :: nat by simp_all
  show "\<exists>g. group_containing GTensor (build_tp_groups cfg) r = Inr g \<and> rg_kind g = GTensor
      \<and> axis_group cfg r rk_tp_rank (\<lambda>c. [rk_pp_rank c]) g"
    by (rule axis_groupI [OF tp_groups [OF v] r]) (simp_all add: w co)
  show "\<exists>g. group_containing GPipeline (build_pp_groups cfg) r = Inr g \<and> rg_kind g = GPipeline
      \<and> axis_group cfg r rk_pp_rank (\<lambda>c. [rk_tp_rank c]) g"
    using r by (intro axis_groupI [OF pp_groups [OF v] r]) (simp_all add: w co div_less_iff_less_mult va)
  show "\<exists>g. group_containing GAttentionTensor (build_attn_tp_groups cfg) r = Inr g \<and> rg_kind g = GAttentionTensor
      \<and> axis_group cfg r rk_attn_tp_rank (\<lambda>c. [rk_pp_rank c, rk_attn_dp_rank c, rk_attn_cp_rank c]) g"
    by (rule axis_groupI [OF attn_tp_groups [OF v] r])
      (simp_all only: w2 da(2) [symmetric] da(6) [of _ r] co list.inject simp_thms one_digit)
  show "\<exists>g. group_containing GAttentionData (build_attn_dp_groups cfg) r = Inr g \<and> rg_kind g = GAttentionData
      \<and> axis_group cfg r rk_attn_dp_rank (\<lambda>c. [rk_pp_rank c, rk_attn_tp_rank c, rk_attn_cp_rank c]) g"
    by (rule axis_groupI [OF attn_dp_groups [OF v] r]) (simp_all only: da(4) co da(5) va(7) [symmetric] w list.inject simp_thms)
  show "\<exists>g. group_containing GAttentionContext (build_attn_cp_groups cfg) r = Inr g \<and> rg_kind g = GAttentionContext
      \<and> axis_group cfg r rk_attn_cp_rank (\<lambda>c. [rk_pp_rank c, rk_attn_dp_rank c, rk_attn_tp_rank c]) g"
    by (rule axis_groupI [OF attn_cp_groups [OF v] r w1(1)]) (simp_all only: da(1) da(2,3) [symmetric] co conj_assoc list.inject simp_thms)
  show "\<exists>g. group_containing GMoeTensor (build_moe_tp_groups cfg) r = Inr g \<and> rg_kind g = GMoeTensor
      \<and> axis_group cfg r rk_moe_tp_rank (\<lambda>c. [rk_pp_rank c, rk_moe_dp_rank c, rk_moe_ep_rank c]) g"
    by (rule axis_groupI [OF moe_tp_groups [OF v] r])
      (simp_all only: w2 dm(2) [symmetric] dm(6) [of _ r] co list.inject simp_thms one_digit)
  show "\<exists>g. group_containing ep_kind (build_moe_ep_groups cfg) r = Inr g \<and> rg_kind g = ep_kind
      \<and> axis_group cfg r rk_moe_ep_rank (\<lambda>c. [rk_pp_rank c, rk_moe_dp_rank c, rk_moe_tp_rank c]) g"
    by (rule axis_groupI [OF moe_ep_groups [OF v] r w1(2)]) (simp_all only: dm(1) dm(2,3) [symmetric] co conj_assoc list.inject simp_thms)
  show "\<exists>g. group_containing GMoeData (build_moe_dp_groups cfg) r = Inr g \<and> rg_kind g = GMoeData
      \<and> axis_group cfg r rk_moe_dp_rank (\<lambda>c. [rk_pp_rank c, rk_moe_tp_rank c, rk_moe_ep_rank c]) g"
    if "attn_cp_size cfg \<le> moe_dp_size cfg"
    by (rule axis_groupI [OF moe_dp_groups [OF v that] r]) (simp_all only: dm(4) co dm(5) va(8) [symmetric] w list.inject simp_thms)
qed

text \<open>
  (C13) For every validated configuration and every rank of the world, the state of the rank exists,
  and each of its groups is what the coordinates say: the group of an axis holds, in ascending order,
  exactly the ranks that agree with it in all other coordinates of that axis, and the rank sits at
  the position its own coordinate names. (The data group of the experts is the one exception the code
  makes on purpose: when there are more context ranks than expert replicas it is the context group.)
\<close>

theorem parallel_state_groups:
  assumes "axes_validate cfg = Inr ()" "r < world_size cfg"
  shows "\<exists>ps. parallel_state_new cfg r = Inr ps \<and> ps_config ps = cfg \<and> from_world_rank cfg r = Inr (ps_coord ps)
    \<and> rg_ranks (ps_world_group ps) = [0..<world_size cfg] \<and> rg_rank_in_group (ps_world_group ps) = r
    \<and> axis_group cfg r rk_tp_rank (\<lambda>c. [rk_pp_rank c]) (ps_tp_group ps)
    \<and> axis_group cfg r rk_pp_rank (\<lambda>c. [rk_tp_rank c]) (ps_pp_group ps)
    \<and> axis_group cfg r rk_attn_tp_rank (\<lambda>c. [rk_pp_rank c, rk_attn_dp_rank c, rk_attn_cp_rank c]) (ps_attn_tp_group ps)
    \<and> axis_group cfg r rk_attn_dp_rank (\<lambda>c. [rk_pp_rank c, rk_attn_tp_rank c, rk_attn_cp_rank c]) (ps_attn_dp_group ps)
    \<and> axis_group cfg r rk_attn_cp_rank (\<lambda>c. [rk_pp_rank c, rk_attn_dp_rank c, rk_attn_tp_rank c]) (ps_attn_cp_group ps)
    \<and> axis_group cfg r rk_moe_tp_rank (\<lambda>c. [rk_pp_rank c, rk_moe_dp_rank c, rk_moe_ep_rank c]) (ps_moe_tp_group ps)
    \<and> axis_group cfg r rk_moe_ep_rank (\<lambda>c. [rk_pp_rank c, rk_moe_dp_rank c, rk_moe_tp_rank c]) (ps_moe_ep_group ps)
    \<and> rg_ranks (ps_ep_group ps) = rg_ranks (ps_moe_ep_group ps)
    \<and> (if attn_cp_size cfg \<le> moe_dp_size cfg
       then axis_group cfg r rk_moe_dp_rank (\<lambda>c. [rk_pp_rank c, rk_moe_tp_rank c, rk_moe_ep_rank c]) (ps_moe_dp_group ps)
       else rg_ranks (ps_moe_dp_group ps) = rg_ranks (ps_attn_cp_group ps))"
proof -
  note ag = axis_groups [OF assms]
  obtain tp where tp: "group_containing GTensor (build_tp_groups cfg) r = Inr tp"
    "axis_group cfg r rk_tp_rank (\<lambda>c. [rk_pp_rank c]) tp" using ag(1) by (elim exE conjE)
  obtain pp where pp: "group_containing GPipeline (build_pp_groups cfg) r = Inr pp"
    "axis_group cfg r rk_pp_rank (\<lambda>c. [rk_tp_rank c]) pp" using ag(2) by (elim exE conjE)
  obtain atp where atp: "group_containing GAttentionTensor (build_attn_tp_groups cfg) r = Inr atp"
    "axis_group cfg r rk_attn_tp_rank (\<lambda>c. [rk_pp_rank c, rk_attn_dp_rank c, rk_attn_cp_rank c]) atp" using ag(3) by (elim exE conjE)
  obtain adp where adp: "group_containing GAttentionData (build_attn_dp_groups cfg) r = Inr adp"
    "axis_group cfg r rk_attn_dp_rank (\<lambda>c. [rk_pp_rank c, rk_attn_tp_rank c, rk_attn_cp_rank c]) adp" using ag(4) by (elim exE conjE)
  obtain acp where acp: "group_containing GAttentionContext (build_attn_cp_groups cfg) r = Inr acp"
    "axis_group cfg r rk_attn_cp_rank (\<lambda>c. [rk_pp_rank c, rk_attn_dp_rank c, rk_attn_tp_rank c]) acp" using ag(5) by (elim exE conjE)
  obtain mtp where mtp: "group_containing GMoeTensor (build_moe_tp_groups cfg) r = Inr mtp"
    "axis_group cfg r rk_moe_tp_rank (\<lambda>c. [rk_pp_rank c, rk_moe_dp_rank c, rk_moe_ep_rank c]) mtp" using ag(6) by (elim exE conjE)
  obtain ep where ep: "group_containing GExpert (build_moe_ep_groups cfg) r = Inr ep"
    "axis_group cfg r rk_moe_ep_rank (\<lambda>c. [rk_pp_rank c, rk_moe_dp_rank c, rk_moe_tp_rank c]) ep" using ag(7) [of GExpert] by (elim exE conjE)
  obtain mep where mep: "group_containing GMoeExpert (build_moe_ep_groups cfg) r = Inr mep"
    "axis_group cfg r rk_moe_ep_rank (\<lambda>c. [rk_pp_rank c, rk_moe_dp_rank c, rk_moe_tp_rank c]) mep" using ag(7) [of GMoeExpert] by (elim exE conjE)
  have eq: "rg_ranks ep = rg_ranks mep" using ep(2) mep(2) by (simp add: axis_group_def)
  have "position r [0..<world_size cfg] = Some r"
    using position_nth [of "[0..<world_size cfg]" r] assms(2) by simp
  then have wg: "rank_group_new GWorld [0..<world_size cfg] r =
      Inr \<lparr>rg_kind = GWorld, rg_ranks = [0..<world_size cfg], rg_rank = r, rg_rank_in_group = r\<rparr>"
    by (simp add: rank_group_new_def)
  have "\<exists>md. group_containing GMoeData (build_moe_dp_groups cfg) r = Inr md
      \<and> (if attn_cp_size cfg \<le> moe_dp_size cfg
         then axis_group cfg r rk_moe_dp_rank (\<lambda>c. [rk_pp_rank c, rk_moe_tp_rank c, rk_moe_ep_rank c]) md
         else rg_ranks md = rg_ranks acp)"
  proof (cases "attn_cp_size cfg \<le> moe_dp_size cfg")
    case True
    then show ?thesis using ag(8) by auto
  next
    case False
    then have "build_moe_dp_groups cfg = build_attn_cp_groups cfg" by (simp add: build_moe_dp_groups_def)
    then show ?thesis using False acp(1)
      by (auto simp: group_containing_def rank_group_new_def split: option.splits)
  qed
  then obtain md where md: "group_containing GMoeData (build_moe_dp_groups cfg) r = Inr md"
    "if attn_cp_size cfg \<le> moe_dp_size cfg
     then axis_group cfg r rk_moe_dp_rank (\<lambda>c. [rk_pp_rank c, rk_moe_tp_rank c, rk_moe_ep_rank c]) md
     else rg_ranks md = rg_ranks acp" by blast
  show ?thesis
    using tp pp atp adp acp mtp ep(1) mep eq md
    by (simp add: parallel_state_new_def wg coord_of_simps(1) [OF assms] assms(1))
qed

theorem parallel_state_groups_witness:
  "\<exists>ps. parallel_state_new \<lparr>tp_size = 8, pp_size = 2, ep_size = 4, attn_dp_size = 2, attn_cp_size = 2, moe_dp_size = 2\<rparr> 11 = Inr ps
    \<and> rg_ranks (ps_attn_cp_group ps) = [9, 11] \<and> rg_ranks (ps_moe_ep_group ps) = [8, 9, 10, 11] \<and> rg_rank_in_group (ps_moe_ep_group ps) = 3"
proof -
  let ?cfg = "\<lparr>tp_size = 8, pp_size = 2, ep_size = 4, attn_dp_size = 2, attn_cp_size = 2, moe_dp_size = 2\<rparr> :: multi_axis_config"
  have "axes_validate ?cfg = Inr ()" "11 < world_size ?cfg" by (simp_all add: axes_validate_def world_size_def)
  from parallel_state_groups [OF this]
  obtain ps where ps: "parallel_state_new ?cfg 11 = Inr ps"
    "axis_group ?cfg 11 rk_attn_cp_rank (\<lambda>c. [rk_pp_rank c, rk_attn_dp_rank c, rk_attn_tp_rank c]) (ps_attn_cp_group ps)"
    "axis_group ?cfg 11 rk_moe_ep_rank (\<lambda>c. [rk_pp_rank c, rk_moe_dp_rank c, rk_moe_tp_rank c]) (ps_moe_ep_group ps)" by blast
  have u: "[0..<16] = [0, 1, 2, 3, 4, 5, 6, 7, 8, 9, 10, 11, 12, 13, 14, 15 :: nat]" by (simp add: upt_rec)
  show ?thesis using ps
    by (simp add: axis_group_def coord_of_def from_world_rank_def axes_validate_def world_size_def attn_tp_size_def moe_tp_size_def u)
qed

subsection \<open>Shards\<close>

lemma upt_append: "a \<le> b \<Longrightarrow> b \<le> c \<Longrightarrow> [a..<b] @ [b..<c] = [a..<c]"
  by (metis upt_add_eq_append le_add_diff_inverse)

text \<open>
  The column and row shards of the ranks are consecutive pieces that together are the whole
  dimension, each at least as large as the even share; a dimension smaller than the world panics.
\<close>

theorem shards_partition_dimension:
  assumes "0 < n"
  shows "if n \<le> dim
    then \<exists>shard. (\<forall>r < n. column_shard dim \<lparr>tpc_world_size = n, tpc_rank = r\<rparr> = Some (shard r)
          \<and> row_shard dim \<lparr>tpc_world_size = n, tpc_rank = r\<rparr> = Some (shard r)
          \<and> dim div n \<le> sh_size (shard r) \<and> sh_total (shard r) = dim)
        \<and> concat (map (\<lambda>r. shard_range (shard r)) [0..<n]) = [0..<dim]
    else column_shard dim \<lparr>tpc_world_size = n, tpc_rank = r\<rparr> = None"
proof (cases "n \<le> dim")
  case True
  let ?s = "\<lambda>r. the (column_shard dim \<lparr>tpc_world_size = n, tpc_rank = r\<rparr>)"
  have s: "?s r = \<lparr>sh_offset = r * (dim div n), sh_size = (if r = n - 1 then dim div n + dim mod n else dim div n), sh_total = dim\<rparr>"
    for r using True assms by (simp add: column_shard_def Let_def)
  have pre: "concat (map (\<lambda>r. shard_range (?s r)) [0..<k]) = [0..<k * (dim div n)]" if "k \<le> n - 1" for k
    using that
  proof (induction k)
    case (Suc k)
    then have "shard_range (?s k) = [k * (dim div n)..<Suc k * (dim div n)]"
      unfolding s by (simp add: shard_range_def shard_end_def add.commute)
    then show ?case using Suc by (simp add: upt_append)
  qed simp
  obtain m where m: "n = Suc m" using assms by (cases n) auto
  have dim: "m * (dim div n) + (dim div n + dim mod n) = dim" using div_mult_mod_eq [of dim n] m by (simp add: algebra_simps)
  then have last: "shard_range (?s m) = [m * (dim div n)..<dim]"
    unfolding s using m by (simp add: shard_range_def shard_end_def)
  have le: "m * (dim div n) \<le> dim" using dim by linarith
  have "[0..<n] = [0..<m] @ [m]" using m by simp
  then have "concat (map (\<lambda>r. shard_range (?s r)) [0..<n]) = [0..<m * (dim div n)] @ [m * (dim div n)..<dim]"
    using pre [of m] m last by simp
  then have "concat (map (\<lambda>r. shard_range (?s r)) [0..<n]) = [0..<dim]" using upt_append [OF _ le, of 0] by simp
  moreover have "\<forall>r < n. column_shard dim \<lparr>tpc_world_size = n, tpc_rank = r\<rparr> = Some (?s r)
      \<and> row_shard dim \<lparr>tpc_world_size = n, tpc_rank = r\<rparr> = Some (?s r) \<and> dim div n \<le> sh_size (?s r) \<and> sh_total (?s r) = dim"
    using True assms by (simp add: column_shard_def row_shard_def Let_def)
  ultimately show ?thesis unfolding if_P [OF True] by (intro exI [of _ ?s] conjI)
qed (simp add: column_shard_def)

theorem shards_partition_dimension_witness:
  "\<exists>shard. column_shard 11 \<lparr>tpc_world_size = 4, tpc_rank = 3\<rparr> = Some (shard (3::nat)) \<and> sh_size (shard 3) = 5
    \<and> concat (map (\<lambda>r. shard_range (shard r)) [0..<4]) = [0..<11]"
proof -
  have "0 < (4::nat)" by simp
  from shards_partition_dimension [OF this, of 11]
  obtain shard where s: "\<forall>r < 4. column_shard 11 \<lparr>tpc_world_size = 4, tpc_rank = r\<rparr> = Some (shard r)"
    "concat (map (\<lambda>r. shard_range (shard r)) [0..<4]) = [0..<11]" by auto
  then have "Some (shard 3) = column_shard 11 \<lparr>tpc_world_size = 4, tpc_rank = 3\<rparr>" by simp
  also have "\<dots> = Some \<lparr>sh_offset = 6, sh_size = 5, sh_total = 11\<rparr>" by (simp add: column_shard_def)
  finally show ?thesis using s by (intro exI [of _ shard]) simp
qed

subsection \<open>Experts\<close>

lemma traverse_Inr: "(\<And>x. x \<in> set xs \<Longrightarrow> f x = Inr (g x)) \<Longrightarrow> traverse f xs = Inr (map g xs)"
  by (induction xs) auto

lemma traverse_cong: "(\<And>x. x \<in> set xs \<Longrightarrow> f x = g x) \<Longrightarrow> traverse f xs = traverse g xs"
  by (induction xs) auto

definition the_group :: "nat \<Rightarrow> nat \<Rightarrow> nat \<Rightarrow> expert_group" where
  "the_group world n k = \<lparr>eg_rank = k, eg_world_size = world, eg_num_experts = n, eg_experts_per_rank = n div world,
     eg_expert_to_rank = map (\<lambda>e. e div (n div world)) [0..<n]\<rparr>"

lemma expert_group_new_eq:
  "0 < world \<Longrightarrow> k < world \<Longrightarrow> 0 < n \<Longrightarrow> world dvd n \<Longrightarrow> expert_group_new k world n = Inr (the_group world n k)"
  by (simp add: expert_group_new_def the_group_def Let_def)

lemma local_expert:
  assumes "0 < world" "0 < n" "world dvd n" "e < n"
  shows "e div (n div world) < world"
    "local_expert_idx (the_group world n k) e = (if e div (n div world) = k then Some (e mod (n div world)) else None)"
    "e div (n div world) = k \<Longrightarrow> global_expert_idx (the_group world n k) (e mod (n div world)) = Some e"
proof -
  have pos: "0 < n div world" and n: "n = world * (n div world)" using assms by (simp_all add: dvd_imp_le div_greater_zero_iff)
  show "e div (n div world) < world" using assms(4) n pos by (metis div_less_iff_less_mult)
  show "local_expert_idx (the_group world n k) e = (if e div (n div world) = k then Some (e mod (n div world)) else None)"
    using assms(4)
    by (auto simp: local_expert_idx_def owns_expert_def rank_for_expert_def the_group_def get_at_def local_expert_range_def
      Let_def minus_div_mult_eq_mod)
  show "global_expert_idx (the_group world n k) (e mod (n div world)) = Some e" if "e div (n div world) = k"
    using pos that by (auto simp: global_expert_idx_def the_group_def local_expert_range_def Let_def not_le div_mult_mod_eq)
qed

lemma localize_loop_eq:
  assumes "0 < world" "0 < n" "world dvd n" "\<forall>r\<in>set rs. er_expert_idx r < n"
  shows "localize_loop (the_group world n k) rs acc = Inr (acc @ map (\<lambda>r. \<lparr>lr_token_idx = er_token_idx r,
      lr_global_expert_idx = er_expert_idx r, lr_local_expert_idx = er_expert_idx r mod (n div world), lr_weight = er_weight r\<rparr>)
    (filter (\<lambda>r. er_expert_idx r div (n div world) = k) rs))"
  using assms(4)
proof (induction rs arbitrary: acc)
  case (Cons r rs)
  have "eg_num_experts (the_group world n k) = n" by (simp add: the_group_def)
  then show ?case using Cons local_expert(2) [OF assms(1-3), of "er_expert_idx r" k] by simp
qed simp

lemma mset_classes:
  "(\<forall>x\<in>set xs. f x < n) \<Longrightarrow> (\<Sum>k\<leftarrow>[0..<n]. mset (filter (\<lambda>x. f x = k) xs)) = mset xs"
proof (induction xs)
  case (Cons x xs)
  have "(\<Sum>k\<leftarrow>ks. mset (filter (\<lambda>y. f y = k) (x # xs))) =
      (if f x \<in> set ks then {#x#} else {#}) + (\<Sum>k\<leftarrow>ks. mset (filter (\<lambda>y. f y = k) xs))" if "distinct ks" for ks
    using that by (induction ks) auto
  from this [of "[0..<n]"] Cons show ?case by simp
qed (simp add: sum_list_0)

text \<open>
  (C24) Routing over an expert-parallel group loses and duplicates nothing: every rank's group exists
  and accepts the routing, what the ranks receive together is the given bag of routes, each route
  goes to the rank that owns its expert, and its local index maps back to the global one.
\<close>

theorem expert_routing_partitions:
  assumes "0 < world" "0 < n" "world dvd n" "rw_num_experts w = n" "\<forall>r\<in>set (rw_routes w). er_expert_idx r < n"
  shows "\<exists>gs ls. traverse (\<lambda>k. expert_group_new k world n) [0..<world] = Inr gs
    \<and> traverse (\<lambda>g. localize_routing g w) gs = Inr ls
    \<and> (\<Sum>l\<leftarrow>ls. image_mset (\<lambda>x. (lr_token_idx x, lr_global_expert_idx x, lr_weight x)) (mset (lx_routes l)))
       = image_mset (\<lambda>r. (er_token_idx r, er_expert_idx r, er_weight r)) (mset (rw_routes w))
    \<and> (\<forall>k < world. \<forall>x\<in>set (lx_routes (ls ! k)). rank_for_expert (gs ! k) (lr_global_expert_idx x) = Some k
         \<and> global_expert_idx (gs ! k) (lr_local_expert_idx x) = Some (lr_global_expert_idx x))"
proof -
  let ?lr = "\<lambda>r. \<lparr>lr_token_idx = er_token_idx r, lr_global_expert_idx = er_expert_idx r,
    lr_local_expert_idx = er_expert_idx r mod (n div world), lr_weight = er_weight r\<rparr>"
  let ?rs = "\<lambda>k. filter (\<lambda>r. er_expert_idx r div (n div world) = k) (rw_routes w)"
  let ?l = "\<lambda>k. \<lparr>lx_num_global_experts = n, lx_experts_per_rank = n div world, lx_routes = map ?lr (?rs k)\<rparr>"
  let ?gs = "map (the_group world n) [0..<world]" and ?ls = "map ?l [0..<world]"
  have "traverse (\<lambda>k. expert_group_new k world n) [0..<world] = Inr ?gs"
    using assms(1-3) by (intro traverse_Inr) (simp add: expert_group_new_eq)
  moreover have "localize_routing (the_group world n k) w = Inr (?l k)" for k
    using localize_loop_eq [OF assms(1-3,5), of k "[]"] assms(4) by (simp add: localize_routing_def the_group_def)
  then have "traverse (\<lambda>g. localize_routing g w) ?gs = Inr (map (\<lambda>g. ?l (eg_rank g)) ?gs)"
    by (intro traverse_Inr) (auto simp: the_group_def)
  then have "traverse (\<lambda>g. localize_routing g w) ?gs = Inr ?ls" by (simp add: the_group_def comp_def)
  moreover have "(\<Sum>l\<leftarrow>?ls. image_mset (\<lambda>x. (lr_token_idx x, lr_global_expert_idx x, lr_weight x)) (mset (lx_routes l)))
      = image_mset (\<lambda>r. (er_token_idx r, er_expert_idx r, er_weight r)) (\<Sum>k\<leftarrow>[0..<world]. mset (?rs k))"
  proof -
    have "(\<Sum>l\<leftarrow>map ?l ks. image_mset (\<lambda>x. (lr_token_idx x, lr_global_expert_idx x, lr_weight x)) (mset (lx_routes l)))
        = image_mset (\<lambda>r. (er_token_idx r, er_expert_idx r, er_weight r)) (\<Sum>k\<leftarrow>ks. mset (?rs k))" for ks
      by (induction ks) (simp_all add: multiset.map_comp comp_def)
    then show ?thesis .
  qed
  then have "(\<Sum>l\<leftarrow>?ls. image_mset (\<lambda>x. (lr_token_idx x, lr_global_expert_idx x, lr_weight x)) (mset (lx_routes l)))
      = image_mset (\<lambda>r. (er_token_idx r, er_expert_idx r, er_weight r)) (mset (rw_routes w))"
    using mset_classes [of "rw_routes w" "\<lambda>r. er_expert_idx r div (n div world)" world] local_expert(1) [OF assms(1-3)] assms(5)
    by simp
  moreover have "\<forall>k < world. \<forall>x\<in>set (lx_routes (?ls ! k)). rank_for_expert (?gs ! k) (lr_global_expert_idx x) = Some k
         \<and> global_expert_idx (?gs ! k) (lr_local_expert_idx x) = Some (lr_global_expert_idx x)"
    using local_expert(3) [OF assms(1-3)] assms(5) by (auto simp: rank_for_expert_def the_group_def)
  ultimately show ?thesis by blast
qed


theorem expert_routing_partitions_witness:
  "\<exists>gs ls. traverse (\<lambda>k. expert_group_new k 2 4) [0..<2] = Inr gs
    \<and> traverse (\<lambda>g. localize_routing g \<lparr>rw_num_experts = 4, rw_routes = [\<lparr>er_token_idx = 0, er_expert_idx = 3, er_weight = 7 :: nat\<rparr>]\<rparr>) gs = Inr ls
    \<and> (\<Sum>l\<leftarrow>ls. image_mset (\<lambda>x. (lr_token_idx x, lr_global_expert_idx x, lr_weight x)) (mset (lx_routes l))) = {#(0, 3, 7)#}"
  using expert_routing_partitions [of 2 4 "\<lparr>rw_num_experts = 4, rw_routes = [\<lparr>er_token_idx = 0, er_expert_idx = 3, er_weight = 7\<rparr>]\<rparr>"]
  by fastforce

text \<open>
  The compaction of the tensor-parallel formula: an expert of the device block \<open>g = e div per_gpu\<close> is
  kept by rank \<open>g mod T\<close> and moves to the block \<open>g div T\<close>.
\<close>

lemma tilekernels_mask_index_eq:
  assumes "0 < per_gpu" "0 < T" "t < T" "0 \<le> i" "nat i < n"
  shows "tilekernels_mask_index n per_gpu t T i =
    Inr (if (nat i div per_gpu) mod T = t then int (nat i div per_gpu div T * per_gpu + nat i mod per_gpu) else -1)"
proof -
  define e where "e = nat i"
  define d where "d = e div per_gpu div T"
  have "e - t * per_gpu = d * (T * per_gpu) + e mod per_gpu" if "e div per_gpu mod T = t"
  proof -
    have "e = e div per_gpu * per_gpu + e mod per_gpu" "e div per_gpu = d * T + e div per_gpu mod T"
      by (simp_all add: d_def)
    then have "e = (d * T + t) * per_gpu + e mod per_gpu" using that by metis
    then show ?thesis by (simp add: algebra_simps)
  qed
  moreover have "e mod per_gpu < T * per_gpu" using assms(1,2)
    by (metis mod_less_divisor less_le_trans mult_le_mono1 nat_mult_1 One_nat_def Suc_leI)
  then have "(d * (T * per_gpu) + e mod per_gpu) div (T * per_gpu) = d"
    using div_mult_self3 [of "T * per_gpu" d "e mod per_gpu"] assms(1,2) by (simp only: div_less)
  moreover have "d * (T * per_gpu) + e mod per_gpu - d * (T * per_gpu - per_gpu) = d * per_gpu + e mod per_gpu"
    using assms(2) by (cases T) (simp_all add: algebra_simps)
  ultimately show ?thesis using assms(4,5) by (simp add: tilekernels_mask_index_def Let_def e_def d_def)
qed

text \<open>
  (C35) The formula copied from the kernels agrees with the expert placement: with as many
  tensor-parallel ranks as expert ranks it masks and renumbers every index list exactly as the
  expert group of that rank does, and it refuses exactly the same layouts and indices.
\<close>

theorem tilekernels_mask_equals_expert_group:
  "tilekernels_mask_indices_by_tp_layout indices n world k world
    = try_then (expert_group_new k world n) (\<lambda>g. mask_indices_to_local g indices)"
proof (cases "0 < world \<and> k < world \<and> 0 < n \<and> world dvd n")
  case True
  have pos: "0 < n div world" and n: "n = world * (n div world)"
    using True by (simp_all add: dvd_imp_le div_greater_zero_iff)
  have "tilekernels_mask_index n (n div world) k world = mask_index (the_group world n k)"
  proof (rule ext)
  fix i show "tilekernels_mask_index n (n div world) k world i = mask_index (the_group world n k) i"
  proof (cases "0 \<le> i \<and> nat i < n")
    case in_range: True
    let ?e = "nat i"
    have lt: "?e div (n div world) < world" using local_expert(1) in_range True by blast
    then have "tilekernels_mask_index n (n div world) k world i =
        Inr (if ?e div (n div world) = k then int (?e mod (n div world)) else -1)"
      using tilekernels_mask_index_eq [OF pos, of world k i n] in_range True by simp
    moreover have "eg_num_experts (the_group world n k) = n" by (simp add: the_group_def)
    ultimately show ?thesis using local_expert(2) [of world n ?e k] in_range True by (simp add: mask_index_def)
  qed (auto simp: tilekernels_mask_index_def mask_index_def Let_def the_group_def)
  qed
  then show ?thesis using True
    by (simp add: tilekernels_mask_indices_by_tp_layout_def expert_group_new_eq mask_indices_to_local_def Let_def)
qed (auto simp: tilekernels_mask_indices_by_tp_layout_def expert_group_new_def)

end
