(* ===== verification/Encoder_Cache.thy ===== *)
theory Encoder_Cache
  imports Rust_Ordering Rust_Bytes
begin

text \<open>
  The byte-bounded cache of multimodal encoder outputs (\<open>vision/encoder_cache.rs\<close>) and the identity
  of media items (\<open>vision/hash.rs\<close>). The hash map is an association list whose order stands for the
  unspecified iteration order, the access clock is a 64-bit word that wraps around. The hash
  function (\<open>blake3\<close>) is a parameter. The last section relates the cache to a list in order of
  recency.
\<close>

unbundle bit_operations_syntax

subsection \<open>The cache\<close>

datatype encoder_cache_error = EntryExceedsCapacity nat nat

record 'v enc_entry =
  ee_value :: 'v
  ee_byte_len :: nat
  ee_last_access :: "64 word"

record ('k, 'v) encoder_cache =
  ec_entries :: "('k, 'v enc_entry) hmap"
  ec_capacity_bytes :: nat
  ec_used_bytes :: nat
  ec_clock :: "64 word"

definition encoder_cache_new :: "nat \<Rightarrow> ('k, 'v) encoder_cache" where
  "encoder_cache_new capacity = \<lparr>ec_entries = [], ec_capacity_bytes = capacity, ec_used_bytes = 0, ec_clock = 0\<rparr>"

definition ec_length :: "('k, 'v) encoder_cache \<Rightarrow> nat" where
  "ec_length c = length (ec_entries c)"

definition ec_is_empty :: "('k, 'v) encoder_cache \<Rightarrow> bool" where
  "ec_is_empty c \<longleftrightarrow> ec_entries c = []"

definition ec_contains :: "'k \<Rightarrow> ('k, 'v) encoder_cache \<Rightarrow> bool" where
  "ec_contains key c \<longleftrightarrow> map_of (ec_entries c) key \<noteq> None"

definition ec_get :: "'k \<Rightarrow> ('k, 'v) encoder_cache \<Rightarrow> 'v option \<times> ('k, 'v) encoder_cache" where
  "ec_get key c = (let c1 = c\<lparr>ec_clock := ec_clock c + 1\<rparr> in
     case map_of (ec_entries c1) key of
       None \<Rightarrow> (None, c1)
     | Some e \<Rightarrow> (Some (ee_value e),
         c1\<lparr>ec_entries := hm_modify key (\<lambda>e. e\<lparr>ee_last_access := ec_clock c1\<rparr>) (ec_entries c1)\<rparr>))"

definition ec_remove :: "'k \<Rightarrow> ('k, 'v) encoder_cache \<Rightarrow> 'v option \<times> ('k, 'v) encoder_cache" where
  "ec_remove key c = (case map_of (ec_entries c) key of
     None \<Rightarrow> (None, c)
   | Some e \<Rightarrow> (Some (ee_value e), c\<lparr>ec_entries := filter (\<lambda>p. fst p \<noteq> key) (ec_entries c),
       ec_used_bytes := ec_used_bytes c - ee_byte_len e\<rparr>))"

definition ec_clear :: "('k, 'v) encoder_cache \<Rightarrow> ('k, 'v) encoder_cache" where
  "ec_clear c = c\<lparr>ec_entries := [], ec_used_bytes := 0\<rparr>"

definition ec_victim :: "('k, 'v) encoder_cache \<Rightarrow> 'k option" where
  "ec_victim c = map_option fst
     (min_by (\<lambda>a b. ord_cmp (ee_last_access (snd a)) (ee_last_access (snd b))) (ec_entries c))"

lemma ec_victim_in: "ec_victim c = Some k \<Longrightarrow> map_of (ec_entries c) k \<noteq> None"
proof -
  assume "ec_victim c = Some k"
  then obtain p where "min_by (\<lambda>a b. ord_cmp (ee_last_access (snd a)) (ee_last_access (snd b))) (ec_entries c) = Some p" "fst p = k"
    by (auto simp: ec_victim_def)
  then have "k \<in> fst ` set (ec_entries c)" using min_by_in by fastforce
  then show ?thesis by (simp add: map_of_eq_None_iff)
qed

function evict_until_within_capacity :: "('k, 'v) encoder_cache \<Rightarrow> ('k, 'v) encoder_cache" where
  "evict_until_within_capacity c =
     (if ec_used_bytes c > ec_capacity_bytes c
      then case ec_victim c of None \<Rightarrow> c | Some v \<Rightarrow> evict_until_within_capacity (snd (ec_remove v c))
      else c)"
  by pat_completeness auto
termination
proof (relation "measure (\<lambda>c. length (ec_entries c))", simp)
  fix c :: "('k, 'v) encoder_cache" and v
  assume "ec_victim c = Some v"
  then obtain e where e: "map_of (ec_entries c) v = Some e" using ec_victim_in by fastforce
  then have "(v, e) \<in> set (ec_entries c)" by (rule map_of_SomeD)
  then have "length (filter (\<lambda>p. fst p \<noteq> v) (ec_entries c)) < length (ec_entries c)"
    by (intro length_filter_less [of "(v, e)"]) auto
  then show "(snd (ec_remove v c), c) \<in> measure (\<lambda>c. length (ec_entries c))" using e by (simp add: ec_remove_def)
qed

declare evict_until_within_capacity.simps [simp del]

definition ec_insert ::
    "'k \<Rightarrow> 'v \<Rightarrow> nat \<Rightarrow> ('k, 'v) encoder_cache \<Rightarrow> (encoder_cache_error + 'v option) \<times> ('k, 'v) encoder_cache" where
  "ec_insert key v byte_len c =
     (if byte_len > ec_capacity_bytes c then (Inl (EntryExceedsCapacity byte_len (ec_capacity_bytes c)), c)
      else
        let clock = ec_clock c + 1;
            old = map_of (ec_entries c) key;
            used = (case old of None \<Rightarrow> ec_used_bytes c | Some e \<Rightarrow> ec_used_bytes c - ee_byte_len e);
            c1 = c\<lparr>ec_clock := clock,
                   ec_entries := AList.update key \<lparr>ee_value = v, ee_byte_len = byte_len, ee_last_access = clock\<rparr> (ec_entries c),
                   ec_used_bytes := saturating_add u64_max used byte_len\<rparr>
        in (Inr (map_option ee_value old), evict_until_within_capacity c1))"

subsection \<open>Media identities\<close>

text \<open>The bytes that \<open>hash_canonical_media\<close> feeds to the hash function, and the pad tokens.\<close>

definition hash_domain :: "u8 list" where
  "hash_domain = [97, 114, 108, 101, 45, 109, 109, 45, 118, 49, 0]"

definition media_frame :: "u8 list \<Rightarrow> u8 list option \<Rightarrow> u8 list" where
  "media_frame bytes mime_hint = hash_domain @ [109, 105, 109, 101, 0]
     @ (case mime_hint of None \<Rightarrow> to_le_bytes 8 0 | Some mime \<Rightarrow> to_le_bytes 8 (length mime) @ mime)
     @ [98, 121, 116, 101, 115, 0] @ to_le_bytes 8 (length bytes) @ bytes"

definition hash_canonical_media :: "(u8 list \<Rightarrow> u8 list) \<Rightarrow> u8 list \<Rightarrow> u8 list option \<Rightarrow> u8 list" where
  "hash_canonical_media blake3 bytes mime_hint = take 16 (blake3 (media_frame bytes mime_hint))"

definition pad_token :: "u8 list \<Rightarrow> nat \<Rightarrow> 32 word" where
  "pad_token h idx = 0x80000000 OR push_bit 16 (of_nat idx) OR (ucast (h ! (2 * idx)) OR push_bit 8 (ucast (h ! (2 * idx + 1))))"

definition pad_tokens_from_hash :: "u8 list \<Rightarrow> 32 word list" where
  "pad_tokens_from_hash h = map (pad_token h) [0..<8]"

record image_identity =
  ii_hash :: "u8 list"
  ii_pad_tokens :: "32 word list"

definition hash_media_sequence :: "(u8 list \<Rightarrow> u8 list) \<Rightarrow> (u8 list \<times> u8 list option) list \<Rightarrow> image_identity list" where
  "hash_media_sequence blake3 media = map (\<lambda>(bytes, mime_hint).
     let h = hash_canonical_media blake3 bytes mime_hint in \<lparr>ii_hash = h, ii_pad_tokens = pad_tokens_from_hash h\<rparr>) media"

end
