(* ===== verification/Encoder_Props.thy ===== *)
theory Encoder_Props
  imports Encoder_Cache
begin

text \<open>
  The encoder cache refines a bounded list in order of recency: a hit moves its item to the front, an
  insertion puts a new item there and keeps the longest prefix that fits the capacity. The pad
  tokens of a media item determine its hash and stay out of the vocabulary.
\<close>

subsection \<open>The longest prefix that fits\<close>

fun fit :: "('a \<Rightarrow> nat) \<Rightarrow> nat \<Rightarrow> 'a list \<Rightarrow> 'a list" where
  "fit sz capacity [] = []"
| "fit sz capacity (x # xs) = (if sz x \<le> capacity then x # fit sz (capacity - sz x) xs else [])"

lemma fit_all: "sum_list (map sz xs) \<le> capacity \<Longrightarrow> fit sz capacity xs = xs"
  by (induction xs arbitrary: capacity) auto

lemma fit_snoc: "capacity < sum_list (map sz (xs @ [x])) \<Longrightarrow> fit sz capacity (xs @ [x]) = fit sz capacity xs"
  by (induction xs arbitrary: capacity) auto

lemma fit_le: "sum_list (map sz (fit sz capacity xs)) \<le> capacity"
proof (induction xs arbitrary: capacity)
  case (Cons x xs)
  have "sum_list (map sz (fit sz (capacity - sz x) xs)) \<le> capacity - sz x" by (rule Cons)
  then show ?case by (cases "sz x \<le> capacity") simp_all
qed simp

lemma fit_map: "fit sz capacity (map f xs) = map f (fit (sz \<circ> f) capacity xs)"
  by (induction xs arbitrary: capacity) auto

lemma fit_prefix: "\<exists>ys. xs = fit sz capacity xs @ ys"
proof (induction xs arbitrary: capacity)
  case (Cons x xs)
  then show ?case using Cons [of "capacity - sz x"] by auto
qed simp

subsection \<open>Association lists up to order\<close>

lemma mset_remove_key:
  "distinct (map fst m) \<Longrightarrow> map_of m k = Some e \<Longrightarrow> mset m = add_mset (k, e) (mset (filter (\<lambda>p. fst p \<noteq> k) m))"
proof (induction m)
  case (Cons p m)
  show ?case
  proof (cases "fst p = k")
    case True
    then have "\<forall>q\<in>set m. fst q \<noteq> k" using Cons.prems(1) by (auto simp: rev_image_eqI)
    then have "filter (\<lambda>p. fst p \<noteq> k) m = m" by (simp add: filter_id_conv)
    then show ?thesis using True Cons.prems(2) by (cases p) simp
  qed (use Cons in auto)
qed simp

lemma mset_no_key: "map_of m k = None \<Longrightarrow> filter (\<lambda>p. fst p \<noteq> k) m = m"
  by (force simp: filter_id_conv map_of_eq_None_iff)

lemma mset_update_key:
  "distinct (map fst m) \<Longrightarrow> mset (AList.update k v m) = add_mset (k, v) (mset (filter (\<lambda>p. fst p \<noteq> k) m))"
proof (induction m)
  case (Cons p m)
  show ?case
  proof (cases "fst p = k")
    case True
    then have "map_of m k = None" using Cons.prems by (simp add: map_of_eq_None_iff)
    then show ?thesis using True by (cases p) (simp add: mset_no_key)
  qed (use Cons in \<open>cases p, auto\<close>)
qed simp

lemma mset_modify_key:
  "distinct (map fst m) \<Longrightarrow> map_of m k = Some e \<Longrightarrow>
     mset (hm_modify k f m) = add_mset (k, f e) (mset (filter (\<lambda>p. fst p \<noteq> k) m))"
proof (induction m)
  case (Cons p m)
  show ?case
  proof (cases "fst p = k")
    case True
    then have none: "map_of m k = None" using Cons.prems by (simp add: map_of_eq_None_iff)
    then have "\<forall>q\<in>set m. fst q \<noteq> k" by (force simp: map_of_eq_None_iff)
    then have "hm_modify k f m = m" unfolding hm_modify_def by (intro map_idI) auto
    then show ?thesis using True Cons.prems(2) none by (cases p) (simp add: mset_no_key hm_modify_def)
  qed (use Cons in \<open>cases p, auto simp: hm_modify_def\<close>)
qed simp

subsection \<open>The reference\<close>

type_synonym ('k, 'v) lru = "('k \<times> 'v \<times> nat) list"

definition lru_without :: "'k \<Rightarrow> ('k, 'v) lru \<Rightarrow> ('k, 'v) lru" where
  "lru_without k l = filter (\<lambda>p. fst p \<noteq> k) l"

definition lru_get :: "'k \<Rightarrow> ('k, 'v) lru \<Rightarrow> 'v option \<times> ('k, 'v) lru" where
  "lru_get k l = (case map_of l k of None \<Rightarrow> (None, l) | Some (v, n) \<Rightarrow> (Some v, (k, v, n) # lru_without k l))"

definition lru_remove :: "'k \<Rightarrow> ('k, 'v) lru \<Rightarrow> 'v option \<times> ('k, 'v) lru" where
  "lru_remove k l = (map_option fst (map_of l k), lru_without k l)"

definition lru_insert :: "nat \<Rightarrow> 'k \<Rightarrow> 'v \<Rightarrow> nat \<Rightarrow> ('k, 'v) lru \<Rightarrow> (encoder_cache_error + 'v option) \<times> ('k, 'v) lru" where
  "lru_insert capacity k v n l = (if n > capacity then (Inl (EntryExceedsCapacity n capacity), l)
     else (Inr (map_option fst (map_of l k)), fit (\<lambda>p. snd (snd p)) capacity ((k, v, n) # lru_without k l)))"

datatype ('k, 'v) cache_op = CacheGet 'k | CacheInsert 'k 'v nat | CacheRemove 'k | CacheClear

datatype 'v cache_out = Got "'v option" | Inserted "encoder_cache_error + 'v option" | Cleared

fun cache_step :: "('k, 'v) cache_op \<Rightarrow> ('k, 'v) encoder_cache \<Rightarrow> 'v cache_out \<times> ('k, 'v) encoder_cache" where
  "cache_step (CacheGet k) c = map_prod Got id (ec_get k c)"
| "cache_step (CacheInsert k v n) c = map_prod Inserted id (ec_insert k v n c)"
| "cache_step (CacheRemove k) c = map_prod Got id (ec_remove k c)"
| "cache_step CacheClear c = (Cleared, ec_clear c)"

fun lru_step :: "nat \<Rightarrow> ('k, 'v) cache_op \<Rightarrow> ('k, 'v) lru \<Rightarrow> 'v cache_out \<times> ('k, 'v) lru" where
  "lru_step capacity (CacheGet k) l = map_prod Got id (lru_get k l)"
| "lru_step capacity (CacheInsert k v n) l = map_prod Inserted id (lru_insert capacity k v n l)"
| "lru_step capacity (CacheRemove k) l = map_prod Got id (lru_remove k l)"
| "lru_step capacity CacheClear l = (Cleared, [])"

fun run_ops :: "('op \<Rightarrow> 's \<Rightarrow> 'out \<times> 's) \<Rightarrow> 'op list \<Rightarrow> 's \<Rightarrow> 'out list \<times> 's" where
  "run_ops step [] s = ([], s)"
| "run_ops step (op # ops) s = (case step op s of (out, s1) \<Rightarrow> case run_ops step ops s1 of (outs, s2) \<Rightarrow> (out # outs, s2))"

subsection \<open>Simulation\<close>

text \<open>
  \<open>es\<close> is the content of the cache ordered by access, the newest first; \<open>strip\<close> forgets the times.
\<close>

definition strip :: "'k \<times> 'v enc_entry \<Rightarrow> 'k \<times> 'v \<times> nat" where
  "strip p = (fst p, ee_value (snd p), ee_byte_len (snd p))"

definition size_of :: "'k \<times> 'v enc_entry \<Rightarrow> nat" where
  "size_of p = ee_byte_len (snd p)"

definition by_access :: "('k, 'v) encoder_cache \<Rightarrow> ('k \<times> 'v enc_entry) list \<Rightarrow> bool" where
  "by_access c es \<longleftrightarrow> mset es = mset (ec_entries c) \<and> distinct (map fst es)
     \<and> sorted_wrt (\<lambda>a b. ee_last_access (snd b) < ee_last_access (snd a)) es
     \<and> ec_used_bytes c = sum_list (map size_of es)"

definition cache_rel :: "nat \<Rightarrow> nat \<Rightarrow> ('k, 'v) encoder_cache \<Rightarrow> ('k, 'v) lru \<Rightarrow> bool" where
  "cache_rel capacity n c l \<longleftrightarrow> (\<exists>es. by_access c es \<and> l = map strip es)
     \<and> unat (ec_clock c) \<le> n \<and> (\<forall>p\<in>set (ec_entries c). ee_last_access (snd p) \<le> ec_clock c)
     \<and> ec_capacity_bytes c = capacity \<and> ec_used_bytes c \<le> capacity"

lemma by_access_keys:
  assumes "by_access c es"
  shows "set es = set (ec_entries c)" "distinct (map fst (ec_entries c))" "map_of (ec_entries c) = map_of es"
proof -
  have m: "mset es = mset (ec_entries c)" using assms by (simp add: by_access_def)
  then show s: "set es = set (ec_entries c)" by (metis set_mset_mset)
  have "mset (map fst es) = mset (map fst (ec_entries c))" using m by (metis mset_map)
  then show d: "distinct (map fst (ec_entries c))" using assms by (metis by_access_def mset_eq_imp_distinct_iff)
  show "map_of (ec_entries c) = map_of es" using assms d s map_of_inject_set by (metis by_access_def)
qed

lemma sum_without:
  assumes "distinct (map fst m)" "map_of m k = Some e"
  shows "sum_list (map size_of m) = ee_byte_len e + sum_list (map size_of (filter (\<lambda>p. fst p \<noteq> k) m))"
proof -
  have sum: "sum_list (map size_of xs) = sum_mset (image_mset size_of (mset xs))" for xs :: "('a \<times> 'b enc_entry) list"
    by (metis mset_map sum_mset_sum_list)
  show ?thesis unfolding sum mset_remove_key [OF assms] by (simp add: size_of_def)
qed

lemma filter_strip: "map strip (filter (\<lambda>p. fst p \<noteq> k) es) = lru_without k (map strip es)"
  by (induction es) (auto simp: strip_def lru_without_def)

lemma map_of_strip: "map_of (map strip es) k = map_option (\<lambda>e. (ee_value e, ee_byte_len e)) (map_of es k)"
  by (induction es) (auto simp: strip_def)

lemma by_access_remove:
  assumes "by_access c es" "map_of es k = Some e"
  shows "by_access (snd (ec_remove k c)) (filter (\<lambda>p. fst p \<noteq> k) es)"
proof -
  have mo: "map_of (ec_entries c) k = Some e" and d: "distinct (map fst es)"
    using assms by_access_keys(3) [OF assms(1)] by (simp_all add: by_access_def)
  have "mset (filter (\<lambda>p. fst p \<noteq> k) es) = mset (filter (\<lambda>p. fst p \<noteq> k) (ec_entries c))"
    using assms(1) by (metis by_access_def mset_filter)
  then show ?thesis using assms(1) mo sum_without [OF d assms(2)]
    by (simp add: by_access_def ec_remove_def sorted_wrt_filter distinct_map_fst_filter)
qed

text \<open>The victim of an eviction is the last item of the list by access.\<close>

lemma ec_victim_last:
  assumes "by_access c (es @ [x])"
  shows "ec_victim c = Some (fst x)"
proof -
  let ?cmp = "\<lambda>a b. ord_cmp (ee_last_access (snd a)) (ee_last_access (snd (b :: 'a \<times> 'b enc_entry)))"
  note s = by_access_keys(1) [OF assms]
  then have "ec_entries c \<noteq> []" by auto
  then obtain p where p: "min_by ?cmp (ec_entries c) = Some p" by (metis min_by_None not_None_eq)
  have "x \<in> set (ec_entries c)" using s by auto
  then have "?cmp p x \<noteq> Greater" by (rule comparison.min_by_least [OF comparison_key p])
  then have "\<not> ee_last_access (snd x) < ee_last_access (snd p)" by (auto simp: ord_cmp_def split: if_splits)
  moreover have "p \<in> set (es @ [x])" using min_by_in [OF p] s by simp
  moreover have "\<forall>a\<in>set es. ee_last_access (snd x) < ee_last_access (snd a)"
    using assms by (simp add: by_access_def sorted_wrt_append)
  ultimately have "p = x" by auto
  then show ?thesis using p by (simp add: ec_victim_def)
qed

lemma evict_fits:
  assumes "by_access c es"
  shows "by_access (evict_until_within_capacity c) (fit size_of (ec_capacity_bytes c) es)
    \<and> ec_capacity_bytes (evict_until_within_capacity c) = ec_capacity_bytes c
    \<and> ec_clock (evict_until_within_capacity c) = ec_clock c"
  using assms
proof (induction es arbitrary: c rule: rev_induct)
  case Nil
  then have "ec_used_bytes c = 0" by (simp add: by_access_def)
  then show ?case using Nil by (simp add: evict_until_within_capacity.simps [of c])
next
  case (snoc x es)
  show ?case
  proof (cases "ec_used_bytes c > ec_capacity_bytes c")
    case False
    then have "sum_list (map size_of (es @ [x])) \<le> ec_capacity_bytes c" using snoc.prems by (simp add: by_access_def)
    then have "fit size_of (ec_capacity_bytes c) (es @ [x]) = es @ [x]" by (rule fit_all)
    then show ?thesis using False snoc.prems by (simp add: evict_until_within_capacity.simps [of c])
  next
    case True
    let ?c = "snd (ec_remove (fst x) c)"
    have d: "distinct (map fst (es @ [x]))" using snoc.prems by (simp add: by_access_def)
    then have mo: "map_of (es @ [x]) (fst x) = Some (snd x)" by (simp add: map_of_eq_None_iff [THEN iffD2] map_add_def)
    have "filter (\<lambda>p. fst p \<noteq> fst x) (es @ [x]) = es" using d by (auto simp: filter_id_conv rev_image_eqI)
    then have "by_access ?c es" using by_access_remove [OF snoc.prems mo] by simp
    note IH = snoc.IH [OF this]
    have "ec_capacity_bytes ?c = ec_capacity_bytes c" "ec_clock ?c = ec_clock c"
      by (simp_all add: ec_remove_def split: option.split)
    moreover have "evict_until_within_capacity c = evict_until_within_capacity ?c"
      using True ec_victim_last [OF snoc.prems] by (simp add: evict_until_within_capacity.simps [of c])
    moreover have "fit size_of (ec_capacity_bytes c) (es @ [x]) = fit size_of (ec_capacity_bytes c) es"
      using True snoc.prems by (intro fit_snoc) (simp add: by_access_def)
    ultimately show ?thesis using IH by simp
  qed
qed

lemma clock_tick:
  fixes t u :: "64 word"
  assumes "unat t \<le> n" "n < 2 ^ 64 - 1"
  shows "unat (t + 1) = Suc (unat t)" "u \<le> t \<Longrightarrow> u < t + 1"
proof -
  show s: "unat (t + 1) = Suc (unat t)" using assms by (simp add: unat_word_ariths)
  show "u < t + 1" if "u \<le> t" using that unfolding word_less_nat_alt word_le_nat_alt s by simp
qed

lemma get_simulates:
  assumes rel: "cache_rel capacity n c l" and n: "n < 2 ^ 64 - 1"
  shows "fst (ec_get k c) = fst (lru_get k l) \<and> cache_rel capacity (Suc n) (snd (ec_get k c)) (snd (lru_get k l))"
proof -
  obtain es where es: "by_access c es" "l = map strip es" using rel by (auto simp: cache_rel_def)
  note keys = by_access_keys [OF es(1)]
  note tick = clock_tick [of "ec_clock c" n, OF _ n]
  have rest: "unat (ec_clock c) \<le> n" "\<forall>p\<in>set (ec_entries c). ee_last_access (snd p) \<le> ec_clock c"
    "ec_capacity_bytes c = capacity" "ec_used_bytes c \<le> capacity" using rel by (simp_all add: cache_rel_def)
  show ?thesis
  proof (cases "map_of (ec_entries c) k")
    case None
    then have "by_access (snd (ec_get k c)) es" using es(1) by (simp add: ec_get_def Let_def by_access_def)
    moreover have "ee_last_access (snd p) \<le> ec_clock c + 1" if "p \<in> set (ec_entries c)" for p
      using tick(2) rest(1,2) that by (auto intro: less_imp_le)
    ultimately show ?thesis using None es(2) keys(3) rest tick(1)
      by (auto simp: cache_rel_def ec_get_def lru_get_def Let_def map_of_strip)
  next
    case (Some e)
    let ?e = "e\<lparr>ee_last_access := ec_clock c + 1\<rparr>" and ?rest = "filter (\<lambda>p. fst p \<noteq> k) es"
    have m: "mset (hm_modify k (\<lambda>e. e\<lparr>ee_last_access := ec_clock c + 1\<rparr>) (ec_entries c)) = mset ((k, ?e) # ?rest)"
      using mset_modify_key [OF keys(2) Some] es(1) by (simp add: by_access_def)
    have new: "\<forall>p\<in>set ?rest. ee_last_access (snd p) < ec_clock c + 1" using rest(1,2) tick(2) keys(1) by auto
    have "by_access (snd (ec_get k c)) ((k, ?e) # ?rest)"
      unfolding by_access_def
    proof (intro conjI)
      show "mset ((k, ?e) # ?rest) = mset (ec_entries (snd (ec_get k c)))" using m Some by (simp add: ec_get_def Let_def)
      show "distinct (map fst ((k, ?e) # ?rest))" using es(1) by (auto simp: by_access_def distinct_map_fst_filter)
      show "sorted_wrt (\<lambda>a b. ee_last_access (snd b) < ee_last_access (snd a)) ((k, ?e) # ?rest)"
        using es(1) new by (auto simp: by_access_def sorted_wrt_filter)
      have "map_of es k = Some e" "distinct (map fst es)" using Some keys(3) es(1) by (simp_all add: by_access_def)
      from sum_without [OF this(2,1)] show "ec_used_bytes (snd (ec_get k c)) = sum_list (map size_of ((k, ?e) # ?rest))"
        using es(1) Some by (simp add: by_access_def ec_get_def Let_def size_of_def)
    qed
    note ba = this
    have "(k, ee_value e, ee_byte_len e) # lru_without k l = map strip ((k, ?e) # ?rest)"
      using es(2) filter_strip [of k es] by (simp add: strip_def)
    moreover have "\<forall>p\<in>set (ec_entries (snd (ec_get k c))). ee_last_access (snd p) \<le> ec_clock c + 1"
      unfolding by_access_keys(1) [OF ba, symmetric] using new by (auto intro: less_imp_le)
    moreover have "ec_clock (snd (ec_get k c)) = ec_clock c + 1" "ec_capacity_bytes (snd (ec_get k c)) = capacity"
      "ec_used_bytes (snd (ec_get k c)) \<le> capacity" "fst (ec_get k c) = Some (ee_value e)"
      using Some rest by (simp_all add: ec_get_def Let_def)
    moreover have "map_of l k = Some (ee_value e, ee_byte_len e)" using Some keys(3) es(2) by (simp add: map_of_strip)
    moreover have "unat (ec_clock c + 1) \<le> Suc n" using tick(1) rest(1) by simp
    ultimately show ?thesis using ba unfolding cache_rel_def lru_get_def by (simp only: option.case prod.case fst_conv snd_conv) blast
  qed
qed

lemma remove_simulates:
  assumes rel: "cache_rel capacity n c l"
  shows "fst (ec_remove k c) = fst (lru_remove k l) \<and> cache_rel capacity n (snd (ec_remove k c)) (snd (lru_remove k l))"
proof -
  obtain es where es: "by_access c es" "l = map strip es" using rel by (auto simp: cache_rel_def)
  note keys = by_access_keys [OF es(1)]
  show ?thesis
  proof (cases "map_of (ec_entries c) k")
    case None
    then have "map_of l k = None" "lru_without k l = l"
      using keys(3) es(2) mset_no_key [of l k] by (simp_all add: map_of_strip lru_without_def)
    then show ?thesis using None rel by (simp add: ec_remove_def lru_remove_def)
  next
    case (Some e)
    then have "map_of es k = Some e" using keys(3) by simp
    note ba = by_access_remove [OF es(1) this]
    have "lru_without k l = map strip (filter (\<lambda>p. fst p \<noteq> k) es)" using es(2) filter_strip by metis
    then show ?thesis using ba Some rel es(2) keys(3)
      by (auto simp: cache_rel_def ec_remove_def lru_remove_def map_of_strip)
  qed
qed

lemma insert_simulates:
  assumes rel: "cache_rel capacity n c l" and n: "n < 2 ^ 64 - 1" and room: "2 * capacity \<le> u64_max"
  shows "fst (ec_insert k v len c) = fst (lru_insert capacity k v len l)
    \<and> cache_rel capacity (Suc n) (snd (ec_insert k v len c)) (snd (lru_insert capacity k v len l))"
proof (cases "len > capacity")
  case True
  then show ?thesis using rel by (auto simp: cache_rel_def ec_insert_def lru_insert_def)
next
  case False
  obtain es where es: "by_access c es" "l = map strip es" using rel by (auto simp: cache_rel_def)
  note keys = by_access_keys [OF es(1)]
  have rest: "unat (ec_clock c) \<le> n" "\<forall>p\<in>set (ec_entries c). ee_last_access (snd p) \<le> ec_clock c"
    "ec_capacity_bytes c = capacity" "ec_used_bytes c \<le> capacity" using rel by (simp_all add: cache_rel_def)
  note tick = clock_tick [OF rest(1) n]
  let ?e = "\<lparr>ee_value = v, ee_byte_len = len, ee_last_access = ec_clock c + 1\<rparr>"
  let ?rest = "filter (\<lambda>p. fst p \<noteq> k) es"
  let ?used = "case map_of (ec_entries c) k of None \<Rightarrow> ec_used_bytes c | Some e \<Rightarrow> ec_used_bytes c - ee_byte_len e"
  define c1 where "c1 = c\<lparr>ec_clock := ec_clock c + 1, ec_entries := AList.update k ?e (ec_entries c),
    ec_used_bytes := saturating_add u64_max ?used len\<rparr>"
  have used: "?used = sum_list (map size_of ?rest)"
  proof (cases "map_of es k")
    case None
    then show ?thesis using es(1) keys(3) by (simp add: mset_no_key by_access_def)
  next
    case (Some e)
    then show ?thesis using sum_without [of es k e] es(1) keys(3) by (simp add: by_access_def)
  qed
  have "?used \<le> ec_used_bytes c" by (auto split: option.split)
  then have exact: "saturating_add u64_max ?used len = ?used + len"
    using room rest(4) False by (intro saturating_add_exact) linarith
  have new: "\<forall>p\<in>set ?rest. ee_last_access (snd p) < ec_clock c + 1" using rest(2) tick(2) keys(1) by auto
  have "by_access c1 ((k, ?e) # ?rest)"
    unfolding by_access_def
  proof (intro conjI)
    show "mset ((k, ?e) # ?rest) = mset (ec_entries c1)"
      using mset_update_key [OF keys(2)] es(1) by (simp add: by_access_def c1_def)
    show "distinct (map fst ((k, ?e) # ?rest))" using es(1) by (auto simp: by_access_def distinct_map_fst_filter)
    show "sorted_wrt (\<lambda>a b. ee_last_access (snd b) < ee_last_access (snd a)) ((k, ?e) # ?rest)"
      using es(1) new by (auto simp: by_access_def sorted_wrt_filter)
    show "ec_used_bytes c1 = sum_list (map size_of ((k, ?e) # ?rest))"
      using exact used by (simp add: c1_def size_of_def)
  qed
  note ev = evict_fits [OF this]
  let ?es = "fit size_of capacity ((k, ?e) # ?rest)" and ?c = "evict_until_within_capacity c1"
  have c1: "ec_capacity_bytes c1 = capacity" "ec_clock c1 = ec_clock c + 1" using rest(3) by (simp_all add: c1_def)
  have ins: "ec_insert k v len c = (Inr (map_option ee_value (map_of (ec_entries c) k)), ?c)"
    using False rest(3) by (simp add: ec_insert_def Let_def c1_def)
  have byc: "by_access ?c ?es" "ec_capacity_bytes ?c = capacity" "ec_clock ?c = ec_clock c + 1" using ev c1 by simp_all
  have "map strip ((k, ?e) # ?rest) = (k, v, len) # lru_without k l" using es(2) filter_strip [of k es] by (simp add: strip_def)
  moreover have "fit (\<lambda>p. snd (snd p)) capacity (map strip ((k, ?e) # ?rest)) = map strip ?es"
    unfolding fit_map by (rule arg_cong [where f = "\<lambda>g. map strip (fit g capacity ((k, ?e) # ?rest))"])
      (auto simp: strip_def size_of_def fun_eq_iff)
  ultimately have abs: "lru_insert capacity k v len l = (Inr (map_option fst (map_of l k)), map strip ?es)"
    using False by (simp add: lru_insert_def)
  have "ec_used_bytes ?c = sum_list (map size_of ?es)" using byc(1) by (simp add: by_access_def)
  then have le: "ec_used_bytes ?c \<le> capacity" using fit_le by metis
  have "set ?es \<subseteq> set ((k, ?e) # ?rest)" using fit_prefix by (metis Un_upper1 set_append)
  then have "\<forall>p\<in>set (ec_entries ?c). ee_last_access (snd p) \<le> ec_clock c + 1"
    using by_access_keys(1) [OF byc(1)] new by (fastforce intro: less_imp_le)
  moreover have "map_option ee_value (map_of (ec_entries c) k) = map_option fst (map_of l k)"
    using es(2) keys(3) by (simp add: map_of_strip option.map_comp comp_def)
  moreover have "unat (ec_clock c + 1) \<le> Suc n" using tick(1) rest(1) by simp
  ultimately show ?thesis using byc le unfolding ins abs cache_rel_def by auto
qed

lemma cache_rel_mono: "cache_rel capacity n c l \<Longrightarrow> n \<le> m \<Longrightarrow> cache_rel capacity m c l"
  by (auto simp: cache_rel_def)

lemma clear_simulates: "cache_rel capacity n c l \<Longrightarrow> cache_rel capacity n (ec_clear c) []"
  by (auto simp: cache_rel_def ec_clear_def by_access_def intro!: exI [of _ "[]"])

lemma step_simulates:
  assumes "cache_rel capacity n c l" "n < 2 ^ 64 - 1" "2 * capacity \<le> u64_max"
  shows "fst (cache_step op c) = fst (lru_step capacity op l)
    \<and> cache_rel capacity (Suc n) (snd (cache_step op c)) (snd (lru_step capacity op l))"
proof (cases op)
  case (CacheGet k)
  then show ?thesis using get_simulates [OF assms(1,2)] by simp
next
  case (CacheInsert k v len)
  then show ?thesis using insert_simulates [OF assms] by simp
next
  case (CacheRemove k)
  then show ?thesis using remove_simulates [OF assms(1)] cache_rel_mono by (metis (no_types) cache_step.simps(3)
    fst_map_prod snd_map_prod id_apply le_SucI lru_step.simps(3) order_refl)
next
  case CacheClear
  then show ?thesis using clear_simulates [OF assms(1)] cache_rel_mono by fastforce
qed

lemma run_simulates:
  assumes "cache_rel capacity n c l" "n + length ops < 2 ^ 64" "2 * capacity \<le> u64_max"
  shows "fst (run_ops cache_step ops c) = fst (run_ops (lru_step capacity) ops l)
    \<and> cache_rel capacity (n + length ops) (snd (run_ops cache_step ops c)) (snd (run_ops (lru_step capacity) ops l))"
  using assms(1,2)
proof (induction ops arbitrary: n c l)
  case (Cons op ops)
  have "n < 2 ^ 64 - 1" using Cons.prems(2) by simp
  note step = step_simulates [OF Cons.prems(1) this assms(3), of op]
  have "Suc n + length ops < 2 ^ 64" using Cons.prems(2) by simp
  from Cons.IH [OF conjunct2 [OF step] this] step show ?case by (simp add: case_prod_beta)
qed simp

text \<open>
  (C16) Over any sequence of fewer than \<open>2 ^ 64\<close> operations the encoder cache answers exactly as a
  list ordered by recency from which an insertion drops what exceeds the capacity; it never holds
  more bytes than its capacity and its byte account is exact.
\<close>

theorem encoder_cache_is_lru:
  assumes "length ops < 2 ^ 64" "2 * capacity \<le> u64_max"
  shows "fst (run_ops cache_step ops (encoder_cache_new capacity)) = fst (run_ops (lru_step capacity) ops [])
    \<and> ec_used_bytes (snd (run_ops cache_step ops (encoder_cache_new capacity)))
        = sum_list (map (\<lambda>p. snd (snd p)) (snd (run_ops (lru_step capacity) ops [])))
    \<and> ec_used_bytes (snd (run_ops cache_step ops (encoder_cache_new capacity))) \<le> capacity"
proof -
  have "cache_rel capacity 0 (encoder_cache_new capacity) []"
    by (auto simp: cache_rel_def encoder_cache_new_def by_access_def intro!: exI [of _ "[]"])
  from run_simulates [OF this, of ops] assms
  have run: "fst (run_ops cache_step ops (encoder_cache_new capacity)) = fst (run_ops (lru_step capacity) ops [])"
    "cache_rel capacity (length ops) (snd (run_ops cache_step ops (encoder_cache_new capacity))) (snd (run_ops (lru_step capacity) ops []))"
    by simp_all
  then obtain es where "by_access (snd (run_ops cache_step ops (encoder_cache_new capacity))) es"
    "snd (run_ops (lru_step capacity) ops []) = map strip es" by (auto simp: cache_rel_def)
  moreover have "map (\<lambda>p. snd (snd p)) (map strip es) = map size_of es" by (simp add: strip_def size_of_def)
  ultimately show ?thesis using run by (simp only: cache_rel_def by_access_def simp_thms)
qed

theorem encoder_cache_is_lru_witness:
  "fst (run_ops cache_step [CacheInsert (1::nat) ''a'' 4, CacheInsert 2 ''b'' 4, CacheGet 1, CacheInsert 3 ''c'' 4, CacheGet 2]
      (encoder_cache_new 10)) = [Inserted (Inr None), Inserted (Inr None), Got (Some ''a''), Inserted (Inr None), Got None]"
  using encoder_cache_is_lru [of "[CacheInsert (1::nat) ''a'' 4, CacheInsert 2 ''b'' 4, CacheGet 1, CacheInsert 3 ''c'' 4, CacheGet 2]" 10]
  by (simp add: u64_max_def lru_insert_def lru_get_def lru_without_def)

subsection \<open>Media identities\<close>

lemma high_bit: "bit (0x80000000 :: 32 word) n \<longleftrightarrow> n = 31"
proof -
  have "(0x80000000 :: 32 word) = push_bit 31 1" by simp
  then show ?thesis by (simp only: bit_push_bit_iff possible_bit_word bit_1_iff) auto
qed

lemma pad_token_bit:
  "bit (pad_token h i) n \<longleftrightarrow> n < 32 \<and> (n = 31 \<or> 16 \<le> n \<and> bit (of_nat i :: 32 word) (n - 16)
     \<or> bit (h ! (2 * i)) n \<or> 8 \<le> n \<and> bit (h ! (2 * i + 1)) (n - 8))"
  unfolding pad_token_def bit_or_iff high_bit by (auto simp: bit_simps dest: bit_imp_le_length)

lemma pad_token_low: "ucast (pad_token h i) = h ! (2 * i)"
  by (rule bit_word_eqI) (auto simp: pad_token_bit bit_simps)

lemma pad_token_second: "ucast (drop_bit 8 (pad_token h i)) = h ! (2 * i + 1)"
  by (rule bit_word_eqI) (auto simp: pad_token_bit bit_simps dest: bit_imp_le_length)

lemma pad_token_reserved: "bit (pad_token h i) 31"
  by (simp add: pad_token_bit)

lemma pad_tokens_determine:
  assumes "length h = 16" "length h' = 16" "pad_tokens_from_hash h = pad_tokens_from_hash h'"
  shows "h = h'"
proof (rule nth_equalityI)
  show "length h = length h'" using assms by simp
  fix j assume "j < length h"
  then have "j div 2 < 8" using assms(1) by simp
  then have eq: "pad_token h (j div 2) = pad_token h' (j div 2)"
    using arg_cong [OF assms(3), of "\<lambda>xs. xs ! (j div 2)"] by (simp add: pad_tokens_from_hash_def)
  have "j = 2 * (j div 2) \<or> j = 2 * (j div 2) + 1" by presburger
  then show "h ! j = h' ! j" using pad_token_low [of _ "j div 2"] pad_token_second [of _ "j div 2"] eq by metis
qed

lemma to_le_bytes_inject: "n < 256 ^ k \<Longrightarrow> m < 256 ^ k \<Longrightarrow> to_le_bytes k n = to_le_bytes k m \<Longrightarrow> n = m"
  by (metis from_to_le_bytes mod_less)

lemma media_frame_inject:
  assumes "length bytes \<le> u64_max" "length bytes' \<le> u64_max" "length (case_option [] id mime) \<le> u64_max"
    "length (case_option [] id mime') \<le> u64_max"
    and "media_frame bytes mime = media_frame bytes' mime'"
  shows "bytes = bytes' \<and> case_option [] id mime = case_option [] id mime'"
proof -
  let ?m = "case_option [] id mime" and ?m' = "case_option [] id mime'"
  let ?t = "[98, 121, 116, 101, 115, 0] :: u8 list"
  have frame: "media_frame b m = hash_domain @ [109, 105, 109, 101, 0] @ to_le_bytes 8 (length (case_option [] id m))
      @ case_option [] id m @ ?t @ to_le_bytes 8 (length b) @ b" for b m
    by (simp add: media_frame_def split: option.split)
  have "(256 :: nat) ^ 8 = u64_max + 1" by (simp add: u64_max_def)
  then have lt: "n \<le> u64_max \<Longrightarrow> n < 256 ^ 8" for n :: nat by simp
  from assms(5) have eq: "to_le_bytes 8 (length ?m) @ ?m @ ?t @ to_le_bytes 8 (length bytes) @ bytes
      = to_le_bytes 8 (length ?m') @ ?m' @ ?t @ to_le_bytes 8 (length bytes') @ bytes'" unfolding frame by simp
  then have "to_le_bytes 8 (length ?m) = to_le_bytes 8 (length ?m')" by (metis append_eq_append_conv length_to_le_bytes)
  then have "length ?m = length ?m'" using to_le_bytes_inject lt assms(3,4) by metis
  moreover from eq have "?m @ ?t @ to_le_bytes 8 (length bytes) @ bytes = ?m' @ ?t @ to_le_bytes 8 (length bytes') @ bytes'"
    by (metis append_eq_append_conv length_to_le_bytes)
  ultimately show ?thesis by simp
qed

text \<open>
  (C32) The identity of a media item is faithful: its eight pad tokens are distinct from every token
  below \<open>2 ^ 31\<close> and determine the sixteen bytes of the hash, and what is fed to the hash function
  determines the bytes of the item and its MIME hint (an absent hint and an empty one are the same).
\<close>

theorem media_identity_faithful:
  assumes "length h = 16" "length h' = 16" "length bytes \<le> u64_max" "length bytes' \<le> u64_max"
    "length (case_option [] id mime) \<le> u64_max" "length (case_option [] id mime') \<le> u64_max"
  shows "list_all (\<lambda>t. 2 ^ 31 \<le> unat t) (pad_tokens_from_hash h)
    \<and> (pad_tokens_from_hash h = pad_tokens_from_hash h') = (h = h')
    \<and> (media_frame bytes mime = media_frame bytes' mime') = (bytes = bytes' \<and> case_option [] id mime = case_option [] id mime')"
proof (intro conjI)
  have "2 ^ 31 \<le> unat w" if "bit w 31" for w :: "32 word"
  proof -
    have "bit (unat w) 31" using that by (simp add: bit_unsigned_iff)
    then have "unat w div 2 ^ 31 \<noteq> 0" by (auto simp: bit_iff_odd dest: odd_pos)
    then show ?thesis by (simp add: div_eq_0_iff not_less)
  qed
  then show "list_all (\<lambda>t. 2 ^ 31 \<le> unat t) (pad_tokens_from_hash h)"
    using pad_token_reserved by (simp add: list_all_iff pad_tokens_from_hash_def)
  show "(pad_tokens_from_hash h = pad_tokens_from_hash h') = (h = h')" using pad_tokens_determine assms(1,2) by blast
  have "media_frame bytes mime = media_frame bytes mime'" if "case_option [] id mime = case_option [] id mime'"
    using that by (auto simp: media_frame_def split: option.splits)
  then show "(media_frame bytes mime = media_frame bytes' mime') = (bytes = bytes' \<and> case_option [] id mime = case_option [] id mime')"
    using media_frame_inject [OF assms(3-6)] by blast
qed

theorem media_identity_faithful_witness:
  "pad_tokens_from_hash (replicate 16 0) \<noteq> pad_tokens_from_hash (replicate 16 1)
    \<and> media_frame [1] (Some [2]) \<noteq> media_frame [2] (Some [1])"
  using media_identity_faithful [of "replicate 16 0" "replicate 16 1" "[1]" "[2]" "Some [2]" "Some [1]"]
  by (simp add: u64_max_def)

end
