(* ===== verification/Engine_Pool.thy ===== *)
theory Engine_Pool
  imports Rust_Ordering
begin

text \<open>
  The pool of loaded engines (\<open>server_engine/pool.rs\<close>): models are loaded on demand under a memory
  budget, and a lease keeps its model loaded. An entry and its leases share two cells, the time of the
  last use and the number of active requests; they live in a store \<open>po_cells\<close>, so that a lease reaches
  the cells of its own entry even if another entry of the same name is loaded later. Times are
  naturals passed in by the caller (\<open>Instant::now\<close>), the loader is an argument, strings are ASCII.
  Nobody holds so many leases that the counter of a cell wraps around.
\<close>

datatype engine_pool_model_type = TextGeneration | Embedding | Reranker

record model_spec =
  sp_id :: string
  sp_model_path :: string
  sp_aliases :: "string list"
  sp_model_type :: engine_pool_model_type
  sp_pinned :: bool
  sp_ttl :: "nat option"
  sp_memory_estimate_bytes :: "nat option"

definition spec_text_generation :: "string \<Rightarrow> string \<Rightarrow> model_spec" where
  "spec_text_generation i path = \<lparr>sp_id = i, sp_model_path = path, sp_aliases = [], sp_model_type = TextGeneration,
     sp_pinned = False, sp_ttl = None, sp_memory_estimate_bytes = None\<rparr>"

definition all_names :: "model_spec \<Rightarrow> string list" where
  "all_names s = sp_id s # sp_aliases s"

definition spec_estimate :: "model_spec \<Rightarrow> nat" where
  "spec_estimate s = (case sp_memory_estimate_bytes s of None \<Rightarrow> 0 | Some n \<Rightarrow> n)"

record pool_cell =
  pc_last_used :: nat
  pc_active_requests :: nat

record 'e pool_entry =
  pe_engine :: 'e
  pe_spec :: model_spec
  pe_cell :: nat

record 'e engine_pool =
  po_specs :: "(string, model_spec) hmap"
  po_aliases :: "(string, string) hmap"
  po_entries :: "(string, 'e pool_entry) hmap"
  po_memory_budget_bytes :: "nat option"
  po_loaded_estimate_bytes :: nat
  po_cells :: "nat \<Rightarrow> pool_cell"
  po_next_cell :: nat

record 'e engine_lease =
  el_model_id :: string
  el_engine :: 'e
  el_cell :: nat

datatype 'err pool_failure = DuplicateName | NotConfigured | SpecMissing | NotGeneration | OverBudget | NoRoom
  | LoaderFailed 'err | ModelActive | ModelPinned

fun insert_names :: "string list \<Rightarrow> string list \<Rightarrow> string list option" where
  "insert_names [] seen = Some seen"
| "insert_names (n # ns) seen = (if n \<in> set seen then None else insert_names ns (n # seen))"

fun pool_new_loop ::
    "model_spec list \<Rightarrow> (string, model_spec) hmap \<Rightarrow> (string, string) hmap \<Rightarrow> string list
       \<Rightarrow> 'err pool_failure + (string, model_spec) hmap \<times> (string, string) hmap" where
  "pool_new_loop [] specs aliases seen = Inr (specs, aliases)"
| "pool_new_loop (s # ss) specs aliases seen = (case insert_names (all_names s) seen of
     None \<Rightarrow> Inl DuplicateName
   | Some seen1 \<Rightarrow> pool_new_loop ss (AList.update (sp_id s) s specs)
       (fold (\<lambda>a. AList.update a (sp_id s)) (sp_aliases s) aliases) seen1)"

definition engine_pool_new :: "model_spec list \<Rightarrow> nat option \<Rightarrow> 'err pool_failure + 'e engine_pool" where
  "engine_pool_new models budget = (case pool_new_loop models [] [] [] of
     Inl e \<Rightarrow> Inl e
   | Inr (specs, aliases) \<Rightarrow> Inr \<lparr>po_specs = specs, po_aliases = aliases, po_entries = [], po_memory_budget_bytes = budget,
       po_loaded_estimate_bytes = 0, po_cells = (\<lambda>_. \<lparr>pc_last_used = 0, pc_active_requests = 0\<rparr>), po_next_cell = 0\<rparr>)"

definition is_space :: "char \<Rightarrow> bool" where
  "is_space ch \<longleftrightarrow> ch \<in> {CHR 0x09, CHR 0x0A, CHR 0x0B, CHR 0x0C, CHR 0x0D, CHR '' ''}"

definition trim :: "string \<Rightarrow> string" where
  "trim s = rev (dropWhile is_space (rev (dropWhile is_space s)))"

definition resolve_model_id :: "string \<Rightarrow> 'e engine_pool \<Rightarrow> string option" where
  "resolve_model_id model p = (let m = trim model in
     case map_of (po_specs p) m of Some _ \<Rightarrow> Some m | None \<Rightarrow> map_of (po_aliases p) m)"

definition entry_active :: "'e engine_pool \<Rightarrow> 'e pool_entry \<Rightarrow> nat" where
  "entry_active p e = pc_active_requests (po_cells p (pe_cell e))"

definition entry_last_used :: "'e engine_pool \<Rightarrow> 'e pool_entry \<Rightarrow> nat" where
  "entry_last_used p e = pc_last_used (po_cells p (pe_cell e))"

subsection \<open>Eviction\<close>

definition eviction_candidates :: "'e engine_pool \<Rightarrow> (string \<times> nat \<times> nat) list" where
  "eviction_candidates p = sort_by (\<lambda>a b. ord_cmp (fst (snd a)) (fst (snd b)))
     (map (\<lambda>(i, e). (i, entry_last_used p e, spec_estimate (pe_spec e)))
       (filter (\<lambda>(i, e). entry_active p e = 0 \<and> \<not> sp_pinned (pe_spec e)) (po_entries p)))"

fun eviction_loop :: "nat \<Rightarrow> (string \<times> nat \<times> nat) list \<Rightarrow> nat \<Rightarrow> string list \<Rightarrow> string list option" where
  "eviction_loop required [] freed victims = None"
| "eviction_loop required ((i, t, n) # cs) freed victims =
     (let freed1 = saturating_add u64_max freed n; victims1 = victims @ [i] in
      if freed1 \<ge> required then Some victims1 else eviction_loop required cs freed1 victims1)"

definition eviction_plan :: "nat \<Rightarrow> 'e engine_pool \<Rightarrow> 'err pool_failure + string list" where
  "eviction_plan incoming p = (case po_memory_budget_bytes p of
     None \<Rightarrow> Inr []
   | Some budget \<Rightarrow>
       if incoming > budget then Inl OverBudget
       else let projected = saturating_add u64_max (po_loaded_estimate_bytes p) incoming in
         if projected \<le> budget then Inr []
         else let required = projected - budget in
           case eviction_loop required (eviction_candidates p) 0 [] of None \<Rightarrow> Inl NoRoom | Some vs \<Rightarrow> Inr vs)"

definition remove_entry :: "string \<Rightarrow> 'e engine_pool \<Rightarrow> 'e engine_pool" where
  "remove_entry i p = (case map_of (po_entries p) i of
     None \<Rightarrow> p
   | Some e \<Rightarrow> p\<lparr>po_entries := filter (\<lambda>q. fst q \<noteq> i) (po_entries p),
       po_loaded_estimate_bytes := po_loaded_estimate_bytes p - spec_estimate (pe_spec e)\<rparr>)"

definition apply_evictions :: "string list \<Rightarrow> 'e engine_pool \<Rightarrow> 'e engine_pool" where
  "apply_evictions victims p = fold remove_entry victims p"

subsection \<open>Leases\<close>

definition load_entry :: "nat \<Rightarrow> string \<Rightarrow> model_spec \<Rightarrow> 'e \<Rightarrow> 'e engine_pool \<Rightarrow> 'e engine_pool" where
  "load_entry now i s engine p = p\<lparr>
     po_loaded_estimate_bytes := saturating_add u64_max (po_loaded_estimate_bytes p) (spec_estimate s),
     po_entries := AList.update i \<lparr>pe_engine = engine, pe_spec = s, pe_cell = po_next_cell p\<rparr> (po_entries p),
     po_cells := (po_cells p)(po_next_cell p := \<lparr>pc_last_used = now, pc_active_requests = 0\<rparr>),
     po_next_cell := po_next_cell p + 1\<rparr>"

definition take_lease :: "'e pool_entry \<Rightarrow> 'e engine_pool \<Rightarrow> 'e engine_lease \<times> 'e engine_pool" where
  "take_lease e p = (\<lparr>el_model_id = sp_id (pe_spec e), el_engine = pe_engine e, el_cell = pe_cell e\<rparr>,
     p\<lparr>po_cells := (po_cells p)(pe_cell e := (po_cells p (pe_cell e))\<lparr>pc_active_requests := entry_active p e + 1\<rparr>)\<rparr>)"

definition checkout_with_loader ::
    "nat \<Rightarrow> string \<Rightarrow> (model_spec \<Rightarrow> 'err + 'e) \<Rightarrow> 'e engine_pool
       \<Rightarrow> ('err pool_failure + 'e engine_lease) \<times> 'e engine_pool" where
  "checkout_with_loader now model loader p = (case resolve_model_id model p of
     None \<Rightarrow> (Inl NotConfigured, p)
   | Some i \<Rightarrow> (case map_of (po_specs p) i of
       None \<Rightarrow> (Inl SpecMissing, p)
     | Some s \<Rightarrow>
         if sp_model_type s \<noteq> TextGeneration then (Inl NotGeneration, p)
         else case map_of (po_entries p) i of
           Some e \<Rightarrow> map_prod Inr id (take_lease e p)
         | None \<Rightarrow> (case eviction_plan (spec_estimate s) p of
             Inl err \<Rightarrow> (Inl err, p)
           | Inr victims \<Rightarrow> let p1 = apply_evictions victims p in
               (case loader s of
                  Inl err \<Rightarrow> (Inl (LoaderFailed err), p1)
                | Inr engine \<Rightarrow> let p2 = load_entry now i s engine p1 in
                    map_prod Inr id (take_lease \<lparr>pe_engine = engine, pe_spec = s, pe_cell = po_next_cell p1\<rparr> p2)))))"

definition lease_drop :: "nat \<Rightarrow> 'e engine_lease \<Rightarrow> 'e engine_pool \<Rightarrow> 'e engine_pool" where
  "lease_drop now l p = p\<lparr>po_cells := (po_cells p)(el_cell l :=
     \<lparr>pc_last_used = now, pc_active_requests = pc_active_requests (po_cells p (el_cell l)) - 1\<rparr>)\<rparr>"

definition unload_idle :: "string \<Rightarrow> 'e engine_pool \<Rightarrow> ('err pool_failure + bool) \<times> 'e engine_pool" where
  "unload_idle model p = (case resolve_model_id model p of
     None \<Rightarrow> (Inr False, p)
   | Some i \<Rightarrow> (case map_of (po_entries p) i of
       None \<Rightarrow> (Inr False, p)
     | Some e \<Rightarrow>
         if entry_active p e \<noteq> 0 then (Inl ModelActive, p)
         else if sp_pinned (pe_spec e) then (Inl ModelPinned, p)
         else (Inr True, remove_entry i p)))"

definition entry_expired :: "nat \<Rightarrow> 'e engine_pool \<Rightarrow> 'e pool_entry \<Rightarrow> bool" where
  "entry_expired now p e = (case sp_ttl (pe_spec e) of None \<Rightarrow> False
     | Some ttl \<Rightarrow> entry_active p e = 0 \<and> \<not> sp_pinned (pe_spec e) \<and> now - entry_last_used p e \<ge> ttl)"

definition unload_expired :: "nat \<Rightarrow> 'e engine_pool \<Rightarrow> string list \<times> 'e engine_pool" where
  "unload_expired now p = (let expired = map fst (filter (\<lambda>(i, e). entry_expired now p e) (po_entries p)) in
     (expired, fold remove_entry expired p))"

subsection \<open>The pool in use\<close>

text \<open>
  A pool and the leases that are out. The loader of a checkout is arbitrary, and so are the times.
\<close>

type_synonym 'e pool_sys = "'e engine_pool \<times> 'e engine_lease list"

inductive pool_step :: "'e pool_sys \<Rightarrow> 'e pool_sys \<Rightarrow> bool" where
  checkout: "checkout_with_loader now model (loader :: model_spec \<Rightarrow> unit + 'e) p = (Inr l, p') \<Longrightarrow>
     pool_step (p, ls) (p', l # ls)"
| checkout_fails: "checkout_with_loader now model (loader :: model_spec \<Rightarrow> unit + 'e) p = (Inl e, p') \<Longrightarrow>
     pool_step (p, ls) (p', ls)"
| drop: "l \<in> set ls \<Longrightarrow> pool_step (p, ls) (lease_drop now l p, remove1 l ls)"
| unload: "unload_idle model p = (r :: unit pool_failure + bool, p') \<Longrightarrow> pool_step (p, ls) (p', ls)"
| expire: "pool_step (p, ls) (snd (unload_expired now p), ls)"

end
