(* ===== verification/Engine_Props.thy ===== *)
theory Engine_Props
  imports Engine_Pool
begin

text \<open>
  A lease keeps its model loaded, whatever is checked out, dropped, unloaded or expired meanwhile; the
  estimates of the loaded models stay within the budget; evictions take the least recently used
  idle models and no more than needed.
\<close>

subsection \<open>The plan\<close>

definition freed_by :: "(string \<times> nat \<times> nat) list \<Rightarrow> nat" where
  "freed_by cs = sum_list (map (\<lambda>c. snd (snd c)) cs)"

lemma freed_by_simps [simp]: "freed_by [] = 0" "freed_by (c # cs) = snd (snd c) + freed_by cs"
  by (simp_all add: freed_by_def)

lemma eviction_loop_Some:
  assumes "eviction_loop required cs freed vs = Some ws" "required \<le> u64_max"
  shows "\<exists>k\<le>length cs. 0 < k \<and> ws = vs @ map fst (take k cs) \<and> required \<le> freed + freed_by (take k cs)
    \<and> (\<forall>j < k. 0 < j \<longrightarrow> freed + freed_by (take j cs) < required)"
  using assms(1)
proof (induction cs arbitrary: freed vs)
  case (Cons c cs)
  obtain i t n where c: "c = (i, t, n)" by (cases c)
  show ?case
  proof (cases "saturating_add u64_max freed n \<ge> required")
    case True
    then have "required \<le> freed + n" by (simp add: saturating_add_def)
    then show ?thesis using True Cons.prems c by (intro exI [of _ 1]) (simp add: Let_def)
  next
    case False
    then have exact: "saturating_add u64_max freed n = freed + n" using assms(2) by (auto simp: saturating_add_def)
    then have "eviction_loop required cs (freed + n) (vs @ [i]) = Some ws" using Cons.prems False c by (simp add: Let_def)
    from Cons.IH [OF this] obtain k where k: "k \<le> length cs" "0 < k" "ws = (vs @ [i]) @ map fst (take k cs)"
      "required \<le> freed + n + freed_by (take k cs)" "\<forall>j<k. 0 < j \<longrightarrow> freed + n + freed_by (take j cs) < required" by blast
    have "freed + freed_by (take j (c # cs)) < required" if "j < Suc k" "0 < j" for j
    proof (cases j)
      case (Suc j')
      have "freed + n + freed_by (take j' cs) < required" using k(5) Suc that False exact by (cases "j' = 0") auto
      then show ?thesis using Suc c by simp
    qed (use that in simp)
    then show ?thesis using k c by (intro exI [of _ "Suc k"]) simp
  qed
qed simp

lemma eviction_loop_None:
  assumes "eviction_loop required cs freed vs = None" "required \<le> u64_max" "cs \<noteq> []"
  shows "freed + freed_by cs < required"
  using assms(1,3)
proof (induction cs arbitrary: freed vs)
  case (Cons c cs)
  obtain i t n where c: "c = (i, t, n)" by (cases c)
  have lt: "saturating_add u64_max freed n < required" using Cons.prems c by (auto simp: Let_def split: if_splits)
  then have exact: "saturating_add u64_max freed n = freed + n" using assms(2) by (auto simp: saturating_add_def)
  show ?case
  proof (cases "cs = []")
    case False
    have "eviction_loop required cs (freed + n) (vs @ [i]) = None" using Cons.prems lt exact c by (auto simp: Let_def split: if_splits)
    from Cons.IH [OF this False] show ?thesis using c by simp
  qed (use lt exact c in simp)
qed simp

text \<open>The models that may be evicted, the least recently used first.\<close>

lemma candidates_sorted: "sorted (map (\<lambda>c. fst (snd c)) (eviction_candidates p))"
proof -
  let ?cmp = "\<lambda>a b :: string \<times> nat \<times> nat. ord_cmp (fst (snd a)) (fst (snd b))"
  have "sorted_wrt (\<lambda>a b. ?cmp a b \<noteq> Greater) (eviction_candidates p)"
    unfolding eviction_candidates_def by (rule comparison.sorted_sort_by [OF comparison_key])
  then show ?thesis unfolding sorted_map by (rule sorted_wrt_mono_rel [rotated]) (auto simp: ord_cmp_def split: if_splits)
qed

lemma candidates_mset:
  "mset (eviction_candidates p) = image_mset (\<lambda>(i, e). (i, entry_last_used p e, spec_estimate (pe_spec e)))
     (mset (filter (\<lambda>(i, e). entry_active p e = 0 \<and> \<not> sp_pinned (pe_spec e)) (po_entries p)))"
  by (simp add: eviction_candidates_def)

lemma eviction_plan_spec:
  assumes "po_memory_budget_bytes p = Some budget" "po_loaded_estimate_bytes p \<le> budget" "2 * budget \<le> u64_max"
  shows "case eviction_plan incoming p of
      Inr victims \<Rightarrow> (\<exists>k\<le>length (eviction_candidates p). victims = map fst (take k (eviction_candidates p))
        \<and> po_loaded_estimate_bytes p + incoming \<le> budget + freed_by (take k (eviction_candidates p))
        \<and> (\<forall>j<k. budget + freed_by (take j (eviction_candidates p)) < po_loaded_estimate_bytes p + incoming))
    | Inl e \<Rightarrow> budget < incoming \<or> budget + freed_by (eviction_candidates p) < po_loaded_estimate_bytes p + incoming"
proof (cases "incoming > budget")
  case True
  then show ?thesis using assms(1) by (simp add: eviction_plan_def)
next
  case False
  let ?loaded = "po_loaded_estimate_bytes p" and ?cs = "eviction_candidates p"
  have exact: "saturating_add u64_max ?loaded incoming = ?loaded + incoming"
    using assms(2,3) False by (intro saturating_add_exact) linarith
  show ?thesis
  proof (cases "?loaded + incoming \<le> budget")
    case True
    then show ?thesis using assms(1) False exact by (auto simp: eviction_plan_def Let_def intro!: exI [of _ 0])
  next
    case over: False
    let ?r = "?loaded + incoming - budget"
    have r: "0 < ?r" "?r \<le> u64_max" using over assms(2,3) False by linarith+
    have plan: "eviction_plan incoming p = (case eviction_loop ?r ?cs 0 [] of None \<Rightarrow> Inl NoRoom | Some vs \<Rightarrow> Inr vs)"
      using assms(1) False over exact by (simp add: eviction_plan_def Let_def)
    show ?thesis
    proof (cases "eviction_loop ?r ?cs 0 []")
      case None
      then have "freed_by ?cs < ?r" using eviction_loop_None [OF None r(2)] r(1) by (cases "?cs = []") auto
      then show ?thesis using None over by (simp add: plan) linarith
    next
      case (Some vs)
      from eviction_loop_Some [OF Some r(2)]
      obtain k where k: "k \<le> length ?cs" "0 < k" "vs = map fst (take k ?cs)" "?r \<le> freed_by (take k ?cs)"
        "\<forall>j<k. 0 < j \<longrightarrow> freed_by (take j ?cs) < ?r" by auto
      have "budget + freed_by (take j ?cs) < ?loaded + incoming" if "j < k" for j
        using k(5) that over by (cases "j = 0") (simp, fastforce)
      moreover have "?loaded + incoming \<le> budget + freed_by (take k ?cs)" using k(4) by linarith
      ultimately show ?thesis using k Some by (auto simp: plan intro!: exI [of _ k])
    qed
  qed
qed

text \<open>The same over the entries of the pool themselves.\<close>

definition estimates :: "(string, 'e pool_entry) hmap \<Rightarrow> nat" where
  "estimates es = sum_list (map (\<lambda>q. spec_estimate (pe_spec (snd q))) es)"

definition idle_unpinned :: "'e engine_pool \<Rightarrow> string \<times> 'e pool_entry \<Rightarrow> bool" where
  "idle_unpinned p q \<longleftrightarrow> pc_active_requests (po_cells p (pe_cell (snd q))) = 0 \<and> \<not> sp_pinned (pe_spec (snd q))"

definition last_used :: "'e engine_pool \<Rightarrow> string \<times> 'e pool_entry \<Rightarrow> nat" where
  "last_used p q = pc_last_used (po_cells p (pe_cell (snd q)))"

lemma mset_lift: "mset cs = image_mset f M \<Longrightarrow> \<exists>ys. mset ys = M \<and> map f ys = cs"
proof (induction cs arbitrary: M)
  case (Cons c cs)
  then have "image_mset f M = add_mset c (mset cs)" by simp
  then obtain M1 a where a: "M = add_mset a M1" "f a = c" "image_mset f M1 = mset cs"
    by (metis msed_map_invR)
  then obtain ys where "mset ys = M1" "map f ys = cs" using Cons.IH [of M1] by auto
  then show ?case using a by (intro exI [of _ "a # ys"]) simp
qed simp

lemma candidates_entries:
  "\<exists>es. mset es = mset (filter (idle_unpinned p) (po_entries p))
    \<and> eviction_candidates p = map (\<lambda>q. (fst q, last_used p q, spec_estimate (pe_spec (snd q)))) es
    \<and> sorted (map (last_used p) es)"
proof -
  have idle: "(\<lambda>(i, e). entry_active p e = 0 \<and> \<not> sp_pinned (pe_spec e)) = idle_unpinned p"
    by (auto simp: fun_eq_iff idle_unpinned_def entry_active_def)
  have cand: "(\<lambda>(i, e). (i, entry_last_used p e, spec_estimate (pe_spec e))) = (\<lambda>q. (fst q, last_used p q, spec_estimate (pe_spec (snd q))))"
    by (auto simp: fun_eq_iff last_used_def entry_last_used_def)
  from mset_lift [OF candidates_mset [of p, unfolded idle cand]] obtain es where
    es: "mset es = mset (filter (idle_unpinned p) (po_entries p))"
    "map (\<lambda>q. (fst q, last_used p q, spec_estimate (pe_spec (snd q)))) es = eviction_candidates p" by blast
  have "sorted (map (last_used p) es)" using candidates_sorted [of p] by (simp add: es(2) [symmetric] o_def)
  then show ?thesis using es by (intro exI [of _ es]) simp
qed

lemma freed_by_entries: "freed_by (map (\<lambda>q. (fst q, f q, spec_estimate (pe_spec (snd q)))) es) = estimates es"
  by (induction es) (simp_all add: estimates_def)

lemma estimates_mset: "mset es = mset fs \<Longrightarrow> estimates es = estimates fs"
proof -
  have "estimates es = (\<Sum>q\<in>#mset es. spec_estimate (pe_spec (snd q)))" for es :: "(string, 'e pool_entry) hmap"
    by (induction es) (simp_all add: estimates_def)
  then show "mset es = mset fs \<Longrightarrow> estimates es = estimates fs" by metis
qed

text \<open>
  (C27) What an eviction plan may unload and in which order, said of the entries of the pool. The victims
  are entries with no active request that are not pinned, each once, ordered by when they were last used; every idle,
  unpinned entry that stays was used no earlier than any of them; without them the incoming model fits,
  and without any of the last ones it would not. A plan fails only if the model is larger than the whole
  budget, or if the model does not fit even when all idle, unpinned entries are unloaded.
\<close>

theorem eviction_plan_lru_minimal:
  assumes "po_memory_budget_bytes p = Some budget" "po_loaded_estimate_bytes p \<le> budget" "2 * budget \<le> u64_max"
    and "distinct (map fst (po_entries p))"
  shows "case (eviction_plan incoming p :: 'err pool_failure + string list) of
      Inr victims \<Rightarrow> (\<exists>vs. victims = map fst vs \<and> distinct victims
        \<and> set vs \<subseteq> {q \<in> set (po_entries p). idle_unpinned p q} \<and> sorted (map (last_used p) vs)
        \<and> (\<forall>v\<in>set vs. \<forall>q\<in>set (po_entries p). idle_unpinned p q \<and> q \<notin> set vs \<longrightarrow> last_used p v \<le> last_used p q)
        \<and> po_loaded_estimate_bytes p + incoming \<le> budget + estimates vs
        \<and> (\<forall>k<length vs. budget + estimates (take k vs) < po_loaded_estimate_bytes p + incoming))
    | Inl e \<Rightarrow> budget < incoming
        \<or> budget + estimates (filter (idle_unpinned p) (po_entries p)) < po_loaded_estimate_bytes p + incoming"
proof -
  let ?cand = "\<lambda>q. (fst q, last_used p q, spec_estimate (pe_spec (snd q)))"
  obtain es where es: "mset es = mset (filter (idle_unpinned p) (po_entries p))" "eviction_candidates p = map ?cand es"
    "sorted (map (last_used p) es)" using candidates_entries by blast
  have set_es: "set es = {q \<in> set (po_entries p). idle_unpinned p q}" using mset_eq_setD [OF es(1)] by auto
  have "mset (map fst es) = mset (map fst (filter (idle_unpinned p) (po_entries p)))" using es(1) by (simp only: mset_map)
  then have dist: "distinct (map fst es)" using mset_eq_imp_distinct_iff distinct_map_filter [OF assms(4)] by blast
  have free: "freed_by (take k (eviction_candidates p)) = estimates (take k es)" for k
    by (simp only: es(2) take_map freed_by_entries)
  have all: "freed_by (eviction_candidates p) = estimates (filter (idle_unpinned p) (po_entries p))"
    using estimates_mset [OF es(1)] by (simp only: es(2) freed_by_entries)
  show ?thesis
  proof (cases "eviction_plan incoming p :: 'err pool_failure + string list")
    case (Inl e)
    then show ?thesis using eviction_plan_spec [OF assms(1-3), of incoming, where ?'b = 'err] by (simp add: all)
  next
    case (Inr victims)
    then obtain k where k: "k \<le> length es" "victims = map fst (take k (eviction_candidates p))"
      "po_loaded_estimate_bytes p + incoming \<le> budget + estimates (take k es)"
      "\<forall>j<k. budget + estimates (take j es) < po_loaded_estimate_bytes p + incoming"
      using eviction_plan_spec [OF assms(1-3), of incoming, where ?'b = 'err] unfolding Inr sum.case free
      by (auto simp: es(2))
    let ?vs = "take k es"
    have names: "victims = map fst ?vs" unfolding k(2) es(2) by (simp add: take_map [symmetric] o_def)
    have "sorted (map (last_used p) ?vs @ map (last_used p) (drop k es))" using es(3) by (simp flip: map_append)
    then have srt: "sorted (map (last_used p) ?vs)" "\<forall>v\<in>set ?vs. \<forall>q\<in>set (drop k es). last_used p v \<le> last_used p q"
      by (auto simp: sorted_append)
    have "q \<in> set (drop k es)" if "q \<in> set (po_entries p)" "idle_unpinned p q" "q \<notin> set ?vs" for q
      using that set_es by (metis (mono_tags, lifting) UnE append_take_drop_id mem_Collect_eq set_append)
    then have rest: "\<forall>v\<in>set ?vs. \<forall>q\<in>set (po_entries p). idle_unpinned p q \<and> q \<notin> set ?vs \<longrightarrow> last_used p v \<le> last_used p q"
      using srt(2) by blast
    have "\<forall>j<length ?vs. budget + estimates (take j ?vs) < po_loaded_estimate_bytes p + incoming"
      using k(1,4) by (simp add: min_def)
    moreover have "distinct victims" unfolding names using dist by (metis distinct_take take_map)
    moreover have "set ?vs \<subseteq> {q \<in> set (po_entries p). idle_unpinned p q}" using set_es set_take_subset by fast
    ultimately show ?thesis unfolding Inr sum.case using names srt(1) rest k(3) by blast
  qed
qed

definition demo_engine_pool :: "unit engine_pool" where
  "demo_engine_pool = \<lparr>po_specs = [], po_aliases = [],
     po_entries = [(''a'', \<lparr>pe_engine = (), pe_spec = (spec_text_generation ''a'' ''a'')\<lparr>sp_memory_estimate_bytes := Some 6\<rparr>, pe_cell = 0\<rparr>),
                   (''b'', \<lparr>pe_engine = (), pe_spec = (spec_text_generation ''b'' ''b'')\<lparr>sp_memory_estimate_bytes := Some 6\<rparr>, pe_cell = 1\<rparr>)],
     po_memory_budget_bytes = Some 12, po_loaded_estimate_bytes = 12,
     po_cells = (\<lambda>c. \<lparr>pc_last_used = 9 - c, pc_active_requests = 0\<rparr>), po_next_cell = 2\<rparr>"

theorem eviction_plan_lru_minimal_witness:
  "\<exists>vs. eviction_plan 6 demo_engine_pool = (Inr [''b''] :: unit pool_failure + string list)
    \<and> [''b''] = map fst vs \<and> set vs \<subseteq> {q \<in> set (po_entries demo_engine_pool). idle_unpinned demo_engine_pool q} \<and> 18 \<le> 12 + estimates vs"
proof -
  have plan: "eviction_plan 6 demo_engine_pool = (Inr [''b''] :: unit pool_failure + string list)"
    by (simp add: eviction_plan_def demo_engine_pool_def spec_estimate_def spec_text_generation_def eviction_candidates_def
      entry_active_def entry_last_used_def ord_cmp_def saturating_add_def u64_max_def)
  have pre: "po_memory_budget_bytes demo_engine_pool = Some 12" "po_loaded_estimate_bytes demo_engine_pool = 12" "2 * 12 \<le> u64_max"
    "distinct (map fst (po_entries demo_engine_pool))"
    by (simp_all add: demo_engine_pool_def u64_max_def)
  show ?thesis using eviction_plan_lru_minimal [OF pre(1) eq_refl [OF pre(2)] pre(3,4), of 6, where ?'err = unit]
    unfolding plan sum.case pre(2) by (elim exE conjE, intro exI conjI) (assumption | simp)+
qed

subsection \<open>The invariant\<close>

definition cell_leases :: "nat \<Rightarrow> 'e engine_lease list \<Rightarrow> nat" where
  "cell_leases cell ls = length (filter (\<lambda>l. el_cell l = cell) ls)"

definition entries_ok :: "'e engine_pool \<Rightarrow> bool" where
  "entries_ok p \<longleftrightarrow> (\<forall>(i, s)\<in>set (po_specs p). sp_id s = i) \<and> distinct (map fst (po_entries p))
     \<and> (\<forall>(i, e)\<in>set (po_entries p). sp_id (pe_spec e) = i \<and> pe_cell e < po_next_cell p)
     \<and> distinct (map (\<lambda>q. pe_cell (snd q)) (po_entries p))"

definition leases_ok :: "'e engine_pool \<Rightarrow> 'e engine_lease list \<Rightarrow> bool" where
  "leases_ok p ls \<longleftrightarrow> (\<forall>(i, e)\<in>set (po_entries p). entry_active p e = cell_leases (pe_cell e) ls)
     \<and> (\<forall>l\<in>set ls. \<exists>e. map_of (po_entries p) (el_model_id l) = Some e \<and> pe_cell e = el_cell l \<and> pe_engine e = el_engine l)"

definition budget_ok :: "'e engine_pool \<Rightarrow> bool" where
  "budget_ok p \<longleftrightarrow> (case po_memory_budget_bytes p of None \<Rightarrow> True
     | Some b \<Rightarrow> po_loaded_estimate_bytes p = estimates (po_entries p) \<and> po_loaded_estimate_bytes p \<le> b)"

definition engine_inv :: "'e engine_pool \<Rightarrow> 'e engine_lease list \<Rightarrow> bool" where
  "engine_inv p ls \<longleftrightarrow> entries_ok p \<and> leases_ok p ls \<and> budget_ok p"

lemma estimates_remove:
  "distinct (map fst es) \<Longrightarrow> map_of es i = Some e \<Longrightarrow>
     estimates es = spec_estimate (pe_spec e) + estimates (filter (\<lambda>q. fst q \<noteq> i) es)"
proof (induction es)
  case (Cons q es)
  show ?case
  proof (cases "fst q = i")
    case True
    then have "\<forall>r\<in>set es. fst r \<noteq> i" using Cons.prems(1) by (auto simp: rev_image_eqI)
    then have "filter (\<lambda>q. fst q \<noteq> i) es = es" by (simp add: filter_id_conv)
    then show ?thesis using True Cons.prems(2) by (cases q) (simp add: estimates_def)
  qed (use Cons in \<open>cases q, auto simp: estimates_def\<close>)
qed simp

lemma cell_leases_pos: "l \<in> set ls \<Longrightarrow> 0 < cell_leases (el_cell l) ls"
  by (auto simp: cell_leases_def filter_empty_conv)

lemma remove_entry_simps [simp]:
  "po_specs (remove_entry i p) = po_specs p" "po_cells (remove_entry i p) = po_cells p"
  "po_next_cell (remove_entry i p) = po_next_cell p" "po_memory_budget_bytes (remove_entry i p) = po_memory_budget_bytes p"
  "po_aliases (remove_entry i p) = po_aliases p" "po_entries (remove_entry i p) = filter (\<lambda>q. fst q \<noteq> i) (po_entries p)"
proof -
  have "filter (\<lambda>q. fst q \<noteq> i) (po_entries p) = po_entries p" if "map_of (po_entries p) i = None"
    using that by (auto simp: map_of_eq_None_iff filter_id_conv rev_image_eqI)
  then show "po_entries (remove_entry i p) = filter (\<lambda>q. fst q \<noteq> i) (po_entries p)"
    by (simp add: remove_entry_def split: option.split)
qed (simp_all add: remove_entry_def split: option.split)

lemma map_of_filter_key: "map_of (filter (\<lambda>q. fst q \<noteq> i) es) j = (if j = i then None else map_of es j)"
  by (induction es) auto

lemma remove_entry_inv:
  assumes inv: "engine_inv p ls" and idle: "\<And>e. map_of (po_entries p) i = Some e \<Longrightarrow> entry_active p e = 0"
  shows "engine_inv (remove_entry i p) ls"
proof (cases "map_of (po_entries p) i")
  case None
  then show ?thesis using inv by (simp add: remove_entry_def)
next
  case (Some e)
  have d: "distinct (map fst (po_entries p))" using inv by (simp add: engine_inv_def entries_ok_def)
  have mem: "(i, e) \<in> set (po_entries p)" using Some by (rule map_of_SomeD)
  have "cell_leases (pe_cell e) ls = 0" using inv idle [OF Some] mem by (auto simp: engine_inv_def leases_ok_def)
  then have free: "el_model_id l \<noteq> i" if "l \<in> set ls" for l
    using that inv Some cell_leases_pos [OF that] by (auto simp: engine_inv_def leases_ok_def)
  have "entries_ok (remove_entry i p)" using inv by (auto simp: engine_inv_def entries_ok_def distinct_map_filter)
  moreover have "leases_ok (remove_entry i p) ls"
    using inv free by (auto simp: engine_inv_def leases_ok_def entry_active_def map_of_filter_key)
  moreover have "budget_ok (remove_entry i p)"
    using inv Some estimates_remove [OF d Some]
    by (auto simp: engine_inv_def budget_ok_def remove_entry_def split: option.splits)
  ultimately show ?thesis by (simp add: engine_inv_def)
qed

lemma remove_entries_inv:
  assumes "engine_inv p ls" "\<And>i e. i \<in> set is \<Longrightarrow> map_of (po_entries p) i = Some e \<Longrightarrow> entry_active p e = 0"
  shows "engine_inv (fold remove_entry is p) ls"
  using assms
proof (induction "is" arbitrary: p)
  case (Cons i "is")
  have "engine_inv (remove_entry i p) ls" using Cons.prems by (intro remove_entry_inv) auto
  then have "engine_inv (fold remove_entry is (remove_entry i p)) ls"
  proof (rule Cons.IH)
    show "entry_active (remove_entry i p) e = 0" if "j \<in> set is" "map_of (po_entries (remove_entry i p)) j = Some e" for j e
    using that Cons.prems(2) [of j e] by (auto simp: map_of_filter_key entry_active_def split: if_splits)
  qed
  then show ?case by simp
qed simp

lemma remove_entries_simps [simp]:
  "po_specs (fold remove_entry is p) = po_specs p" "po_cells (fold remove_entry is p) = po_cells p"
  "po_next_cell (fold remove_entry is p) = po_next_cell p"
  "po_memory_budget_bytes (fold remove_entry is p) = po_memory_budget_bytes p"
  "map_of (po_entries (fold remove_entry is p)) j = (if j \<in> set is then None else map_of (po_entries p) j)"
  by (induction "is" arbitrary: p) (auto simp: map_of_filter_key)

lemma idle_victims:
  assumes "eviction_plan n p = Inr victims" "i \<in> set victims" "entries_ok p" "map_of (po_entries p) i = Some e"
  shows "entry_active p e = 0"
proof -
  have sub: "set ws \<subseteq> set vs \<union> fst ` set cs" if "eviction_loop r cs freed vs = Some ws" for r cs freed vs ws
    using that by (induction r cs freed vs rule: eviction_loop.induct) (auto simp: Let_def split: if_splits)
  have "set victims \<subseteq> fst ` set (eviction_candidates p)"
    using assms(1) sub [of _ "eviction_candidates p" 0 "[]"]
    by (auto simp: eviction_plan_def Let_def split: option.splits if_splits)
  then have "i \<in> fst ` set (eviction_candidates p)" using assms(2) by blast
  then obtain e' where e': "(i, e') \<in> set (po_entries p)" "entry_active p e' = 0"
    by (auto simp: eviction_candidates_def)
  then have "map_of (po_entries p) i = Some e'" using assms(3) by (simp add: entries_ok_def)
  then show ?thesis using e'(2) assms(4) by simp
qed

lemma loaded_remove:
  assumes "engine_inv p ls" "map_of (po_entries p) i = Some e"
  shows "estimates (po_entries p) = spec_estimate (pe_spec e) + estimates (po_entries (remove_entry i p))"
  using estimates_remove [OF _ assms(2)] assms(1) by (simp add: engine_inv_def entries_ok_def)

lemma estimates_remove_all:
  assumes "engine_inv p ls" "distinct (map fst cs)"
    and "\<And>i t n. (i, t, n) \<in> set cs \<Longrightarrow> \<exists>e. map_of (po_entries p) i = Some e \<and> n = spec_estimate (pe_spec e) \<and> entry_active p e = 0"
  shows "estimates (po_entries p) = freed_by cs + estimates (po_entries (fold remove_entry (map fst cs) p))"
  using assms
proof (induction cs arbitrary: p)
  case (Cons c cs)
  obtain i t n where c: "c = (i, t, n)" by (cases c)
  then have "(i, t, n) \<in> set (c # cs)" by simp
  from Cons.prems(3) [OF this]
  obtain e where e: "map_of (po_entries p) i = Some e" "n = spec_estimate (pe_spec e)" "entry_active p e = 0" by blast
  have inv: "engine_inv (remove_entry i p) ls" by (rule remove_entry_inv [OF Cons.prems(1)]) (use e in simp)
  have "estimates (po_entries (remove_entry i p))
      = freed_by cs + estimates (po_entries (fold remove_entry (map fst cs) (remove_entry i p)))"
  proof (rule Cons.IH [OF inv])
    show "distinct (map fst cs)" using Cons.prems(2) by simp
    fix j u m assume j: "(j, u, m) \<in> set cs"
    then have "j \<noteq> i" using Cons.prems(2) c by force
    then show "\<exists>e. map_of (po_entries (remove_entry i p)) j = Some e \<and> m = spec_estimate (pe_spec e)
        \<and> entry_active (remove_entry i p) e = 0"
      using Cons.prems(3) [of j u m] j by (auto simp: map_of_filter_key entry_active_def)
  qed
  then show ?case using loaded_remove [OF Cons.prems(1) e(1)] c e(2) by simp
qed simp

lemma candidates_distinct:
  assumes "entries_ok p"
  shows "distinct (map fst (eviction_candidates p))"
proof -
  have "mset (map fst (eviction_candidates p)) = image_mset fst
      (mset (filter (\<lambda>(i, e). entry_active p e = 0 \<and> \<not> sp_pinned (pe_spec e)) (po_entries p)))"
    unfolding mset_map candidates_mset multiset.map_comp by (rule image_mset_cong) auto
  then have eq: "mset (map fst (eviction_candidates p))
      = mset (map fst (filter (\<lambda>(i, e). entry_active p e = 0 \<and> \<not> sp_pinned (pe_spec e)) (po_entries p)))" by simp
  have "distinct (map fst (filter (\<lambda>(i, e). entry_active p e = 0 \<and> \<not> sp_pinned (pe_spec e)) (po_entries p)))"
    using assms by (simp add: entries_ok_def)
  then show ?thesis using mset_eq_imp_distinct_iff [OF eq] by blast
qed

text \<open>After the evictions of a plan the incoming model fits.\<close>

lemma plan_makes_room:
  assumes inv: "engine_inv p ls" and plan: "eviction_plan n p = (Inr victims :: 'err pool_failure + _)"
    and b: "po_memory_budget_bytes p = Some budget" "2 * budget \<le> u64_max"
  shows "estimates (po_entries (apply_evictions victims p)) + n \<le> budget"
proof -
  have bo: "po_loaded_estimate_bytes p = estimates (po_entries p)" "po_loaded_estimate_bytes p \<le> budget"
    using inv b(1) by (simp_all add: engine_inv_def budget_ok_def)
  have ok: "entries_ok p" using inv by (simp add: engine_inv_def)
  from eviction_plan_spec [OF b(1) bo(2) b(2), of n, where ?'b = 'err] plan
  obtain k where k: "victims = map fst (take k (eviction_candidates p))"
    "po_loaded_estimate_bytes p + n \<le> budget + freed_by (take k (eviction_candidates p))" by auto
  have "estimates (po_entries p) = freed_by (take k (eviction_candidates p)) + estimates (po_entries (fold remove_entry victims p))"
    unfolding k(1)
  proof (rule estimates_remove_all [OF inv])
    show "distinct (map fst (take k (eviction_candidates p)))" using candidates_distinct [OF ok] by (metis distinct_take take_map)
    fix i t m assume "(i, t, m) \<in> set (take k (eviction_candidates p))"
    then have "(i, t, m) \<in> set (eviction_candidates p)" by (rule in_set_takeD)
    then obtain e where "(i, e) \<in> set (po_entries p)" "m = spec_estimate (pe_spec e)" "entry_active p e = 0"
      by (auto simp: eviction_candidates_def)
    then show "\<exists>e. map_of (po_entries p) i = Some e \<and> m = spec_estimate (pe_spec e) \<and> entry_active p e = 0"
      using ok by (auto simp: entries_ok_def)
  qed
  then show ?thesis using k(2) bo by (simp add: apply_evictions_def)
qed

subsection \<open>Every operation keeps the invariant\<close>

lemma update_new: "map_of m k = None \<Longrightarrow> AList.update k v m = m @ [(k, v)]"
  by (induction m) (auto split: if_splits)

lemma same_cell:
  assumes "entries_ok p" "(i, e) \<in> set (po_entries p)" "(j, e') \<in> set (po_entries p)" "pe_cell e = pe_cell e'"
  shows "i = j \<and> e = e'"
proof -
  have "inj_on (\<lambda>q. pe_cell (snd q)) (set (po_entries p))" using assms(1) by (simp add: entries_ok_def distinct_map)
  from inj_onD [OF this _ assms(2,3)] assms(4) show ?thesis by simp
qed

lemma lease_cell_old:
  assumes "engine_inv p ls" "l \<in> set ls"
  shows "el_cell l < po_next_cell p"
proof -
  obtain e where "map_of (po_entries p) (el_model_id l) = Some e" "pe_cell e = el_cell l"
    using assms by (auto simp: engine_inv_def leases_ok_def)
  then show ?thesis using assms(1) map_of_SomeD by (fastforce simp: engine_inv_def entries_ok_def)
qed

lemma load_entry_inv:
  assumes inv: "engine_inv p ls" and new: "map_of (po_entries p) i = None" and s: "sp_id s = i"
    and room: "\<And>b. po_memory_budget_bytes p = Some b \<Longrightarrow> estimates (po_entries p) + spec_estimate s \<le> b \<and> b \<le> u64_max"
  shows "engine_inv (load_entry now i s engine p) ls"
proof -
  let ?p = "load_entry now i s engine p" and ?e = "\<lparr>pe_engine = engine, pe_spec = s, pe_cell = po_next_cell p\<rparr>"
  have es: "po_entries ?p = po_entries p @ [(i, ?e)]" using update_new [OF new] by (simp add: load_entry_def)
  have ok: "entries_ok p" "leases_ok p ls" "budget_ok p" using inv by (simp_all add: engine_inv_def)
  have act: "entry_active ?p e = entry_active p e" if "(j, e) \<in> set (po_entries p)" for j e
    using that ok(1) by (auto simp: entry_active_def load_entry_def entries_ok_def)
  have "cell_leases (po_next_cell p) ls = 0"
    using lease_cell_old [OF inv] by (fastforce simp: cell_leases_def filter_empty_conv)
  moreover have "entry_active ?p ?e = 0" by (simp add: entry_active_def load_entry_def)
  ultimately have l: "leases_ok ?p ls" using ok(2) act es new by (fastforce simp: leases_ok_def map_add_def)
  have "i \<notin> fst ` set (po_entries p)" using new by (simp add: map_of_eq_None_iff)
  then have e: "entries_ok ?p" using ok(1) es s
    by (fastforce simp: entries_ok_def load_entry_def)
  have "budget_ok ?p"
  proof (cases "po_memory_budget_bytes p")
    case (Some b)
    then show ?thesis using room [OF Some] ok(3) es
      by (simp add: budget_ok_def load_entry_def estimates_def saturating_add_exact)
  qed (simp add: budget_ok_def load_entry_def)
  with e l show ?thesis by (simp add: engine_inv_def)
qed

lemma take_lease_inv:
  assumes inv: "engine_inv p ls" and e: "map_of (po_entries p) i = Some e" and t: "take_lease e p = (l, p')"
  shows "engine_inv p' (l # ls)"
proof -
  have mem: "(i, e) \<in> set (po_entries p)" using e by (rule map_of_SomeD)
  have ok: "entries_ok p" "leases_ok p ls" "budget_ok p" using inv by (simp_all add: engine_inv_def)
  have l: "el_model_id l = i" "el_engine l = pe_engine e" "el_cell l = pe_cell e"
    using t mem ok(1) by (auto simp: take_lease_def entries_ok_def)
  have p': "po_entries p' = po_entries p" "po_specs p' = po_specs p" "po_next_cell p' = po_next_cell p"
    "po_memory_budget_bytes p' = po_memory_budget_bytes p" "po_loaded_estimate_bytes p' = po_loaded_estimate_bytes p"
    using t by (auto simp: take_lease_def)
  have "entry_active p' e' = cell_leases (pe_cell e') (l # ls)" if e': "(j, e') \<in> set (po_entries p)" for j e'
  proof (cases "pe_cell e' = pe_cell e")
    case True
    have "e' = e" using same_cell [OF ok(1) e' mem True] by simp
    then show ?thesis using ok(2) mem t l(3) by (auto simp: take_lease_def entry_active_def leases_ok_def cell_leases_def)
  next
    case False
    then show ?thesis using ok(2) e' t l(3) by (auto simp: take_lease_def entry_active_def leases_ok_def cell_leases_def)
  qed
  then have "leases_ok p' (l # ls)" using ok(2) e l p' by (auto simp: leases_ok_def)
  moreover have "entries_ok p'" "budget_ok p'" using ok(1,3) unfolding entries_ok_def budget_ok_def p' by simp_all
  ultimately show ?thesis by (simp add: engine_inv_def)
qed

lemma checkout_inv:
  fixes loader :: "model_spec \<Rightarrow> 'err + 'e"
  assumes inv: "engine_inv p ls" and b: "\<And>b. po_memory_budget_bytes p = Some b \<Longrightarrow> 2 * b \<le> u64_max"
    and c: "checkout_with_loader now model loader p = (r, p')"
  shows "case r of Inr l \<Rightarrow> engine_inv p' (l # ls) | Inl e \<Rightarrow> engine_inv p' ls"
proof (cases "\<exists>i s. resolve_model_id model p = Some i \<and> map_of (po_specs p) i = Some s \<and> sp_model_type s = TextGeneration")
  case False
  then show ?thesis using c inv by (auto simp: checkout_with_loader_def split: option.splits if_splits)
next
  case True
  then obtain i s where res: "resolve_model_id model p = Some i" "map_of (po_specs p) i = Some s" "sp_model_type s = TextGeneration"
    by blast
  have sid: "sp_id s = i" using inv map_of_SomeD [OF res(2)] by (auto simp: engine_inv_def entries_ok_def)
  show ?thesis
  proof (cases "map_of (po_entries p) i")
    case (Some e)
    then show ?thesis using take_lease_inv [OF inv Some] c res
      by (cases "take_lease e p") (auto simp: checkout_with_loader_def)
  next
    case None
    show ?thesis
    proof (cases "eviction_plan (spec_estimate s) p :: 'err pool_failure + string list")
      case (Inl err)
      then show ?thesis using c res None inv by (auto simp: checkout_with_loader_def)
    next
      case (Inr victims)
      let ?p1 = "apply_evictions victims p"
      have ok: "entries_ok p" using inv by (simp add: engine_inv_def)
      have inv1: "engine_inv ?p1 ls" unfolding apply_evictions_def
        by (rule remove_entries_inv [OF inv]) (rule idle_victims [OF Inr _ ok])
      have none1: "map_of (po_entries ?p1) i = None" using None by (simp add: apply_evictions_def)
      have bud1: "po_memory_budget_bytes ?p1 = po_memory_budget_bytes p" by (simp add: apply_evictions_def)
      have room: "estimates (po_entries ?p1) + spec_estimate s \<le> b' \<and> b' \<le> u64_max"
        if "po_memory_budget_bytes ?p1 = Some b'" for b'
        using plan_makes_room [OF inv Inr] b that bud1 by force
      show ?thesis
      proof (cases "loader s")
        case (Inl err)
        then show ?thesis using c res None Inr inv1 by (auto simp: checkout_with_loader_def Let_def)
      next
        case (Inr engine)
        let ?e = "\<lparr>pe_engine = engine, pe_spec = s, pe_cell = po_next_cell ?p1\<rparr>"
        have inv2: "engine_inv (load_entry now i s engine ?p1) ls" by (rule load_entry_inv [OF inv1 none1 sid room])
        have "map_of (po_entries (load_entry now i s engine ?p1)) i = Some ?e"
          by (simp add: load_entry_def update_conv')
        from take_lease_inv [OF inv2 this] show ?thesis
          using c res None \<open>eviction_plan (spec_estimate s) p = Inr victims\<close> Inr
          by (cases "take_lease ?e (load_entry now i s engine ?p1)") (auto simp: checkout_with_loader_def Let_def)
      qed
    qed
  qed
qed

lemma leases_on_remove1:
  assumes "l \<in> set ls"
  shows "cell_leases c (remove1 l ls) = cell_leases c ls - (if el_cell l = c then 1 else 0)"
proof -
  have "filter (\<lambda>l. el_cell l = c) (remove1 l ls) = (if el_cell l = c then remove1 l (filter (\<lambda>l. el_cell l = c) ls)
      else filter (\<lambda>l. el_cell l = c) ls)"
    by (simp add: filter_remove1 remove1_idem)
  then show ?thesis using assms by (simp add: cell_leases_def length_remove1)
qed

lemma lease_drop_inv:
  assumes inv: "engine_inv p ls" and l: "l \<in> set ls"
  shows "engine_inv (lease_drop now l p) (remove1 l ls)"
proof -
  have "entry_active (lease_drop now l p) e = cell_leases (pe_cell e) (remove1 l ls)" if "(i, e) \<in> set (po_entries p)" for i e
    using inv that leases_on_remove1 [OF l, of "pe_cell e"]
    by (auto simp: engine_inv_def leases_ok_def entry_active_def lease_drop_def)
  moreover have es: "po_entries (lease_drop now l p) = po_entries p" by (simp add: lease_drop_def)
  ultimately have "leases_ok (lease_drop now l p) (remove1 l ls)"
    using inv set_remove1_subset [of l ls] unfolding engine_inv_def leases_ok_def es by blast
  moreover have "entries_ok (lease_drop now l p)" "budget_ok (lease_drop now l p)"
    using inv by (auto simp: engine_inv_def entries_ok_def budget_ok_def lease_drop_def split: option.splits)
  ultimately show ?thesis by (simp add: engine_inv_def)
qed

lemma unload_idle_inv: "engine_inv p ls \<Longrightarrow> unload_idle model p = (r, p') \<Longrightarrow> engine_inv p' ls"
  by (auto simp: unload_idle_def intro: remove_entry_inv split: option.splits if_splits)

lemma unload_expired_inv:
  assumes "engine_inv p ls"
  shows "engine_inv (snd (unload_expired now p)) ls"
proof -
  have ok: "entries_ok p" using assms by (simp add: engine_inv_def)
  have "entry_active p e = 0"
    if "i \<in> set (map fst (filter (\<lambda>(i, e). entry_expired now p e) (po_entries p)))" "map_of (po_entries p) i = Some e" for i e
  proof -
    have "\<exists>e'. (i, e') \<in> set (po_entries p) \<and> entry_expired now p e'" using that(1) by auto
    then have "entry_expired now p e" using that(2) ok map_of_is_SomeI by (fastforce simp: entries_ok_def)
    then show ?thesis by (simp add: entry_expired_def split: option.splits)
  qed
  then show ?thesis unfolding unload_expired_def Let_def snd_conv by (intro remove_entries_inv [OF assms])
qed

subsection \<open>Reachable pools\<close>

lemma take_lease_budget: "po_memory_budget_bytes (snd (take_lease e p)) = po_memory_budget_bytes p"
  by (simp add: take_lease_def)

lemma pool_step_budget:
  assumes "pool_step (p, ls) (p', ls')"
  shows "po_memory_budget_bytes p' = po_memory_budget_bytes p"
  using assms
proof (cases rule: pool_step.cases)
  case (checkout now model loader l)
  have "po_memory_budget_bytes (snd (checkout_with_loader now model loader p)) = po_memory_budget_bytes p"
    by (auto simp: checkout_with_loader_def Let_def apply_evictions_def take_lease_budget load_entry_def
      split: option.split sum.split)
  then show ?thesis using checkout by simp
next
  case (checkout_fails now model loader e)
  have "po_memory_budget_bytes (snd (checkout_with_loader now model loader p)) = po_memory_budget_bytes p"
    by (auto simp: checkout_with_loader_def Let_def apply_evictions_def take_lease_budget load_entry_def
      split: option.split sum.split)
  then show ?thesis using checkout_fails by simp
qed (auto simp: lease_drop_def unload_idle_def unload_expired_def Let_def split: option.splits if_splits)

lemma pool_new_specs:
  "pool_new_loop ss specs aliases seen = Inr (specs', aliases') \<Longrightarrow> \<forall>(i, s)\<in>set specs. sp_id s = i
    \<Longrightarrow> \<forall>(i, s)\<in>set specs'. sp_id s = i"
proof (induction ss specs aliases seen rule: pool_new_loop.induct)
  case (2 s ss specs aliases seen)
  have "\<forall>(i, x)\<in>set (AList.update (sp_id s) s specs). sp_id x = i"
    using 2(3) by (induction specs) auto
  then show ?case using 2(1,2) by (auto split: option.splits)
qed simp

lemma engine_reachable_inv:
  assumes "engine_pool_new models budget = (Inr p0 :: unit pool_failure + 'e engine_pool)"
    and "case budget of None \<Rightarrow> True | Some b \<Rightarrow> 2 * b \<le> u64_max" and "pool_step\<^sup>*\<^sup>* (p0, []) (p, ls)"
  shows "engine_inv p ls \<and> po_memory_budget_bytes p = budget"
  using assms(3)
proof (induction "(p, ls)" arbitrary: p ls rule: rtranclp_induct)
  case base
  obtain specs aliases where "pool_new_loop models [] [] [] = (Inr (specs, aliases) :: unit pool_failure + _)"
    "p0 = \<lparr>po_specs = specs, po_aliases = aliases, po_entries = [], po_memory_budget_bytes = budget,
       po_loaded_estimate_bytes = 0, po_cells = (\<lambda>_. \<lparr>pc_last_used = 0, pc_active_requests = 0\<rparr>), po_next_cell = 0\<rparr>"
    using assms(1) by (auto simp: engine_pool_new_def split: sum.splits)
  moreover then have "\<forall>(i, s)\<in>set specs. sp_id s = i" using pool_new_specs by fastforce
  ultimately show ?case
    by (simp add: engine_inv_def entries_ok_def leases_ok_def budget_ok_def estimates_def split: option.split)
next
  case (step y)
  obtain p1 ls1 where y: "y = (p1, ls1)" by (cases y)
  from step(3) [OF y] have inv: "engine_inv p1 ls1" and b: "po_memory_budget_bytes p1 = budget" by auto
  then have bb: "2 * b' \<le> u64_max" if "po_memory_budget_bytes p1 = Some b'" for b'
    using that assms(2) b by (cases budget) auto
  have st: "pool_step (p1, ls1) (p, ls)" using step(2) y by simp
  from st have "engine_inv p ls"
  proof (cases rule: pool_step.cases)
    case (checkout now model loader l)
    then show ?thesis using checkout_inv [OF inv bb, of now model loader "Inr l" p] by simp
  next
    case (checkout_fails now model loader e)
    then show ?thesis using checkout_inv [OF inv bb, of now model loader "Inl e" p] by simp
  qed (use inv lease_drop_inv unload_idle_inv unload_expired_inv in auto)
  then show ?case using pool_step_budget [OF st] b by simp
qed

text \<open>
  (C10) Whatever is checked out, dropped, unloaded or expired, and whether loaders succeed or fail: a
  model with an outstanding lease stays loaded with the very engine of the lease, the active count
  of a loaded model is the number of its leases, and under a budget the account is the sum of the
  estimates of the loaded models and stays within it.
\<close>

theorem lease_keeps_model_loaded:
  assumes "engine_pool_new models budget = (Inr p0 :: unit pool_failure + 'e engine_pool)"
    and "case budget of None \<Rightarrow> True | Some b \<Rightarrow> 2 * b \<le> u64_max" and "pool_step\<^sup>*\<^sup>* (p0, []) (p, ls)"
  shows "(\<forall>l\<in>set ls. \<exists>e. map_of (po_entries p) (el_model_id l) = Some e \<and> pe_engine e = el_engine l)
    \<and> (\<forall>(i, e)\<in>set (po_entries p). entry_active p e = length (filter (\<lambda>l. el_model_id l = i) ls))
    \<and> (case budget of None \<Rightarrow> True
       | Some b \<Rightarrow> po_loaded_estimate_bytes p = sum_list (map (\<lambda>q. spec_estimate (pe_spec (snd q))) (po_entries p))
           \<and> po_loaded_estimate_bytes p \<le> b)"
proof -
  have inv: "engine_inv p ls" and b: "po_memory_budget_bytes p = budget" using engine_reachable_inv [OF assms] by auto
  then have ok: "entries_ok p" "leases_ok p ls" "budget_ok p" by (simp_all add: engine_inv_def)
  have "entry_active p e = length (filter (\<lambda>l. el_model_id l = i) ls)" if ie: "(i, e) \<in> set (po_entries p)" for i e
  proof -
    have mo: "map_of (po_entries p) i = Some e" using ie ok(1) by (simp add: entries_ok_def)
    have "el_model_id l = i \<longleftrightarrow> el_cell l = pe_cell e" if l: "l \<in> set ls" for l
    proof -
      obtain e' where e': "map_of (po_entries p) (el_model_id l) = Some e'" "pe_cell e' = el_cell l"
        using ok(2) l unfolding leases_ok_def by blast
      then show ?thesis using same_cell [OF ok(1) map_of_SomeD [OF e'(1)] ie] mo by auto
    qed
    then have "filter (\<lambda>l. el_model_id l = i) ls = filter (\<lambda>l. el_cell l = pe_cell e) ls" by (intro filter_cong) auto
    then show ?thesis using ok(2) ie by (auto simp: leases_ok_def cell_leases_def)
  qed
  moreover have "\<forall>l\<in>set ls. \<exists>e. map_of (po_entries p) (el_model_id l) = Some e \<and> pe_engine e = el_engine l"
    using ok(2) by (auto simp: leases_ok_def)
  ultimately show ?thesis using ok(3) b by (auto simp: budget_ok_def estimates_def split: option.split)
qed

theorem lease_keeps_model_loaded_witness:
  "\<exists>p ls e. pool_step\<^sup>*\<^sup>* (projr (engine_pool_new [spec_text_generation ''m'' ''/m''] (Some 8) :: unit pool_failure + nat engine_pool), []) (p, ls)
    \<and> length ls = 1 \<and> map_of (po_entries p) (el_model_id (hd ls)) = Some e \<and> pe_engine e = el_engine (hd ls) \<and> el_engine (hd ls) = 7"
proof -
  let ?p0 = "projr (engine_pool_new [spec_text_generation ''m'' ''/m''] (Some 8) :: unit pool_failure + nat engine_pool)"
  have p0: "(engine_pool_new [spec_text_generation ''m'' ''/m''] (Some 8) :: unit pool_failure + nat engine_pool) = Inr ?p0"
    by (simp add: engine_pool_new_def spec_text_generation_def all_names_def)
  let ?c = "checkout_with_loader 5 ''m'' (\<lambda>_. Inr 7 :: unit + nat) ?p0"
  have c: "fst ?c = Inr \<lparr>el_model_id = ''m'', el_engine = 7, el_cell = 0\<rparr>"
    by (simp add: checkout_with_loader_def engine_pool_new_def spec_text_generation_def all_names_def resolve_model_id_def
      trim_def is_space_def eviction_plan_def spec_estimate_def saturating_add_def apply_evictions_def load_entry_def take_lease_def)
  then obtain l p where "?c = (Inr l, p)" "el_engine l = 7" by (cases ?c) auto
  then have st: "pool_step\<^sup>*\<^sup>* (?p0, []) (p, [l])" using pool_step.checkout by blast
  have "\<exists>e. map_of (po_entries p) (el_model_id l) = Some e \<and> pe_engine e = el_engine l"
    using lease_keeps_model_loaded [OF p0 _ st] by (simp add: u64_max_def)
  then show ?thesis using st \<open>el_engine l = 7\<close> by (intro exI [of _ p] exI [of _ "[l]"]) auto
qed

end
