(* ===== verification/Paged_Kv.thy ===== *)
theory Paged_Kv
  imports Rust_Bytes
begin

text \<open>
  The paged KV pool of the CUDA backend, \<open>crates/cuda-kernels/src/paged_kv.rs\<close>, with the formats of
  \<open>kv_types.rs\<close>. A slot (a running request) owns a table of physical pages; a page is counted once per
  slot that has it (\<open>page_attach_count\<close>) and once per retain of the prefix cache (\<open>page_ref_count\<close>),
  and it is on the free list when both counts are zero.

  The pool keeps the bytes of the pages in one buffer per layer (\<open>kv_planes\<close>). \<open>None\<close> is a panic: an
  index out of range, or an access outside a device buffer. The counters are \<open>u32\<close> and saturate; debug
  assertions are not checked, as in a release build. The launch of the device-to-device copy can fail:
  its outcome is the argument \<open>launch\<close>. The copies between host and device are taken to succeed.
\<close>

subsection \<open>Formats and budget\<close>

datatype kv_format = BF16 | FP8E4M3 | INT8 | INT4 | TurboQuant nat nat

definition stable_tag :: "kv_format \<Rightarrow> nat option" where
  "stable_tag f = (case f of BF16 \<Rightarrow> Some 1 | INT8 \<Rightarrow> Some 3 | FP8E4M3 \<Rightarrow> Some 5 | INT4 \<Rightarrow> Some 7
     | TurboQuant k v \<Rightarrow>
         if k = 2 \<and> v = 2 then Some 10 else if k = 3 \<and> v = 3 then Some 11
         else if k = 4 \<and> v = 4 then Some 12 else None)"

definition default_page_size :: "kv_format \<Rightarrow> nat" where
  "default_page_size f = (case f of TurboQuant _ _ \<Rightarrow> 1 | _ \<Rightarrow> 16)"

definition bytes_per_element :: "kv_format \<Rightarrow> nat" where
  "bytes_per_element f = (case f of BF16 \<Rightarrow> 2 | TurboQuant key_bits _ \<Rightarrow>
     div_ceil (if key_bits = 3 then 4 else key_bits) 8 | _ \<Rightarrow> 1)"

definition has_scales :: "kv_format \<Rightarrow> bool" where
  "has_scales f \<longleftrightarrow> f \<in> {FP8E4M3, INT8, INT4}"

definition has_norms :: "kv_format \<Rightarrow> bool" where
  "has_norms f \<longleftrightarrow> (case f of TurboQuant _ _ \<Rightarrow> True | _ \<Rightarrow> False)"

definition needs_work_buffer :: "kv_format \<Rightarrow> bool" where
  "needs_work_buffer f \<longleftrightarrow> f \<noteq> BF16"

record budget_breakdown =
  storage_bytes_per_token :: nat
  work_bytes_per_token :: nat
  total_bytes_per_token :: nat
  max_total_tokens :: nat

definition compute_budget_breakdown :: "nat \<Rightarrow> nat \<Rightarrow> nat \<Rightarrow> nat \<Rightarrow> nat \<Rightarrow> kv_format \<Rightarrow> budget_breakdown" where
  "compute_budget_breakdown num_layers num_kv_heads head_dim num_slots budget_bytes f = (
     let kv_dim = num_kv_heads * head_dim;
         scale_bytes = (if has_scales f then num_kv_heads * 4 * 2 else 0);
         norm_bytes = (if has_norms f then num_kv_heads * 2 * 2 else 0);
         data_bytes = kv_dim * bytes_per_element f * 2;
         storage = (data_bytes + scale_bytes + norm_bytes) * num_layers;
         work = (if needs_work_buffer f then kv_dim * 2 * 2 else 0);
         total = storage + work
     in \<lparr>storage_bytes_per_token = storage, work_bytes_per_token = work, total_bytes_per_token = total,
         max_total_tokens = (if total = 0 then 0 else max (budget_bytes div total) num_slots)\<rparr>)"

definition budget_bytes_for_tokens :: "nat \<Rightarrow> nat \<Rightarrow> nat \<Rightarrow> nat \<Rightarrow> kv_format \<Rightarrow> nat" where
  "budget_bytes_for_tokens num_layers num_kv_heads head_dim token_count f =
     saturating_mul usize_max token_count
       (total_bytes_per_token (compute_budget_breakdown num_layers num_kv_heads head_dim 1 usize_max f))"

subsection \<open>The pool\<close>

record kv_planes =
  pl_k_data :: "u8 list list"
  pl_v_data :: "u8 list list"
  pl_k_scales :: "32 word list list"
  pl_v_scales :: "32 word list list"
  pl_k_norms :: "16 word list list"
  pl_v_norms :: "16 word list list"

record token_kv_pool =
  tk_planes :: kv_planes
  tk_free_pages :: "nat list"
  tk_page_indices :: "nat list list"
  tk_seq_lens :: "nat list"
  tk_slot_epochs :: "nat list"
  tk_attach_count :: "nat list"
  tk_ref_count :: "nat list"
  tk_format :: kv_format
  tk_num_layers :: nat
  tk_num_kv_heads :: nat
  tk_max_total_tokens :: nat
  tk_max_total_pages :: nat
  tk_page_size :: nat
  tk_num_slots :: nat
  tk_kv_dim :: nat

datatype kv_pool_error = OutOfPages | SlotNotEmpty | TokensExceedPages | PageOutOfBounds | PageNotLive
  | CannotGrow | PayloadLength | LayerTable | DeviceError

definition with_format :: "nat \<Rightarrow> nat \<Rightarrow> nat \<Rightarrow> nat \<Rightarrow> nat \<Rightarrow> kv_format \<Rightarrow> token_kv_pool" where
  "with_format num_layers num_kv_heads head_dim num_slots budget_bytes f = (
     let kv_dim = num_kv_heads * head_dim;
         page_size = default_page_size f;
         budget = compute_budget_breakdown num_layers num_kv_heads head_dim num_slots budget_bytes f;
         pages = max (div_ceil (max_total_tokens budget) page_size) num_slots;
         tokens = pages * page_size;
         pool_bytes = (if f = INT4 then tokens * div_ceil kv_dim 2 else tokens * kv_dim * bytes_per_element f);
         scale_elements = tokens * num_kv_heads;
         layers = (if 0 < pool_bytes then num_layers else 0);
         data = replicate layers (replicate pool_bytes 0);
         scales = (if has_scales f then replicate layers (replicate scale_elements 0) else []);
         norms = (if has_norms f then replicate layers (replicate scale_elements 0) else [])
     in \<lparr>tk_planes = \<lparr>pl_k_data = data, pl_v_data = data, pl_k_scales = scales, pl_v_scales = scales,
                     pl_k_norms = norms, pl_v_norms = norms\<rparr>,
         tk_free_pages = rev [0..<pages mod 2 ^ 32], tk_page_indices = replicate num_slots [],
         tk_seq_lens = replicate num_slots 0, tk_slot_epochs = replicate num_slots 0,
         tk_attach_count = replicate pages 0, tk_ref_count = replicate pages 0, tk_format = f,
         tk_num_layers = num_layers, tk_num_kv_heads = num_kv_heads, tk_max_total_tokens = tokens,
         tk_max_total_pages = pages, tk_page_size = page_size, tk_num_slots = num_slots, tk_kv_dim = kv_dim\<rparr>)"

text \<open>The accessors index the slot vectors; their callers below fail first when the slot is out of range.\<close>

definition slot_hot_tail_len :: "nat \<Rightarrow> token_kv_pool \<Rightarrow> nat" where
  "slot_hot_tail_len slot p = tk_seq_lens p ! slot mod tk_page_size p"

definition slot_last_page_len :: "nat \<Rightarrow> token_kv_pool \<Rightarrow> nat" where
  "slot_last_page_len slot p =
     (if tk_seq_lens p ! slot = 0 then 0
      else if slot_hot_tail_len slot p = 0 then tk_page_size p else slot_hot_tail_len slot p)"

definition slot_hot_tail_page :: "nat \<Rightarrow> token_kv_pool \<Rightarrow> nat option" where
  "slot_hot_tail_page slot p =
     (if slot_hot_tail_len slot p = 0 then None
      else case tk_page_indices p ! slot of [] \<Rightarrow> None | pages \<Rightarrow> Some (last pages))"

definition page_is_shared_read_only :: "nat \<Rightarrow> token_kv_pool \<Rightarrow> bool" where
  "page_is_shared_read_only page p \<longleftrightarrow> 0 < tk_ref_count p ! page \<or> 1 < tk_attach_count p ! page"

definition slot_shared_hot_tail_page :: "nat \<Rightarrow> token_kv_pool \<Rightarrow> nat option" where
  "slot_shared_hot_tail_page slot p = (case slot_hot_tail_page slot p of
     None \<Rightarrow> None
   | Some page \<Rightarrow> if page_is_shared_read_only page p then Some page else None)"

definition append_cow_pages_needed :: "nat \<Rightarrow> token_kv_pool \<Rightarrow> nat" where
  "append_cow_pages_needed slot p = (if slot_shared_hot_tail_page slot p = None then 0 else 1)"

definition available_in_last_page :: "nat \<Rightarrow> token_kv_pool \<Rightarrow> nat" where
  "available_in_last_page slot p =
     (if slot_hot_tail_len slot p = 0 then 0 else tk_page_size p - slot_hot_tail_len slot p)"

definition append_pages_needed :: "nat \<Rightarrow> nat \<Rightarrow> token_kv_pool \<Rightarrow> nat" where
  "append_pages_needed slot count p =
     (if count = 0 then 0
      else append_cow_pages_needed slot p
        + div_ceil (count - available_in_last_page slot p) (max (tk_page_size p) 1))"

subsection \<open>Allocation\<close>

definition recycle_page_if_unreferenced :: "nat \<Rightarrow> token_kv_pool \<Rightarrow> bool \<times> token_kv_pool" where
  "recycle_page_if_unreferenced page p =
     (if tk_attach_count p ! page = 0 \<and> tk_ref_count p ! page = 0
      then (True, p\<lparr>tk_free_pages := tk_free_pages p @ [page]\<rparr>) else (False, p))"

fun pop_attached :: "nat \<Rightarrow> nat list \<Rightarrow> token_kv_pool \<Rightarrow> (nat list \<times> token_kv_pool) option" where
  "pop_attached 0 acc p = Some (acc, p)"
| "pop_attached (Suc n) acc p = (case tk_free_pages p of
     [] \<Rightarrow> None
   | pages \<Rightarrow> let page = last pages in
       if page < length (tk_attach_count p)
       then pop_attached n (acc @ [page]) (p\<lparr>tk_free_pages := butlast pages,
              tk_attach_count := (tk_attach_count p)[page := 1]\<rparr>)
       else None)"

fun pop_detached :: "nat \<Rightarrow> nat list \<Rightarrow> token_kv_pool \<Rightarrow> (nat list \<times> token_kv_pool) option" where
  "pop_detached 0 acc p = Some (acc, p)"
| "pop_detached (Suc n) acc p = (case tk_free_pages p of
     [] \<Rightarrow> None
   | pages \<Rightarrow> let page = last pages in
       if page < length (tk_ref_count p)
       then pop_detached n (acc @ [page]) (p\<lparr>tk_free_pages := butlast pages,
              tk_ref_count := (tk_ref_count p)[page := 1]\<rparr>)
       else None)"

definition kv_alloc_tokens ::
    "nat \<Rightarrow> nat \<Rightarrow> token_kv_pool \<Rightarrow> ((kv_pool_error + nat list) \<times> token_kv_pool) option" where
  "kv_alloc_tokens slot count p =
     (if count = 0 then Some (Inr [], p)
      else if length (tk_seq_lens p) \<le> slot then None
      else let remaining = count - available_in_last_page slot p;
               new_page_count = div_ceil remaining (tk_page_size p)
           in if length (tk_free_pages p) < new_page_count then Some (Inl OutOfPages, p)
              else do {
                (new_pages, p1) \<leftarrow> pop_attached new_page_count [] p;
                Some (Inr new_pages, p1\<lparr>
                  tk_page_indices := (tk_page_indices p1)[slot := tk_page_indices p1 ! slot @ new_pages],
                  tk_seq_lens := (tk_seq_lens p1)[slot := tk_seq_lens p1 ! slot + count]\<rparr>)
              })"

definition alloc_detached_pages ::
    "nat \<Rightarrow> token_kv_pool \<Rightarrow> ((kv_pool_error + nat list) \<times> token_kv_pool) option" where
  "alloc_detached_pages count p =
     (if count = 0 then Some (Inr [], p)
      else if length (tk_free_pages p) < count then Some (Inl OutOfPages, p)
      else map_option (map_prod Inr id) (pop_detached count [] p))"

fun attach_loop :: "nat list \<Rightarrow> token_kv_pool \<Rightarrow> (kv_pool_error + unit) \<times> token_kv_pool" where
  "attach_loop [] p = (Inr (), p)"
| "attach_loop (page # pages) p =
     (if tk_max_total_pages p \<le> page then (Inl PageOutOfBounds, p)
      else if tk_attach_count p ! page = 0 \<and> tk_ref_count p ! page = 0 then (Inl PageNotLive, p)
      else attach_loop pages (p\<lparr>tk_attach_count :=
             (tk_attach_count p)[page := saturating_add u32_max (tk_attach_count p ! page) 1]\<rparr>))"

definition attach_pages ::
    "nat \<Rightarrow> nat list \<Rightarrow> nat \<Rightarrow> token_kv_pool \<Rightarrow> ((kv_pool_error + unit) \<times> token_kv_pool) option" where
  "attach_pages slot pages token_count p =
     (if length (tk_page_indices p) \<le> slot then None
      else if tk_page_indices p ! slot \<noteq> [] \<or> tk_seq_lens p ! slot \<noteq> 0 then Some (Inl SlotNotEmpty, p)
      else if saturating_mul usize_max (length pages) (tk_page_size p) < token_count
        then Some (Inl TokensExceedPages, p)
      else Some (case attach_loop pages p of
          (Inl e, p1) \<Rightarrow> (Inl e, p1)
        | (Inr _, p1) \<Rightarrow> (Inr (), p1\<lparr>
            tk_page_indices := (tk_page_indices p1)[slot := pages],
            tk_seq_lens := (tk_seq_lens p1)[slot := token_count]\<rparr>)))"

subsection \<open>Copies on the device\<close>

definition write_at :: "nat \<Rightarrow> 'a list \<Rightarrow> 'a list \<Rightarrow> 'a list option" where
  "write_at start xs buf =
     (if start + length xs \<le> length buf then Some (take start buf @ xs @ drop (start + length xs) buf) else None)"

definition copy_page_in :: "nat \<Rightarrow> nat \<Rightarrow> nat \<Rightarrow> 'a list \<Rightarrow> 'a list option" where
  "copy_page_in n src dst buf = do { xs \<leftarrow> slice (src * n) (src * n + n) buf; write_at (dst * n) xs buf }"

definition transfer_layer_table_pair ::
    "bool \<Rightarrow> nat \<Rightarrow> nat \<Rightarrow> nat \<Rightarrow> nat \<Rightarrow> 'a list list \<Rightarrow> 'a list list
       \<Rightarrow> (kv_pool_error + 'a list list \<times> 'a list list) option" where
  "transfer_layer_table_pair launch num_layers n src dst ks vs =
     (if n = 0 then Some (Inr (ks, vs))
      else if length ks \<noteq> num_layers then Some (Inl LayerTable)
      else if length vs \<noteq> num_layers then Some (Inl LayerTable)
      else if \<not> launch then Some (Inl DeviceError)
      else do {
        ks' \<leftarrow> those (map (copy_page_in n src dst) ks);
        vs' \<leftarrow> those (map (copy_page_in n src dst) vs);
        Some (Inr (ks', vs'))
      })"

definition token_bytes :: "token_kv_pool \<Rightarrow> nat" where
  "token_bytes p = tk_page_size p * tk_kv_dim p * bytes_per_element (tk_format p)"

definition scale_len :: "token_kv_pool \<Rightarrow> nat" where
  "scale_len p = tk_page_size p * tk_num_kv_heads p"

definition transfer_data :: "bool \<Rightarrow> nat \<Rightarrow> nat \<Rightarrow> token_kv_pool \<Rightarrow> ((kv_pool_error + unit) \<times> token_kv_pool) option" where
  "transfer_data launch src dst p = do {
     r \<leftarrow> transfer_layer_table_pair launch (tk_num_layers p) (token_bytes p) src dst
            (pl_k_data (tk_planes p)) (pl_v_data (tk_planes p));
     Some (case r of Inl e \<Rightarrow> (Inl e, p)
       | Inr (k, v) \<Rightarrow> (Inr (), p\<lparr>tk_planes := (tk_planes p)\<lparr>pl_k_data := k, pl_v_data := v\<rparr>\<rparr>)) }"

definition transfer_scales :: "bool \<Rightarrow> nat \<Rightarrow> nat \<Rightarrow> token_kv_pool \<Rightarrow> ((kv_pool_error + unit) \<times> token_kv_pool) option" where
  "transfer_scales launch src dst p = do {
     r \<leftarrow> transfer_layer_table_pair launch (tk_num_layers p) (scale_len p) src dst
            (pl_k_scales (tk_planes p)) (pl_v_scales (tk_planes p));
     Some (case r of Inl e \<Rightarrow> (Inl e, p)
       | Inr (k, v) \<Rightarrow> (Inr (), p\<lparr>tk_planes := (tk_planes p)\<lparr>pl_k_scales := k, pl_v_scales := v\<rparr>\<rparr>)) }"

definition transfer_norms :: "bool \<Rightarrow> nat \<Rightarrow> nat \<Rightarrow> token_kv_pool \<Rightarrow> ((kv_pool_error + unit) \<times> token_kv_pool) option" where
  "transfer_norms launch src dst p = do {
     r \<leftarrow> transfer_layer_table_pair launch (tk_num_layers p) (scale_len p) src dst
            (pl_k_norms (tk_planes p)) (pl_v_norms (tk_planes p));
     Some (case r of Inl e \<Rightarrow> (Inl e, p)
       | Inr (k, v) \<Rightarrow> (Inr (), p\<lparr>tk_planes := (tk_planes p)\<lparr>pl_k_norms := k, pl_v_norms := v\<rparr>\<rparr>)) }"

definition copy_page_device_to_device ::
    "(nat \<Rightarrow> bool) \<Rightarrow> nat \<Rightarrow> nat \<Rightarrow> token_kv_pool \<Rightarrow> ((kv_pool_error + unit) \<times> token_kv_pool) option" where
  "copy_page_device_to_device launch src dst p =
     (if tk_max_total_pages p \<le> src \<or> 2 ^ 31 \<le> src \<or> tk_max_total_pages p \<le> dst \<or> 2 ^ 31 \<le> dst
      then Some (Inl PageOutOfBounds, p)
      else do {
        (r0, p0) \<leftarrow> transfer_data (launch 0) src dst p;
        case r0 of Inl e \<Rightarrow> Some (Inl e, p0)
        | Inr _ \<Rightarrow> do {
            (r1, p1) \<leftarrow> (if has_scales (tk_format p0) then transfer_scales (launch 1) src dst p0 else Some (Inr (), p0));
            case r1 of Inl e \<Rightarrow> Some (Inl e, p1)
            | Inr _ \<Rightarrow> if has_norms (tk_format p1) then transfer_norms (launch 2) src dst p1 else Some (Inr (), p1)
          }
      })"

definition detach_shared_hot_tail_page_for_append ::
    "(nat \<Rightarrow> bool) \<Rightarrow> nat \<Rightarrow> nat \<Rightarrow> token_kv_pool \<Rightarrow> ((kv_pool_error + unit) \<times> token_kv_pool) option" where
  "detach_shared_hot_tail_page_for_append launch slot shared_tail_page p = (case tk_free_pages p of
     [] \<Rightarrow> Some (Inl OutOfPages, p)
   | pages \<Rightarrow> let new_page = last pages in
       if length (tk_attach_count p) \<le> new_page then None
       else do {
         (r, p1) \<leftarrow> copy_page_device_to_device launch shared_tail_page new_page
            (p\<lparr>tk_free_pages := butlast pages, tk_attach_count := (tk_attach_count p)[new_page := 1]\<rparr>);
         case r of Inl e \<Rightarrow> Some (Inl e, p1)
         | Inr _ \<Rightarrow> (let table = tk_page_indices p1 ! slot; old = last table in
             if table = [] \<or> tk_attach_count p1 ! old = 0 then None
             else Some (Inr (), snd (recycle_page_if_unreferenced old (p1\<lparr>
                    tk_page_indices := (tk_page_indices p1)[slot := butlast table @ [new_page]],
                    tk_attach_count := (tk_attach_count p1)[old := tk_attach_count p1 ! old - 1]\<rparr>))))
       })"

definition cow_tail_page_for_append ::
    "(nat \<Rightarrow> bool) \<Rightarrow> nat \<Rightarrow> token_kv_pool \<Rightarrow> ((kv_pool_error + bool) \<times> token_kv_pool) option" where
  "cow_tail_page_for_append launch slot p =
     (if length (tk_seq_lens p) \<le> slot then None
      else case slot_shared_hot_tail_page slot p of
        None \<Rightarrow> Some (Inr False, p)
      | Some page \<Rightarrow> map_option (map_prod (map_sum id (\<lambda>_. True)) id)
          (detach_shared_hot_tail_page_for_append launch slot page p))"

text \<open>The append of the scheduler and of the model forward passes: first the copy, then the allocation.\<close>

definition try_alloc_pool_tokens_once ::
    "(nat \<Rightarrow> bool) \<Rightarrow> nat \<Rightarrow> nat \<Rightarrow> token_kv_pool \<Rightarrow> ((kv_pool_error + nat list) \<times> token_kv_pool) option" where
  "try_alloc_pool_tokens_once launch slot count p =
     (if 0 < count
      then do {
        (r, p1) \<leftarrow> cow_tail_page_for_append launch slot p;
        case r of Inl e \<Rightarrow> Some (Inl e, p1) | Inr _ \<Rightarrow> kv_alloc_tokens slot count p1
      }
      else kv_alloc_tokens slot count p)"

subsection \<open>Release\<close>

definition detach_page :: "nat \<Rightarrow> token_kv_pool \<Rightarrow> bool \<times> token_kv_pool" where
  "detach_page page p = recycle_page_if_unreferenced page
     (p\<lparr>tk_attach_count := (tk_attach_count p)[page := tk_attach_count p ! page - 1]\<rparr>)"

definition bump_epoch :: "nat \<Rightarrow> nat list \<Rightarrow> token_kv_pool \<Rightarrow> token_kv_pool" where
  "bump_epoch slot removed p = (if removed = [] then p
     else p\<lparr>tk_slot_epochs := (tk_slot_epochs p)[slot := saturating_add u64_max (tk_slot_epochs p ! slot) 1]\<rparr>)"

definition free_slot :: "nat \<Rightarrow> token_kv_pool \<Rightarrow> token_kv_pool option" where
  "free_slot slot p =
     (if length (tk_page_indices p) \<le> slot then None
      else let pages = tk_page_indices p ! slot;
               p1 = bump_epoch slot pages (p\<lparr>tk_page_indices := (tk_page_indices p)[slot := []]\<rparr>);
               p2 = fold (\<lambda>page q. snd (detach_page page q)) pages p1
           in Some (p2\<lparr>tk_seq_lens := (tk_seq_lens p2)[slot := 0]\<rparr>))"

fun truncate_loop :: "nat list \<Rightarrow> token_kv_pool \<Rightarrow> nat list \<Rightarrow> nat list \<times> token_kv_pool" where
  "truncate_loop [] p recycled = (recycled, p)"
| "truncate_loop (page # pages) p recycled = (case detach_page page p of
     (pushed, p1) \<Rightarrow> truncate_loop pages p1 (if pushed then recycled @ [page] else recycled))"

definition truncate_slot ::
    "nat \<Rightarrow> nat \<Rightarrow> token_kv_pool \<Rightarrow> ((kv_pool_error + nat list) \<times> token_kv_pool) option" where
  "truncate_slot slot new_len p =
     (if length (tk_seq_lens p) \<le> slot then None
      else let old_len = tk_seq_lens p ! slot in
        if old_len < new_len then Some (Inl CannotGrow, p)
        else if new_len = old_len then Some (Inr [], p)
        else let table = tk_page_indices p ! slot;
                 keep = min (div_ceil new_len (tk_page_size p)) (length table);
                 removed = drop keep table;
                 p1 = bump_epoch slot removed (p\<lparr>tk_page_indices := (tk_page_indices p)[slot := take keep table]\<rparr>)
             in case truncate_loop removed p1 [] of
                  (recycled, p2) \<Rightarrow> Some (Inr recycled, p2\<lparr>tk_seq_lens := (tk_seq_lens p2)[slot := new_len]\<rparr>))"

fun retain_pages :: "nat list \<Rightarrow> token_kv_pool \<Rightarrow> token_kv_pool option" where
  "retain_pages [] p = Some p"
| "retain_pages (page # pages) p =
     (if length (tk_ref_count p) \<le> page then None
      else retain_pages pages (p\<lparr>tk_ref_count :=
             (tk_ref_count p)[page := saturating_add u32_max (tk_ref_count p ! page) 1]\<rparr>))"

definition release_page :: "nat \<Rightarrow> token_kv_pool \<Rightarrow> bool \<times> token_kv_pool" where
  "release_page page p = (let next = tk_ref_count p ! page - 1;
       p1 = p\<lparr>tk_ref_count := (tk_ref_count p)[page := next]\<rparr>
     in if next = 0 then recycle_page_if_unreferenced page p1 else (False, p1))"

fun release_loop :: "nat list \<Rightarrow> token_kv_pool \<Rightarrow> nat list \<Rightarrow> (nat list \<times> token_kv_pool) option" where
  "release_loop [] p freed = Some (freed, p)"
| "release_loop (page # pages) p freed =
     (if length (tk_ref_count p) \<le> page then None
      else case release_page page p of
        (pushed, p1) \<Rightarrow> release_loop pages p1 (if pushed then freed @ [page] else freed))"

definition release_pages :: "nat list \<Rightarrow> token_kv_pool \<Rightarrow> (nat list \<times> token_kv_pool) option" where
  "release_pages pages p = release_loop pages p []"

subsection \<open>Queries and batch metadata\<close>

definition retained_count :: "token_kv_pool \<Rightarrow> nat" where
  "retained_count p = length (filter (\<lambda>rc. 0 < rc) (tk_ref_count p))"

definition free_count :: "token_kv_pool \<Rightarrow> nat" where
  "free_count p = length (tk_free_pages p) * tk_page_size p
     + sum_list (map (\<lambda>slot. available_in_last_page slot p) [0..<length (tk_seq_lens p)])"

definition free_page_count :: "token_kv_pool \<Rightarrow> nat" where
  "free_page_count p = length (tk_free_pages p)"

definition page_indices_for_token_range :: "nat \<Rightarrow> nat \<Rightarrow> nat \<Rightarrow> token_kv_pool \<Rightarrow> nat list option" where
  "page_indices_for_token_range slot start_pos token_count p =
     (if length (tk_seq_lens p) \<le> slot then None
      else slice (start_pos div tk_page_size p) (div_ceil (start_pos + token_count) (tk_page_size p))
             (tk_page_indices p ! slot))"

definition token_row :: "nat \<Rightarrow> token_kv_pool \<Rightarrow> nat \<Rightarrow> nat option" where
  "token_row slot p pos = do {
     page \<leftarrow> get_at (tk_page_indices p ! slot) (pos div tk_page_size p);
     Some ((page * tk_page_size p + pos mod tk_page_size p) mod 2 ^ 32) }"

definition token_rows_for_range :: "nat \<Rightarrow> nat \<Rightarrow> nat \<Rightarrow> token_kv_pool \<Rightarrow> nat list option" where
  "token_rows_for_range slot start_pos token_count p =
     (if length (tk_seq_lens p) \<le> slot then None
      else those (map (token_row slot p) [start_pos..<start_pos + token_count]))"

definition as_i32 :: "nat \<Rightarrow> int" where
  "as_i32 n = sint (word_of_nat n :: 32 word)"

definition i32_add :: "int \<Rightarrow> int \<Rightarrow> int" where
  "i32_add a b = sint (word_of_int (a + b) :: 32 word)"

fun indptr_loop :: "nat list list \<Rightarrow> int \<Rightarrow> int list" where
  "indptr_loop [] prev = [prev]"
| "indptr_loop (table # tables) prev = prev # indptr_loop tables (i32_add prev (as_i32 (length table)))"

definition slot_tables :: "nat list \<Rightarrow> token_kv_pool \<Rightarrow> nat list list option" where
  "slot_tables slots p = those (map (get_at (tk_page_indices p)) slots)"

definition build_indptr :: "nat list \<Rightarrow> token_kv_pool \<Rightarrow> int list option" where
  "build_indptr slots p = map_option (\<lambda>tables. indptr_loop tables 0) (slot_tables slots p)"

definition build_indices :: "nat list \<Rightarrow> token_kv_pool \<Rightarrow> int list option" where
  "build_indices slots p = map_option (\<lambda>tables. map as_i32 (concat tables)) (slot_tables slots p)"

definition build_last_page_lens :: "nat list \<Rightarrow> token_kv_pool \<Rightarrow> int list option" where
  "build_last_page_lens slots p =
     (if list_all (\<lambda>slot. slot < length (tk_seq_lens p)) slots
      then Some (map (\<lambda>slot. as_i32 (slot_last_page_len slot p)) slots) else None)"

record paged_kv_batch_meta =
  pm_indptr :: "int list"
  pm_indices :: "int list"
  pm_last_page_len :: "int list"

definition build_paged_kv_metadata :: "nat list \<Rightarrow> token_kv_pool \<Rightarrow> paged_kv_batch_meta option" where
  "build_paged_kv_metadata slots p = do {
     tables \<leftarrow> slot_tables slots p;
     lens \<leftarrow> build_last_page_lens slots p;
     Some \<lparr>pm_indptr = indptr_loop tables 0, pm_indices = map as_i32 (concat tables), pm_last_page_len = lens\<rparr> }"

definition build_last_indices :: "nat list \<Rightarrow> token_kv_pool \<Rightarrow> int list option" where
  "build_last_indices slots p = those (map (\<lambda>slot. do {
     seq_len \<leftarrow> get_at (tk_seq_lens p) slot;
     page \<leftarrow> (if seq_len = 0 then None else get_at (tk_page_indices p ! slot) ((seq_len - 1) div tk_page_size p));
     Some (as_i32 (page * tk_page_size p + (seq_len - 1) mod tk_page_size p)) }) slots)"

definition build_quantized_decode_indptr :: "nat list \<Rightarrow> token_kv_pool \<Rightarrow> int list option" where
  "build_quantized_decode_indptr slots p = do {
     packed \<leftarrow> build_indptr slots p; lens \<leftarrow> build_last_page_lens slots p; Some (packed @ lens) }"

subsection \<open>Copies between host and device\<close>

definition words_to_le_bytes :: "nat \<Rightarrow> 'l::len word list \<Rightarrow> u8 list" where
  "words_to_le_bytes nb ws = concat (map (\<lambda>w. to_le_bytes nb (unat w)) ws)"

definition plane_slice :: "'a list list \<Rightarrow> nat \<Rightarrow> nat \<Rightarrow> nat \<Rightarrow> 'a list option" where
  "plane_slice plane layer n page = do { buf \<leftarrow> get_at plane layer; slice (page * n) (page * n + n) buf }"

definition layer_to_host :: "token_kv_pool \<Rightarrow> nat \<Rightarrow> nat \<Rightarrow> u8 list option" where
  "layer_to_host p page layer = do {
     k \<leftarrow> plane_slice (pl_k_data (tk_planes p)) layer (token_bytes p) page;
     v \<leftarrow> plane_slice (pl_v_data (tk_planes p)) layer (token_bytes p) page;
     scales \<leftarrow> (if has_scales (tk_format p) then do {
         ks \<leftarrow> plane_slice (pl_k_scales (tk_planes p)) layer (scale_len p) page;
         vs \<leftarrow> plane_slice (pl_v_scales (tk_planes p)) layer (scale_len p) page;
         Some (words_to_le_bytes 4 ks @ words_to_le_bytes 4 vs) } else Some []);
     norms \<leftarrow> (if has_norms (tk_format p) then do {
         kn \<leftarrow> plane_slice (pl_k_norms (tk_planes p)) layer (scale_len p) page;
         vn \<leftarrow> plane_slice (pl_v_norms (tk_planes p)) layer (scale_len p) page;
         Some (words_to_le_bytes 2 kn @ words_to_le_bytes 2 vn) } else Some []);
     Some (k @ v @ scales @ norms) }"

definition copy_pages_to_host :: "nat list \<Rightarrow> token_kv_pool \<Rightarrow> u8 list option" where
  "copy_pages_to_host pages p = map_option concat (those (map (\<lambda>(page, layer). layer_to_host p page layer)
     (List.product pages [0..<tk_num_layers p])))"

definition storage_bytes_per_page :: "token_kv_pool \<Rightarrow> nat" where
  "storage_bytes_per_page p = (tk_kv_dim p * bytes_per_element (tk_format p) * 2
     + (if has_scales (tk_format p) then tk_num_kv_heads p * 4 * 2 else 0)
     + (if has_norms (tk_format p) then tk_num_kv_heads p * 2 * 2 else 0)) * tk_num_layers p * tk_page_size p"

fun chunks_exact :: "nat \<Rightarrow> nat \<Rightarrow> 'a list \<Rightarrow> 'a list list" where
  "chunks_exact 0 nb xs = []"
| "chunks_exact (Suc k) nb xs = take nb xs # chunks_exact k nb (drop nb xs)"

definition words_from_le_bytes :: "nat \<Rightarrow> nat \<Rightarrow> u8 list \<Rightarrow> 'l::len word list" where
  "words_from_le_bytes nb n bs = map (\<lambda>c. word_of_nat (from_le_bytes c)) (chunks_exact n nb bs)"

text \<open>One section of the payload: the next bytes are decoded and written to the page of the layer.\<close>

definition plane_from_host ::
    "nat \<Rightarrow> (u8 list \<Rightarrow> 'a list) \<Rightarrow> nat \<Rightarrow> nat \<Rightarrow> nat \<Rightarrow> 'a list list \<times> u8 list \<Rightarrow> ('a list list \<times> u8 list) option" where
  "plane_from_host nbytes decode layer n page = (\<lambda>(plane, payload). do {
     bytes \<leftarrow> slice 0 nbytes payload;
     buf \<leftarrow> get_at plane layer;
     buf' \<leftarrow> write_at (page * n) (decode bytes) buf;
     Some (plane[layer := buf'], drop nbytes payload) })"

definition data_from_host :: "nat \<Rightarrow> nat \<Rightarrow> token_kv_pool \<times> u8 list \<Rightarrow> (token_kv_pool \<times> u8 list) option" where
  "data_from_host page layer = (\<lambda>(p, bs). do {
     (k, bs1) \<leftarrow> plane_from_host (token_bytes p) id layer (token_bytes p) page (pl_k_data (tk_planes p), bs);
     (v, bs2) \<leftarrow> plane_from_host (token_bytes p) id layer (token_bytes p) page (pl_v_data (tk_planes p), bs1);
     Some (p\<lparr>tk_planes := (tk_planes p)\<lparr>pl_k_data := k, pl_v_data := v\<rparr>\<rparr>, bs2) })"

definition scales_from_host :: "nat \<Rightarrow> nat \<Rightarrow> token_kv_pool \<times> u8 list \<Rightarrow> (token_kv_pool \<times> u8 list) option" where
  "scales_from_host page layer = (\<lambda>(p, bs). let s = scale_len p in do {
     (k, bs1) \<leftarrow> plane_from_host (s * 4) (words_from_le_bytes 4 s) layer s page (pl_k_scales (tk_planes p), bs);
     (v, bs2) \<leftarrow> plane_from_host (s * 4) (words_from_le_bytes 4 s) layer s page (pl_v_scales (tk_planes p), bs1);
     Some (p\<lparr>tk_planes := (tk_planes p)\<lparr>pl_k_scales := k, pl_v_scales := v\<rparr>\<rparr>, bs2) })"

definition norms_from_host :: "nat \<Rightarrow> nat \<Rightarrow> token_kv_pool \<times> u8 list \<Rightarrow> (token_kv_pool \<times> u8 list) option" where
  "norms_from_host page layer = (\<lambda>(p, bs). let s = scale_len p in do {
     (k, bs1) \<leftarrow> plane_from_host (s * 2) (words_from_le_bytes 2 s) layer s page (pl_k_norms (tk_planes p), bs);
     (v, bs2) \<leftarrow> plane_from_host (s * 2) (words_from_le_bytes 2 s) layer s page (pl_v_norms (tk_planes p), bs1);
     Some (p\<lparr>tk_planes := (tk_planes p)\<lparr>pl_k_norms := k, pl_v_norms := v\<rparr>\<rparr>, bs2) })"

definition layer_from_host :: "nat \<Rightarrow> nat \<Rightarrow> token_kv_pool \<times> u8 list \<Rightarrow> (token_kv_pool \<times> u8 list) option" where
  "layer_from_host page layer st = do {
     st1 \<leftarrow> data_from_host page layer st;
     st2 \<leftarrow> (if has_scales (tk_format (fst st1)) then scales_from_host page layer st1 else Some st1);
     if has_norms (tk_format (fst st2)) then norms_from_host page layer st2 else Some st2 }"

fun from_host_loop :: "(nat \<times> nat) list \<Rightarrow> token_kv_pool \<times> u8 list \<Rightarrow> (token_kv_pool \<times> u8 list) option" where
  "from_host_loop [] st = Some st"
| "from_host_loop ((page, layer) # todo) st = do { st1 \<leftarrow> layer_from_host page layer st; from_host_loop todo st1 }"

definition copy_pages_from_host ::
    "nat list \<Rightarrow> u8 list \<Rightarrow> token_kv_pool \<Rightarrow> ((kv_pool_error + unit) \<times> token_kv_pool) option" where
  "copy_pages_from_host pages payload p =
     (if length payload \<noteq> length pages * storage_bytes_per_page p then Some (Inl PayloadLength, p)
      else map_option (\<lambda>(p', _). (Inr (), p'))
             (from_host_loop (List.product pages [0..<tk_num_layers p]) (p, payload)))"

end
