(* ===== verification/Paged_Props.thy ===== *)
theory Paged_Props
  imports Paged_Kv "HOL-Library.Multiset"
begin

text \<open>
  Correctness of the paged KV pool: the counts of a page are its occurrences in the tables of the slots,
  the retains of the prefix cache and what failed operations have lost, and the free list is exactly the
  pages with none of them (\<open>counts_ok\<close>, \<open>kv_ok\<close>), over every sequence of operations of clients that
  keep to the conditions of \<open>kv_step\<close>. The theories on appends and payloads rest on it.
\<close>

subsection \<open>Counts and free list\<close>

definition counts_ok :: "token_kv_pool \<Rightarrow> nat multiset \<Rightarrow> nat multiset \<Rightarrow> bool" where
  "counts_ok p A R \<longleftrightarrow>
     length (tk_attach_count p) = tk_max_total_pages p \<and> length (tk_ref_count p) = tk_max_total_pages p
     \<and> (\<forall>q. q \<in># A \<or> q \<in># R \<longrightarrow> q < tk_max_total_pages p)
     \<and> (\<forall>q<tk_max_total_pages p. tk_attach_count p ! q = count A q \<and> tk_ref_count p ! q = count R q)
     \<and> distinct (tk_free_pages p)
     \<and> (\<forall>q. q \<in> set (tk_free_pages p) \<longleftrightarrow> q < tk_max_total_pages p \<and> q \<notin># A \<and> q \<notin># R)"

lemma counts_okD:
  assumes "counts_ok p A R"
  shows "length (tk_attach_count p) = tk_max_total_pages p" "length (tk_ref_count p) = tk_max_total_pages p"
    and "q \<in># A \<Longrightarrow> q < tk_max_total_pages p" "q \<in># R \<Longrightarrow> q < tk_max_total_pages p"
    and "q < tk_max_total_pages p \<Longrightarrow> tk_attach_count p ! q = count A q"
    and "q < tk_max_total_pages p \<Longrightarrow> tk_ref_count p ! q = count R q"
    and "distinct (tk_free_pages p)"
    and "q \<in> set (tk_free_pages p) \<longleftrightarrow> q < tk_max_total_pages p \<and> q \<notin># A \<and> q \<notin># R"
  using assms by (auto simp: counts_ok_def)

lemma counts_ok_planes [simp]:
  "counts_ok (p\<lparr>tk_planes := pl\<rparr>) A R = counts_ok p A R"
  "counts_ok (p\<lparr>tk_page_indices := t\<rparr>) A R = counts_ok p A R"
  "counts_ok (p\<lparr>tk_seq_lens := s\<rparr>) A R = counts_ok p A R"
  "counts_ok (p\<lparr>tk_slot_epochs := e\<rparr>) A R = counts_ok p A R"
  by (simp_all add: counts_ok_def)

lemma other_in_diff [simp]: "r \<noteq> q \<Longrightarrow> r \<in># A - {#q#} \<longleftrightarrow> r \<in># A"
  by (simp add: in_diff_count)

lemma pop_Suc:
  assumes "tk_free_pages p = f @ [q]"
  shows "pop_attached (Suc n) acc p = (if q < length (tk_attach_count p)
      then pop_attached n (acc @ [q]) (p\<lparr>tk_free_pages := f, tk_attach_count := (tk_attach_count p)[q := 1]\<rparr>) else None)"
    "pop_detached (Suc n) acc p = (if q < length (tk_ref_count p)
      then pop_detached n (acc @ [q]) (p\<lparr>tk_free_pages := f, tk_ref_count := (tk_ref_count p)[q := 1]\<rparr>) else None)"
  using assms by (cases f; simp)+

lemma pop_attached_one:
  assumes "counts_ok p A R" "tk_free_pages p = f @ [q]"
  shows "q < tk_max_total_pages p"
    "counts_ok (p\<lparr>tk_free_pages := f, tk_attach_count := (tk_attach_count p)[q := 1]\<rparr>) (add_mset q A) R"
proof -
  from assms have q: "q < tk_max_total_pages p" "q \<notin># A" "q \<notin># R" "q \<notin> set f"
    using counts_okD(7,8) [OF assms(1)] by auto
  then show "q < tk_max_total_pages p" by simp
  show "counts_ok (p\<lparr>tk_free_pages := f, tk_attach_count := (tk_attach_count p)[q := 1]\<rparr>) (add_mset q A) R"
    unfolding counts_ok_def
  proof (intro conjI allI)
    fix r show "(r \<in> set (tk_free_pages (p\<lparr>tk_free_pages := f, tk_attach_count := (tk_attach_count p)[q := 1]\<rparr>))) =
      (r < tk_max_total_pages (p\<lparr>tk_free_pages := f, tk_attach_count := (tk_attach_count p)[q := 1]\<rparr>)
        \<and> r \<notin># add_mset q A \<and> r \<notin># R)"
      using counts_okD(8) [OF assms(1), of r] assms(2) q by auto
  qed (use assms q in \<open>auto simp: counts_ok_def nth_list_update not_in_iff\<close>)
qed

lemma pop_detached_one:
  assumes "counts_ok p A R" "tk_free_pages p = f @ [q]"
  shows "q < tk_max_total_pages p"
    "counts_ok (p\<lparr>tk_free_pages := f, tk_ref_count := (tk_ref_count p)[q := 1]\<rparr>) A (add_mset q R)"
proof -
  from assms have q: "q < tk_max_total_pages p" "q \<notin># A" "q \<notin># R" "q \<notin> set f"
    using counts_okD(7,8) [OF assms(1)] by auto
  then show "q < tk_max_total_pages p" by simp
  show "counts_ok (p\<lparr>tk_free_pages := f, tk_ref_count := (tk_ref_count p)[q := 1]\<rparr>) A (add_mset q R)"
    unfolding counts_ok_def
  proof (intro conjI allI)
    fix r show "(r \<in> set (tk_free_pages (p\<lparr>tk_free_pages := f, tk_ref_count := (tk_ref_count p)[q := 1]\<rparr>))) =
      (r < tk_max_total_pages (p\<lparr>tk_free_pages := f, tk_ref_count := (tk_ref_count p)[q := 1]\<rparr>)
        \<and> r \<notin># A \<and> r \<notin># add_mset q R)"
      using counts_okD(8) [OF assms(1), of r] assms(2) q by auto
  qed (use assms q in \<open>auto simp: counts_ok_def nth_list_update not_in_iff\<close>)
qed

lemma pop_attached_ok:
  assumes "counts_ok p A R" "n \<le> length (tk_free_pages p)"
  shows "\<exists>new f a. pop_attached n acc p = Some (acc @ new, p\<lparr>tk_free_pages := f, tk_attach_count := a\<rparr>)
    \<and> tk_free_pages p = f @ rev new \<and> length new = n
    \<and> counts_ok (p\<lparr>tk_free_pages := f, tk_attach_count := a\<rparr>) (A + mset new) R"
  using assms
proof (induction n arbitrary: acc p A)
  case 0
  have "p = p\<lparr>tk_free_pages := tk_free_pages p, tk_attach_count := tk_attach_count p\<rparr>" by simp
  then show ?case using 0 by (intro exI [of _ "[]"] exI [of _ "tk_free_pages p"] exI [of _ "tk_attach_count p"]) auto
next
  case (Suc n)
  then obtain f q where f: "tk_free_pages p = f @ [q]" by (cases "tk_free_pages p" rule: rev_cases) auto
  let ?p = "p\<lparr>tk_free_pages := f, tk_attach_count := (tk_attach_count p)[q := 1]\<rparr>"
  note one = pop_attached_one [OF Suc.prems(1) f]
  have "n \<le> length (tk_free_pages ?p)" using Suc.prems(2) f by simp
  from Suc.IH [OF one(2) this, of "acc @ [q]"] obtain new g a where
    IH: "pop_attached n (acc @ [q]) ?p = Some ((acc @ [q]) @ new, ?p\<lparr>tk_free_pages := g, tk_attach_count := a\<rparr>)"
      "f = g @ rev new" "length new = n"
      "counts_ok (?p\<lparr>tk_free_pages := g, tk_attach_count := a\<rparr>) (add_mset q A + mset new) R" by auto
  have "pop_attached (Suc n) acc p = pop_attached n (acc @ [q]) ?p"
    using one(1) counts_okD(1) [OF Suc.prems(1)] by (simp only: pop_Suc [OF f] if_True)
  then show ?case using IH f
    by (intro exI [of _ "q # new"] exI [of _ g] exI [of _ a]) simp
qed

lemma pop_detached_ok:
  assumes "counts_ok p A R" "n \<le> length (tk_free_pages p)"
  shows "\<exists>new f a. pop_detached n acc p = Some (acc @ new, p\<lparr>tk_free_pages := f, tk_ref_count := a\<rparr>)
    \<and> tk_free_pages p = f @ rev new \<and> length new = n
    \<and> counts_ok (p\<lparr>tk_free_pages := f, tk_ref_count := a\<rparr>) A (R + mset new)"
  using assms
proof (induction n arbitrary: acc p R)
  case 0
  have "p = p\<lparr>tk_free_pages := tk_free_pages p, tk_ref_count := tk_ref_count p\<rparr>" by simp
  then show ?case using 0 by (intro exI [of _ "[]"] exI [of _ "tk_free_pages p"] exI [of _ "tk_ref_count p"]) auto
next
  case (Suc n)
  then obtain f q where f: "tk_free_pages p = f @ [q]" by (cases "tk_free_pages p" rule: rev_cases) auto
  let ?p = "p\<lparr>tk_free_pages := f, tk_ref_count := (tk_ref_count p)[q := 1]\<rparr>"
  note one = pop_detached_one [OF Suc.prems(1) f]
  have "n \<le> length (tk_free_pages ?p)" using Suc.prems(2) f by simp
  from Suc.IH [OF one(2) this, of "acc @ [q]"] obtain new g a where
    IH: "pop_detached n (acc @ [q]) ?p = Some ((acc @ [q]) @ new, ?p\<lparr>tk_free_pages := g, tk_ref_count := a\<rparr>)"
      "f = g @ rev new" "length new = n"
      "counts_ok (?p\<lparr>tk_free_pages := g, tk_ref_count := a\<rparr>) A (add_mset q R + mset new)" by auto
  have "pop_detached (Suc n) acc p = pop_detached n (acc @ [q]) ?p"
    using one(1) counts_okD(2) [OF Suc.prems(1)] by (simp only: pop_Suc [OF f] if_True)
  then show ?case using IH f
    by (intro exI [of _ "q # new"] exI [of _ g] exI [of _ a]) simp
qed

lemma recycle_ok:
  assumes "length (tk_attach_count p) = tk_max_total_pages p" "length (tk_ref_count p) = tk_max_total_pages p"
    "\<And>r. r \<in># A \<or> r \<in># R \<Longrightarrow> r < tk_max_total_pages p"
    "\<And>r. r < tk_max_total_pages p \<Longrightarrow> tk_attach_count p ! r = count A r \<and> tk_ref_count p ! r = count R r"
    "distinct (tk_free_pages p)" "q < tk_max_total_pages p"
    "\<And>r. r \<in> set (tk_free_pages p) \<longleftrightarrow> r < tk_max_total_pages p \<and> r \<noteq> q \<and> r \<notin># A \<and> r \<notin># R"
  shows "recycle_page_if_unreferenced q p =
      (q \<notin># A \<and> q \<notin># R, p\<lparr>tk_free_pages := tk_free_pages p @ (if q \<notin># A \<and> q \<notin># R then [q] else [])\<rparr>)"
    "counts_ok (p\<lparr>tk_free_pages := tk_free_pages p @ (if q \<notin># A \<and> q \<notin># R then [q] else [])\<rparr>) A R"
proof -
  show "recycle_page_if_unreferenced q p =
      (q \<notin># A \<and> q \<notin># R, p\<lparr>tk_free_pages := tk_free_pages p @ (if q \<notin># A \<and> q \<notin># R then [q] else [])\<rparr>)"
    using assms(4,6) by (auto simp: recycle_page_if_unreferenced_def not_in_iff)
  show "counts_ok (p\<lparr>tk_free_pages := tk_free_pages p @ (if q \<notin># A \<and> q \<notin># R then [q] else [])\<rparr>) A R"
    unfolding counts_ok_def using assms by (auto split: if_splits)
qed

lemma detach_page_ok:
  assumes "counts_ok p A R" "q \<in># A"
  defines "b \<equiv> q \<notin># A - {#q#} \<and> q \<notin># R"
  shows "\<exists>a. detach_page q p = (b, p\<lparr>tk_attach_count := a, tk_free_pages := tk_free_pages p @ (if b then [q] else [])\<rparr>)
    \<and> counts_ok (p\<lparr>tk_attach_count := a, tk_free_pages := tk_free_pages p @ (if b then [q] else [])\<rparr>) (A - {#q#}) R"
proof -
  let ?p = "p\<lparr>tk_attach_count := (tk_attach_count p)[q := tk_attach_count p ! q - 1]\<rparr>"
  have q: "q < tk_max_total_pages p" using assms(1,2) by (rule counts_okD(3))
  have r: "recycle_page_if_unreferenced q ?p =
      (b, ?p\<lparr>tk_free_pages := tk_free_pages ?p @ (if b then [q] else [])\<rparr>)
    \<and> counts_ok (?p\<lparr>tk_free_pages := tk_free_pages ?p @ (if b then [q] else [])\<rparr>) (A - {#q#}) R"
    unfolding b_def
  proof (intro conjI recycle_ok)
    fix r show "r \<in> set (tk_free_pages ?p) \<longleftrightarrow>
        r < tk_max_total_pages ?p \<and> r \<noteq> q \<and> r \<notin># A - {#q#} \<and> r \<notin># R"
      using counts_okD(8) [OF assms(1), of r] assms(2) by (cases "r = q") auto
  qed (use assms(1,2) q in \<open>auto simp: counts_ok_def nth_list_update dest: in_diffD\<close>)
  then show ?thesis unfolding detach_page_def by (intro exI [of _ "tk_attach_count ?p"]) simp
qed

lemma release_page_ok:
  assumes "counts_ok p A R" "q \<in># R"
  defines "b \<equiv> q \<notin># A \<and> q \<notin># R - {#q#}"
  shows "\<exists>a. release_page q p = (b, p\<lparr>tk_ref_count := a, tk_free_pages := tk_free_pages p @ (if b then [q] else [])\<rparr>)
    \<and> counts_ok (p\<lparr>tk_ref_count := a, tk_free_pages := tk_free_pages p @ (if b then [q] else [])\<rparr>) A (R - {#q#})"
proof -
  let ?p = "p\<lparr>tk_ref_count := (tk_ref_count p)[q := tk_ref_count p ! q - 1]\<rparr>"
  have q: "q < tk_max_total_pages p" using assms(1,2) by (rule counts_okD(4))
  have r: "recycle_page_if_unreferenced q ?p =
      (b, ?p\<lparr>tk_free_pages := tk_free_pages ?p @ (if b then [q] else [])\<rparr>)
    \<and> counts_ok (?p\<lparr>tk_free_pages := tk_free_pages ?p @ (if b then [q] else [])\<rparr>) A (R - {#q#})"
    unfolding b_def
  proof (intro conjI recycle_ok)
    fix r show "r \<in> set (tk_free_pages ?p) \<longleftrightarrow>
        r < tk_max_total_pages ?p \<and> r \<noteq> q \<and> r \<notin># A \<and> r \<notin># R - {#q#}"
      using counts_okD(8) [OF assms(1), of r] assms(2) by (cases "r = q") auto
  qed (use assms(1,2) q in \<open>auto simp: counts_ok_def nth_list_update dest: in_diffD\<close>)
  have len: "q < length (tk_ref_count p)" using q counts_okD(2) [OF assms(1)] by simp
  have "tk_ref_count p ! q = count R q" using counts_okD(6) [OF assms(1) q] .
  then have "tk_ref_count p ! q - 1 \<noteq> 0 \<Longrightarrow> \<not> b" unfolding b_def by (simp add: not_in_iff)
  then have "release_page q p = (b, ?p\<lparr>tk_free_pages := tk_free_pages ?p @ (if b then [q] else [])\<rparr>)"
    unfolding release_page_def Let_def using r by auto
  then show ?thesis using r by (intro exI [of _ "tk_ref_count ?p"]) simp
qed

subsection \<open>Loops over pages\<close>

lemma truncate_loop_ok:
  assumes "counts_ok p A R" "mset qs \<subseteq># A"
  shows "\<exists>a f. truncate_loop qs p acc = (acc @ f, p\<lparr>tk_attach_count := a, tk_free_pages := tk_free_pages p @ f\<rparr>)
    \<and> counts_ok (p\<lparr>tk_attach_count := a, tk_free_pages := tk_free_pages p @ f\<rparr>) (A - mset qs) R"
  using assms
proof (induction qs arbitrary: p A acc)
  case Nil
  have "p = p\<lparr>tk_attach_count := tk_attach_count p, tk_free_pages := tk_free_pages p @ []\<rparr>" by simp
  then show ?case using Nil by (intro exI [of _ "tk_attach_count p"] exI [of _ "[]"]) auto
next
  case (Cons q qs)
  have q: "q \<in># A" and qs: "mset qs \<subseteq># A - {#q#}" using Cons.prems(2)
    by (simp_all add: insert_subset_eq_iff)
  obtain a b where d: "detach_page q p = (b, p\<lparr>tk_attach_count := a, tk_free_pages := tk_free_pages p @ (if b then [q] else [])\<rparr>)"
    "counts_ok (p\<lparr>tk_attach_count := a, tk_free_pages := tk_free_pages p @ (if b then [q] else [])\<rparr>) (A - {#q#}) R"
    using detach_page_ok [OF Cons.prems(1) q] by blast
  from Cons.IH [OF d(2) qs, of "if b then acc @ [q] else acc"] obtain a' f where
    "truncate_loop qs (p\<lparr>tk_attach_count := a, tk_free_pages := tk_free_pages p @ (if b then [q] else [])\<rparr>) (if b then acc @ [q] else acc)
      = ((if b then acc @ [q] else acc) @ f, p\<lparr>tk_attach_count := a', tk_free_pages := tk_free_pages p @ (if b then [q] else []) @ f\<rparr>)"
    "counts_ok (p\<lparr>tk_attach_count := a', tk_free_pages := tk_free_pages p @ (if b then [q] else []) @ f\<rparr>) (A - {#q#} - mset qs) R"
    by auto
  then show ?case using d(1) by (intro exI [of _ a'] exI [of _ "(if b then [q] else []) @ f"]) auto
qed

lemma fold_detach_eq: "fold (\<lambda>page q. snd (detach_page page q)) qs p = snd (truncate_loop qs p acc)"
  by (induction qs arbitrary: p acc) (auto split: prod.splits)

lemma release_loop_ok:
  assumes "counts_ok p A R" "mset qs \<subseteq># R"
  shows "\<exists>a f. release_loop qs p acc = Some (acc @ f, p\<lparr>tk_ref_count := a, tk_free_pages := tk_free_pages p @ f\<rparr>)
    \<and> counts_ok (p\<lparr>tk_ref_count := a, tk_free_pages := tk_free_pages p @ f\<rparr>) A (R - mset qs)"
  using assms
proof (induction qs arbitrary: p R acc)
  case Nil
  have "p = p\<lparr>tk_ref_count := tk_ref_count p, tk_free_pages := tk_free_pages p @ []\<rparr>" by simp
  then show ?case using Nil by (intro exI [of _ "tk_ref_count p"] exI [of _ "[]"]) auto
next
  case (Cons q qs)
  have q: "q \<in># R" and qs: "mset qs \<subseteq># R - {#q#}" using Cons.prems(2)
    by (simp_all add: insert_subset_eq_iff)
  have len: "q < length (tk_ref_count p)" using counts_okD(2,4) [OF Cons.prems(1)] q by metis
  obtain a b where d: "release_page q p = (b, p\<lparr>tk_ref_count := a, tk_free_pages := tk_free_pages p @ (if b then [q] else [])\<rparr>)"
    "counts_ok (p\<lparr>tk_ref_count := a, tk_free_pages := tk_free_pages p @ (if b then [q] else [])\<rparr>) A (R - {#q#})"
    using release_page_ok [OF Cons.prems(1) q] by blast
  from Cons.IH [OF d(2) qs, of "if b then acc @ [q] else acc"] obtain a' f where
    "release_loop qs (p\<lparr>tk_ref_count := a, tk_free_pages := tk_free_pages p @ (if b then [q] else [])\<rparr>) (if b then acc @ [q] else acc)
      = Some ((if b then acc @ [q] else acc) @ f, p\<lparr>tk_ref_count := a', tk_free_pages := tk_free_pages p @ (if b then [q] else []) @ f\<rparr>)"
    "counts_ok (p\<lparr>tk_ref_count := a', tk_free_pages := tk_free_pages p @ (if b then [q] else []) @ f\<rparr>) A (R - {#q#} - mset qs)"
    by auto
  then show ?case using d(1) len by (intro exI [of _ a'] exI [of _ "(if b then [q] else []) @ f"]) auto
qed

definition page_live :: "nat \<Rightarrow> nat multiset \<Rightarrow> nat multiset \<Rightarrow> bool" where
  "page_live q A R \<longleftrightarrow> q \<in># A \<or> q \<in># R"

text \<open>The test of \<open>attach_pages\<close>, in terms of the counts; the loop stops at the first page that fails it.\<close>

definition page_is_live :: "token_kv_pool \<Rightarrow> nat \<Rightarrow> bool" where
  "page_is_live p q \<longleftrightarrow> q < tk_max_total_pages p \<and> (tk_attach_count p ! q \<noteq> 0 \<or> tk_ref_count p ! q \<noteq> 0)"

lemma page_is_live_iff: "counts_ok p A R \<Longrightarrow> page_is_live p q \<longleftrightarrow> page_live q A R"
  using counts_okD(3-6) [of p A R q] by (auto simp: page_is_live_def page_live_def count_eq_zero_iff)

lemma attach_loop_ok:
  assumes "counts_ok p A R" "\<forall>q. count A q + count (mset qs) q \<le> u32_max"
  shows "\<exists>a r. attach_loop qs p = (r, p\<lparr>tk_attach_count := a\<rparr>)
    \<and> counts_ok (p\<lparr>tk_attach_count := a\<rparr>) (A + mset (takeWhile (page_is_live p) qs)) R
    \<and> (if \<forall>q\<in>set qs. page_is_live p q then r = Inr () else r \<in> {Inl PageOutOfBounds, Inl PageNotLive})"
  using assms
proof (induction qs arbitrary: p A)
  case Nil
  have "p = p\<lparr>tk_attach_count := tk_attach_count p\<rparr>" by simp
  then show ?case using Nil by (intro exI [of _ "tk_attach_count p"] exI [of _ "Inr ()"]) auto
next
  case (Cons q qs)
  show ?case
  proof (cases "page_is_live p q")
    case False
    then have "attach_loop (q # qs) p = (if tk_max_total_pages p \<le> q then Inl PageOutOfBounds else Inl PageNotLive, p)"
      by (auto simp: page_is_live_def)
    then show ?thesis using False Cons.prems(1) by (intro exI [of _ "tk_attach_count p"]) auto
  next
    case True
    let ?p = "p\<lparr>tk_attach_count := (tk_attach_count p)[q := saturating_add u32_max (tk_attach_count p ! q) 1]\<rparr>"
    have live: "q \<in># A \<or> q \<in># R" using True page_is_live_iff [OF Cons.prems(1)] by (simp add: page_live_def)
    then have q: "q < tk_max_total_pages p" using counts_okD(3,4) [OF Cons.prems(1)] by metis
    have c: "tk_attach_count p ! q = count A q" using counts_okD(5) [OF Cons.prems(1) q] by auto
    have "count A q + 1 \<le> u32_max" using spec [OF Cons.prems(2), of q] by simp
    then have sat: "saturating_add u32_max (tk_attach_count p ! q) 1 = count A q + 1"
      using c by (simp add: saturating_add_exact)
    have one: "counts_ok ?p (add_mset q A) R"
      using Cons.prems(1) live q sat by (auto simp: counts_ok_def nth_list_update)
    have same: "page_is_live ?p = page_is_live p"
    proof
      fix r show "page_is_live ?p r = page_is_live p r"
        using page_is_live_iff [OF one] page_is_live_iff [OF Cons.prems(1)] live by (auto simp: page_live_def)
    qed
    have "\<forall>r. count (add_mset q A) r + count (mset qs) r \<le> u32_max"
    proof
      fix r show "count (add_mset q A) r + count (mset qs) r \<le> u32_max"
        using spec [OF Cons.prems(2), of r] by (simp split: if_splits)
    qed
    from Cons.IH [OF one this] obtain a r where IH: "attach_loop qs ?p = (r, p\<lparr>tk_attach_count := a\<rparr>)"
      "counts_ok (p\<lparr>tk_attach_count := a\<rparr>) (add_mset q A + mset (takeWhile (page_is_live p) qs)) R"
      "if \<forall>q\<in>set qs. page_is_live p q then r = Inr () else r \<in> {Inl PageOutOfBounds, Inl PageNotLive}" unfolding same by auto
    have "attach_loop (q # qs) p = attach_loop qs ?p" using True by (auto simp: page_is_live_def)
    then show ?thesis using IH True by (intro exI [of _ a] exI [of _ r]) simp
  qed
qed

lemma retain_pages_ok:
  assumes "counts_ok p A R" "\<forall>q\<in>set qs. page_live q A R" "\<forall>q. count R q + count (mset qs) q \<le> u32_max"
  shows "\<exists>a. retain_pages qs p = Some (p\<lparr>tk_ref_count := a\<rparr>)
    \<and> counts_ok (p\<lparr>tk_ref_count := a\<rparr>) A (R + mset qs)"
  using assms
proof (induction qs arbitrary: p R)
  case Nil
  have "p = p\<lparr>tk_ref_count := tk_ref_count p\<rparr>" by simp
  then show ?case using Nil by (intro exI [of _ "tk_ref_count p"]) auto
next
  case (Cons q qs)
  let ?p = "p\<lparr>tk_ref_count := (tk_ref_count p)[q := saturating_add u32_max (tk_ref_count p ! q) 1]\<rparr>"
  have live: "q \<in># A \<or> q \<in># R" using Cons.prems(2) by (simp add: page_live_def)
  then have q: "q < tk_max_total_pages p" using counts_okD(3,4) [OF Cons.prems(1)] by metis
  have c: "tk_ref_count p ! q = count R q" using counts_okD(6) [OF Cons.prems(1) q] .
  have "count R q + 1 \<le> u32_max" using spec [OF Cons.prems(3), of q] by simp
  then have sat: "saturating_add u32_max (tk_ref_count p ! q) 1 = count R q + 1"
    using c by (simp add: saturating_add_exact)
  have one: "counts_ok ?p A (add_mset q R)"
    using Cons.prems(1) live q sat by (auto simp: counts_ok_def nth_list_update)
  have "\<forall>r. count (add_mset q R) r + count (mset qs) r \<le> u32_max"
  proof
    fix r show "count (add_mset q R) r + count (mset qs) r \<le> u32_max"
      using spec [OF Cons.prems(3), of r] by (simp split: if_splits)
  qed
  moreover have "\<forall>r\<in>set qs. page_live r A (add_mset q R)" using Cons.prems(2) by (auto simp: page_live_def)
  ultimately obtain a where "retain_pages qs ?p = Some (p\<lparr>tk_ref_count := a\<rparr>)"
    "counts_ok (p\<lparr>tk_ref_count := a\<rparr>) A (add_mset q R + mset qs)" using Cons.IH [OF one] by auto
  then show ?case using q counts_okD(2) [OF Cons.prems(1)] by (intro exI [of _ a]) simp
qed


subsection \<open>The invariant of the pool\<close>

definition slot_pages :: "token_kv_pool \<Rightarrow> nat multiset" where
  "slot_pages p = mset (concat (tk_page_indices p))"

text \<open>
  \<open>R\<close> holds one element for each retain that has not been released: the pages of the prefix cache. \<open>W\<close>
  holds the pages that an operation counted before it failed, and that no table has (see \<open>kv_step\<close>).
\<close>

definition kv_ok :: "token_kv_pool \<Rightarrow> nat multiset \<Rightarrow> nat multiset \<Rightarrow> bool" where
  "kv_ok p W R \<longleftrightarrow> counts_ok p (slot_pages p + W) R \<and> 0 < tk_page_size p
     \<and> length (tk_page_indices p) = tk_num_slots p \<and> length (tk_seq_lens p) = tk_num_slots p
     \<and> length (tk_slot_epochs p) = tk_num_slots p"

lemma mset_concat_update:
  "i < length xs \<Longrightarrow> mset (concat (xs[i := ys])) = mset (concat xs) - mset (xs ! i) + mset ys"
proof -
  assume i: "i < length xs"
  have "mset (concat xs) = mset (concat (take i xs)) + mset (xs ! i) + mset (concat (drop (Suc i) xs))"
    by (subst id_take_nth_drop [OF i]) (simp add: ac_simps)
  moreover have "mset (concat (xs[i := ys])) = mset (concat (take i xs)) + mset ys + mset (concat (drop (Suc i) xs))"
    by (simp add: upd_conv_take_nth_drop [OF i] ac_simps)
  ultimately show ?thesis by simp
qed

lemma mset_nth_subset: "i < length xs \<Longrightarrow> mset (xs ! i) \<subseteq># mset (concat xs)"
  by (subst id_take_nth_drop [of i xs]) simp_all

lemma slot_pages_simps [simp]:
  "slot_pages (p\<lparr>tk_planes := pl\<rparr>) = slot_pages p"
  "slot_pages (p\<lparr>tk_free_pages := f\<rparr>) = slot_pages p"
  "slot_pages (p\<lparr>tk_seq_lens := s\<rparr>) = slot_pages p"
  "slot_pages (p\<lparr>tk_slot_epochs := e\<rparr>) = slot_pages p"
  "slot_pages (p\<lparr>tk_attach_count := a\<rparr>) = slot_pages p"
  "slot_pages (p\<lparr>tk_ref_count := r\<rparr>) = slot_pages p"
  "slot_pages (p\<lparr>tk_page_indices := t\<rparr>) = mset (concat t)"
  by (simp_all add: slot_pages_def)

lemma kv_ok_planes [simp]: "kv_ok (p\<lparr>tk_planes := pl\<rparr>) W R = kv_ok p W R"
  by (simp add: kv_ok_def)

lemma kv_okD:
  assumes "kv_ok p W R"
  shows "counts_ok p (slot_pages p + W) R" "0 < tk_page_size p"
    "length (tk_page_indices p) = tk_num_slots p" "length (tk_seq_lens p) = tk_num_slots p"
    "length (tk_slot_epochs p) = tk_num_slots p"
  using assms by (simp_all add: kv_ok_def)

lemma slot_page_attached: "kv_ok p W R \<Longrightarrow> slot < tk_num_slots p \<Longrightarrow> q \<in> set (tk_page_indices p ! slot) \<Longrightarrow> q \<in># slot_pages p"
  using mset_nth_subset [of slot "tk_page_indices p"] by (auto simp: kv_ok_def slot_pages_def)

lemma kv_alloc_tokens_ok:
  assumes "kv_ok p W R" "slot < tk_num_slots p" "0 < k"
  defines "n \<equiv> div_ceil (k - available_in_last_page slot p) (tk_page_size p)"
  shows "length (tk_free_pages p) < n \<Longrightarrow> kv_alloc_tokens slot k p = Some (Inl OutOfPages, p)"
    and "n \<le> length (tk_free_pages p) \<Longrightarrow> \<exists>new f a p'. kv_alloc_tokens slot k p = Some (Inr new, p')
      \<and> p' = p\<lparr>tk_free_pages := f, tk_attach_count := a,
          tk_page_indices := (tk_page_indices p)[slot := tk_page_indices p ! slot @ new],
          tk_seq_lens := (tk_seq_lens p)[slot := tk_seq_lens p ! slot + k]\<rparr>
      \<and> tk_free_pages p = f @ rev new \<and> length new = n \<and> kv_ok p' W R"
proof -
  note ok = kv_okD [OF assms(1)]
  show "length (tk_free_pages p) < n \<Longrightarrow> kv_alloc_tokens slot k p = Some (Inl OutOfPages, p)"
    using ok assms(2,3) by (simp add: kv_alloc_tokens_def n_def Let_def)
  assume n: "n \<le> length (tk_free_pages p)"
  from pop_attached_ok [OF ok(1) n, of "[]"] obtain new f a where
    pop: "pop_attached n [] p = Some (new, p\<lparr>tk_free_pages := f, tk_attach_count := a\<rparr>)"
    and new: "tk_free_pages p = f @ rev new" "length new = n"
    and cnt: "counts_ok (p\<lparr>tk_free_pages := f, tk_attach_count := a\<rparr>) (slot_pages p + W + mset new) R" by auto
  let ?p = "p\<lparr>tk_free_pages := f, tk_attach_count := a,
      tk_page_indices := (tk_page_indices p)[slot := tk_page_indices p ! slot @ new],
      tk_seq_lens := (tk_seq_lens p)[slot := tk_seq_lens p ! slot + k]\<rparr>"
  have "kv_alloc_tokens slot k p = Some (Inr new, ?p)"
    using ok assms(2,3) n pop by (simp add: kv_alloc_tokens_def n_def Let_def)
  moreover have "slot_pages ?p = slot_pages p + mset new"
    using mset_concat_update [of slot "tk_page_indices p"] mset_nth_subset [of slot "tk_page_indices p"] ok(3) assms(2)
    by (simp add: slot_pages_def subset_mset.add_diff_assoc2)
  then have "kv_ok ?p W R" using cnt ok by (simp add: kv_ok_def ac_simps)
  ultimately show "\<exists>new f a p'. kv_alloc_tokens slot k p = Some (Inr new, p')
      \<and> p' = p\<lparr>tk_free_pages := f, tk_attach_count := a,
          tk_page_indices := (tk_page_indices p)[slot := tk_page_indices p ! slot @ new],
          tk_seq_lens := (tk_seq_lens p)[slot := tk_seq_lens p ! slot + k]\<rparr>
      \<and> tk_free_pages p = f @ rev new \<and> length new = n \<and> kv_ok p' W R" using new by blast
qed

definition planes_only :: "token_kv_pool \<Rightarrow> token_kv_pool \<Rightarrow> bool" where
  "planes_only p p' \<longleftrightarrow> (\<exists>pl. p' = p\<lparr>tk_planes := pl\<rparr>)"

lemma planes_only_refl [simp]: "planes_only p p"
  unfolding planes_only_def by (rule exI [of _ "tk_planes p"]) simp

lemma planes_only_update [simp]: "planes_only p (p\<lparr>tk_planes := pl\<rparr>)"
  by (auto simp: planes_only_def)

lemma planes_only_trans: "planes_only p q \<Longrightarrow> planes_only q r \<Longrightarrow> planes_only p r"
  by (auto simp: planes_only_def)

lemma transfer_planes:
  "transfer_data l s d p = Some (r, p') \<Longrightarrow> planes_only p p'"
  "transfer_scales l s d p = Some (r, p') \<Longrightarrow> planes_only p p'"
  "transfer_norms l s d p = Some (r, p') \<Longrightarrow> planes_only p p'"
  by (auto simp: transfer_data_def transfer_scales_def transfer_norms_def split: bind_splits sum.splits)

lemma device_copy_planes:
  "copy_page_device_to_device l s d p = Some (r, p') \<Longrightarrow> planes_only p p'"
  by (auto simp: copy_page_device_to_device_def split: bind_splits sum.splits if_splits dest!: transfer_planes;
      meson planes_only_trans)

lemma map_sum_eq_Inr: "map_sum f g r = Inr y \<longleftrightarrow> (\<exists>x. r = Inr x \<and> y = g x)"
  by (cases r) auto

lemma map_sum_eq_Inl: "map_sum f g r = Inl y \<longleftrightarrow> (\<exists>x. r = Inl x \<and> y = f x)"
  by (cases r) auto

lemma cow_ok:
  assumes "kv_ok p W R" "slot < tk_num_slots p" "cow_tail_page_for_append launch slot p = Some (Inr b, p')"
  shows "kv_ok p' W R \<and> (case slot_shared_hot_tail_page slot p of
      None \<Rightarrow> \<not> b \<and> p' = p
    | Some q \<Rightarrow> b \<and> (\<exists>f new pl a. tk_free_pages p = f @ [new] \<and> p' = p\<lparr>tk_planes := pl, tk_free_pages := f,
        tk_attach_count := a, tk_page_indices := (tk_page_indices p)[slot := butlast (tk_page_indices p ! slot) @ [new]]\<rparr>
        \<and> copy_page_device_to_device launch q new (p\<lparr>tk_free_pages := f, tk_attach_count := (tk_attach_count p)[new := 1]\<rparr>)
            = Some (Inr (), p\<lparr>tk_planes := pl, tk_free_pages := f, tk_attach_count := (tk_attach_count p)[new := 1]\<rparr>)))"
proof (cases "slot_shared_hot_tail_page slot p")
  case None
  then show ?thesis using assms kv_okD(4) [OF assms(1)] by (auto simp: cow_tail_page_for_append_def)
next
  case (Some q)
  note ok = kv_okD [OF assms(1)]
  from Some have q: "tk_page_indices p ! slot \<noteq> []" "q = last (tk_page_indices p ! slot)" "page_is_shared_read_only q p"
    by (auto simp: slot_shared_hot_tail_page_def slot_hot_tail_page_def split: option.splits if_splits list.splits)
  from assms(3) Some ok(4) assms(2) have d: "detach_shared_hot_tail_page_for_append launch slot q p = Some (Inr (), p')" and b
    by (auto simp: cow_tail_page_for_append_def map_sum_eq_Inr)
  from d obtain f new where f: "tk_free_pages p = f @ [new]"
    by (cases "tk_free_pages p" rule: rev_cases) (auto simp: detach_shared_hot_tail_page_for_append_def)
  note one = pop_attached_one [OF ok(1) f]
  let ?p = "p\<lparr>tk_free_pages := f, tk_attach_count := (tk_attach_count p)[new := 1]\<rparr>"
  have lt: "new < length (tk_attach_count p)" using one(1) counts_okD(1) [OF ok(1)] by simp
  then have unf: "detach_shared_hot_tail_page_for_append launch slot q p = (do {
         (r, p1) \<leftarrow> copy_page_device_to_device launch q new ?p;
         case r of Inl e \<Rightarrow> Some (Inl e, p1)
         | Inr _ \<Rightarrow> (let table = tk_page_indices p1 ! slot; old = last table in
             if table = [] \<or> tk_attach_count p1 ! old = 0 then None
             else Some (Inr (), snd (recycle_page_if_unreferenced old (p1\<lparr>
                    tk_page_indices := (tk_page_indices p1)[slot := butlast table @ [new]],
                    tk_attach_count := (tk_attach_count p1)[old := tk_attach_count p1 ! old - 1]\<rparr>))))
       })" using f by (cases f) (simp_all add: detach_shared_hot_tail_page_for_append_def)
  from d unf obtain p1 where c: "copy_page_device_to_device launch q new ?p = Some (Inr (), p1)"
    by (auto split: bind_splits sum.splits)
  then obtain pl where p1: "p1 = ?p\<lparr>tk_planes := pl\<rparr>" using device_copy_planes unfolding planes_only_def by blast
  let ?t = "(tk_page_indices p)[slot := butlast (tk_page_indices p ! slot) @ [new]]"
  let ?a = "((tk_attach_count p)[new := 1])[q := (tk_attach_count p)[new := 1] ! q - 1]"
  have qA: "q \<in># slot_pages p" using slot_page_attached [OF assms(1,2)] q(1,2) by simp
  then have qm: "q < tk_max_total_pages p" "q \<noteq> new"
    using counts_okD(3,8) [OF ok(1)] f by auto
  have shared: "q \<in># slot_pages p + W - {#q#} \<or> q \<in># R"
    using q(3) counts_okD(5,6) [OF ok(1) qm(1)] by (auto simp: page_is_shared_read_only_def in_diff_count not_in_iff)
  let ?r = "p1\<lparr>tk_page_indices := (tk_page_indices p1)[slot := butlast (tk_page_indices p ! slot) @ [new]]\<rparr>"
  have cnt: "counts_ok ?r (add_mset new (slot_pages p + W)) R" unfolding p1 using one(2) by simp
  obtain b' a where dp: "detach_page q ?r = (b', ?r\<lparr>tk_attach_count := a, tk_free_pages := tk_free_pages ?r @ (if b' then [q] else [])\<rparr>)"
    "counts_ok (?r\<lparr>tk_attach_count := a, tk_free_pages := tk_free_pages ?r @ (if b' then [q] else [])\<rparr>) (add_mset new (slot_pages p + W) - {#q#}) R"
    "b' = (q \<notin># add_mset new (slot_pages p + W) - {#q#} \<and> q \<notin># R)"
    using detach_page_ok [OF cnt, of q] qA by auto
  have nb: "\<not> b'" using dp(3) shared qm(2) by (auto simp: in_diff_count split: if_splits)
  have apos: "tk_attach_count p ! q \<noteq> 0" using counts_okD(5) [OF ok(1) qm(1)] qA by (simp add: count_eq_zero_iff [symmetric])
  have res: "p' = snd (detach_page q ?r)"
    using d unfolding unf c
    using apos q(1,2) qm by (simp add: p1 detach_page_def Let_def)
  then have p': "p' = ?r\<lparr>tk_attach_count := a\<rparr>" using dp(1) nb by simp
  have "slot_pages p' = add_mset new (slot_pages p) - {#q#}"
  proof -
    have split: "tk_page_indices p ! slot = butlast (tk_page_indices p ! slot) @ [q]" using q(1,2) by simp
    then have m: "mset (tk_page_indices p ! slot) = add_mset q (mset (butlast (tk_page_indices p ! slot)))"
      by (metis mset_append mset_single_iff_right mset.simps(2) union_mset_add_mset_right add.right_neutral mset_zero_iff_right mset.simps(1))
    have sub: "mset (tk_page_indices p ! slot) \<subseteq># slot_pages p"
      using mset_nth_subset [of slot "tk_page_indices p"] ok(3) assms(2) by (simp add: slot_pages_def)
    then obtain S where S: "slot_pages p = mset (tk_page_indices p ! slot) + S" by (auto simp: mset_subset_eq_exists_conv)
    have "slot_pages p' = slot_pages p - mset (tk_page_indices p ! slot) + mset (butlast (tk_page_indices p ! slot) @ [new])"
      unfolding p' p1 using mset_concat_update [of slot "tk_page_indices p"] ok(3) assms(2) by (simp add: slot_pages_def)
    then show ?thesis using S m by simp
  qed
  moreover have "counts_ok p' (add_mset new (slot_pages p + W) - {#q#}) R" using dp(2) nb p' by simp
  ultimately have "kv_ok p' W R" using ok qA unfolding kv_ok_def p' p1 by (simp add: diff_union_swap)
  moreover have "p' = p\<lparr>tk_planes := pl, tk_free_pages := f, tk_attach_count := a, tk_page_indices := ?t\<rparr>"
    unfolding p' p1 by simp
  ultimately show ?thesis using Some \<open>b\<close> f c p1 by auto
qed



lemma bump_epoch_fields [simp]:
  "tk_page_indices (bump_epoch slot r p) = tk_page_indices p" "tk_seq_lens (bump_epoch slot r p) = tk_seq_lens p"
  "tk_free_pages (bump_epoch slot r p) = tk_free_pages p" "tk_num_slots (bump_epoch slot r p) = tk_num_slots p"
  "tk_page_size (bump_epoch slot r p) = tk_page_size p" "counts_ok (bump_epoch slot r p) A R = counts_ok p A R"
  "length (tk_slot_epochs (bump_epoch slot r p)) = length (tk_slot_epochs p)"
  by (simp_all add: bump_epoch_def)

lemma free_slot_ok:
  assumes "kv_ok p W R" "slot < tk_num_slots p"
  shows "\<exists>p'. free_slot slot p = Some p' \<and> kv_ok p' W R \<and> tk_page_indices p' = (tk_page_indices p)[slot := []]
    \<and> tk_seq_lens p' = (tk_seq_lens p)[slot := 0]"
proof -
  note ok = kv_okD [OF assms(1)]
  let ?pages = "tk_page_indices p ! slot"
  let ?p1 = "bump_epoch slot ?pages (p\<lparr>tk_page_indices := (tk_page_indices p)[slot := []]\<rparr>)"
  have cnt: "counts_ok ?p1 (slot_pages p + W) R" using ok(1) by simp
  have sub: "mset ?pages \<subseteq># slot_pages p"
    using mset_nth_subset [of slot "tk_page_indices p"] ok(3) assms(2) by (simp add: slot_pages_def)
  obtain a f where l: "truncate_loop ?pages ?p1 [] = (f, ?p1\<lparr>tk_attach_count := a, tk_free_pages := tk_free_pages ?p1 @ f\<rparr>)"
    "counts_ok (?p1\<lparr>tk_attach_count := a, tk_free_pages := tk_free_pages ?p1 @ f\<rparr>) (slot_pages p + W - mset ?pages) R"
    using truncate_loop_ok [OF cnt subset_mset.order_trans [OF sub mset_subset_eq_add_left], of "[]"] by auto
  let ?p2 = "?p1\<lparr>tk_attach_count := a, tk_free_pages := tk_free_pages ?p1 @ f\<rparr>"
  have "free_slot slot p = Some (?p2\<lparr>tk_seq_lens := (tk_seq_lens ?p2)[slot := 0]\<rparr>)"
    using ok(3) assms(2) l(1) by (simp add: free_slot_def Let_def fold_detach_eq [of _ _ "[]"])
  moreover have "slot_pages (?p2\<lparr>tk_seq_lens := (tk_seq_lens ?p2)[slot := 0]\<rparr>) = slot_pages p - mset ?pages"
    using mset_concat_update [of slot "tk_page_indices p" "[]"] ok(3) assms(2) by (simp add: slot_pages_def)
  then have "kv_ok (?p2\<lparr>tk_seq_lens := (tk_seq_lens ?p2)[slot := 0]\<rparr>) W R"
    using l(2) ok sub by (simp add: kv_ok_def subset_mset.add_diff_assoc2)
  ultimately show ?thesis by simp
qed

lemma truncate_slot_ok:
  assumes "kv_ok p W R" "slot < tk_num_slots p" "new_len < tk_seq_lens p ! slot"
  shows "\<exists>p' recycled. truncate_slot slot new_len p = Some (Inr recycled, p') \<and> kv_ok p' W R
    \<and> tk_page_indices p' = (tk_page_indices p)[slot := take (div_ceil new_len (tk_page_size p)) (tk_page_indices p ! slot)]
    \<and> tk_seq_lens p' = (tk_seq_lens p)[slot := new_len] \<and> tk_free_pages p' = tk_free_pages p @ recycled"
proof -
  note ok = kv_okD [OF assms(1)]
  let ?t = "tk_page_indices p ! slot" and ?k = "div_ceil new_len (tk_page_size p)"
  let ?p1 = "bump_epoch slot (drop ?k ?t) (p\<lparr>tk_page_indices := (tk_page_indices p)[slot := take ?k ?t]\<rparr>)"
  have cnt: "counts_ok ?p1 (slot_pages p + W) R" using ok(1) by simp
  have "mset ?t \<subseteq># slot_pages p"
    using mset_nth_subset [of slot "tk_page_indices p"] ok(3) assms(2) by (simp add: slot_pages_def)
  moreover have t: "mset ?t = mset (take ?k ?t) + mset (drop ?k ?t)" by (metis append_take_drop_id mset_append)
  ultimately have sub: "mset (drop ?k ?t) \<subseteq># slot_pages p" by (metis mset_subset_eq_add_right subset_mset.order_trans)
  obtain a f where l: "truncate_loop (drop ?k ?t) ?p1 [] = (f, ?p1\<lparr>tk_attach_count := a, tk_free_pages := tk_free_pages ?p1 @ f\<rparr>)"
    "counts_ok (?p1\<lparr>tk_attach_count := a, tk_free_pages := tk_free_pages ?p1 @ f\<rparr>) (slot_pages p + W - mset (drop ?k ?t)) R"
    using truncate_loop_ok [OF cnt subset_mset.order_trans [OF sub mset_subset_eq_add_left], of "[]"] by auto
  let ?p2 = "?p1\<lparr>tk_attach_count := a, tk_free_pages := tk_free_pages ?p1 @ f\<rparr>"
  have min: "take (min ?k (length ?t)) ?t = take ?k ?t" "drop (min ?k (length ?t)) ?t = drop ?k ?t"
    by (simp_all add: min_def)
  have "truncate_slot slot new_len p = Some (Inr f, ?p2\<lparr>tk_seq_lens := (tk_seq_lens ?p2)[slot := new_len]\<rparr>)"
    using ok(4) assms(2,3) l(1) by (simp add: truncate_slot_def Let_def min)
  moreover have "slot_pages (?p2\<lparr>tk_seq_lens := (tk_seq_lens ?p2)[slot := new_len]\<rparr>) = slot_pages p - mset ?t + mset (take ?k ?t)"
    using mset_concat_update [of slot "tk_page_indices p" "take ?k ?t"] ok(3) assms(2) by (simp add: slot_pages_def)
  then have "slot_pages (?p2\<lparr>tk_seq_lens := (tk_seq_lens ?p2)[slot := new_len]\<rparr>) = slot_pages p - mset (drop ?k ?t)"
    using \<open>mset ?t \<subseteq># slot_pages p\<close> t by (auto simp: mset_subset_eq_exists_conv)
  then have "kv_ok (?p2\<lparr>tk_seq_lens := (tk_seq_lens ?p2)[slot := new_len]\<rparr>) W R"
    using l(2) ok sub by (simp add: kv_ok_def subset_mset.add_diff_assoc2)
  ultimately show ?thesis by simp
qed

text \<open>What an \<open>attach_pages\<close> that fails half way has counted: the pages before the first one that is not live.\<close>

definition lost_by_attach :: "nat list \<Rightarrow> kv_pool_error + unit \<Rightarrow> token_kv_pool \<Rightarrow> nat multiset" where
  "lost_by_attach pages r p = (if r = Inl PageOutOfBounds \<or> r = Inl PageNotLive
     then mset (takeWhile (page_is_live p) pages) else {#})"

lemma attach_step:
  assumes "kv_ok p W R" "slot < tk_num_slots p" "attach_pages slot pages tokens p = Some (r, p')"
    and "\<forall>q. count (slot_pages p + W) q + count (mset pages) q \<le> u32_max"
  shows "kv_ok p' (W + lost_by_attach pages r p) R"
proof (cases "tk_page_indices p ! slot = [] \<and> tk_seq_lens p ! slot = 0
    \<and> tokens \<le> saturating_mul usize_max (length pages) (tk_page_size p)")
  case True
  note ok = kv_okD [OF assms(1)]
  obtain a r' where l: "attach_loop pages p = (r', p\<lparr>tk_attach_count := a\<rparr>)"
    "counts_ok (p\<lparr>tk_attach_count := a\<rparr>) (slot_pages p + W + mset (takeWhile (page_is_live p) pages)) R"
    "if \<forall>q\<in>set pages. page_is_live p q then r' = Inr () else r' \<in> {Inl PageOutOfBounds, Inl PageNotLive}"
    using attach_loop_ok [OF ok(1) assms(4)] by metis
  show ?thesis
  proof (cases "\<forall>q\<in>set pages. page_is_live p q")
    case all: True
    let ?p = "p\<lparr>tk_attach_count := a, tk_page_indices := (tk_page_indices p)[slot := pages],
        tk_seq_lens := (tk_seq_lens p)[slot := tokens]\<rparr>"
    have "r = Inr () \<and> p' = ?p" using assms(2,3) ok(3) True l(1,3) all by (simp add: attach_pages_def)
    moreover have tw: "takeWhile (page_is_live p) pages = pages" using all by (simp add: takeWhile_eq_all_conv)
    moreover have "slot_pages ?p = slot_pages p + mset pages"
      using mset_concat_update [of slot "tk_page_indices p" pages] ok(3) assms(2) True by (simp add: slot_pages_def)
    ultimately show ?thesis using l(2)[unfolded tw] ok by (simp add: kv_ok_def lost_by_attach_def ac_simps)
  next
    case False
    then have "r' \<in> {Inl PageOutOfBounds, Inl PageNotLive}" using l(3) by (simp only: if_False)
    then obtain e where e: "r' = Inl e" "e = PageOutOfBounds \<or> e = PageNotLive" by blast
    then have "r = Inl e \<and> p' = p\<lparr>tk_attach_count := a\<rparr>" using assms(2,3) ok(3) True l(1) by (simp add: attach_pages_def)
    then show ?thesis using l(2) e(2) ok by (auto simp: kv_ok_def lost_by_attach_def ac_simps)
  qed
next
  case False
  then have "p' = p \<and> (r = Inl SlotNotEmpty \<or> r = Inl TokensExceedPages)" using assms(2,3) kv_okD(3) [OF assms(1)]
    by (auto simp: attach_pages_def split: if_splits)
  then show ?thesis using assms(1) by (auto simp: lost_by_attach_def)
qed

lemma retain_ok:
  assumes "kv_ok p W R" "\<forall>q\<in>set pages. page_live q (slot_pages p + W) R" "\<forall>q. count R q + count (mset pages) q \<le> u32_max"
  shows "\<exists>p'. retain_pages pages p = Some p' \<and> kv_ok p' W (R + mset pages)"
  using retain_pages_ok [OF kv_okD(1) [OF assms(1)] assms(2,3)] kv_okD(2-) [OF assms(1)]
  by (auto simp: kv_ok_def)

lemma release_pages_ok:
  assumes "kv_ok p W R" "mset pages \<subseteq># R"
  shows "\<exists>freed p'. release_pages pages p = Some (freed, p') \<and> kv_ok p' W (R - mset pages)
    \<and> tk_free_pages p' = tk_free_pages p @ freed"
  using release_loop_ok [OF kv_okD(1) [OF assms(1)] assms(2), of "[]"] kv_okD(2-) [OF assms(1)]
  by (auto simp: kv_ok_def release_pages_def)

lemma detached_alloc_ok:
  assumes "kv_ok p W R" "k \<le> length (tk_free_pages p)"
  shows "\<exists>new p'. alloc_detached_pages k p = Some (Inr new, p') \<and> kv_ok p' W (R + mset new) \<and> length new = k
    \<and> tk_free_pages p = tk_free_pages p' @ rev new"
proof (cases "k = 0")
  case True
  then show ?thesis using assms(1) by (simp add: alloc_detached_pages_def)
next
  case False
  then show ?thesis
    using pop_detached_ok [OF kv_okD(1) [OF assms(1)] assms(2), of "[]"] kv_okD(2-) [OF assms(1)] assms(2)
    by (auto simp: kv_ok_def alloc_detached_pages_def)
qed

lemma parts_from_host_planes:
  "data_from_host page layer (p, bs) = Some (p', bs') \<Longrightarrow> planes_only p p'"
  "scales_from_host page layer (p, bs) = Some (p', bs') \<Longrightarrow> planes_only p p'"
  "norms_from_host page layer (p, bs) = Some (p', bs') \<Longrightarrow> planes_only p p'"
  unfolding data_from_host_def scales_from_host_def norms_from_host_def Let_def
  by (auto split: bind_splits)

lemma layer_from_host_planes:
  assumes "layer_from_host page layer (p, bs) = Some (p', bs')"
  shows "planes_only p p'"
  using assms unfolding layer_from_host_def
  by (auto split: bind_splits if_splits dest!: parts_from_host_planes intro: planes_only_trans)

lemma from_host_planes:
  "from_host_loop todo (p, bs) = Some (p', bs') \<Longrightarrow> planes_only p p'"
proof (induction todo "(p, bs)" arbitrary: p bs rule: from_host_loop.induct)
  case (2 page layer todo)
  then obtain q bs1 where q: "layer_from_host page layer (p, bs) = Some (q, bs1)" "from_host_loop todo (q, bs1) = Some (p', bs')"
    by (auto split: bind_splits)
  have "planes_only p q" using q(1) by (rule layer_from_host_planes)
  then show ?case using 2(1) [OF q(1) q(2)] planes_only_trans by blast
qed simp


subsection \<open>Reachable states\<close>

text \<open>
  The operations as the callers use them, for every outcome of the device copies and every way an
  operation can fail. A failed copy on write and a failed attachment leave pages counted that no table
  has; they are collected in the third component. What the pool leaves to its callers is a condition of
  the steps: the prefix cache retains pages that are in use and releases only what it has retained, and
  no page gets \<open>2 ^ 32\<close> holders.
\<close>

definition lost_by_append :: "kv_pool_error + 'r \<Rightarrow> token_kv_pool \<Rightarrow> nat multiset" where
  "lost_by_append r p = (case r of Inr _ \<Rightarrow> {#}
     | Inl e \<Rightarrow> if e = OutOfPages then {#} else {#last (tk_free_pages p)#})"

inductive kv_step :: "token_kv_pool \<times> nat multiset \<times> nat multiset \<Rightarrow> token_kv_pool \<times> nat multiset \<times> nat multiset \<Rightarrow> bool" where
  step_append: "slot < tk_num_slots p \<Longrightarrow> try_alloc_pool_tokens_once launch slot k p = Some (r, p')
    \<Longrightarrow> kv_step (p, R, W) (p', R, W + lost_by_append r p)"
| step_cow: "slot < tk_num_slots p \<Longrightarrow> cow_tail_page_for_append launch slot p = Some (r, p')
    \<Longrightarrow> kv_step (p, R, W) (p', R, W + lost_by_append r p)"
| step_alloc: "slot < tk_num_slots p \<Longrightarrow> kv_alloc_tokens slot k p = Some (r, p') \<Longrightarrow> kv_step (p, R, W) (p', R, W)"
| step_detached: "alloc_detached_pages k p = Some (r, p')
    \<Longrightarrow> kv_step (p, R, W) (p', R + (case r of Inr new \<Rightarrow> mset new | Inl _ \<Rightarrow> {#}), W)"
| step_attach: "slot < tk_num_slots p \<Longrightarrow> attach_pages slot pages tokens p = Some (r, p')
    \<Longrightarrow> \<forall>q. count (slot_pages p + W) q + count (mset pages) q \<le> u32_max
    \<Longrightarrow> kv_step (p, R, W) (p', R, W + lost_by_attach pages r p)"
| step_free: "slot < tk_num_slots p \<Longrightarrow> free_slot slot p = Some p' \<Longrightarrow> kv_step (p, R, W) (p', R, W)"
| step_truncate: "slot < tk_num_slots p \<Longrightarrow> truncate_slot slot new_len p = Some (r, p') \<Longrightarrow> kv_step (p, R, W) (p', R, W)"
| step_retain: "\<forall>q\<in>set pages. page_live q (slot_pages p + W) R \<Longrightarrow> \<forall>q. count R q + count (mset pages) q \<le> u32_max
    \<Longrightarrow> retain_pages pages p = Some p' \<Longrightarrow> kv_step (p, R, W) (p', R + mset pages, W)"
| step_release: "mset pages \<subseteq># R \<Longrightarrow> release_pages pages p = Some (freed, p') \<Longrightarrow> kv_step (p, R, W) (p', R - mset pages, W)"
| step_upload: "copy_pages_from_host pages payload p = Some (r, p') \<Longrightarrow> kv_step (p, R, W) (p', R, W)"

lemma transfer_not_out [simp]:
  "transfer_data l s d p \<noteq> Some (Inl OutOfPages, p')"
  "transfer_scales l s d p \<noteq> Some (Inl OutOfPages, p')"
  "transfer_norms l s d p \<noteq> Some (Inl OutOfPages, p')"
  by (auto simp: transfer_data_def transfer_scales_def transfer_norms_def transfer_layer_table_pair_def
      split: bind_splits sum.splits if_splits)

lemma device_copy_not_out: "copy_page_device_to_device l s d p = Some (r, p') \<Longrightarrow> r \<noteq> Inl OutOfPages"
  by (auto simp: copy_page_device_to_device_def split: bind_splits sum.splits if_splits)

text \<open>A copy on write that fails has changed nothing, or has lost the page it took from the free list.\<close>

lemma cow_failed:
  assumes "kv_ok p W R" "cow_tail_page_for_append launch slot p = Some (Inl e, p')"
  shows "kv_ok p' (W + lost_by_append (Inl e) p) R" "e = OutOfPages \<Longrightarrow> p' = p"
proof -
  note ok = kv_okD [OF assms(1)]
  from assms(2) obtain q where d: "detach_shared_hot_tail_page_for_append launch slot q p = Some (Inl e, p')"
    by (auto simp: cow_tail_page_for_append_def map_sum_eq_Inl split: if_splits option.splits)
  have "kv_ok p' (W + lost_by_append (Inl e) p) R \<and> (e = OutOfPages \<longrightarrow> p' = p)"
  proof (cases "tk_free_pages p" rule: rev_cases)
    case Nil
    then have "e = OutOfPages \<and> p' = p" using d by (simp add: detach_shared_hot_tail_page_for_append_def)
    then show ?thesis using assms(1) by (simp add: lost_by_append_def)
  next
    case (snoc f new)
    let ?p = "p\<lparr>tk_free_pages := f, tk_attach_count := (tk_attach_count p)[new := 1]\<rparr>"
    have c: "copy_page_device_to_device launch q new ?p = Some (Inl e, p')"
      using d snoc by (cases f) (auto simp: detach_shared_hot_tail_page_for_append_def Let_def split: if_splits bind_splits sum.splits)
    obtain pl where "p' = ?p\<lparr>tk_planes := pl\<rparr>" using device_copy_planes [OF c] unfolding planes_only_def by blast
    moreover have "counts_ok ?p (add_mset new (slot_pages p + W)) R" by (rule pop_attached_one(2) [OF ok(1) snoc])
    ultimately have "kv_ok p' (add_mset new W) R" using ok by (simp add: kv_ok_def)
    then show ?thesis using device_copy_not_out [OF c] snoc by (auto simp: lost_by_append_def)
  qed
  then show "kv_ok p' (W + lost_by_append (Inl e) p) R" "e = OutOfPages \<Longrightarrow> p' = p" by blast+
qed

lemma kv_alloc_step: "kv_ok p W R \<Longrightarrow> slot < tk_num_slots p \<Longrightarrow> kv_alloc_tokens slot k p = Some (r, p') \<Longrightarrow> kv_ok p' W R"
proof -
  assume a: "kv_ok p W R" "slot < tk_num_slots p" and r: "kv_alloc_tokens slot k p = Some (r, p')"
  show "kv_ok p' W R"
  proof (cases "k = 0")
    case False
    then have k: "0 < k" by simp
    show ?thesis
    proof (cases "length (tk_free_pages p) < div_ceil (k - available_in_last_page slot p) (tk_page_size p)")
      case True
      then show ?thesis using kv_alloc_tokens_ok(1) [OF a k] r a(1) by simp
    next
      case False
      then show ?thesis using kv_alloc_tokens_ok(2) [OF a k] r by (auto simp: not_less)
    qed
  qed (use r a in \<open>simp add: kv_alloc_tokens_def\<close>)
qed


lemma kv_alloc_error: "kv_alloc_tokens slot k p = Some (Inl e, p') \<Longrightarrow> e = OutOfPages"
  by (auto simp: kv_alloc_tokens_def Let_def split: if_splits bind_splits)

lemma cow_step: "kv_ok p W R \<Longrightarrow> slot < tk_num_slots p \<Longrightarrow> cow_tail_page_for_append launch slot p = Some (Inr b, p') \<Longrightarrow>
    kv_ok p' W R \<and> tk_num_slots p' = tk_num_slots p"
  using cow_ok [of p W R slot launch b p'] by (auto split: option.splits)

lemma cow_any_step:
  assumes "kv_ok p W R" "slot < tk_num_slots p" "cow_tail_page_for_append launch slot p = Some (r, p')"
  shows "kv_ok p' (W + lost_by_append r p) R"
proof (cases r)
  case (Inl e)
  then show ?thesis using cow_failed(1) [OF assms(1)] assms(3) by simp
next
  case (Inr b)
  then show ?thesis using cow_step [OF assms(1,2)] assms(3) by (simp add: lost_by_append_def)
qed

lemma append_step:
  assumes "kv_ok p W R" "slot < tk_num_slots p" "try_alloc_pool_tokens_once launch slot k p = Some (r, p')"
  shows "kv_ok p' (W + lost_by_append r p) R"
proof -
  have alloc: "kv_ok p' (W + lost_by_append r p) R"
    if "kv_ok p1 W R" "slot < tk_num_slots p1" "kv_alloc_tokens slot k p1 = Some (r, p')" for p1
    using kv_alloc_step [OF that] kv_alloc_error [of slot k p1 _ p'] that(3)
    by (cases r) (simp_all add: lost_by_append_def)
  show ?thesis
  proof (cases "0 < k")
    case True
    then obtain c p1 where c: "cow_tail_page_for_append launch slot p = Some (c, p1)"
      "(case c of Inl e \<Rightarrow> Some (Inl e, p1) | Inr _ \<Rightarrow> kv_alloc_tokens slot k p1) = Some (r, p')"
      using assms(3) by (auto simp: try_alloc_pool_tokens_once_def split: bind_splits)
    show ?thesis
    proof (cases c)
      case (Inl e)
      then have "r = Inl e" "p' = p1" using c(2) by auto
      then show ?thesis using cow_failed(1) [OF assms(1)] c(1) Inl by (simp add: lost_by_append_def)
    next
      case (Inr b)
      then show ?thesis using alloc [of p1] c cow_step [OF assms(1,2), of launch b p1] assms(2) by simp
    qed
  next
    case False
    then show ?thesis using alloc [OF assms(1,2)] assms(3) by (simp add: try_alloc_pool_tokens_once_def)
  qed
qed

lemma truncate_step:
  "kv_ok p W R \<Longrightarrow> slot < tk_num_slots p \<Longrightarrow> truncate_slot slot new_len p = Some (r, p') \<Longrightarrow> kv_ok p' W R"
proof -
  assume a: "kv_ok p W R" "slot < tk_num_slots p" and r: "truncate_slot slot new_len p = Some (r, p')"
  show "kv_ok p' W R"
  proof (cases "new_len < tk_seq_lens p ! slot")
    case True
    then show ?thesis using truncate_slot_ok [OF a True] r by auto
  next
    case False
    then have "p' = p" using r a kv_okD(4) [OF a(1)] by (auto simp: truncate_slot_def Let_def split: if_splits)
    then show ?thesis using a(1) by simp
  qed
qed

lemma upload_step: "copy_pages_from_host pages payload p = Some (r, p') \<Longrightarrow> planes_only p p'"
  by (auto simp: copy_pages_from_host_def split: if_splits dest: from_host_planes)

lemma kv_step_ok:
  "kv_step st st' \<Longrightarrow> (\<lambda>(p, R, W). kv_ok p W R) st \<Longrightarrow> (\<lambda>(p, R, W). kv_ok p W R) st'"
proof (induction rule: kv_step.induct)
  case (step_detached k p r p' R W)
  show ?case
  proof (cases r)
    case (Inl e)
    then have "p' = p" using step_detached(1) by (auto simp: alloc_detached_pages_def split: if_splits)
    then show ?thesis using step_detached(2) Inl by simp
  next
    case (Inr new)
    then have "k = 0 \<or> k \<le> length (tk_free_pages p)"
      using step_detached(1) by (auto simp: alloc_detached_pages_def split: if_splits)
    then show ?thesis using step_detached detached_alloc_ok [of p W R k] Inr by auto
  qed
next
  case (step_upload pages payload p r p' R W)
  then show ?case by (auto simp: planes_only_def dest!: upload_step)
next
  case (step_free slot p p' R W)
  then show ?case using free_slot_ok by fastforce
next
  case (step_retain pages p W R p')
  then show ?case using retain_ok by fastforce
next
  case (step_release pages R p freed p' W)
  then show ?case using release_pages_ok by fastforce
qed (auto intro: append_step cow_any_step attach_step truncate_step kv_alloc_step)

lemma count_concat: "count (mset (concat xss)) q = (\<Sum>xs\<leftarrow>xss. count_list xs q)"
  by (induction xss) (simp_all add: count_mset)

lemma with_format_ok:
  assumes "tk_max_total_pages (with_format L H D S B f) < 2 ^ 32"
  shows "kv_ok (with_format L H D S B f) {#} {#}"
  using assms by (simp add: kv_ok_def counts_ok_def with_format_def Let_def slot_pages_def default_page_size_def
      concat_replicate_trivial split: kv_format.splits)

lemma kv_reachable_ok:
  assumes "tk_max_total_pages (with_format L H D S B f) < 2 ^ 32"
    and "kv_step\<^sup>*\<^sup>* (with_format L H D S B f, {#}, {#}) (p, R, W)"
  shows "kv_ok p W R"
proof -
  have "(\<lambda>(p, R, W). kv_ok p W R) st" if "kv_step\<^sup>*\<^sup>* (with_format L H D S B f, {#}, {#}) st" for st
    using that by induction (use with_format_ok [OF assms(1)] kv_step_ok in auto)
  from this [OF assms(2)] show ?thesis by simp
qed

text \<open>
  (C3) The pages of a pool of fewer than \<open>2 ^ 32\<close> pages are accounted for over any sequence of its operations, failed ones
  included, as long as the prefix cache retains only pages in use and releases only what it retained,
  and no page has \<open>2 ^ 32\<close> holders. The counts of a page are the tables that contain it, the retains not
  yet released, and the pages \<open>W\<close> lost by failed copies on write and failed attachments (see \<open>kv_step\<close>).
  A page is on the free list (once) if and only if no table, no retain and no failure holds it, so no
  page in use is ever handed out again, and free and held pages add up to the pool.
\<close>

theorem paged_pool_ownership:
  assumes "tk_max_total_pages (with_format L H D S B f) < 2 ^ 32"
    and "kv_step\<^sup>*\<^sup>* (with_format L H D S B f, {#}, {#}) (p, R, W)"
  shows "(\<forall>q<tk_max_total_pages p. tk_attach_count p ! q = (\<Sum>table\<leftarrow>tk_page_indices p. count_list table q) + count W q
        \<and> tk_ref_count p ! q = count R q)
    \<and> distinct (tk_free_pages p)
    \<and> (\<forall>q. q \<in> set (tk_free_pages p) \<longleftrightarrow>
         q < tk_max_total_pages p \<and> (\<forall>table\<in>set (tk_page_indices p). q \<notin> set table) \<and> q \<notin># R \<and> q \<notin># W)
    \<and> length (tk_free_pages p) + card (set (concat (tk_page_indices p)) \<union> set_mset R \<union> set_mset W) = tk_max_total_pages p"
proof -
  have cnt: "counts_ok p (slot_pages p + W) R" using kv_okD(1) [OF kv_reachable_ok [OF assms]] .
  have free: "q \<in> set (tk_free_pages p) \<longleftrightarrow>
      q < tk_max_total_pages p \<and> (\<forall>table\<in>set (tk_page_indices p). q \<notin> set table) \<and> q \<notin># R \<and> q \<notin># W" for q
    using counts_okD(8) [OF cnt, of q] by (auto simp: slot_pages_def)
  have held: "set (concat (tk_page_indices p)) \<union> set_mset R \<union> set_mset W = {..<tk_max_total_pages p} - set (tk_free_pages p)"
    using counts_okD(3,4) [OF cnt] free by (auto simp: slot_pages_def)
  have "set (tk_free_pages p) \<subseteq> {..<tk_max_total_pages p}" using free by auto
  then have "card (set (concat (tk_page_indices p)) \<union> set_mset R \<union> set_mset W) = tk_max_total_pages p - length (tk_free_pages p)"
    unfolding held by (simp add: card_Diff_subset distinct_card [OF counts_okD(7) [OF cnt]])
  moreover have "length (tk_free_pages p) \<le> tk_max_total_pages p"
    using card_mono [OF _ \<open>set (tk_free_pages p) \<subseteq> {..<tk_max_total_pages p}\<close>]
    by (simp add: distinct_card [OF counts_okD(7) [OF cnt]])
  ultimately show ?thesis
    using counts_okD(5,6,7) [OF cnt] free by (simp add: slot_pages_def count_concat del: concat.simps)
qed


definition demo_kv :: token_kv_pool where
  "demo_kv = with_format 1 1 1 4 256 BF16"

definition demo_kv1 :: token_kv_pool where
  "demo_kv1 = snd (the (try_alloc_pool_tokens_once (\<lambda>_. True) 0 20 demo_kv))"

definition demo_kv2 :: token_kv_pool where
  "demo_kv2 = the (retain_pages [0, 1] demo_kv1)"

definition demo_kv3 :: token_kv_pool where
  "demo_kv3 = snd (the (try_alloc_pool_tokens_once (\<lambda>_. False) 0 1 demo_kv2))"

definition demo_kv4 :: token_kv_pool where
  "demo_kv4 = the (free_slot 0 demo_kv3)"

lemma demo_kv_run:
  "try_alloc_pool_tokens_once (\<lambda>_. True) 0 20 demo_kv = Some (Inr [0, 1], demo_kv1)"
  "retain_pages [0, 1] demo_kv1 = Some demo_kv2"
  "try_alloc_pool_tokens_once (\<lambda>_. False) 0 1 demo_kv2 = Some (Inl DeviceError, demo_kv3)" "free_slot 0 demo_kv3 = Some demo_kv4"
  "tk_num_slots demo_kv = 4" "tk_num_slots demo_kv2 = 4" "tk_num_slots demo_kv3 = 4" "tk_max_total_pages demo_kv = 4"
  "tk_page_indices demo_kv1 = [[0, 1], [], [], []]" "tk_free_pages demo_kv2 = [3, 2]" "tk_max_total_pages demo_kv4 = 4"
  "tk_page_indices demo_kv4 = [[], [], [], []]"
  by code_simp+

lemma demo_kv_reachable: "kv_step\<^sup>*\<^sup>* (demo_kv, {#}, {#}) (demo_kv4, {#0, 1#}, {#2#})"
proof -
  have "kv_step (demo_kv, {#}, {#}) (demo_kv1, {#}, {#} + lost_by_append (Inr [0, 1 :: nat]) demo_kv)"
    using demo_kv_run(1,5) by (intro step_append [where slot = 0]) auto
  moreover have "kv_step (demo_kv1, {#}, {#}) (demo_kv2, {#} + mset [0, 1], {#})"
    using demo_kv_run(2,9) by (intro step_retain) (auto simp: page_live_def slot_pages_def u32_max_def)
  moreover have "kv_step (demo_kv2, {#0, 1#}, {#}) (demo_kv3, {#0, 1#}, {#} + lost_by_append (Inl DeviceError :: kv_pool_error + nat list) demo_kv2)"
    using demo_kv_run(3,6) by (intro step_append [where slot = 0]) auto
  moreover have "kv_step (demo_kv3, {#0, 1#}, {#2#}) (demo_kv4, {#0, 1#}, {#2#})"
    using demo_kv_run(4,7) by (intro step_free [where slot = 0]) auto
  ultimately show ?thesis
    by (auto intro: rtranclp.rtrancl_into_rtrancl simp: lost_by_append_def demo_kv_run(10) add_mset_commute)
qed

theorem paged_pool_ownership_witness:
  "0 \<notin> set (tk_free_pages demo_kv4) \<and> 3 \<in> set (tk_free_pages demo_kv4) \<and> length (tk_free_pages demo_kv4) = 1
    \<and> tk_attach_count demo_kv4 ! 2 = 1"
proof -
  have "tk_max_total_pages (with_format 1 1 1 4 256 BF16) < 2 ^ 32" using demo_kv_run(8) by (simp add: demo_kv_def)
  from paged_pool_ownership [OF this demo_kv_reachable [unfolded demo_kv_def]] show ?thesis
    by (simp add: demo_kv_run(11,12))
qed

end
