(* ===== verification/Paged_Planes.thy ===== *)
theory Paged_Planes
  imports Paged_Props
begin

text \<open>
  The device buffers of the paged pool: the pages of a buffer are disjoint ranges, so a copy to one page
  is seen there and nowhere else. The copy between two pages, the bytes of a page on the host and the way
  back follow from the two lemmas on a single buffer (\<open>page_of_write\<close>, \<open>plane_slice_ok\<close>).
\<close>

subsection \<open>Pages of a buffer\<close>

definition page_of :: "nat \<Rightarrow> nat \<Rightarrow> 'a list \<Rightarrow> 'a list" where
  "page_of n q buf = take n (drop (q * n) buf)"

lemma page_end: "q < m \<Longrightarrow> q * n + n \<le> m * (n::nat)"
  by (metis Suc_leI add.commute mult_Suc mult_le_mono1)

lemma slice_page: "length buf = m * n \<Longrightarrow> q < m \<Longrightarrow> slice (q * n) (q * n + n) buf = Some (page_of n q buf)"
  using page_end [of q m n] by (simp add: slice_def page_of_def)

lemma length_page_of: "length buf = m * n \<Longrightarrow> q < m \<Longrightarrow> length (page_of n q buf) = n"
  using page_end [of q m n] by (simp add: page_of_def)

lemma nth_page_of: "length buf = m * n \<Longrightarrow> q < m \<Longrightarrow> i < n \<Longrightarrow> page_of n q buf ! i = buf ! (q * n + i)"
  using page_end [of q m n] by (simp add: page_of_def)

lemma page_of_write:
  assumes "length buf = m * n" "d < m" "length xs = n"
  shows "\<exists>buf'. write_at (d * n) xs buf = Some buf' \<and> length buf' = m * n
    \<and> (\<forall>q<m. page_of n q buf' = (if q = d then xs else page_of n q buf))"
proof -
  let ?b = "take (d * n) buf @ xs @ drop (d * n + n) buf"
  have e: "d * n + n \<le> m * n" using assms(2) by (rule page_end)
  have len: "length ?b = m * n" using assms e by simp
  have "page_of n q ?b = (if q = d then xs else page_of n q buf)" if q: "q < m" for q
  proof (rule nth_equalityI)
    show "length (page_of n q ?b) = length (if q = d then xs else page_of n q buf)"
      using length_page_of [OF len q] length_page_of [OF assms(1) q] assms(3) by simp
    fix i assume "i < length (page_of n q ?b)"
    then have i: "i < n" using length_page_of [OF len q] by simp
    have "?b ! (q * n + i) = (if q = d then xs ! i else buf ! (q * n + i))"
    proof (cases "q = d")
      case True
      then show ?thesis using i e assms by (simp add: nth_append min_def)
    next
      case False
      then consider "q < d" | "d < q" by linarith
      then show ?thesis
      proof cases
        case 1
        then have "q * n + n \<le> d * n" by (rule page_end)
        then show ?thesis using 1 i e assms(1) by (simp add: nth_append min_def)
      next
        case 2
        then have "d * n + n \<le> q * n" by (rule page_end)
        then obtain k where k: "q * n + i = d * n + n + k" by (metis le_iff_add trans_le_add1)
        have "d * n + n + k < m * n" using k i page_end [OF q, of n] by linarith
        then show ?thesis unfolding k using 2 e assms(1,3) by (simp add: nth_append min_def ac_simps)
      qed
    qed
    then show "page_of n q ?b ! i = (if q = d then xs else page_of n q buf) ! i"
      using nth_page_of [OF len q i] nth_page_of [OF assms(1) q i] by simp
  qed
  then show ?thesis using len e assms by (intro exI [of _ ?b]) (simp add: write_at_def)
qed

subsection \<open>Planes\<close>

definition plane_ok :: "nat \<Rightarrow> nat \<Rightarrow> nat \<Rightarrow> 'a list list \<Rightarrow> bool" where
  "plane_ok L m n plane \<longleftrightarrow> length plane = L \<and> (\<forall>buf\<in>set plane. length buf = m * n)"

lemma plane_slice_ok:
  "plane_ok L m n plane \<Longrightarrow> l < L \<Longrightarrow> q < m \<Longrightarrow>
    plane_slice plane l n q = Some (page_of n q (plane ! l)) \<and> length (page_of n q (plane ! l)) = n"
  using slice_page [of "plane ! l" m n q] length_page_of [of "plane ! l" m n q] by (simp add: plane_ok_def plane_slice_def)

lemma copy_page_in_ok:
  assumes "length buf = m * n" "s < m" "d < m"
  shows "\<exists>buf'. copy_page_in n s d buf = Some buf' \<and> length buf' = m * n
    \<and> (\<forall>q<m. page_of n q buf' = page_of n (if q = d then s else q) buf)"
  using page_of_write [OF assms(1,3) length_page_of [OF assms(1,2)]] slice_page [OF assms(1,2)]
  by (auto simp: copy_page_in_def)

lemma those_map_Some: "(\<And>x. x \<in> set xs \<Longrightarrow> f x = Some (g x)) \<Longrightarrow> those (map f xs) = Some (map g xs)"
  by (induction xs) auto

lemma copy_layers_ok:
  assumes "plane_ok L m n plane" "s < m" "d < m"
  shows "\<exists>plane'. those (map (copy_page_in n s d) plane) = Some plane' \<and> plane_ok L m n plane'
    \<and> (\<forall>l<L. \<forall>q<m. plane_slice plane' l n q = plane_slice plane l n (if q = d then s else q))"
proof -
  let ?g = "\<lambda>buf. the (copy_page_in n s d buf)"
  have g: "copy_page_in n s d buf = Some (?g buf) \<and> length (?g buf) = m * n
      \<and> (\<forall>q<m. page_of n q (?g buf) = page_of n (if q = d then s else q) buf)" if "buf \<in> set plane" for buf
    using copy_page_in_ok [of buf m n s d] assms that by (auto simp: plane_ok_def)
  then have "those (map (copy_page_in n s d) plane) = Some (map ?g plane)" by (intro those_map_Some) blast
  moreover have ok: "plane_ok L m n (map ?g plane)" using assms(1) g by (simp add: plane_ok_def)
  moreover have "plane_slice (map ?g plane) l n q = plane_slice plane l n (if q = d then s else q)" if "l < L" "q < m" for l q
  proof -
    have "l < length plane" using that assms(1) by (simp add: plane_ok_def)
    then have "page_of n q (map ?g plane ! l) = page_of n (if q = d then s else q) (plane ! l)" using g that(2) by simp
    then show ?thesis using plane_slice_ok [OF ok that] plane_slice_ok [OF assms(1) that(1)] assms(2) that(2) by simp
  qed
  ultimately show ?thesis by blast
qed

lemma transfer_pair_ok:
  assumes "plane_ok L m n ks" "plane_ok L m n vs" "s < m" "d < m"
  shows "\<exists>ks' vs'. transfer_layer_table_pair True L n s d ks vs = Some (Inr (ks', vs')) \<and> plane_ok L m n ks' \<and> plane_ok L m n vs'
    \<and> (\<forall>l<L. \<forall>q<m. plane_slice ks' l n q = plane_slice ks l n (if q = d then s else q)
        \<and> plane_slice vs' l n q = plane_slice vs l n (if q = d then s else q))"
proof (cases "n = 0")
  case True
  have z: "plane_slice plane l 0 q = plane_slice plane l 0 (if q = d then s else q)" for plane :: "'a list list" and l q
    by (simp add: plane_slice_def slice_def)
  show ?thesis using assms True z by (intro exI [of _ ks] exI [of _ vs]) (simp add: transfer_layer_table_pair_def)
next
  case False
  then show ?thesis using copy_layers_ok [OF assms(1,3,4)] copy_layers_ok [OF assms(2,3,4)] assms(1,2)
    by (auto simp: transfer_layer_table_pair_def plane_ok_def)
qed

definition planes_ok :: "token_kv_pool \<Rightarrow> bool" where
  "planes_ok p \<longleftrightarrow> (let L = tk_num_layers p; m = tk_max_total_pages p; pl = tk_planes p in
     plane_ok L m (token_bytes p) (pl_k_data pl) \<and> plane_ok L m (token_bytes p) (pl_v_data pl)
     \<and> (has_scales (tk_format p) \<longrightarrow> plane_ok L m (scale_len p) (pl_k_scales pl) \<and> plane_ok L m (scale_len p) (pl_v_scales pl))
     \<and> (has_norms (tk_format p) \<longrightarrow> plane_ok L m (scale_len p) (pl_k_norms pl) \<and> plane_ok L m (scale_len p) (pl_v_norms pl)))"

text \<open>Two pools of the same shape.\<close>

definition same_pool_shape :: "token_kv_pool \<Rightarrow> token_kv_pool \<Rightarrow> bool" where
  "same_pool_shape p q \<longleftrightarrow> tk_format q = tk_format p \<and> tk_num_layers q = tk_num_layers p \<and> tk_num_kv_heads q = tk_num_kv_heads p
     \<and> tk_page_size q = tk_page_size p \<and> tk_kv_dim q = tk_kv_dim p"

lemma same_pool_shape_bytes: "same_pool_shape p q \<Longrightarrow> token_bytes q = token_bytes p \<and> scale_len q = scale_len p
    \<and> storage_bytes_per_page q = storage_bytes_per_page p"
  by (simp add: same_pool_shape_def token_bytes_def scale_len_def storage_bytes_per_page_def)

lemma device_copy_ok:
  assumes "planes_ok p" "s < tk_max_total_pages p" "d < tk_max_total_pages p" "tk_max_total_pages p \<le> 2 ^ 31"
  shows "\<exists>p'. copy_page_device_to_device (\<lambda>_. True) s d p = Some (Inr (), p') \<and> planes_only p p' \<and> planes_ok p'
    \<and> (\<forall>q<tk_max_total_pages p. \<forall>l<tk_num_layers p.
         layer_to_host p' q l = layer_to_host p (if q = d then s else q) l)"
proof -
  let ?L = "tk_num_layers p" and ?m = "tk_max_total_pages p" and ?pl = "tk_planes p"
  have data: "plane_ok ?L ?m (token_bytes p) (pl_k_data ?pl)" "plane_ok ?L ?m (token_bytes p) (pl_v_data ?pl)"
    using assms(1) by (simp_all add: planes_ok_def Let_def)
  obtain k v where d: "transfer_layer_table_pair True ?L (token_bytes p) s d (pl_k_data ?pl) (pl_v_data ?pl) = Some (Inr (k, v))"
    "plane_ok ?L ?m (token_bytes p) k" "plane_ok ?L ?m (token_bytes p) v"
    "\<And>l q. l < ?L \<Longrightarrow> q < ?m \<Longrightarrow> plane_slice k l (token_bytes p) q = plane_slice (pl_k_data ?pl) l (token_bytes p) (if q = d then s else q)"
    "\<And>l q. l < ?L \<Longrightarrow> q < ?m \<Longrightarrow> plane_slice v l (token_bytes p) q = plane_slice (pl_v_data ?pl) l (token_bytes p) (if q = d then s else q)"
    using transfer_pair_ok [OF data assms(2,3)] by blast
  have bound: "s < 2 ^ 31" "d < 2 ^ 31" using assms(2-4) by simp_all
  show ?thesis
  proof (cases "has_scales (tk_format p)")
    case True
    then have nn: "\<not> has_norms (tk_format p)" by (auto simp: has_scales_def has_norms_def)
    have sc: "plane_ok ?L ?m (scale_len p) (pl_k_scales ?pl)" "plane_ok ?L ?m (scale_len p) (pl_v_scales ?pl)"
      using assms(1) True by (simp_all add: planes_ok_def Let_def)
    obtain ks vs where c: "transfer_layer_table_pair True ?L (scale_len p) s d (pl_k_scales ?pl) (pl_v_scales ?pl) = Some (Inr (ks, vs))"
      "plane_ok ?L ?m (scale_len p) ks" "plane_ok ?L ?m (scale_len p) vs"
      "\<And>l q. l < ?L \<Longrightarrow> q < ?m \<Longrightarrow> plane_slice ks l (scale_len p) q = plane_slice (pl_k_scales ?pl) l (scale_len p) (if q = d then s else q)"
      "\<And>l q. l < ?L \<Longrightarrow> q < ?m \<Longrightarrow> plane_slice vs l (scale_len p) q = plane_slice (pl_v_scales ?pl) l (scale_len p) (if q = d then s else q)"
      using transfer_pair_ok [OF sc assms(2,3)] by blast
    let ?p = "p\<lparr>tk_planes := ?pl\<lparr>pl_k_data := k, pl_v_data := v, pl_k_scales := ks, pl_v_scales := vs\<rparr>\<rparr>"
    have eqs: "token_bytes (p\<lparr>tk_planes := x\<rparr>) = token_bytes p" "scale_len (p\<lparr>tk_planes := x\<rparr>) = scale_len p" for x
      by (simp_all add: token_bytes_def scale_len_def)
    have "copy_page_device_to_device (\<lambda>_. True) s d p = Some (Inr (), ?p)"
      using assms(2,3) bound d(1) c(1) True nn
      by (simp add: copy_page_device_to_device_def transfer_data_def transfer_scales_def eqs)
    moreover have "planes_ok ?p" using d(2,3) c(2,3) nn by (simp add: planes_ok_def Let_def eqs)
    moreover have "layer_to_host ?p q l = layer_to_host p (if q = d then s else q) l" if "q < ?m" "l < ?L" for q l
      using d(4,5) c(4,5) that True nn by (simp add: layer_to_host_def eqs)
    ultimately show ?thesis by auto
  next
    case False
    show ?thesis
    proof (cases "has_norms (tk_format p)")
      case True
      have sc: "plane_ok ?L ?m (scale_len p) (pl_k_norms ?pl)" "plane_ok ?L ?m (scale_len p) (pl_v_norms ?pl)"
        using assms(1) True by (simp_all add: planes_ok_def Let_def)
      obtain ks vs where c: "transfer_layer_table_pair True ?L (scale_len p) s d (pl_k_norms ?pl) (pl_v_norms ?pl) = Some (Inr (ks, vs))"
        "plane_ok ?L ?m (scale_len p) ks" "plane_ok ?L ?m (scale_len p) vs"
        "\<And>l q. l < ?L \<Longrightarrow> q < ?m \<Longrightarrow> plane_slice ks l (scale_len p) q = plane_slice (pl_k_norms ?pl) l (scale_len p) (if q = d then s else q)"
        "\<And>l q. l < ?L \<Longrightarrow> q < ?m \<Longrightarrow> plane_slice vs l (scale_len p) q = plane_slice (pl_v_norms ?pl) l (scale_len p) (if q = d then s else q)"
        using transfer_pair_ok [OF sc assms(2,3)] by blast
      let ?p = "p\<lparr>tk_planes := ?pl\<lparr>pl_k_data := k, pl_v_data := v, pl_k_norms := ks, pl_v_norms := vs\<rparr>\<rparr>"
      have eqs: "token_bytes (p\<lparr>tk_planes := x\<rparr>) = token_bytes p" "scale_len (p\<lparr>tk_planes := x\<rparr>) = scale_len p" for x
        by (simp_all add: token_bytes_def scale_len_def)
      have "copy_page_device_to_device (\<lambda>_. True) s d p = Some (Inr (), ?p)"
        using assms(2,3) bound d(1) c(1) True False
        by (simp add: copy_page_device_to_device_def transfer_data_def transfer_norms_def eqs)
      moreover have "planes_ok ?p" using d(2,3) c(2,3) False by (simp add: planes_ok_def Let_def eqs)
      moreover have "layer_to_host ?p q l = layer_to_host p (if q = d then s else q) l" if "q < ?m" "l < ?L" for q l
        using d(4,5) c(4,5) that True False by (simp add: layer_to_host_def eqs)
      ultimately show ?thesis by auto
    next
      case no: False
      let ?p = "p\<lparr>tk_planes := ?pl\<lparr>pl_k_data := k, pl_v_data := v\<rparr>\<rparr>"
      have eqs: "token_bytes (p\<lparr>tk_planes := x\<rparr>) = token_bytes p" "scale_len (p\<lparr>tk_planes := x\<rparr>) = scale_len p" for x
        by (simp_all add: token_bytes_def scale_len_def)
      have "copy_page_device_to_device (\<lambda>_. True) s d p = Some (Inr (), ?p)"
        using assms(2,3) bound d(1) no False by (simp add: copy_page_device_to_device_def transfer_data_def eqs)
      moreover have "planes_ok ?p" using d(2,3) no False by (simp add: planes_ok_def Let_def eqs)
      moreover have "layer_to_host ?p q l = layer_to_host p (if q = d then s else q) l" if "q < ?m" "l < ?L" for q l
        using d(4,5) that no False by (simp add: layer_to_host_def eqs)
      ultimately show ?thesis by auto
    qed
  qed
qed

subsection \<open>The shape of the buffers never changes\<close>

lemma write_at_length: "write_at start xs buf = Some buf' \<Longrightarrow> length buf' = length buf"
  by (auto simp: write_at_def split: if_splits)

lemma those_map_SomeD:
  "those (map f xs) = Some ys \<Longrightarrow> length ys = length xs \<and> (\<forall>i<length xs. f (xs ! i) = Some (ys ! i))"
proof (induction xs arbitrary: ys)
  case (Cons x xs)
  then obtain y zs where "f x = Some y" "those (map f xs) = Some zs" "ys = y # zs"
    by (auto split: option.splits)
  then show ?case using Cons.IH [of zs] by (auto simp: nth_Cons split: nat.splits)
qed simp

lemma plane_ok_lengths: "plane_ok L m n plane \<longleftrightarrow> map length plane = replicate L (m * n)"
  by (auto simp: plane_ok_def map_replicate_const list_eq_iff_nth_eq all_set_conv_all_nth)

lemma copy_layers_shape: "those (map (copy_page_in n s d) plane) = Some plane' \<Longrightarrow> map length plane' = map length plane"
proof -
  assume a: "those (map (copy_page_in n s d) plane) = Some plane'"
  have "length (plane' ! i) = length (plane ! i)" if "i < length plane" for i
    using those_map_SomeD [OF a] that by (auto simp: copy_page_in_def split: bind_splits dest: write_at_length)
  then show ?thesis using those_map_SomeD [OF a] by (auto intro: nth_equalityI)
qed

lemma transfer_pair_shape:
  "transfer_layer_table_pair launch N n s d ks vs = Some (Inr (ks', vs')) \<Longrightarrow>
    map length ks' = map length ks \<and> map length vs' = map length vs"
  by (auto simp: transfer_layer_table_pair_def split: if_splits bind_splits dest!: copy_layers_shape)

lemma bytes_planes [simp]:
  "token_bytes (p\<lparr>tk_planes := x\<rparr>) = token_bytes p" "scale_len (p\<lparr>tk_planes := x\<rparr>) = scale_len p"
  by (simp_all add: token_bytes_def scale_len_def)

lemma transfer_shape:
  "transfer_data l s d p = Some (r, p') \<Longrightarrow> planes_ok p' = planes_ok p"
  "transfer_scales l s d p = Some (r, p') \<Longrightarrow> planes_ok p' = planes_ok p"
  "transfer_norms l s d p = Some (r, p') \<Longrightarrow> planes_ok p' = planes_ok p"
  unfolding transfer_data_def transfer_scales_def transfer_norms_def
  by (auto simp: planes_ok_def plane_ok_lengths Let_def split: bind_splits sum.splits dest!: transfer_pair_shape)

lemma device_copy_shape: "copy_page_device_to_device l s d p = Some (r, p') \<Longrightarrow> planes_ok p' = planes_ok p"
  by (auto simp: copy_page_device_to_device_def split: bind_splits sum.splits if_splits dest!: transfer_shape)

lemma plane_from_host_shape:
  assumes "plane_from_host nb dec l n q (plane, bs) = Some (plane', bs')"
  shows "map length plane' = map length plane"
proof -
  from assms obtain buf' where b: "l < length plane" "write_at (q * n) (dec (take nb bs)) (plane ! l) = Some buf'" "plane' = plane[l := buf']"
    by (auto simp: plane_from_host_def slice_def split: bind_splits if_splits)
  then show ?thesis using write_at_length [OF b(2)] by (simp add: map_update list_update_same_conv)
qed

lemma parts_from_host_shape:
  "data_from_host q l (p, bs) = Some (p', bs') \<Longrightarrow> planes_ok p' = planes_ok p"
  "scales_from_host q l (p, bs) = Some (p', bs') \<Longrightarrow> planes_ok p' = planes_ok p"
  "norms_from_host q l (p, bs) = Some (p', bs') \<Longrightarrow> planes_ok p' = planes_ok p"
  unfolding data_from_host_def scales_from_host_def norms_from_host_def Let_def
  by (auto simp: planes_ok_def plane_ok_lengths Let_def split: bind_splits dest!: plane_from_host_shape)

lemma layer_from_host_shape:
  assumes "layer_from_host q l (p, bs) = Some (p', bs')"
  shows "planes_ok p' = planes_ok p"
  using assms unfolding layer_from_host_def
  by (auto split: bind_splits if_splits dest!: parts_from_host_shape)

lemma from_host_loop_shape: "from_host_loop todo (p, bs) = Some (p', bs') \<Longrightarrow> planes_ok p' = planes_ok p"
proof (induction todo "(p, bs)" arbitrary: p bs rule: from_host_loop.induct)
  case (2 q l todo)
  then obtain p1 bs1 where "layer_from_host q l (p, bs) = Some (p1, bs1)" "from_host_loop todo (p1, bs1) = Some (p', bs')"
    by (auto split: bind_splits)
  then show ?case using 2 layer_from_host_shape by blast
qed simp

text \<open>What no operation changes (\<open>shape_of\<close>), and what only the copies change (\<open>frame_of\<close>).\<close>

definition shape_of :: "token_kv_pool \<Rightarrow> kv_format \<times> nat \<times> nat \<times> nat \<times> nat \<times> nat \<times> nat" where
  "shape_of p = (tk_format p, tk_num_layers p, tk_num_kv_heads p, tk_max_total_pages p, tk_page_size p, tk_num_slots p, tk_kv_dim p)"

definition frame_of :: "token_kv_pool \<Rightarrow> kv_planes \<times> kv_format \<times> nat \<times> nat \<times> nat \<times> nat \<times> nat \<times> nat" where
  "frame_of p = (tk_planes p, shape_of p)"

lemma shape_ofD:
  assumes "shape_of p' = shape_of p"
  shows "tk_format p' = tk_format p" "tk_num_layers p' = tk_num_layers p" "tk_max_total_pages p' = tk_max_total_pages p"
    "tk_page_size p' = tk_page_size p" "tk_num_slots p' = tk_num_slots p" "token_bytes p' = token_bytes p" "scale_len p' = scale_len p"
    "storage_bytes_per_page p' = storage_bytes_per_page p"
  using assms by (simp_all add: shape_of_def token_bytes_def scale_len_def storage_bytes_per_page_def)

lemma frame_ofD:
  assumes "frame_of p' = frame_of p"
  shows "tk_planes p' = tk_planes p" "shape_of p' = shape_of p" "planes_ok p' = planes_ok p"
    "layer_to_host p' q l = layer_to_host p q l"
proof -
  show f: "tk_planes p' = tk_planes p" "shape_of p' = shape_of p" using assms by (simp_all add: frame_of_def)
  show "planes_ok p' = planes_ok p" "layer_to_host p' q l = layer_to_host p q l"
    using f(1) shape_ofD [OF f(2)] by (simp_all add: planes_ok_def layer_to_host_def Let_def)
qed

lemma planes_only_shape: "planes_only p p' \<Longrightarrow> shape_of p' = shape_of p"
  by (auto simp: planes_only_def shape_of_def)

lemma recycle_frame [simp]: "frame_of (snd (recycle_page_if_unreferenced q p)) = frame_of p"
  by (simp add: recycle_page_if_unreferenced_def frame_of_def shape_of_def)

lemma detach_frame [simp]: "frame_of (snd (detach_page q p)) = frame_of p"
  by (simp add: detach_page_def) (simp add: frame_of_def shape_of_def)

lemma release_frame [simp]: "frame_of (snd (release_page q p)) = frame_of p"
  by (simp add: release_page_def Let_def) (simp add: frame_of_def shape_of_def)

lemma bump_frame [simp]: "frame_of (bump_epoch slot r p) = frame_of p"
  by (simp add: bump_epoch_def frame_of_def shape_of_def)

lemma frame_updates [simp]:
  "frame_of (p\<lparr>tk_page_indices := t\<rparr>) = frame_of p" "frame_of (p\<lparr>tk_seq_lens := s\<rparr>) = frame_of p"
  "frame_of (p\<lparr>tk_free_pages := f\<rparr>) = frame_of p" "frame_of (p\<lparr>tk_attach_count := a\<rparr>) = frame_of p"
  "frame_of (p\<lparr>tk_ref_count := r\<rparr>) = frame_of p"
  by (simp_all add: frame_of_def shape_of_def)

lemma truncate_loop_frame [simp]: "frame_of (snd (truncate_loop qs p acc)) = frame_of p"
proof (induction qs p acc rule: truncate_loop.induct)
  case (2 q qs p acc)
  show ?case using 2 [of "fst (detach_page q p)" "snd (detach_page q p)"] by (simp add: split_beta)
qed simp

lemma pop_frame:
  "pop_attached n acc p = Some (acc', p') \<Longrightarrow> frame_of p' = frame_of p"
  "pop_detached n acc p = Some (acc', p') \<Longrightarrow> frame_of p' = frame_of p"
  by (induction n arbitrary: acc p) (fastforce simp: Let_def split: list.splits if_splits)+

lemma release_loop_frame: "release_loop qs p acc = Some (f, p') \<Longrightarrow> frame_of p' = frame_of p"
proof (induction qs p acc rule: release_loop.induct)
  case (2 q qs p acc)
  then show ?case using 2(1) [of "fst (release_page q p)" "snd (release_page q p)"]
    by (simp add: split_beta split: if_splits)
qed simp

lemma attach_loop_frame: "attach_loop qs p = (r, p') \<Longrightarrow> frame_of p' = frame_of p"
  by (induction qs p rule: attach_loop.induct) (auto split: if_splits)

lemma retain_frame: "retain_pages qs p = Some p' \<Longrightarrow> frame_of p' = frame_of p"
  by (induction qs p rule: retain_pages.induct) (auto split: if_splits)

lemma operation_frames:
  "kv_alloc_tokens slot k p = Some (r, p') \<Longrightarrow> frame_of p' = frame_of p"
  "alloc_detached_pages k p = Some (r', p') \<Longrightarrow> frame_of p' = frame_of p"
  "attach_pages slot pages tokens p = Some (r'', p') \<Longrightarrow> frame_of p' = frame_of p"
  "free_slot slot p = Some p' \<Longrightarrow> frame_of p' = frame_of p"
  "truncate_slot slot new_len p = Some (r', p') \<Longrightarrow> frame_of p' = frame_of p"
  "release_pages pages p = Some (freed, p') \<Longrightarrow> frame_of p' = frame_of p"
  by (auto simp: kv_alloc_tokens_def alloc_detached_pages_def attach_pages_def free_slot_def truncate_slot_def release_pages_def
      Let_def fold_detach_eq [of _ _ "[]"] split_beta attach_loop_frame [OF surjective_pairing]
      split: if_splits bind_splits prod.splits sum.splits dest: pop_frame release_loop_frame)

end
