(* ===== verification/Paged_Append.thy ===== *)
theory Paged_Append
  imports Paged_Planes
begin

text \<open>
  What an append to a slot does: it copies a shared tail page first, so that the new tokens lie in
  pages nobody else holds, and moves no token; and how many pages it takes.
\<close>

subsection \<open>Shape and buffers over reachable states\<close>

lemma cow_shape:
  assumes "cow_tail_page_for_append launch slot p = Some (r, p')"
  shows "shape_of p' = shape_of p \<and> planes_ok p' = planes_ok p"
proof (cases "slot_shared_hot_tail_page slot p")
  case None
  then show ?thesis using assms by (auto simp: cow_tail_page_for_append_def split: if_splits)
next
  case (Some q)
  then obtain r' where d: "detach_shared_hot_tail_page_for_append launch slot q p = Some (r', p')"
    using assms by (auto simp: cow_tail_page_for_append_def split: if_splits)
  show ?thesis
  proof (cases "tk_free_pages p")
    case Nil
    then show ?thesis using d by (auto simp: detach_shared_hot_tail_page_for_append_def)
  next
    case (Cons x xs)
    let ?new = "last (x # xs)"
    let ?p = "p\<lparr>tk_free_pages := butlast (x # xs), tk_attach_count := (tk_attach_count p)[?new := 1]\<rparr>"
    have f: "frame_of ?p = frame_of p" by simp
    from d Cons obtain c p1 where c: "copy_page_device_to_device launch q ?new ?p = Some (c, p1)"
      "p' = p1 \<or> (\<exists>a t. p' = snd (recycle_page_if_unreferenced (last (tk_page_indices p1 ! slot)) (p1\<lparr>tk_page_indices := t, tk_attach_count := a\<rparr>)))"
      by (auto simp: detach_shared_hot_tail_page_for_append_def Let_def split: if_splits bind_splits sum.splits) blast+
    have "shape_of p1 = shape_of p" "planes_ok p1 = planes_ok p"
      using planes_only_shape [OF device_copy_planes [OF c(1)]] device_copy_shape [OF c(1)] frame_ofD(2,3) [OF f] by simp_all
    moreover have "frame_of p' = frame_of p1" using c(2) by auto
    ultimately show ?thesis using frame_ofD(2,3) by metis
  qed
qed

lemma frame_preserves: "frame_of p' = frame_of p \<Longrightarrow> shape_of p' = shape_of p \<and> planes_ok p' = planes_ok p"
  using frame_ofD(2,3) by blast

lemma kv_step_shape:
  "kv_step st st' \<Longrightarrow> shape_of (fst st') = shape_of (fst st) \<and> planes_ok (fst st') = planes_ok (fst st)"
proof (induction rule: kv_step.induct)
  case (step_append slot p launch k r p' R W)
  show ?case
  proof (cases "0 < k")
    case True
    then obtain c p1 where c: "cow_tail_page_for_append launch slot p = Some (c, p1)"
      "(case c of Inl e \<Rightarrow> Some (Inl e, p1) | Inr _ \<Rightarrow> kv_alloc_tokens slot k p1) = Some (r, p')"
      using step_append(2) by (auto simp: try_alloc_pool_tokens_once_def split: bind_splits)
    have "frame_of p' = frame_of p1" using c(2) by (auto split: sum.splits dest: operation_frames)
    then show ?thesis using cow_shape [OF c(1)] frame_ofD(2,3) [of p' p1] by simp
  next
    case False
    then have "frame_of p' = frame_of p" using step_append(2) by (auto simp: try_alloc_pool_tokens_once_def dest: operation_frames)
    then show ?thesis using frame_ofD(2,3) [of p' p] by simp
  qed
next
  case (step_cow slot p launch b p' R W)
  then show ?case using cow_shape by simp
next
  case (step_upload pages payload p r p' R W)
  have "planes_ok p' = planes_ok p" using step_upload
    by (auto simp: copy_pages_from_host_def split: if_splits dest: from_host_loop_shape)
  then show ?case using planes_only_shape [OF upload_step [OF step_upload]] by simp
qed (simp only: fst_conv, rule frame_preserves, blast intro: operation_frames retain_frame)+

lemma with_format_planes:
  assumes "f \<noteq> INT4" "0 < H * D * bytes_per_element f" "0 < tk_max_total_pages (with_format L H D S B f)"
  shows "planes_ok (with_format L H D S B f)"
proof -
  have "0 < default_page_size f" by (simp add: default_page_size_def split: kv_format.split)
  then have "0 < max (div_ceil (max_total_tokens (compute_budget_breakdown L H D S B f)) (default_page_size f)) S
      * default_page_size f * (H * D) * bytes_per_element f"
    using assms by (auto simp: with_format_def Let_def)
  then show ?thesis using assms(1)
    by (auto simp: planes_ok_def plane_ok_def with_format_def Let_def token_bytes_def scale_len_def ac_simps)
qed

text \<open>
  A pool that was created with room for its data and at most \<open>2 ^ 31\<close> pages, in any format, and used through
  the operations; \<open>R\<close> is what the prefix cache retains.
\<close>

definition pool_reached :: "token_kv_pool \<Rightarrow> nat multiset \<Rightarrow> bool" where
  "pool_reached p R \<longleftrightarrow> (\<exists>L H D S B f W. 0 < H * D * bytes_per_element f
     \<and> 0 < tk_max_total_pages (with_format L H D S B f) \<and> tk_max_total_pages (with_format L H D S B f) \<le> 2 ^ 31
     \<and> kv_step\<^sup>*\<^sup>* (with_format L H D S B f, {#}, {#}) (p, R, W))"

lemma reached_shape:
  assumes "kv_step\<^sup>*\<^sup>* (p0, R0, W0) (p, R, W)"
  shows "shape_of p = shape_of p0" "planes_ok p = planes_ok p0"
proof -
  have "shape_of (fst st) = shape_of p0 \<and> planes_ok (fst st) = planes_ok p0"
    if "kv_step\<^sup>*\<^sup>* (p0, R0, W0) st" for st
    using that by induction (auto dest!: kv_step_shape)
  from this [OF assms] show "shape_of p = shape_of p0" "planes_ok p = planes_ok p0" by simp_all
qed

lemma pool_reachedD:
  assumes "pool_reached p R"
  shows "\<exists>W. kv_ok p W R" "tk_format p \<noteq> INT4 \<Longrightarrow> planes_ok p" "tk_max_total_pages p \<le> 2 ^ 31"
proof -
  from assms obtain L H D S B f W where f: "0 < H * D * bytes_per_element f"
    "0 < tk_max_total_pages (with_format L H D S B f)" "tk_max_total_pages (with_format L H D S B f) \<le> 2 ^ 31"
    and run: "kv_step\<^sup>*\<^sup>* (with_format L H D S B f, {#}, {#}) (p, R, W)" unfolding pool_reached_def by blast
  show "\<exists>W. kv_ok p W R" using kv_reachable_ok [OF _ run] f(3) by auto
  note sh = reached_shape [OF run]
  have "tk_format p = f" using shape_ofD(1) [OF sh(1)] by (simp add: with_format_def Let_def)
  then show "tk_format p \<noteq> INT4 \<Longrightarrow> planes_ok p" using with_format_planes [of f] f(1,2) sh(2) by simp
  show "tk_max_total_pages p \<le> 2 ^ 31" using shape_ofD(3) [OF sh(1)] f(3) by simp
qed

subsection \<open>The outcome of the device copies\<close>

text \<open>A launch that fails is the only thing that the argument \<open>launch\<close> changes.\<close>

lemma transfer_any_launch:
  "transfer_data l s d p = transfer_data True s d p \<or> transfer_data l s d p = Some (Inl DeviceError, p) \<and> \<not> l"
  "transfer_scales l s d p = transfer_scales True s d p \<or> transfer_scales l s d p = Some (Inl DeviceError, p) \<and> \<not> l"
  "transfer_norms l s d p = transfer_norms True s d p \<or> transfer_norms l s d p = Some (Inl DeviceError, p) \<and> \<not> l"
  by (cases l; simp add: transfer_data_def transfer_scales_def transfer_norms_def transfer_layer_table_pair_def)+

lemma bind_launch:
  assumes "m = m' \<or> (\<exists>p'. m = Some (Inl e, p'))" "\<And>p. k p = k' p \<or> (\<exists>p'. k p = Some (Inl e, p'))"
  shows "m \<bind> (\<lambda>(r, p). case r of Inl e \<Rightarrow> Some (Inl e, p) | Inr _ \<Rightarrow> k p)
      = m' \<bind> (\<lambda>(r, p). case r of Inl e \<Rightarrow> Some (Inl e, p) | Inr _ \<Rightarrow> k' p)
    \<or> (\<exists>p'. m \<bind> (\<lambda>(r, p). case r of Inl e \<Rightarrow> Some (Inl e, p) | Inr _ \<Rightarrow> k p) = Some (Inl e, p'))"
  using assms(1)
proof
  assume m: "m = m'"
  show ?thesis
  proof (cases m')
    case (Some x)
    then show ?thesis using m assms(2) [of "snd x"] by (cases x; cases "fst x") auto
  qed (simp add: m)
qed auto

lemma device_copy_launch:
  "copy_page_device_to_device launch s d p = copy_page_device_to_device (\<lambda>_. True) s d p
    \<or> (\<exists>p'. copy_page_device_to_device launch s d p = Some (Inl DeviceError, p') \<and> (\<exists>i<3. \<not> launch i))"
proof (cases "\<forall>i<3. launch i")
  case True
  then have "launch 0 = True" "launch 1 = True" "launch 2 = True" by simp_all
  then show ?thesis unfolding copy_page_device_to_device_def by (simp only: simp_thms)
next
  case False
  have "copy_page_device_to_device launch s d p = copy_page_device_to_device (\<lambda>_. True) s d p
    \<or> (\<exists>p'. copy_page_device_to_device launch s d p = Some (Inl DeviceError, p'))"
  proof (cases "tk_max_total_pages p \<le> s \<or> 2 ^ 31 \<le> s \<or> tk_max_total_pages p \<le> d \<or> 2 ^ 31 \<le> d")
    case False
    show ?thesis unfolding copy_page_device_to_device_def if_not_P [OF False]
      using transfer_any_launch(1) [of "launch 0" s d] transfer_any_launch(2) [of "launch 1" s d]
        transfer_any_launch(3) [of "launch 2" s d]
      by (intro bind_launch) (simp_all only: split: if_split, blast+)
  qed (simp add: copy_page_device_to_device_def)
  then show ?thesis using False by blast
qed

lemma detach_launch:
  "detach_shared_hot_tail_page_for_append launch slot q p = detach_shared_hot_tail_page_for_append (\<lambda>_. True) slot q p
    \<or> (\<exists>p'. detach_shared_hot_tail_page_for_append launch slot q p = Some (Inl DeviceError, p')
        \<and> (\<exists>i<3. \<not> launch i) \<and> tk_free_pages p = tk_free_pages p' @ [last (tk_free_pages p)])"
proof (cases "tk_free_pages p")
  case Nil
  then show ?thesis by (simp add: detach_shared_hot_tail_page_for_append_def)
next
  case (Cons x xs)
  let ?p = "p\<lparr>tk_free_pages := butlast (x # xs), tk_attach_count := (tk_attach_count p)[last (x # xs) := 1]\<rparr>"
  from device_copy_launch [of launch q "last (x # xs)" ?p] show ?thesis
  proof (elim disjE exE conjE)
    fix p' i assume c: "copy_page_device_to_device launch q (last (x # xs)) ?p = Some (Inl DeviceError, p')" "i < 3" "\<not> launch i"
    have "planes_only ?p p'" by (rule device_copy_planes [OF c(1)])
    then have "tk_free_pages p' = butlast (x # xs)" by (auto simp: planes_only_def)
    then have "tk_free_pages p = tk_free_pages p' @ [last (tk_free_pages p)]" using Cons by (simp del: last.simps butlast.simps)
    moreover have "detach_shared_hot_tail_page_for_append launch slot q p = Some (Inl DeviceError, p')
      \<or> detach_shared_hot_tail_page_for_append launch slot q p = detach_shared_hot_tail_page_for_append (\<lambda>_. True) slot q p"
      unfolding detach_shared_hot_tail_page_for_append_def Cons list.case Let_def c(1) by simp
    ultimately show ?thesis using c(2,3) by blast
  qed (simp only: detach_shared_hot_tail_page_for_append_def Cons list.case Let_def simp_thms)
qed

lemma cow_launch:
  "cow_tail_page_for_append launch slot p = cow_tail_page_for_append (\<lambda>_. True) slot p
    \<or> (\<exists>p'. cow_tail_page_for_append launch slot p = Some (Inl DeviceError, p') \<and> (\<exists>i<3. \<not> launch i)
        \<and> append_cow_pages_needed slot p = 1 \<and> free_page_count p = free_page_count p' + 1)"
proof (cases "slot_shared_hot_tail_page slot p")
  case (Some q)
  from detach_launch [of launch slot q p] show ?thesis
  proof (elim disjE exE conjE)
    fix p' i assume "detach_shared_hot_tail_page_for_append launch slot q p = Some (Inl DeviceError, p')" "i < 3" "\<not> launch i"
      and f: "tk_free_pages p = tk_free_pages p' @ [last (tk_free_pages p)]"
    moreover have "length (tk_free_pages p) = length (tk_free_pages p') + 1" by (subst f) simp
    ultimately show ?thesis using Some
      by (auto simp: cow_tail_page_for_append_def append_cow_pages_needed_def free_page_count_def)
  qed (use Some in \<open>simp add: cow_tail_page_for_append_def\<close>)
qed (simp add: cow_tail_page_for_append_def)

lemma append_launch:
  "try_alloc_pool_tokens_once launch slot k p = try_alloc_pool_tokens_once (\<lambda>_. True) slot k p
    \<or> (\<exists>p'. try_alloc_pool_tokens_once launch slot k p = Some (Inl DeviceError, p') \<and> 0 < k \<and> (\<exists>i<3. \<not> launch i)
        \<and> append_cow_pages_needed slot p = 1 \<and> free_page_count p = free_page_count p' + 1)"
  using cow_launch [of launch slot p] by (auto simp: try_alloc_pool_tokens_once_def)

subsection \<open>Appending tokens\<close>

definition tight :: "nat \<Rightarrow> token_kv_pool \<Rightarrow> bool" where
  "tight slot p \<longleftrightarrow> length (tk_page_indices p ! slot) = div_ceil (tk_seq_lens p ! slot) (tk_page_size p)"

lemma div_ceil_fill:
  "0 < b \<Longrightarrow> div_ceil n b * b = n + (if n mod b = 0 then 0 else b - n mod b)"
proof -
  assume b: "0 < b"
  have d: "n div b * b + n mod b = n" by (rule div_mult_mod_eq)
  have "n mod b < b" using b by simp
  then have "b + n div b * b = n + (b - n mod b)" using d by linarith
  then show ?thesis using d by (auto simp: div_ceil_def)
qed

lemma div_ceil_append:
  assumes "0 < b"
  shows "div_ceil n b + div_ceil (k - (if n mod b = 0 then 0 else b - n mod b)) b = div_ceil (n + k) b"
    (is "?T + div_ceil (k - ?a) b = ?D")
proof (rule antisym)
  have T: "?T * b = n + ?a" using assms by (rule div_ceil_fill)
  have D: "n + k \<le> ?D * b" using assms by (rule div_ceil_mult_le)
  have le: "?T \<le> ?D" using div_ceil_mono [OF assms, of n "n + k"] by simp
  have "k - ?a \<le> (?D - ?T) * b" unfolding diff_mult_distrib T using D by linarith
  then have "div_ceil (k - ?a) b \<le> ?D - ?T" using assms by (intro div_ceil_least)
  then show "?T + div_ceil (k - ?a) b \<le> ?D" using le by simp
  have "k - ?a \<le> div_ceil (k - ?a) b * b" using assms by (rule div_ceil_mult_le)
  then have "n + k \<le> (?T + div_ceil (k - ?a) b) * b" unfolding add_mult_distrib T by linarith
  then show "?D \<le> ?T + div_ceil (k - ?a) b" using assms by (intro div_ceil_least)
qed

lemma host_page_cong:
  assumes "tk_num_layers p' = tk_num_layers p" "\<And>l. l < tk_num_layers p \<Longrightarrow> layer_to_host p' x l = layer_to_host p y l"
  shows "copy_pages_to_host [x] p' = copy_pages_to_host [y] p"
proof -
  have eq: "map (layer_to_host p' x) [0..<tk_num_layers p] = map (layer_to_host p y) [0..<tk_num_layers p]" using assms(2) by simp
  show ?thesis by (simp add: copy_pages_to_host_def comp_def assms(1) eq)
qed

lemma count_slot_pages_update:
  assumes "slot < length (tk_page_indices p)" "x \<notin># slot_pages p" "tk_page_indices p' = (tk_page_indices p)[slot := t]"
  shows "count (slot_pages p') x = count (mset t) x"
proof -
  have "x \<notin># mset (tk_page_indices p ! slot)"
    using assms(2) mset_nth_subset [OF assms(1)] by (auto simp: slot_pages_def dest: mset_subset_eqD)
  then have z: "count (mset (tk_page_indices p ! slot)) x = 0" "count (mset (concat (tk_page_indices p))) x = 0"
    using assms(2) by (simp_all only: not_in_iff slot_pages_def)
  show ?thesis unfolding slot_pages_def assms(3) mset_concat_update [OF assms(1)] count_union count_diff z by simp
qed

text \<open>After the copy on write the page that the next token goes to is held by this slot alone.\<close>

lemma cow_private:
  assumes "kv_ok p W R" "planes_ok p" "tk_max_total_pages p \<le> 2 ^ 31" "slot < tk_num_slots p"
    and "cow_tail_page_for_append (\<lambda>_. True) slot p = Some (Inr b, p1)"
  defines "t \<equiv> tk_page_indices p ! slot" and "t1 \<equiv> tk_page_indices p1 ! slot"
  shows "slot_hot_tail_len slot p \<noteq> 0 \<Longrightarrow> t \<noteq> [] \<Longrightarrow> count (slot_pages p1) (last t1) = 1 \<and> last t1 \<notin># R \<and> last t1 \<notin># W"
    "length t1 = length t" "tk_seq_lens p1 = tk_seq_lens p"
    "\<And>i l. i < length t \<Longrightarrow> l < tk_num_layers p \<Longrightarrow> layer_to_host p1 (t1 ! i) l = layer_to_host p (t ! i) l"
    "\<And>other. other \<noteq> slot \<Longrightarrow> tk_page_indices p1 ! other = tk_page_indices p ! other"
    "\<And>x l. x \<in># slot_pages p \<or> x \<in># R \<Longrightarrow> l < tk_num_layers p \<Longrightarrow> layer_to_host p1 x l = layer_to_host p x l"
    "tk_free_pages p = tk_free_pages p1 @ (if slot_shared_hot_tail_page slot p = None then [] else [last t1])"
proof -
  note ok = kv_okD [OF assms(1)] and cow = cow_ok [OF assms(1,4,5)]
  have slot: "slot < length (tk_page_indices p)" using ok(3) assms(4) by simp
  have "(slot_hot_tail_len slot p \<noteq> 0 \<longrightarrow> t \<noteq> [] \<longrightarrow> count (slot_pages p1) (last t1) = 1 \<and> last t1 \<notin># R \<and> last t1 \<notin># W)
    \<and> length t1 = length t \<and> tk_seq_lens p1 = tk_seq_lens p
    \<and> (\<forall>i<length t. \<forall>l<tk_num_layers p. layer_to_host p1 (t1 ! i) l = layer_to_host p (t ! i) l)
    \<and> (\<forall>other. other \<noteq> slot \<longrightarrow> tk_page_indices p1 ! other = tk_page_indices p ! other)
    \<and> (\<forall>x. \<forall>l<tk_num_layers p. x \<in># slot_pages p \<or> x \<in># R \<longrightarrow> layer_to_host p1 x l = layer_to_host p x l)
    \<and> tk_free_pages p = tk_free_pages p1 @ (if slot_shared_hot_tail_page slot p = None then [] else [last t1])"
  proof (cases "slot_shared_hot_tail_page slot p")
    case None
    then have p1: "p1 = p" using cow by simp
    have "count (slot_pages p) (last t) = 1 \<and> last t \<notin># R \<and> last t \<notin># W" if h: "slot_hot_tail_len slot p \<noteq> 0" "t \<noteq> []"
    proof -
      have q: "last t \<in># slot_pages p" using slot_page_attached [OF assms(1,4)] h(2) by (simp add: t_def)
      then have m: "last t < tk_max_total_pages p" using counts_okD(3) [OF ok(1)] by simp
      have "\<not> page_is_shared_read_only (last t) p"
        using None h by (auto simp: slot_shared_hot_tail_page_def slot_hot_tail_page_def t_def split: list.splits if_splits)
      then have "count (slot_pages p) (last t) + count W (last t) \<le> 1" "count R (last t) = 0"
        using counts_okD(5,6) [OF ok(1) m] by (auto simp: page_is_shared_read_only_def not_in_iff)
      moreover have "count (slot_pages p) (last t) \<noteq> 0" using q by (simp add: count_eq_zero_iff)
      ultimately have "count (slot_pages p) (last t) = 1 \<and> count W (last t) = 0" by linarith
      then show ?thesis using \<open>count R (last t) = 0\<close> by (simp add: not_in_iff)
    qed
    then show ?thesis using None unfolding t1_def t_def p1 by simp
  next
    case (Some q)
    then obtain f new pl a where f: "tk_free_pages p = f @ [new]"
      and p1: "p1 = p\<lparr>tk_planes := pl, tk_free_pages := f,
        tk_attach_count := a, tk_page_indices := (tk_page_indices p)[slot := butlast t @ [new]]\<rparr>"
      and c: "copy_page_device_to_device (\<lambda>_. True) q new (p\<lparr>tk_free_pages := f, tk_attach_count := (tk_attach_count p)[new := 1]\<rparr>)
            = Some (Inr (), p\<lparr>tk_planes := pl, tk_free_pages := f, tk_attach_count := (tk_attach_count p)[new := 1]\<rparr>)"
      using cow unfolding t_def by auto
    let ?p = "p\<lparr>tk_free_pages := f, tk_attach_count := (tk_attach_count p)[new := 1]\<rparr>"
    from Some have q: "t \<noteq> []" "q = last t"
      by (auto simp: t_def slot_shared_hot_tail_page_def slot_hot_tail_page_def split: option.splits if_splits list.splits)
    have t1: "t1 = butlast t @ [new]" unfolding t1_def p1 using slot by simp
    have new: "new < tk_max_total_pages p" "new \<notin># slot_pages p" "new \<notin># R" "new \<notin># W"
      using counts_okD(8) [OF ok(1), of new] f by auto
    have qm: "q < tk_max_total_pages p" using counts_okD(3) [OF ok(1)] slot_page_attached [OF assms(1,4)] q by (simp add: t_def)
    have new_t: "new \<notin> set t" using new(2) slot_page_attached [OF assms(1,4)] by (auto simp: t_def)
    have "count (slot_pages p1) new = count (mset (butlast t @ [new])) new"
      using slot new(2) by (rule count_slot_pages_update) (simp add: p1)
    moreover have "new \<notin> set (butlast t)" using new_t by (meson in_set_butlastD)
    ultimately have one: "count (slot_pages p1) new = 1" by (simp add: not_in_iff [symmetric])
    have fr: "frame_of ?p = frame_of p" by simp
    obtain p2 where p2: "copy_page_device_to_device (\<lambda>_. True) q new ?p = Some (Inr (), p2)"
      "\<And>x l. x < tk_max_total_pages p \<Longrightarrow> l < tk_num_layers p \<Longrightarrow> layer_to_host p2 x l = layer_to_host ?p (if x = new then q else x) l"
      using device_copy_ok [of ?p q new] assms(2,3) qm new(1) frame_ofD(3) [OF fr] by auto
    have "frame_of p1 = frame_of p2" using p2(1) c unfolding p1 by (auto simp: frame_of_def shape_of_def)
    then have host: "layer_to_host p1 x l = layer_to_host p (if x = new then q else x) l"
      if "x < tk_max_total_pages p" "l < tk_num_layers p" for x l
      using p2(2) [OF that] frame_ofD(4) [of p1 p2] frame_ofD(4) [OF fr] by simp
    have live: "layer_to_host p1 x l = layer_to_host p x l" if "x \<in># slot_pages p \<or> x \<in># R" "l < tk_num_layers p" for x l
      using host [of x l] that new(2,3) counts_okD(3,4) [OF ok(1), of x] by auto
    have "layer_to_host p1 (t1 ! i) l = layer_to_host p (t ! i) l" if i: "i < length t" and l: "l < tk_num_layers p" for i l
    proof (cases "i = length t - 1")
      case True
      then have "t1 ! i = new" "t ! i = q" using q by (simp_all add: t1 nth_append last_conv_nth)
      then show ?thesis using host [OF new(1) l] by simp
    next
      case False
      then have "i < length t - 1" using i by linarith
      then have "t1 ! i = t ! i" by (simp add: t1 nth_append nth_butlast)
      moreover have "t ! i \<in># slot_pages p" using slot_page_attached [OF assms(1,4)] i by (simp add: t_def)
      ultimately show ?thesis using live l by simp
    qed
    then show ?thesis using one new(3,4) f q(1) live Some unfolding t1 by (simp add: p1)
  qed
  then show "slot_hot_tail_len slot p \<noteq> 0 \<Longrightarrow> t \<noteq> [] \<Longrightarrow> count (slot_pages p1) (last t1) = 1 \<and> last t1 \<notin># R \<and> last t1 \<notin># W"
    "length t1 = length t" "tk_seq_lens p1 = tk_seq_lens p"
    "\<And>i l. i < length t \<Longrightarrow> l < tk_num_layers p \<Longrightarrow> layer_to_host p1 (t1 ! i) l = layer_to_host p (t ! i) l"
    "\<And>other. other \<noteq> slot \<Longrightarrow> tk_page_indices p1 ! other = tk_page_indices p ! other"
    "\<And>x l. x \<in># slot_pages p \<or> x \<in># R \<Longrightarrow> l < tk_num_layers p \<Longrightarrow> layer_to_host p1 x l = layer_to_host p x l"
    "tk_free_pages p = tk_free_pages p1 @ (if slot_shared_hot_tail_page slot p = None then [] else [last t1])"
    by blast+
qed


lemma append_cases:
  assumes "kv_ok p W R" "slot < tk_num_slots p" "0 < k" "try_alloc_pool_tokens_once (\<lambda>_. True) slot k p = Some (Inr new, p')"
  obtains b p1 f a where "cow_tail_page_for_append (\<lambda>_. True) slot p = Some (Inr b, p1)" "kv_ok p1 W R"
    "tk_num_slots p1 = tk_num_slots p"
    "p' = p1\<lparr>tk_free_pages := f, tk_attach_count := a,
        tk_page_indices := (tk_page_indices p1)[slot := tk_page_indices p1 ! slot @ new],
        tk_seq_lens := (tk_seq_lens p1)[slot := tk_seq_lens p1 ! slot + k]\<rparr>"
    "tk_free_pages p1 = f @ rev new" "kv_ok p' W R"
    "length new = div_ceil (k - available_in_last_page slot p1) (tk_page_size p1)"
proof -
  from assms(3,4) obtain c p1 where c: "cow_tail_page_for_append (\<lambda>_. True) slot p = Some (c, p1)"
    "(case c of Inl e \<Rightarrow> Some (Inl e, p1) | Inr _ \<Rightarrow> kv_alloc_tokens slot k p1) = Some (Inr new, p')"
    by (auto simp: try_alloc_pool_tokens_once_def split: bind_splits)
  then obtain b where b: "c = Inr b" by (cases c) auto
  then have cow: "cow_tail_page_for_append (\<lambda>_. True) slot p = Some (Inr b, p1)" using c(1) by simp
  note s = cow_step [OF assms(1,2) cow]
  have al: "kv_alloc_tokens slot k p1 = Some (Inr new, p')" using c(2) b by simp
  have slot1: "slot < tk_num_slots p1" using s assms(2) by simp
  have "div_ceil (k - available_in_last_page slot p1) (tk_page_size p1) \<le> length (tk_free_pages p1)"
  proof (rule ccontr)
    assume "\<not> ?thesis"
    then show False using kv_alloc_tokens_ok(1) [of p1 W R slot k] s slot1 assms(3) al by simp
  qed
  from kv_alloc_tokens_ok(2) [of p1 W R slot k, OF _ slot1 assms(3) this] s al
  obtain f a where "p' = p1\<lparr>tk_free_pages := f, tk_attach_count := a,
        tk_page_indices := (tk_page_indices p1)[slot := tk_page_indices p1 ! slot @ new],
        tk_seq_lens := (tk_seq_lens p1)[slot := tk_seq_lens p1 ! slot + k]\<rparr>"
    "tk_free_pages p1 = f @ rev new" "length new = div_ceil (k - available_in_last_page slot p1) (tk_page_size p1)" "kv_ok p' W R"
    by auto
  then show ?thesis using that cow s by blast
qed

lemma append_counts:
  assumes "kv_ok p1 W R" "kv_ok p' W R" "slot < tk_num_slots p1" "tk_free_pages p1 = f @ rev new"
    and "tk_page_indices p' = (tk_page_indices p1)[slot := tk_page_indices p1 ! slot @ new]"
  shows "x \<in> set new \<Longrightarrow> count (slot_pages p') x = 1 \<and> x \<notin># R \<and> x \<notin># W"
    "count (slot_pages p1) x = 1 \<Longrightarrow> count (slot_pages p') x = 1"
proof -
  have slot: "slot < length (tk_page_indices p1)" using kv_okD(3) [OF assms(1)] assms(3) by simp
  note cnt = kv_okD(1) [OF assms(1)]
  have A': "slot_pages p' = slot_pages p1 + mset new"
    using mset_concat_update [OF slot, of "tk_page_indices p1 ! slot @ new"] mset_nth_subset [OF slot]
    by (simp add: assms(5) slot_pages_def subset_mset.add_diff_assoc2)
  have free: "x \<notin># slot_pages p1 \<and> x \<notin># R \<and> x \<notin># W" if "x \<in> set new" for x
    using counts_okD(8) [OF cnt, of x] that assms(4) by auto
  have "distinct new" using counts_okD(7) [OF cnt] assms(4) by simp
  then have "x \<in> set new \<Longrightarrow> count (mset new) x = 1" by (simp add: distinct_count_atmost_1)
  then show "x \<in> set new \<Longrightarrow> count (slot_pages p') x = 1 \<and> x \<notin># R \<and> x \<notin># W" using free [of x] by (simp add: A' not_in_iff)
  assume one: "count (slot_pages p1) x = 1"
  then have "x \<in># slot_pages p1" by (metis count_eq_zero_iff zero_neq_one)
  then have "x \<notin> set new" using free by blast
  then have "count (mset new) x = 0" by (simp add: not_in_iff [symmetric])
  then show "count (slot_pages p') x = 1" using one by (simp only: A' count_union)
qed

lemma held_once:
  assumes "kv_ok p W R" "count (slot_pages p) q = 1" "q \<notin># R \<and> q \<notin># W"
  shows "tk_attach_count p ! q = 1 \<and> tk_ref_count p ! q = 0"
proof -
  note cnt = kv_okD(1) [OF assms(1)]
  have "q \<in># slot_pages p" using assms(2) by (metis count_eq_zero_iff zero_neq_one)
  then have "q < tk_max_total_pages p" using counts_okD(3) [OF cnt] by simp
  then show ?thesis using counts_okD(5,6) [OF cnt] assms(2,3) by (simp add: not_in_iff)
qed

text \<open>A position past the old length is in the partial last page or in one of the new pages.\<close>

lemma append_position:
  assumes "0 < (ps::nat)" "seq \<le> pos" "pos < seq + k" "t = div_ceil seq ps"
  shows "pos div ps < div_ceil (seq + k) ps" "pos div ps < t \<Longrightarrow> seq mod ps \<noteq> 0 \<and> pos div ps = t - 1"
proof -
  have "pos < div_ceil (seq + k) ps * ps" using assms(3) div_ceil_mult_le [OF assms(1), of "seq + k"] by linarith
  then show "pos div ps < div_ceil (seq + k) ps" using assms(1) by (simp add: div_less_iff_less_mult)
  assume lt: "pos div ps < t"
  have le: "seq div ps \<le> pos div ps" using assms(2) by (rule div_le_mono)
  then show "seq mod ps \<noteq> 0 \<and> pos div ps = t - 1" using lt assms(4) by (auto simp: div_ceil_def split: if_splits)
qed

text \<open>
  (C8) In a pool that \<open>pool_reached\<close> describes and whose format is not INT4, an append of tokens that
  succeeds, to a slot whose table is exactly as long as its tokens need: the table grows
  to what the new length needs; every new token lies in a page that no other table contains and that
  the prefix cache does not hold; and the pages of the old tokens, of all other slots and of the cache
  have the bytes they had before, where a shared tail page has been replaced by a copy of it. (The
  buffers of INT4 are too small for the copy, see \<open>int4_copy_out_of_range\<close>.)
\<close>

theorem append_writes_private_pages:
  assumes "pool_reached p R" "tk_format p \<noteq> INT4" "slot < tk_num_slots p" "tight slot p"
    and "try_alloc_pool_tokens_once launch slot k p = Some (Inr new, p')"
  shows "tk_seq_lens p' ! slot = tk_seq_lens p ! slot + k \<and> tight slot p'
    \<and> (\<forall>pos. tk_seq_lens p ! slot \<le> pos \<and> pos < tk_seq_lens p ! slot + k \<longrightarrow>
         (let q = tk_page_indices p' ! slot ! (pos div tk_page_size p)
          in tk_attach_count p' ! q = 1 \<and> tk_ref_count p' ! q = 0))
    \<and> (\<forall>i<length (tk_page_indices p ! slot).
         copy_pages_to_host [tk_page_indices p' ! slot ! i] p' = copy_pages_to_host [tk_page_indices p ! slot ! i] p)
    \<and> (\<forall>other. other \<noteq> slot \<longrightarrow> tk_page_indices p' ! other = tk_page_indices p ! other)
    \<and> (\<forall>q. q \<in># slot_pages p + R \<longrightarrow> copy_pages_to_host [q] p' = copy_pages_to_host [q] p)"
proof (cases "k = 0")
  case True
  then have "p' = p" using assms(5) by (simp add: try_alloc_pool_tokens_once_def kv_alloc_tokens_def)
  then show ?thesis using True assms(4) by simp
next
  case False
  then have k: "0 < k" by simp
  obtain W where kv: "kv_ok p W R" using pool_reachedD(1) [OF assms(1)] by blast
  note r = kv pool_reachedD(2) [OF assms(1,2)] pool_reachedD(3) [OF assms(1)]
  have app: "try_alloc_pool_tokens_once (\<lambda>_. True) slot k p = Some (Inr new, p')"
    using append_launch [of launch slot k p] assms(5) by auto
  note ok = kv_okD [OF r(1)]
  obtain b p1 f a where cow: "cow_tail_page_for_append (\<lambda>_. True) slot p = Some (Inr b, p1)" "kv_ok p1 W R"
    "tk_num_slots p1 = tk_num_slots p"
    and p': "p' = p1\<lparr>tk_free_pages := f, tk_attach_count := a,
        tk_page_indices := (tk_page_indices p1)[slot := tk_page_indices p1 ! slot @ new],
        tk_seq_lens := (tk_seq_lens p1)[slot := tk_seq_lens p1 ! slot + k]\<rparr>"
    and new: "tk_free_pages p1 = f @ rev new" "kv_ok p' W R"
      "length new = div_ceil (k - available_in_last_page slot p1) (tk_page_size p1)"
    using append_cases [OF r(1) assms(3) k app] .
  note cp = cow_private [OF r(1) r(2) r(3) assms(3) cow(1)]
  let ?t = "tk_page_indices p ! slot" and ?t1 = "tk_page_indices p1 ! slot" and ?ps = "tk_page_size p" and ?seq = "tk_seq_lens p ! slot"
  have sh: "shape_of p1 = shape_of p" using cow_shape [OF cow(1)] by simp
  have ps: "tk_page_size p1 = ?ps" "tk_max_total_pages p1 = tk_max_total_pages p" using shape_ofD [OF sh] by simp_all
  have slot: "slot < length (tk_page_indices p)" "slot < length (tk_page_indices p1)" "slot < length (tk_seq_lens p)"
    using assms(3) ok(3,4) kv_okD(3) [OF cow(2)] cow(3) by simp_all
  have av: "available_in_last_page slot p1 = (if ?seq mod ?ps = 0 then 0 else ?ps - ?seq mod ?ps)"
    by (simp add: available_in_last_page_def slot_hot_tail_len_def cp(3) ps)
  have len_t: "length ?t = div_ceil ?seq ?ps" using assms(4) by (simp add: tight_def)
  have t': "tk_page_indices p' ! slot = ?t1 @ new" using slot(2) by (simp add: p')
  have seq': "tk_seq_lens p' ! slot = ?seq + k" using slot(3) by (simp add: p' cp(3))
  have tight': "tight slot p'" unfolding tight_def t' seq'
    using div_ceil_append [OF ok(2), of ?seq k] new(3) len_t cp(2) by (simp add: av ps p')
  have tab: "tk_page_indices p' = (tk_page_indices p1)[slot := ?t1 @ new]" by (simp add: p')
  have slot1: "slot < tk_num_slots p1" using cow(3) assms(3) by simp
  note counts = append_counts [OF cow(2) new(2) slot1 new(1) tab]
  have pos: "tk_attach_count p' ! (tk_page_indices p' ! slot ! (pos div ?ps)) = 1
      \<and> tk_ref_count p' ! (tk_page_indices p' ! slot ! (pos div ?ps)) = 0"
    if lo: "?seq \<le> pos" and hi: "pos < ?seq + k" for pos
  proof -
    let ?i = "pos div ?ps"
    have i: "?i < length (?t1 @ new)"
      using append_position(1) [OF ok(2) lo hi refl] tight' unfolding tight_def t' seq' by (simp add: p' ps)
    show ?thesis
    proof (cases "?i < length ?t1")
      case True
      then have "?i < length ?t" using cp(2) by simp
      from append_position(2) [OF ok(2) lo hi len_t this] have hot: "slot_hot_tail_len slot p \<noteq> 0" "?i = length ?t1 - 1"
        using cp(2) by (simp_all add: slot_hot_tail_len_def)
      have ne: "?t1 \<noteq> []" "?t \<noteq> []" using True \<open>?i < length ?t\<close> by auto
      then have "tk_page_indices p' ! slot ! ?i = last ?t1" unfolding t' hot(2) by (simp add: nth_append last_conv_nth)
      then show ?thesis using cp(1) [OF hot(1) ne(2)] counts(2) held_once [OF new(2)] by simp
    next
      case False
      then have "tk_page_indices p' ! slot ! ?i = new ! (?i - length ?t1)" unfolding t' by (simp add: nth_append)
      moreover have "?i - length ?t1 < length new" using i False by simp
      ultimately have "tk_page_indices p' ! slot ! ?i \<in> set new" by simp
      then show ?thesis using counts(1) held_once [OF new(2)] by blast
    qed
  qed
  have fr: "frame_of p' = frame_of p1" by (simp add: p')
  have L: "tk_num_layers p' = tk_num_layers p" using shape_ofD(2) [OF sh] frame_ofD(2) [OF fr] shape_ofD(2) by metis
  have old: "copy_pages_to_host [tk_page_indices p' ! slot ! i] p' = copy_pages_to_host [?t ! i] p" if i: "i < length ?t" for i
  proof (rule host_page_cong [OF L])
    fix l assume l: "l < tk_num_layers p"
    have "tk_page_indices p' ! slot ! i = ?t1 ! i" using i cp(2) by (simp add: t' nth_append)
    then show "layer_to_host p' (tk_page_indices p' ! slot ! i) l = layer_to_host p (?t ! i) l"
      using cp(4) [OF i l] frame_ofD(4) [OF fr] by simp
  qed
  have held: "copy_pages_to_host [q] p' = copy_pages_to_host [q] p" if "q \<in># slot_pages p + R" for q
    using cp(6) [of q] that frame_ofD(4) [OF fr] by (intro host_page_cong [OF L]) auto
  have others: "tk_page_indices p' ! other = tk_page_indices p ! other" if "other \<noteq> slot" for other
    using cp(5) [OF that] that by (simp add: p')
  show ?thesis using seq' tight' pos old held others by (simp add: Let_def)
qed


subsection \<open>What an append needs\<close>

lemma cow_total:
  assumes "kv_ok p W R" "planes_ok p" "tk_max_total_pages p \<le> 2 ^ 31" "slot < tk_num_slots p"
  shows "(\<exists>b p1. cow_tail_page_for_append (\<lambda>_. True) slot p = Some (Inr b, p1))
    \<or> cow_tail_page_for_append (\<lambda>_. True) slot p = Some (Inl OutOfPages, p) \<and> tk_free_pages p = []
      \<and> slot_shared_hot_tail_page slot p \<noteq> None"
proof (cases "slot_shared_hot_tail_page slot p")
  case None
  then have "cow_tail_page_for_append (\<lambda>_. True) slot p = Some (Inr False, p)"
    using kv_okD(4) [OF assms(1)] assms(4) by (simp add: cow_tail_page_for_append_def)
  then show ?thesis by blast
next
  case (Some q)
  note ok = kv_okD [OF assms(1)]
  have cow: "cow_tail_page_for_append (\<lambda>_. True) slot p = map_option (map_prod (map_sum id (\<lambda>_. True)) id)
          (detach_shared_hot_tail_page_for_append (\<lambda>_. True) slot q p)"
    using Some ok(4) assms(4) by (simp add: cow_tail_page_for_append_def)
  show ?thesis
  proof (cases "tk_free_pages p" rule: rev_cases)
    case Nil
    then show ?thesis using cow Some by (simp add: detach_shared_hot_tail_page_for_append_def)
  next
    case (snoc f new)
    let ?p = "p\<lparr>tk_free_pages := f, tk_attach_count := (tk_attach_count p)[new := 1]\<rparr>"
    have q: "tk_page_indices p ! slot \<noteq> []" "q = last (tk_page_indices p ! slot)" using Some
      by (auto simp: slot_shared_hot_tail_page_def slot_hot_tail_page_def split: option.splits if_splits list.splits)
    have qA: "q \<in># slot_pages p" using slot_page_attached [OF assms(1,4)] q by simp
    have m: "q < tk_max_total_pages p" "new < tk_max_total_pages p" "q \<noteq> new"
      using counts_okD(3,8) [OF ok(1)] qA snoc by auto
    have fr: "frame_of ?p = frame_of p" by simp
    obtain p2 where c: "copy_page_device_to_device (\<lambda>_. True) q new ?p = Some (Inr (), p2)" "planes_only ?p p2"
      using device_copy_ok [of ?p q new] assms(2,3) m frame_ofD(3) [OF fr] by auto
    then obtain pl where p2: "p2 = ?p\<lparr>tk_planes := pl\<rparr>" by (auto simp: planes_only_def)
    have "tk_attach_count p ! q \<noteq> 0" using counts_okD(5) [OF ok(1) m(1)] qA by (simp add: count_eq_zero_iff)
    then have "tk_attach_count p2 ! q \<noteq> 0" using m(3) by (simp add: p2)
    moreover have "new < length (tk_attach_count p)" using m(2) counts_okD(1) [OF ok(1)] by simp
    ultimately have "\<exists>p1. detach_shared_hot_tail_page_for_append (\<lambda>_. True) slot q p = Some (Inr (), p1)"
      using snoc c(1) q by (cases f) (simp_all add: detach_shared_hot_tail_page_for_append_def Let_def p2)
    then show ?thesis using cow by auto
  qed
qed

lemma append_total:
  assumes "kv_ok p W R" "planes_ok p" "tk_max_total_pages p \<le> 2 ^ 31" "slot < tk_num_slots p" "0 < k"
  shows "if append_pages_needed slot k p \<le> free_page_count p
    then \<exists>new p'. try_alloc_pool_tokens_once (\<lambda>_. True) slot k p = Some (Inr new, p')
           \<and> free_page_count p' + append_pages_needed slot k p = free_page_count p
    else \<exists>p'. try_alloc_pool_tokens_once (\<lambda>_. True) slot k p = Some (Inl OutOfPages, p')"
proof -
  note ok = kv_okD [OF assms(1)]
  let ?n = "div_ceil (k - available_in_last_page slot p) (tk_page_size p)"
  have need: "append_pages_needed slot k p = append_cow_pages_needed slot p + ?n"
    using assms(5) ok(2) max.absorb1 [of 1 "tk_page_size p"] by (simp add: append_pages_needed_def)
  from cow_total [OF assms(1-4)] show ?thesis
  proof (elim disjE conjE exE)
    fix b p1 assume cow: "cow_tail_page_for_append (\<lambda>_. True) slot p = Some (Inr b, p1)"
    note s = cow_step [OF assms(1,4) cow]
    note cp = cow_private [OF assms(1-4) cow]
    have "shape_of p1 = shape_of p" using cow_shape [OF cow] by simp
    then have n1: "div_ceil (k - available_in_last_page slot p1) (tk_page_size p1) = ?n"
      using shape_ofD(4) [of p1 p] cp(3) by (simp add: available_in_last_page_def slot_hot_tail_len_def)
    have free: "free_page_count p = free_page_count p1 + append_cow_pages_needed slot p"
      unfolding free_page_count_def cp(7) append_cow_pages_needed_def by simp
    have slot1: "slot < tk_num_slots p1" using s assms(4) by simp
    have app: "try_alloc_pool_tokens_once (\<lambda>_. True) slot k p = kv_alloc_tokens slot k p1"
      using cow assms(5) by (simp add: try_alloc_pool_tokens_once_def)
    show ?thesis
    proof (cases "?n \<le> length (tk_free_pages p1)")
      case True
      then show ?thesis using kv_alloc_tokens_ok(2) [OF conjunct1 [OF s] slot1 assms(5), unfolded n1 app [symmetric]] free need
        by (auto simp: free_page_count_def)
    next
      case False
      then show ?thesis using kv_alloc_tokens_ok(1) [OF conjunct1 [OF s] slot1 assms(5), unfolded n1 app [symmetric]] free need
        by (auto simp: free_page_count_def)
    qed
  next
    assume cow: "cow_tail_page_for_append (\<lambda>_. True) slot p = Some (Inl OutOfPages, p)"
      "tk_free_pages p = []" "slot_shared_hot_tail_page slot p \<noteq> None"
    then show ?thesis using assms(5) need
      by (auto simp add: try_alloc_pool_tokens_once_def free_page_count_def append_cow_pages_needed_def)
  qed
qed

text \<open>
  (C25) \<open>append_pages_needed\<close> is exact in a pool that \<open>pool_reached\<close> describes and whose format is not
  INT4: an append returns; if it succeeds, at least that many pages were free and it has taken exactly
  that many; it reports that the pool is out of pages only if fewer were free; and the one other outcome is the
  device error of a failed launch, when a shared tail page had to be copied, which takes one page off the free list.
\<close>

theorem append_takes_pages_needed:
  assumes "pool_reached p R" "tk_format p \<noteq> INT4" "slot < tk_num_slots p"
  shows "case try_alloc_pool_tokens_once launch slot k p of None \<Rightarrow> False
    | Some (Inr new, p') \<Rightarrow> append_pages_needed slot k p \<le> free_page_count p
        \<and> free_page_count p' + append_pages_needed slot k p = free_page_count p
    | Some (Inl e, p') \<Rightarrow> e = OutOfPages \<and> free_page_count p < append_pages_needed slot k p
        \<or> e = DeviceError \<and> (\<exists>i<3. \<not> launch i) \<and> append_cow_pages_needed slot p = 1
          \<and> free_page_count p = free_page_count p' + 1"
proof (cases "k = 0")
  case True
  then show ?thesis by (simp add: append_pages_needed_def try_alloc_pool_tokens_once_def kv_alloc_tokens_def)
next
  case False
  obtain W where kv: "kv_ok p W R" using pool_reachedD(1) [OF assms(1)] by blast
  note r = kv pool_reachedD(2) [OF assms(1,2)] pool_reachedD(3) [OF assms(1)]
  show ?thesis using append_launch [of launch slot k p] append_total [OF r(1,2,3) assms(3), of k] False
    by (auto split: if_splits)
qed


definition demo_pool0 :: token_kv_pool where
  "demo_pool0 = with_format 1 1 1 4 256 BF16"

definition demo_pool1 :: token_kv_pool where
  "demo_pool1 = snd (the (try_alloc_pool_tokens_once (\<lambda>_. True) 0 20 demo_pool0))"

definition demo_pool2 :: token_kv_pool where
  "demo_pool2 = the (retain_pages [0, 1] demo_pool1)"

definition demo_pool3 :: token_kv_pool where
  "demo_pool3 = snd (the (try_alloc_pool_tokens_once (\<lambda>_. True) 0 1 demo_pool2))"

lemma demo_pool_run:
  "try_alloc_pool_tokens_once (\<lambda>_. True) 0 20 demo_pool0 = Some (Inr [0, 1], demo_pool1)"
  "retain_pages [0, 1] demo_pool1 = Some demo_pool2"
  "try_alloc_pool_tokens_once (\<lambda>_. True) 0 1 demo_pool2 = Some (Inr [], demo_pool3)"
  "tk_num_slots demo_pool0 = 4" "tk_num_slots demo_pool2 = 4" "tk_max_total_pages demo_pool0 = 4"
  "tk_page_indices demo_pool1 = [[0, 1], [], [], []]" "tk_page_indices demo_pool2 = [[0, 1], [], [], []]"
  "tk_seq_lens demo_pool2 = [20, 0, 0, 0]" "tk_page_indices demo_pool3 = [[0, 2], [], [], []]" "tk_page_size demo_pool2 = 16"
  "append_pages_needed 0 1 demo_pool2 = 1" "free_page_count demo_pool2 = 2" "tk_format demo_pool2 \<noteq> INT4"
  by code_simp+

lemma demo_pool_reached: "pool_reached demo_pool2 {#0, 1#}"
proof -
  have "kv_step (demo_pool0, {#}, {#}) (demo_pool1, {#}, {#} + lost_by_append (Inr [0, 1 :: nat]) demo_pool0)"
    using demo_pool_run(1,4) by (intro step_append [where slot = 0]) auto
  moreover have "kv_step (demo_pool1, {#}, {#}) (demo_pool2, {#} + mset [0, 1], {#})"
    using demo_pool_run(2,7) by (intro step_retain) (auto simp: page_live_def slot_pages_def u32_max_def)
  ultimately have "kv_step\<^sup>*\<^sup>* (demo_pool0, {#}, {#}) (demo_pool2, {#0, 1#}, {#})"
    by (auto intro: rtranclp.rtrancl_into_rtrancl simp: add_mset_commute lost_by_append_def)
  moreover have "0 < 1 * 1 * bytes_per_element BF16" by (simp add: bytes_per_element_def)
  ultimately show ?thesis using demo_pool_run(6) unfolding pool_reached_def demo_pool0_def
    by (intro exI [of _ "1::nat"] exI [of _ "4::nat"] exI [of _ "256::nat"] exI [of _ BF16] exI [of _ "{#}"]) simp
qed

theorem append_writes_private_pages_witness:
  "tk_attach_count demo_pool3 ! 2 = 1 \<and> tk_ref_count demo_pool3 ! 2 = 0
    \<and> copy_pages_to_host [2] demo_pool3 = copy_pages_to_host [1] demo_pool2"
proof -
  have "tight 0 demo_pool2" using demo_pool_run(8,9,11) by (simp add: tight_def div_ceil_def)
  moreover have "0 < tk_num_slots demo_pool2" using demo_pool_run(5) by simp
  ultimately have "\<forall>pos. tk_seq_lens demo_pool2 ! 0 \<le> pos \<and> pos < tk_seq_lens demo_pool2 ! 0 + 1 \<longrightarrow>
         (let q = tk_page_indices demo_pool3 ! 0 ! (pos div tk_page_size demo_pool2)
          in tk_attach_count demo_pool3 ! q = 1 \<and> tk_ref_count demo_pool3 ! q = 0)"
    and "\<forall>i<length (tk_page_indices demo_pool2 ! 0).
         copy_pages_to_host [tk_page_indices demo_pool3 ! 0 ! i] demo_pool3 = copy_pages_to_host [tk_page_indices demo_pool2 ! 0 ! i] demo_pool2"
    using append_writes_private_pages [OF demo_pool_reached demo_pool_run(14) _ _ demo_pool_run(3)] by blast+
  from spec [OF this(1), of 20] spec [OF this(2), of 1] show ?thesis by (simp add: demo_pool_run(8-11) Let_def)
qed

theorem append_takes_pages_needed_witness:
  "try_alloc_pool_tokens_once (\<lambda>_. True) 0 1 demo_pool2 = Some (Inr [], demo_pool3) \<and> free_page_count demo_pool3 = 1"
proof -
  have slot: "0 < tk_num_slots demo_pool2" by (simp add: demo_pool_run(5))
  show ?thesis
    using append_takes_pages_needed [OF demo_pool_reached demo_pool_run(14) slot, where launch = "\<lambda>_. True" and k = 1,
        unfolded demo_pool_run(3) demo_pool_run(12,13)]
    by (simp add: demo_pool_run(3) del: One_nat_def)
qed

end
