(* ===== verification/Paged_Payload.thy ===== *)
theory Paged_Payload
  imports Paged_Append
begin

text \<open>
  The bytes of pages on the host: a payload written by \<open>copy_pages_to_host\<close> and read back by
  \<open>copy_pages_from_host\<close>, into any pages of any pool of the same shape, gives the same pages and changes
  no other. And the batch metadata of the kernels, from which the tables and lengths can be read back;
  and the cases the pool does not guard.
\<close>

subsection \<open>One buffer\<close>

lemma length_words_to [simp]: "length (words_to_le_bytes nb ws) = length ws * nb"
  by (induction ws) (simp_all add: words_to_le_bytes_def)

lemma words_from_to:
  fixes ws :: "'l::len word list"
  assumes "LENGTH('l) = 8 * nb"
  shows "words_from_le_bytes nb (length ws) (words_to_le_bytes nb ws) = ws"
proof (induction ws)
  case Nil
  show ?case by (simp add: words_from_le_bytes_def)
next
  case (Cons w ws)
  have "(256::nat) ^ nb = 2 ^ LENGTH('l)" unfolding assms by (simp add: power_mult)
  then have "unat w mod 256 ^ nb = unat w" using unsigned_less [of w] by simp
  then show ?case using Cons by (simp add: words_from_le_bytes_def words_to_le_bytes_def)
qed

lemma plane_from_host_ok:
  assumes "plane_ok L m n plane" "l < L" "q < m" "length bytes = nb" "dec bytes = xs" "length xs = n"
  shows "\<exists>plane'. (\<forall>rest. plane_from_host nb dec l n q (plane, bytes @ rest) = Some (plane', rest)) \<and> plane_ok L m n plane'
    \<and> (\<forall>l'<L. \<forall>q'<m. plane_slice plane' l' n q' = (if l' = l \<and> q' = q then Some xs else plane_slice plane l' n q'))"
proof -
  have lt: "l < length plane" and len: "length (plane ! l) = m * n" using assms(1,2) by (auto simp: plane_ok_def)
  from page_of_write [OF len assms(3,6)] obtain buf where b: "write_at (q * n) xs (plane ! l) = Some buf" "length buf = m * n"
    "\<And>q'. q' < m \<Longrightarrow> page_of n q' buf = (if q' = q then xs else page_of n q' (plane ! l))" by blast
  have ok: "plane_ok L m n (plane[l := buf])"
    using assms(1) b(2) by (auto simp: plane_ok_def dest!: set_update_subset_insert [THEN subsetD])
  have "plane_from_host nb dec l n q (plane, bytes @ rest) = Some (plane[l := buf], rest)" for rest
    using assms(4,5) lt b(1) by (simp add: plane_from_host_def slice_def)
  moreover have "plane_slice (plane[l := buf]) l' n q' = (if l' = l \<and> q' = q then Some xs else plane_slice plane l' n q')"
    if "l' < L" "q' < m" for l' q'
    using plane_slice_ok [OF ok that] plane_slice_ok [OF assms(1) that] b(3) [OF that(2)] lt by (auto simp: nth_list_update)
  ultimately show ?thesis using ok by blast
qed

text \<open>A page of one plane, encoded and written into another plane.\<close>

definition page_sent :: "nat \<Rightarrow> nat \<Rightarrow> nat \<Rightarrow> ('a list \<Rightarrow> u8 list) \<Rightarrow> (u8 list \<Rightarrow> 'a list) \<Rightarrow> nat \<Rightarrow> nat \<Rightarrow> nat
    \<Rightarrow> 'a list list \<Rightarrow> 'a list list \<Rightarrow> 'a list \<Rightarrow> 'a list list \<Rightarrow> bool" where
  "page_sent L m n enc dec l x q src dst xs dst' \<longleftrightarrow> plane_slice src l n x = Some xs
     \<and> (\<forall>rest. plane_from_host (length (enc xs)) dec l n q (dst, enc xs @ rest) = Some (dst', rest)) \<and> plane_ok L m n dst'
     \<and> (\<forall>l'<L. \<forall>q'<m. plane_slice dst' l' n q' = (if l' = l \<and> q' = q then Some xs else plane_slice dst l' n q'))"

lemma page_sent_ex:
  assumes "plane_ok L m0 n src" "plane_ok L m n dst" "l < L" "x < m0" "q < m" "\<And>xs. length xs = n \<Longrightarrow> dec (enc xs) = xs"
  shows "\<exists>xs dst'. page_sent L m n enc dec l x q src dst xs dst' \<and> length xs = n"
proof -
  let ?xs = "page_of n x (src ! l)"
  have s: "plane_slice src l n x = Some ?xs" "length ?xs = n" using plane_slice_ok [OF assms(1,3,4)] by simp_all
  have "\<exists>dst'. page_sent L m n enc dec l x q src dst ?xs dst'"
    using plane_from_host_ok [where dec = dec and bytes = "enc ?xs", OF assms(2,3,5) refl assms(6) [OF s(2)] s(2)] s(1) by (simp add: page_sent_def)
  then show ?thesis using s(2) by blast
qed

subsection \<open>One layer of a page\<close>

lemma layer_from_host_ok:
  assumes "planes_ok src" "planes_ok p" "same_pool_shape src p" "l < tk_num_layers p" "x < tk_max_total_pages src" "q < tk_max_total_pages p"
  shows "\<exists>sec p'. layer_to_host src x l = Some sec \<and> (\<forall>rest. layer_from_host q l (p, sec @ rest) = Some (p', rest)) \<and> planes_only p p'
    \<and> planes_ok p' \<and> (\<forall>l'<tk_num_layers p. \<forall>q'<tk_max_total_pages p.
         layer_to_host p' q' l' = (if l' = l \<and> q' = q then Some sec else layer_to_host p q' l'))"
proof -
  let ?L = "tk_num_layers p" and ?m = "tk_max_total_pages p" and ?t = "token_bytes p" and ?s = "scale_len p"
  let ?pl = "tk_planes p" and ?sp = "tk_planes src" and ?mm = "tk_max_total_pages src"
  have sh: "tk_format src = tk_format p" "tk_num_layers src = ?L" "token_bytes src = ?t" "scale_len src = ?s"
    using assms(3) same_pool_shape_bytes [OF assms(3)] by (simp_all add: same_pool_shape_def)
  have eqs: "token_bytes (p\<lparr>tk_planes := x\<rparr>) = ?t" "scale_len (p\<lparr>tk_planes := x\<rparr>) = ?s" for x
    by (simp_all add: token_bytes_def scale_len_def)
  have oks: "plane_ok ?L ?mm ?t (pl_k_data ?sp)" "plane_ok ?L ?mm ?t (pl_v_data ?sp)"
    using assms(1) by (simp_all add: planes_ok_def Let_def sh)
  have okd: "plane_ok ?L ?m ?t (pl_k_data ?pl)" "plane_ok ?L ?m ?t (pl_v_data ?pl)"
    using assms(2) by (simp_all add: planes_ok_def Let_def)
  obtain kb vb k v where d: "page_sent ?L ?m ?t id id l x q (pl_k_data ?sp) (pl_k_data ?pl) kb k"
    "page_sent ?L ?m ?t id id l x q (pl_v_data ?sp) (pl_v_data ?pl) vb v" "length kb = ?t" "length vb = ?t"
    using page_sent_ex [where enc = id and dec = id, OF oks(1) okd(1) assms(4-6)]
      page_sent_ex [where enc = id and dec = id, OF oks(2) okd(2) assms(4-6)] by auto
  let ?d = "?pl\<lparr>pl_k_data := k, pl_v_data := v\<rparr>"
  consider "has_scales (tk_format p)" "\<not> has_norms (tk_format p)" | "has_norms (tk_format p)" "\<not> has_scales (tk_format p)"
    | "\<not> has_scales (tk_format p)" "\<not> has_norms (tk_format p)"
    by (cases "tk_format p") (auto simp: has_scales_def has_norms_def)
  then show ?thesis
  proof cases
    case 1
    let ?e = "words_to_le_bytes 4 :: 32 word list \<Rightarrow> u8 list" and ?w = "words_from_le_bytes 4 ?s :: u8 list \<Rightarrow> 32 word list"
    have sc: "plane_ok ?L ?mm ?s (pl_k_scales ?sp)" "plane_ok ?L ?mm ?s (pl_v_scales ?sp)"
      "plane_ok ?L ?m ?s (pl_k_scales ?pl)" "plane_ok ?L ?m ?s (pl_v_scales ?pl)"
      using assms(1,2) 1 by (simp_all add: planes_ok_def Let_def sh)
    have dec_enc: "?w (?e xs) = xs" if "length xs = ?s" for xs using words_from_to [of 4 xs] that by simp
    obtain kc vc ks vs where c: "page_sent ?L ?m ?s ?e ?w l x q (pl_k_scales ?sp) (pl_k_scales ?pl) kc ks"
      "page_sent ?L ?m ?s ?e ?w l x q (pl_v_scales ?sp) (pl_v_scales ?pl) vc vs" "length kc = ?s" "length vc = ?s"
      using page_sent_ex [where enc = ?e and dec = ?w, OF sc(1,3) assms(4-6) dec_enc]
        page_sent_ex [where enc = ?e and dec = ?w, OF sc(2,4) assms(4-6) dec_enc] by auto
    let ?p = "p\<lparr>tk_planes := ?d\<lparr>pl_k_scales := ks, pl_v_scales := vs\<rparr>\<rparr>" and ?sec = "kb @ vb @ ?e kc @ ?e vc"
    have "layer_to_host src x l = Some ?sec" using d c 1 by (simp add: layer_to_host_def page_sent_def sh)
    moreover have "layer_from_host q l (p, ?sec @ rest) = Some (?p, rest)" for rest
      using d c 1 by (simp add: layer_from_host_def data_from_host_def scales_from_host_def page_sent_def eqs)
    moreover have "planes_ok ?p" using d c 1 by (simp add: planes_ok_def page_sent_def Let_def eqs)
    moreover have "layer_to_host ?p q' l' = (if l' = l \<and> q' = q then Some ?sec else layer_to_host p q' l')"
      if "l' < ?L" "q' < ?m" for l' q' using d c that 1 by (simp add: layer_to_host_def page_sent_def eqs)
    ultimately show ?thesis by (intro exI [of _ ?sec] exI [of _ ?p]) simp
  next
    case 2
    let ?e = "words_to_le_bytes 2 :: 16 word list \<Rightarrow> u8 list" and ?w = "words_from_le_bytes 2 ?s :: u8 list \<Rightarrow> 16 word list"
    have sc: "plane_ok ?L ?mm ?s (pl_k_norms ?sp)" "plane_ok ?L ?mm ?s (pl_v_norms ?sp)"
      "plane_ok ?L ?m ?s (pl_k_norms ?pl)" "plane_ok ?L ?m ?s (pl_v_norms ?pl)"
      using assms(1,2) 2 by (simp_all add: planes_ok_def Let_def sh)
    have dec_enc: "?w (?e xs) = xs" if "length xs = ?s" for xs using words_from_to [of 2 xs] that by simp
    obtain kc vc ks vs where c: "page_sent ?L ?m ?s ?e ?w l x q (pl_k_norms ?sp) (pl_k_norms ?pl) kc ks"
      "page_sent ?L ?m ?s ?e ?w l x q (pl_v_norms ?sp) (pl_v_norms ?pl) vc vs" "length kc = ?s" "length vc = ?s"
      using page_sent_ex [where enc = ?e and dec = ?w, OF sc(1,3) assms(4-6) dec_enc]
        page_sent_ex [where enc = ?e and dec = ?w, OF sc(2,4) assms(4-6) dec_enc] by auto
    let ?p = "p\<lparr>tk_planes := ?d\<lparr>pl_k_norms := ks, pl_v_norms := vs\<rparr>\<rparr>" and ?sec = "kb @ vb @ ?e kc @ ?e vc"
    have "layer_to_host src x l = Some ?sec" using d c 2 by (simp add: layer_to_host_def page_sent_def sh)
    moreover have "layer_from_host q l (p, ?sec @ rest) = Some (?p, rest)" for rest
      using d c 2 by (simp add: layer_from_host_def data_from_host_def norms_from_host_def page_sent_def eqs)
    moreover have "planes_ok ?p" using d c 2 by (simp add: planes_ok_def page_sent_def Let_def eqs)
    moreover have "layer_to_host ?p q' l' = (if l' = l \<and> q' = q then Some ?sec else layer_to_host p q' l')"
      if "l' < ?L" "q' < ?m" for l' q' using d c that 2 by (simp add: layer_to_host_def page_sent_def eqs)
    ultimately show ?thesis by (intro exI [of _ ?sec] exI [of _ ?p]) simp
  next
    case 3
    let ?p = "p\<lparr>tk_planes := ?d\<rparr>" and ?sec = "kb @ vb"
    have "layer_to_host src x l = Some ?sec" using d 3 by (simp add: layer_to_host_def page_sent_def sh)
    moreover have "layer_from_host q l (p, ?sec @ rest) = Some (?p, rest)" for rest
      using d 3 by (simp add: layer_from_host_def data_from_host_def page_sent_def eqs)
    moreover have "planes_ok ?p" using d 3 by (simp add: planes_ok_def page_sent_def Let_def eqs)
    moreover have "layer_to_host ?p q' l' = (if l' = l \<and> q' = q then Some ?sec else layer_to_host p q' l')"
      if "l' < ?L" "q' < ?m" for l' q' using d that 3 by (simp add: layer_to_host_def page_sent_def eqs)
    ultimately show ?thesis by (intro exI [of _ ?sec] exI [of _ ?p]) simp
  qed
qed

subsection \<open>A payload of pages\<close>

lemma from_host_loop_ok:
  assumes "planes_ok src" "planes_ok p" "same_pool_shape src p" "distinct (map snd ts)"
    and "\<forall>(x, q, l)\<in>set ts. x < tk_max_total_pages src \<and> q < tk_max_total_pages p \<and> l < tk_num_layers p"
  shows "\<exists>secs p'. those (map (\<lambda>(x, q, l). layer_to_host src x l) ts) = Some secs
    \<and> from_host_loop (map snd ts) (p, concat secs) = Some (p', []) \<and> planes_only p p'
    \<and> (\<forall>(x, q, l)\<in>set ts. layer_to_host p' q l = layer_to_host src x l)
    \<and> (\<forall>q l. q < tk_max_total_pages p \<longrightarrow> l < tk_num_layers p \<longrightarrow> (q, l) \<notin> snd ` set ts \<longrightarrow>
         layer_to_host p' q l = layer_to_host p q l)"
  using assms
proof (induction ts arbitrary: p)
  case Nil
  show ?case by simp
next
  case (Cons t ts)
  obtain x q l where t: "t = (x, q, l)" by (cases t) auto
  have in_range: "x < tk_max_total_pages src" "q < tk_max_total_pages p" "l < tk_num_layers p" using Cons.prems(5) t by auto
  from layer_from_host_ok [OF Cons.prems(1-3) in_range(3,1,2)] obtain sec p1 where
    s: "layer_to_host src x l = Some sec" "\<And>rest. layer_from_host q l (p, sec @ rest) = Some (p1, rest)" and f: "planes_only p p1"
    and ok: "planes_ok p1" and r: "\<And>l' q'. l' < tk_num_layers p \<Longrightarrow> q' < tk_max_total_pages p \<Longrightarrow>
         layer_to_host p1 q' l' = (if l' = l \<and> q' = q then Some sec else layer_to_host p q' l')" by blast
  have sh: "tk_max_total_pages p1 = tk_max_total_pages p" "tk_num_layers p1 = tk_num_layers p" "same_pool_shape src p1"
    using f Cons.prems(3) by (auto simp: planes_only_def same_pool_shape_def)
  have ih: "\<forall>(x, q, l)\<in>set ts. x < tk_max_total_pages src \<and> q < tk_max_total_pages p1 \<and> l < tk_num_layers p1"
    using Cons.prems(5) sh by simp
  from Cons.IH [OF Cons.prems(1) ok sh(3) _ ih] Cons.prems(4) obtain secs p' where
    i: "those (map (\<lambda>(x, q, l). layer_to_host src x l) ts) = Some secs" "from_host_loop (map snd ts) (p1, concat secs) = Some (p', [])"
    "planes_only p1 p'" and same: "\<forall>(x, q, l)\<in>set ts. layer_to_host p' q l = layer_to_host src x l"
    and other: "\<And>q l. q < tk_max_total_pages p \<Longrightarrow> l < tk_num_layers p \<Longrightarrow> (q, l) \<notin> snd ` set ts \<Longrightarrow>
         layer_to_host p' q l = layer_to_host p1 q l"
    using sh by auto
  have "(q, l) \<notin> snd ` set ts" using Cons.prems(4) t by simp
  then have here: "layer_to_host p' q l = layer_to_host src x l" using other r in_range s(1) by simp
  have "planes_only p p'" using f i(3) by (auto simp: planes_only_def)
  moreover have "layer_to_host p' q' l' = layer_to_host p q' l'"
    if "q' < tk_max_total_pages p" "l' < tk_num_layers p" "(q', l') \<notin> snd ` set (t # ts)" for q' l'
    using other [of q' l'] r [of l' q'] that t by auto
  ultimately show ?case using s i same here t by (intro exI [of _ "sec # secs"] exI [of _ p']) simp
qed

lemma plane_slice_length: "plane_slice plane l n x = Some xs \<Longrightarrow> length xs = n"
  by (auto simp: plane_slice_def slice_def bind_eq_Some_conv split: if_splits)

lemma layer_to_host_length:
  assumes "layer_to_host p x l = Some sec"
  shows "length sec * tk_num_layers p = storage_bytes_per_page p"
proof -
  have "length sec = (if has_scales (tk_format p) then 2 * (scale_len p * 4) else 0)
      + (if has_norms (tk_format p) then 2 * (scale_len p * 2) else 0) + 2 * token_bytes p"
    using assms by (auto simp: layer_to_host_def bind_eq_Some_conv plane_slice_length split: if_splits)
  then show ?thesis by (auto simp: storage_bytes_per_page_def scale_len_def token_bytes_def algebra_simps)
qed

lemma copy_page_eq:
  assumes "\<And>l. l < tk_num_layers p \<Longrightarrow> layer_to_host p' q l = layer_to_host p x l" "tk_num_layers p' = tk_num_layers p"
  shows "copy_pages_to_host [q] p' = copy_pages_to_host [x] p"
proof -
  have "map (layer_to_host p' q) [0..<tk_num_layers p] = map (layer_to_host p x) [0..<tk_num_layers p]" using assms(1) by simp
  then show ?thesis using assms(2) by (simp add: copy_pages_to_host_def o_def del: map_eq_conv)
qed

definition page_pairs :: "nat list \<Rightarrow> nat list \<Rightarrow> nat \<Rightarrow> (nat \<times> nat \<times> nat) list" where
  "page_pairs xs qs L = concat (map (\<lambda>(x, q). map (\<lambda>l. (x, q, l)) [0..<L]) (zip xs qs))"

lemma page_pairs_products:
  assumes "length xs = length qs"
  shows "map snd (page_pairs xs qs L) = List.product qs [0..<L]" "map (\<lambda>(x, q, l). (x, l)) (page_pairs xs qs L) = List.product xs [0..<L]"
  using assms by (induction xs qs rule: list_induct2) (simp_all add: page_pairs_def o_def)

lemma set_page_pairs: "set (page_pairs xs qs L) = {(x, q, l). (x, q) \<in> set (zip xs qs) \<and> l < L}"
  by (auto simp: page_pairs_def)

lemma length_concat_all: "(\<And>x. x \<in> set xs \<Longrightarrow> length x * L = n) \<Longrightarrow> length (concat xs) * L = length xs * n"
  by (induction xs) (simp_all add: algebra_simps)

text \<open>
  (C14) A payload of pages taken from one pool and written into as many distinct pages of another pool of
  the same shape, both as \<open>pool_reached\<close> describes and of a format other than INT4 (whose buffers are
  too small for it, see \<open>int4_copy_out_of_range\<close>): neither side panics, the payload has \<open>storage_bytes_per_page\<close> bytes a page, each
  destination page then has the bytes of its source page, and no other page of the destination has changed.
\<close>

theorem page_payload_roundtrip:
  assumes "pool_reached src R" "pool_reached dst R'" "same_pool_shape src dst" "tk_format src \<noteq> INT4" "length xs = length qs" "distinct qs"
    and "set xs \<subseteq> {..<tk_max_total_pages src}" "set qs \<subseteq> {..<tk_max_total_pages dst}"
  shows "\<exists>payload dst'. copy_pages_to_host xs src = Some payload \<and> length payload = length xs * storage_bytes_per_page src
    \<and> copy_pages_from_host qs payload dst = Some (Inr (), dst') \<and> planes_only dst dst' \<and> pool_reached dst' R'
    \<and> (\<forall>i<length qs. copy_pages_to_host [qs ! i] dst' = copy_pages_to_host [xs ! i] src)
    \<and> (\<forall>q<tk_max_total_pages dst. q \<notin> set qs \<longrightarrow> copy_pages_to_host [q] dst' = copy_pages_to_host [q] dst)"
proof -
  let ?L = "tk_num_layers dst" and ?ts = "page_pairs xs qs (tk_num_layers dst)"
  have "tk_format dst \<noteq> INT4" using assms(3,4) by (simp add: same_pool_shape_def)
  then have ok: "planes_ok src" "planes_ok dst" using pool_reachedD(2) assms(1,2,4) by blast+
  have sh: "tk_num_layers src = ?L" "storage_bytes_per_page dst = storage_bytes_per_page src"
    using assms(3) same_pool_shape_bytes [OF assms(3)] by (simp_all add: same_pool_shape_def)
  note pr = page_pairs_products [OF assms(5), of ?L]
  have d: "distinct (map snd ?ts)" unfolding pr(1) using assms(6) by (simp add: distinct_product)
  have r: "\<forall>(x, q, l)\<in>set ?ts. x < tk_max_total_pages src \<and> q < tk_max_total_pages dst \<and> l < ?L"
    using assms(7,8) by (auto simp: set_page_pairs dest: set_zip_leftD set_zip_rightD)
  from from_host_loop_ok [OF ok assms(3) d r] obtain secs dst' where
    s: "those (map (\<lambda>(x, q, l). layer_to_host src x l) ?ts) = Some secs" "from_host_loop (map snd ?ts) (dst, concat secs) = Some (dst', [])"
    and po: "planes_only dst dst'" and same: "\<forall>(x, q, l)\<in>set ?ts. layer_to_host dst' q l = layer_to_host src x l"
    and other: "\<And>q l. q < tk_max_total_pages dst \<Longrightarrow> l < ?L \<Longrightarrow> (q, l) \<notin> snd ` set ?ts \<Longrightarrow> layer_to_host dst' q l = layer_to_host dst q l"
    by blast
  have L': "tk_num_layers dst' = ?L" using planes_only_shape [OF po] shape_ofD(2) by blast
  have sends: "those (map (\<lambda>(x, l). layer_to_host src x l) (List.product xs [0..<?L])) = Some secs"
    using s(1) unfolding pr(2) [symmetric] by (simp add: case_prod_unfold o_def)
  then have to: "copy_pages_to_host xs src = Some (concat secs)" by (simp add: copy_pages_to_host_def sh)
  have len: "length (concat secs) = length xs * storage_bytes_per_page src"
  proof (cases "?L = 0")
    case True
    moreover have "List.product xs ([] :: nat list) = []" by (induction xs) simp_all
    ultimately show ?thesis using sends sh by (simp add: storage_bytes_per_page_def)
  next
    case False
    have "length sec * ?L = storage_bytes_per_page src" if mem: "sec \<in> set secs" for sec
    proof -
      obtain i where "i < length secs" "secs ! i = sec" using mem by (auto simp: in_set_conv_nth)
      then have "\<exists>x l. layer_to_host src x l = Some sec" using those_map_SomeD [OF sends] by (cases "List.product xs [0..<?L] ! i") (force dest: spec [of _ i])
      then show ?thesis using layer_to_host_length [of src] sh(1) by auto
    qed
    then have "length (concat secs) * ?L = length secs * storage_bytes_per_page src" by (rule length_concat_all)
    moreover have "length secs = length xs * ?L" using those_map_SomeD [OF sends] by (simp add: length_product)
    ultimately show ?thesis using False by simp
  qed
  have "copy_pages_from_host qs (concat secs) dst = Some (Inr (), dst')"
    using s(2) len assms(5) unfolding pr(1) by (simp add: copy_pages_from_host_def sh)
  moreover from this have "pool_reached dst' R'" using assms(2) unfolding pool_reached_def
    by (blast intro: rtranclp.rtrancl_into_rtrancl step_upload)
  moreover have "copy_pages_to_host [qs ! i] dst' = copy_pages_to_host [xs ! i] src" if "i < length qs" for i
    using same that assms(5) L' sh by (intro copy_page_eq) (auto simp: set_page_pairs set_zip)
  moreover have "copy_pages_to_host [q] dst' = copy_pages_to_host [q] dst" if "q < tk_max_total_pages dst" "q \<notin> set qs" for q
    using other [OF that(1)] that(2) arg_cong [OF pr(1), of set] L' by (intro copy_page_eq) auto
  ultimately show ?thesis using to len po by blast
qed

definition demo_upload :: token_kv_pool where
  "demo_upload = snd (the (copy_pages_from_host [1] (map word_of_nat [7..<71]) demo_pool2))"

lemma demo_upload_run:
  "copy_pages_from_host [1] (map word_of_nat [7..<71]) demo_pool2 = Some (Inr (), demo_upload)"
  "copy_pages_to_host [1] demo_upload = Some (map word_of_nat [7..<71])" "tk_max_total_pages demo_upload = 4"
  "same_pool_shape demo_upload demo_pool0" "tk_format demo_upload \<noteq> INT4" "storage_bytes_per_page demo_upload = 64"
  by code_simp+

theorem page_payload_roundtrip_witness:
  "\<exists>dst'. copy_pages_from_host [3] (map word_of_nat [7..<71]) demo_pool0 = Some (Inr (), dst')
    \<and> copy_pages_to_host [3] dst' = Some (map word_of_nat [7..<71])"
proof -
  have src: "pool_reached demo_upload {#0, 1#}" using demo_pool_reached demo_upload_run(1) unfolding pool_reached_def
    by (blast intro: rtranclp.rtrancl_into_rtrancl step_upload)
  have dst: "pool_reached demo_pool0 {#}" using demo_pool_run(6) unfolding pool_reached_def demo_pool0_def
    by (intro exI [of _ "1::nat"] exI [of _ "4::nat"] exI [of _ "256::nat"] exI [of _ BF16] exI [of _ "{#}"]) (simp add: bytes_per_element_def)
  show ?thesis using page_payload_roundtrip [OF src dst demo_upload_run(4,5), of "[1]" "[3]"] demo_upload_run(2,3,6) demo_pool_run(6)
    by (auto simp del: upt_rec_numeral upt_conv_Cons)
qed

subsection \<open>The metadata of a batch\<close>

lemma as_i32_small: "n < 2 ^ 31 \<Longrightarrow> as_i32 n = int n"
  unfolding as_i32_def by (simp add: signed_of_nat signed_take_bit_int_eq_self)

lemma i32_add_small: "a + b < 2 ^ 31 \<Longrightarrow> i32_add (int a) (int b) = int (a + b)"
  using as_i32_small [of "a + b"] by (simp add: i32_add_def as_i32_def)

lemma indptr_loop_nth:
  assumes "a + length (concat tables) < 2 ^ 31"
  shows "length (indptr_loop tables (int a)) = Suc (length tables)
    \<and> (\<forall>i\<le>length tables. indptr_loop tables (int a) ! i = int (a + length (concat (take i tables))))"
  using assms
proof (induction tables arbitrary: a)
  case (Cons t ts)
  have "i32_add (int a) (as_i32 (length t)) = int (a + length t)" using Cons.prems by (simp add: as_i32_small i32_add_small)
  then show ?case using Cons.IH [of "a + length t"] Cons.prems by (auto simp: nth_Cons split: nat.splits)
qed simp

lemma concat_segment:
  "i < length xss \<Longrightarrow> take (length (concat (take (Suc i) xss)) - length (concat (take i xss))) (drop (length (concat (take i xss))) (concat xss))
    = xss ! i"
proof -
  assume i: "i < length xss"
  have "concat xss = concat (take i xss) @ xss ! i @ concat (drop (Suc i) xss)"
    by (subst id_take_nth_drop [OF i]) simp
  then show ?thesis using i by (simp add: take_Suc_conv_app_nth)
qed

lemma pool_reached_page_size: "pool_reached p R \<Longrightarrow> tk_page_size p \<le> 16"
proof -
  assume "pool_reached p R"
  then obtain L H D S B f W where run: "kv_step\<^sup>*\<^sup>* (with_format L H D S B f, {#}, {#}) (p, R, W)"
    unfolding pool_reached_def by blast
  from shape_ofD(4) [OF reached_shape(1) [OF run]] show ?thesis
    by (auto simp: with_format_def Let_def default_page_size_def split: kv_format.splits)
qed

lemma table_page_small: "pool_reached p R \<Longrightarrow> slot < tk_num_slots p \<Longrightarrow> q \<in> set (tk_page_indices p ! slot) \<Longrightarrow> q < 2 ^ 31"
  using pool_reachedD [of p R] slot_page_attached [of p _ R slot q] kv_okD(1) [of p _ R] by (fastforce simp: counts_ok_def)

lemma last_page_len_tokens:
  assumes "tight slot p" "0 < tk_page_size p"
  shows "length (tk_page_indices p ! slot) * tk_page_size p + slot_last_page_len slot p
    = tk_seq_lens p ! slot + (if tk_seq_lens p ! slot = 0 then 0 else tk_page_size p)"
  using assms(1) div_ceil_fill [OF assms(2), of "tk_seq_lens p ! slot"] mod_less_divisor [OF assms(2), of "tk_seq_lens p ! slot"]
  by (auto simp: tight_def slot_last_page_len_def slot_hot_tail_len_def)

text \<open>
  (C31) The metadata of a batch of slots never panics and no entry wraps as long as the tables of the batch
  have fewer than \<open>2^31\<close> entries together: each slot's table is the segment of the indices between its two
  pointers, and where the table is as long as the tokens need, the pointers and \<open>last_page_len\<close> give
  back the number of tokens; the separate builders return the same arrays.
\<close>

theorem batch_metadata_faithful:
  assumes "pool_reached p R" "set slots \<subseteq> {..<tk_num_slots p}"
    and "(\<Sum>slot\<leftarrow>slots. length (tk_page_indices p ! slot)) < 2 ^ 31"
  shows "\<exists>m. build_paged_kv_metadata slots p = Some m \<and> build_indptr slots p = Some (pm_indptr m)
    \<and> build_indices slots p = Some (pm_indices m) \<and> build_last_page_lens slots p = Some (pm_last_page_len m)
    \<and> length (pm_indptr m) = Suc (length slots) \<and> pm_indptr m ! 0 = 0 \<and> length (pm_last_page_len m) = length slots
    \<and> (\<forall>i<length slots. let first = pm_indptr m ! i; next = pm_indptr m ! Suc i; ps = tk_page_size p in
         map nat (take (nat (next - first)) (drop (nat first) (pm_indices m))) = tk_page_indices p ! (slots ! i)
         \<and> (tight (slots ! i) p \<longrightarrow> int (tk_seq_lens p ! (slots ! i)) =
              (if next = first then 0 else (next - first - 1) * int ps + pm_last_page_len m ! i)))"
proof -
  obtain W where kv: "kv_ok p W R" using pool_reachedD(1) [OF assms(1)] by blast
  note ok = kv_okD [OF kv]
  let ?ts = "map ((!) (tk_page_indices p)) slots" and ?ps = "tk_page_size p"
  let ?lens = "map (\<lambda>slot. as_i32 (slot_last_page_len slot p)) slots"
  define m where "m = \<lparr>pm_indptr = indptr_loop ?ts 0, pm_indices = map as_i32 (concat ?ts), pm_last_page_len = ?lens\<rparr>"
  have tabs: "slot_tables slots p = Some ?ts"
    unfolding slot_tables_def using assms(2) ok(3) by (intro those_map_Some) auto
  have lens: "build_last_page_lens slots p = Some ?lens"
    using assms(2) ok(4) by (auto simp: build_last_page_lens_def list_all_iff)
  have built: "build_paged_kv_metadata slots p = Some m" "build_indptr slots p = Some (pm_indptr m)"
    "build_indices slots p = Some (pm_indices m)" "build_last_page_lens slots p = Some (pm_last_page_len m)"
    using tabs lens by (simp_all add: build_paged_kv_metadata_def build_indptr_def build_indices_def m_def)
  have total: "0 + length (concat ?ts) < 2 ^ 31" using assms(3) by (simp add: length_concat o_def)
  have ptr: "length (pm_indptr m) = Suc (length slots)"
    "\<And>i. i \<le> length slots \<Longrightarrow> pm_indptr m ! i = int (length (concat (take i ?ts)))"
    using indptr_loop_nth [OF total] by (simp_all add: m_def)
  have pages: "map nat (pm_indices m) = concat ?ts"
  proof -
    have "nat (as_i32 q) = q" if "slot \<in> set slots" "q \<in> set (tk_page_indices p ! slot)" for slot q
      using as_i32_small [OF table_page_small [OF assms(1) _ that(2)]] that(1) assms(2) by auto
    then show ?thesis unfolding m_def by (auto intro!: map_idI)
  qed
  have entry: "map nat (take (nat (pm_indptr m ! Suc i - pm_indptr m ! i)) (drop (nat (pm_indptr m ! i)) (pm_indices m)))
      = tk_page_indices p ! (slots ! i)"
    "pm_indptr m ! Suc i - pm_indptr m ! i = int (length (tk_page_indices p ! (slots ! i)))" if "i < length slots" for i
  proof -
    have step: "length (concat (take (Suc i) ?ts)) = length (concat (take i ?ts)) + length (tk_page_indices p ! (slots ! i))"
      using that by (simp add: take_Suc_conv_app_nth)
    then show "pm_indptr m ! Suc i - pm_indptr m ! i = int (length (tk_page_indices p ! (slots ! i)))"
      using that by (simp add: ptr(2))
    then show "map nat (take (nat (pm_indptr m ! Suc i - pm_indptr m ! i)) (drop (nat (pm_indptr m ! i)) (pm_indices m)))
      = tk_page_indices p ! (slots ! i)"
      using concat_segment [of i ?ts] that step ptr(2) [of i] by (simp add: pages take_map [symmetric] drop_map [symmetric] del: concat.simps)
  qed
  have tokens: "int (tk_seq_lens p ! slot) = (if n = 0 then 0 else (int n - 1) * int ?ps + as_i32 (slot_last_page_len slot p))"
    if t: "tight slot p" and n: "n = length (tk_page_indices p ! slot)" for slot n
  proof -
    have "slot_last_page_len slot p \<le> ?ps"
      using mod_less_divisor [OF ok(2)] by (auto simp: slot_last_page_len_def slot_hot_tail_len_def intro: less_imp_le)
    then have "as_i32 (slot_last_page_len slot p) = int (slot_last_page_len slot p)"
      using pool_reached_page_size [OF assms(1)] by (intro as_i32_small) simp
    moreover have "n = 0 \<longleftrightarrow> tk_seq_lens p ! slot = 0" using t n ok(2)
      by (cases "tk_seq_lens p ! slot = 0") (auto simp: tight_def div_ceil_def)
    ultimately show ?thesis using last_page_len_tokens [OF t ok(2)] n by (auto simp: algebra_simps simp flip: of_nat_mult of_nat_add)
  qed
  have row: "int (tk_seq_lens p ! (slots ! i)) = (if pm_indptr m ! Suc i = pm_indptr m ! i then 0
      else (pm_indptr m ! Suc i - pm_indptr m ! i - 1) * int ?ps + pm_last_page_len m ! i)"
    if "i < length slots" "tight (slots ! i) p" for i
  proof -
    have "pm_indptr m ! Suc i = pm_indptr m ! i + int (length (tk_page_indices p ! (slots ! i)))"
      using entry(2) [OF that(1)] by simp
    moreover have "pm_last_page_len m ! i = as_i32 (slot_last_page_len (slots ! i) p)" using that(1) by (simp add: m_def)
    ultimately show ?thesis using tokens [OF that(2) refl] by simp
  qed
  have "pm_indptr m ! 0 = 0" "length (pm_last_page_len m) = length slots" using ptr(2) [of 0] by (simp_all add: m_def)
  then show ?thesis using built ptr(1) entry(1) row by (intro exI [of _ m]) (simp add: Let_def)
qed

theorem batch_metadata_faithful_witness:
  "map nat (take 2 (drop 0 (pm_indices (the (build_paged_kv_metadata [0, 3] demo_pool2))))) = [0, 1]
    \<and> pm_last_page_len (the (build_paged_kv_metadata [0, 3] demo_pool2)) ! 0 = 4"
proof -
  have meta: "build_paged_kv_metadata [0, 3] demo_pool2 = Some \<lparr>pm_indptr = [0, 2, 2], pm_indices = [0, 1], pm_last_page_len = [4, 0]\<rparr>"
    by code_simp
  show ?thesis using batch_metadata_faithful [OF demo_pool_reached, of "[0, 3]"] by (auto simp: demo_pool_run(5,8,11) meta)
qed

subsection \<open>Outside these conditions\<close>

text \<open>
  Retaining a page of the free list, which the documentation of \<open>retain_pages\<close> calls safe, and releasing
  it again puts it on the free list a second time, and so does a release with no retain, whose documentation
  only says that the counter stays at zero: two slots then receive the same page.
\<close>

lemma free_page_given_twice:
  "tk_free_pages (snd (the (release_pages [0] (the (retain_pages [0] demo_pool0))))) = [3, 2, 1, 0, 0]"
  "map_option fst (kv_alloc_tokens 0 16 (snd (the (release_pages [0] demo_pool0)))) = Some (Inr [0])"
  "map_option fst (kv_alloc_tokens 1 16 (snd (the (kv_alloc_tokens 0 16 (snd (the (release_pages [0] demo_pool0)))))))
     = Some (Inr [0])"
  by code_simp+

text \<open>A copy-on-write whose device copy fails loses its new page: no table holds page 2 and it is not free.\<close>

lemma cow_failure_leaks_page:
  "map_option fst (cow_tail_page_for_append (\<lambda>_. False) 0 demo_pool2) = Some (Inl DeviceError)"
  "tk_free_pages (snd (the (cow_tail_page_for_append (\<lambda>_. False) 0 demo_pool2))) = [3]"
  "tk_page_indices (snd (the (cow_tail_page_for_append (\<lambda>_. False) 0 demo_pool2))) = [[0, 1], [], [], []]"
  by code_simp+

text \<open>An attach that fails at its second page has counted the first one.\<close>

lemma failed_attach_keeps_counts:
  "map_option fst (attach_pages 1 [0, 3] 20 demo_pool2) = Some (Inl PageNotLive)"
  "tk_attach_count demo_pool2 = [1, 1, 0, 0]"
  "tk_attach_count (snd (the (attach_pages 1 [0, 3] 20 demo_pool2))) = [2, 1, 0, 0]"
  by code_simp+

text \<open>
  The INT4 buffers have half a byte an element and the copies take one byte an element: the last page of
  an INT4 pool cannot be read, nor written.
\<close>

lemma int4_copy_out_of_range:
  "tk_max_total_pages (with_format 1 1 2 2 0 INT4) = 2"
  "copy_pages_to_host [1] (with_format 1 1 2 2 0 INT4) = None"
  "copy_page_device_to_device (\<lambda>_. True) 0 1 (with_format 1 1 2 2 0 INT4) = None"
  by code_simp+

end
