(* ===== verification/Spec2Isabelle.thy ===== *)
theory Spec2Isabelle
  imports Radix_Account Radix_Meta Batch_Props Metal_Props Slot_Props Page_Budget Host_Props Kv_Wal Disk_Props
    Coordinator_Props Parallel_Props Encoder_Props Engine_Props Paged_Payload
begin

text \<open>
  Verification of the KV-cache and scheduling core of the inference engine. Paths are relative to
  \<open>src/infer/src\<close> unless they start with \<open>crates/\<close>.

  \<^bold>\<open>The program.\<close> The engine serves requests with a transformer whose keys and values live in
  fixed-size blocks. Four layers decide what happens to those blocks.
  The \<^emph>\<open>memory\<close> layer owns the blocks: the block pool (\<open>block_manager.rs\<close>), the slot ledger of the
  Metal backend (\<open>backend/metal/kv_pool.rs\<close>), the paged pool of the CUDA backend
  (\<open>crates/cuda-kernels/src/paged_kv.rs\<close>) and the page budget of its scheduler
  (\<open>scheduler/cuda/budget.rs\<close>). The \<^emph>\<open>prefix cache\<close> (\<open>prefix_cache.rs\<close>) is a radix tree that maps
  prompt prefixes to blocks, so that a request reuses what an earlier one computed. The
  \<^emph>\<open>schedulers\<close> (\<open>scheduler/batch.rs\<close>, \<open>backend/metal/scheduler.rs\<close>) turn queues of requests into a
  serving plan per tick (\<open>scheduler/plan.rs\<close>). The \<^emph>\<open>tiers\<close> below the device hold evicted blocks: a
  pinned host arena (\<open>crates/kv-native-sys/src/lib.rs\<close>, \<open>kv_tier/host_pool.rs\<close>), block stores on
  disk and on a shared file system (\<open>kv_tier/transport\<close>) and a write-ahead log; a worker, the tier
  coordinator (\<open>kv_tier/coordinator.rs\<close>), moves blocks between them on the order of the scheduler.
  Around these layers stand three parts that decide who computes what: the \<^emph>\<open>parallel layout\<close>
  (\<open>tensor_parallel.rs\<close>, \<open>distributed\<close>) gives every rank its shard, its groups and its experts; the
  \<^emph>\<open>encoder cache\<close> (\<open>vision\<close>) keeps the encodings of media under their hash; the \<^emph>\<open>engine pool\<close>
  (\<open>server_engine/pool.rs\<close>) loads and unloads whole models under a memory budget.

  \<^bold>\<open>Theories.\<close>
  \<^item> \<open>Prelude\<close>, \<open>Float32\<close>, \<open>Rust_Ordering\<close>, \<open>Rust_Bytes\<close>: association-list maps with the operations of
    \<open>HashMap\<close>, binary32 arithmetic, comparison functions with \<open>sort_by\<close> and \<open>min_by\<close> (locale
    \<open>comparison\<close>), bytes and hexadecimal digits.
  \<^item> \<open>Kv_Types\<close>: the shared identifiers, tiers and states (\<open>types.rs\<close>, \<open>kv_tier/tier.rs\<close>,
    \<open>kv_tier/chunk.rs\<close>, \<open>kv_tier/lookup.rs\<close>). \<open>Sched_Policy\<close>: \<open>scheduler/policy.rs\<close>.
  \<^item> \<open>Block_Manager\<close>: \<open>block_manager.rs\<close>; its invariant counts every block once over free and used.
  \<^item> \<open>Radix_Model\<close> (operations), \<open>Radix_Ops\<close> (metadata, accounting, snapshots), \<open>Radix_Inv\<close> and
    \<open>Radix_Store\<close> (invariant and the node store), \<open>Radix_Insert\<close>, \<open>Radix_Lookup\<close>, \<open>Radix_Stage\<close>,
    \<open>Radix_Evict\<close>, \<open>Radix_Account\<close>, \<open>Radix_Meta\<close>: \<open>prefix_cache.rs\<close>. The invariant says that the
    arena is a tree with disjoint edges, that free slots are unreachable and that the reverse index
    is the set of blocks in the tree. The refinement theorems relate insertion, lookup and eviction
    to a partial function from token lists to blocks. Leases are exact as long as every insertion was
    safe (\<open>publish_safe\<close>), which the code does not check and a second eviction ends.
  \<^item> \<open>Serve_Plan\<close>, \<open>Batch_Scheduler\<close>, \<open>Batch_Safety\<close>, \<open>Batch_Props\<close>: \<open>scheduler/plan.rs\<close> and
    \<open>scheduler/batch.rs\<close>; reachable states, ownership of blocks, budgets, progress of a chunked prefill.
  \<^item> \<open>Metal_Scheduler\<close>, \<open>Metal_Inv\<close>, \<open>Metal_Props\<close>: \<open>backend/metal/scheduler.rs\<close>; the locale
    \<open>comparison\<close> is interpreted on its three orders.
  \<^item> \<open>Slot_Ledger\<close>, \<open>Slot_Inv\<close>, \<open>Slot_Props\<close>: \<open>backend/metal/kv_pool.rs\<close>. \<open>Page_Budget\<close>:
    \<open>scheduler/cuda/budget.rs\<close>.
  \<^item> \<open>Paged_Kv\<close> (operations), \<open>Paged_Props\<close> (invariant over the steps of its clients), \<open>Paged_Planes\<close>
    (buffers and copies), \<open>Paged_Append\<close>, \<open>Paged_Payload\<close>: \<open>crates/cuda-kernels/src/paged_kv.rs\<close> and
    \<open>kv_types.rs\<close>. Pages are counted once for each table entry, each retain and each failed operation that
    lost them, and free exactly when nothing holds them; what clients must keep to is written in
    \<open>kv_step\<close>. In pools of every format but INT4, whose buffers are too small for the copies of the
    code, an append writes pages that nobody else holds, copying a shared tail page first, and takes the
    pages it announced, and payloads of pages can be read back; so can the metadata of a batch, in any format.
  \<^item> \<open>Host_Arena\<close>, \<open>Host_Props\<close>: the host arena and the pinned pool; free and live regions partition
    the bytes below the bump pointer. \<open>Kv_Wal\<close>: the log. \<open>Disk_Store\<close>, \<open>Disk_Props\<close>: files, block
    headers and the store; the abstraction is a map from fingerprints to payloads. A file is replaced by
    a sequence of system calls, and the states in which it can stop are computed from that sequence.
  \<^item> \<open>Kv_Backend\<close>, \<open>Backend_Props\<close>: blocks, handles and payloads (\<open>kv_tier/chunk.rs\<close>, \<open>kv_tier/io.rs\<close>)
    and the trait \<open>KVBackend\<close> as the locale \<open>kv_backend\<close>, which the disk store and the shared file
    system both give. \<open>Coord_Control\<close>, \<open>Coord_Props\<close>: tickets, counters and cancellation of the
    coordinator (\<open>kv_tier/coordinator/control.rs\<close>, \<open>types.rs\<close>, \<open>builder.rs\<close>) as a step relation in which
    clients and worker interleave after every atomic action of the control. \<open>Coordinator\<close>, \<open>Coordinator_Props\<close>: the handlers of the worker
    and readmission plans (\<open>kv_tier/coordinator.rs\<close>, \<open>kv_tier/readmission.rs\<close>); a fetch delivers or
    releases, a store persists where it is configured and no file of the same name is there, and what was
    stored comes back.
  \<^item> \<open>Parallel_Layout\<close>, \<open>Parallel_Props\<close>: shards, rank groups, pipeline stages and experts
    (\<open>tensor_parallel.rs\<close>, \<open>distributed/parallel_state.rs\<close>, \<open>pipeline_state.rs\<close>, \<open>expert_state.rs\<close>).
    The group builders are shown equal to what the coordinates of the ranks say, routing over the
    expert ranks loses nothing, and the two mask formulas agree.
  \<^item> \<open>Encoder_Cache\<close>, \<open>Encoder_Props\<close>: \<open>vision/encoder_cache.rs\<close>, which refines a list ordered by
    recency, and \<open>vision/hash.rs\<close>. \<open>Engine_Pool\<close>, \<open>Engine_Props\<close>: \<open>server_engine/pool.rs\<close>, with the
    leases as a step relation; the invariant counts the leases of every loaded model.

  \<^bold>\<open>Conventions.\<close> Structs are records, enums datatypes, errors the left side of a sum. \<open>None\<close> as the
  result of an operation is a panic or a loop that does not return; every theorem about such an
  operation proves \<open>Some\<close>. A \<open>HashMap\<close> is an association list (its order stands for the unspecified
  iteration order) and a \<open>Vec\<close> a list. Counters of 64 bits are naturals with the saturating and
  checked operations of the code against \<open>usize_max\<close> and \<open>u64_max\<close>; \<open>f32\<close> scores are exact binary32
  values. Logging and metrics counters are left out.

  \<^bold>\<open>Termination.\<close> Walks down the radix tree take the arena size plus one as fuel, which is enough
  because the invariant makes the tree acyclic with distinct nodes; insertion consumes tokens; the
  eviction loop is \<open>partial_function\<close> and proved total; preemption recurses on the running set; the
  encoder cache shrinks with each victim; the
  arena rewinds along its free list and the log decodes a shorter input in each step.

  \<^bold>\<open>Parameters.\<close> The event sink and the draft scores are arguments. The header codec of the disk
  store and the descriptor codec of the shared file system (the \<open>postcard\<close> library) are pairs of
  functions with the hypotheses \<open>codec_ok\<close> and \<open>desc_codec_ok\<close> (locale \<open>postcard\<close>), shown satisfiable
  by fixed-width codecs. What another thread does while a handler of the coordinator runs (a
  cancellation, room in the event channel) comes from an environment that the theorems quantify over;
  they assume that the pools of a handler are not used by another thread meanwhile.
  The hash function of media (\<open>blake3\<close>), the loader of an engine and the clock are arguments. Whether a
  copy between device buffers is launched is an argument (\<open>launch\<close>) of the operations of the paged pool;
  every theorem quantifies over it, and its copies between host and device are taken to succeed. Operations
  run in release builds unless a definition says otherwise (\<open>shared_backend_store_debug\<close>).

  \<^bold>\<open>Not modelled.\<close> Device code and tensors (\<open>model\<close>, \<open>ops\<close>, \<open>backend\<close> apart from the two files
  named, the NCCL communicators, \<open>crates/cuda-kernels\<close> apart from the two files of the paged pool, of which
  the migration kernels, the device pointers and the split-KV workspace are left out, \<open>crates/mlx-sys\<close>):
  numerical kernels and foreign calls. The CUDA
  scheduler's execution files, which interleave its policies with device calls. HTTP, tokenizers,
  weight loading, the training and autograd crates, the command line. The remote transport over RDMA
  (\<open>kv_tier/transport/nixl.rs\<close>), a stub over a library that is not here. Page mappings, locks and
  threads of the modelled parts, apart from the interleavings a theorem names; what a loss of power does to
  files.
\<close>

end
